(* ===== verification/Prelude.thy ===== *)
theory Prelude
  imports Main "HOL-Library.Word" "HOL-Library.Monad_Syntax"
begin

text \<open>
  Shared vocabulary of the development: the machine types of the compiler's C++ sources,
  the failure convention, sequencing combinators for state-passing code, and the generic
  facts about lists, maps and words that the component theories use.

  Conventions.
  \<^item> \<open>uint64_t\<close>, \<open>unsigned\<close> and \<open>uint8_t\<close> are \<open>64 word\<close>, \<open>32 word\<close> and \<open>8 word\<close>; their
    arithmetic wraps around as in C++.
  \<^item> An object address (\<open>RootObject *\<close>) is a \<open>64 word\<close>; the null pointer is \<open>0\<close>.
  \<^item> Code that may hit a failing \<open>assert\<close>, call \<open>fatal()\<close>, read past the end of a vector or
    recurse for ever returns an \<open>option\<close>; \<open>None\<close> stands for that failure.
  \<^item> \<open>llvm::DenseMap\<close> and \<open>std::map\<close> are partial functions.
\<close>

named_theorems pgo_simps \<open>unfolding rules of the profile-guided-optimisation model\<close>
named_theorems abi_simps \<open>unfolding rules of the calling-convention model\<close>
named_theorems drv_simps \<open>unfolding rules of the driver model\<close>

section \<open>Machine types\<close>

type_synonym u8 = "8 word"
type_synonym u32 = "32 word"
type_synonym u64 = "64 word"
type_synonym ptr = "64 word"

abbreviation nullptr :: ptr where
  "nullptr \<equiv> 0"

section \<open>Sequencing of short-circuit evaluation\<close>

text \<open>
  A boolean C++ expression with side effects is a function from the state to a truth value
  and a new state, or a failure. \<open>orelse\<close> is the operator \<open>||\<close>: the right operand is
  evaluated only when the left one is false. \<open>void\<close> discards the truth value, as an
  expression statement does.
\<close>

type_synonym ('s, 'a) act = "'s \<Rightarrow> ('a \<times> 's) option"

definition orelse :: "('s, bool) act \<Rightarrow> ('s, bool) act \<Rightarrow> ('s, bool) act" where
  "orelse m n s = do { (b, s') \<leftarrow> m s; if b then Some (True, s') else n s' }"

definition void :: "('s, bool) act \<Rightarrow> 's \<Rightarrow> 's option" where
  "void m s = map_option snd (m s)"

lemma orelse_assoc: "orelse (orelse a b) c = orelse a (orelse b c)"
  by (rule ext) (auto simp: orelse_def split: Option.bind_splits)

lemma void_SomeE:
  assumes "void m s = Some s'"
  obtains b where "m s = Some (b, s')"
  using assms by (auto simp: void_def)

lemma orelse_SomeE:
  assumes "orelse m n s = Some (b, s')"
  obtains "m s = Some (True, s')" "b" 
    | s1 where "m s = Some (False, s1)" "n s1 = Some (b, s')"
  using assms by (auto simp: orelse_def split: Option.bind_splits if_splits)

section \<open>Assertions\<close>

text \<open>\<open>ensure b\<close> is \<open>assert(b)\<close>, or a test that ends in \<open>fatal()\<close> when \<open>b\<close> is false.\<close>

definition ensure :: "bool \<Rightarrow> unit option" where
  "ensure b = (if b then Some () else None)"

lemma ensure_bind [simp]: "ensure b \<bind> f = (if b then f () else None)"
  by (simp add: ensure_def)

section \<open>Iteration over a list with failure\<close>

fun iterM :: "('a \<Rightarrow> 's \<Rightarrow> 's option) \<Rightarrow> 'a list \<Rightarrow> 's \<Rightarrow> 's option" where
  "iterM f [] s = Some s"
| "iterM f (x # xs) s = do { s' \<leftarrow> f x s; iterM f xs s' }"

lemma iterM_append: "iterM f (xs @ ys) s = do { s' \<leftarrow> iterM f xs s; iterM f ys s' }"
  by (induction xs arbitrary: s) (auto split: Option.bind_splits)

lemma iterM_Nil_fun [simp]: "iterM f [] = Some"
  by (rule ext) simp

lemma iterM_single [simp]: "iterM f [x] = f x"
  by (rule ext) simp

lemma iterM_map: "iterM f (map g xs) = iterM (\<lambda>x. f (g x)) xs"
proof
  show "iterM f (map g xs) s = iterM (\<lambda>x. f (g x)) xs s" for s
    by (induction xs arbitrary: s) (auto split: Option.bind_splits)
qed

lemma iterM_invariant:
  assumes "iterM f xs s = Some s'" "I s" "\<And>x s s'. x \<in> set xs \<Longrightarrow> I s \<Longrightarrow> f x s = Some s' \<Longrightarrow> I s'"
  shows "I s'"
  using assms
proof (induction xs arbitrary: s)
  case (Cons x xs)
  from Cons.prems(1) obtain s1 where "f x s = Some s1" "iterM f xs s1 = Some s'"
    by (auto split: Option.bind_splits)
  moreover from Cons.prems(3) [of x s s1] this(1) Cons.prems(2) have "I s1" by simp
  ultimately show ?case using Cons.IH Cons.prems(3) by (metis list.set_intros(2))
qed simp

lemma iterM_Some:
  assumes "\<And>x. x \<in> set xs \<Longrightarrow> f x = (\<lambda>s. Some (g x s))"
  shows "iterM f xs s = Some (fold g xs s)"
  using assms by (induction xs arbitrary: s) auto

lemma zip_upt_append:
  "zip (xs @ ys) [n..<n + (length xs + length ys)]
     = zip xs [n..<n + length xs] @ zip ys [n + length xs..<n + length xs + length ys]"
proof -
  have "[n..<n + (length xs + length ys)]
      = [n..<n + length xs] @ [n + length xs..<n + length xs + length ys]"
    using upt_add_eq_append [of n "n + length xs" "length ys"] by (simp add: add.assoc)
  then show ?thesis by simp
qed

section \<open>Lists and words\<close>

lemma unat_of_nat_small: "n < 2 ^ LENGTH('a) \<Longrightarrow> unat (of_nat n :: 'a::len word) = n"
  by (simp add: unat_of_nat take_bit_nat_eq_self)

lemma of_nat_inj_small:
  assumes "m < 2 ^ LENGTH('a)" "n < 2 ^ LENGTH('a)"
    "(of_nat m :: 'a::len word) = of_nat n"
  shows "m = n"
  using assms by (metis unat_of_nat_small)

lemma count_list_zero: "x \<notin> set xs \<Longrightarrow> count_list xs x = 0"
  by (induction xs) auto

end
