(* ===== verification/AST.thy ===== *)
theory AST
  imports Prelude
begin

text \<open>
  The D syntax tree as the code generator sees it after semantic analysis. A value of type
  \<open>'p ast\<close> is a \<^emph>\<open>pointer\<close> to a node: \<^verbatim>\<open>Null\<close> is the null pointer, every other constructor
  is a node class of the front end (dmd/statement.h, dmd/expression.h, dmd/declaration.h,
  dmd/init.h), and its first address argument is the address of the object. Node classes
  that every traversal of the code generator treats alike share a constructor with a class
  tag: \<open>Seq\<close> for the classes whose visit is nothing but a visit of the child nodes in order,
  \<open>Leaf\<close> for those with no child that is ever visited, \<open>Members\<close> for symbol tables. The
  abbreviations at the end give every class its own name and its fields in source order.
  A null \<open>Array\<close> of children behaves like an empty one in every traversal and is \<open>[]\<close>.
\<close>

section \<open>Node classes\<close>

datatype leaf_kind =
  ImportStatement | StaticAssertStatement | MixinStatement | ConditionalStatement
| StaticForeachStatement | AsmStatement
| ErrorStatement | PeelStatement | SwitchErrorStatement | ForwardingStatement
| CaseRangeStatement | GotoDefaultStatement | GotoCaseStatement | GotoStatement
| Expression | Declaration | Initializer | Dsymbol

datatype seq_kind =
  CompoundS | ExpS | ScopeS | SynchronizedS | WithS
| UnaE | BinE | AssertE | CallE | ArrayE | SliceE | ArrayLiteralE | AssocArrayLiteralE
| TupleE | DeclarationE | NewE | NewAnonClassE
| VarD | ExpI

datatype members_kind = AttribD | ScopeD

datatype (plugins only: size code) 'p ast =
  Null
| Leaf leaf_kind 'p
| Seq seq_kind 'p "'p ast list"
| Members members_kind 'p "'p ast list"
| StructLiteralExp 'p u32 "'p ast list"
| ReturnStatement 'p "'p ast"
| ThrowStatement 'p "'p ast"
| ScopeGuardStatement 'p "'p ast"
| PragmaStatement 'p "'p ast"
| DebugStatement 'p "'p ast"
| BreakStatement 'p "'p option"
| ContinueStatement 'p "'p option"
| IfStatement 'p "'p ast" "'p ast" "'p ast"
| WhileStatement 'p "'p ast" "'p ast"
| DoStatement 'p "'p ast" "'p ast"
| ForStatement 'p "'p ast" "'p ast" "'p ast" "'p ast"
| ForeachStatement 'p "'p ast" "'p ast"
| ForeachRangeStatement 'p "'p ast" "'p ast" "'p ast"
| UnrolledLoopStatement 'p "'p ast list"
| LabelStatement 'p "'p ast"
| SwitchStatement 'p "'p ast" "'p ast"
| CaseStatement 'p bool "'p ast"
| DefaultStatement 'p bool "'p ast"
| TryCatchStatement 'p "'p ast" "'p ast list"
| Catch 'p "'p ast"
| TryFinallyStatement 'p "'p ast" "'p ast"
| CondExp 'p "'p ast" "'p ast" "'p ast"
| LogicalExp 'p bool "'p ast" "'p ast"
| FuncDeclaration 'p "'p ast"

section \<open>The classes by name\<close>

abbreviation "CompoundStatement p statements \<equiv> Seq CompoundS p statements"
abbreviation "ExpStatement p exp \<equiv> Seq ExpS p [exp]"
abbreviation "ScopeStatement p statement \<equiv> Seq ScopeS p [statement]"
abbreviation "SynchronizedStatement p exp body \<equiv> Seq SynchronizedS p [exp, body]"
abbreviation "WithStatement p wthis exp body \<equiv> Seq WithS p [wthis, exp, body]"
abbreviation "UnaExp p e1 \<equiv> Seq UnaE p [e1]"
abbreviation "BinExp p e1 e2 \<equiv> Seq BinE p [e1, e2]"
abbreviation "AssertExp p e1 msg \<equiv> Seq AssertE p [e1, msg]"
abbreviation "CallExp p e1 arguments \<equiv> Seq CallE p (e1 # arguments)"
abbreviation "ArrayExp p e1 arguments \<equiv> Seq ArrayE p (e1 # arguments)"
abbreviation "SliceExp p e1 lwr upr \<equiv> Seq SliceE p [e1, lwr, upr]"
abbreviation "ArrayLiteralExp p elements \<equiv> Seq ArrayLiteralE p elements"
abbreviation "AssocArrayLiteralExp p keys vals \<equiv> Seq AssocArrayLiteralE p (keys @ vals)"
abbreviation "TupleExp p e0 exps \<equiv> Seq TupleE p (e0 # exps)"
abbreviation "DeclarationExp p declaration \<equiv> Seq DeclarationE p [declaration]"
abbreviation "NewExp p thisexp argprefix arguments \<equiv> Seq NewE p (thisexp # argprefix # arguments)"
abbreviation "NewAnonClassExp p thisexp arguments \<equiv> Seq NewAnonClassE p (thisexp # arguments)"
abbreviation "VarDeclaration p init edtor \<equiv> Seq VarD p [init, edtor]"
abbreviation "ExpInitializer p exp \<equiv> Seq ExpI p [exp]"
abbreviation "AttribDeclaration p decl \<equiv> Members AttribD p decl"
abbreviation "ScopeDsymbol p members \<equiv> Members ScopeD p members"

section \<open>Which classes are statements\<close>

fun leaf_is_statement :: "leaf_kind \<Rightarrow> bool" where
  "leaf_is_statement Expression = False"
| "leaf_is_statement Declaration = False"
| "leaf_is_statement Initializer = False"
| "leaf_is_statement Dsymbol = False"
| "leaf_is_statement _ = True"

fun seq_is_statement :: "seq_kind \<Rightarrow> bool" where
  "seq_is_statement CompoundS = True"
| "seq_is_statement ExpS = True"
| "seq_is_statement ScopeS = True"
| "seq_is_statement SynchronizedS = True"
| "seq_is_statement WithS = True"
| "seq_is_statement _ = False"

fun is_statement :: "'p ast \<Rightarrow> bool" where
  "is_statement Null = False"
| "is_statement (Leaf k _) = leaf_is_statement k"
| "is_statement (Seq k _ _) = seq_is_statement k"
| "is_statement (Members _ _ _) = False"
| "is_statement (StructLiteralExp _ _ _) = False"
| "is_statement (Catch _ _) = False"
| "is_statement (CondExp _ _ _ _) = False"
| "is_statement (LogicalExp _ _ _ _) = False"
| "is_statement (FuncDeclaration _ _) = False"
| "is_statement _ = True"

section \<open>Addresses\<close>

fun addr :: "ptr ast \<Rightarrow> ptr" where
  "addr Null = nullptr"
| "addr (Leaf _ p) = p"
| "addr (Seq _ p _) = p"
| "addr (Members _ p _) = p"
| "addr (StructLiteralExp p _ _) = p"
| "addr (ReturnStatement p _) = p"
| "addr (ThrowStatement p _) = p"
| "addr (ScopeGuardStatement p _) = p"
| "addr (PragmaStatement p _) = p"
| "addr (DebugStatement p _) = p"
| "addr (BreakStatement p _) = p"
| "addr (ContinueStatement p _) = p"
| "addr (IfStatement p _ _ _) = p"
| "addr (WhileStatement p _ _) = p"
| "addr (DoStatement p _ _) = p"
| "addr (ForStatement p _ _ _ _) = p"
| "addr (ForeachStatement p _ _) = p"
| "addr (ForeachRangeStatement p _ _ _) = p"
| "addr (UnrolledLoopStatement p _) = p"
| "addr (LabelStatement p _) = p"
| "addr (SwitchStatement p _ _) = p"
| "addr (CaseStatement p _ _) = p"
| "addr (DefaultStatement p _ _) = p"
| "addr (TryCatchStatement p _ _) = p"
| "addr (Catch p _) = p"
| "addr (TryFinallyStatement p _ _) = p"
| "addr (CondExp p _ _ _) = p"
| "addr (LogicalExp p _ _ _) = p"
| "addr (FuncDeclaration p _) = p"

text \<open>The child pointers of a node, in the order in which the walker visits them.\<close>

fun children :: "'p ast \<Rightarrow> 'p ast list" where
  "children Null = []"
| "children (Leaf _ _) = []"
| "children (Seq _ _ xs) = xs"
| "children (Members _ _ xs) = xs"
| "children (StructLiteralExp _ _ xs) = xs"
| "children (ReturnStatement _ e) = [e]"
| "children (ThrowStatement _ e) = [e]"
| "children (ScopeGuardStatement _ s) = [s]"
| "children (PragmaStatement _ b) = [b]"
| "children (DebugStatement _ s) = [s]"
| "children (BreakStatement _ _) = []"
| "children (ContinueStatement _ _) = []"
| "children (IfStatement _ c t e) = [c, t, e]"
| "children (WhileStatement _ c b) = [c, b]"
| "children (DoStatement _ b c) = [b, c]"
| "children (ForStatement _ i c b inc) = [i, c, b, inc]"
| "children (ForeachStatement _ a b) = [a, b]"
| "children (ForeachRangeStatement _ l u b) = [l, u, b]"
| "children (UnrolledLoopStatement _ xs) = xs"
| "children (LabelStatement _ s) = [s]"
| "children (SwitchStatement _ c b) = [c, b]"
| "children (CaseStatement _ _ s) = [s]"
| "children (DefaultStatement _ _ s) = [s]"
| "children (TryCatchStatement _ b cs) = b # cs"
| "children (Catch _ h) = [h]"
| "children (TryFinallyStatement _ b f) = [b, f]"
| "children (CondExp _ c a b) = [c, a, b]"
| "children (LogicalExp _ _ a b) = [a, b]"
| "children (FuncDeclaration _ b) = [b]"

lemma size_list_member: "x \<in> set xs \<Longrightarrow> size x \<le> size_list size xs"
  by (induction xs) auto

lemma size_children: "x \<in> set (children a) \<Longrightarrow> size x < size a"
  by (cases a) (fastforce dest: size_list_member)+

text \<open>Induction over trees through their children.\<close>

lemma ast_children_induct [case_names node]:
  assumes "\<And>a. (\<And>x. x \<in> set (children a) \<Longrightarrow> P x) \<Longrightarrow> P a"
  shows "P a"
proof (induction a rule: measure_induct_rule [of size])
  case (less a)
  show ?case by (rule assms) (rule less, rule size_children)
qed

text \<open>All node addresses of a tree, in pre-order.\<close>

function addrs :: "ptr ast \<Rightarrow> ptr list" where
  "addrs a = (if a = Null then [] else addr a # concat (map addrs (children a)))"
  by pat_completeness auto
termination
  by (relation "measure size") (auto simp: size_children)

declare addrs.simps [simp del]

lemma addrs_Null [simp]: "addrs Null = []"
  by (simp add: addrs.simps)

lemma addrs_node: "a \<noteq> Null \<Longrightarrow> addrs a = addr a # concat (map addrs (children a))"
  by (simp add: addrs.simps)

end
