(* ===== verification/RecursiveWalker.thy ===== *)
theory RecursiveWalker
  imports AST
begin

text \<open>
  The walker of gen/recursivevisitor.h: a depth-first traversal that calls a
  \<open>StoppableVisitor\<close> on every node before it descends. The walker is parametric in the
  visitor, in \<open>continueAfterStop\<close> and in the two virtual methods that subclasses override:
  what surrounds the visit of a \<open>switch\<close>, and whether the visitor is called on plain
  expressions. Two interfaces are stated as locales: visitors that keep an invariant, and
  visitors that never stop the traversal, for which the walk is a fold over the nodes in
  pre-order.
\<close>

section \<open>Visitors and the walker\<close>

record StoppableVisitor =
  stop :: bool

record ('p, 's) walker =
  accept :: "'p ast \<Rightarrow> 's \<Rightarrow> 's option"
  continueAfterStop :: bool
  aroundSwitch :: "'p ast \<Rightarrow> ('s \<Rightarrow> 's option) \<Rightarrow> 's \<Rightarrow> 's option"
  visitsExpression :: bool

text \<open>The class \<open>RecursiveWalker\<close> itself, with none of its methods overridden.\<close>

definition plain_walker :: "('p ast \<Rightarrow> 's \<Rightarrow> 's option) \<Rightarrow> bool \<Rightarrow> ('p, 's) walker" where
  "plain_walker v cont =
     \<lparr>accept = v, continueAfterStop = cont, aroundSwitch = (\<lambda>_ m. m), visitsExpression = True\<rparr>"

definition call_visitor ::
  "('p, 'z StoppableVisitor_scheme) walker \<Rightarrow> 'p ast \<Rightarrow> ('z StoppableVisitor_scheme, bool) act" where
  "call_visitor W obj s = do {
     s' \<leftarrow> accept W obj s;
     if stop s' \<and> continueAfterStop W then Some (True, s'\<lparr>stop := False\<rparr>)
     else Some (stop s', s') }"

definition recurse ::
  "('z StoppableVisitor_scheme \<Rightarrow> 'z StoppableVisitor_scheme option)
     \<Rightarrow> ('z StoppableVisitor_scheme, bool) act" where
  "recurse m s = do { s' \<leftarrow> m s; Some (stop s', s') }"

definition StructLiteral_visited :: "u32 \<Rightarrow> bool" where
  "StructLiteral_visited stageflags = bit stageflags 13"

fun walk :: "('p, 'z StoppableVisitor_scheme) walker \<Rightarrow> 'p ast
      \<Rightarrow> 'z StoppableVisitor_scheme \<Rightarrow> 'z StoppableVisitor_scheme option"
  and walks :: "('p, 'z StoppableVisitor_scheme) walker \<Rightarrow> 'p ast list
      \<Rightarrow> 'z StoppableVisitor_scheme \<Rightarrow> 'z StoppableVisitor_scheme option" where
  "walk W Null = Some"
| "walk W (Members k p xs) =
     void (orelse (call_visitor W (Members k p xs)) (recurse (walks W xs)))"
| "walk W (FuncDeclaration p fbody) =
     void (orelse (call_visitor W (FuncDeclaration p fbody)) (recurse (walk W fbody)))"
| "walk W (Seq k p xs) =
     void (orelse (call_visitor W (Seq k p xs)) (recurse (walks W xs)))"
| "walk W (ReturnStatement p e) =
     void (orelse (call_visitor W (ReturnStatement p e)) (recurse (walk W e)))"
| "walk W (IfStatement p c t e) =
     void (orelse (call_visitor W (IfStatement p c t e)) (orelse (recurse (walk W c))
       (orelse (recurse (walk W t)) (recurse (walk W e)))))"
| "walk W (WhileStatement p c b) =
     void (orelse (call_visitor W (WhileStatement p c b)) (orelse (recurse (walk W c))
       (recurse (walk W b))))"
| "walk W (DoStatement p b c) =
     void (orelse (call_visitor W (DoStatement p b c)) (orelse (recurse (walk W b))
       (recurse (walk W c))))"
| "walk W (ForStatement p i c b inc) =
     void (orelse (call_visitor W (ForStatement p i c b inc)) (orelse (recurse (walk W i))
       (orelse (recurse (walk W c)) (orelse (recurse (walk W b)) (recurse (walk W inc))))))"
| "walk W (ForeachStatement p a b) =
     void (orelse (call_visitor W (ForeachStatement p a b)) (orelse (recurse (walk W a))
       (recurse (walk W b))))"
| "walk W (ForeachRangeStatement p l u b) =
     void (orelse (call_visitor W (ForeachRangeStatement p l u b)) (orelse (recurse (walk W l))
       (orelse (recurse (walk W u)) (recurse (walk W b)))))"
| "walk W (ScopeGuardStatement p s) =
     void (orelse (call_visitor W (ScopeGuardStatement p s)) (recurse (walk W s)))"
| "walk W (ThrowStatement p e) =
     void (orelse (call_visitor W (ThrowStatement p e)) (recurse (walk W e)))"
| "walk W (TryFinallyStatement p b f) =
     void (orelse (call_visitor W (TryFinallyStatement p b f)) (orelse (recurse (walk W b))
       (recurse (walk W f))))"
| "walk W (TryCatchStatement p b cs) =
     void (orelse (call_visitor W (TryCatchStatement p b cs)) (orelse (recurse (walk W b))
       (recurse (walks W cs))))"
| "walk W (Catch p h) = walk W h"
| "walk W (SwitchStatement p c b) =
     aroundSwitch W (SwitchStatement p c b)
       (void (orelse (call_visitor W (SwitchStatement p c b)) (orelse (recurse (walk W c))
         (recurse (walk W b)))))"
| "walk W (CaseStatement p g s) =
     void (orelse (call_visitor W (CaseStatement p g s)) (recurse (walk W s)))"
| "walk W (DefaultStatement p g s) =
     void (orelse (call_visitor W (DefaultStatement p g s)) (recurse (walk W s)))"
| "walk W (UnrolledLoopStatement p xs) =
     void (orelse (call_visitor W (UnrolledLoopStatement p xs)) (recurse (walks W xs)))"
| "walk W (LabelStatement p s) =
     void (orelse (call_visitor W (LabelStatement p s)) (recurse (walk W s)))"
| "walk W (PragmaStatement p b) =
     void (orelse (call_visitor W (PragmaStatement p b)) (recurse (walk W b)))"
| "walk W (DebugStatement p s) =
     void (orelse (call_visitor W (DebugStatement p s)) (recurse (walk W s)))"
| "walk W (StructLiteralExp p stageflags xs) =
     (if StructLiteral_visited stageflags then Some
      else void (orelse (call_visitor W (StructLiteralExp p stageflags xs)) (recurse (walks W xs))))"
| "walk W (CondExp p c a b) =
     void (orelse (call_visitor W (CondExp p c a b)) (orelse (recurse (walk W c))
       (orelse (recurse (walk W a)) (recurse (walk W b)))))"
| "walk W (LogicalExp p op a b) =
     void (orelse (call_visitor W (LogicalExp p op a b)) (orelse (recurse (walk W a))
       (recurse (walk W b))))"
| "walk W (BreakStatement p t) = void (call_visitor W (BreakStatement p t))"
| "walk W (ContinueStatement p t) = void (call_visitor W (ContinueStatement p t))"
| "walk W (Leaf k p) =
     (if k = Dsymbol \<or> k = Expression \<and> \<not> visitsExpression W then Some
      else void (call_visitor W (Leaf k p)))"
| "walks W [] = Some"
| "walks W (x # xs) = (\<lambda>s. do { s' \<leftarrow> walk W x s; if stop s' then Some s' else walks W xs s' })"

section \<open>The walk, seen through the children of a node\<close>

text \<open>
  Every method of the walker is an instance of one scheme: call the visitor, then recurse
  into the children in order, stopping when the visitor stops.
\<close>

lemma recurse_walks_Cons:
  "recurse (walks W (x # xs)) = orelse (recurse (walk W x)) (recurse (walks W xs))"
  by (rule ext) (auto simp: recurse_def orelse_def split: Option.bind_splits)

lemma orelse_recurse_Some [simp]: "orelse (recurse m) (recurse Some) = recurse m"
  by (rule ext) (auto simp: recurse_def orelse_def split: Option.bind_splits)

lemma void_recurse [simp]: "void (recurse m) = m"
  by (rule ext) (auto simp: void_def recurse_def map_option_case split: Option.bind_splits option.splits)

lemma void_call_visitor_leaf [simp]:
  "void (orelse (call_visitor W a) (recurse Some)) = void (call_visitor W a)"
  by (rule ext) (auto simp: void_def orelse_def recurse_def call_visitor_def map_option_case
      split: Option.bind_splits option.splits)

fun skipped :: "bool \<Rightarrow> 'p ast \<Rightarrow> bool" where
  "skipped ve Null = True"
| "skipped ve (Leaf k _) = (k = Dsymbol \<or> k = Expression \<and> \<not> ve)"
| "skipped ve (StructLiteralExp _ flags _) = StructLiteral_visited flags"
| "skipped ve _ = False"

fun is_Catch :: "'p ast \<Rightarrow> bool" where
  "is_Catch (Catch _ _) = True"
| "is_Catch _ = False"

fun is_Switch :: "'p ast \<Rightarrow> bool" where
  "is_Switch (SwitchStatement _ _ _) = True"
| "is_Switch _ = False"

lemma walk_skipped: "skipped (visitsExpression W) a \<Longrightarrow> walk W a = Some"
  by (cases a) auto

lemma walk_Catch: "is_Catch a \<Longrightarrow> walk W a = walks W (children a)"
  by (cases a) (auto intro!: ext split: Option.bind_splits)

lemma walk_Switch:
  "is_Switch a \<Longrightarrow> walk W a =
     aroundSwitch W a (void (orelse (call_visitor W a) (recurse (walks W (children a)))))"
  by (cases a) (simp_all add: recurse_walks_Cons del: walks.simps(2))

lemma walk_node:
  assumes "\<not> skipped (visitsExpression W) a" "\<not> is_Catch a" "\<not> is_Switch a"
  shows "walk W a = void (orelse (call_visitor W a) (recurse (walks W (children a))))"
  using assms
  by (cases a)
    (auto simp add: recurse_walks_Cons simp del: walks.simps(2))

text \<open>The nodes on which the visitor is called when the traversal does not descend below \<open>atomic\<close> nodes.\<close>

function visit_order :: "('p ast \<Rightarrow> bool) \<Rightarrow> 'p ast \<Rightarrow> 'p ast list" where
  "visit_order atomic a =
     (if skipped True a then []
      else (if is_Catch a then [] else [a])
        @ (if atomic a then [] else concat (map (visit_order atomic) (children a))))"
  by pat_completeness auto
termination
  by (relation "measure (\<lambda>(_, a). size a)") (auto simp: size_children)

declare visit_order.simps [simp del]

section \<open>Visitors that keep an invariant\<close>

locale invariant_visitor =
  fixes W :: "('p, 'z StoppableVisitor_scheme) walker"
    and I :: "'z StoppableVisitor_scheme \<Rightarrow> bool"
  assumes accept_inv: "I s \<Longrightarrow> accept W a s = Some s' \<Longrightarrow> I s'"
    and resume_inv: "I s \<Longrightarrow> I (s\<lparr>stop := False\<rparr>)"
    and around_inv: "(\<And>s s'. I s \<Longrightarrow> m s = Some s' \<Longrightarrow> I s') \<Longrightarrow> I s \<Longrightarrow>
      aroundSwitch W a m s = Some s' \<Longrightarrow> I s'"
begin

lemma call_visitor_inv: "I s \<Longrightarrow> call_visitor W a s = Some (b, s') \<Longrightarrow> I s'"
  by (auto simp: call_visitor_def split: Option.bind_splits if_splits
      intro: accept_inv resume_inv)

lemma walks_inv:
  assumes "\<And>x s s'. x \<in> set xs \<Longrightarrow> I s \<Longrightarrow> walk W x s = Some s' \<Longrightarrow> I s'"
  shows "I s \<Longrightarrow> walks W xs s = Some s' \<Longrightarrow> I s'"
  using assms
proof (induction xs arbitrary: s)
  case (Cons x xs)
  from Cons.prems(2) obtain s1 where s1: "walk W x s = Some s1"
    "s' = s1 \<or> walks W xs s1 = Some s'"
    by (auto split: Option.bind_splits if_splits)
  with Cons.prems(1,3) have "I s1" by auto
  with s1(2) show ?case using Cons.IH [of s1] Cons.prems(3) by auto
qed simp

lemma walk_inv: "I s \<Longrightarrow> walk W a s = Some s' \<Longrightarrow> I s'"
proof (induction a arbitrary: s s' rule: ast_children_induct)
  case (node a)
  have kids: "I s' \<Longrightarrow> walks W (children a) s' = Some s'' \<Longrightarrow> I s''" for s' s''
    using walks_inv [of "children a"] node.IH by blast
  have body: "I s1 \<Longrightarrow> void (orelse (call_visitor W a) (recurse (walks W (children a)))) s1 = Some s2
      \<Longrightarrow> I s2" for s1 s2
    by (erule void_SomeE, erule orelse_SomeE)
      (auto simp: recurse_def split: Option.bind_splits dest: call_visitor_inv kids)
  show ?case
  proof (cases "skipped (visitsExpression W) a")
    case True
    with node.prems show ?thesis by (simp add: walk_skipped)
  next
    case False
    then show ?thesis
      using node.prems kids body around_inv walk_node [of W a] walk_Catch [of a W]
        walk_Switch [of a W]
      by (metis (no_types, lifting))
  qed
qed

end

section \<open>Visitors that resume after a stop\<close>

text \<open>
  With \<open>continueAfterStop\<close>, a visitor that stops exactly on \<open>atomic\<close> nodes is run on the
  visit order, one call per node: the walk neither skips nor repeats a node.
\<close>

definition resumed :: "('p ast \<Rightarrow> 'z StoppableVisitor_scheme \<Rightarrow> 'z StoppableVisitor_scheme option)
    \<Rightarrow> 'p ast \<Rightarrow> 'z StoppableVisitor_scheme \<Rightarrow> 'z StoppableVisitor_scheme option" where
  "resumed v a s = map_option (\<lambda>s'. s'\<lparr>stop := False\<rparr>) (v a s)"

locale resuming_visitor =
  fixes v :: "'p ast \<Rightarrow> 'z StoppableVisitor_scheme \<Rightarrow> 'z StoppableVisitor_scheme option"
    and atomic :: "'p ast \<Rightarrow> bool"
    and I :: "'z StoppableVisitor_scheme \<Rightarrow> bool"
  assumes stop_iff: "I s \<Longrightarrow> v a s = Some s' \<Longrightarrow> stop s' = atomic a"
    and visit_inv: "I s \<Longrightarrow> v a s = Some s' \<Longrightarrow> I (s'\<lparr>stop := False\<rparr>)"
    and running: "I s \<Longrightarrow> \<not> stop s"
    and catch_not_atomic: "is_Catch a \<Longrightarrow> \<not> atomic a"
begin

lemma resumed_inv: "I s \<Longrightarrow> resumed v a s = Some s' \<Longrightarrow> I s'"
  by (auto simp: resumed_def intro: visit_inv)

lemma iterM_inv: "I s \<Longrightarrow> iterM (resumed v) xs s = Some s' \<Longrightarrow> I s'"
  by (erule iterM_invariant [where I = I]) (auto intro: resumed_inv)

lemma walks_iterM:
  assumes "\<And>x s. x \<in> set xs \<Longrightarrow> I s \<Longrightarrow>
      walk (plain_walker v True) x s = iterM (resumed v) (visit_order atomic x) s"
  shows "I s \<Longrightarrow> walks (plain_walker v True) xs s
    = iterM (resumed v) (concat (map (visit_order atomic) xs)) s"
  using assms
proof (induction xs arbitrary: s)
  case (Cons x xs)
  show ?case
  proof (cases "iterM (resumed v) (visit_order atomic x) s")
    case None
    then show ?thesis using Cons.prems by (simp add: iterM_append)
  next
    case (Some s1)
    then have "I s1" using Cons.prems(1) by (blast intro: iterM_inv)
    then show ?thesis using Some Cons.prems Cons.IH [of s1] running by (simp add: iterM_append)
  qed
qed simp

lemma call_visitor_resumed:
  assumes "I s"
  shows "call_visitor (plain_walker v True) a s = map_option (\<lambda>s'. (atomic a, s')) (resumed v a s)"
proof (cases "v a s")
  case (Some s')
  with assms have "stop s' = atomic a" by (rule stop_iff)
  moreover have "s' = s'\<lparr>stop := False\<rparr>" if "\<not> stop s'"
    using that by (cases s') simp
  ultimately show ?thesis
    using Some by (auto simp: call_visitor_def plain_walker_def resumed_def)
qed (simp add: call_visitor_def plain_walker_def resumed_def)

lemma walk_iterM:
  "I s \<Longrightarrow> walk (plain_walker v True) a s = iterM (resumed v) (visit_order atomic a) s"
proof (induction a arbitrary: s rule: ast_children_induct)
  case (node a)
  let ?W = "plain_walker v True"
  have kids: "I s' \<Longrightarrow> walks ?W (children a) s'
      = iterM (resumed v) (concat (map (visit_order atomic) (children a))) s'" for s'
    using walks_iterM [of "children a"] node.IH by blast
  have W: "visitsExpression ?W" "aroundSwitch ?W = (\<lambda>_ m. m)"
    by (simp_all add: plain_walker_def)
  show ?case
  proof (cases "skipped True a \<or> is_Catch a")
    case True
    then show ?thesis
      using node.prems kids catch_not_atomic [of a]
      by (auto simp: W walk_skipped walk_Catch visit_order.simps [of atomic a])
  next
    case False
    then have "walk ?W a = void (orelse (call_visitor ?W a) (recurse (walks ?W (children a))))"
      using walk_node [of ?W a] walk_Switch [of a ?W] by (auto simp: W)
    then show ?thesis
      using False node.prems kids resumed_inv
      by (auto simp: visit_order.simps [of atomic a] orelse_def void_def call_visitor_resumed
          recurse_def map_option_case split: option.splits Option.bind_splits)
  qed
qed

end

section \<open>Visitors that end the traversal\<close>

fun iter_stop :: "('a \<Rightarrow> 'z StoppableVisitor_scheme \<Rightarrow> 'z StoppableVisitor_scheme option)
    \<Rightarrow> 'a list \<Rightarrow> 'z StoppableVisitor_scheme \<Rightarrow> 'z StoppableVisitor_scheme option" where
  "iter_stop v [] s = Some s"
| "iter_stop v (x # xs) s = do { s' \<leftarrow> v x s; if stop s' then Some s' else iter_stop v xs s' }"

lemma iter_stop_append:
  "iter_stop v (xs @ ys) s
     = do { s' \<leftarrow> iter_stop v xs s; if xs \<noteq> [] \<and> stop s' then Some s' else iter_stop v ys s' }"
  by (induction xs arbitrary: s) (auto split: Option.bind_splits)

lemma iter_stop_append_running:
  "\<not> stop s \<Longrightarrow> iter_stop v (xs @ ys) s
     = do { s' \<leftarrow> iter_stop v xs s; if stop s' then Some s' else iter_stop v ys s' }"
  by (auto simp: iter_stop_append intro!: Option.bind_cong)

lemma walk_iter_stop:
  "\<not> stop s \<Longrightarrow> walk (plain_walker v False) a s = iter_stop v (visit_order (\<lambda>_. False) a) s"
proof (induction a arbitrary: s rule: ast_children_induct)
  case (node a)
  let ?W = "plain_walker v False"
  let ?vo = "visit_order (\<lambda>_. False)"
  have kids: "\<not> stop s \<Longrightarrow> walks ?W xs s = iter_stop v (concat (map ?vo xs)) s"
    if "set xs \<subseteq> set (children a)" for xs s
    using that
  proof (induction xs arbitrary: s)
    case (Cons x xs)
    then show ?case
      using node.IH [of x] by (auto simp: iter_stop_append_running split: Option.bind_splits)
  qed simp
  have W: "visitsExpression ?W" "aroundSwitch ?W = (\<lambda>_ m. m)" "accept ?W = v"
    "\<not> continueAfterStop ?W"
    by (simp_all add: plain_walker_def)
  show ?case
  proof (cases "skipped True a \<or> is_Catch a")
    case True
    then show ?thesis
      using node.prems kids [of "children a"]
      by (auto simp: W walk_skipped walk_Catch visit_order.simps [of "\<lambda>_. False" a])
  next
    case False
    then have "walk ?W a = void (orelse (call_visitor ?W a) (recurse (walks ?W (children a))))"
      using walk_node [of ?W a] walk_Switch [of a ?W] by (auto simp: W)
    then show ?thesis
      using False kids [of "children a"]
      by (auto simp: visit_order.simps [of "\<lambda>_. False" a] orelse_def void_def call_visitor_def W
          recurse_def map_option_case split: option.splits Option.bind_splits)
  qed
qed

end
