(* ===== verification/PGOHash.thy ===== *)
theory PGOHash
  imports Prelude
begin

unbundle bit_operations_syntax

text \<open>
  The control-flow hash of gen/pgo_ASTbased.cpp (class \<open>PGOHash\<close>): node types are packed
  six bits at a time into a 64-bit word, and full words are streamed through MD5. MD5 is a
  library routine and a parameter of \<open>finalize\<close>: the function from the bytes fed to
  \<open>MD5::update\<close> to the low 64 bits of the digest. The byte swap before the update makes the
  bytes the little-endian ones on every host, so they are \<open>le_bytes\<close> here.
\<close>

section \<open>The hasher\<close>

datatype HashType =
  HashNone | LabelStmt | WhileStmt | DoStmt | ForStmt | ForeachStmt | ForeachRangeStmt
| SwitchStmt | CaseStmt | DefaultStmt | CaseGoto | IfStmt | TryCatchStmt | TryCatchCatch
| TryFinallyStmt | ConditionalExpr | AndAndExpr | OrOrExpr | UnrolledLoopIterationScope

fun HashType_value :: "HashType \<Rightarrow> u8" where
  "HashType_value HashNone = 0"
| "HashType_value LabelStmt = 1"
| "HashType_value WhileStmt = 2"
| "HashType_value DoStmt = 3"
| "HashType_value ForStmt = 4"
| "HashType_value ForeachStmt = 5"
| "HashType_value ForeachRangeStmt = 6"
| "HashType_value SwitchStmt = 7"
| "HashType_value CaseStmt = 8"
| "HashType_value DefaultStmt = 9"
| "HashType_value CaseGoto = 10"
| "HashType_value IfStmt = 11"
| "HashType_value TryCatchStmt = 12"
| "HashType_value TryCatchCatch = 13"
| "HashType_value TryFinallyStmt = 14"
| "HashType_value ConditionalExpr = 15"
| "HashType_value AndAndExpr = 16"
| "HashType_value OrOrExpr = 17"
| "HashType_value UnrolledLoopIterationScope = 18"

definition NumBitsPerType :: nat where "NumBitsPerType = 6"
definition NumTypesPerWord :: u32 where "NumTypesPerWord = 8 * 8 div 6"
definition TooBig :: u32 where "TooBig = push_bit NumBitsPerType 1"

record PGOHash =
  Working :: u64
  Count :: u32
  MD5 :: "u8 list"

definition PGOHash_init :: PGOHash where
  "PGOHash_init = \<lparr>Working = 0, Count = 0, MD5 = []\<rparr>"

text \<open>The bytes of a 64-bit word, least significant first.\<close>

definition le_bytes :: "u64 \<Rightarrow> u8 list" where
  "le_bytes w = map (\<lambda>i. ucast (drop_bit (8 * i) w)) [0..<8]"

definition combine :: "HashType \<Rightarrow> PGOHash \<Rightarrow> PGOHash option" where
  "combine Type h =
     (if HashType_value Type = 0 \<or> \<not> ucast (HashType_value Type) < TooBig then None
      else
        let h1 = (if Count h \<noteq> 0 \<and> Count h mod NumTypesPerWord = 0
                  then h\<lparr>MD5 := MD5 h @ le_bytes (Working h), Working := 0\<rparr> else h)
        in Some (h1\<lparr>Count := Count h1 + 1,
             Working := push_bit NumBitsPerType (Working h1) OR ucast (HashType_value Type)\<rparr>))"

definition finalize :: "(u8 list \<Rightarrow> u64) \<Rightarrow> PGOHash \<Rightarrow> u64" where
  "finalize md5_low h =
     (if Count h \<le> NumTypesPerWord then Working h
      else md5_low (if Working h \<noteq> 0 then MD5 h @ le_bytes (Working h) else MD5 h))"

text \<open>The hash of a sequence of node types, as the region mapper computes it.\<close>

definition combine_all :: "HashType list \<Rightarrow> PGOHash option" where
  "combine_all ts = iterM combine ts PGOHash_init"

definition sequence_hash :: "(u8 list \<Rightarrow> u64) \<Rightarrow> HashType list \<Rightarrow> u64 option" where
  "sequence_hash md5_low ts = map_option (finalize md5_low) (combine_all ts)"

section \<open>The packing is base 64\<close>

definition digit :: "HashType \<Rightarrow> nat" where
  "digit t = unat (HashType_value t)"

definition enc :: "HashType list \<Rightarrow> nat" where
  "enc ts = foldl (\<lambda>n t. 64 * n + digit t) 0 ts"

lemma enc_Nil [simp]: "enc [] = 0"
  and enc_snoc [simp]: "enc (ts @ [t]) = 64 * enc ts + digit t"
  by (simp_all add: enc_def)

lemma digit_less: "digit t < 64"
  by (cases t) (simp_all add: digit_def)

lemma digit_zero [simp]: "digit t = 0 \<longleftrightarrow> t = HashNone"
  by (cases t) (simp_all add: digit_def)

lemma digit_inj: "digit t = digit u \<Longrightarrow> t = u"
  by (cases t; cases u) (simp_all add: digit_def)

lemma enc_less: "enc ts < 64 ^ length ts"
proof (induction ts rule: rev_induct)
  case (snoc t ts)
  then show ?case using digit_less [of t] by simp
qed simp

lemma enc_inj: "HashNone \<notin> set ts \<Longrightarrow> HashNone \<notin> set us \<Longrightarrow> enc ts = enc us \<Longrightarrow> ts = us"
proof (induction ts arbitrary: us rule: rev_induct)
  case Nil
  then show ?case by (cases us rule: rev_cases) auto
next
  case (snoc t ts)
  then obtain us' u where us: "us = us' @ [u]"
    by (cases us rule: rev_cases) auto
  from snoc.prems(3) us have eq: "64 * enc ts + digit t = 64 * enc us' + digit u" by simp
  from arg_cong [OF eq, of "\<lambda>n. n mod 64"] have "digit t = digit u"
    by (simp add: digit_less)
  with eq snoc us show ?case by (auto dest: digit_inj)
qed

lemma enc_fits: "length ts \<le> 10 \<Longrightarrow> enc ts < 2 ^ 64"
proof -
  assume "length ts \<le> 10"
  then have "(64::nat) ^ length ts \<le> 64 ^ 10" by (intro power_increasing) auto
  with enc_less [of ts] show ?thesis by simp
qed

definition packed :: "HashType list \<Rightarrow> u64" where
  "packed ts = of_nat (enc ts)"

lemma packed_Nil [simp]: "packed [] = 0"
  by (simp add: packed_def)

lemma packed_inj:
  assumes "length ts \<le> 10" "length us \<le> 10" "HashNone \<notin> set ts" "HashNone \<notin> set us"
    "packed ts = packed us"
  shows "ts = us"
  using assms enc_fits [of ts] enc_fits [of us] of_nat_inj_small [of "enc ts" "enc us", where 'a=64]
  by (auto simp: packed_def intro: enc_inj)

lemma packed_snoc:
  "push_bit NumBitsPerType (packed ts) OR ucast (HashType_value t) = packed (ts @ [t])"
proof -
  have "\<not> bit (push_bit 6 (packed ts)) n \<or> \<not> bit (ucast (HashType_value t) :: u64) n" for n
  proof (cases "n < 6")
    case False
    have "HashType_value t = take_bit 6 (HashType_value t)" by (cases t) simp_all
    with False have "\<not> bit (HashType_value t) n" by (metis bit_take_bit_iff)
    then show ?thesis by (simp add: bit_simps)
  qed (simp add: bit_simps)
  then have "push_bit 6 (packed ts) OR ucast (HashType_value t)
      = push_bit 6 (packed ts) + (ucast (HashType_value t) :: u64)"
    by (simp add: disjunctive_add)
  also have "\<dots> = packed (ts @ [t])"
    by (simp add: packed_def digit_def push_bit_eq_mult)
  finally show ?thesis
    by (simp add: NumBitsPerType_def)
qed

section \<open>The state after a sequence\<close>

text \<open>
  After any sequence of node types the hasher has flushed full groups of ten types and holds
  the last, non-empty group in \<open>Working\<close>.
\<close>

definition message :: "HashType list list \<Rightarrow> u8 list" where
  "message gs = concat (map (\<lambda>g. le_bytes (packed g)) gs)"

definition hash_inv :: "HashType list \<Rightarrow> HashType list list \<Rightarrow> HashType list \<Rightarrow> PGOHash \<Rightarrow> bool" where
  "hash_inv ts gs g h \<longleftrightarrow>
     ts = concat gs @ g \<and> (\<forall>x\<in>set gs. length x = 10) \<and> length g \<le> 10 \<and> (g = [] \<longrightarrow> gs = [])
     \<and> Working h = packed g \<and> Count h = of_nat (length ts) \<and> MD5 h = message gs"

lemma Count_wraps:
  assumes "n < 2 ^ 32"
  shows "(of_nat n :: u32) mod NumTypesPerWord = 0 \<longleftrightarrow> n mod 10 = 0"
    and "(of_nat n :: u32) \<noteq> 0 \<longleftrightarrow> n \<noteq> 0"
    and "(of_nat n :: u32) \<le> NumTypesPerWord \<longleftrightarrow> n \<le> 10"
proof -
  have n: "unat (of_nat n :: u32) = n" using assms by (simp add: unat_of_nat_small)
  have "unat ((of_nat n :: u32) mod 10) = n mod 10" using n by (simp add: unat_mod)
  then show "(of_nat n :: u32) mod NumTypesPerWord = 0 \<longleftrightarrow> n mod 10 = 0"
    using unat_eq_zero [of "(of_nat n :: u32) mod 10"] by (simp add: NumTypesPerWord_def)
  show "(of_nat n :: u32) \<noteq> 0 \<longleftrightarrow> n \<noteq> 0"
    using unat_eq_zero [of "of_nat n :: u32"] n by simp
  show "(of_nat n :: u32) \<le> NumTypesPerWord \<longleftrightarrow> n \<le> 10"
    using n by (simp add: NumTypesPerWord_def word_le_nat_alt)
qed

lemma combine_Some:
  assumes "t \<noteq> HashNone"
  shows "combine t h =
    (let h1 = (if Count h \<noteq> 0 \<and> Count h mod NumTypesPerWord = 0
               then h\<lparr>MD5 := MD5 h @ le_bytes (Working h), Working := 0\<rparr> else h)
     in Some (h1\<lparr>Count := Count h1 + 1,
             Working := push_bit NumBitsPerType (Working h1) OR ucast (HashType_value t)\<rparr>))"
  using assms by (cases t) (simp_all add: combine_def TooBig_def NumBitsPerType_def)

lemma length_concat_const: "\<forall>x\<in>set gs. length x = n \<Longrightarrow> length (concat gs) = n * length gs"
  by (induction gs) auto

lemma combine_inv:
  assumes inv: "hash_inv ts gs g h" and len: "length ts < 2 ^ 32" and t: "t \<noteq> HashNone"
  shows "\<exists>h' gs' g'. combine t h = Some h' \<and> hash_inv (ts @ [t]) gs' g' h'"
proof -
  have cnt: "Count h = of_nat (length ts)" and lts: "length ts = 10 * length gs + length g"
    using inv by (auto simp: hash_inv_def length_concat_const)
  note flags = Count_wraps [OF len, folded cnt]
  show ?thesis
  proof (cases "length g = 10")
    case True
    with lts flags have "Count h \<noteq> 0 \<and> Count h mod NumTypesPerWord = 0" by simp
    moreover have "push_bit NumBitsPerType 0 OR ucast (HashType_value t) = packed [t]"
      using packed_snoc [of "[]" t] by simp
    ultimately show ?thesis
      using inv t True
      by (intro exI [of _ "gs @ [g]"] exI [of _ "[t]"] exI)
        (auto simp: combine_Some hash_inv_def message_def)
  next
    case False
    moreover from False inv lts have "length ts mod 10 = length g"
      by (simp add: hash_inv_def le_neq_implies_less)
    ultimately have "\<not> (Count h \<noteq> 0 \<and> Count h mod NumTypesPerWord = 0)"
      using flags lts inv by (auto simp: hash_inv_def)
    then show ?thesis
      using inv t False
      by (intro exI [of _ gs] exI [of _ "g @ [t]"] exI)
        (auto simp: combine_Some hash_inv_def packed_snoc)
  qed
qed

lemma combine_all_inv:
  assumes "length ts < 2 ^ 32" "HashNone \<notin> set ts"
  shows "\<exists>h gs g. combine_all ts = Some h \<and> hash_inv ts gs g h"
  using assms
proof (induction ts rule: rev_induct)
  case Nil
  then show ?case
    by (auto simp: combine_all_def hash_inv_def PGOHash_init_def message_def)
next
  case (snoc t ts)
  then obtain h gs g where "combine_all ts = Some h" "hash_inv ts gs g h" by auto
  with combine_inv [of ts gs g h t] snoc.prems show ?case
    by (fastforce simp: combine_all_def iterM_append)
qed

section \<open>The hash distinguishes control flow\<close>

lemma length_le_bytes [simp]: "length (le_bytes w) = 8"
  by (simp add: le_bytes_def)

lemma le_bytes_inj: "le_bytes v = le_bytes w \<longleftrightarrow> v = w"
proof
  assume eq: "le_bytes v = le_bytes w"
  show "v = w"
  proof (rule bit_word_eqI)
    fix n assume "n < LENGTH(64)"
    then have n: "n div 8 < 8" by simp
    from eq have "le_bytes v ! (n div 8) = le_bytes w ! (n div 8)" by simp
    with n have "(ucast (drop_bit (8 * (n div 8)) v) :: u8) = ucast (drop_bit (8 * (n div 8)) w)"
      by (simp add: le_bytes_def)
    then have "bit (ucast (drop_bit (8 * (n div 8)) v) :: u8) (n mod 8)
        = bit (ucast (drop_bit (8 * (n div 8)) w) :: u8) (n mod 8)" by simp
    then show "bit v n = bit w n"
      by (simp add: bit_simps mult_div_mod_eq)
  qed
qed simp

lemma message_inj:
  assumes "\<forall>g\<in>set gs \<union> set gs'. length g \<le> 10 \<and> HashNone \<notin> set g" "message gs = message gs'"
  shows "gs = gs'"
  using assms
proof (induction gs arbitrary: gs')
  case Nil
  then show ?case by (cases gs') (auto simp: message_def dest: arg_cong [of _ _ length])
next
  case (Cons g gs)
  from Cons.prems(2) obtain g' gs'' where gs': "gs' = g' # gs''"
    by (cases gs') (auto simp: message_def dest: arg_cong [of _ _ length])
  with Cons.prems have "packed g = packed g'" "message gs = message gs''"
    by (auto simp: message_def le_bytes_inj)
  with Cons gs' show ?case by (auto intro: packed_inj)
qed

definition digest_input :: "PGOHash \<Rightarrow> u64 + u8 list" where
  "digest_input h =
     (if Count h \<le> NumTypesPerWord then Inl (Working h)
      else Inr (if Working h \<noteq> 0 then MD5 h @ le_bytes (Working h) else MD5 h))"

lemma finalize_digest_input:
  "finalize md5_low h = (case digest_input h of Inl w \<Rightarrow> w | Inr bs \<Rightarrow> md5_low bs)"
  by (simp add: finalize_def digest_input_def)

lemma digest_input_inv:
  assumes "hash_inv ts gs g h" "length ts < 2 ^ 32" "HashNone \<notin> set ts"
  shows "digest_input h = (if length ts \<le> 10 then Inl (packed ts) else Inr (message (gs @ [g])))"
proof (cases "length ts \<le> 10")
  case True
  have "length ts = 10 * length gs + length g"
    using assms(1) by (auto simp: hash_inv_def length_concat_const)
  with True assms(1) have "gs = []" by (cases gs) (auto simp: hash_inv_def)
  with True assms Count_wraps(3) [OF assms(2)] show ?thesis
    by (simp add: digest_input_def hash_inv_def)
next
  case False
  with assms(1) have "g \<noteq> []" by (auto simp: hash_inv_def)
  then have "packed g \<noteq> 0"
    using packed_inj [of g "[]"] assms by (auto simp: hash_inv_def)
  with False assms Count_wraps(3) [OF assms(2)] show ?thesis
    by (simp add: digest_input_def hash_inv_def message_def)
qed

lemma digest_input_inj:
  assumes "combine_all ts = Some h" "combine_all us = Some h'"
    "length ts < 2 ^ 32" "length us < 2 ^ 32" "HashNone \<notin> set ts" "HashNone \<notin> set us"
    "digest_input h = digest_input h'"
  shows "ts = us"
proof -
  from assms combine_all_inv obtain gs g where i: "hash_inv ts gs g h" by fastforce
  from assms combine_all_inv obtain gs' g' where i': "hash_inv us gs' g' h'" by fastforce
  have d: "(if length ts \<le> 10 then Inl (packed ts) else Inr (message (gs @ [g])))
      = (if length us \<le> 10 then Inl (packed us) else Inr (message (gs' @ [g'])))"
    using digest_input_inv [OF i] digest_input_inv [OF i'] assms by simp
  show ?thesis
  proof (cases "length ts \<le> 10")
    case True
    with d assms show ?thesis by (auto split: if_splits intro: packed_inj)
  next
    case False
    with d have "message (gs @ [g]) = message (gs' @ [g'])" by (auto split: if_splits)
    then have "gs @ [g] = gs' @ [g']"
      using i i' assms(5,6) by (intro message_inj) (auto simp: hash_inv_def)
    with i i' show ?thesis by (simp add: hash_inv_def)
  qed
qed

end
