(* ===== verification/MapRegionCounters.thy ===== *)
theory MapRegionCounters
  imports RecursiveWalker PGOHash "HOL-Library.AList"
begin

text \<open>
  The visitor \<open>MapRegionCounters\<close> of gen/pgo_ASTbased.cpp, which numbers the control-flow
  regions of a function and hashes their types, and \<open>CodeGenPGO::mapRegionCounters\<close>, which
  runs it. The \<open>DenseMap\<close> from objects to counters is an association list; \<open>AList.update\<close>
  appends a new key, so the list also records the order of insertion. The counter itself is
  a \<open>nat\<close>: it counts tree nodes, which are far fewer than \<open>2^32\<close>. A failing \<open>assert\<close> is
  \<open>None\<close>.
\<close>

section \<open>The visitor\<close>

record MapRegionCounters = StoppableVisitor +
  NextCounter :: nat
  Hash :: PGOHash
  CounterMap :: "(ptr \<times> nat) list"

definition MapRegionCounters_init :: MapRegionCounters where
  "MapRegionCounters_init = \<lparr>stop = False, NextCounter = 0, Hash = PGOHash_init, CounterMap = []\<rparr>"

definition getCounterPtr :: "ptr \<Rightarrow> u32 \<Rightarrow> ptr" where
  "getCounterPtr p counter_idx = p + ucast counter_idx"

text \<open>\<open>CounterMap[p] = NextCounter++\<close>, and the same followed by \<open>Hash.combine(t)\<close>.\<close>

definition assign_counter :: "ptr \<Rightarrow> MapRegionCounters \<Rightarrow> MapRegionCounters" where
  "assign_counter p s =
     s\<lparr>CounterMap := AList.update p (NextCounter s) (CounterMap s), NextCounter := NextCounter s + 1\<rparr>"

definition count_region :: "ptr \<times> HashType \<Rightarrow> MapRegionCounters \<Rightarrow> MapRegionCounters option" where
  "count_region r s = do {
     let s1 = assign_counter (fst r) s;
     h \<leftarrow> combine (snd r) (Hash s1);
     Some (s1\<lparr>Hash := h\<rparr>) }"

definition SKIP_VISITED ::
  "ptr \<Rightarrow> (MapRegionCounters \<Rightarrow> MapRegionCounters option) \<Rightarrow> MapRegionCounters \<Rightarrow> MapRegionCounters option" where
  "SKIP_VISITED p m s = (if p \<in> set (map fst (CounterMap s)) then Some s else m s)"

fun visit_leaf :: "leaf_kind \<Rightarrow> MapRegionCounters \<Rightarrow> MapRegionCounters option" where
  "visit_leaf ErrorStatement s = None"
| "visit_leaf PeelStatement s = None"
| "visit_leaf SwitchErrorStatement s = None"
| "visit_leaf ForwardingStatement s = None"
| "visit_leaf CaseRangeStatement s = None"
| "visit_leaf _ s = Some s"

definition visit_FuncDeclaration :: "ptr ast \<Rightarrow> MapRegionCounters \<Rightarrow> MapRegionCounters option" where
  "visit_FuncDeclaration fbody s =
     (if NextCounter s \<noteq> 0 then Some (s\<lparr>stop := True\<rparr>) else Some (assign_counter (addr fbody) s))"

definition visit_UnrolledLoop :: "ptr \<Rightarrow> ptr ast list \<Rightarrow> MapRegionCounters \<Rightarrow> MapRegionCounters option" where
  "visit_UnrolledLoop p statements =
     SKIP_VISITED p (\<lambda>s. do {
       s1 \<leftarrow> count_region (p, UnrolledLoopIterationScope) s;
       iterM (\<lambda>x. count_region (addr x, UnrolledLoopIterationScope)) statements s1 })"

definition visit_CaseStatement :: "HashType \<Rightarrow> ptr \<Rightarrow> bool \<Rightarrow> MapRegionCounters \<Rightarrow> MapRegionCounters option" where
  "visit_CaseStatement t p gototarget =
     SKIP_VISITED p (\<lambda>s. do {
       s1 \<leftarrow> count_region (p, t) s;
       if gototarget then count_region (getCounterPtr p 1, CaseGoto) s1 else Some s1 })"

definition visit_TryCatch :: "ptr \<Rightarrow> ptr ast list \<Rightarrow> MapRegionCounters \<Rightarrow> MapRegionCounters option" where
  "visit_TryCatch p catches =
     SKIP_VISITED p (\<lambda>s. do {
       s1 \<leftarrow> count_region (p, TryCatchStmt) s;
       iterM (\<lambda>c. count_region (addr c, TryCatchCatch)) catches s1 })"

definition visit_TryFinally :: "ptr \<Rightarrow> ptr ast \<Rightarrow> ptr ast \<Rightarrow> MapRegionCounters \<Rightarrow> MapRegionCounters option" where
  "visit_TryFinally p body finalbody s =
     (if body = Null \<or> finalbody = Null then Some s
      else SKIP_VISITED p (count_region (p, TryFinallyStmt)) s)"

fun visit_MRC :: "ptr ast \<Rightarrow> MapRegionCounters \<Rightarrow> MapRegionCounters option" where
  "visit_MRC (Leaf k _) s = visit_leaf k s"
| "visit_MRC (DebugStatement _ _) s = None"
| "visit_MRC (FuncDeclaration _ fbody) s = visit_FuncDeclaration fbody s"
| "visit_MRC (IfStatement p _ _ _) s = SKIP_VISITED p (count_region (p, IfStmt)) s"
| "visit_MRC (WhileStatement p _ _) s = SKIP_VISITED p (count_region (p, WhileStmt)) s"
| "visit_MRC (DoStatement p _ _) s = SKIP_VISITED p (count_region (p, DoStmt)) s"
| "visit_MRC (ForStatement p _ _ _ _) s = SKIP_VISITED p (count_region (p, ForStmt)) s"
| "visit_MRC (ForeachStatement p _ _) s = SKIP_VISITED p (count_region (p, ForeachStmt)) s"
| "visit_MRC (ForeachRangeStatement p _ _ _) s = SKIP_VISITED p (count_region (p, ForeachRangeStmt)) s"
| "visit_MRC (UnrolledLoopStatement p xs) s = visit_UnrolledLoop p xs s"
| "visit_MRC (LabelStatement p _) s = SKIP_VISITED p (count_region (p, LabelStmt)) s"
| "visit_MRC (SwitchStatement p _ _) s = SKIP_VISITED p (count_region (p, SwitchStmt)) s"
| "visit_MRC (CaseStatement p g _) s = visit_CaseStatement CaseStmt p g s"
| "visit_MRC (DefaultStatement p g _) s = visit_CaseStatement DefaultStmt p g s"
| "visit_MRC (TryCatchStatement p _ cs) s = visit_TryCatch p cs s"
| "visit_MRC (TryFinallyStatement p b f) s = visit_TryFinally p b f s"
| "visit_MRC (CondExp p _ _ _) s = SKIP_VISITED p (count_region (p, ConditionalExpr)) s"
| "visit_MRC (LogicalExp p andAnd _ _) s =
     SKIP_VISITED p (count_region (p, if andAnd then AndAndExpr else OrOrExpr)) s"
| "visit_MRC _ s = Some s"

text \<open>
  The per-function state of class \<open>CodeGenPGO\<close> (gen/pgo_ASTbased.h), less the variable that
  holds the function name. The two maps are null until they are computed. Of an
  \<open>llvm::InstrProfRecord\<close> the code reads the counters and the numbers of value sites.
\<close>

record InstrProfRecord =
  Counts :: "u64 list"
  getNumValueSites :: "u32 \<Rightarrow> u32"

record CodeGenPGO =
  FuncName :: string
  emitInstrumentation :: bool
  NumRegionCounters :: nat
  FunctionHash :: u64
  RegionCounterMap :: "(ptr \<times> nat) list option"
  StmtCountMap :: "(ptr \<rightharpoonup> u64) option"
  RegionCounts :: "u64 list"
  CurrentRegionCount :: u64
  NumValueSites :: "u32 \<Rightarrow> u32"
  ProfRecord :: "InstrProfRecord option"

definition CodeGenPGO_init :: CodeGenPGO where
  "CodeGenPGO_init =
     \<lparr>FuncName = [], emitInstrumentation = True, NumRegionCounters = 0, FunctionHash = 0,
      RegionCounterMap = None, StmtCountMap = None, RegionCounts = [], CurrentRegionCount = 0,
      NumValueSites = (\<lambda>_. 0), ProfRecord = None\<rparr>"

text \<open>\<open>CodeGenPGO::mapRegionCounters\<close>; \<open>None\<close> when an assertion fails.\<close>

definition mapRegionCounters ::
  "(u8 list \<Rightarrow> u64) \<Rightarrow> ptr ast \<Rightarrow> CodeGenPGO \<Rightarrow> CodeGenPGO option" where
  "mapRegionCounters md5_low D pgo = do {
     s \<leftarrow> walk (plain_walker visit_MRC True) D MapRegionCounters_init;
     if NextCounter s > 0 \<and> NextCounter s = length (CounterMap s)
     then Some (pgo\<lparr>RegionCounterMap := Some (CounterMap s), NumRegionCounters := NextCounter s,
                FunctionHash := finalize md5_low (Hash s)\<rparr>)
     else None }"

section \<open>The regions of a node\<close>

text \<open>What a single node contributes: its keys, and the types it hashes.\<close>

fun is_Func :: "'p ast \<Rightarrow> bool" where
  "is_Func (FuncDeclaration _ _) = True"
| "is_Func _ = False"

fun unhandled :: "'p ast \<Rightarrow> bool" where
  "unhandled (Leaf k _) = (k \<in> {ErrorStatement, PeelStatement, SwitchErrorStatement,
      ForwardingStatement, CaseRangeStatement})"
| "unhandled (DebugStatement _ _) = True"
| "unhandled _ = False"

fun node_types :: "'p ast \<Rightarrow> HashType list" where
  "node_types (IfStatement _ _ _ _) = [IfStmt]"
| "node_types (WhileStatement _ _ _) = [WhileStmt]"
| "node_types (DoStatement _ _ _) = [DoStmt]"
| "node_types (ForStatement _ _ _ _ _) = [ForStmt]"
| "node_types (ForeachStatement _ _ _) = [ForeachStmt]"
| "node_types (ForeachRangeStatement _ _ _ _) = [ForeachRangeStmt]"
| "node_types (UnrolledLoopStatement _ xs) =
     UnrolledLoopIterationScope # map (\<lambda>_. UnrolledLoopIterationScope) xs"
| "node_types (LabelStatement _ _) = [LabelStmt]"
| "node_types (SwitchStatement _ _ _) = [SwitchStmt]"
| "node_types (CaseStatement _ g _) = CaseStmt # (if g then [CaseGoto] else [])"
| "node_types (DefaultStatement _ g _) = DefaultStmt # (if g then [CaseGoto] else [])"
| "node_types (TryCatchStatement _ _ cs) = TryCatchStmt # map (\<lambda>_. TryCatchCatch) cs"
| "node_types (TryFinallyStatement _ b f) = (if b = Null \<or> f = Null then [] else [TryFinallyStmt])"
| "node_types (CondExp _ _ _ _) = [ConditionalExpr]"
| "node_types (LogicalExp _ andAnd _ _) = [if andAnd then AndAndExpr else OrOrExpr]"
| "node_types _ = []"

fun node_keys :: "ptr ast \<Rightarrow> ptr list" where
  "node_keys (UnrolledLoopStatement p xs) = p # map addr xs"
| "node_keys (CaseStatement p g _) = p # (if g then [getCounterPtr p 1] else [])"
| "node_keys (DefaultStatement p g _) = p # (if g then [getCounterPtr p 1] else [])"
| "node_keys (TryCatchStatement p _ cs) = p # map addr cs"
| "node_keys a = (if node_types a = [] then [] else [addr a])"

definition node_regions :: "ptr ast \<Rightarrow> (ptr \<times> HashType) list" where
  "node_regions a = zip (node_keys a) (node_types a)"

lemma length_node_keys: "length (node_keys a) = length (node_types a)"
  by (cases a) auto

lemma node_regions_keys: "map fst (node_regions a) = node_keys a"
  and node_regions_types: "map snd (node_regions a) = node_types a"
  by (simp_all add: node_regions_def length_node_keys)

lemma HashNone_node_types: "HashNone \<notin> set (node_types a)"
  by (cases a) auto

lemma zip_const: "zip (map f xs) (map (\<lambda>_. t) ys) = map (\<lambda>x. (f x, t)) xs"
  if "length xs = length ys"
  using that by (induction xs ys rule: list_induct2) auto

lemma visit_regions:
  assumes "\<not> is_Func a" "\<not> unhandled a"
  shows "visit_MRC a s = (case node_regions a of [] \<Rightarrow> Some s
      | r # rs \<Rightarrow> SKIP_VISITED (fst r) (iterM count_region (r # rs)) s)"
proof (cases a)
  case (Leaf k p)
  with assms show ?thesis by (cases k) (auto simp: node_regions_def)
qed (use assms in \<open>auto simp: node_regions_def visit_UnrolledLoop_def visit_CaseStatement_def
      visit_TryCatch_def visit_TryFinally_def SKIP_VISITED_def zip_const iterM_map\<close>)

section \<open>Every counter is used once\<close>

text \<open>
  Whatever the tree, a key never gets two entries, and as long as the number of entries
  agrees with the number of counters handed out, the counters are numbered from zero in the
  order of insertion.
\<close>

definition counters_inv :: "MapRegionCounters \<Rightarrow> bool" where
  "counters_inv s \<longleftrightarrow>
     distinct (map fst (CounterMap s)) \<and> length (CounterMap s) \<le> NextCounter s
     \<and> (length (CounterMap s) = NextCounter s \<longrightarrow> map snd (CounterMap s) = [0..<NextCounter s])"

lemma update_fresh: "k \<notin> set (map fst al) \<Longrightarrow> AList.update k v al = al @ [(k, v)]"
  by (induction al) auto

lemma update_length: "k \<in> set (map fst al) \<Longrightarrow> length (AList.update k v al) = length al"
  by (induction al) auto

lemma assign_counter_inv: "counters_inv s \<Longrightarrow> counters_inv (assign_counter p s)"
  by (cases "p \<in> set (map fst (CounterMap s))")
    (auto simp: counters_inv_def assign_counter_def update_fresh update_length distinct_update)

lemma counters_inv_more [simp]:
  "counters_inv (s\<lparr>Hash := h\<rparr>) = counters_inv s" "counters_inv (s\<lparr>stop := b\<rparr>) = counters_inv s"
  by (simp_all add: counters_inv_def)

lemma count_region_inv: "counters_inv s \<Longrightarrow> count_region r s = Some s' \<Longrightarrow> counters_inv s'"
  by (auto simp: count_region_def Let_def assign_counter_inv split: Option.bind_splits)

lemma count_regions_inv: "counters_inv s \<Longrightarrow> iterM count_region rs s = Some s' \<Longrightarrow> counters_inv s'"
  by (erule iterM_invariant [where I = counters_inv]) (auto intro: count_region_inv)

lemma visit_MRC_SomeE:
  assumes "visit_MRC a s = Some s'"
  obtains (nested) "is_Func a" "NextCounter s \<noteq> 0" "s' = s\<lparr>stop := True\<rparr>"
    | (outer) p fbody where "a = FuncDeclaration p fbody" "NextCounter s = 0"
        "s' = assign_counter (addr fbody) s"
    | (skip) "\<not> is_Func a" "s' = s"
    | (count) "\<not> is_Func a" "iterM count_region (node_regions a) s = Some s'"
proof (cases "is_Func a")
  case True
  then obtain p fbody where "a = FuncDeclaration p fbody" by (cases a) auto
  with assms nested outer show ?thesis
    by (auto simp: visit_FuncDeclaration_def split: if_splits)
next
  case False
  moreover have "\<not> unhandled a"
  proof
    assume "unhandled a" with assms show False by (cases a) auto
  qed
  ultimately have "Some s' = (case node_regions a of [] \<Rightarrow> Some s
      | r # rs \<Rightarrow> SKIP_VISITED (fst r) (iterM count_region (r # rs)) s)"
    using visit_regions [of a s] assms by simp
  then have "s' = s \<or> iterM count_region (node_regions a) s = Some s'"
    by (cases "node_regions a") (auto simp: SKIP_VISITED_def split: if_splits)
  then show ?thesis using skip [OF False] count [OF False] by blast
qed

lemma visit_MRC_inv: "counters_inv s \<Longrightarrow> visit_MRC a s = Some s' \<Longrightarrow> counters_inv s'"
  by (erule visit_MRC_SomeE) (auto simp: assign_counter_inv dest: count_regions_inv)

interpretation mrc_counters: invariant_visitor "plain_walker visit_MRC True" counters_inv
  by unfold_locales (auto simp: plain_walker_def intro: visit_MRC_inv)

section \<open>The mapping as a function of the visit order\<close>

definition numbering :: "MapRegionCounters \<Rightarrow> bool" where
  "numbering s \<longleftrightarrow> NextCounter s \<noteq> 0 \<and> \<not> stop s"

lemma count_region_numbering: "numbering s \<Longrightarrow> count_region r s = Some s' \<Longrightarrow> numbering s'"
  by (auto simp: numbering_def count_region_def assign_counter_def Let_def split: Option.bind_splits)

lemma count_regions_numbering:
  "numbering s \<Longrightarrow> iterM count_region rs s = Some s' \<Longrightarrow> numbering s'"
  by (erule iterM_invariant [where I = numbering]) (auto intro: count_region_numbering)

interpretation mrc: resuming_visitor visit_MRC is_Func numbering
proof
  fix s a s'
  assume I: "numbering s" and v: "visit_MRC a s = Some s'"
  have *: "iterM count_region (node_regions a) s = Some s' \<Longrightarrow> NextCounter s' \<noteq> 0 \<and> \<not> stop s'"
    using count_regions_numbering [OF I, of "node_regions a" s'] by (simp add: numbering_def)
  from v I * show "stop s' = is_Func a"
    by (cases rule: visit_MRC_SomeE) (auto simp: numbering_def)
  from v I * show "numbering (s'\<lparr>stop := False\<rparr>)"
    by (cases rule: visit_MRC_SomeE) (auto simp: numbering_def)
next
  fix a :: "ptr ast"
  assume "is_Catch a" then show "\<not> is_Func a" by (cases a) auto
qed (simp add: numbering_def)

lemma stop_update_idle: "\<not> stop s \<Longrightarrow> s\<lparr>stop := False\<rparr> = s"
  by (cases s) simp

definition fn_regions :: "ptr ast \<Rightarrow> (ptr \<times> HashType) list" where
  "fn_regions fbody = concat (map node_regions (visit_order is_Func fbody))"

lemma combine_total: "t \<noteq> HashNone \<Longrightarrow> \<exists>h'. combine t h = Some h'"
  by (simp add: combine_Some)

definition counted :: "(ptr \<times> HashType) list \<Rightarrow> MapRegionCounters \<Rightarrow> MapRegionCounters \<Rightarrow> bool" where
  "counted rs s s' \<longleftrightarrow>
     CounterMap s' = CounterMap s @ zip (map fst rs) [NextCounter s..<NextCounter s + length rs]
     \<and> NextCounter s' = NextCounter s + length rs \<and> stop s' = stop s
     \<and> iterM combine (map snd rs) (Hash s) = Some (Hash s')"

lemma counted_append:
  "counted rs s s' \<Longrightarrow> counted rs' s' s'' \<Longrightarrow> counted (rs @ rs') s s''"
  using zip_upt_append [of "map fst rs" "map fst rs'" "NextCounter s"]
  by (auto simp: counted_def iterM_append add.assoc)

lemma count_regions:
  assumes "distinct (map fst rs)" "set (map fst rs) \<inter> set (map fst (CounterMap s)) = {}"
    "HashNone \<notin> set (map snd rs)"
  shows "\<exists>s'. iterM count_region rs s = Some s' \<and> counted rs s s'"
  using assms
proof (induction rs arbitrary: s)
  case (Cons r rs)
  obtain h where h: "combine (snd r) (Hash s) = Some h"
    using Cons.prems(3) combine_total [of "snd r" "Hash s"] by auto
  let ?s = "s\<lparr>CounterMap := CounterMap s @ [(fst r, NextCounter s)], NextCounter := NextCounter s + 1,
      Hash := h\<rparr>"
  have s1: "count_region r s = Some ?s"
    using Cons.prems(2) h by (auto simp: count_region_def assign_counter_def update_fresh)
  have c1: "counted [r] s ?s" using h by (simp add: counted_def)
  obtain s' where s': "iterM count_region rs ?s = Some s'" "counted rs ?s s'"
    using Cons.IH [of ?s] Cons.prems by auto
  from counted_append [OF c1 s'(2)] have "counted (r # rs) s s'" by simp
  with s1 s' show ?case by auto
qed (simp add: counted_def)

lemma visit_nodes:
  assumes "distinct (map fst (concat (map node_regions as)))"
    "set (map fst (concat (map node_regions as))) \<inter> set (map fst (CounterMap s)) = {}"
    "\<forall>a\<in>set as. \<not> unhandled a" "NextCounter s \<noteq> 0" "\<not> stop s"
  shows "\<exists>s'. iterM (resumed visit_MRC) as s = Some s' \<and> counted (concat (map node_regions as)) s s'"
  using assms
proof (induction as arbitrary: s)
  case (Cons a as)
  have s1: "\<exists>s1. resumed visit_MRC a s = Some s1 \<and> counted (node_regions a) s s1"
  proof (cases "is_Func a")
    case True
    with Cons.prems(4,5) show ?thesis
      by (cases a) (auto simp: resumed_def visit_FuncDeclaration_def counted_def node_regions_def)
  next
    case False
    have "HashNone \<notin> set (map snd (node_regions a))"
      by (simp add: node_regions_types HashNone_node_types)
    then obtain s1 where "iterM count_region (node_regions a) s = Some s1" "counted (node_regions a) s s1"
      using count_regions [of "node_regions a" s] Cons.prems(1,2) by auto
    moreover from this(2) Cons.prems(5) have "\<not> stop s1" by (simp add: counted_def)
    ultimately show ?thesis
      using Cons.prems(2,3,5) False
      by (cases "node_regions a")
        (auto simp: resumed_def visit_regions SKIP_VISITED_def stop_update_idle)
  qed
  then obtain s1 where s1: "resumed visit_MRC a s = Some s1" "counted (node_regions a) s s1" by auto
  let ?rs = "concat (map node_regions as)"
  from s1(2) have "set (map fst (CounterMap s1)) \<subseteq> set (map fst (CounterMap s)) \<union> set (map fst (node_regions a))"
    by (auto simp: counted_def dest: set_zip_leftD)
  moreover have "set (map fst ?rs) \<inter> set (map fst (CounterMap s)) = {}"
    "set (map fst ?rs) \<inter> set (map fst (node_regions a)) = {}"
    using Cons.prems(1,2) by (simp_all only: list.map concat.simps map_append distinct_append set_append) blast+
  ultimately have "set (map fst ?rs) \<inter> set (map fst (CounterMap s1)) = {}"
    by blast
  then obtain s2 where "iterM (resumed visit_MRC) as s1 = Some s2" "counted ?rs s1 s2"
    using Cons.IH [of s1] Cons.prems(1,3-5) s1(2) by (auto simp: counted_def)
  with s1 counted_append [of "node_regions a" s s1 ?rs s2] show ?case by auto
qed (simp add: counted_def)

lemma walk_function:
  "walk (plain_walker visit_MRC True) (FuncDeclaration p fbody) MapRegionCounters_init
     = iterM (resumed visit_MRC) (visit_order is_Func fbody)
         (assign_counter (addr fbody) MapRegionCounters_init)"
proof -
  let ?s = "assign_counter (addr fbody) MapRegionCounters_init"
  have "numbering ?s"
    by (simp add: numbering_def assign_counter_def MapRegionCounters_init_def)
  then have "walk (plain_walker visit_MRC True) fbody ?s
      = iterM (resumed visit_MRC) (visit_order is_Func fbody) ?s"
    by (rule mrc.walk_iterM)
  moreover have "call_visitor (plain_walker visit_MRC True) (FuncDeclaration p fbody) MapRegionCounters_init
      = Some (False, ?s)"
    by (simp add: call_visitor_def plain_walker_def visit_FuncDeclaration_def assign_counter_def
        MapRegionCounters_init_def)
  ultimately show ?thesis
    by (auto simp: void_def orelse_def recurse_def map_option_case
        split: option.splits Option.bind_splits)
qed

text \<open>
  The trees the mapper is meant for: every key it will use is different (no shared region
  nodes, no region node used directly as an unrolled iteration), and no statement class that
  the front end should have lowered is left.
\<close>

definition mappable :: "ptr ast \<Rightarrow> bool" where
  "mappable fbody \<longleftrightarrow>
     distinct (addr fbody # map fst (fn_regions fbody))
     \<and> (\<forall>a\<in>set (visit_order is_Func fbody). \<not> unhandled a)"

lemma map_snd_fn_regions:
  "map snd (fn_regions fbody) = concat (map node_types (visit_order is_Func fbody))"
  by (simp add: fn_regions_def map_concat comp_def node_regions_types)

lemma mapRegionCounters_eq:
  assumes "mappable fbody"
  shows "mapRegionCounters md5_low (FuncDeclaration p fbody) pgo = Some (pgo
     \<lparr>RegionCounterMap :=
        Some (zip (addr fbody # map fst (fn_regions fbody)) [0..<Suc (length (fn_regions fbody))]),
      NumRegionCounters := Suc (length (fn_regions fbody)),
      FunctionHash := the (sequence_hash md5_low (map snd (fn_regions fbody)))\<rparr>)"
proof -
  let ?s = "assign_counter (addr fbody) MapRegionCounters_init"
  have s: "CounterMap ?s = [(addr fbody, 0)]" "NextCounter ?s = 1" "\<not> stop ?s" "Hash ?s = PGOHash_init"
    by (simp_all add: assign_counter_def MapRegionCounters_init_def)
  obtain s' where s': "iterM (resumed visit_MRC) (visit_order is_Func fbody) ?s = Some s'"
    "counted (fn_regions fbody) ?s s'"
    using visit_nodes [of "visit_order is_Func fbody" ?s] assms s
    by (auto simp: mappable_def fn_regions_def)
  have h: "sequence_hash md5_low (map snd (fn_regions fbody)) = Some (finalize md5_low (Hash s'))"
    using s'(2) s by (simp add: counted_def sequence_hash_def combine_all_def)
  have "zip (addr fbody # map fst (fn_regions fbody)) [0..<Suc (length (fn_regions fbody))]
      = (addr fbody, 0) # zip (map fst (fn_regions fbody)) [1..<1 + length (fn_regions fbody)]"
    by (simp add: upt_conv_Cons del: upt_Suc)
  with s' s h show ?thesis
    by (simp add: mapRegionCounters_def walk_function counted_def del: upt_Suc walk.simps)
qed

section \<open>The mapping depends on the shape of the tree only\<close>

lemma children_map: "children (map_ast f a) = map (map_ast f) (children a)"
  by (cases a) simp_all

lemma skipped_map: "skipped ve (map_ast f a) = skipped ve a"
  by (cases a) simp_all

lemma is_Catch_map: "is_Catch (map_ast f a) = is_Catch a"
  by (cases a) simp_all

lemma is_Func_map: "is_Func (map_ast f a) = is_Func a"
  by (cases a) simp_all

lemma is_Null_map: "map_ast f a = Null \<longleftrightarrow> a = Null"
  by (cases a) simp_all

lemma node_types_map: "node_types (map_ast f a) = node_types a"
  by (cases a) (simp_all add: comp_def is_Null_map)

lemma visit_order_map: "visit_order is_Func (map_ast f a) = map (map_ast f) (visit_order is_Func a)"
proof (induction a rule: ast_children_induct)
  case (node a)
  then show ?case
    by (subst (1 2) visit_order.simps)
      (auto simp: children_map skipped_map is_Catch_map is_Func_map map_concat
         intro!: arg_cong [where f = concat])
qed

lemma fn_types_shape:
  assumes "map_ast (\<lambda>_. ()) a = map_ast (\<lambda>_. ()) b"
  shows "map snd (fn_regions a) = map snd (fn_regions b)"
proof -
  have "concat (map node_types (visit_order is_Func a))
      = concat (map node_types (visit_order is_Func (map_ast (\<lambda>_. ()) a)))" for a :: "ptr ast"
    by (simp add: visit_order_map comp_def node_types_map)
  then show ?thesis using assms by (simp add: map_snd_fn_regions)
qed

end
