(* ===== verification/ComputeRegionCounts.thy ===== *)
theory ComputeRegionCounts
  imports MapRegionCounters
begin

text \<open>
  The visitor \<open>ComputeRegionCounts\<close> of gen/pgo_ASTbased.cpp, which propagates the raw
  counters of a profile through the tree, on top of the default traversal of
  \<open>RecursiveVisitor\<close> (gen/recursivevisitor.h) for the classes it does not override. Counts
  are \<open>uint64_t\<close> and wrap. \<open>None\<close> is a failed assertion, a read past the end of
  \<open>RegionCounts\<close>, \<open>fatal()\<close>, or the endless recursion of the inherited visit of a
  \<open>DebugStatement\<close>.
\<close>

section \<open>Reading a counter\<close>

text \<open>
  \<open>CodeGenPGO::getRegionCount\<close>. \<open>DenseMap::operator[]\<close> inserts the counter 0 for an object
  that has no entry.
\<close>

definition densemap_index :: "ptr \<Rightarrow> (ptr \<times> nat) list \<Rightarrow> nat \<times> (ptr \<times> nat) list" where
  "densemap_index p m = (case map_of m p of Some i \<Rightarrow> (i, m) | None \<Rightarrow> (0, m @ [(p, 0)]))"

definition haveRegionCounts :: "CodeGenPGO \<Rightarrow> bool" where
  "haveRegionCounts pgo \<longleftrightarrow> RegionCounts pgo \<noteq> []"

definition getRegionCount :: "ptr \<Rightarrow> CodeGenPGO \<Rightarrow> (u64 \<times> CodeGenPGO) option" where
  "getRegionCount p pgo =
     (case RegionCounterMap pgo of
        None \<Rightarrow> Some (0, pgo)
      | Some m \<Rightarrow>
          if \<not> haveRegionCounts pgo then Some (0, pgo)
          else
            let (i, m') = densemap_index p m
            in if i < length (RegionCounts pgo)
               then Some (RegionCounts pgo ! i, pgo\<lparr>RegionCounterMap := Some m'\<rparr>) else None)"

section \<open>The visitor\<close>

record BreakContinue =
  BreakCount :: u64
  ContinueCount :: u64

definition BreakContinue_init :: BreakContinue where
  "BreakContinue_init = \<lparr>BreakCount = 0, ContinueCount = 0\<rparr>"

record ComputeRegionCounts =
  PGO :: CodeGenPGO
  RecordNextStmtCount :: bool
  CurrentCount :: u64
  CountMap :: "ptr \<rightharpoonup> u64"
  BreakContinueStack :: "BreakContinue list"
  LoopLabels :: "(ptr \<times> nat) list"

definition RecordStmtCount :: "ptr \<Rightarrow> ComputeRegionCounts \<Rightarrow> ComputeRegionCounts" where
  "RecordStmtCount p s =
     (if RecordNextStmtCount s
      then s\<lparr>CountMap := (CountMap s)(p \<mapsto> CurrentCount s), RecordNextStmtCount := False\<rparr> else s)"

definition setCount :: "u64 \<Rightarrow> ComputeRegionCounts \<Rightarrow> ComputeRegionCounts" where
  "setCount c s = s\<lparr>CurrentCount := c\<rparr>"

definition setRecord :: "bool \<Rightarrow> ComputeRegionCounts \<Rightarrow> ComputeRegionCounts" where
  "setRecord b s = s\<lparr>RecordNextStmtCount := b\<rparr>"

text \<open>\<open>CountMap[p] = c\<close>.\<close>

definition putCount :: "ptr \<Rightarrow> u64 \<Rightarrow> ComputeRegionCounts \<Rightarrow> ComputeRegionCounts" where
  "putCount p c s = s\<lparr>CountMap := (CountMap s)(p \<mapsto> c)\<rparr>"

definition regionCount :: "ptr \<Rightarrow> ComputeRegionCounts \<Rightarrow> (u64 \<times> ComputeRegionCounts) option" where
  "regionCount p s = do { (c, pgo) \<leftarrow> getRegionCount p (PGO s); Some (c, s\<lparr>PGO := pgo\<rparr>) }"

definition pushBC :: "ComputeRegionCounts \<Rightarrow> ComputeRegionCounts" where
  "pushBC s = s\<lparr>BreakContinueStack := BreakContinueStack s @ [BreakContinue_init]\<rparr>"

text \<open>\<open>BreakContinueStack.pop_back_val()\<close>; popping an empty stack fails.\<close>

definition popBC :: "ComputeRegionCounts \<Rightarrow> (BreakContinue \<times> ComputeRegionCounts) option" where
  "popBC s =
     (if BreakContinueStack s = [] then None
      else Some (last (BreakContinueStack s), s\<lparr>BreakContinueStack := butlast (BreakContinueStack s)\<rparr>))"

text \<open>The entry of the stack that a jump statement refers to, with the assertions on the way.\<close>

definition jumpIndex :: "ptr option \<Rightarrow> ComputeRegionCounts \<Rightarrow> nat option" where
  "jumpIndex target s =
     (if BreakContinueStack s = [] then None
      else case target of
        None \<Rightarrow> Some (length (BreakContinueStack s) - 1)
      | Some l \<Rightarrow>
          (case find (\<lambda>LL. fst LL = l) (LoopLabels s) of
             None \<Rightarrow> None
           | Some LL \<Rightarrow>
               if snd LL < length (BreakContinueStack s) then Some (snd LL) else None))"

definition addBreak :: "nat \<Rightarrow> u64 \<Rightarrow> BreakContinue list \<Rightarrow> BreakContinue list" where
  "addBreak i c st = st[i := (st ! i)\<lparr>BreakCount := BreakCount (st ! i) + c\<rparr>]"

definition addContinue :: "nat \<Rightarrow> u64 \<Rightarrow> BreakContinue list \<Rightarrow> BreakContinue list" where
  "addContinue i c st = st[i := (st ! i)\<lparr>ContinueCount := ContinueCount (st ! i) + c\<rparr>]"

text \<open>What every statement that leaves the straight line does at the end.\<close>

definition unreachableNext :: "ComputeRegionCounts \<Rightarrow> ComputeRegionCounts" where
  "unreachableNext s = setRecord True (setCount 0 s)"

definition visit_Break :: "ptr \<Rightarrow> ptr option \<Rightarrow> ComputeRegionCounts \<Rightarrow> ComputeRegionCounts option" where
  "visit_Break p target s = do {
     let s1 = RecordStmtCount p s;
     i \<leftarrow> jumpIndex target s1;
     Some (unreachableNext
       (s1\<lparr>BreakContinueStack := addBreak i (CurrentCount s1) (BreakContinueStack s1)\<rparr>)) }"

definition visit_Continue :: "ptr \<Rightarrow> ptr option \<Rightarrow> ComputeRegionCounts \<Rightarrow> ComputeRegionCounts option" where
  "visit_Continue p target s = do {
     let s1 = RecordStmtCount p s;
     i \<leftarrow> jumpIndex target s1;
     Some (unreachableNext
       (s1\<lparr>BreakContinueStack := addContinue i (CurrentCount s1) (BreakContinueStack s1)\<rparr>)) }"

definition visit_Leaf :: "leaf_kind \<Rightarrow> ptr \<Rightarrow> ComputeRegionCounts \<Rightarrow> ComputeRegionCounts option" where
  "visit_Leaf k p s =
     (if k = GotoStatement \<or> k = GotoDefaultStatement \<or> k = GotoCaseStatement
      then Some (unreachableNext (RecordStmtCount p s))
      else if leaf_is_statement k then Some (RecordStmtCount p s)
      else Some s)"

text \<open>The continue counts of a \<open>switch\<close> go to the loop around it.\<close>

definition forwardContinue :: "u64 \<Rightarrow> BreakContinue list \<Rightarrow> BreakContinue list" where
  "forwardContinue c st = (if st = [] then st else addContinue (length st - 1) c st)"

text \<open>The counts of a \<open>case\<close> or \<open>default\<close>, before its statement is visited.\<close>

definition enterCase :: "ptr \<Rightarrow> bool \<Rightarrow> ComputeRegionCounts \<Rightarrow> ComputeRegionCounts option" where
  "enterCase p gototarget s = do {
     (caseCount, s1) \<leftarrow> regionCount p s;
     let s2 = putCount p caseCount s1;
     s3 \<leftarrow> (if gototarget
            then do {
              (c, s3) \<leftarrow> regionCount (getCounterPtr p 1) s2;
              Some (putCount (getCounterPtr p 1) c (setCount c s3)) }
            else Some (setCount (CurrentCount s2 + caseCount) s2));
     Some (setRecord True s3) }"

section \<open>The handlers\<close>

text \<open>
  One definition per overridden \<open>visit\<close>. A handler gets the child pointers and, for each
  child it recurses into, the visit of that child.
\<close>

type_synonym crc = "ComputeRegionCounts \<Rightarrow> ComputeRegionCounts option"

text \<open>\<open>setCount(c); CountMap[x] = c; recurse(x)\<close>.\<close>

definition visitWith :: "u64 \<Rightarrow> ptr \<Rightarrow> crc \<Rightarrow> crc" where
  "visitWith c p v s = v (putCount p c (setCount c s))"

definition finish :: "u64 \<Rightarrow> ComputeRegionCounts \<Rightarrow> ComputeRegionCounts" where
  "finish c s = setRecord True (setCount c s)"

definition visit_FuncDecl :: "ptr \<Rightarrow> crc \<Rightarrow> crc" where
  "visit_FuncDecl fbody v s = do {
     (bodyCount, s1) \<leftarrow> regionCount fbody s;
     visitWith bodyCount fbody v s1 }"

definition visit_Return :: "ptr \<Rightarrow> crc \<Rightarrow> crc" where
  "visit_Return p v s = do {
     s1 \<leftarrow> v (RecordStmtCount p s);
     Some (unreachableNext s1) }"

definition visit_Throw :: "ptr \<Rightarrow> crc \<Rightarrow> crc" where
  "visit_Throw p v s = do {
     s1 \<leftarrow> v (RecordStmtCount p s);
     Some (unreachableNext s1) }"

definition visit_Label :: "ptr \<Rightarrow> crc \<Rightarrow> crc" where
  "visit_Label p v s = do {
     (blockCount, s1) \<leftarrow> regionCount p (setRecord False s);
     let s2 = putCount p blockCount (setCount blockCount s1);
     v (s2\<lparr>LoopLabels := LoopLabels s2 @ [(p, length (BreakContinueStack s2))]\<rparr>) }"

definition visit_Unrolled :: "ptr \<Rightarrow> crc \<Rightarrow> crc" where
  "visit_Unrolled p v s = do {
     s1 \<leftarrow> v (pushBC (RecordStmtCount p s));
     (bc, s2) \<leftarrow> popBC s1;
     (c, s3) \<leftarrow> regionCount p s2;
     Some (finish c s3) }"

definition visit_While :: "ptr \<Rightarrow> ptr \<Rightarrow> crc \<Rightarrow> ptr \<Rightarrow> crc \<Rightarrow> crc" where
  "visit_While p condition v_condition body v_body s = do {
     let s0 = RecordStmtCount p s;
     let parentCount = CurrentCount s0;
     (bodyCount, s1) \<leftarrow> regionCount p (pushBC s0);
     s2 \<leftarrow> visitWith bodyCount body v_body s1;
     let backedgeCount = CurrentCount s2;
     (bc, s3) \<leftarrow> popBC s2;
     let condCount = parentCount + backedgeCount + ContinueCount bc;
     s4 \<leftarrow> visitWith condCount condition v_condition s3;
     Some (finish (BreakCount bc + condCount - bodyCount) s4) }"

definition visit_Do :: "ptr \<Rightarrow> ptr \<Rightarrow> crc \<Rightarrow> ptr \<Rightarrow> crc \<Rightarrow> crc" where
  "visit_Do p body v_body condition v_condition s = do {
     let s0 = RecordStmtCount p s;
     let fallThroughCount = CurrentCount s0;
     (bodyCount, s1) \<leftarrow> regionCount p (pushBC s0);
     s2 \<leftarrow> visitWith bodyCount body v_body s1;
     let backedgeCount = CurrentCount s2;
     (bc, s3) \<leftarrow> popBC s2;
     let condCount = backedgeCount + ContinueCount bc;
     s4 \<leftarrow> visitWith condCount condition v_condition s3;
     let loopCount = bodyCount - fallThroughCount;
     Some (finish (BreakCount bc + condCount - loopCount) s4) }"

definition visit_For ::
  "ptr \<Rightarrow> crc \<Rightarrow> ptr \<Rightarrow> crc \<Rightarrow> ptr \<Rightarrow> crc \<Rightarrow> ptr \<Rightarrow> crc \<Rightarrow> crc" where
  "visit_For p v_init condition v_condition body v_body increment v_increment s = do {
     s0 \<leftarrow> v_init (RecordStmtCount p s);
     let parentCount = CurrentCount s0;
     (bodyCount, s1) \<leftarrow> regionCount p (pushBC s0);
     s2 \<leftarrow> visitWith bodyCount body v_body s1;
     let backedgeCount = CurrentCount s2;
     (bc, s3) \<leftarrow> popBC s2;
     s4 \<leftarrow> (if increment = nullptr then Some s3
            else visitWith (backedgeCount + ContinueCount bc) increment v_increment s3);
     let condCount = parentCount + backedgeCount + ContinueCount bc;
     s5 \<leftarrow> visitWith condCount (if condition = nullptr then getCounterPtr p 1 else condition)
            v_condition s4;
     Some (finish (BreakCount bc + condCount - bodyCount) s5) }"

text \<open>The part that the two \<open>foreach\<close> handlers have in common, after the aggregate or the bounds.\<close>

definition foreachBody :: "ptr \<Rightarrow> ptr \<Rightarrow> crc \<Rightarrow> crc" where
  "foreachBody p body v_body s0 = do {
     let parentCount = CurrentCount s0;
     (bodyCount, s1) \<leftarrow> regionCount p (pushBC s0);
     s2 \<leftarrow> visitWith bodyCount body v_body s1;
     let backedgeCount = CurrentCount s2;
     (bc, s3) \<leftarrow> popBC s2;
     let condCount = parentCount + backedgeCount + ContinueCount bc;
     Some (finish (BreakCount bc + condCount - bodyCount) (putCount (getCounterPtr p 1) condCount s3)) }"

definition visit_Foreach :: "ptr \<Rightarrow> crc \<Rightarrow> ptr \<Rightarrow> crc \<Rightarrow> crc" where
  "visit_Foreach p v_aggr body v_body s = do {
     s0 \<leftarrow> v_aggr (RecordStmtCount p s);
     foreachBody p body v_body s0 }"

definition visit_ForeachRange :: "ptr \<Rightarrow> crc \<Rightarrow> crc \<Rightarrow> ptr \<Rightarrow> crc \<Rightarrow> crc" where
  "visit_ForeachRange p v_lwr v_upr body v_body s = do {
     s' \<leftarrow> v_lwr (RecordStmtCount p s);
     s0 \<leftarrow> v_upr s';
     foreachBody p body v_body s0 }"

definition visit_Switch :: "ptr \<Rightarrow> crc \<Rightarrow> crc \<Rightarrow> crc" where
  "visit_Switch p v_condition v_body s = do {
     s1 \<leftarrow> v_condition (RecordStmtCount p s);
     s2 \<leftarrow> v_body (pushBC (setCount 0 s1));
     (bc, s3) \<leftarrow> popBC s2;
     let s4 = s3\<lparr>BreakContinueStack := forwardContinue (ContinueCount bc) (BreakContinueStack s3)\<rparr>;
     (c, s5) \<leftarrow> regionCount p s4;
     Some (finish c s5) }"

definition visit_Case :: "ptr \<Rightarrow> bool \<Rightarrow> crc \<Rightarrow> crc" where
  "visit_Case p gototarget v s = do { s1 \<leftarrow> enterCase p gototarget s; v s1 }"

definition visit_Default :: "ptr \<Rightarrow> bool \<Rightarrow> crc \<Rightarrow> crc" where
  "visit_Default p gototarget v s = do { s1 \<leftarrow> enterCase p gototarget s; v s1 }"

definition visit_If :: "ptr \<Rightarrow> crc \<Rightarrow> ptr \<Rightarrow> crc \<Rightarrow> ptr \<Rightarrow> crc \<Rightarrow> crc" where
  "visit_If p v_condition ifbody v_ifbody elsebody v_elsebody s = do {
     let s0 = RecordStmtCount p s;
     let parentCount = CurrentCount s0;
     s1 \<leftarrow> v_condition s0;
     (thenCount, s2) \<leftarrow> regionCount p s1;
     s3 \<leftarrow> visitWith thenCount ifbody v_ifbody s2;
     let outCount = CurrentCount s3;
     let elseCount = parentCount - thenCount;
     if elsebody = nullptr then Some (finish (outCount + elseCount) s3)
     else do {
       s4 \<leftarrow> visitWith elseCount elsebody v_elsebody s3;
       Some (finish (outCount + CurrentCount s4) s4) } }"

definition visit_TryCatch_CRC :: "ptr \<Rightarrow> crc \<Rightarrow> crc \<Rightarrow> crc" where
  "visit_TryCatch_CRC p v_body v_catches s = do {
     s1 \<leftarrow> v_body (setRecord True (RecordStmtCount p s));
     s2 \<leftarrow> v_catches s1;
     (c, s3) \<leftarrow> regionCount p s2;
     Some (finish c s3) }"

definition visit_TryFinally_CRC :: "ptr \<Rightarrow> crc \<Rightarrow> crc \<Rightarrow> crc" where
  "visit_TryFinally_CRC p v_body v_finalbody s = do {
     let s0 = RecordStmtCount p s;
     let parentCount = CurrentCount s0;
     s1 \<leftarrow> v_body (setRecord True s0);
     s2 \<leftarrow> v_finalbody (setRecord True (setCount parentCount s1));
     (c, s3) \<leftarrow> regionCount p s2;
     Some (finish c s3) }"

definition visit_CondExp :: "ptr \<Rightarrow> crc \<Rightarrow> ptr \<Rightarrow> crc \<Rightarrow> ptr \<Rightarrow> crc \<Rightarrow> crc" where
  "visit_CondExp p v_econd e1 v_e1 e2 v_e2 s = do {
     let s0 = RecordStmtCount p s;
     let parentCount = CurrentCount s0;
     s1 \<leftarrow> v_econd s0;
     (trueCount, s2) \<leftarrow> regionCount p s1;
     s3 \<leftarrow> visitWith trueCount e1 v_e1 s2;
     let outCount = CurrentCount s3;
     s4 \<leftarrow> visitWith (parentCount - trueCount) e2 v_e2 s3;
     Some (finish (outCount + CurrentCount s4) s4) }"

definition visit_LogicalExp :: "ptr \<Rightarrow> crc \<Rightarrow> ptr \<Rightarrow> crc \<Rightarrow> crc" where
  "visit_LogicalExp p v_e1 e2 v_e2 s = do {
     let s0 = RecordStmtCount p s;
     let parentCount = CurrentCount s0;
     s1 \<leftarrow> v_e1 s0;
     (rhsCount, s2) \<leftarrow> regionCount p s1;
     s3 \<leftarrow> visitWith rhsCount e2 v_e2 s2;
     Some (finish (parentCount + rhsCount - CurrentCount s3) s3) }"

text \<open>
  The body of the loop over unrolled iterations and over catch handlers: set the count of the
  region, then visit it.
\<close>

definition visitRegion :: "ptr \<Rightarrow> crc \<Rightarrow> crc" where
  "visitRegion p v s = do {
     (c, s1) \<leftarrow> regionCount p s;
     v (setRecord True (setCount c s1)) }"

section \<open>The traversal\<close>

fun visit_CRC :: "ptr ast \<Rightarrow> crc"
  and visits_CRC :: "ptr ast list \<Rightarrow> crc"
  and visitRegions_CRC :: "ptr ast list \<Rightarrow> crc" where
  "visit_CRC Null = Some"
| "visit_CRC (Leaf k p) = visit_Leaf k p"
| "visit_CRC (Seq k p xs) = visits_CRC xs"
| "visit_CRC (Members k p xs) = Some"
| "visit_CRC (StructLiteralExp p stageflags xs) =
     (if StructLiteral_visited stageflags then Some else visits_CRC xs)"
| "visit_CRC (FuncDeclaration p fbody) = visit_FuncDecl (addr fbody) (visit_CRC fbody)"
| "visit_CRC (ReturnStatement p e) = visit_Return p (visit_CRC e)"
| "visit_CRC (ThrowStatement p e) = visit_Throw p (visit_CRC e)"
| "visit_CRC (ScopeGuardStatement p x) = (\<lambda>s. None)"
| "visit_CRC (DebugStatement p x) = (\<lambda>s. None)"
| "visit_CRC (PragmaStatement p b) = (\<lambda>s. Some (RecordStmtCount p s))"
| "visit_CRC (LabelStatement p x) = visit_Label p (visit_CRC x)"
| "visit_CRC (BreakStatement p t) = visit_Break p t"
| "visit_CRC (ContinueStatement p t) = visit_Continue p t"
| "visit_CRC (UnrolledLoopStatement p xs) = visit_Unrolled p (visitRegions_CRC xs)"
| "visit_CRC (WhileStatement p c b) = visit_While p (addr c) (visit_CRC c) (addr b) (visit_CRC b)"
| "visit_CRC (DoStatement p b c) = visit_Do p (addr b) (visit_CRC b) (addr c) (visit_CRC c)"
| "visit_CRC (ForStatement p i c b inc) =
     visit_For p (visit_CRC i) (addr c) (visit_CRC c) (addr b) (visit_CRC b) (addr inc) (visit_CRC inc)"
| "visit_CRC (ForeachStatement p a b) = visit_Foreach p (visit_CRC a) (addr b) (visit_CRC b)"
| "visit_CRC (ForeachRangeStatement p l u b) =
     visit_ForeachRange p (visit_CRC l) (visit_CRC u) (addr b) (visit_CRC b)"
| "visit_CRC (SwitchStatement p c b) = visit_Switch p (visit_CRC c) (visit_CRC b)"
| "visit_CRC (CaseStatement p g x) = visit_Case p g (visit_CRC x)"
| "visit_CRC (DefaultStatement p g x) = visit_Default p g (visit_CRC x)"
| "visit_CRC (IfStatement p c t e) =
     visit_If p (visit_CRC c) (addr t) (visit_CRC t) (addr e) (visit_CRC e)"
| "visit_CRC (TryCatchStatement p b cs) = visit_TryCatch_CRC p (visit_CRC b) (visitRegions_CRC cs)"
| "visit_CRC (Catch p handler) = visit_CRC handler"
| "visit_CRC (TryFinallyStatement p b f) = visit_TryFinally_CRC p (visit_CRC b) (visit_CRC f)"
| "visit_CRC (CondExp p c a b) =
     visit_CondExp p (visit_CRC c) (addr a) (visit_CRC a) (addr b) (visit_CRC b)"
| "visit_CRC (LogicalExp p andAnd a b) = visit_LogicalExp p (visit_CRC a) (addr b) (visit_CRC b)"
| "visits_CRC [] = Some"
| "visits_CRC (x # xs) = (\<lambda>s. do { s1 \<leftarrow> visit_CRC x s; visits_CRC xs s1 })"
| "visitRegions_CRC [] = Some"
| "visitRegions_CRC (x # xs) =
     (\<lambda>s. do { s1 \<leftarrow> visitRegion (addr x) (visit_CRC x) s; visitRegions_CRC xs s1 })"

section \<open>The entry point\<close>

text \<open>\<open>CodeGenPGO::computeRegionCounts\<close>. The visitor's count is set before it is first read.\<close>

definition ComputeRegionCounts_init :: "CodeGenPGO \<Rightarrow> ComputeRegionCounts" where
  "ComputeRegionCounts_init pgo =
     \<lparr>PGO = pgo, RecordNextStmtCount = False, CurrentCount = 0, CountMap = Map.empty,
      BreakContinueStack = [], LoopLabels = []\<rparr>"

definition computeRegionCounts :: "ptr ast \<Rightarrow> CodeGenPGO \<Rightarrow> CodeGenPGO option" where
  "computeRegionCounts FD pgo = do {
     s \<leftarrow> visit_CRC FD (ComputeRegionCounts_init pgo);
     Some ((PGO s)\<lparr>StmtCountMap := Some (CountMap s)\<rparr>) }"

end
