(* ===== verification/PGOSemantics.thy ===== *)
theory PGOSemantics
  imports ComputeRegionCounts
begin

text \<open>
  What the counters of an instrumented function mean: the executions of the structured part
  of the language, each with the trace of the counters it increments (at the places where
  gen/statements.cpp, gen/toir.cpp and gen/trycatchfinally.cpp call \<open>emitCounterIncrement\<close>)
  and of the nodes it enters. Conditions and catch handlers are chosen freely, so the set of
  executions covers every concrete one in which calls return: an exception that leaves a call
  is invisible to the counters, so only \<open>throw\<close> statements raise one here. Jumps carry the
  depth of the loop they leave.

  The structured part has all of the tree but \<open>goto\<close>, \<open>switch\<close>, nested functions and the
  few nodes whose children do not run where they stand (an assertion's message, a variable's
  destructor, a pragma's body). An \<open>if\<close> has a body, as the front end builds it: for one without,
  which \<open>exec\<close> reads like one with an empty body, the code generator would emit no increment.
\<close>

section \<open>Runs\<close>

datatype event = Inc ptr | Enter ptr

datatype outcome = Normal | Brk nat | Cont nat | Ret | Thr

type_synonym run = "event list \<times> outcome"

definition prefixed :: "event list \<Rightarrow> run set \<Rightarrow> run set" where
  "prefixed es A = (\<lambda>(t, out). (es @ t, out)) ` A"

definition andThen :: "run set \<Rightarrow> run set \<Rightarrow> run set" where
  "andThen A B = {(t1 @ t2, out) | t1 t2 out. (t1, Normal) \<in> A \<and> (t2, out) \<in> B}
     \<union> {(t, out) \<in> A. out \<noteq> Normal}"

text \<open>Outcomes of a loop body, at loop depth \<open>d\<close>, after which the loop goes on, and those that leave it.\<close>

definition goesOn :: "nat \<Rightarrow> outcome \<Rightarrow> bool" where
  "goesOn d out \<longleftrightarrow> out = Normal \<or> out = Cont d"

definition leaves :: "nat \<Rightarrow> outcome \<Rightarrow> bool" where
  "leaves d out \<longleftrightarrow> \<not> goesOn d out \<and> out \<noteq> Brk d"

text \<open>
  A loop with condition, body and increment: condition; then counter, body and increment,
  and again. The condition and the increment are run for their traces.
\<close>

inductive_set loopRuns :: "ptr \<Rightarrow> nat \<Rightarrow> run set \<Rightarrow> run set \<Rightarrow> run set \<Rightarrow> run set"
  for p :: ptr and d :: nat and C B J :: "run set" where
  exit: "(t, Normal) \<in> C \<Longrightarrow> (t, Normal) \<in> loopRuns p d C B J"
| again: "(t1, Normal) \<in> C \<Longrightarrow> (t2, out) \<in> B \<Longrightarrow> goesOn d out \<Longrightarrow> (t3, Normal) \<in> J \<Longrightarrow>
    (t4, out') \<in> loopRuns p d C B J \<Longrightarrow> (t1 @ Inc p # t2 @ t3 @ t4, out') \<in> loopRuns p d C B J"
| break: "(t1, Normal) \<in> C \<Longrightarrow> (t2, Brk d) \<in> B \<Longrightarrow> (t1 @ Inc p # t2, Normal) \<in> loopRuns p d C B J"
| leave: "(t1, Normal) \<in> C \<Longrightarrow> (t2, out) \<in> B \<Longrightarrow> leaves d out \<Longrightarrow>
    (t1 @ Inc p # t2, out) \<in> loopRuns p d C B J"

inductive_set doRuns :: "ptr \<Rightarrow> nat \<Rightarrow> run set \<Rightarrow> run set \<Rightarrow> run set"
  for p :: ptr and d :: nat and C B :: "run set" where
  exit: "(t1, out) \<in> B \<Longrightarrow> goesOn d out \<Longrightarrow> (t2, Normal) \<in> C \<Longrightarrow>
    (Inc p # t1 @ t2, Normal) \<in> doRuns p d C B"
| again: "(t1, out) \<in> B \<Longrightarrow> goesOn d out \<Longrightarrow> (t2, Normal) \<in> C \<Longrightarrow> (t3, out') \<in> doRuns p d C B \<Longrightarrow>
    (Inc p # t1 @ t2 @ t3, out') \<in> doRuns p d C B"
| break: "(t1, Brk d) \<in> B \<Longrightarrow> (Inc p # t1, Normal) \<in> doRuns p d C B"
| leave: "(t1, out) \<in> B \<Longrightarrow> leaves d out \<Longrightarrow> (Inc p # t1, out) \<in> doRuns p d C B"

text \<open>The body of an unrolled loop: the outcome says how the last iteration that ran ended.\<close>

definition afterUnrolled :: "ptr \<Rightarrow> nat \<Rightarrow> run set \<Rightarrow> run set" where
  "afterUnrolled p d A = {(t @ [Inc p], Normal) | t out. (t, out) \<in> A \<and> (goesOn d out \<or> out = Brk d)}
     \<union> {(t, out) \<in> A. leaves d out}"

definition nextIteration :: "nat \<Rightarrow> run set \<Rightarrow> run set \<Rightarrow> run set" where
  "nextIteration d A B = {(t1 @ t2, out') | t1 out t2 out'. (t1, out) \<in> A \<and> goesOn d out \<and> (t2, out') \<in> B}
     \<union> {(t, out) \<in> A. \<not> goesOn d out}"

definition catching :: "ptr \<Rightarrow> run set \<Rightarrow> run set \<Rightarrow> run set" where
  "catching p A H =
     (let R = {(t1 @ t2, out) | t1 t2 out. (t1, Thr) \<in> A \<and> (t2, out) \<in> H} \<union> A
      in {(t @ [Inc p], Normal) | t. (t, Normal) \<in> R} \<union> {(t, out) \<in> R. out \<noteq> Normal})"

definition finallyRuns :: "ptr \<Rightarrow> run set \<Rightarrow> run set \<Rightarrow> run set" where
  "finallyRuns p A F =
     {(t1 @ t2 @ (if out = Normal then [Inc p] else []), out) | t1 out t2. (t1, out) \<in> A \<and> (t2, Normal) \<in> F}
     \<union> {(t1 @ t2, out') | t1 out t2 out'. (t1, out) \<in> A \<and> (t2, out') \<in> F \<and> out' \<noteq> Normal}"

fun jumpDepth :: "(ptr \<rightharpoonup> nat) \<Rightarrow> nat \<Rightarrow> ptr option \<Rightarrow> nat option" where
  "jumpDepth L d None = (if d = 0 then None else Some (d - 1))"
| "jumpDepth L d (Some l) = (case L l of None \<Rightarrow> None | Some k \<Rightarrow> if k < d then Some k else None)"

fun exec :: "(ptr \<rightharpoonup> nat) \<Rightarrow> nat \<Rightarrow> ptr ast \<Rightarrow> run set"
  and execs :: "(ptr \<rightharpoonup> nat) \<Rightarrow> nat \<Rightarrow> ptr ast list \<Rightarrow> run set"
  and execIterations :: "(ptr \<rightharpoonup> nat) \<Rightarrow> nat \<Rightarrow> ptr ast list \<Rightarrow> run set"
  and execHandlers :: "(ptr \<rightharpoonup> nat) \<Rightarrow> nat \<Rightarrow> ptr ast list \<Rightarrow> run set" where
  "exec L d Null = {([], Normal)}"
| "exec L d (Leaf k p) = {([Enter p], Normal)}"
| "exec L d (Seq k p xs) = prefixed [Enter p] (execs L d xs)"
| "exec L d (Members k p xs) = {([Enter p], Normal)}"
| "exec L d (StructLiteralExp p fl xs) = prefixed [Enter p] (execs L d xs)"
| "exec L d (ReturnStatement p e) = prefixed [Enter p] (andThen (exec L d e) {([], Ret)})"
| "exec L d (ThrowStatement p e) = prefixed [Enter p] (andThen (exec L d e) {([], Thr)})"
| "exec L d (PragmaStatement p b) = {([Enter p], Normal)}"
| "exec L d (BreakStatement p t) = {([Enter p], Brk k) | k. jumpDepth L d t = Some k}"
| "exec L d (ContinueStatement p t) = {([Enter p], Cont k) | k. jumpDepth L d t = Some k}"
| "exec L d (LabelStatement p x) = prefixed [Enter p, Inc p] (exec (L(p \<mapsto> d)) d x)"
| "exec L d (IfStatement p c t e) = prefixed [Enter p] (andThen (exec L d c)
     (prefixed [Inc p] (exec L d t) \<union> exec L d e))"
| "exec L d (WhileStatement p c b) = prefixed [Enter p]
     (loopRuns p d (exec L d c) (exec L (Suc d) b) {([], Normal)})"
| "exec L d (DoStatement p b c) = prefixed [Enter p] (doRuns p d (exec L d c) (exec L (Suc d) b))"
| "exec L d (ForStatement p i c b inc) = prefixed [Enter p] (andThen (exec L d i)
     (loopRuns p d (if c = Null then {([Enter (getCounterPtr p 1)], Normal)} else exec L d c)
       (exec L (Suc d) b) (exec L d inc)))"
| "exec L d (ForeachStatement p a b) = prefixed [Enter p] (andThen (exec L d a)
     (loopRuns p d {([Enter (getCounterPtr p 1)], Normal)} (exec L (Suc d) b) {([], Normal)}))"
| "exec L d (ForeachRangeStatement p l u b) = prefixed [Enter p] (andThen (exec L d l)
     (andThen (exec L d u)
       (loopRuns p d {([Enter (getCounterPtr p 1)], Normal)} (exec L (Suc d) b) {([], Normal)})))"
| "exec L d (UnrolledLoopStatement p xs) = prefixed [Enter p] (afterUnrolled p d (execIterations L d xs))"
| "exec L d (TryCatchStatement p b cs) =
     prefixed [Enter p] (catching p (exec L d b) (execHandlers L d cs))"
| "exec L d (TryFinallyStatement p b f) = prefixed [Enter p] (finallyRuns p (exec L d b) (exec L d f))"
| "exec L d (CondExp p c a b) = prefixed [Enter p] (andThen (exec L d c)
     (prefixed [Inc p] (exec L d a) \<union> exec L d b))"
| "exec L d (LogicalExp p op a b) = prefixed [Enter p] (andThen (exec L d a)
     (prefixed [Inc p] (exec L d b) \<union> {([], Normal)}))"
| "exec L d (Catch p h) = prefixed [Enter p] (exec L d h)"
| "exec L d _ = {}"
| "execs L d [] = {([], Normal)}"
| "execs L d (x # xs) = andThen (exec L d x) (execs L d xs)"
| "execIterations L d [] = {([], Normal)}"
| "execIterations L d (x # xs) =
     nextIteration d (prefixed [Inc (addr x)] (exec L (Suc d) x)) (execIterations L d xs)"
| "execHandlers L d [] = {}"
| "execHandlers L d (c # cs) = prefixed [Inc (addr c)] (exec L d c) \<union> execHandlers L d cs"

end
