(* ===== verification/PGORuns.thy ===== *)
theory PGORuns
  imports PGOSemantics
begin

text \<open>
  Counting events and outcomes in a list of runs, and splitting the runs of a compound node
  into runs of its parts: the flow equations of sequences, branches, loops, handlers and
  cleanups.
\<close>

section \<open>Counting in a list of runs\<close>

definition evs :: "run list \<Rightarrow> event \<Rightarrow> nat" where
  "evs rs e = (\<Sum>r\<leftarrow>rs. count_list (fst r) e)"

definition outs :: "run list \<Rightarrow> outcome \<Rightarrow> nat" where
  "outs rs out = length (filter (\<lambda>r. snd r = out) rs)"

lemma evs_simps [simp]:
  "evs [] e = 0" "evs (r # rs) e = count_list (fst r) e + evs rs e"
  "evs (rs @ rs') e = evs rs e + evs rs' e"
  by (simp_all add: evs_def)

lemma outs_simps [simp]:
  "outs [] out = 0" "outs (r # rs) out = (if snd r = out then Suc (outs rs out) else outs rs out)"
  "outs (rs @ rs') out = outs rs out + outs rs' out"
  by (simp_all add: outs_def)

definition only_normal :: "run set \<Rightarrow> bool" where
  "only_normal A \<longleftrightarrow> (\<forall>t out. (t, out) \<in> A \<longrightarrow> out = Normal)"

lemma outs_only_normal:
  assumes "only_normal A" "set rs \<subseteq> A"
  shows "outs rs Normal = length rs" "out \<noteq> Normal \<Longrightarrow> outs rs out = 0"
  using assms(2) by (induction rs) (auto, (use assms(1) in \<open>auto simp: only_normal_def\<close>))

subsection \<open>Splitting the runs of a compound node\<close>

lemma prefixed_split:
  "set rs \<subseteq> prefixed es A \<Longrightarrow>
     \<exists>ra. set ra \<subseteq> A \<and> length ra = length rs \<and> (\<forall>out. outs rs out = outs ra out)
       \<and> (\<forall>e. evs rs e = evs ra e + length rs * count_list es e)"
proof (induction rs)
  case (Cons r rs)
  then obtain ra where "set ra \<subseteq> A" "length ra = length rs" "\<forall>out. outs rs out = outs ra out"
    "\<forall>e. evs rs e = evs ra e + length rs * count_list es e" by auto
  moreover from Cons.prems obtain t out where "r = (es @ t, out)" "(t, out) \<in> A"
    by (auto simp: prefixed_def)
  ultimately show ?case by (intro exI [of _ "(t, out) # ra"]) auto
qed simp

lemma union_split:
  "set rs \<subseteq> A \<union> B \<Longrightarrow>
     \<exists>ra rb. set ra \<subseteq> A \<and> set rb \<subseteq> B \<and> length rs = length ra + length rb
       \<and> (\<forall>out. outs rs out = outs ra out + outs rb out) \<and> (\<forall>e. evs rs e = evs ra e + evs rb e)"
proof (induction rs)
  case (Cons r rs)
  then obtain ra rb where IH: "set ra \<subseteq> A" "set rb \<subseteq> B" "length rs = length ra + length rb"
    "\<forall>out. outs rs out = outs ra out + outs rb out" "\<forall>e. evs rs e = evs ra e + evs rb e" by auto
  show ?case
  proof (cases "r \<in> A")
    case True
    with IH show ?thesis by (intro exI [of _ "r # ra"] exI [of _ rb]) auto
  next
    case False
    with IH Cons.prems show ?thesis by (intro exI [of _ ra] exI [of _ "r # rb"]) auto
  qed
qed (simp add: exI [of _ "[]"])

lemma andThen_split:
  "set rs \<subseteq> andThen A B \<Longrightarrow>
     \<exists>ra rb. set ra \<subseteq> A \<and> set rb \<subseteq> B \<and> length ra = length rs \<and> outs ra Normal = length rb
       \<and> outs rs Normal = outs rb Normal
       \<and> (\<forall>out. out \<noteq> Normal \<longrightarrow> outs rs out = outs ra out + outs rb out)
       \<and> (\<forall>e. evs rs e = evs ra e + evs rb e)"
proof (induction rs)
  case (Cons r rs)
  then obtain ra rb where IH: "set ra \<subseteq> A" "set rb \<subseteq> B" "length ra = length rs"
    "outs ra Normal = length rb" "outs rs Normal = outs rb Normal"
    "\<forall>out. out \<noteq> Normal \<longrightarrow> outs rs out = outs ra out + outs rb out"
    "\<forall>e. evs rs e = evs ra e + evs rb e" by auto
  from Cons.prems consider (both) t1 t2 out where "r = (t1 @ t2, out)" "(t1, Normal) \<in> A" "(t2, out) \<in> B"
    | (first) "r \<in> A" "snd r \<noteq> Normal"
    by (auto simp: andThen_def)
  then show ?case
  proof cases
    case both
    with IH show ?thesis by (intro exI [of _ "(t1, Normal) # ra"] exI [of _ "(t2, out) # rb"]) auto
  next
    case first
    with IH show ?thesis by (intro exI [of _ "r # ra"] exI [of _ rb]) auto
  qed
qed (simp add: exI [of _ "[]"])

text \<open>Loops: how the runs of condition, body and increment relate to those of the loop.\<close>

definition loopParts ::
  "ptr \<Rightarrow> nat \<Rightarrow> run set \<Rightarrow> run set \<Rightarrow> run set \<Rightarrow> run list \<Rightarrow> run list \<Rightarrow> run list \<Rightarrow> run list \<Rightarrow> bool" where
  "loopParts p d C B J rs rc rb rj \<longleftrightarrow>
     set rc \<subseteq> C \<and> set rb \<subseteq> B \<and> set rj \<subseteq> J
     \<and> length rc = length rs + outs rb Normal + outs rb (Cont d)
     \<and> length rj = outs rb Normal + outs rb (Cont d)
     \<and> outs rs Normal + length rb = outs rb (Brk d) + length rc
     \<and> (\<forall>out. leaves d out \<longrightarrow> outs rs out = outs rb out)
     \<and> (\<forall>e. evs rs e = evs rc e + evs rb e + evs rj e + (if e = Inc p then length rb else 0))"

lemma loopParts_append:
  "loopParts p d C B J rs rc rb rj \<Longrightarrow> loopParts p d C B J rs' rc' rb' rj' \<Longrightarrow>
     loopParts p d C B J (rs @ rs') (rc @ rc') (rb @ rb') (rj @ rj')"
  by (auto simp: loopParts_def)

lemma loopRuns_single:
  "(t, out) \<in> loopRuns p d C B J \<Longrightarrow> \<exists>rc rb rj. loopParts p d C B J [(t, out)] rc rb rj"
proof (induction rule: loopRuns.induct)
  case (exit t)
  then show ?case
    by (intro exI [of _ "[(t, Normal)]"] exI [of _ "[]"]) (auto simp: loopParts_def leaves_def goesOn_def)
next
  case (again t1 t2 out t3 t4 out')
  then obtain rc rb rj where "loopParts p d C B J [(t4, out')] rc rb rj" by auto
  moreover from again have "out = Normal \<or> out = Cont d" by (simp add: goesOn_def)
  ultimately have "loopParts p d C B J [(t1 @ Inc p # t2 @ t3 @ t4, out')]
      ((t1, Normal) # rc) ((t2, out) # rb) ((t3, Normal) # rj)"
    using again.hyps(1,2,4) by (elim disjE) (simp_all add: loopParts_def leaves_def goesOn_def)
  then show ?case by blast
next
  case (break t1 t2)
  then show ?case
    by (intro exI [of _ "[(t1, Normal)]"] exI [of _ "[(t2, Brk d)]"] exI [of _ "[]"])
      (auto simp: loopParts_def leaves_def goesOn_def)
next
  case (leave t1 t2 out)
  then show ?case
    by (intro exI [of _ "[(t1, Normal)]"] exI [of _ "[(t2, out)]"] exI [of _ "[]"])
      (auto simp: loopParts_def leaves_def goesOn_def)
qed

lemma loop_split:
  "set rs \<subseteq> loopRuns p d C B J \<Longrightarrow> \<exists>rc rb rj. loopParts p d C B J rs rc rb rj"
proof (induction rs)
  case Nil
  show ?case by (intro exI [of _ "[]"]) (simp add: loopParts_def)
next
  case (Cons r rs)
  then obtain rc rb rj where "loopParts p d C B J rs rc rb rj" by auto
  moreover obtain rc' rb' rj' where "loopParts p d C B J [r] rc' rb' rj'"
    using Cons.prems loopRuns_single [of "fst r" "snd r" p d C B J] by auto
  ultimately have "loopParts p d C B J ([r] @ rs) (rc' @ rc) (rb' @ rb) (rj' @ rj)"
    by (blast intro: loopParts_append)
  then show ?case by auto
qed

definition doParts ::
  "ptr \<Rightarrow> nat \<Rightarrow> run set \<Rightarrow> run set \<Rightarrow> run list \<Rightarrow> run list \<Rightarrow> run list \<Rightarrow> bool" where
  "doParts p d C B rs rc rb \<longleftrightarrow>
     set rc \<subseteq> C \<and> set rb \<subseteq> B
     \<and> length rc = outs rb Normal + outs rb (Cont d)
     \<and> outs rs Normal + length rb = outs rb (Brk d) + length rc + length rs
     \<and> (\<forall>out. leaves d out \<longrightarrow> outs rs out = outs rb out)
     \<and> (\<forall>e. evs rs e = evs rc e + evs rb e + (if e = Inc p then length rb else 0))"

lemma doParts_append:
  "doParts p d C B rs rc rb \<Longrightarrow> doParts p d C B rs' rc' rb' \<Longrightarrow>
     doParts p d C B (rs @ rs') (rc @ rc') (rb @ rb')"
  by (auto simp: doParts_def)

lemma doRuns_single:
  "(t, out) \<in> doRuns p d C B \<Longrightarrow> \<exists>rc rb. doParts p d C B [(t, out)] rc rb"
proof (induction rule: doRuns.induct)
  case (exit t1 out t2)
  then show ?case
    by (intro exI [of _ "[(t2, Normal)]"] exI [of _ "[(t1, out)]"])
      (auto simp: doParts_def leaves_def goesOn_def)
next
  case (again t1 out t2 t3 out')
  then obtain rc rb where "doParts p d C B [(t3, out')] rc rb" by auto
  moreover from again have "out = Normal \<or> out = Cont d" by (simp add: goesOn_def)
  ultimately have "doParts p d C B [(Inc p # t1 @ t2 @ t3, out')] ((t2, Normal) # rc) ((t1, out) # rb)"
    using again.hyps(1,3) by (elim disjE) (simp_all add: doParts_def leaves_def goesOn_def)
  then show ?case by blast
next
  case (break t1)
  then show ?case
    by (intro exI [of _ "[]"] exI [of _ "[(t1, Brk d)]"]) (auto simp: doParts_def leaves_def goesOn_def)
next
  case (leave t1 out)
  then show ?case
    by (intro exI [of _ "[]"] exI [of _ "[(t1, out)]"]) (auto simp: doParts_def leaves_def goesOn_def)
qed

lemma do_split: "set rs \<subseteq> doRuns p d C B \<Longrightarrow> \<exists>rc rb. doParts p d C B rs rc rb"
proof (induction rs)
  case Nil
  show ?case by (intro exI [of _ "[]"]) (simp add: doParts_def)
next
  case (Cons r rs)
  then obtain rc rb where "doParts p d C B rs rc rb" by auto
  moreover obtain rc' rb' where "doParts p d C B [r] rc' rb'"
    using Cons.prems doRuns_single [of "fst r" "snd r" p d C B] by auto
  ultimately have "doParts p d C B ([r] @ rs) (rc' @ rc) (rb' @ rb)"
    by (blast intro: doParts_append)
  then show ?case by auto
qed

text \<open>Unrolled loops, handlers and cleanups.\<close>

lemma afterUnrolled_split:
  "set rs \<subseteq> afterUnrolled p d A \<Longrightarrow>
     \<exists>ra. set ra \<subseteq> A \<and> length ra = length rs
       \<and> (\<forall>out. leaves d out \<longrightarrow> outs rs out = outs ra out)
       \<and> (\<forall>e. evs rs e = evs ra e + (if e = Inc p then outs rs Normal else 0))"
proof (induction rs)
  case (Cons r rs)
  then obtain ra where IH: "set ra \<subseteq> A" "length ra = length rs"
    "\<forall>out. leaves d out \<longrightarrow> outs rs out = outs ra out"
    "\<forall>e. evs rs e = evs ra e + (if e = Inc p then outs rs Normal else 0)" by auto
  from Cons.prems consider (stay) t out where "r = (t @ [Inc p], Normal)" "(t, out) \<in> A" "\<not> leaves d out"
    | (leave) "r \<in> A" "leaves d (snd r)"
    by (auto simp: afterUnrolled_def leaves_def)
  then show ?case
  proof cases
    case stay
    with IH show ?thesis
      by (intro exI [of _ "(t, out) # ra"]) (auto simp: leaves_def goesOn_def)
  next
    case leave
    with IH show ?thesis by (intro exI [of _ "r # ra"]) (auto simp: leaves_def goesOn_def)
  qed
qed simp

lemma nextIteration_split:
  "set rs \<subseteq> nextIteration d A B \<Longrightarrow>
     \<exists>ra rb. set ra \<subseteq> A \<and> set rb \<subseteq> B \<and> length ra = length rs
       \<and> (\<forall>out. leaves d out \<longrightarrow> outs rs out = outs ra out + outs rb out)
       \<and> (\<forall>e. evs rs e = evs ra e + evs rb e)"
proof (induction rs)
  case (Cons r rs)
  then obtain ra rb where IH: "set ra \<subseteq> A" "set rb \<subseteq> B" "length ra = length rs"
    "\<forall>out. leaves d out \<longrightarrow> outs rs out = outs ra out + outs rb out"
    "\<forall>e. evs rs e = evs ra e + evs rb e" by auto
  from Cons.prems consider (both) t1 out t2 out' where "r = (t1 @ t2, out')" "(t1, out) \<in> A"
      "goesOn d out" "(t2, out') \<in> B"
    | (first) "r \<in> A" "\<not> goesOn d (snd r)"
    by (auto simp: nextIteration_def)
  then show ?case
  proof cases
    case both
    with IH show ?thesis
      by (intro exI [of _ "(t1, out) # ra"] exI [of _ "(t2, out') # rb"]) (auto simp: leaves_def goesOn_def)
  next
    case first
    with IH show ?thesis by (intro exI [of _ "r # ra"] exI [of _ rb]) auto
  qed
qed (simp add: exI [of _ "[]"])

lemma catching_split:
  "set rs \<subseteq> catching p A H \<Longrightarrow>
     \<exists>ra rh. set ra \<subseteq> A \<and> set rh \<subseteq> H \<and> length ra = length rs
       \<and> (\<forall>out. out \<noteq> Normal \<and> out \<noteq> Thr \<longrightarrow> outs rs out = outs ra out + outs rh out)
       \<and> (\<forall>e. evs rs e = evs ra e + evs rh e + (if e = Inc p then outs rs Normal else 0))"
proof (induction rs)
  case (Cons r rs)
  then obtain ra rh where IH: "set ra \<subseteq> A" "set rh \<subseteq> H" "length ra = length rs"
    "\<forall>out. out \<noteq> Normal \<and> out \<noteq> Thr \<longrightarrow> outs rs out = outs ra out + outs rh out"
    "\<forall>e. evs rs e = evs ra e + evs rh e + (if e = Inc p then outs rs Normal else 0)" by auto
  from Cons.prems consider
      (caught) t1 t2 out where "(t1, Thr) \<in> A" "(t2, out) \<in> H"
        "r = (if out = Normal then ((t1 @ t2) @ [Inc p], out) else (t1 @ t2, out))"
    | (normal) t where "r = (t @ [Inc p], Normal)" "(t, Normal) \<in> A"
    | (other) "r \<in> A" "snd r \<noteq> Normal"
    by (auto simp: catching_def Let_def)
  then show ?case
  proof cases
    case caught
    with IH show ?thesis
      by (intro exI [of _ "(t1, Thr) # ra"] exI [of _ "(t2, out) # rh"]) (auto split: if_splits)
  next
    case normal
    with IH show ?thesis by (intro exI [of _ "(t, Normal) # ra"] exI [of _ rh]) auto
  next
    case other
    with IH show ?thesis by (intro exI [of _ "r # ra"] exI [of _ rh]) auto
  qed
qed (simp add: exI [of _ "[]"])

lemma finally_split:
  assumes "only_normal F"
  shows "set rs \<subseteq> finallyRuns p A F \<Longrightarrow>
     \<exists>ra rf. set ra \<subseteq> A \<and> set rf \<subseteq> F \<and> length ra = length rs \<and> length rf = length rs
       \<and> (\<forall>out. outs rs out = outs ra out)
       \<and> (\<forall>e. evs rs e = evs ra e + evs rf e + (if e = Inc p then outs rs Normal else 0))"
proof (induction rs)
  case (Cons r rs)
  then obtain ra rf where IH: "set ra \<subseteq> A" "set rf \<subseteq> F" "length ra = length rs" "length rf = length rs"
    "\<forall>out. outs rs out = outs ra out"
    "\<forall>e. evs rs e = evs ra e + evs rf e + (if e = Inc p then outs rs Normal else 0)" by auto
  from Cons.prems assms obtain t1 out t2 where "(t1, out) \<in> A" "(t2, Normal) \<in> F"
    "r = (t1 @ t2 @ (if out = Normal then [Inc p] else []), out)"
    by (auto simp: finallyRuns_def only_normal_def)
  with IH show ?case
    by (intro exI [of _ "(t1, out) # ra"] exI [of _ "(t2, Normal) # rf"]) auto
qed simp

end
