(* ===== verification/PGOExactness.thy ===== *)
theory PGOExactness
  imports PGORuns
begin

text \<open>
  The propagated counts are the true ones. For any collection of runs of a function, if the
  profile holds for every region counter the number of its increments in these runs, then
  every count that \<open>ComputeRegionCounts\<close> records for a node is the number of times the runs
  enter the node (modulo \<open>2^64\<close>, as the C++ code counts). The proof is by a library of
  lemmas, one per visitor method, about visits that are exact for a set of runs.
\<close>

section \<open>Exact visits\<close>

text \<open>The region counts a profile gives, and the profiles that can be read without failing.\<close>

definition rcount :: "CodeGenPGO \<Rightarrow> ptr \<Rightarrow> u64" where
  "rcount pgo q =
     RegionCounts pgo ! (case map_of (the (RegionCounterMap pgo)) q of Some i \<Rightarrow> i | None \<Rightarrow> 0)"

definition pgo_ok :: "CodeGenPGO \<Rightarrow> bool" where
  "pgo_ok pgo \<longleftrightarrow> RegionCounts pgo \<noteq> [] \<and>
     (case RegionCounterMap pgo of None \<Rightarrow> False
      | Some m \<Rightarrow> \<forall>i\<in>snd ` set m. i < length (RegionCounts pgo))"

lemma regionCount_ok:
  assumes "pgo_ok (PGO s)"
  obtains pgo' where "regionCount q s = Some (rcount (PGO s) q, s\<lparr>PGO := pgo'\<rparr>)"
    "pgo_ok pgo'" "rcount pgo' = rcount (PGO s)"
proof -
  obtain m where m: "RegionCounterMap (PGO s) = Some m" "RegionCounts (PGO s) \<noteq> []"
    "\<forall>i\<in>snd ` set m. i < length (RegionCounts (PGO s))"
    using assms by (auto simp: pgo_ok_def split: option.splits)
  show ?thesis
  proof (cases "map_of m q")
    case None
    with m that [of "PGO s\<lparr>RegionCounterMap := Some (m @ [(q, 0)])\<rparr>"] show ?thesis
      by (auto simp: regionCount_def getRegionCount_def densemap_index_def haveRegionCounts_def
          pgo_ok_def rcount_def map_of_append map_add_def fun_eq_iff split: option.splits)
  next
    case (Some i)
    then have "i \<in> snd ` set m" by (force dest: map_of_SomeD)
    with Some m that [of "PGO s"] assms show ?thesis
      by (auto simp: regionCount_def getRegionCount_def densemap_index_def haveRegionCounts_def
          rcount_def)
  qed
qed

text \<open>
  \<open>T\<close> is the number of times each event happens in all runs of the function. A visit may add
  labels among \<open>K\<close>, must record the nodes \<open>M\<close>, and records nothing but true counts.
\<close>

definition frame :: "(event \<Rightarrow> nat) \<Rightarrow> ptr set \<Rightarrow> ptr set \<Rightarrow> ComputeRegionCounts \<Rightarrow> ComputeRegionCounts \<Rightarrow> bool" where
  "frame T K M s s' \<longleftrightarrow>
     (pgo_ok (PGO s) \<longrightarrow> pgo_ok (PGO s')) \<and> rcount (PGO s') = rcount (PGO s)
     \<and> (\<exists>ext. LoopLabels s' = LoopLabels s @ ext \<and> fst ` set ext \<subseteq> K)
     \<and> (\<forall>q. q \<noteq> nullptr \<longrightarrow> CountMap s' q = CountMap s q \<and> q \<notin> M
          \<or> CountMap s' q = Some (of_nat (T (Enter q))))"

definition ready :: "(event \<Rightarrow> nat) \<Rightarrow> ptr set \<Rightarrow> (ptr \<rightharpoonup> nat) \<Rightarrow> ptr set \<Rightarrow> ComputeRegionCounts \<Rightarrow> bool" where
  "ready T R L K s \<longleftrightarrow>
     pgo_ok (PGO s) \<and> (\<forall>q\<in>R. rcount (PGO s) q = of_nat (T (Inc q)))
     \<and> (\<forall>l k. L l = Some k \<longrightarrow> find (\<lambda>LL. fst LL = l) (LoopLabels s) = Some (l, k))
     \<and> fst ` set (LoopLabels s) \<inter> K = {}"

lemma frame_refl: "frame T K {} s s"
  by (auto simp: frame_def)

lemma frame_trans:
  assumes "frame T K M s s'" "frame T K' M' s' s''"
  shows "frame T (K \<union> K') (M \<union> M') s s''"
proof -
  from assms obtain e e' where "LoopLabels s' = LoopLabels s @ e" "fst ` set e \<subseteq> K"
    "LoopLabels s'' = LoopLabels s' @ e'" "fst ` set e' \<subseteq> K'"
    unfolding frame_def by (elim conjE exE)
  then have "\<exists>ext. LoopLabels s'' = LoopLabels s @ ext \<and> fst ` set ext \<subseteq> K \<union> K'"
    by (intro exI [of _ "e @ e'"]) auto
  moreover have "CountMap s'' q = CountMap s q \<and> q \<notin> M \<union> M'
      \<or> CountMap s'' q = Some (of_nat (T (Enter q)))" if "q \<noteq> nullptr" for q
  proof -
    from assms(1) that have "CountMap s' q = CountMap s q \<and> q \<notin> M \<or> CountMap s' q = Some (of_nat (T (Enter q)))"
      by (simp add: frame_def)
    moreover from assms(2) that
    have "CountMap s'' q = CountMap s' q \<and> q \<notin> M' \<or> CountMap s'' q = Some (of_nat (T (Enter q)))"
      by (simp add: frame_def)
    ultimately show ?thesis by auto
  qed
  moreover have "(pgo_ok (PGO s) \<longrightarrow> pgo_ok (PGO s'')) \<and> rcount (PGO s'') = rcount (PGO s)"
    using assms by (simp add: frame_def)
  ultimately show ?thesis unfolding frame_def by blast
qed

lemma frame_mono:
  assumes "frame T K M s s'" "K \<subseteq> K'" "M' \<subseteq> M"
  shows "frame T K' M' s s'"
proof -
  from assms(1) obtain e where "LoopLabels s' = LoopLabels s @ e" "fst ` set e \<subseteq> K"
    unfolding frame_def by (elim conjE exE)
  with assms(2) have "\<exists>ext. LoopLabels s' = LoopLabels s @ ext \<and> fst ` set ext \<subseteq> K'"
    by (intro exI [of _ e]) auto
  with assms(1,3) show ?thesis by (auto simp add: frame_def)
qed

lemma find_append: "find P (xs @ ys) = (case find P xs of None \<Rightarrow> find P ys | Some x \<Rightarrow> Some x)"
  by (induction xs) auto

lemma ready_frame:
  assumes "ready T R L K s" "frame T K' M s s'" "K'' \<subseteq> K" "K' \<inter> K'' = {}"
  shows "ready T R L K'' s'"
proof -
  from assms(2) obtain e where e: "LoopLabels s' = LoopLabels s @ e" "fst ` set e \<subseteq> K'"
    unfolding frame_def by (elim conjE exE)
  have "fst ` set (LoopLabels s') \<inter> K'' = {}"
    using assms(1,3,4) e unfolding ready_def by auto
  moreover have "pgo_ok (PGO s')" "rcount (PGO s') = rcount (PGO s)"
    using assms(1,2) by (simp_all add: ready_def frame_def)
  moreover have "L l = Some k \<Longrightarrow> find (\<lambda>LL. fst LL = l) (LoopLabels s') = Some (l, k)" for l k
    using assms(1) e by (simp add: ready_def find_append)
  ultimately show ?thesis using assms(1) by (simp add: ready_def)
qed

lemma ready_mono: "ready T R L K s \<Longrightarrow> K' \<subseteq> K \<Longrightarrow> ready T R L K' s"
  unfolding ready_def by blast

definition bump :: "run list \<Rightarrow> BreakContinue list \<Rightarrow> BreakContinue list" where
  "bump rs st = map (\<lambda>i. (st ! i)\<lparr>BreakCount := BreakCount (st ! i) + of_nat (outs rs (Brk i)),
     ContinueCount := ContinueCount (st ! i) + of_nat (outs rs (Cont i))\<rparr>) [0..<length st]"

lemma length_bump [simp]: "length (bump rs st) = length st"
  by (simp add: bump_def)

lemma bump_add:
  assumes "\<And>i. i < length st \<Longrightarrow> outs rs (Brk i) = outs ra (Brk i) + outs rb (Brk i)
      \<and> outs rs (Cont i) = outs ra (Cont i) + outs rb (Cont i)"
  shows "bump rb (bump ra st) = bump rs st"
  using assms by (auto simp: bump_def intro!: nth_equalityI)

lemma bump_zero:
  assumes "\<And>i. i < length st \<Longrightarrow> outs rs (Brk i) = 0 \<and> outs rs (Cont i) = 0"
  shows "bump rs st = st"
  using assms by (auto simp: bump_def intro!: nth_equalityI)

lemma bump_cong:
  assumes "\<And>i. i < length st \<Longrightarrow> outs rs (Brk i) = outs ra (Brk i) \<and> outs rs (Cont i) = outs ra (Cont i)"
  shows "bump rs st = bump ra st"
  using assms by (auto simp: bump_def intro!: nth_equalityI)

lemma bump_snoc:
  "bump rs (st @ [x]) = bump rs st @ [x\<lparr>BreakCount := BreakCount x + of_nat (outs rs (Brk (length st))),
     ContinueCount := ContinueCount x + of_nat (outs rs (Cont (length st)))\<rparr>]"
  by (auto simp: bump_def nth_append)

definition exactv :: "(event \<Rightarrow> nat) \<Rightarrow> ptr set \<Rightarrow> (ptr \<rightharpoonup> nat) \<Rightarrow> nat \<Rightarrow> crc \<Rightarrow> run set
    \<Rightarrow> ptr set \<Rightarrow> ptr set \<Rightarrow> ptr set \<Rightarrow> bool" where
  "exactv T R L d v A K G M \<longleftrightarrow> (\<forall>rs s. set rs \<subseteq> A \<longrightarrow>
     (\<forall>q\<in>K. T (Enter q) = evs rs (Enter q)) \<longrightarrow> (\<forall>q\<in>G. T (Inc q) = evs rs (Inc q)) \<longrightarrow>
     ready T R L K s \<longrightarrow> length (BreakContinueStack s) = d \<longrightarrow> CurrentCount s = of_nat (length rs) \<longrightarrow>
     (\<exists>s'. v s = Some s' \<and> frame T K M s s' \<and> CurrentCount s' = of_nat (outs rs Normal)
        \<and> BreakContinueStack s' = bump rs (BreakContinueStack s)))"

lemma exactvI:
  assumes "\<And>rs s. set rs \<subseteq> A \<Longrightarrow> \<forall>q\<in>K. T (Enter q) = evs rs (Enter q) \<Longrightarrow>
     \<forall>q\<in>G. T (Inc q) = evs rs (Inc q) \<Longrightarrow> ready T R L K s \<Longrightarrow> length (BreakContinueStack s) = d \<Longrightarrow>
     CurrentCount s = of_nat (length rs) \<Longrightarrow>
     \<exists>s'. v s = Some s' \<and> frame T K M s s' \<and> CurrentCount s' = of_nat (outs rs Normal)
        \<and> BreakContinueStack s' = bump rs (BreakContinueStack s)"
  shows "exactv T R L d v A K G M"
  using assms unfolding exactv_def by blast

lemma exactvE:
  assumes "exactv T R L d v A K G M" "set rs \<subseteq> A" "\<forall>q\<in>K. T (Enter q) = evs rs (Enter q)"
    "\<forall>q\<in>G. T (Inc q) = evs rs (Inc q)" "ready T R L K s" "length (BreakContinueStack s) = d"
    "CurrentCount s = of_nat (length rs)"
  obtains s' where "v s = Some s'" "frame T K M s s'" "CurrentCount s' = of_nat (outs rs Normal)"
    "BreakContinueStack s' = bump rs (BreakContinueStack s)"
  using assms unfolding exactv_def by blast

text \<open>The events of a run stay within the keys of its node; a node is entered once per run.\<close>

definition within :: "ptr set \<Rightarrow> ptr set \<Rightarrow> run set \<Rightarrow> bool" where
  "within K G A \<longleftrightarrow> (\<forall>t out. (t, out) \<in> A \<longrightarrow>
     (\<forall>q. Enter q \<in> set t \<longrightarrow> q \<in> K) \<and> (\<forall>q. Inc q \<in> set t \<longrightarrow> q \<in> G))"

lemma evs_outside:
  assumes "within K G A" "set rs \<subseteq> A"
  shows "q \<notin> K \<Longrightarrow> evs rs (Enter q) = 0" "q \<notin> G \<Longrightarrow> evs rs (Inc q) = 0"
  using assms(2)
proof (induction rs)
  case (Cons r rs)
  obtain t out where r: "r = (t, out)" by (cases r)
  { case 1
    with Cons r assms(1) show ?case by (auto simp: within_def intro!: count_list_zero)
  next
    case 2
    with Cons r assms(1) show ?case by (auto simp: within_def intro!: count_list_zero)
  }
qed simp_all

definition entered :: "ptr \<Rightarrow> run set \<Rightarrow> bool" where
  "entered q A \<longleftrightarrow> q = nullptr \<or> (\<forall>t out. (t, out) \<in> A \<longrightarrow> count_list t (Enter q) = 1)"

lemma evs_entered: "entered q A \<Longrightarrow> q \<noteq> nullptr \<Longrightarrow> set rs \<subseteq> A \<Longrightarrow> evs rs (Enter q) = length rs"
  by (induction rs) (auto simp: entered_def)

section \<open>The elementary steps\<close>

lemma RecordStmtCount_sel [simp]:
  "PGO (RecordStmtCount p s) = PGO s" "CurrentCount (RecordStmtCount p s) = CurrentCount s"
  "BreakContinueStack (RecordStmtCount p s) = BreakContinueStack s"
  "LoopLabels (RecordStmtCount p s) = LoopLabels s"
  by (simp_all add: RecordStmtCount_def)

lemma setCount_sel [simp]:
  "PGO (setCount c s) = PGO s" "CurrentCount (setCount c s) = c"
  "BreakContinueStack (setCount c s) = BreakContinueStack s"
  "LoopLabels (setCount c s) = LoopLabels s" "CountMap (setCount c s) = CountMap s"
  by (simp_all add: setCount_def)

lemma setRecord_sel [simp]:
  "PGO (setRecord b s) = PGO s" "CurrentCount (setRecord b s) = CurrentCount s"
  "BreakContinueStack (setRecord b s) = BreakContinueStack s"
  "LoopLabels (setRecord b s) = LoopLabels s" "CountMap (setRecord b s) = CountMap s"
  by (simp_all add: setRecord_def)

lemma putCount_sel [simp]:
  "PGO (putCount p c s) = PGO s" "CurrentCount (putCount p c s) = CurrentCount s"
  "BreakContinueStack (putCount p c s) = BreakContinueStack s"
  "LoopLabels (putCount p c s) = LoopLabels s"
  by (simp_all add: putCount_def)

lemma pushBC_sel [simp]:
  "PGO (pushBC s) = PGO s" "CurrentCount (pushBC s) = CurrentCount s"
  "BreakContinueStack (pushBC s) = BreakContinueStack s @ [BreakContinue_init]"
  "LoopLabels (pushBC s) = LoopLabels s" "CountMap (pushBC s) = CountMap s"
  by (simp_all add: pushBC_def)

lemma finish_sel [simp]:
  "PGO (finish c s) = PGO s" "CurrentCount (finish c s) = c"
  "BreakContinueStack (finish c s) = BreakContinueStack s"
  "LoopLabels (finish c s) = LoopLabels s" "CountMap (finish c s) = CountMap s"
  by (simp_all add: finish_def)

lemma unreachableNext_sel [simp]:
  "PGO (unreachableNext s) = PGO s" "CurrentCount (unreachableNext s) = 0"
  "BreakContinueStack (unreachableNext s) = BreakContinueStack s"
  "LoopLabels (unreachableNext s) = LoopLabels s" "CountMap (unreachableNext s) = CountMap s"
  by (simp_all add: unreachableNext_def)

text \<open>Steps that touch neither labels nor recorded counts nor the profile.\<close>

lemma frame_idle:
  "PGO s' = PGO s \<Longrightarrow> LoopLabels s' = LoopLabels s \<Longrightarrow> CountMap s' = CountMap s \<Longrightarrow> frame T {} {} s s'"
  by (simp add: frame_def)

lemma frame_idle_right:
  "frame T K M s s' \<Longrightarrow> PGO s'' = PGO s' \<Longrightarrow> LoopLabels s'' = LoopLabels s' \<Longrightarrow>
     CountMap s'' = CountMap s' \<Longrightarrow> frame T K M s s''"
  by (simp add: frame_def)

lemma frame_Record:
  "CurrentCount s = of_nat (T (Enter p)) \<Longrightarrow> frame T {} {} s (RecordStmtCount p s)"
  by (auto simp: frame_def RecordStmtCount_def)

lemma frame_putCount:
  "p = nullptr \<or> c = of_nat (T (Enter p)) \<Longrightarrow> frame T {} {p} s (putCount p c s)"
  by (auto simp: frame_def putCount_def)

lemma frame_PGO:
  "pgo_ok pgo \<Longrightarrow> rcount pgo = rcount (PGO s) \<Longrightarrow> frame T {} {} s (s\<lparr>PGO := pgo\<rparr>)"
  by (auto simp: frame_def)

lemma regionCount_frame:
  assumes "ready T R L K s" "q \<in> R"
  obtains s' where "regionCount q s = Some (of_nat (T (Inc q)), s')" "frame T {} {} s s'"
    "BreakContinueStack s' = BreakContinueStack s" "CurrentCount s' = CurrentCount s"
    "LoopLabels s' = LoopLabels s"
proof -
  obtain pgo' where "regionCount q s = Some (rcount (PGO s) q, s\<lparr>PGO := pgo'\<rparr>)"
    "pgo_ok pgo'" "rcount pgo' = rcount (PGO s)"
    using assms(1) regionCount_ok [of s q] by (auto simp: ready_def)
  with assms that [of "s\<lparr>PGO := pgo'\<rparr>"] frame_PGO [of pgo' s T] show ?thesis
    by (simp add: ready_def)
qed

lemma frame_trans_idle: "frame T {} {} s s' \<Longrightarrow> frame T K M s' s'' \<Longrightarrow> frame T K M s s''"
  using frame_trans [of T "{}" "{}" s s' K M s''] by simp

lemma visitWith_exact:
  assumes v: "exactv T R L d v A K G M" and q: "entered q A" "q = nullptr \<or> q \<in> K"
    and rs: "set rs \<subseteq> A" "\<forall>q\<in>K. T (Enter q) = evs rs (Enter q)" "\<forall>q\<in>G. T (Inc q) = evs rs (Inc q)"
    and s: "ready T R L K s" "length (BreakContinueStack s) = d" and c: "c = of_nat (length rs)"
  obtains s' where "visitWith c q v s = Some s'" "frame T K (insert q M) s s'"
    "CurrentCount s' = of_nat (outs rs Normal)" "BreakContinueStack s' = bump rs (BreakContinueStack s)"
proof -
  let ?s = "putCount q c (setCount c s)"
  have "q = nullptr \<or> c = of_nat (T (Enter q))"
    using q rs c evs_entered by metis
  then have f: "frame T {} {q} s ?s"
    using frame_trans_idle [OF frame_idle [of "setCount c s" s T]] frame_putCount by simp
  from ready_frame [OF s(1) f, of K] have "ready T R L K ?s" by simp
  from exactvE [OF v rs this] s(2) c obtain s' where "v ?s = Some s'" "frame T K M ?s s'"
    "CurrentCount s' = of_nat (outs rs Normal)" "BreakContinueStack s' = bump rs (BreakContinueStack ?s)"
    by auto
  with that [of s'] frame_trans [OF f, of K M s'] show ?thesis
    by (simp add: visitWith_def)
qed

lemma loopBody_exact:
  assumes v: "exactv T R L (Suc d) v A K G M" and q: "entered q A" "q = nullptr \<or> q \<in> K"
    and rs: "set rs \<subseteq> A" "\<forall>q\<in>K. T (Enter q) = evs rs (Enter q)" "\<forall>q\<in>G. T (Inc q) = evs rs (Inc q)"
    and s: "ready T R L K s" "length (BreakContinueStack s) = d"
    and p: "p \<in> R" "T (Inc p) = length rs"
  obtains s1 s2 s3 where "regionCount p (pushBC s) = Some (of_nat (length rs), s1)"
    "visitWith (of_nat (length rs)) q v s1 = Some s2" "CurrentCount s2 = of_nat (outs rs Normal)"
    "popBC s2 = Some (\<lparr>BreakCount = of_nat (outs rs (Brk d)), ContinueCount = of_nat (outs rs (Cont d))\<rparr>, s3)"
    "frame T K (insert q M) s s3" "BreakContinueStack s3 = bump rs (BreakContinueStack s)"
proof -
  have f0: "frame T {} {} s (pushBC s)" by (rule frame_idle) simp_all
  from ready_frame [OF s(1) f0, of K] have "ready T R L K (pushBC s)" by simp
  from regionCount_frame [OF this p(1)] obtain s1 where
    s1: "regionCount p (pushBC s) = Some (of_nat (T (Inc p)), s1)" "frame T {} {} (pushBC s) s1"
    "BreakContinueStack s1 = BreakContinueStack s @ [BreakContinue_init]"
    by auto
  have f1: "frame T {} {} s s1" by (rule frame_trans_idle [OF f0 s1(2)])
  have r1: "ready T R L K s1" by (rule ready_frame [OF s(1) f1]) simp_all
  have len: "length (BreakContinueStack s1) = Suc d" using s1(3) s(2) by simp
  from visitWith_exact [OF v q rs r1 len refl] obtain s2 where
    s2: "visitWith (of_nat (length rs)) q v s1 = Some s2" "frame T K (insert q M) s1 s2"
    "CurrentCount s2 = of_nat (outs rs Normal)" "BreakContinueStack s2 = bump rs (BreakContinueStack s1)" .
  let ?s3 = "s2\<lparr>BreakContinueStack := butlast (BreakContinueStack s2)\<rparr>"
  have b: "BreakContinueStack s2 = bump rs (BreakContinueStack s)
      @ [\<lparr>BreakCount = of_nat (outs rs (Brk d)), ContinueCount = of_nat (outs rs (Cont d))\<rparr>]"
    using s2(4) s1(3) s(2) by (simp add: bump_snoc BreakContinue_init_def)
  have "frame T K (insert q M) s ?s3"
    by (rule frame_idle_right [OF frame_trans_idle [OF f1 s2(2)]]) simp_all
  with that [of s1 s2 ?s3] s1(1) s2(1,3) b p(2) show ?thesis
    by (simp add: popBC_def)
qed

section \<open>Exactness of every method\<close>

text \<open>A count that is the sum of counts with disjoint supports is one of them on each support.\<close>

lemma parts:
  fixes f a b c d :: "ptr \<Rightarrow> nat"
  assumes f: "\<And>q. f q = a q + b q + c q + d q + (if q = p then n else 0)"
    and z: "\<And>q. q \<notin> A \<Longrightarrow> a q = 0" "\<And>q. q \<notin> B \<Longrightarrow> b q = 0" "\<And>q. q \<notin> C \<Longrightarrow> c q = 0" "\<And>q. q \<notin> D \<Longrightarrow> d q = 0"
    and dis: "p \<notin> A \<union> B \<union> C \<union> D" "A \<inter> B = {}" "A \<inter> C = {}" "A \<inter> D = {}" "B \<inter> C = {}" "B \<inter> D = {}" "C \<inter> D = {}"
    and T: "\<forall>q\<in>insert p (A \<union> B \<union> C \<union> D). T q = f q"
  shows "\<forall>q\<in>A. T q = a q" "\<forall>q\<in>B. T q = b q" "\<forall>q\<in>C. T q = c q" "\<forall>q\<in>D. T q = d q" "T p = n"
proof -
  have A: "q \<in> A \<Longrightarrow> q \<notin> B \<and> q \<notin> C \<and> q \<notin> D \<and> q \<noteq> p" for q using dis by blast
  have B: "q \<in> B \<Longrightarrow> q \<notin> A \<and> q \<notin> C \<and> q \<notin> D \<and> q \<noteq> p" for q using dis by blast
  have C: "q \<in> C \<Longrightarrow> q \<notin> A \<and> q \<notin> B \<and> q \<notin> D \<and> q \<noteq> p" for q using dis by blast
  have D: "q \<in> D \<Longrightarrow> q \<notin> A \<and> q \<notin> B \<and> q \<notin> C \<and> q \<noteq> p" for q using dis by blast
  show "\<forall>q\<in>A. T q = a q" using A T f z by simp
  show "\<forall>q\<in>B. T q = b q" using B T f z by simp
  show "\<forall>q\<in>C. T q = c q" using C T f z by simp
  show "\<forall>q\<in>D. T q = d q" using D T f z by simp
  show "T p = n" using dis(1) T f z by simp
qed

lemma shares:
  assumes r: "set ra \<subseteq> A" "set rb \<subseteq> B" "set rc \<subseteq> C" "set rd \<subseteq> D"
    and w: "within Ka Ga A" "within Kb Gb B" "within Kc Gc C" "within Kd Gd D"
    and E: "\<And>q. evs rs (Enter q) = evs ra (Enter q) + evs rb (Enter q) + evs rc (Enter q) + evs rd (Enter q)
        + (if q = p then n else 0)"
    and I: "\<And>q. evs rs (Inc q) = evs ra (Inc q) + evs rb (Inc q) + evs rc (Inc q) + evs rd (Inc q)
        + (if q = p then m else 0)"
    and K: "p \<notin> Ka \<union> Kb \<union> Kc \<union> Kd" "Ka \<inter> Kb = {}" "Ka \<inter> Kc = {}" "Ka \<inter> Kd = {}" "Kb \<inter> Kc = {}"
      "Kb \<inter> Kd = {}" "Kc \<inter> Kd = {}"
    and G: "p \<notin> Ga \<union> Gb \<union> Gc \<union> Gd" "Ga \<inter> Gb = {}" "Ga \<inter> Gc = {}" "Ga \<inter> Gd = {}" "Gb \<inter> Gc = {}"
      "Gb \<inter> Gd = {}" "Gc \<inter> Gd = {}"
    and TE: "\<forall>q\<in>insert p (Ka \<union> Kb \<union> Kc \<union> Kd). T (Enter q) = evs rs (Enter q)"
    and TI: "\<forall>q\<in>insert p (Ga \<union> Gb \<union> Gc \<union> Gd). T (Inc q) = evs rs (Inc q)"
  shows "\<forall>q\<in>Ka. T (Enter q) = evs ra (Enter q)" "\<forall>q\<in>Ga. T (Inc q) = evs ra (Inc q)"
    "\<forall>q\<in>Kb. T (Enter q) = evs rb (Enter q)" "\<forall>q\<in>Gb. T (Inc q) = evs rb (Inc q)"
    "\<forall>q\<in>Kc. T (Enter q) = evs rc (Enter q)" "\<forall>q\<in>Gc. T (Inc q) = evs rc (Inc q)"
    "\<forall>q\<in>Kd. T (Enter q) = evs rd (Enter q)" "\<forall>q\<in>Gd. T (Inc q) = evs rd (Inc q)"
    "T (Enter p) = n" "T (Inc p) = m"
proof -
  note z = evs_outside [OF w(1) r(1)] evs_outside [OF w(2) r(2)] evs_outside [OF w(3) r(3)] evs_outside [OF w(4) r(4)]
  from parts [OF E z(1,3,5,7) K TE] show "\<forall>q\<in>Ka. T (Enter q) = evs ra (Enter q)"
    "\<forall>q\<in>Kb. T (Enter q) = evs rb (Enter q)" "\<forall>q\<in>Kc. T (Enter q) = evs rc (Enter q)"
    "\<forall>q\<in>Kd. T (Enter q) = evs rd (Enter q)" "T (Enter p) = n" by simp_all
  from parts [OF I z(2,4,6,8) G TI] show "\<forall>q\<in>Ga. T (Inc q) = evs ra (Inc q)"
    "\<forall>q\<in>Gb. T (Inc q) = evs rb (Inc q)" "\<forall>q\<in>Gc. T (Inc q) = evs rc (Inc q)"
    "\<forall>q\<in>Gd. T (Inc q) = evs rd (Inc q)" "T (Inc p) = m" by simp_all
qed

text \<open>The same with fewer parts.\<close>

lemma within_empty: "within {} {} {}"
  by (simp add: within_def)

lemma shares3:
  assumes r: "set ra \<subseteq> A" "set rb \<subseteq> B" "set rc \<subseteq> C"
    and w: "within Ka Ga A" "within Kb Gb B" "within Kc Gc C"
    and E: "\<And>q. evs rs (Enter q) = evs ra (Enter q) + evs rb (Enter q) + evs rc (Enter q)
        + (if q = p then n else 0)"
    and I: "\<And>q. evs rs (Inc q) = evs ra (Inc q) + evs rb (Inc q) + evs rc (Inc q) + (if q = p then m else 0)"
    and K: "p \<notin> Ka \<union> Kb \<union> Kc" "Ka \<inter> Kb = {}" "Ka \<inter> Kc = {}" "Kb \<inter> Kc = {}"
    and G: "p \<notin> Ga \<union> Gb \<union> Gc" "Ga \<inter> Gb = {}" "Ga \<inter> Gc = {}" "Gb \<inter> Gc = {}"
    and T: "\<forall>q\<in>insert p (Ka \<union> Kb \<union> Kc). T (Enter q) = evs rs (Enter q)"
      "\<forall>q\<in>insert p (Ga \<union> Gb \<union> Gc). T (Inc q) = evs rs (Inc q)"
  shows "\<forall>q\<in>Ka. T (Enter q) = evs ra (Enter q)" "\<forall>q\<in>Ga. T (Inc q) = evs ra (Inc q)"
    "\<forall>q\<in>Kb. T (Enter q) = evs rb (Enter q)" "\<forall>q\<in>Gb. T (Inc q) = evs rb (Inc q)"
    "\<forall>q\<in>Kc. T (Enter q) = evs rc (Enter q)" "\<forall>q\<in>Gc. T (Inc q) = evs rc (Inc q)"
    "T (Enter p) = n" "T (Inc p) = m"
proof -
  have e: "set [] \<subseteq> {}" by simp
  have E': "evs rs (Enter q) = evs ra (Enter q) + evs rb (Enter q) + evs rc (Enter q) + evs [] (Enter q)
        + (if q = p then n else 0)" for q by (simp add: E)
  have I': "evs rs (Inc q) = evs ra (Inc q) + evs rb (Inc q) + evs rc (Inc q) + evs [] (Inc q)
        + (if q = p then m else 0)" for q by (simp add: I)
  note * = shares [OF r e w within_empty E' I', unfolded Un_empty_right Int_empty_right, OF K(1-3) refl K(4) refl refl G(1-3) refl G(4) refl refl T]
  show "\<forall>q\<in>Ka. T (Enter q) = evs ra (Enter q)" "\<forall>q\<in>Ga. T (Inc q) = evs ra (Inc q)"
    "\<forall>q\<in>Kb. T (Enter q) = evs rb (Enter q)" "\<forall>q\<in>Gb. T (Inc q) = evs rb (Inc q)"
    "\<forall>q\<in>Kc. T (Enter q) = evs rc (Enter q)" "\<forall>q\<in>Gc. T (Inc q) = evs rc (Inc q)"
    "T (Enter p) = n" "T (Inc p) = m" by (fact *)+
qed

lemma shares2:
  assumes r: "set ra \<subseteq> A" "set rb \<subseteq> B" and w: "within Ka Ga A" "within Kb Gb B"
    and E: "\<And>q. evs rs (Enter q) = evs ra (Enter q) + evs rb (Enter q) + (if q = p then n else 0)"
    and I: "\<And>q. evs rs (Inc q) = evs ra (Inc q) + evs rb (Inc q) + (if q = p then m else 0)"
    and K: "p \<notin> Ka \<union> Kb" "Ka \<inter> Kb = {}" and G: "p \<notin> Ga \<union> Gb" "Ga \<inter> Gb = {}"
    and T: "\<forall>q\<in>insert p (Ka \<union> Kb). T (Enter q) = evs rs (Enter q)"
      "\<forall>q\<in>insert p (Ga \<union> Gb). T (Inc q) = evs rs (Inc q)"
  shows "\<forall>q\<in>Ka. T (Enter q) = evs ra (Enter q)" "\<forall>q\<in>Ga. T (Inc q) = evs ra (Inc q)"
    "\<forall>q\<in>Kb. T (Enter q) = evs rb (Enter q)" "\<forall>q\<in>Gb. T (Inc q) = evs rb (Inc q)"
    "T (Enter p) = n" "T (Inc p) = m"
proof -
  have e: "set [] \<subseteq> {}" by simp
  have E': "evs rs (Enter q) = evs ra (Enter q) + evs rb (Enter q) + evs [] (Enter q) + (if q = p then n else 0)"
    for q by (simp add: E)
  have I': "evs rs (Inc q) = evs ra (Inc q) + evs rb (Inc q) + evs [] (Inc q) + (if q = p then m else 0)"
    for q by (simp add: I)
  note * = shares3 [OF r e w within_empty E' I', unfolded Un_empty_right Int_empty_right,
      OF K refl refl G refl refl T]
  show "\<forall>q\<in>Ka. T (Enter q) = evs ra (Enter q)" "\<forall>q\<in>Ga. T (Inc q) = evs ra (Inc q)"
    "\<forall>q\<in>Kb. T (Enter q) = evs rb (Enter q)" "\<forall>q\<in>Gb. T (Inc q) = evs rb (Inc q)"
    "T (Enter p) = n" "T (Inc p) = m" by (fact *)+
qed

lemma disjoint_both: "A \<inter> B = {} \<longleftrightarrow> (\<forall>x\<in>A. x \<notin> B) \<and> (\<forall>x\<in>B. x \<notin> A)"
  by blast

lemma exactv_mono:
  assumes "exactv T R L d v A K G M" "K \<subseteq> K'" "G \<subseteq> G'" "M' \<subseteq> M"
  shows "exactv T R L d v A K' G' M'"
proof (rule exactvI, goal_cases)
  case (1 rs s)
  with assms(2,3) have l: "\<forall>q\<in>K. T (Enter q) = evs rs (Enter q)" "\<forall>q\<in>G. T (Inc q) = evs rs (Inc q)"
    by auto
  from ready_mono [OF 1(4) assms(2)] have "ready T R L K s" .
  from exactvE [OF assms(1) 1(1) l this 1(5,6)] obtain s' where "v s = Some s'" "frame T K M s s'"
    "CurrentCount s' = of_nat (outs rs Normal)" "BreakContinueStack s' = bump rs (BreakContinueStack s)" .
  with frame_mono [OF _ assms(2,4), of T s s'] show ?case by auto
qed

lemma exactv_Null: "exactv T R L d Some {([], Normal)} {} {} {}"
proof (rule exactvI, goal_cases)
  case (1 rs s)
  have "only_normal {([], Normal)}" by (simp add: only_normal_def)
  note outs = outs_only_normal [OF this 1(1)]
  show ?case using 1 outs by (simp add: frame_refl bump_zero)
qed

lemma only_normal_single: "only_normal {(t, Normal)}"
  by (simp add: only_normal_def)

lemma exactv_record:
  assumes "v = Some \<or> v = (\<lambda>s. Some (RecordStmtCount p s))"
  shows "exactv T R L d v {([Enter p], Normal)} {p} {} {}"
proof (rule exactvI, goal_cases)
  case (1 rs s)
  note outs = outs_only_normal [OF only_normal_single 1(1)]
  from 1(1) have "evs rs (Enter p) = length rs" by (induction rs) auto
  with 1 have "frame T {p} {} s (RecordStmtCount p s)"
    using frame_mono [OF frame_Record [of s T p], of "{p}" "{}"] by simp
  then show ?case using assms 1(6) outs frame_refl [of T "{p}" s] by (auto simp: bump_zero)
qed

lemma exactv_prefix:
  assumes v: "exactv T R L d v A K G M" and pK: "p \<notin> K"
  shows "exactv T R L d v (prefixed [Enter p] A) (insert p K) G M"
proof (rule exactvI, goal_cases)
  case (1 rs s)
  from prefixed_split [OF 1(1)] obtain ra where ra: "set ra \<subseteq> A" "length ra = length rs"
    "\<And>out. outs rs out = outs ra out" "\<And>e. evs rs e = evs ra e + length rs * count_list [Enter p] e"
    by blast
  have l: "\<forall>q\<in>K. T (Enter q) = evs ra (Enter q)" "\<forall>q\<in>G. T (Inc q) = evs ra (Inc q)"
    using 1(2,3) pK by (auto simp: ra(4))
  have "ready T R L K s" by (rule ready_mono [OF 1(4)]) auto
  from exactvE [OF v ra(1) l this 1(5)] 1(6) ra(2) obtain s' where
    "v s = Some s'" "frame T K M s s'" "CurrentCount s' = of_nat (outs ra Normal)"
    "BreakContinueStack s' = bump ra (BreakContinueStack s)" by auto
  with frame_mono [of T K M s s' "insert p K" M] ra(3) bump_cong [of "BreakContinueStack s" rs ra]
  show ?case by auto
qed

lemma exactv_andThen:
  assumes v: "exactv T R L d v A K G M" "exactv T R L d w B K' G' M'"
    and wi: "within K G A" "within K' G' B" and dis: "K \<inter> K' = {}" "G \<inter> G' = {}"
  shows "exactv T R L d (\<lambda>s. do { s1 \<leftarrow> v s; w s1 }) (andThen A B) (K \<union> K') (G \<union> G') (M \<union> M')"
proof (rule exactvI, goal_cases)
  case (1 rs s)
  from andThen_split [OF 1(1)] obtain ra rb where ra: "set ra \<subseteq> A" "length ra = length rs" and rb: "set rb \<subseteq> B"
    and o: "outs ra Normal = length rb" "outs rs Normal = outs rb Normal"
      "\<And>out. out \<noteq> Normal \<Longrightarrow> outs rs out = outs ra out + outs rb out"
    and e: "\<And>e. evs rs e = evs ra e + evs rb e"
    by blast
  note za = evs_outside [OF wi(1) ra(1)] and zb = evs_outside [OF wi(2) rb]
  have la: "\<forall>q\<in>K. T (Enter q) = evs ra (Enter q)" "\<forall>q\<in>G. T (Inc q) = evs ra (Inc q)"
    using 1(2,3) dis zb by (auto simp: e disjoint_both)
  have lb: "\<forall>q\<in>K'. T (Enter q) = evs rb (Enter q)" "\<forall>q\<in>G'. T (Inc q) = evs rb (Inc q)"
    using 1(2,3) dis za by (auto simp: e disjoint_both)
  have "ready T R L K s" by (rule ready_mono [OF 1(4)]) auto
  from exactvE [OF v(1) ra(1) la this 1(5)] 1(6) ra(2) obtain s1 where
    s1: "v s = Some s1" "frame T K M s s1" "CurrentCount s1 = of_nat (outs ra Normal)"
      "BreakContinueStack s1 = bump ra (BreakContinueStack s)" by auto
  have r1: "ready T R L K' s1" using dis by (intro ready_frame [OF 1(4) s1(2)]) auto
  have len: "length (BreakContinueStack s1) = d" using s1(4) 1(5) by simp
  have cnt: "CurrentCount s1 = of_nat (length rb)" using s1(3) o by simp
  from exactvE [OF v(2) rb lb r1 len cnt] obtain s2 where s2:
    "w s1 = Some s2" "frame T K' M' s1 s2" "CurrentCount s2 = of_nat (outs rb Normal)"
    "BreakContinueStack s2 = bump rb (BreakContinueStack s1)" .
  have "BreakContinueStack s2 = bump rs (BreakContinueStack s)"
    using s1(4) s2(4) o by (simp add: bump_add)
  with s1 s2 o frame_trans [OF s1(2) s2(2)] show ?case by simp
qed

text \<open>A visit whose result never falls through: \<open>return\<close> and \<open>throw\<close>.\<close>

lemma exactv_exit:
  assumes v: "exactv T R L d v A K G M" and n: "only_normal A" and p: "p \<notin> K"
    and out: "out = Ret \<or> out = Thr"
    and w: "\<And>s. w s = do { s1 \<leftarrow> v (RecordStmtCount p s); Some (unreachableNext s1) }"
    and wi: "within K G A"
  shows "exactv T R L d w (prefixed [Enter p] (andThen A {([], out)})) (insert p K) G M"
proof (rule exactvI, goal_cases)
  case (1 rs s)
  from prefixed_split [OF 1(1)] obtain r1 where r1: "set r1 \<subseteq> andThen A {([], out)}" "length r1 = length rs"
    "\<And>out. outs rs out = outs r1 out" "\<And>e. evs rs e = evs r1 e + length rs * count_list [Enter p] e"
    by blast
  from andThen_split [OF r1(1)] obtain ra rb where ra: "set ra \<subseteq> A" "length ra = length r1"
    and rb: "set rb \<subseteq> {([], out)}"
    and o: "outs ra Normal = length rb" "outs r1 Normal = outs rb Normal"
      "\<And>out. out \<noteq> Normal \<Longrightarrow> outs r1 out = outs ra out + outs rb out"
    and e: "\<And>e. evs r1 e = evs ra e + evs rb e"
    by blast
  from rb have b: "outs rb Normal = 0" "\<And>i. outs rb (Brk i) = 0 \<and> outs rb (Cont i) = 0" "\<And>e. evs rb e = 0"
    using out by (induction rb) auto
  note na = outs_only_normal [OF n ra(1)] and za = evs_outside [OF wi ra(1)]
  have la: "\<forall>q\<in>K. T (Enter q) = evs ra (Enter q)" "\<forall>q\<in>G. T (Inc q) = evs ra (Inc q)"
    using 1(2,3) p by (auto simp: e b r1)
  have "T (Enter p) = length rs" using 1(2) za p by (simp add: r1 e b)
  then have f0: "frame T {} {} s (RecordStmtCount p s)" using 1(6) by (intro frame_Record) simp
  have "ready T R L K (RecordStmtCount p s)" by (rule ready_frame [OF 1(4) f0]) auto
  from exactvE [OF v ra(1) la this] 1(5,6) ra(2) r1(2) obtain s1 where
    s1: "v (RecordStmtCount p s) = Some s1" "frame T K M (RecordStmtCount p s) s1"
      "BreakContinueStack s1 = bump ra (BreakContinueStack s)" by auto
  have "frame T K M s (unreachableNext s1)"
    by (rule frame_idle_right [OF frame_trans_idle [OF f0 s1(2)]]) simp_all
  moreover have "bump ra (BreakContinueStack s) = bump rs (BreakContinueStack s)"
    using na b o by (intro bump_cong [symmetric]) (simp add: r1)
  ultimately show ?case
    using s1 o b r1 w frame_mono [of T K M s "unreachableNext s1" "insert p K" M] by auto
qed

text \<open>
  The common part of \<open>if\<close>, \<open>?:\<close> and \<open>&&\<close>: the condition, then the part that the region
  counter counts.
\<close>

lemma branch_exact:
  assumes v: "exactv T R L d vc C Kc Gc Mc" "exactv T R L d va A Ka Ga Ma"
    and ea: "entered a A" "a = nullptr \<or> a \<in> Ka"
    and rs: "set rc \<subseteq> C" "outs rc Normal = length rc" "\<And>out. out \<noteq> Normal \<Longrightarrow> outs rc out = 0" "set ra \<subseteq> A"
    and lc: "\<forall>q\<in>Kc. T (Enter q) = evs rc (Enter q)" "\<forall>q\<in>Gc. T (Inc q) = evs rc (Inc q)"
    and la: "\<forall>q\<in>Ka. T (Enter q) = evs ra (Enter q)" "\<forall>q\<in>Ga. T (Inc q) = evs ra (Inc q)"
    and p: "p \<in> R" "T (Inc p) = length ra"
    and s: "ready T R L K s" "Kc \<union> Ka \<subseteq> K" "Kc \<inter> Ka = {}"
      "length (BreakContinueStack s) = d" "CurrentCount s = of_nat (length rc)"
  obtains s1 s2 s3 where "vc s = Some s1" "regionCount p s1 = Some (of_nat (length ra), s2)"
    "visitWith (of_nat (length ra)) a va s2 = Some s3" "frame T (Kc \<union> Ka) (Mc \<union> insert a Ma) s s3"
    "CurrentCount s3 = of_nat (outs ra Normal)" "BreakContinueStack s3 = bump ra (BreakContinueStack s)"
proof -
  have "ready T R L Kc s" using s(2) by (intro ready_mono [OF s(1)]) auto
  from exactvE [OF v(1) rs(1) lc this s(4,5)] obtain s1 where
    s1: "vc s = Some s1" "frame T Kc Mc s s1" "BreakContinueStack s1 = bump rc (BreakContinueStack s)" .
  then have b1: "BreakContinueStack s1 = BreakContinueStack s" using rs(3) by (simp add: bump_zero)
  have r1: "ready T R L Ka s1" using s(2,3) by (intro ready_frame [OF s(1) s1(2)]) auto
  from regionCount_frame [OF r1 p(1)] obtain s2 where
    s2: "regionCount p s1 = Some (of_nat (length ra), s2)" "frame T {} {} s1 s2"
      "BreakContinueStack s2 = BreakContinueStack s1"
    using p(2) by auto
  have r2: "ready T R L Ka s2" by (rule ready_frame [OF r1 s2(2)]) auto
  have "length (BreakContinueStack s2) = d" using s(4) s2(3) b1 by simp
  from visitWith_exact [OF v(2) ea rs(4) la r2 this refl] obtain s3 where
    s3: "visitWith (of_nat (length ra)) a va s2 = Some s3" "frame T Ka (insert a Ma) s2 s3"
      "CurrentCount s3 = of_nat (outs ra Normal)" "BreakContinueStack s3 = bump ra (BreakContinueStack s2)" .
  have "frame T (Kc \<union> Ka) (Mc \<union> insert a Ma) s s3"
    by (rule frame_trans [OF s1(2) frame_trans_idle [OF s2(2) s3(2)]])
  with that [OF s1(1) s2(1) s3(1)] s3 s2(3) b1 show ?thesis by simp
qed

text \<open>The parts of the runs of a two-way branch.\<close>

lemma branch_split:
  assumes "set rs \<subseteq> prefixed [Enter p] (andThen C (prefixed [Inc p] A \<union> B))" "only_normal C"
  obtains rc ra rb where "set rc \<subseteq> C" "set ra \<subseteq> A" "set rb \<subseteq> B" "length rc = length rs"
    "length rs = length ra + length rb" "\<And>out. outs rs out = outs ra out + outs rb out"
    "outs rc Normal = length rc" "\<And>out. out \<noteq> Normal \<Longrightarrow> outs rc out = 0"
    "\<And>q. evs rs (Enter q) = evs rc (Enter q) + evs ra (Enter q) + evs rb (Enter q)
        + (if q = p then length rs else 0)"
    "\<And>q. evs rs (Inc q) = evs rc (Inc q) + evs ra (Inc q) + evs rb (Inc q) + (if q = p then length ra else 0)"
proof -
  from prefixed_split [OF assms(1)] obtain r1 where r1: "set r1 \<subseteq> andThen C (prefixed [Inc p] A \<union> B)"
    "length r1 = length rs" "\<And>out. outs rs out = outs r1 out"
    "\<And>e. evs rs e = evs r1 e + length rs * count_list [Enter p] e" by blast
  from andThen_split [OF r1(1)] obtain rc r2 where r2: "set rc \<subseteq> C" "set r2 \<subseteq> prefixed [Inc p] A \<union> B"
    "length rc = length r1" "outs rc Normal = length r2" "outs r1 Normal = outs r2 Normal"
    "\<And>out. out \<noteq> Normal \<Longrightarrow> outs r1 out = outs rc out + outs r2 out" "\<And>e. evs r1 e = evs rc e + evs r2 e"
    by blast
  from union_split [OF r2(2)] obtain r3 rb where r3: "set r3 \<subseteq> prefixed [Inc p] A" "set rb \<subseteq> B"
    "length r2 = length r3 + length rb" "\<And>out. outs r2 out = outs r3 out + outs rb out"
    "\<And>e. evs r2 e = evs r3 e + evs rb e" by blast
  from prefixed_split [OF r3(1)] obtain ra where ra: "set ra \<subseteq> A" "length ra = length r3"
    "\<And>out. outs r3 out = outs ra out" "\<And>e. evs r3 e = evs ra e + length r3 * count_list [Inc p] e"
    by blast
  note n = outs_only_normal [OF assms(2) r2(1)]
  have "outs rs out = outs ra out + outs rb out" for out
    using n by (cases "out = Normal") (simp_all add: r1 r2 r3 ra)
  with that [of rc ra rb] n show ?thesis by (simp add: r1 r2 r3 ra)
qed

lemma exactv_If:
  assumes v: "exactv T R L d vc C Kc Gc Mc" "exactv T R L d va A Ka Ga Ma" "exactv T R L d vb B Kb Gb Mb"
    and n: "only_normal C" and ea: "entered a A" "a = nullptr \<or> a \<in> Ka"
    and eb: "entered b B" "b = nullptr \<and> B = {([], Normal)} \<or> b \<noteq> nullptr \<and> b \<in> Kb"
    and wi: "within Kc Gc C" "within Ka Ga A" "within Kb Gb B"
    and dis: "p \<notin> Kc \<union> Ka \<union> Kb" "Kc \<inter> Ka = {}" "Kc \<inter> Kb = {}" "Ka \<inter> Kb = {}"
    and disG: "p \<notin> Gc \<union> Ga \<union> Gb" "Gc \<inter> Ga = {}" "Gc \<inter> Gb = {}" "Ga \<inter> Gb = {}"
    and p: "p \<in> R"
  shows "exactv T R L d (visit_If p vc a va b vb)
     (prefixed [Enter p] (andThen C (prefixed [Inc p] A \<union> B)))
     (insert p (Kc \<union> Ka \<union> Kb)) (insert p (Gc \<union> Ga \<union> Gb))
     ({a} \<union> (if b = nullptr then {} else {b} \<union> Mb) \<union> Mc \<union> Ma)"
proof (rule exactvI, goal_cases)
  case (1 rs s)
  from branch_split [OF 1(1) n] obtain rc ra rb where
    r: "set rc \<subseteq> C" "set ra \<subseteq> A" "set rb \<subseteq> B" "length rc = length rs"
    "length rs = length ra + length rb" "\<And>out. outs rs out = outs ra out + outs rb out"
    "outs rc Normal = length rc" "\<And>out. out \<noteq> Normal \<Longrightarrow> outs rc out = 0"
    and e: "\<And>q. evs rs (Enter q) = evs rc (Enter q) + evs ra (Enter q) + evs rb (Enter q)
        + (if q = p then length rs else 0)"
    "\<And>q. evs rs (Inc q) = evs rc (Inc q) + evs ra (Inc q) + evs rb (Inc q) + (if q = p then length ra else 0)"
    by blast
  note l = shares3 [where T = T, OF r(1,2,3) wi e dis disG 1(2,3)]
  have f0: "frame T {} {} s (RecordStmtCount p s)" using 1(6) l(7) by (intro frame_Record) simp
  let ?K = "Kc \<union> Ka \<union> Kb"
  have r0: "ready T R L ?K (RecordStmtCount p s)" by (rule ready_frame [OF 1(4) f0]) auto
  have c0: "CurrentCount (RecordStmtCount p s) = of_nat (length rc)"
    "length (BreakContinueStack (RecordStmtCount p s)) = d" using 1(5,6) r(4) by simp_all
  from branch_exact [OF v(1,2) ea r(1,7,8,2) l(1-4) p l(8) r0 _ dis(2) c0(2,1)] obtain s1 s2 s3 where
    s1: "vc (RecordStmtCount p s) = Some s1" "regionCount p s1 = Some (of_nat (length ra), s2)"
    and s3: "visitWith (of_nat (length ra)) a va s2 = Some s3"
      "frame T (Kc \<union> Ka) (Mc \<union> insert a Ma) (RecordStmtCount p s) s3"
      "CurrentCount s3 = of_nat (outs ra Normal)" "BreakContinueStack s3 = bump ra (BreakContinueStack s)"
    by auto
  have f3: "frame T (Kc \<union> Ka) (Mc \<union> insert a Ma) s s3" by (rule frame_trans_idle [OF f0 s3(2)])
  have ec: "CurrentCount s - of_nat (length ra) = of_nat (length rb)" using 1(6) r(5) by simp
  show ?case
  proof (cases "b = nullptr")
    case True
    with eb(2) have nb: "outs rb Normal = length rb" "\<And>out. out \<noteq> Normal \<Longrightarrow> outs rb out = 0"
      using outs_only_normal [OF only_normal_single] r(3) by blast+
    let ?s = "finish (of_nat (outs ra Normal) + of_nat (length rb)) s3"
    have "visit_If p vc a va b vb s = Some ?s"
      using s1 s3 ec True by (simp add: visit_If_def)
    moreover have "frame T (insert p ?K) ({a} \<union> (if b = nullptr then {} else {b} \<union> Mb) \<union> Mc \<union> Ma) s ?s"
      using True by (intro frame_mono [OF frame_idle_right [OF f3]]) auto
    moreover have "bump ra (BreakContinueStack s) = bump rs (BreakContinueStack s)"
      using nb r(6) by (intro bump_cong) simp
    ultimately show ?thesis using s3(4) r(6) nb by simp
  next
    case False
    then have bK: "b = nullptr \<or> b \<in> Kb" using eb(2) by auto
    have r3: "ready T R L Kb s3" using dis by (intro ready_frame [OF r0 s3(2)]) auto
    have len: "length (BreakContinueStack s3) = d" using s3(4) 1(5) by simp
    from visitWith_exact [OF v(3) eb(1) bK r(3) l(5,6) r3 len refl] obtain s4 where
      s4: "visitWith (of_nat (length rb)) b vb s3 = Some s4" "frame T Kb (insert b Mb) s3 s4"
        "CurrentCount s4 = of_nat (outs rb Normal)" "BreakContinueStack s4 = bump rb (BreakContinueStack s3)" .
    let ?s = "finish (of_nat (outs ra Normal) + of_nat (outs rb Normal)) s4"
    have "visit_If p vc a va b vb s = Some ?s"
      using s1 s3 s4 ec False by (simp add: visit_If_def)
    moreover have "frame T (insert p ?K) ({a} \<union> (if b = nullptr then {} else {b} \<union> Mb) \<union> Mc \<union> Ma) s ?s"
      using False by (intro frame_mono [OF frame_idle_right [OF frame_trans [OF f3 s4(2)]]]) auto
    ultimately show ?thesis using s3(4) s4(4) r(6) by (simp add: bump_add)
  qed
qed

end
