(* ===== verification/PGOLoops.thy ===== *)
theory PGOLoops
  imports PGOExactness
begin

text \<open>
  Exactness of the visitor's methods for logical expressions, loops, labels and jumps. The
  \<open>while\<close> and both \<open>foreach\<close> methods are instances of the one for \<open>for\<close>.
\<close>

section \<open>Conditional and logical expressions\<close>

lemma visit_CondExp_If:
  "b \<noteq> nullptr \<Longrightarrow> visit_CondExp p vc a va b vb = visit_If p vc a va b vb"
  by (simp add: visit_CondExp_def visit_If_def fun_eq_iff Let_def)

lemma exactv_Logical:
  assumes v: "exactv T R L d vc C Kc Gc Mc" "exactv T R L d va A Ka Ga Ma"
    and n: "only_normal C" "only_normal A" and ea: "entered a A" "a = nullptr \<or> a \<in> Ka"
    and wi: "within Kc Gc C" "within Ka Ga A"
    and dis: "p \<notin> Kc \<union> Ka" "Kc \<inter> Ka = {}" and disG: "p \<notin> Gc \<union> Ga" "Gc \<inter> Ga = {}" and p: "p \<in> R"
  shows "exactv T R L d (visit_LogicalExp p vc a va)
     (prefixed [Enter p] (andThen C (prefixed [Inc p] A \<union> {([], Normal)})))
     (insert p (Kc \<union> Ka)) (insert p (Gc \<union> Ga)) (insert a (Mc \<union> Ma))"
proof (rule exactvI, goal_cases)
  case (1 rs s)
  from branch_split [OF 1(1) n(1)] obtain rc ra rb where
    r: "set rc \<subseteq> C" "set ra \<subseteq> A" "set rb \<subseteq> {([], Normal)}" "length rc = length rs"
    "length rs = length ra + length rb" "\<And>out. outs rs out = outs ra out + outs rb out"
    "outs rc Normal = length rc" "\<And>out. out \<noteq> Normal \<Longrightarrow> outs rc out = 0"
    and e: "\<And>q. evs rs (Enter q) = evs rc (Enter q) + evs ra (Enter q) + evs rb (Enter q)
        + (if q = p then length rs else 0)"
    "\<And>q. evs rs (Inc q) = evs rc (Inc q) + evs ra (Inc q) + evs rb (Inc q) + (if q = p then length ra else 0)"
    by blast
  have "evs rb e = 0" for e using r(3) by (induction rb) auto
  then have e': "evs rs (Enter q) = evs rc (Enter q) + evs ra (Enter q) + (if q = p then length rs else 0)"
    "evs rs (Inc q) = evs rc (Inc q) + evs ra (Inc q) + (if q = p then length ra else 0)" for q
    by (simp_all add: e)
  note l = shares2 [where T = T, OF r(1,2) wi e' dis disG 1(2,3)]
  note na = outs_only_normal [OF n(2) r(2)] and nb = outs_only_normal [OF only_normal_single r(3)]
  have f0: "frame T {} {} s (RecordStmtCount p s)" using 1(6) l(5) by (intro frame_Record) simp
  have r0: "ready T R L (Kc \<union> Ka) (RecordStmtCount p s)" by (rule ready_frame [OF 1(4) f0]) auto
  have c0: "CurrentCount (RecordStmtCount p s) = of_nat (length rc)"
    "length (BreakContinueStack (RecordStmtCount p s)) = d" using 1(5,6) r(4) by simp_all
  from branch_exact [OF v ea r(1,7,8,2) l(1-4) p l(6) r0 subset_refl dis(2) c0(2,1)] obtain s1 s2 s3 where
    s1: "vc (RecordStmtCount p s) = Some s1" "regionCount p s1 = Some (of_nat (length ra), s2)"
    and s3: "visitWith (of_nat (length ra)) a va s2 = Some s3"
      "frame T (Kc \<union> Ka) (Mc \<union> insert a Ma) (RecordStmtCount p s) s3"
      "CurrentCount s3 = of_nat (outs ra Normal)" "BreakContinueStack s3 = bump ra (BreakContinueStack s)"
    by auto
  let ?s = "finish (of_nat (length rs)) s3"
  have "visit_LogicalExp p vc a va s = Some ?s"
    using s1 s3 1(6) na(1) by (simp add: visit_LogicalExp_def)
  moreover have "frame T (insert p (Kc \<union> Ka)) (insert a (Mc \<union> Ma)) s ?s"
    by (rule frame_mono [OF frame_idle_right [OF frame_trans_idle [OF f0 s3(2)]]]) auto
  moreover have "bump ra (BreakContinueStack s) = bump rs (BreakContinueStack s)"
    using na(2) nb(2) r(6) by (intro bump_cong) simp
  ultimately show ?case using s3(4) r(5,6) na(1) nb(1) by simp
qed

section \<open>Loops\<close>

lemma for_split:
  assumes "set rs \<subseteq> prefixed [Enter p] (andThen I (loopRuns p d C B J))"
    and n: "only_normal I" "only_normal C" "only_normal J"
  obtains ri rc rb rj where "set ri \<subseteq> I" "set rc \<subseteq> C" "set rb \<subseteq> B" "set rj \<subseteq> J"
    "length ri = length rs" "length rc = length rs + outs rb Normal + outs rb (Cont d)"
    "length rj = outs rb Normal + outs rb (Cont d)"
    "outs rs Normal + length rb = outs rb (Brk d) + length rc"
    "\<And>out. leaves d out \<Longrightarrow> outs rs out = outs rb out"
    "\<And>q. evs rs (Enter q) = evs ri (Enter q) + evs rc (Enter q) + evs rb (Enter q) + evs rj (Enter q)
        + (if q = p then length rs else 0)"
    "\<And>q. evs rs (Inc q) = evs ri (Inc q) + evs rc (Inc q) + evs rb (Inc q) + evs rj (Inc q)
        + (if q = p then length rb else 0)"
    "outs ri Normal = length ri" "\<And>out. out \<noteq> Normal \<Longrightarrow> outs ri out = 0"
proof -
  from prefixed_split [OF assms(1)] obtain r1 where r1: "set r1 \<subseteq> andThen I (loopRuns p d C B J)"
    "length r1 = length rs" "\<And>out. outs rs out = outs r1 out"
    "\<And>e. evs rs e = evs r1 e + length rs * count_list [Enter p] e" by blast
  from andThen_split [OF r1(1)] obtain ri r2 where r2: "set ri \<subseteq> I" "set r2 \<subseteq> loopRuns p d C B J"
    "length ri = length r1" "outs ri Normal = length r2" "outs r1 Normal = outs r2 Normal"
    "\<And>out. out \<noteq> Normal \<Longrightarrow> outs r1 out = outs ri out + outs r2 out" "\<And>e. evs r1 e = evs ri e + evs r2 e"
    by blast
  note ni = outs_only_normal [OF n(1) r2(1)]
  from loop_split [OF r2(2)] obtain rc rb rj where lp: "loopParts p d C B J r2 rc rb rj" by blast
  have "outs rs out = outs rb out" if "leaves d out" for out
  proof -
    from that have "out \<noteq> Normal" by (auto simp: leaves_def goesOn_def)
    with that lp ni show ?thesis by (simp add: r1 r2 loopParts_def)
  qed
  with that [of ri rc rb rj] lp ni show ?thesis by (simp add: r1 r2 loopParts_def)
qed

lemma leaves_inner: "i < d \<Longrightarrow> leaves d (Brk i)" "i < d \<Longrightarrow> leaves d (Cont i)" "leaves d Ret" "leaves d Thr"
  by (simp_all add: leaves_def goesOn_def)

text \<open>The optional increment of a \<open>for\<close> loop.\<close>

lemma increment_exact:
  assumes v: "exactv T R L d v A K G M" and n: "only_normal A"
    and q: "entered q A" "q = nullptr \<and> A = {([], Normal)} \<or> q \<noteq> nullptr \<and> q \<in> K"
    and rs: "set rs \<subseteq> A" "\<forall>q\<in>K. T (Enter q) = evs rs (Enter q)" "\<forall>q\<in>G. T (Inc q) = evs rs (Inc q)"
    and s: "ready T R L K s" "length (BreakContinueStack s) = d"
  obtains s' where "(if q = nullptr then Some s else visitWith (of_nat (length rs)) q v s) = Some s'"
    "frame T K (if q = nullptr then {} else insert q M) s s'" "BreakContinueStack s' = BreakContinueStack s"
proof (cases "q = nullptr")
  case True
  with that [of s] frame_refl show ?thesis by simp
next
  case False
  with q(2) have qK: "q = nullptr \<or> q \<in> K" by simp
  from visitWith_exact [OF v q(1) qK rs s refl] obtain s' where
    "visitWith (of_nat (length rs)) q v s = Some s'" "frame T K (insert q M) s s'"
    "BreakContinueStack s' = bump rs (BreakContinueStack s)" .
  with that [of s'] False outs_only_normal [OF n rs(1)] show ?thesis by (simp add: bump_zero)
qed

lemma exactv_For:
  assumes v: "exactv T R L d vi I Ki Gi Mi" "exactv T R L d vc C Kc Gc Mc"
      "exactv T R L (Suc d) vb B Kb Gb Mb" "exactv T R L d vj J Kj Gj Mj"
    and n: "only_normal I" "only_normal C" "only_normal J"
    and eb: "entered b B" "b = nullptr \<or> b \<in> Kb"
    and ec: "entered (if c = nullptr then getCounterPtr p 1 else c) C"
      "(if c = nullptr then getCounterPtr p 1 else c) \<in> Kc"
    and ej: "entered j J" "j = nullptr \<and> J = {([], Normal)} \<or> j \<noteq> nullptr \<and> j \<in> Kj"
    and wi: "within Ki Gi I" "within Kc Gc C" "within Kb Gb B" "within Kj Gj J"
    and dis: "p \<notin> Ki \<union> Kc \<union> Kb \<union> Kj" "Ki \<inter> Kc = {}" "Ki \<inter> Kb = {}" "Ki \<inter> Kj = {}" "Kc \<inter> Kb = {}"
      "Kc \<inter> Kj = {}" "Kb \<inter> Kj = {}"
    and disG: "p \<notin> Gi \<union> Gc \<union> Gb \<union> Gj" "Gi \<inter> Gc = {}" "Gi \<inter> Gb = {}" "Gi \<inter> Gj = {}" "Gc \<inter> Gb = {}"
      "Gc \<inter> Gj = {}" "Gb \<inter> Gj = {}"
    and p: "p \<in> R"
  shows "exactv T R L d (visit_For p vi c vc b vb j vj)
     (prefixed [Enter p] (andThen I (loopRuns p d C B J)))
     (insert p (Ki \<union> Kc \<union> Kb \<union> Kj)) (insert p (Gi \<union> Gc \<union> Gb \<union> Gj))
     ({if c = nullptr then getCounterPtr p 1 else c, b} \<union> Mi \<union> Mc \<union> Mb \<union> (if j = nullptr then {} else insert j Mj))"
    (is "exactv T R L d ?v _ ?K _ ?M")
proof (rule exactvI, goal_cases)
  case (1 rs s)
  let ?c = "if c = nullptr then getCounterPtr p 1 else c"
  from for_split [OF 1(1) n] obtain ri rc rb rj where
    r: "set ri \<subseteq> I" "set rc \<subseteq> C" "set rb \<subseteq> B" "set rj \<subseteq> J"
    and len: "length ri = length rs" "length rc = length rs + outs rb Normal + outs rb (Cont d)"
      "length rj = outs rb Normal + outs rb (Cont d)" "outs rs Normal + length rb = outs rb (Brk d) + length rc"
    and out: "\<And>out. leaves d out \<Longrightarrow> outs rs out = outs rb out"
    and e: "\<And>q. evs rs (Enter q) = evs ri (Enter q) + evs rc (Enter q) + evs rb (Enter q) + evs rj (Enter q)
        + (if q = p then length rs else 0)"
    "\<And>q. evs rs (Inc q) = evs ri (Inc q) + evs rc (Inc q) + evs rb (Inc q) + evs rj (Inc q)
        + (if q = p then length rb else 0)"
    and ni: "outs ri Normal = length ri" "\<And>out. out \<noteq> Normal \<Longrightarrow> outs ri out = 0"
    by blast
  note l = shares [where T = T, OF r wi e dis disG 1(2,3)]
  have f0: "frame T {} {} s (RecordStmtCount p s)" using 1(6) l(9) by (intro frame_Record) simp
  have ri0: "ready T R L Ki (RecordStmtCount p s)" by (rule ready_frame [OF 1(4) f0]) auto
  have c0: "CurrentCount (RecordStmtCount p s) = of_nat (length ri)"
    "length (BreakContinueStack (RecordStmtCount p s)) = d" using 1(5,6) len by simp_all
  from exactvE [OF v(1) r(1) l(1,2) ri0 c0(2,1)] obtain s0 where s0: "vi (RecordStmtCount p s) = Some s0"
    "frame T Ki Mi (RecordStmtCount p s) s0" "CurrentCount s0 = of_nat (length rs)"
    "BreakContinueStack s0 = BreakContinueStack s"
    using ni len by (auto simp: bump_zero)
  have g0: "frame T Ki Mi s s0" by (rule frame_trans_idle [OF f0 s0(2)])
  have rb0: "ready T R L Kb s0" using dis by (intro ready_frame [OF 1(4) g0]) auto
  have d0: "length (BreakContinueStack s0) = d" using s0(4) 1(5) by simp
  from loopBody_exact [OF v(3) eb r(3) l(5,6) rb0 d0 p l(10)] obtain s1 s2 s3 where
    s1: "regionCount p (pushBC s0) = Some (of_nat (length rb), s1)"
    and s2: "visitWith (of_nat (length rb)) b vb s1 = Some s2" "CurrentCount s2 = of_nat (outs rb Normal)"
    and s3: "popBC s2 = Some (\<lparr>BreakCount = of_nat (outs rb (Brk d)), ContinueCount = of_nat (outs rb (Cont d))\<rparr>, s3)"
      "frame T Kb (insert b Mb) s0 s3" "BreakContinueStack s3 = bump rb (BreakContinueStack s0)" .
  have g3: "frame T (Ki \<union> Kb) (Mi \<union> insert b Mb) s s3" by (rule frame_trans [OF g0 s3(2)])
  have r3: "ready T R L Kj s3" using dis by (intro ready_frame [OF 1(4) g3]) auto
  have d3: "length (BreakContinueStack s3) = d" using s3(3) d0 by simp
  from increment_exact [OF v(4) n(3) ej r(4) l(7,8) r3 d3] obtain s4 where
    s4: "(if j = nullptr then Some s3 else visitWith (of_nat (length rj)) j vj s3) = Some s4"
      "frame T Kj (if j = nullptr then {} else insert j Mj) s3 s4" "BreakContinueStack s4 = BreakContinueStack s3" .
  note g4 = frame_trans [OF g3 s4(2)]
  have r4: "ready T R L Kc s4" using dis by (intro ready_frame [OF 1(4) g4]) auto
  have d4: "length (BreakContinueStack s4) = d" using s4(3) d3 by simp
  from ec(2) have ec': "?c = nullptr \<or> ?c \<in> Kc" by blast
  from visitWith_exact [OF v(2) ec(1) ec' r(2) l(3,4) r4 d4 refl] obtain s5 where
    s5: "visitWith (of_nat (length rc)) ?c vc s4 = Some s5" "frame T Kc (insert ?c Mc) s4 s5"
      "BreakContinueStack s5 = bump rc (BreakContinueStack s4)" .
  then have b5: "BreakContinueStack s5 = BreakContinueStack s4"
    using outs_only_normal [OF n(2) r(2)] by (simp add: bump_zero)
  have eqs: "of_nat (outs rb Normal) + of_nat (outs rb (Cont d)) = (of_nat (length rj) :: u64)"
    "of_nat (length rs) + of_nat (outs rb Normal) + of_nat (outs rb (Cont d)) = (of_nat (length rc) :: u64)"
    using len by simp_all
  have fin: "of_nat (outs rb (Brk d)) + of_nat (length rc) - of_nat (length rb) = (of_nat (outs rs Normal) :: u64)"
    using arg_cong [OF len(4), of "of_nat :: nat \<Rightarrow> u64"] by (simp add: algebra_simps)
  let ?s = "finish (of_nat (outs rs Normal)) s5"
  have "?v s = Some ?s"
    unfolding visit_For_def Let_def
    by (cases "j = nullptr"; cases "c = nullptr";
        use s4(1) s5(1) in \<open>simp add: s0(1,3) s1 s2 s3(1) eqs fin del: of_nat_add\<close>)
  moreover have "frame T ?K ?M s ?s"
    by (rule frame_mono [OF frame_idle_right [OF frame_trans [OF g4 s5(2)]]]) auto
  moreover have "bump rb (BreakContinueStack s) = bump rs (BreakContinueStack s)"
    using 1(5) out leaves_inner by (intro bump_cong) simp
  ultimately show ?case using b5 s4(3) s3(3) s0(4) by simp
qed

text \<open>The other loops are written with the same steps.\<close>

lemma visit_While_For:
  "c \<noteq> nullptr \<Longrightarrow> visit_While p c vc b vb = visit_For p Some c vc b vb nullptr v"
  by (simp add: visit_While_def visit_For_def fun_eq_iff Let_def)

lemma finish_putCount: "finish c (putCount q x (setCount y s)) = finish c (putCount q x s)"
  by (simp add: finish_def putCount_def setCount_def setRecord_def)

lemma visit_Foreach_For:
  "visit_Foreach p va b vb = visit_For p va nullptr Some b vb nullptr v"
  by (simp add: visit_Foreach_def foreachBody_def visit_For_def visitWith_def finish_putCount fun_eq_iff Let_def)

lemma visit_ForeachRange_For:
  "visit_ForeachRange p vl vu b vb = visit_For p (\<lambda>s. do { s1 \<leftarrow> vl s; vu s1 }) nullptr Some b vb nullptr v"
  by (simp add: visit_ForeachRange_def foreachBody_def visit_For_def visitWith_def finish_putCount
      fun_eq_iff Let_def split: bind_splits)

lemma exactv_Do:
  assumes v: "exactv T R L d vc C Kc Gc Mc" "exactv T R L (Suc d) vb B Kb Gb Mb"
    and n: "only_normal C"
    and eb: "entered b B" "b = nullptr \<or> b \<in> Kb" and ec: "entered c C" "c = nullptr \<or> c \<in> Kc"
    and wi: "within Kc Gc C" "within Kb Gb B"
    and dis: "p \<notin> Kc \<union> Kb" "Kc \<inter> Kb = {}" and disG: "p \<notin> Gc \<union> Gb" "Gc \<inter> Gb = {}" and p: "p \<in> R"
  shows "exactv T R L d (visit_Do p b vb c vc) (prefixed [Enter p] (doRuns p d C B))
     (insert p (Kc \<union> Kb)) (insert p (Gc \<union> Gb)) ({b, c} \<union> Mc \<union> Mb)"
proof (rule exactvI, goal_cases)
  case (1 rs s)
  from prefixed_split [OF 1(1)] obtain r1 where r1: "set r1 \<subseteq> doRuns p d C B"
    "length r1 = length rs" "\<And>out. outs rs out = outs r1 out"
    "\<And>e. evs rs e = evs r1 e + length rs * count_list [Enter p] e" by blast
  from do_split [OF r1(1)] obtain rc rb where dp: "doParts p d C B r1 rc rb" by blast
  then have r: "set rc \<subseteq> C" "set rb \<subseteq> B" by (simp_all add: doParts_def)
  have e: "evs rs (Enter q) = evs rc (Enter q) + evs rb (Enter q) + (if q = p then length rs else 0)"
    "evs rs (Inc q) = evs rc (Inc q) + evs rb (Inc q) + (if q = p then length rb else 0)" for q
    using dp by (simp_all add: r1 doParts_def)
  note l = shares2 [where T = T, OF r wi e dis disG 1(2,3)]
  have f0: "frame T {} {} s (RecordStmtCount p s)" using 1(6) l(5) by (intro frame_Record) simp
  have rb0: "ready T R L Kb (RecordStmtCount p s)" by (rule ready_frame [OF 1(4) f0]) auto
  have d0: "length (BreakContinueStack (RecordStmtCount p s)) = d" using 1(5) by simp
  from loopBody_exact [OF v(2) eb r(2) l(3,4) rb0 d0 p l(6)] obtain s1 s2 s3 where
    s1: "regionCount p (pushBC (RecordStmtCount p s)) = Some (of_nat (length rb), s1)"
    and s2: "visitWith (of_nat (length rb)) b vb s1 = Some s2" "CurrentCount s2 = of_nat (outs rb Normal)"
    and s3: "popBC s2 = Some (\<lparr>BreakCount = of_nat (outs rb (Brk d)), ContinueCount = of_nat (outs rb (Cont d))\<rparr>, s3)"
      "frame T Kb (insert b Mb) (RecordStmtCount p s) s3" "BreakContinueStack s3 = bump rb (BreakContinueStack s)"
    by auto
  have g3: "frame T Kb (insert b Mb) s s3" by (rule frame_trans_idle [OF f0 s3(2)])
  have r3: "ready T R L Kc s3" using dis by (intro ready_frame [OF 1(4) g3]) auto
  have d3: "length (BreakContinueStack s3) = d" using s3(3) 1(5) by simp
  from visitWith_exact [OF v(1) ec r(1) l(1,2) r3 d3 refl] obtain s4 where
    s4: "visitWith (of_nat (length rc)) c vc s3 = Some s4" "frame T Kc (insert c Mc) s3 s4"
      "BreakContinueStack s4 = bump rc (BreakContinueStack s3)" .
  then have b4: "BreakContinueStack s4 = BreakContinueStack s3"
    using outs_only_normal [OF n r(1)] by (simp add: bump_zero)
  have len: "length rc = outs rb Normal + outs rb (Cont d)"
    "outs rs Normal + length rb = outs rb (Brk d) + length rc + length rs"
    using dp by (simp_all add: doParts_def r1)
  have eqs: "of_nat (outs rb Normal) + of_nat (outs rb (Cont d)) = (of_nat (length rc) :: u64)"
    using len by simp
  have fin: "of_nat (outs rb (Brk d)) + of_nat (length rc) - (of_nat (length rb) - of_nat (length rs))
      = (of_nat (outs rs Normal) :: u64)"
    using arg_cong [OF len(2), of "of_nat :: nat \<Rightarrow> u64"] by (simp add: algebra_simps)
  let ?s = "finish (of_nat (outs rs Normal)) s4"
  have "visit_Do p b vb c vc s = Some ?s"
    unfolding visit_Do_def Let_def by (simp add: 1(6) s1 s2 s3(1) s4(1) eqs fin del: of_nat_add)
  moreover have "frame T (insert p (Kc \<union> Kb)) ({b, c} \<union> Mc \<union> Mb) s ?s"
    by (rule frame_mono [OF frame_idle_right [OF frame_trans [OF g3 s4(2)]]]) auto
  moreover have "bump rb (BreakContinueStack s) = bump rs (BreakContinueStack s)"
    using 1(5) dp leaves_inner by (intro bump_cong) (simp add: r1 doParts_def)
  ultimately show ?case using b4 s3(3) by simp
qed

section \<open>Labels and jumps\<close>

lemma exactv_Label:
  assumes v: "exactv T R (L(p \<mapsto> d)) d v A K G M" and wi: "within K G A"
    and p: "p \<in> R" "p \<notin> K" "p \<notin> G"
  shows "exactv T R L d (visit_Label p v) (prefixed [Enter p, Inc p] A) (insert p K) (insert p G) (insert p M)"
proof (rule exactvI, goal_cases)
  case (1 rs s)
  from prefixed_split [OF 1(1)] obtain ra where ra: "set ra \<subseteq> A" "length ra = length rs"
    "\<And>out. outs rs out = outs ra out"
    "\<And>e. evs rs e = evs ra e + length rs * count_list [Enter p, Inc p] e" by blast
  note z = evs_outside [OF wi ra(1)]
  have tp: "T (Enter p) = length rs" "T (Inc p) = length rs" using 1(2,3) z p by (simp_all add: ra(4))
  have l: "\<forall>q\<in>K. T (Enter q) = evs ra (Enter q)" "\<forall>q\<in>G. T (Inc q) = evs ra (Inc q)"
    using 1(2,3) p by (auto simp: ra(4))
  have f0: "frame T {} {} s (setRecord False s)" by (rule frame_idle) simp_all
  have r0: "ready T R L (insert p K) (setRecord False s)" by (rule ready_frame [OF 1(4) f0]) auto
  from regionCount_frame [OF r0 p(1)] obtain s1 where
    s1: "regionCount p (setRecord False s) = Some (of_nat (length rs), s1)"
      "frame T {} {} (setRecord False s) s1" "BreakContinueStack s1 = BreakContinueStack s"
      "LoopLabels s1 = LoopLabels s"
    using tp by auto
  let ?s2 = "putCount p (of_nat (length rs)) (setCount (of_nat (length rs)) s1)"
  let ?s3 = "?s2\<lparr>LoopLabels := LoopLabels ?s2 @ [(p, length (BreakContinueStack ?s2))]\<rparr>"
  have f2: "frame T {} {p} s ?s2"
    using frame_trans_idle [OF frame_trans_idle [OF f0 s1(2)] frame_trans_idle [OF frame_idle
      [of "setCount (of_nat (length rs)) s1" s1 T] frame_putCount]] tp(1) by simp
  then have f3: "frame T {p} {p} s ?s3" by (auto simp: frame_def)
  have "ready T R L K ?s3" using p(2) by (intro ready_frame [OF 1(4) f3]) auto
  moreover have "find (\<lambda>LL. fst LL = p) (LoopLabels s) = None"
    using 1(4) by (force simp: ready_def find_None_iff)
  ultimately have r3: "ready T R (L(p \<mapsto> d)) K ?s3"
    using 1(5) s1(3,4) by (auto simp: ready_def find_append)
  have c3: "length (BreakContinueStack ?s3) = d" "CurrentCount ?s3 = of_nat (length ra)"
    using s1(3) 1(5) ra(2) by simp_all
  from exactvE [OF v ra(1) l r3 c3] obtain s4 where s4: "v ?s3 = Some s4" "frame T K M ?s3 s4"
    "CurrentCount s4 = of_nat (outs ra Normal)" "BreakContinueStack s4 = bump ra (BreakContinueStack s)"
    using s1(3) by auto
  have "visit_Label p v s = Some s4" using s1(1) s4(1) by (simp add: visit_Label_def Let_def)
  moreover have "frame T (insert p K) (insert p M) s s4"
    by (rule frame_mono [OF frame_trans [OF f3 s4(2)]]) auto
  ultimately show ?case using s4(3,4) ra(3) bump_cong [of "BreakContinueStack s" rs ra] by simp
qed

lemma jumpIndex_ready:
  assumes "ready T R L K s" "jumpDepth L (length (BreakContinueStack s)) t = Some k"
  shows "jumpIndex t s = Some k" "k < length (BreakContinueStack s)"
  using assms by (auto simp: jumpIndex_def ready_def split: option.splits if_splits; cases t; force split: option.splits if_splits)+

lemma jump_outs:
  assumes "set rs \<subseteq> {([Enter p], out)}"
  shows "outs rs o' = (if o' = out then length rs else 0)" "evs rs (Enter p) = length rs"
  using assms by (induction rs) auto

lemma exactv_Break:
  assumes "jumpDepth L d t = Some k"
  shows "exactv T R L d (visit_Break p t) {([Enter p], Brk k)} {p} {} {}"
proof (rule exactvI, goal_cases)
  case (1 rs s)
  note o = jump_outs [OF 1(1)]
  have f0: "frame T {} {} s (RecordStmtCount p s)" using 1(2,6) o by (intro frame_Record) simp
  have r0: "ready T R L {p} (RecordStmtCount p s)" by (rule ready_frame [OF 1(4) f0]) auto
  from jumpIndex_ready [OF r0, of t k] assms 1(5)
  have j: "jumpIndex t (RecordStmtCount p s) = Some k" "k < length (BreakContinueStack s)" by simp_all
  let ?st = "addBreak k (CurrentCount s) (BreakContinueStack s)"
  let ?s = "unreachableNext ((RecordStmtCount p s)\<lparr>BreakContinueStack := ?st\<rparr>)"
  have "?st = bump rs (BreakContinueStack s)"
    using j(2) 1(6) by (auto simp: addBreak_def bump_def o nth_list_update intro!: nth_equalityI)
  moreover have "frame T {p} {} s ?s" by (rule frame_mono [OF frame_idle_right [OF f0]]) simp_all
  ultimately show ?case using j(1) by (simp add: visit_Break_def o)
qed

lemma exactv_Continue:
  assumes "jumpDepth L d t = Some k"
  shows "exactv T R L d (visit_Continue p t) {([Enter p], Cont k)} {p} {} {}"
proof (rule exactvI, goal_cases)
  case (1 rs s)
  note o = jump_outs [OF 1(1)]
  have f0: "frame T {} {} s (RecordStmtCount p s)" using 1(2,6) o by (intro frame_Record) simp
  have r0: "ready T R L {p} (RecordStmtCount p s)" by (rule ready_frame [OF 1(4) f0]) auto
  from jumpIndex_ready [OF r0, of t k] assms 1(5)
  have j: "jumpIndex t (RecordStmtCount p s) = Some k" "k < length (BreakContinueStack s)" by simp_all
  let ?st = "addContinue k (CurrentCount s) (BreakContinueStack s)"
  let ?s = "unreachableNext ((RecordStmtCount p s)\<lparr>BreakContinueStack := ?st\<rparr>)"
  have "?st = bump rs (BreakContinueStack s)"
    using j(2) 1(6) by (auto simp: addContinue_def bump_def o nth_list_update intro!: nth_equalityI)
  moreover have "frame T {p} {} s ?s" by (rule frame_mono [OF frame_idle_right [OF f0]]) simp_all
  ultimately show ?case using j(1) by (simp add: visit_Continue_def o)
qed

end
