(* ===== verification/PGORegions.thy ===== *)
theory PGORegions
  imports PGOLoops
begin

text \<open>
  Exactness of the visitor's methods for unrolled loops, handlers and cleanups: nodes whose
  parts, and whose continuation, each have a counter of their own.
\<close>

section \<open>Sequences of counted regions\<close>

text \<open>
  The visit of a sequence of regions does not depend on the count it starts with. Of the
  stack of jump targets it has exact counts in the outer \<open>d\<close> entries; the innermost entry,
  where there is one more, is dropped by the unrolled loop.
\<close>

definition exactr :: "(event \<Rightarrow> nat) \<Rightarrow> ptr set \<Rightarrow> (ptr \<rightharpoonup> nat) \<Rightarrow> nat \<Rightarrow> nat \<Rightarrow> crc \<Rightarrow> run set
    \<Rightarrow> ptr set \<Rightarrow> ptr set \<Rightarrow> ptr set \<Rightarrow> bool" where
  "exactr T R L d n v A K G M \<longleftrightarrow> (\<forall>rs s. set rs \<subseteq> A \<longrightarrow>
     (\<forall>q\<in>K. T (Enter q) = evs rs (Enter q)) \<longrightarrow> (\<forall>q\<in>G. T (Inc q) = evs rs (Inc q)) \<longrightarrow>
     ready T R L K s \<longrightarrow> length (BreakContinueStack s) = n \<longrightarrow>
     (\<exists>s'. v s = Some s' \<and> frame T K M s s' \<and> length (BreakContinueStack s') = n
        \<and> take d (BreakContinueStack s') = bump rs (take d (BreakContinueStack s))))"

lemma exactrI:
  assumes "\<And>rs s. set rs \<subseteq> A \<Longrightarrow> \<forall>q\<in>K. T (Enter q) = evs rs (Enter q) \<Longrightarrow>
     \<forall>q\<in>G. T (Inc q) = evs rs (Inc q) \<Longrightarrow> ready T R L K s \<Longrightarrow> length (BreakContinueStack s) = n \<Longrightarrow>
     \<exists>s'. v s = Some s' \<and> frame T K M s s' \<and> length (BreakContinueStack s') = n
        \<and> take d (BreakContinueStack s') = bump rs (take d (BreakContinueStack s))"
  shows "exactr T R L d n v A K G M"
  using assms unfolding exactr_def by blast

lemma exactrE:
  assumes "exactr T R L d n v A K G M" "set rs \<subseteq> A" "\<forall>q\<in>K. T (Enter q) = evs rs (Enter q)"
    "\<forall>q\<in>G. T (Inc q) = evs rs (Inc q)" "ready T R L K s" "length (BreakContinueStack s) = n"
  obtains s' where "v s = Some s'" "frame T K M s s'" "length (BreakContinueStack s') = n"
    "take d (BreakContinueStack s') = bump rs (take d (BreakContinueStack s))"
  using assms unfolding exactr_def by blast

lemma take_bump: "take d (bump rs st) = bump rs (take d st)"
  by (auto simp: bump_def take_map min_def intro!: nth_equalityI)

lemma exactr_Nil:
  assumes "A = {} \<or> A = {([], Normal)}"
  shows "exactr T R L d n Some A {} {} {}"
proof (rule exactrI, goal_cases)
  case (1 rs s)
  have "outs rs (Brk i) = 0 \<and> outs rs (Cont i) = 0" for i
    using 1(1) assms by (induction rs) auto
  then show ?case using 1 by (simp add: frame_refl bump_zero)
qed

definition splits :: "nat \<Rightarrow> ptr \<Rightarrow> run set \<Rightarrow> run set \<Rightarrow> run set \<Rightarrow> bool" where
  "splits d p A B AB \<longleftrightarrow> (\<forall>rs. set rs \<subseteq> AB \<longrightarrow> (\<exists>ra rb. set ra \<subseteq> A \<and> set rb \<subseteq> B
     \<and> (\<forall>i<d. outs rs (Brk i) = outs ra (Brk i) + outs rb (Brk i)
          \<and> outs rs (Cont i) = outs ra (Cont i) + outs rb (Cont i))
     \<and> (\<forall>q. evs rs (Enter q) = evs ra (Enter q) + evs rb (Enter q))
     \<and> (\<forall>q. evs rs (Inc q) = evs ra (Inc q) + evs rb (Inc q) + (if q = p then length ra else 0))))"

lemma splits_nextIteration: "splits d p A B (nextIteration d (prefixed [Inc p] A) B)"
  unfolding splits_def
proof (intro allI impI, goal_cases)
  case (1 rs)
  from nextIteration_split [OF 1] obtain r1 rb where r1: "set r1 \<subseteq> prefixed [Inc p] A" "set rb \<subseteq> B"
    "\<And>out. leaves d out \<Longrightarrow> outs rs out = outs r1 out + outs rb out" "\<And>e. evs rs e = evs r1 e + evs rb e"
    by blast
  from prefixed_split [OF r1(1)] obtain ra where ra: "set ra \<subseteq> A" "length ra = length r1"
    "\<And>out. outs r1 out = outs ra out" "\<And>e. evs r1 e = evs ra e + length r1 * count_list [Inc p] e"
    by blast
  show ?case
    by (intro exI [of _ ra] exI [of _ rb]) (simp add: ra r1 leaves_inner)
qed

lemma splits_union: "splits d p A B (prefixed [Inc p] A \<union> B)"
  unfolding splits_def
proof (intro allI impI, goal_cases)
  case (1 rs)
  from union_split [OF 1] obtain r1 rb where r1: "set r1 \<subseteq> prefixed [Inc p] A" "set rb \<subseteq> B"
    "\<And>out. outs rs out = outs r1 out + outs rb out" "\<And>e. evs rs e = evs r1 e + evs rb e"
    by blast
  from prefixed_split [OF r1(1)] obtain ra where ra: "set ra \<subseteq> A" "length ra = length r1"
    "\<And>out. outs r1 out = outs ra out" "\<And>e. evs r1 e = evs ra e + length r1 * count_list [Inc p] e"
    by blast
  show ?case by (intro exI [of _ ra] exI [of _ rb]) (simp add: ra r1)
qed

lemma exactr_Cons:
  assumes v: "exactv T R L n v A K G M" "exactr T R L d n w B K' G' M'" and d: "d \<le> n"
    and sp: "splits d p A B AB" and wi: "within K G A" "within K' G' B"
    and dis: "K \<inter> K' = {}" "p \<notin> G \<union> G'" "G \<inter> G' = {}" and p: "p \<in> R"
  shows "exactr T R L d n (\<lambda>s. do { s1 \<leftarrow> visitRegion p v s; w s1 }) AB (K \<union> K') (insert p (G \<union> G')) (M \<union> M')"
proof (rule exactrI, goal_cases)
  case (1 rs s)
  from sp 1(1) obtain ra rb where r: "set ra \<subseteq> A" "set rb \<subseteq> B"
    and o: "\<And>i. i < d \<Longrightarrow> outs rs (Brk i) = outs ra (Brk i) + outs rb (Brk i)
          \<and> outs rs (Cont i) = outs ra (Cont i) + outs rb (Cont i)"
    and e: "\<And>q. evs rs (Enter q) = evs ra (Enter q) + evs rb (Enter q)"
      "\<And>q. evs rs (Inc q) = evs ra (Inc q) + evs rb (Inc q) + (if q = p then length ra else 0)"
    unfolding splits_def by blast
  note za = evs_outside [OF wi(1) r(1)] and zb = evs_outside [OF wi(2) r(2)]
  have la: "\<forall>q\<in>K. T (Enter q) = evs ra (Enter q)" "\<forall>q\<in>G. T (Inc q) = evs ra (Inc q)"
    using 1(2,3) dis zb by (auto simp: e disjoint_both)
  have lb: "\<forall>q\<in>K'. T (Enter q) = evs rb (Enter q)" "\<forall>q\<in>G'. T (Inc q) = evs rb (Inc q)"
    using 1(2,3) dis za by (auto simp: e disjoint_both)
  have tp: "T (Inc p) = length ra" using 1(3) dis za zb by (simp add: e)
  from regionCount_frame [OF 1(4) p] obtain s1 where
    s1: "regionCount p s = Some (of_nat (length ra), s1)" "frame T {} {} s s1"
      "BreakContinueStack s1 = BreakContinueStack s"
    using tp by auto
  let ?s1 = "setRecord True (setCount (of_nat (length ra)) s1)"
  have f1: "frame T {} {} s ?s1" by (rule frame_idle_right [OF s1(2)]) simp_all
  have r1: "ready T R L K ?s1" by (rule ready_frame [OF 1(4) f1]) auto
  have d1: "length (BreakContinueStack ?s1) = n" "CurrentCount ?s1 = of_nat (length ra)"
    using s1(3) 1(5) by simp_all
  from exactvE [OF v(1) r(1) la r1 d1] obtain s2 where s2: "v ?s1 = Some s2" "frame T K M ?s1 s2"
    "BreakContinueStack s2 = bump ra (BreakContinueStack s)" using s1(3) by auto
  note f2 = frame_trans_idle [OF f1 s2(2)]
  have r2: "ready T R L K' s2" using dis by (intro ready_frame [OF 1(4) f2]) auto
  have d2: "length (BreakContinueStack s2) = n" using s2(3) 1(5) by simp
  from exactrE [OF v(2) r(2) lb r2 d2] obtain s3 where s3: "w s2 = Some s3" "frame T K' M' s2 s3"
    "length (BreakContinueStack s3) = n" "take d (BreakContinueStack s3) = bump rb (take d (BreakContinueStack s2))" .
  have "take d (BreakContinueStack s3) = bump rs (take d (BreakContinueStack s))"
    using s3(4) s2(3) o bump_add [of "take d (BreakContinueStack s)" rs ra rb] by (simp add: take_bump)
  with s1(1) s2(1) s3 frame_trans [OF f2 s3(2)] show ?case by (simp add: visitRegion_def)
qed

section \<open>The continuation counter\<close>

text \<open>The last step of the three methods: the count after the node is the node's own counter.\<close>

lemma continuation_exact:
  assumes "ready T R L K s" "p \<in> R" "T (Inc p) = n"
  obtains s' where "regionCount p s = Some (of_nat n, s')" "frame T {} {} s (finish (of_nat n) s')"
    "BreakContinueStack s' = BreakContinueStack s"
proof -
  from regionCount_frame [OF assms(1,2)] obtain s' where s': "regionCount p s = Some (of_nat n, s')"
    "frame T {} {} s s'" "BreakContinueStack s' = BreakContinueStack s" using assms(3) by auto
  have "frame T {} {} s (finish (of_nat n) s')" by (rule frame_idle_right [OF s'(2)]) simp_all
  with that [OF s'(1)] s'(3) show ?thesis by blast
qed

lemma exactv_Unrolled:
  assumes v: "exactr T R L d (Suc d) v A K G M" and wi: "within K G A"
    and p: "p \<in> R" "p \<notin> K" "p \<notin> G"
  shows "exactv T R L d (visit_Unrolled p v) (prefixed [Enter p] (afterUnrolled p d A)) (insert p K) (insert p G) M"
proof (rule exactvI, goal_cases)
  case (1 rs s)
  from prefixed_split [OF 1(1)] obtain r1 where r1: "set r1 \<subseteq> afterUnrolled p d A" "length r1 = length rs"
    "\<And>out. outs rs out = outs r1 out" "\<And>e. evs rs e = evs r1 e + length rs * count_list [Enter p] e" by blast
  from afterUnrolled_split [OF r1(1)] obtain ra where ra: "set ra \<subseteq> A"
    "\<And>out. leaves d out \<Longrightarrow> outs r1 out = outs ra out"
    "\<And>e. evs r1 e = evs ra e + (if e = Inc p then outs r1 Normal else 0)" by blast
  note z = evs_outside [OF wi ra(1)]
  have tp: "T (Enter p) = length rs" "T (Inc p) = outs rs Normal" using 1(2,3) z p by (simp_all add: ra r1)
  have l: "\<forall>q\<in>K. T (Enter q) = evs ra (Enter q)" "\<forall>q\<in>G. T (Inc q) = evs ra (Inc q)"
    using 1(2,3) p by (auto simp: ra r1)
  have f0: "frame T {} {} s (RecordStmtCount p s)" using 1(6) tp by (intro frame_Record) simp
  then have f1: "frame T {} {} s (pushBC (RecordStmtCount p s))" by (rule frame_idle_right) simp_all
  have rd1: "ready T R L K (pushBC (RecordStmtCount p s))" by (rule ready_frame [OF 1(4) f1]) auto
  have d1: "length (BreakContinueStack (pushBC (RecordStmtCount p s))) = Suc d" using 1(5) by simp
  from exactrE [OF v ra(1) l rd1 d1] obtain s2 where s2: "v (pushBC (RecordStmtCount p s)) = Some s2"
    "frame T K M (pushBC (RecordStmtCount p s)) s2" "length (BreakContinueStack s2) = Suc d"
    "take d (BreakContinueStack s2) = bump ra (BreakContinueStack s)" using 1(5) by auto
  let ?s3 = "s2\<lparr>BreakContinueStack := butlast (BreakContinueStack s2)\<rparr>"
  have s3: "popBC s2 = Some (last (BreakContinueStack s2), ?s3)" using s2(3) by (auto simp: popBC_def)
  have f3: "frame T K M s ?s3" by (rule frame_idle_right [OF frame_trans_idle [OF f1 s2(2)]]) simp_all
  have r3: "ready T R L {} ?s3" by (rule ready_frame [OF 1(4) f3]) auto
  from continuation_exact [OF r3 p(1) tp(2)] obtain s4 where
    s4: "regionCount p ?s3 = Some (of_nat (outs rs Normal), s4)"
      "frame T {} {} ?s3 (finish (of_nat (outs rs Normal)) s4)" "BreakContinueStack s4 = BreakContinueStack ?s3" .
  have "visit_Unrolled p v s = Some (finish (of_nat (outs rs Normal)) s4)"
    using s2(1) s3 s4(1) by (simp add: visit_Unrolled_def)
  moreover have "frame T (insert p K) M s (finish (of_nat (outs rs Normal)) s4)"
    by (rule frame_mono [OF frame_trans [OF f3 s4(2)]]) auto
  moreover have "bump ra (BreakContinueStack s) = bump rs (BreakContinueStack s)"
    using 1(5) leaves_inner by (intro bump_cong) (simp add: ra r1)
  ultimately show ?case using s4(3) s2(3,4) by (simp add: butlast_conv_take)
qed

lemma exactv_TryCatch:
  assumes v: "exactv T R L d v A K G M" "exactr T R L d d w H K' G' M'"
    and wi: "within K G A" "within K' G' H"
    and dis: "p \<notin> K \<union> K'" "K \<inter> K' = {}" and disG: "p \<notin> G \<union> G'" "G \<inter> G' = {}" and p: "p \<in> R"
  shows "exactv T R L d (visit_TryCatch_CRC p v w) (prefixed [Enter p] (catching p A H))
     (insert p (K \<union> K')) (insert p (G \<union> G')) (M \<union> M')"
proof (rule exactvI, goal_cases)
  case (1 rs s)
  from prefixed_split [OF 1(1)] obtain r1 where r1: "set r1 \<subseteq> catching p A H" "length r1 = length rs"
    "\<And>out. outs rs out = outs r1 out" "\<And>e. evs rs e = evs r1 e + length rs * count_list [Enter p] e" by blast
  from catching_split [OF r1(1)] obtain ra rh where r: "set ra \<subseteq> A" "set rh \<subseteq> H"
    and len: "length ra = length r1"
    and o: "\<And>out. out \<noteq> Normal \<and> out \<noteq> Thr \<Longrightarrow> outs r1 out = outs ra out + outs rh out"
    and e: "\<And>e. evs r1 e = evs ra e + evs rh e + (if e = Inc p then outs r1 Normal else 0)" by blast
  have e': "evs rs (Enter q) = evs ra (Enter q) + evs rh (Enter q) + (if q = p then length rs else 0)"
    "evs rs (Inc q) = evs ra (Inc q) + evs rh (Inc q) + (if q = p then outs rs Normal else 0)" for q
    by (simp_all add: r1 e)
  note l = shares2 [where T = T, OF r wi e' dis disG 1(2,3)]
  let ?s0 = "setRecord True (RecordStmtCount p s)"
  have "frame T {} {} s (RecordStmtCount p s)" using 1(6) l(5) by (intro frame_Record) simp
  then have f0: "frame T {} {} s ?s0" by (rule frame_idle_right) simp_all
  have r0: "ready T R L K ?s0" by (rule ready_frame [OF 1(4) f0]) auto
  have d0: "length (BreakContinueStack ?s0) = d" "CurrentCount ?s0 = of_nat (length ra)"
    using 1(5,6) len r1(2) by simp_all
  from exactvE [OF v(1) r(1) l(1,2) r0 d0] obtain s1 where s1: "v ?s0 = Some s1" "frame T K M ?s0 s1"
    "BreakContinueStack s1 = bump ra (BreakContinueStack s)" by auto
  note f1 = frame_trans_idle [OF f0 s1(2)]
  have rd1: "ready T R L K' s1" using dis by (intro ready_frame [OF 1(4) f1]) auto
  have d1: "length (BreakContinueStack s1) = d" using s1(3) 1(5) by simp
  from exactrE [OF v(2) r(2) l(3,4) rd1 d1] obtain s2 where s2: "w s1 = Some s2" "frame T K' M' s1 s2"
    "BreakContinueStack s2 = bump rh (BreakContinueStack s1)" using d1 by auto
  note f2 = frame_trans [OF f1 s2(2)]
  have r2: "ready T R L {} s2" by (rule ready_frame [OF 1(4) f2]) auto
  from continuation_exact [OF r2 p l(6)] obtain s3 where
    s3: "regionCount p s2 = Some (of_nat (outs rs Normal), s3)"
      "frame T {} {} s2 (finish (of_nat (outs rs Normal)) s3)" "BreakContinueStack s3 = BreakContinueStack s2" .
  have "visit_TryCatch_CRC p v w s = Some (finish (of_nat (outs rs Normal)) s3)"
    using s1(1) s2(1) s3(1) by (simp add: visit_TryCatch_CRC_def)
  moreover have "frame T (insert p (K \<union> K')) (M \<union> M') s (finish (of_nat (outs rs Normal)) s3)"
    by (rule frame_mono [OF frame_trans [OF f2 s3(2)]]) auto
  ultimately show ?case using s3(3) s2(3) s1(3) o by (simp add: bump_add r1)
qed

lemma exactv_TryFinally:
  assumes v: "exactv T R L d v A K G M" "exactv T R L d w F K' G' M'" and n: "only_normal F"
    and wi: "within K G A" "within K' G' F"
    and dis: "p \<notin> K \<union> K'" "K \<inter> K' = {}" and disG: "p \<notin> G \<union> G'" "G \<inter> G' = {}" and p: "p \<in> R"
  shows "exactv T R L d (visit_TryFinally_CRC p v w) (prefixed [Enter p] (finallyRuns p A F))
     (insert p (K \<union> K')) (insert p (G \<union> G')) (M \<union> M')"
proof (rule exactvI, goal_cases)
  case (1 rs s)
  from prefixed_split [OF 1(1)] obtain r1 where r1: "set r1 \<subseteq> finallyRuns p A F" "length r1 = length rs"
    "\<And>out. outs rs out = outs r1 out" "\<And>e. evs rs e = evs r1 e + length rs * count_list [Enter p] e" by blast
  from finally_split [OF n r1(1)] obtain ra rf where r: "set ra \<subseteq> A" "set rf \<subseteq> F"
    and len: "length ra = length r1" "length rf = length r1" and o: "\<And>out. outs r1 out = outs ra out"
    and e: "\<And>e. evs r1 e = evs ra e + evs rf e + (if e = Inc p then outs r1 Normal else 0)" by blast
  have e': "evs rs (Enter q) = evs ra (Enter q) + evs rf (Enter q) + (if q = p then length rs else 0)"
    "evs rs (Inc q) = evs ra (Inc q) + evs rf (Inc q) + (if q = p then outs rs Normal else 0)" for q
    by (simp_all add: r1 e)
  note l = shares2 [where T = T, OF r wi e' dis disG 1(2,3)] and nf = outs_only_normal [OF n r(2)]
  let ?s0 = "setRecord True (RecordStmtCount p s)"
  have "frame T {} {} s (RecordStmtCount p s)" using 1(6) l(5) by (intro frame_Record) simp
  then have f0: "frame T {} {} s ?s0" by (rule frame_idle_right) simp_all
  have r0: "ready T R L K ?s0" by (rule ready_frame [OF 1(4) f0]) auto
  have d0: "length (BreakContinueStack ?s0) = d" "CurrentCount ?s0 = of_nat (length ra)"
    using 1(5,6) len r1(2) by simp_all
  from exactvE [OF v(1) r(1) l(1,2) r0 d0] obtain s1 where s1: "v ?s0 = Some s1" "frame T K M ?s0 s1"
    "BreakContinueStack s1 = bump ra (BreakContinueStack s)" by auto
  let ?s1 = "setRecord True (setCount (CurrentCount s) s1)"
  have f1: "frame T K M s ?s1" by (rule frame_idle_right [OF frame_trans_idle [OF f0 s1(2)]]) simp_all
  have rd1: "ready T R L K' ?s1" using dis by (intro ready_frame [OF 1(4) f1]) auto
  have d1: "length (BreakContinueStack ?s1) = d" "CurrentCount ?s1 = of_nat (length rf)"
    using s1(3) 1(5,6) len r1(2) by simp_all
  from exactvE [OF v(2) r(2) l(3,4) rd1 d1] obtain s2 where s2: "w ?s1 = Some s2" "frame T K' M' ?s1 s2"
    "BreakContinueStack s2 = BreakContinueStack s1" using nf by (auto simp: bump_zero)
  note f2 = frame_trans [OF f1 s2(2)]
  have r2: "ready T R L {} s2" by (rule ready_frame [OF 1(4) f2]) auto
  from continuation_exact [OF r2 p l(6)] obtain s3 where
    s3: "regionCount p s2 = Some (of_nat (outs rs Normal), s3)"
      "frame T {} {} s2 (finish (of_nat (outs rs Normal)) s3)" "BreakContinueStack s3 = BreakContinueStack s2" .
  have "visit_TryFinally_CRC p v w s = Some (finish (of_nat (outs rs Normal)) s3)"
    using s1(1) s2(1) s3(1) by (simp add: visit_TryFinally_CRC_def Let_def)
  moreover have "frame T (insert p (K \<union> K')) (M \<union> M') s (finish (of_nat (outs rs Normal)) s3)"
    by (rule frame_mono [OF frame_trans [OF f2 s3(2)]]) auto
  moreover have "bump ra (BreakContinueStack s) = bump rs (BreakContinueStack s)"
    by (intro bump_cong) (simp add: r1 o)
  ultimately show ?case using s3(3) s2(3) s1(3) by simp
qed

end
