(* ===== verification/PGOCorrect.thy ===== *)
theory PGOCorrect
  imports PGORegions
begin

text \<open>
  The end-to-end result for the structured part of the language: the counters numbered by
  \<open>mapRegionCounters\<close>, filled with the increments of any collection of runs of a function
  and handed to \<open>computeRegionCounts\<close>, give every node its true execution count.
\<close>

section \<open>The structured part\<close>

text \<open>The outcomes that a node can have.\<close>

fun exits :: "(ptr \<rightharpoonup> nat) \<Rightarrow> nat \<Rightarrow> ptr ast \<Rightarrow> outcome set" where
  "exits L d Null = {Normal}"
| "exits L d (Leaf k p) = {Normal}"
| "exits L d (Seq k p xs) = {Normal} \<union> \<Union> (set (map (exits L d) xs))"
| "exits L d (Members k p xs) = {Normal}"
| "exits L d (StructLiteralExp p fl xs) = {Normal} \<union> \<Union> (set (map (exits L d) xs))"
| "exits L d (ReturnStatement p e) = {Ret} \<union> (exits L d e - {Normal})"
| "exits L d (ThrowStatement p e) = {Thr} \<union> (exits L d e - {Normal})"
| "exits L d (PragmaStatement p b) = {Normal}"
| "exits L d (BreakStatement p t) = (case jumpDepth L d t of None \<Rightarrow> {} | Some k \<Rightarrow> {Brk k})"
| "exits L d (ContinueStatement p t) = (case jumpDepth L d t of None \<Rightarrow> {} | Some k \<Rightarrow> {Cont k})"
| "exits L d (LabelStatement p x) = exits (L(p \<mapsto> d)) d x"
| "exits L d (IfStatement p c t e) = (exits L d c - {Normal}) \<union> exits L d t \<union> exits L d e"
| "exits L d (WhileStatement p c b) = {Normal} \<union> Set.filter (leaves d) (exits L (Suc d) b)"
| "exits L d (DoStatement p b c) = {Normal} \<union> Set.filter (leaves d) (exits L (Suc d) b)"
| "exits L d (ForStatement p i c b inc) =
     {Normal} \<union> exits L d i \<union> Set.filter (leaves d) (exits L (Suc d) b)"
| "exits L d (ForeachStatement p a b) = {Normal} \<union> exits L d a \<union> Set.filter (leaves d) (exits L (Suc d) b)"
| "exits L d (ForeachRangeStatement p l u b) =
     {Normal} \<union> exits L d l \<union> exits L d u \<union> Set.filter (leaves d) (exits L (Suc d) b)"
| "exits L d (UnrolledLoopStatement p xs) =
     {Normal} \<union> Set.filter (leaves d) (\<Union> (set (map (exits L (Suc d)) xs)))"
| "exits L d (TryCatchStatement p b cs) = exits L d b \<union> \<Union> (set (map (exits L d) cs))"
| "exits L d (TryFinallyStatement p b f) = exits L d b \<union> (exits L d f - {Normal})"
| "exits L d (CondExp p c a b) = (exits L d c - {Normal}) \<union> exits L d a \<union> exits L d b"
| "exits L d (LogicalExp p op a b) = {Normal} \<union> exits L d a \<union> exits L d b"
| "exits L d (Catch p h) = exits L d h"
| "exits L d _ = {}"

definition quiet :: "(ptr \<rightharpoonup> nat) \<Rightarrow> nat \<Rightarrow> ptr ast \<Rightarrow> bool" where
  "quiet L d a \<longleftrightarrow> exits L d a \<subseteq> {Normal}"

fun structured :: "(ptr \<rightharpoonup> nat) \<Rightarrow> nat \<Rightarrow> ptr ast \<Rightarrow> bool" where
  "structured L d Null = True"
| "structured L d (Leaf k p) =
     (k \<noteq> GotoStatement \<and> k \<noteq> GotoDefaultStatement \<and> k \<noteq> GotoCaseStatement)"
| "structured L d (Seq k p xs) =
     (list_all (\<lambda>b. b) (map (structured L d) xs)
      \<and> (k = AssertE \<or> k = VarD \<longrightarrow> list_all (\<lambda>x. x = Null) (tl xs)))"
| "structured L d (Members k p xs) = (xs = [])"
| "structured L d (StructLiteralExp p fl xs) =
     (\<not> StructLiteral_visited fl \<and> list_all (\<lambda>b. b) (map (structured L d) xs))"
| "structured L d (ReturnStatement p e) = (structured L d e \<and> quiet L d e)"
| "structured L d (ThrowStatement p e) = (structured L d e \<and> quiet L d e)"
| "structured L d (PragmaStatement p b) = (b = Null)"
| "structured L d (BreakStatement p t) = (jumpDepth L d t \<noteq> None)"
| "structured L d (ContinueStatement p t) = (jumpDepth L d t \<noteq> None)"
| "structured L d (LabelStatement p x) = structured (L(p \<mapsto> d)) d x"
| "structured L d (IfStatement p c t e) =
     (structured L d c \<and> quiet L d c \<and> structured L d t \<and> structured L d e)"
| "structured L d (WhileStatement p c b) =
     (c \<noteq> Null \<and> structured L d c \<and> quiet L d c \<and> structured L (Suc d) b)"
| "structured L d (DoStatement p b c) = (structured L d c \<and> quiet L d c \<and> structured L (Suc d) b)"
| "structured L d (ForStatement p i c b inc) =
     (structured L d i \<and> quiet L d i \<and> structured L d c \<and> quiet L d c
      \<and> structured L (Suc d) b \<and> structured L d inc \<and> quiet L d inc)"
| "structured L d (ForeachStatement p a b) =
     (structured L d a \<and> quiet L d a \<and> structured L (Suc d) b)"
| "structured L d (ForeachRangeStatement p l u b) =
     (structured L d l \<and> quiet L d l \<and> structured L d u \<and> quiet L d u \<and> structured L (Suc d) b)"
| "structured L d (UnrolledLoopStatement p xs) =
     (xs \<noteq> [] \<and> list_all (\<lambda>x. x \<noteq> Null) xs \<and> list_all (\<lambda>b. b) (map (structured L (Suc d)) xs))"
| "structured L d (TryCatchStatement p b cs) =
     (structured L d b \<and> list_all is_Catch cs \<and> list_all (\<lambda>b. b) (map (structured L d) cs))"
| "structured L d (TryFinallyStatement p b f) =
     (b \<noteq> Null \<and> f \<noteq> Null \<and> structured L d b \<and> structured L d f \<and> quiet L d f)"
| "structured L d (CondExp p c a b) =
     (a \<noteq> Null \<and> b \<noteq> Null \<and> structured L d c \<and> quiet L d c \<and> structured L d a \<and> structured L d b)"
| "structured L d (LogicalExp p op a b) =
     (structured L d a \<and> quiet L d a \<and> structured L d b \<and> quiet L d b)"
| "structured L d (Catch p h) = structured L d h"
| "structured L d _ = False"

text \<open>The addresses under which a node can be recorded.\<close>

fun own_keys :: "ptr ast \<Rightarrow> ptr list" where
  "own_keys Null = []"
| "own_keys (ForStatement p i c b inc) = [p, getCounterPtr p 1]"
| "own_keys (ForeachStatement p a b) = [p, getCounterPtr p 1]"
| "own_keys (ForeachRangeStatement p l u b) = [p, getCounterPtr p 1]"
| "own_keys a = [addr a]"

function keys :: "ptr ast \<Rightarrow> ptr list" where
  "keys a = own_keys a @ concat (map keys (children a))"
  by pat_completeness auto
termination
  by (relation "measure size") (auto simp: size_children)

declare keys.simps [simp del]

lemma keys_Null [simp]: "keys Null = []"
  by (simp add: keys.simps)

text \<open>The region counters of a node and everything below it.\<close>

definition gkeys :: "ptr ast \<Rightarrow> ptr list" where
  "gkeys a = map fst (fn_regions a)"

lemma concat_concat_map: "concat (concat xss) = concat (map concat xss)"
  by (induction xss) simp_all

lemma gkeys_order: "gkeys a = concat (map node_keys (visit_order is_Func a))"
  by (simp add: gkeys_def fn_regions_def map_concat comp_def node_regions_keys)

lemma gkeys_node:
  assumes "\<not> skipped True a" "\<not> is_Func a"
  shows "gkeys a = node_keys a @ concat (map gkeys (children a))"
proof -
  have "is_Catch a \<Longrightarrow> node_keys a = []" by (cases a) simp_all
  with assms show ?thesis
    by (simp add: gkeys_order [abs_def] visit_order.simps [of is_Func a] map_concat comp_def
        concat_concat_map)
qed

lemma gkeys_Null [simp]: "gkeys Null = []"
  by (simp add: gkeys_def fn_regions_def visit_order.simps)

text \<open>The nodes whose count is certainly recorded: those that get a count of their own.\<close>

definition opt :: "ptr \<Rightarrow> ptr set" where
  "opt q = (if q = nullptr then {} else {q})"

fun recorded :: "ptr ast \<Rightarrow> ptr set" where
  "recorded (Seq k p xs) = \<Union> (set (map recorded xs))"
| "recorded (StructLiteralExp p fl xs) = \<Union> (set (map recorded xs))"
| "recorded (ReturnStatement p e) = recorded e"
| "recorded (ThrowStatement p e) = recorded e"
| "recorded (LabelStatement p x) = {p} \<union> recorded x"
| "recorded (IfStatement p c t e) = opt (addr t) \<union> opt (addr e) \<union> recorded c \<union> recorded t \<union> recorded e"
| "recorded (WhileStatement p c b) = opt (addr c) \<union> opt (addr b) \<union> recorded c \<union> recorded b"
| "recorded (DoStatement p b c) = opt (addr c) \<union> opt (addr b) \<union> recorded c \<union> recorded b"
| "recorded (ForStatement p i c b inc) =
     {if c = Null then getCounterPtr p 1 else addr c} \<union> opt (addr b) \<union> opt (addr inc)
     \<union> recorded i \<union> recorded c \<union> recorded b \<union> recorded inc"
| "recorded (ForeachStatement p a b) = {getCounterPtr p 1} \<union> opt (addr b) \<union> recorded a \<union> recorded b"
| "recorded (ForeachRangeStatement p l u b) =
     {getCounterPtr p 1} \<union> opt (addr b) \<union> recorded l \<union> recorded u \<union> recorded b"
| "recorded (UnrolledLoopStatement p xs) = \<Union> (set (map recorded xs))"
| "recorded (TryCatchStatement p b cs) = recorded b \<union> \<Union> (set (map recorded cs))"
| "recorded (TryFinallyStatement p b f) = recorded b \<union> recorded f"
| "recorded (CondExp p c a b) = opt (addr a) \<union> opt (addr b) \<union> recorded c \<union> recorded a \<union> recorded b"
| "recorded (LogicalExp p op a b) = opt (addr b) \<union> recorded a \<union> recorded b"
| "recorded (Catch p h) = recorded h"
| "recorded _ = {}"

section \<open>Outcomes\<close>

definition outcomes :: "run set \<Rightarrow> outcome set" where
  "outcomes A = snd ` A"

lemma outcomesI: "(\<And>t out. (t, out) \<in> A \<Longrightarrow> out \<in> X) \<Longrightarrow> outcomes A \<subseteq> X"
  by (force simp: outcomes_def)

lemma outcomes_prefixed [simp]: "outcomes (prefixed es A) = outcomes A"
  by (force simp: outcomes_def prefixed_def)

lemma outcomes_Un [simp]: "outcomes (A \<union> B) = outcomes A \<union> outcomes B"
  by (auto simp: outcomes_def)

lemma outcomes_insert [simp]: "outcomes (insert (t, out) A) = insert out (outcomes A)" "outcomes {} = {}"
  by (auto simp: outcomes_def)

lemma outcomes_andThen: "outcomes (andThen A B) \<subseteq> (outcomes A - {Normal}) \<union> outcomes B"
  by (force simp: outcomes_def andThen_def)

lemma outcomes_loopRuns: "outcomes (loopRuns p d C B J) \<subseteq> {Normal} \<union> Set.filter (leaves d) (outcomes B)"
proof -
  have "(t, out) \<in> loopRuns p d C B J \<Longrightarrow> out \<in> {Normal} \<union> Set.filter (leaves d) (outcomes B)" for t out
    by (induction rule: loopRuns.induct) (force simp: outcomes_def)+
  then show ?thesis by (rule outcomesI)
qed

lemma outcomes_doRuns: "outcomes (doRuns p d C B) \<subseteq> {Normal} \<union> Set.filter (leaves d) (outcomes B)"
proof -
  have "(t, out) \<in> doRuns p d C B \<Longrightarrow> out \<in> {Normal} \<union> Set.filter (leaves d) (outcomes B)" for t out
    by (induction rule: doRuns.induct) (force simp: outcomes_def)+
  then show ?thesis by (rule outcomesI)
qed

lemma outcomes_afterUnrolled: "outcomes (afterUnrolled p d A) \<subseteq> {Normal} \<union> Set.filter (leaves d) (outcomes A)"
  by (force simp: outcomes_def afterUnrolled_def)

lemma outcomes_catching: "outcomes (catching p A H) \<subseteq> outcomes A \<union> outcomes H"
  by (force simp: outcomes_def catching_def Let_def)

lemma outcomes_finallyRuns: "outcomes (finallyRuns p A F) \<subseteq> outcomes A \<union> (outcomes F - {Normal})"
  by (force simp: outcomes_def finallyRuns_def)

lemma outcomes_execs:
  assumes "\<And>x. x \<in> set xs \<Longrightarrow> outcomes (exec L d x) \<subseteq> exits L d x"
  shows "outcomes (execs L d xs) \<subseteq> {Normal} \<union> \<Union> (set (map (exits L d) xs))"
  using assms
proof (induction xs)
  case (Cons x xs)
  then show ?case using outcomes_andThen [of "exec L d x" "execs L d xs"] by fastforce
qed simp

lemma outcomes_iterations:
  assumes "\<And>x. x \<in> set xs \<Longrightarrow> outcomes (exec L (Suc d) x) \<subseteq> exits L (Suc d) x"
  shows "outcomes (execIterations L d xs) \<subseteq> {Normal} \<union> \<Union> (set (map (exits L (Suc d)) xs))"
  using assms
proof (induction xs)
  case (Cons x xs)
  have "outcomes (nextIteration d A B) \<subseteq> outcomes A \<union> outcomes B" for A B
    by (force simp: outcomes_def nextIteration_def)
  from this [of "prefixed [Inc (addr x)] (exec L (Suc d) x)" "execIterations L d xs"] Cons
  show ?case by fastforce
qed simp

lemma outcomes_handlers:
  assumes "\<And>x. x \<in> set xs \<Longrightarrow> outcomes (exec L d x) \<subseteq> exits L d x"
  shows "outcomes (execHandlers L d xs) \<subseteq> \<Union> (set (map (exits L d) xs))"
  using assms by (induction xs) (fastforce simp del: map_map)+

lemmas outcomes_compound = outcomes_andThen outcomes_loopRuns outcomes_doRuns outcomes_afterUnrolled
  outcomes_catching outcomes_finallyRuns

lemma outcomes_exec: "outcomes (exec L d a) \<subseteq> exits L d a"
proof (induction a arbitrary: L d rule: ast_children_induct)
  case (node a)
  show ?case
  proof (cases a)
    case (Seq k p xs)
    with node outcomes_execs [of xs L d] show ?thesis by simp
  next
    case (StructLiteralExp p fl xs)
    with node outcomes_execs [of xs L d] show ?thesis by simp
  next
    case (ReturnStatement p e)
    with node [of e] outcomes_andThen [of "exec L d e" "{([], Ret)}"] show ?thesis by fastforce
  next
    case (ThrowStatement p e)
    with node [of e] outcomes_andThen [of "exec L d e" "{([], Thr)}"] show ?thesis by fastforce
  next
    case (BreakStatement p t)
    then show ?thesis by (auto simp: outcomes_def)
  next
    case (ContinueStatement p t)
    then show ?thesis by (auto simp: outcomes_def)
  next
    case (IfStatement p c t e)
    with node [of c] node [of t] node [of e]
      outcomes_andThen [of "exec L d c" "prefixed [Inc p] (exec L d t) \<union> exec L d e"]
    show ?thesis by fastforce
  next
    case (WhileStatement p c b)
    with node [of b] outcomes_loopRuns [of p d "exec L d c" "exec L (Suc d) b" "{([], Normal)}"]
    show ?thesis by fastforce
  next
    case (DoStatement p b c)
    with node [of b] outcomes_doRuns [of p d "exec L d c" "exec L (Suc d) b"] show ?thesis by fastforce
  next
    case (ForStatement p i c b inc)
    let ?L = "loopRuns p d (if c = Null then {([Enter (getCounterPtr p 1)], Normal)} else exec L d c)
       (exec L (Suc d) b) (exec L d inc)"
    from ForStatement node [of b] have "outcomes ?L \<subseteq> {Normal} \<union> Set.filter (leaves d) (exits L (Suc d) b)"
      by (intro subset_trans [OF outcomes_loopRuns]) fastforce
    with ForStatement node [of i] outcomes_andThen [of "exec L d i" ?L] show ?thesis by fastforce
  next
    case (ForeachStatement p a' b)
    let ?L = "loopRuns p d {([Enter (getCounterPtr p 1)], Normal)} (exec L (Suc d) b) {([], Normal)}"
    from ForeachStatement node [of b] have "outcomes ?L \<subseteq> {Normal} \<union> Set.filter (leaves d) (exits L (Suc d) b)"
      by (intro subset_trans [OF outcomes_loopRuns]) fastforce
    with ForeachStatement node [of a'] outcomes_andThen [of "exec L d a'" ?L] show ?thesis by fastforce
  next
    case (ForeachRangeStatement p l u b)
    let ?L = "loopRuns p d {([Enter (getCounterPtr p 1)], Normal)} (exec L (Suc d) b) {([], Normal)}"
    from ForeachRangeStatement node [of b] have "outcomes ?L \<subseteq> {Normal} \<union> Set.filter (leaves d) (exits L (Suc d) b)"
      by (intro subset_trans [OF outcomes_loopRuns]) fastforce
    with ForeachRangeStatement node [of l] node [of u] outcomes_andThen [of "exec L d u" ?L]
      outcomes_andThen [of "exec L d l" "andThen (exec L d u) ?L"] show ?thesis by fastforce
  next
    case (UnrolledLoopStatement p xs)
    have "outcomes (execIterations L d xs) \<subseteq> {Normal} \<union> \<Union> (set (map (exits L (Suc d)) xs))"
      using UnrolledLoopStatement node by (intro outcomes_iterations) simp
    with UnrolledLoopStatement outcomes_afterUnrolled [of p d "execIterations L d xs"]
    show ?thesis by fastforce
  next
    case (TryCatchStatement p b cs)
    have "outcomes (execHandlers L d cs) \<subseteq> \<Union> (set (map (exits L d) cs))"
      using TryCatchStatement node by (intro outcomes_handlers) simp
    with TryCatchStatement node [of b] outcomes_catching [of p "exec L d b" "execHandlers L d cs"]
    show ?thesis by fastforce
  next
    case (TryFinallyStatement p b f)
    with node [of b] node [of f] outcomes_finallyRuns [of p "exec L d b" "exec L d f"] show ?thesis by fastforce
  next
    case (CondExp p c t e)
    with node [of c] node [of t] node [of e]
      outcomes_andThen [of "exec L d c" "prefixed [Inc p] (exec L d t) \<union> exec L d e"]
    show ?thesis by fastforce
  next
    case (LogicalExp p op x y)
    with node [of x] node [of y]
      outcomes_andThen [of "exec L d x" "prefixed [Inc p] (exec L d y) \<union> {([], Normal)}"]
    show ?thesis by fastforce
  qed (use node in simp_all)
qed

lemma quiet_only_normal: "quiet L d a \<Longrightarrow> only_normal (exec L d a)"
  using outcomes_exec [of L d a] by (force simp: quiet_def only_normal_def outcomes_def)

section \<open>Events\<close>

lemma withinD:
  assumes "within K G A"
  shows "(t, out) \<in> A \<Longrightarrow> Enter q \<in> set t \<Longrightarrow> q \<in> K" "(t, out) \<in> A \<Longrightarrow> Inc q \<in> set t \<Longrightarrow> q \<in> G"
  using assms by (auto simp: within_def)

lemma within_mono: "within K G A \<Longrightarrow> K \<subseteq> K' \<Longrightarrow> G \<subseteq> G' \<Longrightarrow> within K' G' A"
  by (force simp: within_def)

lemma within_prefixed:
  "within K G A \<Longrightarrow> (\<forall>q. Enter q \<in> set es \<longrightarrow> q \<in> K) \<Longrightarrow> (\<forall>q. Inc q \<in> set es \<longrightarrow> q \<in> G) \<Longrightarrow>
     within K G (prefixed es A)"
  by (force simp: within_def prefixed_def)

lemma within_Un: "within K G A \<Longrightarrow> within K G B \<Longrightarrow> within K G (A \<union> B)"
  by (auto simp: within_def)

lemma within_single:
  "within K G {(es, out)} \<longleftrightarrow> (\<forall>q. Enter q \<in> set es \<longrightarrow> q \<in> K) \<and> (\<forall>q. Inc q \<in> set es \<longrightarrow> q \<in> G)"
  by (auto simp: within_def)

lemma within_insert: "within K G (insert (es, out) A) \<longleftrightarrow> within K G {(es, out)} \<and> within K G A"
  by (auto simp: within_def)

lemma within_andThen: "within K G A \<Longrightarrow> within K G B \<Longrightarrow> within K G (andThen A B)"
  by (fastforce simp: within_def andThen_def)

lemma within_loopRuns:
  assumes "within K G C" "within K G B" "within K G J" "p \<in> G"
  shows "within K G (loopRuns p d C B J)"
proof -
  have "(t, out) \<in> loopRuns p d C B J \<Longrightarrow> (\<forall>q. Enter q \<in> set t \<longrightarrow> q \<in> K) \<and> (\<forall>q. Inc q \<in> set t \<longrightarrow> q \<in> G)" for t out
    by (induction rule: loopRuns.induct) (use assms in \<open>auto simp: within_def\<close>)
  then show ?thesis by (simp add: within_def)
qed

lemma within_doRuns:
  assumes "within K G C" "within K G B" "p \<in> G"
  shows "within K G (doRuns p d C B)"
proof -
  have "(t, out) \<in> doRuns p d C B \<Longrightarrow> (\<forall>q. Enter q \<in> set t \<longrightarrow> q \<in> K) \<and> (\<forall>q. Inc q \<in> set t \<longrightarrow> q \<in> G)" for t out
    by (induction rule: doRuns.induct) (use assms in \<open>auto simp: within_def\<close>)
  then show ?thesis by (simp add: within_def)
qed

lemma within_afterUnrolled: "within K G A \<Longrightarrow> p \<in> G \<Longrightarrow> within K G (afterUnrolled p d A)"
  by (fastforce simp: within_def afterUnrolled_def)

lemma within_nextIteration: "within K G A \<Longrightarrow> within K G B \<Longrightarrow> within K G (nextIteration d A B)"
  by (fastforce simp: within_def nextIteration_def)

lemma within_catching: "within K G A \<Longrightarrow> within K G H \<Longrightarrow> p \<in> G \<Longrightarrow> within K G (catching p A H)"
  by (fastforce simp: within_def catching_def Let_def)

lemma within_finallyRuns:
  assumes "within K G A" "within K G F" "p \<in> G"
  shows "within K G (finallyRuns p A F)"
  using assms(3)
  unfolding within_def [of K G "finallyRuns p A F"]
  by (auto simp: finallyRuns_def split: if_splits
      dest: withinD [OF assms(1)] withinD [OF assms(2)])

lemmas within_intros = within_prefixed within_Un within_andThen within_loopRuns within_doRuns
  within_afterUnrolled within_nextIteration within_catching within_finallyRuns

lemma within_execs: "(\<And>x. x \<in> set xs \<Longrightarrow> within K G (exec L d x)) \<Longrightarrow> within K G (execs L d xs)"
  by (induction xs) (auto simp: within_single intro: within_andThen)

lemma within_iterations:
  "(\<And>x. x \<in> set xs \<Longrightarrow> within K G (exec L (Suc d) x)) \<Longrightarrow> addr ` set xs \<subseteq> G \<Longrightarrow>
     within K G (execIterations L d xs)"
  by (induction xs) (auto simp: within_single intro!: within_nextIteration within_prefixed)

lemma within_handlers:
  "(\<And>x. x \<in> set xs \<Longrightarrow> within K G (exec L d x)) \<Longrightarrow> addr ` set xs \<subseteq> G \<Longrightarrow>
     within K G (execHandlers L d xs)"
  by (induction xs) (auto simp: within_empty within_mono [OF within_empty] intro!: within_Un within_prefixed)

text \<open>A run of a node enters the node once, first.\<close>

definition starts :: "ptr set \<Rightarrow> ptr set \<Rightarrow> ptr \<Rightarrow> run set \<Rightarrow> bool" where
  "starts K G p A \<longleftrightarrow> (\<exists>X. A = prefixed [Enter p] X \<and> within K G X)"

lemma starts_prefixed: "within K G X \<Longrightarrow> starts K G p (prefixed [Enter p] X)"
  by (auto simp: starts_def)

lemma starts_Label: "within K G X \<Longrightarrow> p \<in> G \<Longrightarrow> starts K G p (prefixed [Enter p, Inc p] X)"
  unfolding starts_def
proof (intro exI conjI)
  show "prefixed [Enter p, Inc p] X = prefixed [Enter p] (prefixed [Inc p] X)"
    by (auto simp: prefixed_def image_image case_prod_beta)
qed (simp add: within_prefixed)

lemma starts_single: "starts K G p {([Enter p], out)}"
  unfolding starts_def by (intro exI [of _ "{([], out)}"]) (simp add: prefixed_def within_single)

lemma starts_within: "starts K G p A \<Longrightarrow> within (insert p K) G A"
  by (force simp: starts_def within_def prefixed_def)

lemma starts_entered: "starts K G p A \<Longrightarrow> p \<notin> K \<Longrightarrow> entered p A"
  by (force simp: starts_def entered_def prefixed_def within_def intro: count_list_zero)

lemma own_keys_cons: "a \<noteq> Null \<Longrightarrow> own_keys a = addr a # tl (own_keys a)"
  by (cases a) simp_all

lemma keys_tl: "a \<noteq> Null \<Longrightarrow> keys a = addr a # tl (own_keys a) @ concat (map keys (children a))"
  by (subst keys.simps, subst own_keys_cons) simp_all

lemma keys_cons: "a \<noteq> Null \<Longrightarrow> keys a = addr a # tl (keys a)"
  by (simp add: keys_tl)

lemma keys_own: "set (tl (own_keys a)) \<subseteq> set (tl (keys a))"
  by (cases "a = Null") (simp_all add: keys_tl)

lemma keys_child: "x \<in> set (children a) \<Longrightarrow> set (keys x) \<subseteq> set (tl (keys a))"
  by (cases "a = Null") (auto simp: keys_tl)

lemma structured_visible: "structured L d a \<Longrightarrow> a \<noteq> Null \<Longrightarrow> (\<forall>k p. a \<noteq> Leaf k p) \<Longrightarrow> \<not> skipped True a \<and> \<not> is_Func a"
  by (cases a) simp_all

lemma gkeys_sub:
  assumes "\<not> skipped True a" "\<not> is_Func a"
  shows "set (node_keys a) \<subseteq> set (gkeys a)" "x \<in> set (children a) \<Longrightarrow> set (gkeys x) \<subseteq> set (gkeys a)"
  using assms by (auto simp: gkeys_node)

lemma exec_starts:
  "structured L d a \<Longrightarrow> a \<noteq> Null \<Longrightarrow> starts (set (tl (keys a))) (set (gkeys a)) (addr a) (exec L d a)"
proof (induction a arbitrary: L d rule: ast_children_induct)
  case (node a)
  show ?case
  proof (cases "\<exists>k p. a = Leaf k p")
    case True
    then show ?thesis by (auto simp: starts_single)
  next
    case False
    then have vis: "\<not> skipped True a" "\<not> is_Func a" using structured_visible [OF node.prems] by auto
    note g = gkeys_sub [OF vis]
    have kid: "within (set (tl (keys a))) (set (gkeys a)) (exec L' d' x)"
      if "x \<in> set (children a)" "structured L' d' x" for x L' d'
    proof -
      have "within (set (keys x)) (set (gkeys x)) (exec L' d' x)"
        using starts_within [OF node.IH [OF that]] keys_cons [of x]
        by (cases "x = Null") (simp_all add: within_single, metis list.simps(15))
      then show ?thesis by (rule within_mono) (use that keys_child g(2) in blast)+
    qed
    have own: "\<And>q. q \<in> set (tl (own_keys a)) \<Longrightarrow> q \<in> set (tl (keys a))" "\<And>q. q \<in> set (node_keys a) \<Longrightarrow> q \<in> set (gkeys a)"
      using keys_own g(1) by auto
    show ?thesis
    proof (cases a)
      case (Seq k p xs)
      then have "\<And>x. x \<in> set xs \<Longrightarrow> within (set (tl (keys a))) (set (gkeys a)) (exec L d x)"
        using kid node.prems by (simp add: list_all_iff)
      with Seq own show ?thesis by (simp add: starts_prefixed within_execs)
    next
      case (StructLiteralExp p fl xs)
      then have "\<And>x. x \<in> set xs \<Longrightarrow> within (set (tl (keys a))) (set (gkeys a)) (exec L d x)"
        using kid node.prems by (simp add: list_all_iff)
      with StructLiteralExp own show ?thesis by (simp add: starts_prefixed within_execs)
    next
      case (UnrolledLoopStatement p xs)
      then have "\<And>x. x \<in> set xs \<Longrightarrow> within (set (tl (keys a))) (set (gkeys a)) (exec L (Suc d) x)"
        using kid node.prems by (simp add: list_all_iff)
      moreover from UnrolledLoopStatement own(2) have "addr ` set xs \<subseteq> set (gkeys a)" by auto
      ultimately have "within (set (tl (keys a))) (set (gkeys a)) (execIterations L d xs)" by (rule within_iterations)
      with UnrolledLoopStatement own show ?thesis by (simp add: starts_prefixed within_afterUnrolled)
    next
      case (TryCatchStatement p b cs)
      then have "\<And>x. x \<in> set cs \<Longrightarrow> within (set (tl (keys a))) (set (gkeys a)) (exec L d x)"
        using kid node.prems by (simp add: list_all_iff)
      moreover from TryCatchStatement own(2) have "addr ` set cs \<subseteq> set (gkeys a)" by auto
      ultimately have "within (set (tl (keys a))) (set (gkeys a)) (execHandlers L d cs)" by (rule within_handlers)
      with TryCatchStatement own kid [of b L d] node.prems show ?thesis
        by (simp add: starts_prefixed within_catching)
    next
      case (IfStatement p c t e)
      with own kid [of c L d] kid [of t L d] kid [of e L d] node.prems show ?thesis
        by (simp add: starts_prefixed starts_Label within_intros)
    next
      case (CondExp p c t e)
      with own kid [of c L d] kid [of t L d] kid [of e L d] node.prems show ?thesis
        by (simp add: starts_prefixed starts_Label within_intros)
    next
      case (LogicalExp p op x y)
      with own kid [of x L d] kid [of y L d] node.prems show ?thesis
        by (simp add: starts_prefixed starts_Label within_intros within_insert [of _ _ _ _ "prefixed es A" for es A] within_single)
    next
      case (WhileStatement p c b)
      with own kid [of c L d] kid [of b L "Suc d"] node.prems show ?thesis
        by (simp add: starts_prefixed starts_Label within_intros within_single)
    next
      case (DoStatement p b c)
      with own kid [of c L d] kid [of b L "Suc d"] node.prems show ?thesis
        by (simp add: starts_prefixed starts_Label within_intros within_single)
    next
      case (ForStatement p i c b inc)
      with own kid [of i L d] kid [of c L d] kid [of b L "Suc d"] kid [of inc L d] node.prems show ?thesis
        by (cases "c = Null") (simp_all add: starts_prefixed within_intros within_single)
    next
      case (ForeachStatement p x b)
      with own kid [of x L d] kid [of b L "Suc d"] node.prems show ?thesis
        by (simp add: starts_prefixed starts_Label within_intros within_single)
    next
      case (ForeachRangeStatement p l u b)
      with own kid [of l L d] kid [of u L d] kid [of b L "Suc d"] node.prems show ?thesis
        by (simp add: starts_prefixed starts_Label within_intros within_single)
    next
      case (TryFinallyStatement p b f)
      with own kid [of b L d] kid [of f L d] node.prems show ?thesis
        by (simp add: starts_prefixed starts_Label within_intros)
    next
      case (LabelStatement p x)
      with own kid [of x "L(p \<mapsto> d)" d] node.prems show ?thesis by (simp add: starts_prefixed starts_Label within_intros)
    next
      case (ReturnStatement p e)
      with own kid [of e L d] node.prems show ?thesis by (simp add: starts_prefixed starts_Label within_intros within_single)
    next
      case (ThrowStatement p e)
      with own kid [of e L d] node.prems show ?thesis by (simp add: starts_prefixed starts_Label within_intros within_single)
    next
      case (Catch p h)
      with own kid [of h L d] node.prems show ?thesis by (simp add: starts_prefixed starts_Label within_intros)
    next
      case (BreakStatement p t)
      with node.prems show ?thesis by (auto simp: starts_single)
    next
      case (ContinueStatement p t)
      with node.prems show ?thesis by (auto simp: starts_single)
    next
      case (PragmaStatement p b)
      with own show ?thesis by (simp add: starts_single)
    next
      case (Members k p xs)
      with own show ?thesis by (simp add: starts_single)
    qed (use node.prems False in simp_all)
  qed
qed

lemma exec_within:
  assumes "structured L d a"
  shows "within (set (keys a)) (set (gkeys a)) (exec L d a)"
proof (cases "a = Null")
  case False
  then have "insert (addr a) (set (tl (keys a))) = set (keys a)" using keys_cons [of a] by (metis list.simps(15))
  with starts_within [OF exec_starts [OF assms False]] show ?thesis by simp
qed (simp add: within_single)

lemma exec_entered:
  assumes "structured L d a" "distinct (keys a)"
  shows "entered (addr a) (exec L d a)"
proof (cases "a = Null")
  case True
  then show ?thesis by (simp add: entered_def)
next
  case False
  then have "addr a \<notin> set (tl (keys a))" using assms(2) keys_cons [of a] by (metis distinct.simps(2))
  with starts_entered [OF exec_starts [OF assms(1) False]] show ?thesis by simp
qed

end
