(* ===== verification/PGOMain.thy ===== *)
theory PGOMain
  imports PGOCorrect
begin

text \<open>
  The propagated counts of the structured part are exact: the induction over the tree that
  puts the lemmas about the visitor's methods together.
\<close>

section \<open>Lists of nodes\<close>

definition kset :: "ptr ast list \<Rightarrow> ptr set" where
  "kset xs = set (concat (map keys xs))"

definition gset :: "ptr ast list \<Rightarrow> ptr set" where
  "gset xs = set (concat (map gkeys xs))"

lemma kset_simps [simp]: "kset [] = {}" "kset (x # xs) = set (keys x) \<union> kset xs"
  by (simp_all add: kset_def)

lemma gset_simps [simp]: "gset [] = {}" "gset (x # xs) = set (gkeys x) \<union> gset xs"
  by (simp_all add: gset_def)

lemma kset_member: "x \<in> set xs \<Longrightarrow> set (keys x) \<subseteq> kset xs" "x \<in> set xs \<Longrightarrow> set (gkeys x) \<subseteq> gset xs"
  by (auto simp: kset_def gset_def)

lemma exec_within_set:
  "structured L d x \<Longrightarrow> x \<in> set xs \<Longrightarrow> within (kset xs) (gset xs \<union> G) (exec L d x)"
  by (rule within_mono [OF exec_within]) (auto dest: kset_member)

lemma exactv_execs:
  assumes "\<And>x. x \<in> set xs \<Longrightarrow> structured L d x"
    and "\<And>x. x \<in> set xs \<Longrightarrow> exactv T R L d (visit_CRC x) (exec L d x) (set (keys x)) (set (gkeys x)) (recorded x)"
    and "distinct (concat (map keys xs))" "distinct (concat (map gkeys xs))"
  shows "exactv T R L d (visits_CRC xs) (execs L d xs) (kset xs) (gset xs) (\<Union> (set (map recorded xs)))"
  using assms
proof (induction xs)
  case Nil
  show ?case using exactv_Null by simp
next
  case (Cons x xs)
  have "exactv T R L d (visits_CRC xs) (execs L d xs) (kset xs) (gset xs) (\<Union> (set (map recorded xs)))"
    by (rule Cons.IH) (use Cons.prems in simp_all)
  moreover have "within (kset xs) (gset xs) (execs L d xs)"
    using Cons.prems(1) exec_within_set [of L d _ xs "{}"] by (intro within_execs) simp
  moreover have "set (keys x) \<inter> kset xs = {}" "set (gkeys x) \<inter> gset xs = {}"
    using Cons.prems(3,4) by (simp_all add: kset_def gset_def)
  ultimately have "exactv T R L d (\<lambda>s. do { s1 \<leftarrow> visit_CRC x s; visits_CRC xs s1 })
      (andThen (exec L d x) (execs L d xs)) (set (keys x) \<union> kset xs) (set (gkeys x) \<union> gset xs)
      (recorded x \<union> \<Union> (set (map recorded xs)))"
    using Cons.prems(1,2) [of x] by (intro exactv_andThen) (auto intro: exec_within)
  then show ?case by simp
qed

definition rset :: "ptr ast list \<Rightarrow> ptr set" where
  "rset xs = set (map addr xs @ concat (map gkeys xs))"

lemma rset_simps: "rset [] = {}" "rset (x # xs) = insert (addr x) (set (gkeys x) \<union> rset xs)"
  by (auto simp: rset_def)

lemma within_regions:
  assumes "\<And>x. x \<in> set xs \<Longrightarrow> structured L d' x"
  shows "d' = Suc d \<Longrightarrow> within (kset xs) (rset xs) (execIterations L d xs)"
    and "d' = d \<Longrightarrow> within (kset xs) (rset xs) (execHandlers L d xs)"
proof -
  have "\<And>x. x \<in> set xs \<Longrightarrow> within (kset xs) (rset xs) (exec L d' x)"
    using assms exec_within_set [of L d' _ xs "addr ` set xs"] by (simp add: rset_def gset_def Un_commute)
  then show "d' = Suc d \<Longrightarrow> within (kset xs) (rset xs) (execIterations L d xs)"
    and "d' = d \<Longrightarrow> within (kset xs) (rset xs) (execHandlers L d xs)"
    by (auto simp: rset_def intro!: within_iterations within_handlers)
qed

lemma rset_distinct:
  assumes "distinct (map addr (x # xs) @ concat (map gkeys (x # xs)))"
  shows "addr x \<notin> set (gkeys x) \<union> rset xs" "set (gkeys x) \<inter> rset xs = {}"
    "distinct (map addr xs @ concat (map gkeys xs))"
  using assms by (auto simp: rset_def)

lemma exactr_iterations:
  assumes "\<And>x. x \<in> set xs \<Longrightarrow> structured L (Suc d) x"
    and "\<And>x. x \<in> set xs \<Longrightarrow> exactv T R L (Suc d) (visit_CRC x) (exec L (Suc d) x) (set (keys x)) (set (gkeys x)) (recorded x)"
    and "distinct (concat (map keys xs))" "distinct (map addr xs @ concat (map gkeys xs))"
    and "addr ` set xs \<subseteq> R"
  shows "exactr T R L d (Suc d) (visitRegions_CRC xs) (execIterations L d xs) (kset xs) (rset xs) (\<Union> (set (map recorded xs)))"
  using assms
proof (induction xs)
  case Nil
  show ?case using exactr_Nil [of "{([], Normal)}"] by (simp add: rset_simps)
next
  case (Cons x xs)
  note r = rset_distinct [OF Cons.prems(4)]
  have "exactr T R L d (Suc d) (visitRegions_CRC xs) (execIterations L d xs) (kset xs) (rset xs) (\<Union> (set (map recorded xs)))"
    by (rule Cons.IH) (use Cons.prems r(3) in simp_all)
  moreover have "within (kset xs) (rset xs) (execIterations L d xs)"
    using Cons.prems(1) by (intro within_regions(1)) auto
  moreover have "set (keys x) \<inter> kset xs = {}" using Cons.prems(3) by (simp add: kset_def)
  moreover have "within (set (keys x)) (set (gkeys x)) (exec L (Suc d) x)"
    using Cons.prems(1) by (intro exec_within) simp
  ultimately have "exactr T R L d (Suc d) (\<lambda>s. do { s1 \<leftarrow> visitRegion (addr x) (visit_CRC x) s; visitRegions_CRC xs s1 })
      (execIterations L d (x # xs)) (set (keys x) \<union> kset xs) (insert (addr x) (set (gkeys x) \<union> rset xs))
      (recorded x \<union> \<Union> (set (map recorded xs)))"
    using Cons.prems(2,5) r(1,2) splits_nextIteration by (intro exactr_Cons) auto
  then show ?case by (simp add: rset_simps)
qed

lemma exactr_handlers:
  assumes "\<And>x. x \<in> set xs \<Longrightarrow> structured L d x"
    and "\<And>x. x \<in> set xs \<Longrightarrow> exactv T R L d (visit_CRC x) (exec L d x) (set (keys x)) (set (gkeys x)) (recorded x)"
    and "distinct (concat (map keys xs))" "distinct (map addr xs @ concat (map gkeys xs))"
    and "addr ` set xs \<subseteq> R"
  shows "exactr T R L d d (visitRegions_CRC xs) (execHandlers L d xs) (kset xs) (rset xs) (\<Union> (set (map recorded xs)))"
  using assms
proof (induction xs)
  case Nil
  show ?case using exactr_Nil [of "{}"] by (simp add: rset_simps)
next
  case (Cons x xs)
  note r = rset_distinct [OF Cons.prems(4)]
  have "exactr T R L d d (visitRegions_CRC xs) (execHandlers L d xs) (kset xs) (rset xs) (\<Union> (set (map recorded xs)))"
    by (rule Cons.IH) (use Cons.prems r(3) in simp_all)
  moreover have "within (kset xs) (rset xs) (execHandlers L d xs)"
    using Cons.prems(1) by (intro within_regions(2)) auto
  moreover have "set (keys x) \<inter> kset xs = {}" using Cons.prems(3) by (simp add: kset_def)
  moreover have "within (set (keys x)) (set (gkeys x)) (exec L d x)"
    using Cons.prems(1) by (intro exec_within) simp
  ultimately have "exactr T R L d d (\<lambda>s. do { s1 \<leftarrow> visitRegion (addr x) (visit_CRC x) s; visitRegions_CRC xs s1 })
      (execHandlers L d (x # xs)) (set (keys x) \<union> kset xs) (insert (addr x) (set (gkeys x) \<union> rset xs))
      (recorded x \<union> \<Union> (set (map recorded xs)))"
    using Cons.prems(2,5) r(1,2) splits_union by (intro exactr_Cons) auto
  then show ?case by (simp add: rset_simps)
qed

section \<open>The induction\<close>

text \<open>Trees whose nodes have addresses, region keys and record keys of their own.\<close>

definition own_addresses :: "ptr set \<Rightarrow> ptr ast \<Rightarrow> bool" where
  "own_addresses R a \<longleftrightarrow>
     distinct (keys a) \<and> nullptr \<notin> set (keys a) \<and> distinct (gkeys a) \<and> set (gkeys a) \<subseteq> R"

lemma distinct_concat_member: "x \<in> set xs \<Longrightarrow> distinct (concat (map f xs)) \<Longrightarrow> distinct (f x)"
  by (induction xs) auto

lemma own_addresses_child:
  assumes "own_addresses R a" "\<not> skipped True a" "\<not> is_Func a" "x \<in> set (children a)"
  shows "own_addresses R x"
proof -
  have "a \<noteq> Null" using assms(2) by auto
  then have "distinct (keys x)" "set (keys x) \<subseteq> set (keys a)"
    using assms(1,4) distinct_concat_member [OF assms(4), of keys] keys_child [OF assms(4)]
    by (auto simp: own_addresses_def keys_tl)
  moreover have "distinct (gkeys x)" "set (gkeys x) \<subseteq> set (gkeys a)"
    using assms distinct_concat_member [OF assms(4), of gkeys] by (auto simp: own_addresses_def gkeys_node)
  ultimately show ?thesis using assms(1) by (auto simp: own_addresses_def)
qed

lemma addr_key:
  assumes "own_addresses R x"
  shows "addr x = nullptr \<and> x = Null \<or> addr x \<noteq> nullptr \<and> addr x \<in> set (keys x)"
  using assms keys_tl [of x] by (cases "x = Null") (auto simp: own_addresses_def)

lemma addr_nullptr_iff: "own_addresses R x \<Longrightarrow> addr x = nullptr \<longleftrightarrow> x = Null"
  using addr_key by auto

text \<open>What the induction needs of a child.\<close>

definition exact_node :: "(event \<Rightarrow> nat) \<Rightarrow> ptr set \<Rightarrow> (ptr \<rightharpoonup> nat) \<Rightarrow> nat \<Rightarrow> ptr ast \<Rightarrow> bool" where
  "exact_node T R L d a \<longleftrightarrow>
     exactv T R L d (visit_CRC a) (exec L d a) (set (keys a)) (set (gkeys a)) (recorded a)"

lemma exact_nodeI:
  assumes "exactv T R L d (visit_CRC a) (exec L d a) K G M" "K \<subseteq> set (keys a)" "G \<subseteq> set (gkeys a)" "recorded a \<subseteq> M"
  shows "exact_node T R L d a"
  unfolding exact_node_def by (rule exactv_mono [OF assms])

lemma child_facts:
  assumes "own_addresses R x" "structured L d x"
  shows "entered (addr x) (exec L d x)" "addr x = nullptr \<or> addr x \<in> set (keys x)"
    "addr x = nullptr \<and> exec L d x = {([], Normal)} \<or> addr x \<noteq> nullptr \<and> addr x \<in> set (keys x)"
    "within (set (keys x)) (set (gkeys x)) (exec L d x)"
  using assms addr_key [OF assms(1)] exec_entered exec_within by (auto simp: own_addresses_def)

lemma exact_If:
  assumes s: "structured L d (IfStatement p c t e)" and o: "own_addresses R (IfStatement p c t e)"
    and IH: "exact_node T R L d c" "exact_node T R L d t" "exact_node T R L d e"
  shows "exact_node T R L d (IfStatement p c t e)"
proof -
  have oc: "own_addresses R c" "own_addresses R t" "own_addresses R e"
    using own_addresses_child [OF o] by simp_all
  from s have sc: "structured L d c" "structured L d t" "structured L d e" by simp_all
  have n: "only_normal (exec L d c)" using s quiet_only_normal by simp
  have k: "keys (IfStatement p c t e) = p # keys c @ keys t @ keys e"
    "gkeys (IfStatement p c t e) = p # gkeys c @ gkeys t @ gkeys e" by (simp_all add: keys_tl gkeys_node)
  note f = child_facts [OF oc(1) sc(1)] child_facts [OF oc(2) sc(2)] child_facts [OF oc(3) sc(3)]
  have "exactv T R L d (visit_CRC (IfStatement p c t e)) (exec L d (IfStatement p c t e))
     (insert p (set (keys c) \<union> set (keys t) \<union> set (keys e))) (insert p (set (gkeys c) \<union> set (gkeys t) \<union> set (gkeys e)))
     ({addr t} \<union> (if addr e = nullptr then {} else {addr e} \<union> recorded e) \<union> recorded c \<union> recorded t)"
    unfolding visit_CRC.simps exec.simps
    by (rule exactv_If [OF IH [unfolded exact_node_def] n f(5,6,9,11,4,8,12)])
      (use o in \<open>simp_all add: own_addresses_def k Int_Un_distrib\<close>)
  then show ?thesis
    by (rule exact_nodeI) (use addr_nullptr_iff [OF oc(3)] in \<open>auto simp: k opt_def\<close>)
qed

lemma exact_CondExp:
  assumes s: "structured L d (CondExp p c t e)" and o: "own_addresses R (CondExp p c t e)"
    and IH: "exact_node T R L d c" "exact_node T R L d t" "exact_node T R L d e"
  shows "exact_node T R L d (CondExp p c t e)"
proof -
  have oc: "own_addresses R c" "own_addresses R t" "own_addresses R e"
    using own_addresses_child [OF o] by simp_all
  from s have sc: "structured L d c" "structured L d t" "structured L d e" by simp_all
  have n: "only_normal (exec L d c)" using s quiet_only_normal by simp
  have k: "keys (CondExp p c t e) = p # keys c @ keys t @ keys e"
    "gkeys (CondExp p c t e) = p # gkeys c @ gkeys t @ gkeys e" by (simp_all add: keys_tl gkeys_node)
  note f = child_facts [OF oc(1) sc(1)] child_facts [OF oc(2) sc(2)] child_facts [OF oc(3) sc(3)]
  have e: "addr e \<noteq> nullptr" using s addr_nullptr_iff [OF oc(3)] by simp
  have "exactv T R L d (visit_CRC (CondExp p c t e)) (exec L d (CondExp p c t e))
     (insert p (set (keys c) \<union> set (keys t) \<union> set (keys e))) (insert p (set (gkeys c) \<union> set (gkeys t) \<union> set (gkeys e)))
     ({addr t} \<union> (if addr e = nullptr then {} else {addr e} \<union> recorded e) \<union> recorded c \<union> recorded t)"
    unfolding visit_CRC.simps exec.simps visit_CondExp_If [OF e]
    by (rule exactv_If [OF IH [unfolded exact_node_def] n f(5,6,9,11,4,8,12)])
      (use o in \<open>simp_all add: own_addresses_def k Int_Un_distrib\<close>)
  then show ?thesis by (rule exact_nodeI) (use e in \<open>auto simp: k opt_def\<close>)
qed

lemma exact_Logical:
  assumes s: "structured L d (LogicalExp p op x y)" and o: "own_addresses R (LogicalExp p op x y)"
    and IH: "exact_node T R L d x" "exact_node T R L d y"
  shows "exact_node T R L d (LogicalExp p op x y)"
proof -
  have oc: "own_addresses R x" "own_addresses R y" using own_addresses_child [OF o] by simp_all
  from s have sc: "structured L d x" "structured L d y" by simp_all
  have n: "only_normal (exec L d x)" "only_normal (exec L d y)" using s quiet_only_normal by simp_all
  have k: "keys (LogicalExp p op x y) = p # keys x @ keys y"
    "gkeys (LogicalExp p op x y) = p # gkeys x @ gkeys y" by (simp_all add: keys_tl gkeys_node)
  note f = child_facts [OF oc(1) sc(1)] child_facts [OF oc(2) sc(2)]
  have "exactv T R L d (visit_CRC (LogicalExp p op x y)) (exec L d (LogicalExp p op x y))
     (insert p (set (keys x) \<union> set (keys y))) (insert p (set (gkeys x) \<union> set (gkeys y)))
     (insert (addr y) (recorded x \<union> recorded y))"
    unfolding visit_CRC.simps exec.simps
    by (rule exactv_Logical [OF IH [unfolded exact_node_def] n f(5,6,4,8)])
      (use o in \<open>simp_all add: own_addresses_def k\<close>)
  then show ?thesis by (rule exact_nodeI) (auto simp: k opt_def)
qed

text \<open>Loops, as instances of \<open>for\<close>.\<close>

lemma Null_facts:
  "exactv T R L d Some {([], Normal)} {} {} {}" "only_normal {([], Normal)}" "within {} {} {([], Normal)}"
  "entered nullptr A"
  using exactv_Null only_normal_single by (simp_all add: within_single entered_def)

lemma exact_For:
  assumes s: "structured L d (ForStatement p i c b j)" and o: "own_addresses R (ForStatement p i c b j)"
    and IH: "exact_node T R L d i" "exact_node T R L d c" "exact_node T R L (Suc d) b" "exact_node T R L d j"
  shows "exact_node T R L d (ForStatement p i c b j)"
proof -
  have oc: "own_addresses R i" "own_addresses R c" "own_addresses R b" "own_addresses R j"
    using own_addresses_child [OF o] by simp_all
  from s have sc: "structured L d i" "structured L d c" "structured L (Suc d) b" "structured L d j" by simp_all
  have n: "only_normal (exec L d i)" "only_normal (exec L d c)" "only_normal (exec L d j)"
    using s quiet_only_normal by simp_all
  let ?q = "getCounterPtr p 1"
  have k: "keys (ForStatement p i c b j) = p # ?q # keys i @ keys c @ keys b @ keys j"
    "gkeys (ForStatement p i c b j) = p # gkeys i @ gkeys c @ gkeys b @ gkeys j" by (simp_all add: keys_tl gkeys_node)
  note f = child_facts [OF oc(1) sc(1)] child_facts [OF oc(3) sc(3)] child_facts [OF oc(4) sc(4)]
    and fc = child_facts [OF oc(2) sc(2)] and an = addr_nullptr_iff [OF oc(2)] addr_nullptr_iff [OF oc(4)]
  let ?C = "if c = Null then {([Enter ?q], Normal)} else exec L d c"
  let ?Kc = "if c = Null then {?q} else set (keys c)"
  have c: "exactv T R L d (visit_CRC c) ?C ?Kc (set (gkeys c)) (recorded c)" "only_normal ?C"
    "entered (if addr c = nullptr then ?q else addr c) ?C" "(if addr c = nullptr then ?q else addr c) \<in> ?Kc"
    "within ?Kc (set (gkeys c)) ?C"
    using IH(2) n(2) fc an exactv_record [of Some ?q] only_normal_single
    by (auto simp: exact_node_def within_single entered_def)
  have "exactv T R L d (visit_CRC (ForStatement p i c b j)) (exec L d (ForStatement p i c b j))
     (insert p (set (keys i) \<union> ?Kc \<union> set (keys b) \<union> set (keys j)))
     (insert p (set (gkeys i) \<union> set (gkeys c) \<union> set (gkeys b) \<union> set (gkeys j)))
     ({if addr c = nullptr then ?q else addr c, addr b} \<union> recorded i \<union> recorded c \<union> recorded b
        \<union> (if addr j = nullptr then {} else insert (addr j) (recorded j)))"
    unfolding visit_CRC.simps exec.simps
    by (rule exactv_For [OF IH(1) [unfolded exact_node_def] c(1) IH(3,4) [unfolded exact_node_def] n(1) c(2) n(3)
          f(5,6) c(3,4) f(9,11,4) c(5) f(8,12)])
      (use o in \<open>auto simp: own_addresses_def k\<close>)
  then show ?thesis by (rule exact_nodeI) (use an in \<open>auto simp: k opt_def\<close>)
qed

lemma exact_While:
  assumes s: "structured L d (WhileStatement p c b)" and o: "own_addresses R (WhileStatement p c b)"
    and IH: "exact_node T R L d c" "exact_node T R L (Suc d) b"
  shows "exact_node T R L d (WhileStatement p c b)"
proof -
  have oc: "own_addresses R c" "own_addresses R b" using own_addresses_child [OF o] by simp_all
  from s have sc: "structured L d c" "structured L (Suc d) b" by simp_all
  have n: "only_normal (exec L d c)" using s quiet_only_normal by simp
  have k: "keys (WhileStatement p c b) = p # keys c @ keys b"
    "gkeys (WhileStatement p c b) = p # gkeys c @ gkeys b" by (simp_all add: keys_tl gkeys_node)
  note f = child_facts [OF oc(1) sc(1)] child_facts [OF oc(2) sc(2)] and z = Null_facts
  have c: "addr c \<noteq> nullptr" using s addr_nullptr_iff [OF oc(1)] by simp
  have A: "andThen {([], Normal)} X = X" for X by (auto simp: andThen_def)
  have v: "visit_CRC (WhileStatement p c b) = visit_For p Some (addr c) (visit_CRC c) (addr b) (visit_CRC b) nullptr Some"
    using c by (simp add: visit_While_For [of _ _ _ _ _ Some])
  have x: "exec L d (WhileStatement p c b) = prefixed [Enter p] (andThen {([], Normal)}
      (loopRuns p d (exec L d c) (exec L (Suc d) b) {([], Normal)}))" by (simp add: A)
  have "exactv T R L d (visit_CRC (WhileStatement p c b)) (exec L d (WhileStatement p c b))
     (insert p ({} \<union> set (keys c) \<union> set (keys b) \<union> {})) (insert p ({} \<union> set (gkeys c) \<union> set (gkeys b) \<union> {}))
     ({if addr c = nullptr then getCounterPtr p 1 else addr c, addr b} \<union> {} \<union> recorded c \<union> recorded b
        \<union> (if nullptr = nullptr then {} else insert nullptr {}))"
    unfolding v x
    by (rule exactv_For [OF z(1) IH [unfolded exact_node_def] z(1) z(2) n z(2) f(5,6) _ _ z(4) _ z(3) f(4,8) z(3)])
      (use o c f(1,2) in \<open>simp_all add: own_addresses_def k\<close>)
  then show ?thesis by (rule exact_nodeI) (use c in \<open>auto simp: k opt_def\<close>)
qed

lemma exact_foreach:
  assumes v: "visit_CRC a = visit_For p vi nullptr Some (addr b) (visit_CRC b) nullptr Some"
    and x: "exec L d a = prefixed [Enter p] (andThen I
       (loopRuns p d {([Enter (getCounterPtr p 1)], Normal)} (exec L (Suc d) b) {([], Normal)}))"
    and i: "exactv T R L d vi I K G M" "only_normal I" "within K G I"
    and b: "exact_node T R L (Suc d) b" "own_addresses R b" "structured L (Suc d) b"
    and dis: "p \<notin> K \<union> set (keys b)" "p \<noteq> getCounterPtr p 1" "getCounterPtr p 1 \<notin> K \<union> set (keys b)" "K \<inter> set (keys b) = {}"
      "p \<notin> G \<union> set (gkeys b)" "G \<inter> set (gkeys b) = {}" "p \<in> R"
    and k: "set (keys a) = insert p (insert (getCounterPtr p 1) (K \<union> set (keys b)))"
      "set (gkeys a) = insert p (G \<union> set (gkeys b))" "recorded a = {getCounterPtr p 1} \<union> opt (addr b) \<union> M \<union> recorded b"
  shows "exact_node T R L d a"
proof -
  let ?q = "getCounterPtr p 1"
  note f = child_facts [OF b(2,3)] and z = Null_facts
  have q: "exactv T R L d Some {([Enter ?q], Normal)} {?q} {} {}" using exactv_record by blast
  have "exactv T R L d (visit_CRC a) (exec L d a)
     (insert p (K \<union> {?q} \<union> set (keys b) \<union> {})) (insert p (G \<union> {} \<union> set (gkeys b) \<union> {}))
     ({if nullptr = nullptr then ?q else nullptr, addr b} \<union> M \<union> {} \<union> recorded b
        \<union> (if nullptr = nullptr then {} else insert nullptr {}))"
    unfolding v x
    by (rule exactv_For [OF i(1) q b(1) [unfolded exact_node_def] z(1) i(2) only_normal_single z(2) f(1,2)
          _ _ z(4) _ i(3) _ f(4) z(3)])
      (use dis in \<open>simp_all add: within_single entered_def\<close>)
  then show ?thesis by (rule exact_nodeI) (auto simp: k opt_def)
qed

lemma exact_Foreach:
  assumes s: "structured L d (ForeachStatement p e b)" and o: "own_addresses R (ForeachStatement p e b)"
    and IH: "exact_node T R L d e" "exact_node T R L (Suc d) b"
  shows "exact_node T R L d (ForeachStatement p e b)"
proof -
  have oc: "own_addresses R e" "own_addresses R b" using own_addresses_child [OF o] by simp_all
  have k: "keys (ForeachStatement p e b) = p # getCounterPtr p 1 # keys e @ keys b"
    "gkeys (ForeachStatement p e b) = p # gkeys e @ gkeys b" by (simp_all add: keys_tl gkeys_node)
  show ?thesis
    by (rule exact_foreach [OF _ _ IH(1) [unfolded exact_node_def] _ _ IH(2) oc(2)])
      (use s o in \<open>auto simp: own_addresses_def k visit_Foreach_For [of _ _ _ _ Some] quiet_only_normal exec_within\<close>)
qed

lemma exact_ForeachRange:
  assumes s: "structured L d (ForeachRangeStatement p l u b)" and o: "own_addresses R (ForeachRangeStatement p l u b)"
    and IH: "exact_node T R L d l" "exact_node T R L d u" "exact_node T R L (Suc d) b"
  shows "exact_node T R L d (ForeachRangeStatement p l u b)"
proof -
  have oc: "own_addresses R b" using own_addresses_child [OF o] by simp
  have k: "keys (ForeachRangeStatement p l u b) = p # getCounterPtr p 1 # keys l @ keys u @ keys b"
    "gkeys (ForeachRangeStatement p l u b) = p # gkeys l @ gkeys u @ gkeys b" by (simp_all add: keys_tl gkeys_node)
  have w: "within (set (keys l)) (set (gkeys l)) (exec L d l)" "within (set (keys u)) (set (gkeys u)) (exec L d u)"
    using s exec_within by simp_all
  have n: "only_normal (exec L d l)" "only_normal (exec L d u)" using s quiet_only_normal by simp_all
  then have n': "only_normal (andThen (exec L d l) (exec L d u))" by (auto simp: only_normal_def andThen_def)
  have w': "within (set (keys l) \<union> set (keys u)) (set (gkeys l) \<union> set (gkeys u)) (andThen (exec L d l) (exec L d u))"
    using w by (auto intro!: within_andThen intro: within_mono)
  have assoc: "andThen (exec L d l) (andThen (exec L d u) X) = andThen (andThen (exec L d l) (exec L d u)) X" for X
    using n by (auto simp: andThen_def only_normal_def) (metis append_assoc)+
  have e: "exactv T R L d (\<lambda>s. do { s1 \<leftarrow> visit_CRC l s; visit_CRC u s1 }) (andThen (exec L d l) (exec L d u))
      (set (keys l) \<union> set (keys u)) (set (gkeys l) \<union> set (gkeys u)) (recorded l \<union> recorded u)"
    by (rule exactv_andThen [OF IH(1,2) [unfolded exact_node_def] w])
      (use o in \<open>simp_all add: own_addresses_def k Int_Un_distrib\<close>)
  show ?thesis
    by (rule exact_foreach [OF _ _ e n' w' IH(3) oc])
      (use s o in \<open>auto simp: own_addresses_def k visit_ForeachRange_For [of _ _ _ _ _ Some] assoc\<close>)
qed

lemma exact_Do:
  assumes s: "structured L d (DoStatement p b c)" and o: "own_addresses R (DoStatement p b c)"
    and IH: "exact_node T R L d c" "exact_node T R L (Suc d) b"
  shows "exact_node T R L d (DoStatement p b c)"
proof -
  have oc: "own_addresses R c" "own_addresses R b" using own_addresses_child [OF o] by simp_all
  from s have sc: "structured L d c" "structured L (Suc d) b" by simp_all
  have n: "only_normal (exec L d c)" using s quiet_only_normal by simp
  have k: "keys (DoStatement p b c) = p # keys b @ keys c"
    "gkeys (DoStatement p b c) = p # gkeys b @ gkeys c" by (simp_all add: keys_tl gkeys_node)
  note f = child_facts [OF oc(1) sc(1)] child_facts [OF oc(2) sc(2)]
  have "exactv T R L d (visit_CRC (DoStatement p b c)) (exec L d (DoStatement p b c))
     (insert p (set (keys c) \<union> set (keys b))) (insert p (set (gkeys c) \<union> set (gkeys b)))
     ({addr b, addr c} \<union> recorded c \<union> recorded b)"
    unfolding visit_CRC.simps exec.simps
    by (rule exactv_Do [OF IH [unfolded exact_node_def] n f(5,6,1,2,4,8)])
      (use o in \<open>auto simp: own_addresses_def k\<close>)
  then show ?thesis by (rule exact_nodeI) (auto simp: k opt_def)
qed

text \<open>Labels, unrolled loops, handlers and cleanups.\<close>

lemma exact_Label:
  assumes s: "structured L d (LabelStatement p x)" and o: "own_addresses R (LabelStatement p x)"
    and IH: "exact_node T R (L(p \<mapsto> d)) d x"
  shows "exact_node T R L d (LabelStatement p x)"
proof -
  have k: "keys (LabelStatement p x) = p # keys x" "gkeys (LabelStatement p x) = p # gkeys x"
    by (simp_all add: keys_tl gkeys_node)
  have "exactv T R L d (visit_CRC (LabelStatement p x)) (exec L d (LabelStatement p x))
     (insert p (set (keys x))) (insert p (set (gkeys x))) (insert p (recorded x))"
    unfolding visit_CRC.simps exec.simps
    by (rule exactv_Label [OF IH [unfolded exact_node_def] exec_within])
      (use s o in \<open>simp_all add: own_addresses_def k\<close>)
  then show ?thesis by (rule exact_nodeI) (simp_all add: k)
qed

lemma exact_Unrolled:
  assumes s: "structured L d (UnrolledLoopStatement p xs)" and o: "own_addresses R (UnrolledLoopStatement p xs)"
    and IH: "\<And>x. x \<in> set xs \<Longrightarrow> exact_node T R L (Suc d) x"
  shows "exact_node T R L d (UnrolledLoopStatement p xs)"
proof -
  have k: "keys (UnrolledLoopStatement p xs) = p # concat (map keys xs)"
    "gkeys (UnrolledLoopStatement p xs) = p # map addr xs @ concat (map gkeys xs)"
    by (simp_all add: keys_tl gkeys_node)
  have sx: "\<And>x. x \<in> set xs \<Longrightarrow> structured L (Suc d) x" using s by (simp add: list_all_iff)
  have "exactr T R L d (Suc d) (visitRegions_CRC xs) (execIterations L d xs) (kset xs) (rset xs) (\<Union> (set (map recorded xs)))"
    by (rule exactr_iterations [OF sx IH [unfolded exact_node_def]])
      (use o in \<open>auto simp: own_addresses_def k\<close>)
  from exactv_Unrolled [OF this within_regions(1) [OF sx refl]]
  have "exactv T R L d (visit_CRC (UnrolledLoopStatement p xs)) (exec L d (UnrolledLoopStatement p xs))
      (insert p (kset xs)) (insert p (rset xs)) (\<Union> (set (map recorded xs)))"
    using o by (simp add: own_addresses_def k kset_def rset_def)
  then show ?thesis by (rule exact_nodeI) (auto simp: k kset_def rset_def)
qed

lemma exact_TryCatch:
  assumes s: "structured L d (TryCatchStatement p b cs)" and o: "own_addresses R (TryCatchStatement p b cs)"
    and IH: "exact_node T R L d b" "\<And>x. x \<in> set cs \<Longrightarrow> exact_node T R L d x"
  shows "exact_node T R L d (TryCatchStatement p b cs)"
proof -
  have k: "keys (TryCatchStatement p b cs) = p # keys b @ concat (map keys cs)"
    "gkeys (TryCatchStatement p b cs) = p # map addr cs @ gkeys b @ concat (map gkeys cs)"
    by (simp_all add: keys_tl gkeys_node)
  have sx: "\<And>x. x \<in> set cs \<Longrightarrow> structured L d x" and sb: "structured L d b" using s by (simp_all add: list_all_iff)
  have h: "exactr T R L d d (visitRegions_CRC cs) (execHandlers L d cs) (kset cs) (rset cs) (\<Union> (set (map recorded cs)))"
    by (rule exactr_handlers [OF sx IH(2) [unfolded exact_node_def]])
      (use o in \<open>auto simp: own_addresses_def k\<close>)
  have "exactv T R L d (visit_CRC (TryCatchStatement p b cs)) (exec L d (TryCatchStatement p b cs))
      (insert p (set (keys b) \<union> kset cs)) (insert p (set (gkeys b) \<union> rset cs)) (recorded b \<union> \<Union> (set (map recorded cs)))"
    unfolding visit_CRC.simps exec.simps
    by (rule exactv_TryCatch [OF IH(1) [unfolded exact_node_def] h exec_within [OF sb] within_regions(2) [OF sx refl]])
      (use o in \<open>auto simp: own_addresses_def k kset_def rset_def\<close>)
  then show ?thesis by (rule exact_nodeI) (auto simp: k kset_def rset_def)
qed

lemma exact_TryFinally:
  assumes s: "structured L d (TryFinallyStatement p b f)" and o: "own_addresses R (TryFinallyStatement p b f)"
    and IH: "exact_node T R L d b" "exact_node T R L d f"
  shows "exact_node T R L d (TryFinallyStatement p b f)"
proof -
  have k: "keys (TryFinallyStatement p b f) = p # keys b @ keys f"
    "gkeys (TryFinallyStatement p b f) = p # gkeys b @ gkeys f" using s by (simp_all add: keys_tl gkeys_node)
  have n: "only_normal (exec L d f)" using s quiet_only_normal by simp
  have w: "within (set (keys b)) (set (gkeys b)) (exec L d b)" "within (set (keys f)) (set (gkeys f)) (exec L d f)"
    using s exec_within by simp_all
  have "exactv T R L d (visit_CRC (TryFinallyStatement p b f)) (exec L d (TryFinallyStatement p b f))
      (insert p (set (keys b) \<union> set (keys f))) (insert p (set (gkeys b) \<union> set (gkeys f))) (recorded b \<union> recorded f)"
    unfolding visit_CRC.simps exec.simps
    by (rule exactv_TryFinally [OF IH [unfolded exact_node_def] n w])
      (use o in \<open>auto simp: own_addresses_def k\<close>)
  then show ?thesis by (rule exact_nodeI) (auto simp: k)
qed

lemma exact_Seq:
  assumes s: "\<And>x. x \<in> set xs \<Longrightarrow> structured L d x" and o: "own_addresses R a"
    and a: "visit_CRC a = visits_CRC xs" "exec L d a = prefixed [Enter p] (execs L d xs)"
      "keys a = p # concat (map keys xs)" "gkeys a = concat (map gkeys xs)" "recorded a = \<Union> (set (map recorded xs))"
    and IH: "\<And>x. x \<in> set xs \<Longrightarrow> exact_node T R L d x"
  shows "exact_node T R L d a"
proof -
  have "exactv T R L d (visits_CRC xs) (execs L d xs) (kset xs) (gset xs) (\<Union> (set (map recorded xs)))"
    by (rule exactv_execs [OF s IH [unfolded exact_node_def]]) (use o in \<open>simp_all add: own_addresses_def a\<close>)
  from exactv_prefix [OF this, of p] have "exactv T R L d (visit_CRC a) (exec L d a) (insert p (kset xs)) (gset xs)
      (\<Union> (set (map recorded xs)))" using o by (simp add: own_addresses_def a kset_def)
  then show ?thesis by (rule exact_nodeI) (auto simp: a kset_def gset_def)
qed

lemma exact_exit:
  assumes a: "visit_CRC a = (\<lambda>s. do { s1 \<leftarrow> visit_CRC e (RecordStmtCount p s); Some (unreachableNext s1) })"
      "exec L d a = prefixed [Enter p] (andThen (exec L d e) {([], out)})" "keys a = p # keys e" "gkeys a = gkeys e"
      "recorded a = recorded e"
    and s: "structured L d e" "quiet L d e" and o: "own_addresses R a" and out: "out = Ret \<or> out = Thr"
    and IH: "exact_node T R L d e"
  shows "exact_node T R L d a"
proof -
  have "exactv T R L d (visit_CRC a) (exec L d a) (insert p (set (keys e))) (set (gkeys e)) (recorded e)"
    unfolding a by (rule exactv_exit [OF IH [unfolded exact_node_def] quiet_only_normal [OF s(2)] _ out refl exec_within [OF s(1)]])
      (use o in \<open>simp add: own_addresses_def a\<close>)
  then show ?thesis by (rule exact_nodeI) (simp_all add: a)
qed

lemma exact_record:
  assumes "visit_CRC a = Some \<or> visit_CRC a = (\<lambda>s. Some (RecordStmtCount (addr a) s))"
    "exec L d a = {([Enter (addr a)], Normal)}" "a \<noteq> Null" "recorded a = {}"
  shows "exact_node T R L d a"
  using exactv_record [OF assms(1), of T R L d] assms(2-4) keys_tl [of a] by (auto intro!: exact_nodeI)

end
