(* ===== verification/PGOEndToEnd.thy ===== *)
theory PGOEndToEnd
  imports PGOMain
begin

text \<open>
  The end-to-end theorem of profile-guided optimisation: instrument, run, read the profile
  back and propagate it.
\<close>

theorem exact_visit:
  "structured L d a \<Longrightarrow> own_addresses R a \<Longrightarrow> exact_node T R L d a"
proof (induction a arbitrary: L d rule: ast_children_induct)
  case (node a)
  have kid: "exact_node T R L' d' x" if "x \<in> set (children a)" "structured L' d' x" "\<not> skipped True a" for x L' d'
    using node.IH [OF that(1,2)] own_addresses_child [OF node.prems(2) that(3) _ that(1)] node.prems(1)
    by (cases a) auto
  show ?case
  proof (cases a)
    case Null
    then show ?thesis using exactv_Null by (auto intro!: exact_nodeI)
  next
    case (Leaf k p)
    with node.prems(1) show ?thesis by (intro exact_record) (auto simp: visit_Leaf_def fun_eq_iff)
  next
    case (Seq k p xs)
    then have sx: "\<And>x. x \<in> set xs \<Longrightarrow> structured L d x" and v: "\<not> skipped True a"
      using node.prems(1) by (simp_all add: list_all_iff)
    have kx: "\<And>x. x \<in> set xs \<Longrightarrow> exact_node T R L d x"
      by (rule kid [OF _ sx v]) (simp_all add: Seq)
    show ?thesis
      by (rule exact_Seq [where p = p, OF sx node.prems(2) _ _ _ _ _ kx])
        (use v in \<open>simp_all add: Seq keys_tl gkeys_node\<close>)
  next
    case (StructLiteralExp p fl xs)
    then have sx: "\<And>x. x \<in> set xs \<Longrightarrow> structured L d x" and v: "\<not> skipped True a"
      using node.prems(1) by (simp_all add: list_all_iff)
    have kx: "\<And>x. x \<in> set xs \<Longrightarrow> exact_node T R L d x"
      by (rule kid [OF _ sx v]) (simp_all add: StructLiteralExp)
    show ?thesis
      by (rule exact_Seq [where p = p, OF sx node.prems(2) _ _ _ _ _ kx])
        (use v in \<open>simp_all add: StructLiteralExp keys_tl gkeys_node\<close>)
  next
    case (Members k p xs)
    then show ?thesis by (intro exact_record) simp_all
  next
    case (PragmaStatement p b)
    then show ?thesis by (intro exact_record) simp_all
  next
    case (ReturnStatement p e)
    show ?thesis
      by (rule exact_exit [where e = e and p = p and out = Ret])
        (use ReturnStatement node.prems kid [of e L d] in \<open>simp_all add: keys_tl gkeys_node visit_Return_def fun_eq_iff\<close>)
  next
    case (ThrowStatement p e)
    show ?thesis
      by (rule exact_exit [where e = e and p = p and out = Thr])
        (use ThrowStatement node.prems kid [of e L d] in \<open>simp_all add: keys_tl gkeys_node visit_Throw_def fun_eq_iff\<close>)
  next
    case (BreakStatement p t)
    with node.prems(1) obtain k where "jumpDepth L d t = Some k" by auto
    with BreakStatement exactv_Break [of L d t k T R p] show ?thesis by (auto intro!: exact_nodeI simp: keys_tl)
  next
    case (ContinueStatement p t)
    with node.prems(1) obtain k where "jumpDepth L d t = Some k" by auto
    with ContinueStatement exactv_Continue [of L d t k T R p] show ?thesis by (auto intro!: exact_nodeI simp: keys_tl)
  next
    case (Catch p h)
    with node.prems kid [of h L d] have "exactv T R L d (visit_CRC h) (prefixed [Enter p] (exec L d h))
        (insert p (set (keys h))) (set (gkeys h)) (recorded h)"
      by (intro exactv_prefix) (simp_all add: exact_node_def own_addresses_def keys_tl)
    with Catch show ?thesis by (auto intro!: exact_nodeI simp: keys_tl gkeys_node)
  next
    case (UnrolledLoopStatement p xs)
    with node.prems kid show ?thesis by (simp add: exact_Unrolled list_all_iff)
  next
    case (TryCatchStatement p b cs)
    with node.prems kid show ?thesis by (simp add: exact_TryCatch list_all_iff)
  qed (use node.prems kid in \<open>simp_all add: exact_If exact_CondExp exact_Logical exact_For exact_While
      exact_Foreach exact_ForeachRange exact_Do exact_Label exact_TryFinally\<close>)
qed

text \<open>
  The runs of an instrumented function: the counter of the body, then the body. A profile
  holds, in counter order, how often each counter was incremented.
\<close>

definition functionRuns :: "ptr ast \<Rightarrow> run set" where
  "functionRuns fbody = prefixed [Inc (addr fbody)] (exec Map.empty 0 fbody)"

definition profileOf :: "run list \<Rightarrow> CodeGenPGO \<Rightarrow> CodeGenPGO" where
  "profileOf rs pgo = pgo\<lparr>RegionCounts := map (\<lambda>(q, i). of_nat (evs rs (Inc q))) (the (RegionCounterMap pgo))\<rparr>"

lemma profileOf_rcount:
  assumes "RegionCounterMap pgo = Some (zip ks [0..<length ks])" "ks \<noteq> []" "distinct ks"
  shows "pgo_ok (profileOf rs pgo)" "q \<in> set ks \<Longrightarrow> rcount (profileOf rs pgo) q = of_nat (evs rs (Inc q))"
proof -
  show "pgo_ok (profileOf rs pgo)"
    using assms by (auto simp: pgo_ok_def profileOf_def dest: set_zip_rightD)
  assume "q \<in> set ks"
  then obtain i where i: "i < length ks" "ks ! i = q" by (auto simp: in_set_conv_nth)
  then have "map_of (zip ks [0..<length ks]) q = Some i"
    using assms(3) by (intro map_of_is_SomeI) (auto simp: in_set_zip)
  with i show "rcount (profileOf rs pgo) q = of_nat (evs rs (Inc q))"
    by (simp add: rcount_def profileOf_def assms(1))
qed

definition instrumentable :: "ptr ast \<Rightarrow> bool" where
  "instrumentable fbody \<longleftrightarrow> fbody \<noteq> Null \<and> mappable fbody \<and> structured Map.empty 0 fbody
     \<and> distinct (keys fbody) \<and> nullptr \<notin> set (keys fbody)"

lemma function_counts_exact:
  assumes i: "instrumentable fbody" and rs: "set rs \<subseteq> functionRuns fbody"
    and m: "mapRegionCounters md5_low (FuncDeclaration p fbody) pgo = Some pgo1"
  obtains pgo2 M where "computeRegionCounts (FuncDeclaration p fbody) (profileOf rs pgo1) = Some pgo2"
    "StmtCountMap pgo2 = Some M"
    "\<And>q. q \<in> insert (addr fbody) (recorded fbody) \<Longrightarrow> q \<noteq> nullptr \<Longrightarrow> M q = Some (of_nat (evs rs (Enter q)))"
    "\<And>q c. q \<noteq> nullptr \<Longrightarrow> M q = Some c \<Longrightarrow> c = of_nat (evs rs (Enter q))"
    "pgo_ok pgo2" "\<And>q. q \<in> set (addr fbody # gkeys fbody) \<Longrightarrow> rcount pgo2 q = of_nat (evs rs (Inc q))"
proof -
  let ?f = "addr fbody" and ?ks = "addr fbody # gkeys fbody"
  let ?T = "evs rs" and ?R = "set ?ks"
  from i have d: "distinct ?ks" by (simp add: instrumentable_def mappable_def gkeys_def)
  have len: "length (fn_regions fbody) = length (gkeys fbody)" by (simp add: gkeys_def)
  have mp: "RegionCounterMap pgo1 = Some (zip ?ks [0..<length ?ks])"
    using m i mapRegionCounters_eq [of fbody md5_low p pgo]
    by (auto simp: instrumentable_def gkeys_def simp del: upt_Suc)
  note pf = profileOf_rcount [OF mp _ d]
  from i d have o: "own_addresses ?R fbody" by (auto simp: own_addresses_def instrumentable_def)
  from i have st: "structured Map.empty 0 fbody" and nn: "fbody \<noteq> Null" by (simp_all add: instrumentable_def)
  have ex: "exactv ?T ?R Map.empty 0 (visit_CRC fbody) (exec Map.empty 0 fbody) (set (keys fbody))
      (set (gkeys fbody)) (recorded fbody)"
    using exact_visit [OF st o] by (simp add: exact_node_def)
  note f = child_facts [OF o st]
  from prefixed_split [OF rs [unfolded functionRuns_def]] obtain ra where ra: "set ra \<subseteq> exec Map.empty 0 fbody"
    "length ra = length rs" "\<And>e. evs rs e = evs ra e + length rs * count_list [Inc ?f] e" by blast
  have l: "\<forall>q\<in>set (keys fbody). ?T (Enter q) = evs ra (Enter q)" "\<forall>q\<in>set (gkeys fbody). ?T (Inc q) = evs ra (Inc q)"
    using d by (auto simp: ra(3))
  have tf: "?T (Inc ?f) = length ra" using evs_outside(2) [OF f(4) ra(1)] d by (simp add: ra(2,3))
  let ?s = "ComputeRegionCounts_init (profileOf rs pgo1)"
  have r0: "ready ?T ?R Map.empty (set (keys fbody)) ?s"
    using pf by (auto simp: ready_def ComputeRegionCounts_init_def)
  from regionCount_frame [OF r0, of ?f] obtain s1 where s1: "regionCount ?f ?s = Some (of_nat (length ra), s1)"
    "frame ?T {} {} ?s s1" "BreakContinueStack s1 = []"
    using tf by (auto simp: ComputeRegionCounts_init_def)
  have r1: "ready ?T ?R Map.empty (set (keys fbody)) s1" by (rule ready_frame [OF r0 s1(2)]) auto
  have d1: "length (BreakContinueStack s1) = 0" using s1(3) by simp
  from visitWith_exact [OF ex f(1,2) ra(1) l r1 d1 refl] obtain s2 where
    s2: "visitWith (of_nat (length ra)) ?f (visit_CRC fbody) s1 = Some s2"
      "frame ?T (set (keys fbody)) (insert ?f (recorded fbody)) s1 s2" .
  have fr: "frame ?T (set (keys fbody)) (insert ?f (recorded fbody)) ?s s2"
    by (rule frame_trans_idle [OF s1(2) s2(2)])
  have "CountMap ?s = Map.empty" by (simp add: ComputeRegionCounts_init_def)
  with fr have c: "CountMap s2 q = None \<and> q \<notin> insert ?f (recorded fbody) \<or> CountMap s2 q = Some (of_nat (?T (Enter q)))"
    if "q \<noteq> nullptr" for q using that by (simp add: frame_def)
  let ?p2 = "(PGO s2)\<lparr>StmtCountMap := Some (CountMap s2)\<rparr>"
  have pg: "pgo_ok ?p2" "rcount ?p2 = rcount (PGO s2)" if "pgo_ok (PGO s2)"
    using that by (auto simp: pgo_ok_def rcount_def fun_eq_iff split: option.splits)
  have "PGO ?s = profileOf rs pgo1" by (simp add: ComputeRegionCounts_init_def)
  with fr pf(1) have fin: "pgo_ok (PGO s2)" "rcount (PGO s2) = rcount (profileOf rs pgo1)"
    by (simp_all add: frame_def)
  show ?thesis
  proof (rule that)
    show "computeRegionCounts (FuncDeclaration p fbody) (profileOf rs pgo1)
        = Some ((PGO s2)\<lparr>StmtCountMap := Some (CountMap s2)\<rparr>)"
      using s1(1) s2(1) by (simp add: computeRegionCounts_def visit_FuncDecl_def)
    show "pgo_ok ?p2" by (rule pg(1) [OF fin(1)])
    show "rcount ?p2 q = of_nat (?T (Inc q))" if "q \<in> ?R" for q
      using pf(2) [of q] that pg(2) [OF fin(1)] fin(2) by simp
  qed (use c in \<open>force+\<close>)
qed

end
