(* ===== verification/CodeGenPGO.thy ===== *)
theory CodeGenPGO
  imports PGOEndToEnd
begin

text \<open>
  The rest of class \<open>CodeGenPGO\<close> (gen/pgo_ASTbased.h and .cpp): reading the profile, the
  calls to the profiling runtime, branch weights and value profiling. The profile reader and
  the naming of functions are LLVM's and parameters here. Where a method ends in an assertion
  the result is an option, and \<open>None\<close> is the failure.
\<close>

section \<open>Statement counts\<close>

definition getStmtCount :: "ptr \<Rightarrow> CodeGenPGO \<Rightarrow> bool \<times> u64" where
  "getStmtCount S pgo =
     (case StmtCountMap pgo of
        None \<Rightarrow> (False, 0)
      | Some m \<Rightarrow> (case m S of None \<Rightarrow> (False, 0) | Some c \<Rightarrow> (True, c)))"

definition getCurrentRegionCount :: "CodeGenPGO \<Rightarrow> u64" where
  "getCurrentRegionCount pgo = CurrentRegionCount pgo"

definition setCurrentRegionCount :: "u64 \<Rightarrow> CodeGenPGO \<Rightarrow> CodeGenPGO" where
  "setCurrentRegionCount count pgo = pgo\<lparr>CurrentRegionCount := count\<rparr>"

definition setCurrentStmt :: "ptr \<Rightarrow> CodeGenPGO \<Rightarrow> u64 \<times> CodeGenPGO" where
  "setCurrentStmt S pgo =
     (let (known, count) = getStmtCount S pgo;
          pgo' = (if known then setCurrentRegionCount count pgo else pgo)
      in (CurrentRegionCount pgo', pgo'))"

section \<open>Loading a profile\<close>

datatype instrprof_error = unknown_function | hash_mismatch | malformed | other_error

datatype diagnostic = HashMismatchWarning | LoadWarning

type_synonym profile_reader = "string \<Rightarrow> u64 \<Rightarrow> instrprof_error + InstrProfRecord"

definition loadRegionCounts :: "profile_reader \<Rightarrow> CodeGenPGO \<Rightarrow> diagnostic list \<times> CodeGenPGO" where
  "loadRegionCounts reader pgo =
     (case reader (FuncName pgo) (FunctionHash pgo) of
        Inl ipe \<Rightarrow>
          (if ipe = unknown_function then []
           else if ipe = hash_mismatch then [HashMismatchWarning]
           else if ipe = malformed then [HashMismatchWarning]
           else [LoadWarning],
           pgo\<lparr>RegionCounts := []\<rparr>)
      | Inr rec \<Rightarrow> ([], pgo\<lparr>ProfRecord := Some rec, RegionCounts := Counts rec\<rparr>))"

text \<open>\<open>applyFunctionAttributes\<close>: the entry count that is set on the function, if any.\<close>

definition applyFunctionAttributes :: "CodeGenPGO \<Rightarrow> (u64 option \<times> CodeGenPGO) option" where
  "applyFunctionAttributes pgo =
     (if \<not> haveRegionCounts pgo then Some (None, pgo)
      else map_option (\<lambda>(c, pgo'). (Some c, pgo')) (getRegionCount nullptr pgo))"

text \<open>
  \<open>assignRegionCounters\<close>: the warnings, the function's entry count and the new state.
  \<open>D_emit\<close> is \<open>D->emitInstrumentation\<close>.
\<close>

definition assignRegionCounters ::
  "(u8 list \<Rightarrow> u64) \<Rightarrow> (string \<Rightarrow> string) \<Rightarrow> bool \<Rightarrow> profile_reader option \<Rightarrow> bool \<Rightarrow> string \<Rightarrow> ptr ast
     \<Rightarrow> CodeGenPGO \<Rightarrow> (diagnostic list \<times> u64 option \<times> CodeGenPGO) option" where
  "assignRegionCounters md5_low getPGOFuncName isInstrumenting PGOReader D_emit fnName D pgo =
     (if \<not> isInstrumenting \<and> PGOReader = None then Some ([], None, pgo)
      else do {
        let pgo0 = pgo\<lparr>emitInstrumentation := D_emit, FuncName := getPGOFuncName fnName\<rparr>;
        pgo1 \<leftarrow> mapRegionCounters md5_low D pgo0;
        case PGOReader of
          None \<Rightarrow> Some ([], None, pgo1)
        | Some reader \<Rightarrow> do {
            let (ws, pgo2) = loadRegionCounts reader pgo1;
            pgo3 \<leftarrow> computeRegionCounts D pgo2;
            (entry, pgo4) \<leftarrow> applyFunctionAttributes pgo3;
            Some (ws, entry, pgo4) } })"

section \<open>Calls to the profiling runtime\<close>

datatype runtime_call =
  instrprof_increment string u64 nat nat
| instrprof_value_profile string u64 u32 u32

definition emitCounterIncrement :: "bool \<Rightarrow> ptr \<Rightarrow> CodeGenPGO \<Rightarrow> runtime_call list option" where
  "emitCounterIncrement isInstrumenting S pgo =
     (case RegionCounterMap pgo of
        None \<Rightarrow> Some []
      | Some m \<Rightarrow>
          if \<not> isInstrumenting \<or> \<not> emitInstrumentation pgo then Some []
          else map_option (\<lambda>counter.
              [instrprof_increment (FuncName pgo) (FunctionHash pgo) (NumRegionCounters pgo) counter])
            (map_of m S))"

datatype value_action =
  NoAction
| CallRuntime runtime_call
| AnnotateSite u32 u32

text \<open>
  \<open>valueProfile\<close>: what is emitted, and the state after it. The arguments \<open>valueSite\<close> and
  \<open>value\<close> say whether the two pointers are set; the pointer cast and the insertion point
  belong to the emitted call.
\<close>

definition valueProfile :: "bool \<Rightarrow> u32 \<Rightarrow> bool \<Rightarrow> bool \<Rightarrow> CodeGenPGO \<Rightarrow> value_action \<times> CodeGenPGO" where
  "valueProfile isInstrumenting valueKind valueSite value pgo =
     (if \<not> value \<or> \<not> valueSite then (NoAction, pgo)
      else
        let n = NumValueSites pgo valueKind;
            pgo' = pgo\<lparr>NumValueSites := (NumValueSites pgo)(valueKind := n + 1)\<rparr>
        in if isInstrumenting \<and> emitInstrumentation pgo \<and> RegionCounterMap pgo \<noteq> None
           then (CallRuntime (instrprof_value_profile (FuncName pgo) (FunctionHash pgo) valueKind n), pgo')
           else case ProfRecord pgo of
               None \<Rightarrow> (NoAction, pgo)
             | Some rec \<Rightarrow>
                 if n \<ge> getNumValueSites rec valueKind then (NoAction, pgo)
                 else (AnnotateSite valueKind n, pgo'))"

definition IPVK_IndirectCallTarget :: u32 where
  "IPVK_IndirectCallTarget = 0"

definition emitIndirectCallPGO :: "bool \<Rightarrow> bool \<Rightarrow> bool \<Rightarrow> bool \<Rightarrow> CodeGenPGO \<Rightarrow> value_action \<times> CodeGenPGO" where
  "emitIndirectCallPGO enablePGOIndirectCalls isInstrumenting callSite funcPtr pgo =
     (if enablePGOIndirectCalls then valueProfile isInstrumenting IPVK_IndirectCallTarget callSite funcPtr pgo
      else (NoAction, pgo))"

section \<open>Branch weights\<close>

definition UINT32_MAX :: u64 where
  "UINT32_MAX = 0xFFFFFFFF"

definition calculateWeightScale :: "u64 \<Rightarrow> u64" where
  "calculateWeightScale MaxWeight = (if MaxWeight < UINT32_MAX then 1 else MaxWeight div UINT32_MAX + 1)"

definition scaleBranchWeight :: "u64 \<Rightarrow> u64 \<Rightarrow> u32 option" where
  "scaleBranchWeight Weight Scale =
     (if Scale = 0 then None
      else let Scaled = Weight div Scale + 1
           in if Scaled \<le> UINT32_MAX then Some (ucast Scaled) else None)"

text \<open>The metadata node, or \<open>Some None\<close> for a null node.\<close>

definition createProfileWeights :: "u64 \<Rightarrow> u64 \<Rightarrow> (u32 \<times> u32) option option" where
  "createProfileWeights TrueCount FalseCount =
     (if TrueCount = 0 \<and> FalseCount = 0 then Some None
      else do {
        let Scale = calculateWeightScale (max TrueCount FalseCount);
        t \<leftarrow> scaleBranchWeight TrueCount Scale;
        f \<leftarrow> scaleBranchWeight FalseCount Scale;
        Some (Some (t, f)) })"

fun mapM :: "('a \<Rightarrow> 'b option) \<Rightarrow> 'a list \<Rightarrow> 'b list option" where
  "mapM f [] = Some []"
| "mapM f (x # xs) = do { y \<leftarrow> f x; ys \<leftarrow> mapM f xs; Some (y # ys) }"

definition createProfileWeights_list :: "u64 list \<Rightarrow> u32 list option option" where
  "createProfileWeights_list Weights =
     (if length Weights < 2 then Some None
      else
        let MaxWeight = fold max (tl Weights) (hd Weights)
        in if MaxWeight = 0 then Some None
           else map_option Some (mapM (\<lambda>w. scaleBranchWeight w (calculateWeightScale MaxWeight)) Weights))"

text \<open>The part that the four methods for loops share, once the count of the condition is looked up.\<close>

definition loopWeights :: "bool \<times> u64 \<Rightarrow> u64 \<Rightarrow> (u32 \<times> u32) option option" where
  "loopWeights StmtCount LoopCount =
     (if \<not> fst StmtCount then None
      else if snd StmtCount = 0 then Some None
      else createProfileWeights LoopCount (max (snd StmtCount) LoopCount - LoopCount))"

definition createProfileWeightsWhileLoop :: "ptr \<Rightarrow> u64 \<Rightarrow> CodeGenPGO \<Rightarrow> (u32 \<times> u32) option option" where
  "createProfileWeightsWhileLoop Cond LoopCount pgo =
     (if \<not> haveRegionCounts pgo then Some None
      else loopWeights (getStmtCount Cond pgo) LoopCount)"

definition createProfileWeightsForLoop :: "ptr \<Rightarrow> ptr \<Rightarrow> CodeGenPGO \<Rightarrow> (u32 \<times> u32) option option" where
  "createProfileWeightsForLoop stmt condition pgo =
     (if \<not> haveRegionCounts pgo then Some None
      else do {
        (LoopCount, pgo') \<leftarrow> getRegionCount stmt pgo;
        loopWeights (getStmtCount (if condition \<noteq> nullptr then condition else getCounterPtr stmt 1) pgo')
          LoopCount })"

definition createProfileWeightsForeach :: "ptr \<Rightarrow> CodeGenPGO \<Rightarrow> (u32 \<times> u32) option option" where
  "createProfileWeightsForeach stmt pgo =
     (if \<not> haveRegionCounts pgo then Some None
      else do {
        (LoopCount, pgo') \<leftarrow> getRegionCount stmt pgo;
        loopWeights (getStmtCount (getCounterPtr stmt 1) pgo') LoopCount })"

definition createProfileWeightsForeachRange :: "ptr \<Rightarrow> CodeGenPGO \<Rightarrow> (u32 \<times> u32) option option" where
  "createProfileWeightsForeachRange stmt pgo =
     (if \<not> haveRegionCounts pgo then Some None
      else do {
        (LoopCount, pgo') \<leftarrow> getRegionCount stmt pgo;
        loopWeights (getStmtCount (getCounterPtr stmt 1) pgo') LoopCount })"

section \<open>The weights fit into 32 bits\<close>

lemma scale_nat:
  "unat (calculateWeightScale m) = (if unat m < 4294967295 then 1 else unat m div 4294967295 + 1)"
proof (cases "m < UINT32_MAX")
  case True
  then show ?thesis by (simp add: calculateWeightScale_def UINT32_MAX_def word_less_nat_alt)
next
  case False
  have "unat m < 2 ^ 64" using unsigned_less [of m] by simp
  then have "unat m div 4294967295 + 1 < 2 ^ 64" by (simp add: less_mult_imp_div_less)
  with False show ?thesis
    by (simp add: calculateWeightScale_def UINT32_MAX_def word_less_nat_alt unat_word_ariths unat_div_distrib)
qed

lemma scaled_bound:
  assumes "w \<le> m"
  shows "unat w div unat (calculateWeightScale m) + 1 \<le> 4294967295"
proof -
  have w: "unat w \<le> unat m" using assms by (simp add: word_le_nat_alt)
  show ?thesis
  proof (cases "unat m < 4294967295")
    case True
    with w show ?thesis by (simp add: scale_nat)
  next
    case False
    let ?k = "unat m div 4294967295"
    have "unat m < 4294967295 * (?k + 1)"
      using dividend_less_times_div [of 4294967295 "unat m"] by simp
    with w have "unat w div (?k + 1) < 4294967295"
      by (intro less_mult_imp_div_less) (simp add: algebra_simps)
    with False show ?thesis by (simp add: scale_nat)
  qed
qed

lemma scaleBranchWeight_ok:
  assumes "w \<le> m"
  obtains s where "scaleBranchWeight w (calculateWeightScale m) = Some s"
    "unat s = unat w div unat (calculateWeightScale m) + 1"
proof -
  let ?c = "calculateWeightScale m"
  note b = scaled_bound [OF assms]
  have c: "?c \<noteq> 0" using scale_nat [of m] by (auto split: if_splits)
  have n: "unat (w div ?c + 1) = unat w div unat ?c + 1"
    using b by (simp add: unat_word_ariths unat_div_distrib)
  with b c that [of "ucast (w div ?c + 1)"] show ?thesis
    by (simp add: scaleBranchWeight_def UINT32_MAX_def word_le_nat_alt unsigned_ucast_eq take_bit_nat_eq_self)
qed

section \<open>What the propagation leaves alone\<close>

text \<open>
  Whatever the tree, a visit changes nothing of the profile but the map of counters, which
  \<open>DenseMap::operator[]\<close> extends; the stack of jump targets has its old depth afterwards, and
  labels are only added.
\<close>

definition kept :: "ComputeRegionCounts \<Rightarrow> ComputeRegionCounts \<Rightarrow> bool" where
  "kept s s' \<longleftrightarrow> (PGO s')\<lparr>RegionCounterMap := None\<rparr> = (PGO s)\<lparr>RegionCounterMap := None\<rparr>
     \<and> length (BreakContinueStack s') = length (BreakContinueStack s)
     \<and> (\<exists>ext. LoopLabels s' = LoopLabels s @ ext)"

definition keeps :: "crc \<Rightarrow> bool" where
  "keeps v \<longleftrightarrow> (\<forall>s s'. v s = Some s' \<longrightarrow> kept s s')"

lemma keepsI: "(\<And>s s'. v s = Some s' \<Longrightarrow> kept s s') \<Longrightarrow> keeps v"
  by (simp add: keeps_def)

lemma keepsD: "keeps v \<Longrightarrow> v s = Some s' \<Longrightarrow> kept s s'"
  by (simp add: keeps_def)

lemma kept_trans: "kept s s' \<Longrightarrow> kept s' s'' \<Longrightarrow> kept s s''"
  by (auto simp: kept_def)

lemma kept_same:
  "PGO s' = PGO s \<Longrightarrow> length (BreakContinueStack s') = length (BreakContinueStack s) \<Longrightarrow>
     LoopLabels s' = LoopLabels s \<Longrightarrow> kept s s'"
  by (simp add: kept_def)

lemma getRegionCount_map:
  "getRegionCount p pgo = Some (c, pgo') \<Longrightarrow> pgo'\<lparr>RegionCounterMap := None\<rparr> = pgo\<lparr>RegionCounterMap := None\<rparr>"
  by (auto simp: getRegionCount_def Let_def split: option.splits if_splits prod.splits)

lemma regionCount_kept:
  assumes "regionCount p s = Some (c, s')"
  shows "kept s s'"
proof -
  from assms obtain pgo' where "getRegionCount p (PGO s) = Some (c, pgo')" "s' = s\<lparr>PGO := pgo'\<rparr>"
    by (auto simp: regionCount_def split: Option.bind_splits)
  with getRegionCount_map [of p "PGO s" c pgo'] show ?thesis by (auto simp: kept_def)
qed

lemma popBC_SomeE:
  assumes "popBC s = Some (bc, s')"
  obtains "PGO s' = PGO s" "Suc (length (BreakContinueStack s')) = length (BreakContinueStack s)" "LoopLabels s' = LoopLabels s"
  using assms by (cases "BreakContinueStack s") (auto simp: popBC_def)

text \<open>One lemma per method.\<close>

lemma keeps_comp:
  assumes "keeps v" "\<And>s s'. v s = Some s' \<Longrightarrow> keeps w"
  shows "keeps (\<lambda>s. do { s1 \<leftarrow> v s; w s1 })"
proof (rule keepsI)
  fix s s' assume "do { s1 \<leftarrow> v s; w s1 } = Some s'"
  then obtain s1 where "v s = Some s1" "w s1 = Some s'" by (auto split: Option.bind_splits)
  with keepsD [OF assms(1)] keepsD [OF assms(2)] show "kept s s'" by (blast intro: kept_trans)
qed

lemma keeps_FuncDecl:
  assumes v: "keeps v"
  shows "keeps (visit_FuncDecl b v)"
  by (rule keepsI) (auto simp: visit_FuncDecl_def visitWith_def Let_def kept_def
      split: Option.bind_splits if_splits dest!: keepsD [OF v(1)] regionCount_kept elim!: popBC_SomeE)

lemma keeps_Return:
  assumes v: "keeps v"
  shows "keeps (visit_Return p v)"
  by (rule keepsI) (auto simp: visit_Return_def visitWith_def Let_def kept_def
      split: Option.bind_splits if_splits dest!: keepsD [OF v(1)] regionCount_kept elim!: popBC_SomeE)

lemma keeps_Throw:
  assumes v: "keeps v"
  shows "keeps (visit_Throw p v)"
  by (rule keepsI) (auto simp: visit_Throw_def visitWith_def Let_def kept_def
      split: Option.bind_splits if_splits dest!: keepsD [OF v(1)] regionCount_kept elim!: popBC_SomeE)

lemma keeps_Label:
  assumes v: "keeps v"
  shows "keeps (visit_Label p v)"
  by (rule keepsI) (auto simp: visit_Label_def visitWith_def Let_def kept_def
      split: Option.bind_splits if_splits dest!: keepsD [OF v(1)] regionCount_kept elim!: popBC_SomeE)

lemma keeps_Unrolled:
  assumes v: "keeps v"
  shows "keeps (visit_Unrolled p v)"
  by (rule keepsI) (auto simp: visit_Unrolled_def visitWith_def Let_def kept_def
      split: Option.bind_splits if_splits dest!: keepsD [OF v(1)] regionCount_kept elim!: popBC_SomeE)

lemma keeps_While:
  assumes v: "keeps vc" "keeps vb"
  shows "keeps (visit_While p c vc b vb)"
  by (rule keepsI) (auto simp: visit_While_def visitWith_def Let_def kept_def
      split: Option.bind_splits if_splits dest!: keepsD [OF v(1)] keepsD [OF v(2)] regionCount_kept elim!: popBC_SomeE)

lemma keeps_Do:
  assumes v: "keeps vc" "keeps vb"
  shows "keeps (visit_Do p b vb c vc)"
  by (rule keepsI) (auto simp: visit_Do_def visitWith_def Let_def kept_def
      split: Option.bind_splits if_splits dest!: keepsD [OF v(1)] keepsD [OF v(2)] regionCount_kept elim!: popBC_SomeE)

lemma keeps_For:
  assumes v: "keeps vi" "keeps vc" "keeps vb" "keeps vj"
  shows "keeps (visit_For p vi c vc b vb j vj)"
  by (rule keepsI) (auto simp: visit_For_def visitWith_def Let_def kept_def
      split: Option.bind_splits if_splits dest!: keepsD [OF v(1)] keepsD [OF v(2)] keepsD [OF v(3)] keepsD [OF v(4)] regionCount_kept elim!: popBC_SomeE)

lemma keeps_Foreach:
  assumes v: "keeps va" "keeps vb"
  shows "keeps (visit_Foreach p va b vb)"
  by (rule keepsI) (auto simp: visit_Foreach_def foreachBody_def visitWith_def Let_def kept_def
      split: Option.bind_splits if_splits dest!: keepsD [OF v(1)] keepsD [OF v(2)] regionCount_kept elim!: popBC_SomeE)

lemma keeps_ForeachRange:
  assumes v: "keeps vl" "keeps vu" "keeps vb"
  shows "keeps (visit_ForeachRange p vl vu b vb)"
  by (rule keepsI) (auto simp: visit_ForeachRange_def foreachBody_def visitWith_def Let_def kept_def
      split: Option.bind_splits if_splits dest!: keepsD [OF v(1)] keepsD [OF v(2)] keepsD [OF v(3)] regionCount_kept elim!: popBC_SomeE)

lemma keeps_Switch:
  assumes v: "keeps vc" "keeps vb"
  shows "keeps (visit_Switch p vc vb)"
  by (rule keepsI) (auto simp: visit_Switch_def forwardContinue_def addContinue_def visitWith_def Let_def kept_def
      split: Option.bind_splits if_splits dest!: keepsD [OF v(1)] keepsD [OF v(2)] regionCount_kept elim!: popBC_SomeE)

lemma keeps_Case:
  assumes v: "keeps v"
  shows "keeps (visit_Case p g v)"
  by (rule keepsI) (auto simp: visit_Case_def enterCase_def visitWith_def Let_def kept_def
      split: Option.bind_splits if_splits dest!: keepsD [OF v(1)] regionCount_kept elim!: popBC_SomeE)

lemma keeps_Default:
  assumes v: "keeps v"
  shows "keeps (visit_Default p g v)"
  by (rule keepsI) (auto simp: visit_Default_def enterCase_def visitWith_def Let_def kept_def
      split: Option.bind_splits if_splits dest!: keepsD [OF v(1)] regionCount_kept elim!: popBC_SomeE)

lemma keeps_If:
  assumes v: "keeps vc" "keeps va" "keeps vb"
  shows "keeps (visit_If p vc a va b vb)"
  by (rule keepsI) (auto simp: visit_If_def visitWith_def Let_def kept_def
      split: Option.bind_splits if_splits dest!: keepsD [OF v(1)] keepsD [OF v(2)] keepsD [OF v(3)] regionCount_kept elim!: popBC_SomeE)

lemma keeps_TryCatch:
  assumes v: "keeps v" "keeps w"
  shows "keeps (visit_TryCatch_CRC p v w)"
  by (rule keepsI) (auto simp: visit_TryCatch_CRC_def visitWith_def Let_def kept_def
      split: Option.bind_splits if_splits dest!: keepsD [OF v(1)] keepsD [OF v(2)] regionCount_kept elim!: popBC_SomeE)

lemma keeps_TryFinally:
  assumes v: "keeps v" "keeps w"
  shows "keeps (visit_TryFinally_CRC p v w)"
  by (rule keepsI) (auto simp: visit_TryFinally_CRC_def visitWith_def Let_def kept_def
      split: Option.bind_splits if_splits dest!: keepsD [OF v(1)] keepsD [OF v(2)] regionCount_kept elim!: popBC_SomeE)

lemma keeps_CondExp:
  assumes v: "keeps vc" "keeps va" "keeps vb"
  shows "keeps (visit_CondExp p vc a va b vb)"
  by (rule keepsI) (auto simp: visit_CondExp_def visitWith_def Let_def kept_def
      split: Option.bind_splits if_splits dest!: keepsD [OF v(1)] keepsD [OF v(2)] keepsD [OF v(3)] regionCount_kept elim!: popBC_SomeE)

lemma keeps_Logical:
  assumes v: "keeps va" "keeps vb"
  shows "keeps (visit_LogicalExp p va b vb)"
  by (rule keepsI) (auto simp: visit_LogicalExp_def visitWith_def Let_def kept_def
      split: Option.bind_splits if_splits dest!: keepsD [OF v(1)] keepsD [OF v(2)] regionCount_kept elim!: popBC_SomeE)

lemma keeps_Region:
  assumes v: "keeps v"
  shows "keeps (visitRegion p v)"
  by (rule keepsI) (auto simp: visitRegion_def visitWith_def Let_def kept_def
      split: Option.bind_splits if_splits dest!: keepsD [OF v(1)] regionCount_kept elim!: popBC_SomeE)

lemma keeps_Some: "keeps Some"
  by (rule keepsI) (auto intro: kept_same)

lemma keeps_jumps: "keeps (visit_Break p t)" "keeps (visit_Continue p t)" "keeps (visit_Leaf k p)"
  "keeps (\<lambda>s. Some (RecordStmtCount p s))" "keeps (\<lambda>s. None)"
  by (auto intro!: keepsI kept_same simp: visit_Break_def visit_Continue_def visit_Leaf_def Let_def addBreak_def
      addContinue_def split: Option.bind_splits if_splits)

lemma visit_CRC_keeps:
  "keeps (visit_CRC a)" "keeps (visits_CRC xs)" "keeps (visitRegions_CRC xs)"
  by (induction a and xs and xs rule: visit_CRC_visits_CRC_visitRegions_CRC.induct)
    (simp_all add: keeps_Some keeps_jumps keeps_comp keeps_FuncDecl keeps_Return keeps_Throw keeps_Label
      keeps_Unrolled keeps_While keeps_Do keeps_For keeps_Foreach keeps_ForeachRange keeps_Switch keeps_Case
      keeps_Default keeps_If keeps_TryCatch keeps_TryFinally keeps_CondExp keeps_Logical keeps_Region)

section \<open>Branch weights of loops\<close>

text \<open>
  What the loop statements of gen/statements.cpp compute for their branch on the condition. The
  counter of a \<open>do\<close> loop includes the entry from the statement before it, so the visitor
  subtracts the count that \<open>setCurrentStmt\<close> returned when it started the loop.
\<close>

definition whileWeights :: "ptr \<Rightarrow> ptr \<Rightarrow> CodeGenPGO \<Rightarrow> (u32 \<times> u32) option option" where
  "whileWeights stmt condition pgo = do {
     (loopcount, pgo') \<leftarrow> getRegionCount stmt pgo;
     createProfileWeightsWhileLoop condition loopcount pgo' }"

definition doWeights :: "ptr \<Rightarrow> ptr \<Rightarrow> CodeGenPGO \<Rightarrow> (u32 \<times> u32) option option" where
  "doWeights stmt condition pgo =
     (let (entryCount, pgo1) = setCurrentStmt stmt pgo in do {
        (regionCount, pgo') \<leftarrow> getRegionCount stmt pgo1;
        let loopcount = regionCount - entryCount;
        createProfileWeightsWhileLoop condition loopcount pgo' })"

fun loopBranchWeights :: "ptr ast \<Rightarrow> CodeGenPGO \<Rightarrow> (u32 \<times> u32) option option" where
  "loopBranchWeights (WhileStatement p c b) pgo = whileWeights p (addr c) pgo"
| "loopBranchWeights (DoStatement p b c) pgo = doWeights p (addr c) pgo"
| "loopBranchWeights (ForStatement p i c b inc) pgo = createProfileWeightsForLoop p (addr c) pgo"
| "loopBranchWeights (ForeachStatement p a b) pgo = createProfileWeightsForeach p pgo"
| "loopBranchWeights (ForeachRangeStatement p l u b) pgo = createProfileWeightsForeachRange p pgo"
| "loopBranchWeights _ pgo = Some None"

fun is_Do :: "'p ast \<Rightarrow> bool" where
  "is_Do (DoStatement _ _ _) = True"
| "is_Do _ = False"

text \<open>
  The object whose statement count is the number of times the condition was evaluated, for each
  of the five loop statements (a \<open>do\<close> statement always has a condition: its visitor dereferences it).
\<close>

fun loop_condition :: "ptr ast \<Rightarrow> ptr option" where
  "loop_condition (WhileStatement p c b) = Some (addr c)"
| "loop_condition (DoStatement p b c) = (if c = Null then None else Some (addr c))"
| "loop_condition (ForStatement p i c b inc) = Some (if c = Null then getCounterPtr p 1 else addr c)"
| "loop_condition (ForeachStatement p a b) = Some (getCounterPtr p 1)"
| "loop_condition (ForeachRangeStatement p l u b) = Some (getCounterPtr p 1)"
| "loop_condition _ = None"

lemma getRegionCount_ok:
  assumes "pgo_ok pgo"
  obtains pgo' where "getRegionCount p pgo = Some (rcount pgo p, pgo')" "haveRegionCounts pgo'"
    "StmtCountMap pgo' = StmtCountMap pgo" "haveRegionCounts pgo"
proof -
  let ?s = "(ComputeRegionCounts_init pgo)"
  have "pgo_ok (PGO ?s)" using assms by (simp add: ComputeRegionCounts_init_def)
  from regionCount_ok [OF this, of p] obtain pgo' where
    r: "regionCount p ?s = Some (rcount (PGO ?s) p, ?s\<lparr>PGO := pgo'\<rparr>)" .
  then have g: "getRegionCount p pgo = Some (rcount pgo p, pgo')"
    by (auto simp: regionCount_def ComputeRegionCounts_init_def split: Option.bind_splits)
  from getRegionCount_map [OF g] have "StmtCountMap pgo' = StmtCountMap pgo" "RegionCounts pgo' = RegionCounts pgo"
    by (metis CodeGenPGO.select_convs CodeGenPGO.surjective CodeGenPGO.update_convs(5))+
  moreover have "haveRegionCounts pgo" using assms by (auto simp: pgo_ok_def haveRegionCounts_def)
  ultimately show ?thesis using that g by (simp add: haveRegionCounts_def)
qed

text \<open>The count on entry to a statement: its own when it has one, else that of the region it lies in.\<close>

definition entryCount :: "ptr \<Rightarrow> CodeGenPGO \<Rightarrow> u64" where
  "entryCount p pgo = fst (setCurrentStmt p pgo)"

lemma entryCount_eq: "StmtCountMap pgo = Some M \<Longrightarrow>
    entryCount p pgo = (case M p of Some c \<Rightarrow> c | None \<Rightarrow> CurrentRegionCount pgo)"
  by (auto simp: entryCount_def setCurrentStmt_def getStmtCount_def setCurrentRegionCount_def split: option.splits)

lemma setCurrentStmt_pgo_ok: "pgo_ok pgo \<Longrightarrow> pgo_ok (snd (setCurrentStmt p pgo))"
  "rcount (snd (setCurrentStmt p pgo)) q = rcount pgo q"
  "StmtCountMap (snd (setCurrentStmt p pgo)) = StmtCountMap pgo"
  by (auto simp: setCurrentStmt_def setCurrentRegionCount_def pgo_ok_def rcount_def Let_def split_beta
      split: option.splits)

lemma while_loop_weights:
  assumes "pgo_ok pgo" "StmtCountMap pgo = Some M" "M c = Some k"
  shows "whileWeights p c pgo = loopWeights (True, k) (rcount pgo p)"
    and "doWeights p c pgo = loopWeights (True, k) (rcount pgo p - entryCount p pgo)"
proof -
  show "whileWeights p c pgo = loopWeights (True, k) (rcount pgo p)"
    by (rule getRegionCount_ok [OF assms(1), of p])
      (use assms(2,3) in \<open>simp add: whileWeights_def createProfileWeightsWhileLoop_def getStmtCount_def\<close>)
  obtain e pgo1 where e: "setCurrentStmt p pgo = (e, pgo1)" by (cases "setCurrentStmt p pgo")
  with setCurrentStmt_pgo_ok [where pgo = pgo and p = p] assms
  have o: "pgo_ok pgo1" "rcount pgo1 p = rcount pgo p" "StmtCountMap pgo1 = Some M" by simp_all
  show "doWeights p c pgo = loopWeights (True, k) (rcount pgo p - entryCount p pgo)"
    by (rule getRegionCount_ok [OF o(1), of p]) (use assms(3) e o(2,3) in
        \<open>simp add: doWeights_def createProfileWeightsWhileLoop_def getStmtCount_def entryCount_def\<close>)
qed

lemma getRegionCount_none: "\<not> haveRegionCounts pgo \<Longrightarrow> getRegionCount p pgo = Some (0, pgo)"
  by (simp add: getRegionCount_def split: option.splits)

lemma haveRegionCounts_setCurrentStmt: "haveRegionCounts (snd (setCurrentStmt p pgo)) = haveRegionCounts pgo"
  by (simp add: setCurrentStmt_def setCurrentRegionCount_def haveRegionCounts_def Let_def split_beta)

lemma no_loop_weights: "\<not> haveRegionCounts pgo \<Longrightarrow> whileWeights p c pgo = Some None"
  "\<not> haveRegionCounts pgo \<Longrightarrow> doWeights p c pgo = Some None"
  by (simp_all add: whileWeights_def doWeights_def getRegionCount_none createProfileWeightsWhileLoop_def
      haveRegionCounts_setCurrentStmt split_beta)

lemma loopBranchWeights_eq:
  assumes "pgo_ok pgo" "loop_condition n = Some c" "StmtCountMap pgo = Some M" "M c = Some k"
    "structured L d n" "own_addresses R n"
  shows "loopBranchWeights n pgo
     = loopWeights (True, k) (rcount pgo (addr n) - (if is_Do n then entryCount (addr n) pgo else 0))"
proof -
  obtain pgo' where g: "getRegionCount (addr n) pgo = Some (rcount pgo (addr n), pgo')" "haveRegionCounts pgo'"
    "StmtCountMap pgo' = StmtCountMap pgo" "haveRegionCounts pgo"
    using getRegionCount_ok [OF assms(1)] .
  have st: "getStmtCount c pgo' = (True, k)" using g(3) assms(3,4) by (simp add: getStmtCount_def)
  note w = while_loop_weights [OF assms(1,3,4), of "addr n"]
  show ?thesis
  proof (cases n)
    case (ForStatement p i c' b inc)
    with own_addresses_child [OF assms(6), of c'] have "own_addresses R c'" by simp
    from addr_nullptr_iff [OF this] ForStatement g st assms(2) show ?thesis
      by (auto simp: createProfileWeightsForLoop_def)
  qed (use g st assms(2) w in \<open>auto simp: createProfileWeightsForeach_def
      createProfileWeightsForeachRange_def split: if_splits\<close>)
qed

lemma recorded_condition: "loop_condition n = Some c \<Longrightarrow> structured L d n \<Longrightarrow> own_addresses R n \<Longrightarrow>
    c \<in> recorded n \<and> c \<noteq> nullptr \<and> addr n \<in> set (node_keys n)"
proof -
  assume a: "loop_condition n = Some c" "structured L d n" "own_addresses R n"
  show ?thesis
  proof (cases n)
    case (WhileStatement p c' b)
    with own_addresses_child [OF a(3), of c'] have "own_addresses R c'" by simp
    from addr_nullptr_iff [OF this] WhileStatement a show ?thesis by (auto simp: opt_def)
  next
    case (DoStatement p b c')
    with own_addresses_child [OF a(3), of c'] have "own_addresses R c'" by simp
    from addr_nullptr_iff [OF this] DoStatement a show ?thesis by (auto simp: opt_def)
  next
    case (ForStatement p i c' b inc)
    with own_addresses_child [OF a(3), of c'] have "own_addresses R c'" by simp
    from addr_nullptr_iff [OF this] ForStatement a show ?thesis by (auto simp: own_addresses_def keys_tl)
  qed (use a in \<open>auto simp: own_addresses_def keys_tl\<close>)
qed

text \<open>What a node of the structured part contributes, the tree around it has.\<close>

lemma structured_child:
  assumes "structured L d a" "x \<in> set (children a)"
  shows "\<exists>L' d'. structured L' d' x"
  using assms by (cases a) (auto simp: list_all_iff)

lemma recorded_child:
  assumes "structured L d a" "x \<in> set (children a)"
  shows "recorded x \<subseteq> recorded a"
  using assms by (cases a) auto

lemma visit_order_sub:
  assumes "structured L d a" "own_addresses R a" "x \<in> set (visit_order is_Func a)"
  shows "recorded x \<subseteq> recorded a \<and> set (node_keys x) \<subseteq> set (gkeys a) \<and> own_addresses R x \<and> (\<exists>L' d'. structured L' d' x)"
  using assms
proof (induction a arbitrary: L d rule: ast_children_induct)
  case (node a)
  from node.prems have vis: "\<not> skipped True a" "\<not> is_Func a"
    by (auto simp: visit_order.simps [of _ a] split: if_splits) (cases a; simp)+
  from node.prems(3) vis consider "x = a" | y where "y \<in> set (children a)" "x \<in> set (visit_order is_Func y)"
    by (auto simp: visit_order.simps [of _ a] split: if_splits)
  then show ?case
  proof cases
    case 1
    with node.prems gkeys_sub(1) [OF vis] show ?thesis by blast
  next
    case (2 y)
    obtain L' d' where "structured L' d' y" using structured_child [OF node.prems(1) 2(1)] by blast
    from node.IH [OF 2(1) this own_addresses_child [OF node.prems(2) vis 2(1)] 2(2)]
      recorded_child [OF node.prems(1) 2(1)] gkeys_sub(2) [OF vis 2(1)] show ?thesis by blast
  qed
qed

end
