(* ===== verification/PGOProperties.thy ===== *)
theory PGOProperties
  imports CodeGenPGO
begin

text \<open>
  The properties of profile-guided optimisation, each with a concrete instance.
\<close>

section \<open>A function to look at\<close>

text \<open>
  The body of \<^verbatim>\<open>void f() { while (c) { if (x) break; } return; }\<close> and two of its runs: the
  first leaves the loop by \<open>break\<close>, the second never enters it.
\<close>

definition demo_body :: "ptr ast" where
  "demo_body = CompoundStatement 16
     [WhileStatement 32 (Leaf Expression 48)
        (IfStatement 64 (Leaf Expression 80) (BreakStatement 96 None) Null),
      ReturnStatement 112 Null]"

definition demo_runs :: "run list" where
  "demo_runs =
     [([Inc 16, Enter 16, Enter 32, Enter 48, Inc 32, Enter 64, Enter 80, Inc 64, Enter 96, Enter 112], Ret),
      ([Inc 16, Enter 16, Enter 32, Enter 48, Enter 112], Ret)]"

lemma prefixedI: "(t, out) \<in> A \<Longrightarrow> (e # t, out) \<in> prefixed [e] A"
  by (force simp: prefixed_def)

lemma andThenI: "(t1, Normal) \<in> A \<Longrightarrow> (t2, out) \<in> B \<Longrightarrow> (t1 @ t2, out) \<in> andThen A B"
  by (force simp: andThen_def)

lemma andThen_leaveI: "(t, out) \<in> A \<Longrightarrow> out \<noteq> Normal \<Longrightarrow> (t, out) \<in> andThen A B"
  by (force simp: andThen_def)

lemma demo_runs_ok: "set demo_runs \<subseteq> functionRuns demo_body"
proof -
  let ?c = "{([Enter 48], Normal)}"
  have ret: "([Enter 112], Ret) \<in> exec Map.empty 0 (ReturnStatement 112 Null)"
    using prefixedI [OF andThenI [of "[]" _ "[]" Ret]] by simp
  have tail: "([Enter 112], Ret) \<in> execs Map.empty 0 [ReturnStatement 112 Null]"
    using andThen_leaveI [OF ret] by simp
  let ?b = "exec Map.empty (Suc 0) (IfStatement 64 (Leaf Expression 80) (BreakStatement 96 None) Null)"
  have "([Enter 96], Brk 0) \<in> exec Map.empty (Suc 0) (BreakStatement 96 None)" by simp
  then have "([Inc 64, Enter 96], Brk 0) \<in> prefixed [Inc 64] (exec Map.empty (Suc 0) (BreakStatement 96 None))"
    by (rule prefixedI)
  then have "([Enter 80] @ [Inc 64, Enter 96], Brk 0) \<in> andThen (exec Map.empty (Suc 0) (Leaf Expression 80))
      (prefixed [Inc 64] (exec Map.empty (Suc 0) (BreakStatement 96 None)) \<union> exec Map.empty (Suc 0) Null)"
    by (intro andThenI) simp_all
  then have body: "([Enter 64, Enter 80, Inc 64, Enter 96], Brk 0) \<in> ?b"
    using prefixedI by simp
  have loop1: "([Enter 48, Inc 32, Enter 64, Enter 80, Inc 64, Enter 96], Normal) \<in> loopRuns 32 0 ?c ?b {([], Normal)}"
    using loopRuns.break [OF _ body, of "[Enter 48]"] by simp
  have loop2: "([Enter 48], Normal) \<in> loopRuns 32 0 ?c ?b {([], Normal)}"
    by (rule loopRuns.exit) simp
  let ?w = "exec Map.empty 0 (WhileStatement 32 (Leaf Expression 48)
        (IfStatement 64 (Leaf Expression 80) (BreakStatement 96 None) Null))"
  have w: "([Enter 32, Enter 48, Inc 32, Enter 64, Enter 80, Inc 64, Enter 96], Normal) \<in> ?w"
    "([Enter 32, Enter 48], Normal) \<in> ?w"
    using prefixedI [OF loop1] prefixedI [OF loop2] by simp_all
  have "(Inc 16 # Enter 16 # (t @ [Enter 112]), Ret) \<in> functionRuns demo_body" if "(t, Normal) \<in> ?w" for t
    using prefixedI [OF prefixedI [OF andThenI [OF that tail]]] by (simp add: functionRuns_def demo_body_def)
  from this [OF w(1)] this [OF w(2)] show ?thesis by (simp add: demo_runs_def)
qed

lemma demo_instrumentable: "instrumentable demo_body"
  by (simp add: instrumentable_def demo_body_def mappable_def fn_regions_def visit_order.simps keys_tl
      node_regions_def quiet_def)

lemma demo_mapped: "\<exists>pgo1. mapRegionCounters (\<lambda>_. 0) (FuncDeclaration 8 demo_body) CodeGenPGO_init = Some pgo1"
  using demo_instrumentable mapRegionCounters_eq [of demo_body] by (simp add: instrumentable_def)

section \<open>Properties\<close>

text \<open>
  C1: the counts that \<open>computeRegionCounts\<close> derives from a profile are the true ones. For
  every function body in the structured part of the language and every collection of its
  runs in which no exception leaves a call: number the counters with \<open>mapRegionCounters\<close>, fill them with the increments of the
  runs, and propagate. The propagation succeeds; every node that gets a count of its own has
  exactly the number of times the runs entered it; and no node has a wrong count.
\<close>

theorem region_counts_exact:
  assumes "instrumentable fbody" "set rs \<subseteq> functionRuns fbody"
    "mapRegionCounters md5_low (FuncDeclaration p fbody) pgo = Some pgo1"
  shows "\<exists>pgo2 M. computeRegionCounts (FuncDeclaration p fbody) (profileOf rs pgo1) = Some pgo2
     \<and> StmtCountMap pgo2 = Some M
     \<and> (\<forall>q\<in>insert (addr fbody) (recorded fbody). q \<noteq> nullptr \<longrightarrow> M q = Some (of_nat (evs rs (Enter q))))
     \<and> (\<forall>q c. q \<noteq> nullptr \<longrightarrow> M q = Some c \<longrightarrow> c = of_nat (evs rs (Enter q)))"
  using function_counts_exact [OF assms] by metis

theorem region_counts_exact_witness:
  "\<exists>pgo1 pgo2 M. mapRegionCounters (\<lambda>_. 0) (FuncDeclaration 8 demo_body) CodeGenPGO_init = Some pgo1
     \<and> computeRegionCounts (FuncDeclaration 8 demo_body) (profileOf demo_runs pgo1) = Some pgo2
     \<and> StmtCountMap pgo2 = Some M \<and> M 16 = Some 2 \<and> M 48 = Some 2 \<and> M 64 = Some 1 \<and> M 96 = Some 1"
proof -
  from demo_mapped obtain pgo1
    where m: "mapRegionCounters (\<lambda>_. 0) (FuncDeclaration 8 demo_body) CodeGenPGO_init = Some pgo1" by blast
  from region_counts_exact [OF demo_instrumentable demo_runs_ok m] obtain pgo2 M where
    c: "computeRegionCounts (FuncDeclaration 8 demo_body) (profileOf demo_runs pgo1) = Some pgo2"
      "StmtCountMap pgo2 = Some M"
    and M: "\<And>q. q \<in> insert (addr demo_body) (recorded demo_body) \<Longrightarrow> q \<noteq> nullptr \<Longrightarrow>
        M q = Some (of_nat (evs demo_runs (Enter q)))"
    by blast
  have r: "insert (addr demo_body) (recorded demo_body) = {16, 48, 64, 96}"
    by (auto simp: demo_body_def opt_def)
  have "M 16 = Some 2" "M 48 = Some 2" "M 64 = Some 1" "M 96 = Some 1"
    using M [unfolded r, of 16] M [unfolded r, of 48] M [unfolded r, of 64] M [unfolded r, of 96]
    by (simp_all add: demo_runs_def)
  with m c show ?thesis by blast
qed

text \<open>
  C2: whatever the tree, when \<open>mapRegionCounters\<close> returns, every object has at most one
  counter, and the counters are \<open>0\<close> to \<open>NumRegionCounters - 1\<close>, each used once, in the order
  in which the objects were met.
\<close>

theorem region_counters_numbered:
  assumes "mapRegionCounters md5_low D pgo = Some pgo1"
  shows "\<exists>m. RegionCounterMap pgo1 = Some m \<and> distinct (map fst m)
     \<and> map snd m = [0..<NumRegionCounters pgo1] \<and> 0 < NumRegionCounters pgo1"
proof -
  from assms obtain s where s: "walk (plain_walker visit_MRC True) D MapRegionCounters_init = Some s"
    "0 < NextCounter s" "NextCounter s = length (CounterMap s)"
    "RegionCounterMap pgo1 = Some (CounterMap s)" "NumRegionCounters pgo1 = NextCounter s"
    by (auto simp: mapRegionCounters_def split: Option.bind_splits if_splits)
  have "counters_inv MapRegionCounters_init" by (simp add: counters_inv_def MapRegionCounters_init_def)
  from mrc_counters.walk_inv [OF this s(1)] s show ?thesis by (simp add: counters_inv_def)
qed

theorem region_counters_numbered_witness:
  "\<exists>pgo1 m. mapRegionCounters (\<lambda>_. 0) (FuncDeclaration 8 demo_body) CodeGenPGO_init = Some pgo1
     \<and> RegionCounterMap pgo1 = Some m \<and> distinct (map fst m) \<and> map snd m = [0..<NumRegionCounters pgo1]"
proof -
  from demo_mapped obtain pgo1
    where m: "mapRegionCounters (\<lambda>_. 0) (FuncDeclaration 8 demo_body) CodeGenPGO_init = Some pgo1" by blast
  from region_counters_numbered [OF m] m show ?thesis by blast
qed

text \<open>
  C4: on a tree whose region nodes are all distinct, the counters are those of the body and
  then of the regions in pre-order, and the function hash is the hash of the region types in
  that order: nested functions contribute nothing.
\<close>

theorem mapRegionCounters_preorder:
  assumes "mappable fbody"
  shows "mapRegionCounters md5_low (FuncDeclaration p fbody) pgo = Some (pgo
     \<lparr>RegionCounterMap :=
        Some (zip (addr fbody # map fst (fn_regions fbody)) [0..<Suc (length (fn_regions fbody))]),
      NumRegionCounters := Suc (length (fn_regions fbody)),
      FunctionHash := the (sequence_hash md5_low (map snd (fn_regions fbody)))\<rparr>)"
  by (rule mapRegionCounters_eq [OF assms])

theorem mapRegionCounters_preorder_witness:
  "map_option (\<lambda>pgo. (RegionCounterMap pgo, NumRegionCounters pgo))
     (mapRegionCounters (\<lambda>_. 0) (FuncDeclaration 8 demo_body) CodeGenPGO_init)
   = Some (Some [(16, 0), (32, 1), (64, 2)], 3)"
proof -
  have m: "mappable demo_body" using demo_instrumentable by (simp add: instrumentable_def)
  have "fn_regions demo_body = [(32, WhileStmt), (64, IfStmt)]"
    by (simp add: fn_regions_def demo_body_def visit_order.simps node_regions_def)
  moreover have "addr demo_body = 16" by (simp add: demo_body_def)
  ultimately show ?thesis by (simp add: mapRegionCounters_preorder [OF m] upt_rec)
qed

text \<open>
  C5: the function hash and the number of counters depend on the shape of the body only, not
  on where its nodes lie in memory: a profile written by one run of the compiler is accepted
  by the next.
\<close>

theorem hash_depends_on_shape:
  assumes "map_ast (\<lambda>_. ()) fbody = map_ast (\<lambda>_. ()) fbody'" "mappable fbody" "mappable fbody'"
    "mapRegionCounters md5_low (FuncDeclaration p fbody) pgo = Some pgo1"
    "mapRegionCounters md5_low (FuncDeclaration p' fbody') pgo' = Some pgo1'"
  shows "FunctionHash pgo1 = FunctionHash pgo1' \<and> NumRegionCounters pgo1 = NumRegionCounters pgo1'"
proof -
  note t = fn_types_shape [OF assms(1)]
  from arg_cong [OF t, of length] have "length (fn_regions fbody) = length (fn_regions fbody')" by simp
  with t assms(4,5) show ?thesis
    by (auto simp: mapRegionCounters_eq [OF assms(2)] mapRegionCounters_eq [OF assms(3)])
qed

definition demo_body' :: "ptr ast" where
  "demo_body' = map_ast (\<lambda>p. p + 4096) demo_body"

theorem hash_depends_on_shape_witness:
  "\<exists>pgo1 pgo1'. mapRegionCounters (\<lambda>_. 0) (FuncDeclaration 8 demo_body) CodeGenPGO_init = Some pgo1
     \<and> mapRegionCounters (\<lambda>_. 0) (FuncDeclaration 8 demo_body') CodeGenPGO_init = Some pgo1'
     \<and> FunctionHash pgo1 = FunctionHash pgo1' \<and> NumRegionCounters pgo1 = NumRegionCounters pgo1'"
proof -
  have m: "mappable demo_body" "mappable demo_body'"
    by (simp_all add: demo_body'_def demo_body_def mappable_def fn_regions_def visit_order.simps node_regions_def)
  have s: "map_ast (\<lambda>_. ()) demo_body = map_ast (\<lambda>_. ()) demo_body'"
    by (simp add: demo_body'_def demo_body_def)
  obtain pgo1 pgo1' where
    p: "mapRegionCounters (\<lambda>_. 0) (FuncDeclaration 8 demo_body) CodeGenPGO_init = Some pgo1"
    "mapRegionCounters (\<lambda>_. 0) (FuncDeclaration 8 demo_body') CodeGenPGO_init = Some pgo1'"
    using mapRegionCounters_eq [OF m(1)] mapRegionCounters_eq [OF m(2)] by blast
  from hash_depends_on_shape [OF s m p] p show ?thesis by blast
qed

text \<open>
  C6: two different sequences of region types are hashed to the images of different inputs:
  up to ten types the input is the hash itself, beyond that it is the message given to MD5.
  So functions with at most ten regions each never have the same hash, and longer ones only
  if MD5 collides on the two messages.
\<close>

theorem hash_distinguishes:
  assumes "ts \<noteq> us" "length ts < 2 ^ 32" "length us < 2 ^ 32" "HashNone \<notin> set ts" "HashNone \<notin> set us"
  shows "\<exists>i j. i \<noteq> j \<and> (isl i \<longleftrightarrow> length ts \<le> 10) \<and> (isl j \<longleftrightarrow> length us \<le> 10)
     \<and> (\<forall>md5_low. sequence_hash md5_low ts = Some (case i of Inl w \<Rightarrow> w | Inr bs \<Rightarrow> md5_low bs)
          \<and> sequence_hash md5_low us = Some (case j of Inl w \<Rightarrow> w | Inr bs \<Rightarrow> md5_low bs))"
proof -
  from combine_all_inv [OF assms(2,4)] obtain h gs g where h: "combine_all ts = Some h" "hash_inv ts gs g h" by blast
  from combine_all_inv [OF assms(3,5)] obtain k gs' g' where k: "combine_all us = Some k" "hash_inv us gs' g' k" by blast
  have "digest_input h \<noteq> digest_input k"
    using digest_input_inj [OF h(1) k(1) assms(2-5)] assms(1) by blast
  moreover have "isl (digest_input h) \<longleftrightarrow> length ts \<le> 10" "isl (digest_input k) \<longleftrightarrow> length us \<le> 10"
    using digest_input_inv [OF h(2) assms(2,4)] digest_input_inv [OF k(2) assms(3,5)] by simp_all
  ultimately show ?thesis
    using h(1) k(1)
    by (intro exI [of _ "digest_input h"] exI [of _ "digest_input k"])
      (simp add: sequence_hash_def finalize_digest_input)
qed

theorem hash_distinguishes_witness:
  "sequence_hash (\<lambda>_. 0) [WhileStmt, IfStmt] \<noteq> sequence_hash (\<lambda>_. 0) [IfStmt, WhileStmt]"
proof -
  obtain i j where ij: "i \<noteq> j" "isl i" "isl j"
    "\<And>md5_low. sequence_hash md5_low [WhileStmt, IfStmt] = Some (case i of Inl w \<Rightarrow> w | Inr bs \<Rightarrow> md5_low bs)"
    "\<And>md5_low. sequence_hash md5_low [IfStmt, WhileStmt] = Some (case j of Inl w \<Rightarrow> w | Inr bs \<Rightarrow> md5_low bs)"
    using hash_distinguishes [of "[WhileStmt, IfStmt]" "[IfStmt, WhileStmt]"] by auto
  then show ?thesis by (cases i; cases j) simp_all
qed

text \<open>
  C3: the branch weights of loops come from true counts. For every \<open>while\<close>, \<open>do\<close>, \<open>for\<close>,
  \<open>foreach\<close> and \<open>foreach\<close> range statement of a function in the structured part of the language,
  the compiler finds a count for the condition (the assertion on it holds), and it is the number
  of times the runs evaluated the condition, to be weighed against the number of times they went
  from the condition into the body: the number of times they entered the body, less, for a \<open>do\<close>
  loop, the number of times they came to the loop from before it. For a \<open>do\<close> statement that
  \<open>ComputeRegionCounts\<close> left without a count of its own, the count of the region that the code
  generator is in, \<open>cur\<close>, is taken for the entries, so there it has to be that number.
\<close>

theorem loop_weights_exact:
  assumes "instrumentable fbody" "set rs \<subseteq> functionRuns fbody"
    "mapRegionCounters md5_low (FuncDeclaration p fbody) pgo = Some pgo1"
    "n \<in> set (visit_order is_Func fbody)" "loop_condition n = Some c"
  shows "\<exists>pgo2 M. computeRegionCounts (FuncDeclaration p fbody) (profileOf rs pgo1) = Some pgo2
     \<and> StmtCountMap pgo2 = Some M
     \<and> (\<forall>cur. (is_Do n \<and> M (addr n) = None \<longrightarrow> cur = of_nat (evs rs (Enter (addr n)))) \<longrightarrow>
          loopBranchWeights n (pgo2\<lparr>CurrentRegionCount := cur\<rparr>)
            = loopWeights (True, of_nat (evs rs (Enter c)))
                (of_nat (evs rs (Inc (addr n))) - (if is_Do n then of_nat (evs rs (Enter (addr n))) else 0)))"
proof -
  let ?R = "set (gkeys fbody)"
  from assms(1) have s: "structured Map.empty 0 fbody" and o: "own_addresses ?R fbody"
    by (auto simp: instrumentable_def own_addresses_def mappable_def gkeys_def)
  from visit_order_sub [OF s o assms(4)] obtain L d where n: "recorded n \<subseteq> recorded fbody"
    "set (node_keys n) \<subseteq> ?R" "own_addresses ?R n" "structured L d n" by blast
  from recorded_condition [OF assms(5) n(4,3)] have c: "c \<in> recorded n" "c \<noteq> nullptr" "addr n \<in> set (node_keys n)"
    by simp_all
  have an: "addr n \<noteq> nullptr" using addr_nullptr_iff [OF n(3)] assms(5) by auto
  show ?thesis
  proof (rule function_counts_exact [OF assms(1-3)])
    fix pgo2 M
    assume p2: "computeRegionCounts (FuncDeclaration p fbody) (profileOf rs pgo1) = Some pgo2" "StmtCountMap pgo2 = Some M"
      and M: "\<And>q. q \<in> insert (addr fbody) (recorded fbody) \<Longrightarrow> q \<noteq> nullptr \<Longrightarrow> M q = Some (of_nat (evs rs (Enter q)))"
      and M': "\<And>q c. q \<noteq> nullptr \<Longrightarrow> M q = Some c \<Longrightarrow> c = of_nat (evs rs (Enter q))"
      and ok: "pgo_ok pgo2" "\<And>q. q \<in> set (addr fbody # gkeys fbody) \<Longrightarrow> rcount pgo2 q = of_nat (evs rs (Inc q))"
    have Mc: "M c = Some (of_nat (evs rs (Enter c)))" using M [of c] c n(1) by blast
    have r: "rcount pgo2 (addr n) = of_nat (evs rs (Inc (addr n)))" using ok(2) [of "addr n"] c(3) n(2) by auto
    have "loopBranchWeights n (pgo2\<lparr>CurrentRegionCount := cur\<rparr>)
        = loopWeights (True, of_nat (evs rs (Enter c)))
            (of_nat (evs rs (Inc (addr n))) - (if is_Do n then of_nat (evs rs (Enter (addr n))) else 0))"
      if cur: "is_Do n \<and> M (addr n) = None \<longrightarrow> cur = of_nat (evs rs (Enter (addr n)))" for cur
    proof -
      let ?p = "pgo2\<lparr>CurrentRegionCount := cur\<rparr>"
      have o': "pgo_ok ?p" "StmtCountMap ?p = Some M" using ok(1) p2(2) by (auto simp: pgo_ok_def split: option.splits)
      have e: "is_Do n \<Longrightarrow> entryCount (addr n) ?p = of_nat (evs rs (Enter (addr n)))"
        using entryCount_eq [OF o'(2), of "addr n"] cur M' [OF an] by (auto split: option.splits)
      from loopBranchWeights_eq [OF o'(1) assms(5) o'(2) Mc n(4,3)] r e show ?thesis
        by (simp add: rcount_def)
    qed
    with p2 show ?thesis by blast
  qed
qed

definition demo_do :: "ptr ast" where
  "demo_do = DoStatement 32 (CompoundStatement 64 []) (Leaf Expression 48)"

definition demo_do_body :: "ptr ast" where
  "demo_do_body = CompoundStatement 16 [demo_do, ReturnStatement 112 Null]"

definition demo_do_runs :: "run list" where
  "demo_do_runs =
     [([Inc 16, Enter 16, Enter 32, Inc 32, Enter 64, Enter 48, Inc 32, Enter 64, Enter 48, Enter 112], Ret),
      ([Inc 16, Enter 16, Enter 32, Inc 32, Enter 64, Enter 48, Enter 112], Ret)]"

lemma demo_do_runs_ok: "set demo_do_runs \<subseteq> functionRuns demo_do_body"
proof -
  let ?c = "{([Enter 48], Normal)}" and ?b = "exec Map.empty (Suc 0) (CompoundStatement 64 [])"
  have ret: "([Enter 112], Ret) \<in> exec Map.empty 0 (ReturnStatement 112 Null)"
    using prefixedI [OF andThenI [of "[]" _ "[]" Ret]] by simp
  have tail: "([Enter 112], Ret) \<in> execs Map.empty 0 [ReturnStatement 112 Null]"
    using andThen_leaveI [OF ret] by simp
  have b: "([Enter 64], Normal) \<in> ?b" using prefixedI [of "[]" Normal] by simp
  have once: "([Inc 32, Enter 64, Enter 48], Normal) \<in> doRuns 32 0 ?c ?b"
    using doRuns.exit [OF b, of 0 "[Enter 48]" ?c 32] by (simp add: goesOn_def)
  have twice: "([Inc 32, Enter 64, Enter 48, Inc 32, Enter 64, Enter 48], Normal) \<in> doRuns 32 0 ?c ?b"
    using doRuns.again [OF b _ _ once, of "[Enter 48]"] by (simp add: goesOn_def)
  have w: "([Enter 32, Inc 32, Enter 64, Enter 48], Normal) \<in> exec Map.empty 0 demo_do"
    "([Enter 32, Inc 32, Enter 64, Enter 48, Inc 32, Enter 64, Enter 48], Normal) \<in> exec Map.empty 0 demo_do"
    using prefixedI [OF once] prefixedI [OF twice] by (simp_all add: demo_do_def)
  have "(Inc 16 # Enter 16 # (t @ [Enter 112]), Ret) \<in> functionRuns demo_do_body"
    if "(t, Normal) \<in> exec Map.empty 0 demo_do" for t
    using prefixedI [OF prefixedI [OF andThenI [OF that tail]]] by (simp add: functionRuns_def demo_do_body_def)
  from this [OF w(1)] this [OF w(2)] show ?thesis by (simp add: demo_do_runs_def)
qed

theorem loop_weights_exact_witness:
  "\<exists>pgo1 pgo2. mapRegionCounters (\<lambda>_. 0) (FuncDeclaration 8 demo_do_body) CodeGenPGO_init = Some pgo1
     \<and> computeRegionCounts (FuncDeclaration 8 demo_do_body) (profileOf demo_do_runs pgo1) = Some pgo2
     \<and> loopBranchWeights demo_do (pgo2\<lparr>CurrentRegionCount := 2\<rparr>) = Some (Some (2, 3))"
proof -
  have i: "instrumentable demo_do_body"
    by (simp add: instrumentable_def demo_do_body_def demo_do_def mappable_def fn_regions_def visit_order.simps keys_tl
        node_regions_def quiet_def)
  then obtain pgo1
    where m: "mapRegionCounters (\<lambda>_. 0) (FuncDeclaration 8 demo_do_body) CodeGenPGO_init = Some pgo1"
    using mapRegionCounters_eq [of demo_do_body] by (auto simp: instrumentable_def)
  have n: "demo_do \<in> set (visit_order is_Func demo_do_body)" 
    by (simp add: demo_do_body_def demo_do_def visit_order.simps)
  have c: "loop_condition demo_do = Some 48" "is_Do demo_do" "addr demo_do = 32" by (simp_all add: demo_do_def)
  have w: "loopWeights (True, 3) 1 = Some (Some (2, 3))" by code_simp
  have "evs demo_do_runs (Enter 48) = 3" "evs demo_do_runs (Inc 32) = 3" "evs demo_do_runs (Enter 32) = 2"
    by (simp_all add: demo_do_runs_def)
  note e = this
  from loop_weights_exact [OF i demo_do_runs_ok m n c(1)] obtain pgo2 where
    p2: "computeRegionCounts (FuncDeclaration 8 demo_do_body) (profileOf demo_do_runs pgo1) = Some pgo2"
    and b: "\<And>cur. cur = of_nat (evs demo_do_runs (Enter (addr demo_do))) \<Longrightarrow>
      loopBranchWeights demo_do (pgo2\<lparr>CurrentRegionCount := cur\<rparr>) = loopWeights (True, of_nat (evs demo_do_runs (Enter 48)))
        (of_nat (evs demo_do_runs (Inc (addr demo_do))) - of_nat (evs demo_do_runs (Enter (addr demo_do))))"
    using c(2) by auto
  from b [of 2] have "loopBranchWeights demo_do (pgo2\<lparr>CurrentRegionCount := 2\<rparr>) = Some (Some (2, 3))"
    by (simp add: c(3) e w)
  with m p2 show ?thesis by blast
qed

text \<open>
  C7: an instrumented function only increments counters that exist: every counter that a run
  of the function increments is found by \<open>emitCounterIncrement\<close> (its assertion holds), and the
  index it emits is below the number of counters it announces to the runtime.
\<close>

theorem increments_in_range:
  assumes "instrumentable fbody" "mapRegionCounters md5_low (FuncDeclaration p fbody) pgo = Some pgo1"
    "emitInstrumentation pgo1" "(t, out) \<in> functionRuns fbody" "Inc q \<in> set t"
  shows "\<exists>k < NumRegionCounters pgo1. emitCounterIncrement True q pgo1
     = Some [instrprof_increment (FuncName pgo1) (FunctionHash pgo1) (NumRegionCounters pgo1) k]"
proof -
  let ?ks = "addr fbody # gkeys fbody"
  from assms(1) have s: "structured Map.empty 0 fbody" and m: "mappable fbody"
    and d: "distinct ?ks" by (auto simp: instrumentable_def mappable_def gkeys_def)
  have q: "q \<in> set ?ks"
    using assms(4,5) by (auto simp: functionRuns_def prefixed_def dest: withinD(2) [OF exec_within [OF s]])
  have mp: "RegionCounterMap pgo1 = Some (zip ?ks [0..<length ?ks])" "NumRegionCounters pgo1 = length ?ks"
    using assms(2) mapRegionCounters_eq [OF m, of md5_low p pgo] by (auto simp: gkeys_def simp del: upt_Suc)
  from q obtain k where k: "k < length ?ks" "?ks ! k = q" unfolding in_set_conv_nth by blast
  then have "(q, k) \<in> set (zip ?ks [0..<length ?ks])" unfolding in_set_zip by (auto simp del: upt_Suc)
  moreover have "distinct (map fst (zip ?ks [0..<length ?ks]))" using d by (simp del: upt_Suc)
  ultimately have "map_of (zip ?ks [0..<length ?ks]) q = Some k" by (intro map_of_is_SomeI)
  with k(1) mp assms(3) show ?thesis by (auto simp: emitCounterIncrement_def simp del: upt_Suc)
qed

theorem increments_in_range_witness:
  "\<exists>pgo1 k. mapRegionCounters (\<lambda>_. 0) (FuncDeclaration 8 demo_body) CodeGenPGO_init = Some pgo1
     \<and> k < NumRegionCounters pgo1 \<and> emitCounterIncrement True 64 pgo1
         = Some [instrprof_increment (FuncName pgo1) (FunctionHash pgo1) (NumRegionCounters pgo1) k]"
proof -
  have m: "mappable demo_body" using demo_instrumentable by (simp add: instrumentable_def)
  from mapRegionCounters_eq [OF m, of "\<lambda>_. 0" 8 CodeGenPGO_init] obtain pgo1
    where p: "mapRegionCounters (\<lambda>_. 0) (FuncDeclaration 8 demo_body) CodeGenPGO_init = Some pgo1"
      "emitInstrumentation pgo1" by (auto simp: CodeGenPGO_init_def)
  have r: "(fst (hd demo_runs), Ret) \<in> functionRuns demo_body" "Inc 64 \<in> set (fst (hd demo_runs))"
    using demo_runs_ok by (simp_all add: demo_runs_def)
  from increments_in_range [OF demo_instrumentable p r] p show ?thesis by blast
qed

text \<open>
  C10: branch weights fit into 32 bits. For all counts that are not both zero,
  \<open>createProfileWeights\<close> returns two positive 32-bit weights (neither of the assertions in
  \<open>scaleBranchWeight\<close> fails), the order of the counts is kept, and counts below \<open>2^32 - 1\<close> are
  kept exactly, plus one.
\<close>

theorem branch_weights_in_range:
  assumes "TrueCount \<noteq> 0 \<or> FalseCount \<noteq> 0"
  shows "\<exists>t f. createProfileWeights TrueCount FalseCount = Some (Some (t, f))
     \<and> 0 < t \<and> 0 < f \<and> (TrueCount \<le> FalseCount \<longrightarrow> t \<le> f) \<and> (FalseCount \<le> TrueCount \<longrightarrow> f \<le> t)
     \<and> (max TrueCount FalseCount < UINT32_MAX \<longrightarrow> unat t = unat TrueCount + 1 \<and> unat f = unat FalseCount + 1)"
proof -
  let ?m = "max TrueCount FalseCount" let ?c = "calculateWeightScale ?m"
  obtain t where t: "scaleBranchWeight TrueCount ?c = Some t" "unat t = unat TrueCount div unat ?c + 1"
    using scaleBranchWeight_ok [of TrueCount ?m] by auto
  obtain f where f: "scaleBranchWeight FalseCount ?c = Some f" "unat f = unat FalseCount div unat ?c + 1"
    using scaleBranchWeight_ok [of FalseCount ?m] by auto
  have "createProfileWeights TrueCount FalseCount = Some (Some (t, f))"
    using assms t(1) f(1) by (auto simp: createProfileWeights_def)
  moreover have "0 < t" "0 < f" using t(2) f(2) by (auto simp: word_less_nat_alt)
  moreover have "TrueCount \<le> FalseCount \<longrightarrow> t \<le> f" "FalseCount \<le> TrueCount \<longrightarrow> f \<le> t"
    using t(2) f(2) by (auto simp: word_le_nat_alt intro: div_le_mono)
  moreover have "?m < UINT32_MAX \<longrightarrow> unat ?c = 1"
    by (simp add: calculateWeightScale_def)
  ultimately show ?thesis using t(2) f(2) by auto
qed

theorem branch_weights_in_range_witness:
  "\<exists>t f. createProfileWeights 0xFFFFFFFFFFFFFFFF 1 = Some (Some (t, f)) \<and> 0 < t \<and> 0 < f \<and> f \<le> t"
proof -
  have "(0xFFFFFFFFFFFFFFFF :: u64) \<noteq> 0 \<or> (1 :: u64) \<noteq> 0" "(1 :: u64) \<le> 0xFFFFFFFFFFFFFFFF" by simp_all
  with branch_weights_in_range [of "0xFFFFFFFFFFFFFFFF" 1] show ?thesis by blast
qed

text \<open>
  C11: the same for the weights of a \<open>switch\<close>: for at least two weights that are not all zero,
  the list has one positive 32-bit weight for each, in the same order.
\<close>

lemma fold_max_ge: "x \<in> set (m # xs) \<Longrightarrow> x \<le> fold max xs (m :: 'a :: linorder)"
proof (induction xs arbitrary: x m)
  case (Cons y xs)
  have "max y m \<le> fold max xs (max y m)" by (rule Cons.IH) simp
  with Cons show ?case by (auto intro: order_trans)
qed simp

lemma mapM_total: "(\<And>x. x \<in> set xs \<Longrightarrow> \<exists>y. f x = Some y) \<Longrightarrow> \<exists>ys. mapM f xs = Some ys"
  by (induction xs) fastforce+

lemma mapM_nth: "mapM f xs = Some ys \<Longrightarrow> length ys = length xs \<and> (\<forall>i<length xs. f (xs ! i) = Some (ys ! i))"
  by (induction xs arbitrary: ys) (auto split: Option.bind_splits simp: nth_Cons split: nat.splits)

theorem switch_weights_in_range:
  assumes "2 \<le> length Weights" "\<exists>w\<in>set Weights. w \<noteq> 0"
  shows "\<exists>us. createProfileWeights_list Weights = Some (Some us) \<and> length us = length Weights
     \<and> (\<forall>u\<in>set us. 0 < u)
     \<and> (\<forall>i<length Weights. \<forall>j<length Weights. Weights ! i \<le> Weights ! j \<longrightarrow> us ! i \<le> us ! j)"
proof -
  let ?m = "fold max (tl Weights) (hd Weights)" let ?c = "calculateWeightScale ?m"
  have hd: "hd Weights # tl Weights = Weights" using assms(1) by (cases Weights) auto
  have le: "w \<le> ?m" if "w \<in> set Weights" for w using fold_max_ge [of w "hd Weights" "tl Weights"] that hd by simp
  have m: "?m \<noteq> 0" using assms(2) le by fastforce
  have ok: "\<exists>s. scaleBranchWeight w ?c = Some s \<and> unat s = unat w div unat ?c + 1" if "w \<in> set Weights" for w
    using scaleBranchWeight_ok [OF le [OF that]] by metis
  from mapM_total [of Weights "\<lambda>w. scaleBranchWeight w ?c"] ok obtain us where
    us: "mapM (\<lambda>w. scaleBranchWeight w ?c) Weights = Some us" by blast
  from mapM_nth [OF us] have n: "length us = length Weights"
    "\<And>i. i < length Weights \<Longrightarrow> scaleBranchWeight (Weights ! i) ?c = Some (us ! i)" by auto
  have v: "unat (us ! i) = unat (Weights ! i) div unat ?c + 1" if "i < length Weights" for i
    using ok [of "Weights ! i"] n(2) [OF that] that by auto
  have "createProfileWeights_list Weights = Some (Some us)"
    using assms(1) m us by (simp add: createProfileWeights_list_def)
  moreover have "\<forall>u\<in>set us. 0 < u"
    using v n(1) by (auto simp: in_set_conv_nth word_less_nat_alt)
  moreover have "\<forall>i<length Weights. \<forall>j<length Weights. Weights ! i \<le> Weights ! j \<longrightarrow> us ! i \<le> us ! j"
    using v by (auto simp: word_le_nat_alt intro: div_le_mono)
  ultimately show ?thesis using n(1) by blast
qed

theorem switch_weights_in_range_witness:
  "\<exists>us. createProfileWeights_list [0, 5, 0x200000000] = Some (Some us) \<and> length us = 3 \<and> (\<forall>u\<in>set us. 0 < u)"
proof -
  have "2 \<le> length [0, 5, 0x200000000 :: u64]" "\<exists>w\<in>set [0, 5, 0x200000000 :: u64]. w \<noteq> 0" by simp_all
  from switch_weights_in_range [OF this] show ?thesis by auto
qed

text \<open>
  C8: whatever the tree, if the propagation returns, it has changed nothing of the profile
  but added entries to the map of counters, its stack of jump targets is as deep as before,
  and no label was forgotten.
\<close>

theorem visit_balanced:
  assumes "visit_CRC a s = Some s'"
  shows "(PGO s')\<lparr>RegionCounterMap := None\<rparr> = (PGO s)\<lparr>RegionCounterMap := None\<rparr>
     \<and> length (BreakContinueStack s') = length (BreakContinueStack s)
     \<and> (\<exists>ext. LoopLabels s' = LoopLabels s @ ext)"
  using keepsD [OF visit_CRC_keeps(1) assms] by (simp add: kept_def)

theorem visit_balanced_witness:
  "\<exists>s'. visit_CRC (LabelStatement 16 (WhileStatement 32 (Leaf Expression 48) (BreakStatement 64 (Some 16))))
       (ComputeRegionCounts_init CodeGenPGO_init) = Some s'
     \<and> length (BreakContinueStack s') = 0 \<and> LoopLabels s' = [(16, 0)]"
proof -
  let ?a = "LabelStatement 16 (WhileStatement 32 (Leaf Expression 48) (BreakStatement 64 (Some 16)))"
  let ?s = "ComputeRegionCounts_init CodeGenPGO_init"
  obtain s' where s': "visit_CRC ?a ?s = Some s'" "LoopLabels s' = [(16, 0)]"
    by (simp add: visit_Label_def visit_While_def visit_Break_def visit_Leaf_def regionCount_def getRegionCount_def
        visitWith_def jumpIndex_def popBC_def ComputeRegionCounts_init_def CodeGenPGO_init_def pushBC_def addBreak_def
        setCount_def setRecord_def putCount_def RecordStmtCount_def finish_def unreachableNext_def Let_def)
  from visit_balanced [OF s'(1)] have "length (BreakContinueStack s') = 0"
    by (simp add: ComputeRegionCounts_init_def)
  with s' show ?thesis by blast
qed

text \<open>
  C9: a profile that cannot be loaded is ignored. Whatever error the reader reports for the
  function's name and hash, the function gets no entry count, all region counts are zero, no
  loop gets branch weights, and the user is warned unless the function is just unknown.
\<close>

theorem bad_profile_ignored:
  assumes "assignRegionCounters md5_low getPGOFuncName inst (Some reader) D_emit fnName D pgo = Some (ws, entry, pgo')"
    "reader (getPGOFuncName fnName) (FunctionHash pgo') = Inl e"
  shows "entry = None \<and> (ws = [] \<longleftrightarrow> e = unknown_function)
     \<and> (\<forall>S. getRegionCount S pgo' = Some (0, pgo')) \<and> (\<forall>n. loopBranchWeights n pgo' = Some None)"
proof -
  let ?p0 = "pgo\<lparr>emitInstrumentation := D_emit, FuncName := getPGOFuncName fnName\<rparr>"
  from assms(1) obtain pgo1 pgo2 pgo3 where p: "mapRegionCounters md5_low D ?p0 = Some pgo1"
    "loadRegionCounts reader pgo1 = (ws, pgo2)" "computeRegionCounts D pgo2 = Some pgo3"
    "applyFunctionAttributes pgo3 = Some (entry, pgo')"
    by (auto simp: assignRegionCounters_def Let_def split: Option.bind_splits prod.splits)
  from p(1) have n: "FuncName pgo1 = getPGOFuncName fnName"
    by (auto simp: mapRegionCounters_def split: Option.bind_splits if_splits)
  from p(3) obtain s where s: "visit_CRC D (ComputeRegionCounts_init pgo2) = Some s"
    "pgo3 = (PGO s)\<lparr>StmtCountMap := Some (CountMap s)\<rparr>"
    by (auto simp: computeRegionCounts_def split: Option.bind_splits)
  from keepsD [OF visit_CRC_keeps(1) s(1)]
  have k: "(PGO s)\<lparr>RegionCounterMap := None\<rparr> = pgo2\<lparr>RegionCounterMap := None\<rparr>"
    by (simp add: kept_def ComputeRegionCounts_init_def)
  have k3: "RegionCounts pgo3 = RegionCounts pgo2" "FunctionHash pgo3 = FunctionHash pgo2"
    using arg_cong [OF k, of RegionCounts] arg_cong [OF k, of FunctionHash] s(2) by simp_all
  have h: "FunctionHash pgo' = FunctionHash pgo1"
  proof -
    have "FunctionHash pgo' = FunctionHash pgo3"
      using p(4) arg_cong [OF getRegionCount_map, of nullptr pgo3 _ pgo' FunctionHash]
      by (auto simp: applyFunctionAttributes_def split: if_splits)
    moreover have "FunctionHash pgo2 = FunctionHash pgo1"
      using p(2) by (auto simp: loadRegionCounts_def split: sum.splits)
    ultimately show ?thesis using k3 by simp
  qed
  with assms(2) n have e: "reader (FuncName pgo1) (FunctionHash pgo1) = Inl e" by simp
  with p(2) have w: "ws = [] \<longleftrightarrow> e = unknown_function" "RegionCounts pgo2 = []"
    by (auto simp: loadRegionCounts_def split: if_splits)
  with k3 have no: "\<not> haveRegionCounts pgo3" by (simp add: haveRegionCounts_def)
  with p(4) have f: "entry = None" "pgo' = pgo3" by (simp_all add: applyFunctionAttributes_def)
  have g: "getRegionCount S pgo' = Some (0, pgo')" for S
    using no f(2) by (simp add: getRegionCount_def split: option.splits)
  then have "loopBranchWeights n pgo' = Some None" for n
    using no f(2) by (cases n) (simp_all add: createProfileWeightsForLoop_def createProfileWeightsForeach_def
        createProfileWeightsForeachRange_def no_loop_weights)
  with f(1) w(1) g show ?thesis by blast
qed

theorem bad_profile_ignored_witness:
  "\<exists>ws entry pgo'. assignRegionCounters (\<lambda>_. 0) id False (Some (\<lambda>_ _. Inl hash_mismatch)) True ''f''
       (FuncDeclaration 8 (WhileStatement 32 (Leaf Expression 48) Null)) CodeGenPGO_init = Some (ws, entry, pgo')
     \<and> entry = None \<and> ws \<noteq> [] \<and> getRegionCount 32 pgo' = Some (0, pgo')"
proof -
  let ?D = "FuncDeclaration 8 (WhileStatement 32 (Leaf Expression 48) Null)"
  have "\<exists>r. assignRegionCounters (\<lambda>_. 0) id False (Some (\<lambda>_ _. Inl hash_mismatch)) True ''f'' ?D CodeGenPGO_init = Some r"
    by (simp add: assignRegionCounters_def mapRegionCounters_def MapRegionCounters_init_def call_visitor_def plain_walker_def
        visit_FuncDeclaration_def assign_counter_def SKIP_VISITED_def void_def orelse_def recurse_def
        loadRegionCounts_def computeRegionCounts_def ComputeRegionCounts_init_def visit_FuncDecl_def visitWith_def
        regionCount_def getRegionCount_def haveRegionCounts_def visit_While_def popBC_def pushBC_def
        visit_Leaf_def finish_def setRecord_def setCount_def putCount_def RecordStmtCount_def
        applyFunctionAttributes_def CodeGenPGO_init_def Let_def)
  then obtain ws entry pgo' where
    r: "assignRegionCounters (\<lambda>_. 0) id False (Some (\<lambda>_ _. Inl hash_mismatch)) True ''f'' ?D CodeGenPGO_init
      = Some (ws, entry, pgo')" by (metis prod_cases3)
  from bad_profile_ignored [OF r refl] r show ?thesis by blast
qed

text \<open>
  C12: the two builds of a program agree on the numbering of value sites. If a sequence of
  profiled values is compiled with instrumentation, and then again with the profile that has
  the sites recorded by the first build, every site of the second build is annotated, with the
  kind and index that the first build gave to the runtime.
\<close>

fun valueProfiles :: "bool \<Rightarrow> u32 list \<Rightarrow> CodeGenPGO \<Rightarrow> value_action list \<times> CodeGenPGO" where
  "valueProfiles inst [] pgo = ([], pgo)"
| "valueProfiles inst (k # ks) pgo =
     (let (a, pgo1) = valueProfile inst k True True pgo; (as, pgo2) = valueProfiles inst ks pgo1 in (a # as, pgo2))"

fun siteList :: "u32 list \<Rightarrow> u32 list \<Rightarrow> (u32 \<times> u32) list" where
  "siteList pre [] = []"
| "siteList pre (k # ks) = (k, of_nat (count_list pre k)) # siteList (pre @ [k]) ks"

definition numbered :: "u32 list \<Rightarrow> CodeGenPGO \<Rightarrow> bool" where
  "numbered pre pgo \<longleftrightarrow> NumValueSites pgo = (\<lambda>k. of_nat (count_list pre k))"

lemma numbered_next: "numbered pre pgo \<Longrightarrow>
    numbered (pre @ [k]) (pgo\<lparr>NumValueSites := (NumValueSites pgo)(k := NumValueSites pgo k + 1)\<rparr>)"
  by (auto simp: numbered_def fun_eq_iff)

lemma instrumented_sites:
  assumes "numbered pre pgo" "emitInstrumentation pgo" "RegionCounterMap pgo \<noteq> None"
  shows "fst (valueProfiles True ks pgo)
      = map (\<lambda>(k, n). CallRuntime (instrprof_value_profile (FuncName pgo) (FunctionHash pgo) k n)) (siteList pre ks)
    \<and> numbered (pre @ ks) (snd (valueProfiles True ks pgo))"
  using assms
proof (induction ks arbitrary: pre pgo)
  case (Cons k ks)
  let ?p = "pgo\<lparr>NumValueSites := (NumValueSites pgo)(k := NumValueSites pgo k + 1)\<rparr>"
  from Cons.prems numbered_next [of pre pgo k] Cons.IH [of "pre @ [k]" ?p] show ?case
    by (auto simp: valueProfile_def Let_def numbered_def split: prod.splits)
qed simp

lemma annotated_sites:
  assumes "numbered pre pgo" "ProfRecord pgo = Some rec"
    "\<forall>k. getNumValueSites rec k = of_nat (count_list (pre @ ks) k)" "length (pre @ ks) < 2 ^ 32"
  shows "fst (valueProfiles False ks pgo) = map (\<lambda>(k, n). AnnotateSite k n) (siteList pre ks)"
  using assms
proof (induction ks arbitrary: pre pgo)
  case (Cons k ks)
  let ?p = "pgo\<lparr>NumValueSites := (NumValueSites pgo)(k := NumValueSites pgo k + 1)\<rparr>"
  have "count_list (pre @ k # ks) k < 2 ^ 32"
    using Cons.prems(4) count_le_length [of "pre @ k # ks" k] by linarith
  then have "unat (getNumValueSites rec k) = count_list (pre @ k # ks) k" "unat (NumValueSites pgo k) = count_list pre k"
    using Cons.prems(1,3) by (simp_all only: numbered_def) (rule unat_of_nat_small; simp)+
  then have less: "\<not> getNumValueSites rec k \<le> NumValueSites pgo k" by (simp add: word_le_nat_alt)
  have "fst (valueProfiles False ks ?p) = map (\<lambda>(k, n). AnnotateSite k n) (siteList (pre @ [k]) ks)"
    by (rule Cons.IH [OF numbered_next [OF Cons.prems(1)]]) (use Cons.prems(2-4) in simp_all)
  moreover have "NumValueSites pgo k = of_nat (count_list pre k)" using Cons.prems(1) by (simp add: numbered_def)
  ultimately show ?case
    using less Cons.prems(2) by (auto simp: valueProfile_def Let_def split: prod.splits)
qed simp

theorem value_sites_agree:
  assumes "length ks < 2 ^ 32" "NumValueSites pgo = (\<lambda>_. 0)" "emitInstrumentation pgo" "RegionCounterMap pgo \<noteq> None"
    "NumValueSites pgo' = (\<lambda>_. 0)" "ProfRecord pgo' = Some rec"
    "getNumValueSites rec = NumValueSites (snd (valueProfiles True ks pgo))"
  shows "\<exists>sites. length sites = length ks
     \<and> fst (valueProfiles True ks pgo)
         = map (\<lambda>(k, n). CallRuntime (instrprof_value_profile (FuncName pgo) (FunctionHash pgo) k n)) sites
     \<and> fst (valueProfiles False ks pgo') = map (\<lambda>(k, n). AnnotateSite k n) sites"
proof -
  have n: "numbered [] pgo" "numbered [] pgo'" using assms(2,5) by (simp_all add: numbered_def)
  note i = instrumented_sites [OF n(1) assms(3,4), of ks]
  then have "\<forall>k. getNumValueSites rec k = of_nat (count_list ([] @ ks) k)"
    using assms(7) by (simp add: numbered_def)
  from annotated_sites [OF n(2) assms(6) this] i assms(1)
  have "fst (valueProfiles False ks pgo') = map (\<lambda>(k, n). AnnotateSite k n) (siteList [] ks)" by simp
  moreover have "length (siteList pre ks) = length ks" for pre
    by (induction ks arbitrary: pre) simp_all
  ultimately show ?thesis using i by blast
qed

theorem value_sites_agree_witness:
  "fst (valueProfiles False [0, 1, 0] (CodeGenPGO_init\<lparr>ProfRecord := Some \<lparr>Counts = [], getNumValueSites =
       NumValueSites (snd (valueProfiles True [0, 1, 0] (CodeGenPGO_init\<lparr>RegionCounterMap := Some []\<rparr>)))\<rparr>\<rparr>))
     = [AnnotateSite 0 0, AnnotateSite 1 0, AnnotateSite 0 1]"
proof -
  let ?p = "CodeGenPGO_init\<lparr>RegionCounterMap := Some []\<rparr>"
  let ?r = "\<lparr>Counts = [], getNumValueSites = NumValueSites (snd (valueProfiles True [0, 1, 0] ?p))\<rparr>"
  from value_sites_agree [of "[0, 1, 0]" ?p "CodeGenPGO_init\<lparr>ProfRecord := Some ?r\<rparr>" ?r] obtain sites where
    s: "fst (valueProfiles True [0, 1, 0] ?p)
         = map (\<lambda>(k, n). CallRuntime (instrprof_value_profile (FuncName ?p) (FunctionHash ?p) k n)) sites"
      "fst (valueProfiles False [0, 1, 0] (CodeGenPGO_init\<lparr>ProfRecord := Some ?r\<rparr>)) = map (\<lambda>(k, n). AnnotateSite k n) sites"
    by (auto simp: CodeGenPGO_init_def)
  have "fst (valueProfiles True [0, 1, 0] ?p) = map (\<lambda>(k, n). CallRuntime (instrprof_value_profile (FuncName ?p) (FunctionHash ?p) k n))
      [(0, 0), (1, 0), (0, 1)]"
    by (simp add: valueProfile_def CodeGenPGO_init_def)
  with s(1) have "sites = [(0, 0), (1, 0), (0, 1)]"
    by (subst (asm) s(1), subst (asm) inj_map_eq_map) (auto intro!: injI)
  with s(2) show ?thesis by simp
qed

end
