(* ===== verification/LLTypes.thy ===== *)
theory LLTypes
  imports Prelude
begin

text \<open>
  The LLVM types the code generator builds, and what it asks LLVM's \<open>DataLayout\<close> about them
  (\<open>gen/tollvm.cpp\<close>, \<open>gen/llvm.h\<close>).

  \<open>DataLayout\<close> is LLVM code: it is a record of functions, a parameter of every definition that
  uses it. \<open>datalayout\<close> states the documented behaviour the code relies on: alignments are
  powers of two, an array of bytes has no padding, and the elements of a struct are placed one
  after the other, each at the next multiple of its alignment unless the struct is packed.
\<close>

unbundle bit_operations_syntax

section \<open>Types\<close>

datatype LLType =
    VoidTy
  | IntegerTy nat
  | FloatTy
  | DoubleTy
  | X86_FP80Ty
  | FP128Ty
  | PPC_FP128Ty
  | PointerTy nat
  | VectorTy nat LLType
  | ArrayTy nat LLType
  | StructTy "string option" bool "LLType list"
  | OpaqueTy string

abbreviation literalStruct :: "LLType list \<Rightarrow> LLType" where
  "literalStruct ts \<equiv> StructTy None False ts"

abbreviation getOpaquePtrType :: LLType where
  "getOpaquePtrType \<equiv> PointerTy 0"

abbreviation getI8Type :: LLType where
  "getI8Type \<equiv> IntegerTy 8"

fun isIntegerTy :: "LLType \<Rightarrow> bool" where
  "isIntegerTy (IntegerTy _) = True"
| "isIntegerTy _ = False"

fun isAggregateType :: "LLType \<Rightarrow> bool" where
  "isAggregateType (ArrayTy _ _) = True"
| "isAggregateType (StructTy _ _ _) = True"
| "isAggregateType (OpaqueTy _) = True"
| "isAggregateType _ = False"

fun isSized :: "LLType \<Rightarrow> bool" where
  "isSized VoidTy = False"
| "isSized (OpaqueTy _) = False"
| "isSized (VectorTy _ t) = isSized t"
| "isSized (ArrayTy _ t) = isSized t"
| "isSized (StructTy _ _ ts) = (\<forall>t\<in>set ts. isSized t)"
| "isSized _ = True"

definition voidToI8 :: "LLType \<Rightarrow> LLType" where
  "voidToI8 t = (if t = VoidTy then getI8Type else t)"

definition i1ToI8 :: "LLType \<Rightarrow> LLType" where
  "i1ToI8 t = (if t = IntegerTy 1 then getI8Type else t)"

section \<open>Data layout\<close>

record DataLayout =
  getTypeBitSize :: "LLType \<Rightarrow> nat"
  getTypeStoreSize :: "LLType \<Rightarrow> nat"
  getTypeAllocSize :: "LLType \<Rightarrow> nat"
  getABITypeAlign :: "LLType \<Rightarrow> nat"
  getPointerSize :: nat
  getProgramAddressSpace :: nat

definition alignTo :: "nat \<Rightarrow> nat \<Rightarrow> nat" where
  "alignTo n a = (n + a - 1) div a * a"

fun elementOffsets :: "DataLayout \<Rightarrow> bool \<Rightarrow> nat \<Rightarrow> LLType list \<Rightarrow> nat list" where
  "elementOffsets dl packed off [] = []"
| "elementOffsets dl packed off (t # ts) =
     (let here = (if packed then off else alignTo off (getABITypeAlign dl t))
      in here # elementOffsets dl packed (here + getTypeAllocSize dl t) ts)"

fun elementsEnd :: "DataLayout \<Rightarrow> bool \<Rightarrow> nat \<Rightarrow> LLType list \<Rightarrow> nat" where
  "elementsEnd dl packed off [] = off"
| "elementsEnd dl packed off (t # ts) =
     elementsEnd dl packed
       ((if packed then off else alignTo off (getABITypeAlign dl t)) + getTypeAllocSize dl t) ts"

definition maxAlign :: "DataLayout \<Rightarrow> LLType list \<Rightarrow> nat" where
  "maxAlign dl ts = foldr (\<lambda>t a. max (getABITypeAlign dl t) a) ts 1"

definition structAllocSize :: "DataLayout \<Rightarrow> bool \<Rightarrow> LLType list \<Rightarrow> nat" where
  "structAllocSize dl packed ts =
     (if packed then elementsEnd dl True 0 ts
      else alignTo (elementsEnd dl False 0 ts) (maxAlign dl ts))"

definition pow2 :: "nat \<Rightarrow> bool" where
  "pow2 n \<longleftrightarrow> (\<exists>k. n = 2 ^ k)"

definition datalayout :: "DataLayout \<Rightarrow> bool" where
  "datalayout dl \<longleftrightarrow>
     (\<forall>t. pow2 (getABITypeAlign dl t))
   \<and> (\<forall>n. getTypeAllocSize dl (ArrayTy n getI8Type) = n)
   \<and> (\<forall>n. getABITypeAlign dl (ArrayTy n getI8Type) = 1)
   \<and> (\<forall>nm packed ts. getTypeAllocSize dl (StructTy nm packed ts) = structAllocSize dl packed ts)
   \<and> (\<forall>t. getTypeStoreSize dl t \<le> getTypeAllocSize dl t)"

section \<open>Powers of two and alignment\<close>

lemma pow2_pos: "pow2 n \<Longrightarrow> 0 < n"
  by (auto simp: pow2_def)

lemma pow2_le_dvd: "pow2 m \<Longrightarrow> pow2 n \<Longrightarrow> m \<le> n \<Longrightarrow> m dvd n"
  by (auto simp: pow2_def le_imp_power_dvd)

lemma pow2_max: "pow2 m \<Longrightarrow> pow2 n \<Longrightarrow> pow2 (max m n)"
  by (simp add: max_def)

lemma and_pow2:
  assumes "pow2 a"
  shows "(n::nat) AND (a - 1) = n mod a"
proof -
  from assms obtain k where "a = 2 ^ k" by (auto simp: pow2_def)
  moreover have "n AND mask k = n mod 2 ^ k"
    by (simp only: take_bit_eq_mask [symmetric] take_bit_eq_mod)
  ultimately show ?thesis by (simp add: mask_eq_exp_minus_1)
qed

lemma alignTo_dvd: "0 < a \<Longrightarrow> a dvd n \<Longrightarrow> alignTo n a = n"
proof (elim dvdE)
  fix k assume "0 < a" "n = a * k"
  then have "(n + a - 1) div a = k"
    by (intro div_nat_eqI) (auto simp: algebra_simps)
  with \<open>n = a * k\<close> show "alignTo n a = n" by (simp add: alignTo_def)
qed

lemma alignTo_1 [simp]: "alignTo n (Suc 0) = n"
  by (simp add: alignTo_def)

lemma datalayout_align: "datalayout dl \<Longrightarrow> pow2 (getABITypeAlign dl t)"
  by (simp add: datalayout_def)

lemma datalayout_align_pos: "datalayout dl \<Longrightarrow> 0 < getABITypeAlign dl t"
  by (rule pow2_pos) (rule datalayout_align)

lemma datalayout_bytes [simp]:
  assumes "datalayout dl"
  shows "getTypeAllocSize dl (ArrayTy n getI8Type) = n" "getABITypeAlign dl (ArrayTy n getI8Type) = 1"
  using assms by (simp_all add: datalayout_def)

lemma datalayout_struct:
  "datalayout dl \<Longrightarrow> getTypeAllocSize dl (StructTy nm packed ts) = structAllocSize dl packed ts"
  unfolding datalayout_def by blast

lemma pow2_1: "pow2 1"
  unfolding pow2_def by (rule exI [of _ 0]) simp

lemma pow2_maxAlign: "datalayout dl \<Longrightarrow> pow2 (maxAlign dl ts)"
  by (induction ts) (simp_all add: maxAlign_def datalayout_align pow2_max pow2_1 [simplified])

lemma maxAlign_append: "maxAlign dl (xs @ [t]) = max (maxAlign dl xs) (getABITypeAlign dl t)"
  by (induction xs) (simp_all add: maxAlign_def max.assoc max.commute)

lemma maxAlign_ge: "t \<in> set ts \<Longrightarrow> getABITypeAlign dl t \<le> maxAlign dl ts"
  by (induction ts) (auto simp: maxAlign_def)

section \<open>Layouts without implicit padding\<close>

text \<open>
  \<open>snug dl off ts\<close>: laid out from \<open>off\<close> with no gaps, every element meets its alignment, so that
  the natural layout coincides with the packed one.
\<close>

fun snug :: "DataLayout \<Rightarrow> nat \<Rightarrow> LLType list \<Rightarrow> bool" where
  "snug dl off [] = True"
| "snug dl off (t # ts) =
     (getABITypeAlign dl t dvd off \<and> snug dl (off + getTypeAllocSize dl t) ts)"

definition allocSum :: "DataLayout \<Rightarrow> LLType list \<Rightarrow> nat" where
  "allocSum dl ts = sum_list (map (getTypeAllocSize dl) ts)"

lemma allocSum_simps [simp]:
  "allocSum dl [] = 0"
  "allocSum dl (t # ts) = getTypeAllocSize dl t + allocSum dl ts"
  "allocSum dl (ts @ us) = allocSum dl ts + allocSum dl us"
  by (simp_all add: allocSum_def)

lemma snug_append:
  "snug dl off (ts @ us) \<longleftrightarrow> snug dl off ts \<and> snug dl (off + allocSum dl ts) us"
  by (induction ts arbitrary: off) (auto simp: ac_simps)

lemma elementOffsets_snug:
  assumes "datalayout dl" "packed \<or> snug dl off ts"
  shows "elementOffsets dl packed off ts = map (\<lambda>i. off + allocSum dl (take i ts)) [0..<length ts]"
  using assms(2)
proof (induction ts arbitrary: off)
  case (Cons t ts)
  have "alignTo off (getABITypeAlign dl t) = off" if "\<not> packed"
    using that Cons.prems datalayout_align_pos [OF assms(1)] by (auto intro: alignTo_dvd)
  then have here: "(if packed then off else alignTo off (getABITypeAlign dl t)) = off" by simp
  have "elementOffsets dl packed off (t # ts)
      = off # elementOffsets dl packed (off + getTypeAllocSize dl t) ts"
    by (simp add: here Let_def del: if_split)
  also have "\<dots> = off # map (\<lambda>i. off + getTypeAllocSize dl t + allocSum dl (take i ts)) [0..<length ts]"
    using Cons.IH [of "off + getTypeAllocSize dl t"] Cons.prems by auto
  also have "\<dots> = map (\<lambda>i. off + allocSum dl (take i (t # ts))) [0..<length (t # ts)]"
    by (simp add: map_upt_Suc add.assoc del: upt_Suc)
  finally show ?case .
qed simp

lemma elementsEnd_snug:
  assumes "datalayout dl" "packed \<or> snug dl off ts"
  shows "elementsEnd dl packed off ts = off + allocSum dl ts"
  using assms(2)
proof (induction ts arbitrary: off)
  case (Cons t ts)
  have "alignTo off (getABITypeAlign dl t) = off" if "\<not> packed"
    using that Cons.prems datalayout_align_pos [OF assms(1)] by (auto intro: alignTo_dvd)
  then have "(if packed then off else alignTo off (getABITypeAlign dl t)) = off" by simp
  with Cons.IH [of "off + getTypeAllocSize dl t"] Cons.prems show ?case
    by (auto simp: add.assoc)
qed simp

lemma elementOffsets_length [simp]: "length (elementOffsets dl packed off ts) = length ts"
  by (induction ts arbitrary: off) (auto simp: Let_def)

lemma structAllocSize_snug:
  assumes "datalayout dl" "packed \<or> snug dl 0 ts" "packed \<or> maxAlign dl ts dvd allocSum dl ts"
  shows "structAllocSize dl packed ts = allocSum dl ts"
  using assms elementsEnd_snug [OF assms(1,2)] pow2_pos [OF pow2_maxAlign [OF assms(1)]]
  by (cases packed) (auto simp: structAllocSize_def alignTo_dvd)

end
