(* ===== verification/AggrTypeBuilder.thy ===== *)
theory AggrTypeBuilder
  imports LLTypes
begin

text \<open>
  The construction of LLVM struct types for D structs and classes: \<open>AggrTypeBuilder\<close> and
  \<open>BitFieldGroup\<close> (\<open>ir/irtypeaggr.h\<close>, \<open>ir/irtypeaggr.cpp\<close>).

  A field comes with what the front end computed for it (byte offset, size, whether it overlaps
  another field, bit offset and width of a bit field) and with the LLVM type of its D type,
  absent when building that type failed. \<open>unsigned\<close> is \<open>nat\<close> with the reduction modulo \<open>2 ^ 32\<close>
  written out. A failing \<open>assert\<close> and \<open>fatal()\<close> are \<open>None\<close>. \<open>std::sort\<close> is not stable and
  \<open>sort_key\<close> is; the order is determined, since no two selected fields of a layout that the front
  end produces have the same offset (\<open>disjointData\<close> of \<open>AggrLayout\<close>).
\<close>

unbundle bit_operations_syntax

section \<open>Fields\<close>

definition trunc32 :: "nat \<Rightarrow> nat" where
  "trunc32 n = n mod 2 ^ 32"

record VarDeclaration =
  vd :: ptr
  offset :: nat
  overlapped :: bool
  bitField :: "(nat \<times> nat) option"

record AggrField = VarDeclaration +
  field_size :: nat
  field_memType :: "LLType option"

abbreviation isBitField :: "'a VarDeclaration_scheme \<Rightarrow> bool" where
  "isBitField f \<equiv> bitField f \<noteq> None"

section \<open>Bit field groups\<close>

record BitFieldGroup =
  byteOffset :: nat
  sizeInBytes :: nat
  bitFields :: "AggrField list"

definition extendGroup :: "nat \<Rightarrow> nat \<Rightarrow> AggrField \<Rightarrow> BitFieldGroup \<Rightarrow> BitFieldGroup" where
  "extendGroup bitOff width bf g =
     g\<lparr>sizeInBytes := max (sizeInBytes g) (trunc32 (bitOff + width + 7) div 8),
       bitFields := bitFields g @ [bf]\<rparr>"

fun groupFrom :: "bool \<Rightarrow> BitFieldGroup \<Rightarrow> AggrField list \<Rightarrow> BitFieldGroup" where
  "groupFrom first g [] = g"
| "groupFrom first g (f # fs) =
     (case bitField f of
        None \<Rightarrow> g
      | Some (bitOff, width) \<Rightarrow>
          if first then groupFrom False (extendGroup bitOff width f (g\<lparr>byteOffset := offset f\<rparr>)) fs
          else if trunc32 (byteOffset g + sizeInBytes g) \<le> offset f \<or> offset f < byteOffset g then g
          else groupFrom False
                 (extendGroup (trunc32 (bitOff + (offset f - byteOffset g) * 8)) width f g) fs)"

definition startingFrom :: "AggrField list \<Rightarrow> BitFieldGroup" where
  "startingFrom fs = groupFrom True \<lparr>byteOffset = 0, sizeInBytes = 0, bitFields = []\<rparr> fs"

definition getBitOffset :: "BitFieldGroup \<Rightarrow> AggrField \<Rightarrow> nat option" where
  "getBitOffset g member =
     (case bitField member of
        None \<Rightarrow> None
      | Some (bitOff, _) \<Rightarrow>
          if byteOffset g \<le> offset member
          then Some (trunc32 ((offset member - byteOffset g) * 8 + bitOff)) else None)"

section \<open>The builder\<close>

record AggrTypeBuilder =
  m_defaultTypes :: "LLType list"
  m_varGEPIndices :: "ptr \<rightharpoonup> nat"
  m_extraBitFieldMembers :: "(ptr \<times> ptr) list"
  m_offset :: nat
  m_fieldIndex :: nat
  m_maxFieldIRAlignment :: nat
  m_packed :: bool

definition emptyBuilder :: "nat \<Rightarrow> AggrTypeBuilder" where
  "emptyBuilder off =
     \<lparr>m_defaultTypes = [], m_varGEPIndices = Map.empty, m_extraBitFieldMembers = [],
      m_offset = off, m_fieldIndex = 0, m_maxFieldIRAlignment = 1, m_packed = False\<rparr>"

definition add_zeros :: "LLType list \<Rightarrow> nat \<Rightarrow> nat \<Rightarrow> (LLType list \<times> nat) option" where
  "add_zeros defaultTypes startOffset endOffset =
     (if endOffset < startOffset then None
      else let paddingSize = endOffset - startOffset in
        Some (if paddingSize \<noteq> 0 then (defaultTypes @ [ArrayTy paddingSize getI8Type], 1)
              else (defaultTypes, 0)))"

definition misaligned :: "nat \<Rightarrow> nat \<Rightarrow> bool" where
  "misaligned off alignment \<longleftrightarrow> off AND (alignment - 1) \<noteq> 0"

definition addType :: "DataLayout \<Rightarrow> LLType \<Rightarrow> nat \<Rightarrow> AggrTypeBuilder \<Rightarrow> AggrTypeBuilder option" where
  "addType dl type sz b =
     (let fieldAlignment = getABITypeAlign dl type in
      if fieldAlignment = 0 then None
      else Some (b\<lparr>m_packed := (m_packed b \<or> misaligned (m_offset b) fieldAlignment),
                   m_defaultTypes := m_defaultTypes b @ [type],
                   m_offset := trunc32 (m_offset b + sz),
                   m_fieldIndex := m_fieldIndex b + 1,
                   m_maxFieldIRAlignment := max (m_maxFieldIRAlignment b) fieldAlignment\<rparr>))"

section \<open>Selection of the fields that become elements\<close>

record Data =
  data_field :: AggrField
  data_llType :: LLType
  data_size :: nat

record Collected =
  actualFields :: "Data list"
  aliasPairs :: "(ptr \<times> ptr) list"
  extraBitFieldMembers :: "(ptr \<times> ptr) list"

datatype Aliases = Skip | AddToVarGEPIndices

definition explicitlyInitialized :: "ptr list option \<Rightarrow> AggrField \<Rightarrow> bool" where
  "explicitlyInitialized explicitInits f =
     (case explicitInits of None \<Rightarrow> False | Some vs \<Rightarrow> vd f \<in> set vs)"

definition overlapping :: "nat \<Rightarrow> nat \<Rightarrow> Data list \<Rightarrow> Data option" where
  "overlapping f_begin f_end ds =
     find (\<lambda>e. offset (data_field e) < f_end \<and> offset (data_field e) + data_size e > f_begin) ds"

definition addActualField :: "Aliases \<Rightarrow> AggrField \<Rightarrow> nat \<Rightarrow> Collected \<Rightarrow> Collected option" where
  "addActualField aliases f fieldSize c = do {
     let f_begin = offset f;
     let f_end = f_begin + fieldSize;
     llType \<leftarrow> (if isBitField f then Some (ArrayTy fieldSize getI8Type) else field_memType f);
     case (if isBitField f \<or> overlapped f then overlapping f_begin f_end (actualFields c) else None) of
       None \<Rightarrow> Some (c\<lparr>actualFields := actualFields c @
                  [\<lparr>data_field = f, data_llType = llType, data_size = fieldSize\<rparr>]\<rparr>)
     | Some e \<Rightarrow>
         Some (if aliases = AddToVarGEPIndices \<and> offset (data_field e) = f_begin \<and> data_llType e = llType
               then c\<lparr>aliasPairs := aliasPairs c @ [(vd f, vd (data_field e))]\<rparr> else c) }"

definition addBitFieldMembers :: "AggrField \<Rightarrow> BitFieldGroup \<Rightarrow> Collected \<Rightarrow> Collected" where
  "addBitFieldMembers f g c = fold (\<lambda>bf c.
       if offset bf = byteOffset g then c\<lparr>aliasPairs := aliasPairs c @ [(vd bf, vd f)]\<rparr>
       else c\<lparr>extraBitFieldMembers := extraBitFieldMembers c @ [(vd bf, vd f)]\<rparr>)
     (tl (bitFields g)) c"

definition visitField ::
  "nat \<Rightarrow> ptr list option \<Rightarrow> Aliases \<Rightarrow> AggrField \<Rightarrow> BitFieldGroup \<Rightarrow> Collected \<Rightarrow> Collected option" where
  "visitField pass explicitInits aliases f grp c =
     (let haveExplicitInit =
            (explicitlyInitialized explicitInits f
             \<or> isBitField f \<and> (\<exists>bf\<in>set (bitFields grp). explicitlyInitialized explicitInits bf));
          fieldSize = (if isBitField f then sizeInBytes grp else field_size f);
          c = (if isBitField f \<and> pass = 1 then addBitFieldMembers f grp c else c)
      in if pass = 0 \<and> \<not> haveExplicitInit then Some c
         else if pass = 1 \<and> haveExplicitInit then Some c
         else if fieldSize = 0 then Some c
         else addActualField aliases f fieldSize c)"

function collectPass ::
  "nat \<Rightarrow> ptr list option \<Rightarrow> Aliases \<Rightarrow> AggrField list \<Rightarrow> Collected \<Rightarrow> Collected option" where
  "collectPass pass explicitInits aliases [] c = Some c"
| "collectPass pass explicitInits aliases (f # fs) c =
     (let grp = startingFrom (f # fs) in
      case visitField pass explicitInits aliases f grp c of
        None \<Rightarrow> None
      | Some c' \<Rightarrow>
          collectPass pass explicitInits aliases
            (if isBitField f then drop (length (bitFields grp) - 1) fs else fs) c')"
  by pat_completeness auto
termination
  by (relation "measure (\<lambda>(_, _, _, fs, _). length fs)") auto

definition collectFields ::
  "ptr list option \<Rightarrow> Aliases \<Rightarrow> AggrField list \<Rightarrow> Collected option" where
  "collectFields explicitInits aliases fs =
     iterM (\<lambda>pass. collectPass pass explicitInits aliases fs)
       (if explicitInits \<noteq> None then [0, 1] else [1])
       \<lparr>actualFields = [], aliasPairs = [], extraBitFieldMembers = []\<rparr>"

section \<open>Placement of the elements\<close>

definition padTo :: "nat \<Rightarrow> AggrTypeBuilder \<Rightarrow> AggrTypeBuilder option" where
  "padTo off b =
     (if m_offset b < off then do {
        (types, n) \<leftarrow> add_zeros (m_defaultTypes b) (m_offset b) off;
        Some (b\<lparr>m_defaultTypes := types, m_fieldIndex := m_fieldIndex b + n, m_offset := off\<rparr>) }
      else Some b)"

definition setGEPIndices :: "(ptr \<times> ptr) list \<Rightarrow> ptr \<Rightarrow> nat \<Rightarrow> (ptr \<rightharpoonup> nat) \<Rightarrow> (ptr \<rightharpoonup> nat)" where
  "setGEPIndices pairs v idx m =
     fold (\<lambda>(alias, actual) m. if actual = v then m(alias \<mapsto> idx) else m) pairs (m(v \<mapsto> idx))"

definition placeField :: "DataLayout \<Rightarrow> Collected \<Rightarrow> Data \<Rightarrow> AggrTypeBuilder \<Rightarrow> AggrTypeBuilder option" where
  "placeField dl c af b = do {
     let v = data_field af;
     let llType = data_llType af;
     ensure (m_offset b \<le> offset v);
     b \<leftarrow> padTo (offset v) b;
     ensure (isSized llType);
     let fieldAlignment = getABITypeAlign dl llType;
     let fieldSize = trunc32 (getTypeAllocSize dl llType);
     ensure (fieldSize \<le> data_size af);
     ensure (m_packed b \<or> fieldAlignment \<noteq> 0);
     Some (b\<lparr>m_defaultTypes := m_defaultTypes b @ [llType],
             m_packed := (m_packed b \<or> misaligned (m_offset b) fieldAlignment),
             m_offset := trunc32 (m_offset b + fieldSize),
             m_varGEPIndices := setGEPIndices (aliasPairs c) (vd v) (m_fieldIndex b) (m_varGEPIndices b),
             m_extraBitFieldMembers := m_extraBitFieldMembers b
                @ filter (\<lambda>(_, first). first = vd v) (extraBitFieldMembers c),
             m_fieldIndex := m_fieldIndex b + 1,
             m_maxFieldIRAlignment := max (m_maxFieldIRAlignment b) fieldAlignment\<rparr>) }"

definition addAggregate ::
  "DataLayout \<Rightarrow> bool \<Rightarrow> AggrField list \<Rightarrow> ptr list option \<Rightarrow> Aliases \<Rightarrow> AggrTypeBuilder
     \<Rightarrow> AggrTypeBuilder option" where
  "addAggregate dl isObjC fs explicitInits aliases b =
     (if fs = [] then Some b
      else if isObjC then addType dl getOpaquePtrType (getPointerSize dl) b
      else do {
        c \<leftarrow> collectFields explicitInits aliases fs;
        iterM (placeField dl c) (sort_key (\<lambda>d. offset (data_field d)) (actualFields c)) b })"

definition alignCurrentOffset :: "nat \<Rightarrow> AggrTypeBuilder \<Rightarrow> AggrTypeBuilder option" where
  "alignCurrentOffset alignment b =
     padTo (unat ((of_nat (m_offset b) + of_nat alignment - 1 :: u32) AND NOT (of_nat alignment - 1))) b"

definition addTailPadding :: "nat \<Rightarrow> AggrTypeBuilder \<Rightarrow> AggrTypeBuilder option" where
  "addTailPadding aggregateSize b =
     (if aggregateSize < m_offset b then None
      else do {
        types \<leftarrow> (if m_offset b < aggregateSize
                   then map_option fst (add_zeros (m_defaultTypes b) (m_offset b) aggregateSize)
                   else Some (m_defaultTypes b));
        Some (b\<lparr>m_defaultTypes := types,
                m_packed := (m_packed b \<or> misaligned aggregateSize (m_maxFieldIRAlignment b))\<rparr>) })"

end
