(* ===== verification/AggrLayout.thy ===== *)
theory AggrLayout
  imports AggrTypeBuilder
begin

text \<open>
  The invariant of the aggregate type builder and its preservation by every operation.

  \<open>binv dl off b\<close>: the elements added so far lie one after the other with no gap that LLVM would
  have to fill, they end at the builder's offset, the builder knows the largest alignment, and
  every indexed variable \<open>v\<close> sits exactly \<open>off v\<close> bytes from the start. Fields come from the front
  end; \<open>frontEndLayout\<close> states what it promises about them.
\<close>

section \<open>The invariant\<close>

definition binv :: "DataLayout \<Rightarrow> (ptr \<Rightarrow> nat) \<Rightarrow> AggrTypeBuilder \<Rightarrow> bool" where
  "binv dl off b \<longleftrightarrow>
     m_fieldIndex b = length (m_defaultTypes b)
   \<and> m_offset b = allocSum dl (m_defaultTypes b)
   \<and> (m_packed b \<or> snug dl 0 (m_defaultTypes b))
   \<and> m_maxFieldIRAlignment b = maxAlign dl (m_defaultTypes b)
   \<and> (\<forall>v i. m_varGEPIndices b v = Some i \<longrightarrow>
        i < length (m_defaultTypes b) \<and> allocSum dl (take i (m_defaultTypes b)) = off v)"

lemma binv_empty: "binv dl off (emptyBuilder 0)"
  by (simp add: binv_def emptyBuilder_def maxAlign_def)

lemma binvD:
  assumes "binv dl off b"
  shows "m_fieldIndex b = length (m_defaultTypes b)" "m_offset b = allocSum dl (m_defaultTypes b)"
    "m_packed b \<or> snug dl 0 (m_defaultTypes b)" "m_maxFieldIRAlignment b = maxAlign dl (m_defaultTypes b)"
  using assms by (simp_all add: binv_def)

lemma binv_index:
  assumes "binv dl off b" "m_varGEPIndices b v = Some i"
  shows "i < length (m_defaultTypes b)" "allocSum dl (take i (m_defaultTypes b)) = off v"
  using assms by (auto simp: binv_def)

lemma misaligned_iff: "datalayout dl \<Longrightarrow> misaligned n (getABITypeAlign dl t) \<longleftrightarrow> \<not> getABITypeAlign dl t dvd n"
  using and_pow2 [OF datalayout_align] by (simp add: misaligned_def dvd_eq_mod_eq_0)

lemma trunc32_small [simp]: "n < 2 ^ 32 \<Longrightarrow> trunc32 n = n"
  by (simp add: trunc32_def)

text \<open>
  All operations append elements; the following lemma is the common step. The new indices may
  only point at the appended element, for variables that start there.
\<close>

lemma binv_append:
  assumes dl: "datalayout dl" and b: "binv dl off b"
    and types: "m_defaultTypes b' = m_defaultTypes b @ [t]"
    and idx: "m_fieldIndex b' = m_fieldIndex b + 1"
    and offs: "m_offset b' = m_offset b + getTypeAllocSize dl t"
    and packed: "m_packed b' \<longleftrightarrow> m_packed b \<or> misaligned (m_offset b) (getABITypeAlign dl t)"
    and maxa: "m_maxFieldIRAlignment b' = max (m_maxFieldIRAlignment b) (getABITypeAlign dl t)"
    and gep: "\<And>v i. m_varGEPIndices b' v = Some i \<Longrightarrow>
        m_varGEPIndices b v = Some i \<or> i = m_fieldIndex b \<and> off v = m_offset b"
  shows "binv dl off b'"
  unfolding binv_def
proof (intro conjI allI impI)
  show "m_packed b' \<or> snug dl 0 (m_defaultTypes b')"
    using binvD [OF b] by (auto simp: packed types snug_append misaligned_iff [OF dl])
  show "m_maxFieldIRAlignment b' = maxAlign dl (m_defaultTypes b')"
    using binvD [OF b] by (simp add: types maxa maxAlign_append)
next
  fix v i assume "m_varGEPIndices b' v = Some i"
  from gep [OF this] show "i < length (m_defaultTypes b')"
    using binv_index [OF b] binvD [OF b] types by fastforce
  from gep [OF \<open>m_varGEPIndices b' v = Some i\<close>]
  show "allocSum dl (take i (m_defaultTypes b')) = off v"
    using binv_index [OF b] binvD [OF b] types by fastforce
qed (use binvD [OF b] types idx offs in auto)

lemma binv_addType:
  assumes "datalayout dl" "binv dl off b" "getTypeAllocSize dl t = n" "m_offset b + n < 2 ^ 32"
  shows "\<exists>b'. addType dl t n b = Some b' \<and> binv dl off b' \<and> m_offset b' = m_offset b + n
    \<and> m_varGEPIndices b' = m_varGEPIndices b \<and> m_defaultTypes b' = m_defaultTypes b @ [t]"
proof -
  let ?b' = "b\<lparr>m_packed := (m_packed b \<or> misaligned (m_offset b) (getABITypeAlign dl t)),
     m_defaultTypes := m_defaultTypes b @ [t], m_offset := m_offset b + n,
     m_fieldIndex := m_fieldIndex b + 1,
     m_maxFieldIRAlignment := max (m_maxFieldIRAlignment b) (getABITypeAlign dl t)\<rparr>"
  have "addType dl t n b = Some ?b'"
    using assms(4) datalayout_align_pos [OF assms(1), of t] by (simp add: addType_def Let_def)
  moreover have "binv dl off ?b'"
    by (rule binv_append [OF assms(1,2), where t = t]) (use assms in auto)
  ultimately show ?thesis by simp
qed

lemma binv_padTo:
  assumes dl: "datalayout dl" and b: "binv dl off b"
  shows "\<exists>b'. padTo n b = Some b' \<and> binv dl off b' \<and> m_offset b' = max (m_offset b) n
    \<and> m_varGEPIndices b' = m_varGEPIndices b \<and> m_extraBitFieldMembers b' = m_extraBitFieldMembers b
    \<and> (\<exists>ts. m_defaultTypes b' = m_defaultTypes b @ ts)"
proof (cases "m_offset b < n")
  case True
  let ?t = "ArrayTy (n - m_offset b) getI8Type"
  let ?b' = "b\<lparr>m_defaultTypes := m_defaultTypes b @ [?t], m_fieldIndex := m_fieldIndex b + 1, m_offset := n\<rparr>"
  have "padTo n b = Some ?b'"
    using True by (simp add: padTo_def add_zeros_def)
  moreover have "binv dl off ?b'"
    by (rule binv_append [OF dl b, where t = ?t])
       (use True dl binvD(4) [OF b] pow2_pos [OF pow2_maxAlign [OF dl]] in \<open>auto simp: misaligned_def Suc_leI\<close>)
  ultimately show ?thesis using True by auto
next
  case False
  then show ?thesis using b by (auto simp: padTo_def)
qed

section \<open>Tail padding and alignment\<close>

lemma addTailPadding_layout:
  assumes dl: "datalayout dl" and b: "binv dl off b" and le: "m_offset b \<le> n"
  shows "\<exists>b'. addTailPadding n b = Some b'
    \<and> structAllocSize dl (m_packed b') (m_defaultTypes b') = n
    \<and> m_varGEPIndices b' = m_varGEPIndices b
    \<and> (\<forall>v i. m_varGEPIndices b' v = Some i \<longrightarrow>
        i < length (m_defaultTypes b')
        \<and> elementOffsets dl (m_packed b') 0 (m_defaultTypes b') ! i = off v)"
proof -
  obtain b1 where b1: "padTo n b = Some b1" "binv dl off b1" "m_offset b1 = n"
      "m_varGEPIndices b1 = m_varGEPIndices b"
    using binv_padTo [OF dl b, of n] le by auto
  have types: "m_maxFieldIRAlignment b1 = m_maxFieldIRAlignment b" "m_packed b1 = m_packed b"
    using b1(1) by (auto simp: padTo_def add_zeros_def split: if_splits Option.bind_splits)
  let ?b' = "b\<lparr>m_defaultTypes := m_defaultTypes b1,
    m_packed := (m_packed b \<or> misaligned n (m_maxFieldIRAlignment b))\<rparr>"
  have "addTailPadding n b = Some ?b'"
    using b1(1) le
    by (auto simp: addTailPadding_def padTo_def add_zeros_def split: if_splits Option.bind_splits)
  moreover have max1: "maxAlign dl (m_defaultTypes b1) dvd n" if "\<not> misaligned n (m_maxFieldIRAlignment b)"
    using that and_pow2 [OF pow2_maxAlign [OF dl, of "m_defaultTypes b1"], of n] binvD(4) [OF b1(2)] types
    by (simp add: misaligned_def dvd_eq_mod_eq_0)
  then have "structAllocSize dl (m_packed ?b') (m_defaultTypes ?b') = n"
    using structAllocSize_snug [OF dl, of "m_packed ?b'" "m_defaultTypes b1"] binvD [OF b1(2)] b1(3) types
    by auto
  moreover have "elementOffsets dl (m_packed ?b') 0 (m_defaultTypes ?b') ! i = off v"
    if "m_varGEPIndices b1 v = Some i" for v i
    using elementOffsets_snug [OF dl, of "m_packed ?b'" 0 "m_defaultTypes b1"] binvD [OF b1(2)] types
      binv_index [OF b1(2) that] by auto
  ultimately show ?thesis using b1(4) binv_index(1) [OF b1(2)] by auto
qed

lemma and_not_mask_word: "(w :: u32) AND NOT (mask k) = w - take_bit k w"
proof -
  have "w - take_bit k w = w AND NOT (take_bit k w)"
    by (rule disjunctive_diff) (simp add: bit_take_bit_iff)
  also have "\<dots> = w AND NOT (mask k)"
    by (rule bit_eqI) (auto simp: bit_simps)
  finally show ?thesis ..
qed

lemma unat_round_up:
  assumes "pow2 a" "n + a - 1 < 2 ^ 32"
  shows "unat ((of_nat n + of_nat a - 1 :: u32) AND NOT (of_nat a - 1)) = alignTo n a"
proof -
  from assms(1) obtain k where k: "a = 2 ^ k" by (auto simp: pow2_def)
  let ?w = "of_nat n + of_nat a - 1 :: u32"
  have m: "(of_nat a - 1 :: u32) = mask k" by (simp add: k mask_eq_exp_minus_1)
  have w: "?w = of_nat (n + a - 1)"
    using of_nat_diff [of 1 "n + a", where 'a = u32] pow2_pos [OF assms(1)] by simp
  have u: "unat ?w = n + a - 1"
    unfolding w using assms(2) by (intro unat_of_nat_small) simp
  have "unat (take_bit k ?w) = (n + a - 1) mod a"
    unfolding unsigned_take_bit_eq u by (simp only: take_bit_eq_mod k)
  moreover have "take_bit k ?w \<le> ?w" by (simp add: word_le_nat_alt unsigned_take_bit_eq)
  ultimately have "unat (?w - take_bit k ?w) = (n + a - 1) - (n + a - 1) mod a"
    using u by (simp only: unat_sub)
  also have "\<dots> = alignTo n a" by (simp only: alignTo_def minus_mod_eq_div_mult)
  finally show ?thesis unfolding m and_not_mask_word .
qed

lemma binv_alignCurrentOffset:
  assumes "datalayout dl" "binv dl off b" "pow2 a" "m_offset b + a - 1 < 2 ^ 32"
  shows "\<exists>b'. alignCurrentOffset a b = Some b' \<and> binv dl off b' \<and> m_offset b' = max (m_offset b) (alignTo (m_offset b) a)
    \<and> m_varGEPIndices b' = m_varGEPIndices b \<and> (\<exists>ts. m_defaultTypes b' = m_defaultTypes b @ ts)"
  using binv_padTo [OF assms(1,2), of "alignTo (m_offset b) a"] unat_round_up [OF assms(3,4)]
  by (auto simp: alignCurrentOffset_def)

section \<open>The units of a field list\<close>

text \<open>
  The selection loop treats a run of bit fields as one unit. A unit is its first field with the
  bit field group that starts there.
\<close>

type_synonym unit_of_layout = "AggrField \<times> BitFieldGroup"

function units :: "AggrField list \<Rightarrow> unit_of_layout list" where
  "units [] = []"
| "units (f # fs) =
     (f, startingFrom (f # fs))
     # units (if isBitField f then drop (length (bitFields (startingFrom (f # fs))) - 1) fs else fs)"
  by pat_completeness auto
termination
  by (relation "measure length") auto

definition unitSize :: "unit_of_layout \<Rightarrow> nat" where
  "unitSize u = (if isBitField (fst u) then sizeInBytes (snd u) else field_size (fst u))"

definition unitInit :: "ptr list option \<Rightarrow> unit_of_layout \<Rightarrow> bool" where
  "unitInit inits u \<longleftrightarrow> explicitlyInitialized inits (fst u)
     \<or> isBitField (fst u) \<and> (\<exists>bf\<in>set (bitFields (snd u)). explicitlyInitialized inits bf)"

definition mayOverlap :: "unit_of_layout \<Rightarrow> bool" where
  "mayOverlap u \<longleftrightarrow> isBitField (fst u) \<or> overlapped (fst u)"

definition disjointUnits :: "unit_of_layout \<Rightarrow> unit_of_layout \<Rightarrow> bool" where
  "disjointUnits u w \<longleftrightarrow>
     offset (fst u) + unitSize u \<le> offset (fst w) \<or> offset (fst w) + unitSize w \<le> offset (fst u)"

definition unitOK :: "DataLayout \<Rightarrow> unit_of_layout \<Rightarrow> bool" where
  "unitOK dl u \<longleftrightarrow> (\<not> isBitField (fst u) \<and> 0 < unitSize u \<longrightarrow>
     (\<exists>t. field_memType (fst u) = Some t \<and> isSized t \<and> getTypeAllocSize dl t \<le> unitSize u))"

definition frontEndLayout :: "DataLayout \<Rightarrow> AggrField list \<Rightarrow> nat \<Rightarrow> nat \<Rightarrow> bool" where
  "frontEndLayout dl fs start end \<longleftrightarrow>
     end < 2 ^ 32 \<and> distinct (map vd fs)
   \<and> (\<forall>u\<in>set (units fs). unitOK dl u \<and> (0 < unitSize u \<longrightarrow> start \<le> offset (fst u) \<and> offset (fst u) + unitSize u \<le> end))
   \<and> (\<forall>u\<in>set (units fs). \<forall>w\<in>set (units fs). u \<noteq> w \<longrightarrow>
        0 < unitSize u \<and> 0 < unitSize w \<longrightarrow> disjointUnits u w \<or> mayOverlap u \<and> mayOverlap w)"

lemma collectPass_units:
  "collectPass pass inits al fs c = iterM (\<lambda>(f, g). visitField pass inits al f g) (units fs) c"
  by (induction fs arbitrary: c rule: units.induct) (auto simp: Let_def split: option.splits)

lemma units_fields: "set (map fst (units fs)) \<subseteq> set fs"
proof (induction fs rule: units.induct)
  case (2 f fs)
  then show ?case by (auto dest: in_set_dropD split: if_splits)
qed simp

lemma distinct_units: "distinct (map vd fs) \<Longrightarrow> distinct (map (\<lambda>u. vd (fst u)) (units fs))"
proof (induction fs rule: units.induct)
  case (2 f fs)
  let ?r = "if isBitField f then drop (length (bitFields (startingFrom (f # fs))) - 1) fs else fs"
  have "set (map vd ?r) \<subseteq> set (map vd fs)" by (auto dest: in_set_dropD)
  moreover have "set (map (\<lambda>u. vd (fst u)) (units ?r)) \<subseteq> set (map vd ?r)"
    using image_mono [OF units_fields [of ?r], of vd] by (simp add: image_comp)
  moreover have "distinct (map vd ?r)" using "2.prems" by (auto simp: drop_map [symmetric] distinct_drop)
  moreover have "vd f \<notin> set (map vd fs)" using "2.prems" by simp
  ultimately have "vd f \<notin> set (map (\<lambda>u. vd (fst u)) (units ?r))" and "distinct (map (\<lambda>u. vd (fst u)) (units ?r))"
    using "2.IH" by blast+
  then show ?case by (simp only: units.simps list.map distinct.simps fst_conv not_False_eq_True simp_thms)
qed simp

lemma groupFrom_bitFields: "set (bitFields (groupFrom first g fs)) \<subseteq> set (bitFields g) \<union> set fs"
proof (induction fs arbitrary: first g)
  case (Cons f fs)
  show ?case
  proof (cases "bitField f")
    case (Some p)
    obtain bo w where p: "p = (bo, w)" by (cases p)
    show ?thesis
      using Some p Cons [of False "extendGroup bo w f (g\<lparr>byteOffset := offset f\<rparr>)"]
        Cons [of False "extendGroup (trunc32 (bo + (offset f - byteOffset g) * 8)) w f g"]
      by (auto simp: extendGroup_def)
  qed auto
qed simp

lemma groupFrom_byteOffset: "byteOffset (groupFrom False g fs) = byteOffset g"
  by (induction fs arbitrary: g) (auto simp: extendGroup_def split: option.splits prod.splits)

lemma startingFrom_byteOffset: "isBitField f \<Longrightarrow> byteOffset (startingFrom (f # fs)) = offset f"
  by (auto simp: startingFrom_def groupFrom_byteOffset extendGroup_def)

section \<open>Selection\<close>

definition dataDisjoint :: "Data \<Rightarrow> Data \<Rightarrow> bool" where
  "dataDisjoint d e \<longleftrightarrow>
     offset (data_field d) + data_size d \<le> offset (data_field e)
   \<or> offset (data_field e) + data_size e \<le> offset (data_field d)"

definition dataOK :: "DataLayout \<Rightarrow> Data \<Rightarrow> bool" where
  "dataOK dl d \<longleftrightarrow> 0 < data_size d \<and> isSized (data_llType d)
     \<and> getTypeAllocSize dl (data_llType d) \<le> data_size d"

definition selected :: "DataLayout \<Rightarrow> (ptr \<Rightarrow> nat) \<Rightarrow> unit_of_layout set \<Rightarrow> Collected \<Rightarrow> bool" where
  "selected dl off seen c \<longleftrightarrow>
     (\<forall>d\<in>set (actualFields c). dataOK dl d
        \<and> (\<exists>u\<in>seen. data_field d = fst u \<and> data_size d = unitSize u))
   \<and> sorted_wrt dataDisjoint (actualFields c)
   \<and> (\<forall>(a, v)\<in>set (aliasPairs c). off a = off v)
   \<and> (\<forall>u\<in>seen. unitSize u = 0 \<or> mayOverlap u \<or> fst u \<in> data_field ` set (actualFields c))"


definition aliasOK :: "(ptr \<Rightarrow> nat) \<Rightarrow> unit_of_layout \<Rightarrow> bool" where
  "aliasOK off u \<longleftrightarrow> off (vd (fst u)) = offset (fst u)
     \<and> (isBitField (fst u) \<longrightarrow>
         (\<forall>bf\<in>set (bitFields (snd u)). offset bf = byteOffset (snd u) \<longrightarrow> off (vd bf) = off (vd (fst u))))"

lemma units_aliasOK:
  assumes "\<And>f. f \<in> set fs \<Longrightarrow> off (vd f) = offset f" "u \<in> set (units fs)"
  shows "aliasOK off u"
  using assms
proof (induction fs rule: units.induct)
  case (2 f fs)
  let ?g = "startingFrom (f # fs)"
  have "set (bitFields ?g) \<subseteq> set (f # fs)"
    using groupFrom_bitFields [of True "\<lparr>byteOffset = 0, sizeInBytes = 0, bitFields = []\<rparr>" "f # fs"]
    by (simp add: startingFrom_def)
  then have "aliasOK off (f, ?g)"
    using "2.prems"(1) startingFrom_byteOffset [of f fs] by (auto simp: aliasOK_def)
  moreover have "aliasOK off u" if "u \<in> set (units (if isBitField f
      then drop (length (bitFields ?g) - 1) fs else fs))"
    by (rule "2.IH" [OF _ that]) (use "2.prems"(1) in \<open>auto dest: in_set_dropD split: if_splits\<close>)
  ultimately show ?case using "2.prems"(2) by auto
qed simp

lemma addBitFieldMembers_fields [simp]: "actualFields (addBitFieldMembers f g c) = actualFields c"
proof -
  have "actualFields (fold (\<lambda>bf c.
       if offset bf = byteOffset g then c\<lparr>aliasPairs := aliasPairs c @ [(vd bf, vd f)]\<rparr>
       else c\<lparr>extraBitFieldMembers := extraBitFieldMembers c @ [(vd bf, vd f)]\<rparr>) bs c) = actualFields c" for bs
    by (induction bs arbitrary: c) auto
  then show ?thesis by (simp add: addBitFieldMembers_def)
qed

lemma addBitFieldMembers_alias:
  assumes "(a, v) \<in> set (aliasPairs (addBitFieldMembers f g c))"
  obtains "(a, v) \<in> set (aliasPairs c)"
    | bf where "bf \<in> set (bitFields g)" "offset bf = byteOffset g" "a = vd bf" "v = vd f"
proof -
  have "(a, v) \<in> set (aliasPairs (fold (\<lambda>bf c.
       if offset bf = byteOffset g then c\<lparr>aliasPairs := aliasPairs c @ [(vd bf, vd f)]\<rparr>
       else c\<lparr>extraBitFieldMembers := extraBitFieldMembers c @ [(vd bf, vd f)]\<rparr>) bs c))
    \<Longrightarrow> (a, v) \<in> set (aliasPairs c) \<or> (\<exists>bf\<in>set bs. offset bf = byteOffset g \<and> a = vd bf \<and> v = vd f)" for bs
  proof (induction bs arbitrary: c)
    case (Cons b bs)
    from Cons.IH [OF Cons.prems [simplified]] show ?case by (auto split: if_splits)
  qed simp
  from this [of "tl (bitFields g)"] assms
  have "(a, v) \<in> set (aliasPairs c)
      \<or> (\<exists>bf\<in>set (tl (bitFields g)). offset bf = byteOffset g \<and> a = vd bf \<and> v = vd f)"
    by (simp add: addBitFieldMembers_def)
  moreover have "set (tl (bitFields g)) \<subseteq> set (bitFields g)" by (cases "bitFields g") auto
  ultimately show thesis using that by blast
qed

lemma selected_addBitFieldMembers:
  assumes "selected dl off seen c" "aliasOK off (f, g)" "isBitField f"
  shows "selected dl off seen (addBitFieldMembers f g c)"
  using assms by (auto simp: selected_def aliasOK_def elim!: addBitFieldMembers_alias)

lemma overlapping_None:
  "overlapping f_begin f_end ds = None \<longleftrightarrow>
     (\<forall>e\<in>set ds. f_end \<le> offset (data_field e) \<or> offset (data_field e) + data_size e \<le> f_begin)"
  by (auto simp: overlapping_def find_None_iff not_less)

lemma overlapping_Some: "overlapping f_begin f_end ds = Some e \<Longrightarrow> e \<in> set ds"
  by (auto simp: overlapping_def find_Some_iff)

text \<open>The new element overlaps none of those selected before it, whether the code checks or not.\<close>

lemma selected_addActualField:
  assumes dl: "datalayout dl" and c: "selected dl off seen c"
    and size: "0 < unitSize u" and ok: "unitOK dl u" "aliasOK off u" "\<forall>w\<in>seen. aliasOK off w"
    and compat: "\<forall>w\<in>seen. 0 < unitSize w \<longrightarrow> disjointUnits u w \<or> mayOverlap u"
  shows "\<exists>c'. addActualField al (fst u) (unitSize u) c = Some c' \<and> selected dl off (insert u seen) c'"
proof -
  let ?f = "fst u" and ?stop = "offset (fst u) + unitSize u"
  obtain t where t: "(if isBitField ?f then Some (ArrayTy (unitSize u) getI8Type) else field_memType ?f) = Some t"
      "isSized t" "getTypeAllocSize dl t \<le> unitSize u"
    using ok(1) size dl by (cases "isBitField ?f") (auto simp: unitOK_def)
  let ?d = "\<lparr>data_field = ?f, data_llType = t, data_size = unitSize u\<rparr>"
  let ?check = "if isBitField ?f \<or> overlapped ?f then overlapping (offset ?f) ?stop (actualFields c) else None"
  show ?thesis
  proof (cases ?check)
    case None
    have "dataDisjoint e ?d" if e: "e \<in> set (actualFields c)" for e
    proof (cases "mayOverlap u")
      case True
      with None have "overlapping (offset ?f) ?stop (actualFields c) = None"
        by (auto simp: mayOverlap_def)
      with e show ?thesis by (auto simp: overlapping_None dataDisjoint_def)
    next
      case False
      from c e obtain w where "w \<in> seen" "data_field e = fst w" "data_size e = unitSize w" "0 < data_size e"
        by (fastforce simp: selected_def dataOK_def)
      with compat False show ?thesis by (auto simp: dataDisjoint_def disjointUnits_def)
    qed
    then have "selected dl off (insert u seen) (c\<lparr>actualFields := actualFields c @ [?d]\<rparr>)"
      using c t size by (auto simp: selected_def dataOK_def sorted_wrt_append)
    then show ?thesis using None t(1) by (auto simp: addActualField_def Let_def)
  next
    case (Some e)
    then have u: "mayOverlap u" and e: "e \<in> set (actualFields c)"
      by (auto simp: mayOverlap_def split: if_splits dest: overlapping_Some)
    from c e obtain w where "w \<in> seen" "data_field e = fst w" by (auto simp: selected_def)
    with ok(3) have "off (vd (data_field e)) = offset (data_field e)" by (auto simp: aliasOK_def)
    then have "selected dl off (insert u seen)
        (if al = AddToVarGEPIndices \<and> offset (data_field e) = offset ?f \<and> data_llType e = t
         then c\<lparr>aliasPairs := aliasPairs c @ [(vd ?f, vd (data_field e))]\<rparr> else c)"
      using c u ok(2) by (auto simp: selected_def aliasOK_def)
    then show ?thesis using Some t(1) by (simp add: addActualField_def Let_def)
  qed
qed


definition considered :: "nat \<Rightarrow> ptr list option \<Rightarrow> unit_of_layout \<Rightarrow> bool" where
  "considered pass inits u \<longleftrightarrow> (pass = 0 \<longrightarrow> unitInit inits u) \<and> (pass = 1 \<longrightarrow> \<not> unitInit inits u)"

lemma visitField_cases:
  "visitField pass inits al f g c =
     (let c = (if isBitField f \<and> pass = 1 then addBitFieldMembers f g c else c) in
      if \<not> considered pass inits (f, g) \<or> unitSize (f, g) = 0 then Some c
      else addActualField al f (unitSize (f, g)) c)"
  by (auto simp: visitField_def considered_def unitInit_def unitSize_def Let_def)

lemma selected_insert_empty:
  "selected dl off seen c \<Longrightarrow> unitSize u = 0 \<Longrightarrow> selected dl off (insert u seen) c"
  by (auto simp: selected_def)

lemma selected_visitField:
  assumes dl: "datalayout dl" and c: "selected dl off seen c"
    and ok: "unitOK dl u" "aliasOK off u" "\<forall>w\<in>seen. aliasOK off w"
    and compat: "considered pass inits u \<Longrightarrow> 0 < unitSize u \<Longrightarrow>
       \<forall>w\<in>seen. 0 < unitSize w \<longrightarrow> disjointUnits u w \<or> mayOverlap u"
  shows "\<exists>c'. visitField pass inits al (fst u) (snd u) c = Some c'
    \<and> selected dl off (if considered pass inits u then insert u seen else seen) c'"
proof -
  let ?c = "if isBitField (fst u) \<and> pass = 1 then addBitFieldMembers (fst u) (snd u) c else c"
  have c': "selected dl off seen ?c"
    using c ok(2) selected_addBitFieldMembers [of dl off seen c "fst u" "snd u"] by auto
  show ?thesis
  proof (cases "considered pass inits u \<and> 0 < unitSize u")
    case True
    with selected_addActualField [OF dl c' _ ok compat, of al] show ?thesis
      by (simp add: visitField_cases Let_def)
  next
    case False
    then show ?thesis using c' selected_insert_empty [OF c', of u]
      by (simp add: visitField_cases Let_def) auto
  qed
qed

lemma selected_pass:
  assumes dl: "datalayout dl"
    and us: "distinct us" "\<forall>u\<in>set us. unitOK dl u" "\<forall>u\<in>seen \<union> set us. aliasOK off u"
    and compat: "\<forall>u\<in>set us. \<forall>w\<in>seen \<union> set us. u \<noteq> w \<longrightarrow> 0 < unitSize u \<and> 0 < unitSize w \<longrightarrow>
       disjointUnits u w \<or> mayOverlap u"
    and fresh: "\<forall>u\<in>set us. considered pass inits u \<longrightarrow> u \<notin> seen"
    and c: "selected dl off seen c"
  shows "\<exists>c'. iterM (\<lambda>(f, g). visitField pass inits al f g) us c = Some c'
    \<and> selected dl off (seen \<union> {u\<in>set us. considered pass inits u}) c'"
  using us compat fresh c
proof (induction us arbitrary: seen c)
  case (Cons u us)
  let ?seen = "if considered pass inits u then insert u seen else seen"
  have "\<exists>c'. visitField pass inits al (fst u) (snd u) c = Some c' \<and> selected dl off ?seen c'"
  proof (rule selected_visitField [OF dl Cons.prems(6)])
    show "\<forall>w\<in>seen. 0 < unitSize w \<longrightarrow> disjointUnits u w \<or> mayOverlap u"
      if "considered pass inits u" "0 < unitSize u"
    proof (intro ballI impI)
      fix w assume "w \<in> seen" "0 < unitSize w"
      moreover from this that Cons.prems(5) have "u \<noteq> w" by auto
      ultimately show "disjointUnits u w \<or> mayOverlap u"
        using Cons.prems(4) that(2) by simp
    qed
  qed (use Cons.prems(2,3) in auto)
  then obtain c1 where c1: "visitField pass inits al (fst u) (snd u) c = Some c1" "selected dl off ?seen c1"
    by blast
  have "\<exists>c'. iterM (\<lambda>(f, g). visitField pass inits al f g) us c1 = Some c'
      \<and> selected dl off (?seen \<union> {u\<in>set us. considered pass inits u}) c'"
    by (rule Cons.IH [OF _ _ _ _ _ c1(2)]) (use Cons.prems in \<open>auto split: if_splits\<close>)
  moreover have "?seen \<union> {u\<in>set us. considered pass inits u} = seen \<union> {w\<in>set (u # us). considered pass inits w}"
    by auto
  ultimately show ?case using c1(1) by (cases u) simp
qed simp

lemma unitInit_None: "\<not> unitInit None u"
  by (simp add: unitInit_def explicitlyInitialized_def)

lemma collectFields_selected:
  assumes dl: "datalayout dl" and fe: "frontEndLayout dl fs start end"
    and off: "\<And>f. f \<in> set fs \<Longrightarrow> off (vd f) = offset f"
  shows "\<exists>c. collectFields inits al fs = Some c \<and> selected dl off (set (units fs)) c"
proof -
  let ?us = "units fs"
  let ?c0 = "\<lparr>actualFields = [], aliasPairs = [], extraBitFieldMembers = []\<rparr>"
  let ?it = "\<lambda>pass. iterM (\<lambda>(f, g). visitField pass inits al f g) ?us"
  have us: "distinct ?us" "\<forall>u\<in>set ?us. unitOK dl u" "\<forall>u\<in>set ?us. aliasOK off u"
    using fe distinct_units [of fs] units_aliasOK [of fs off, OF off]
    by (auto simp: frontEndLayout_def distinct_map)
  have compat: "\<forall>u\<in>set ?us. \<forall>w\<in>set ?us. u \<noteq> w \<longrightarrow> 0 < unitSize u \<and> 0 < unitSize w \<longrightarrow>
      disjointUnits u w \<or> mayOverlap u"
    using fe by (auto simp: frontEndLayout_def)
  have c0: "selected dl off {} ?c0" by (simp add: selected_def)
  have pass: "\<exists>c'. ?it pass c = Some c' \<and> selected dl off (seen \<union> {u\<in>set ?us. considered pass inits u}) c'"
    if "selected dl off seen c" "seen \<subseteq> set ?us" "\<forall>u\<in>set ?us. considered pass inits u \<longrightarrow> u \<notin> seen"
    for pass seen c
    by (rule selected_pass [OF dl us(1,2) _ _ that(3,1)]) (use us(3) compat that(2) in blast)+
  show ?thesis
  proof (cases inits)
    case None
    with pass [OF c0, of 1] show ?thesis
      by (simp add: collectFields_def collectPass_units considered_def unitInit_None)
  next
    case (Some vs)
    obtain c1 where c1: "?it 0 ?c0 = Some c1" "selected dl off {u\<in>set ?us. unitInit inits u} c1"
      using pass [OF c0, of 0] by (auto simp: considered_def)
    obtain c2 where c2: "?it 1 c1 = Some c2"
        "selected dl off ({u\<in>set ?us. unitInit inits u} \<union> {u\<in>set ?us. considered 1 inits u}) c2"
      using pass [OF c1(2), of 1] by (auto simp: considered_def)
    have "{u\<in>set ?us. unitInit inits u} \<union> {u\<in>set ?us. considered 1 inits u} = set ?us"
      by (auto simp: considered_def)
    with c1(1) c2 Some show ?thesis by (simp add: collectFields_def collectPass_units)
  qed
qed


section \<open>Placement\<close>

definition precedes :: "Data \<Rightarrow> Data \<Rightarrow> bool" where
  "precedes d e \<longleftrightarrow> offset (data_field d) + data_size d \<le> offset (data_field e)"

lemma dataDisjoint_sym: "dataDisjoint d e \<longleftrightarrow> dataDisjoint e d"
  by (auto simp: dataDisjoint_def)

lemma disjoint_insort:
  "sorted_wrt dataDisjoint (insort_key f x xs)
     \<longleftrightarrow> (\<forall>y\<in>set xs. dataDisjoint x y) \<and> sorted_wrt dataDisjoint xs"
  by (induction xs) (auto simp: set_insort_key dataDisjoint_sym)

lemma disjoint_sort: "sorted_wrt dataDisjoint xs \<Longrightarrow> sorted_wrt dataDisjoint (sort_key f xs)"
  by (induction xs) (simp_all add: disjoint_insort)

lemma sort_precedes:
  assumes "sorted_wrt dataDisjoint xs" "\<forall>d\<in>set xs. 0 < data_size d"
  shows "sorted_wrt precedes (sort_key (\<lambda>d. offset (data_field d)) xs)"
proof -
  have "sorted_wrt precedes ys"
    if "sorted_wrt dataDisjoint ys" "sorted (map (\<lambda>d. offset (data_field d)) ys)" "\<forall>d\<in>set ys. 0 < data_size d"
    for ys
    using that
  proof (induction ys)
    case (Cons y ys)
    then have "precedes y z" if "z \<in> set ys" for z
      using that by (fastforce simp: dataDisjoint_def precedes_def)
    with Cons show ?case by simp
  qed simp
  from this [of "sort_key (\<lambda>d. offset (data_field d)) xs"] show ?thesis
    using assms(2) disjoint_sort [OF assms(1), of "\<lambda>d. offset (data_field d)"] by simp
qed

lemma setGEPIndices_Some:
  assumes "setGEPIndices pairs v idx m w = Some i"
  shows "m w = Some i \<or> i = idx \<and> (w = v \<or> (w, v) \<in> set pairs)"
proof -
  have "fold (\<lambda>(alias, actual) m. if actual = v then m(alias \<mapsto> idx) else m) ps m0 w = Some i
    \<Longrightarrow> m0 w = Some i \<or> i = idx \<and> (w, v) \<in> set ps" for ps m0
  proof (induction ps arbitrary: m0)
    case (Cons p ps)
    then show ?case by (cases p) (fastforce split: if_splits)
  qed simp
  from this [of pairs "m(v \<mapsto> idx)"] assms show ?thesis
    by (auto simp: setGEPIndices_def split: if_splits)
qed

lemma setGEPIndices_dom: "dom (setGEPIndices pairs v idx m) = insert v (dom m) \<union> {a. (a, v) \<in> set pairs}"
proof -
  have "dom (fold (\<lambda>(alias, actual) m. if actual = v then m(alias \<mapsto> idx) else m) ps m0)
      = dom m0 \<union> {a. (a, v) \<in> set ps}" for ps m0
    by (induction ps arbitrary: m0) (auto split: if_splits)
  from this [of pairs "m(v \<mapsto> idx)"] show ?thesis by (simp add: setGEPIndices_def)
qed

lemma binv_placeField:
  assumes dl: "datalayout dl" and b: "binv dl off b" and d: "dataOK dl d"
    and le: "m_offset b \<le> offset (data_field d)" "offset (data_field d) + data_size d < 2 ^ 32"
    and off: "off (vd (data_field d)) = offset (data_field d)" "\<forall>(a, v)\<in>set (aliasPairs c). off a = off v"
  shows "\<exists>b'. placeField dl c d b = Some b' \<and> binv dl off b'
    \<and> m_offset b' \<le> offset (data_field d) + data_size d
    \<and> insert (vd (data_field d)) (dom (m_varGEPIndices b)) \<subseteq> dom (m_varGEPIndices b')"
proof -
  let ?v = "data_field d" and ?t = "data_llType d"
  obtain b1 where b1: "padTo (offset ?v) b = Some b1" "binv dl off b1" "m_offset b1 = offset ?v"
      "m_varGEPIndices b1 = m_varGEPIndices b"
    using binv_padTo [OF dl b, of "offset ?v"] le(1) by auto
  let ?b' = "b1\<lparr>m_defaultTypes := m_defaultTypes b1 @ [?t],
     m_packed := (m_packed b1 \<or> misaligned (m_offset b1) (getABITypeAlign dl ?t)),
     m_offset := m_offset b1 + getTypeAllocSize dl ?t,
     m_varGEPIndices := setGEPIndices (aliasPairs c) (vd ?v) (m_fieldIndex b1) (m_varGEPIndices b1),
     m_extraBitFieldMembers := m_extraBitFieldMembers b1
        @ filter (\<lambda>(_, first). first = vd ?v) (extraBitFieldMembers c),
     m_fieldIndex := m_fieldIndex b1 + 1,
     m_maxFieldIRAlignment := max (m_maxFieldIRAlignment b1) (getABITypeAlign dl ?t)\<rparr>"
  have "placeField dl c d b = Some ?b'"
    using d le b1(1,3) datalayout_align_pos [OF dl, of ?t]
    by (simp add: placeField_def dataOK_def Let_def)
  moreover have "binv dl off ?b'"
    by (rule binv_append [OF dl b1(2), where t = ?t])
       (use b1(3) off in \<open>auto dest!: setGEPIndices_Some\<close>)
  moreover have "m_offset ?b' \<le> offset ?v + data_size d"
    using d b1(3) by (simp add: dataOK_def)
  ultimately show ?thesis using b1(4) by (auto simp: setGEPIndices_dom)
qed

lemma binv_placeFields:
  assumes dl: "datalayout dl"
    and ds: "sorted_wrt precedes ds" "\<forall>d\<in>set ds. dataOK dl d \<and> off (vd (data_field d)) = offset (data_field d)
        \<and> offset (data_field d) + data_size d \<le> end"
    and "end < 2 ^ 32" and b: "binv dl off b" "\<forall>d\<in>set ds. m_offset b \<le> offset (data_field d)"
    and al: "\<forall>(a, v)\<in>set (aliasPairs c). off a = off v"
  shows "\<exists>b'. iterM (placeField dl c) ds b = Some b' \<and> binv dl off b' \<and> m_offset b' \<le> max (m_offset b) end
    \<and> (vd \<circ> data_field) ` set ds \<union> dom (m_varGEPIndices b) \<subseteq> dom (m_varGEPIndices b')"
  using ds b
proof (induction ds arbitrary: b)
  case (Cons d ds)
  from Cons.prems(2) \<open>end < 2 ^ 32\<close> have "offset (data_field d) + data_size d < 2 ^ 32" by auto
  then obtain b1 where b1: "placeField dl c d b = Some b1" "binv dl off b1"
      "m_offset b1 \<le> offset (data_field d) + data_size d"
      "insert (vd (data_field d)) (dom (m_varGEPIndices b)) \<subseteq> dom (m_varGEPIndices b1)"
    using binv_placeField [OF dl Cons.prems(3), of d c] Cons.prems(2,4) al by auto
  have "\<forall>e\<in>set ds. m_offset b1 \<le> offset (data_field e)"
    using Cons.prems(1) b1(3) by (fastforce simp: precedes_def)
  with Cons.IH [OF _ _ b1(2)] Cons.prems(1,2) obtain b2 where
      "iterM (placeField dl c) ds b1 = Some b2" "binv dl off b2" "m_offset b2 \<le> max (m_offset b1) end"
      "(vd \<circ> data_field) ` set ds \<union> dom (m_varGEPIndices b1) \<subseteq> dom (m_varGEPIndices b2)"
    by auto
  moreover have "m_offset b1 \<le> end" using b1(3) Cons.prems(2) by auto
  moreover have "vd (data_field d) \<in> dom (m_varGEPIndices b2)" "dom (m_varGEPIndices b) \<subseteq> dom (m_varGEPIndices b2)"
    using b1(4) calculation(4) by blast+
  ultimately show ?case using b1(1) by auto
qed simp

text \<open>
  The theorem about \<open>addAggregate\<close>: on fields the front end laid out it never runs into one of
  its internal errors, keeps the invariant, and gives every field that overlaps no other an
  element index.
\<close>

theorem addAggregate_layout:
  assumes dl: "datalayout dl" and fe: "frontEndLayout dl fs start end"
    and b: "binv dl off b" "m_offset b \<le> start"
    and off: "\<And>f. f \<in> set fs \<Longrightarrow> off (vd f) = offset f"
  shows "\<exists>b'. addAggregate dl False fs inits al b = Some b' \<and> binv dl off b'
    \<and> m_offset b' \<le> max (m_offset b) end
    \<and> dom (m_varGEPIndices b) \<subseteq> dom (m_varGEPIndices b')
    \<and> (\<forall>u\<in>set (units fs). 0 < unitSize u \<and> \<not> mayOverlap u \<longrightarrow> vd (fst u) \<in> dom (m_varGEPIndices b'))"
proof (cases "fs = []")
  case False
  obtain c where c: "collectFields inits al fs = Some c" "selected dl off (set (units fs)) c"
    using collectFields_selected [OF dl fe off] by blast
  let ?ds = "sort_key (\<lambda>d. offset (data_field d)) (actualFields c)"
  have u: "\<exists>u\<in>set (units fs). data_field d = fst u \<and> data_size d = unitSize u" "dataOK dl d" "0 < data_size d"
    if "d \<in> set (actualFields c)" for d
    using c(2) that by (auto simp: selected_def dataOK_def)
  have d: "dataOK dl d \<and> off (vd (data_field d)) = offset (data_field d)
      \<and> start \<le> offset (data_field d) \<and> offset (data_field d) + data_size d \<le> end"
    if "d \<in> set (actualFields c)" for d
  proof -
    from u(1) [OF that] obtain w where w: "w \<in> set (units fs)" "data_field d = fst w" "data_size d = unitSize w"
      by blast
    then have "fst w \<in> set fs" using units_fields [of fs] by auto
    with w fe u(2,3) [OF that] off [of "fst w"] show ?thesis by (auto simp: frontEndLayout_def)
  qed
  have "sorted_wrt precedes ?ds"
    using sort_precedes c(2) u(3) by (auto simp: selected_def)
  moreover have "\<forall>(a, v)\<in>set (aliasPairs c). off a = off v" "end < 2 ^ 32"
    using c(2) fe by (auto simp: selected_def frontEndLayout_def)
  ultimately obtain b' where b': "iterM (placeField dl c) ?ds b = Some b'" "binv dl off b'"
      "m_offset b' \<le> max (m_offset b) end"
      "(vd \<circ> data_field) ` set ?ds \<union> dom (m_varGEPIndices b) \<subseteq> dom (m_varGEPIndices b')"
    using binv_placeFields [OF dl, of ?ds off "end" b c] d b by fastforce
  have "vd (fst w) \<in> dom (m_varGEPIndices b')" if "w \<in> set (units fs)" "0 < unitSize w" "\<not> mayOverlap w" for w
  proof -
    from c(2) that have "fst w \<in> data_field ` set (actualFields c)" by (auto simp: selected_def)
    with b'(4) show ?thesis by auto
  qed
  with b' c(1) False show ?thesis by (auto simp: addAggregate_def)
qed (use b in \<open>auto simp: addAggregate_def\<close>)

section \<open>Members of bit field groups\<close>

text \<open>The bits of a member, counted from the start of its group.\<close>

definition memberIn :: "BitFieldGroup \<Rightarrow> AggrField \<Rightarrow> bool" where
  "memberIn g f \<longleftrightarrow> (case bitField f of
     None \<Rightarrow> False
   | Some (bitOff, width) \<Rightarrow>
       byteOffset g \<le> offset f \<and> (offset f - byteOffset g) * 8 + bitOff + width \<le> 8 * sizeInBytes g)"

definition smallBits :: "AggrField \<Rightarrow> bool" where
  "smallBits f \<longleftrightarrow> (case bitField f of None \<Rightarrow> True | Some (bitOff, width) \<Rightarrow> offset f * 8 + bitOff + width + 7 < 2 ^ 32)"

lemma memberIn_extend:
  assumes "memberIn g f"
  shows "memberIn (extendGroup bitOff width bf g) f"
  using assms by (auto simp: memberIn_def extendGroup_def max_def split: option.splits)

lemma memberIn_new:
  assumes "bitField f = Some (bitOff, width)" "byteOffset g \<le> offset f" "smallBits f"
  shows "memberIn (extendGroup (trunc32 (bitOff + (offset f - byteOffset g) * 8)) width f g) f"
proof -
  let ?b = "bitOff + (offset f - byteOffset g) * 8"
  have lt: "?b + width + 7 < 2 ^ 32" using assms by (auto simp: smallBits_def)
  then have "trunc32 ?b = ?b" "trunc32 (?b + width + 7) = ?b + width + 7" by (simp_all add: trunc32_def)
  moreover have "?b + width \<le> 8 * ((?b + width + 7) div 8)" by presburger
  ultimately show ?thesis
    using assms(1,2) by (simp add: memberIn_def extendGroup_def max_def)
qed

lemma groupFrom_members:
  assumes "\<forall>f\<in>set fs. smallBits f" "\<forall>f\<in>set (bitFields g). memberIn g f" "first \<longrightarrow> bitFields g = []"
  shows "\<forall>f\<in>set (bitFields (groupFrom first g fs)). memberIn (groupFrom first g fs) f"
  using assms
proof (induction fs arbitrary: first g)
  case (Cons f fs)
  show ?case
  proof (cases "bitField f")
    case None
    with Cons.prems show ?thesis by simp
  next
    case (Some p)
    obtain bo w where p: "bitField f = Some (bo, w)" using Some by (cases p) auto
    let ?g = "if first then g\<lparr>byteOffset := offset f\<rparr> else g"
    let ?b = "if first then bo else trunc32 (bo + (offset f - byteOffset g) * 8)"
    have le: "byteOffset ?g \<le> offset f \<Longrightarrow> \<forall>h\<in>set (bitFields (extendGroup ?b w f ?g)). memberIn (extendGroup ?b w f ?g) h"
      using Cons.prems memberIn_extend memberIn_new [OF p, of ?g] p
      by (auto simp: extendGroup_def smallBits_def)
    show ?thesis
      using Cons.IH [of "extendGroup ?b w f ?g" False] Cons.prems le p by auto
  qed
qed simp

lemma startingFrom_member:
  assumes "\<forall>f\<in>set fs. smallBits f" "bf \<in> set (bitFields (startingFrom fs))" "bitField bf = Some (bitOff, width)"
  shows "\<exists>k. getBitOffset (startingFrom fs) bf = Some k \<and> k + width \<le> 8 * sizeInBytes (startingFrom fs)"
    "getBitOffset (startingFrom fs) bf = Some ((offset bf - byteOffset (startingFrom fs)) * 8 + bitOff)"
    "byteOffset (startingFrom fs) \<le> offset bf"
proof -
  let ?g = "startingFrom fs"
  have m: "memberIn ?g bf"
    using groupFrom_members [OF assms(1), of "\<lparr>byteOffset = 0, sizeInBytes = 0, bitFields = []\<rparr>" True] assms(2)
    by (simp add: startingFrom_def)
  have "bf \<in> set fs"
    using groupFrom_bitFields [of True "\<lparr>byteOffset = 0, sizeInBytes = 0, bitFields = []\<rparr>" fs] assms(2)
    by (auto simp: startingFrom_def)
  then have "(offset bf - byteOffset ?g) * 8 + bitOff < 2 ^ 32" using assms(1,3) by (auto simp: smallBits_def)
  with m assms(3) show "\<exists>k. getBitOffset ?g bf = Some k \<and> k + width \<le> 8 * sizeInBytes ?g"
    "getBitOffset ?g bf = Some ((offset bf - byteOffset ?g) * 8 + bitOff)" "byteOffset ?g \<le> offset bf"
    by (auto simp: memberIn_def getBitOffset_def trunc32_def)
qed

end
