(* ===== verification/DTypes.thy ===== *)
theory DTypes
  imports AggrLayout
begin

text \<open>
  D types as the code generator sees them, and their translation to LLVM types
  (\<open>gen/tollvm.cpp\<close>, \<open>ir/irtype.cpp\<close>, \<open>ir/irtypestruct.cpp\<close>, \<open>ir/irtypeclass.cpp\<close>).

  A type carries what the code reads of it. Pointers, slices, associative arrays, delegates and
  class references do not mention the type they refer to, which may be recursive. Types have no
  modifiers, so \<open>stripModifiers\<close> is the identity, and the cache \<open>Type::ctype\<close> is transparent.

  Sizes, alignments, \<open>toArgTypes\<close> and \<open>isHFVA\<close> are computed by the front end, which is written
  in D; they and LLVM's data layout are the record \<open>FrontEnd\<close>, a parameter.
\<close>

section \<open>Types\<close>

datatype TY =
    Tarray | Tsarray | Taarray | Tpointer | Treference | Tfunction | Tident | Tclass | Tstruct | Tenum
  | Tdelegate | Tnone | Tvoid | Tint8 | Tuns8 | Tint16 | Tuns16 | Tint32 | Tuns32 | Tint64
  | Tuns64 | Tfloat32 | Tfloat64 | Tfloat80 | Timaginary32 | Timaginary64 | Timaginary80
  | Tcomplex32 | Tcomplex64 | Tcomplex80
  | Tbool | Tchar | Twchar | Tdchar | Terror | Tinstance | Ttypeof | Ttuple | Tslice | Treturn
  | Tnull | Tvector | Tint128 | Tuns128 | Ttraits | Tmixin | Tnoreturn

record StructInfo =
  sd_ident :: string
  sd_prettyName :: string
  sd_nspace :: "string option"
  sd_sizeok :: bool
  structsize :: nat
  sd_members :: bool
  sd_isPOD :: bool
  sd_ctor :: bool
  sd_postblit :: bool
  sd_hasCopyCtor :: bool
  sd_isFromOpenCL :: bool
  sd_dcomputePointer :: "nat option"

datatype Type =
    TypeBasic TY
  | TypeNull
  | TypePointer (nextIsFunction: bool)
  | TypeDArray
  | TypeAArray
  | TypeDelegate
  | TypeClass
  | TypeSArray Type nat
  | TypeVector Type nat
  | TypeEnum string "Type option"
  | TypeStruct StructDeclaration
and StructDeclaration = StructDeclaration (sd_info: StructInfo) (sd_argTypes: "Type list option") (sd_fields: "Field list")
and Field = Field (field_decl: VarDeclaration) (field_type: Type)

fun ty :: "Type \<Rightarrow> TY" where
  "ty (TypeBasic t) = t"
| "ty TypeNull = Tnull"
| "ty (TypePointer _) = Tpointer"
| "ty TypeDArray = Tarray"
| "ty TypeAArray = Taarray"
| "ty TypeDelegate = Tdelegate"
| "ty TypeClass = Tclass"
| "ty (TypeSArray _ _) = Tsarray"
| "ty (TypeVector _ _) = Tvector"
| "ty (TypeEnum _ _) = Tenum"
| "ty (TypeStruct _) = Tstruct"

fun toBasetype :: "Type \<Rightarrow> Type" where
  "toBasetype (TypeEnum n (Some t)) = toBasetype t"
| "toBasetype t = t"

fun baseElemOf :: "Type \<Rightarrow> Type" where
  "baseElemOf (TypeEnum n (Some t)) = baseElemOf t"
| "baseElemOf (TypeSArray t n) = baseElemOf t"
| "baseElemOf t = t"

fun structOf :: "Type \<Rightarrow> StructDeclaration option" where
  "structOf (TypeStruct sd) = Some sd"
| "structOf _ = None"

definition isintegralTY :: "TY \<Rightarrow> bool" where
  "isintegralTY t \<longleftrightarrow> t \<in> {Tint8, Tuns8, Tint16, Tuns16, Tint32, Tuns32, Tint64, Tuns64, Tint128, Tuns128,
     Tbool, Tchar, Twchar, Tdchar}"

definition isunsignedTY :: "TY \<Rightarrow> bool" where
  "isunsignedTY t \<longleftrightarrow> t \<in> {Tuns8, Tuns16, Tuns32, Tuns64, Tuns128, Tbool, Tchar, Twchar, Tdchar}"

definition iscomplexTY :: "TY \<Rightarrow> bool" where
  "iscomplexTY t \<longleftrightarrow> t \<in> {Tcomplex32, Tcomplex64, Tcomplex80}"

definition isfloatingTY :: "TY \<Rightarrow> bool" where
  "isfloatingTY t \<longleftrightarrow> t \<in> {Tfloat32, Tfloat64, Tfloat80, Timaginary32, Timaginary64, Timaginary80} \<or> iscomplexTY t"

fun onBasic :: "(TY \<Rightarrow> bool) \<Rightarrow> Type \<Rightarrow> bool" where
  "onBasic p (TypeBasic t) = p t"
| "onBasic p (TypeVector t n) = onBasic p t"
| "onBasic p (TypeEnum n (Some t)) = onBasic p t"
| "onBasic p _ = False"

definition isintegral :: "Type \<Rightarrow> bool" where
  "isintegral = onBasic isintegralTY"

definition isunsigned :: "Type \<Rightarrow> bool" where
  "isunsigned = onBasic isunsignedTY"

definition isfloating :: "Type \<Rightarrow> bool" where
  "isfloating = onBasic isfloatingTY"

fun iscomplex :: "Type \<Rightarrow> bool" where
  "iscomplex (TypeBasic t) = iscomplexTY t"
| "iscomplex (TypeEnum n (Some t)) = iscomplex t"
| "iscomplex _ = False"

fun isscalar :: "Type \<Rightarrow> bool" where
  "isscalar (TypeBasic t) = (isintegralTY t \<or> isfloatingTY t)"
| "isscalar (TypePointer _) = True"
| "isscalar (TypeVector t n) = isscalar t"
| "isscalar (TypeEnum n (Some t)) = isscalar t"
| "isscalar _ = False"

section \<open>Front end and target\<close>

record FrontEnd =
  fe_size :: "Type \<Rightarrow> nat"
  fe_alignment :: "Type \<Rightarrow> nat option"
  fe_alignsize :: "Type \<Rightarrow> nat"
  fe_toArgTypes :: "Type \<Rightarrow> Type list option"
  fe_isHFVA :: "Type \<Rightarrow> nat \<Rightarrow> Type option"
  fe_equivalent :: "Type \<Rightarrow> Type \<Rightarrow> bool"
  fe_realType :: LLType
  fe_ptrsize :: nat
  fe_layout :: DataLayout
  fe_dcomputeMapping :: "(nat \<Rightarrow> nat) option"

definition DtoAlignment :: "FrontEnd \<Rightarrow> Type \<Rightarrow> nat" where
  "DtoAlignment fe t =
     (case fe_alignment fe t of
        Some a \<Rightarrow> a
      | None \<Rightarrow>
          (case structOf (toBasetype t) of
             Some sd \<Rightarrow> if sd_members (sd_info sd) then fe_alignsize fe t else 0
           | None \<Rightarrow> fe_alignsize fe t))"

definition DtoIsInMemoryOnly :: "Type \<Rightarrow> bool" where
  "DtoIsInMemoryOnly t = (ty (toBasetype t) = Tstruct \<or> ty (toBasetype t) = Tsarray)"

definition DtoSize_t :: "FrontEnd \<Rightarrow> LLType option" where
  "DtoSize_t fe =
     (if fe_ptrsize fe = 8 then Some (IntegerTy 64)
      else if fe_ptrsize fe = 4 then Some (IntegerTy 32)
      else if fe_ptrsize fe = 2 then Some (IntegerTy 16)
      else None)"

definition getComplexType :: "LLType \<Rightarrow> LLType" where
  "getComplexType t = literalStruct [t, t]"

definition basic2llvm :: "FrontEnd \<Rightarrow> TY \<Rightarrow> LLType option" where
  "basic2llvm fe t =
     (if t = Tvoid \<or> t = Tnoreturn then Some VoidTy
      else if t = Tint8 \<or> t = Tuns8 \<or> t = Tchar then Some (IntegerTy 8)
      else if t = Tint16 \<or> t = Tuns16 \<or> t = Twchar then Some (IntegerTy 16)
      else if t = Tint32 \<or> t = Tuns32 \<or> t = Tdchar then Some (IntegerTy 32)
      else if t = Tint64 \<or> t = Tuns64 then Some (IntegerTy 64)
      else if t = Tint128 \<or> t = Tuns128 then Some (IntegerTy 128)
      else if t = Tfloat32 \<or> t = Timaginary32 then Some FloatTy
      else if t = Tfloat64 \<or> t = Timaginary64 then Some DoubleTy
      else if t = Tfloat80 \<or> t = Timaginary80 then Some (fe_realType fe)
      else if t = Tcomplex32 then Some (getComplexType FloatTy)
      else if t = Tcomplex64 then Some (getComplexType DoubleTy)
      else if t = Tcomplex80 then Some (getComplexType (fe_realType fe))
      else if t = Tbool then Some (IntegerTy 1)
      else None)"

section \<open>Structs\<close>

text \<open>
  \<open>IrTypeStruct::get\<close>: the LLVM type and the element indices of the fields. A failure is the
  internal compiler error for a size that differs from the front end's.
\<close>

definition IrTypeStruct_get :: "FrontEnd \<Rightarrow> StructInfo \<Rightarrow> AggrField list \<Rightarrow> (LLType \<times> (ptr \<rightharpoonup> nat)) option" where
  "IrTypeStruct_get fe sd fs =
     (let name = sd_prettyName sd; dl = fe_layout fe in
      if \<not> sd_sizeok sd then
        Some (OpaqueTy (if sd_isFromOpenCL sd then drop 4 name else name), Map.empty)
      else case (fe_dcomputeMapping fe, sd_dcomputePointer sd) of
        (Some mapping, Some addrspace) \<Rightarrow>
          (case fs of
             [] \<Rightarrow> None
           | f # _ \<Rightarrow> Some (StructTy (Some name) False [PointerTy (mapping addrspace)], [vd f \<mapsto> 0]))
      | _ \<Rightarrow> do {
          b \<leftarrow> addAggregate dl False fs None AddToVarGEPIndices (emptyBuilder 0);
          b \<leftarrow> addTailPadding (structsize sd) b;
          let type = StructTy (Some name) (m_packed b) (m_defaultTypes b);
          ensure (getTypeAllocSize dl type = structsize sd);
          Some (type, m_varGEPIndices b) })"

definition toMemType :: "LLType \<Rightarrow> LLType" where
  "toMemType t = i1ToI8 (voidToI8 t)"

primrec DtoType :: "FrontEnd \<Rightarrow> Type \<Rightarrow> LLType option"
  and DtoStructType :: "FrontEnd \<Rightarrow> StructDeclaration \<Rightarrow> LLType option"
  and aggrField :: "FrontEnd \<Rightarrow> Field \<Rightarrow> AggrField" where
  "DtoType fe (TypeBasic t) = basic2llvm fe t"
| "DtoType fe TypeNull = Some getOpaquePtrType"
| "DtoType fe (TypePointer fn) =
     Some (PointerTy (if fn then getProgramAddressSpace (fe_layout fe) else 0))"
| "DtoType fe TypeDArray = map_option (\<lambda>s. literalStruct [s, getOpaquePtrType]) (DtoSize_t fe)"
| "DtoType fe TypeAArray = Some getOpaquePtrType"
| "DtoType fe TypeDelegate =
     Some (literalStruct [getOpaquePtrType, PointerTy (getProgramAddressSpace (fe_layout fe))])"
| "DtoType fe TypeClass = Some getOpaquePtrType"
| "DtoType fe (TypeSArray t dim) = map_option (\<lambda>e. ArrayTy dim (toMemType e)) (DtoType fe t)"
| "DtoType fe (TypeVector t dim) = map_option (\<lambda>e. VectorTy dim (toMemType e)) (DtoType fe t)"
| "DtoType fe (TypeEnum n b) =
     (case map_option (DtoType fe) b of None \<Rightarrow> Some getI8Type | Some t \<Rightarrow> t)"
| "DtoType fe (TypeStruct sd) = DtoStructType fe sd"
| "DtoStructType fe (StructDeclaration sd argTypes fs) =
     map_option fst (IrTypeStruct_get fe sd (map (aggrField fe) fs))"
| "aggrField fe (Field v t) =
     VarDeclaration.extend v \<lparr>field_size = fe_size fe t, field_memType = map_option toMemType (DtoType fe t)\<rparr>"

definition DtoMemType :: "FrontEnd \<Rightarrow> Type \<Rightarrow> LLType option" where
  "DtoMemType fe t = map_option toMemType (DtoType fe t)"

end
