(* ===== verification/AggregateTypes.thy ===== *)
theory AggregateTypes
  imports DTypes
begin

text \<open>
  Member access and class types (\<open>IrTypeAggr::getMemberLocation\<close>, \<open>DtoIndexAggregate\<close>,
  \<open>ir/irtypeclass.cpp\<close>), with the exactness of the layouts: the address computed for a member is
  always the address of the object plus the offset the front end gave the member, and the
  LLVM type has the size of the D type.
\<close>

section \<open>Member access\<close>

definition getMemberLocation :: "(ptr \<rightharpoonup> nat) \<Rightarrow> 'a VarDeclaration_scheme \<Rightarrow> nat \<times> bool" where
  "getMemberLocation varGEPIndices var =
     (case varGEPIndices (vd var) of
        Some i \<Rightarrow> (i, True)
      | None \<Rightarrow> (offset var, False))"

definition getFieldGEPIndex :: "(ptr \<rightharpoonup> nat) \<Rightarrow> 'a VarDeclaration_scheme \<Rightarrow> nat option" where
  "getFieldGEPIndex gep var = (let (off, isFieldIdx) = getMemberLocation gep var in if isFieldIdx then Some off else None)"

text \<open>
  The address \<open>DtoIndexAggregate\<close> computes for a member of an aggregate at \<open>src\<close>, except for
  Objective-C classes. \<open>DtoGEP\<close> on a struct type adds the offset of the element.
\<close>

definition DtoIndexAggregate ::
  "DataLayout \<Rightarrow> LLType \<Rightarrow> (ptr \<rightharpoonup> nat) \<Rightarrow> nat \<Rightarrow> 'a VarDeclaration_scheme \<Rightarrow> nat \<Rightarrow> nat option" where
  "DtoIndexAggregate dl st gep aggrSize var src =
     (let (off, isFieldIdx) = getMemberLocation gep var in
      if \<not> isFieldIdx then Some (src + off)
      else if aggrSize = 0 then (if off = 0 then Some src else None)
      else case st of
        StructTy _ packed ts \<Rightarrow>
          if off < length ts then Some (src + elementOffsets dl packed 0 ts ! off) else None
      | _ \<Rightarrow> None)"

section \<open>Classes\<close>

record ClassInfo =
  cd_prettyName :: string
  cd_structsize :: nat
  cd_isInterface :: bool
  cd_isCPP :: bool
  cd_isObjC :: bool

datatype Interface = Interface (if_sym: ptr) (if_base: "Interface option")

datatype ClassDeclaration =
  ClassDeclaration (cd_info: ClassInfo) (cd_baseClass: "ClassDeclaration option")
    (cd_vtblInterfaces: "Interface list") (cd_fields: "AggrField list")

record IrTypeClass =
  interfaceMap :: "ptr \<rightharpoonup> nat"
  num_interface_vtbls :: nat

fun addInterfaceToMap :: "Interface \<Rightarrow> nat \<Rightarrow> (ptr \<rightharpoonup> nat) \<Rightarrow> (ptr \<rightharpoonup> nat)" where
  "addInterfaceToMap (Interface intf base) index m =
     (if m intf \<noteq> None then m
      else case base of
        None \<Rightarrow> m(intf \<mapsto> index)
      | Some b \<Rightarrow> addInterfaceToMap b index (m(intf \<mapsto> index)))"

definition addInterfaceVtbl ::
  "FrontEnd \<Rightarrow> Interface \<Rightarrow> AggrTypeBuilder \<times> IrTypeClass \<Rightarrow> (AggrTypeBuilder \<times> IrTypeClass) option" where
  "addInterfaceVtbl fe i = (\<lambda>(b, irc). do {
     let m = addInterfaceToMap i (m_fieldIndex b) (interfaceMap irc);
     b \<leftarrow> addType (fe_layout fe) getOpaquePtrType (fe_ptrsize fe) b;
     Some (b, irc\<lparr>interfaceMap := m, num_interface_vtbls := num_interface_vtbls irc + 1\<rparr>) })"

fun addClassData ::
  "FrontEnd \<Rightarrow> ClassDeclaration \<Rightarrow> AggrTypeBuilder \<times> IrTypeClass \<Rightarrow> (AggrTypeBuilder \<times> IrTypeClass) option" where
  "addClassData fe (ClassDeclaration info baseClass vtblInterfaces fs) s = do {
     s \<leftarrow> (case baseClass of None \<Rightarrow> Some s | Some bc \<Rightarrow> addClassData fe bc s);
     (b, irc) \<leftarrow>
       (if vtblInterfaces \<noteq> [] then do {
          b \<leftarrow> alignCurrentOffset (fe_ptrsize fe) (fst s);
          iterM (addInterfaceVtbl fe) vtblInterfaces (b, snd s) }
        else Some s);
     b \<leftarrow> addAggregate (fe_layout fe) (cd_isObjC info) fs None AddToVarGEPIndices b;
     Some (b, irc) }"

definition getMemoryLLType :: "FrontEnd \<Rightarrow> ClassDeclaration \<Rightarrow> (LLType \<times> (ptr \<rightharpoonup> nat) \<times> IrTypeClass) option" where
  "getMemoryLLType fe cd = (
     let info = cd_info cd; dl = fe_layout fe; instanceSize = cd_structsize info;
         irc = \<lparr>interfaceMap = Map.empty, num_interface_vtbls = 0\<rparr>;
         structType = (\<lambda>b. StructTy (Some (cd_prettyName info)) (m_packed b) (m_defaultTypes b)) in
     if cd_isObjC info then do {
       b \<leftarrow> addType dl getOpaquePtrType (fe_ptrsize fe) (emptyBuilder 0);
       Some (structType b, Map.empty, irc) }
     else do {
       b \<leftarrow> addType dl getOpaquePtrType (fe_ptrsize fe) (emptyBuilder 0);
       (b, irc) \<leftarrow>
         (if cd_isInterface info then
            Some (b, irc\<lparr>num_interface_vtbls := length (cd_vtblInterfaces cd)\<rparr>)
          else do {
            b \<leftarrow> (if \<not> cd_isCPP info then addType dl getOpaquePtrType (fe_ptrsize fe) b else Some b);
            (b, irc) \<leftarrow> addClassData fe cd (b, irc);
            b \<leftarrow> (if instanceSize \<noteq> 0 then addTailPadding instanceSize b else Some b);
            Some (b, irc) });
       ensure (cd_isInterface info \<or> instanceSize = 0 \<or> getTypeAllocSize dl (structType b) = instanceSize);
       Some (structType b, m_varGEPIndices b, irc) })"

definition getInterfaceIndex :: "FrontEnd \<Rightarrow> ClassDeclaration \<Rightarrow> ptr \<Rightarrow> nat option" where
  "getInterfaceIndex fe cd intf = do {
     (_, _, irc) \<leftarrow> getMemoryLLType fe cd;
     Some (case interfaceMap irc intf of None \<Rightarrow> 2 ^ 64 - 1 | Some i \<Rightarrow> i) }"

section \<open>Exactness for structs\<close>

text \<open>\<open>offsetIn fs\<close> is the offset of a variable among the fields \<open>fs\<close>.\<close>

definition offsetIn :: "AggrField list \<Rightarrow> ptr \<Rightarrow> nat" where
  "offsetIn fs v = (case find (\<lambda>f. vd f = v) fs of Some f \<Rightarrow> offset f | None \<Rightarrow> 0)"

lemma offsetIn_field:
  assumes "distinct (map vd fs)" "f \<in> set fs"
  shows "offsetIn fs (vd f) = offset f"
  using assms
proof (induction fs)
  case (Cons g fs)
  then show ?case by (cases "f = g") (auto simp: offsetIn_def)
qed simp

lemma DtoIndexAggregate_exact:
  assumes "\<And>i. gep (vd f) = Some i \<Longrightarrow>
       i < length ts \<and> elementOffsets dl packed 0 ts ! i = offset f"
    and "n = 0 \<Longrightarrow> gep (vd f) = None"
  shows "DtoIndexAggregate dl (StructTy nm packed ts) gep n f src = Some (src + offset f)"
  using assms by (auto simp: DtoIndexAggregate_def getMemberLocation_def split: option.split)

lemma struct_layout:
  assumes dl: "datalayout (fe_layout fe)" and ok: "sd_sizeok sd"
    and host: "fe_dcomputeMapping fe = None \<or> sd_dcomputePointer sd = None"
    and fe: "frontEndLayout (fe_layout fe) fs 0 (structsize sd)"
  shows "\<exists>packed ts gep. IrTypeStruct_get fe sd fs = Some (StructTy (Some (sd_prettyName sd)) packed ts, gep)
    \<and> structAllocSize (fe_layout fe) packed ts = structsize sd
    \<and> (\<forall>v i. gep v = Some i \<longrightarrow> i < length ts \<and> elementOffsets (fe_layout fe) packed 0 ts ! i = offsetIn fs v)
    \<and> (\<forall>u\<in>set (units fs). 0 < unitSize u \<and> \<not> mayOverlap u \<longrightarrow> vd (fst u) \<in> dom gep)"
proof -
  let ?dl = "fe_layout fe"
  have off: "offsetIn fs (vd f) = offset f" if "f \<in> set fs" for f
    using fe that by (intro offsetIn_field) (auto simp: frontEndLayout_def)
  obtain b where b: "addAggregate ?dl False fs None AddToVarGEPIndices (emptyBuilder 0) = Some b"
      "binv ?dl (offsetIn fs) b" "m_offset b \<le> structsize sd"
      "\<forall>u\<in>set (units fs). 0 < unitSize u \<and> \<not> mayOverlap u \<longrightarrow> vd (fst u) \<in> dom (m_varGEPIndices b)"
    using addAggregate_layout [OF dl fe binv_empty _ off, of None AddToVarGEPIndices]
    by (auto simp: emptyBuilder_def)
  obtain b' where b': "addTailPadding (structsize sd) b = Some b'"
      "structAllocSize ?dl (m_packed b') (m_defaultTypes b') = structsize sd"
      "m_varGEPIndices b' = m_varGEPIndices b"
      "\<forall>v i. m_varGEPIndices b' v = Some i \<longrightarrow> i < length (m_defaultTypes b')
        \<and> elementOffsets ?dl (m_packed b') 0 (m_defaultTypes b') ! i = offsetIn fs v"
    using addTailPadding_layout [OF dl b(2,3)] by blast
  have "IrTypeStruct_get fe sd fs = Some (StructTy (Some (sd_prettyName sd)) (m_packed b') (m_defaultTypes b'), m_varGEPIndices b')"
    using ok host b(1) b'(1,2) datalayout_struct [OF dl]
    by (auto simp: IrTypeStruct_get_def Let_def split: option.split)
  with b' b(4) show ?thesis by auto
qed


section \<open>Exactness for classes\<close>

text \<open>
  The front end lays out a class after its base class: interface pointers first, aligned, then
  the fields. \<open>classLayout fe start cd\<close> says so, with \<open>start\<close> the size of the object header.
\<close>

fun allFields :: "ClassDeclaration \<Rightarrow> AggrField list" where
  "allFields (ClassDeclaration info bc ifs fs) = (case bc of None \<Rightarrow> [] | Some b \<Rightarrow> allFields b) @ fs"

fun allUnits :: "ClassDeclaration \<Rightarrow> unit_of_layout list" where
  "allUnits (ClassDeclaration info bc ifs fs) = (case bc of None \<Rightarrow> [] | Some b \<Rightarrow> allUnits b) @ units fs"

definition interfacesEnd :: "FrontEnd \<Rightarrow> nat \<Rightarrow> Interface list \<Rightarrow> nat" where
  "interfacesEnd fe n ifs =
     (if ifs = [] then n else alignTo n (fe_ptrsize fe) + length ifs * fe_ptrsize fe)"

fun classLayout :: "FrontEnd \<Rightarrow> nat \<Rightarrow> ClassDeclaration \<Rightarrow> bool" where
  "classLayout fe start (ClassDeclaration info bc ifs fs) \<longleftrightarrow>
     (case bc of None \<Rightarrow> True | Some b \<Rightarrow> classLayout fe start b)
   \<and> (let e0 = (case bc of None \<Rightarrow> start | Some b \<Rightarrow> cd_structsize (cd_info b)); e1 = interfacesEnd fe e0 ifs in
      \<not> cd_isObjC info \<and> e1 \<le> cd_structsize info
      \<and> frontEndLayout (fe_layout fe) fs e1 (cd_structsize info))"

definition pointerSize :: "FrontEnd \<Rightarrow> bool" where
  "pointerSize fe \<longleftrightarrow> pow2 (fe_ptrsize fe) \<and> getTypeAllocSize (fe_layout fe) getOpaquePtrType = fe_ptrsize fe"

lemma le_alignTo: "0 < a \<Longrightarrow> n \<le> alignTo n a"
  using dividend_less_times_div [of a "n + a - 1"] by (simp add: alignTo_def mult.commute)

lemma alignTo_mono: "m \<le> n \<Longrightarrow> alignTo m a \<le> alignTo n a"
  by (auto simp: alignTo_def intro!: mult_le_mono1 div_le_mono)

lemma addInterfaceVtbls_layout:
  assumes dl: "datalayout (fe_layout fe)" and p: "pointerSize fe"
    and b: "binv (fe_layout fe) off b" "m_offset b + length ifs * fe_ptrsize fe < 2 ^ 32"
  shows "\<exists>b' irc'. iterM (addInterfaceVtbl fe) ifs (b, irc) = Some (b', irc') \<and> binv (fe_layout fe) off b'
    \<and> m_offset b' = m_offset b + length ifs * fe_ptrsize fe \<and> m_varGEPIndices b' = m_varGEPIndices b"
  using b
proof (induction ifs arbitrary: b irc)
  case (Cons i ifs)
  from Cons.prems obtain b1 where b1: "addType (fe_layout fe) getOpaquePtrType (fe_ptrsize fe) b = Some b1"
      "binv (fe_layout fe) off b1" "m_offset b1 = m_offset b + fe_ptrsize fe"
      "m_varGEPIndices b1 = m_varGEPIndices b"
    using binv_addType [OF dl Cons.prems(1), of getOpaquePtrType "fe_ptrsize fe"] p
    by (auto simp: pointerSize_def)
  have "m_offset b1 + length ifs * fe_ptrsize fe < 2 ^ 32" using Cons.prems(2) b1(3) by simp
  from Cons.IH [OF b1(2) this, of "irc\<lparr>interfaceMap := addInterfaceToMap i (m_fieldIndex b) (interfaceMap irc),
      num_interface_vtbls := num_interface_vtbls irc + 1\<rparr>"] b1 show ?case
    by (auto simp: addInterfaceVtbl_def Let_def)
qed simp

lemma addClassData_layout:
  assumes dl: "datalayout (fe_layout fe)" and p: "pointerSize fe"
    and cl: "classLayout fe start cd" and b: "binv (fe_layout fe) off b" "m_offset b \<le> start"
    and off: "\<And>f. f \<in> set (allFields cd) \<Longrightarrow> off (vd f) = offset f"
  shows "\<exists>b' irc'. addClassData fe cd (b, irc) = Some (b', irc') \<and> binv (fe_layout fe) off b'
    \<and> m_offset b' \<le> cd_structsize (cd_info cd) \<and> dom (m_varGEPIndices b) \<subseteq> dom (m_varGEPIndices b')
    \<and> (\<forall>u\<in>set (allUnits cd). 0 < unitSize u \<and> \<not> mayOverlap u \<longrightarrow> vd (fst u) \<in> dom (m_varGEPIndices b'))"
  using cl off
proof (induction cd)
  case (ClassDeclaration info bc ifs fs)
  let ?dl = "fe_layout fe"
  define e0 where "e0 = (case bc of None \<Rightarrow> start | Some b \<Rightarrow> cd_structsize (cd_info b))"
  define e1 where "e1 = interfacesEnd fe e0 ifs"
  have fe: "frontEndLayout ?dl fs e1 (cd_structsize info)" "\<not> cd_isObjC info" "e1 \<le> cd_structsize info"
    using ClassDeclaration.prems(1) by (auto simp: e0_def e1_def Let_def)
  then have lt: "cd_structsize info < 2 ^ 32" by (simp add: frontEndLayout_def)
  obtain b0 irc0 where b0: "(case bc of None \<Rightarrow> Some (b, irc) | Some c \<Rightarrow> addClassData fe c (b, irc)) = Some (b0, irc0)"
      "binv ?dl off b0" "m_offset b0 \<le> e0" "dom (m_varGEPIndices b) \<subseteq> dom (m_varGEPIndices b0)"
      "\<forall>u\<in>set (case bc of None \<Rightarrow> [] | Some b \<Rightarrow> allUnits b). 0 < unitSize u \<and> \<not> mayOverlap u
         \<longrightarrow> vd (fst u) \<in> dom (m_varGEPIndices b0)"
  proof (cases bc)
    case None
    with b that show thesis by (auto simp: e0_def)
  next
    case (Some c)
    have "\<exists>b' irc'. addClassData fe c (b, irc) = Some (b', irc') \<and> binv ?dl off b'
        \<and> m_offset b' \<le> cd_structsize (cd_info c) \<and> dom (m_varGEPIndices b) \<subseteq> dom (m_varGEPIndices b')
        \<and> (\<forall>u\<in>set (allUnits c). 0 < unitSize u \<and> \<not> mayOverlap u \<longrightarrow> vd (fst u) \<in> dom (m_varGEPIndices b'))"
      by (rule ClassDeclaration.IH [of c]) (use Some ClassDeclaration.prems in auto)
    with Some that show thesis by (auto simp: e0_def)
  qed
  obtain b1 irc1 where b1: "(if ifs \<noteq> [] then do {
          b \<leftarrow> alignCurrentOffset (fe_ptrsize fe) b0;
          iterM (addInterfaceVtbl fe) ifs (b, irc0) }
        else Some (b0, irc0)) = Some (b1, irc1)"
      "binv ?dl off b1" "m_offset b1 \<le> e1" "m_varGEPIndices b1 = m_varGEPIndices b0"
  proof (cases "ifs = []")
    case True
    with b0 that show thesis by (auto simp: e1_def interfacesEnd_def)
  next
    case False
    let ?p = "fe_ptrsize fe"
    have pos: "0 < ?p" "pow2 ?p" using p by (auto simp: pointerSize_def pow2_pos)
    have le: "alignTo (m_offset b0) ?p + length ifs * ?p \<le> e1"
      using alignTo_mono [OF b0(3), of ?p] False by (simp add: e1_def interfacesEnd_def)
    moreover have "?p \<le> length ifs * ?p" using False by (cases ifs) auto
    ultimately have "m_offset b0 + ?p - 1 < 2 ^ 32"
      using le_alignTo [OF pos(1), of "m_offset b0"] fe(3) lt by linarith
    then obtain b2 where b2: "alignCurrentOffset ?p b0 = Some b2" "binv ?dl off b2"
        "m_offset b2 = alignTo (m_offset b0) ?p" "m_varGEPIndices b2 = m_varGEPIndices b0"
      using binv_alignCurrentOffset [OF dl b0(2) pos(2)] le_alignTo [OF pos(1), of "m_offset b0"]
      by auto
    with addInterfaceVtbls_layout [OF dl p b2(2), of ifs irc0] le fe(3) lt False that show thesis
      by fastforce
  qed
  obtain b3 where "addAggregate ?dl False fs None AddToVarGEPIndices b1 = Some b3" "binv ?dl off b3"
      "m_offset b3 \<le> max (m_offset b1) (cd_structsize info)"
      "dom (m_varGEPIndices b1) \<subseteq> dom (m_varGEPIndices b3)"
      "\<forall>u\<in>set (units fs). 0 < unitSize u \<and> \<not> mayOverlap u \<longrightarrow> vd (fst u) \<in> dom (m_varGEPIndices b3)"
    using addAggregate_layout [OF dl fe(1) b1(2,3), of None AddToVarGEPIndices] ClassDeclaration.prems(2) by auto
  moreover from this have "addClassData fe (ClassDeclaration info bc ifs fs) (b, irc) = Some (b3, irc1)"
    using b0(1) b1(1) fe(2) by (cases "ifs = []") (auto split: Option.bind_splits)
  ultimately show ?case
    using b0(4,5) b1(3,4) fe(3) by (auto simp: subset_iff domIff split: option.splits)
qed


definition headerSize :: "FrontEnd \<Rightarrow> ClassDeclaration \<Rightarrow> nat" where
  "headerSize fe cd = (if cd_isCPP (cd_info cd) then fe_ptrsize fe else 2 * fe_ptrsize fe)"

lemma classHeader_layout:
  assumes dl: "datalayout (fe_layout fe)" and p: "pointerSize fe" and lt: "headerSize fe cd < 2 ^ 32"
  shows "\<exists>b1 b2. addType (fe_layout fe) getOpaquePtrType (fe_ptrsize fe) (emptyBuilder 0) = Some b1
    \<and> (if \<not> cd_isCPP (cd_info cd) then addType (fe_layout fe) getOpaquePtrType (fe_ptrsize fe) b1 else Some b1) = Some b2
    \<and> binv (fe_layout fe) off b2 \<and> m_offset b2 = headerSize fe cd"
proof -
  let ?dl = "fe_layout fe" and ?p = "fe_ptrsize fe"
  have p': "getTypeAllocSize ?dl getOpaquePtrType = ?p" using p by (simp add: pointerSize_def)
  have zero: "m_offset (emptyBuilder 0) = 0" by (simp add: emptyBuilder_def)
  have "m_offset (emptyBuilder 0) + ?p < 2 ^ 32"
    using lt zero by (auto simp: headerSize_def split: if_splits)
  from binv_addType [OF dl binv_empty p' this, where off = off] obtain b1 where
    b1: "addType ?dl getOpaquePtrType ?p (emptyBuilder 0) = Some b1" "binv ?dl off b1" "m_offset b1 = ?p"
    using zero by auto
  show ?thesis
  proof (cases "cd_isCPP (cd_info cd)")
    case False
    then have "m_offset b1 + ?p < 2 ^ 32" using lt b1(3) by (simp add: headerSize_def)
    from binv_addType [OF dl b1(2) p' this] b1(1,3) False show ?thesis
      by (auto simp: headerSize_def)
  qed (use b1 in \<open>auto simp: headerSize_def\<close>)
qed

lemma headerSize_le: "0 < fe_ptrsize fe \<Longrightarrow> classLayout fe start cd \<Longrightarrow> start \<le> cd_structsize (cd_info cd)"
proof (induction cd)
  case (ClassDeclaration info bc ifs fs)
  define e0 where "e0 = (case bc of None \<Rightarrow> start | Some b \<Rightarrow> cd_structsize (cd_info b))"
  have "start \<le> e0" using ClassDeclaration by (cases bc) (auto simp: e0_def)
  also have "e0 \<le> interfacesEnd fe e0 ifs"
    using le_alignTo [OF ClassDeclaration.prems(1), of e0] by (simp add: interfacesEnd_def)
  also have "\<dots> \<le> cd_structsize info" using ClassDeclaration.prems by (auto simp: e0_def Let_def)
  finally show ?case by simp
qed

lemma class_layout:
  assumes dl: "datalayout (fe_layout fe)" and p: "pointerSize fe"
    and kind: "\<not> cd_isObjC (cd_info cd)" "\<not> cd_isInterface (cd_info cd)"
    and cl: "classLayout fe (headerSize fe cd) cd" and d: "distinct (map vd (allFields cd))"
  shows "\<exists>packed ts gep irc.
      getMemoryLLType fe cd = Some (StructTy (Some (cd_prettyName (cd_info cd))) packed ts, gep, irc)
    \<and> structAllocSize (fe_layout fe) packed ts = cd_structsize (cd_info cd)
    \<and> (\<forall>v i. gep v = Some i \<longrightarrow>
         i < length ts \<and> elementOffsets (fe_layout fe) packed 0 ts ! i = offsetIn (allFields cd) v)
    \<and> (\<forall>u\<in>set (allUnits cd). 0 < unitSize u \<and> \<not> mayOverlap u \<longrightarrow> vd (fst u) \<in> dom gep)"
proof -
  let ?dl = "fe_layout fe" and ?off = "offsetIn (allFields cd)" and ?n = "cd_structsize (cd_info cd)"
  let ?irc = "\<lparr>interfaceMap = Map.empty, num_interface_vtbls = 0\<rparr>"
  have pos: "0 < fe_ptrsize fe" using p by (simp add: pointerSize_def pow2_pos)
  have "?n < 2 ^ 32" using cl by (cases cd) (auto simp: frontEndLayout_def Let_def)
  with headerSize_le [OF pos cl] have "headerSize fe cd < 2 ^ 32" by simp
  then obtain b1 b2 where
    b1: "addType ?dl getOpaquePtrType (fe_ptrsize fe) (emptyBuilder 0) = Some b1"
      "(if \<not> cd_isCPP (cd_info cd) then addType ?dl getOpaquePtrType (fe_ptrsize fe) b1 else Some b1) = Some b2"
      "binv ?dl ?off b2" "m_offset b2 = headerSize fe cd"
    using classHeader_layout [OF dl p] by meson
  obtain b3 irc3 where
    b3: "addClassData fe cd (b2, ?irc) = Some (b3, irc3)" "binv ?dl ?off b3" "m_offset b3 \<le> ?n"
      "\<forall>u\<in>set (allUnits cd). 0 < unitSize u \<and> \<not> mayOverlap u \<longrightarrow> vd (fst u) \<in> dom (m_varGEPIndices b3)"
    using addClassData_layout [OF dl p cl b1(3), of ?irc] offsetIn_field [OF d] b1(4) by auto
  obtain b4 where
    b4: "addTailPadding ?n b3 = Some b4" "structAllocSize ?dl (m_packed b4) (m_defaultTypes b4) = ?n"
      "m_varGEPIndices b4 = m_varGEPIndices b3"
      "\<forall>v i. m_varGEPIndices b4 v = Some i \<longrightarrow> i < length (m_defaultTypes b4)
        \<and> elementOffsets ?dl (m_packed b4) 0 (m_defaultTypes b4) ! i = ?off v"
    using addTailPadding_layout [OF dl b3(2,3)] by blast
  have n: "?n \<noteq> 0"
    using headerSize_le [OF pos cl] pos by (auto simp: headerSize_def split: if_splits)
  have "getMemoryLLType fe cd =
      Some (StructTy (Some (cd_prettyName (cd_info cd))) (m_packed b4) (m_defaultTypes b4), m_varGEPIndices b4, irc3)"
    using kind n b1(1,2) b3(1) b4(1,2) datalayout_struct [OF dl]
    by (simp add: getMemoryLLType_def Let_def split: if_splits)
  with b4 b3(4) show ?thesis by auto
qed

end
