(* ===== verification/IrFuncTypes.thy ===== *)
theory IrFuncTypes
  imports AggregateTypes
begin

text \<open>
  The description of a function on the LLVM level that the code generator and the calling
  convention code share (\<open>ir/irfuncty.h\<close>, \<open>ir/irfuncty.cpp\<close>, \<open>gen/attributes.h\<close>), and the small
  predicates of \<open>TargetABI\<close> on D types (\<open>gen/abi/abi.cpp\<close>).

  An ABI rewrite is an object of which only the identity and the class matter here; the
  constructors of \<open>ABIRewrite\<close> are the rewrite classes, with their parameters.
\<close>

section \<open>Attributes\<close>

datatype LLAttribute = NoAlias | NoCapture | NonNull | NoUndef | Returned | ZExt | SExt | InReg

record AttrBuilder =
  attrKinds :: "LLAttribute set"
  byValType :: "LLType option"
  structRetType :: "LLType option"
  alignmentAttr :: "nat option"
  dereferenceableBytes :: "nat option"

definition noAttrs :: AttrBuilder where
  "noAttrs = \<lparr>attrKinds = {}, byValType = None, structRetType = None, alignmentAttr = None,
     dereferenceableBytes = None\<rparr>"

definition addAttribute :: "LLAttribute \<Rightarrow> AttrBuilder \<Rightarrow> AttrBuilder" where
  "addAttribute k a = a\<lparr>attrKinds := insert k (attrKinds a)\<rparr>"

definition addAlignmentAttr :: "nat \<Rightarrow> AttrBuilder \<Rightarrow> AttrBuilder" where
  "addAlignmentAttr n a = a\<lparr>alignmentAttr := Some n\<rparr>"

text \<open>\<open>if (auto alignment = DtoAlignment(t)) attrs.addAlignmentAttr(alignment);\<close>\<close>

definition addAlignmentIfAny :: "nat \<Rightarrow> AttrBuilder \<Rightarrow> AttrBuilder" where
  "addAlignmentIfAny n a = (if n \<noteq> 0 then addAlignmentAttr n a else a)"

definition DtoAddExtendAttr :: "FrontEnd \<Rightarrow> Type \<Rightarrow> AttrBuilder \<Rightarrow> AttrBuilder" where
  "DtoAddExtendAttr fe t attrs =
     (let t = toBasetype t in
      if isintegral t \<and> ty t \<noteq> Tvector \<and> fe_size fe t \<le> 2
      then addAttribute (if isunsigned t then ZExt else SExt) attrs else attrs)"

section \<open>Function types\<close>

datatype LINK = LINK_default | LINK_d | LINK_c | LINK_cpp | LINK_windows | LINK_objc | LINK_system

datatype VarArg = VARARGnone | VARARGvariadic | VARARGtypesafe | VARARGKRvariadic

record Parameter =
  p_type :: Type
  p_refOrOut :: bool
  p_lazy :: bool

record TypeFunction =
  isref :: bool
  tf_next :: Type
  tf_linkage :: LINK
  tf_varargs :: VarArg
  tf_parameters :: "Parameter list"

datatype ABIRewrite =
    RemoveStructPadding
  | ArgTypesRewrite
  | IntegerRewrite
  | IndirectByvalRewrite
  | ImplicitByvalRewrite
  | HFVAToArray nat
  | CompositeToArray nat
  | Integer2Rewrite
  | HardfloatRewrite_RISCV64
  | HardfloatRewrite_LoongArch64
  | DComputePointerRewrite

record IrFuncTyArg =
  arg_type :: Type
  parametersIdx :: "nat option"
  ltype :: LLType
  attrs :: AttrBuilder
  byref :: bool
  rewrite :: "ABIRewrite option"

definition isInReg :: "IrFuncTyArg \<Rightarrow> bool" where
  "isInReg a \<longleftrightarrow> InReg \<in> attrKinds (attrs a)"

definition isSRet :: "IrFuncTyArg \<Rightarrow> bool" where
  "isSRet a \<longleftrightarrow> structRetType (attrs a) \<noteq> None"

definition isByVal :: "IrFuncTyArg \<Rightarrow> bool" where
  "isByVal a \<longleftrightarrow> byValType (attrs a) \<noteq> None"

definition IrFuncTyArg_new :: "FrontEnd \<Rightarrow> Type \<Rightarrow> bool \<Rightarrow> AttrBuilder \<Rightarrow> IrFuncTyArg option" where
  "IrFuncTyArg_new fe t bref a =
     map_option (\<lambda>l. \<lparr>arg_type = t, parametersIdx = None, ltype = l, attrs = a, byref = bref, rewrite = None\<rparr>)
       (if t \<noteq> TypeBasic Tvoid \<and> bref then DtoType fe (TypePointer False) else DtoType fe t)"

record IrFuncTy =
  fty_type :: TypeFunction
  ret :: IrFuncTyArg
  arg_sret :: "IrFuncTyArg option"
  arg_this :: "IrFuncTyArg option"
  arg_nest :: "IrFuncTyArg option"
  arg_objcSelector :: "IrFuncTyArg option"
  arg_arguments :: "IrFuncTyArg option"
  args :: "IrFuncTyArg list"
  tag :: "u8 \<times> u8"

text \<open>The implicit parameters in the order of the LLVM signature.\<close>

definition implicitArgs :: "bool \<Rightarrow> IrFuncTy \<Rightarrow> IrFuncTyArg list" where
  "implicitArgs passThisBeforeSret fty =
     (if arg_sret fty \<noteq> None \<and> arg_this fty \<noteq> None \<and> passThisBeforeSret
      then List.map_filter id [arg_this fty, arg_sret fty]
      else List.map_filter id [arg_sret fty, arg_this fty])
     @ List.map_filter id [arg_nest fty, arg_objcSelector fty, arg_arguments fty]"

record AttrSet =
  returnAttrs :: AttrBuilder
  paramAttrs :: "nat \<Rightarrow> AttrBuilder"

definition addToParam :: "nat \<Rightarrow> AttrBuilder \<Rightarrow> AttrSet \<Rightarrow> AttrSet" where
  "addToParam idx a s = s\<lparr>paramAttrs := (paramAttrs s)(idx := a)\<rparr>"

definition addImplicit :: "IrFuncTyArg option \<Rightarrow> nat \<times> AttrSet \<Rightarrow> nat \<times> AttrSet" where
  "addImplicit x = (\<lambda>(idx, s). case x of None \<Rightarrow> (idx, s) | Some a \<Rightarrow> (idx + 1, addToParam idx (attrs a) s))"

definition getParamAttrs :: "bool \<Rightarrow> IrFuncTy \<Rightarrow> AttrSet" where
  "getParamAttrs passThisBeforeSret fty =
     (let s0 = (0, \<lparr>returnAttrs = attrs (ret fty), paramAttrs = (\<lambda>_. noAttrs)\<rparr>);
          s1 = (if arg_sret fty \<noteq> None \<and> arg_this fty \<noteq> None \<and> passThisBeforeSret
                then addImplicit (arg_sret fty) (addImplicit (arg_this fty) s0)
                else addImplicit (arg_this fty) (addImplicit (arg_sret fty) s0));
          (idx, s) = addImplicit (arg_arguments fty)
                       (addImplicit (arg_objcSelector fty) (addImplicit (arg_nest fty) s1))
      in fold (\<lambda>k s. addToParam (idx + k) (attrs (args fty ! k)) s) [0..<length (args fty)] s)"

section \<open>Predicates on D types\<close>

definition isAggregate :: "Type \<Rightarrow> bool" where
  "isAggregate t =
     (let b = ty (toBasetype t) in b = Tstruct \<or> b = Tsarray \<or> b = Tdelegate \<or> iscomplex t)"

definition isPOD :: "Type \<Rightarrow> bool \<Rightarrow> bool" where
  "isPOD t excludeStructsWithCtor =
     (case structOf (baseElemOf t) of
        None \<Rightarrow> True
      | Some sd \<Rightarrow> sd_isPOD (sd_info sd) \<and> \<not> (excludeStructsWithCtor \<and> sd_ctor (sd_info sd)))"

definition canRewriteAsInt :: "FrontEnd \<Rightarrow> Type \<Rightarrow> bool \<Rightarrow> bool" where
  "canRewriteAsInt fe t include64bit =
     (let sz = fe_size fe (toBasetype t) in sz = 1 \<or> sz = 2 \<or> sz = 4 \<or> include64bit \<and> sz = 8)"

definition isExternD :: "TypeFunction \<Rightarrow> bool" where
  "isExternD tf = (tf_linkage tf = LINK_d \<and> tf_varargs tf \<noteq> VARARGvariadic)"

definition skipReturnValueRewrite :: "IrFuncTy \<Rightarrow> bool" where
  "skipReturnValueRewrite fty =
     (byref (ret fty) \<or> (let t = ty (toBasetype (arg_type (ret fty))) in t = Tvoid \<or> t = Tnoreturn))"

definition isHFVA :: "FrontEnd \<Rightarrow> Type \<Rightarrow> nat \<Rightarrow> bool" where
  "isHFVA fe t maxNumElements = (fe_isHFVA fe t maxNumElements \<noteq> None)"

definition hfvaType :: "FrontEnd \<Rightarrow> Type \<Rightarrow> nat \<Rightarrow> LLType option" where
  "hfvaType fe t maxNumElements = fe_isHFVA fe t maxNumElements \<bind> DtoType fe"

fun nextIsVector :: "Type \<Rightarrow> bool" where
  "nextIsVector (TypeSArray t _) = (ty t = Tvector)"
| "nextIsVector _ = False"

definition isHVA :: "FrontEnd \<Rightarrow> Type \<Rightarrow> nat \<Rightarrow> bool" where
  "isHVA fe t maxNumElements =
     (case fe_isHFVA fe t maxNumElements of None \<Rightarrow> False | Some rewriteType \<Rightarrow> nextIsVector rewriteType)"

definition getArgTypes :: "FrontEnd \<Rightarrow> Type \<Rightarrow> Type list option" where
  "getArgTypes fe t =
     (case structOf (toBasetype t) of
        Some sd \<Rightarrow> if sd_sizeok (sd_info sd) then sd_argTypes sd else fe_toArgTypes fe t
      | None \<Rightarrow> fe_toArgTypes fe t)"

text \<open>
  \<open>Some None\<close> is a null result (no rewrite); \<open>None\<close> is a failure: more than two argument types, or
  one that has no LLVM type.
\<close>

definition getRewrittenArgType :: "FrontEnd \<Rightarrow> Type \<Rightarrow> Type list option \<Rightarrow> LLType option option" where
  "getRewrittenArgType fe t argTypes =
     (case argTypes of
        None \<Rightarrow> Some None
      | Some [] \<Rightarrow> Some None
      | Some [a] \<Rightarrow> if fe_equivalent fe a t then Some None else map_option Some (DtoType fe a)
      | Some [a, b] \<Rightarrow> do { la \<leftarrow> DtoType fe a; lb \<leftarrow> DtoType fe b; Some (Some (literalStruct [la, lb])) }
      | Some _ \<Rightarrow> None)"

section \<open>Attributes of the parameters\<close>

text \<open>Every LLVM parameter gets the attributes of the argument at its position.\<close>

lemma fold_addToParam:
  "paramAttrs (fold (\<lambda>k s. addToParam (idx + k) (f k) s) [0..<n] s) =
     (\<lambda>i. if idx \<le> i \<and> i < idx + n then f (i - idx) else paramAttrs s i)"
  by (induction n) (auto simp: addToParam_def fun_eq_iff)

lemma fold_addToParam_ret:
  "returnAttrs (fold (\<lambda>k s. addToParam (idx + k) (f k) s) ks s) = returnAttrs s"
  by (induction ks arbitrary: s) (auto simp: addToParam_def)

definition attrsOf :: "IrFuncTyArg list \<Rightarrow> nat \<Rightarrow> AttrBuilder" where
  "attrsOf as i = (if i < length as then attrs (as ! i) else noAttrs)"

lemma getParamAttrs_implicitArgs:
  "getParamAttrs first fty =
     \<lparr>returnAttrs = attrs (ret fty), paramAttrs = attrsOf (implicitArgs first fty @ args fty)\<rparr>"
proof -
  define st where "st as = (length as, \<lparr>returnAttrs = attrs (ret fty), paramAttrs = attrsOf as\<rparr>)" for as
  let ?o = "\<lambda>x. List.map_filter id [x]"
  have snoc: "addImplicit x (st as) = st (as @ ?o x)" for x as
    by (cases x) (auto simp: st_def addImplicit_def addToParam_def attrsOf_def fun_eq_iff nth_append map_filter_simps)
  have start: "(0, \<lparr>returnAttrs = attrs (ret fty), paramAttrs = (\<lambda>_. noAttrs)\<rparr>) = st []"
    by (simp add: st_def attrsOf_def fun_eq_iff)
  have finish: "(case st as of (idx, s) \<Rightarrow> fold (\<lambda>k s. addToParam (idx + k) (attrs (bs ! k)) s) [0..<length bs] s)
      = \<lparr>returnAttrs = attrs (ret fty), paramAttrs = attrsOf (as @ bs)\<rparr>" for as bs
    unfolding st_def prod.case
    by (rule AttrSet.equality)
       (auto simp: fold_addToParam fold_addToParam_ret attrsOf_def fun_eq_iff nth_append)
  show ?thesis
    unfolding getParamAttrs_def Let_def start
    by (simp only: snoc finish if_distrib [of "addImplicit _"] if_distrib [of "\<lambda>p. case p of (_, _) \<Rightarrow> _"])
       (auto simp: implicitArgs_def map_filter_simps finish [simplified] finish split: option.split)
qed

end
