(* ===== verification/ABIRewrites.thy ===== *)
theory ABIRewrites
  imports IrFuncTypes
begin

text \<open>
  The rewrites of arguments and return values that the target ABIs share
  (\<open>gen/abi/abi.cpp\<close>, \<open>gen/abi/generic.h\<close>), and those of single targets whose type has to be
  known to apply them (\<open>gen/abi/x86-64.cpp\<close>, \<open>gen/abi/riscv64.cpp\<close>, \<open>gen/abi/loongarch64.cpp\<close>,
  \<open>gen/dcompute/abi-rewrites.h\<close>).
\<close>

section \<open>Memory layout of LLVM types\<close>

text \<open>
  \<open>LLTypeMemoryLayout::fold\<close>. \<open>None\<close> is the failed assertion on vectors whose size is not a
  whole number of bytes. The number of elements of an array is kept in an \<open>unsigned\<close>.
\<close>

fun foldType :: "DataLayout \<Rightarrow> LLType \<Rightarrow> LLType option"
  and foldTypes :: "DataLayout \<Rightarrow> LLType list \<Rightarrow> LLType list option" where
  "foldType dl (PointerTy a) = Some (IntegerTy (getTypeBitSize dl (PointerTy a)))"
| "foldType dl (VectorTy n t) =
     (let sizeInBits = getTypeBitSize dl (VectorTy n t) in
      if sizeInBits mod 8 \<noteq> 0 then None else Some (VectorTy (sizeInBits div 8) getI8Type))"
| "foldType dl (StructTy nm packed ts) = do {
     elements \<leftarrow> foldTypes dl ts;
     Some (if length elements = 1 then hd elements else StructTy None packed elements) }"
| "foldType dl (OpaqueTy nm) = Some (StructTy None False [])"
| "foldType dl (ArrayTy n t) = do {
     foldedElementType \<leftarrow> foldType dl t;
     let numElements = trunc32 n;
     Some (if numElements = 1 then foldedElementType
           else StructTy None False (replicate numElements foldedElementType)) }"
| "foldType dl t = Some t"
| "foldTypes dl [] = Some []"
| "foldTypes dl (t # ts) = do { e \<leftarrow> foldType dl t; es \<leftarrow> foldTypes dl ts; Some (e # es) }"

definition typesAreEquivalent :: "DataLayout \<Rightarrow> LLType \<Rightarrow> LLType \<Rightarrow> bool option" where
  "typesAreEquivalent dl a b =
     (if a = b then Some True
      else do { fa \<leftarrow> foldType dl a; fb \<leftarrow> foldType dl b; Some (fa = fb) })"

section \<open>Types of the rewrites\<close>

text \<open>\<open>IntegerRewrite::getIntegerType\<close>; \<open>None\<close> is the null type.\<close>

definition getIntegerType :: "nat \<Rightarrow> LLType option" where
  "getIntegerType minSizeInBytes =
     (if minSizeInBytes > 16 then None
      else Some (IntegerTy (8 *
        (if minSizeInBytes = 0 then 1
         else if minSizeInBytes = 3 then 4
         else if minSizeInBytes \<in> {5, 6, 7} then 8
         else if minSizeInBytes \<in> {9, 10, 11, 12, 13, 14, 15} then 16
         else minSizeInBytes))))"

definition compositeToArrayType :: "nat \<Rightarrow> nat \<Rightarrow> LLType" where
  "compositeToArrayType elementSize sz =
     ArrayTy ((sz + elementSize - 1) div elementSize) (IntegerTy (elementSize * 8))"

definition integer2Type :: LLType where
  "integer2Type = literalStruct [IntegerTy 64, IntegerTy 64]"

subsection \<open>Flattening of structs for hardware floating-point registers\<close>

text \<open>
  \<open>visitStructFields\<close>: \<open>None\<close> is the length \<open>-1\<close>, no need to rewrite. The list has at most two
  fields, each with its offset.
\<close>

record FlattenedField =
  ff_ty :: Type
  ff_offset :: nat

definition appendFlattened :: "FlattenedField list \<Rightarrow> FlattenedField list option \<Rightarrow> FlattenedField list option" where
  "appendFlattened result sub =
     (case sub of
        None \<Rightarrow> None
      | Some fs \<Rightarrow> if length result + length fs > 2 then None else Some (result @ fs))"

definition flattenScalar :: "FrontEnd \<Rightarrow> Type \<Rightarrow> nat \<Rightarrow> FlattenedField list option" where
  "flattenScalar fe t baseOffset =
     (let b = toBasetype t in
      if ty b = Tcomplex32 then
        Some [\<lparr>ff_ty = TypePointer False, ff_offset = baseOffset\<rparr>,
              \<lparr>ff_ty = TypePointer False, ff_offset = trunc32 (baseOffset + 4)\<rparr>]
      else if ty b = Tcomplex64 then
        Some [\<lparr>ff_ty = TypePointer False, ff_offset = baseOffset\<rparr>,
              \<lparr>ff_ty = TypePointer False, ff_offset = trunc32 (baseOffset + 8)\<rparr>]
      else if fe_size fe b > 8 then None
      else Some [\<lparr>ff_ty = b, ff_offset = baseOffset\<rparr>])"

fun flattenFields :: "FlattenedField list \<Rightarrow> FlattenedField list option list \<Rightarrow> FlattenedField list option" where
  "flattenFields result [] = Some result"
| "flattenFields result (sub # subs) =
     (case appendFlattened result sub of None \<Rightarrow> None | Some r \<Rightarrow> flattenFields r subs)"

primrec visitStructFields :: "FrontEnd \<Rightarrow> Type \<Rightarrow> nat \<Rightarrow> FlattenedField list option"
  and visitStruct :: "FrontEnd \<Rightarrow> StructDeclaration \<Rightarrow> nat \<Rightarrow> FlattenedField list option"
  and visitField_flat :: "FrontEnd \<Rightarrow> Field \<Rightarrow> nat \<Rightarrow> FlattenedField list option" where
  "visitStructFields fe (TypeBasic t) base = flattenScalar fe (TypeBasic t) base"
| "visitStructFields fe TypeNull base = flattenScalar fe TypeNull base"
| "visitStructFields fe (TypePointer fn) base = flattenScalar fe (TypePointer fn) base"
| "visitStructFields fe TypeDArray base = flattenScalar fe TypeDArray base"
| "visitStructFields fe TypeAArray base = flattenScalar fe TypeAArray base"
| "visitStructFields fe TypeDelegate base = flattenScalar fe TypeDelegate base"
| "visitStructFields fe TypeClass base = flattenScalar fe TypeClass base"
| "visitStructFields fe (TypeSArray t n) base = flattenScalar fe (TypeSArray t n) base"
| "visitStructFields fe (TypeVector t n) base = flattenScalar fe (TypeVector t n) base"
| "visitStructFields fe (TypeEnum n b) base =
     (case map_option (\<lambda>t. visitStructFields fe t base) b of
        None \<Rightarrow> flattenScalar fe (TypeEnum n b) base
      | Some r \<Rightarrow> r)"
| "visitStructFields fe (TypeStruct sd) base = visitStruct fe sd base"
| "visitStruct fe (StructDeclaration info at fs) base =
     flattenFields [] (map (\<lambda>f. visitField_flat fe f base) fs)"
| "visitField_flat fe (Field v t) base = visitStructFields fe t (trunc32 (base + offset v))"

definition requireHardfloatRewrite :: "FrontEnd \<Rightarrow> Type \<Rightarrow> bool" where
  "requireHardfloatRewrite fe t =
     (if ty (toBasetype t) \<noteq> Tstruct then False
      else case visitStructFields fe t 0 of
        Some [f] \<Rightarrow> isfloating (ff_ty f)
      | Some [f, g] \<Rightarrow> isfloating (ff_ty f) \<or> isfloating (ff_ty g)
      | _ \<Rightarrow> False)"

definition hardfloatElement :: "FrontEnd \<Rightarrow> FlattenedField \<Rightarrow> LLType option" where
  "hardfloatElement fe f =
     (if isfloating (ff_ty f) then DtoType fe (ff_ty f) else Some (IntegerTy (fe_size fe (ff_ty f) * 8)))"

definition hardfloatType :: "FrontEnd \<Rightarrow> Type \<Rightarrow> LLType option" where
  "hardfloatType fe t =
     (case visitStructFields fe t 0 of
        Some [f] \<Rightarrow> map_option (\<lambda>l. literalStruct [l]) (DtoType fe (ff_ty f))
      | Some [f, g] \<Rightarrow> do {
          l \<leftarrow> hardfloatElement fe f;
          r \<leftarrow> hardfloatElement fe g;
          Some (literalStruct [l, r]) }
      | _ \<Rightarrow> None)"

subsection \<open>Structs without padding\<close>

fun DtoUnpaddedStructType :: "FrontEnd \<Rightarrow> Type \<Rightarrow> LLType option"
  and unpaddedTypes :: "FrontEnd \<Rightarrow> Field list \<Rightarrow> LLType list option" where
  "DtoUnpaddedStructType fe (TypeStruct (StructDeclaration info at fs)) =
     map_option literalStruct (unpaddedTypes fe fs)"
| "DtoUnpaddedStructType fe _ = None"
| "unpaddedTypes fe [] = Some []"
| "unpaddedTypes fe (Field v t # fs) = do {
     l \<leftarrow> (if ty t = Tstruct then DtoUnpaddedStructType fe t else DtoType fe t);
     ls \<leftarrow> unpaddedTypes fe fs;
     Some (l # ls) }"

section \<open>Application of a rewrite\<close>

text \<open>\<open>ABIRewrite::type\<close> of each class; \<open>None\<close> is a null type, a failed assertion or unreachable code.\<close>

definition rewriteType :: "FrontEnd \<Rightarrow> ABIRewrite \<Rightarrow> Type \<Rightarrow> LLType option" where
  "rewriteType fe rw t =
     (case rw of
        RemoveStructPadding \<Rightarrow> DtoUnpaddedStructType fe (toBasetype t)
      | ArgTypesRewrite \<Rightarrow>
          Option.bind (getRewrittenArgType fe (toBasetype t) (getArgTypes fe (toBasetype t))) id
      | IntegerRewrite \<Rightarrow> getIntegerType (trunc32 (fe_size fe t))
      | IndirectByvalRewrite \<Rightarrow> Some getOpaquePtrType
      | ImplicitByvalRewrite \<Rightarrow> Some getOpaquePtrType
      | HFVAToArray maxElements \<Rightarrow> hfvaType fe t maxElements
      | CompositeToArray elementSize \<Rightarrow> Some (compositeToArrayType elementSize (fe_size fe t))
      | Integer2Rewrite \<Rightarrow> Some integer2Type
      | HardfloatRewrite_RISCV64 \<Rightarrow> hardfloatType fe t
      | HardfloatRewrite_LoongArch64 \<Rightarrow> hardfloatType fe t
      | DComputePointerRewrite \<Rightarrow>
          (case (structOf t, fe_dcomputeMapping fe) of
             (Some sd, Some mapping) \<Rightarrow> map_option (\<lambda>as. PointerTy (mapping as)) (sd_dcomputePointer (sd_info sd))
           | _ \<Rightarrow> None))"

definition rewriteAttrs :: "FrontEnd \<Rightarrow> ABIRewrite \<Rightarrow> Type \<Rightarrow> AttrBuilder \<Rightarrow> AttrBuilder option" where
  "rewriteAttrs fe rw t a =
     (case rw of
        IndirectByvalRewrite \<Rightarrow>
          Some (addAlignmentIfAny (DtoAlignment fe t) (addAttribute NoCapture (addAttribute NoAlias noAttrs)))
      | ImplicitByvalRewrite \<Rightarrow>
          map_option (\<lambda>l. addAlignmentIfAny (DtoAlignment fe t) (a\<lparr>byValType := Some l\<rparr>)) (DtoType fe t)
      | _ \<Rightarrow> Some a)"

definition applyTo :: "FrontEnd \<Rightarrow> ABIRewrite \<Rightarrow> LLType option \<Rightarrow> IrFuncTyArg \<Rightarrow> IrFuncTyArg option" where
  "applyTo fe rw finalLType arg = do {
     l \<leftarrow> (case finalLType of Some l \<Rightarrow> Some l | None \<Rightarrow> rewriteType fe rw (arg_type arg));
     a \<leftarrow> rewriteAttrs fe rw (arg_type arg) (attrs arg);
     Some (arg\<lparr>rewrite := Some rw, ltype := l, attrs := a\<rparr>) }"

definition applyToIfNotObsolete ::
  "FrontEnd \<Rightarrow> ABIRewrite \<Rightarrow> LLType option \<Rightarrow> IrFuncTyArg \<Rightarrow> IrFuncTyArg option" where
  "applyToIfNotObsolete fe rw finalLType arg = do {
     l \<leftarrow> (case finalLType of Some l \<Rightarrow> Some l | None \<Rightarrow> rewriteType fe rw (arg_type arg));
     same \<leftarrow> typesAreEquivalent (fe_layout fe) (ltype arg) l;
     if same then Some arg else applyTo fe rw (Some l) arg }"


section \<open>What folding preserves\<close>

text \<open>
  The scalars of a type with their byte offsets; pointers and vectors count as the universal
  types of the same size. Folding keeps this list for plain types: no packed struct of a single
  element (folding drops the wrapper, and with it the packing), no array without elements (folding
  drops its alignment) or with more than an \<open>unsigned\<close> can count, and no opaque struct.
\<close>

fun scalarOf :: "DataLayout \<Rightarrow> LLType \<Rightarrow> LLType" where
  "scalarOf dl (PointerTy a) = IntegerTy (getTypeBitSize dl (PointerTy a))"
| "scalarOf dl (VectorTy n t) = VectorTy (getTypeBitSize dl (VectorTy n t) div 8) getI8Type"
| "scalarOf dl t = t"

fun scalars :: "DataLayout \<Rightarrow> nat \<Rightarrow> LLType \<Rightarrow> (nat \<times> LLType) list"
  and scalarsAt :: "DataLayout \<Rightarrow> nat list \<Rightarrow> LLType list \<Rightarrow> (nat \<times> LLType) list" where
  "scalars dl base (StructTy nm packed ts) = scalarsAt dl (map ((+) base) (elementOffsets dl packed 0 ts)) ts"
| "scalars dl base (ArrayTy n t) = concat (map (\<lambda>i. scalars dl (base + i * getTypeAllocSize dl t) t) [0..<n])"
| "scalars dl base (OpaqueTy nm) = []"
| "scalars dl base t = [(base, scalarOf dl t)]"
| "scalarsAt dl offs [] = []"
| "scalarsAt dl [] (t # ts) = []"
| "scalarsAt dl (off # offs) (t # ts) = scalars dl off t @ scalarsAt dl offs ts"

definition sameLayout :: "DataLayout \<Rightarrow> LLType \<Rightarrow> LLType \<Rightarrow> bool" where
  "sameLayout dl t u \<longleftrightarrow> getTypeAllocSize dl t = getTypeAllocSize dl u
     \<and> getABITypeAlign dl t = getABITypeAlign dl u"

fun plainType :: "LLType \<Rightarrow> bool" where
  "plainType (StructTy nm packed ts) \<longleftrightarrow> (packed \<longrightarrow> length ts \<noteq> 1) \<and> (\<forall>t\<in>set ts. plainType t)"
| "plainType (ArrayTy n t) \<longleftrightarrow> n \<noteq> 0 \<and> n < 2 ^ 32 \<and> plainType t"
| "plainType (OpaqueTy nm) \<longleftrightarrow> False"
| "plainType _ \<longleftrightarrow> True"

text \<open>
  The documented behaviour of the data layout that folding relies on: an unpacked struct is
  aligned like its most aligned element and a packed one not at all, an array is its elements one after the other, and a
  pointer or vector is laid out like the integer or byte vector it is folded to.
\<close>

definition foldableLayout :: "DataLayout \<Rightarrow> bool" where
  "foldableLayout dl \<longleftrightarrow> datalayout dl
   \<and> (\<forall>nm packed ts. getABITypeAlign dl (StructTy nm packed ts) = (if packed then 1 else maxAlign dl ts))
   \<and> (\<forall>n t. getTypeAllocSize dl (ArrayTy n t) = n * getTypeAllocSize dl t)
   \<and> (\<forall>n t. getABITypeAlign dl (ArrayTy n t) = getABITypeAlign dl t)
   \<and> (\<forall>t. getABITypeAlign dl t dvd getTypeAllocSize dl t)
   \<and> (\<forall>a. sameLayout dl (PointerTy a) (IntegerTy (getTypeBitSize dl (PointerTy a))))
   \<and> (\<forall>n t. getTypeBitSize dl (VectorTy n t) mod 8 = 0 \<longrightarrow>
        sameLayout dl (VectorTy n t) (VectorTy (getTypeBitSize dl (VectorTy n t) div 8) getI8Type)
      \<and> getTypeBitSize dl (VectorTy (getTypeBitSize dl (VectorTy n t) div 8) getI8Type)
          = getTypeBitSize dl (VectorTy n t))"

lemma scalarsAt_zip: "scalarsAt dl offs ts = concat (map (\<lambda>(off, t). scalars dl off t) (zip offs ts))"
proof (induction ts arbitrary: offs)
  case (Cons t ts)
  then show ?case by (cases offs) auto
qed simp

lemma elementOffsets_same:
  "list_all2 (sameLayout dl) ts us \<Longrightarrow> elementOffsets dl packed off ts = elementOffsets dl packed off us"
  by (induction arbitrary: off rule: list_all2_induct) (simp_all add: sameLayout_def)

lemma elementsEnd_same:
  "list_all2 (sameLayout dl) ts us \<Longrightarrow> elementsEnd dl packed off ts = elementsEnd dl packed off us"
  by (induction arbitrary: off rule: list_all2_induct) (simp_all add: sameLayout_def)

lemma maxAlign_same: "list_all2 (sameLayout dl) ts us \<Longrightarrow> maxAlign dl ts = maxAlign dl us"
  by (induction rule: list_all2_induct) (simp_all add: maxAlign_def sameLayout_def)

text \<open>One element, or \<open>n\<close> equal ones: the struct they form is laid out like the array.\<close>

lemma snug_replicate:
  assumes "getABITypeAlign dl t dvd getTypeAllocSize dl t" "getABITypeAlign dl t dvd off"
  shows "snug dl off (replicate n t)"
  using assms(2) by (induction n arbitrary: off) (auto simp: assms(1))

lemma allocSum_replicate: "allocSum dl (replicate n t) = n * getTypeAllocSize dl t"
  by (induction n) auto

lemma maxAlign_replicate: "0 < n \<Longrightarrow> maxAlign dl (replicate n t) = max (getABITypeAlign dl t) 1"
proof (induction n)
  case (Suc n)
  then show ?case by (cases "n = 0") (auto simp: maxAlign_def)
qed simp

lemma replicate_layout:
  assumes dl: "foldableLayout dl" and n: "0 < n"
  shows "elementOffsets dl False 0 (replicate n t) = map (\<lambda>i. i * getTypeAllocSize dl t) [0..<n]"
    and "structAllocSize dl False (replicate n t) = n * getTypeAllocSize dl t"
    and "maxAlign dl (replicate n t) = getABITypeAlign dl t"
proof -
  have d: "datalayout dl" "getABITypeAlign dl t dvd getTypeAllocSize dl t"
    using dl by (auto simp: foldableLayout_def)
  show 3: "maxAlign dl (replicate n t) = getABITypeAlign dl t"
    using datalayout_align_pos [OF d(1), of t] maxAlign_replicate [OF n, of dl t] by simp
  have sn: "snug dl 0 (replicate n t)" using snug_replicate d by simp
  then show "elementOffsets dl False 0 (replicate n t) = map (\<lambda>i. i * getTypeAllocSize dl t) [0..<n]"
    using elementOffsets_snug [OF d(1), of False 0 "replicate n t"]
    by (auto simp: allocSum_replicate min_def)
  show "structAllocSize dl False (replicate n t) = n * getTypeAllocSize dl t"
    using structAllocSize_snug [OF d(1), of False "replicate n t"] sn d(2)
    by (simp add: 3 allocSum_replicate)
qed

lemma replicate_scalars:
  assumes "foldableLayout dl" "0 < n"
  shows "scalars dl base (StructTy None False (replicate n t))
    = concat (map (\<lambda>i. scalars dl (base + i * getTypeAllocSize dl t) t) [0..<n])"
proof -
  have "zip (map f [0..<n]) (replicate n t) = map (\<lambda>i. (f i, t)) [0..<n]" for f :: "nat \<Rightarrow> nat"
    by (rule nth_equalityI) auto
  then show ?thesis
    by (simp add: scalarsAt_zip replicate_layout [OF assms] comp_def)
qed

lemma single_scalars:
  assumes "foldableLayout dl"
  shows "scalars dl base (StructTy nm False [t]) = scalars dl base t"
    and "sameLayout dl (StructTy nm False [t]) t"
proof -
  have "datalayout dl" using assms by (simp add: foldableLayout_def)
  then show "scalars dl base (StructTy nm False [t]) = scalars dl base t"
    using alignTo_dvd [of "getABITypeAlign dl t" 0] datalayout_align_pos by (simp add: Let_def)
  show "sameLayout dl (StructTy nm False [t]) t"
    using assms replicate_layout [OF assms, of 1 t] datalayout_struct [OF \<open>datalayout dl\<close>]
    by (simp add: sameLayout_def foldableLayout_def)
qed

lemma foldTypes_length: "foldTypes dl ts = Some ts' \<Longrightarrow> length ts' = length ts"
  by (induction ts arbitrary: ts') (auto split: Option.bind_splits)

definition foldedTo :: "DataLayout \<Rightarrow> LLType \<Rightarrow> LLType \<Rightarrow> bool" where
  "foldedTo dl t t' \<longleftrightarrow> sameLayout dl t t' \<and> (\<forall>base. scalars dl base t' = scalars dl base t)"

lemma foldedTo_struct:
  assumes dl: "foldableLayout dl" and ts: "list_all2 (foldedTo dl) ts ts'"
  shows "foldedTo dl (StructTy nm packed ts) (StructTy None packed ts')"
proof -
  have same: "list_all2 (sameLayout dl) ts ts'"
    using ts by (rule list_all2_mono) (simp add: foldedTo_def)
  have "map (\<lambda>(off, t). scalars dl off t) (zip offs ts') = map (\<lambda>(off, t). scalars dl off t) (zip offs ts)" for offs
    using ts by (induction arbitrary: offs rule: list_all2_induct)
      (auto simp: foldedTo_def zip_Cons1 zip_Cons split: list.split)
  then show ?thesis
    using dl elementOffsets_same [OF same] elementsEnd_same [OF same] maxAlign_same [OF same]
    by (simp add: foldedTo_def sameLayout_def foldableLayout_def datalayout_struct structAllocSize_def scalarsAt_zip)
qed

lemma foldedTo_array:
  assumes dl: "foldableLayout dl" and t: "foldedTo dl t t'" and n: "0 < n"
  shows "foldedTo dl (ArrayTy n t) (StructTy None False (replicate n t'))"
  using t replicate_scalars [OF dl n, of _ t'] replicate_layout(2,3) [OF dl n, of t'] dl
  by (auto simp: foldedTo_def sameLayout_def foldableLayout_def datalayout_struct)

lemma foldedTo_trans: "foldedTo dl t u \<Longrightarrow> foldedTo dl u v \<Longrightarrow> foldedTo dl t v"
  by (simp add: foldedTo_def sameLayout_def)

lemma foldedTo_single:
  assumes dl: "foldableLayout dl"
  shows "foldedTo dl (StructTy nm False [t]) t"
  using single_scalars [OF dl] by (simp add: foldedTo_def sameLayout_def del: scalars.simps)

lemma foldedTo_pointer:
  "foldableLayout dl \<Longrightarrow> foldedTo dl (PointerTy a) (IntegerTy (getTypeBitSize dl (PointerTy a)))"
  unfolding foldableLayout_def foldedTo_def by simp

lemma foldedTo_vector:
  assumes "foldableLayout dl" "getTypeBitSize dl (VectorTy n t) mod 8 = 0"
  shows "foldedTo dl (VectorTy n t) (VectorTy (getTypeBitSize dl (VectorTy n t) div 8) getI8Type)"
proof -
  let ?v = "VectorTy (getTypeBitSize dl (VectorTy n t) div 8) getI8Type"
  have "\<forall>n t. getTypeBitSize dl (VectorTy n t) mod 8 = 0 \<longrightarrow>
        sameLayout dl (VectorTy n t) (VectorTy (getTypeBitSize dl (VectorTy n t) div 8) getI8Type)
      \<and> getTypeBitSize dl (VectorTy (getTypeBitSize dl (VectorTy n t) div 8) getI8Type)
          = getTypeBitSize dl (VectorTy n t)"
    using assms(1) unfolding foldableLayout_def by (elim conjE)
  from this [rule_format, OF assms(2)] show ?thesis unfolding foldedTo_def by simp
qed

lemma foldedTo_refl: "foldedTo dl t t"
  by (simp add: foldedTo_def sameLayout_def)

lemma fold_layout:
  shows "foldType dl t = Some t' \<Longrightarrow> foldableLayout dl \<Longrightarrow> plainType t \<Longrightarrow> foldedTo dl t t'"
    and "foldTypes dl ts = Some ts' \<Longrightarrow> foldableLayout dl \<Longrightarrow> \<forall>t\<in>set ts. plainType t \<Longrightarrow>
      list_all2 (foldedTo dl) ts ts'"
proof (induction dl t and dl ts arbitrary: t' and ts' rule: foldType_foldTypes.induct)
  case (3 dl nm packed ts)
  from "3.prems" obtain es where es: "foldTypes dl ts = Some es" "packed \<Longrightarrow> length es \<noteq> 1"
      "t' = (if length es = 1 then hd es else StructTy None packed es)"
    by (auto split: Option.bind_splits dest: foldTypes_length)
  have "foldedTo dl (StructTy nm packed ts) (StructTy None packed es)"
    using foldedTo_struct "3.IH" [OF es(1)] "3.prems" by simp
  moreover have "foldedTo dl (StructTy None packed es) t'"
  proof (cases "length es = 1")
    case True
    then obtain e where "es = [e]" by (cases es) auto
    then show ?thesis using foldedTo_single [OF "3.prems"(2)] es(2,3) by (cases packed) auto
  qed (simp add: es(3) foldedTo_refl)
  ultimately show ?case by (rule foldedTo_trans)
next
  case (5 dl n t)
  from "5.prems" obtain e where e: "foldType dl t = Some e" "0 < n"
      "t' = (if n = 1 then e else StructTy None False (replicate n e))"
    by (auto simp: Let_def split: Option.bind_splits)
  have e': "foldedTo dl t e" using "5.IH" [OF e(1)] "5.prems" by simp
  have "foldedTo dl (ArrayTy n t) (StructTy None False (replicate n e))"
    using foldedTo_array [OF "5.prems"(2) e' e(2)] .
  moreover have "foldedTo dl (StructTy None False (replicate n e)) t'"
  proof (cases "n = 1")
    case True
    then show ?thesis using foldedTo_single [OF "5.prems"(2), of None e] e(3) by simp
  qed (simp add: e(3) foldedTo_refl)
  ultimately show ?case by (rule foldedTo_trans)
next
  case (1 dl a)
  then show ?case using foldedTo_pointer [of dl a] by (simp only: foldType.simps option.inject)
next
  case (2 dl n t)
  then show ?case using foldedTo_vector by (auto simp: Let_def split: if_splits)
next
  case (8 dl t ts)
  then show ?case by (auto split: Option.bind_splits)
qed (simp_all add: foldedTo_refl)

text \<open>Folding element by element, and what it does to a wrapper of a single element.\<close>

lemma foldTypes_append: "foldTypes dl (ts @ us) = do { es \<leftarrow> foldTypes dl ts; fs \<leftarrow> foldTypes dl us; Some (es @ fs) }"
  by (induction ts) (auto split: Option.bind_splits)

lemma foldType_wrapper: "foldType dl (StructTy nm packed [t]) = foldType dl t"
  by (cases "foldType dl t") simp_all

lemma elementOffsets_append: "elementOffsets dl packed off (ts @ us)
    = elementOffsets dl packed off ts @ elementOffsets dl packed (elementsEnd dl packed off ts) us"
  by (induction ts arbitrary: off) (simp_all add: Let_def)

end
