(* ===== verification/TargetABI.thy ===== *)
theory TargetABI
  imports ABIRewrites "HOL-Library.Sublist"
begin

text \<open>
  The interface between the code generator and the calling conventions of the targets
  (\<open>struct TargetABI\<close> in \<open>gen/abi/abi.h\<close>): its virtual methods are the fields of the record
  \<open>TargetABI\<close>, their default implementations the fields of \<open>defaultTargetABI\<close>. A target is that
  record with the methods it overrides replaced.

  The locale \<open>target_abi\<close> states what \<open>DtoFunctionType\<close> relies on in every target.
\<close>

section \<open>Targets\<close>

datatype Arch =
    arch_x86 | arch_x86_64 | arch_mips | arch_mipsel | arch_mips64 | arch_mips64el | arch_riscv64
  | arch_ppc | arch_ppc64 | arch_ppc64le | arch_aarch64 | arch_aarch64_be
  | arch_arm | arch_armeb | arch_thumb | arch_thumbeb | arch_loongarch64 | arch_wasm32 | arch_wasm64
  | arch_other

datatype OS = os_Linux | os_Solaris | os_NetBSD | os_Darwin | os_Windows | os_other

record Triple =
  arch :: Arch
  os :: OS
  isWindowsMSVCEnvironment :: bool
  isArch64Bit :: bool
  softFloatABI :: bool

abbreviation isOSWindows :: "Triple \<Rightarrow> bool" where
  "isOSWindows t \<equiv> os t = os_Windows"

abbreviation isOSDarwin :: "Triple \<Rightarrow> bool" where
  "isOSDarwin t \<equiv> os t = os_Darwin"

datatype CallingConv =
    CC_C | X86_StdCall | X86_ThisCall | X86_VectorCall | PTX_Device | PTX_Kernel | SPIR_FUNC | SPIR_KERNEL

record TargetABI =
  callingConv_link :: "LINK \<Rightarrow> CallingConv option"
  callingConv :: "TypeFunction \<Rightarrow> bool \<Rightarrow> CallingConv option"
  callingConv_fd :: "bool \<Rightarrow> TypeFunction \<Rightarrow> bool \<Rightarrow> CallingConv option"
  mangleFunctionForLLVM :: "string \<Rightarrow> LINK \<Rightarrow> string"
  mangleVariableForLLVM :: "string \<Rightarrow> LINK \<Rightarrow> string"
  needsUnwindTables :: bool
  returnInArg :: "TypeFunction \<Rightarrow> bool \<Rightarrow> bool"
  preferPassByRef :: "Type \<Rightarrow> bool"
  passByVal :: "TypeFunction \<Rightarrow> Type \<Rightarrow> bool"
  passThisBeforeSret :: "TypeFunction \<Rightarrow> bool"
  rewriteFunctionType :: "IrFuncTy \<Rightarrow> IrFuncTy option"
  rewriteVarargs :: "IrFuncTy \<Rightarrow> IrFuncTyArg list \<Rightarrow> IrFuncTyArg list option"

section \<open>Rewriting all arguments\<close>

text \<open>\<open>for (auto arg : args) if (!arg->byref) rewriteArgument(fty, *arg);\<close>\<close>

definition unlessByref :: "(IrFuncTyArg \<Rightarrow> IrFuncTyArg option) \<Rightarrow> IrFuncTyArg \<Rightarrow> IrFuncTyArg option" where
  "unlessByref f arg = (if byref arg then Some arg else f arg)"

fun rewriteArgs :: "(IrFuncTyArg \<Rightarrow> IrFuncTyArg option) \<Rightarrow> IrFuncTyArg list \<Rightarrow> IrFuncTyArg list option" where
  "rewriteArgs f [] = Some []"
| "rewriteArgs f (a # as) = do { a' \<leftarrow> f a; as' \<leftarrow> rewriteArgs f as; Some (a' # as') }"

section \<open>Default methods\<close>

definition callingConv_default :: "(LINK \<Rightarrow> CallingConv option) \<Rightarrow> TypeFunction \<Rightarrow> bool \<Rightarrow> CallingConv option" where
  "callingConv_default cc tf withThisPtr =
     (if tf_varargs tf = VARARGvariadic then Some CC_C else cc (tf_linkage tf))"

definition needsUnwindTables_default :: "Triple \<Rightarrow> bool" where
  "needsUnwindTables_default triple = (arch triple = arch_x86_64 \<or> os triple = os_NetBSD)"

definition preferPassByRef_default :: "FrontEnd \<Rightarrow> Type \<Rightarrow> bool" where
  "preferPassByRef_default fe t = (fe_size fe t > 2 * fe_ptrsize fe)"

definition rewriteVarargs_default ::
  "(IrFuncTyArg \<Rightarrow> IrFuncTyArg option) \<Rightarrow> IrFuncTy \<Rightarrow> IrFuncTyArg list \<Rightarrow> IrFuncTyArg list option" where
  "rewriteVarargs_default rewriteArgument fty as = rewriteArgs (unlessByref rewriteArgument) as"

definition defaultTargetABI :: "FrontEnd \<Rightarrow> Triple \<Rightarrow> (LINK \<Rightarrow> CallingConv option)
   \<Rightarrow> (IrFuncTyArg \<Rightarrow> IrFuncTyArg option) \<Rightarrow> TargetABI" where
  "defaultTargetABI fe triple cc rewriteArgument =
     \<lparr>callingConv_link = cc,
      callingConv = callingConv_default cc,
      callingConv_fd = (\<lambda>hasKernelAttr. callingConv_default cc),
      mangleFunctionForLLVM = (\<lambda>name l. name),
      mangleVariableForLLVM = (\<lambda>name l. name),
      needsUnwindTables = needsUnwindTables_default triple,
      returnInArg = (\<lambda>tf needsThis. False),
      preferPassByRef = preferPassByRef_default fe,
      passByVal = (\<lambda>tf t. False),
      passThisBeforeSret = (\<lambda>tf. False),
      rewriteFunctionType = Some,
      rewriteVarargs = rewriteVarargs_default rewriteArgument\<rparr>"

abbreviation cc_default :: "LINK \<Rightarrow> CallingConv option" where
  "cc_default \<equiv> (\<lambda>l. Some CC_C)"

section \<open>Unknown targets and intrinsics\<close>

definition UnknownTargetABI_returnInArg :: "TypeFunction \<Rightarrow> bool" where
  "UnknownTargetABI_returnInArg tf = (\<not> isref tf \<and> DtoIsInMemoryOnly (toBasetype (tf_next tf)))"

definition UnknownTargetABI :: "FrontEnd \<Rightarrow> Triple \<Rightarrow> TargetABI" where
  "UnknownTargetABI fe triple = (defaultTargetABI fe triple cc_default Some)
     \<lparr>returnInArg := \<lambda>tf _. UnknownTargetABI_returnInArg tf, passByVal := \<lambda>tf t. DtoIsInMemoryOnly t\<rparr>"

definition IntrinsicABI_rewriteArgument :: "FrontEnd \<Rightarrow> IrFuncTyArg \<Rightarrow> IrFuncTyArg option" where
  "IntrinsicABI_rewriteArgument fe arg =
     (if ty (toBasetype (arg_type arg)) \<noteq> Tstruct then Some arg
      else case DtoUnpaddedStructType fe (arg_type arg) of
        None \<Rightarrow> None
      | Some abiTy \<Rightarrow> if abiTy \<noteq> ltype arg then applyTo fe RemoveStructPadding (Some abiTy) arg else Some arg)"

definition IntrinsicABI_rewriteFunctionType :: "FrontEnd \<Rightarrow> IrFuncTy \<Rightarrow> IrFuncTy option" where
  "IntrinsicABI_rewriteFunctionType fe fty = do {
     r \<leftarrow> (if arg_sret fty = None \<and> ty (toBasetype (arg_type (ret fty))) = Tstruct
           then IntrinsicABI_rewriteArgument fe (ret fty) else Some (ret fty));
     as \<leftarrow> rewriteArgs (unlessByref (IntrinsicABI_rewriteArgument fe)) (args fty);
     Some (fty\<lparr>ret := r, args := as\<rparr>) }"

definition IntrinsicABI :: "FrontEnd \<Rightarrow> Triple \<Rightarrow> TargetABI" where
  "IntrinsicABI fe triple = (defaultTargetABI fe triple cc_default (IntrinsicABI_rewriteArgument fe))
     \<lparr>rewriteFunctionType := IntrinsicABI_rewriteFunctionType fe\<rparr>"

section \<open>The contract\<close>

text \<open>
  An argument is consistent when the LLVM type of the parameter is the type its rewrite
  produces, or without a rewrite the LLVM type of the D type, or a pointer for a reference.
\<close>

definition argOK :: "FrontEnd \<Rightarrow> IrFuncTyArg \<Rightarrow> bool" where
  "argOK fe a \<longleftrightarrow>
     (case rewrite a of
        Some rw \<Rightarrow> rewriteType fe rw (arg_type a) = Some (ltype a)
      | None \<Rightarrow> if byref a \<and> arg_type a \<noteq> TypeBasic Tvoid then ltype a = getOpaquePtrType
                else DtoType fe (arg_type a) = Some (ltype a))"

definition sameArg :: "IrFuncTyArg \<Rightarrow> IrFuncTyArg \<Rightarrow> bool" where
  "sameArg a a' \<longleftrightarrow> arg_type a' = arg_type a \<and> parametersIdx a' = parametersIdx a"

definition sameOption :: "IrFuncTyArg option \<Rightarrow> IrFuncTyArg option \<Rightarrow> bool" where
  "sameOption x x' \<longleftrightarrow> rel_option (\<lambda>a a'. sameArg a a' \<and> ltype a' = ltype a \<and> rewrite a' = rewrite a \<and> byref a' = byref a) x x'"

definition signatureKept :: "IrFuncTy \<Rightarrow> IrFuncTy \<Rightarrow> bool" where
  "signatureKept fty fty' \<longleftrightarrow>
     fty_type fty' = fty_type fty \<and> sameArg (ret fty) (ret fty')
   \<and> sameOption (arg_sret fty) (arg_sret fty') \<and> sameOption (arg_this fty) (arg_this fty')
   \<and> sameOption (arg_nest fty) (arg_nest fty') \<and> sameOption (arg_objcSelector fty) (arg_objcSelector fty')
   \<and> sameOption (arg_arguments fty) (arg_arguments fty')
   \<and> subseq (map (\<lambda>a. (arg_type a, parametersIdx a)) (args fty')) (map (\<lambda>a. (arg_type a, parametersIdx a)) (args fty))"

definition ftyOK :: "FrontEnd \<Rightarrow> IrFuncTy \<Rightarrow> bool" where
  "ftyOK fe fty \<longleftrightarrow> argOK fe (ret fty) \<and> (\<forall>a\<in>set (args fty). argOK fe a)"

text \<open>Before the ABI gets to see a function type, nothing is rewritten.\<close>

definition argFresh :: "FrontEnd \<Rightarrow> IrFuncTyArg \<Rightarrow> bool" where
  "argFresh fe a \<longleftrightarrow> argOK fe a \<and> rewrite a = None"

definition ftyFresh :: "FrontEnd \<Rightarrow> IrFuncTy \<Rightarrow> bool" where
  "ftyFresh fe fty \<longleftrightarrow> argFresh fe (ret fty) \<and> (\<forall>a\<in>set (args fty). argFresh fe a)"

text \<open>The front end's classification of homogeneous aggregates looks through enums.\<close>

definition looksThroughEnums :: "FrontEnd \<Rightarrow> bool" where
  "looksThroughEnums fe \<longleftrightarrow> (\<forall>t n. fe_isHFVA fe t n = fe_isHFVA fe (toBasetype t) n)"

locale target_abi =
  fixes abi :: TargetABI and fe :: FrontEnd
  assumes signature_kept: "rewriteFunctionType abi fty = Some fty' \<Longrightarrow> signatureKept fty fty'"
    and types_consistent: "looksThroughEnums fe \<Longrightarrow> rewriteFunctionType abi fty = Some fty'
      \<Longrightarrow> ftyFresh fe fty \<Longrightarrow> ftyOK fe fty'"
    and void_kept: "rewriteFunctionType abi fty = Some fty' \<Longrightarrow> arg_type (ret fty) = TypeBasic Tvoid
      \<Longrightarrow> ret fty' = ret fty"

section \<open>Argument rewriters\<close>

text \<open>
  \<open>stepOK fe a x\<close>: the outcome \<open>x\<close> of rewriting \<open>a\<close> keeps the D side of the argument and its
  consistency. The rules decompose the bodies of the \<open>rewriteArgument\<close> methods.
\<close>

definition stepOK :: "FrontEnd \<Rightarrow> IrFuncTyArg \<Rightarrow> IrFuncTyArg option \<Rightarrow> bool" where
  "stepOK fe a x \<longleftrightarrow> (\<forall>a'. x = Some a' \<longrightarrow> sameArg a a' \<and> (looksThroughEnums fe \<longrightarrow> argFresh fe a \<longrightarrow> argOK fe a'))"

named_theorems step_intros \<open>introduction rules for stepOK\<close>

lemma stepOKD: "stepOK fe a x \<Longrightarrow> x = Some a' \<Longrightarrow> sameArg a a' \<and> (looksThroughEnums fe \<longrightarrow> argFresh fe a \<longrightarrow> argOK fe a')"
  by (simp add: stepOK_def)

lemma sameArg_refl [simp]: "sameArg a a"
  by (simp add: sameArg_def)

lemma sameArg_trans: "sameArg a b \<Longrightarrow> sameArg b c \<Longrightarrow> sameArg a c"
  by (simp add: sameArg_def)

lemma sameOption_refl [simp]: "sameOption x x"
  by (cases x) (simp_all add: sameOption_def)

lemma argOK_attrs [simp]: "argOK fe (a\<lparr>attrs := x\<rparr>) = argOK fe a"
  by (cases "rewrite a") (simp_all add: argOK_def)

lemma sameArg_attrs [simp]: "sameArg a (a\<lparr>attrs := x\<rparr>)"
  by (simp add: sameArg_def)

lemma applyTo_ok:
  assumes "applyTo fe rw l a = Some a'"
    and "l = None \<or> rewriteType fe rw (arg_type a) = l"
  shows "sameArg a a' \<and> argOK fe a' \<and> byref a' = byref a"
  using assms by (auto simp: applyTo_def sameArg_def argOK_def split: Option.bind_splits option.splits)

lemma applyToIfNotObsolete_ok:
  assumes "applyToIfNotObsolete fe rw l a = Some a'"
    and "l = None \<or> rewriteType fe rw (arg_type a) = l"
  shows "sameArg a a' \<and> (argOK fe a \<longrightarrow> argOK fe a')"
  using assms
  by (auto simp: applyToIfNotObsolete_def split: Option.bind_splits option.splits if_splits
      dest: applyTo_ok)

lemma applyTo_same: "applyTo fe rw l a = Some a' \<Longrightarrow> sameArg a a'"
  by (auto simp: applyTo_def sameArg_def split: Option.bind_splits)

lemma applyToIfNotObsolete_same: "applyToIfNotObsolete fe rw l a = Some a' \<Longrightarrow> sameArg a a'"
  by (auto simp: applyToIfNotObsolete_def split: Option.bind_splits if_splits dest: applyTo_same)

lemma stepOK_Some [step_intros]: "stepOK fe a (Some a)"
  by (simp add: stepOK_def argFresh_def)

lemma stepOK_None [step_intros]: "stepOK fe a None"
  by (simp add: stepOK_def)

lemma stepOK_attrs [step_intros]: "stepOK fe a (Some (a\<lparr>attrs := x\<rparr>))"
  by (simp add: stepOK_def argFresh_def)

lemma stepOK_if [step_intros]:
  "(c \<Longrightarrow> stepOK fe a x) \<Longrightarrow> (\<not> c \<Longrightarrow> stepOK fe a y) \<Longrightarrow> stepOK fe a (if c then x else y)"
  by simp

lemma stepOK_bind [step_intros]: "(\<And>l. m = Some l \<Longrightarrow> stepOK fe a (f l)) \<Longrightarrow> stepOK fe a (m \<bind> f)"
  by (cases m) (simp_all add: stepOK_def)

lemma stepOK_applyTo_None [step_intros]: "stepOK fe a (applyTo fe rw None a)"
  using applyTo_ok by (auto simp: stepOK_def)

lemma stepOK_obsolete_None [step_intros]: "stepOK fe a (applyToIfNotObsolete fe rw None a)"
  using applyToIfNotObsolete_ok by (auto simp: stepOK_def argFresh_def)

lemma stepOK_applyTo_Some [step_intros]:
  assumes "looksThroughEnums fe \<Longrightarrow> rewriteType fe rw (arg_type a) = Some l"
  shows "stepOK fe a (applyTo fe rw (Some l) a)"
  using assms applyTo_ok applyTo_same by (auto simp: stepOK_def)

lemma stepOK_obsolete_Some [step_intros]:
  assumes "looksThroughEnums fe \<Longrightarrow> rewriteType fe rw (arg_type a) = Some l"
  shows "stepOK fe a (applyToIfNotObsolete fe rw (Some l) a)"
  using assms applyToIfNotObsolete_ok applyToIfNotObsolete_same by (auto simp: stepOK_def argFresh_def)

lemma stepOK_unlessByref [step_intros]: "stepOK fe a (f a) \<Longrightarrow> stepOK fe a (unlessByref f a)"
  by (simp add: unlessByref_def stepOK_Some)

lemma hfva_type:
  assumes "looksThroughEnums fe" "hfvaType fe (toBasetype t) n = Some l"
  shows "rewriteType fe (HFVAToArray n) t = Some l"
proof -
  have "fe_isHFVA fe t n = fe_isHFVA fe (toBasetype t) n"
    using assms(1) unfolding looksThroughEnums_def by blast
  with assms(2) show ?thesis by (simp add: rewriteType_def hfvaType_def)
qed

lemma argTypes_type:
  "getRewrittenArgType fe (toBasetype t) (getArgTypes fe (toBasetype t)) = Some (Some l)
     \<Longrightarrow> rewriteType fe ArgTypesRewrite t = Some l"
  by (simp add: rewriteType_def)

lemma rewriteArgs_ok:
  assumes "\<And>a. stepOK fe a (f a)" "rewriteArgs f as = Some as'"
  shows "list_all2 sameArg as as' \<and>
    (looksThroughEnums fe \<longrightarrow> (\<forall>a\<in>set as. argFresh fe a) \<longrightarrow> (\<forall>a\<in>set as'. argOK fe a))"
  using assms(2)
proof (induction as arbitrary: as')
  case (Cons a as)
  then obtain b bs where b: "f a = Some b" "rewriteArgs f as = Some bs" "as' = b # bs"
    by (auto split: Option.bind_splits)
  with Cons.IH stepOKD [OF assms(1) b(1)] show ?case by auto
qed simp

lemma sameArgs_map: "list_all2 sameArg as as' \<Longrightarrow>
   map (\<lambda>a. (arg_type a, parametersIdx a)) as' = map (\<lambda>a. (arg_type a, parametersIdx a)) as"
  by (induction rule: list_all2_induct) (auto simp: sameArg_def)

text \<open>
  Most targets rewrite the return value (or leave it alone) and then the arguments one by one.
\<close>

lemma pointwise_kept:
  assumes "sameArg (ret fty) r" "list_all2 sameArg (args fty) as"
  shows "signatureKept fty (fty\<lparr>ret := r, args := as\<rparr>)"
  using assms sameArgs_map [OF assms(2)] by (simp add: signatureKept_def)

text \<open>
  \<open>conforms\<close> is the contract for one function type, \<open>refines\<close> the same for a later step, which
  may find rewritten arguments.
\<close>

definition conforms :: "FrontEnd \<Rightarrow> IrFuncTy \<Rightarrow> IrFuncTy \<Rightarrow> bool" where
  "conforms fe fty fty' \<longleftrightarrow> signatureKept fty fty' \<and> (looksThroughEnums fe \<longrightarrow> ftyFresh fe fty \<longrightarrow> ftyOK fe fty')
     \<and> (arg_type (ret fty) = TypeBasic Tvoid \<longrightarrow> ret fty' = ret fty)"

definition refines :: "FrontEnd \<Rightarrow> IrFuncTy \<Rightarrow> IrFuncTy \<Rightarrow> bool" where
  "refines fe fty fty' \<longleftrightarrow> signatureKept fty fty' \<and> (ftyOK fe fty \<longrightarrow> ftyOK fe fty')
     \<and> (arg_type (ret fty) = TypeBasic Tvoid \<longrightarrow> ret fty' = ret fty)"

lemma target_abiI:
  "(\<And>fty fty'. rewriteFunctionType abi fty = Some fty' \<Longrightarrow> conforms fe fty fty') \<Longrightarrow> target_abi abi fe"
  by unfold_locales (simp_all add: conforms_def)

lemma sameOption_trans: "sameOption x y \<Longrightarrow> sameOption y z \<Longrightarrow> sameOption x z"
  by (cases x; cases y; cases z) (auto simp: sameOption_def sameArg_def)

lemma signatureKept_trans: "signatureKept a b \<Longrightarrow> signatureKept b c \<Longrightarrow> signatureKept a c"
  unfolding signatureKept_def
  by (auto simp: sameArg_def intro: sameOption_trans subseq_order.order_trans)

lemma signatureKept_ret: "signatureKept a b \<Longrightarrow> arg_type (ret b) = arg_type (ret a)"
  by (simp add: signatureKept_def sameArg_def)

lemma conforms_refines: "conforms fe a b \<Longrightarrow> refines fe b c \<Longrightarrow> conforms fe a c"
  unfolding conforms_def refines_def using signatureKept_trans signatureKept_ret by metis

lemma refines_refl: "refines fe fty fty"
  by (simp add: refines_def signatureKept_def)

lemma refines_args:
  assumes "list_all2 sameArg (args fty) as" "(\<forall>a\<in>set (args fty). argOK fe a) \<longrightarrow> (\<forall>a\<in>set as. argOK fe a)"
  shows "refines fe fty (fty\<lparr>args := as\<rparr>)"
  using assms pointwise_kept [of fty "ret fty" as] by (auto simp: refines_def ftyOK_def)

lemma refines_filter: "refines fe fty (fty\<lparr>args := filter P (args fty)\<rparr>)"
  by (auto simp: refines_def signatureKept_def ftyOK_def intro!: subseq_map subseq_filter_left)

lemma conforms_pointwise:
  assumes "stepOK fe (ret fty) (Some r)" "arg_type (ret fty) = TypeBasic Tvoid \<Longrightarrow> r = ret fty"
    and "\<And>a. stepOK fe a (f a)" "rewriteArgs f (args fty) = Some as"
  shows "conforms fe fty (fty\<lparr>ret := r, args := as\<rparr>)"
proof -
  have args_ok: "list_all2 sameArg (args fty) as \<and>
      (looksThroughEnums fe \<longrightarrow> (\<forall>a\<in>set (args fty). argFresh fe a) \<longrightarrow> (\<forall>a\<in>set as. argOK fe a))"
    by (rule rewriteArgs_ok [OF assms(3,4)])
  note ret_ok = stepOKD [OF assms(1) refl]
  have "ftyOK fe (fty\<lparr>ret := r, args := as\<rparr>)" if "looksThroughEnums fe" "ftyFresh fe fty"
  proof -
    from that(2) have "argFresh fe (ret fty)" "\<forall>a\<in>set (args fty). argFresh fe a" by (simp_all add: ftyFresh_def)
    with ret_ok args_ok that(1) have "argOK fe r" "\<forall>a\<in>set as. argOK fe a" by blast+
    then show ?thesis by (simp add: ftyOK_def)
  qed
  moreover have "signatureKept fty (fty\<lparr>ret := r, args := as\<rparr>)"
    by (rule pointwise_kept [OF ret_ok [THEN conjunct1] args_ok [THEN conjunct1]])
  ultimately show ?thesis using assms(2) by (simp add: conforms_def)
qed

lemma pointwise_abi:
  assumes def: "\<And>fty. rewriteFunctionType abi fty =
      do { r \<leftarrow> R fty; as \<leftarrow> rewriteArgs (G fty) (args fty); Some (fty\<lparr>ret := r, args := as\<rparr>) }"
    and ret_ok: "\<And>fty. stepOK fe (ret fty) (R fty)"
    and ret_void: "\<And>fty r. R fty = Some r \<Longrightarrow> arg_type (ret fty) = TypeBasic Tvoid \<Longrightarrow> r = ret fty"
    and arg_ok: "\<And>fty a. stepOK fe a (G fty a)"
  shows "target_abi abi fe"
proof (rule target_abiI)
  fix fty fty' assume "rewriteFunctionType abi fty = Some fty'"
  then obtain r as where r: "R fty = Some r" and as: "rewriteArgs (G fty) (args fty) = Some as"
    and fty': "fty' = fty\<lparr>ret := r, args := as\<rparr>"
    unfolding def by (auto split: Option.bind_splits)
  show "conforms fe fty fty'"
    unfolding fty' by (rule conforms_pointwise [OF _ _ _ as]) (use ret_ok [of fty] r ret_void arg_ok in auto)
qed

lemma skip_void: "arg_type (ret fty) = TypeBasic Tvoid \<Longrightarrow> skipReturnValueRewrite fty"
  by (simp add: skipReturnValueRewrite_def)

interpretation unknown: target_abi "UnknownTargetABI fe triple" fe for fe triple
  by (rule target_abiI)
     (auto simp: UnknownTargetABI_def defaultTargetABI_def conforms_def signatureKept_def ftyFresh_def ftyOK_def argFresh_def)

lemma unpadded_type:
  assumes "DtoUnpaddedStructType fe t = Some l" shows "rewriteType fe RemoveStructPadding t = Some l"
  using assms by (cases t) (simp_all add: rewriteType_def)

interpretation intrinsic: target_abi "IntrinsicABI fe triple" fe for fe triple
proof (rule pointwise_abi)
  let ?R = "\<lambda>fty. if arg_sret fty = None \<and> ty (toBasetype (arg_type (ret fty))) = Tstruct
     then IntrinsicABI_rewriteArgument fe (ret fty) else Some (ret fty)"
  have step: "stepOK fe a (IntrinsicABI_rewriteArgument fe a)" for a
    using unpadded_type
    by (auto simp: IntrinsicABI_rewriteArgument_def split: option.split intro!: step_intros)
  show "rewriteFunctionType (IntrinsicABI fe triple) fty =
      do { r \<leftarrow> ?R fty; as \<leftarrow> rewriteArgs (unlessByref (IntrinsicABI_rewriteArgument fe)) (args fty);
           Some (fty\<lparr>ret := r, args := as\<rparr>) }" for fty
    by (simp add: IntrinsicABI_def IntrinsicABI_rewriteFunctionType_def)
  show "stepOK fe (ret fty) (?R fty)" for fty by (intro step_intros step)
  show "r = ret fty" if "?R fty = Some r" "arg_type (ret fty) = TypeBasic Tvoid" for fty r
    using that by (auto split: if_splits)
  show "stepOK fe a (unlessByref (IntrinsicABI_rewriteArgument fe) a)" for fty :: IrFuncTy and a
    by (intro step_intros step)
qed

end
