(* ===== verification/X86_64ABI.thy ===== *)
theory X86_64ABI
  imports TargetABI
begin

text \<open>
  The System V ABI for x86-64 (\<open>gen/abi/x86-64.cpp\<close>): the count of free registers, the rewriting
  of arguments, and the saving of the count for variadic call sites in \<open>IrFuncTy::tag\<close>.

  \<open>char\<close> is \<open>8 word\<close>, compared as a signed number.
\<close>

section \<open>Registers\<close>

record RegCount =
  int_regs :: u8
  sse_regs :: u8

definition RegCount_initial :: RegCount where
  "RegCount_initial = \<lparr>int_regs = 6, sse_regs = 8\<rparr>"

text \<open>The constructor from an LLVM type; \<open>None\<close> is a failed assertion.\<close>

definition checkedRegCount :: "u8 \<Rightarrow> u8 \<Rightarrow> RegCount option" where
  "checkedRegCount i s = (if sint i + sint s \<le> 2 then Some \<lparr>int_regs = i, sse_regs = s\<rparr> else None)"

fun RegCount_of :: "DataLayout \<Rightarrow> LLType \<Rightarrow> RegCount option"
  and RegCounts_of :: "DataLayout \<Rightarrow> LLType list \<Rightarrow> (u8 \<times> u8) option" where
  "RegCount_of dl (StructTy nm packed ts) = do { (i, s) \<leftarrow> RegCounts_of dl ts; checkedRegCount i s }"
| "RegCount_of dl (OpaqueTy nm) = checkedRegCount 0 0"
| "RegCount_of dl (ArrayTy n t) = do {
     let N = (of_nat n :: u8);
     e \<leftarrow> RegCount_of dl t;
     checkedRegCount (N * int_regs e) (N * sse_regs e) }"
| "RegCount_of dl (IntegerTy n) = checkedRegCount 1 0"
| "RegCount_of dl (PointerTy a) = checkedRegCount 1 0"
| "RegCount_of dl X86_FP80Ty = checkedRegCount 0 0"
| "RegCount_of dl FloatTy = checkedRegCount 0 1"
| "RegCount_of dl DoubleTy = checkedRegCount 0 1"
| "RegCount_of dl FP128Ty = checkedRegCount 0 1"
| "RegCount_of dl PPC_FP128Ty = checkedRegCount 0 1"
| "RegCount_of dl (VectorTy n t) = checkedRegCount 0 1"
| "RegCount_of dl VoidTy =
     (let sizeInBits = getTypeBitSize dl VoidTy in
      if sizeInBits > 0 \<and> sizeInBits \<le> 64 then checkedRegCount 1 0 else None)"
| "RegCounts_of dl [] = Some (0, 0)"
| "RegCounts_of dl (t # ts) = do {
     e \<leftarrow> RegCount_of dl t;
     (i, s) \<leftarrow> RegCounts_of dl ts;
     Some (int_regs e + i, sse_regs e + s) }"

datatype SubtractionResult = ArgumentFitsIn | ArgumentWouldFitInPartially | ArgumentDoesntFitIn

definition trySubtract :: "DataLayout \<Rightarrow> LLType \<Rightarrow> RegCount \<Rightarrow> (SubtractionResult \<times> RegCount) option" where
  "trySubtract dl l rc = do {
     wanted \<leftarrow> RegCount_of dl l;
     let anyRegAvailable = (0 <s int_regs wanted \<and> 0 <s int_regs rc) \<or> (0 <s sse_regs wanted \<and> 0 <s sse_regs rc);
     Some (if \<not> anyRegAvailable then (ArgumentDoesntFitIn, rc)
           else if int_regs rc <s int_regs wanted \<or> sse_regs rc <s sse_regs wanted
           then (ArgumentWouldFitInPartially, rc)
           else (ArgumentFitsIn,
                 rc\<lparr>int_regs := int_regs rc - int_regs wanted, sse_regs := sse_regs rc - sse_regs wanted\<rparr>)) }"

section \<open>The ABI\<close>

definition passInMemory :: "FrontEnd \<Rightarrow> Type \<Rightarrow> bool" where
  "passInMemory fe t = (getArgTypes fe t = Some [])"

fun isComplexRealEnum :: "Type \<Rightarrow> bool" where
  "isComplexRealEnum (TypeEnum n b) = (n = ''__c_complex_real'')"
| "isComplexRealEnum _ = False"

definition returnsComplexReal :: "TypeFunction \<Rightarrow> bool" where
  "returnsComplexReal tf = (isComplexRealEnum (tf_next tf) \<or> ty (toBasetype (tf_next tf)) = Tcomplex80)"

definition getRegCount :: "IrFuncTy \<Rightarrow> RegCount" where
  "getRegCount fty = \<lparr>int_regs = fst (tag fty), sse_regs = snd (tag fty)\<rparr>"

definition setRegCount :: "RegCount \<Rightarrow> IrFuncTy \<Rightarrow> IrFuncTy" where
  "setRegCount rc fty = fty\<lparr>tag := (int_regs rc, sse_regs rc)\<rparr>"

definition X86_64_returnInArg :: "FrontEnd \<Rightarrow> TypeFunction \<Rightarrow> bool" where
  "X86_64_returnInArg fe tf =
     (if isref tf then False
      else if returnsComplexReal tf then False
      else passInMemory fe (toBasetype (tf_next tf)))"

definition X86_64_preferPassByRef :: "FrontEnd \<Rightarrow> Type \<Rightarrow> bool" where
  "X86_64_preferPassByRef fe t = (fe_size fe t > 16 \<and> passInMemory fe (toBasetype t))"

definition X86_64_passByVal :: "FrontEnd \<Rightarrow> Type \<Rightarrow> bool" where
  "X86_64_passByVal fe t = (if \<not> isPOD t False then False else passInMemory fe (toBasetype t))"

definition useInt :: "RegCount \<Rightarrow> RegCount" where
  "useInt rc = (if 0 <s int_regs rc then rc\<lparr>int_regs := int_regs rc - 1\<rparr> else rc)"

definition X86_64_applyArgTypes :: "FrontEnd \<Rightarrow> Type \<Rightarrow> IrFuncTyArg \<Rightarrow> IrFuncTyArg option" where
  "X86_64_applyArgTypes fe t arg =
     (if ty t = Tcomplex32 \<or> ty t = Tstruct \<or> ty t = Tsarray then do {
        rewrittenType \<leftarrow> getRewrittenArgType fe t (getArgTypes fe t);
        (case rewrittenType of
           None \<Rightarrow> Some arg
         | Some l \<Rightarrow> applyToIfNotObsolete fe ArgTypesRewrite (Some l) arg) }
      else Some arg)"

definition X86_64_rewriteArgument :: "FrontEnd \<Rightarrow> IrFuncTyArg \<Rightarrow> RegCount \<Rightarrow> (IrFuncTyArg \<times> RegCount) option" where
  "X86_64_rewriteArgument fe arg rc =
     (let originalLType = ltype arg; t = toBasetype (arg_type arg) in
      if \<not> isPOD t False then do {
        arg \<leftarrow> applyTo fe IndirectByvalRewrite None arg;
        Some (arg, useInt rc) }
      else do {
        arg \<leftarrow> X86_64_applyArgTypes fe t arg;
        (result, rc) \<leftarrow> trySubtract (fe_layout fe) (ltype arg) rc;
        if result = ArgumentWouldFitInPartially then do {
          ensure (isAggregateType originalLType);
          arg \<leftarrow> applyTo fe ImplicitByvalRewrite None arg;
          Some (arg, rc) }
        else Some (arg, rc) })"

definition X86_64_explicitArgument :: "FrontEnd \<Rightarrow> IrFuncTyArg \<Rightarrow> RegCount \<Rightarrow> (IrFuncTyArg \<times> RegCount) option" where
  "X86_64_explicitArgument fe arg rc =
     (if byref arg then Some (arg, if \<not> isByVal arg then useInt rc else rc)
      else X86_64_rewriteArgument fe arg rc)"

fun rewriteArgsWith ::
  "(IrFuncTyArg \<Rightarrow> 's \<Rightarrow> (IrFuncTyArg \<times> 's) option) \<Rightarrow> IrFuncTyArg list \<Rightarrow> 's \<Rightarrow> (IrFuncTyArg list \<times> 's) option" where
  "rewriteArgsWith f [] s = Some ([], s)"
| "rewriteArgsWith f (a # as) s = do {
     (a, s) \<leftarrow> f a s;
     (as, s) \<leftarrow> rewriteArgsWith f as s;
     Some (a # as, s) }"

definition implicitRegs :: "IrFuncTy \<Rightarrow> RegCount \<Rightarrow> RegCount" where
  "implicitRegs fty rc =
     (let use = (\<lambda>b n (r :: u8). if b then r - n else r);
          r = int_regs rc;
          r = use (arg_sret fty \<noteq> None) 1 r;
          r = use (arg_this fty \<noteq> None \<or> arg_nest fty \<noteq> None) 1 r;
          r = use (arg_objcSelector fty \<noteq> None) 1 r;
          r = use (arg_arguments fty \<noteq> None) 2 r
      in rc\<lparr>int_regs := r\<rparr>)"

definition X86_64_rewriteFunctionType :: "FrontEnd \<Rightarrow> IrFuncTy \<Rightarrow> IrFuncTy option" where
  "X86_64_rewriteFunctionType fe fty = do {
     r \<leftarrow> (if \<not> skipReturnValueRewrite fty \<and> \<not> returnsComplexReal (fty_type fty)
           then map_option fst (X86_64_rewriteArgument fe (ret fty) RegCount_initial)
           else Some (ret fty));
     let regCount = implicitRegs fty RegCount_initial;
     (as, regCount) \<leftarrow> rewriteArgsWith (X86_64_explicitArgument fe) (args fty) regCount;
     Some (setRegCount regCount (fty\<lparr>ret := r, args := as\<rparr>)) }"

definition X86_64_vararg :: "FrontEnd \<Rightarrow> IrFuncTyArg \<Rightarrow> RegCount \<Rightarrow> (IrFuncTyArg \<times> RegCount) option" where
  "X86_64_vararg fe arg rc = (if byref arg then Some (arg, rc) else X86_64_rewriteArgument fe arg rc)"

definition X86_64_rewriteVarargs :: "FrontEnd \<Rightarrow> IrFuncTy \<Rightarrow> IrFuncTyArg list \<Rightarrow> IrFuncTyArg list option" where
  "X86_64_rewriteVarargs fe fty as =
     map_option fst (rewriteArgsWith (X86_64_vararg fe) as (getRegCount fty))"

definition X86_64TargetABI :: "FrontEnd \<Rightarrow> Triple \<Rightarrow> TargetABI" where
  "X86_64TargetABI fe triple = (defaultTargetABI fe triple cc_default (\<lambda>_. None))
     \<lparr>returnInArg := \<lambda>tf _. X86_64_returnInArg fe tf,
      preferPassByRef := X86_64_preferPassByRef fe,
      passByVal := \<lambda>_. X86_64_passByVal fe,
      rewriteFunctionType := X86_64_rewriteFunctionType fe,
      rewriteVarargs := X86_64_rewriteVarargs fe\<rparr>"

definition getValistType :: LLType where
  "getValistType = literalStruct [IntegerTy 32, IntegerTy 32, getOpaquePtrType, getOpaquePtrType]"

definition X86_64_objcMsgSendFunc :: "Triple \<Rightarrow> Type option \<Rightarrow> IrFuncTy \<Rightarrow> bool \<Rightarrow> string option" where
  "X86_64_objcMsgSendFunc triple r fty directcall = do {
     ensure (isOSDarwin triple);
     Some (if arg_sret fty \<noteq> None then (if directcall then ''objc_msgSendSuper_stret'' else ''objc_msgSend_stret'')
       else case r of
         Some t \<Rightarrow> if isfloating t then (if ty t = Tcomplex80 then ''objc_msgSend_fp2ret'' else ''objc_msgSend_fpret'')
                   else (if directcall then ''objc_msgSendSuper'' else ''objc_msgSend'')
       | None \<Rightarrow> (if directcall then ''objc_msgSendSuper'' else ''objc_msgSend'')) }"


section \<open>Counting with natural numbers\<close>

text \<open>
  The registers a type takes when LLVM passes its scalars one by one, and the register state as
  a pair of numbers.
\<close>

fun regNeed :: "LLType \<Rightarrow> nat \<times> nat" where
  "regNeed (StructTy nm packed ts) = (sum_list (map (\<lambda>t. fst (regNeed t)) ts), sum_list (map (\<lambda>t. snd (regNeed t)) ts))"
| "regNeed (OpaqueTy nm) = (0, 0)"
| "regNeed (ArrayTy n t) = (n * fst (regNeed t), n * snd (regNeed t))"
| "regNeed (IntegerTy n) = (1, 0)"
| "regNeed (PointerTy a) = (1, 0)"
| "regNeed X86_FP80Ty = (0, 0)"
| "regNeed VoidTy = (1, 0)"
| "regNeed _ = (0, 1)"

definition freeRegs :: "RegCount \<Rightarrow> nat \<times> nat" where
  "freeRegs rc = (unat (int_regs rc), unat (sse_regs rc))"

definition rcOK :: "RegCount \<Rightarrow> bool" where
  "rcOK rc \<longleftrightarrow> unat (int_regs rc) \<le> 6 \<and> unat (sse_regs rc) \<le> 8"

lemma sint_small:
  assumes "unat (w :: u8) < 128"
  shows "sint w = uint w"
proof -
  from assms uint_nat [of w] have "uint w < 128" by linarith
  then have "signed_take_bit 7 (uint w) = uint w"
    by (intro signed_take_bit_int_eq_self) (auto intro: order_trans [of _ 0])
  then show ?thesis by (simp add: sint_uint)
qed

lemma sless_small:
  assumes "unat (v :: u8) < 128" "unat w < 128"
  shows "v <s w \<longleftrightarrow> unat v < unat w"
  using assms by (simp add: word_sless_alt sint_small word_less_nat_alt [symmetric] word_less_def)

lemma unat_of_nat_mult:
  assumes "n * unat (w :: u8) < 128"
  shows "unat (of_nat n * w) = n * unat w"
proof -
  have "of_nat n * w = of_nat (n * unat w)" by simp
  then show ?thesis using unat_of_nat_small [of "n * unat w", where 'a = 8] assms by simp
qed

lemma freeRegs_eq: "freeRegs rc = p \<Longrightarrow> unat (int_regs rc) = fst p \<and> unat (sse_regs rc) = snd p"
  by (auto simp: freeRegs_def)

lemma checkedRegCount_need:
  assumes "checkedRegCount i s = Some rc" "unat i + unat s < 128"
  shows "freeRegs rc = (unat i, unat s) \<and> unat i + unat s \<le> 2"
proof -
  have "sint i = uint i" "sint s = uint s" using assms(2) by (simp_all add: sint_small)
  then have "sint i + sint s \<le> 2 \<longleftrightarrow> unat i + unat s \<le> 2" using uint_nat [of i] uint_nat [of s] by linarith
  then show ?thesis using assms(1) by (simp add: checkedRegCount_def freeRegs_def split: if_splits) auto
qed

lemma RegCount_of_need:
  shows "RegCount_of dl l = Some rc \<Longrightarrow> fst (regNeed l) + snd (regNeed l) < 128 \<Longrightarrow>
      freeRegs rc = regNeed l \<and> fst (regNeed l) + snd (regNeed l) \<le> 2"
    and "RegCounts_of dl ls = Some (i, s) \<Longrightarrow>
      sum_list (map (\<lambda>t. fst (regNeed t)) ls) + sum_list (map (\<lambda>t. snd (regNeed t)) ls) < 128 \<Longrightarrow>
      unat i = sum_list (map (\<lambda>t. fst (regNeed t)) ls) \<and> unat s = sum_list (map (\<lambda>t. snd (regNeed t)) ls)"
proof (induction dl l and dl ls arbitrary: rc and i s rule: RegCount_of_RegCounts_of.induct)
  case (1 dl nm packed ts)
  from "1.prems"(1) obtain i s where c: "RegCounts_of dl ts = Some (i, s)" "checkedRegCount i s = Some rc"
    by (auto split: Option.bind_splits)
  from "1.IH" [OF c(1)] "1.prems"(2) checkedRegCount_need [OF c(2)] show ?case by simp
next
  case (3 dl n t)
  from "3.prems"(1) obtain e where e: "RegCount_of dl t = Some e"
      "checkedRegCount (of_nat n * int_regs e) (of_nat n * sse_regs e) = Some rc"
    by (auto simp: Let_def split: Option.bind_splits)
  have small: "n * fst (regNeed t) + n * snd (regNeed t) < 128" using "3.prems"(2) by simp
  have u: "n * unat (int_regs e) = n * fst (regNeed t) \<and> n * unat (sse_regs e) = n * snd (regNeed t)"
  proof (cases "n = 0")
    case False
    then have "fst (regNeed t) \<le> n * fst (regNeed t)" "snd (regNeed t) \<le> n * snd (regNeed t)" by auto
    with small have "fst (regNeed t) + snd (regNeed t) < 128" by linarith
    from "3.IH" [OF refl e(1) this] show ?thesis using freeRegs_eq [of e "regNeed t"] by simp
  qed auto
  note u = u [THEN conjunct1] u [THEN conjunct2]
  from small have "n * unat (int_regs e) < 128" "n * unat (sse_regs e) < 128" unfolding u by linarith+
  then have "unat (of_nat n * int_regs e) = n * fst (regNeed t)" "unat (of_nat n * sse_regs e) = n * snd (regNeed t)"
    by (simp_all only: unat_of_nat_mult u)
  with checkedRegCount_need [OF e(2)] small show ?case by simp
next
  case (14 dl t ts)
  from "14.prems"(1) obtain e i' s' where e: "RegCount_of dl t = Some e" "RegCounts_of dl ts = Some (i', s')"
      "i = int_regs e + i'" "s = sse_regs e + s'"
    by (auto split: Option.bind_splits)
  have 1: "freeRegs e = regNeed t"
    using "14.IH"(1) [OF e(1)] "14.prems"(2) by simp
  have 2: "unat i' = sum_list (map (\<lambda>t. fst (regNeed t)) ts) \<and> unat s' = sum_list (map (\<lambda>t. snd (regNeed t)) ts)"
    using "14.IH"(2) [OF e(1,2)] "14.prems"(2) by simp
  have 3: "unat (int_regs e) = fst (regNeed t)" "unat (sse_regs e) = snd (regNeed t)"
    using freeRegs_eq [OF 1] by auto
  have 4: "unat (int_regs e) + unat i' < 2 ^ 8" "unat (sse_regs e) + unat s' < 2 ^ 8"
    using "14.prems"(2) 2 3 by simp_all
  show ?case
    using 2 3 4 by (simp add: e(3,4) unat_word_ariths(1))
qed (auto simp: Let_def split: if_splits dest!: checkedRegCount_need)


section \<open>LLVM's allocation\<close>

text \<open>
  LLVM hands out registers scalar by scalar: an argument takes what it needs of each class as
  far as there is some left, and an argument of which one scalar gets a register and another
  does not is split between registers and memory. A \<open>byval\<close> argument is passed in memory and a
  pointer takes one integer register.
\<close>

definition llvmNeed :: "IrFuncTyArg \<Rightarrow> nat \<times> nat" where
  "llvmNeed a = (if isByVal a then (0, 0) else regNeed (ltype a))"

definition llvmTake :: "nat \<times> nat \<Rightarrow> nat \<times> nat \<Rightarrow> nat \<times> nat" where
  "llvmTake free need = (fst free - fst need, snd free - snd need)"

definition llvmSplits :: "nat \<times> nat \<Rightarrow> nat \<times> nat \<Rightarrow> bool" where
  "llvmSplits free need \<longleftrightarrow>
     (0 < fst need \<and> 0 < fst free \<or> 0 < snd need \<and> 0 < snd free) \<and> (fst free < fst need \<or> snd free < snd need)"

fun noneSplit :: "nat \<times> nat \<Rightarrow> (nat \<times> nat) list \<Rightarrow> bool" where
  "noneSplit free [] = True"
| "noneSplit free (n # ns) \<longleftrightarrow> \<not> llvmSplits free n \<and> noneSplit (llvmTake free n) ns"

definition llvmLeft :: "nat \<times> nat \<Rightarrow> (nat \<times> nat) list \<Rightarrow> nat \<times> nat" where
  "llvmLeft free ns = fold (\<lambda>n free. llvmTake free n) ns free"

definition fewScalars :: "IrFuncTyArg \<Rightarrow> bool" where
  "fewScalars a \<longleftrightarrow> fst (regNeed (ltype a)) + snd (regNeed (ltype a)) < 128"

text \<open>\<open>tracked rc a rc'\<close>: passing \<open>a\<close> with \<open>rc\<close> registers left does not split it and leaves \<open>rc'\<close>.\<close>

definition tracked :: "RegCount \<Rightarrow> IrFuncTyArg \<Rightarrow> RegCount \<Rightarrow> bool" where
  "tracked rc a rc' \<longleftrightarrow> rcOK rc' \<and> \<not> llvmSplits (freeRegs rc) (llvmNeed a)
     \<and> freeRegs rc' = llvmTake (freeRegs rc) (llvmNeed a)"

lemma rcOK_small: "rcOK rc \<Longrightarrow> unat (int_regs rc) < 128 \<and> unat (sse_regs rc) < 128"
  by (simp add: rcOK_def)

lemma useInt_tracked:
  assumes "rcOK rc" "llvmNeed a = (1, 0)"
  shows "tracked rc a (useInt rc)"
proof (cases "unat (int_regs rc) = 0")
  case True
  then have "\<not> 0 <s int_regs rc" using sless_small [of 0 "int_regs rc"] by simp
  with True assms show ?thesis by (simp add: tracked_def useInt_def freeRegs_def llvmTake_def llvmSplits_def)
next
  case False
  then have "0 <s int_regs rc" "1 \<le> int_regs rc"
    using sless_small [of 0 "int_regs rc"] rcOK_small [OF assms(1)] by (auto simp: word_le_nat_alt)
  with assms show ?thesis
    by (auto simp: tracked_def useInt_def freeRegs_def llvmTake_def llvmSplits_def rcOK_def unat_sub)
qed

lemma trySubtract_tracked:
  assumes rc: "rcOK rc" and t: "trySubtract dl (ltype a) rc = Some (res, rc')"
    and a: "\<not> isByVal a" "fewScalars a" "res \<noteq> ArgumentWouldFitInPartially"
  shows "tracked rc a rc'"
proof -
  from t obtain w where w: "RegCount_of dl (ltype a) = Some w" by (auto simp: trySubtract_def split: Option.bind_splits)
  from RegCount_of_need(1) [OF w] a(2) have n: "regNeed (ltype a) = (unat (int_regs w), unat (sse_regs w))"
      "unat (int_regs w) + unat (sse_regs w) \<le> 2"
    using freeRegs_eq [of w] by (auto simp: fewScalars_def)
  have small: "unat (int_regs w) < 128" "unat (sse_regs w) < 128" "unat (int_regs rc) < 128" "unat (sse_regs rc) < 128"
    using n(2) rcOK_small [OF rc] by auto
  have less: "0 <s int_regs w \<longleftrightarrow> 0 < unat (int_regs w)" "0 <s sse_regs w \<longleftrightarrow> 0 < unat (sse_regs w)"
      "0 <s int_regs rc \<longleftrightarrow> 0 < unat (int_regs rc)" "0 <s sse_regs rc \<longleftrightarrow> 0 < unat (sse_regs rc)"
      "int_regs rc <s int_regs w \<longleftrightarrow> unat (int_regs rc) < unat (int_regs w)"
      "sse_regs rc <s sse_regs w \<longleftrightarrow> unat (sse_regs rc) < unat (sse_regs w)"
    using small by (simp_all add: sless_small)
  have need: "llvmNeed a = (unat (int_regs w), unat (sse_regs w))" using a(1) n(1) by (simp add: llvmNeed_def)
  show ?thesis
  proof (cases "(0 < unat (int_regs w) \<and> 0 < unat (int_regs rc)) \<or> (0 < unat (sse_regs w) \<and> 0 < unat (sse_regs rc))")
    case False
    then have "rc' = rc" using t w by (auto simp: trySubtract_def Let_def less split: if_splits)
    with False rc show ?thesis
      by (auto simp: tracked_def need freeRegs_def llvmTake_def llvmSplits_def)
  next
    case True
    then have rc': "rc' = rc\<lparr>int_regs := int_regs rc - int_regs w, sse_regs := sse_regs rc - sse_regs w\<rparr>"
      and le: "\<not> (unat (int_regs rc) < unat (int_regs w) \<or> unat (sse_regs rc) < unat (sse_regs w))"
      using t w a(3) by (auto simp: trySubtract_def Let_def less split: if_splits)
    then have "unat (int_regs rc - int_regs w) = unat (int_regs rc) - unat (int_regs w)"
        "unat (sse_regs rc - sse_regs w) = unat (sse_regs rc) - unat (sse_regs w)"
      by (simp_all add: unat_sub word_le_nat_alt)
    with rc rc' le show ?thesis
      by (auto simp: tracked_def need freeRegs_def llvmTake_def llvmSplits_def rcOK_def)
  qed
qed


lemma applyTo_attrs:
  assumes "applyTo fe rw l a = Some a'"
  shows "rewriteAttrs fe rw (arg_type a) (attrs a) = Some (attrs a')"
    and "l = Some t \<Longrightarrow> ltype a' = t" and "l = None \<Longrightarrow> rewriteType fe rw (arg_type a) = Some (ltype a')"
  using assms by (auto simp: applyTo_def split: Option.bind_splits option.splits)

lemma rewriteAttrs_byVal:
  "rewriteAttrs fe rw t x = Some y \<Longrightarrow>
     byValType y \<noteq> None \<longleftrightarrow> rw = ImplicitByvalRewrite \<or> rw \<noteq> IndirectByvalRewrite \<and> byValType x \<noteq> None"
  by (auto simp: rewriteAttrs_def noAttrs_def addAlignmentIfAny_def addAlignmentAttr_def addAttribute_def
      split: ABIRewrite.splits option.splits if_splits)

lemma isByVal_applyTo:
  assumes "applyTo fe rw l a = Some a'"
  shows "isByVal a' \<longleftrightarrow> rw = ImplicitByvalRewrite \<or> rw \<noteq> IndirectByvalRewrite \<and> isByVal a"
  using rewriteAttrs_byVal [OF applyTo_attrs(1) [OF assms]] by (simp add: isByVal_def)

lemma isByVal_applyToIfNotObsolete:
  assumes "applyToIfNotObsolete fe ArgTypesRewrite l a = Some a'"
  shows "isByVal a' \<longleftrightarrow> isByVal a"
  using assms isByVal_applyTo
  by (fastforce simp: applyToIfNotObsolete_def split: Option.bind_splits if_splits option.splits)

lemma trySubtract_partial: "trySubtract dl l rc = Some (ArgumentWouldFitInPartially, rc') \<Longrightarrow> rc' = rc"
  by (auto simp: trySubtract_def Let_def split: Option.bind_splits if_splits)

lemma rewriteArgument_tracked:
  assumes rc: "rcOK rc" and r: "X86_64_rewriteArgument fe a rc = Some (a', rc')"
    and a: "\<not> isByVal a" and few: "fewScalars a'"
  shows "tracked rc a' rc'"
proof (cases "isPOD (toBasetype (arg_type a)) False")
  case False
  then obtain b where b: "applyTo fe IndirectByvalRewrite None a = Some b" "a' = b" "rc' = useInt rc"
    using r by (auto simp: X86_64_rewriteArgument_def Let_def split: Option.bind_splits)
  then have "ltype a' = getOpaquePtrType" using applyTo_attrs(3) [OF b(1)] by (simp add: rewriteType_def)
  then have "llvmNeed a' = (1, 0)"
    using isByVal_applyTo [OF b(1)] b(2) by (simp add: llvmNeed_def)
  with b(3) show ?thesis using useInt_tracked [OF rc] by simp
next
  case True
  then obtain b res rc1 where b: "isByVal b \<longleftrightarrow> isByVal a"
      "trySubtract (fe_layout fe) (ltype b) rc = Some (res, rc1)"
      "if res = ArgumentWouldFitInPartially then applyTo fe ImplicitByvalRewrite None b = Some a' \<and> rc' = rc1
       else a' = b \<and> rc' = rc1"
  proof -
    from True r obtain b where b: "X86_64_applyArgTypes fe (toBasetype (arg_type a)) a = Some b"
      by (auto simp: X86_64_rewriteArgument_def Let_def split: Option.bind_splits)
    have "isByVal b \<longleftrightarrow> isByVal a"
      using b isByVal_applyToIfNotObsolete [of fe _ a b]
      by (auto simp: X86_64_applyArgTypes_def split: Option.bind_splits if_splits option.splits)
    with True r b that show thesis
      by (fastforce simp: X86_64_rewriteArgument_def Let_def split: Option.bind_splits if_splits)
  qed
  show ?thesis
  proof (cases "res = ArgumentWouldFitInPartially")
    case True
    with b have "isByVal a'" "rc' = rc"
      using isByVal_applyTo [of fe ImplicitByvalRewrite None b a'] trySubtract_partial by auto
    with rc show ?thesis by (simp add: tracked_def llvmNeed_def llvmSplits_def llvmTake_def)
  next
    case False
    with b trySubtract_tracked [OF rc b(2)] a few show ?thesis by auto
  qed
qed

text \<open>What holds of the arguments before the rewrite: references are pointers, and only they are \<open>byval\<close>.\<close>

definition freshArg :: "IrFuncTyArg \<Rightarrow> bool" where
  "freshArg a \<longleftrightarrow> (byref a \<longrightarrow> ltype a = getOpaquePtrType) \<and> (isByVal a \<longrightarrow> byref a)"

lemma explicitArgument_tracked:
  assumes rc: "rcOK rc" and r: "X86_64_explicitArgument fe a rc = Some (a', rc')"
    and a: "freshArg a" and few: "fewScalars a'"
  shows "tracked rc a' rc'"
proof (cases "byref a")
  case True
  then have a': "a' = a" "ltype a = getOpaquePtrType" and rc': "rc' = (if isByVal a then rc else useInt rc)"
    using r a by (auto simp: X86_64_explicitArgument_def freshArg_def)
  show ?thesis
  proof (cases "isByVal a")
    case True
    with rc a' rc' show ?thesis by (simp add: tracked_def llvmNeed_def llvmSplits_def llvmTake_def)
  next
    case False
    with a' rc' useInt_tracked [OF rc, of a] show ?thesis by (simp add: llvmNeed_def)
  qed
next
  case False
  then show ?thesis
    using rewriteArgument_tracked [OF rc _ _ few] r a by (auto simp: X86_64_explicitArgument_def freshArg_def)
qed

lemma args_tracked:
  assumes "rewriteArgsWith f as rc = Some (as', rc')" "rcOK rc" "\<forall>a\<in>set as'. fewScalars a" "\<forall>a\<in>set as. P a"
    and "\<And>a rc a' rc'. P a \<Longrightarrow> rcOK rc \<Longrightarrow> f a rc = Some (a', rc') \<Longrightarrow> fewScalars a' \<Longrightarrow> tracked rc a' rc'"
  shows "noneSplit (freeRegs rc) (map llvmNeed as') \<and> freeRegs rc' = llvmLeft (freeRegs rc) (map llvmNeed as') \<and> rcOK rc'"
  using assms(1-4)
proof (induction as arbitrary: rc as')
  case (Cons a as)
  from Cons.prems(1) obtain a1 rc1 as1 where
    s: "f a rc = Some (a1, rc1)" "rewriteArgsWith f as rc1 = Some (as1, rc')" "as' = a1 # as1"
    by (auto split: Option.bind_splits)
  from assms(5) [OF _ Cons.prems(2) s(1)] Cons.prems(3,4) s(3) have t: "tracked rc a1 rc1" by simp
  with Cons.IH [OF s(2)] Cons.prems(3,4) s(3) show ?case by (auto simp: tracked_def llvmLeft_def)
qed (simp add: llvmLeft_def)

lemma implicitRegs_free:
  "rcOK (implicitRegs fty RegCount_initial) \<and>
   freeRegs (implicitRegs fty RegCount_initial) =
     (6 - ((if arg_sret fty \<noteq> None then 1 else 0) + (if arg_this fty \<noteq> None \<or> arg_nest fty \<noteq> None then 1 else 0)
         + (if arg_objcSelector fty \<noteq> None then 1 else 0) + (if arg_arguments fty \<noteq> None then 2 else 0)), 8)"
  by (auto simp: implicitRegs_def RegCount_initial_def rcOK_def freeRegs_def Let_def)


lemma rewriteFunctionType_registers:
  assumes "X86_64_rewriteFunctionType fe fty = Some fty'" "\<forall>a\<in>set (args fty). freshArg a"
    "\<forall>a\<in>set (args fty'). fewScalars a"
  shows "noneSplit (freeRegs (implicitRegs fty RegCount_initial)) (map llvmNeed (args fty'))
    \<and> freeRegs (getRegCount fty') = llvmLeft (freeRegs (implicitRegs fty RegCount_initial)) (map llvmNeed (args fty'))
    \<and> rcOK (getRegCount fty')"
proof -
  from assms(1) obtain as rc where
    s: "rewriteArgsWith (X86_64_explicitArgument fe) (args fty) (implicitRegs fty RegCount_initial) = Some (as, rc)"
      "args fty' = as" "getRegCount fty' = rc"
    by (auto simp: X86_64_rewriteFunctionType_def Let_def setRegCount_def getRegCount_def split: Option.bind_splits)
  show ?thesis
    using args_tracked [OF s(1), where P = freshArg] implicitRegs_free [of fty] explicitArgument_tracked assms(2,3) s(2,3)
    by simp
qed

lemma rewriteVarargs_registers:
  assumes "X86_64_rewriteVarargs fe fty as = Some as'" "rcOK (getRegCount fty)"
    "\<forall>a\<in>set as. byref a \<longleftrightarrow> isByVal a" "\<forall>a\<in>set as'. fewScalars a"
  shows "noneSplit (freeRegs (getRegCount fty)) (map llvmNeed as')"
proof -
  from assms(1) obtain rc where s: "rewriteArgsWith (X86_64_vararg fe) as (getRegCount fty) = Some (as', rc)"
    by (auto simp: X86_64_rewriteVarargs_def)
  have "tracked rc a' rc'" if "byref a \<longleftrightarrow> isByVal a" "rcOK rc" "X86_64_vararg fe a rc = Some (a', rc')" "fewScalars a'"
    for rc a a' rc'
    using that rewriteArgument_tracked [OF that(2) _ _ that(4)]
    by (auto simp: X86_64_vararg_def tracked_def llvmNeed_def llvmSplits_def llvmTake_def split: if_splits)
  with args_tracked [OF s assms(2,4,3)] show ?thesis by blast
qed

section \<open>The contract of the interface\<close>

lemma applyArgTypes_ok:
  assumes "X86_64_applyArgTypes fe (toBasetype (arg_type a)) a = Some a'"
  shows "sameArg a a' \<and> (argOK fe a \<longrightarrow> argOK fe a')"
  using assms applyToIfNotObsolete_ok [of fe ArgTypesRewrite _ a a']
  by (auto simp: X86_64_applyArgTypes_def rewriteType_def split: Option.bind_splits if_splits option.splits)

lemma X86_64_rewriteArgument_ok:
  assumes "X86_64_rewriteArgument fe a rc = Some (a', rc')"
  shows "sameArg a a' \<and> (argOK fe a \<longrightarrow> argOK fe a')"
proof (cases "isPOD (toBasetype (arg_type a)) False")
  case False
  then show ?thesis using assms applyTo_ok [of fe IndirectByvalRewrite None a]
    by (auto simp: X86_64_rewriteArgument_def Let_def split: Option.bind_splits)
next
  case True
  then obtain b where b: "X86_64_applyArgTypes fe (toBasetype (arg_type a)) a = Some b"
      "a' = b \<or> applyTo fe ImplicitByvalRewrite None b = Some a'"
    using assms by (auto simp: X86_64_rewriteArgument_def Let_def split: Option.bind_splits if_splits)
  from b(2) have "sameArg b a' \<and> (argOK fe b \<longrightarrow> argOK fe a')" using applyTo_ok by auto
  with applyArgTypes_ok [OF b(1)] show ?thesis using sameArg_trans by blast
qed

lemma rewriteArgsWith_ok:
  assumes "rewriteArgsWith f as s = Some (as', s')"
    and "\<And>a s a' s'. f a s = Some (a', s') \<Longrightarrow> sameArg a a' \<and> (argOK fe a \<longrightarrow> argOK fe a')"
  shows "list_all2 sameArg as as' \<and> ((\<forall>a\<in>set as. argOK fe a) \<longrightarrow> (\<forall>a\<in>set as'. argOK fe a))"
  using assms(1)
proof (induction as arbitrary: s as')
  case (Cons a as)
  then obtain a1 s1 as1 where "f a s = Some (a1, s1)" "rewriteArgsWith f as s1 = Some (as1, s')" "as' = a1 # as1"
    by (auto split: Option.bind_splits)
  with Cons.IH assms(2) show ?case by fastforce
qed simp

lemma X86_64_explicitArgument_ok:
  "X86_64_explicitArgument fe a rc = Some (a', rc') \<Longrightarrow> sameArg a a' \<and> (argOK fe a \<longrightarrow> argOK fe a')"
  using X86_64_rewriteArgument_ok by (auto simp: X86_64_explicitArgument_def split: if_splits)

lemma X86_64_rewriteFunctionTypeE:
  assumes "X86_64_rewriteFunctionType fe fty = Some fty'"
  obtains r as rc where "fty' = setRegCount rc (fty\<lparr>ret := r, args := as\<rparr>)"
    "sameArg (ret fty) r" "argOK fe (ret fty) \<longrightarrow> argOK fe r"
    "arg_type (ret fty) = TypeBasic Tvoid \<longrightarrow> r = ret fty"
    "list_all2 sameArg (args fty) as" "(\<forall>a\<in>set (args fty). argOK fe a) \<longrightarrow> (\<forall>a\<in>set as. argOK fe a)"
proof -
  from assms obtain r as rc where
    r: "(if \<not> skipReturnValueRewrite fty \<and> \<not> returnsComplexReal (fty_type fty)
         then map_option fst (X86_64_rewriteArgument fe (ret fty) RegCount_initial) else Some (ret fty)) = Some r"
    and as: "rewriteArgsWith (X86_64_explicitArgument fe) (args fty) (implicitRegs fty RegCount_initial) = Some (as, rc)"
      "fty' = setRegCount rc (fty\<lparr>ret := r, args := as\<rparr>)"
    by (auto simp: X86_64_rewriteFunctionType_def Let_def split: Option.bind_splits)
  have "sameArg (ret fty) r \<and> (argOK fe (ret fty) \<longrightarrow> argOK fe r)"
    using r X86_64_rewriteArgument_ok by (auto split: if_splits)
  moreover have "arg_type (ret fty) = TypeBasic Tvoid \<longrightarrow> r = ret fty"
    using r by (auto simp: skipReturnValueRewrite_def Let_def split: if_splits)
  moreover have "list_all2 sameArg (args fty) as \<and> ((\<forall>a\<in>set (args fty). argOK fe a) \<longrightarrow> (\<forall>a\<in>set as. argOK fe a))"
    by (rule rewriteArgsWith_ok [OF as(1)]) (rule X86_64_explicitArgument_ok)
  ultimately show thesis using that [OF as(2)] by blast
qed

interpretation x86_64: target_abi "X86_64TargetABI fe triple" fe for fe triple
proof
  fix fty fty' assume "rewriteFunctionType (X86_64TargetABI fe triple) fty = Some fty'"
  then have "X86_64_rewriteFunctionType fe fty = Some fty'" by (simp add: X86_64TargetABI_def)
  then obtain r as rc where fty': "fty' = setRegCount rc (fty\<lparr>ret := r, args := as\<rparr>)"
    and r: "sameArg (ret fty) r" "argOK fe (ret fty) \<longrightarrow> argOK fe r"
      "arg_type (ret fty) = TypeBasic Tvoid \<longrightarrow> r = ret fty"
    and as: "list_all2 sameArg (args fty) as" "(\<forall>a\<in>set (args fty). argOK fe a) \<longrightarrow> (\<forall>a\<in>set as. argOK fe a)"
    by (rule X86_64_rewriteFunctionTypeE)
  show "signatureKept fty fty'"
    using pointwise_kept [OF r(1) as(1)] by (simp add: fty' setRegCount_def signatureKept_def)
  show "ftyOK fe fty'" if "ftyFresh fe fty"
    using that r(2) as(2) by (simp add: fty' setRegCount_def ftyOK_def ftyFresh_def argFresh_def)
  show "ret fty' = ret fty" if "arg_type (ret fty) = TypeBasic Tvoid"
    using that r(3) by (simp add: fty' setRegCount_def)
qed

end
