(* ===== verification/WindowsABI.thy ===== *)
theory WindowsABI
  imports TargetABI
begin

text \<open>
  The ABIs of 64-bit Windows (\<open>gen/abi/win64.cpp\<close>) and of 32-bit x86 on all systems
  (\<open>gen/abi/x86.cpp\<close>).
\<close>

section \<open>64-bit Windows\<close>

definition isX87 :: "bool \<Rightarrow> Type \<Rightarrow> bool" where
  "isX87 isMSVC t = (\<not> isMSVC \<and> (ty t = Tfloat80 \<or> ty t = Timaginary80))"

definition Win64_nonPOD :: "bool \<Rightarrow> Type \<Rightarrow> bool \<Rightarrow> LINK \<Rightarrow> bool" where
  "Win64_nonPOD isMSVC t isReturnValue linkage =
     (let isMSVCpp = (isMSVC \<and> linkage = LINK_cpp) in
      if isReturnValue then \<not> isPOD t isMSVCpp
      else if isMSVCpp then
        (case structOf t of
           Some sd \<Rightarrow> sd_postblit (sd_info sd) \<or> sd_hasCopyCtor (sd_info sd)
         | None \<Rightarrow> False)
      else \<not> isPOD t False)"

definition passPointerToHiddenCopy :: "FrontEnd \<Rightarrow> bool \<Rightarrow> Type \<Rightarrow> bool \<Rightarrow> LINK \<Rightarrow> TypeFunction option \<Rightarrow> bool" where
  "passPointerToHiddenCopy fe isMSVC t isReturnValue linkage tf =
     (if isX87 isMSVC t then \<not> isReturnValue
      else if Win64_nonPOD isMSVC t isReturnValue linkage then True
      else if (case tf of Some f \<Rightarrow> isExternD f | None \<Rightarrow> linkage = LINK_d) \<and> isHVA fe t 4 then False
      else isAggregate t \<and> \<not> canRewriteAsInt fe t True \<and> ty t \<noteq> Tarray \<and> ty t \<noteq> Tdelegate)"

definition Win64_callingConv :: "LINK \<Rightarrow> CallingConv option" where
  "Win64_callingConv l = Some (if l = LINK_d then X86_VectorCall else CC_C)"

definition Win64_mangleFunctionForLLVM :: "string \<Rightarrow> LINK \<Rightarrow> string" where
  "Win64_mangleFunctionForLLVM name l = (if l = LINK_d then CHR 0x01 # name else name)"

definition Win64_returnInArg :: "FrontEnd \<Rightarrow> bool \<Rightarrow> TypeFunction \<Rightarrow> bool \<Rightarrow> bool" where
  "Win64_returnInArg fe isMSVC tf needsThis =
     (if isref tf then False
      else let rt = toBasetype (tf_next tf) in
        if isMSVC \<and> tf_linkage tf = LINK_cpp \<and> needsThis \<and> ty rt = Tstruct then True
        else passPointerToHiddenCopy fe isMSVC rt True (tf_linkage tf) (Some tf))"

definition Win64_preferPassByRef :: "FrontEnd \<Rightarrow> bool \<Rightarrow> Type \<Rightarrow> bool" where
  "Win64_preferPassByRef fe isMSVC t = passPointerToHiddenCopy fe isMSVC (toBasetype t) False LINK_d None"

definition Win64_rewrite :: "FrontEnd \<Rightarrow> bool \<Rightarrow> TypeFunction \<Rightarrow> bool \<Rightarrow> IrFuncTyArg \<Rightarrow> IrFuncTyArg option" where
  "Win64_rewrite fe isMSVC tf isReturnValue arg =
     (let t = toBasetype (arg_type arg) in
      if passPointerToHiddenCopy fe isMSVC t isReturnValue (tf_linkage tf) (Some tf)
      then applyTo fe IndirectByvalRewrite None arg
      else if isExternD tf \<and> isHVA fe t 4
      then do { l \<leftarrow> hfvaType fe t 4; applyTo fe (HFVAToArray 4) (Some l) arg }
      else if isAggregate t \<and> canRewriteAsInt fe t True
      then applyToIfNotObsolete fe IntegerRewrite None arg
      else Some arg)"

definition Win64_rewriteFunctionType :: "FrontEnd \<Rightarrow> bool \<Rightarrow> IrFuncTy \<Rightarrow> IrFuncTy option" where
  "Win64_rewriteFunctionType fe isMSVC fty = do {
     r \<leftarrow> (if \<not> skipReturnValueRewrite fty then Win64_rewrite fe isMSVC (fty_type fty) True (ret fty)
           else Some (ret fty));
     as \<leftarrow> rewriteArgs (unlessByref (Win64_rewrite fe isMSVC (fty_type fty) False)) (args fty);
     Some (fty\<lparr>ret := r, args := as\<rparr>) }"

definition Win64_rewriteVararg :: "FrontEnd \<Rightarrow> bool \<Rightarrow> TypeFunction \<Rightarrow> IrFuncTyArg \<Rightarrow> IrFuncTyArg option" where
  "Win64_rewriteVararg fe isMSVC tf arg = do {
     a \<leftarrow> Win64_rewrite fe isMSVC tf False arg;
     Some (if rewrite a = Some IndirectByvalRewrite then a\<lparr>byref := True\<rparr> else a) }"

definition Win64TargetABI :: "FrontEnd \<Rightarrow> Triple \<Rightarrow> TargetABI" where
  "Win64TargetABI fe triple =
     (let isMSVC = isWindowsMSVCEnvironment triple in
      (defaultTargetABI fe triple Win64_callingConv (\<lambda>_. None))
       \<lparr>mangleFunctionForLLVM := Win64_mangleFunctionForLLVM,
        returnInArg := Win64_returnInArg fe isMSVC,
        preferPassByRef := Win64_preferPassByRef fe isMSVC,
        passByVal := \<lambda>_ _. False,
        passThisBeforeSret := \<lambda>tf. tf_linkage tf = LINK_cpp,
        rewriteFunctionType := Win64_rewriteFunctionType fe isMSVC,
        rewriteVarargs := \<lambda>fty. rewriteArgs (Win64_rewriteVararg fe isMSVC (fty_type fty))\<rparr>)"

section \<open>32-bit x86\<close>

definition returnStructsInRegs :: "Triple \<Rightarrow> bool" where
  "returnStructsInRegs triple = (\<not> (os triple = os_Linux \<or> os triple = os_Solaris \<or> os triple = os_NetBSD))"

definition X86_callingConv_link :: "LINK \<Rightarrow> CallingConv option" where
  "X86_callingConv_link l = Some (if l = LINK_d \<or> l = LINK_default \<or> l = LINK_windows then X86_StdCall else CC_C)"

definition X86_callingConv :: "bool \<Rightarrow> TypeFunction \<Rightarrow> bool \<Rightarrow> CallingConv option" where
  "X86_callingConv isMSVC tf withThisPtr =
     (if tf_varargs tf = VARARGvariadic then Some CC_C
      else if isMSVC \<and> tf_linkage tf = LINK_cpp \<and> withThisPtr then Some X86_ThisCall
      else X86_callingConv_link (tf_linkage tf))"

definition X86_mangleFunctionForLLVM :: "Triple \<Rightarrow> string \<Rightarrow> LINK \<Rightarrow> string" where
  "X86_mangleFunctionForLLVM triple name l =
     (if isOSWindows triple then
        if l = LINK_d \<or> l = LINK_default then CHR 0x01 # CHR ''_'' # name
        else if l = LINK_cpp \<and> take 1 name = ''?'' then CHR 0x01 # name
        else name
      else name)"

definition X86_mangleVariableForLLVM :: "Triple \<Rightarrow> string \<Rightarrow> LINK \<Rightarrow> string" where
  "X86_mangleVariableForLLVM triple name l =
     (if isOSWindows triple \<and> l = LINK_cpp \<and> take 1 name = ''?'' then CHR 0x01 # name else name)"

fun getExtraLoweredReturnType :: "Type \<Rightarrow> Type" where
  "getExtraLoweredReturnType (TypeEnum n b) =
     (if n = ''__c_complex_float'' then TypeBasic Tcomplex32
      else if n = ''__c_complex_double'' then TypeBasic Tcomplex64
      else if n = ''__c_complex_real'' then TypeBasic Tcomplex80
      else toBasetype (TypeEnum n b))"
| "getExtraLoweredReturnType t = toBasetype t"

definition X86_returnInArg :: "FrontEnd \<Rightarrow> Triple \<Rightarrow> TypeFunction \<Rightarrow> bool \<Rightarrow> bool" where
  "X86_returnInArg fe triple tf needsThis =
     (if isref tf then False
      else let rt = getExtraLoweredReturnType (tf_next tf); externD = isExternD tf;
               isMSVCpp = (isWindowsMSVCEnvironment triple \<and> tf_linkage tf = LINK_cpp) in
        if \<not> isAggregate rt then False
        else if iscomplex rt then (if externD then False else ty rt \<noteq> Tcomplex32)
        else if \<not> externD \<and> \<not> returnStructsInRegs triple then True
        else if isMSVCpp \<and> needsThis \<and> ty rt = Tstruct then True
        else if \<not> isPOD rt isMSVCpp then True
        else \<not> canRewriteAsInt fe rt True)"

definition X86_passByVal :: "Triple \<Rightarrow> TypeFunction \<Rightarrow> Type \<Rightarrow> bool" where
  "X86_passByVal triple tf t =
     (if \<not> (isWindowsMSVCEnvironment triple \<and> tf_linkage tf = LINK_cpp) \<and> \<not> isPOD t False then False
      else DtoIsInMemoryOnly t)"

definition X86_rewriteReturn :: "FrontEnd \<Rightarrow> IrFuncTy \<Rightarrow> IrFuncTyArg option" where
  "X86_rewriteReturn fe fty =
     (if skipReturnValueRewrite fty then Some (ret fty)
      else let rt = getExtraLoweredReturnType (tf_next (fty_type fty)) in
        if isAggregate rt \<and> canRewriteAsInt fe rt True \<and> \<not> (isExternD (fty_type fty) \<and> ty rt = Tcomplex32)
        then applyToIfNotObsolete fe IntegerRewrite None (ret fty)
        else Some (ret fty))"

definition X86_indirect :: "FrontEnd \<Rightarrow> IrFuncTyArg \<Rightarrow> IrFuncTyArg option" where
  "X86_indirect fe arg =
     (if \<not> byref arg \<and> \<not> isPOD (arg_type arg) False then applyTo fe IndirectByvalRewrite None arg else Some arg)"

definition putInReg :: "IrFuncTyArg \<Rightarrow> IrFuncTyArg" where
  "putInReg a = a\<lparr>attrs := addAttribute InReg (attrs a)\<rparr>"

definition X86_firstArg :: "FrontEnd \<Rightarrow> IrFuncTyArg \<Rightarrow> IrFuncTyArg option" where
  "X86_firstArg fe first =
     (if rewrite first = Some IndirectByvalRewrite \<or> byref first \<and> \<not> isByVal first then Some (putInReg first)
      else let firstTy = toBasetype (arg_type first); sz = fe_size fe firstTy in
        if \<not> isfloating firstTy \<and> (sz = 1 \<or> sz = 2 \<or> sz = 4) then
          if ty firstTy = Tstruct \<or> ty firstTy = Tsarray then do {
            a \<leftarrow> applyTo fe IntegerRewrite None first;
            Some (putInReg (a\<lparr>byref := False, attrs := noAttrs\<rparr>)) }
          else Some (putInReg first)
        else Some first)"

text \<open>\<open>extern(D)\<close>: one parameter is passed in \<open>EAX\<close>.\<close>

definition X86_passInEAX :: "FrontEnd \<Rightarrow> IrFuncTy \<Rightarrow> IrFuncTy option" where
  "X86_passInEAX fe fty =
     (case arg_this fty of
        Some a \<Rightarrow> Some (fty\<lparr>arg_this := Some (putInReg a)\<rparr>)
      | None \<Rightarrow> (case arg_nest fty of
          Some a \<Rightarrow> Some (fty\<lparr>arg_nest := Some (putInReg a)\<rparr>)
        | None \<Rightarrow> (case arg_sret fty of
            Some a \<Rightarrow> Some (fty\<lparr>arg_sret := Some (putInReg (a\<lparr>attrs := (attrs a)\<lparr>structRetType := None\<rparr>\<rparr>))\<rparr>)
          | None \<Rightarrow> (case args fty of
              [] \<Rightarrow> Some fty
            | first # rest \<Rightarrow> do { a \<leftarrow> X86_firstArg fe first; Some (fty\<lparr>args := a # rest\<rparr>) }))))"

definition workaroundIssue1356 :: "bool \<Rightarrow> IrFuncTyArg list \<Rightarrow> IrFuncTyArg list" where
  "workaroundIssue1356 isMSVC as =
     (if isMSVC then
        map (\<lambda>arg. if isByVal arg \<and> (case alignmentAttr (attrs arg) of Some n \<Rightarrow> n | None \<Rightarrow> 4) > 4
                   then arg\<lparr>attrs := addAlignmentAttr 4 (attrs arg)\<rparr> else arg) as
      else as)"

definition isEmptyStruct :: "Type \<Rightarrow> bool" where
  "isEmptyStruct t = (case structOf t of Some sd \<Rightarrow> sd_fields sd = [] | None \<Rightarrow> False)"

definition X86_rewriteFunctionType :: "FrontEnd \<Rightarrow> Triple \<Rightarrow> IrFuncTy \<Rightarrow> IrFuncTy option" where
  "X86_rewriteFunctionType fe triple fty = do {
     let externD = isExternD (fty_type fty);
     let isMSVC = isWindowsMSVCEnvironment triple;
     r \<leftarrow> X86_rewriteReturn fe fty;
     as \<leftarrow> (if \<not> (isMSVC \<and> tf_linkage (fty_type fty) = LINK_cpp) then rewriteArgs (X86_indirect fe) (args fty)
            else Some (args fty));
     fty \<leftarrow> (if externD then X86_passInEAX fe (fty\<lparr>ret := r, args := as\<rparr>)
             else Some (fty\<lparr>ret := r, args := as\<rparr>));
     let as = workaroundIssue1356 isMSVC (args fty);
     Some (fty\<lparr>args := if externD \<or> \<not> isOSDarwin triple then as
                       else filter (\<lambda>a. \<not> isEmptyStruct (toBasetype (arg_type a))) as\<rparr>) }"

definition X86TargetABI :: "FrontEnd \<Rightarrow> Triple \<Rightarrow> TargetABI" where
  "X86TargetABI fe triple =
     (let isMSVC = isWindowsMSVCEnvironment triple in
      (defaultTargetABI fe triple X86_callingConv_link Some)
       \<lparr>callingConv := X86_callingConv isMSVC,
        callingConv_fd := \<lambda>_. X86_callingConv isMSVC,
        mangleFunctionForLLVM := X86_mangleFunctionForLLVM triple,
        mangleVariableForLLVM := X86_mangleVariableForLLVM triple,
        returnInArg := X86_returnInArg fe triple,
        passByVal := X86_passByVal triple,
        rewriteFunctionType := X86_rewriteFunctionType fe triple,
        rewriteVarargs := \<lambda>fty as. map_option (workaroundIssue1356 isMSVC) (rewriteVarargs_default Some fty as)\<rparr>)"


section \<open>The contract of the interface\<close>

lemma Win64_rewrite_step: "stepOK fe a (Win64_rewrite fe isMSVC tf r a)"
  unfolding Win64_rewrite_def Let_def by (intro step_intros) (rule hfva_type)

interpretation win64: target_abi "Win64TargetABI fe triple" fe for fe triple
proof (rule pointwise_abi)
  let ?m = "isWindowsMSVCEnvironment triple"
  let ?R = "\<lambda>fty. if \<not> skipReturnValueRewrite fty then Win64_rewrite fe ?m (fty_type fty) True (ret fty) else Some (ret fty)"
  let ?G = "\<lambda>fty. unlessByref (Win64_rewrite fe ?m (fty_type fty) False)"
  show "rewriteFunctionType (Win64TargetABI fe triple) fty =
      do { r \<leftarrow> ?R fty; as \<leftarrow> rewriteArgs (?G fty) (args fty); Some (fty\<lparr>ret := r, args := as\<rparr>) }" for fty
    by (simp add: Win64TargetABI_def Win64_rewriteFunctionType_def Let_def)
  show "stepOK fe (ret fty) (?R fty)" for fty by (intro step_intros Win64_rewrite_step)
  show "r = ret fty" if "?R fty = Some r" "arg_type (ret fty) = TypeBasic Tvoid" for fty r
    using that by (auto simp: skipReturnValueRewrite_def Let_def split: if_splits)
  show "stepOK fe a (?G fty a)" for fty a by (intro step_intros Win64_rewrite_step)
qed


text \<open>
  32-bit x86 also marks an implicit parameter as passed in \<open>EAX\<close>, undoes the \<open>byval\<close> passing of
  a small first argument and drops empty structs.
\<close>

lemma argOK_putInReg [simp]: "argOK fe (putInReg a) = argOK fe a"
  by (simp add: putInReg_def)

lemma sameArg_putInReg [simp]: "sameArg a (putInReg b) = sameArg a b"
  by (simp add: putInReg_def sameArg_def)

lemma X86_firstArg_ok:
  assumes "X86_firstArg fe a = Some a'"
  shows "sameArg a a' \<and> (argOK fe a \<longrightarrow> argOK fe a')"
proof -
  consider b where "applyTo fe IntegerRewrite None a = Some b" "a' = putInReg (b\<lparr>byref := False, attrs := noAttrs\<rparr>)"
    | "a' = putInReg a" | "a' = a"
    using assms unfolding X86_firstArg_def Let_def by (auto split: Option.bind_splits if_splits)
  then show ?thesis
  proof cases
    case 1
    then show ?thesis
      by (auto simp: applyTo_def rewriteAttrs_def sameArg_def argOK_def putInReg_def split: Option.bind_splits)
  qed auto
qed

lemma sameOption_putInReg: "sameOption (Some a) (Some (putInReg a))"
  by (simp add: sameOption_def putInReg_def sameArg_def)

lemma sameOption_sret: "sameOption (Some a) (Some (putInReg (a\<lparr>attrs := x\<rparr>)))"
  by (simp add: sameOption_def putInReg_def sameArg_def)

lemma X86_passInEAX_ok:
  assumes "X86_passInEAX fe fty = Some fty'"
  shows "refines fe fty fty'"
proof -
  consider (this) a where "arg_this fty = Some a" "fty' = fty\<lparr>arg_this := Some (putInReg a)\<rparr>"
    | (nest) a where "arg_nest fty = Some a" "fty' = fty\<lparr>arg_nest := Some (putInReg a)\<rparr>"
    | (sret) a where "arg_sret fty = Some a"
        "fty' = fty\<lparr>arg_sret := Some (putInReg (a\<lparr>attrs := (attrs a)\<lparr>structRetType := None\<rparr>\<rparr>))\<rparr>"
    | (none) "fty' = fty"
    | (first) x rest a where "args fty = x # rest" "X86_firstArg fe x = Some a" "fty' = fty\<lparr>args := a # rest\<rparr>"
    using assms by (auto simp: X86_passInEAX_def split: option.splits list.splits Option.bind_splits)
  then show ?thesis
  proof cases
    case first
    with X86_firstArg_ok [OF first(2)] show ?thesis
      by (auto intro!: refines_args simp: list_all2_same)
  qed (simp_all add: refines_def signatureKept_def ftyOK_def sameOption_putInReg sameOption_sret)
qed

lemma workaround_ok: "list_all2 sameArg as (workaroundIssue1356 m as) \<and>
    ((\<forall>a\<in>set as. argOK fe a) \<longrightarrow> (\<forall>a\<in>set (workaroundIssue1356 m as). argOK fe a))"
proof (cases m)
  case True
  then show ?thesis
    unfolding workaroundIssue1356_def by (induction as) auto
qed (simp add: workaroundIssue1356_def list_all2_same)

interpretation x86: target_abi "X86TargetABI fe triple" fe for fe triple
proof (rule target_abiI)
  fix fty fty' assume "rewriteFunctionType (X86TargetABI fe triple) fty = Some fty'"
  then have def: "X86_rewriteFunctionType fe triple fty = Some fty'" by (simp add: X86TargetABI_def Let_def)
  let ?m = "isWindowsMSVCEnvironment triple" and ?d = "isExternD (fty_type fty)"
  let ?f = "if \<not> (?m \<and> tf_linkage (fty_type fty) = LINK_cpp) then X86_indirect fe else Some"
  have id: "rewriteArgs Some as = Some as" for as by (induction as) auto
  from def obtain r as f2 where r: "X86_rewriteReturn fe fty = Some r"
    and as: "rewriteArgs ?f (args fty) = Some as"
    and f2: "(if ?d then X86_passInEAX fe (fty\<lparr>ret := r, args := as\<rparr>) else Some (fty\<lparr>ret := r, args := as\<rparr>)) = Some f2"
    and fty': "fty' = f2\<lparr>args := if ?d \<or> \<not> isOSDarwin triple then workaroundIssue1356 ?m (args f2)
        else filter (\<lambda>a. \<not> isEmptyStruct (toBasetype (arg_type a))) (workaroundIssue1356 ?m (args f2))\<rparr>"
    unfolding X86_rewriteFunctionType_def Let_def by (auto simp: id split: Option.bind_splits if_splits)
  have "conforms fe fty (fty\<lparr>ret := r, args := as\<rparr>)"
  proof (rule conforms_pointwise [OF _ _ _ as])
    show "stepOK fe (ret fty) (Some r)"
      unfolding r [symmetric] X86_rewriteReturn_def Let_def by (intro step_intros)
    show "r = ret fty" if "arg_type (ret fty) = TypeBasic Tvoid"
      using r skip_void [OF that] by (simp add: X86_rewriteReturn_def)
    show "stepOK fe a (?f a)" for a
      by (auto simp: X86_indirect_def intro!: step_intros)
  qed
  moreover have "refines fe (fty\<lparr>ret := r, args := as\<rparr>) f2"
    using f2 X86_passInEAX_ok [of fe "fty\<lparr>ret := r, args := as\<rparr>" f2] refines_refl by (auto split: if_splits)
  moreover have "refines fe f2 (f2\<lparr>args := workaroundIssue1356 ?m (args f2)\<rparr>)"
    using workaround_ok [of "args f2" ?m fe] by (intro refines_args) auto
  moreover have "refines fe (f2\<lparr>args := workaroundIssue1356 ?m (args f2)\<rparr>) fty'"
    using refines_filter [of fe "f2\<lparr>args := workaroundIssue1356 ?m (args f2)\<rparr>"] refines_refl
    by (simp add: fty')
  ultimately show "conforms fe fty fty'" by (meson conforms_refines)
qed

end
