(* ===== verification/ArmABI.thy ===== *)
theory ArmABI
  imports TargetABI
begin

text \<open>
  The ABIs of 64-bit and 32-bit ARM (\<open>gen/abi/aarch64.cpp\<close>, \<open>gen/abi/arm.cpp\<close>).
\<close>

section \<open>AArch64\<close>

definition isAAPCS64VaList :: "Triple \<Rightarrow> Type \<Rightarrow> bool" where
  "isAAPCS64VaList triple t =
     (if isOSDarwin triple then False
      else case structOf t of
        Some sd \<Rightarrow> sd_ident (sd_info sd) = ''__va_list'' \<and> sd_nspace (sd_info sd) = Some ''std''
      | None \<Rightarrow> False)"

definition AArch64_returnInArg :: "FrontEnd \<Rightarrow> TypeFunction \<Rightarrow> bool" where
  "AArch64_returnInArg fe tf =
     (if isref tf then False
      else let rt = toBasetype (tf_next tf) in
        if ty rt = Tstruct \<or> ty rt = Tsarray
        then getArgTypes fe rt = None \<or> getArgTypes fe rt = Some []
        else False)"

definition AArch64_preferPassByRef :: "FrontEnd \<Rightarrow> Type \<Rightarrow> bool" where
  "AArch64_preferPassByRef fe t =
     (let t = toBasetype t in
      if \<not> (ty t = Tstruct \<or> ty t = Tsarray) then False else getArgTypes fe t = Some [])"

definition AArch64_rewriteArgument :: "FrontEnd \<Rightarrow> Triple \<Rightarrow> bool \<Rightarrow> IrFuncTyArg \<Rightarrow> IrFuncTyArg option" where
  "AArch64_rewriteArgument fe triple isReturnVal arg =
     (let t = toBasetype (arg_type arg) in
      if \<not> isAggregate t then Some arg
      else if \<not> isReturnVal \<and> isAAPCS64VaList triple t
      then Some (arg\<lparr>byref := True, ltype := PointerTy 0\<rparr>)
      else if getArgTypes fe t = None then Some arg
      else if getArgTypes fe t = Some [] then applyTo fe IndirectByvalRewrite None arg
      else do {
        rewrittenType \<leftarrow> getRewrittenArgType fe t (getArgTypes fe t);
        (case rewrittenType of
           None \<Rightarrow> Some arg
         | Some l \<Rightarrow> if isIntegerTy l then applyToIfNotObsolete fe ArgTypesRewrite (Some l) arg
                     else applyTo fe ArgTypesRewrite (Some l) arg) })"

definition AArch64_removed :: "FrontEnd \<Rightarrow> Triple \<Rightarrow> IrFuncTyArg \<Rightarrow> bool" where
  "AArch64_removed fe triple arg =
     (\<not> byref arg \<and>
       (let tb = toBasetype (arg_type arg) in
        fe_size fe tb = 0
      \<or> isOSDarwin triple \<and>
          (case structOf tb of Some sd \<Rightarrow> sd_fields sd = [] \<and> sd_isPOD (sd_info sd) | None \<Rightarrow> False)))"

definition AArch64_rewriteFunctionType :: "FrontEnd \<Rightarrow> Triple \<Rightarrow> IrFuncTy \<Rightarrow> IrFuncTy option" where
  "AArch64_rewriteFunctionType fe triple fty = do {
     r \<leftarrow> (if \<not> skipReturnValueRewrite fty then AArch64_rewriteArgument fe triple True (ret fty) else Some (ret fty));
     as \<leftarrow> rewriteArgs (unlessByref (AArch64_rewriteArgument fe triple False)) (args fty);
     Some (fty\<lparr>ret := r, args := filter (\<lambda>a. \<not> AArch64_removed fe triple a) as\<rparr>) }"

definition AArch64_objcMsgSendFunc :: "Triple \<Rightarrow> bool \<Rightarrow> string option" where
  "AArch64_objcMsgSendFunc triple directcall = do {
     ensure (isOSDarwin triple);
     Some (if directcall then ''objc_msgSendSuper'' else ''objc_msgSend'') }"

definition AArch64TargetABI :: "FrontEnd \<Rightarrow> Triple \<Rightarrow> TargetABI" where
  "AArch64TargetABI fe triple = (defaultTargetABI fe triple cc_default (AArch64_rewriteArgument fe triple False))
     \<lparr>returnInArg := \<lambda>tf _. AArch64_returnInArg fe tf,
      preferPassByRef := AArch64_preferPassByRef fe,
      passByVal := \<lambda>_ _. False,
      rewriteFunctionType := AArch64_rewriteFunctionType fe triple\<rparr>"

section \<open>32-bit ARM\<close>

definition Arm_returnInArg :: "FrontEnd \<Rightarrow> Triple \<Rightarrow> TypeFunction \<Rightarrow> bool" where
  "Arm_returnInArg fe triple tf =
     (if isref tf then False
      else let rt = toBasetype (tf_next tf) in
        if \<not> isPOD rt False then True
        else ty rt = Tsarray \<or> (ty rt = Tstruct \<and> fe_size fe rt > 4 \<and> (softFloatABI triple \<or> \<not> isHFVA fe rt 4)))"

definition passByVal64 :: "FrontEnd \<Rightarrow> Type \<Rightarrow> bool" where
  "passByVal64 fe t = (let t = toBasetype t in (ty t = Tsarray \<or> ty t = Tstruct) \<and> fe_size fe t > 64)"

definition Arm_rewriteReturn :: "FrontEnd \<Rightarrow> IrFuncTy \<Rightarrow> IrFuncTyArg option" where
  "Arm_rewriteReturn fe fty =
     (let retTy = toBasetype (arg_type (ret fty)) in
      if \<not> byref (ret fty) \<and> ty retTy = Tstruct then
        if isHFVA fe retTy 4 then do { l \<leftarrow> hfvaType fe retTy 4; applyTo fe (HFVAToArray 4) (Some l) (ret fty) }
        else applyTo fe IntegerRewrite None (ret fty)
      else Some (ret fty))"

definition Arm_rewriteArgument :: "FrontEnd \<Rightarrow> IrFuncTyArg \<Rightarrow> IrFuncTyArg option" where
  "Arm_rewriteArgument fe arg =
     (let t = toBasetype (arg_type arg) in
      if ty t = Tstruct then
        if isHFVA fe t 4 then do { l \<leftarrow> hfvaType fe t 4; applyTo fe (HFVAToArray 4) (Some l) arg }
        else if DtoAlignment fe t \<le> 4 then applyTo fe (CompositeToArray 4) None arg
        else applyTo fe (CompositeToArray 8) None arg
      else Some arg)"

definition Arm_rewriteFunctionType :: "FrontEnd \<Rightarrow> IrFuncTy \<Rightarrow> IrFuncTy option" where
  "Arm_rewriteFunctionType fe fty = do {
     r \<leftarrow> Arm_rewriteReturn fe fty;
     as \<leftarrow> rewriteArgs (unlessByref (Arm_rewriteArgument fe)) (args fty);
     Some (fty\<lparr>ret := r, args := as\<rparr>) }"

definition ArmTargetABI :: "FrontEnd \<Rightarrow> Triple \<Rightarrow> TargetABI" where
  "ArmTargetABI fe triple = (defaultTargetABI fe triple cc_default (Arm_rewriteArgument fe))
     \<lparr>returnInArg := \<lambda>tf _. Arm_returnInArg fe triple tf,
      passByVal := \<lambda>_. passByVal64 fe,
      rewriteFunctionType := Arm_rewriteFunctionType fe\<rparr>"

section \<open>The contract of the interface\<close>

lemma AArch64_rewriteArgument_step: "stepOK fe a (AArch64_rewriteArgument fe triple r a)"
proof -
  have vaList: "stepOK fe a (Some (a\<lparr>byref := True, ltype := PointerTy 0\<rparr>))" if "isAggregate (toBasetype (arg_type a))"
  proof -
    from that have "arg_type a \<noteq> TypeBasic Tvoid" by (auto simp: isAggregate_def iscomplexTY_def)
    then show ?thesis by (simp add: stepOK_def sameArg_def argFresh_def argOK_def)
  qed
  have case_ok: "stepOK fe a (case x of None \<Rightarrow> Some a
      | Some l \<Rightarrow> if isIntegerTy l then applyToIfNotObsolete fe ArgTypesRewrite (Some l) a
                  else applyTo fe ArgTypesRewrite (Some l) a)"
    if "getRewrittenArgType fe (toBasetype (arg_type a)) (getArgTypes fe (toBasetype (arg_type a))) = Some x" for x
    using argTypes_type that by (cases x) (auto intro!: step_intros)
  show ?thesis
    unfolding AArch64_rewriteArgument_def Let_def
    by (intro stepOK_if stepOK_bind step_intros vaList case_ok) auto
qed

interpretation aarch64: target_abi "AArch64TargetABI fe triple" fe for fe triple
proof (rule target_abiI)
  fix fty fty' assume "rewriteFunctionType (AArch64TargetABI fe triple) fty = Some fty'"
  then obtain r as where
    r: "(if \<not> skipReturnValueRewrite fty then AArch64_rewriteArgument fe triple True (ret fty) else Some (ret fty)) = Some r"
    and as: "rewriteArgs (unlessByref (AArch64_rewriteArgument fe triple False)) (args fty) = Some as"
    and fty': "fty' = fty\<lparr>ret := r, args := filter (\<lambda>a. \<not> AArch64_removed fe triple a) as\<rparr>"
    by (auto simp: AArch64TargetABI_def AArch64_rewriteFunctionType_def split: Option.bind_splits)
  have "conforms fe fty (fty\<lparr>ret := r, args := as\<rparr>)"
  proof (rule conforms_pointwise [OF _ _ _ as])
    show "stepOK fe (ret fty) (Some r)"
      unfolding r [symmetric] by (intro stepOK_if AArch64_rewriteArgument_step stepOK_Some)
    show "r = ret fty" if "arg_type (ret fty) = TypeBasic Tvoid" using r skip_void [OF that] by simp
    show "stepOK fe a (unlessByref (AArch64_rewriteArgument fe triple False) a)" for a
      by (rule stepOK_unlessByref) (rule AArch64_rewriteArgument_step)
  qed
  then show "conforms fe fty fty'"
    using refines_filter [of fe "fty\<lparr>ret := r, args := as\<rparr>" "\<lambda>a. \<not> AArch64_removed fe triple a"]
    by (auto simp: fty' intro: conforms_refines)
qed

interpretation arm: target_abi "ArmTargetABI fe triple" fe for fe triple
proof (rule pointwise_abi)
  show "rewriteFunctionType (ArmTargetABI fe triple) fty =
      do { r \<leftarrow> Arm_rewriteReturn fe fty; as \<leftarrow> rewriteArgs (unlessByref (Arm_rewriteArgument fe)) (args fty);
           Some (fty\<lparr>ret := r, args := as\<rparr>) }" for fty
    by (simp add: ArmTargetABI_def Arm_rewriteFunctionType_def)
  show "stepOK fe (ret fty) (Arm_rewriteReturn fe fty)" for fty
    unfolding Arm_rewriteReturn_def Let_def by (intro step_intros) (rule hfva_type)
  show "r = ret fty" if "Arm_rewriteReturn fe fty = Some r" "arg_type (ret fty) = TypeBasic Tvoid" for fty r
    using that by (simp add: Arm_rewriteReturn_def)
  show "stepOK fe a (unlessByref (Arm_rewriteArgument fe) a)" for fty :: IrFuncTy and a
    unfolding Arm_rewriteArgument_def Let_def by (intro step_intros) (rule hfva_type)
qed

end
