(* ===== verification/OtherABIs.thy ===== *)
theory OtherABIs
  imports TargetABI
begin

text \<open>
  The ABIs of the remaining targets: RISC-V (\<open>gen/abi/riscv64.cpp\<close>), LoongArch
  (\<open>gen/abi/loongarch64.cpp\<close>), PowerPC (\<open>gen/abi/ppc.cpp\<close>, \<open>gen/abi/ppc64le.cpp\<close>), MIPS
  (\<open>gen/abi/mips64.cpp\<close>), WebAssembly (\<open>gen/abi/wasm.cpp\<close>) and the two device targets
  (\<open>gen/abi/nvptx.cpp\<close>, \<open>gen/abi/spirv.cpp\<close>).
\<close>

section \<open>RISC-V\<close>

definition RISCV64_returnInArg :: "FrontEnd \<Rightarrow> TypeFunction \<Rightarrow> bool" where
  "RISCV64_returnInArg fe tf =
     (if isref tf then False
      else let rt = toBasetype (tf_next tf) in
        if fe_size fe rt = 0 then False
        else if \<not> isPOD rt False then True
        else fe_size fe rt > 16)"

definition RISCV64_passByVal :: "FrontEnd \<Rightarrow> Type \<Rightarrow> bool" where
  "RISCV64_passByVal fe t =
     (if fe_size fe t = 0 then False
      else if ty (toBasetype t) = Tcomplex80 then False
      else fe_size fe t > 16)"

definition rewriteSmallAggregate :: "FrontEnd \<Rightarrow> Type \<Rightarrow> IrFuncTyArg \<Rightarrow> IrFuncTyArg option" where
  "rewriteSmallAggregate fe t arg =
     (if isAggregate t \<and> fe_size fe t \<noteq> 0 \<and> fe_size fe t \<le> 16 then
        if fe_size fe t > 8 \<and> DtoAlignment fe t < 16
        then applyToIfNotObsolete fe Integer2Rewrite None arg
        else applyToIfNotObsolete fe IntegerRewrite None arg
      else Some arg)"

definition RISCV64_rewriteArgument :: "FrontEnd \<Rightarrow> IrFuncTyArg \<Rightarrow> IrFuncTyArg option" where
  "RISCV64_rewriteArgument fe arg =
     (if byref arg then Some arg
      else let t = toBasetype (arg_type arg) in
        if ty t = Tcomplex80 then applyTo fe IndirectByvalRewrite None arg
        else if \<not> isPOD (arg_type arg) False then applyTo fe IndirectByvalRewrite None arg
        else rewriteSmallAggregate fe t arg)"

definition RISCV64_rewriteValue :: "FrontEnd \<Rightarrow> IrFuncTyArg \<Rightarrow> IrFuncTyArg option" where
  "RISCV64_rewriteValue fe arg =
     (if \<not> byref arg \<and> isPOD (arg_type arg) False \<and> requireHardfloatRewrite fe (arg_type arg)
      then applyTo fe HardfloatRewrite_RISCV64 None arg
      else RISCV64_rewriteArgument fe arg)"

definition RISCV64_rewriteFunctionType :: "FrontEnd \<Rightarrow> IrFuncTy \<Rightarrow> IrFuncTy option" where
  "RISCV64_rewriteFunctionType fe fty = do {
     r \<leftarrow> (if \<not> byref (ret fty) \<and> \<not> skipReturnValueRewrite fty then RISCV64_rewriteValue fe (ret fty) else Some (ret fty));
     as \<leftarrow> rewriteArgs (RISCV64_rewriteValue fe) (args fty);
     Some (fty\<lparr>ret := r, args := as\<rparr>) }"

definition RISCV64TargetABI :: "FrontEnd \<Rightarrow> Triple \<Rightarrow> TargetABI" where
  "RISCV64TargetABI fe triple = (defaultTargetABI fe triple cc_default (RISCV64_rewriteArgument fe))
     \<lparr>returnInArg := \<lambda>tf _. RISCV64_returnInArg fe tf,
      passByVal := \<lambda>_. RISCV64_passByVal fe,
      rewriteFunctionType := RISCV64_rewriteFunctionType fe\<rparr>"

section \<open>LoongArch\<close>

definition LoongArch64_returnInArg :: "FrontEnd \<Rightarrow> TypeFunction \<Rightarrow> bool" where
  "LoongArch64_returnInArg fe tf =
     (if isref tf then False
      else let rt = toBasetype (tf_next tf) in
        if \<not> isPOD rt False then True else fe_size fe rt > 16)"

definition LoongArch64_passByVal :: "FrontEnd \<Rightarrow> Type \<Rightarrow> bool" where
  "LoongArch64_passByVal fe t = (if \<not> isPOD t False then False else fe_size fe t > 16)"

definition LoongArch64_rewriteArgument :: "FrontEnd \<Rightarrow> IrFuncTyArg \<Rightarrow> IrFuncTyArg option" where
  "LoongArch64_rewriteArgument fe arg =
     (if \<not> isPOD (arg_type arg) False then applyTo fe IndirectByvalRewrite None arg
      else let t = toBasetype (arg_type arg) in
        if isintegral t \<and> (ty t = Tint32 \<or> ty t = Tuns32 \<or> ty t = Tdchar)
        then Some (arg\<lparr>attrs := addAttribute SExt (attrs arg)\<rparr>)
        else rewriteSmallAggregate fe t arg)"

definition LoongArch64_rewriteValue :: "FrontEnd \<Rightarrow> IrFuncTyArg \<Rightarrow> IrFuncTyArg option" where
  "LoongArch64_rewriteValue fe arg =
     (if isPOD (arg_type arg) False \<and> requireHardfloatRewrite fe (arg_type arg)
      then applyTo fe HardfloatRewrite_LoongArch64 None arg
      else LoongArch64_rewriteArgument fe arg)"

definition LoongArch64_rewriteFunctionType :: "FrontEnd \<Rightarrow> IrFuncTy \<Rightarrow> IrFuncTy option" where
  "LoongArch64_rewriteFunctionType fe fty = do {
     r \<leftarrow> (if \<not> skipReturnValueRewrite fty then LoongArch64_rewriteValue fe (ret fty) else Some (ret fty));
     as \<leftarrow> rewriteArgs (unlessByref (LoongArch64_rewriteValue fe)) (args fty);
     Some (fty\<lparr>ret := r, args := as\<rparr>) }"

definition LoongArch64TargetABI :: "FrontEnd \<Rightarrow> Triple \<Rightarrow> TargetABI" where
  "LoongArch64TargetABI fe triple = (defaultTargetABI fe triple cc_default (LoongArch64_rewriteArgument fe))
     \<lparr>returnInArg := \<lambda>tf _. LoongArch64_returnInArg fe tf,
      passByVal := \<lambda>_. LoongArch64_passByVal fe,
      rewriteFunctionType := LoongArch64_rewriteFunctionType fe\<rparr>"

section \<open>PowerPC\<close>

definition PPC_returnInArg :: "TypeFunction \<Rightarrow> bool" where
  "PPC_returnInArg tf =
     (if isref tf then False else let rt = toBasetype (tf_next tf) in ty rt = Tsarray \<or> ty rt = Tstruct)"

definition PPC_passByVal :: "FrontEnd \<Rightarrow> bool \<Rightarrow> Type \<Rightarrow> bool" where
  "PPC_passByVal fe Is64Bit t =
     (let t = toBasetype t in (ty t = Tsarray \<or> ty t = Tstruct) \<and> (\<not> Is64Bit \<or> fe_size fe t > 64))"

definition extendIntegral :: "Type \<Rightarrow> IrFuncTyArg \<Rightarrow> IrFuncTyArg option" where
  "extendIntegral t arg =
     (if isintegral t then Some (arg\<lparr>attrs := addAttribute (if isunsigned t then ZExt else SExt) (attrs arg)\<rparr>)
      else Some arg)"

definition PPC_rewriteArgument :: "FrontEnd \<Rightarrow> bool \<Rightarrow> IrFuncTyArg \<Rightarrow> IrFuncTyArg option" where
  "PPC_rewriteArgument fe Is64Bit arg =
     (let t = toBasetype (arg_type arg) in
      if ty t = Tstruct \<or> ty t = Tsarray then
        if canRewriteAsInt fe t Is64Bit then applyTo fe IntegerRewrite None arg
        else if Is64Bit then applyTo fe (CompositeToArray 8) None arg
        else applyTo fe (CompositeToArray 4) None arg
      else extendIntegral t arg)"

definition rewriteAllValues :: "(IrFuncTyArg \<Rightarrow> IrFuncTyArg option) \<Rightarrow> IrFuncTy \<Rightarrow> IrFuncTy option" where
  "rewriteAllValues f fty = do {
     r \<leftarrow> unlessByref f (ret fty);
     as \<leftarrow> rewriteArgs (unlessByref f) (args fty);
     Some (fty\<lparr>ret := r, args := as\<rparr>) }"

definition PPCTargetABI :: "FrontEnd \<Rightarrow> Triple \<Rightarrow> TargetABI" where
  "PPCTargetABI fe triple =
     (let Is64Bit = isArch64Bit triple in
      (defaultTargetABI fe triple cc_default (PPC_rewriteArgument fe Is64Bit))
       \<lparr>returnInArg := \<lambda>tf _. PPC_returnInArg tf,
        passByVal := \<lambda>_. PPC_passByVal fe Is64Bit,
        rewriteFunctionType := rewriteAllValues (PPC_rewriteArgument fe Is64Bit)\<rparr>)"

definition PPC64LE_passByVal :: "FrontEnd \<Rightarrow> Type \<Rightarrow> bool" where
  "PPC64LE_passByVal fe t =
     (let t = toBasetype t in ty t = Tsarray \<or> (ty t = Tstruct \<and> fe_size fe t > 16 \<and> \<not> isHFVA fe t 8))"

definition PPC64LE_returnInArg :: "FrontEnd \<Rightarrow> TypeFunction \<Rightarrow> bool" where
  "PPC64LE_returnInArg fe tf =
     (if isref tf then False
      else let rt = toBasetype (tf_next tf) in if \<not> isPOD rt False then True else PPC64LE_passByVal fe rt)"

definition PPC64LE_rewriteArgument :: "FrontEnd \<Rightarrow> IrFuncTyArg \<Rightarrow> IrFuncTyArg option" where
  "PPC64LE_rewriteArgument fe arg =
     (let t = toBasetype (arg_type arg) in
      if ty t = Tstruct \<or> ty t = Tsarray then
        if ty t = Tstruct \<and> isHFVA fe t 8
        then do { l \<leftarrow> hfvaType fe t 8; applyTo fe (HFVAToArray 8) (Some l) arg }
        else if canRewriteAsInt fe t True then applyTo fe IntegerRewrite None arg
        else applyTo fe (CompositeToArray 8) None arg
      else extendIntegral t arg)"

definition PPC64LETargetABI :: "FrontEnd \<Rightarrow> Triple \<Rightarrow> TargetABI" where
  "PPC64LETargetABI fe triple = (defaultTargetABI fe triple cc_default (PPC64LE_rewriteArgument fe))
     \<lparr>returnInArg := \<lambda>tf _. PPC64LE_returnInArg fe tf,
      passByVal := \<lambda>_. PPC64LE_passByVal fe,
      rewriteFunctionType := rewriteAllValues (PPC64LE_rewriteArgument fe)\<rparr>"

section \<open>MIPS\<close>

definition MIPS64_returnInArg :: "TypeFunction \<Rightarrow> bool" where
  "MIPS64_returnInArg tf =
     (if isref tf then False
      else let rt = toBasetype (tf_next tf) in
        if \<not> isPOD rt False then True else ty rt = Tstruct \<or> ty rt = Tsarray)"

definition MIPS64_passByVal :: "Type \<Rightarrow> bool" where
  "MIPS64_passByVal t = (let t = ty (toBasetype t) in t = Tstruct \<or> t = Tsarray)"

definition MIPS64TargetABI :: "FrontEnd \<Rightarrow> Triple \<Rightarrow> TargetABI" where
  "MIPS64TargetABI fe triple = (defaultTargetABI fe triple cc_default Some)
     \<lparr>returnInArg := \<lambda>tf _. MIPS64_returnInArg tf,
      passByVal := \<lambda>_. MIPS64_passByVal,
      rewriteFunctionType := rewriteAllValues Some\<rparr>"

section \<open>WebAssembly\<close>

fun getSingleWrappedScalarType :: "Type \<Rightarrow> Type option" where
  "getSingleWrappedScalarType (TypeStruct (StructDeclaration info at [Field v t])) = getSingleWrappedScalarType t"
| "getSingleWrappedScalarType (TypeStruct sd) = None"
| "getSingleWrappedScalarType (TypeSArray t dim) = (if dim \<noteq> 1 then None else getSingleWrappedScalarType t)"
| "getSingleWrappedScalarType (TypeEnum n (Some t)) = getSingleWrappedScalarType t"
| "getSingleWrappedScalarType t = (if isscalar t \<or> ty t = Tclass \<or> ty t = Taarray then Some t else None)"

definition isDirectlyPassedAggregate :: "FrontEnd \<Rightarrow> Type \<Rightarrow> bool" where
  "isDirectlyPassedAggregate fe t =
     (if \<not> DtoIsInMemoryOnly t then False
      else if fe_size fe t > 16 \<or> \<not> isPOD t False then False
      else case getSingleWrappedScalarType t of
        None \<Rightarrow> False
      | Some s \<Rightarrow> DtoAlignment fe t \<le> DtoAlignment fe s)"

definition Wasm_passByVal :: "FrontEnd \<Rightarrow> Type \<Rightarrow> bool" where
  "Wasm_passByVal fe t = (DtoIsInMemoryOnly t \<and> \<not> isDirectlyPassedAggregate fe t)"

definition Wasm_returnInArg :: "FrontEnd \<Rightarrow> TypeFunction \<Rightarrow> bool" where
  "Wasm_returnInArg fe tf = (if isref tf then False else Wasm_passByVal fe (toBasetype (tf_next tf)))"

definition WasmTargetABI :: "FrontEnd \<Rightarrow> Triple \<Rightarrow> TargetABI" where
  "WasmTargetABI fe triple = (defaultTargetABI fe triple cc_default Some)
     \<lparr>returnInArg := \<lambda>tf _. Wasm_returnInArg fe tf,
      passByVal := \<lambda>_. Wasm_passByVal fe\<rparr>"

section \<open>Device targets\<close>

definition isDcomputePointer :: "Type \<Rightarrow> bool" where
  "isDcomputePointer t = (case structOf t of Some sd \<Rightarrow> sd_dcomputePointer (sd_info sd) \<noteq> None | None \<Rightarrow> False)"

definition dcompute_rewriteArgument :: "FrontEnd \<Rightarrow> IrFuncTyArg \<Rightarrow> IrFuncTyArg option" where
  "dcompute_rewriteArgument fe arg =
     (if isDcomputePointer (toBasetype (arg_type arg)) then applyTo fe DComputePointerRewrite None arg else Some arg)"

definition dcompute_passByVal :: "FrontEnd \<Rightarrow> Type \<Rightarrow> bool" where
  "dcompute_passByVal fe t = (let t = toBasetype t in (ty t = Tsarray \<or> ty t = Tstruct) \<and> fe_size fe t > 64)"

definition device_callingConv :: "CallingConv \<Rightarrow> LINK \<Rightarrow> CallingConv option" where
  "device_callingConv cc l = (if l = LINK_c then Some cc else None)"

definition NVPTX_returnInArg :: "TypeFunction \<Rightarrow> bool" where
  "NVPTX_returnInArg tf = (\<not> isref tf \<and> DtoIsInMemoryOnly (tf_next tf))"

definition NVPTX_rewriteFunctionType :: "FrontEnd \<Rightarrow> IrFuncTy \<Rightarrow> IrFuncTy option" where
  "NVPTX_rewriteFunctionType fe fty = do {
     as \<leftarrow> rewriteArgs (unlessByref (dcompute_rewriteArgument fe)) (args fty);
     Some (fty\<lparr>args := as\<rparr>) }"

definition NVPTXTargetABI :: "FrontEnd \<Rightarrow> Triple \<Rightarrow> TargetABI" where
  "NVPTXTargetABI fe triple = (defaultTargetABI fe triple (device_callingConv PTX_Device) (dcompute_rewriteArgument fe))
     \<lparr>callingConv_fd := \<lambda>hasKernelAttr _ _. Some (if hasKernelAttr then PTX_Kernel else PTX_Device),
      returnInArg := \<lambda>tf _. NVPTX_returnInArg tf,
      passByVal := \<lambda>_. dcompute_passByVal fe,
      rewriteFunctionType := NVPTX_rewriteFunctionType fe,
      needsUnwindTables := False\<rparr>"

definition SPIRV_returnInArg :: "TypeFunction \<Rightarrow> bool" where
  "SPIRV_returnInArg tf =
     (if isref tf then False
      else let retty = toBasetype (tf_next tf) in
        if ty retty = Tsarray then True
        else if ty retty = Tstruct then \<not> isDcomputePointer retty
        else False)"

definition SPIRV_rewriteFunctionType :: "FrontEnd \<Rightarrow> IrFuncTy \<Rightarrow> IrFuncTy option" where
  "SPIRV_rewriteFunctionType fe fty = do {
     as \<leftarrow> rewriteArgs (unlessByref (dcompute_rewriteArgument fe)) (args fty);
     r \<leftarrow> (if \<not> skipReturnValueRewrite fty then dcompute_rewriteArgument fe (ret fty) else Some (ret fty));
     Some (fty\<lparr>ret := r, args := as\<rparr>) }"

definition SPIRVTargetABI :: "FrontEnd \<Rightarrow> Triple \<Rightarrow> TargetABI" where
  "SPIRVTargetABI fe triple = (defaultTargetABI fe triple (device_callingConv SPIR_FUNC) (dcompute_rewriteArgument fe))
     \<lparr>callingConv_fd := \<lambda>hasKernelAttr _ _. Some (if hasKernelAttr then SPIR_KERNEL else SPIR_FUNC),
      returnInArg := \<lambda>tf _. SPIRV_returnInArg tf,
      passByVal := \<lambda>_. dcompute_passByVal fe,
      rewriteFunctionType := SPIRV_rewriteFunctionType fe,
      needsUnwindTables := False\<rparr>"

section \<open>The contract of the interface\<close>

lemma extendIntegral_step [step_intros]: "stepOK fe a (extendIntegral t a)"
  unfolding extendIntegral_def by (intro step_intros)

lemma rewriteSmallAggregate_step [step_intros]: "stepOK fe a (rewriteSmallAggregate fe t a)"
  unfolding rewriteSmallAggregate_def by (intro step_intros)

lemma RISCV64_step [step_intros]: "stepOK fe a (RISCV64_rewriteValue fe a)"
  unfolding RISCV64_rewriteValue_def RISCV64_rewriteArgument_def Let_def by (intro step_intros)

lemma LoongArch64_step [step_intros]: "stepOK fe a (LoongArch64_rewriteValue fe a)"
  unfolding LoongArch64_rewriteValue_def LoongArch64_rewriteArgument_def Let_def by (intro step_intros)

lemma PPC_step [step_intros]: "stepOK fe a (PPC_rewriteArgument fe b a)"
  unfolding PPC_rewriteArgument_def Let_def by (intro step_intros)

lemma PPC64LE_step [step_intros]: "stepOK fe a (PPC64LE_rewriteArgument fe a)"
  unfolding PPC64LE_rewriteArgument_def Let_def by (intro step_intros) (rule hfva_type)

lemma dcompute_step [step_intros]: "stepOK fe a (dcompute_rewriteArgument fe a)"
  unfolding dcompute_rewriteArgument_def by (intro step_intros)

interpretation riscv64: target_abi "RISCV64TargetABI fe triple" fe for fe triple
proof (rule pointwise_abi)
  let ?R = "\<lambda>fty. if \<not> byref (ret fty) \<and> \<not> skipReturnValueRewrite fty then RISCV64_rewriteValue fe (ret fty) else Some (ret fty)"
  show "rewriteFunctionType (RISCV64TargetABI fe triple) fty =
      do { r \<leftarrow> ?R fty; as \<leftarrow> rewriteArgs (RISCV64_rewriteValue fe) (args fty); Some (fty\<lparr>ret := r, args := as\<rparr>) }" for fty
    by (simp add: RISCV64TargetABI_def RISCV64_rewriteFunctionType_def)
  show "stepOK fe (ret fty) (?R fty)" for fty by (intro step_intros)
  show "r = ret fty" if "?R fty = Some r" "arg_type (ret fty) = TypeBasic Tvoid" for fty r
    using that skip_void by simp
  show "stepOK fe a (RISCV64_rewriteValue fe a)" for fty :: IrFuncTy and a by (intro step_intros)
qed

interpretation loongarch64: target_abi "LoongArch64TargetABI fe triple" fe for fe triple
proof (rule pointwise_abi)
  let ?R = "\<lambda>fty. if \<not> skipReturnValueRewrite fty then LoongArch64_rewriteValue fe (ret fty) else Some (ret fty)"
  show "rewriteFunctionType (LoongArch64TargetABI fe triple) fty =
      do { r \<leftarrow> ?R fty; as \<leftarrow> rewriteArgs (unlessByref (LoongArch64_rewriteValue fe)) (args fty);
           Some (fty\<lparr>ret := r, args := as\<rparr>) }" for fty
    by (simp add: LoongArch64TargetABI_def LoongArch64_rewriteFunctionType_def)
  show "stepOK fe (ret fty) (?R fty)" for fty by (intro step_intros)
  show "r = ret fty" if "?R fty = Some r" "arg_type (ret fty) = TypeBasic Tvoid" for fty r
    using that skip_void by simp
  show "stepOK fe a (unlessByref (LoongArch64_rewriteValue fe) a)" for fty :: IrFuncTy and a by (intro step_intros)
qed

lemma allValues_abi:
  assumes "\<And>fty. rewriteFunctionType abi fty = rewriteAllValues f fty" "\<And>a. stepOK fe a (f a)"
    and "\<And>a a'. f a = Some a' \<Longrightarrow> arg_type a = TypeBasic Tvoid \<Longrightarrow> a' = a"
  shows "target_abi abi fe"
  by (rule pointwise_abi [where R = "\<lambda>fty. unlessByref f (ret fty)" and G = "\<lambda>_. unlessByref f"])
     (use assms in \<open>auto simp: rewriteAllValues_def unlessByref_def stepOK_Some split: if_splits\<close>)

lemma PPC_void: "PPC_rewriteArgument fe b a = Some a' \<Longrightarrow> arg_type a = TypeBasic Tvoid \<Longrightarrow> a' = a"
  by (simp add: PPC_rewriteArgument_def Let_def extendIntegral_def isintegral_def isintegralTY_def)

lemma PPC64LE_void: "PPC64LE_rewriteArgument fe a = Some a' \<Longrightarrow> arg_type a = TypeBasic Tvoid \<Longrightarrow> a' = a"
  by (simp add: PPC64LE_rewriteArgument_def Let_def extendIntegral_def isintegral_def isintegralTY_def)

interpretation ppc: target_abi "PPCTargetABI fe triple" fe for fe triple
  by (rule allValues_abi [where f = "PPC_rewriteArgument fe (isArch64Bit triple)"])
     (auto simp: PPCTargetABI_def Let_def PPC_step dest: PPC_void)

interpretation ppc64le: target_abi "PPC64LETargetABI fe triple" fe for fe triple
  by (rule allValues_abi [where f = "PPC64LE_rewriteArgument fe"])
     (auto simp: PPC64LETargetABI_def Let_def PPC64LE_step dest: PPC64LE_void)

interpretation mips64: target_abi "MIPS64TargetABI fe triple" fe for fe triple
  by (rule allValues_abi [where f = Some]) (auto simp: MIPS64TargetABI_def stepOK_Some)

interpretation wasm: target_abi "WasmTargetABI fe triple" fe for fe triple
  by (rule target_abiI)
     (auto simp: WasmTargetABI_def defaultTargetABI_def conforms_def signatureKept_def ftyFresh_def ftyOK_def argFresh_def)

lemma void_not_dcompute: "dcompute_rewriteArgument fe a = Some a' \<Longrightarrow> arg_type a = TypeBasic Tvoid \<Longrightarrow> a' = a"
  by (simp add: dcompute_rewriteArgument_def isDcomputePointer_def)

interpretation nvptx: target_abi "NVPTXTargetABI fe triple" fe for fe triple
proof (rule pointwise_abi)
  show "rewriteFunctionType (NVPTXTargetABI fe triple) fty =
      do { r \<leftarrow> Some (ret fty); as \<leftarrow> rewriteArgs (unlessByref (dcompute_rewriteArgument fe)) (args fty);
           Some (fty\<lparr>ret := r, args := as\<rparr>) }" for fty
    by (simp add: NVPTXTargetABI_def NVPTX_rewriteFunctionType_def)
  show "stepOK fe a (unlessByref (dcompute_rewriteArgument fe) a)" for fty :: IrFuncTy and a by (intro step_intros)
qed (auto simp: stepOK_Some)

interpretation spirv: target_abi "SPIRVTargetABI fe triple" fe for fe triple
proof (rule pointwise_abi)
  let ?R = "\<lambda>fty. if \<not> skipReturnValueRewrite fty then dcompute_rewriteArgument fe (ret fty) else Some (ret fty)"
  show "rewriteFunctionType (SPIRVTargetABI fe triple) fty =
      do { r \<leftarrow> ?R fty; as \<leftarrow> rewriteArgs (unlessByref (dcompute_rewriteArgument fe)) (args fty);
           Some (fty\<lparr>ret := r, args := as\<rparr>) }" for fty
    by (cases "rewriteArgs (unlessByref (dcompute_rewriteArgument fe)) (args fty)"; cases "?R fty")
       (simp_all add: SPIRVTargetABI_def SPIRV_rewriteFunctionType_def)
  show "stepOK fe (ret fty) (?R fty)" for fty by (intro step_intros)
  show "r = ret fty" if "?R fty = Some r" "arg_type (ret fty) = TypeBasic Tvoid" for fty r
    using that skip_void by simp
  show "stepOK fe a (unlessByref (dcompute_rewriteArgument fe) a)" for fty :: IrFuncTy and a by (intro step_intros)
qed

end
