(* ===== verification/FunctionType.thy ===== *)
theory FunctionType
  imports X86_64ABI WindowsABI ArmABI OtherABIs
begin

text \<open>
  The translation of D function types to LLVM function types (\<open>DtoFunctionType\<close> in
  \<open>gen/functions.cpp\<close>) over the calling convention of the target, which \<open>TargetABI::getTarget\<close>
  (\<open>gen/abi/abi.cpp\<close>) selects.

  \<open>irFty.funcType\<close>, the cached result, is \<open>None\<close> before the first translation. A function
  declaration is the record of what the code reads of it; the translation may set its
  Objective-C selector and report errors, so both are part of the state.
\<close>

section \<open>Selection of the target\<close>

definition getTarget :: "FrontEnd \<Rightarrow> Triple \<Rightarrow> TargetABI" where
  "getTarget fe triple =
     (case arch triple of
        arch_x86 \<Rightarrow> X86TargetABI fe triple
      | arch_x86_64 \<Rightarrow> if isOSWindows triple then Win64TargetABI fe triple else X86_64TargetABI fe triple
      | arch_mips \<Rightarrow> MIPS64TargetABI fe triple
      | arch_mipsel \<Rightarrow> MIPS64TargetABI fe triple
      | arch_mips64 \<Rightarrow> MIPS64TargetABI fe triple
      | arch_mips64el \<Rightarrow> MIPS64TargetABI fe triple
      | arch_riscv64 \<Rightarrow> RISCV64TargetABI fe triple
      | arch_ppc \<Rightarrow> PPCTargetABI fe triple
      | arch_ppc64 \<Rightarrow> PPCTargetABI fe triple
      | arch_ppc64le \<Rightarrow> PPC64LETargetABI fe triple
      | arch_aarch64 \<Rightarrow> AArch64TargetABI fe triple
      | arch_aarch64_be \<Rightarrow> AArch64TargetABI fe triple
      | arch_arm \<Rightarrow> ArmTargetABI fe triple
      | arch_armeb \<Rightarrow> ArmTargetABI fe triple
      | arch_thumb \<Rightarrow> ArmTargetABI fe triple
      | arch_thumbeb \<Rightarrow> ArmTargetABI fe triple
      | arch_loongarch64 \<Rightarrow> LoongArch64TargetABI fe triple
      | arch_wasm32 \<Rightarrow> WasmTargetABI fe triple
      | arch_wasm64 \<Rightarrow> WasmTargetABI fe triple
      | arch_other \<Rightarrow> UnknownTargetABI fe triple)"

lemma getTarget_abi: "target_abi (getTarget fe triple) fe"
  by (cases "arch triple")
     (simp_all add: getTarget_def x86.target_abi_axioms win64.target_abi_axioms x86_64.target_abi_axioms
       mips64.target_abi_axioms riscv64.target_abi_axioms ppc.target_abi_axioms ppc64le.target_abi_axioms
       aarch64.target_abi_axioms arm.target_abi_axioms loongarch64.target_abi_axioms wasm.target_abi_axioms
       unknown.target_abi_axioms)

interpretation chosen: target_abi "getTarget fe triple" fe for fe triple
  by (rule getTarget_abi)

section \<open>Function declarations\<close>

record FuncDeclaration =
  fd_type :: TypeFunction
  fd_isMain :: bool
  fd_isCMain :: bool
  fd_needThis :: bool
  fd_isMember2 :: "Type option"
  fd_isNested :: bool
  fd_isContract :: bool
  fd_isCtor :: bool
  fd_isIntrinsic :: bool
  fd_linkage :: LINK
  fd_objcSelector :: bool
  fd_parentIsClass :: bool
  fd_isFinal :: bool
  fd_isproperty :: bool

definition isAnyMainFunction :: "FuncDeclaration \<Rightarrow> bool" where
  "isAnyMainFunction fd = (fd_isMain fd \<or> fd_isCMain fd)"

text \<open>The guard \<open>fd && p(fd)\<close>.\<close>

definition onDecl :: "(FuncDeclaration \<Rightarrow> bool) \<Rightarrow> FuncDeclaration option \<Rightarrow> bool" where
  "onDecl p fd = (case fd of None \<Rightarrow> False | Some d \<Rightarrow> p d)"

record LLFunctionType =
  ll_ret :: LLType
  ll_params :: "LLType list"
  ll_isVarArg :: bool

text \<open>
  What the code reads of the compiler's globals: the front end and target facts, \<open>gABI\<close>, the
  ABI of intrinsics and the option \<open>-fno-delete-null-pointer-checks\<close>.
\<close>

record CodeGen =
  cg_fe :: FrontEnd
  gABI :: TargetABI
  cg_intrinsicABI :: TargetABI
  fNullPointerIsValid :: bool

section \<open>Return value and implicit arguments\<close>

definition returnArgs :: "CodeGen \<Rightarrow> TargetABI \<Rightarrow> TypeFunction \<Rightarrow> FuncDeclaration option
   \<Rightarrow> (IrFuncTyArg \<times> IrFuncTyArg option) option" where
  "returnArgs cg abi f fd =
     (let fe = cg_fe cg in
      if onDecl isAnyMainFunction fd then
        do { r \<leftarrow> IrFuncTyArg_new fe (TypeBasic Tint32) False noAttrs; Some (r, None) }
      else
        let rt = tf_next f; bref = isref f \<and> ty (toBasetype rt) \<noteq> Tvoid in
        if returnInArg abi f (onDecl fd_needThis fd) then
          do {
            l \<leftarrow> DtoType fe rt;
            let sretAttrs = addAlignmentIfAny (DtoAlignment fe rt)
                              (addAttribute NoAlias (noAttrs\<lparr>structRetType := Some l\<rparr>));
            s \<leftarrow> IrFuncTyArg_new fe rt True sretAttrs;
            r \<leftarrow> IrFuncTyArg_new fe (TypeBasic Tvoid) bref noAttrs;
            Some (r, Some s) }
        else
          do {
            r \<leftarrow> IrFuncTyArg_new fe rt bref (DtoAddExtendAttr fe (if bref then TypePointer False else rt) noAttrs);
            Some (r, None) })"

definition nonNull :: "CodeGen \<Rightarrow> AttrBuilder \<Rightarrow> AttrBuilder" where
  "nonNull cg a = (if \<not> fNullPointerIsValid cg then addAttribute NonNull a else a)"

definition thisArg :: "CodeGen \<Rightarrow> Type option \<Rightarrow> FuncDeclaration option \<Rightarrow> IrFuncTyArg option option" where
  "thisArg cg thistype fd =
     (case thistype of
        None \<Rightarrow> Some None
      | Some t \<Rightarrow>
          let as = nonNull cg noAttrs;
              as = (if onDecl fd_isCtor fd then addAttribute Returned as else as)
          in map_option Some (IrFuncTyArg_new (cg_fe cg) t (ty (toBasetype t) = Tstruct) as))"

definition nestArg :: "CodeGen \<Rightarrow> Type option \<Rightarrow> Type option \<Rightarrow> IrFuncTyArg option option" where
  "nestArg cg thistype nesttype =
     (case (thistype, nesttype) of
        (None, Some t) \<Rightarrow> map_option Some (IrFuncTyArg_new (cg_fe cg) t False (nonNull cg noAttrs))
      | _ \<Rightarrow> Some None)"

text \<open>
  The selector: whether the function has one, the declaration with a selector generated for it
  if need be, and whether a missing \<open>@selector\<close> is reported.
\<close>

definition objcSelector :: "FuncDeclaration option \<Rightarrow> bool \<times> FuncDeclaration option \<times> bool" where
  "objcSelector fd =
     (case fd of
        None \<Rightarrow> (False, None, False)
      | Some d \<Rightarrow>
          if fd_linkage d \<noteq> LINK_objc then (False, fd, False)
          else if fd_objcSelector d then (True, fd, False)
          else if fd_parentIsClass d then
            if fd_isFinal d \<or> fd_isproperty d then (True, Some (d\<lparr>fd_objcSelector := True\<rparr>), False)
            else (False, fd, True)
          else (False, fd, False))"

definition argumentsArg :: "CodeGen \<Rightarrow> TypeFunction \<Rightarrow> IrFuncTyArg option option" where
  "argumentsArg cg f =
     (if (tf_varargs f = VARARGvariadic \<or> tf_varargs f = VARARGKRvariadic) \<and> tf_linkage f = LINK_d
      then map_option Some (IrFuncTyArg_new (cg_fe cg) TypeDArray False noAttrs) else Some None)"

section \<open>Explicit arguments\<close>

definition explicitArg :: "CodeGen \<Rightarrow> TargetABI \<Rightarrow> TypeFunction \<Rightarrow> nat \<Rightarrow> Parameter \<Rightarrow> IrFuncTyArg option" where
  "explicitArg cg abi f i p =
     (let fe = cg_fe cg; t = p_type p in
      do {
        (loweredDType, passPointer, as) \<leftarrow>
          (if p_lazy p then Some (TypeDelegate, p_refOrOut p, noAttrs)
           else if p_refOrOut p then
             Some (t, True,
               case structOf (toBasetype t) of
                 Some sd \<Rightarrow> if \<not> sd_members (sd_info sd) then addAttribute NoUndef (nonNull cg noAttrs)
                            else noAttrs\<lparr>dereferenceableBytes := Some (fe_size fe t)\<rparr>
               | None \<Rightarrow> noAttrs\<lparr>dereferenceableBytes := Some (fe_size fe t)\<rparr>)
           else if passByVal abi f t then
             do { l \<leftarrow> DtoType fe t;
                  Some (t, True, addAlignmentIfAny (DtoAlignment fe t) (noAttrs\<lparr>byValType := Some l\<rparr>)) }
           else Some (t, False, DtoAddExtendAttr fe t noAttrs));
        a \<leftarrow> IrFuncTyArg_new fe loweredDType passPointer as;
        Some (a\<lparr>parametersIdx := Some i\<rparr>) })"

fun explicitArgs :: "CodeGen \<Rightarrow> TargetABI \<Rightarrow> TypeFunction \<Rightarrow> nat \<Rightarrow> Parameter list \<Rightarrow> IrFuncTyArg list option" where
  "explicitArgs cg abi f i [] = Some []"
| "explicitArgs cg abi f i (p # ps) = do {
     a \<leftarrow> explicitArg cg abi f i p;
     as \<leftarrow> explicitArgs cg abi f (i + 1) ps;
     Some (a # as) }"

text \<open>
  The arguments that a call passes to the variadic part of a function, of the given types
  (\<open>addExplicitArguments\<close> in \<open>gen/tocall.cpp\<close>).
\<close>

definition optionalIrArg :: "CodeGen \<Rightarrow> TargetABI \<Rightarrow> TypeFunction \<Rightarrow> nat \<Rightarrow> Type \<Rightarrow> IrFuncTyArg option" where
  "optionalIrArg cg abi f i argType =
     (let fe = cg_fe cg; passByVal = passByVal abi f argType in
      do {
        initialAttrs \<leftarrow>
          (if passByVal then
             do { l \<leftarrow> DtoType fe argType;
                  Some (addAlignmentIfAny (DtoAlignment fe argType) (noAttrs\<lparr>byValType := Some l\<rparr>)) }
           else Some (DtoAddExtendAttr fe argType noAttrs));
        a \<leftarrow> IrFuncTyArg_new fe argType passByVal initialAttrs;
        Some (a\<lparr>parametersIdx := Some i\<rparr>) })"

fun optionalIrArgs :: "CodeGen \<Rightarrow> TargetABI \<Rightarrow> TypeFunction \<Rightarrow> nat \<Rightarrow> Type list \<Rightarrow> IrFuncTyArg list option" where
  "optionalIrArgs cg abi f i [] = Some []"
| "optionalIrArgs cg abi f i (t # ts) = do {
     a \<leftarrow> optionalIrArg cg abi f i t;
     as \<leftarrow> optionalIrArgs cg abi f (i + 1) ts;
     Some (a # as) }"

text \<open>A \<open>_Dmain\<close> without parameters is forced to have one.\<close>

definition mainArgs :: "CodeGen \<Rightarrow> TypeFunction \<Rightarrow> FuncDeclaration option \<Rightarrow> IrFuncTyArg list option" where
  "mainArgs cg f fd =
     (if onDecl isAnyMainFunction fd \<and> tf_linkage f \<noteq> LINK_c \<and> tf_parameters f = []
      then map_option (\<lambda>a. [a]) (IrFuncTyArg_new (cg_fe cg) TypeDArray False noAttrs) else Some [])"

section \<open>The function type\<close>

definition newIrFuncTy :: "CodeGen \<Rightarrow> TargetABI \<Rightarrow> TypeFunction \<Rightarrow> Type option \<Rightarrow> Type option
   \<Rightarrow> FuncDeclaration option \<Rightarrow> IrFuncTy option" where
  "newIrFuncTy cg abi f thistype nesttype fd = do {
     (r, sret) \<leftarrow> returnArgs cg abi f fd;
     this \<leftarrow> thisArg cg thistype fd;
     nest \<leftarrow> nestArg cg thistype nesttype;
     sel \<leftarrow> (if fst (objcSelector fd)
             then map_option Some (IrFuncTyArg_new (cg_fe cg) (TypePointer False) False noAttrs) else Some None);
     arguments \<leftarrow> argumentsArg cg f;
     as \<leftarrow> mainArgs cg f fd;
     bs \<leftarrow> explicitArgs cg abi f 0 (tf_parameters f);
     Some \<lparr>fty_type = f, ret = r, arg_sret = sret, arg_this = this, arg_nest = nest, arg_objcSelector = sel,
           arg_arguments = arguments, args = as @ bs, tag = (0, 0)\<rparr> }"

text \<open>The first two argument types are swapped where \<open>this\<close> precedes the sret pointer.\<close>

fun swapFirstTwo :: "'a list \<Rightarrow> 'a list" where
  "swapFirstTwo (a # b # xs) = b # a # xs"
| "swapFirstTwo xs = xs"

definition llFunctionType :: "TargetABI \<Rightarrow> TypeFunction \<Rightarrow> IrFuncTy \<Rightarrow> LLFunctionType" where
  "llFunctionType abi f irFty =
     (let implicits = List.map_filter (map_option ltype)
            [arg_sret irFty, arg_this irFty, arg_nest irFty, arg_objcSelector irFty, arg_arguments irFty];
          implicits = (if arg_sret irFty \<noteq> None \<and> arg_this irFty \<noteq> None \<and> passThisBeforeSret abi f
                       then swapFirstTwo implicits else implicits)
      in \<lparr>ll_ret = ltype (ret irFty),
          ll_params = implicits @ map ltype (args irFty),
          ll_isVarArg = (tf_varargs f = VARARGvariadic \<or> tf_varargs f = VARARGKRvariadic)\<rparr>)"

record FuncTypeState =
  st_irFty :: "(IrFuncTy \<times> LLFunctionType) option"
  st_fd :: "FuncDeclaration option"
  st_errors :: nat

definition abiFor :: "CodeGen \<Rightarrow> FuncDeclaration option \<Rightarrow> TargetABI" where
  "abiFor cg fd = (if onDecl fd_isIntrinsic fd then cg_intrinsicABI cg else gABI cg)"

definition DtoFunctionType :: "CodeGen \<Rightarrow> TypeFunction \<Rightarrow> Type option \<Rightarrow> Type option \<Rightarrow> FuncTypeState
   \<Rightarrow> (LLFunctionType \<times> FuncTypeState) option" where
  "DtoFunctionType cg f thistype nesttype st =
     (case st_irFty st of
        Some (_, funcType) \<Rightarrow> Some (funcType, st)
      | None \<Rightarrow> do {
          let abi = abiFor cg (st_fd st);
          newIrFty \<leftarrow> newIrFuncTy cg abi f thistype nesttype (st_fd st);
          irFty \<leftarrow> rewriteFunctionType abi newIrFty;
          let funcType = llFunctionType abi f irFty;
          let (_, fd', missing) = objcSelector (st_fd st);
          Some (funcType, \<lparr>st_irFty = Some (irFty, funcType), st_fd = fd',
                           st_errors = st_errors st + (if missing then 1 else 0)\<rparr>) })"

text \<open>
  For a declaration, the context is \<open>this\<close>, the frame of the enclosing function or nothing; a
  nested function that needs two contexts is an error, fatal unless errors are gagged.
\<close>

definition contextTypes :: "FuncDeclaration \<Rightarrow> (Type option \<times> Type option) option" where
  "contextTypes d =
     (if fd_isContract d then Some (None, Some (TypePointer False))
      else if fd_needThis d then
        case fd_isMember2 d of Some t \<Rightarrow> Some (Some t, None) | None \<Rightarrow> None
      else if fd_isNested d then Some (None, Some (TypePointer False))
      else Some (None, None))"

definition DtoFunctionType_decl :: "CodeGen \<Rightarrow> bool \<Rightarrow> FuncDeclaration \<Rightarrow> FuncTypeState
   \<Rightarrow> (LLFunctionType \<times> FuncTypeState) option" where
  "DtoFunctionType_decl cg gag d st =
     (case contextTypes d of
        Some (dthis, dnest) \<Rightarrow> DtoFunctionType cg (fd_type d) dthis dnest (st\<lparr>st_fd := Some d\<rparr>)
      | None \<Rightarrow>
          if \<not> gag then None
          else Some (\<lparr>ll_ret = VoidTy, ll_params = [], ll_isVarArg = False\<rparr>, st\<lparr>st_errors := st_errors st + 1\<rparr>))"

section \<open>What the translation guarantees\<close>

text \<open>
  The parameters of the LLVM type are the arguments of the \<open>IrFuncTy\<close> in the order in which
  \<open>getParamAttrs\<close> assigns attributes to them.
\<close>

lemma llFunctionType_params:
  "ll_params (llFunctionType abi f irFty) =
     map ltype (implicitArgs (passThisBeforeSret abi f) irFty @ args irFty)"
proof -
  have "(if arg_sret irFty \<noteq> None \<and> arg_this irFty \<noteq> None \<and> b then swapFirstTwo x else x)
      = map ltype (implicitArgs b irFty)"
    if "x = List.map_filter (map_option ltype)
      [arg_sret irFty, arg_this irFty, arg_nest irFty, arg_objcSelector irFty, arg_arguments irFty]" for x b
    unfolding that implicitArgs_def
    by (cases "arg_sret irFty"; cases "arg_this irFty"; cases "arg_nest irFty"; cases "arg_objcSelector irFty";
        cases "arg_arguments irFty") (simp_all add: map_filter_simps)
  then show ?thesis by (simp add: llFunctionType_def Let_def)
qed

lemma IrFuncTyArg_new_fresh:
  assumes "IrFuncTyArg_new fe t b a = Some x"
  shows "argFresh fe x \<and> arg_type x = t \<and> byref x = b \<and> attrs x = a"
  using assms by (auto simp: IrFuncTyArg_new_def argFresh_def argOK_def split: if_splits)

lemma argFresh_idx [simp]: "argFresh fe (a\<lparr>parametersIdx := i\<rparr>) = argFresh fe a"
  by (cases "rewrite a") (simp_all add: argFresh_def argOK_def)

lemma explicitArg_fresh:
  assumes "explicitArg cg abi f i p = Some a"
  shows "argFresh (cg_fe cg) a \<and> parametersIdx a = Some i
    \<and> arg_type a = (if p_lazy p then TypeDelegate else p_type p)"
  using assms unfolding explicitArg_def Let_def
  by (auto split: Option.bind_splits if_splits dest!: IrFuncTyArg_new_fresh)

lemma explicitArgs_fresh:
  assumes "explicitArgs cg abi f i ps = Some as"
  shows "(\<forall>a\<in>set as. argFresh (cg_fe cg) a) \<and> map parametersIdx as = map Some [i..<i + length ps]"
  using assms
proof (induction ps arbitrary: i as)
  case (Cons p ps)
  then obtain b bs where b: "explicitArg cg abi f i p = Some b" "explicitArgs cg abi f (i + 1) ps = Some bs" "as = b # bs"
    by (auto split: Option.bind_splits)
  show ?case
    using Cons.IH [OF b(2)] explicitArg_fresh [OF b(1)] unfolding b(3) by (simp add: upt_rec [of i] del: upt_Suc)
qed simp

text \<open>With a result pointer, the LLVM function returns void.\<close>

lemma returnArgs_fresh:
  assumes "returnArgs cg abi f fd = Some (r, s)"
  shows "argFresh (cg_fe cg) r \<and> (\<forall>x. s = Some x \<longrightarrow> arg_type r = TypeBasic Tvoid \<and> rewrite x = None
      \<and> arg_type x = tf_next f \<and> byref x \<and> structRetType (attrs x) = DtoType (cg_fe cg) (tf_next f))
    \<and> (s \<noteq> None \<longrightarrow> returnInArg abi f (onDecl fd_needThis fd) \<and> \<not> onDecl isAnyMainFunction fd)"
proof (cases "\<not> onDecl isAnyMainFunction fd \<and> returnInArg abi f (onDecl fd_needThis fd)")
  case True
  let ?A = "\<lambda>l. addAlignmentIfAny (DtoAlignment (cg_fe cg) (tf_next f)) (addAttribute NoAlias (noAttrs\<lparr>structRetType := Some l\<rparr>))"
  obtain l x b where l: "DtoType (cg_fe cg) (tf_next f) = Some l" and s: "s = Some x"
    and x: "IrFuncTyArg_new (cg_fe cg) (tf_next f) True (?A l) = Some x"
    and r: "IrFuncTyArg_new (cg_fe cg) (TypeBasic Tvoid) b noAttrs = Some r"
    using assms True unfolding returnArgs_def Let_def
    by (auto split: Option.bind_splits dest: sym [of "Some _"])
  have "structRetType (?A l) = Some l"
    by (simp add: addAlignmentIfAny_def addAlignmentAttr_def addAttribute_def)
  with IrFuncTyArg_new_fresh [OF x] IrFuncTyArg_new_fresh [OF r] l s True show ?thesis
    by (simp add: argFresh_def)
next
  case False
  then obtain t b a where "IrFuncTyArg_new (cg_fe cg) t b a = Some r" "s = None"
    using assms unfolding returnArgs_def Let_def by (auto split: Option.bind_splits if_splits)
  then show ?thesis by (simp add: IrFuncTyArg_new_fresh)
qed

lemma mainArgs_fresh: "mainArgs cg f fd = Some as \<Longrightarrow> \<forall>a\<in>set as. argFresh (cg_fe cg) a"
  unfolding mainArgs_def by (auto split: if_splits dest!: IrFuncTyArg_new_fresh)

lemma newIrFuncTy_cases:
  assumes "newIrFuncTy cg abi f th nt fd = Some fty"
  obtains as bs where "returnArgs cg abi f fd = Some (ret fty, arg_sret fty)" "fty_type fty = f"
    and "mainArgs cg f fd = Some as" "explicitArgs cg abi f 0 (tf_parameters f) = Some bs" "args fty = as @ bs"
  using assms unfolding newIrFuncTy_def by (auto split: Option.bind_splits)

lemma newIrFuncTy_sret:
  assumes "newIrFuncTy cg abi f th nt fd = Some fty" "arg_sret fty \<noteq> None"
  shows "arg_type (ret fty) = TypeBasic Tvoid \<and> argFresh (cg_fe cg) (ret fty)
    \<and> returnInArg abi f (onDecl fd_needThis fd)"
proof -
  obtain as bs where p: "returnArgs cg abi f fd = Some (ret fty, arg_sret fty)"
    using newIrFuncTy_cases [OF assms(1)] by metis
  show ?thesis using returnArgs_fresh [OF p] assms(2) by auto
qed

lemma newIrFuncTy_fresh:
  assumes "newIrFuncTy cg abi f th nt fd = Some fty"
  shows "ftyFresh (cg_fe cg) fty"
proof -
  obtain as bs where p: "returnArgs cg abi f fd = Some (ret fty, arg_sret fty)" "mainArgs cg f fd = Some as"
      "explicitArgs cg abi f 0 (tf_parameters f) = Some bs" "args fty = as @ bs"
    using newIrFuncTy_cases [OF assms] by metis
  from returnArgs_fresh [OF p(1)] mainArgs_fresh [OF p(2)] explicitArgs_fresh [OF p(3)]
  show ?thesis by (auto simp: ftyFresh_def p(4))
qed

text \<open>
  The clients of the interface: whatever calling convention satisfies the contract, the
  rewritten function type is consistent.
\<close>

definition typeOK :: "FrontEnd \<Rightarrow> TargetABI \<Rightarrow> TypeFunction \<Rightarrow> IrFuncTy \<Rightarrow> LLFunctionType \<Rightarrow> bool" where
  "typeOK fe abi f irFty funcType \<longleftrightarrow>
     ll_params funcType = map ltype (implicitArgs (passThisBeforeSret abi f) irFty @ args irFty)
   \<and> ll_ret funcType = ltype (ret irFty)
   \<and> ftyOK fe irFty
   \<and> subseq (List.map_filter parametersIdx (args irFty)) [0..<length (tf_parameters f)]
   \<and> (arg_sret irFty \<noteq> None \<longrightarrow> ll_ret funcType = VoidTy)"

lemma subseq_map_filter: "subseq xs ys \<Longrightarrow> subseq (List.map_filter g xs) (List.map_filter g ys)"
  by (induction rule: list_emb.induct) (auto simp: map_filter_simps split: option.split)

lemma map_filter_map: "List.map_filter g xs = List.map_filter id (map g xs)"
  by (induction xs) (auto simp: map_filter_simps split: option.split)

lemma map_filter_Some: "List.map_filter id (map Some xs) = xs"
  by (induction xs) (auto simp: map_filter_simps)

lemma map_filter_idx: "List.map_filter parametersIdx as = List.map_filter snd (map (\<lambda>a. (arg_type a, parametersIdx a)) as)"
  by (induction as) (auto simp: map_filter_simps split: option.split)

lemma newIrFuncTy_idx:
  assumes "newIrFuncTy cg abi f th nt fd = Some fty"
  shows "List.map_filter parametersIdx (args fty) = [0..<length (tf_parameters f)]"
proof -
  obtain as bs where p: "mainArgs cg f fd = Some as"
      "explicitArgs cg abi f 0 (tf_parameters f) = Some bs" "args fty = as @ bs"
    using newIrFuncTy_cases [OF assms] by metis
  have "List.map_filter parametersIdx as = []"
    using p(1) by (auto simp: mainArgs_def IrFuncTyArg_new_def map_filter_simps split: if_splits)
  moreover have "List.map_filter parametersIdx bs = [0..<length (tf_parameters f)]"
    using explicitArgs_fresh [OF p(2)]
    by (simp add: map_filter_map [of parametersIdx] map_filter_Some)
  ultimately show ?thesis by (simp add: p(3) map_filter_def)
qed

lemma argFresh_void: "argFresh fe a \<Longrightarrow> arg_type a = TypeBasic Tvoid \<Longrightarrow> ltype a = VoidTy"
  by (cases "rewrite a") (simp_all add: argFresh_def argOK_def basic2llvm_def)

lemma sameOption_None: "sameOption x x' \<Longrightarrow> x = None \<longleftrightarrow> x' = None"
  by (cases x; cases x') (simp_all add: sameOption_def)

context target_abi
begin

lemma rewritten_type:
  assumes "newIrFuncTy cg abi f th nt fd = Some fty" "rewriteFunctionType abi fty = Some fty'"
    and "looksThroughEnums fe" "cg_fe cg = fe"
  shows "typeOK fe abi f fty' (llFunctionType abi f fty')"
proof -
  note kept = signature_kept [OF assms(2), unfolded signatureKept_def]
  have "ftyOK fe fty'"
    using types_consistent [OF assms(3,2)] newIrFuncTy_fresh [OF assms(1)] assms(4) by simp
  moreover have "subseq (List.map_filter parametersIdx (args fty')) [0..<length (tf_parameters f)]"
    using subseq_map_filter [where g = snd] kept
    unfolding newIrFuncTy_idx [OF assms(1), symmetric] map_filter_idx by blast
  moreover have "ltype (ret fty') = VoidTy" if "arg_sret fty' \<noteq> None"
  proof -
    have "arg_sret fty \<noteq> None" using kept that sameOption_None by metis
    then have r: "arg_type (ret fty) = TypeBasic Tvoid" "argFresh (cg_fe cg) (ret fty)"
      using newIrFuncTy_sret [OF assms(1)] by blast+
    with void_kept [OF assms(2)] show ?thesis
      by (simp add: argFresh_void)
  qed
  ultimately show ?thesis
    by (simp add: typeOK_def llFunctionType_params) (simp add: llFunctionType_def Let_def)
qed

end

text \<open>
  The code generator for a target: \<open>gABI\<close> is the target's calling convention. \<open>stOK\<close> is the
  invariant of the cached function type.
\<close>

definition codeGenFor :: "FrontEnd \<Rightarrow> Triple \<Rightarrow> bool \<Rightarrow> CodeGen" where
  "codeGenFor fe triple nullValid =
     \<lparr>cg_fe = fe, gABI = getTarget fe triple, cg_intrinsicABI = IntrinsicABI fe triple, fNullPointerIsValid = nullValid\<rparr>"

definition stOK :: "CodeGen \<Rightarrow> TypeFunction \<Rightarrow> FuncTypeState \<Rightarrow> bool" where
  "stOK cg f st = (case st_irFty st of
     None \<Rightarrow> True
   | Some (irFty, funcType) \<Rightarrow> typeOK (cg_fe cg) (gABI cg) f irFty funcType)"

text \<open>Intrinsics have no result pointer, so the order of the implicit arguments does not matter.\<close>

lemma intrinsic_no_sret:
  assumes "newIrFuncTy cg (IntrinsicABI fe triple) f th nt fd = Some fty"
    "rewriteFunctionType (IntrinsicABI fe triple) fty = Some fty'"
  shows "arg_sret fty' = None"
proof -
  have "\<not> returnInArg (IntrinsicABI fe triple) f b" for b
    by (simp add: IntrinsicABI_def defaultTargetABI_def)
  then have "arg_sret fty = None" using newIrFuncTy_sret [OF assms(1)] by blast
  with intrinsic.signature_kept [OF assms(2)] show ?thesis
    unfolding signatureKept_def using sameOption_None by metis
qed

lemma typeOK_no_sret: "arg_sret irFty = None \<Longrightarrow> typeOK fe abi f irFty t = typeOK fe abi' f irFty t"
  by (simp add: typeOK_def implicitArgs_def)

lemma DtoFunctionType_ok:
  assumes "looksThroughEnums fe" "cg = codeGenFor fe triple nullValid" "stOK cg f st"
    and "DtoFunctionType cg f th nt st = Some (funcType, st')"
  shows "stOK cg f st' \<and> (\<exists>irFty. st_irFty st' = Some (irFty, funcType))"
proof (cases "st_irFty st")
  case (Some c)
  with assms(3,4) show ?thesis by (cases c) (auto simp: DtoFunctionType_def)
next
  case None
  let ?abi = "abiFor cg (st_fd st)"
  obtain fty irFty where new: "newIrFuncTy cg ?abi f th nt (st_fd st) = Some fty"
    and rw: "rewriteFunctionType ?abi fty = Some irFty"
    and st': "st_irFty st' = Some (irFty, funcType)" and ft: "funcType = llFunctionType ?abi f irFty"
    using assms(4) None by (auto simp: DtoFunctionType_def Let_def split: Option.bind_splits prod.splits)
  have fe: "cg_fe cg = fe" by (simp add: assms(2) codeGenFor_def)
  show ?thesis
  proof (cases "onDecl fd_isIntrinsic (st_fd st)")
    case True
    then have abi: "?abi = IntrinsicABI fe triple" by (simp add: abiFor_def assms(2) codeGenFor_def)
    have "typeOK fe ?abi f irFty funcType"
      unfolding ft abi by (rule intrinsic.rewritten_type [OF new [unfolded abi] rw [unfolded abi] assms(1) fe])
    with intrinsic_no_sret [OF new [unfolded abi] rw [unfolded abi]] typeOK_no_sret show ?thesis
      by (simp add: stOK_def st' fe) metis
  next
    case False
    then have abi: "?abi = getTarget fe triple" "gABI cg = getTarget fe triple"
      by (simp_all add: abiFor_def assms(2) codeGenFor_def)
    have "typeOK fe ?abi f irFty funcType"
      unfolding ft abi by (rule chosen.rewritten_type [OF new [unfolded abi] rw [unfolded abi] assms(1) fe])
    with abi show ?thesis by (simp add: stOK_def st' fe)
  qed
qed

end
