(* ===== verification/SampleTarget.thy ===== *)
theory SampleTarget
  imports FunctionType
begin

text \<open>
  A concrete target: an LLVM data layout in the style of x86-64 and a front end for the types
  that the examples use. It shows that the hypotheses about LLVM and the front end can be met,
  and gives the examples something to compute with.
\<close>

section \<open>A data layout\<close>

definition intAlign :: "nat \<Rightarrow> nat" where
  "intAlign bytes =
     (if bytes \<le> 1 then 1 else if bytes \<le> 2 then 2 else if bytes \<le> 4 then 4 else if bytes \<le> 8 then 8 else 16)"

fun bitsOf :: "LLType \<Rightarrow> nat" where
  "bitsOf (IntegerTy n) = n"
| "bitsOf FloatTy = 32"
| "bitsOf DoubleTy = 64"
| "bitsOf X86_FP80Ty = 80"
| "bitsOf FP128Ty = 128"
| "bitsOf PPC_FP128Ty = 128"
| "bitsOf (PointerTy _) = 64"
| "bitsOf (VectorTy n t) = n * bitsOf t"
| "bitsOf _ = 0"

text \<open>Size and alignment of a type.\<close>

fun layoutOf :: "LLType \<Rightarrow> nat \<times> nat" where
  "layoutOf (IntegerTy n) = (let b = (n + 7) div 8; a = intAlign b in (alignTo b a, a))"
| "layoutOf FloatTy = (4, 4)"
| "layoutOf DoubleTy = (8, 8)"
| "layoutOf (PointerTy _) = (8, 8)"
| "layoutOf VoidTy = (1, 1)"
| "layoutOf (OpaqueTy _) = (0, 1)"
| "layoutOf (VectorTy n t) = (alignTo ((n * bitsOf t + 7) div 8) 16, 16)"
| "layoutOf (ArrayTy n t) = (n * fst (layoutOf t), snd (layoutOf t))"
| "layoutOf (StructTy nm packed ts) =
     (let ls = map layoutOf ts;
          sz = fold (\<lambda>(s, a) off. (if packed then off else alignTo off a) + s) ls 0;
          al = (if packed then 1 else foldr (\<lambda>(s, a). max a) ls 1)
      in (alignTo sz al, al))"
| "layoutOf _ = (16, 16)"

definition sampleLayout :: DataLayout where
  "sampleLayout =
     \<lparr>getTypeBitSize = bitsOf, getTypeStoreSize = (\<lambda>t. fst (layoutOf t)), getTypeAllocSize = (\<lambda>t. fst (layoutOf t)),
      getABITypeAlign = (\<lambda>t. snd (layoutOf t)), getPointerSize = 8, getProgramAddressSpace = 0\<rparr>"

lemma sampleLayout_simps [simp]:
  "getTypeAllocSize sampleLayout t = fst (layoutOf t)" "getABITypeAlign sampleLayout t = snd (layoutOf t)"
  "getTypeBitSize sampleLayout = bitsOf" "getTypeStoreSize sampleLayout t = fst (layoutOf t)"
  by (simp_all add: sampleLayout_def)

lemma pow2_num: "pow2 2" "pow2 4" "pow2 8" "pow2 16"
  unfolding pow2_def by (rule exI [of _ 1], simp) (rule exI [of _ 2], simp, rule exI [of _ 3], simp, rule exI [of _ 4], simp)

lemma pow2_intAlign: "pow2 (intAlign b)"
  using pow2_num pow2_1 by (simp add: intAlign_def)

lemma foldr_max_align: "foldr (\<lambda>(s, a). max a) (map layoutOf ts) 1 = maxAlign sampleLayout ts"
  by (induction ts) (simp_all add: maxAlign_def case_prod_beta)

lemma fold_place:
  "fold (\<lambda>(s, a) off. (if packed then off else alignTo off a) + s) (map layoutOf ts) off = elementsEnd sampleLayout packed off ts"
  by (induction ts arbitrary: off) (simp_all add: case_prod_beta)

lemma layoutOf_struct:
  "layoutOf (StructTy nm packed ts) =
     (structAllocSize sampleLayout packed ts, if packed then 1 else maxAlign sampleLayout ts)"
  using fold_place [of packed ts 0] foldr_max_align [of ts] by (simp add: Let_def structAllocSize_def)

lemma layoutOf_align: "pow2 (snd (layoutOf t))"
proof (induction t)
  case (StructTy nm packed ts)
  have "pow2 (maxAlign sampleLayout ts)"
    using StructTy by (induction ts) (auto simp: maxAlign_def pow2_max pow2_1 [simplified])
  then show ?case by (simp only: layoutOf_struct) (simp add: pow2_1 [simplified])
qed (auto simp: pow2_intAlign pow2_num pow2_1 [simplified] Let_def)

lemma alignTo_multiple: "a dvd alignTo n a"
  by (simp add: alignTo_def)

lemma layoutOf_dvd: "snd (layoutOf t) dvd fst (layoutOf t)"
proof (induction t)
  case (StructTy nm packed ts)
  then show ?case by (simp only: layoutOf_struct) (simp add: structAllocSize_def alignTo_multiple)
qed (auto simp: Let_def alignTo_multiple)

lemma sample_datalayout: "datalayout sampleLayout"
  unfolding datalayout_def
  by (simp add: layoutOf_align layoutOf_struct intAlign_def del: layoutOf.simps(9))

lemma whole_bytes: "(k::nat) mod 8 = 0 \<Longrightarrow> (k + 7) div 8 = k div 8 \<and> k div 8 * 8 = k"
  by presburger

lemma sample_foldable: "foldableLayout sampleLayout"
  unfolding foldableLayout_def sameLayout_def
  by (simp add: sample_datalayout whole_bytes layoutOf_struct layoutOf_dvd intAlign_def alignTo_def del: layoutOf.simps(9))

section \<open>A front end\<close>

fun sampleSize :: "Type \<Rightarrow> nat" where
  "sampleSize (TypeBasic t) =
     (case t of
        Tint8 \<Rightarrow> 1 | Tuns8 \<Rightarrow> 1 | Tchar \<Rightarrow> 1 | Tbool \<Rightarrow> 1 | Tvoid \<Rightarrow> 1
      | Tint16 \<Rightarrow> 2 | Tuns16 \<Rightarrow> 2 | Twchar \<Rightarrow> 2
      | Tint32 \<Rightarrow> 4 | Tuns32 \<Rightarrow> 4 | Tdchar \<Rightarrow> 4 | Tfloat32 \<Rightarrow> 4 | Timaginary32 \<Rightarrow> 4
      | Tint64 \<Rightarrow> 8 | Tuns64 \<Rightarrow> 8 | Tfloat64 \<Rightarrow> 8 | Timaginary64 \<Rightarrow> 8 | Tcomplex32 \<Rightarrow> 8
      | Tcomplex64 \<Rightarrow> 16 | Tfloat80 \<Rightarrow> 16 | Timaginary80 \<Rightarrow> 16 | Tint128 \<Rightarrow> 16 | Tuns128 \<Rightarrow> 16
      | Tcomplex80 \<Rightarrow> 32 | _ \<Rightarrow> 0)"
| "sampleSize (TypeSArray t n) = n * sampleSize t"
| "sampleSize (TypeVector t n) = n * sampleSize t"
| "sampleSize (TypeEnum nm b) = (case b of None \<Rightarrow> 1 | Some t \<Rightarrow> sampleSize t)"
| "sampleSize (TypeStruct sd) = structsize (sd_info sd)"
| "sampleSize TypeDArray = 16"
| "sampleSize TypeDelegate = 16"
| "sampleSize _ = 8"

definition sampleFE :: FrontEnd where
  "sampleFE =
     \<lparr>fe_size = sampleSize, fe_alignment = (\<lambda>_. None), fe_alignsize = (\<lambda>t. intAlign (sampleSize t)),
      fe_toArgTypes = (\<lambda>_. None), fe_isHFVA = (\<lambda>_ _. None), fe_equivalent = (=), fe_realType = X86_FP80Ty,
      fe_ptrsize = 8, fe_layout = sampleLayout, fe_dcomputeMapping = None\<rparr>"

lemma sampleFE_simps [simp]:
  "fe_size sampleFE = sampleSize" "fe_alignment sampleFE t = None" "fe_alignsize sampleFE t = intAlign (sampleSize t)"
  "fe_toArgTypes sampleFE t = None" "fe_isHFVA sampleFE t n = None" "fe_equivalent sampleFE = (=)"
  "fe_realType sampleFE = X86_FP80Ty" "fe_ptrsize sampleFE = 8" "fe_layout sampleFE = sampleLayout"
  "fe_dcomputeMapping sampleFE = None"
  by (simp_all add: sampleFE_def)

lemma sample_looksThroughEnums: "looksThroughEnums sampleFE"
  by (simp add: looksThroughEnums_def)

lemma sample_pointerSize: "pointerSize sampleFE"
  by (simp add: pointerSize_def pow2_num)

definition linuxTriple :: Triple where
  "linuxTriple = \<lparr>arch = arch_x86_64, os = os_Linux, isWindowsMSVCEnvironment = False, isArch64Bit = True, softFloatABI = False\<rparr>"

definition sampleStruct :: "string \<Rightarrow> nat \<Rightarrow> StructInfo" where
  "sampleStruct nm sz =
     \<lparr>sd_ident = nm, sd_prettyName = nm, sd_nspace = None, sd_sizeok = True, structsize = sz, sd_members = True,
      sd_isPOD = True, sd_ctor = False, sd_postblit = False, sd_hasCopyCtor = False, sd_isFromOpenCL = False,
      sd_dcomputePointer = None\<rparr>"

definition plainField :: "ptr \<Rightarrow> nat \<Rightarrow> VarDeclaration" where
  "plainField v off = \<lparr>vd = v, offset = off, overlapped = False, bitField = None\<rparr>"

end
