(* ===== verification/AggregateProperties.thy ===== *)
theory AggregateProperties
  imports SampleTarget
begin

text \<open>
  The properties of the layout of structs and classes and of bit field groups.
\<close>

section \<open>Structs of size 0\<close>

lemma visitField_empty:
  assumes "unitSize (f, g) = 0"
  shows "\<exists>c'. visitField pass inits al f g c = Some c' \<and> actualFields c' = actualFields c"
  using assms by (cases "bitField f") (auto simp: visitField_def Let_def unitSize_def)

lemma collectUnits_empty:
  assumes "\<forall>u\<in>set us. unitSize u = 0"
  shows "\<exists>c'. iterM (\<lambda>(f, g). visitField pass inits al f g) us c = Some c' \<and> actualFields c' = actualFields c"
  using assms
proof (induction us arbitrary: c)
  case (Cons u us)
  have "unitSize (fst u, snd u) = 0" using Cons.prems by simp
  from visitField_empty [OF this, of pass inits al c]
  obtain c1 where "visitField pass inits al (fst u) (snd u) c = Some c1" "actualFields c1 = actualFields c" by blast
  with Cons.IH [of c1] Cons.prems show ?case by (auto simp: case_prod_beta)
qed simp

lemma addAggregate_empty:
  assumes "\<forall>u\<in>set (units fs). unitSize u = 0"
  shows "addAggregate dl False fs None al b = Some b"
proof -
  obtain c where "collectPass 1 None al fs \<lparr>actualFields = [], aliasPairs = [], extraBitFieldMembers = []\<rparr> = Some c"
      "actualFields c = []"
    using collectUnits_empty [OF assms] unfolding collectPass_units by fastforce
  then show ?thesis by (simp add: addAggregate_def collectFields_def)
qed

lemma empty_struct_layout:
  assumes "sd_sizeok sd" "fe_dcomputeMapping fe = None \<or> sd_dcomputePointer sd = None"
    and "frontEndLayout (fe_layout fe) fs 0 (structsize sd)" "structsize sd = 0"
    and "IrTypeStruct_get fe sd fs = Some (st, gep)"
  shows "gep = Map.empty"
proof -
  have "\<forall>u\<in>set (units fs). unitSize u = 0" using assms(3,4) by (auto simp: frontEndLayout_def)
  then have "addAggregate (fe_layout fe) False fs None AddToVarGEPIndices (emptyBuilder 0) = Some (emptyBuilder 0)"
    by (rule addAggregate_empty)
  moreover have "addTailPadding 0 (emptyBuilder 0) = Some (emptyBuilder 0)"
    by (simp add: addTailPadding_def emptyBuilder_def misaligned_def)
  moreover have "m_varGEPIndices (emptyBuilder 0) = Map.empty" by (simp add: emptyBuilder_def)
  ultimately show ?thesis
    using assms by (auto simp: IrTypeStruct_get_def Let_def ensure_def split: option.splits if_splits)
qed

section \<open>Members of structs and classes\<close>

text \<open>
  C14: For every struct the front end has laid out (fields within the struct, and disjoint unless
  they may overlap as members of unions or bit fields), \<open>IrTypeStruct::get\<close> builds an LLVM type
  without an internal error. The type has the size of the D struct, and the address that
  \<open>DtoIndexAggregate\<close> computes for any field is the address of the object plus the offset of the
  field in D, also for members of unions and for bit fields.
\<close>

theorem struct_layout_exact:
  assumes "datalayout (fe_layout fe)" "sd_sizeok sd" "fe_dcomputeMapping fe = None \<or> sd_dcomputePointer sd = None"
    and "frontEndLayout (fe_layout fe) fs 0 (structsize sd)"
  shows "\<exists>st gep. IrTypeStruct_get fe sd fs = Some (st, gep)
    \<and> getTypeAllocSize (fe_layout fe) st = structsize sd
    \<and> (\<forall>f\<in>set fs. \<forall>src. DtoIndexAggregate (fe_layout fe) st gep (structsize sd) f src = Some (src + offset f))"
proof -
  obtain packed ts gep where g: "IrTypeStruct_get fe sd fs = Some (StructTy (Some (sd_prettyName sd)) packed ts, gep)"
      "structAllocSize (fe_layout fe) packed ts = structsize sd"
      "\<forall>v i. gep v = Some i \<longrightarrow> i < length ts \<and> elementOffsets (fe_layout fe) packed 0 ts ! i = offsetIn fs v"
    using struct_layout [OF assms] by blast
  have d: "distinct (map vd fs)" using assms(4) by (simp add: frontEndLayout_def)
  have "DtoIndexAggregate (fe_layout fe) (StructTy (Some (sd_prettyName sd)) packed ts) gep (structsize sd) f src
      = Some (src + offset f)" if "f \<in> set fs" for f src
  proof (rule DtoIndexAggregate_exact)
    show "i < length ts \<and> elementOffsets (fe_layout fe) packed 0 ts ! i = offset f" if "gep (vd f) = Some i" for i
      using g(3) that offsetIn_field [OF d \<open>f \<in> set fs\<close>] by auto
    show "gep (vd f) = None" if "structsize sd = 0"
      using empty_struct_layout [OF assms(2-4) that g(1)] by simp
  qed
  with g(1,2) datalayout_struct [OF assms(1)] show ?thesis by auto
qed

text \<open>
  The example: \<open>struct S { byte a; union { int i; float f; } short s; ubyte b : 3, c : 5; }\<close> with
  an unaligned \<open>s\<close>.
\<close>

definition sampleFields :: "AggrField list" where
  "sampleFields =
     map (aggrField sampleFE)
      [Field (plainField 1 0) (TypeBasic Tint8),
       Field ((plainField 2 4)\<lparr>overlapped := True\<rparr>) (TypeBasic Tint32),
       Field ((plainField 3 4)\<lparr>overlapped := True\<rparr>) (TypeBasic Tfloat32),
       Field (plainField 4 9) (TypeBasic Tint16),
       Field ((plainField 5 11)\<lparr>bitField := Some (0, 3)\<rparr>) (TypeBasic Tuns8),
       Field ((plainField 6 11)\<lparr>bitField := Some (3, 5)\<rparr>) (TypeBasic Tuns8)]"

lemmas sample_eval = sampleFields_def plainField_def VarDeclaration.defs AggrField.defs basic2llvm_def toMemType_def
  voidToI8_def i1ToI8_def trunc32_def

lemma sampleFields_layout: "frontEndLayout sampleLayout sampleFields 0 12"
  by (simp add: frontEndLayout_def sample_eval startingFrom_def extendGroup_def unitOK_def unitSize_def
      disjointUnits_def mayOverlap_def intAlign_def alignTo_def)

theorem struct_layout_exact_witness:
  "datalayout (fe_layout sampleFE) \<and> frontEndLayout (fe_layout sampleFE) sampleFields 0 (structsize (sampleStruct ''S'' 12))
   \<and> (\<exists>st gep. IrTypeStruct_get sampleFE (sampleStruct ''S'' 12) sampleFields = Some (st, gep)
    \<and> getTypeAllocSize (fe_layout sampleFE) st = structsize (sampleStruct ''S'' 12)
    \<and> (\<forall>f\<in>set sampleFields. \<forall>src.
         DtoIndexAggregate (fe_layout sampleFE) st gep (structsize (sampleStruct ''S'' 12)) f src = Some (src + offset f)))"
  using struct_layout_exact [of sampleFE "sampleStruct ''S'' 12" sampleFields] sample_datalayout sampleFields_layout
  by (simp add: sampleStruct_def)

text \<open>
  C15: The same for classes, with base classes and interfaces: whenever the front end has laid out
  the fields of the class and its bases behind the object header and the interface pointers, the
  LLVM type of the object is built without an internal error, has the instance size of the D
  class, and every member is found at its offset in D.
\<close>

theorem class_layout_exact:
  assumes "datalayout (fe_layout fe)" "pointerSize fe" "\<not> cd_isObjC (cd_info cd)" "\<not> cd_isInterface (cd_info cd)"
    and "classLayout fe (headerSize fe cd) cd" "distinct (map vd (allFields cd))"
  shows "\<exists>st gep irc. getMemoryLLType fe cd = Some (st, gep, irc)
    \<and> getTypeAllocSize (fe_layout fe) st = cd_structsize (cd_info cd)
    \<and> (\<forall>f\<in>set (allFields cd). \<forall>src.
         DtoIndexAggregate (fe_layout fe) st gep (cd_structsize (cd_info cd)) f src = Some (src + offset f))"
proof -
  obtain packed ts gep irc where
    g: "getMemoryLLType fe cd = Some (StructTy (Some (cd_prettyName (cd_info cd))) packed ts, gep, irc)"
      "structAllocSize (fe_layout fe) packed ts = cd_structsize (cd_info cd)"
      "\<forall>v i. gep v = Some i \<longrightarrow> i < length ts
        \<and> elementOffsets (fe_layout fe) packed 0 ts ! i = offsetIn (allFields cd) v"
    using class_layout [OF assms] by blast
  have pos: "0 < fe_ptrsize fe" using assms(2) by (simp add: pointerSize_def pow2_pos)
  then have n: "cd_structsize (cd_info cd) \<noteq> 0"
    using headerSize_le [OF pos assms(5)] by (auto simp: headerSize_def split: if_splits)
  have "DtoIndexAggregate (fe_layout fe) (StructTy (Some (cd_prettyName (cd_info cd))) packed ts) gep
      (cd_structsize (cd_info cd)) f src = Some (src + offset f)" if "f \<in> set (allFields cd)" for f src
    using g(3) offsetIn_field [OF assms(6) that] n by (intro DtoIndexAggregate_exact) auto
  with g(1,2) datalayout_struct [OF assms(1)] show ?thesis by auto
qed

text \<open>
  The example: \<open>class B { int x; }\<close> and \<open>class C : B, I { byte a; long b; }\<close>, whose interface
  pointer follows the base class.
\<close>

definition sampleBase :: ClassDeclaration where
  "sampleBase = ClassDeclaration
     \<lparr>cd_prettyName = ''B'', cd_structsize = 20, cd_isInterface = False, cd_isCPP = False, cd_isObjC = False\<rparr> None []
     [aggrField sampleFE (Field (plainField 1 16) (TypeBasic Tint32))]"

definition sampleClass :: ClassDeclaration where
  "sampleClass = ClassDeclaration
     \<lparr>cd_prettyName = ''C'', cd_structsize = 48, cd_isInterface = False, cd_isCPP = False, cd_isObjC = False\<rparr>
     (Some sampleBase) [Interface 7 None]
     [aggrField sampleFE (Field (plainField 2 32) (TypeBasic Tint8)),
      aggrField sampleFE (Field (plainField 3 40) (TypeBasic Tint64))]"

lemma sampleClass_layout: "classLayout sampleFE (headerSize sampleFE sampleClass) sampleClass"
  by (simp add: sampleClass_def sampleBase_def headerSize_def interfacesEnd_def frontEndLayout_def sample_eval
      startingFrom_def unitOK_def unitSize_def disjointUnits_def intAlign_def alignTo_def)

theorem class_layout_exact_witness:
  "\<exists>st gep irc. getMemoryLLType sampleFE sampleClass = Some (st, gep, irc)
    \<and> getTypeAllocSize (fe_layout sampleFE) st = cd_structsize (cd_info sampleClass)
    \<and> (\<forall>f\<in>set (allFields sampleClass). \<forall>src.
         DtoIndexAggregate (fe_layout sampleFE) st gep (cd_structsize (cd_info sampleClass)) f src = Some (src + offset f))"
proof (rule class_layout_exact)
  show "distinct (map vd (allFields sampleClass))"
    by (simp add: sampleClass_def sampleBase_def sample_eval)
qed (simp_all add: sample_datalayout sample_pointerSize sampleClass_layout, simp_all add: sampleClass_def)

section \<open>Bit field groups\<close>

text \<open>
  C19: All bits of every bit field in a group lie within the bytes of the group: the bit offset that
  \<open>BitFieldGroup::getBitOffset\<close> computes for a member, plus its width, does not exceed the group's
  \<open>sizeInBytes\<close>, as long as no bit position exceeds 32 bits.
\<close>

theorem bitfield_group_covers:
  assumes "\<forall>f\<in>set fs. smallBits f" "bf \<in> set (bitFields (startingFrom fs))" "bitField bf = Some (bitOff, width)"
  shows "\<exists>k. getBitOffset (startingFrom fs) bf = Some k \<and> k + width \<le> 8 * sizeInBytes (startingFrom fs)"
  using startingFrom_member [OF assms] by blast

theorem bitfield_group_covers_witness:
  "\<exists>k. getBitOffset (startingFrom (drop 4 sampleFields)) (sampleFields ! 5) = Some k
     \<and> k + 5 \<le> 8 * sizeInBytes (startingFrom (drop 4 sampleFields))"
  by (rule bitfield_group_covers)
     (simp_all add: sample_eval smallBits_def startingFrom_def extendGroup_def)

end
