(* ===== verification/ABIProperties.thy ===== *)
theory ABIProperties
  imports AggregateProperties
begin

text \<open>
  The properties of argument rewriting, calling conventions and function types.
\<close>

section \<open>Types of rewritten arguments\<close>

text \<open>
  C18: Two LLVM types that \<open>LLTypeMemoryLayout::typesAreEquivalent\<close> accepts have the same size and
  alignment and the same scalars at the same offsets, as long as neither contains a packed struct
  of a single element, an array of no elements or of \<open>2^32\<close> or more, or an opaque struct. An
  argument that is therefore left unrewritten is passed exactly like a rewritten one.
\<close>

theorem equivalent_types_same_layout:
  assumes "foldableLayout dl" "plainType a" "plainType b" "typesAreEquivalent dl a b = Some True"
  shows "sameLayout dl a b \<and> (\<forall>base. scalars dl base a = scalars dl base b)"
proof (cases "a = b")
  case False
  with assms(4) obtain t where "foldType dl a = Some t" "foldType dl b = Some t"
    by (auto simp: typesAreEquivalent_def split: Option.bind_splits)
  then have "foldedTo dl a t" "foldedTo dl b t"
    using fold_layout(1) assms(1-3) by blast+
  then show ?thesis by (simp add: foldedTo_def sameLayout_def)
qed (simp add: sameLayout_def)

theorem equivalent_types_same_layout_witness:
  "sameLayout sampleLayout (StructTy (Some ''S'') True [PointerTy 0, ArrayTy 2 FloatTy])
       (StructTy None True [IntegerTy 64, literalStruct [FloatTy, FloatTy]])
   \<and> (\<forall>base. scalars sampleLayout base (StructTy (Some ''S'') True [PointerTy 0, ArrayTy 2 FloatTy])
       = scalars sampleLayout base (StructTy None True [IntegerTy 64, literalStruct [FloatTy, FloatTy]]))"
  by (rule equivalent_types_same_layout [OF sample_foldable])
     (simp_all add: typesAreEquivalent_def trunc32_def numeral_2_eq_2 [symmetric], simp add: numeral_2_eq_2)



text \<open>
  C20: \<open>IntegerRewrite::getIntegerType\<close> gives the smallest integer type of a power-of-two size that
  holds the given number of bytes, and none for more than 16 bytes.
\<close>

theorem integer_type_smallest:
  "getIntegerType n =
     (if n > 16 then None else Some (IntegerTy (8 * (LEAST k. n \<le> k \<and> k \<in> {1, 2, 4, 8, 16}))))"
proof (cases "n > 16")
  case False
  then have "n \<in> {..16}" by simp
  then have "n \<in> {0, 1, 2, 3, 4, 5, 6, 7, 8, 9, 10, 11, 12, 13, 14, 15, 16}"
    by (simp only: atMost_nat_numeral pred_numeral_simps BitM.simps numeral_One atMost_Suc atMost_0 One_nat_def) auto
  moreover have "(LEAST k. n \<le> k \<and> k \<in> {1, 2, 4, 8, 16}) =
      (if n \<le> 1 then 1 else if n \<le> 2 then 2 else if n \<le> 4 then 4 else if n \<le> 8 then 8 else 16)"
    using False by (intro Least_equality) auto
  ultimately show ?thesis by (elim insertE) (auto simp: getIntegerType_def)
qed (simp add: getIntegerType_def)

text \<open>
  C21: \<open>CompositeToArray\<close> turns a value of any size into just enough array elements to hold it.
\<close>

theorem composite_array_covers:
  assumes "0 < elementSize"
  shows "\<exists>n. compositeToArrayType elementSize sz = ArrayTy n (IntegerTy (elementSize * 8))
    \<and> sz \<le> n * elementSize \<and> n * elementSize < sz + elementSize"
proof -
  let ?n = "(sz + elementSize - 1) div elementSize"
  have "sz + elementSize - 1 < ?n * elementSize + elementSize"
    using dividend_less_div_times [OF assms, of "sz + elementSize - 1"] by linarith
  moreover have "?n * elementSize \<le> sz + elementSize - 1" by (rule div_times_less_eq_dividend)
  ultimately have "sz \<le> ?n * elementSize \<and> ?n * elementSize < sz + elementSize" using assms by linarith
  then show ?thesis by (simp add: compositeToArrayType_def)
qed

theorem composite_array_covers_witness:
  "\<exists>n. compositeToArrayType 4 13 = ArrayTy n (IntegerTy (4 * 8)) \<and> 13 \<le> n * 4 \<and> n * 4 < 13 + (4::nat)"
  using composite_array_covers [of 4 13] by simp

section \<open>Function types\<close>

text \<open>
  C13: Whatever the target, \<open>DtoFunctionType\<close> keeps the description of a function and its LLVM
  type in step: the LLVM parameters are the described arguments in order, each of the LLVM type
  that its D type or its rewrite demands; \<open>getParamAttrs\<close> gives every LLVM parameter the attributes
  of the argument at the same position, also where \<open>this\<close> precedes the result pointer and for
  intrinsics, which use another ABI; no D parameter is reordered or duplicated; and a function with
  a result pointer returns void.
\<close>

theorem function_type_consistent:
  assumes "looksThroughEnums fe" "stOK (codeGenFor fe triple nullValid) f st"
    and "DtoFunctionType (codeGenFor fe triple nullValid) f thistype nesttype st = Some (funcType, st')"
  shows "\<exists>irFty as. st_irFty st' = Some (irFty, funcType)
    \<and> as = implicitArgs (passThisBeforeSret (getTarget fe triple) f) irFty @ args irFty
    \<and> ll_params funcType = map ltype as
    \<and> ll_ret funcType = ltype (ret irFty)
    \<and> (\<forall>i < length as. paramAttrs (getParamAttrs (passThisBeforeSret (getTarget fe triple) f) irFty) i = attrs (as ! i))
    \<and> argOK fe (ret irFty) \<and> (\<forall>a\<in>set (args irFty). argOK fe a)
    \<and> subseq (List.map_filter parametersIdx (args irFty)) [0..<length (tf_parameters f)]
    \<and> (arg_sret irFty \<noteq> None \<longrightarrow> ll_ret funcType = VoidTy)"
proof -
  obtain irFty where st: "st_irFty st' = Some (irFty, funcType)" "stOK (codeGenFor fe triple nullValid) f st'"
    using DtoFunctionType_ok [OF assms(1) refl assms(2,3)] by blast
  then have "typeOK fe (getTarget fe triple) f irFty funcType"
    by (simp add: stOK_def codeGenFor_def)
  then show ?thesis
    using st(1) by (auto simp add: typeOK_def ftyOK_def getParamAttrs_implicitArgs attrsOf_def)
qed

text \<open>
  The example: \<open>S foo(int x, ref S s, lazy int y)\<close> for a struct \<open>S\<close> of 24 bytes, which is returned
  through a pointer and passed in memory.
\<close>

definition bigStruct :: Type where
  "bigStruct = TypeStruct (StructDeclaration (sampleStruct ''S'' 24) (Some [])
     (map (\<lambda>i. Field (plainField (of_nat i) (8 * i)) (TypeBasic Tint64)) [0, 1, 2]))"

definition sampleFunction :: TypeFunction where
  "sampleFunction = \<lparr>isref = False, tf_next = bigStruct, tf_linkage = LINK_d, tf_varargs = VARARGnone,
     tf_parameters = [\<lparr>p_type = TypeBasic Tint32, p_refOrOut = False, p_lazy = False\<rparr>,
       \<lparr>p_type = bigStruct, p_refOrOut = True, p_lazy = False\<rparr>,
       \<lparr>p_type = TypeBasic Tint32, p_refOrOut = False, p_lazy = True\<rparr>]\<rparr>"

definition emptyState :: FuncTypeState where
  "emptyState = \<lparr>st_irFty = None, st_fd = None, st_errors = 0\<rparr>"

lemma bigStruct_type: "DtoType sampleFE bigStruct = Some (StructTy (Some ''S'') False [IntegerTy 64, IntegerTy 64, IntegerTy 64])"
  by (simp add: bigStruct_def IrTypeStruct_get_def sampleStruct_def Let_def sample_eval addAggregate_def collectFields_def
    visitField_def addActualField_def explicitlyInitialized_def startingFrom_def placeField_def padTo_def add_zeros_def
    emptyBuilder_def misaligned_def addTailPadding_def setGEPIndices_def ensure_def intAlign_def alignTo_def)

lemma bigStruct_facts: "toBasetype bigStruct = bigStruct" "ty bigStruct = Tstruct" "getArgTypes sampleFE bigStruct = Some []"
   "isPOD bigStruct False" "sampleSize bigStruct = 24" "DtoAlignment sampleFE bigStruct = 16" "\<not> isComplexRealEnum bigStruct"
   "structOf bigStruct = Some (StructDeclaration (sampleStruct ''S'' 24) (Some [])
     (map (\<lambda>i. Field (plainField (of_nat i) (8 * i)) (TypeBasic Tint64)) [0, 1, 2]))" "bigStruct \<noteq> TypeBasic b"
  by (simp_all add: bigStruct_def isComplexRealEnum.simps getArgTypes_def isPOD_def sampleStruct_def DtoAlignment_def intAlign_def returnsComplexReal_def)

lemmas function_eval = DtoFunctionType_def emptyState_def codeGenFor_def abiFor_def onDecl_def getTarget_def
  linuxTriple_def newIrFuncTy_def returnArgs_def thisArg_def nestArg_def objcSelector_def argumentsArg_def mainArgs_def
  explicitArg_def IrFuncTyArg_new_def nonNull_def llFunctionType_def


lemma int32_facts: "isPOD (TypeBasic b) False" "getArgTypes sampleFE (TypeBasic b) = None" "isPOD TypeDelegate False"
  "sd_members (sampleStruct nm n)" "isPOD (TypePointer False) False"
  by (simp_all add: isPOD_def getArgTypes_def sampleStruct_def)

lemmas x86_64_eval = X86_64_rewriteFunctionType_def skipReturnValueRewrite_def implicitRegs_def RegCount_initial_def
  X86_64_explicitArgument_def X86_64_rewriteArgument_def X86_64_applyArgTypes_def trySubtract_def checkedRegCount_def
  useInt_def setRegCount_def isByVal_def

lemmas sample_function_eval = function_eval Let_def sampleFunction_def X86_64TargetABI_def defaultTargetABI_def
  X86_64_returnInArg_def passInMemory_def X86_64_passByVal_def returnsComplexReal_def bigStruct_facts bigStruct_type
  int32_facts basic2llvm_def x86_64_eval noAttrs_def DtoAddExtendAttr_def isintegral_def isintegralTY_def word_sless_alt

lemma sampleFunction_type:
  "\<exists>funcType st'. DtoFunctionType (codeGenFor sampleFE linuxTriple False) sampleFunction None None emptyState = Some (funcType, st')"
  by (simp add: sample_function_eval)

theorem function_type_consistent_witness:
  "\<exists>funcType st' irFty as.
     DtoFunctionType (codeGenFor sampleFE linuxTriple False) sampleFunction None None emptyState = Some (funcType, st')
   \<and> st_irFty st' = Some (irFty, funcType)
   \<and> as = implicitArgs (passThisBeforeSret (getTarget sampleFE linuxTriple) sampleFunction) irFty @ args irFty
   \<and> ll_params funcType = map ltype as
   \<and> (\<forall>i < length as. paramAttrs (getParamAttrs (passThisBeforeSret (getTarget sampleFE linuxTriple) sampleFunction) irFty) i
        = attrs (as ! i))"
proof -
  obtain funcType st' where r:
    "DtoFunctionType (codeGenFor sampleFE linuxTriple False) sampleFunction None None emptyState = Some (funcType, st')"
    using sampleFunction_type by blast
  have "stOK (codeGenFor sampleFE linuxTriple False) sampleFunction emptyState" by (simp add: stOK_def emptyState_def)
  from function_type_consistent [OF sample_looksThroughEnums this r] r show ?thesis by blast
qed

end
