(* ===== verification/CallProperties.thy ===== *)
theory CallProperties
  imports ABIProperties
begin

text \<open>
  Properties of calls: register use on x86-64, the return of values, and the caching of function
  types.
\<close>

section \<open>Register use on x86-64\<close>

lemma noneSplit_append: "noneSplit free (xs @ ys) \<longleftrightarrow> noneSplit free xs \<and> noneSplit (llvmLeft free xs) ys"
  by (induction xs arbitrary: free) (simp_all add: llvmLeft_def)

lemma llvmLeft_append: "llvmLeft free (xs @ ys) = llvmLeft (llvmLeft free xs) ys"
  by (simp add: llvmLeft_def)

definition needs :: "nat \<Rightarrow> IrFuncTyArg option \<Rightarrow> bool" where
  "needs n x \<longleftrightarrow> (\<forall>a. x = Some a \<longrightarrow> llvmNeed a = (n, 0))"

definition implicitOK :: "IrFuncTy \<Rightarrow> bool" where
  "implicitOK fty \<longleftrightarrow> needs 1 (arg_sret fty) \<and> needs 1 (arg_this fty) \<and> needs 1 (arg_nest fty)
     \<and> needs 1 (arg_objcSelector fty) \<and> needs 2 (arg_arguments fty) \<and> (arg_this fty = None \<or> arg_nest fty = None)"

text \<open>
  The context of a function is an object, passed by reference, or a pointer to a frame; its
  parameters and its result are not \<open>void\<close> references.
\<close>

definition properSignature :: "Type option \<Rightarrow> Type option \<Rightarrow> TypeFunction \<Rightarrow> bool" where
  "properSignature thistype nesttype f \<longleftrightarrow>
     (thistype = None \<or> thistype = Some TypeClass \<or> (\<exists>sd. thistype = Some (TypeStruct sd))) \<and> (nesttype = None \<or> nesttype = Some (TypePointer False))
   \<and> (\<forall>p\<in>set (tf_parameters f). p_type p \<noteq> TypeBasic Tvoid)"

lemma llvmNeed_ptr: "ltype a = getOpaquePtrType \<Longrightarrow> byValType (attrs a) = None \<Longrightarrow> llvmNeed a = (1, 0)"
  by (simp add: llvmNeed_def isByVal_def)

lemma IrFuncTyArg_new_need:
  assumes "IrFuncTyArg_new fe t b at = Some a" "byValType at = None"
    and "b \<and> t \<noteq> TypeBasic Tvoid \<or> t = TypePointer False \<or> t = TypeClass"
  shows "llvmNeed a = (1, 0)"
proof (rule llvmNeed_ptr)
  show "ltype a = getOpaquePtrType" using assms(1,3) by (auto simp: IrFuncTyArg_new_def split: if_splits)
  show "byValType (attrs a) = None" using assms(1,2) by (auto simp: IrFuncTyArg_new_def)
qed

lemma newIrFuncTy_implicit:
  assumes "newIrFuncTy cg abi f th nt fd = Some fty"
  shows "thisArg cg th fd = Some (arg_this fty)" "nestArg cg th nt = Some (arg_nest fty)"
    "(if fst (objcSelector fd)
      then map_option Some (IrFuncTyArg_new (cg_fe cg) (TypePointer False) False noAttrs) else Some None)
      = Some (arg_objcSelector fty)"
    "argumentsArg cg f = Some (arg_arguments fty)"
  using assms unfolding newIrFuncTy_def by (auto split: Option.bind_splits simp del: map_option_eq_Some)

lemma needs_new:
  assumes "map_option Some (IrFuncTyArg_new fe t b at) = Some x" "byValType at = None"
    and "b \<and> t \<noteq> TypeBasic Tvoid \<or> t = TypePointer False \<or> t = TypeClass"
  shows "needs 1 x"
  using assms IrFuncTyArg_new_need by (auto simp: needs_def)

lemma needs_None: "needs n None"
  by (simp add: needs_def)

lemma sret_need:
  assumes "returnArgs cg abi f fd = Some (r, s)"
    and "tf_next f = TypeBasic Tvoid \<Longrightarrow> \<not> returnInArg abi f (onDecl fd_needThis fd)"
  shows "needs 1 s"
proof -
  have "llvmNeed x = (1, 0)" if "s = Some x" for x
  proof -
    from assms(1) that have v: "tf_next f \<noteq> TypeBasic Tvoid"
      using assms(2) by (auto simp: returnArgs_def Let_def split: Option.bind_splits if_splits)
    from assms(1) that obtain l where
      "IrFuncTyArg_new (cg_fe cg) (tf_next f) True (addAlignmentIfAny (DtoAlignment (cg_fe cg) (tf_next f))
         (addAttribute NoAlias (noAttrs\<lparr>structRetType := Some l\<rparr>))) = Some x"
      unfolding returnArgs_def Let_def by (auto split: Option.bind_splits if_splits dest: sym [of "Some _"])
    then show ?thesis
      by (rule IrFuncTyArg_new_need)
         (simp_all add: v addAlignmentIfAny_def addAlignmentAttr_def addAttribute_def noAttrs_def)
  qed
  then show ?thesis by (simp add: needs_def)
qed

lemma newIrFuncTy_implicitOK:
  assumes new: "newIrFuncTy cg abi f th nt fd = Some fty" and ok: "properSignature th nt f"
      "tf_next f = TypeBasic Tvoid \<Longrightarrow> \<not> returnInArg abi f (onDecl fd_needThis fd)"
  shows "implicitOK fty"
proof -
  note i = newIrFuncTy_implicit [OF new]
  obtain as bs where r: "returnArgs cg abi f fd = Some (ret fty, arg_sret fty)"
    using newIrFuncTy_cases [OF new] by metis
  have none: "byValType (nonNull cg noAttrs) = None" "byValType (addAttribute Returned (nonNull cg noAttrs)) = None"
    "byValType noAttrs = None"
    by (simp_all add: nonNull_def addAttribute_def noAttrs_def)
  have "needs 1 (arg_this fty)"
    using i(1) ok(1) none needs_new [of "cg_fe cg" _ _ _ "arg_this fty"]
    by (auto simp: thisArg_def properSignature_def Let_def needs_None split: if_splits)
  moreover have "needs 1 (arg_nest fty)"
    using i(2) ok(1) none(1) needs_new [of "cg_fe cg" _ _ _ "arg_nest fty"]
    by (cases th; cases nt) (auto simp: nestArg_def properSignature_def needs_None)
  moreover have "arg_this fty = None \<or> arg_nest fty = None"
    using i(1,2) by (cases th; cases nt) (auto simp: nestArg_def thisArg_def)
  moreover have "needs 1 (arg_objcSelector fty)"
    using i(3) none(3) needs_new [of "cg_fe cg" _ _ _ "arg_objcSelector fty"] by (auto simp: needs_None split: if_splits)
  moreover have "needs 2 (arg_arguments fty)"
    using i(4) by (auto simp: argumentsArg_def needs_def IrFuncTyArg_new_def DtoSize_t_def llvmNeed_def isByVal_def
        noAttrs_def split: if_splits)
  ultimately show ?thesis using sret_need [OF r ok(2)] by (simp add: implicitOK_def)
qed

text \<open>The implicit arguments take at most five registers, so they never run out.\<close>

lemma implicit_registers:
  assumes "implicitOK fty"
  shows "noneSplit (6, 8) (map llvmNeed (implicitArgs False fty))
    \<and> llvmLeft (6, 8) (map llvmNeed (implicitArgs False fty)) = freeRegs (implicitRegs fty RegCount_initial)"
  using assms implicitRegs_free [of fty]
  by (cases "arg_sret fty"; cases "arg_this fty"; cases "arg_nest fty"; cases "arg_objcSelector fty"; cases "arg_arguments fty")
     (simp_all add: implicitArgs_def map_filter_simps implicitOK_def needs_def llvmLeft_def llvmTake_def llvmSplits_def)

lemma newIrFuncTy_freshArgs:
  assumes "newIrFuncTy cg abi f th nt fd = Some fty" "properSignature th nt f"
  shows "\<forall>a\<in>set (args fty). freshArg a"
proof -
  obtain as bs where p: "mainArgs cg f fd = Some as"
      "explicitArgs cg abi f 0 (tf_parameters f) = Some bs" "args fty = as @ bs"
    using newIrFuncTy_cases [OF assms(1)] by metis
  have "freshArg a" if "explicitArg cg abi f i p = Some a" "p_type p \<noteq> TypeBasic Tvoid" for i p a
    using that unfolding explicitArg_def Let_def
    by (auto simp: freshArg_def isByVal_def IrFuncTyArg_new_def addAttribute_def nonNull_def noAttrs_def
        DtoAddExtendAttr_def Let_def split: Option.bind_splits if_splits option.splits)
  then have "\<forall>a\<in>set bs. freshArg a" if "explicitArgs cg abi f i ps = Some bs" "\<forall>p\<in>set ps. p_type p \<noteq> TypeBasic Tvoid" for i ps bs
    using that by (induction ps arbitrary: i bs) (auto split: Option.bind_splits)
  moreover have "\<forall>a\<in>set as. freshArg a"
    using p(1) by (auto simp: mainArgs_def IrFuncTyArg_new_def freshArg_def isByVal_def noAttrs_def split: if_splits)
  ultimately show ?thesis using p(2,3) assms(2) by (auto simp: properSignature_def)
qed

lemma optionalIrArgs_byVal: "optionalIrArgs cg abi f i ts = Some as \<Longrightarrow> \<forall>a\<in>set as. byref a \<longleftrightarrow> isByVal a"
  by (induction ts arbitrary: i as)
     (auto simp: optionalIrArg_def IrFuncTyArg_new_def isByVal_def addAlignmentIfAny_def addAlignmentAttr_def
       DtoAddExtendAttr_def addAttribute_def noAttrs_def Let_def split: Option.bind_splits if_splits)

text \<open>
  C16: On x86-64, no argument of a call is split between registers and memory, although LLVM
  assigns registers scalar by scalar: with 6 integer and 8 SSE registers at the start, each argument
  in turn - implicit, declared, or passed to the variadic part, in memory or not - either gets all
  the registers it needs or none. The compiler's own register count, saved in the function type for
  variadic calls, is what LLVM has left after the declared parameters. The signature has an ordinary
  context and no \<open>void\<close> parameter, each rewritten argument has less than 128 scalars (the counts are
  bytes), and the front end does not class \<open>void\<close> as passed in memory.
\<close>

theorem x86_64_no_split:
  assumes "arch triple = arch_x86_64" "\<not> isOSWindows triple" "properSignature thistype nesttype f"
    and "getArgTypes fe (TypeBasic Tvoid) \<noteq> Some []"
    and "newIrFuncTy cg (getTarget fe triple) f thistype nesttype fd = Some fty"
    and "rewriteFunctionType (getTarget fe triple) fty = Some irFty"
    and "optionalIrArgs cg (getTarget fe triple) f i varargTypes = Some varargs"
    and "rewriteVarargs (getTarget fe triple) irFty varargs = Some varargs'"
    and "\<forall>a\<in>set (args irFty @ varargs'). fewScalars a"
  shows "noneSplit (6, 8) (map llvmNeed (implicitArgs (passThisBeforeSret (getTarget fe triple) f) irFty @ args irFty @ varargs'))
    \<and> freeRegs (getRegCount irFty) =
        llvmLeft (6, 8) (map llvmNeed (implicitArgs (passThisBeforeSret (getTarget fe triple) f) irFty @ args irFty))"
proof -
  have abi: "getTarget fe triple = X86_64TargetABI fe triple" using assms(1,2) by (simp add: getTarget_def)
  have first: "\<not> passThisBeforeSret (getTarget fe triple) f" by (simp add: abi X86_64TargetABI_def defaultTargetABI_def)
  have rw: "X86_64_rewriteFunctionType fe fty = Some irFty" "X86_64_rewriteVarargs fe irFty varargs = Some varargs'"
    using assms(6,8) by (simp_all add: abi X86_64TargetABI_def)
  obtain r as rc where "irFty = setRegCount rc (fty\<lparr>ret := r, args := as\<rparr>)"
    using X86_64_rewriteFunctionTypeE [OF rw(1)] by metis
  then have same: "implicitArgs b irFty = implicitArgs b fty" for b
    by (simp only: implicitArgs_def) (simp add: setRegCount_def del: map_filter_simps cong: option.case_cong)
  have few: "\<forall>a\<in>set (args irFty). fewScalars a" "\<forall>a\<in>set varargs'. fewScalars a" using assms(9) by auto
  note regs = rewriteFunctionType_registers [OF rw(1) newIrFuncTy_freshArgs [OF assms(5,3)] few(1)]
  have "noneSplit (freeRegs (getRegCount irFty)) (map llvmNeed varargs')"
    using rewriteVarargs_registers [OF rw(2) _ optionalIrArgs_byVal [OF assms(7)] few(2)] regs by blast
  moreover have "\<not> returnInArg (getTarget fe triple) f nt" if "tf_next f = TypeBasic Tvoid" for nt
    using that assms(4) by (simp add: abi X86_64TargetABI_def X86_64_returnInArg_def passInMemory_def)
  ultimately show ?thesis
    using regs implicit_registers [OF newIrFuncTy_implicitOK [OF assms(5,3)]] first
    by (simp add: same noneSplit_append llvmLeft_append)
qed

text \<open>
  The example: the function above needs five integer registers, so a variadic argument of a struct
  of two \<open>long\<close>s would get only one and is passed in memory.
\<close>

definition pairStruct :: Type where
  "pairStruct = TypeStruct (StructDeclaration (sampleStruct ''P'' 16) (Some [TypeBasic Tint64, TypeBasic Tint64])
     [Field (plainField 1 0) (TypeBasic Tint64), Field (plainField 2 8) (TypeBasic Tint64)])"

lemma pairStruct_type: "DtoType sampleFE pairStruct = Some (StructTy (Some ''P'') False [IntegerTy 64, IntegerTy 64])"
  by (simp add: pairStruct_def IrTypeStruct_get_def sampleStruct_def Let_def sample_eval addAggregate_def collectFields_def
    visitField_def addActualField_def explicitlyInitialized_def startingFrom_def placeField_def padTo_def add_zeros_def
    emptyBuilder_def misaligned_def addTailPadding_def setGEPIndices_def ensure_def intAlign_def alignTo_def)

lemma pairStruct_facts:
  "toBasetype pairStruct = pairStruct" "ty pairStruct = Tstruct" "isPOD pairStruct False" "DtoAlignment sampleFE pairStruct = 16"
  "getRewrittenArgType sampleFE pairStruct (getArgTypes sampleFE pairStruct) = Some (Some (literalStruct [IntegerTy 64, IntegerTy 64]))"
  by (simp_all add: pairStruct_def getArgTypes_def isPOD_def sampleStruct_def DtoAlignment_def intAlign_def
      getRewrittenArgType_def basic2llvm_def)

lemmas pair_eval = X86_64_rewriteVarargs_def X86_64_vararg_def getRegCount_def optionalIrArg_def pairStruct_facts pairStruct_type
  applyToIfNotObsolete_def typesAreEquivalent_def applyTo_def rewriteType_def rewriteAttrs_def addAlignmentIfAny_def
  addAlignmentAttr_def fewScalars_def ensure_def

lemma sampleCall:
  "\<exists>fty irFty varargs varargs'. newIrFuncTy (codeGenFor sampleFE linuxTriple False) (getTarget sampleFE linuxTriple) sampleFunction None None None = Some fty
     \<and> rewriteFunctionType (getTarget sampleFE linuxTriple) fty = Some irFty
     \<and> optionalIrArgs (codeGenFor sampleFE linuxTriple False) (getTarget sampleFE linuxTriple) sampleFunction 3 [pairStruct, bigStruct]
         = Some varargs
     \<and> rewriteVarargs (getTarget sampleFE linuxTriple) irFty varargs = Some varargs'
     \<and> (\<forall>a\<in>set (args irFty @ varargs'). fewScalars a) \<and> map isByVal varargs' = [True, True]"
  by (simp add: sample_function_eval pair_eval)

theorem x86_64_no_split_witness:
  "\<exists>irFty varargs varargs'. optionalIrArgs (codeGenFor sampleFE linuxTriple False) (getTarget sampleFE linuxTriple) sampleFunction 3
         [pairStruct, bigStruct] = Some varargs
     \<and> rewriteVarargs (getTarget sampleFE linuxTriple) irFty varargs = Some varargs'
     \<and> map isByVal varargs' = [True, True]
     \<and> noneSplit (6, 8) (map llvmNeed
         (implicitArgs (passThisBeforeSret (getTarget sampleFE linuxTriple) sampleFunction) irFty @ args irFty @ varargs'))"
proof -
  obtain fty irFty varargs varargs' where c:
    "newIrFuncTy (codeGenFor sampleFE linuxTriple False) (getTarget sampleFE linuxTriple) sampleFunction None None None = Some fty"
    "rewriteFunctionType (getTarget sampleFE linuxTriple) fty = Some irFty"
    "optionalIrArgs (codeGenFor sampleFE linuxTriple False) (getTarget sampleFE linuxTriple) sampleFunction 3 [pairStruct, bigStruct]
       = Some varargs"
    "rewriteVarargs (getTarget sampleFE linuxTriple) irFty varargs = Some varargs'"
    "\<forall>a\<in>set (args irFty @ varargs'). fewScalars a" "map isByVal varargs' = [True, True]"
    using sampleCall by (elim exE conjE) (rule that)
  have p: "arch linuxTriple = arch_x86_64" "\<not> isOSWindows linuxTriple" "properSignature None None sampleFunction"
      "getArgTypes sampleFE (TypeBasic Tvoid) \<noteq> Some []"
    by (simp_all add: properSignature_def sampleFunction_def bigStruct_facts linuxTriple_def getArgTypes_def sampleFE_def)
  from x86_64_no_split [OF p c(1-5)] c(3,4,6) show ?thesis
    by (intro exI [of _ irFty] exI [of _ varargs] exI [of _ varargs'] conjI) simp_all
qed

section \<open>Returned values\<close>





lemma toBasetype_idem [simp]: "toBasetype (toBasetype t) = toBasetype t"
  by (induction t rule: toBasetype.induct) auto

lemma ty_complex80: "ty t = Tcomplex80 \<Longrightarrow> t = TypeBasic Tcomplex80"
  by (cases t) auto































section \<open>Repeated translation\<close>

text \<open>
  C23: The translation of a function type is done once: a second call returns the same LLVM type and
  changes nothing, whatever type, context or front end it is given, so an error about a missing
  selector is reported once.
\<close>

theorem function_type_cached:
  assumes "DtoFunctionType cg f thistype nesttype st = Some (funcType, st')"
  shows "DtoFunctionType cg' f' thistype' nesttype' st' = Some (funcType, st')"
proof (cases "st_irFty st")
  case None
  with assms have "\<exists>irFty. st_irFty st' = Some (irFty, funcType)"
    by (auto simp: DtoFunctionType_def Let_def split: Option.bind_splits prod.splits)
  then show ?thesis by (auto simp: DtoFunctionType_def)
next
  case (Some c)
  with assms show ?thesis by (cases c) (auto simp: DtoFunctionType_def)
qed

theorem function_type_cached_witness:
  "\<exists>funcType st'. DtoFunctionType (codeGenFor sampleFE linuxTriple False) sampleFunction None None emptyState = Some (funcType, st')
     \<and> DtoFunctionType (codeGenFor sampleFE linuxTriple True) sampleFunction None None st' = Some (funcType, st')"
  using sampleFunction_type function_type_cached by metis

section \<open>Hardware floating-point registers\<close>

lemma visitStructFields_toBasetype: "visitStructFields fe t base = visitStructFields fe (toBasetype t) base"
  by (induction t rule: toBasetype.induct) auto

lemma toBasetype_enum: "toBasetype t = TypeEnum n b \<Longrightarrow> b = None"
  by (induction t rule: toBasetype.induct) auto

text \<open>
  C22: \<open>visitStructFields\<close> never records more than two fields, which is the size of the array it writes
  them to.
\<close>

theorem flattened_fields_bounded:
  assumes "visitStructFields fe t base = Some fs"
  shows "length fs \<le> 2"
proof -
  have scalar: "flattenScalar fe t b = Some fs \<Longrightarrow> length fs \<le> 2" for t b fs
    by (auto simp: flattenScalar_def Let_def split: if_splits)
  have fields: "flattenFields r subs = Some fs \<Longrightarrow> length r \<le> 2 \<Longrightarrow> length fs \<le> 2" for r subs fs
    by (induction r subs arbitrary: fs rule: flattenFields.induct)
       (auto simp: appendFlattened_def split: option.splits if_splits)
  from assms show ?thesis
  proof (cases "toBasetype t")
    case (TypeStruct sd)
    then show ?thesis using assms fields by (cases sd) (auto simp: visitStructFields_toBasetype [of fe t])
  qed (use scalar in \<open>auto simp: visitStructFields_toBasetype [of fe t] dest: toBasetype_enum\<close>)
qed

theorem flattened_fields_bounded_witness:
  "\<exists>fs. visitStructFields sampleFE pairStruct 0 = Some fs \<and> length fs \<le> 2"
proof -
  have "\<exists>fs. visitStructFields sampleFE pairStruct 0 = Some fs"
    by (simp add: pairStruct_def flattenScalar_def appendFlattened_def plainField_def trunc32_def)
  with flattened_fields_bounded show ?thesis by metis
qed









end
