(* ===== verification/TryCatchFinally.thy ===== *)
theory TryCatchFinally
  imports Prelude
begin

text \<open>
  Cleanups, unresolved gotos and landing pads: the class \<open>TryCatchFinallyScopes\<close> with
  \<open>CleanupScope\<close> and \<open>TryCatchScope\<close> (gen/trycatchfinally.h and .cpp).

  Code that has to run whenever a scope is left (a \<open>finally\<close> block, a destructor) is emitted once.
  Every way of leaving the scope branches to it; when there are several, a branch selector
  variable, set before the branch, tells the end of the cleanup where to continue.

  The part of LLVM's function builder that the code uses is modelled by a map from block
  addresses to blocks. A block has the stores to branch selectors that were inserted before its
  terminator, possibly a landing pad instruction, and possibly a terminator; instructions that
  do not take part in control flow are left out. The address of an erased block is not used again
  in the model; the allocator may use it again, but no erased address is kept anywhere. The model is that of targets without
  Microsoft's exception handling (\<open>useMSVCEH()\<close> is false): the other variant copies cleanups
  instead of sharing them.
\<close>

section \<open>Basic blocks\<close>

type_synonym BB = nat
type_synonym Alloca = nat
type_synonym ClassInfo = ptr
type_synonym Identifier = ptr

text \<open>
  \<open>CondBranch ci b c\<close> compares the selector value of the active exception with the type id of
  \<open>ci\<close>; \<open>SwitchInst v d cs\<close> loads the branch selector \<open>v\<close> and branches on it; \<open>ResumeUnwind\<close> is the
  call of the unwind resume function followed by \<open>unreachable\<close>; \<open>OtherTerminator\<close> is any other
  terminator, with its successors.
\<close>

datatype Terminator =
    BranchInst BB
  | CondBranch ClassInfo BB BB
  | SwitchInst Alloca BB "(u32 \<times> BB) list"
  | InvokeInst BB BB
  | ResumeUnwind
  | OtherTerminator "BB list"

record LandingPadInst =
  clauses :: "ClassInfo list"
  isCleanup :: bool

record BasicBlock =
  landingPadInst :: "LandingPadInst option"
  stores :: "(Alloca \<times> u32) list"
  terminator :: "Terminator option"

definition emptyBB :: BasicBlock where
  "emptyBB = \<lparr>landingPadInst = None, stores = [], terminator = None\<rparr>"

record IRState =
  bbs :: "BB \<rightharpoonup> BasicBlock"
  nextBB :: BB
  nextAlloca :: Alloca
  scopebb :: BB

definition insertBB :: "('a IRState_scheme) \<Rightarrow> BB \<times> 'a IRState_scheme" where
  "insertBB st = (nextBB st, st\<lparr>bbs := (bbs st)(nextBB st \<mapsto> emptyBB), nextBB := nextBB st + 1\<rparr>)"

definition eraseFromParent :: "BB \<Rightarrow> 'a IRState_scheme \<Rightarrow> 'a IRState_scheme" where
  "eraseFromParent b st = st\<lparr>bbs := (bbs st)(b := None)\<rparr>"

text \<open>A second terminator would make the block malformed.\<close>

definition terminate :: "BB \<Rightarrow> Terminator \<Rightarrow> 'a IRState_scheme \<Rightarrow> 'a IRState_scheme option" where
  "terminate b t st = do {
     blk \<leftarrow> bbs st b;
     ensure (terminator blk = None);
     Some (st\<lparr>bbs := (bbs st)(b \<mapsto> blk\<lparr>terminator := Some t\<rparr>)\<rparr>) }"

definition scopereturned :: "'a IRState_scheme \<Rightarrow> bool" where
  "scopereturned st = (case bbs st (scopebb st) of None \<Rightarrow> False | Some blk \<Rightarrow> terminator blk \<noteq> None)"

definition CreateBr :: "BB \<Rightarrow> 'a IRState_scheme \<Rightarrow> 'a IRState_scheme option" where
  "CreateBr t st = terminate (scopebb st) (BranchInst t) st"

definition substBB :: "BB \<Rightarrow> BB \<Rightarrow> BB \<Rightarrow> BB" where
  "substBB a b c = (if c = a then b else c)"

fun substTerminator :: "(BB \<Rightarrow> BB) \<Rightarrow> Terminator \<Rightarrow> Terminator" where
  "substTerminator f (BranchInst b) = BranchInst (f b)"
| "substTerminator f (CondBranch ci b c) = CondBranch ci (f b) (f c)"
| "substTerminator f (SwitchInst v d cs) = SwitchInst v (f d) (map (\<lambda>(n, b). (n, f b)) cs)"
| "substTerminator f (InvokeInst b c) = InvokeInst (f b) (f c)"
| "substTerminator f ResumeUnwind = ResumeUnwind"
| "substTerminator f (OtherTerminator bs) = OtherTerminator (map f bs)"

definition replaceAllUsesWith :: "BB \<Rightarrow> BB \<Rightarrow> 'a IRState_scheme \<Rightarrow> 'a IRState_scheme" where
  "replaceAllUsesWith a b st =
     st\<lparr>bbs := (\<lambda>x. map_option (terminator_update (map_option (substTerminator (substBB a b)))) (bbs st x))\<rparr>"

text \<open>\<open>new StoreInst(value, selector, block->getTerminator())\<close>.\<close>

definition insertStore :: "Alloca \<Rightarrow> u32 \<Rightarrow> BB \<Rightarrow> 'a IRState_scheme \<Rightarrow> 'a IRState_scheme option" where
  "insertStore v n b st = do {
     blk \<leftarrow> bbs st b;
     ensure (terminator blk \<noteq> None);
     Some (st\<lparr>bbs := (bbs st)(b \<mapsto> blk\<lparr>stores := stores blk @ [(v, n)]\<rparr>)\<rparr>) }"

text \<open>\<open>SwitchInst::addCase\<close>; the case values of a switch have to be distinct.\<close>

definition addCase :: "BB \<Rightarrow> u32 \<Rightarrow> BB \<Rightarrow> 'a IRState_scheme \<Rightarrow> 'a IRState_scheme option" where
  "addCase b n t st = do {
     blk \<leftarrow> bbs st b;
     case terminator blk of
       Some (SwitchInst v d cs) \<Rightarrow>
         if n \<in> fst ` set cs then None
         else Some (st\<lparr>bbs := (bbs st)(b \<mapsto> blk\<lparr>terminator := Some (SwitchInst v d (cs @ [(n, t)]))\<rparr>)\<rparr>)
     | _ \<Rightarrow> None }"

definition setTerminator :: "BB \<Rightarrow> Terminator \<Rightarrow> 'a IRState_scheme \<Rightarrow> 'a IRState_scheme option" where
  "setTerminator b t st = do {
     blk \<leftarrow> bbs st b;
     ensure (terminator blk \<noteq> None);
     Some (st\<lparr>bbs := (bbs st)(b \<mapsto> blk\<lparr>terminator := Some t\<rparr>)\<rparr>) }"

section \<open>Cleanup scopes\<close>

record CleanupExitTarget =
  branchTarget :: BB
  sourceBlocks :: "BB list"

record CleanupScope =
  beginBlock :: BB
  endBlock :: BB
  branchSelector :: "Alloca option"
  exitTargets :: "CleanupExitTarget list"

definition newCleanupScope :: "BB \<Rightarrow> BB \<Rightarrow> CleanupScope" where
  "newCleanupScope b e = \<lparr>beginBlock = b, endBlock = e, branchSelector = None, exitTargets = []\<rparr>"

definition addSource :: "nat \<Rightarrow> BB \<Rightarrow> CleanupScope \<Rightarrow> CleanupScope" where
  "addSource i s c = c\<lparr>exitTargets := (exitTargets c)[i := (exitTargets c ! i)\<lparr>sourceBlocks := sourceBlocks (exitTargets c ! i) @ [s]\<rparr>]\<rparr>"

text \<open>
  The first time a second target is needed: the sources seen so far store 0, and the branch at
  the end of the cleanup becomes a switch whose default is the target they have in common.
\<close>

definition createSelector :: "CleanupScope \<Rightarrow> 'a IRState_scheme \<Rightarrow> (CleanupScope \<times> 'a IRState_scheme) option" where
  "createSelector c st = do {
     let v = nextAlloca st;
     st1 \<leftarrow> iterM (insertStore v 0) (sourceBlocks (exitTargets c ! 0)) (st\<lparr>nextAlloca := v + 1\<rparr>);
     st2 \<leftarrow> setTerminator (endBlock c) (SwitchInst v (branchTarget (exitTargets c ! 0)) []) st1;
     Some (c\<lparr>branchSelector := Some v\<rparr>, st2) }"

fun findTarget :: "BB \<Rightarrow> CleanupExitTarget list \<Rightarrow> nat option" where
  "findTarget b [] = None"
| "findTarget b (t # ts) = (if branchTarget t = b then Some 0 else map_option Suc (findTarget b ts))"

text \<open>\<open>CleanupScope::run\<close>; its result is always \<open>beginBlock\<close>.\<close>

definition runDirect :: "CleanupScope \<Rightarrow> BB \<Rightarrow> BB \<Rightarrow> 'a IRState_scheme \<Rightarrow> (CleanupScope \<times> 'a IRState_scheme) option" where
  "runDirect c sourceBlock continueWith st = do {
     ensure (branchSelector c = None);
     (c1, st1) \<leftarrow> (if exitTargets c = [] then do {
         st1 \<leftarrow> terminate (endBlock c) (BranchInst continueWith) st;
         Some (c\<lparr>exitTargets := [\<lparr>branchTarget = continueWith, sourceBlocks = []\<rparr>]\<rparr>, st1) }
       else Some (c, st));
     Some (addSource 0 sourceBlock c1, st1) }"

definition runSelected :: "CleanupScope \<Rightarrow> BB \<Rightarrow> BB \<Rightarrow> 'a IRState_scheme \<Rightarrow> (CleanupScope \<times> 'a IRState_scheme) option" where
  "runSelected c sourceBlock continueWith st = do {
     v \<leftarrow> branchSelector c;
     case findTarget continueWith (exitTargets c) of
       Some i \<Rightarrow> do {
         st1 \<leftarrow> insertStore v (of_nat i) sourceBlock st;
         Some (addSource i sourceBlock c, st1) }
     | None \<Rightarrow> do {
         let selectorVal = of_nat (length (exitTargets c));
         st1 \<leftarrow> addCase (endBlock c) selectorVal continueWith st;
         st2 \<leftarrow> insertStore v selectorVal sourceBlock st1;
         Some (c\<lparr>exitTargets := exitTargets c @ [\<lparr>branchTarget = continueWith, sourceBlocks = [sourceBlock]\<rparr>]\<rparr>, st2) } }"

definition run :: "CleanupScope \<Rightarrow> BB \<Rightarrow> BB \<Rightarrow> 'a IRState_scheme \<Rightarrow> (CleanupScope \<times> 'a IRState_scheme) option" where
  "run c sourceBlock continueWith st =
     (if exitTargets c = [] \<or> (length (exitTargets c) = 1 \<and> branchTarget (exitTargets c ! 0) = continueWith)
      then runDirect c sourceBlock continueWith st
      else do {
        (c1, st1) \<leftarrow> (if branchSelector c = None then createSelector c st else Some (c, st));
        runSelected c1 sourceBlock continueWith st1 })"

section \<open>The stacks of scopes\<close>

record GotoJump =
  sourceLoc :: nat
  sourceBlock :: BB
  tentativeTarget :: BB
  targetLabel :: Identifier

record CatchBlock =
  classInfoPtr :: ClassInfo
  bodyBB :: BB

record TryCatchScope =
  cleanupScope :: nat
  catchesNonExceptions :: bool
  catchBlocks :: "CatchBlock list"

record TryCatchFinallyScopes = IRState +
  ehPtrSlot :: bool
  ehSelectorSlot :: bool
  resumeUnwindBlock :: "BB option"
  tryCatchScopes :: "TryCatchScope list"
  cleanupScopes :: "CleanupScope list"
  unresolvedGotosPerCleanupScope :: "GotoJump list list"
  landingPadsPerCleanupScope :: "BB option list list"

text \<open>The constructor: the top-level stacks.\<close>

definition initialScopes :: "IRState \<Rightarrow> TryCatchFinallyScopes" where
  "initialScopes irs = IRState.extend irs
     \<lparr>ehPtrSlot = False, ehSelectorSlot = False, resumeUnwindBlock = None, tryCatchScopes = [], cleanupScopes = [],
      unresolvedGotosPerCleanupScope = [[]], landingPadsPerCleanupScope = [[]]\<rparr>"

definition currentCleanupScope :: "'a TryCatchFinallyScopes_scheme \<Rightarrow> nat" where
  "currentCleanupScope st = length (cleanupScopes st)"

definition currentUnresolvedGotos :: "'a TryCatchFinallyScopes_scheme \<Rightarrow> GotoJump list" where
  "currentUnresolvedGotos st = unresolvedGotosPerCleanupScope st ! currentCleanupScope st"

text \<open>
  The destructor: reports every goto that is still unresolved (\<open>Inl\<close> their locations, followed by
  \<open>fatal()\<close>), after asserting that all cleanups were popped.
\<close>

definition finishScopes :: "'a TryCatchFinallyScopes_scheme \<Rightarrow> (nat list + unit) option" where
  "finishScopes st = do {
     ensure (currentCleanupScope st = 0);
     Some (if currentUnresolvedGotos st = [] then Inr () else Inl (map sourceLoc (currentUnresolvedGotos st))) }"

definition scopes_empty :: "'a TryCatchFinallyScopes_scheme \<Rightarrow> bool" where
  "scopes_empty st = (tryCatchScopes st = [] \<and> cleanupScopes st = [])"

text \<open>
  \<open>pushTryCatch\<close>, after the constructor of \<open>TryCatchScope\<close> has emitted the catch bodies given as
  \<open>blocks\<close>, and \<open>popTryCatch\<close>.
\<close>

definition pushTryCatch :: "CatchBlock list \<Rightarrow> bool \<Rightarrow> 'a TryCatchFinallyScopes_scheme \<Rightarrow> 'a TryCatchFinallyScopes_scheme" where
  "pushTryCatch blocks nonExceptions st =
     (let i = currentCleanupScope st;
          scope = \<lparr>cleanupScope = i, catchesNonExceptions = nonExceptions, catchBlocks = blocks\<rparr>
      in st\<lparr>ehPtrSlot := True, tryCatchScopes := tryCatchScopes st @ [scope],
            landingPadsPerCleanupScope := (landingPadsPerCleanupScope st)[i := landingPadsPerCleanupScope st ! i @ [None]]\<rparr>)"

definition popTryCatch :: "'a TryCatchFinallyScopes_scheme \<Rightarrow> 'a TryCatchFinallyScopes_scheme option" where
  "popTryCatch st =
     (let i = currentCleanupScope st; pads = landingPadsPerCleanupScope st ! i
      in if tryCatchScopes st = [] \<or> pads = [] then None
         else Some (st\<lparr>tryCatchScopes := butlast (tryCatchScopes st),
                       landingPadsPerCleanupScope := (landingPadsPerCleanupScope st)[i := butlast pads]\<rparr>))"

definition isCatchingNonExceptions :: "'a TryCatchFinallyScopes_scheme \<Rightarrow> bool" where
  "isCatchingNonExceptions st = (\<exists>tc\<in>set (tryCatchScopes st). catchesNonExceptions tc)"

definition pushCleanup :: "BB \<Rightarrow> BB \<Rightarrow> 'a TryCatchFinallyScopes_scheme \<Rightarrow> 'a TryCatchFinallyScopes_scheme" where
  "pushCleanup b e st =
     st\<lparr>cleanupScopes := cleanupScopes st @ [newCleanupScope b e],
        unresolvedGotosPerCleanupScope := unresolvedGotosPerCleanupScope st @ [[]],
        landingPadsPerCleanupScope := landingPadsPerCleanupScope st @ [[]]\<rparr>"

text \<open>\<open>cleanupScopes[i].run(irs, source, next)\<close>.\<close>

definition runScope :: "nat \<Rightarrow> BB \<Rightarrow> BB \<Rightarrow> 'a TryCatchFinallyScopes_scheme \<Rightarrow> 'a TryCatchFinallyScopes_scheme option" where
  "runScope i source continueWith st = do {
     ensure (i < length (cleanupScopes st));
     (c, st1) \<leftarrow> run (cleanupScopes st ! i) source continueWith st;
     Some (st1\<lparr>cleanupScopes := (cleanupScopes st1)[i := c]\<rparr>) }"

text \<open>
  \<open>popCleanups\<close>. A goto that is still unresolved leaves the scope: the branches to its tentative
  target are redirected to the cleanup, which continues with the tentative target.
\<close>

definition rerouteGoto :: "nat \<Rightarrow> GotoJump \<Rightarrow> 'a TryCatchFinallyScopes_scheme \<Rightarrow> 'a TryCatchFinallyScopes_scheme option" where
  "rerouteGoto i g st = do {
     let tentative = tentativeTarget g;
     let (dummy, st1) = insertBB st;
     st2 \<leftarrow> runScope i (sourceBlock g) tentative (replaceAllUsesWith tentative dummy st1);
     Some (eraseFromParent dummy (replaceAllUsesWith dummy (beginBlock (cleanupScopes st2 ! i)) st2)) }"

definition popScope :: "nat \<Rightarrow> 'a TryCatchFinallyScopes_scheme \<Rightarrow> 'a TryCatchFinallyScopes_scheme option" where
  "popScope i st = do {
     st1 \<leftarrow> iterM (rerouteGoto i) (currentUnresolvedGotos st) st;
     let gotos = unresolvedGotosPerCleanupScope st1;
     Some (st1\<lparr>cleanupScopes := butlast (cleanupScopes st1),
        unresolvedGotosPerCleanupScope := butlast (gotos[i := gotos ! i @ currentUnresolvedGotos st1]),
        landingPadsPerCleanupScope := butlast (landingPadsPerCleanupScope st1)\<rparr>) }"

definition popCleanups :: "nat \<Rightarrow> 'a TryCatchFinallyScopes_scheme \<Rightarrow> 'a TryCatchFinallyScopes_scheme option" where
  "popCleanups targetScope st = do {
     ensure (targetScope \<le> currentCleanupScope st);
     iterM popScope (rev [targetScope..<currentCleanupScope st]) st }"

text \<open>
  \<open>runCleanups\<close>, with the scope to start from; the public overload starts from the current one.
\<close>

definition runCleanups_from :: "nat \<Rightarrow> nat \<Rightarrow> BB \<Rightarrow> 'a TryCatchFinallyScopes_scheme \<Rightarrow> 'a TryCatchFinallyScopes_scheme option" where
  "runCleanups_from sourceScope targetScope continueWith st = do {
     ensure (targetScope \<le> sourceScope);
     if targetScope = sourceScope then CreateBr continueWith st
     else do {
       ensure (sourceScope \<le> length (cleanupScopes st));
       st1 \<leftarrow> CreateBr (beginBlock (cleanupScopes st ! (sourceScope - 1))) st;
       iterM (\<lambda>i st. runScope i (scopebb st)
           (if targetScope < i then beginBlock (cleanupScopes st ! (i - 1)) else continueWith) st)
         (rev [targetScope..<sourceScope]) st1 } }"

definition runCleanups :: "nat \<Rightarrow> BB \<Rightarrow> 'a TryCatchFinallyScopes_scheme \<Rightarrow> 'a TryCatchFinallyScopes_scheme option" where
  "runCleanups targetScope continueWith st = runCleanups_from (currentCleanupScope st) targetScope continueWith st"

definition registerUnresolvedGoto :: "nat \<Rightarrow> Identifier \<Rightarrow> 'a TryCatchFinallyScopes_scheme \<Rightarrow> 'a TryCatchFinallyScopes_scheme option" where
  "registerUnresolvedGoto loc labelName st = do {
     let (target, st1) = insertBB st;
     st2 \<leftarrow> CreateBr target st1;
     let i = currentCleanupScope st2;
     let g = \<lparr>sourceLoc = loc, sourceBlock = scopebb st2, tentativeTarget = target, targetLabel = labelName\<rparr>;
     Some (st2\<lparr>unresolvedGotosPerCleanupScope :=
       (unresolvedGotosPerCleanupScope st2)[i := unresolvedGotosPerCleanupScope st2 ! i @ [g]]\<rparr>) }"

text \<open>
  The loop of \<open>tryResolveGotos\<close>, over the index \<open>i\<close> into the vector of gotos, from which the resolved
  ones are erased.
\<close>

function resolveGotos :: "Identifier \<Rightarrow> BB \<Rightarrow> nat \<Rightarrow> GotoJump list \<Rightarrow> 'a TryCatchFinallyScopes_scheme \<Rightarrow> GotoJump list \<times> 'a TryCatchFinallyScopes_scheme" where
  "resolveGotos labelName block i unresolved st =
     (if length unresolved \<le> i then (unresolved, st)
      else if targetLabel (unresolved ! i) \<noteq> labelName then resolveGotos labelName block (i + 1) unresolved st
      else resolveGotos labelName block i (take i unresolved @ drop (i + 1) unresolved)
        (eraseFromParent (tentativeTarget (unresolved ! i)) (replaceAllUsesWith (tentativeTarget (unresolved ! i)) block st)))"
  by pat_completeness auto
termination
  by (relation "measure (\<lambda>(l, b, i, gs, st). length gs - i)") auto

declare resolveGotos.simps [simp del]

definition tryResolveGotos :: "Identifier \<Rightarrow> BB \<Rightarrow> 'a TryCatchFinallyScopes_scheme \<Rightarrow> 'a TryCatchFinallyScopes_scheme" where
  "tryResolveGotos labelName block st =
     (let (rest, st1) = resolveGotos labelName block 0 (currentUnresolvedGotos st) st
      in st1\<lparr>unresolvedGotosPerCleanupScope := (unresolvedGotosPerCleanupScope st1)[currentCleanupScope st1 := rest]\<rparr>)"

section \<open>Landing pads\<close>

definition updateLandingPad :: "(LandingPadInst \<Rightarrow> LandingPadInst) \<Rightarrow> BB \<Rightarrow> 'a IRState_scheme \<Rightarrow> 'a IRState_scheme" where
  "updateLandingPad f b st = st\<lparr>bbs := (bbs st)(b := map_option (landingPadInst_update (map_option f)) (bbs st b))\<rparr>"

definition setCleanup :: "BB \<Rightarrow> 'a IRState_scheme \<Rightarrow> 'a IRState_scheme" where
  "setCleanup = updateLandingPad (isCleanup_update (\<lambda>_. True))"

definition addClause :: "ClassInfo \<Rightarrow> BB \<Rightarrow> 'a IRState_scheme \<Rightarrow> 'a IRState_scheme" where
  "addClause ci = updateLandingPad (clauses_update (\<lambda>cs. cs @ [ci]))"

definition createLandingPadInst :: "BB \<Rightarrow> 'a IRState_scheme \<Rightarrow> 'a IRState_scheme" where
  "createLandingPadInst b st =
     st\<lparr>bbs := (bbs st)(b := map_option (landingPadInst_update (\<lambda>_. Some \<lparr>clauses = [], isCleanup = False\<rparr>)) (bbs st b))\<rparr>"

definition getOrCreateResumeUnwindBlock :: "'a TryCatchFinallyScopes_scheme \<Rightarrow> (BB \<times> 'a TryCatchFinallyScopes_scheme) option" where
  "getOrCreateResumeUnwindBlock st =
     (case resumeUnwindBlock st of
        Some b \<Rightarrow> Some (b, st)
      | None \<Rightarrow> do {
          let (b, st1) = insertBB st;
          st2 \<leftarrow> terminate b ResumeUnwind (st1\<lparr>resumeUnwindBlock := Some b, ehPtrSlot := True\<rparr>);
          Some (b, st2) })"

text \<open>The test of one catch block; the insertion point moves to the block for a mismatch.\<close>

definition emitCatchTest :: "BB \<Rightarrow> CatchBlock \<Rightarrow> 'a TryCatchFinallyScopes_scheme \<Rightarrow> 'a TryCatchFinallyScopes_scheme option" where
  "emitCatchTest beginBB cb st = do {
     let (mismatchBB, st1) = insertBB (addClause (classInfoPtr cb) beginBB st);
     st2 \<leftarrow> terminate (scopebb st1) (CondBranch (classInfoPtr cb) (bodyBB cb) mismatchBB) st1;
     Some (st2\<lparr>scopebb := mismatchBB\<rparr>) }"

text \<open>One try-catch scope: the cleanups between the previous one and this one, then its tests.\<close>

definition emitCatches :: "BB \<Rightarrow> TryCatchScope \<Rightarrow> nat \<times> 'a TryCatchFinallyScopes_scheme \<Rightarrow> (nat \<times> 'a TryCatchFinallyScopes_scheme) option" where
  "emitCatches beginBB tc = (\<lambda>(lastCleanup, st). do {
     let newCleanup = cleanupScope tc;
     ensure (newCleanup \<le> lastCleanup);
     st1 \<leftarrow> (if newCleanup < lastCleanup then do {
         let (afterCleanupBB, st1) = insertBB (setCleanup beginBB st);
         st2 \<leftarrow> runCleanups_from lastCleanup newCleanup afterCleanupBB st1;
         Some (st2\<lparr>scopebb := afterCleanupBB\<rparr>) }
       else Some st);
     ensure (catchBlocks tc \<noteq> []);
     st2 \<leftarrow> iterM (emitCatchTest beginBB) (catchBlocks tc) st1;
     Some (newCleanup, st2) })"

definition emitLandingPad :: "'a TryCatchFinallyScopes_scheme \<Rightarrow> (BB \<times> 'a TryCatchFinallyScopes_scheme) option" where
  "emitLandingPad st = do {
     let saved = scopebb st;
     let (beginBB, st1) = insertBB st;
     let st2 = (createLandingPadInst beginBB st1)\<lparr>scopebb := beginBB, ehPtrSlot := True, ehSelectorSlot := True\<rparr>;
     (lastCleanup, st3) \<leftarrow> iterM (emitCatches beginBB) (rev (tryCatchScopes st)) (currentCleanupScope st, st2);
     (resume, st4) \<leftarrow> getOrCreateResumeUnwindBlock st3;
     st5 \<leftarrow> (if 0 < lastCleanup then runCleanups_from lastCleanup 0 resume (setCleanup beginBB st4)
            else if tryCatchScopes st \<noteq> [] then
              Some (eraseFromParent (scopebb st4) (replaceAllUsesWith (scopebb st4) resume st4))
            else CreateBr resume st4);
     Some (beginBB, st5\<lparr>scopebb := saved\<rparr>) }"

text \<open>\<open>getLandingPadRef\<close> makes sure that the list of the scope is not empty.\<close>

definition getLandingPadRef :: "nat \<Rightarrow> 'a TryCatchFinallyScopes_scheme \<Rightarrow> 'a TryCatchFinallyScopes_scheme" where
  "getLandingPadRef i st =
     (if landingPadsPerCleanupScope st ! i = []
      then st\<lparr>landingPadsPerCleanupScope := (landingPadsPerCleanupScope st)[i := [None]]\<rparr> else st)"

definition getLandingPad :: "'a TryCatchFinallyScopes_scheme \<Rightarrow> (BB \<times> 'a TryCatchFinallyScopes_scheme) option" where
  "getLandingPad st =
     (let i = currentCleanupScope st; st1 = getLandingPadRef i st
      in case last (landingPadsPerCleanupScope st1 ! i) of
           Some pad \<Rightarrow> Some (pad, st1)
         | None \<Rightarrow> do {
             (pad, st2) \<leftarrow> emitLandingPad st1;
             let pads = landingPadsPerCleanupScope st2;
             Some (pad, st2\<lparr>landingPadsPerCleanupScope := pads[i := butlast (pads ! i) @ [Some pad]]\<rparr>) })"

end
