(* ===== verification/CleanupRoutes.thy ===== *)
theory CleanupRoutes
  imports TryCatchFinally
begin

text \<open>
  The invariant of \<open>TryCatchFinallyScopes\<close>, and the routes that its branches give control through
  the cleanups.
\<close>

section \<open>Branching on a selector\<close>

text \<open>The value of a selector variable after the stores of a block, if they set it.\<close>

definition lastStore :: "(Alloca \<times> u32) list \<Rightarrow> Alloca \<Rightarrow> u32 option" where
  "lastStore ss v = map_of (rev ss) v"

lemma lastStore_append_other: "(\<forall>x\<in>set xs. fst x \<noteq> v) \<Longrightarrow> lastStore (ss @ xs) v = lastStore ss v"
  by (force simp: lastStore_def map_add_def split: option.splits dest: map_of_SomeD)

lemma lastStore_append [simp]: "lastStore (ss @ [(v, n)]) v = Some n"
  by (simp add: lastStore_def)

lemma lastStore_append_const: "ns \<noteq> [] \<Longrightarrow> set ns \<subseteq> {n} \<Longrightarrow> lastStore (ss @ map (Pair v) ns) v = Some n"
  by (induction ns rule: rev_induct) (auto simp: lastStore_def)

text \<open>Where a terminator goes after the stores \<open>ss\<close>, when they determine it.\<close>

fun hop :: "(Alloca \<times> u32) list \<Rightarrow> Terminator option \<Rightarrow> BB option" where
  "hop ss (Some (BranchInst b)) = Some b"
| "hop ss (Some (SwitchInst v d cs)) =
     map_option (\<lambda>n. case map_of cs n of None \<Rightarrow> d | Some b \<Rightarrow> b) (lastStore ss v)"
| "hop ss t = None"

lemma hop_subst: "hop ss (map_option (substTerminator f) t) = map_option f (hop ss t)"
proof (cases "(ss, t)" rule: hop.cases)
  case (2 ss' v d cs)
  have "map_of (map (\<lambda>(n, b). (n, f b)) cs) n = map_option f (map_of cs n)" for n
    by (induction cs) auto
  with 2 show ?thesis by (auto simp: option.map_comp comp_def split: option.splits intro!: option.map_cong)
qed auto

section \<open>The invariant of one cleanup scope\<close>

definition terminated :: "(BB \<rightharpoonup> BasicBlock) \<Rightarrow> BB \<Rightarrow> bool" where
  "terminated m b \<longleftrightarrow> (\<exists>blk. m b = Some blk \<and> terminator blk \<noteq> None)"

definition unterminated :: "(BB \<rightharpoonup> BasicBlock) \<Rightarrow> BB \<Rightarrow> bool" where
  "unterminated m b \<longleftrightarrow> (\<exists>blk. m b = Some blk \<and> terminator blk = None)"

definition recordedTo :: "CleanupScope \<Rightarrow> BB \<Rightarrow> BB \<Rightarrow> bool" where
  "recordedTo c s b \<longleftrightarrow> (\<exists>x\<in>set (exitTargets c). branchTarget x = b \<and> s \<in> set (sourceBlocks x))"

definition recorded :: "CleanupScope \<Rightarrow> BB set" where
  "recorded c = {s. \<exists>b. recordedTo c s b}"

definition targets :: "CleanupScope \<Rightarrow> BB set" where
  "targets c = branchTarget ` set (exitTargets c)"

definition selectorCases :: "CleanupExitTarget list \<Rightarrow> (u32 \<times> BB) list" where
  "selectorCases ts = map (\<lambda>i. (of_nat i, branchTarget (ts ! i))) [1..<length ts]"

text \<open>The terminator of the end block for the exit targets recorded so far.\<close>

definition exitTerm :: "CleanupScope \<Rightarrow> Terminator option" where
  "exitTerm c =
     (case exitTargets c of
        [] \<Rightarrow> None
      | t # _ \<Rightarrow>
         (case branchSelector c of
            None \<Rightarrow> Some (BranchInst (branchTarget t))
          | Some v \<Rightarrow> Some (SwitchInst v (branchTarget t) (selectorCases (exitTargets c)))))"

definition selectsOK :: "(BB \<rightharpoonup> BasicBlock) \<Rightarrow> CleanupScope \<Rightarrow> bool" where
  "selectsOK m c \<longleftrightarrow>
     (\<forall>i < length (exitTargets c). \<forall>s\<in>set (sourceBlocks (exitTargets c ! i)). \<exists>blk.
        m s = Some blk \<and> terminator blk \<noteq> None \<and>
        (\<forall>v. branchSelector c = Some v \<longrightarrow> lastStore (stores blk) v = Some (of_nat i)))"

definition okScope :: "(BB \<rightharpoonup> BasicBlock) \<Rightarrow> Alloca \<Rightarrow> CleanupScope \<Rightarrow> bool" where
  "okScope m na c \<longleftrightarrow>
     (\<exists>blk. m (endBlock c) = Some blk \<and> stores blk = [] \<and> terminator blk = exitTerm c)
   \<and> distinct (map branchTarget (exitTargets c))
   \<and> (branchSelector c = None \<longrightarrow> length (exitTargets c) \<le> 1)
   \<and> (\<forall>v. branchSelector c = Some v \<longrightarrow> exitTargets c \<noteq> [] \<and> length (exitTargets c) \<le> 2 ^ 32 \<and> v < na)
   \<and> selectsOK m c"

lemma okScope_block:
  assumes "okScope m na c"
  obtains blk where "m (endBlock c) = Some blk" "stores blk = []" "terminator blk = exitTerm c"
  using assms by (auto simp: okScope_def)

lemma map_of_selectorCases:
  assumes "i < length ts" "length ts \<le> 2 ^ 32"
  shows "(case map_of (selectorCases ts) (of_nat i) of None \<Rightarrow> branchTarget (ts ! 0) | Some b \<Rightarrow> b) = branchTarget (ts ! i)"
proof -
  have inj: "(of_nat j :: u32) = of_nat i \<longleftrightarrow> j = i" if "j < length ts" for j
    using of_nat_inj_small [where 'a = 32, of j i] that assms by auto
  have upto: "map_of (map (\<lambda>i. (of_nat i :: u32, branchTarget (ts ! i))) [1..<n]) (of_nat i)
      = (if 1 \<le> i \<and> i < n then Some (branchTarget (ts ! i)) else None)" if "n \<le> length ts" for n
    using that
  proof (induction n)
    case (Suc n)
    then show ?case using inj [of n] by (cases "1 \<le> n") (auto simp: map_add_def split: option.splits)
  qed simp
  then show ?thesis using assms by (cases "i = 0") (auto simp: selectorCases_def)
qed

text \<open>Control coming from a recorded source leaves the cleanup towards the target recorded for it.\<close>

lemma okScope_hop:
  assumes "okScope m na c" "recordedTo c s b" "m s = Some sblk" "m (endBlock c) = Some blk"
  shows "hop (stores sblk) (terminator blk) = Some b"
proof -
  obtain i where i: "i < length (exitTargets c)" "branchTarget (exitTargets c ! i) = b" "s \<in> set (sourceBlocks (exitTargets c ! i))"
    using assms(2) unfolding recordedTo_def by (metis in_set_conv_nth)
  have t: "terminator blk = exitTerm c" using assms(1,4) by (auto simp: okScope_def)
  obtain x xs where ts: "exitTargets c = x # xs" using i(1) by (cases "exitTargets c") auto
  show ?thesis
  proof (cases "branchSelector c")
    case None
    then have "i = 0" using assms(1) i(1) by (auto simp: okScope_def)
    with None t i(2) ts show ?thesis by (simp add: exitTerm_def)
  next
    case (Some v)
    then have l: "length (exitTargets c) \<le> 2 ^ 32" using assms(1) by (simp add: okScope_def)
    have l2: "lastStore (stores sblk) v = Some (of_nat i)"
      using assms(1,3) i Some by (fastforce simp: okScope_def selectsOK_def)
    have "terminator blk = Some (SwitchInst v (branchTarget (exitTargets c ! 0)) (selectorCases (exitTargets c)))"
      using Some t ts by (simp add: exitTerm_def)
    then show ?thesis using map_of_selectorCases [OF i(1) l] l2 i(2) by simp
  qed
qed

section \<open>The effect of \<open>run\<close>\<close>

text \<open>
  Apart from the end block of the cleanup, blocks change only by stores to its selector, and only
  those in \<open>A\<close> do.
\<close>

definition touched :: "(BB \<rightharpoonup> BasicBlock) \<Rightarrow> (BB \<rightharpoonup> BasicBlock) \<Rightarrow> BB \<Rightarrow> BB set \<Rightarrow> Alloca option \<Rightarrow> bool" where
  "touched m m' e A sel \<longleftrightarrow>
     (\<forall>b. b \<noteq> e \<longrightarrow> m' b = m b \<or>
        b \<in> A \<and> (\<exists>v blk ns. sel = Some v \<and> m b = Some blk \<and> terminator blk \<noteq> None
                   \<and> m' b = Some (blk\<lparr>stores := stores blk @ map (Pair v) ns\<rparr>)))"

lemma touched_refl: "touched m m e A sel"
  by (simp add: touched_def)

lemma touched_cases:
  assumes "touched m m' e A sel" "b \<noteq> e"
  obtains "m' b = m b"
  | v blk ns where "b \<in> A" "sel = Some v" "m b = Some blk" "terminator blk \<noteq> None"
      "m' b = Some (blk\<lparr>stores := stores blk @ map (Pair v) ns\<rparr>)"
  using assms unfolding touched_def by blast

lemma touched_trans:
  assumes "touched m m1 e A sel" "touched m1 m2 e A sel"
  shows "touched m m2 e A sel"
  unfolding touched_def
proof (intro allI impI)
  fix b assume b: "b \<noteq> e"
  show "m2 b = m b \<or> b \<in> A \<and> (\<exists>v blk ns. sel = Some v \<and> m b = Some blk \<and> terminator blk \<noteq> None
      \<and> m2 b = Some (blk\<lparr>stores := stores blk @ map (Pair v) ns\<rparr>))"
    using assms(1) b
  proof (cases rule: touched_cases)
    case 1
    then show ?thesis using assms(2) b unfolding touched_def by metis
  next
    case one: (2 v blk ns)
    show ?thesis using assms(2) b
    proof (cases rule: touched_cases)
      case 1
      with one show ?thesis by (intro disjI2 conjI exI [of _ v] exI [of _ blk] exI [of _ ns]) simp_all
    next
      case (2 w blk' ks)
      with one have "m2 b = Some (blk\<lparr>stores := stores blk @ map (Pair v) (ns @ ks)\<rparr>)" by auto
      with one show ?thesis by (intro disjI2 conjI exI [of _ v] exI [of _ blk] exI [of _ "ns @ ks"]) simp_all
    qed
  qed
qed

lemma insertStore_Some:
  assumes "insertStore v n b st = Some st'"
  obtains blk where "bbs st b = Some blk" "terminator blk \<noteq> None"
    "st' = st\<lparr>bbs := (bbs st)(b \<mapsto> blk\<lparr>stores := stores blk @ [(v, n)]\<rparr>)\<rparr>"
  using assms by (auto simp: insertStore_def split: Option.bind_splits if_splits)

lemma insertStore_touched:
  assumes "insertStore v n b st = Some st'" "b \<in> A"
  shows "touched (bbs st) (bbs st') e A (Some v)"
  using assms(1)
proof (rule insertStore_Some)
  fix blk
  assume "bbs st b = Some blk" "terminator blk \<noteq> None"
    "st' = st\<lparr>bbs := (bbs st)(b \<mapsto> blk\<lparr>stores := stores blk @ [(v, n)]\<rparr>)\<rparr>"
  then show ?thesis using assms(2) by (auto simp: touched_def intro!: exI [of _ "[n]"])
qed

lemma insertStores:
  assumes "iterM (insertStore v n) bs st = Some st'" "set bs \<subseteq> A"
  shows "(\<exists>m. st' = st\<lparr>bbs := m\<rparr>) \<and> touched (bbs st) (bbs st') e A (Some v)
    \<and> (\<forall>b\<in>set bs. \<exists>blk. bbs st' b = Some blk \<and> terminator blk \<noteq> None \<and> lastStore (stores blk) v = Some n)
    \<and> (\<forall>b. b \<notin> set bs \<longrightarrow> bbs st' b = bbs st b)"
  using assms
proof (induction bs arbitrary: st)
  case Nil
  then show ?case by (auto simp: touched_refl intro: exI [of _ "bbs st"])
next
  case (Cons b bs)
  from Cons.prems(1) obtain st1 where st1: "insertStore v n b st = Some st1" "iterM (insertStore v n) bs st1 = Some st'"
    by (auto split: Option.bind_splits)
  from st1(1) obtain blk where blk: "bbs st b = Some blk" "terminator blk \<noteq> None"
      "st1 = st\<lparr>bbs := (bbs st)(b \<mapsto> blk\<lparr>stores := stores blk @ [(v, n)]\<rparr>)\<rparr>"
    by (rule insertStore_Some)
  have IH: "(\<exists>m. st' = st1\<lparr>bbs := m\<rparr>)" "touched (bbs st1) (bbs st') e A (Some v)"
    "\<forall>b\<in>set bs. \<exists>blk. bbs st' b = Some blk \<and> terminator blk \<noteq> None \<and> lastStore (stores blk) v = Some n"
    "\<forall>b. b \<notin> set bs \<longrightarrow> bbs st' b = bbs st1 b"
    using Cons.IH [OF st1(2)] Cons.prems(2) by auto
  have "touched (bbs st) (bbs st1) e A (Some v)"
    using insertStore_touched [OF st1(1)] Cons.prems(2) by simp
  with IH(2) have "touched (bbs st) (bbs st') e A (Some v)" by (rule touched_trans [rotated])
  moreover have "\<exists>blk. bbs st' b = Some blk \<and> terminator blk \<noteq> None \<and> lastStore (stores blk) v = Some n"
    using IH(3,4) blk by (cases "b \<in> set bs") auto
  ultimately show ?case using IH blk(3) by auto
qed

lemma recorded_iff: "s \<in> recorded c \<longleftrightarrow> (\<exists>x\<in>set (exitTargets c). s \<in> set (sourceBlocks x))"
  by (auto simp: recorded_def recordedTo_def)

lemma recordedTo_addSource:
  assumes "i < length (exitTargets c)"
  shows "recordedTo (addSource i s c) r b \<longleftrightarrow> recordedTo c r b \<or> r = s \<and> b = branchTarget (exitTargets c ! i)"
proof -
  let ?ts = "exitTargets c"
  let ?x = "(?ts ! i)\<lparr>sourceBlocks := sourceBlocks (?ts ! i) @ [s]\<rparr>"
  have "set (?ts[i := ?x]) = insert ?x (set (take i ?ts) \<union> set (drop (Suc i) ?ts))"
    using assms by (simp add: upd_conv_take_nth_drop)
  moreover have "set ?ts = insert (?ts ! i) (set (take i ?ts) \<union> set (drop (Suc i) ?ts))"
    using arg_cong [OF id_take_nth_drop [OF assms], of set] by simp
  ultimately show ?thesis
    by (auto simp: recordedTo_def addSource_def)
qed

lemma targets_addSource: "i < length (exitTargets c) \<Longrightarrow> targets (addSource i s c) = targets c"
  unfolding targets_def addSource_def
  by (simp flip: set_map add: map_update) (metis list_update_id nth_map set_map)

lemma addSource_simps [simp]:
  "beginBlock (addSource i s c) = beginBlock c" "endBlock (addSource i s c) = endBlock c"
  "branchSelector (addSource i s c) = branchSelector c" "length (exitTargets (addSource i s c)) = length (exitTargets c)"
  "exitTargets (addSource i s c) = [] \<longleftrightarrow> exitTargets c = []"
  by (simp_all add: addSource_def)

lemma branchTarget_addSource:
  "i < length (exitTargets c) \<Longrightarrow> j < length (exitTargets c) \<Longrightarrow>
     branchTarget (exitTargets (addSource i s c) ! j) = branchTarget (exitTargets c ! j)"
  by (simp add: addSource_def nth_list_update)

lemma exitTerm_nth:
  "exitTerm c = (if exitTargets c = [] then None
     else case branchSelector c of
            None \<Rightarrow> Some (BranchInst (branchTarget (exitTargets c ! 0)))
          | Some v \<Rightarrow> Some (SwitchInst v (branchTarget (exitTargets c ! 0)) (selectorCases (exitTargets c))))"
  by (cases "exitTargets c") (simp_all add: exitTerm_def split: option.split)

lemma exitTerm_addSource: "i < length (exitTargets c) \<Longrightarrow> exitTerm (addSource i s c) = exitTerm c"
  by (auto simp: exitTerm_nth branchTarget_addSource selectorCases_def split: option.splits)

lemma map_branchTarget_addSource:
  "i < length (exitTargets c) \<Longrightarrow> map branchTarget (exitTargets (addSource i s c)) = map branchTarget (exitTargets c)"
  by (rule nth_equalityI) (simp_all add: branchTarget_addSource)

lemma findTarget_None: "findTarget b ts = None \<Longrightarrow> b \<notin> branchTarget ` set ts"
  by (induction ts) (auto split: if_splits)

lemma findTarget_Some: "findTarget b ts = Some i \<Longrightarrow> i < length ts \<and> branchTarget (ts ! i) = b"
  by (induction ts arbitrary: i) (auto split: if_splits)

text \<open>What \<open>run\<close> records.\<close>

definition ran :: "CleanupScope \<Rightarrow> BB \<Rightarrow> BB \<Rightarrow> CleanupScope \<Rightarrow> bool" where
  "ran c s t c' \<longleftrightarrow>
     beginBlock c' = beginBlock c \<and> endBlock c' = endBlock c \<and> targets c' = insert t (targets c)
   \<and> (\<forall>r b. recordedTo c' r b \<longleftrightarrow> recordedTo c r b \<or> r = s \<and> b = t)"

lemma ran_recorded: "ran c s t c' \<Longrightarrow> recorded c' = insert s (recorded c)"
  by (auto simp: ran_def recorded_def)

lemma ran_addSource:
  "i < length (exitTargets c) \<Longrightarrow> branchTarget (exitTargets c ! i) = t \<Longrightarrow> ran c s t (addSource i s c)"
  by (auto simp: ran_def recordedTo_addSource targets_addSource) (auto simp: targets_def)

lemma selectsOK_addSource:
  assumes "selectsOK m c" "i < length (exitTargets c)" "m s = Some blk" "terminator blk \<noteq> None"
    and "\<forall>v. branchSelector c = Some v \<longrightarrow> lastStore (stores blk) v = Some (of_nat i)"
  shows "selectsOK m (addSource i s c)"
  using assms by (auto simp: selectsOK_def addSource_def nth_list_update split: if_splits)

text \<open>Stores into blocks that are not recorded do not matter.\<close>

lemma selectsOK_touched:
  assumes "selectsOK m c" "touched m m' e A sel" "e \<notin> recorded c"
    and "\<forall>v. sel = Some v \<longrightarrow> branchSelector c = Some v \<longrightarrow> A \<inter> recorded c = {}"
  shows "selectsOK m' c"
  unfolding selectsOK_def
proof (intro allI impI ballI)
  fix i s assume i: "i < length (exitTargets c)" "s \<in> set (sourceBlocks (exitTargets c ! i))"
  then have s: "s \<in> recorded c" by (metis nth_mem recorded_iff)
  then have "s \<noteq> e" using assms(3) by blast
  obtain blk where blk: "m s = Some blk" "terminator blk \<noteq> None"
      "\<forall>v. branchSelector c = Some v \<longrightarrow> lastStore (stores blk) v = Some (of_nat i)"
    using assms(1) i unfolding selectsOK_def by blast
  show "\<exists>blk. m' s = Some blk \<and> terminator blk \<noteq> None \<and>
      (\<forall>v. branchSelector c = Some v \<longrightarrow> lastStore (stores blk) v = Some (of_nat i))"
    using assms(2) \<open>s \<noteq> e\<close>
  proof (cases rule: touched_cases)
    case 1
    with blk show ?thesis by simp
  next
    case (2 v b ns)
    then have "lastStore (stores blk @ map (Pair v) ns) w = lastStore (stores blk) w" if "branchSelector c = Some w" for w
      using assms(4) s that by (intro lastStore_append_other) auto
    with 2 blk show ?thesis by auto
  qed
qed

lemma runDirect_ok:
  assumes "runDirect c s t st = Some (c', st')"
    and "exitTargets c = [] \<or> (length (exitTargets c) = 1 \<and> branchTarget (exitTargets c ! 0) = t)"
    and ok: "okScope (bbs st) (nextAlloca st) c" "endBlock c \<notin> insert s (recorded c)" "terminated (bbs st) s"
  shows "\<exists>m. st' = st\<lparr>bbs := m\<rparr> \<and> okScope m (nextAlloca st) c' \<and> ran c s t c' \<and> branchSelector c' = None
    \<and> touched (bbs st) m (endBlock c) A None"
proof (cases "exitTargets c = []")
  case True
  let ?c = "c\<lparr>exitTargets := [\<lparr>branchTarget = t, sourceBlocks = []\<rparr>]\<rparr>"
  from True assms(1) obtain blk where blk: "bbs st (endBlock c) = Some blk" "terminator blk = None" "branchSelector c = None"
      "c' = addSource 0 s ?c" "st' = st\<lparr>bbs := (bbs st)(endBlock c \<mapsto> blk\<lparr>terminator := Some (BranchInst t)\<rparr>)\<rparr>"
    by (auto simp: runDirect_def terminate_def split: Option.bind_splits if_splits)
  have "ran ?c s t c'" unfolding blk(4) by (rule ran_addSource) simp_all
  then have "ran c s t c'" using True by (auto simp: ran_def recordedTo_def targets_def)
  moreover have "selectsOK m c'" if "terminated m s" for m
    using that blk(3) by (auto simp: blk(4) selectsOK_def addSource_def terminated_def)
  ultimately show ?thesis using assms(3-5) blk
    by (auto simp: okScope_def touched_def exitTerm_def addSource_def terminated_def)
next
  case False
  with assms(1) have r: "c' = addSource 0 s c" "st' = st" "branchSelector c = None"
    by (auto simp: runDirect_def split: Option.bind_splits if_splits)
  from False assms(2) have l: "0 < length (exitTargets c)" "branchTarget (exitTargets c ! 0) = t" by auto
  obtain blk where "bbs st s = Some blk" "terminator blk \<noteq> None" using ok(3) by (auto simp: terminated_def)
  then have "selectsOK (bbs st) c'"
    using ok(1) l(1) r by (auto simp: okScope_def intro!: selectsOK_addSource)
  then show ?thesis
    using ok(1) r l exitTerm_addSource [OF l(1), of s] ran_addSource [OF l, of s] map_branchTarget_addSource [OF l(1), of s]
    by (intro exI [of _ "bbs st"]) (auto simp: okScope_def touched_refl)
qed

lemma createSelector_ok:
  assumes "createSelector c st = Some (c', st')" "branchSelector c = None" "exitTargets c \<noteq> []"
    and ok: "okScope (bbs st) (nextAlloca st) c" "endBlock c \<notin> recorded c"
  shows "\<exists>m. st' = st\<lparr>bbs := m, nextAlloca := nextAlloca st + 1\<rparr> \<and> okScope m (nextAlloca st + 1) c'
    \<and> c' = c\<lparr>branchSelector := Some (nextAlloca st)\<rparr>
    \<and> touched (bbs st) m (endBlock c) (recorded c) (branchSelector c')"
proof -
  let ?v = "nextAlloca st" and ?x = "exitTargets c ! 0"
  from ok(1) assms(2,3) have ts: "exitTargets c = [?x]"
    by (cases "exitTargets c") (auto simp: okScope_def)
  from assms(1) obtain st1 blk where st1: "iterM (insertStore ?v 0) (sourceBlocks ?x) (st\<lparr>nextAlloca := ?v + 1\<rparr>) = Some st1"
      "bbs st1 (endBlock c) = Some blk" "c' = c\<lparr>branchSelector := Some ?v\<rparr>"
      "st' = st1\<lparr>bbs := (bbs st1)(endBlock c \<mapsto> blk\<lparr>terminator := Some (SwitchInst ?v (branchTarget ?x) [])\<rparr>)\<rparr>"
    by (auto simp: createSelector_def setTerminator_def Let_def split: Option.bind_splits if_splits)
  have sub: "set (sourceBlocks ?x) \<subseteq> recorded c" using ts by (metis list.set_intros(1) recorded_iff subsetI)
  note i = insertStores [OF st1(1) sub, of "endBlock c"]
  obtain m where m: "st1 = st\<lparr>nextAlloca := ?v + 1, bbs := m\<rparr>" using i by auto
  let ?m = "m(endBlock c \<mapsto> blk\<lparr>terminator := Some (SwitchInst ?v (branchTarget ?x) [])\<rparr>)"
  have len: "length (exitTargets c) = 1" by (subst ts) simp
  have src: "\<exists>blk. ?m s = Some blk \<and> terminator blk \<noteq> None \<and> lastStore (stores blk) ?v = Some 0"
    if "s \<in> set (sourceBlocks ?x)" for s
  proof -
    have "s \<noteq> endBlock c" using sub ok(2) that by blast
    then show ?thesis using i m that by auto
  qed
  then have "selectsOK ?m c'" by (simp add: selectsOK_def st1(3) len)
  moreover have "stores blk = []" using i st1(2) sub ok m by (auto simp: okScope_def)
  moreover have "exitTerm c' = Some (SwitchInst ?v (branchTarget ?x) [])"
    using len assms(3) by (simp add: exitTerm_nth st1(3) selectorCases_def)
  ultimately have "okScope ?m (?v + 1) c'"
    using ok(1) st1(3) len assms(3) by (auto simp: okScope_def)
  moreover have "touched (bbs st) ?m (endBlock c) (recorded c) (branchSelector c')"
    using i m st1(3) by (simp add: touched_def)
  ultimately show ?thesis using st1 m by (intro exI [of _ ?m]) simp
qed

lemma runSelected_ok:
  assumes "runSelected c s t st = Some (c', st')" "length (exitTargets c) < 2 ^ 32"
    and ok: "okScope (bbs st) (nextAlloca st) c" "endBlock c \<notin> insert s (recorded c)" "s \<notin> recorded c"
  shows "\<exists>m. st' = st\<lparr>bbs := m\<rparr> \<and> okScope m (nextAlloca st) c' \<and> ran c s t c' \<and> branchSelector c' = branchSelector c
    \<and> touched (bbs st) m (endBlock c) (insert s (recorded c)) (branchSelector c')"
proof -
  from assms(1) obtain v where v: "branchSelector c = Some v" by (auto simp: runSelected_def split: Option.bind_splits)
  obtain eb where eb: "bbs st (endBlock c) = Some eb" "stores eb = []" "terminator eb = exitTerm c"
    using ok(1) by (rule okScope_block)
  show ?thesis
  proof (cases "findTarget t (exitTargets c)")
    case (Some i)
    note i = findTarget_Some [OF Some]
    from assms(1) v Some have ins: "insertStore v (of_nat i) s st = Some st'" "c' = addSource i s c"
      by (auto simp: runSelected_def split: Option.bind_splits)
    from ins(1) obtain blk where blk: "bbs st s = Some blk" "terminator blk \<noteq> None"
        "st' = st\<lparr>bbs := (bbs st)(s \<mapsto> blk\<lparr>stores := stores blk @ [(v, of_nat i)]\<rparr>)\<rparr>"
      by (rule insertStore_Some)
    have t: "touched (bbs st) (bbs st') (endBlock c) {s} (Some v)"
      by (rule insertStore_touched [OF ins(1)]) simp
    have "selectsOK (bbs st') c"
      by (rule selectsOK_touched [OF _ t]) (use ok in \<open>auto simp: okScope_def\<close>)
    then have "selectsOK (bbs st') c'" unfolding ins(2)
      by (rule selectsOK_addSource [where blk = "blk\<lparr>stores := stores blk @ [(v, of_nat i)]\<rparr>"]) (use i blk v in auto)
    moreover have "ran c s t c'" unfolding ins(2) using i by (intro ran_addSource) simp_all
    moreover have "touched (bbs st) (bbs st') (endBlock c) (insert s (recorded c)) (Some v)"
      using t unfolding touched_def by blast
    ultimately show ?thesis
      using ok eb blk ins(2) v i exitTerm_addSource [of i c s] map_branchTarget_addSource [of i c s]
      by (intro exI [of _ "bbs st'"]) (auto simp: okScope_def)
  next
    case None
    let ?n = "length (exitTargets c)"
    let ?c = "c\<lparr>exitTargets := exitTargets c @ [\<lparr>branchTarget = t, sourceBlocks = [s]\<rparr>]\<rparr>"
    have ne: "exitTargets c \<noteq> []" using ok(1) v by (auto simp: okScope_def)
    have e: "exitTerm c = Some (SwitchInst v (branchTarget (exitTargets c ! 0)) (selectorCases (exitTargets c)))"
      using v ne by (simp add: exitTerm_nth)
    let ?eb = "eb\<lparr>terminator := Some (SwitchInst v (branchTarget (exitTargets c ! 0)) (selectorCases (exitTargets c) @ [(of_nat ?n, t)]))\<rparr>"
    let ?st = "st\<lparr>bbs := (bbs st)(endBlock c \<mapsto> ?eb)\<rparr>"
    from assms(1) v None eb e have ins: "insertStore v (of_nat ?n) s ?st = Some st'" "c' = ?c"
      by (auto simp: runSelected_def addCase_def Let_def split: Option.bind_splits if_splits)
    from ins(1) obtain blk where blk: "bbs st s = Some blk" "terminator blk \<noteq> None"
        "st' = ?st\<lparr>bbs := (bbs ?st)(s \<mapsto> blk\<lparr>stores := stores blk @ [(v, of_nat ?n)]\<rparr>)\<rparr>"
      by (rule insertStore_Some) (use ok(2) in \<open>auto split: if_splits\<close>)
    have "touched (bbs ?st) (bbs st') (endBlock c) {s} (Some v)"
      by (rule insertStore_touched [OF ins(1)]) simp
    then have t: "touched (bbs st) (bbs st') (endBlock c) {s} (Some v)" by (simp add: touched_def)
    have "selectsOK (bbs st') c"
      by (rule selectsOK_touched [OF _ t]) (use ok in \<open>auto simp: okScope_def\<close>)
    then have "selectsOK (bbs st') c'" using blk v ins(2)
      by (auto simp: selectsOK_def nth_append less_Suc_eq split: if_splits)
    moreover have "exitTerm c' = terminator ?eb"
      using v ne ins(2) by (auto simp: exitTerm_nth selectorCases_def nth_append Suc_le_eq)
    moreover have "bbs st' (endBlock c) = Some ?eb" using blk ok(2) by auto
    moreover have "ran c s t c'" by (auto simp: ran_def targets_def recordedTo_def ins(2))
    moreover have "distinct (map branchTarget (exitTargets c'))"
      using ok(1) findTarget_None [OF None] by (auto simp: ins(2) okScope_def)
    moreover have "touched (bbs st) (bbs st') (endBlock c) (insert s (recorded c)) (Some v)"
      using t unfolding touched_def by blast
    ultimately show ?thesis
      using ok(1) eb(2) blk(3) ins(2) v assms(2) by (intro exI [of _ "bbs st'"]) (auto simp: okScope_def)
  qed
qed

lemma run_ok:
  assumes "run c s t st = Some (c', st')" "length (exitTargets c) < 2 ^ 32"
    and ok: "okScope (bbs st) (nextAlloca st) c" "endBlock c \<notin> insert s (recorded c)" "s \<notin> recorded c" "terminated (bbs st) s"
  shows "\<exists>m n. st' = st\<lparr>bbs := m, nextAlloca := n\<rparr> \<and> nextAlloca st \<le> n \<and> okScope m n c' \<and> ran c s t c'
    \<and> touched (bbs st) m (endBlock c) (insert s (recorded c)) (branchSelector c')
    \<and> (branchSelector c' = branchSelector c \<or> branchSelector c' = Some (nextAlloca st))"
proof (cases "exitTargets c = [] \<or> (length (exitTargets c) = 1 \<and> branchTarget (exitTargets c ! 0) = t)")
  case True
  with assms(1) have r: "runDirect c s t st = Some (c', st')" by (simp add: run_def)
  from runDirect_ok [OF r True ok(1,2,4)] have "branchSelector c = None"
    using r by (auto simp: runDirect_def split: if_splits)
  with runDirect_ok [OF r True ok(1,2,4), of "insert s (recorded c)"] show ?thesis
    by (elim exE) (intro exI [of _ "bbs st'"] exI [of _ "nextAlloca st"], simp)
next
  case False
  obtain c1 st1 where r: "runSelected c1 s t st1 = Some (c', st')"
      and one: "(if branchSelector c = None then createSelector c st else Some (c, st)) = Some (c1, st1)"
    using assms(1) False by (auto simp: run_def split: Option.bind_splits if_splits)
  show ?thesis
  proof (cases "branchSelector c = None")
    case None: True
    with one have "createSelector c st = Some (c1, st1)" by simp
    then obtain m where m: "st1 = st\<lparr>bbs := m, nextAlloca := nextAlloca st + 1\<rparr>" "okScope m (nextAlloca st + 1) c1"
        "c1 = c\<lparr>branchSelector := Some (nextAlloca st)\<rparr>" "touched (bbs st) m (endBlock c) (recorded c) (branchSelector c1)"
      using createSelector_ok [of c st c1 st1] None False ok by auto
    have same: "recorded c1 = recorded c" "recordedTo c1 = recordedTo c" "targets c1 = targets c" "endBlock c1 = endBlock c"
        "beginBlock c1 = beginBlock c" "exitTargets c1 = exitTargets c"
      by (auto simp: m(3) recorded_def recordedTo_def targets_def fun_eq_iff)
    obtain m' where m': "st' = st1\<lparr>bbs := m'\<rparr>" "okScope m' (nextAlloca st + 1) c'" "ran c1 s t c'"
        "branchSelector c' = branchSelector c1" "touched m m' (endBlock c) (insert s (recorded c)) (branchSelector c')"
      using runSelected_ok [OF r] assms(2) m ok(2,3) same by auto
    have "touched (bbs st) m (endBlock c) (insert s (recorded c)) (branchSelector c')"
      using m(4) m'(4) unfolding touched_def by (metis insertCI)
    from touched_trans [OF this m'(5)] show ?thesis
      using m m' same by (intro exI [of _ m'] exI [of _ "nextAlloca st + 1"]) (simp add: ran_def)
  next
    case sel: False
    with one r have "runSelected c s t st = Some (c', st')" by auto
    from runSelected_ok [OF this assms(2) ok(1-3)] obtain m where "st' = st\<lparr>bbs := m\<rparr>" "okScope m (nextAlloca st) c'"
        "ran c s t c'" "branchSelector c' = branchSelector c"
        "touched (bbs st) m (endBlock c) (insert s (recorded c)) (branchSelector c')" by blast
    then show ?thesis by (intro exI [of _ m] exI [of _ "nextAlloca st"]) simp
  qed
qed

end
