(* ===== verification/CleanupInvariant.thy ===== *)
theory CleanupInvariant
  imports CleanupRoutes
begin

text \<open>
  The invariant of all scopes together, the routes of control through cleanups, and that every
  operation on basic blocks and scopes preserves both.
\<close>

section \<open>Definitions\<close>

definition gotos :: "'a TryCatchFinallyScopes_scheme \<Rightarrow> GotoJump list" where
  "gotos st = concat (unresolvedGotosPerCleanupScope st)"

definition ends :: "'a TryCatchFinallyScopes_scheme \<Rightarrow> BB set" where
  "ends st = endBlock ` set (cleanupScopes st)"

definition tents :: "'a TryCatchFinallyScopes_scheme \<Rightarrow> BB set" where
  "tents st = tentativeTarget ` set (gotos st)"

definition sources :: "'a TryCatchFinallyScopes_scheme \<Rightarrow> BB set" where
  "sources st = (\<Union>c\<in>set (cleanupScopes st). recorded c) \<union> sourceBlock ` set (gotos st)"

text \<open>
  One scope among the others. \<open>G\<close> are the unresolved gotos that have not been redirected to this
  cleanup: it has not recorded them, and their tentative targets are private to them.
\<close>

definition fit :: "'a TryCatchFinallyScopes_scheme \<Rightarrow> GotoJump set \<Rightarrow> CleanupScope \<Rightarrow> bool" where
  "fit st G c \<longleftrightarrow> okScope (bbs st) (nextAlloca st) c
   \<and> recorded c \<inter> sourceBlock ` G = {} \<and> recorded c \<inter> ends st = {}
   \<and> tentativeTarget ` G \<inter> targets c = {} \<and> beginBlock c \<notin> tents st \<and> endBlock c \<notin> tents st
   \<and> beginBlock c < nextBB st \<and> targets c \<subseteq> {..<nextBB st} \<and> endBlock c \<noteq> scopebb st"

definition base :: "'a TryCatchFinallyScopes_scheme \<Rightarrow> bool" where
  "base st \<longleftrightarrow>
     (\<forall>b. nextBB st \<le> b \<longrightarrow> bbs st b = None)
   \<and> (\<forall>b blk. bbs st b = Some blk \<longrightarrow> terminator blk = None \<longrightarrow> stores blk = [])
   \<and> scopebb st < nextBB st \<and> scopebb st \<notin> tents st
   \<and> length (unresolvedGotosPerCleanupScope st) = Suc (length (cleanupScopes st))
   \<and> length (landingPadsPerCleanupScope st) = Suc (length (cleanupScopes st))
   \<and> distinct (map endBlock (cleanupScopes st))
   \<and> (\<forall>c\<in>set (cleanupScopes st). \<forall>d\<in>set (cleanupScopes st).
        branchSelector c \<noteq> None \<longrightarrow> branchSelector c = branchSelector d \<longrightarrow> endBlock c = endBlock d)
   \<and> distinct (map sourceBlock (gotos st)) \<and> distinct (map tentativeTarget (gotos st))
   \<and> (\<forall>g\<in>set (gotos st). terminated (bbs st) (sourceBlock g) \<and> unterminated (bbs st) (tentativeTarget g)
        \<and> sourceBlock g \<notin> ends st)"

text \<open>
  \<open>wfg st G\<close>: while the innermost scope is being popped, the gotos outside \<open>G\<close> have been redirected
  to its cleanup already.
\<close>

definition wfg :: "'a TryCatchFinallyScopes_scheme \<Rightarrow> GotoJump set \<Rightarrow> bool" where
  "wfg st G \<longleftrightarrow> base st \<and> G \<subseteq> set (gotos st) \<and>
     (\<forall>k < length (cleanupScopes st).
        fit st (if Suc k = length (cleanupScopes st) then G else set (gotos st)) (cleanupScopes st ! k))"

definition wf :: "'a TryCatchFinallyScopes_scheme \<Rightarrow> bool" where
  "wf st \<longleftrightarrow> wfg st (set (gotos st))"

text \<open>
  Control that came from the end of block \<open>src\<close> leaves the cleanup that ends with block \<open>e\<close> towards
  \<open>b\<close>. For a scope that is still open, the code has recorded this; otherwise the blocks say so,
  and nothing will change them.
\<close>

definition linked :: "'a TryCatchFinallyScopes_scheme \<Rightarrow> BB \<Rightarrow> BB \<Rightarrow> BB \<Rightarrow> bool" where
  "linked st src e b \<longleftrightarrow> e \<notin> sources st \<and>
     (if e \<in> ends st then \<exists>c\<in>set (cleanupScopes st). endBlock c = e \<and> recordedTo c src b
      else \<exists>s blk. bbs st src = Some s \<and> bbs st e = Some blk \<and> stores blk = [] \<and> hop (stores s) (terminator blk) = Some b
         \<and> (\<forall>v d xs. terminator blk = Some (SwitchInst v d xs) \<longrightarrow>
              v < nextAlloca st \<and> (\<forall>c\<in>set (cleanupScopes st). branchSelector c \<noteq> Some v)))"

primrec chained :: "'a TryCatchFinallyScopes_scheme \<Rightarrow> BB \<Rightarrow> (BB \<times> BB) list \<Rightarrow> BB \<Rightarrow> BB \<Rightarrow> bool" where
  "chained st src [] b t \<longleftrightarrow> b = t"
| "chained st src (c # cs) b t \<longleftrightarrow> b = fst c \<and> (\<exists>b'. linked st src (snd c) b' \<and> chained st src cs b' t)"

text \<open>
  Block \<open>src\<close> leads through the cleanups \<open>cs\<close> to \<open>t\<close>. It ends in a branch, or in a test of the selector
  \<open>exn\<close> of the active exception.
\<close>

fun jump :: "ClassInfo option \<Rightarrow> Terminator \<Rightarrow> BB option" where
  "jump exn (BranchInst b) = Some b"
| "jump exn (CondBranch ci b c) = Some (if exn = Some ci then b else c)"
| "jump exn _ = None"

lemma jump_subst: "jump exn (substTerminator f t) = map_option f (jump exn t)"
  by (cases t) auto

definition route :: "ClassInfo option \<Rightarrow> 'a TryCatchFinallyScopes_scheme \<Rightarrow> BB \<Rightarrow> (BB \<times> BB) list \<Rightarrow> BB \<Rightarrow> bool" where
  "route exn st src cs t \<longleftrightarrow>
     (\<exists>blk b. bbs st src = Some blk \<and> Option.bind (terminator blk) (jump exn) = Some b \<and> chained st src cs b t) \<and> src \<notin> ends st"

lemma chained_mono:
  assumes "chained st src cs b t" "\<And>e b'. e \<in> snd ` set cs \<Longrightarrow> linked st src e b' \<Longrightarrow> linked st' src e b'"
  shows "chained st' src cs b t"
  using assms
proof (induction cs arbitrary: b)
  case (Cons c cs)
  then obtain b' where "b = fst c" "linked st src (snd c) b'" "chained st src cs b' t" by auto
  moreover have "linked st' src (snd c) b'" using Cons.prems(2) calculation(2) by simp
  ultimately show ?case using Cons.IH [of b'] Cons.prems(2) by auto
qed simp

lemma route_mono:
  assumes "route exn st src cs t" "\<And>e b'. e \<in> snd ` set cs \<Longrightarrow> linked st src e b' \<Longrightarrow> linked st' src e b'"
    and "\<And>blk. bbs st src = Some blk \<Longrightarrow> terminator blk \<noteq> None \<Longrightarrow> \<exists>blk'. bbs st' src = Some blk' \<and> terminator blk' = terminator blk"
    and "src \<notin> ends st \<Longrightarrow> src \<notin> ends st'"
  shows "route exn st' src cs t"
proof -
  obtain blk b where b: "bbs st src = Some blk" "Option.bind (terminator blk) (jump exn) = Some b" "chained st src cs b t"
    using assms(1) by (auto simp: route_def)
  obtain blk' where "bbs st' src = Some blk'" "Option.bind (terminator blk') (jump exn) = Some b"
    using assms(3) [OF b(1)] b(2) by (cases "terminator blk") auto
  moreover have "chained st' src cs b t" using b(3) assms(2) by (rule chained_mono)
  ultimately show ?thesis using assms(1,4) by (auto simp: route_def)
qed

section \<open>Operations that do not touch cleanups\<close>

text \<open>
  New blocks, terminators of blocks that belong to neither a cleanup nor a goto, the insertion
  point, landing pad instructions.
\<close>

definition quiet :: "'a TryCatchFinallyScopes_scheme \<Rightarrow> 'a TryCatchFinallyScopes_scheme \<Rightarrow> bool" where
  "quiet st st' \<longleftrightarrow>
     cleanupScopes st' = cleanupScopes st \<and> unresolvedGotosPerCleanupScope st' = unresolvedGotosPerCleanupScope st
   \<and> length (landingPadsPerCleanupScope st') = length (landingPadsPerCleanupScope st)
   \<and> nextAlloca st' = nextAlloca st \<and> nextBB st \<le> nextBB st' \<and> (\<forall>b. nextBB st' \<le> b \<longrightarrow> bbs st' b = None)
   \<and> (\<forall>b blk. bbs st b = Some blk \<longrightarrow> (\<exists>blk'. bbs st' b = Some blk' \<and> stores blk' = stores blk \<and>
        (terminator blk' = terminator blk \<or> terminator blk = None \<and> b \<notin> ends st \<and> b \<notin> tents st)))
   \<and> (\<forall>b blk'. bbs st b = None \<longrightarrow> bbs st' b = Some blk' \<longrightarrow> stores blk' = [])
   \<and> scopebb st' < nextBB st' \<and> scopebb st' \<notin> ends st \<and> scopebb st' \<notin> tents st"

lemma quiet_same:
  assumes "quiet st st'"
  shows "gotos st' = gotos st" "ends st' = ends st" "tents st' = tents st" "sources st' = sources st"
  using assms by (simp_all add: quiet_def gotos_def ends_def tents_def sources_def)

lemma quiet_block:
  assumes "quiet st st'" "bbs st b = Some blk" "terminator blk \<noteq> None \<or> b \<in> ends st \<or> b \<in> tents st"
  obtains blk' where "bbs st' b = Some blk'" "stores blk' = stores blk" "terminator blk' = terminator blk"
proof -
  have "\<exists>blk'. bbs st' b = Some blk' \<and> stores blk' = stores blk \<and>
      (terminator blk' = terminator blk \<or> terminator blk = None \<and> b \<notin> ends st \<and> b \<notin> tents st)"
    using assms(1,2) unfolding quiet_def by simp
  then show thesis using that assms(3) by auto
qed

lemma quiet_terminated:
  assumes "quiet st st'"
  shows "terminated (bbs st) b \<Longrightarrow> terminated (bbs st') b"
    and "unterminated (bbs st) b \<Longrightarrow> b \<in> tents st \<Longrightarrow> unterminated (bbs st') b"
  unfolding terminated_def unterminated_def using quiet_block [OF assms] by (metis, metis)

lemma quiet_okScope:
  assumes "quiet st st'" "okScope (bbs st) (nextAlloca st) c" "c \<in> set (cleanupScopes st)"
  shows "okScope (bbs st') (nextAlloca st') c"
proof -
  obtain blk where blk: "bbs st (endBlock c) = Some blk" "stores blk = []" "terminator blk = exitTerm c"
    using assms(2) by (rule okScope_block)
  obtain blk' where blk': "bbs st' (endBlock c) = Some blk'" "stores blk' = stores blk" "terminator blk' = terminator blk"
    using assms(1) blk(1) by (rule quiet_block) (use assms(3) in \<open>auto simp: ends_def\<close>)
  have "selectsOK (bbs st') c" unfolding selectsOK_def
  proof (intro allI impI ballI)
    fix i s assume "i < length (exitTargets c)" "s \<in> set (sourceBlocks (exitTargets c ! i))"
    then obtain sb where sb: "bbs st s = Some sb" "terminator sb \<noteq> None"
        "\<forall>v. branchSelector c = Some v \<longrightarrow> lastStore (stores sb) v = Some (of_nat i)"
      using assms(2) unfolding okScope_def selectsOK_def by blast
    obtain sb' where "bbs st' s = Some sb'" "stores sb' = stores sb" "terminator sb' = terminator sb"
      using assms(1) sb(1) by (rule quiet_block) (use sb(2) in simp)
    with sb show "\<exists>blk. bbs st' s = Some blk \<and> terminator blk \<noteq> None \<and>
        (\<forall>v. branchSelector c = Some v \<longrightarrow> lastStore (stores blk) v = Some (of_nat i))" by auto
  qed
  moreover have "nextAlloca st' = nextAlloca st" using assms(1) by (simp add: quiet_def)
  ultimately show ?thesis using assms(2) blk blk' by (auto simp: okScope_def)
qed

lemma quiet_wfg:
  assumes "quiet st st'" "wfg st G"
  shows "wfg st' G"
proof -
  note q = assms(1)[unfolded quiet_def]
  have cs: "cleanupScopes st' = cleanupScopes st" using q by blast
  have b: "base st" and f: "\<And>k. k < length (cleanupScopes st) \<Longrightarrow>
      fit st (if Suc k = length (cleanupScopes st) then G else set (gotos st)) (cleanupScopes st ! k)"
    using assms(2) by (auto simp: wfg_def)
  have stores: "stores blk' = []" if "bbs st' b = Some blk'" "terminator blk' = None" for b blk'
  proof (cases "bbs st b")
    case None
    with q that(1) show ?thesis by blast
  next
    case (Some blk)
    from Some q obtain x where "bbs st' b = Some x" "stores x = stores blk" "terminator x = terminator blk \<or> terminator blk = None" by blast
    with Some that b show ?thesis by (auto simp: base_def)
  qed
  have "base st'"
    using b q stores quiet_terminated [OF assms(1)]
    unfolding base_def quiet_same [OF assms(1)] cs by (auto simp: tents_def)
  moreover have "fit st' (if Suc k = length (cleanupScopes st') then G else set (gotos st')) (cleanupScopes st' ! k)"
    if "k < length (cleanupScopes st')" for k
  proof -
    have k: "k < length (cleanupScopes st)" using that cs by simp
    then have e: "endBlock (cleanupScopes st ! k) \<in> ends st" by (simp add: ends_def)
    have "okScope (bbs st') (nextAlloca st') (cleanupScopes st ! k)"
      by (rule quiet_okScope [OF assms(1)]) (use f [OF k] k in \<open>auto simp: fit_def\<close>)
    with f [OF k] q e show ?thesis
      unfolding fit_def quiet_same [OF assms(1)] cs by (auto dest: order.strict_trans2)
  qed
  ultimately show ?thesis using assms(2) by (simp add: wfg_def quiet_same [OF assms(1)])
qed

lemma quiet_linked:
  assumes "quiet st st'" "linked st src e b" "terminated (bbs st) src"
  shows "linked st' src e b"
proof (cases "e \<in> ends st")
  case True
  then show ?thesis using assms by (simp add: linked_def quiet_same [OF assms(1)]) (simp add: quiet_def)
next
  case False
  with assms(2) obtain s blk where s: "bbs st src = Some s" "bbs st e = Some blk" "stores blk = []"
      "hop (stores s) (terminator blk) = Some b" "\<forall>v d xs. terminator blk = Some (SwitchInst v d xs) \<longrightarrow>
         v < nextAlloca st \<and> (\<forall>c\<in>set (cleanupScopes st). branchSelector c \<noteq> Some v)"
    by (auto simp: linked_def)
  obtain s' where s': "bbs st' src = Some s'" "stores s' = stores s"
    using assms(1) s(1) by (rule quiet_block) (use assms(3) s(1) in \<open>auto simp: terminated_def\<close>)
  obtain blk' where blk': "bbs st' e = Some blk'" "stores blk' = stores blk" "terminator blk' = terminator blk"
    using assms(1) s(2) by (rule quiet_block) (use s(4) in \<open>auto elim: hop.elims\<close>)
  have "cleanupScopes st' = cleanupScopes st" "nextAlloca st' = nextAlloca st" using assms(1) by (simp_all add: quiet_def)
  then show ?thesis using assms(2) False s s' blk'
    by (simp add: linked_def quiet_same [OF assms(1)])
qed

lemma route_terminated: "route exn st src cs t \<Longrightarrow> terminated (bbs st) src"
  by (auto simp: route_def terminated_def split: Option.bind_splits)

lemma quiet_route:
  assumes "quiet st st'" "route exn st src cs t"
  shows "route exn st' src cs t"
  using assms(2)
proof (rule route_mono)
  show "linked st' src e b'" if "linked st src e b'" for e b'
    using quiet_linked [OF assms(1) that route_terminated [OF assms(2)]] .
  show "\<exists>blk'. bbs st' src = Some blk' \<and> terminator blk' = terminator blk"
    if "bbs st src = Some blk" "terminator blk \<noteq> None" for blk
    using quiet_block [OF assms(1) that(1)] that(2) by metis
qed (simp add: quiet_same [OF assms(1)])

lemma wfg_scopebb:
  assumes "wfg st G"
  shows "scopebb st \<notin> ends st" "scopebb st \<notin> tents st" "scopebb st < nextBB st"
proof -
  show "scopebb st \<notin> ends st"
    using assms unfolding wfg_def fit_def ends_def by (metis image_iff in_set_conv_nth)
qed (use assms in \<open>simp_all add: wfg_def base_def\<close>)

lemma wfg_fresh: "wfg st G \<Longrightarrow> nextBB st \<le> b \<Longrightarrow> bbs st b = None"
  by (simp add: wfg_def base_def)

lemma wfg_less: "wfg st G \<Longrightarrow> bbs st b = Some blk \<Longrightarrow> b < nextBB st"
  using wfg_fresh [of st G b] by (cases "nextBB st \<le> b") auto

lemma wfg_end_block:
  assumes "wfg st G" "e \<in> ends st"
  shows "\<exists>blk. bbs st e = Some blk \<and> stores blk = []" "e < nextBB st"
proof -
  obtain k where k: "k < length (cleanupScopes st)" "e = endBlock (cleanupScopes st ! k)"
    using assms(2) by (auto simp: ends_def in_set_conv_nth)
  then have "okScope (bbs st) (nextAlloca st) (cleanupScopes st ! k)" using assms(1) by (auto simp: wfg_def fit_def)
  then show *: "\<exists>blk. bbs st e = Some blk \<and> stores blk = []" using k(2) by (auto simp: okScope_def)
  show "e < nextBB st" using * wfg_less [OF assms(1)] by blast
qed

lemma wfg_tent:
  assumes "wfg st G" "b \<in> tents st"
  shows "unterminated (bbs st) b" "b < nextBB st"
proof -
  show *: "unterminated (bbs st) b" using assms by (auto simp: wfg_def base_def tents_def)
  show "b < nextBB st" using * wfg_less [OF assms(1)] by (auto simp: unterminated_def)
qed

lemma quiet_setInsertPoint:
  assumes "wfg st G" "b < nextBB st" "b \<notin> ends st" "b \<notin> tents st"
  shows "quiet st (st\<lparr>scopebb := b\<rparr>)"
  using assms by (auto simp: quiet_def wfg_def base_def)

lemma quiet_insertBB:
  assumes "wfg st G"
  shows "quiet st (snd (insertBB st))"
  using assms wfg_scopebb [OF assms] by (auto simp: quiet_def insertBB_def emptyBB_def wfg_def base_def)

lemma quiet_terminate:
  assumes "wfg st G" "terminate b T st = Some st'" "b \<notin> ends st" "b \<notin> tents st"
  shows "quiet st st'"
proof -
  obtain blk where "bbs st b = Some blk" "terminator blk = None" "st' = st\<lparr>bbs := (bbs st)(b \<mapsto> blk\<lparr>terminator := Some T\<rparr>)\<rparr>"
    using assms(2) by (auto simp: terminate_def split: Option.bind_splits if_splits)
  with assms(1,3,4) wfg_scopebb [OF assms(1)] wfg_fresh [OF assms(1)] show ?thesis by (auto simp: quiet_def)
qed

lemma quiet_CreateBr: "wfg st G \<Longrightarrow> CreateBr t st = Some st' \<Longrightarrow> quiet st st'"
  unfolding CreateBr_def by (rule quiet_terminate) (use wfg_scopebb in blast)+

lemma quiet_updateLandingPad:
  assumes "wfg st G"
  shows "quiet st (updateLandingPad f b st)" "quiet st (createLandingPadInst b st)"
  using assms wfg_scopebb [OF assms] wfg_fresh [OF assms]
  by (auto simp: quiet_def updateLandingPad_def createLandingPadInst_def)

lemma quiet_refl: "wfg st G \<Longrightarrow> quiet st st"
  using wfg_scopebb [of st G] wfg_fresh [of st G] by (auto simp: quiet_def)

section \<open>Terminators that stay\<close>

text \<open>
  The terminators of blocks other than the ends of open cleanups stay, up to a renaming of the
  blocks in \<open>X\<close>.
\<close>

definition renamed :: "BB set \<Rightarrow> 'a TryCatchFinallyScopes_scheme \<Rightarrow> 'a TryCatchFinallyScopes_scheme \<Rightarrow> bool" where
  "renamed X st st' \<longleftrightarrow>
     (\<forall>b. terminated (bbs st) b \<longrightarrow> b \<in> ends st' \<longrightarrow> b \<in> ends st)
   \<and> (\<forall>b blk T. bbs st b = Some blk \<longrightarrow> terminator blk = Some T \<longrightarrow> b \<notin> ends st \<longrightarrow>
        (\<exists>blk' f. bbs st' b = Some blk' \<and> terminator blk' = Some (substTerminator f T) \<and> (\<forall>x. x \<notin> X \<longrightarrow> f x = x)))"

lemma substTerminator_id [simp]: "substTerminator (\<lambda>x. x) t = t"
  by (cases t) (auto simp: map_idI)

lemma substTerminator_comp: "substTerminator f (substTerminator g t) = substTerminator (\<lambda>x. f (g x)) t"
  by (cases t) auto

lemma renamed_same:
  assumes "ends st' \<subseteq> ends st" "\<And>b blk T. bbs st b = Some blk \<Longrightarrow> terminator blk = Some T \<Longrightarrow> b \<notin> ends st \<Longrightarrow>
      \<exists>blk'. bbs st' b = Some blk' \<and> terminator blk' = Some T"
  shows "renamed X st st'"
  unfolding renamed_def using assms substTerminator_id by (metis subsetD)

lemma renamed_refl: "renamed X st st"
  by (rule renamed_same) auto

lemma renamed_mono: "renamed X st st' \<Longrightarrow> X \<subseteq> Y \<Longrightarrow> renamed Y st st'"
  unfolding renamed_def by (meson subsetD)

lemma renamed_trans:
  assumes "renamed X st st1" "renamed X st1 st2"
  shows "renamed X st st2"
proof -
  have one: "\<exists>blk1 f. bbs st1 b = Some blk1 \<and> terminator blk1 = Some (substTerminator f T) \<and> (\<forall>x. x \<notin> X \<longrightarrow> f x = x)"
    if "bbs st b = Some blk" "terminator blk = Some T" "b \<notin> ends st" for b blk T
    using assms(1) that unfolding renamed_def by blast
  have e1: "b \<in> ends st1 \<longrightarrow> b \<in> ends st" if "bbs st b = Some blk" "terminator blk = Some T" for b blk T
    using assms(1) that unfolding renamed_def terminated_def by blast
  have two: "\<exists>blk2 f. bbs st2 b = Some blk2 \<and> terminator blk2 = Some (substTerminator f T) \<and> (\<forall>x. x \<notin> X \<longrightarrow> f x = x)"
    if b: "bbs st b = Some blk" "terminator blk = Some T" "b \<notin> ends st" for b blk T
  proof -
    obtain blk1 f where 1: "bbs st1 b = Some blk1" "terminator blk1 = Some (substTerminator f T)" "\<forall>x. x \<notin> X \<longrightarrow> f x = x"
      using one [OF b] by blast
    moreover from 1(1,2) e1 [OF b(1,2)] b(3) assms(2) obtain blk2 g where
        "bbs st2 b = Some blk2" "terminator blk2 = Some (substTerminator g (substTerminator f T))" "\<forall>x. x \<notin> X \<longrightarrow> g x = x"
      unfolding renamed_def by blast
    ultimately show ?thesis unfolding substTerminator_comp by (metis (no_types, lifting))
  qed
  have "b \<in> ends st" if b: "terminated (bbs st) b" "b \<in> ends st2" for b
  proof (rule ccontr)
    assume ne: "b \<notin> ends st"
    obtain blk T where bt: "bbs st b = Some blk" "terminator blk = Some T" using b(1) by (auto simp: terminated_def)
    then have "terminated (bbs st1) b" using one [OF bt ne] by (auto simp: terminated_def)
    then have "b \<in> ends st1" using assms(2) b(2) unfolding renamed_def by blast
    then show False using e1 [OF bt] ne by blast
  qed
  then show ?thesis using two unfolding renamed_def by blast
qed

lemma quiet_renamed: "quiet st st' \<Longrightarrow> renamed X st st'"
  by (rule renamed_same) (auto simp: quiet_same elim: quiet_block)

section \<open>Running a cleanup\<close>

lemma wfg_nth:
  assumes "wfg st G" "k < length (cleanupScopes st)"
  shows "fit st (if Suc k = length (cleanupScopes st) then G else set (gotos st)) (cleanupScopes st ! k)"
  using assms by (simp add: wfg_def)

lemma wfg_recorded:
  assumes "wfg st G" "c \<in> set (cleanupScopes st)"
  shows "okScope (bbs st) (nextAlloca st) c" "recorded c \<inter> ends st = {}" "targets c \<subseteq> {..<nextBB st}"
proof -
  obtain k where "k < length (cleanupScopes st)" "c = cleanupScopes st ! k" using assms(2) by (auto simp: in_set_conv_nth)
  with wfg_nth [OF assms(1)] show "okScope (bbs st) (nextAlloca st) c" "recorded c \<inter> ends st = {}" "targets c \<subseteq> {..<nextBB st}"
    by (auto simp: fit_def)
qed

lemma wfg_private:
  assumes "wfg st G" "c \<in> set (cleanupScopes st)"
  shows "beginBlock c \<notin> tents st" "endBlock c \<notin> tents st" "beginBlock c < nextBB st"
proof -
  obtain k where "k < length (cleanupScopes st)" "c = cleanupScopes st ! k" using assms(2) by (auto simp: in_set_conv_nth)
  with wfg_nth [OF assms(1)] show "beginBlock c \<notin> tents st" "endBlock c \<notin> tents st" "beginBlock c < nextBB st"
    by (auto simp: fit_def)
qed

lemma wfg_selector:
  assumes "wfg st G" "c \<in> set (cleanupScopes st)" "d \<in> set (cleanupScopes st)" "branchSelector c = Some v" "branchSelector d = Some v"
  shows "endBlock c = endBlock d"
proof -
  have "\<forall>c\<in>set (cleanupScopes st). \<forall>d\<in>set (cleanupScopes st).
        branchSelector c \<noteq> None \<longrightarrow> branchSelector c = branchSelector d \<longrightarrow> endBlock c = endBlock d"
    using assms(1) unfolding wfg_def base_def by blast
  then show ?thesis using assms(2-5) by (metis option.distinct(1))
qed

lemma wfg_goto:
  assumes "wfg st G" "g \<in> set (gotos st)"
  shows "terminated (bbs st) (sourceBlock g)" "unterminated (bbs st) (tentativeTarget g)" "sourceBlock g \<notin> ends st"
    "tentativeTarget g \<notin> ends st"
proof -
  have "\<forall>g\<in>set (gotos st). terminated (bbs st) (sourceBlock g) \<and> unterminated (bbs st) (tentativeTarget g) \<and> sourceBlock g \<notin> ends st"
    using assms(1) unfolding wfg_def base_def by blast
  then show "terminated (bbs st) (sourceBlock g)" "unterminated (bbs st) (tentativeTarget g)" "sourceBlock g \<notin> ends st"
    using assms(2) by simp_all
  show "tentativeTarget g \<notin> ends st"
    using wfg_private(2) [OF assms(1)] assms(2) unfolding ends_def tents_def by (metis image_iff)
qed

lemma few_targets:
  assumes "wfg st G" "c \<in> set (cleanupScopes st)" "nextBB st < 2 ^ 32"
  shows "length (exitTargets c) < 2 ^ 32"
proof -
  have "length (exitTargets c) = card (targets c)"
    using wfg_recorded(1) [OF assms(1,2)] distinct_card [of "map branchTarget (exitTargets c)"]
    by (auto simp: okScope_def targets_def)
  also have "\<dots> \<le> nextBB st" using card_mono [OF _ wfg_recorded(3) [OF assms(1,2)]] by simp
  finally show ?thesis using assms(3) by simp
qed

lemma distinct_ends:
  assumes "wfg st G" "i < length (cleanupScopes st)" "k < length (cleanupScopes st)" "k \<noteq> i"
  shows "endBlock (cleanupScopes st ! k) \<noteq> endBlock (cleanupScopes st ! i)"
  using assms nth_eq_iff_index_eq [of "map endBlock (cleanupScopes st)" k i] by (auto simp: wfg_def base_def)

text \<open>The effect of \<open>run\<close> on a scope in its place.\<close>

definition ranScope :: "nat \<Rightarrow> BB \<Rightarrow> BB \<Rightarrow> CleanupScope \<Rightarrow> 'a TryCatchFinallyScopes_scheme \<Rightarrow> 'a TryCatchFinallyScopes_scheme \<Rightarrow> bool" where
  "ranScope i s t c st st' \<longleftrightarrow>
     st' = st\<lparr>bbs := bbs st', nextAlloca := nextAlloca st', cleanupScopes := (cleanupScopes st)[i := c]\<rparr>
   \<and> nextAlloca st \<le> nextAlloca st' \<and> okScope (bbs st') (nextAlloca st') c \<and> ran (cleanupScopes st ! i) s t c
   \<and> touched (bbs st) (bbs st') (endBlock c) (insert s (recorded (cleanupScopes st ! i))) (branchSelector c)
   \<and> (branchSelector c = branchSelector (cleanupScopes st ! i) \<or> branchSelector c = Some (nextAlloca st))"

lemma runScope_ran:
  assumes "runScope i s t st = Some st'" "wfg st G" "nextBB st < 2 ^ 32"
    and "terminated (bbs st) s" "s \<notin> ends st" "s \<notin> recorded (cleanupScopes st ! i)"
  shows "i < length (cleanupScopes st) \<and> (\<exists>c. ranScope i s t c st st')"
proof -
  let ?c = "cleanupScopes st ! i"
  from assms(1) obtain c st1 where r: "i < length (cleanupScopes st)" "run ?c s t st = Some (c, st1)"
      "st' = st1\<lparr>cleanupScopes := (cleanupScopes st1)[i := c]\<rparr>"
    by (auto simp: runScope_def split: Option.bind_splits if_splits)
  then have c: "?c \<in> set (cleanupScopes st)" by simp
  then have "endBlock ?c \<in> ends st" by (simp add: ends_def)
  then have "endBlock ?c \<notin> insert s (recorded ?c)" using assms(5) wfg_recorded(2) [OF assms(2) c] by auto
  from run_ok [OF r(2) few_targets [OF assms(2) c assms(3)] wfg_recorded(1) [OF assms(2) c] this assms(6,4)]
  show ?thesis using r by (auto simp: ranScope_def ran_def intro!: exI [of _ c])
qed

lemma ranScope_same:
  assumes "ranScope i s t c st st'" "i < length (cleanupScopes st)"
  shows "gotos st' = gotos st" "ends st' = ends st" "tents st' = tents st" "nextBB st' = nextBB st" "scopebb st' = scopebb st"
    "unresolvedGotosPerCleanupScope st' = unresolvedGotosPerCleanupScope st"
    "length (landingPadsPerCleanupScope st') = length (landingPadsPerCleanupScope st)"
    "cleanupScopes st' = (cleanupScopes st)[i := c]"
proof -
  have st: "st' = st\<lparr>bbs := bbs st', nextAlloca := nextAlloca st', cleanupScopes := (cleanupScopes st)[i := c]\<rparr>"
    using assms(1) by (simp add: ranScope_def)
  show cs: "cleanupScopes st' = (cleanupScopes st)[i := c]" by (subst st) simp
  have "endBlock c = endBlock (cleanupScopes st ! i)" using assms by (simp add: ranScope_def ran_def)
  then have "map endBlock ((cleanupScopes st)[i := c]) = map endBlock (cleanupScopes st)"
    by (simp add: map_update) (metis assms(2) list_update_id nth_map)
  then show "ends st' = ends st" unfolding ends_def cs by (metis list.set_map)
  show g: "gotos st' = gotos st" by (subst st) (simp add: gotos_def)
  show "tents st' = tents st" by (simp add: tents_def g)
  show "nextBB st' = nextBB st" "scopebb st' = scopebb st"
    "unresolvedGotosPerCleanupScope st' = unresolvedGotosPerCleanupScope st"
    "length (landingPadsPerCleanupScope st') = length (landingPadsPerCleanupScope st)"
    by (subst st, simp)+
qed

lemma touched_unterminated:
  assumes "touched m m' e A sel" "b \<noteq> e"
  shows "unterminated m b \<Longrightarrow> unterminated m' b" "terminated m b \<Longrightarrow> terminated m' b"
    and "m' b = Some blk \<Longrightarrow> terminator blk = None \<Longrightarrow> m b = Some blk"
  using assms(1) [unfolded touched_def, rule_format, OF assms(2)] by (auto simp: unterminated_def terminated_def)

lemma ranScope_base:
  assumes r: "ranScope i s t c st st'" and i: "i < length (cleanupScopes st)" and wf: "wfg st G"
  shows "base st'"
proof -
  note same = ranScope_same [OF r i]
  let ?c = "cleanupScopes st ! i"
  have b: "base st" using wf by (simp add: wfg_def)
  have c: "endBlock c = endBlock ?c" "touched (bbs st) (bbs st') (endBlock c) (insert s (recorded ?c)) (branchSelector c)"
      "okScope (bbs st') (nextAlloca st') c" "branchSelector c = branchSelector ?c \<or> branchSelector c = Some (nextAlloca st)"
    using r by (auto simp: ranScope_def ran_def)
  have e: "endBlock c \<in> ends st" using i c(1) by (simp add: ends_def)
  have fresh: "bbs st' b' = None" if "nextBB st \<le> b'" for b'
  proof -
    have "b' \<noteq> endBlock c" using that wfg_end_block(2) [OF wf e] by auto
    then show ?thesis using c(2) wfg_fresh [OF wf that] by (auto simp: touched_def)
  qed
  have stores: "stores blk = []" if "bbs st' b' = Some blk" "terminator blk = None" for b' blk
  proof (cases "b' = endBlock c")
    case True
    with c(3) that show ?thesis by (auto simp: okScope_def)
  next
    case False
    then show ?thesis using touched_unterminated(3) [OF c(2) False that] b that(2) by (auto simp: base_def)
  qed
  have gs: "terminated (bbs st') (sourceBlock g) \<and> unterminated (bbs st') (tentativeTarget g) \<and> sourceBlock g \<notin> ends st'"
    if "g \<in> set (gotos st)" for g
  proof -
    note g = wfg_goto [OF wf that]
    have "tentativeTarget g \<noteq> endBlock c" "sourceBlock g \<noteq> endBlock c" using g(3,4) e by auto
    then show ?thesis using touched_unterminated(1,2) [OF c(2)] g by (auto simp: same)
  qed
  have na: "v < nextAlloca st" if "d \<in> set (cleanupScopes st)" "branchSelector d = Some v" for d v
    using wfg_recorded(1) [OF wf that(1)] that(2) by (auto simp: okScope_def)
  have sel: "endBlock d = endBlock d'"
    if "d \<in> set (cleanupScopes st')" "d' \<in> set (cleanupScopes st')" "branchSelector d \<noteq> None" "branchSelector d = branchSelector d'" for d d'
  proof -
    have old: "d = c \<or> d \<in> set (cleanupScopes st)" if "d \<in> set (cleanupScopes st')" for d
      using that set_update_subset_insert [of "cleanupScopes st" i c] same(8) by auto
    have old_eq: "x \<in> set (cleanupScopes st) \<Longrightarrow> branchSelector x \<noteq> None \<Longrightarrow> branchSelector x = branchSelector y \<Longrightarrow>
        y \<in> set (cleanupScopes st) \<Longrightarrow> endBlock x = endBlock y" for x y
      using wfg_selector [OF wf, of x y] by auto
    have new: "endBlock x = endBlock c" if "x \<in> set (cleanupScopes st)" "branchSelector x \<noteq> None" "branchSelector x = branchSelector c" for x
    proof -
      from that(2) obtain v where v: "branchSelector x = Some v" by auto
      then have "branchSelector c \<noteq> Some (nextAlloca st)" using na [OF that(1) v] that(3) by auto
      then have "branchSelector ?c = Some v" using c(4) v that(3) by simp
      then show ?thesis using wfg_selector [OF wf that(1) nth_mem [OF i] v] c(1) by simp
    qed
    show ?thesis using old [OF that(1)] old [OF that(2)] old_eq [of d d'] new [of d] new [of d'] that(3,4) by metis
  qed
  have ends: "map endBlock (cleanupScopes st') = map endBlock (cleanupScopes st)"
    using i c(1) by (simp add: same(8) map_update) (metis list_update_id nth_map)
  have "\<forall>c\<in>set (cleanupScopes st'). \<forall>d\<in>set (cleanupScopes st').
      branchSelector c \<noteq> None \<longrightarrow> branchSelector c = branchSelector d \<longrightarrow> endBlock c = endBlock d"
    using sel by blast
  moreover have "length (cleanupScopes st') = length (cleanupScopes st)" using same(8) by simp
  ultimately show ?thesis
    using b fresh stores gs ends unfolding base_def same(1-7) by simp
qed

lemma ranScope_wfg:
  assumes r: "ranScope i s t c st st'" and i: "i < length (cleanupScopes st)" and wf: "wfg st G"
    and s: "s \<notin> ends st" "s \<notin> sourceBlock ` (if Suc i = length (cleanupScopes st) then G else set (gotos st))"
    and t: "t < nextBB st" "t \<notin> tentativeTarget ` (if Suc i = length (cleanupScopes st) then G else set (gotos st))"
  shows "wfg st' G"
proof -
  note same = ranScope_same [OF r i]
  let ?c = "cleanupScopes st ! i"
  have c: "ran ?c s t c" "touched (bbs st) (bbs st') (endBlock c) (insert s (recorded ?c)) (branchSelector c)"
      "okScope (bbs st') (nextAlloca st') c" "branchSelector c = branchSelector ?c \<or> branchSelector c = Some (nextAlloca st)"
      "nextAlloca st \<le> nextAlloca st'" "endBlock c = endBlock ?c"
    using r by (auto simp: ranScope_def ran_def)
  have "fit st' (if Suc k = length (cleanupScopes st') then G else set (gotos st')) (cleanupScopes st' ! k)"
    if "k < length (cleanupScopes st')" for k
  proof (cases "k = i")
    case True
    then show ?thesis using wfg_nth [OF wf i] c(1,3) i s t ran_recorded [OF c(1)]
      unfolding fit_def same by (auto simp: ran_def)
  next
    case False
    let ?d = "cleanupScopes st ! k"
    have k: "k < length (cleanupScopes st)" using that same(8) by simp
    have d: "?d \<in> set (cleanupScopes st)" using k by simp
    have ne: "endBlock ?d \<noteq> endBlock c" using distinct_ends [OF wf i k False] c(6) by simp
    have ce: "endBlock c \<in> ends st" "endBlock ?d \<in> ends st" using i k c(6) by (simp_all add: ends_def)
    have "endBlock ?d \<notin> insert s (recorded ?c)"
      using s(1) ce(2) wfg_recorded(2) [OF wf nth_mem [OF i]] by auto
    then have blk: "bbs st' (endBlock ?d) = bbs st (endBlock ?d)" using c(2) ne by (auto simp: touched_def)
    have sel: "\<not> (branchSelector c = Some v \<and> branchSelector ?d = Some v)" for v
    proof
      assume "branchSelector c = Some v \<and> branchSelector ?d = Some v"
      then have eq: "branchSelector ?d = branchSelector c" and that: "branchSelector c \<noteq> None" by simp_all
      with that wfg_recorded(1) [OF wf d] have "branchSelector c \<noteq> Some (nextAlloca st)" by (auto simp: okScope_def)
      with c(4) have "branchSelector c = branchSelector ?c" by blast
      with eq that have "endBlock ?d = endBlock ?c" using wfg_selector [OF wf d nth_mem [OF i]] by auto
      with ne c(6) show False by simp
    qed
    have "selectsOK (bbs st') ?d"
      by (rule selectsOK_touched [OF _ c(2)]) (use wfg_recorded(1,2) [OF wf d] ce(1) sel in \<open>auto simp: okScope_def\<close>)
    then have "okScope (bbs st') (nextAlloca st') ?d"
      using wfg_recorded(1) [OF wf d] blk c(5) by (auto simp: okScope_def)
    with wfg_nth [OF wf k] False show ?thesis unfolding fit_def same by auto
  qed
  then show ?thesis using ranScope_base [OF r i wf] wf by (simp add: wfg_def same(1))
qed

lemma ranScope_sources:
  assumes "ranScope i s t c st st'" "i < length (cleanupScopes st)"
  shows "sources st' \<subseteq> insert s (sources st)"
proof -
  have "recorded c = insert s (recorded (cleanupScopes st ! i))"
    using assms(1) ran_recorded by (auto simp: ranScope_def)
  then have "recorded d \<subseteq> insert s (sources st)" if "d \<in> set ((cleanupScopes st)[i := c])" for d
    using that set_update_subset_insert [of "cleanupScopes st" i c] nth_mem [OF assms(2)] unfolding sources_def by blast
  then show ?thesis unfolding sources_def [of st'] ranScope_same(1,8) [OF assms] by (auto simp: sources_def)
qed

lemma ranScope_linked:
  assumes r: "ranScope i s t c st st'" and i: "i < length (cleanupScopes st)" and wf: "wfg st G"
    and l: "linked st src e b" and es: "e \<noteq> s" and src: "src \<notin> ends st"
  shows "linked st' src e b"
proof -
  note same = ranScope_same [OF r i]
  let ?c = "cleanupScopes st ! i"
  have c: "ran ?c s t c" "touched (bbs st) (bbs st') (endBlock c) (insert s (recorded ?c)) (branchSelector c)"
      "branchSelector c = branchSelector ?c \<or> branchSelector c = Some (nextAlloca st)"
      "nextAlloca st \<le> nextAlloca st'" "endBlock c = endBlock ?c"
    using r by (auto simp: ranScope_def ran_def)
  have e: "e \<notin> sources st'" using l es ranScope_sources [OF r i] by (auto simp: linked_def)
  show ?thesis
  proof (cases "e \<in> ends st")
    case True
    with l obtain d where d: "d \<in> set (cleanupScopes st)" "endBlock d = e" "recordedTo d src b"
      by (auto simp: linked_def)
    then obtain k where k: "k < length (cleanupScopes st)" "d = cleanupScopes st ! k" by (auto simp: in_set_conv_nth)
    let ?d = "cleanupScopes st' ! k"
    have "?d \<in> set (cleanupScopes st')" using k(1) same(8) by simp
    moreover have "endBlock ?d = e" "recordedTo ?d src b"
      using d k c(1,5) same(8) by (cases "k = i"; simp add: ran_def)+
    ultimately show ?thesis using e True by (auto simp: linked_def same)
  next
    case False
    with l obtain sb blk where b: "bbs st src = Some sb" "bbs st e = Some blk" "stores blk = []"
        "hop (stores sb) (terminator blk) = Some b" "\<forall>v d xs. terminator blk = Some (SwitchInst v d xs) \<longrightarrow>
           v < nextAlloca st \<and> (\<forall>c\<in>set (cleanupScopes st). branchSelector c \<noteq> Some v)"
      by (auto simp: linked_def)
    have ce: "endBlock c \<in> ends st" using i c(5) by (simp add: ends_def)
    have "e \<notin> insert s (recorded ?c)" using l es nth_mem [OF i] by (auto simp: linked_def sources_def)
    moreover have "e \<noteq> endBlock c" using False ce by auto
    ultimately have blk: "bbs st' e = Some blk" using c(2) b(2) unfolding touched_def by metis
    have vs: "branchSelector d \<noteq> Some v" if "terminator blk = Some (SwitchInst v x xs)" "d \<in> set (cleanupScopes st')" for v x xs d
      using that b(5) c(3) i same(8) set_update_subset_insert [of "cleanupScopes st" i c] by fastforce
    have cs: "c \<in> set (cleanupScopes st')" using i same(8) set_update_memI by simp
    obtain sb' where sb': "bbs st' src = Some sb'" "hop (stores sb') (terminator blk) = Some b"
    proof -
      have "src \<noteq> endBlock c" using src ce by auto
      from c(2) this show thesis
      proof (cases rule: touched_cases)
        case 1
        with b that show thesis by auto
      next
        case (2 w sb1 ns)
        have "lastStore (stores sb @ map (Pair w) ns) v = lastStore (stores sb) v" if "terminator blk = Some (SwitchInst v d xs)" for v d xs
          using vs [OF that cs] 2(2) by (intro lastStore_append_other) auto
        then have "hop (stores sb @ map (Pair w) ns) (terminator blk) = hop (stores sb) (terminator blk)"
          by (cases "(stores sb, terminator blk)" rule: hop.cases) auto
        with 2 b that show thesis by auto
      qed
    qed
    show ?thesis using False e blk b(3,5) sb' vs c(4) unfolding linked_def same by fastforce
  qed
qed

lemma ranScope_renamed:
  assumes "ranScope i s t c st st'" "i < length (cleanupScopes st)"
  shows "renamed X st st'"
proof (rule renamed_same)
  show "ends st' \<subseteq> ends st" using ranScope_same [OF assms] by simp
  fix b blk T assume b: "bbs st b = Some blk" "terminator blk = Some T" "b \<notin> ends st"
  have "endBlock c \<in> ends st" using assms by (simp add: ranScope_def ran_def ends_def)
  with b(3) have "b \<noteq> endBlock c" by blast
  moreover have "touched (bbs st) (bbs st') (endBlock c) (insert s (recorded (cleanupScopes st ! i))) (branchSelector c)"
    using assms(1) by (simp add: ranScope_def)
  ultimately show "\<exists>blk'. bbs st' b = Some blk' \<and> terminator blk' = Some T"
    using b(1,2) unfolding touched_def by fastforce
qed

end
