(* ===== verification/CleanupSteps.thy ===== *)
theory CleanupSteps
  imports CleanupInvariant
begin

text \<open>
  The remaining operations on scopes: replacing and erasing blocks, redirecting gotos, and
  opening and closing scopes.
\<close>

lemma wfgI:
  assumes "base st" "G \<subseteq> set (gotos st)"
    and "\<And>k. k < length (cleanupScopes st) \<Longrightarrow>
      fit st (if Suc k = length (cleanupScopes st) then G else set (gotos st)) (cleanupScopes st ! k)"
  shows "wfg st G"
  using assms unfolding wfg_def by blast

lemma fit_step:
  assumes "fit st G c" "okScope (bbs st') (nextAlloca st') c" "ends st' \<subseteq> ends st" "tents st' \<subseteq> tents st"
    "nextBB st \<le> nextBB st'" "endBlock c \<noteq> scopebb st'" "G' \<subseteq> G"
  shows "fit st' G' c"
  using assms unfolding fit_def by fastforce

section \<open>Replacing uses of a block\<close>

lemma rauw_same [simp]:
  "gotos (replaceAllUsesWith x y st) = gotos st" "ends (replaceAllUsesWith x y st) = ends st"
  "tents (replaceAllUsesWith x y st) = tents st" "sources (replaceAllUsesWith x y st) = sources st"
  "nextBB (replaceAllUsesWith x y st) = nextBB st" "nextAlloca (replaceAllUsesWith x y st) = nextAlloca st"
  "scopebb (replaceAllUsesWith x y st) = scopebb st" "cleanupScopes (replaceAllUsesWith x y st) = cleanupScopes st"
  "unresolvedGotosPerCleanupScope (replaceAllUsesWith x y st) = unresolvedGotosPerCleanupScope st"
  "landingPadsPerCleanupScope (replaceAllUsesWith x y st) = landingPadsPerCleanupScope st"
  by (simp_all add: replaceAllUsesWith_def gotos_def ends_def tents_def sources_def)

lemma rauw_bbs:
  "bbs (replaceAllUsesWith x y st) b =
     map_option (terminator_update (map_option (substTerminator (substBB x y)))) (bbs st b)"
  by (simp add: replaceAllUsesWith_def)

lemma rauw_terminated [simp]:
  "terminated (bbs (replaceAllUsesWith x y st)) b = terminated (bbs st) b"
  "unterminated (bbs (replaceAllUsesWith x y st)) b = unterminated (bbs st) b"
  by (auto simp: rauw_bbs terminated_def unterminated_def)

lemma rauw_renamed: "x \<in> X \<Longrightarrow> renamed X st (replaceAllUsesWith x y st)"
  unfolding renamed_def rauw_same rauw_bbs by (auto simp: substBB_def intro!: exI [of _ "substBB x y"])

lemma exitTerm_subst:
  assumes "x \<notin> targets c"
  shows "map_option (substTerminator (substBB x y)) (exitTerm c) = exitTerm c"
proof (cases "exitTargets c = []")
  case False
  have "substBB x y (branchTarget (exitTargets c ! i)) = branchTarget (exitTargets c ! i)" if "i < length (exitTargets c)" for i
    using assms nth_mem [OF that] by (auto simp: substBB_def targets_def)
  then show ?thesis using False
    by (auto simp: exitTerm_nth selectorCases_def split: option.split)
qed (simp add: exitTerm_def)

lemma rauw_okScope:
  assumes "okScope (bbs st) na c" "x \<notin> targets c"
  shows "okScope (bbs (replaceAllUsesWith x y st)) na c"
proof -
  have "selectsOK (bbs (replaceAllUsesWith x y st)) c"
    using assms(1) by (fastforce simp: okScope_def selectsOK_def rauw_bbs)
  then show ?thesis using assms exitTerm_subst [OF assms(2), of y] by (auto simp: okScope_def rauw_bbs)
qed

lemma rauw_wfg:
  assumes "wfg st G" "\<forall>c\<in>set (cleanupScopes st). x \<notin> targets c"
  shows "wfg (replaceAllUsesWith x y st) G"
proof -
  have "base (replaceAllUsesWith x y st)"
    using assms(1) unfolding wfg_def base_def by (auto simp: rauw_bbs)
  then show ?thesis
  proof (rule wfgI)
    fix k assume "k < length (cleanupScopes (replaceAllUsesWith x y st))"
    then have k: "k < length (cleanupScopes st)" by simp
    have ok: "okScope (bbs (replaceAllUsesWith x y st)) (nextAlloca st) (cleanupScopes st ! k)"
      using wfg_recorded(1) [OF assms(1) nth_mem [OF k]] assms(2) nth_mem [OF k] by (intro rauw_okScope) auto
    show "fit (replaceAllUsesWith x y st) (if Suc k = length (cleanupScopes (replaceAllUsesWith x y st)) then G
        else set (gotos (replaceAllUsesWith x y st))) (cleanupScopes (replaceAllUsesWith x y st) ! k)"
      unfolding rauw_same by (rule fit_step [OF wfg_nth [OF assms(1) k]]) (use ok wfg_nth [OF assms(1) k] in \<open>auto simp: fit_def\<close>)
  qed (use assms(1) in \<open>simp add: wfg_def\<close>)
qed

lemma rauw_linked:
  assumes "linked st src e b" "\<forall>c\<in>set (cleanupScopes st). x \<notin> targets c"
  shows "linked (replaceAllUsesWith x y st) src e (substBB x y b)"
proof (cases "e \<in> ends st")
  case True
  with assms have "substBB x y b = b" by (auto simp: linked_def substBB_def recordedTo_def targets_def)
  with True assms(1) show ?thesis by (simp add: linked_def)
next
  case False
  with assms(1) obtain s blk where s: "bbs st src = Some s" "bbs st e = Some blk" "stores blk = []"
      "hop (stores s) (terminator blk) = Some b" "\<forall>v d xs. terminator blk = Some (SwitchInst v d xs) \<longrightarrow>
         v < nextAlloca st \<and> (\<forall>c\<in>set (cleanupScopes st). branchSelector c \<noteq> Some v)"
    by (auto simp: linked_def)
  have "\<exists>d' xs'. terminator blk = Some (SwitchInst v d' xs')"
    if "map_option (substTerminator f) (terminator blk) = Some (SwitchInst v d xs)" for v d xs f
    using that by (cases "terminator blk") (auto elim: substTerminator.elims)
  with s False assms(1) show ?thesis
    by (simp add: linked_def rauw_bbs hop_subst) blast
qed

lemma rauw_route:
  assumes "route exn st src cs t" "\<forall>c\<in>set (cleanupScopes st). x \<notin> targets c" "x \<notin> fst ` set cs"
  shows "route exn (replaceAllUsesWith x y st) src cs (substBB x y t)"
proof -
  have "chained (replaceAllUsesWith x y st) src cs (substBB x y b) (substBB x y t)" if "chained st src cs b t" for b
    using that assms(3)
  proof (induction cs arbitrary: b)
    case (Cons c cs)
    then obtain b' where "linked st src (snd c) b'" "chained st src cs b' t" "b = fst c" by auto
    moreover have "linked (replaceAllUsesWith x y st) src (snd c) (substBB x y b')"
      using calculation(1) assms(2) by (rule rauw_linked)
    moreover have "chained (replaceAllUsesWith x y st) src cs (substBB x y b') (substBB x y t)"
      using Cons.IH calculation(2) Cons.prems(2) by simp
    ultimately show ?case using Cons.prems(2) by (auto simp: substBB_def [of x y "fst c"])
  qed simp
  moreover have "Option.bind (map_option (substTerminator f) x) (jump exn) = map_option f (Option.bind x (jump exn))" for f x
    by (cases x) (simp_all add: jump_subst)
  ultimately show ?thesis using assms(1) by (auto simp: route_def rauw_bbs)
qed

section \<open>Erasing a block\<close>

lemma erase_same [simp]:
  "gotos (eraseFromParent x st) = gotos st" "ends (eraseFromParent x st) = ends st"
  "tents (eraseFromParent x st) = tents st" "sources (eraseFromParent x st) = sources st"
  "nextBB (eraseFromParent x st) = nextBB st" "nextAlloca (eraseFromParent x st) = nextAlloca st"
  "scopebb (eraseFromParent x st) = scopebb st" "cleanupScopes (eraseFromParent x st) = cleanupScopes st"
  "unresolvedGotosPerCleanupScope (eraseFromParent x st) = unresolvedGotosPerCleanupScope st"
  "landingPadsPerCleanupScope (eraseFromParent x st) = landingPadsPerCleanupScope st"
  "bbs (eraseFromParent x st) = (bbs st)(x := None)"
  by (simp_all add: eraseFromParent_def gotos_def ends_def tents_def sources_def)

lemma unterminated_not_source:
  assumes "wfg st G" "unterminated (bbs st) x"
  shows "x \<notin> sources st"
proof -
  have "terminated (bbs st) s" if "s \<in> recorded c" "c \<in> set (cleanupScopes st)" for s c
  proof -
    from that(1) obtain i where "i < length (exitTargets c)" "s \<in> set (sourceBlocks (exitTargets c ! i))"
      unfolding recorded_iff by (metis in_set_conv_nth)
    moreover have "selectsOK (bbs st) c" using wfg_recorded(1) [OF assms(1) that(2)] by (simp add: okScope_def)
    ultimately show ?thesis unfolding selectsOK_def terminated_def by blast
  qed
  moreover have "terminated (bbs st) (sourceBlock g)" if "g \<in> set (gotos st)" for g
    using wfg_goto [OF assms(1) that] by blast
  moreover have "\<not> terminated (bbs st) x" using assms(2) by (auto simp: terminated_def unterminated_def)
  ultimately show ?thesis by (auto simp: sources_def)
qed

lemma erase_renamed: "unterminated (bbs st) x \<Longrightarrow> renamed X st (eraseFromParent x st)"
  by (rule renamed_same) (auto simp: eraseFromParent_def unterminated_def ends_def)

lemma erase_wfg:
  assumes "wfg st G" "unterminated (bbs st) x" "x \<notin> ends st" "x \<notin> tents st" "x \<noteq> scopebb st"
  shows "wfg (eraseFromParent x st) G"
proof -
  have x: "x \<notin> sources st" using unterminated_not_source [OF assms(1,2)] .
  have "base (eraseFromParent x st)"
    using assms x unfolding wfg_def base_def
    by (auto simp: terminated_def unterminated_def tents_def sources_def)
  moreover have "okScope ((bbs st)(x := None)) (nextAlloca st) c" if c: "c \<in> set (cleanupScopes st)" for c
  proof -
    have "endBlock c \<noteq> x" using assms(3) c by (auto simp: ends_def)
    moreover have "s \<noteq> x" if "i < length (exitTargets c)" "s \<in> set (sourceBlocks (exitTargets c ! i))" for i s
      using x c that nth_mem [OF that(1)] by (auto simp: sources_def recorded_iff)
    ultimately show ?thesis using wfg_recorded(1) [OF assms(1) c] unfolding okScope_def selectsOK_def by auto
  qed
  ultimately show ?thesis
  proof (intro wfgI)
    fix k assume "k < length (cleanupScopes (eraseFromParent x st))"
    then have k: "k < length (cleanupScopes st)" by simp
    assume ok: "\<And>c. c \<in> set (cleanupScopes st) \<Longrightarrow> okScope ((bbs st)(x := None)) (nextAlloca st) c"
    have "fit (eraseFromParent x st) (if Suc k = length (cleanupScopes st) then G else set (gotos st)) (cleanupScopes st ! k)"
      by (rule fit_step [OF wfg_nth [OF assms(1) k]])
         (use ok [OF nth_mem [OF k]] wfg_nth [OF assms(1) k] in \<open>auto simp: fit_def\<close>)
    then show "fit (eraseFromParent x st) (if Suc k = length (cleanupScopes (eraseFromParent x st)) then G
        else set (gotos (eraseFromParent x st))) (cleanupScopes (eraseFromParent x st) ! k)" unfolding erase_same .
  qed (use assms(1) in \<open>auto simp: wfg_def\<close>)
qed

lemma erase_linked:
  assumes "linked st src e b" "unterminated (bbs st) x" "x \<noteq> src"
  shows "linked (eraseFromParent x st) src e b"
proof (cases "e \<in> ends st")
  case False
  with assms(1) obtain blk s where "bbs st e = Some blk" "hop s (terminator blk) = Some b" by (auto simp: linked_def)
  then have "e \<noteq> x" using assms(2) by (auto simp: unterminated_def)
  then show ?thesis using False assms(1,3) by (simp add: linked_def)
qed (use assms(1) in \<open>simp add: linked_def\<close>)

lemma erase_route:
  assumes "route exn st src cs t" "unterminated (bbs st) x"
  shows "route exn (eraseFromParent x st) src cs t"
proof -
  have "x \<noteq> src" using route_terminated [OF assms(1)] assms(2) by (auto simp: terminated_def unterminated_def)
  then show ?thesis using assms erase_linked [OF _ assms(2)]
    by (intro route_mono [OF assms(1)]) auto
qed

section \<open>Redirecting a goto\<close>

definition scopePair :: "CleanupScope \<Rightarrow> BB \<times> BB" where
  "scopePair c = (beginBlock c, endBlock c)"

text \<open>The cleanups and the target of a route avoid the blocks that may still be replaced.\<close>

definition settled :: "ClassInfo option \<Rightarrow> 'a TryCatchFinallyScopes_scheme \<Rightarrow> BB \<Rightarrow> (BB \<times> BB) list \<Rightarrow> BB \<Rightarrow> bool" where
  "settled exn st src cs t \<longleftrightarrow> route exn st src cs t \<and> fst ` set cs \<inter> tents st = {} \<and> fst ` set cs \<subseteq> {..<nextBB st} \<and> t < nextBB st"

lemma wfg_mono:
  assumes "wfg st G" "H \<subseteq> G"
  shows "wfg st H"
proof (rule wfgI)
  fix k assume k: "k < length (cleanupScopes st)"
  show "fit st (if Suc k = length (cleanupScopes st) then H else set (gotos st)) (cleanupScopes st ! k)"
    by (rule fit_step [OF wfg_nth [OF assms(1) k]]) (use wfg_nth [OF assms(1) k] assms(2) in \<open>auto simp: fit_def\<close>)
qed (use assms in \<open>auto simp: wfg_def\<close>)

lemma wfg_goto_inj:
  assumes "wfg st G" "g \<in> set (gotos st)" "h \<in> set (gotos st)"
  shows "sourceBlock g = sourceBlock h \<Longrightarrow> g = h" "tentativeTarget g = tentativeTarget h \<Longrightarrow> g = h"
proof -
  have "inj_on sourceBlock (set (gotos st))" "inj_on tentativeTarget (set (gotos st))"
    using assms(1) unfolding wfg_def base_def distinct_map by blast+
  then show "sourceBlock g = sourceBlock h \<Longrightarrow> g = h" "tentativeTarget g = tentativeTarget h \<Longrightarrow> g = h"
    using assms(2,3) by (auto dest: inj_onD)
qed

lemma route_append:
  assumes "route exn st src cs (fst c)" "linked st src (snd c) t"
  shows "route exn st src (cs @ [c]) t"
proof -
  have "chained st src cs b (fst c) \<Longrightarrow> chained st src (cs @ [c]) b t" for b
    using assms(2) by (induction cs arbitrary: b) auto
  then show ?thesis using assms(1) unfolding route_def by blast
qed

lemma route_end_not_source: "route exn st src cs t \<Longrightarrow> e \<in> snd ` set cs \<Longrightarrow> e \<notin> sources st"
proof -
  have "chained st src cs b t \<Longrightarrow> e \<in> snd ` set cs \<Longrightarrow> e \<notin> sources st" for b
    by (induction cs arbitrary: b) (auto simp: linked_def)
  then show "route exn st src cs t \<Longrightarrow> e \<in> snd ` set cs \<Longrightarrow> e \<notin> sources st" by (auto simp: route_def)
qed

lemma ranScope_route:
  assumes "ranScope i s t c st st'" "i < length (cleanupScopes st)" "wfg st G" "route exn st src cs u" "s \<notin> snd ` set cs"
  shows "route exn st' src cs u"
  using assms(4)
proof (rule route_mono)
  have src: "src \<notin> ends st" using assms(4) by (simp add: route_def)
  show "linked st' src e b'" if "e \<in> snd ` set cs" "linked st src e b'" for e b'
    using that assms(5) by (intro ranScope_linked [OF assms(1-3) that(2) _ src]) auto
  have e: "endBlock c \<in> ends st" using assms(1,2) by (auto simp: ranScope_def ran_def ends_def)
  show "\<exists>blk'. bbs st' src = Some blk' \<and> terminator blk' = terminator blk" if "bbs st src = Some blk" for blk
  proof -
    have "touched (bbs st) (bbs st') (endBlock c) (insert s (recorded (cleanupScopes st ! i))) (branchSelector c)"
      using assms(1) by (simp add: ranScope_def)
    moreover have "src \<noteq> endBlock c" using src e by auto
    ultimately show ?thesis using that by (cases rule: touched_cases) auto
  qed
qed (simp add: ranScope_same [OF assms(1,2)])

lemma wfg_end_not_source:
  assumes "wfg st G" "e \<in> ends st"
  shows "e \<notin> sources st"
proof
  assume "e \<in> sources st"
  then consider c where "c \<in> set (cleanupScopes st)" "e \<in> recorded c" | g where "g \<in> set (gotos st)" "e = sourceBlock g"
    by (auto simp: sources_def)
  then show False using wfg_recorded(2) [OF assms(1)] wfg_goto(3) [OF assms(1)] assms(2) by cases blast+
qed

lemma run_only:
  assumes "run c s t st = Some (c', st')"
  shows "nextBB st' = nextBB st" "scopebb st' = scopebb st" "IRState.more st' = IRState.more st"
proof -
  let ?I = "\<lambda>st st'. nextBB st' = nextBB st \<and> scopebb st' = scopebb st \<and> IRState.more st' = IRState.more st"
  have ins: "?I st st'" if "iterM (insertStore v n) bs st = Some st'" for v n bs and st st' :: "'a IRState_scheme"
    using that by (rule iterM_invariant [where I = "?I st"]) (auto elim!: insertStore_Some)
  have direct: "?I st st'" if "runDirect c s t st = Some (c', st')" for st
    using that by (auto simp: runDirect_def terminate_def split: Option.bind_splits if_splits)
  have selected: "?I st st'" if "runSelected c s t st = Some (c', st')" for c st
    using that by (auto simp: runSelected_def addCase_def Let_def elim!: insertStore_Some
        split: Option.bind_splits if_splits option.splits Terminator.splits)
  have create: "?I st st1" if "createSelector c st = Some (c1, st1)" for c1 st1
    using that by (auto simp: createSelector_def setTerminator_def Let_def dest!: ins split: Option.bind_splits if_splits)
  have "?I st st'" using assms
    by (auto simp: run_def split: if_splits Option.bind_splits dest!: direct selected create)
  then show "nextBB st' = nextBB st" "scopebb st' = scopebb st" "IRState.more st' = IRState.more st" by blast+
qed

lemmas run_nextBB = run_only(1)

lemma rerouteGoto_eq:
  assumes "rerouteGoto i g st = Some st'"
  obtains st1 st2 d where "d = nextBB st" "st1 = replaceAllUsesWith (tentativeTarget g) d (snd (insertBB st))"
    "runScope i (sourceBlock g) (tentativeTarget g) st1 = Some st2"
    "st' = eraseFromParent d (replaceAllUsesWith d (beginBlock (cleanupScopes st2 ! i)) st2)"
  using assms by (auto simp: rerouteGoto_def insertBB_def Let_def split: Option.bind_splits)

lemma insertBB_same [simp]:
  "gotos (snd (insertBB st)) = gotos st" "ends (snd (insertBB st)) = ends st" "tents (snd (insertBB st)) = tents st"
  "cleanupScopes (snd (insertBB st)) = cleanupScopes st" "nextBB (snd (insertBB st)) = Suc (nextBB st)"
  "scopebb (snd (insertBB st)) = scopebb st" "fst (insertBB st) = nextBB st" "nextAlloca (snd (insertBB st)) = nextAlloca st"
  "unresolvedGotosPerCleanupScope (snd (insertBB st)) = unresolvedGotosPerCleanupScope st"
  "sources (snd (insertBB st)) = sources st" "bbs (snd (insertBB st)) = (bbs st)(nextBB st \<mapsto> emptyBB)"
  by (simp_all add: insertBB_def gotos_def ends_def tents_def sources_def)

text \<open>Before the cleanup runs, the branches to the tentative target go to a placeholder.\<close>

lemma wfg_tent_not_target:
  assumes "wfg st G" "g \<in> G" "c \<in> set (cleanupScopes st)"
  shows "tentativeTarget g \<notin> targets c"
proof -
  have g: "g \<in> set (gotos st)" using assms(1,2) by (auto simp: wfg_def)
  from assms(3) obtain k where k: "k < length (cleanupScopes st)" "c = cleanupScopes st ! k" by (auto simp: in_set_conv_nth)
  then show ?thesis using wfg_nth [OF assms(1) k(1)] g assms(2) by (auto simp: fit_def split: if_splits)
qed

lemma rerouteGoto_start:
  assumes "wfg st G" "g \<in> G"
  defines "st1 \<equiv> replaceAllUsesWith (tentativeTarget g) (nextBB st) (snd (insertBB st))"
  shows "wfg st1 G" "terminated (bbs st1) (sourceBlock g)" "sourceBlock g \<notin> ends st1"
proof -
  have g: "g \<in> set (gotos st)" using assms(1,2) by (auto simp: wfg_def)
  have q: "quiet st (snd (insertBB st))" by (rule quiet_insertBB [OF assms(1)])
  show wf1: "wfg st1 G" unfolding st1_def
    by (rule rauw_wfg [OF quiet_wfg [OF q assms(1)]]) (use wfg_tent_not_target [OF assms(1,2)] in simp)
  show "terminated (bbs st1) (sourceBlock g)" "sourceBlock g \<notin> ends st1"
    using wfg_goto [OF wf1] g by (auto simp: st1_def)
qed

lemma rerouteGoto_step:
  assumes "rerouteGoto i g st = Some st'" "wfg st G" "g \<in> G" "Suc i = length (cleanupScopes st)" "Suc (nextBB st) < 2 ^ 32"
  shows "wfg st' (G - {g})" "gotos st' = gotos st" "unresolvedGotosPerCleanupScope st' = unresolvedGotosPerCleanupScope st"
    and "map scopePair (cleanupScopes st') = map scopePair (cleanupScopes st)" "nextBB st' = Suc (nextBB st)"
    and "settled exn st src cs t \<Longrightarrow> t \<noteq> tentativeTarget g \<Longrightarrow> settled exn st' src cs t"
    and "settled exn st (sourceBlock g) cs (tentativeTarget g) \<Longrightarrow>
      settled exn st' (sourceBlock g) (cs @ [scopePair (cleanupScopes st ! i)]) (tentativeTarget g)"
    and "tentativeTarget g \<in> X \<Longrightarrow> nextBB st \<in> X \<Longrightarrow> renamed X st st'"
proof -
  obtain st1 st2 d where st: "d = nextBB st" "st1 = replaceAllUsesWith (tentativeTarget g) d (snd (insertBB st))"
      "runScope i (sourceBlock g) (tentativeTarget g) st1 = Some st2"
      "st' = eraseFromParent d (replaceAllUsesWith d (beginBlock (cleanupScopes st2 ! i)) st2)"
    using assms(1) by (rule rerouteGoto_eq)
  let ?s = "sourceBlock g" and ?t = "tentativeTarget g" and ?c = "cleanupScopes st ! i"
  have g: "g \<in> set (gotos st)" using assms(2,3) by (auto simp: wfg_def)
  have i: "i < length (cleanupScopes st)" using assms(4) by simp
  have t: "?t \<in> tents st" using g by (simp add: tents_def)
  have tn: "?t < nextBB st" using wfg_tent(2) [OF assms(2) t] .
  have top: "fit st G ?c" using wfg_nth [OF assms(2) i] assms(4) by simp
  have q: "quiet st (snd (insertBB st))" by (rule quiet_insertBB [OF assms(2)])
  note old = wfg_tent_not_target [OF assms(2,3)]
  note start = rerouteGoto_start [OF assms(2,3), folded st(1), folded st(2)]
  note wf1 = start(1)
  have src: "terminated (bbs st1) ?s" "?s \<notin> ends st1" "?s \<notin> recorded (cleanupScopes st1 ! i)"
    using start(2,3) top assms(3) by (auto simp: st(2) fit_def)
  have "nextBB st1 < 2 ^ 32" using assms(5) by (simp add: st(2))
  from runScope_ran [OF st(3) wf1 this src] obtain c where r: "ranScope i ?s ?t c st1 st2" "i < length (cleanupScopes st1)" by blast
  note same = ranScope_same [OF r]
  have inj: "?s \<notin> sourceBlock ` (G - {g})" "?t \<notin> tentativeTarget ` (G - {g})"
    using wfg_goto_inj [OF assms(2) g] assms(2) unfolding wfg_def by blast+
  have wf2: "wfg st2 (G - {g})"
    by (rule ranScope_wfg [OF r wfg_mono [OF wf1]]) (use src inj tn assms(4) in \<open>auto simp: st(2)\<close>)
  have cs2: "cleanupScopes st2 = (cleanupScopes st)[i := c]" using same(8) by (simp add: st(2))
  have c: "beginBlock c = beginBlock ?c" "endBlock c = endBlock ?c" "targets c = insert ?t (targets ?c)" "recordedTo c ?s ?t"
    using r(1) by (auto simp: ranScope_def ran_def st(2))
  have new: "d \<notin> targets c'" if "c' \<in> set (cleanupScopes st2)" for c'
  proof -
    have "c' = c \<or> c' \<in> set (cleanupScopes st)" using that set_update_subset_insert [of "cleanupScopes st" i c] cs2 by auto
    then show ?thesis using wfg_recorded(3) [OF assms(2)] c(3) tn nth_mem [OF i] st(1) by fastforce
  qed
  let ?st3 = "replaceAllUsesWith d (beginBlock (cleanupScopes st2 ! i)) st2"
  have wf3: "wfg ?st3 (G - {g})" by (rule rauw_wfg [OF wf2]) (use new in blast)
  have d: "d \<notin> ends st" "d \<notin> tents st" "d \<noteq> scopebb st"
    using wfg_end_block(2) [OF assms(2)] wfg_tent(2) [OF assms(2)] wfg_scopebb(3) [OF assms(2)] st(1) by auto
  have "unterminated (bbs st1) d" by (simp add: st(1,2) unterminated_def emptyBB_def rauw_bbs)
  moreover have "d \<noteq> endBlock c" using d(1) c(2) nth_mem [OF i] by (auto simp: ends_def)
  moreover have "touched (bbs st1) (bbs st2) (endBlock c) (insert ?s (recorded (cleanupScopes st1 ! i))) (branchSelector c)"
    using r(1) by (simp add: ranScope_def)
  ultimately have ud: "unterminated (bbs ?st3) d" using touched_unterminated(1) by simp
  show "wfg st' (G - {g})" unfolding st(4)
    by (rule erase_wfg [OF wf3 ud]) (use d same in \<open>simp_all add: st(2)\<close>)
  show "gotos st' = gotos st" "nextBB st' = Suc (nextBB st)" "unresolvedGotosPerCleanupScope st' = unresolvedGotosPerCleanupScope st"
    using same by (simp_all add: st(2,4))
  show pairs: "map scopePair (cleanupScopes st') = map scopePair (cleanupScopes st)"
    using c(1,2) i by (simp add: st(4) cs2 map_update scopePair_def) (metis (no_types, lifting) list_update_id nth_map scopePair_def)
  show "renamed X st st'" if "?t \<in> X" "nextBB st \<in> X"
  proof -
    have "renamed X st st1" using renamed_trans [OF quiet_renamed [OF q] rauw_renamed] that(1) unfolding st(2) by blast
    then have "renamed X st st2" using renamed_trans ranScope_renamed [OF r] by blast
    then have "renamed X st ?st3" using renamed_trans rauw_renamed that(2) unfolding st(1) by blast
    then show ?thesis using renamed_trans erase_renamed [OF ud] unfolding st(4) by blast
  qed
  have begin2: "beginBlock (cleanupScopes st2 ! i) = beginBlock ?c" using cs2 i c(1) by simp
  have tents': "tents st' = tents st" using same by (simp add: st(2,4))
  have through: "route exn ?st3 src cs (substBB d (beginBlock ?c) (substBB ?t d t))"
    if s: "settled exn st src cs t" for src cs t
  proof -
    have "?t \<notin> fst ` set cs" "d \<notin> fst ` set cs" using s t st(1) by (auto simp: settled_def)
    moreover have "route exn (snd (insertBB st)) src cs t" using s quiet_route [OF q] by (simp add: settled_def)
    ultimately have r1: "route exn st1 src cs (substBB ?t d t)" unfolding st(2) by (intro rauw_route) (use old in simp_all)
    have "?s \<in> sources st1" using g by (simp add: sources_def st(2))
    then have "?s \<notin> snd ` set cs" using route_end_not_source [OF r1] by blast
    then have "route exn st2 src cs (substBB ?t d t)" by (rule ranScope_route [OF r wf1 r1])
    then show ?thesis unfolding begin2 [symmetric] by (rule rauw_route) (use new \<open>d \<notin> fst ` set cs\<close> in simp_all)
  qed
  show "settled exn st' src cs t" if s: "settled exn st src cs t" "t \<noteq> ?t"
  proof -
    have "substBB d (beginBlock ?c) (substBB ?t d t) = t" using s st(1) by (auto simp: substBB_def settled_def)
    with through [OF s(1)] have "route exn st' src cs t" unfolding st(4) using erase_route [OF _ ud] by simp
    then show ?thesis using s(1) tents' \<open>nextBB st' = Suc (nextBB st)\<close> by (auto simp: settled_def less_Suc_eq)
  qed
  show "settled exn st' ?s (cs @ [scopePair ?c]) ?t" if s: "settled exn st ?s cs ?t"
  proof -
    have "substBB d (beginBlock ?c) (substBB ?t d ?t) = beginBlock ?c" by (simp add: substBB_def)
    with through [OF s] have r': "route exn st' ?s cs (fst (scopePair ?c))" unfolding st(4)
      using erase_route [OF _ ud] by (simp add: scopePair_def)
    have cm: "c \<in> set (cleanupScopes st')" using i by (simp add: st(4) cs2 set_update_memI)
    then have "endBlock c \<in> ends st'" by (simp add: ends_def)
    moreover from this have "endBlock c \<notin> sources st'" by (rule wfg_end_not_source [OF \<open>wfg st' (G - {g})\<close>])
    ultimately have "linked st' ?s (snd (scopePair ?c)) ?t" using cm c(2,4) by (auto simp: linked_def scopePair_def)
    from route_append [OF r' this] have "route exn st' ?s (cs @ [scopePair ?c]) ?t" .
    then show ?thesis using s tents' \<open>nextBB st' = Suc (nextBB st)\<close> wfg_private [OF assms(2) nth_mem [OF i]]
      by (auto simp: settled_def scopePair_def less_Suc_eq)
  qed
qed

section \<open>Closing a scope\<close>

lemma rerouteGotos:
  assumes "iterM (rerouteGoto i) gs st = Some st'" "wfg st G" "set gs \<subseteq> G" "distinct gs"
    and "Suc i = length (cleanupScopes st)" "nextBB st' < 2 ^ 32"
  shows "wfg st' (G - set gs) \<and> gotos st' = gotos st \<and> nextBB st \<le> nextBB st'
    \<and> unresolvedGotosPerCleanupScope st' = unresolvedGotosPerCleanupScope st
    \<and> map scopePair (cleanupScopes st') = map scopePair (cleanupScopes st)
    \<and> (\<forall>src cs t. settled exn st src cs t \<longrightarrow> t \<notin> tentativeTarget ` set gs \<longrightarrow> settled exn st' src cs t)
    \<and> (\<forall>g\<in>set gs. \<forall>cs. settled exn st (sourceBlock g) cs (tentativeTarget g) \<longrightarrow>
         settled exn st' (sourceBlock g) (cs @ [scopePair (cleanupScopes st ! i)]) (tentativeTarget g))
    \<and> (tentativeTarget ` set gs \<union> {nextBB st..} \<subseteq> X \<longrightarrow> renamed X st st')"
  using assms
proof (induction gs arbitrary: st G)
  case Nil
  then show ?case by (simp add: renamed_refl)
next
  case (Cons g gs)
  from Cons.prems(1) obtain st1 where st1: "rerouteGoto i g st = Some st1" "iterM (rerouteGoto i) gs st1 = Some st'"
    by (auto split: Option.bind_splits)
  have grow: "nextBB st \<le> nextBB st'" if "iterM (rerouteGoto i) gs st = Some st'" for gs and st :: "'a TryCatchFinallyScopes_scheme" and st'
    using that by (rule iterM_invariant [where I = "\<lambda>x. nextBB st \<le> nextBB x"])
      (auto simp: rerouteGoto_def runScope_def Let_def insertBB_def split: Option.bind_splits if_splits dest!: run_nextBB)
  have nb: "nextBB st1 = Suc (nextBB st)"
    using st1(1) by (auto simp: rerouteGoto_def runScope_def Let_def insertBB_def split: Option.bind_splits if_splits dest!: run_nextBB)
  have "Suc (nextBB st) < 2 ^ 32" using grow [OF st1(2)] nb Cons.prems(6) by simp
  have gG: "g \<in> G" using Cons.prems(3) by simp
  note one = rerouteGoto_step [OF st1(1) Cons.prems(2) gG Cons.prems(5) \<open>Suc (nextBB st) < 2 ^ 32\<close>]
  have len: "length (cleanupScopes st1) = length (cleanupScopes st)"
    using arg_cong [OF one(4), of length] by simp
  have top: "scopePair (cleanupScopes st1 ! i) = scopePair (cleanupScopes st ! i)"
    using arg_cong [OF one(4), of "\<lambda>xs. xs ! i"] Cons.prems(5) len by simp
  have diff: "tentativeTarget h \<noteq> tentativeTarget g" if "h \<in> set gs" for h
    using that wfg_goto_inj(2) [OF Cons.prems(2), of h g] Cons.prems(2-4) by (auto simp: wfg_def)
  have IH: "wfg st' (G - {g} - set gs) \<and> gotos st' = gotos st1 \<and> nextBB st1 \<le> nextBB st'
    \<and> unresolvedGotosPerCleanupScope st' = unresolvedGotosPerCleanupScope st1
    \<and> map scopePair (cleanupScopes st') = map scopePair (cleanupScopes st1)
    \<and> (\<forall>src cs t. settled exn st1 src cs t \<longrightarrow> t \<notin> tentativeTarget ` set gs \<longrightarrow> settled exn st' src cs t)
    \<and> (\<forall>h\<in>set gs. \<forall>cs. settled exn st1 (sourceBlock h) cs (tentativeTarget h) \<longrightarrow>
         settled exn st' (sourceBlock h) (cs @ [scopePair (cleanupScopes st1 ! i)]) (tentativeTarget h))
    \<and> (tentativeTarget ` set gs \<union> {nextBB st1..} \<subseteq> X \<longrightarrow> renamed X st1 st')"
    by (rule Cons.IH [OF st1(2) one(1)]) (use Cons.prems len in auto)
  have "settled exn st' (sourceBlock h) (cs @ [scopePair (cleanupScopes st ! i)]) (tentativeTarget h)"
    if h: "h \<in> set (g # gs)" "settled exn st (sourceBlock h) cs (tentativeTarget h)" for h cs
  proof (cases "h = g")
    case True
    have "tentativeTarget g \<notin> tentativeTarget ` set gs" using diff by (metis imageE)
    then show ?thesis using one(7) IH h(2) True by blast
  next
    case False
    then have "h \<in> set gs" using h(1) by simp
    then show ?thesis using one(6) [OF h(2) diff] IH top by simp
  qed
  moreover have "G - set (g # gs) = G - {g} - set gs" by auto
  moreover have "renamed X st st'" if "tentativeTarget ` set (g # gs) \<union> {nextBB st..} \<subseteq> X"
    using that IH nb by (intro renamed_trans [OF one(8)]) auto
  ultimately show ?case using IH one(2-6) nb by auto
qed

text \<open>Dropping the innermost scope, when all gotos of its level have been redirected.\<close>

definition dropScope :: "nat \<Rightarrow> 'a TryCatchFinallyScopes_scheme \<Rightarrow> 'a TryCatchFinallyScopes_scheme" where
  "dropScope i st = st\<lparr>cleanupScopes := butlast (cleanupScopes st),
     unresolvedGotosPerCleanupScope := butlast ((unresolvedGotosPerCleanupScope st)[i := unresolvedGotosPerCleanupScope st ! i @ currentUnresolvedGotos st]),
     landingPadsPerCleanupScope := butlast (landingPadsPerCleanupScope st)\<rparr>"

lemma popScope_drop: "popScope i st = map_option (dropScope i) (iterM (rerouteGoto i) (currentUnresolvedGotos st) st)"
  by (simp add: popScope_def dropScope_def Let_def map_conv_bind_option comp_def)

lemma concat_merge:
  assumes "length u = Suc (Suc i)"
  shows "concat (butlast (u[i := u ! i @ u ! Suc i])) = concat u"
proof -
  have u: "u = take i u @ [u ! i, u ! Suc i]"
    using assms id_take_nth_drop [of i u] id_take_nth_drop [of "Suc i" u] by (simp add: take_Suc_conv_app_nth)
  have "length (take i u) = i" using assms by simp
  then show ?thesis by (subst (1 2 3 4) u) (simp add: list_update_append nth_append butlast_append)
qed

lemma dropScope_same:
  assumes "wfg st G" "Suc i = length (cleanupScopes st)"
  shows "gotos (dropScope i st) = gotos st" "tents (dropScope i st) = tents st" "bbs (dropScope i st) = bbs st"
    "nextBB (dropScope i st) = nextBB st" "nextAlloca (dropScope i st) = nextAlloca st" "scopebb (dropScope i st) = scopebb st"
    "cleanupScopes (dropScope i st) = butlast (cleanupScopes st)"
    "ends st = insert (endBlock (cleanupScopes st ! i)) (ends (dropScope i st))"
    "endBlock (cleanupScopes st ! i) \<notin> ends (dropScope i st)"
proof -
  have l: "length (unresolvedGotosPerCleanupScope st) = Suc (Suc i)" using assms by (auto simp: wfg_def base_def)
  show g: "gotos (dropScope i st) = gotos st"
    using concat_merge [OF l] assms(2) by (simp add: gotos_def dropScope_def currentUnresolvedGotos_def currentCleanupScope_def)
  show "tents (dropScope i st) = tents st" by (simp add: tents_def g)
  show "bbs (dropScope i st) = bbs st" "nextBB (dropScope i st) = nextBB st" "nextAlloca (dropScope i st) = nextAlloca st"
    "scopebb (dropScope i st) = scopebb st" "cleanupScopes (dropScope i st) = butlast (cleanupScopes st)"
    by (simp_all add: dropScope_def)
  have "cleanupScopes st \<noteq> []" using assms(2) by auto
  then have cs: "cleanupScopes st = butlast (cleanupScopes st) @ [cleanupScopes st ! i]"
    using assms(2) append_butlast_last_id [of "cleanupScopes st"] last_conv_nth [of "cleanupScopes st"] by (metis diff_Suc_1)
  show "ends st = insert (endBlock (cleanupScopes st ! i)) (ends (dropScope i st))"
    unfolding ends_def dropScope_def by (subst cs) simp
  have "distinct (map endBlock (cleanupScopes st))" using assms(1) by (simp add: wfg_def base_def)
  then have "endBlock (cleanupScopes st ! i) \<notin> endBlock ` set (butlast (cleanupScopes st))"
    by (subst (asm) cs) simp
  then show "endBlock (cleanupScopes st ! i) \<notin> ends (dropScope i st)" by (simp add: ends_def dropScope_def)
qed

lemma dropScope_wf:
  assumes "wfg st G" "Suc i = length (cleanupScopes st)"
  shows "wf (dropScope i st)"
  unfolding wf_def
proof (rule wfgI)
  note same = dropScope_same [OF assms]
  show "base (dropScope i st)"
  proof -
    have "length (unresolvedGotosPerCleanupScope (dropScope i st)) = Suc (length (cleanupScopes (dropScope i st)))"
      "length (landingPadsPerCleanupScope (dropScope i st)) = Suc (length (cleanupScopes (dropScope i st)))"
      using assms by (auto simp: wfg_def base_def dropScope_def)
    moreover have "distinct (map endBlock (cleanupScopes (dropScope i st)))"
      using assms(1) by (simp add: same map_butlast distinct_butlast wfg_def base_def)
    moreover have "\<forall>c\<in>set (cleanupScopes (dropScope i st)). \<forall>d\<in>set (cleanupScopes (dropScope i st)).
        branchSelector c \<noteq> None \<longrightarrow> branchSelector c = branchSelector d \<longrightarrow> endBlock c = endBlock d"
      using assms(1) unfolding same wfg_def base_def by (meson in_set_butlastD)
    moreover have "\<forall>g\<in>set (gotos st). sourceBlock g \<notin> ends (dropScope i st)"
      using wfg_goto(3) [OF assms(1)] same(8) by blast
    ultimately show ?thesis using assms(1) unfolding base_def same(1-6) by (simp add: wfg_def base_def)
  qed
  fix k assume "k < length (cleanupScopes (dropScope i st))"
  then have k: "k < length (cleanupScopes st)" "Suc k \<noteq> length (cleanupScopes st)" and c: "cleanupScopes (dropScope i st) ! k = cleanupScopes st ! k"
    by (auto simp: same(7) nth_butlast)
  have f: "fit st (set (gotos st)) (cleanupScopes st ! k)" using wfg_nth [OF assms(1) k(1)] k(2) by simp
  have "fit (dropScope i st) (set (gotos st)) (cleanupScopes st ! k)"
    by (rule fit_step [OF f]) (use f same in \<open>auto simp: fit_def\<close>)
  then show "fit (dropScope i st) (if Suc k = length (cleanupScopes (dropScope i st)) then set (gotos (dropScope i st))
      else set (gotos (dropScope i st))) (cleanupScopes (dropScope i st) ! k)" by (simp add: c same(1))
qed simp

lemma linked_hop:
  assumes "wfg st G" "linked st src e b" "bbs st src = Some s"
  shows "\<exists>blk. bbs st e = Some blk \<and> stores blk = [] \<and> hop (stores s) (terminator blk) = Some b"
proof (cases "e \<in> ends st")
  case True
  with assms(2) obtain c where c: "c \<in> set (cleanupScopes st)" "endBlock c = e" "recordedTo c src b" by (auto simp: linked_def)
  note ok = wfg_recorded(1) [OF assms(1) c(1)]
  from ok obtain blk where "bbs st (endBlock c) = Some blk" "stores blk = []" by (rule okScope_block)
  then show ?thesis using okScope_hop [OF ok c(3) assms(3)] c(2) by auto
next
  case False
  then show ?thesis using assms(2,3) by (auto simp: linked_def)
qed

lemma dropScope_linked:
  assumes "wfg st G" "Suc i = length (cleanupScopes st)" "linked st src e b" "terminated (bbs st) src"
  shows "linked (dropScope i st) src e b"
proof -
  note same = dropScope_same [OF assms(1,2)]
  let ?c = "cleanupScopes st ! i"
  have i: "i < length (cleanupScopes st)" using assms(2) by simp
  have sub: "set (cleanupScopes (dropScope i st)) \<subseteq> set (cleanupScopes st)" by (auto simp: same(7) dest: in_set_butlastD)
  have e: "e \<notin> sources (dropScope i st)"
    using assms(3) sub unfolding linked_def sources_def same(1) by blast
  consider "e = endBlock ?c" | "e \<in> ends (dropScope i st)" "e \<noteq> endBlock ?c" | "e \<notin> ends st"
    using same(8) by blast
  then show ?thesis
  proof cases
    case 1
    obtain s where s: "bbs st src = Some s" using assms(4) by (auto simp: terminated_def)
    obtain blk where blk: "bbs st e = Some blk" "stores blk = []" "hop (stores s) (terminator blk) = Some b"
      using linked_hop [OF assms(1,3) s] by blast
    have ok: "okScope (bbs st) (nextAlloca st) ?c" using wfg_recorded(1) [OF assms(1) nth_mem [OF i]] .
    have "v < nextAlloca st \<and> (\<forall>d\<in>set (cleanupScopes (dropScope i st)). branchSelector d \<noteq> Some v)"
      if "terminator blk = Some (SwitchInst v x xs)" for v x xs
    proof -
      have sel: "branchSelector ?c = Some v"
        using ok that blk(1) 1 by (auto simp: okScope_def exitTerm_def split: list.splits option.splits)
      then have "v < nextAlloca st" using ok by (auto simp: okScope_def)
      moreover have "branchSelector d \<noteq> Some v" if "d \<in> set (cleanupScopes (dropScope i st))" for d
        using wfg_selector [OF assms(1) nth_mem [OF i] _ sel, of d] that sub same(9) by (auto simp: ends_def)
      ultimately show ?thesis by blast
    qed
    then show ?thesis using e 1 same(9) s blk by (auto simp: linked_def same)
  next
    case 2
    then have "e \<in> ends st" using same(8) by blast
    with assms(3) obtain c where c: "c \<in> set (cleanupScopes st)" "endBlock c = e" "recordedTo c src b" by (auto simp: linked_def)
    then have "c \<in> set (butlast (cleanupScopes st))"
      using 2(2) i assms(2) by (metis (no_types, lifting) in_set_conv_nth length_butlast less_Suc_eq nth_butlast diff_Suc_1)
    then show ?thesis using c 2 e by (auto simp: linked_def same(7))
  next
    case 3
    then have "e \<notin> ends (dropScope i st)" using same(8) by blast
    then show ?thesis using assms(3) 3 e sub unfolding linked_def same(3,5) by (simp add: subset_iff) blast
  qed
qed

lemma dropScope_settled:
  assumes "wfg st G" "Suc i = length (cleanupScopes st)" "settled exn st src cs t"
  shows "settled exn (dropScope i st) src cs t"
proof -
  note same = dropScope_same [OF assms(1,2)]
  have r: "route exn st src cs t" using assms(3) by (simp add: settled_def)
  have "route exn (dropScope i st) src cs t"
    by (rule route_mono [OF r]) (use dropScope_linked [OF assms(1,2)] route_terminated [OF r] same in auto)
  then show ?thesis using assms(3) by (simp add: settled_def same)
qed

end
