(* ===== verification/CleanupOps.thy ===== *)
theory CleanupOps
  imports CleanupSteps
begin

text \<open>
  The public operations of \<open>TryCatchFinallyScopes\<close> keep the invariant and the routes, and the
  routes that \<open>runCleanups\<close> and the gotos get.
\<close>

definition pairs :: "'a TryCatchFinallyScopes_scheme \<Rightarrow> (BB \<times> BB) list" where
  "pairs st = map scopePair (cleanupScopes st)"

lemma wf_wfg: "wf st \<Longrightarrow> wfg st (set (gotos st))"
  by (simp add: wf_def)

lemma quiet_wf: "quiet st st' \<Longrightarrow> wf st \<Longrightarrow> wf st'"
  unfolding wf_def by (metis quiet_wfg quiet_same(1))

lemma quiet_settled: "quiet st st' \<Longrightarrow> settled exn st src cs t \<Longrightarrow> settled exn st' src cs t"
proof -
  assume q: "quiet st st'" and s: "settled exn st src cs t"
  have n: "nextBB st \<le> nextBB st'" using q by (simp add: quiet_def)
  show "settled exn st' src cs t"
    using s quiet_route [OF q, of exn src cs t] n unfolding settled_def quiet_same [OF q] by (auto dest: order.strict_trans2)
qed

lemma quiet_pairs: "quiet st st' \<Longrightarrow> pairs st' = pairs st"
  by (simp add: quiet_def pairs_def)

lemma ranScope_pairs:
  assumes "ranScope i s t c st st'" "i < length (cleanupScopes st)"
  shows "pairs st' = pairs st"
proof -
  have "scopePair c = scopePair (cleanupScopes st ! i)" using assms(1) by (simp add: ranScope_def ran_def scopePair_def)
  then show ?thesis unfolding pairs_def ranScope_same(8) [OF assms] map_update
    using assms(2) by (metis list_update_id nth_map)
qed

lemma ranScope_settled:
  assumes "ranScope i s t c st st'" "i < length (cleanupScopes st)" "wfg st G" "settled exn st src cs u" "s \<notin> snd ` set cs"
  shows "settled exn st' src cs u"
  using assms(4) ranScope_route [OF assms(1-3) _ assms(5)] ranScope_same [OF assms(1,2)] by (simp add: settled_def)

lemma route_ends:
  assumes "route exn st src cs t" "e \<in> snd ` set cs"
  shows "e \<in> ends st \<or> terminated (bbs st) e"
proof -
  have "chained st src cs b t \<Longrightarrow> e \<in> snd ` set cs \<Longrightarrow> e \<in> ends st \<or> terminated (bbs st) e" for b
  proof (induction cs arbitrary: b)
    case (Cons c cs)
    have "e' \<in> ends st \<or> terminated (bbs st) e'" if "linked st src e' b'" for e' b'
      using that by (auto simp: linked_def terminated_def split: if_splits elim: hop.elims)
    with Cons show ?case by auto
  qed simp
  with assms show ?thesis by (auto simp: route_def)
qed

section \<open>Running cleanups\<close>

text \<open>
  The loop of \<open>runCleanups\<close> before it reaches the cleanup \<open>i - 1\<close>: the block \<open>s\<close> is routed through
  those above it, and to the next one.
\<close>

definition midRun :: "nat \<Rightarrow> BB \<Rightarrow> BB \<Rightarrow> 'a TryCatchFinallyScopes_scheme \<Rightarrow> bool" where
  "midRun i s u st \<longleftrightarrow> wf st \<and> i \<le> length (cleanupScopes st) \<and> terminated (bbs st) s \<and> s \<notin> ends st
     \<and> s \<notin> sourceBlock ` set (gotos st) \<and> (\<forall>k < i. s \<notin> recorded (cleanupScopes st ! k)) \<and> u < nextBB st \<and> u \<notin> tents st"

lemma runScope_step:
  assumes "runScope i s t st = Some st'" "midRun (Suc i) s u st" "nextBB st < 2 ^ 32" "t < nextBB st" "t \<notin> tents st"
  shows "midRun i s u st'" "pairs st' = pairs st" "gotos st' = gotos st" "nextBB st' = nextBB st" "scopebb st' = scopebb st"
    "unresolvedGotosPerCleanupScope st' = unresolvedGotosPerCleanupScope st"
    and "settled exn st src cs v \<Longrightarrow> s \<notin> snd ` set cs \<Longrightarrow> settled exn st' src cs v"
    and "settled exn st s cs (fst (pairs st ! i)) \<Longrightarrow> snd ` set cs \<subseteq> ends st \<Longrightarrow> settled exn st' s (cs @ [pairs st ! i]) t"
    and "renamed X st st'"
proof -
  have m: "wfg st (set (gotos st))" "i < length (cleanupScopes st)" "terminated (bbs st) s" "s \<notin> ends st"
      "s \<notin> sourceBlock ` set (gotos st)" "\<forall>k \<le> i. s \<notin> recorded (cleanupScopes st ! k)"
    using assms(2) by (auto simp: midRun_def wf_def less_Suc_eq_le)
  obtain c where r: "ranScope i s t c st st'"
    using runScope_ran [OF assms(1) m(1) assms(3) m(3,4)] m(6) by blast
  note same = ranScope_same [OF r m(2)]
  have tt: "t \<notin> tentativeTarget ` set (gotos st)" using assms(5) by (simp add: tents_def)
  have wf: "wfg st' (set (gotos st))"
    by (rule ranScope_wfg [OF r m(2,1,4)]) (use m(5) assms(4) tt in auto)
  have "endBlock c \<in> ends st" using r m(2) by (simp add: ranScope_def ran_def ends_def)
  then have "s \<noteq> endBlock c" using m(4) by blast
  moreover have "touched (bbs st) (bbs st') (endBlock c) (insert s (recorded (cleanupScopes st ! i))) (branchSelector c)"
    using r by (simp add: ranScope_def)
  ultimately have s: "terminated (bbs st') s" using touched_unterminated(2) m(3) by blast
  show "midRun i s u st'"
    using assms(2) wf s m same by (auto simp: midRun_def wf_def)
  show pairs: "pairs st' = pairs st" by (rule ranScope_pairs [OF r m(2)])
  show "renamed X st st'" by (rule ranScope_renamed [OF r m(2)])
  show "gotos st' = gotos st" "nextBB st' = nextBB st" "scopebb st' = scopebb st"
    "unresolvedGotosPerCleanupScope st' = unresolvedGotosPerCleanupScope st" using same by auto
  show keep: "settled exn st' src cs v" if "settled exn st src cs v" "s \<notin> snd ` set cs" for src cs v
    by (rule ranScope_settled [OF r m(2,1) that])
  let ?p = "pairs st ! i"
  have p: "?p = scopePair c" using r m(2) by (simp add: pairs_def ranScope_def ran_def scopePair_def)
  show "settled exn st' s (cs @ [?p]) t" if s: "settled exn st s cs (fst ?p)" and sub: "snd ` set cs \<subseteq> ends st"
  proof -
    have "s \<notin> snd ` set cs" using m(4) sub by auto
    then have "settled exn st' s cs (fst ?p)" by (rule keep [OF s])
    have cm: "c \<in> set (cleanupScopes st')" using m(2) same(8) by (simp add: set_update_memI)
    then have "snd ?p \<in> ends st'" by (simp add: ends_def p scopePair_def)
    moreover from this have "snd ?p \<notin> sources st'" by (rule wfg_end_not_source [OF wf])
    ultimately have "linked st' s (snd ?p) t"
      using cm r by (auto simp: linked_def p scopePair_def ranScope_def ran_def)
    with \<open>settled exn st' s cs (fst ?p)\<close> have "route exn st' s (cs @ [?p]) t" by (auto simp: settled_def intro: route_append)
    then show ?thesis
      using \<open>settled exn st' s cs (fst ?p)\<close> assms(4) same wfg_private [OF wf cm] by (auto simp: settled_def p scopePair_def)
  qed
qed

text \<open>What the loop leaves of a state \<open>st\<close>.\<close>

definition afterRun :: "ClassInfo option \<Rightarrow> BB \<Rightarrow> 'a TryCatchFinallyScopes_scheme \<Rightarrow> 'a TryCatchFinallyScopes_scheme \<Rightarrow> bool" where
  "afterRun exn s st st' \<longleftrightarrow> pairs st' = pairs st \<and> gotos st' = gotos st \<and> nextBB st' = nextBB st \<and> scopebb st' = scopebb st
     \<and> unresolvedGotosPerCleanupScope st' = unresolvedGotosPerCleanupScope st
     \<and> (\<forall>src cs v. settled exn st src cs v \<longrightarrow> s \<notin> snd ` set cs \<longrightarrow> settled exn st' src cs v)
     \<and> (\<forall>X. renamed X st st')"

lemma afterRun_refl: "afterRun exn s st st"
  by (simp add: afterRun_def renamed_refl)

lemma afterRun_trans: "afterRun exn s st st1 \<Longrightarrow> afterRun exn s st1 st2 \<Longrightarrow> afterRun exn s st st2"
  by (auto simp: afterRun_def intro: renamed_trans)

lemma pairs_length [simp]: "length (pairs st) = length (cleanupScopes st)"
  by (simp add: pairs_def)

lemma runLoop:
  assumes "iterM (\<lambda>i st. runScope i (scopebb st) (if z < i then beginBlock (cleanupScopes st ! (i - 1)) else u) st)
      (rev [z..<i]) st = Some st'"
    and "midRun i (scopebb st) u st" "nextBB st < 2 ^ 32" "z \<le> i"
    and "settled exn st (scopebb st) cs (if z < i then fst (pairs st ! (i - 1)) else u)" "snd ` set cs \<subseteq> ends st"
  shows "wf st' \<and> afterRun exn (scopebb st) st st' \<and> settled exn st' (scopebb st) (cs @ rev (drop z (take i (pairs st)))) u"
  using assms
proof (induction "i - z" arbitrary: i st cs)
  case 0
  then show ?case by (simp add: afterRun_refl midRun_def)
next
  case (Suc n)
  let ?i = "i - 1" and ?s = "scopebb st"
  let ?t = "if z < ?i then fst (pairs st ! (?i - 1)) else u"
  have i: "z < i" "Suc ?i = i" "z \<le> ?i" "rev [z..<i] = ?i # rev [z..<?i]"
    using Suc.hyps(2) upt_Suc_append [of z "i - 1"] by auto
  have m: "?i < length (cleanupScopes st)" using Suc.prems(2) i by (auto simp: midRun_def)
  have t: "(if z < ?i then beginBlock (cleanupScopes st ! (?i - 1)) else u) = ?t"
    using m by (simp add: pairs_def scopePair_def)
  from Suc.prems(1) obtain st1 where st1: "runScope ?i ?s ?t st = Some st1"
      "iterM (\<lambda>i st. runScope i (scopebb st) (if z < i then beginBlock (cleanupScopes st ! (i - 1)) else u) st) (rev [z..<?i]) st1 = Some st'"
    unfolding i(4) iterM.simps t by (auto split: Option.bind_splits)
  have wf: "wfg st (set (gotos st))" using Suc.prems(2) by (simp add: midRun_def wf_def)
  have "pairs st ! (?i - 1) = scopePair (cleanupScopes st ! (?i - 1))" "cleanupScopes st ! (?i - 1) \<in> set (cleanupScopes st)"
    using m by (simp_all add: pairs_def)
  then have ok: "?t < nextBB st" "?t \<notin> tents st"
    using Suc.prems(2) wfg_private [OF wf] by (auto simp: midRun_def scopePair_def)
  have mid: "midRun (Suc ?i) ?s u st" using Suc.prems(2) i(2) by simp
  note step = runScope_step [OF st1(1) mid Suc.prems(3) ok]
  have after: "afterRun exn ?s st st1" using step(2-7,9) by (simp add: afterRun_def)
  have e: "ends st1 = ends st" using step(2) unfolding ends_def pairs_def
    by (metis (no_types, lifting) image_cong image_image list.set_map prod.sel(2) scopePair_def)
  have "settled exn st ?s cs (fst (pairs st ! ?i))" using Suc.prems(5) i(1) by simp
  then have s1: "settled exn st1 ?s (cs @ [pairs st ! ?i]) ?t" using step(8) Suc.prems(6) by blast
  have sub: "snd ` set (cs @ [pairs st ! ?i]) \<subseteq> ends st1"
    using Suc.prems(6) m e by (auto simp: ends_def pairs_def scopePair_def)
  have IH: "wf st' \<and> afterRun exn (scopebb st1) st1 st' \<and> settled exn st' (scopebb st1) ((cs @ [pairs st ! ?i]) @ rev (drop z (take ?i (pairs st1)))) u"
  proof (rule Suc.hyps(1))
    show "n = ?i - z" using Suc.hyps(2) by simp
    show "midRun ?i (scopebb st1) u st1" using step(1,5) by simp
    show "nextBB st1 < 2 ^ 32" using step(4) Suc.prems(3) by simp
    show "settled exn st1 (scopebb st1) (cs @ [pairs st ! ?i]) (if z < ?i then fst (pairs st1 ! (?i - 1)) else u)"
      using s1 unfolding step(2,5) .
  qed (fact st1(2) i(3) sub)+
  have "take i (pairs st) = take ?i (pairs st) @ [pairs st ! ?i]"
    using take_Suc_conv_app_nth [of ?i "pairs st"] m i(2) by simp
  then have "rev (drop z (take i (pairs st))) = pairs st ! ?i # rev (drop z (take ?i (pairs st)))"
    using i(3) m by simp
  then show ?case using IH step(2,5) afterRun_trans [OF after] by simp
qed

lemma settled_here:
  assumes "wf st" "unterminated (bbs st) s" "s \<notin> ends st" "settled exn st src cs v"
  shows "s \<notin> snd ` set cs"
proof
  assume "s \<in> snd ` set cs"
  with assms(3,4) have "terminated (bbs st) s" using route_ends [of exn st src cs v s] by (auto simp: settled_def)
  with assms(2) show False by (auto simp: terminated_def unterminated_def)
qed

lemma CreateBr_midRun:
  assumes "CreateBr b st = Some st1" "wf st" "u < nextBB st" "u \<notin> tents st" "a \<le> length (cleanupScopes st)"
  shows "midRun a (scopebb st1) u st1"
proof -
  let ?s = "scopebb st"
  note wf = wf_wfg [OF assms(2)]
  have un: "unterminated (bbs st) ?s"
    using assms(1) by (auto simp: CreateBr_def terminate_def unterminated_def split: Option.bind_splits if_splits)
  have st1: "\<exists>blk. st1 = st\<lparr>bbs := (bbs st)(?s \<mapsto> blk)\<rparr> \<and> terminator blk = Some (BranchInst b)"
    using assms(1) by (auto simp: CreateBr_def terminate_def split: Option.bind_splits if_splits)
  have q: "quiet st st1" by (rule quiet_CreateBr [OF wf assms(1)])
  have same: "gotos st1 = gotos st" "nextBB st1 = nextBB st" "scopebb st1 = ?s" "cleanupScopes st1 = cleanupScopes st" "ends st1 = ends st" "tents st1 = tents st"
    using st1 quiet_same [OF q] by auto
  have "terminated (bbs st1) ?s" using st1 by (auto simp: terminated_def)
  then show ?thesis
    using quiet_wf [OF q assms(2)] assms(3-5) unterminated_not_source [OF wf un] wfg_scopebb [OF wf] nth_mem
    unfolding midRun_def same by (fastforce simp: sources_def)
qed

lemma runCleanups_from_step:
  assumes "runCleanups_from a z u st = Some st'" "wf st" "nextBB st < 2 ^ 32" "u < nextBB st" "u \<notin> tents st"
    "a \<le> length (cleanupScopes st)"
  shows "wf st'" "pairs st' = pairs st" "gotos st' = gotos st" "nextBB st' = nextBB st" "scopebb st' = scopebb st"
    "unresolvedGotosPerCleanupScope st' = unresolvedGotosPerCleanupScope st"
    and "settled exn st' (scopebb st) (rev (drop z (take a (pairs st)))) u"
    and "settled exn st src cs v \<Longrightarrow> settled exn st' src cs v" "renamed X st st'"
proof -
  let ?s = "scopebb st" and ?b = "if z < a then fst (pairs st ! (a - 1)) else u"
  have z: "z \<le> a" using assms(1) by (simp add: runCleanups_from_def split: if_splits)
  have b: "(if z = a then u else beginBlock (cleanupScopes st ! (a - 1))) = ?b"
    using z assms(6) by (auto simp: pairs_def scopePair_def)
  note wf = wf_wfg [OF assms(2)]
  obtain st1 where st1: "CreateBr ?b st = Some st1"
      "iterM (\<lambda>i st. runScope i (scopebb st) (if z < i then beginBlock (cleanupScopes st ! (i - 1)) else u) st) (rev [z..<a]) st1 = Some st'"
    using assms(1) z b by (auto simp: runCleanups_from_def split: Option.bind_splits if_splits)
  have un: "unterminated (bbs st) ?s"
    using st1(1) by (auto simp: CreateBr_def terminate_def unterminated_def split: Option.bind_splits if_splits)
  have st1_def: "\<exists>blk. st1 = st\<lparr>bbs := (bbs st)(?s \<mapsto> blk)\<rparr> \<and> terminator blk = Some (BranchInst ?b)"
    using st1(1) by (auto simp: CreateBr_def terminate_def split: Option.bind_splits if_splits)
  have q: "quiet st st1" by (rule quiet_CreateBr [OF wf st1(1)])
  have same: "pairs st1 = pairs st" "gotos st1 = gotos st" "nextBB st1 = nextBB st" "scopebb st1 = ?s" "cleanupScopes st1 = cleanupScopes st"
      "unresolvedGotosPerCleanupScope st1 = unresolvedGotosPerCleanupScope st" "ends st1 = ends st" "tents st1 = tents st"
    using st1_def quiet_same [OF q] quiet_pairs [OF q] by auto
  have "cleanupScopes st ! (a - 1) \<in> set (cleanupScopes st)" if "z < a" using that assms(6) by simp
  then have "?b < nextBB st" using wfg_private(3) [OF wf] assms(4,6) by (auto simp: pairs_def scopePair_def)
  then have s1: "settled exn st1 ?s [] ?b"
    using st1_def wfg_scopebb(1) [OF wf] same by (auto simp: settled_def route_def)
  have mid: "midRun a (scopebb st1) u st1" by (rule CreateBr_midRun [OF st1(1) assms(2,4,5,6)])
  have fin: "wf st' \<and> afterRun exn (scopebb st1) st1 st' \<and> settled exn st' (scopebb st1) ([] @ rev (drop z (take a (pairs st1)))) u"
    by (rule runLoop [OF st1(2) mid _ z]) (use s1 same assms(3) in auto)
  then show "wf st'" "pairs st' = pairs st" "gotos st' = gotos st" "nextBB st' = nextBB st" "scopebb st' = scopebb st"
    "unresolvedGotosPerCleanupScope st' = unresolvedGotosPerCleanupScope st"
    "settled exn st' (scopebb st) (rev (drop z (take a (pairs st)))) u"
    using same by (auto simp: afterRun_def)
  show "renamed X st st'" using fin renamed_trans [OF quiet_renamed [OF q]] by (simp add: afterRun_def)
  show "settled exn st' src cs v" if "settled exn st src cs v"
    using fin quiet_settled [OF q that] settled_here [OF assms(2) un wfg_scopebb(1) [OF wf] that] same by (simp add: afterRun_def)
qed

section \<open>Pending gotos\<close>

text \<open>
  The goto \<open>g\<close> was registered when the open scopes were \<open>S\<close>, and is pending at level \<open>k\<close>: the scopes
  up to \<open>k\<close> are still those of \<open>S\<close>, and control runs through the cleanups of the scopes that have
  been closed since, innermost first, to the tentative target.
\<close>

definition pending :: "ClassInfo option \<Rightarrow> 'a TryCatchFinallyScopes_scheme \<Rightarrow> GotoJump \<Rightarrow> (BB \<times> BB) list \<Rightarrow> nat \<Rightarrow> bool" where
  "pending exn st g S k \<longleftrightarrow> k < length (unresolvedGotosPerCleanupScope st) \<and> g \<in> set (unresolvedGotosPerCleanupScope st ! k)
     \<and> k \<le> length S \<and> take k (pairs st) = take k S
     \<and> settled exn st (sourceBlock g) (rev (drop k S)) (tentativeTarget g)"

text \<open>An operation keeps every route to a block that is not tentative, and every pending goto.\<close>

definition keepsRoutes :: "ClassInfo option \<Rightarrow> 'a TryCatchFinallyScopes_scheme \<Rightarrow> 'a TryCatchFinallyScopes_scheme \<Rightarrow> bool" where
  "keepsRoutes exn st st' \<longleftrightarrow>
     (\<forall>src cs t. settled exn st src cs t \<longrightarrow> t \<notin> tents st \<longrightarrow> settled exn st' src cs t \<and> t \<notin> tents st')"

lemma keepsRoutes_trans: "keepsRoutes exn st st1 \<Longrightarrow> keepsRoutes exn st1 st2 \<Longrightarrow> keepsRoutes exn st st2"
  unfolding keepsRoutes_def by blast

lemma quiet_keepsRoutes: "quiet st st' \<Longrightarrow> keepsRoutes exn st st'"
  by (simp add: keepsRoutes_def quiet_settled quiet_same)

lemma quiet_pending: "quiet st st' \<Longrightarrow> pending exn st g S k \<Longrightarrow> pending exn st' g S k"
  by (simp add: pending_def quiet_settled quiet_pairs) (simp add: quiet_def)

lemma wf_lengths:
  "wf st \<Longrightarrow> length (unresolvedGotosPerCleanupScope st) = Suc (length (cleanupScopes st))"
  by (simp add: wf_def wfg_def base_def)

lemma distinct_gotos: "wf st \<Longrightarrow> distinct (gotos st)"
  using distinct_map unfolding wf_def wfg_def base_def by blast

lemma distinct_concat_nth:
  assumes "distinct (concat xss)" "i < length xss" "j < length xss" "x \<in> set (xss ! i)" "x \<in> set (xss ! j)"
  shows "i = j"
proof (rule ccontr)
  have *: False if "a < b" "b < length xss" "x \<in> set (xss ! a)" "x \<in> set (xss ! b)" for a b
  proof -
    have "concat xss = concat (take b xss) @ xss ! b @ concat (drop (Suc b) xss)"
      using arg_cong [OF id_take_nth_drop [OF that(2)], of concat] by simp
    moreover have "x \<in> set (concat (take b xss))"
      using that by (auto simp: in_set_conv_nth) (metis length_take min.absorb4 nth_take nth_mem)
    ultimately show False using assms(1) that(4) by (metis disjoint_iff distinct_append set_append UnI1)
  qed
  assume "i \<noteq> j"
  then show False using * [of i j] * [of j i] assms(2-5) by (meson nat_neq_iff)
qed

lemma popScope_step:
  assumes "popScope i st = Some st'" "wf st" "Suc i = length (cleanupScopes st)" "nextBB st' < 2 ^ 32"
  shows "wf st'" "pairs st' = take i (pairs st)" "keepsRoutes exn st st'" "nextBB st \<le> nextBB st'"
    and "pending exn st g S k \<Longrightarrow> pending exn st' g S (min i k)" "renamed (tents st \<union> {nextBB st..}) st st'" "tents st' = tents st"
proof -
  let ?gs = "currentUnresolvedGotos st"
  obtain st1 where st1: "iterM (rerouteGoto i) ?gs st = Some st1" "st' = dropScope i st1"
    using assms(1) by (auto simp: popScope_drop)
  have gs: "?gs = unresolvedGotosPerCleanupScope st ! Suc i" by (simp add: currentUnresolvedGotos_def currentCleanupScope_def assms(3))
  have l: "length (unresolvedGotosPerCleanupScope st) = Suc (Suc i)" using wf_lengths [OF assms(2)] assms(3) by simp
  have sub: "set ?gs \<subseteq> set (gotos st)" using l unfolding gs gotos_def by (auto intro!: bexI [OF _ nth_mem])
  have dist: "distinct ?gs"
    using distinct_gotos [OF assms(2)] l unfolding gs gotos_def by (metis distinct_concat_iff lessI nth_mem)
  have nb: "nextBB st1 < 2 ^ 32" using assms(4) by (simp add: st1(2) dropScope_def)
  note rr = rerouteGotos [OF st1(1) wf_wfg [OF assms(2)] sub dist assms(3) nb]
  have wf1: "wfg st1 (set (gotos st) - set ?gs)" using rr by blast
  have p1: "pairs st1 = pairs st" using rr by (simp add: pairs_def)
  then have i1: "Suc i = length (cleanupScopes st1)" using assms(3) by (metis pairs_length)
  note same = dropScope_same [OF wf1 i1]
  show "wf st'" unfolding st1(2) by (rule dropScope_wf [OF wf1 i1])
  show p: "pairs st' = take i (pairs st)"
  proof -
    have "pairs st' = butlast (pairs st1)" by (simp add: st1(2) pairs_def same(7) map_butlast)
    moreover have "length (pairs st1) = Suc i" using i1 by simp
    ultimately show ?thesis unfolding p1 butlast_conv_take by simp
  qed
  show "keepsRoutes exn st st'" unfolding keepsRoutes_def
  proof (intro allI impI conjI)
    fix src cs t assume s: "settled exn st src cs t" "t \<notin> tents st"
    then have "t \<notin> tentativeTarget ` set ?gs" using sub by (auto simp: tents_def)
    then have "settled exn st1 src cs t" using rr s by blast
    then show "settled exn st' src cs t" unfolding st1(2) by (rule dropScope_settled [OF wf1 i1])
    show "t \<notin> tents st'" using s(2) rr same(2) by (simp add: st1(2) tents_def)
  qed
  show "nextBB st \<le> nextBB st'" using rr same(4) by (simp add: st1(2))
  show "tents st' = tents st" using rr same(2) by (simp add: st1(2) tents_def)
  have "tentativeTarget ` set ?gs \<union> {nextBB st..} \<subseteq> tents st \<union> {nextBB st..}" using sub by (auto simp: tents_def)
  then have "renamed (tents st \<union> {nextBB st..}) st st1" using rr by blast
  moreover have "renamed X st1 st'" for X by (rule renamed_same) (use same in \<open>auto simp: st1(2)\<close>)
  ultimately show "renamed (tents st \<union> {nextBB st..}) st st'" by (rule renamed_trans)
  show "pending exn st' g S (min i k)" if pd: "pending exn st g S k"
  proof -
    have u: "unresolvedGotosPerCleanupScope st' = butlast ((unresolvedGotosPerCleanupScope st)[i := unresolvedGotosPerCleanupScope st ! i @ ?gs])"
      using rr i1 by (simp add: st1(2) dropScope_def currentUnresolvedGotos_def currentCleanupScope_def assms(3))
    have k: "k \<le> Suc i" using pd l by (simp add: pending_def)
    have lev: "take (min i k) (pairs st') = take (min i k) S"
      using pd by (simp add: pending_def p) (metis min.commute take_take)
    show ?thesis
    proof (cases "k = Suc i")
      case True
      have gm: "g \<in> set ?gs" using pd True gs by (simp add: pending_def)
      have Si: "pairs st ! i = S ! i" "i < length S"
        using pd True unfolding pending_def by (metis lessI nth_take, simp)
      have "settled exn st1 (sourceBlock g) (rev (drop k S) @ [scopePair (cleanupScopes st ! i)]) (tentativeTarget g)"
        using rr gm pd by (simp add: pending_def)
      moreover have "scopePair (cleanupScopes st ! i) = S ! i" using Si(1) assms(3) by (simp add: pairs_def)
      moreover have "rev (drop i S) = rev (drop k S) @ [S ! i]" using True Cons_nth_drop_Suc [OF Si(2)] by (metis rev.simps(2))
      ultimately have "settled exn st' (sourceBlock g) (rev (drop i S)) (tentativeTarget g)"
        unfolding st1(2) using dropScope_settled [OF wf1 i1] by simp
      moreover have "g \<in> set (unresolvedGotosPerCleanupScope st' ! i)" using gm l by (simp add: u nth_butlast)
      ultimately show ?thesis using True lev Si(2) l by (simp add: pending_def u)
    next
      case False
      then have k: "k \<le> i" "min i k = k" using k by auto
      have gk: "g \<in> set (unresolvedGotosPerCleanupScope st ! k)" using pd by (simp add: pending_def)
      have gm: "g \<in> set (gotos st)" using gk k l unfolding gotos_def by (auto intro!: bexI [OF _ nth_mem])
      have "tentativeTarget g \<notin> tentativeTarget ` set ?gs"
      proof
        assume "tentativeTarget g \<in> tentativeTarget ` set ?gs"
        then obtain h where h: "h \<in> set ?gs" "tentativeTarget g = tentativeTarget h" by auto
        then have "g = h" using wfg_goto_inj(2) [OF wf_wfg [OF assms(2)] gm] sub by blast
        then have "k = Suc i"
          using distinct_concat_nth [OF distinct_gotos [OF assms(2), unfolded gotos_def], of k "Suc i" g] gk h(1) gs l k by simp
        with False show False by simp
      qed
      then have "settled exn st1 (sourceBlock g) (rev (drop k S)) (tentativeTarget g)" using rr pd by (simp add: pending_def)
      then have "settled exn st' (sourceBlock g) (rev (drop k S)) (tentativeTarget g)"
        unfolding st1(2) by (rule dropScope_settled [OF wf1 i1])
      moreover have "g \<in> set (unresolvedGotosPerCleanupScope st' ! k)" using gk l k by (cases "k = i") (simp_all add: u nth_butlast)
      ultimately show ?thesis using k lev l pd by (simp add: pending_def u)
    qed
  qed
qed

text \<open>The fields that \<open>run\<close> and what calls it do not change.\<close>

definition sameScopes :: "'a TryCatchFinallyScopes_scheme \<Rightarrow> 'a TryCatchFinallyScopes_scheme \<Rightarrow> bool" where
  "sameScopes st st' \<longleftrightarrow> resumeUnwindBlock st' = resumeUnwindBlock st \<and> tryCatchScopes st' = tryCatchScopes st
     \<and> length (cleanupScopes st') = length (cleanupScopes st) \<and> landingPadsPerCleanupScope st' = landingPadsPerCleanupScope st
     \<and> TryCatchFinallyScopes.more st' = TryCatchFinallyScopes.more st"

lemma sameScopes_refl [simp]: "sameScopes st st"
  by (simp add: sameScopes_def)

lemma sameScopes_trans: "sameScopes st st1 \<Longrightarrow> sameScopes st1 st2 \<Longrightarrow> sameScopes st st2"
  by (simp add: sameScopes_def)

lemma runScope_shape:
  assumes "runScope i s t st = Some st'"
  shows "nextBB st' = nextBB st" "length (cleanupScopes st') = length (cleanupScopes st)" "sameScopes st st'"
proof -
  obtain c st1 where r: "run (cleanupScopes st ! i) s t st = Some (c, st1)" "st' = st1\<lparr>cleanupScopes := (cleanupScopes st1)[i := c]\<rparr>"
    using assms by (auto simp: runScope_def split: Option.bind_splits if_splits)
  have "sameScopes st st1 \<and> length (cleanupScopes st1) = length (cleanupScopes st)"
    using run_only [OF r(1)] by (cases st; cases st1) (simp add: sameScopes_def)
  then show "nextBB st' = nextBB st" "length (cleanupScopes st') = length (cleanupScopes st)" "sameScopes st st'"
    using run_only(1) [OF r(1)] by (simp_all add: r(2) sameScopes_def)
qed

lemma runCleanups_from_shape:
  assumes "runCleanups_from a z u st = Some st'"
  shows "nextBB st' = nextBB st" "sameScopes st st'"
proof -
  have loop: "nextBB st' = nextBB st \<and> sameScopes st st'"
    if "iterM (\<lambda>i st. runScope i (scopebb st) (if z < i then beginBlock (cleanupScopes st ! (i - 1)) else u) st) is st = Some st'"
    for "is" and st :: "'a TryCatchFinallyScopes_scheme" and st'
    using that by (rule iterM_invariant [where I = "\<lambda>x. nextBB x = nextBB st \<and> sameScopes st x"])
      (auto simp: runScope_shape intro: sameScopes_trans)
  have br: "nextBB st' = nextBB st \<and> sameScopes st st'" if "CreateBr t st = Some st'" for t and st' :: "'a TryCatchFinallyScopes_scheme"
    using that by (auto simp: CreateBr_def terminate_def sameScopes_def split: Option.bind_splits if_splits)
  have "nextBB st' = nextBB st \<and> sameScopes st st'"
    using assms by (auto simp: runCleanups_from_def br split: Option.bind_splits if_splits dest!: br loop intro: sameScopes_trans)
  then show "nextBB st' = nextBB st" "sameScopes st st'" by blast+
qed

lemma popScope_grows:
  assumes "popScope i st = Some st'"
  shows "nextBB st \<le> nextBB st'" "length (cleanupScopes st') = length (cleanupScopes st) - 1"
proof -
  have one: "nextBB st \<le> nextBB st' \<and> length (cleanupScopes st') = length (cleanupScopes st)" if "rerouteGoto i g st = Some st'" for g and st st' :: "'a TryCatchFinallyScopes_scheme"
    using that by (auto elim!: rerouteGoto_eq simp: runScope_shape)
  from assms obtain st1 where st1: "iterM (rerouteGoto i) (currentUnresolvedGotos st) st = Some st1" "st' = dropScope i st1"
    by (auto simp: popScope_drop)
  have "nextBB st \<le> nextBB st1 \<and> length (cleanupScopes st1) = length (cleanupScopes st)"
    using st1(1) by (rule iterM_invariant) (auto dest: one)
  then show "nextBB st \<le> nextBB st'" "length (cleanupScopes st') = length (cleanupScopes st) - 1"
    by (simp_all add: st1(2) dropScope_def)
qed

lemma popScopes_step:
  assumes "iterM popScope (rev [z..<i]) st = Some st'" "wf st" "i = length (cleanupScopes st)" "z \<le> i" "nextBB st' < 2 ^ 32"
  shows "wf st' \<and> pairs st' = take z (pairs st) \<and> keepsRoutes exn st st' \<and> nextBB st \<le> nextBB st'
    \<and> (\<forall>g S k. pending exn st g S k \<longrightarrow> pending exn st' g S (min z k))
    \<and> renamed (tents st \<union> {nextBB st..}) st st' \<and> tents st' = tents st"
  using assms
proof (induction "i - z" arbitrary: i st)
  case 0
  have "min z k = k" if "pending exn st g S k" for g S k
    using that wf_lengths [OF 0(3)] 0 by (simp add: pending_def)
  then show ?case using 0 by (simp add: keepsRoutes_def renamed_refl)
next
  case (Suc n)
  let ?i = "i - 1"
  have i: "Suc ?i = i" "z \<le> ?i" "rev [z..<i] = ?i # rev [z..<?i]"
    using Suc.hyps(2) upt_Suc_append [of z "i - 1"] by auto
  from Suc.prems(1) obtain st1 where st1: "popScope ?i st = Some st1" "iterM popScope (rev [z..<?i]) st1 = Some st'"
    unfolding i(3) by (auto split: Option.bind_splits)
  have "nextBB st1 \<le> nextBB st'" using st1(2) by (rule iterM_invariant) (auto dest: popScope_grows(1))
  then have nb: "nextBB st1 < 2 ^ 32" using Suc.prems(5) by simp
  have len: "Suc ?i = length (cleanupScopes st)" using Suc.prems(3) i(1) by simp
  note one = popScope_step [OF st1(1) Suc.prems(2) len nb]
  have len1: "?i = length (cleanupScopes st1)" using popScope_grows(2) [OF st1(1)] len by simp
  have IH: "wf st' \<and> pairs st' = take z (pairs st1) \<and> keepsRoutes exn st1 st' \<and> nextBB st1 \<le> nextBB st'
    \<and> (\<forall>g S k. pending exn st1 g S k \<longrightarrow> pending exn st' g S (min z k))
    \<and> renamed (tents st1 \<union> {nextBB st1..}) st1 st' \<and> tents st' = tents st1"
    using Suc.hyps(1) [OF _ st1(2) one(1) len1 i(2) Suc.prems(5)] Suc.hyps(2) by simp
  have m: "min z (min ?i k) = min z k" "min z ?i = z" for k using i(2) by simp_all
  have "pending exn st' g S (min z k)" if "pending exn st g S k" for g S k
    using IH one(5) [OF that] m(1) [of k] by metis
  moreover have "pairs st' = take z (pairs st)" using IH one(2) m(2) by (simp add: take_take)
  moreover have "renamed (tents st \<union> {nextBB st..}) st st'"
    by (rule renamed_trans [OF one(6) renamed_mono]) (use IH one(4,7) in auto)
  ultimately show ?case using IH one(4,7) keepsRoutes_trans [OF one(3)] by auto
qed

lemma popCleanups_step:
  assumes "popCleanups z st = Some st'" "wf st" "nextBB st' < 2 ^ 32"
  shows "wf st'" "pairs st' = take z (pairs st)" "keepsRoutes exn st st'" "nextBB st \<le> nextBB st'"
    "pending exn st g S k \<Longrightarrow> pending exn st' g S (min z k)" "renamed (tents st \<union> {nextBB st..}) st st'" "tents st' = tents st"
  using popScopes_step [of z "length (cleanupScopes st)" st st'] assms
  by (auto simp: popCleanups_def currentCleanupScope_def split: if_splits)

section \<open>Opening a scope\<close>

text \<open>\<open>pushCleanup\<close>, after which the code moves the insertion point to the body of the scope.\<close>

lemma pushCleanup_step:
  assumes "wf st" "unterminated (bbs st) e" "e \<notin> ends st" "e \<notin> tents st" "b < nextBB st" "b \<notin> tents st"
    and "n < nextBB st" "n \<notin> ends st" "n \<noteq> e" "n \<notin> tents st"
  defines "st' \<equiv> (pushCleanup b e st)\<lparr>scopebb := n\<rparr>"
  shows "wf st'" "pairs st' = pairs st @ [(b, e)]" "settled exn st src cs t \<Longrightarrow> settled exn st' src cs t"
    "pending exn st g S k \<Longrightarrow> pending exn st' g S k" "gotos st' = gotos st" "nextBB st' = nextBB st" "renamed X st st'"
proof -
  have wfg: "wfg st (set (gotos st))" using assms(1) by (simp add: wf_def)
  have same: "gotos st' = gotos st" "tents st' = tents st" "bbs st' = bbs st" "nextBB st' = nextBB st" "nextAlloca st' = nextAlloca st"
      "cleanupScopes st' = cleanupScopes st @ [newCleanupScope b e]" "scopebb st' = n" "ends st' = insert e (ends st)"
    by (simp_all add: st'_def pushCleanup_def gotos_def tents_def ends_def newCleanupScope_def)
  have src: "sources st' = sources st"
    by (simp add: sources_def same recorded_def recordedTo_def newCleanupScope_def)
  have e: "e \<notin> sources st" by (rule unterminated_not_source [OF wfg assms(2)])
  have new: "okScope (bbs st) na (newCleanupScope b e)" for na
    using assms(2) wfg by (auto simp: okScope_def newCleanupScope_def exitTerm_def selectsOK_def unterminated_def wfg_def base_def)
  show "wf st'" unfolding wf_def
  proof (rule wfgI)
    have "\<forall>c\<in>set (cleanupScopes st'). \<forall>d\<in>set (cleanupScopes st').
        branchSelector c \<noteq> None \<longrightarrow> branchSelector c = branchSelector d \<longrightarrow> endBlock c = endBlock d"
    proof (intro ballI impI)
      fix c d assume a: "c \<in> set (cleanupScopes st')" "d \<in> set (cleanupScopes st')" "branchSelector c \<noteq> None" "branchSelector c = branchSelector d"
      then obtain v where "branchSelector c = Some v" "branchSelector d = Some v" by auto
      moreover from this have "c \<in> set (cleanupScopes st)" "d \<in> set (cleanupScopes st)"
        using a(1,2) by (auto simp: same(6) newCleanupScope_def)
      ultimately show "endBlock c = endBlock d" using wfg_selector [OF wfg] by blast
    qed
    moreover have "distinct (map endBlock (cleanupScopes st'))"
      using wfg assms(3) by (simp add: same wfg_def base_def newCleanupScope_def ends_def)
    moreover have "sourceBlock g \<notin> ends st'" if "g \<in> set (gotos st)" for g
      using that e wfg_goto(3) [OF wfg that] by (auto simp: same sources_def)
    moreover have "length (unresolvedGotosPerCleanupScope st') = Suc (length (cleanupScopes st'))"
      "length (landingPadsPerCleanupScope st') = Suc (length (cleanupScopes st'))"
      using wfg by (simp_all add: wfg_def base_def st'_def pushCleanup_def)
    ultimately show "base st'" using wfg assms(7,10) unfolding base_def same(1-5,7) by (simp add: wfg_def base_def)
    fix k assume k: "k < length (cleanupScopes st')"
    show "fit st' (if Suc k = length (cleanupScopes st') then set (gotos st') else set (gotos st')) (cleanupScopes st' ! k)"
    proof (cases "k < length (cleanupScopes st)")
      case True
      let ?c = "cleanupScopes st ! k"
      have f: "fit st (set (gotos st)) ?c" using wfg_nth [OF wfg True] by simp
      have "e \<notin> recorded ?c" using e nth_mem [OF True] by (auto simp: sources_def)
      moreover have "endBlock ?c \<noteq> n" using assms(8) nth_mem [OF True] by (auto simp: ends_def)
      ultimately show ?thesis using f True by (auto simp: fit_def same nth_append)
    next
      case False
      then have "cleanupScopes st' ! k = newCleanupScope b e" using k by (simp add: same nth_append less_Suc_eq)
      then show ?thesis using new assms(2-10) by (simp add: fit_def same) (simp add: newCleanupScope_def recorded_def recordedTo_def targets_def)
    qed
  qed simp
  show p: "pairs st' = pairs st @ [(b, e)]" by (simp add: pairs_def same scopePair_def newCleanupScope_def)
  show "gotos st' = gotos st" "nextBB st' = nextBB st" by (fact same)+
  show "renamed X st st'"
    unfolding renamed_def same using assms(2)
    by (auto simp: terminated_def unterminated_def) (metis substTerminator_id)
  have link: "linked st' src e' b'" if "linked st src e' b'" for src e' b'
  proof (cases "e' \<in> ends st")
    case True
    then show ?thesis using that by (auto simp: linked_def src same)
  next
    case False
    then have "e' \<noteq> e" using that assms(2) by (auto simp: linked_def unterminated_def)
    then show ?thesis using that False by (auto simp: linked_def src same newCleanupScope_def)
  qed
  show keep: "settled exn st' src cs t" if "settled exn st src cs t" for src cs t
  proof -
    have r: "route exn st src cs t" using that by (simp add: settled_def)
    have "src \<noteq> e" using route_terminated [OF r] assms(2) by (auto simp: terminated_def unterminated_def)
    then have "route exn st' src cs t" by (intro route_mono [OF r]) (auto simp: link same)
    then show ?thesis using that by (simp add: settled_def same)
  qed
  show "pending exn st' g S k" if pd: "pending exn st g S k"
  proof -
    have "k \<le> length (pairs st)" using pd wf_lengths [OF assms(1)] by (simp add: pending_def)
    moreover have "k < length (unresolvedGotosPerCleanupScope st) \<Longrightarrow>
        unresolvedGotosPerCleanupScope st' ! k = unresolvedGotosPerCleanupScope st ! k"
      by (simp add: st'_def pushCleanup_def nth_append)
    moreover have "length (unresolvedGotosPerCleanupScope st) \<le> length (unresolvedGotosPerCleanupScope st')"
      by (simp add: st'_def pushCleanup_def)
    ultimately show ?thesis using pd keep by (auto simp: pending_def p)
  qed
qed

section \<open>Forward gotos\<close>

lemma registerUnresolvedGoto_step:
  assumes "registerUnresolvedGoto loc l st = Some st'" "wf st"
  defines "g \<equiv> \<lparr>sourceLoc = loc, sourceBlock = scopebb st, tentativeTarget = nextBB st, targetLabel = l\<rparr>"
  shows "wf st'" "pairs st' = pairs st" "keepsRoutes exn st st'" "nextBB st' = Suc (nextBB st)" "scopebb st' = scopebb st"
    "pending exn st h S k \<Longrightarrow> pending exn st' h S k"
    "pending exn st' g (pairs st) (length (pairs st))" "gotos st' = gotos st @ [g]" "renamed X st st'"
proof -
  let ?s = "scopebb st" and ?t = "nextBB st" and ?n = "length (cleanupScopes st)"
  note wfg = wf_wfg [OF assms(2)]
  obtain st2 where st2: "CreateBr ?t (snd (insertBB st)) = Some st2"
      "st' = st2\<lparr>unresolvedGotosPerCleanupScope := (unresolvedGotosPerCleanupScope st2)[currentCleanupScope st2 :=
          unresolvedGotosPerCleanupScope st2 ! currentCleanupScope st2 @ [g\<lparr>sourceBlock := scopebb st2\<rparr>]]\<rparr>"
    using assms(1) by (auto simp: registerUnresolvedGoto_def insertBB_def g_def Let_def split: Option.bind_splits)
  have q1: "quiet st (snd (insertBB st))" by (rule quiet_insertBB [OF wfg])
  have wf1: "wfg (snd (insertBB st)) (set (gotos st))" by (rule quiet_wfg [OF q1 wfg])
  have q2: "quiet (snd (insertBB st)) st2" by (rule quiet_CreateBr [OF wf1 st2(1)])
  have wf2: "wfg st2 (set (gotos st))" by (rule quiet_wfg [OF q2 wf1])
  have un: "unterminated (bbs st) ?s"
    using st2(1) wfg_scopebb(3) [OF wfg] by (auto simp: CreateBr_def terminate_def unterminated_def split: Option.bind_splits if_splits)
  have blk: "\<exists>blk. st2 = (snd (insertBB st))\<lparr>bbs := (bbs (snd (insertBB st)))(?s \<mapsto> blk)\<rparr> \<and> terminator blk = Some (BranchInst ?t)"
    using st2(1) by (auto simp: CreateBr_def terminate_def split: Option.bind_splits if_splits)
  have same2: "gotos st2 = gotos st" "cleanupScopes st2 = cleanupScopes st" "scopebb st2 = ?s" "nextBB st2 = Suc ?t" "tents st2 = tents st"
      "unresolvedGotosPerCleanupScope st2 = unresolvedGotosPerCleanupScope st" "sources st2 = sources st" "ends st2 = ends st"
    using blk quiet_same [OF q2] by auto
  have u: "unresolvedGotosPerCleanupScope st' = (unresolvedGotosPerCleanupScope st)[?n := unresolvedGotosPerCleanupScope st ! ?n @ [g]]"
    by (simp add: st2(2) same2 currentCleanupScope_def) (simp add: g_def)
  have len: "length (unresolvedGotosPerCleanupScope st) = Suc ?n" by (rule wf_lengths [OF assms(2)])
  show gs: "gotos st' = gotos st @ [g]"
  proof -
    obtain v w where vw: "unresolvedGotosPerCleanupScope st = v @ [w]" "length v = ?n"
      using len by (metis append_butlast_last_id length_append_singleton length_butlast diff_Suc_1 list.size(3) nat.distinct(1))
    then show ?thesis by (simp add: gotos_def u list_update_append nth_append)
  qed
  have fields: "cleanupScopes st' = cleanupScopes st" "scopebb st' = ?s" "nextBB st' = Suc ?t" "bbs st' = bbs st2" "nextAlloca st' = nextAlloca st2"
      "landingPadsPerCleanupScope st' = landingPadsPerCleanupScope st2"
    by (simp_all add: st2(2) same2)
  have "ends st' = ends st" "tents st' = insert ?t (tents st)" "sources st' = insert ?s (sources st)"
    unfolding ends_def tents_def sources_def gs fields by (simp_all add: g_def)
  note same = fields this
  show "nextBB st' = Suc ?t" "scopebb st' = ?s" by (fact same)+
  have "renamed X st2 st'" by (rule renamed_same) (auto simp: same same2)
  then show "renamed X st st'" using renamed_trans quiet_renamed q1 q2 by metis
  show p: "pairs st' = pairs st" by (simp add: pairs_def same)
  have trm: "terminated (bbs st2) ?s" "unterminated (bbs st2) ?t"
    using blk wfg_scopebb(3) [OF wfg] by (auto simp: terminated_def unterminated_def emptyBB_def)
  have s: "?s \<notin> sources st" "?s \<notin> ends st" "?s \<notin> tents st" "?s < ?t"
    using unterminated_not_source [OF wfg un] wfg_scopebb [OF wfg] by auto
  have t: "?t \<notin> ends st" "?t \<notin> tents st" using wfg_end_block(2) [OF wfg] wfg_tent(2) [OF wfg] by auto
  show "wf st'" unfolding wf_def
  proof (rule wfgI)
    have b2: "base st2" using wf2 by (simp add: wfg_def)
    have "distinct (map sourceBlock (gotos st'))" "distinct (map tentativeTarget (gotos st'))"
      using b2 s(1) t(2) by (auto simp: base_def same2 gs g_def sources_def tents_def)
    moreover have "terminated (bbs st2) (sourceBlock h) \<and> unterminated (bbs st2) (tentativeTarget h) \<and> sourceBlock h \<notin> ends st"
      if "h \<in> set (gotos st')" for h
      using that wfg_goto [OF wf2, of h] trm s(2) by (auto simp: gs same2 g_def)
    moreover have "length (unresolvedGotosPerCleanupScope st') = Suc ?n" using len by (simp add: u)
    ultimately show "base st'" using b2 s unfolding base_def same by (simp add: same2) blast
    fix k assume k: "k < length (cleanupScopes st')"
    then have k': "k < length (cleanupScopes st)" by (simp add: same)
    let ?c = "cleanupScopes st ! k"
    have f: "fit st (set (gotos st)) ?c" "fit st2 (set (gotos st)) ?c"
      using wfg_nth [OF wfg k'] wfg_nth [OF wf2, of k] k' unfolding same2 by simp_all
    have "?s \<notin> recorded ?c" using s(1) nth_mem [OF k'] by (auto simp: sources_def)
    moreover have "?t \<notin> targets ?c" "?t \<noteq> beginBlock ?c" "?t \<noteq> endBlock ?c"
      using f(1) t(1) nth_mem [OF k'] by (auto simp: fit_def ends_def)
    ultimately have "fit st' (set (gotos st')) ?c"
      using f by (auto simp: fit_def same gs g_def same2)
    then show "fit st' (if Suc k = length (cleanupScopes st') then set (gotos st') else set (gotos st')) (cleanupScopes st' ! k)"
      by (simp add: same)
  qed simp
  have keep: "settled exn st' src cs v" if "settled exn st src cs v" for src cs v
  proof -
    have s2: "settled exn st2 src cs v" by (rule quiet_settled [OF q2 quiet_settled [OF q1 that]])
    then have r: "route exn st2 src cs v" by (simp add: settled_def)
    have here: "?s \<notin> snd ` set cs" by (rule settled_here [OF assms(2) un s(2) that])
    have link: "linked st' src e b" if "e \<noteq> ?s" "linked st2 src e b" for e b
      using that by (auto simp: linked_def same same2)
    have "route exn st' src cs v"
    proof (rule route_mono [OF r])
      show "linked st' src e b" if "e \<in> snd ` set cs" "linked st2 src e b" for e b
        using link [OF _ that(2)] that(1) here by blast
    qed (simp_all add: same same2)
    then show ?thesis using that s2 by (auto simp: settled_def same same2)
  qed
  then show "keepsRoutes exn st st'" by (auto simp: keepsRoutes_def settled_def same)
  show "pending exn st' h S k" if pd: "pending exn st h S k"
    using pd keep len by (cases "k = ?n") (auto simp: pending_def p u)
  have "route exn st' ?s [] ?t" using blk s(2) by (auto simp: route_def same)
  then show "pending exn st' g (pairs st) (length (pairs st))"
    using len by (simp add: pending_def p u settled_def same) (simp add: g_def)
qed

text \<open>Resolving gotos: their entries are dropped, and their tentative targets replaced.\<close>

definition resolveOne :: "BB \<Rightarrow> GotoJump \<Rightarrow> 'a TryCatchFinallyScopes_scheme \<Rightarrow> 'a TryCatchFinallyScopes_scheme" where
  "resolveOne b g st = eraseFromParent (tentativeTarget g) (replaceAllUsesWith (tentativeTarget g) b st)"

lemma resolveGotos_fold:
  "resolveGotos l b i gs st =
     (take i gs @ filter (\<lambda>g. targetLabel g \<noteq> l) (drop i gs), fold (resolveOne b) (filter (\<lambda>g. targetLabel g = l) (drop i gs)) st)"
proof (induction l b i gs st rule: resolveGotos.induct)
  case (1 l b i gs st)
  show ?case
  proof (cases "i < length gs")
    case False
    then show ?thesis by (simp add: resolveGotos.simps [of l b i gs st])
  next
    case True
    then have d: "drop i gs = gs ! i # drop (Suc i) gs" "take (Suc i) gs = take i gs @ [gs ! i]"
      by (simp_all add: Cons_nth_drop_Suc take_Suc_conv_app_nth)
    show ?thesis
    proof (cases "targetLabel (gs ! i) = l")
      case False
      then show ?thesis using 1(1) True d by (simp add: resolveGotos.simps [of l b i gs st])
    next
      case eq: True
      have "length (take i gs) = i" using True by simp
      then show ?thesis using 1(2) True eq d by (simp add: resolveGotos.simps [of l b i gs st] resolveOne_def)
    qed
  qed
qed

lemma resolveOne_unresolved:
  "fold (resolveOne b) gs (st\<lparr>unresolvedGotosPerCleanupScope := u\<rparr>) = (fold (resolveOne b) gs st)\<lparr>unresolvedGotosPerCleanupScope := u\<rparr>"
proof (induction gs arbitrary: st)
  case (Cons g gs)
  have "resolveOne b g (st\<lparr>unresolvedGotosPerCleanupScope := u\<rparr>) = (resolveOne b g st)\<lparr>unresolvedGotosPerCleanupScope := u\<rparr>"
    by (rule TryCatchFinallyScopes.equality) (simp_all add: resolveOne_def eraseFromParent_def replaceAllUsesWith_def)
  with Cons show ?case by simp
qed simp

lemma resolveOne_cs: "unresolvedGotosPerCleanupScope (fold (resolveOne b) gs st) = unresolvedGotosPerCleanupScope st"
    "cleanupScopes (fold (resolveOne b) gs st) = cleanupScopes st" "nextBB (fold (resolveOne b) gs st) = nextBB st"
    "scopebb (fold (resolveOne b) gs st) = scopebb st"
  by (induction gs arbitrary: st) (simp_all add: resolveOne_def)

definition forgetGotos :: "Identifier \<Rightarrow> 'a TryCatchFinallyScopes_scheme \<Rightarrow> 'a TryCatchFinallyScopes_scheme" where
  "forgetGotos l st = st\<lparr>unresolvedGotosPerCleanupScope := (unresolvedGotosPerCleanupScope st)[currentCleanupScope st :=
     filter (\<lambda>g. targetLabel g \<noteq> l) (currentUnresolvedGotos st)]\<rparr>"

lemma tryResolveGotos_eq:
  "tryResolveGotos l b st = fold (resolveOne b) (filter (\<lambda>g. targetLabel g = l) (currentUnresolvedGotos st)) (forgetGotos l st)"
  by (simp add: tryResolveGotos_def resolveGotos_fold forgetGotos_def resolveOne_unresolved resolveOne_cs currentCleanupScope_def)

lemma forgetGotos_same:
  assumes "wf st"
  shows "cleanupScopes (forgetGotos l st) = cleanupScopes st" "bbs (forgetGotos l st) = bbs st" "nextBB (forgetGotos l st) = nextBB st"
    "nextAlloca (forgetGotos l st) = nextAlloca st" "scopebb (forgetGotos l st) = scopebb st" "ends (forgetGotos l st) = ends st"
    "landingPadsPerCleanupScope (forgetGotos l st) = landingPadsPerCleanupScope st"
    "\<exists>v. gotos st = v @ currentUnresolvedGotos st \<and> gotos (forgetGotos l st) = v @ filter (\<lambda>g. targetLabel g \<noteq> l) (currentUnresolvedGotos st)"
proof -
  obtain v w where vw: "unresolvedGotosPerCleanupScope st = v @ [w]" "length v = length (cleanupScopes st)"
    using wf_lengths [OF assms]
    by (metis append_butlast_last_id length_append_singleton length_butlast diff_Suc_1 list.size(3) nat.distinct(1))
  then have "gotos st = concat v @ currentUnresolvedGotos st"
      "gotos (forgetGotos l st) = concat v @ filter (\<lambda>g. targetLabel g \<noteq> l) (currentUnresolvedGotos st)"
    by (simp_all add: gotos_def currentUnresolvedGotos_def currentCleanupScope_def forgetGotos_def list_update_append nth_append)
  then show "\<exists>v. gotos st = v @ currentUnresolvedGotos st \<and> gotos (forgetGotos l st) = v @ filter (\<lambda>g. targetLabel g \<noteq> l) (currentUnresolvedGotos st)"
    by blast
qed (simp_all add: forgetGotos_def ends_def)

lemma forgetGotos_step:
  assumes "wf st"
  shows "wf (forgetGotos l st)" "settled exn st src cs t \<Longrightarrow> settled exn (forgetGotos l st) src cs t"
    "tents (forgetGotos l st) \<subseteq> tents st"
proof -
  let ?st = "forgetGotos l st"
  note wfg = wf_wfg [OF assms]
  note same = forgetGotos_same [OF assms, of l]
  obtain v where v: "gotos st = v @ currentUnresolvedGotos st" "gotos ?st = v @ filter (\<lambda>g. targetLabel g \<noteq> l) (currentUnresolvedGotos st)"
    using same(8) by blast
  have sub: "set (gotos ?st) \<subseteq> set (gotos st)" by (auto simp: v)
  then show tn: "tents ?st \<subseteq> tents st" by (auto simp: tents_def)
  have src: "sources ?st \<subseteq> sources st" using sub by (auto simp: sources_def same)
  show "wf ?st" unfolding wf_def
  proof (rule wfgI)
    have d: "distinct (map sourceBlock (gotos ?st))" "distinct (map tentativeTarget (gotos ?st))"
    proof -
      have "distinct (map f (v @ w)) \<Longrightarrow> distinct (map f (v @ filter P w))" for f :: "GotoJump \<Rightarrow> BB" and w P
        by (auto simp: distinct_map_filter)
      moreover have "distinct (map sourceBlock (gotos st))" "distinct (map tentativeTarget (gotos st))"
        using wfg unfolding wfg_def base_def by blast+
      ultimately show "distinct (map sourceBlock (gotos ?st))" "distinct (map tentativeTarget (gotos ?st))" unfolding v by blast+
    qed
    have g: "\<forall>g\<in>set (gotos ?st). terminated (bbs st) (sourceBlock g) \<and> unterminated (bbs st) (tentativeTarget g) \<and> sourceBlock g \<notin> ends st"
      using wfg_goto [OF wfg] sub by blast
    have len: "length (unresolvedGotosPerCleanupScope ?st) = Suc (length (cleanupScopes st))"
      using wf_lengths [OF assms] by (simp add: forgetGotos_def)
    have "scopebb st \<notin> tents ?st" using wfg_scopebb(2) [OF wfg] tn by blast
    then show "base ?st" using wfg d g len unfolding wfg_def base_def same(1-7) by blast
    fix k assume "k < length (cleanupScopes ?st)"
    then have k: "k < length (cleanupScopes st)" by (simp add: same)
    have f: "fit st (set (gotos st)) (cleanupScopes st ! k)" using wfg_nth [OF wfg k] by simp
    have "fit ?st (set (gotos ?st)) (cleanupScopes st ! k)"
      by (rule fit_step [OF f]) (use f same tn sub in \<open>auto simp: fit_def\<close>)
    then show "fit ?st (if Suc k = length (cleanupScopes ?st) then set (gotos ?st) else set (gotos ?st)) (cleanupScopes ?st ! k)"
      by (simp add: same)
  qed simp
  show "settled exn ?st src cs t" if "settled exn st src cs t"
  proof -
    have r: "route exn st src cs t" using that by (simp add: settled_def)
    have "route exn ?st src cs t"
      by (rule route_mono [OF r]) (use src in \<open>auto simp: linked_def same\<close>)
    then show ?thesis using that tn by (auto simp: settled_def same)
  qed
qed

text \<open>A block that is free to be replaced.\<close>

definition free :: "'a TryCatchFinallyScopes_scheme \<Rightarrow> BB \<Rightarrow> bool" where
  "free st x \<longleftrightarrow> unterminated (bbs st) x \<and> x \<notin> ends st \<and> x \<notin> tents st \<and> x \<noteq> scopebb st \<and> (\<forall>c\<in>set (cleanupScopes st). x \<notin> targets c)"

lemma resolveOne_step:
  assumes "wf st" "free st (tentativeTarget g)" "b < nextBB st"
  shows "wf (resolveOne b g st)" "gotos (resolveOne b g st) = gotos st" "tents (resolveOne b g st) = tents st"
    and "settled exn st src cs t \<Longrightarrow> tentativeTarget g \<notin> fst ` set cs \<Longrightarrow> settled exn (resolveOne b g st) src cs (substBB (tentativeTarget g) b t)"
    and "free st x \<Longrightarrow> x \<noteq> tentativeTarget g \<Longrightarrow> free (resolveOne b g st) x" "tentativeTarget g \<in> X \<Longrightarrow> renamed X st (resolveOne b g st)"
proof -
  let ?x = "tentativeTarget g"
  have f: "unterminated (bbs st) ?x" "?x \<notin> ends st" "?x \<notin> tents st" "?x \<noteq> scopebb st" "\<forall>c\<in>set (cleanupScopes st). ?x \<notin> targets c"
    using assms(2) by (auto simp: free_def)
  have "wfg (replaceAllUsesWith ?x b st) (set (gotos st))" by (rule rauw_wfg [OF wf_wfg [OF assms(1)] f(5)])
  then have "wfg (resolveOne b g st) (set (gotos st))" unfolding resolveOne_def
    by (rule erase_wfg) (use f in simp_all)
  then show "wf (resolveOne b g st)" by (simp add: wf_def resolveOne_def)
  show "gotos (resolveOne b g st) = gotos st" "tents (resolveOne b g st) = tents st" by (simp_all add: resolveOne_def)
  show "settled exn (resolveOne b g st) src cs (substBB ?x b t)" if "settled exn st src cs t" "?x \<notin> fst ` set cs"
  proof -
    have "route exn (replaceAllUsesWith ?x b st) src cs (substBB ?x b t)"
      by (rule rauw_route) (use that f(5) in \<open>simp_all add: settled_def\<close>)
    then have "route exn (resolveOne b g st) src cs (substBB ?x b t)" unfolding resolveOne_def
      by (rule erase_route) (use f(1) in simp)
    then show ?thesis using that assms(3) by (auto simp: settled_def resolveOne_def substBB_def)
  qed
  show "renamed X st (resolveOne b g st)" if "?x \<in> X"
    unfolding resolveOne_def by (rule renamed_trans [OF rauw_renamed erase_renamed]) (use that f(1) in simp_all)
  show "free (resolveOne b g st) x" if "free st x" "x \<noteq> ?x"
    using that by (auto simp: free_def resolveOne_def unterminated_def rauw_bbs)
qed

lemma resolveAll_step:
  assumes "wf st" "\<forall>g\<in>set gs. free st (tentativeTarget g)" "distinct (map tentativeTarget gs)" "b < nextBB st" "b \<notin> tentativeTarget ` set gs"
  shows "wf (fold (resolveOne b) gs st) \<and> gotos (fold (resolveOne b) gs st) = gotos st \<and>
    (\<forall>src cs t. settled exn st src cs t \<longrightarrow> fst ` set cs \<inter> tentativeTarget ` set gs = {} \<longrightarrow>
       settled exn (fold (resolveOne b) gs st) src cs (if t \<in> tentativeTarget ` set gs then b else t))
    \<and> (tentativeTarget ` set gs \<subseteq> X \<longrightarrow> renamed X st (fold (resolveOne b) gs st))"
  using assms
proof (induction gs arbitrary: st)
  case (Cons g gs)
  let ?st = "resolveOne b g st"
  have g: "free st (tentativeTarget g)" using Cons.prems(2) by simp
  note one = resolveOne_step [OF Cons.prems(1) g Cons.prems(4)]
  have f: "free ?st (tentativeTarget h)" if h: "h \<in> set gs" for h
  proof (rule one(5))
    show "tentativeTarget h \<noteq> tentativeTarget g" using Cons.prems(3) h by (auto simp: image_iff)
  qed (use Cons.prems(2) h in simp)
  have IH: "wf (fold (resolveOne b) gs ?st) \<and> gotos (fold (resolveOne b) gs ?st) = gotos ?st \<and>
    (\<forall>src cs t. settled exn ?st src cs t \<longrightarrow> fst ` set cs \<inter> tentativeTarget ` set gs = {} \<longrightarrow>
       settled exn (fold (resolveOne b) gs ?st) src cs (if t \<in> tentativeTarget ` set gs then b else t))
    \<and> (tentativeTarget ` set gs \<subseteq> X \<longrightarrow> renamed X ?st (fold (resolveOne b) gs ?st))"
    by (rule Cons.IH [OF one(1)]) (use f Cons.prems in \<open>auto simp: resolveOne_def\<close>)
  have "settled exn (fold (resolveOne b) gs ?st) src cs (if t \<in> tentativeTarget ` set (g # gs) then b else t)"
    if s: "settled exn st src cs t" "fst ` set cs \<inter> tentativeTarget ` set (g # gs) = {}" for src cs t
  proof -
    have "settled exn ?st src cs (substBB (tentativeTarget g) b t)" using one(4) s by auto
    then have "settled exn (fold (resolveOne b) gs ?st) src cs
        (if substBB (tentativeTarget g) b t \<in> tentativeTarget ` set gs then b else substBB (tentativeTarget g) b t)"
      using IH s(2) by auto
    then show ?thesis using Cons.prems(5) by (auto simp: substBB_def split: if_splits)
  qed
  moreover have "renamed X st (fold (resolveOne b) gs ?st)" if "tentativeTarget ` set (g # gs) \<subseteq> X"
    using that IH by (intro renamed_trans [OF one(6)]) auto
  ultimately show ?case using IH one(2) by simp
qed (simp add: renamed_refl)

lemma tryResolveGotos_step:
  assumes "wf st" "b < nextBB st" "b \<notin> tents st"
  shows "wf (tryResolveGotos l b st)" "pairs (tryResolveGotos l b st) = pairs st" "keepsRoutes exn st (tryResolveGotos l b st)"
    "nextBB (tryResolveGotos l b st) = nextBB st" "scopebb (tryResolveGotos l b st) = scopebb st" "tents (tryResolveGotos l b st) \<subseteq> tents st"
    and "g \<in> set (currentUnresolvedGotos st) \<Longrightarrow> targetLabel g = l \<Longrightarrow> settled exn st (sourceBlock g) cs (tentativeTarget g) \<Longrightarrow>
      settled exn (tryResolveGotos l b st) (sourceBlock g) cs b"
    and "pending exn st h S k \<Longrightarrow> k \<noteq> currentCleanupScope st \<or> targetLabel h \<noteq> l \<Longrightarrow> pending exn (tryResolveGotos l b st) h S k"
    and "renamed (tents st) st (tryResolveGotos l b st)"
proof -
  let ?gs = "filter (\<lambda>g. targetLabel g = l) (currentUnresolvedGotos st)" and ?f = "forgetGotos l st"
  let ?st = "tryResolveGotos l b st"
  note wfg = wf_wfg [OF assms(1)]
  note same = forgetGotos_same [OF assms(1), of l]
  note forget = forgetGotos_step [where l = l, OF assms(1)]
  obtain v where v: "gotos st = v @ currentUnresolvedGotos st" "gotos ?f = v @ filter (\<lambda>g. targetLabel g \<noteq> l) (currentUnresolvedGotos st)"
    using same(8) by blast
  have sub: "set ?gs \<subseteq> set (gotos st)" "set (gotos ?f) \<subseteq> set (gotos st)" by (auto simp: v)
  have dist: "distinct (gotos st)" by (rule distinct_gotos [OF assms(1)])
  have inj: "distinct (map tentativeTarget ?gs)"
    using wfg unfolding wfg_def base_def v(1) by (simp add: distinct_map_filter)
  have free: "free ?f (tentativeTarget g)" if g: "g \<in> set ?gs" for g
  proof -
    have gm: "g \<in> set (gotos st)" using g sub by blast
    have "g \<notin> set (gotos ?f)" using g dist by (auto simp: v)
    then have "tentativeTarget g \<notin> tents ?f"
      using wfg_goto_inj(2) [OF wfg gm] sub(2) by (auto simp: tents_def)
    moreover have "tentativeTarget g \<noteq> scopebb st" using wfg_scopebb(2) [OF wfg] gm unfolding tents_def by (metis imageI)
    moreover have "tentativeTarget g \<notin> targets c" if "c \<in> set (cleanupScopes st)" for c
    proof -
      from that obtain k where "k < length (cleanupScopes st)" "c = cleanupScopes st ! k" by (auto simp: in_set_conv_nth)
      then show ?thesis using wfg_nth [OF wfg, of k] gm by (auto simp: fit_def)
    qed
    ultimately show ?thesis using wfg_goto [OF wfg gm] by (simp add: free_def same)
  qed
  have tn: "tentativeTarget ` set ?gs \<subseteq> tents st" using sub by (auto simp: tents_def)
  have bt: "b \<notin> tentativeTarget ` set ?gs" using assms(3) tn by blast
  have res: "wf ?st \<and> gotos ?st = gotos ?f \<and> (\<forall>src cs t. settled exn ?f src cs t \<longrightarrow> fst ` set cs \<inter> tentativeTarget ` set ?gs = {} \<longrightarrow>
       settled exn ?st src cs (if t \<in> tentativeTarget ` set ?gs then b else t))
    \<and> (tentativeTarget ` set ?gs \<subseteq> tents st \<longrightarrow> renamed (tents st) ?f ?st)"
    unfolding tryResolveGotos_eq by (rule resolveAll_step [OF forget(1) _ inj _ bt]) (use free assms(2) same in auto)
  have all: "settled exn ?st src cs (if t \<in> tentativeTarget ` set ?gs then b else t)" if s: "settled exn st src cs t" for src cs t
  proof -
    have "fst ` set cs \<inter> tentativeTarget ` set ?gs = {}" using s tn by (auto simp: settled_def)
    then show ?thesis using res forget(2) [OF s] by blast
  qed
  have fields: "cleanupScopes ?st = cleanupScopes st" "unresolvedGotosPerCleanupScope ?st = unresolvedGotosPerCleanupScope ?f"
      "nextBB ?st = nextBB st" "scopebb ?st = scopebb st"
    by (simp_all add: tryResolveGotos_eq resolveOne_cs same)
  have tents: "tents ?st = tents ?f" by (simp add: tents_def gotos_def fields)
  show "wf ?st" using res by blast
  have "renamed (tents st) st ?f" by (rule renamed_same) (auto simp: same)
  then show "renamed (tents st) st ?st" using renamed_trans res tn by blast
  show p: "pairs ?st = pairs st" by (simp add: pairs_def fields)
  show "nextBB ?st = nextBB st" "scopebb ?st = scopebb st" by (fact fields)+
  show "tents ?st \<subseteq> tents st" using forget(3) by (simp add: tents)
  show "keepsRoutes exn st ?st" unfolding keepsRoutes_def
  proof (intro allI impI conjI)
    fix src cs t assume s: "settled exn st src cs t" "t \<notin> tents st"
    then have "t \<notin> tentativeTarget ` set ?gs" using tn by blast
    then show "settled exn ?st src cs t" using all [OF s(1)] by simp
    show "t \<notin> tents ?st" using s(2) forget(3) tents by blast
  qed
  show "settled exn ?st (sourceBlock g) cs b"
    if "g \<in> set (currentUnresolvedGotos st)" "targetLabel g = l" "settled exn st (sourceBlock g) cs (tentativeTarget g)"
    using all [OF that(3)] that(1,2) by auto
  show "pending exn ?st h S k" if pd: "pending exn st h S k" and ne: "k \<noteq> currentCleanupScope st \<or> targetLabel h \<noteq> l"
  proof -
    have len: "length (unresolvedGotosPerCleanupScope st) = Suc (currentCleanupScope st)"
      using wf_lengths [OF assms(1)] by (simp add: currentCleanupScope_def)
    have hk: "h \<in> set (unresolvedGotosPerCleanupScope st ! k)" "k < length (unresolvedGotosPerCleanupScope st)" using pd by (auto simp: pending_def)
    have hm: "h \<in> set (gotos st)" using hk by (auto simp: gotos_def intro!: bexI [OF _ nth_mem])
    have "h \<notin> set ?gs"
    proof
      assume h: "h \<in> set ?gs"
      then have "k = currentCleanupScope st"
        using distinct_concat_nth [OF dist [unfolded gotos_def], of k "currentCleanupScope st" h] hk len
        by (simp add: currentUnresolvedGotos_def)
      with ne h show False by simp
    qed
    then have "tentativeTarget h \<notin> tentativeTarget ` set ?gs" using wfg_goto_inj(2) [OF wfg hm] sub(1) by blast
    then have "settled exn ?st (sourceBlock h) (rev (drop k S)) (tentativeTarget h)"
      using all [of "sourceBlock h" "rev (drop k S)" "tentativeTarget h"] pd by (simp add: pending_def)
    moreover have "h \<in> set (unresolvedGotosPerCleanupScope ?st ! k)"
      using hk ne len by (cases "k = currentCleanupScope st") (simp_all add: fields forgetGotos_def currentUnresolvedGotos_def)
    ultimately show ?thesis using pd by (simp add: pending_def p fields forgetGotos_def)
  qed
qed

section \<open>Evolution\<close>

text \<open>
  What every operation guarantees of the code that has been emitted before: routes to settled
  targets stay, and terminators change only in tentative targets.
\<close>

definition evolves :: "'a TryCatchFinallyScopes_scheme \<Rightarrow> 'a TryCatchFinallyScopes_scheme \<Rightarrow> bool" where
  "evolves st st' \<longleftrightarrow> wf st' \<and> nextBB st \<le> nextBB st' \<and> (\<forall>exn. keepsRoutes exn st st')
     \<and> renamed (tents st \<union> {nextBB st..}) st st' \<and> tents st' \<subseteq> tents st \<union> {nextBB st..}"

lemma evolves_refl: "wf st \<Longrightarrow> evolves st st"
  by (auto simp: evolves_def keepsRoutes_def renamed_refl)

lemma evolves_trans:
  assumes "evolves st st1" "evolves st1 st2"
  shows "evolves st st2"
proof -
  have "renamed (tents st \<union> {nextBB st..}) st1 st2"
    by (rule renamed_mono [of "tents st1 \<union> {nextBB st1..}"]) (use assms in \<open>auto simp: evolves_def\<close>)
  then have "renamed (tents st \<union> {nextBB st..}) st st2"
    using assms(1) renamed_trans by (auto simp: evolves_def)
  moreover have "tents st2 \<subseteq> tents st \<union> {nextBB st..}" using assms by (auto simp: evolves_def)
  moreover have "keepsRoutes exn st st2" for exn
    using assms keepsRoutes_trans [of exn st st1 st2] by (auto simp: evolves_def)
  ultimately show ?thesis using assms by (auto simp: evolves_def)
qed

lemma quiet_evolves: "quiet st st' \<Longrightarrow> wf st \<Longrightarrow> evolves st st'"
  using quiet_wf quiet_keepsRoutes quiet_renamed quiet_same(3) unfolding evolves_def
  by (metis Un_upper1 quiet_def)

lemma runCleanups_from_evolves:
  assumes "runCleanups_from a z u st = Some st'" "wf st" "nextBB st < 2 ^ 32" "u < nextBB st" "u \<notin> tents st"
    "a \<le> length (cleanupScopes st)"
  shows "evolves st st'"
proof -
  note step = runCleanups_from_step [OF assms]
  have "tents st' = tents st" using step(3) by (simp add: tents_def)
  then show ?thesis using step by (auto simp: evolves_def keepsRoutes_def)
qed

lemma popCleanups_evolves: "popCleanups z st = Some st' \<Longrightarrow> wf st \<Longrightarrow> nextBB st' < 2 ^ 32 \<Longrightarrow> evolves st st'"
  using popCleanups_step unfolding evolves_def by (metis Un_upper1)

lemma pushCleanup_evolves:
  assumes "wf st" "unterminated (bbs st) e" "e \<notin> ends st" "e \<notin> tents st" "b < nextBB st" "b \<notin> tents st"
    and "n < nextBB st" "n \<notin> ends st" "n \<noteq> e" "n \<notin> tents st"
  shows "evolves st ((pushCleanup b e st)\<lparr>scopebb := n\<rparr>)"
proof -
  note step = pushCleanup_step [OF assms]
  have "tents ((pushCleanup b e st)\<lparr>scopebb := n\<rparr>) = tents st" using step(5) by (simp add: tents_def)
  then show ?thesis using step by (auto simp: evolves_def keepsRoutes_def)
qed

lemma registerUnresolvedGoto_evolves:
  assumes "registerUnresolvedGoto loc l st = Some st'" "wf st"
  shows "evolves st st'"
proof -
  note step = registerUnresolvedGoto_step [OF assms]
  have "tents st' = insert (nextBB st) (tents st)" using step(8) by (simp add: tents_def)
  then show ?thesis using step by (auto simp: evolves_def)
qed

lemma tryResolveGotos_evolves:
  assumes "wf st" "b < nextBB st" "b \<notin> tents st"
  shows "evolves st (tryResolveGotos l b st)"
proof -
  note step = tryResolveGotos_step [where l = l, OF assms]
  have "renamed (tents st \<union> {nextBB st..}) st (tryResolveGotos l b st)" by (rule renamed_mono [OF step(9)]) simp
  then show ?thesis using step by (auto simp: evolves_def)
qed

end
