(* ===== verification/LandingPads.thy ===== *)
theory LandingPads
  imports CleanupOps
begin

text \<open>
  Landing pads: where an exception goes, and that the blocks emitted by \<open>emitLandingPad\<close> take it
  there.
\<close>

section \<open>Where an exception should go\<close>

text \<open>
  The cleanups that run and the catch body that is entered, for an exception whose selector is
  \<open>exn\<close>, in scopes \<open>S\<close> with the try-catch scopes given innermost first; together with the number
  of cleanups that are left.
\<close>

fun seek :: "ClassInfo option \<Rightarrow> (BB \<times> BB) list \<Rightarrow> TryCatchScope list \<Rightarrow> nat \<Rightarrow> (BB \<times> BB) list \<times> BB option \<times> nat" where
  "seek exn S [] k = ([], None, k)"
| "seek exn S (tc # tcs) k =
     (let cs = rev (drop (cleanupScope tc) (take k S))
      in case find (\<lambda>cb. exn = Some (classInfoPtr cb)) (catchBlocks tc) of
           Some cb \<Rightarrow> (cs, Some (bodyBB cb), cleanupScope tc)
         | None \<Rightarrow> (case seek exn S tcs (cleanupScope tc) of (cs', h, k') \<Rightarrow> (cs @ cs', h, k')))"

text \<open>Without a matching catch, all cleanups run before unwinding resumes (\<open>None\<close>).\<close>

definition handlerOf :: "ClassInfo option \<Rightarrow> (BB \<times> BB) list \<Rightarrow> TryCatchScope list \<Rightarrow> (BB \<times> BB) list \<times> BB option" where
  "handlerOf exn S tcs =
     (case seek exn S tcs (length S) of
        (cs, Some body, k) \<Rightarrow> (cs, Some body)
      | (cs, None, k) \<Rightarrow> (cs @ rev (take k S), None))"

section \<open>Where it goes\<close>

text \<open>A chain of routes.\<close>

inductive unwinds :: "ClassInfo option \<Rightarrow> 'a TryCatchFinallyScopes_scheme \<Rightarrow> BB \<Rightarrow> (BB \<times> BB) list \<Rightarrow> BB \<Rightarrow> bool" for exn st where
  here: "unwinds exn st b [] b"
| onward: "settled exn st b cs m \<Longrightarrow> m \<notin> tents st \<Longrightarrow> unwinds exn st m cs' t \<Longrightarrow> unwinds exn st b (cs @ cs') t"

lemma unwinds_one: "settled exn st b cs t \<Longrightarrow> t \<notin> tents st \<Longrightarrow> unwinds exn st b cs t"
  using unwinds.onward [OF _ _ unwinds.here] by fastforce

lemma unwinds_trans: "unwinds exn st b cs m \<Longrightarrow> unwinds exn st m cs' t \<Longrightarrow> unwinds exn st b (cs @ cs') t"
  by (induction rule: unwinds.induct) (auto intro: unwinds.onward)

lemma unwinds_keeps:
  assumes "unwinds exn st b cs t" "keepsRoutes exn st st'"
  shows "unwinds exn st' b cs t"
  using assms(1)
proof induction
  case (onward b cs m cs' t)
  with assms(2) show ?case by (auto simp: keepsRoutes_def intro: unwinds.onward)
qed (rule unwinds.here)

lemma unwinds_quiet: "unwinds exn st b cs t \<Longrightarrow> quiet st st' \<Longrightarrow> unwinds exn st' b cs t"
  using unwinds_keeps quiet_keepsRoutes by blast

section \<open>The tests of one try-catch scope\<close>

lemma quiet_trans:
  assumes "quiet st st1" "quiet st1 st2"
  shows "quiet st st2"
proof -
  note same = quiet_same [OF assms(1)]
  have blocks: "\<exists>blk'. bbs st2 b = Some blk' \<and> stores blk' = stores blk \<and>
      (terminator blk' = terminator blk \<or> terminator blk = None \<and> b \<notin> ends st \<and> b \<notin> tents st)" if "bbs st b = Some blk" for b blk
  proof -
    from assms(1) that have "\<exists>b1. bbs st1 b = Some b1 \<and> stores b1 = stores blk \<and>
        (terminator b1 = terminator blk \<or> terminator blk = None \<and> b \<notin> ends st \<and> b \<notin> tents st)"
      unfolding quiet_def by blast
    then obtain b1 where "bbs st1 b = Some b1" "stores b1 = stores blk"
        "terminator b1 = terminator blk \<or> terminator blk = None \<and> b \<notin> ends st \<and> b \<notin> tents st" by blast
    moreover from this obtain b2 where "bbs st2 b = Some b2" "stores b2 = stores b1"
        "terminator b2 = terminator b1 \<or> terminator b1 = None \<and> b \<notin> ends st \<and> b \<notin> tents st"
      using assms(2) unfolding quiet_def same by blast
    ultimately show ?thesis by auto
  qed
  have new: "stores blk = []" if "bbs st b = None" "bbs st2 b = Some blk" for b blk
  proof (cases "bbs st1 b")
    case None
    then show ?thesis using assms(2) that unfolding quiet_def by blast
  next
    case (Some b1)
    then have "stores b1 = []" using assms(1) that unfolding quiet_def by blast
    then show ?thesis using assms(2) Some that(2) unfolding quiet_def by fastforce
  qed
  show ?thesis using assms blocks new unfolding quiet_def same by auto
qed

lemma fresh_not_target: "wf st \<Longrightarrow> c \<in> set (cleanupScopes st) \<Longrightarrow> nextBB st \<le> x \<Longrightarrow> x \<notin> targets c"
  using wfg_recorded(3) [OF wf_wfg] by fastforce

lemma emitCatchTest_step:
  assumes "emitCatchTest p cb st = Some st'" "wf st" "bodyBB cb < nextBB st" "bodyBB cb \<notin> tents st"
  shows "quiet st st'" "\<forall>c\<in>set (cleanupScopes st'). scopebb st' \<notin> targets c" "scopebb st' \<noteq> scopebb st" "nextBB st \<le> scopebb st'"
    and "unwinds exn st' (scopebb st) [] (if exn = Some (classInfoPtr cb) then bodyBB cb else scopebb st')" "unterminated (bbs st') (scopebb st')"
proof -
  let ?s = "scopebb st" and ?n = "nextBB st"
  note wfg = wf_wfg [OF assms(2)]
  let ?st0 = "addClause (classInfoPtr cb) p st"
  obtain blk where blk: "bbs (snd (insertBB ?st0)) ?s = Some blk" "terminator blk = None"
      "st' = (snd (insertBB ?st0))\<lparr>bbs := (bbs (snd (insertBB ?st0)))(?s \<mapsto> blk\<lparr>terminator := Some (CondBranch (classInfoPtr cb) (bodyBB cb) ?n)\<rparr>),
         scopebb := ?n\<rparr>"
    using assms(1) by (auto simp: emitCatchTest_def Let_def terminate_def insertBB_def addClause_def updateLandingPad_def split: Option.bind_splits if_splits)
  have q0: "quiet st ?st0" unfolding addClause_def by (rule quiet_updateLandingPad(1) [OF wfg])
  have wf0: "wfg ?st0 (set (gotos st))" by (rule quiet_wfg [OF q0 wfg])
  have q1: "quiet st (snd (insertBB ?st0))" by (rule quiet_trans [OF q0 quiet_insertBB [OF wf0]])
  have wf1: "wfg (snd (insertBB ?st0)) (set (gotos st))" by (rule quiet_wfg [OF q1 wfg])
  have f: "nextBB ?st0 = ?n" "scopebb ?st0 = ?s" "cleanupScopes ?st0 = cleanupScopes st" by (simp_all add: addClause_def updateLandingPad_def)
  let ?st2 = "(snd (insertBB ?st0))\<lparr>bbs := (bbs (snd (insertBB ?st0)))(?s \<mapsto> blk\<lparr>terminator := Some (CondBranch (classInfoPtr cb) (bodyBB cb) ?n)\<rparr>)\<rparr>"
  have "terminate ?s (CondBranch (classInfoPtr cb) (bodyBB cb) ?n) (snd (insertBB ?st0)) = Some ?st2"
    using blk(1,2) by (simp add: terminate_def)
  then have q2: "quiet (snd (insertBB ?st0)) ?st2"
    by (rule quiet_terminate [OF wf1]) (use wfg_scopebb [OF wfg] quiet_same [OF q1] in simp_all)
  have q2': "quiet st ?st2" by (rule quiet_trans [OF q1 q2])
  have wf2: "wfg ?st2 (set (gotos st))" by (rule quiet_wfg [OF q2' wfg])
  have n: "?n \<notin> ends st" "?n \<notin> tents st" using wfg_end_block(2) [OF wfg] wfg_tent(2) [OF wfg] by auto
  have "quiet ?st2 (?st2\<lparr>scopebb := ?n\<rparr>)"
    by (rule quiet_setInsertPoint [OF wf2]) (use n quiet_same [OF q2'] f in simp_all)
  moreover have "st' = ?st2\<lparr>scopebb := ?n\<rparr>" using blk(3) by simp
  ultimately show q: "quiet st st'" using quiet_trans [OF q2'] by simp
  have sb: "scopebb st' = ?n" using blk(3) by simp
  show "\<forall>c\<in>set (cleanupScopes st'). scopebb st' \<notin> targets c"
    using fresh_not_target [OF assms(2)] q sb by (simp add: quiet_def)
  show "scopebb st' \<noteq> ?s" "?n \<le> scopebb st'" using sb wfg_scopebb(3) [OF wfg] by auto
  show "unterminated (bbs st') (scopebb st')"
    using blk(3) sb f wfg_scopebb(3) [OF wfg] by (auto simp: unterminated_def emptyBB_def)
  show "unwinds exn st' ?s [] (if exn = Some (classInfoPtr cb) then bodyBB cb else scopebb st')"
  proof (rule unwinds_one)
    have "?s \<notin> ends st'" using wfg_scopebb(1) [OF wfg] quiet_same [OF q] by simp
    then show "settled exn st' ?s [] (if exn = Some (classInfoPtr cb) then bodyBB cb else scopebb st')"
      using blk(3) assms(3) sb f by (auto simp: settled_def route_def)
    show "(if exn = Some (classInfoPtr cb) then bodyBB cb else scopebb st') \<notin> tents st'"
      using n assms(4) sb quiet_same [OF q] by simp
  qed
qed

lemma emitCatchTests_step:
  assumes "iterM (emitCatchTest p) cbs st = Some st'" "wf st"
    "\<forall>cb\<in>set cbs. bodyBB cb < nextBB st \<and> bodyBB cb \<notin> tents st"
  shows "quiet st st'"
    and "cbs \<noteq> [] \<Longrightarrow> unterminated (bbs st') (scopebb st') \<and> nextBB st \<le> scopebb st' \<and> (\<forall>c\<in>set (cleanupScopes st'). scopebb st' \<notin> targets c)"
    and "unwinds exn st' (scopebb st) [] (case find (\<lambda>cb. exn = Some (classInfoPtr cb)) cbs of None \<Rightarrow> scopebb st' | Some cb \<Rightarrow> bodyBB cb)"
proof -
  have "quiet st st' \<and> (cbs \<noteq> [] \<longrightarrow> unterminated (bbs st') (scopebb st') \<and> nextBB st \<le> scopebb st' \<and> (\<forall>c\<in>set (cleanupScopes st'). scopebb st' \<notin> targets c))
    \<and> unwinds exn st' (scopebb st) [] (case find (\<lambda>cb. exn = Some (classInfoPtr cb)) cbs of None \<Rightarrow> scopebb st' | Some cb \<Rightarrow> bodyBB cb)"
    using assms
  proof (induction cbs arbitrary: st)
    case Nil
    then show ?case using quiet_refl [OF wf_wfg] by (auto intro: unwinds.here)
  next
    case (Cons cb cbs)
    from Cons.prems(1) obtain st1 where st1: "emitCatchTest p cb st = Some st1" "iterM (emitCatchTest p) cbs st1 = Some st'"
      by (auto split: Option.bind_splits)
    note one = emitCatchTest_step [OF st1(1) Cons.prems(2)]
    have q: "quiet st st1" using one(1) Cons.prems(3) by simp
    have n: "nextBB st \<le> nextBB st1" using q by (simp add: quiet_def)
    have IH: "quiet st1 st' \<and> (cbs \<noteq> [] \<longrightarrow> unterminated (bbs st') (scopebb st') \<and> nextBB st1 \<le> scopebb st' \<and> (\<forall>c\<in>set (cleanupScopes st'). scopebb st' \<notin> targets c))
      \<and> unwinds exn st' (scopebb st1) [] (case find (\<lambda>cb. exn = Some (classInfoPtr cb)) cbs of None \<Rightarrow> scopebb st' | Some cb \<Rightarrow> bodyBB cb)"
      by (rule Cons.IH [OF st1(2)]) (use quiet_wf [OF q Cons.prems(2)] Cons.prems(3) n quiet_same [OF q] in \<open>auto dest: order.strict_trans2\<close>)
    have u: "unwinds exn st' (scopebb st) [] (if exn = Some (classInfoPtr cb) then bodyBB cb else scopebb st1)"
      using unwinds_quiet [OF one(5)] IH Cons.prems(3) by auto
    have "unwinds exn st' (scopebb st) [] (case find (\<lambda>cb. exn = Some (classInfoPtr cb)) (cb # cbs) of None \<Rightarrow> scopebb st' | Some cb \<Rightarrow> bodyBB cb)"
      using u unwinds_trans [of exn st' "scopebb st" "[]" "scopebb st1" "[]"] IH by (cases "exn = Some (classInfoPtr cb)") simp_all
    moreover have "unterminated (bbs st') (scopebb st') \<and> nextBB st \<le> scopebb st' \<and> (\<forall>c\<in>set (cleanupScopes st'). scopebb st' \<notin> targets c)"
    proof (cases "cbs = []")
      case True
      then have "st' = st1" using st1(2) by simp
      then show ?thesis using one(2,4,6) Cons.prems(3) by auto
    qed (use IH n in auto)
    ultimately show ?case using IH quiet_trans [OF q] by blast
  qed
  then show "quiet st st'"
    "cbs \<noteq> [] \<Longrightarrow> unterminated (bbs st') (scopebb st') \<and> nextBB st \<le> scopebb st' \<and> (\<forall>c\<in>set (cleanupScopes st'). scopebb st' \<notin> targets c)"
    "unwinds exn st' (scopebb st) [] (case find (\<lambda>cb. exn = Some (classInfoPtr cb)) cbs of None \<Rightarrow> scopebb st' | Some cb \<Rightarrow> bodyBB cb)"
    by blast+
qed

section \<open>A landing pad\<close>

text \<open>What the emission of a landing pad leaves unchanged.\<close>

definition steady :: "'a TryCatchFinallyScopes_scheme \<Rightarrow> 'a TryCatchFinallyScopes_scheme \<Rightarrow> bool" where
  "steady st st' \<longleftrightarrow> evolves st st' \<and> pairs st' = pairs st
     \<and> unresolvedGotosPerCleanupScope st' = unresolvedGotosPerCleanupScope st
     \<and> (\<forall>exn src cs t. settled exn st src cs t \<longrightarrow> settled exn st' src cs t)"

lemma steady_trans: "steady st st1 \<Longrightarrow> steady st1 st2 \<Longrightarrow> steady st st2"
  unfolding steady_def using evolves_trans by metis

lemma steady_gotos: "steady st st' \<Longrightarrow> gotos st' = gotos st"
  by (simp add: steady_def gotos_def)

lemma pairs_ends: "ends st = snd ` set (pairs st)"
  by (simp add: ends_def pairs_def image_image scopePair_def)

lemma steady_same: "steady st st' \<Longrightarrow> tents st' = tents st" "steady st st' \<Longrightarrow> ends st' = ends st"
  "steady st st' \<Longrightarrow> nextBB st \<le> nextBB st'" "steady st st' \<Longrightarrow> wf st'" "steady st st' \<Longrightarrow> length (cleanupScopes st') = length (cleanupScopes st)"
  by (simp_all add: tents_def steady_gotos) (simp_all add: steady_def pairs_ends evolves_def, metis pairs_length)

lemma quiet_steady: "quiet st st' \<Longrightarrow> wf st \<Longrightarrow> steady st st'"
  by (auto simp: steady_def quiet_evolves quiet_pairs quiet_settled) (simp add: quiet_def)

lemma unwinds_steady: "unwinds exn st b cs t \<Longrightarrow> steady st st' \<Longrightarrow> unwinds exn st' b cs t"
  by (erule unwinds_keeps) (simp add: steady_def evolves_def)

lemma runCleanups_from_steady:
  assumes "runCleanups_from a z u st = Some st'" "wf st" "nextBB st < 2 ^ 32" "u < nextBB st" "u \<notin> tents st"
    "a \<le> length (cleanupScopes st)"
  shows "steady st st'" "unwinds exn st' (scopebb st) (rev (drop z (take a (pairs st)))) u" "nextBB st' = nextBB st" "scopebb st' = scopebb st"
proof -
  note step = runCleanups_from_step [OF assms]
  show "steady st st'" using step runCleanups_from_evolves [OF assms] by (simp add: steady_def)
  then show "unwinds exn st' (scopebb st) (rev (drop z (take a (pairs st)))) u"
    using unwinds_one [OF step(7)] assms(5) by (simp add: steady_same)
  show "nextBB st' = nextBB st" "scopebb st' = scopebb st" by (fact step)+
qed

lemma iterM_emitCatchTest_grows: "iterM (emitCatchTest p) cbs st = Some st' \<Longrightarrow> nextBB st \<le> nextBB st'"
  by (rule iterM_invariant [where I = "\<lambda>x. nextBB st \<le> nextBB x"])
    (auto simp: emitCatchTest_def Let_def insertBB_def terminate_def addClause_def updateLandingPad_def split: Option.bind_splits if_splits)

lemma insert_setCleanup:
  assumes "wf st"
  shows "steady st (snd (insertBB (setCleanup p st)))" "nextBB st \<notin> tents st" "nextBB st \<notin> ends st"
    "scopebb (snd (insertBB (setCleanup p st))) = scopebb st" "nextBB (snd (insertBB (setCleanup p st))) = Suc (nextBB st)"
    "fst (insertBB (setCleanup p st)) = nextBB st"
proof -
  note wfg = wf_wfg [OF assms]
  have q: "quiet st (setCleanup p st)" unfolding setCleanup_def by (rule quiet_updateLandingPad(1) [OF wfg])
  have "quiet (setCleanup p st) (snd (insertBB (setCleanup p st)))" by (rule quiet_insertBB [OF quiet_wfg [OF q wfg]])
  from quiet_trans [OF q this] show "steady st (snd (insertBB (setCleanup p st)))" using assms by (rule quiet_steady)
  show "nextBB st \<notin> tents st" "nextBB st \<notin> ends st" using wfg_end_block(2) [OF wfg] wfg_tent(2) [OF wfg] by auto
qed (simp_all add: setCleanup_def updateLandingPad_def)

text \<open>The catch bodies of the try-catch scopes, which jumps out of them leave alone.\<close>

definition bodiesOK :: "'a TryCatchFinallyScopes_scheme \<Rightarrow> TryCatchScope \<Rightarrow> bool" where
  "bodiesOK st tc \<longleftrightarrow> (\<forall>cb\<in>set (catchBlocks tc). bodyBB cb < nextBB st \<and> bodyBB cb \<notin> tents st)"

lemma bodiesOK_steady: "bodiesOK st tc \<Longrightarrow> steady st st' \<Longrightarrow> bodiesOK st' tc"
  using steady_same(1,3) [of st st'] by (fastforce simp: bodiesOK_def)

lemma emitCatches_step:
  assumes "emitCatches p tc (k, st) = Some (k', st')" "wf st" "k \<le> length (cleanupScopes st)" "nextBB st' < 2 ^ 32" "bodiesOK st tc"
  shows "steady st st'" "k' = cleanupScope tc" "k' \<le> k"
    and "unterminated (bbs st') (scopebb st') \<and> nextBB st \<le> scopebb st' \<and> (\<forall>c\<in>set (cleanupScopes st'). scopebb st' \<notin> targets c)"
    and "unwinds exn st' (scopebb st) (rev (drop (cleanupScope tc) (take k (pairs st))))
      (case find (\<lambda>cb. exn = Some (classInfoPtr cb)) (catchBlocks tc) of None \<Rightarrow> scopebb st' | Some cb \<Rightarrow> bodyBB cb)"
proof -
  let ?z = "cleanupScope tc" and ?cs = "rev (drop (cleanupScope tc) (take k (pairs st)))"
  have z: "?z \<le> k" "catchBlocks tc \<noteq> []" and k': "k' = ?z"
    using assms(1) by (auto simp: emitCatches_def Let_def split: Option.bind_splits if_splits)
  obtain st1 where st1: "(if ?z < k then do {
         st2 \<leftarrow> runCleanups_from k ?z (fst (insertBB (setCleanup p st))) (snd (insertBB (setCleanup p st)));
         Some (st2\<lparr>scopebb := fst (insertBB (setCleanup p st))\<rparr>) } else Some st) = Some st1"
      "iterM (emitCatchTest p) (catchBlocks tc) st1 = Some st'"
    using assms(1) by (auto simp: emitCatches_def Let_def case_prod_unfold split: Option.bind_splits if_splits)
  have nb: "nextBB st1 < 2 ^ 32" using iterM_emitCatchTest_grows [OF st1(2)] assms(4) by simp
  have one: "steady st st1 \<and> unwinds exn st1 (scopebb st) ?cs (scopebb st1)"
  proof (cases "?z < k")
    case True
    let ?st = "snd (insertBB (setCleanup p st))" and ?u = "nextBB st"
    note ins = insert_setCleanup [OF assms(2)]
    obtain st2 where st2: "runCleanups_from k ?z ?u ?st = Some st2" "st1 = st2\<lparr>scopebb := ?u\<rparr>"
      using st1(1) True ins(6) by (auto split: Option.bind_splits)
    note same = steady_same [OF ins(1) [of p]]
    have "nextBB st1 = nextBB ?st" using st2 runCleanups_from_shape(1) by fastforce
    then have pre: "wf ?st" "nextBB ?st < 2 ^ 32" "?u < nextBB ?st" "?u \<notin> tents ?st" "k \<le> length (cleanupScopes ?st)"
      using same ins(2,5) nb assms(3) by simp_all
    note r = runCleanups_from_steady [OF st2(1) pre]
    have "quiet st2 st1" unfolding st2(2)
      by (rule quiet_setInsertPoint [OF wf_wfg [OF steady_same(4) [OF r(1)]]])
        (use r(3) pre(3) ins(2,3) same(1,2) steady_same(1,2) [OF r(1)] in simp_all)
    then have s1: "steady st2 st1" by (rule quiet_steady) (rule steady_same(4) [OF r(1)])
    have "steady st st1" using steady_trans [OF steady_trans [OF ins(1) r(1)] s1] .
    moreover have "unwinds exn st1 (scopebb st) ?cs (scopebb st1)"
      using unwinds_steady [OF r(2) s1] ins(1) [of p] ins(4) st2(2) by (simp add: steady_def)
    ultimately show ?thesis by simp
  next
    case False
    then have "st1 = st" "?cs = []" using st1(1) by auto
    then show ?thesis using quiet_steady [OF quiet_refl [OF wf_wfg [OF assms(2)]] assms(2)] by (simp add: unwinds.here)
  qed
  note tests = emitCatchTests_step [OF st1(2)]
  have wf1: "wf st1" using one steady_same(4) by blast
  have b1: "\<forall>cb\<in>set (catchBlocks tc). bodyBB cb < nextBB st1 \<and> bodyBB cb \<notin> tents st1"
    using bodiesOK_steady [OF assms(5)] one by (auto simp: bodiesOK_def)
  have s2: "steady st1 st'" by (rule quiet_steady [OF tests(1) [OF wf1 b1] wf1])
  show "steady st st'" using one steady_trans s2 by blast
  show "k' = ?z" "k' \<le> k" using z k' by auto
  show "unterminated (bbs st') (scopebb st') \<and> nextBB st \<le> scopebb st' \<and> (\<forall>c\<in>set (cleanupScopes st'). scopebb st' \<notin> targets c)"
    using tests(2) [OF wf1 b1 z(2)] one steady_same(3) [of st st1] by auto
  have "unwinds exn st' (scopebb st) ?cs (scopebb st1)" using one unwinds_steady s2 by blast
  from unwinds_trans [OF this tests(3) [OF wf1 b1]]
  show "unwinds exn st' (scopebb st) ?cs (case find (\<lambda>cb. exn = Some (classInfoPtr cb)) (catchBlocks tc) of None \<Rightarrow> scopebb st' | Some cb \<Rightarrow> bodyBB cb)"
    by simp
qed

lemma emitCatches_grows: "emitCatches p tc (k, st) = Some (k', st') \<Longrightarrow> nextBB st \<le> nextBB st'"
  by (fastforce simp: emitCatches_def Let_def insertBB_def setCleanup_def updateLandingPad_def split: Option.bind_splits if_splits
    dest!: iterM_emitCatchTest_grows runCleanups_from_shape(1))

lemma emitAllCatches_step:
  assumes "iterM (emitCatches p) tcs (k, st) = Some (k', st')" "wf st" "k \<le> length (cleanupScopes st)" "nextBB st' < 2 ^ 32"
    "\<forall>tc\<in>set tcs. bodiesOK st tc" "seek exn (pairs st) tcs k = (cs, h, n)"
  shows "steady st st' \<and> k' \<le> k \<and> (h = None \<longrightarrow> n = k')
    \<and> (tcs \<noteq> [] \<longrightarrow> unterminated (bbs st') (scopebb st') \<and> nextBB st \<le> scopebb st' \<and> (\<forall>c\<in>set (cleanupScopes st'). scopebb st' \<notin> targets c))
    \<and> unwinds exn st' (scopebb st) cs (case h of None \<Rightarrow> scopebb st' | Some b \<Rightarrow> b)"
  using assms
proof (induction tcs arbitrary: k st cs h n)
  case Nil
  then show ?case using quiet_steady [OF quiet_refl [OF wf_wfg]] by (auto intro: unwinds.here)
next
  case (Cons tc tcs)
  from Cons.prems(1) obtain k1 st1 where st1: "emitCatches p tc (k, st) = Some (k1, st1)" "iterM (emitCatches p) tcs (k1, st1) = Some (k', st')"
    by (auto split: Option.bind_splits)
  have "nextBB st1 \<le> nextBB st'"
    using iterM_invariant [OF st1(2), where I = "\<lambda>x. nextBB st1 \<le> nextBB (snd x)"] emitCatches_grows by fastforce
  then have nb: "nextBB st1 < 2 ^ 32" using Cons.prems(4) by simp
  have bd: "bodiesOK st tc" using Cons.prems(5) by simp
  note one = emitCatches_step [OF st1(1) Cons.prems(2,3) nb bd]
  note same = steady_same [OF one(1)]
  obtain cs1 h1 n1 where sk: "seek exn (pairs st) tcs k1 = (cs1, h1, n1)" by (metis prod_cases3)
  have p1: "pairs st1 = pairs st" using one(1) by (simp add: steady_def)
  have b1: "\<forall>tc\<in>set tcs. bodiesOK st1 tc" using Cons.prems(5) bodiesOK_steady [OF _ one(1)] by simp
  have "k1 \<le> length (cleanupScopes st1)" using one(3) Cons.prems(3) same(5) by simp
  from Cons.IH [OF st1(2) same(4) this Cons.prems(4) b1 sk [folded p1]]
  have IH: "steady st1 st'" "k' \<le> k1" "h1 = None \<longrightarrow> n1 = k'"
    "tcs \<noteq> [] \<longrightarrow> unterminated (bbs st') (scopebb st') \<and> nextBB st1 \<le> scopebb st' \<and> (\<forall>c\<in>set (cleanupScopes st'). scopebb st' \<notin> targets c)"
    "unwinds exn st' (scopebb st1) cs1 (case h1 of None \<Rightarrow> scopebb st' | Some b \<Rightarrow> b)" by blast+
  let ?cs = "rev (drop (cleanupScope tc) (take k (pairs st)))"
  have u: "unwinds exn st' (scopebb st) ?cs (case find (\<lambda>cb. exn = Some (classInfoPtr cb)) (catchBlocks tc) of None \<Rightarrow> scopebb st1 | Some cb \<Rightarrow> bodyBB cb)"
    by (rule unwinds_steady [OF one(5) IH(1)])
  have "(h = None \<longrightarrow> n = k') \<and> unwinds exn st' (scopebb st) cs (case h of None \<Rightarrow> scopebb st' | Some b \<Rightarrow> b)"
  proof (cases "find (\<lambda>cb. exn = Some (classInfoPtr cb)) (catchBlocks tc)")
    case None
    then have "cs = ?cs @ cs1" "h = h1" "n = n1" using Cons.prems(6) sk one(2) by auto
    with IH(3,5) unwinds_trans [OF u] None show ?thesis by simp
  next
    case (Some cb)
    with Cons.prems(6) u show ?thesis by auto
  qed
  moreover have "unterminated (bbs st') (scopebb st') \<and> nextBB st \<le> scopebb st' \<and> (\<forall>c\<in>set (cleanupScopes st'). scopebb st' \<notin> targets c)"
  proof (cases "tcs = []")
    case True
    then show ?thesis using one(4) st1(2) by simp
  qed (use IH(4) same(3) in auto)
  ultimately show ?case using steady_trans [OF one(1) IH(1)] IH(2) one(3) by simp
qed

text \<open>The resume block: it exists, and nothing but the function's end follows it.\<close>

definition resumes :: "'a TryCatchFinallyScopes_scheme \<Rightarrow> BB \<Rightarrow> bool" where
  "resumes st b \<longleftrightarrow> (\<exists>blk. bbs st b = Some blk \<and> terminator blk = Some ResumeUnwind)"

definition resumeOK :: "'a TryCatchFinallyScopes_scheme \<Rightarrow> bool" where
  "resumeOK st \<longleftrightarrow> (\<forall>b. resumeUnwindBlock st = Some b \<longrightarrow> resumes st b)"

lemma resumes_block:
  assumes "wf st" "resumes st b"
  shows "b < nextBB st" "b \<notin> tents st" "b \<notin> ends st"
proof -
  note wfg = wf_wfg [OF assms(1)]
  obtain blk where blk: "bbs st b = Some blk" "terminator blk = Some ResumeUnwind" using assms(2) by (auto simp: resumes_def)
  show "b < nextBB st" by (rule wfg_less [OF wfg blk(1)])
  show "b \<notin> tents st" using wfg_tent(1) [OF wfg, of b] blk by (auto simp: unterminated_def)
  show "b \<notin> ends st"
  proof
    assume "b \<in> ends st"
    then obtain c where "c \<in> set (cleanupScopes st)" "b = endBlock c" by (auto simp: ends_def)
    moreover from this have "okScope (bbs st) (nextAlloca st) c" using wfg_recorded(1) [OF wfg] by blast
    ultimately have "exitTerm c = Some ResumeUnwind" using blk by (auto elim: okScope_block)
    then show False by (auto simp: exitTerm_def split: option.splits list.splits)
  qed
qed

lemma evolves_resumes: "evolves st st' \<Longrightarrow> wf st \<Longrightarrow> resumes st b \<Longrightarrow> resumes st' b"
  using resumes_block(3) [of st b] unfolding evolves_def renamed_def resumes_def
  by (metis substTerminator.simps(5))

lemma getOrCreateResumeUnwindBlock_step:
  assumes "getOrCreateResumeUnwindBlock st = Some (r, st')" "wf st" "resumeOK st"
  shows "quiet st st'" "resumes st' r" "resumeUnwindBlock st' = Some r" "scopebb st' = scopebb st"
    "landingPadsPerCleanupScope st' = landingPadsPerCleanupScope st" "TryCatchFinallyScopes.more st' = TryCatchFinallyScopes.more st"
    and "unterminated (bbs st) b \<Longrightarrow> unterminated (bbs st') b"
proof -
  note wfg = wf_wfg [OF assms(2)]
  have n: "nextBB st \<notin> ends st" "nextBB st \<notin> tents st" "scopebb st < nextBB st" "bbs st (nextBB st) = None"
    using wfg_end_block(2) [OF wfg] wfg_tent(2) [OF wfg] wfg_scopebb(3) [OF wfg] wfg_fresh [OF wfg] by auto
  have "quiet st st' \<and> resumes st' r \<and> resumeUnwindBlock st' = Some r \<and> scopebb st' = scopebb st \<and>
      landingPadsPerCleanupScope st' = landingPadsPerCleanupScope st \<and> TryCatchFinallyScopes.more st' = TryCatchFinallyScopes.more st \<and>
      (unterminated (bbs st) b \<longrightarrow> unterminated (bbs st') b)"
  proof (cases "resumeUnwindBlock st")
    case (Some b)
    then show ?thesis using assms quiet_refl [OF wfg] by (auto simp: getOrCreateResumeUnwindBlock_def resumeOK_def)
  next
    case None
    then have r: "r = nextBB st" and st': "st' = st\<lparr>bbs := (bbs st)(r \<mapsto> emptyBB\<lparr>terminator := Some ResumeUnwind\<rparr>), nextBB := Suc r,
        resumeUnwindBlock := Some r, ehPtrSlot := True\<rparr>"
      using assms(1) by (auto simp: getOrCreateResumeUnwindBlock_def insertBB_def terminate_def emptyBB_def)
    have "quiet st st'"
      using n wfg_fresh [OF wfg] wfg_scopebb [OF wfg] unfolding quiet_def st' by (auto simp: r emptyBB_def)
    then show ?thesis using n by (auto simp: st' r resumes_def unterminated_def)
  qed
  then show "quiet st st'" "resumes st' r" "resumeUnwindBlock st' = Some r" "scopebb st' = scopebb st"
    "landingPadsPerCleanupScope st' = landingPadsPerCleanupScope st" "TryCatchFinallyScopes.more st' = TryCatchFinallyScopes.more st"
    "unterminated (bbs st) b \<Longrightarrow> unterminated (bbs st') b" by blast+
qed

lemma emitCatchTest_shape: "emitCatchTest p cb st = Some st' \<Longrightarrow> sameScopes st st'"
  by (auto simp: emitCatchTest_def Let_def insertBB_def terminate_def addClause_def updateLandingPad_def sameScopes_def split: Option.bind_splits if_splits)

lemma emitCatches_shape:
  assumes "emitCatches p tc (k, st) = Some (k', st')"
  shows "sameScopes st st'"
proof -
  have tests: "sameScopes st st'" if "iterM (emitCatchTest p) cbs st = Some st'" for cbs and st st' :: "'a TryCatchFinallyScopes_scheme"
    using that by (rule iterM_invariant [where I = "sameScopes st"]) (auto intro: emitCatchTest_shape sameScopes_trans)
  have ins: "sameScopes st (snd (insertBB (setCleanup p st)))" by (simp add: sameScopes_def insertBB_def setCleanup_def updateLandingPad_def)
  have pt: "sameScopes st1 st2 \<Longrightarrow> sameScopes st1 (st2\<lparr>scopebb := b\<rparr>)" for st1 st2 :: "'a TryCatchFinallyScopes_scheme" and b
    by (simp add: sameScopes_def)
  from assms show ?thesis
    by (auto simp: emitCatches_def Let_def case_prod_unfold split: Option.bind_splits if_splits dest!: tests runCleanups_from_shape(2)
      intro: sameScopes_trans [OF ins] sameScopes_trans [OF pt])
qed

lemma unwinds_erase:
  assumes "unwinds exn st b cs t" "wf st" "free st x" "r < nextBB st" "r \<notin> tents st" "x \<notin> fst ` set cs" "b \<noteq> x"
  shows "unwinds exn (eraseFromParent x (replaceAllUsesWith x r st)) b cs (substBB x r t)"
proof -
  define g where "g = \<lparr>sourceLoc = 0, sourceBlock = 0, tentativeTarget = x, targetLabel = 0\<rparr>"
  have g: "eraseFromParent x (replaceAllUsesWith x r st) = resolveOne r g st" "tentativeTarget g = x" by (simp_all add: resolveOne_def g_def)
  note one = resolveOne_step [OF assms(2), of g r, unfolded g(2), OF assms(3,4)]
  have "unwinds exn st b cs t \<Longrightarrow> x \<notin> fst ` set cs \<Longrightarrow> b \<noteq> x \<Longrightarrow> unwinds exn (resolveOne r g st) b cs (substBB x r t)" for b cs t
  proof (induction rule: unwinds.induct)
    case (here b)
    then show ?case by (simp add: substBB_def unwinds.here)
  next
    case (onward b cs m cs' t)
    have s: "settled exn (resolveOne r g st) b cs (substBB x r m)"
      by (rule one(4) [OF onward.hyps(1)]) (use onward.prems(1) in \<open>simp add: image_Un\<close>)
    show ?case
    proof (cases "m = x")
      case True
      have "\<not> terminated (bbs st) x" using assms(3) by (auto simp: free_def unterminated_def terminated_def)
      have "unwinds exn st x cs' t" using onward.hyps(3) True by simp
      then have "cs' = [] \<and> t = x"
        by (cases rule: unwinds.cases) (use \<open>\<not> terminated (bbs st) x\<close> in \<open>auto simp: settled_def dest: route_terminated\<close>)
      then show ?thesis using unwinds_one [of exn "resolveOne r g st" b cs r] s True assms(5) one(3) by (simp add: substBB_def)
    next
      case False
      then have "unwinds exn (resolveOne r g st) m cs' (substBB x r t)" using onward by auto
      moreover have "substBB x r m = m" using False by (simp add: substBB_def)
      ultimately show ?thesis using s onward.hyps(2) by (auto intro: unwinds.onward simp: one(3))
    qed
  qed
  then show ?thesis unfolding g(1) using assms(1,6,7) .
qed

lemma erase_steady:
  assumes "wf st0" "steady st0 st" "free st x" "r < nextBB st" "nextBB st0 \<le> x"
  shows "steady st0 (eraseFromParent x (replaceAllUsesWith x r st))"
proof -
  let ?st' = "eraseFromParent x (replaceAllUsesWith x r st)"
  define g where "g = \<lparr>sourceLoc = 0, sourceBlock = 0, tentativeTarget = x, targetLabel = 0\<rparr>"
  have g: "?st' = resolveOne r g st" "tentativeTarget g = x" by (simp_all add: resolveOne_def g_def)
  have wf: "wf st" using steady_same(4) [OF assms(2)] .
  note one = resolveOne_step [OF wf, of g r, unfolded g(2), OF assms(3,4), folded g(1)]
  have all: "settled exn ?st' src cs t" if s: "settled exn st0 src cs t" for exn src cs t
  proof -
    have "settled exn st src cs t" using assms(2) s by (simp add: steady_def)
    moreover have "x \<notin> fst ` set cs" "t \<noteq> x" using s assms(5) by (auto simp: settled_def)
    ultimately show ?thesis using one(4) by (fastforce simp: substBB_def)
  qed
  have t: "tents ?st' = tents st0" using one(3) steady_same(1) [OF assms(2)] by simp
  have "renamed (tents st0 \<union> {nextBB st0..}) st ?st'" using one(6) assms(5) by auto
  then have "renamed (tents st0 \<union> {nextBB st0..}) st0 ?st'"
    using assms(2) renamed_trans unfolding steady_def evolves_def by blast
  then have "evolves st0 ?st'" unfolding evolves_def keepsRoutes_def
    using one(1) steady_same(3) [OF assms(2)] all t by simp
  then show ?thesis using all assms(2) by (simp add: steady_def pairs_def)
qed

text \<open>The start of a landing pad.\<close>

lemma padStart_step:
  assumes "wf st"
  defines "st2 \<equiv> (createLandingPadInst (nextBB st) (snd (insertBB st)))\<lparr>scopebb := nextBB st, ehPtrSlot := True, ehSelectorSlot := True\<rparr>"
  shows "steady st st2" "scopebb st2 = nextBB st" "nextBB st2 = Suc (nextBB st)" "sameScopes st st2"
proof -
  note wfg = wf_wfg [OF assms(1)]
  have n: "nextBB st \<notin> ends st" "nextBB st \<notin> tents st"
    using wfg_end_block(2) [OF wfg] wfg_tent(2) [OF wfg] by auto
  have q: "quiet st (snd (insertBB st))" by (rule quiet_insertBB [OF wfg])
  let ?st1 = "createLandingPadInst (nextBB st) (snd (insertBB st))"
  have q1: "quiet st ?st1" by (rule quiet_trans [OF q quiet_updateLandingPad(2) [OF quiet_wfg [OF q wfg]]])
  have nb: "nextBB ?st1 = Suc (nextBB st)" by (simp add: createLandingPadInst_def)
  have "quiet ?st1 (?st1\<lparr>scopebb := nextBB st\<rparr>)"
    by (rule quiet_setInsertPoint [OF quiet_wfg [OF q1 wfg]]) (use n nb quiet_same [OF q1] in simp_all)
  from quiet_trans [OF q1 this] have "quiet st st2" unfolding st2_def quiet_def by simp
  then show "steady st st2" using assms(1) by (rule quiet_steady)
  show "scopebb st2 = nextBB st" "nextBB st2 = Suc (nextBB st)" using nb by (simp_all add: st2_def)
  show "sameScopes st st2" by (simp add: st2_def sameScopes_def createLandingPadInst_def insertBB_def)
qed

text \<open>Its end, when no catch matched: the remaining cleanups run, and unwinding resumes.\<close>

definition finishPad :: "BB \<Rightarrow> BB \<Rightarrow> nat \<Rightarrow> BB \<Rightarrow> 'a TryCatchFinallyScopes_scheme \<Rightarrow> 'a TryCatchFinallyScopes_scheme option" where
  "finishPad beginBB saved lastCleanup resume st = do {
     st5 \<leftarrow> (if 0 < lastCleanup then runCleanups_from lastCleanup 0 resume (setCleanup beginBB st)
            else if tryCatchScopes st \<noteq> [] then
              Some (eraseFromParent (scopebb st) (replaceAllUsesWith (scopebb st) resume st))
            else CreateBr resume st);
     Some (st5\<lparr>scopebb := saved\<rparr>) }"

lemma finishPad_nextBB: "finishPad p s k r st = Some st' \<Longrightarrow> nextBB st' = nextBB st"
  by (auto simp: finishPad_def CreateBr_def terminate_def setCleanup_def updateLandingPad_def split: Option.bind_splits if_splits
    dest!: runCleanups_from_shape(1))

lemma finishPad_step:
  assumes "finishPad p s k r st = Some st'" "wf st0" "steady st0 st" "k \<le> length (cleanupScopes st0)" "nextBB st' < 2 ^ 32"
    and r: "r < nextBB st" "r \<notin> tents st" and s: "s = scopebb st0"
    and x: "tryCatchScopes st \<noteq> [] \<Longrightarrow> unterminated (bbs st) (scopebb st) \<and> nextBB st0 \<le> scopebb st \<and> (\<forall>c\<in>set (cleanupScopes st). scopebb st \<notin> targets c)"
    and p: "p \<noteq> scopebb st \<or> tryCatchScopes st = []" and u: "unwinds exn st p cs t" "fst ` set cs \<subseteq> {..<nextBB st0}"
  shows "steady st0 st'" "sameScopes st st'" "scopebb st' = s"
    and "t < nextBB st0 \<Longrightarrow> unwinds exn st' p cs t"
    and "t = scopebb st \<Longrightarrow> unwinds exn st' p (cs @ rev (take k (pairs st0))) r" "resumes st r \<Longrightarrow> resumes st' r"
proof -
  note same = steady_same [OF assms(3)]
  note wf = same(4) and wfg = wf_wfg [OF same(4)]
  have sb: "s \<notin> ends st" "s \<notin> tents st" "s < nextBB st" "s < nextBB st0"
    using wfg_scopebb [OF wf_wfg [OF assms(2)]] same(1-3) s by auto
  have goback: "steady st1 (st1\<lparr>scopebb := s\<rparr>)" if "steady st st1" for st1
  proof (rule quiet_steady [OF _ steady_same(4) [OF that]])
    show "quiet st1 (st1\<lparr>scopebb := s\<rparr>)"
      by (rule quiet_setInsertPoint [OF wf_wfg [OF steady_same(4) [OF that]]]) (use sb steady_same [OF that] in auto)
  qed
  have "steady st0 st' \<and> sameScopes st st' \<and> scopebb st' = s \<and> (t < nextBB st0 \<longrightarrow> unwinds exn st' p cs t)
    \<and> (t = scopebb st \<longrightarrow> unwinds exn st' p (cs @ rev (take k (pairs st0))) r) \<and> (resumes st r \<longrightarrow> resumes st' r)"
  proof (cases "0 < k")
    case True
    let ?st = "setCleanup p st"
    obtain st5 where st5: "runCleanups_from k 0 r ?st = Some st5" "st' = st5\<lparr>scopebb := s\<rparr>"
      using assms(1) True by (auto simp: finishPad_def split: Option.bind_splits)
    have q: "steady st ?st" unfolding setCleanup_def by (rule quiet_steady [OF quiet_updateLandingPad(1) [OF wfg] wf])
    have f: "nextBB ?st = nextBB st" "scopebb ?st = scopebb st" "sameScopes st ?st" by (simp_all add: setCleanup_def updateLandingPad_def sameScopes_def)
    have pre: "nextBB ?st < 2 ^ 32" "r < nextBB ?st" "r \<notin> tents ?st" "k \<le> length (cleanupScopes ?st)"
      using assms(4,5) r st5 runCleanups_from_shape(1) [OF st5(1)] f same(5) steady_same [OF q] by auto
    note run = runCleanups_from_steady [OF st5(1) steady_same(4) [OF q] pre]
    have s5: "steady st st5" by (rule steady_trans [OF q run(1)])
    have s': "steady st st'" using steady_trans [OF s5 goback [OF s5]] st5(2) by simp
    have "pairs ?st = pairs st0" using q assms(3) by (simp add: steady_def)
    then have r': "unwinds exn st' (scopebb st) (rev (take k (pairs st0))) r"
      using unwinds_steady [OF run(2) goback [OF s5]] f st5(2) by simp
    have "unwinds exn st' p cs t" by (rule unwinds_steady [OF u(1) s'])
    moreover have "sameScopes st st'" using sameScopes_trans [OF f(3) runCleanups_from_shape(2) [OF st5(1)]] by (simp add: st5(2) sameScopes_def)
    moreover have "resumes st r \<longrightarrow> resumes st' r" using evolves_resumes [OF _ wf] s' by (simp add: steady_def)
    ultimately show ?thesis using steady_trans [OF assms(3) s'] unwinds_trans r' st5(2) by auto
  next
    case False
    then have k: "rev (take k (pairs st0)) = []" by simp
    show ?thesis
    proof (cases "tryCatchScopes st = []")
      case True
      obtain st5 where st5: "CreateBr r st = Some st5" "st' = st5\<lparr>scopebb := s\<rparr>"
        using assms(1) False True by (auto simp: finishPad_def split: Option.bind_splits)
      have s5: "steady st st5" by (rule quiet_steady [OF quiet_CreateBr [OF wfg st5(1)] wf])
      have s': "steady st st'" using steady_trans [OF s5 goback [OF s5]] st5(2) by simp
      have "\<exists>blk. bbs st5 (scopebb st) = Some blk \<and> terminator blk = Some (BranchInst r)"
        using st5(1) by (auto simp: CreateBr_def terminate_def split: Option.bind_splits if_splits)
      then have "settled exn st5 (scopebb st) [] r"
        using r wfg_scopebb(1) [OF wfg] steady_same(2,3) [OF s5] by (auto simp: settled_def route_def)
      then have "unwinds exn st5 (scopebb st) [] r" by (rule unwinds_one) (use r steady_same(1) [OF s5] in simp)
      then have r': "unwinds exn st' (scopebb st) [] r" using unwinds_steady goback [OF s5] st5(2) by blast
      have u': "unwinds exn st' p cs t" by (rule unwinds_steady [OF u(1) s'])
      have "t = scopebb st \<Longrightarrow> unwinds exn st' p cs r" using unwinds_trans [of exn st' p cs "scopebb st" "[]" r] u' r' by simp
      moreover have "sameScopes st st'"
        using st5 by (auto simp: sameScopes_def CreateBr_def terminate_def split: Option.bind_splits if_splits)
      moreover have "resumes st r \<longrightarrow> resumes st' r" using evolves_resumes [OF _ wf] s' by (simp add: steady_def)
      ultimately show ?thesis using steady_trans [OF assms(3) s'] u' k st5(2) by auto
    next
      case tc: False
      let ?x = "scopebb st" and ?st = "st\<lparr>scopebb := s\<rparr>"
      have st': "st' = eraseFromParent ?x (replaceAllUsesWith ?x r ?st)"
        using assms(1) False tc by (cases st) (auto simp: finishPad_def eraseFromParent_def replaceAllUsesWith_def)
      have q: "steady st ?st" by (rule goback) (rule quiet_steady [OF quiet_refl [OF wfg] wf])
      note qs = steady_same [OF q]
      have fr: "free ?st ?x" using x [OF tc] wfg_scopebb [OF wfg] sb qs(1,2) by (auto simp: free_def)
      have sx: "steady st0 st'" unfolding st'
        by (rule erase_steady [OF assms(2) steady_trans [OF assms(3) q] fr]) (use r x [OF tc] in simp_all)
      have "?x \<notin> fst ` set cs" using u(2) x [OF tc] by auto
      then have "unwinds exn st' p cs (substBB ?x r t)" unfolding st'
        by (intro unwinds_erase [OF unwinds_steady [OF u(1) q] qs(4) fr]) (use r qs(1) p tc in auto)
      then have "t < nextBB st0 \<Longrightarrow> unwinds exn st' p cs t" "t = ?x \<Longrightarrow> unwinds exn st' p cs r"
        using x [OF tc] by (auto simp: substBB_def split: if_splits)
      moreover have "sameScopes st st'" by (simp add: st' sameScopes_def eraseFromParent_def replaceAllUsesWith_def)
      moreover have "scopebb st' = s" by (simp add: st')
      moreover have "resumes st r \<longrightarrow> resumes st' r"
        using x [OF tc] by (auto simp: st' resumes_def unterminated_def eraseFromParent_def rauw_bbs)
      ultimately show ?thesis using sx k by auto
    qed
  qed
  then show "steady st0 st'" "sameScopes st st'" "scopebb st' = s" "t < nextBB st0 \<Longrightarrow> unwinds exn st' p cs t"
    "t = scopebb st \<Longrightarrow> unwinds exn st' p (cs @ rev (take k (pairs st0))) r" "resumes st r \<Longrightarrow> resumes st' r" by blast+
qed

lemma seek_set: "set (fst (seek exn S tcs k)) \<subseteq> set S"
proof (induction tcs arbitrary: k)
  case (Cons tc tcs)
  have "set (drop a (take k S)) \<subseteq> set S" for a using set_drop_subset set_take_subset by fastforce
  with Cons show ?case by (auto simp: Let_def split: option.split prod.split) (metis fst_conv subsetD)
qed simp

lemma seek_body:
  "seek exn S tcs k = (cs, Some b, n) \<Longrightarrow> \<exists>tc\<in>set tcs. \<exists>cb\<in>set (catchBlocks tc). bodyBB cb = b \<and> exn = Some (classInfoPtr cb)"
proof (induction tcs arbitrary: k cs)
  case (Cons tc tcs)
  show ?case
  proof (cases "find (\<lambda>cb. exn = Some (classInfoPtr cb)) (catchBlocks tc)")
    case None
    obtain cs1 where "seek exn S tcs (cleanupScope tc) = (cs1, Some b, n)"
      using Cons.prems None by (auto simp: Let_def split: prod.splits)
    with Cons.IH show ?thesis by auto
  next
    case (Some cb)
    then have "cb \<in> set (catchBlocks tc)" "exn = Some (classInfoPtr cb)" by (auto simp: find_Some_iff)
    moreover have "b = bodyBB cb" using Cons.prems Some by (simp add: Let_def)
    ultimately show ?thesis by auto
  qed
qed simp

lemma emitLandingPad_eq:
  assumes "emitLandingPad st = Some (pad, st')"
  obtains k st3 r st4 where
    "iterM (emitCatches (nextBB st)) (rev (tryCatchScopes st)) (currentCleanupScope st,
       (createLandingPadInst (nextBB st) (snd (insertBB st)))\<lparr>scopebb := nextBB st, ehPtrSlot := True, ehSelectorSlot := True\<rparr>) = Some (k, st3)"
    "getOrCreateResumeUnwindBlock st3 = Some (r, st4)" "pad = nextBB st"
    "tryCatchScopes st4 = tryCatchScopes st \<longrightarrow> finishPad pad (scopebb st) k r st4 = Some st'"
  using assms by (fastforce simp: emitLandingPad_def Let_def case_prod_unfold finishPad_def split: Option.bind_splits if_splits)

lemma emitLandingPad_finish:
  assumes "emitLandingPad st = Some (pad, st')"
  shows "\<exists>k st3 r st4. iterM (emitCatches (nextBB st)) (rev (tryCatchScopes st)) (currentCleanupScope st,
       (createLandingPadInst (nextBB st) (snd (insertBB st)))\<lparr>scopebb := nextBB st, ehPtrSlot := True, ehSelectorSlot := True\<rparr>) = Some (k, st3)
    \<and> getOrCreateResumeUnwindBlock st3 = Some (r, st4) \<and> pad = nextBB st \<and> finishPad pad (scopebb st) k r st4 = Some st'
    \<and> tryCatchScopes st4 = tryCatchScopes st"
  using assms
proof (rule emitLandingPad_eq)
  let ?st2 = "(createLandingPadInst (nextBB st) (snd (insertBB st)))\<lparr>scopebb := nextBB st, ehPtrSlot := True, ehSelectorSlot := True\<rparr>"
  fix k st3 r st4
  assume eqs: "iterM (emitCatches (nextBB st)) (rev (tryCatchScopes st)) (currentCleanupScope st, ?st2) = Some (k, st3)"
      "getOrCreateResumeUnwindBlock st3 = Some (r, st4)" "pad = nextBB st"
      "tryCatchScopes st4 = tryCatchScopes st \<longrightarrow> finishPad pad (scopebb st) k r st4 = Some st'"
  have "sameScopes ?st2 st3"
    using iterM_invariant [OF eqs(1), where I = "\<lambda>x. sameScopes ?st2 (snd x)"] emitCatches_shape sameScopes_trans by fastforce
  moreover have "tryCatchScopes ?st2 = tryCatchScopes st" by (simp add: createLandingPadInst_def insertBB_def)
  ultimately have "tryCatchScopes st4 = tryCatchScopes st" using eqs(2)
    by (auto simp: getOrCreateResumeUnwindBlock_def insertBB_def terminate_def sameScopes_def split: option.splits Option.bind_splits if_splits)
  then show ?thesis using eqs by blast
qed

lemma emitLandingPad_step:
  assumes "emitLandingPad st = Some (pad, st')" "wf st" "resumeOK st" "nextBB st' < 2 ^ 32" "\<forall>tc\<in>set (tryCatchScopes st). bodiesOK st tc"
  shows "steady st st'" "scopebb st' = scopebb st" "tryCatchScopes st' = tryCatchScopes st" "resumeOK st'" "pad = nextBB st"
    "landingPadsPerCleanupScope st' = landingPadsPerCleanupScope st" "TryCatchFinallyScopes.more st' = TryCatchFinallyScopes.more st"
    and "handlerOf exn (pairs st) (rev (tryCatchScopes st)) = (cs, h) \<Longrightarrow>
      \<exists>r. resumeUnwindBlock st' = Some r \<and> unwinds exn st' pad cs (case h of None \<Rightarrow> r | Some b \<Rightarrow> b)"
    and "resumeUnwindBlock st = Some r0 \<Longrightarrow> resumeUnwindBlock st' = Some r0"
proof -
  obtain k st3 r st4 where eqs: "iterM (emitCatches (nextBB st)) (rev (tryCatchScopes st)) (currentCleanupScope st,
       (createLandingPadInst (nextBB st) (snd (insertBB st)))\<lparr>scopebb := nextBB st, ehPtrSlot := True, ehSelectorSlot := True\<rparr>) = Some (k, st3)"
      "getOrCreateResumeUnwindBlock st3 = Some (r, st4)" "pad = nextBB st"
      and fin: "finishPad pad (scopebb st) k r st4 = Some st'" and tc4: "tryCatchScopes st4 = tryCatchScopes st"
    using emitLandingPad_finish [OF assms(1)] by blast
  let ?st2 = "(createLandingPadInst (nextBB st) (snd (insertBB st)))\<lparr>scopebb := nextBB st, ehPtrSlot := True, ehSelectorSlot := True\<rparr>"
    and ?tcs = "rev (tryCatchScopes st)"
  note start = padStart_step [OF assms(2)]
  note same2 = steady_same [OF start(1)]
  show "pad = nextBB st" by (fact eqs(3))
  have shape3: "sameScopes ?st2 st3"
    using iterM_invariant [OF eqs(1), where I = "\<lambda>x. sameScopes ?st2 (snd x)"] emitCatches_shape sameScopes_trans by fastforce
  have grow: "nextBB st3 \<le> nextBB st4" using eqs(2)
    by (auto simp: getOrCreateResumeUnwindBlock_def insertBB_def terminate_def split: option.splits Option.bind_splits if_splits)
  have nb4: "nextBB st4 < 2 ^ 32" using finishPad_nextBB [OF fin] assms(4) by simp
  have nb3: "nextBB st3 < 2 ^ 32" using nb4 grow by simp
  have len: "currentCleanupScope st \<le> length (cleanupScopes ?st2)" using same2(5) by (simp add: currentCleanupScope_def)
  have bodies: "\<forall>tc\<in>set ?tcs. bodiesOK ?st2 tc" using assms(5) bodiesOK_steady [OF _ start(1)] by simp
  have p2: "pairs ?st2 = pairs st" using start(1) by (simp add: steady_def)
  have all: "steady ?st2 st3" "k \<le> currentCleanupScope st" "h = None \<longrightarrow> n = k"
      "?tcs \<noteq> [] \<longrightarrow> unterminated (bbs st3) (scopebb st3) \<and> Suc (nextBB st) \<le> scopebb st3 \<and> (\<forall>c\<in>set (cleanupScopes st3). scopebb st3 \<notin> targets c)"
      "unwinds exn st3 (nextBB st) cs (case h of None \<Rightarrow> scopebb st3 | Some b \<Rightarrow> b)"
    if "seek exn (pairs st) ?tcs (currentCleanupScope st) = (cs, h, n)" for cs h n
    using emitAllCatches_step [OF eqs(1) same2(4) len nb3 bodies that [folded p2]] start(2,3) by auto
  obtain cs0 h0 n0 where sk: "seek exn (pairs st) ?tcs (currentCleanupScope st) = (cs0, h0, n0)" by (metis prod_cases3)
  note all0 = all [OF sk]
  have s3: "steady st st3" by (rule steady_trans [OF start(1) all0(1)])
  have ok3: "resumeOK st3"
    using assms(3) evolves_resumes [OF _ assms(2)] s3 start(4) shape3 unfolding resumeOK_def steady_def sameScopes_def by metis
  note res = getOrCreateResumeUnwindBlock_step [OF eqs(2) steady_same(4) [OF s3] ok3]
  have s34: "steady st3 st4" by (rule quiet_steady [OF res(1) steady_same(4) [OF s3]])
  have s4: "steady st st4" by (rule steady_trans [OF s3 s34])
  have r4: "r < nextBB st4" "r \<notin> tents st4" using resumes_block [OF steady_same(4) [OF s4] res(2)] by auto
  have x: "unterminated (bbs st4) (scopebb st4) \<and> nextBB st \<le> scopebb st4 \<and> (\<forall>c\<in>set (cleanupScopes st4). scopebb st4 \<notin> targets c)"
      "pad \<noteq> scopebb st4" if "tryCatchScopes st4 \<noteq> []"
    using that all0(4) tc4 res(4,7) res(1) eqs(3) by (auto simp: quiet_def)
  have cs: "fst ` set cs0 \<subseteq> {..<nextBB st}"
  proof -
    have "fst ` set (pairs st) \<subseteq> {..<nextBB st}"
      using wfg_private(3) [OF wf_wfg [OF assms(2)]] by (auto simp: pairs_def scopePair_def)
    then show ?thesis using seek_set [of exn "pairs st" ?tcs "currentCleanupScope st"] sk by auto
  qed
  have u4: "unwinds exn st4 pad cs0 (case h0 of None \<Rightarrow> scopebb st4 | Some b \<Rightarrow> b)"
    using unwinds_steady [OF all0(5) s34] eqs(3) res(4) by (cases h0) simp_all
  have k: "k \<le> length (cleanupScopes st)" using all0(2) by (simp add: currentCleanupScope_def)
  have px: "pad \<noteq> scopebb st4 \<or> tryCatchScopes st4 = []" using x(2) by blast
  note fp = finishPad_step [OF fin assms(2) s4 k assms(4) r4 refl x(1) px u4 cs]
  have fp': "steady st st'" "sameScopes st4 st'" "scopebb st' = scopebb st" using fp(1-3) by auto
  show "steady st st'" "scopebb st' = scopebb st" by (fact fp')+
  show "tryCatchScopes st' = tryCatchScopes st" using fp'(2) tc4 by (simp add: sameScopes_def)
  show "landingPadsPerCleanupScope st' = landingPadsPerCleanupScope st" "TryCatchFinallyScopes.more st' = TryCatchFinallyScopes.more st"
    using fp'(2) res(5,6) shape3 start(4) by (simp_all add: sameScopes_def)
  have r': "resumeUnwindBlock st' = Some r" using fp'(2) res(3) by (simp add: sameScopes_def)
  have "resumeUnwindBlock st3 = resumeUnwindBlock st" using shape3 start(4) by (simp add: sameScopes_def)
  then show "resumeUnwindBlock st' = Some r0" if "resumeUnwindBlock st = Some r0"
    using eqs(2) r' that by (simp add: getOrCreateResumeUnwindBlock_def)
  show "resumeOK st'" using r' fp(6) res(2) by (auto simp: resumeOK_def)
  show "\<exists>r. resumeUnwindBlock st' = Some r \<and> unwinds exn st' pad cs (case h of None \<Rightarrow> r | Some b \<Rightarrow> b)"
    if hd: "handlerOf exn (pairs st) ?tcs = (cs, h)"
  proof (cases h0)
    case None
    then have "cs = cs0 @ rev (take k (pairs st))" "h = None" using hd sk all0(3) by (auto simp: handlerOf_def currentCleanupScope_def)
    then show ?thesis using fp(5) None r' by simp
  next
    case (Some b)
    then have h: "cs = cs0" "h = Some b" using hd sk by (auto simp: handlerOf_def currentCleanupScope_def)
    obtain tc cb where "tc \<in> set ?tcs" "cb \<in> set (catchBlocks tc)" "bodyBB cb = b" using seek_body sk Some by metis
    then have "b < nextBB st" using assms(5) by (auto simp: bodiesOK_def)
    then show ?thesis using fp(4) Some r' h by simp
  qed
qed

end
