(* ===== verification/PadCache.thy ===== *)
theory PadCache
  imports LandingPads
begin

text \<open>
  The landing pads that \<open>getLandingPad\<close> caches per scope stay valid for as long as they can be
  handed out.
\<close>

text \<open>
  An exception that arrives at \<open>pad\<close> runs the cleanups and enters the catch body that it should in
  the scopes \<open>S\<close> and \<open>tcs\<close> (the innermost ones last); if nothing catches it, unwinding resumes.
\<close>

definition validPad :: "'a TryCatchFinallyScopes_scheme \<Rightarrow> (BB \<times> BB) list \<Rightarrow> TryCatchScope list \<Rightarrow> BB \<Rightarrow> bool" where
  "validPad st S tcs pad \<longleftrightarrow> (\<exists>r. resumeUnwindBlock st = Some r \<and> (\<forall>exn cs h. handlerOf exn S (rev tcs) = (cs, h) \<longrightarrow>
     unwinds exn st pad cs (case h of None \<Rightarrow> r | Some b \<Rightarrow> b)))"

definition upTo :: "nat \<Rightarrow> TryCatchScope list \<Rightarrow> nat" where
  "upTo i tcs = length (filter (\<lambda>tc. cleanupScope tc \<le> i) tcs)"

definition level :: "nat \<Rightarrow> TryCatchScope list \<Rightarrow> nat" where
  "level i tcs = length (filter (\<lambda>tc. cleanupScope tc = i) tcs)"

text \<open>
  The pads of one scope, the last one first: there is one for each try-catch statement in the
  scope, and possibly one for the time before the first of them.
\<close>

definition cached :: "'a TryCatchFinallyScopes_scheme \<Rightarrow> nat \<Rightarrow> bool" where
  "cached st i \<longleftrightarrow>
     (let pads = rev (landingPadsPerCleanupScope st ! i); tcs = tryCatchScopes st
      in level i tcs \<le> length pads \<and> length pads \<le> Suc (level i tcs) \<and>
         (\<forall>t pad. t < length pads \<longrightarrow> pads ! t = Some pad \<longrightarrow> validPad st (take i (pairs st)) (take (upTo i tcs - t) tcs) pad))"

definition padsOK :: "'a TryCatchFinallyScopes_scheme \<Rightarrow> bool" where
  "padsOK st \<longleftrightarrow> resumeOK st \<and> sorted (map cleanupScope (tryCatchScopes st))
     \<and> (\<forall>tc\<in>set (tryCatchScopes st). cleanupScope tc \<le> length (cleanupScopes st) \<and> bodiesOK st tc)
     \<and> (\<forall>i \<le> length (cleanupScopes st). cached st i)"

lemma cachedD:
  assumes "cached st i" "t < length (landingPadsPerCleanupScope st ! i)" "rev (landingPadsPerCleanupScope st ! i) ! t = Some pad"
  shows "validPad st (take i (pairs st)) (take (upTo i (tryCatchScopes st) - t) (tryCatchScopes st)) pad"
  using assms by (simp add: cached_def Let_def)

lemma evolves_validPad:
  assumes "evolves st st'" "validPad st S tcs pad" "\<And>r. resumeUnwindBlock st = Some r \<Longrightarrow> resumeUnwindBlock st' = Some r"
  shows "validPad st' S tcs pad"
  using assms unfolding validPad_def evolves_def by (metis unwinds_keeps)

lemma evolves_bodiesOK: "evolves st st' \<Longrightarrow> bodiesOK st tc \<Longrightarrow> bodiesOK st' tc"
  by (fastforce simp: bodiesOK_def evolves_def)

lemma padsOK_step:
  assumes "evolves st st'" "wf st" "padsOK st" "resumeUnwindBlock st' = resumeUnwindBlock st" "tryCatchScopes st' = tryCatchScopes st"
    and "\<forall>tc\<in>set (tryCatchScopes st). cleanupScope tc \<le> length (cleanupScopes st')"
    and "\<And>i. i \<le> length (cleanupScopes st') \<Longrightarrow>
       i \<le> length (cleanupScopes st) \<and> landingPadsPerCleanupScope st' ! i = landingPadsPerCleanupScope st ! i \<and> take i (pairs st') = take i (pairs st)
     \<or> length (cleanupScopes st) < i \<and> landingPadsPerCleanupScope st' ! i = []"
  shows "padsOK st'"
proof -
  have "cached st' i" if "i \<le> length (cleanupScopes st')" for i
    using assms(7) [OF that]
  proof
    assume "i \<le> length (cleanupScopes st) \<and> landingPadsPerCleanupScope st' ! i = landingPadsPerCleanupScope st ! i \<and> take i (pairs st') = take i (pairs st)"
    moreover from this have "cached st i" using assms(3) by (simp add: padsOK_def)
    ultimately show ?thesis using evolves_validPad [OF assms(1)] by (auto simp: cached_def Let_def assms(4,5))
  next
    assume i: "length (cleanupScopes st) < i \<and> landingPadsPerCleanupScope st' ! i = []"
    then have "\<forall>tc\<in>set (tryCatchScopes st). cleanupScope tc \<noteq> i" using assms(3) unfolding padsOK_def by fastforce
    then show ?thesis using i by (auto simp: cached_def level_def assms(5))
  qed
  moreover have "resumeOK st'"
    using assms(3,4) evolves_resumes [OF assms(1,2)] by (simp add: padsOK_def resumeOK_def)
  ultimately show ?thesis using assms(3,5,6) evolves_bodiesOK [OF assms(1)] by (simp add: padsOK_def)
qed

lemma upTo_all: "\<forall>tc\<in>set tcs. cleanupScope tc \<le> i \<Longrightarrow> upTo i tcs = length tcs"
  by (simp add: upTo_def)

lemma upTo_append [simp]: "upTo i (xs @ ys) = upTo i xs + upTo i ys" "level i (xs @ ys) = level i xs + level i ys"
  by (simp_all add: upTo_def level_def)

lemma upTo_single [simp]: "upTo i [tc] = (if cleanupScope tc \<le> i then 1 else 0)" "level i [tc] = (if cleanupScope tc = i then 1 else 0)"
  by (simp_all add: upTo_def level_def)

lemma upTo_le: "upTo i tcs \<le> length tcs"
  by (simp add: upTo_def)

lemma level_le: "level i tcs \<le> upTo i tcs"
  unfolding level_def upTo_def by (induction tcs) auto

text \<open>\<open>pushTryCatch\<close> and \<open>popTryCatch\<close>.\<close>

lemma rev_nth_append: "rev (xs @ [x]) ! t = (if t = 0 then x else rev xs ! (t - 1))"
  by (cases t) simp_all

lemma quiet_pushTryCatch: "wfg st G \<Longrightarrow> quiet st (pushTryCatch blocks nx st)"
  using quiet_refl [of st G] by (simp add: quiet_def pushTryCatch_def Let_def)

lemma wf_pads: "wf st \<Longrightarrow> length (landingPadsPerCleanupScope st) = Suc (length (cleanupScopes st))"
  by (simp add: wf_def wfg_def base_def)

lemma padsOK_pushTryCatch:
  assumes "padsOK st" "wf st" "\<forall>cb\<in>set blocks. bodyBB cb < nextBB st \<and> bodyBB cb \<notin> tents st"
  shows "padsOK (pushTryCatch blocks nx st)"
proof -
  let ?st = "pushTryCatch blocks nx st" and ?n = "length (cleanupScopes st)" and ?tcs = "tryCatchScopes st"
  let ?tc = "\<lparr>cleanupScope = ?n, catchesNonExceptions = nx, catchBlocks = blocks\<rparr>"
  have f: "tryCatchScopes ?st = ?tcs @ [?tc]" "cleanupScopes ?st = cleanupScopes st" "pairs ?st = pairs st" "nextBB ?st = nextBB st"
      "tents ?st = tents st" "resumeUnwindBlock ?st = resumeUnwindBlock st" "bbs ?st = bbs st"
      "landingPadsPerCleanupScope ?st = (landingPadsPerCleanupScope st)[?n := landingPadsPerCleanupScope st ! ?n @ [None]]"
    by (simp_all add: pushTryCatch_def Let_def currentCleanupScope_def pairs_def tents_def gotos_def)
  have ev: "evolves st ?st" by (rule quiet_evolves [OF quiet_pushTryCatch [OF wf_wfg [OF assms(2)]] assms(2)])
  have tcs: "\<forall>tc\<in>set ?tcs. cleanupScope tc \<le> ?n" using assms(1) by (simp add: padsOK_def)
  have valid: "validPad ?st S tcs pad" if "validPad st S tcs pad" for S tcs pad by (rule evolves_validPad [OF ev that]) (simp add: f)
  have "cached ?st i" if i: "i \<le> ?n" for i
  proof -
    have c: "cached st i" using assms(1) i by (simp add: padsOK_def)
    show ?thesis
    proof (cases "i = ?n")
      case True
      have n: "upTo ?n ?tcs = length ?tcs" by (rule upTo_all [OF tcs])
      have "validPad ?st (take i (pairs st)) (take (upTo i (?tcs @ [?tc]) - t) (?tcs @ [?tc])) pad"
        if t: "t < Suc (length (landingPadsPerCleanupScope st ! i))" "rev (landingPadsPerCleanupScope st ! i @ [None]) ! t = Some pad" for t pad
      proof -
        obtain t' where t': "t = Suc t'" using t(2) by (cases t) simp_all
        then have "validPad st (take i (pairs st)) (take (upTo i ?tcs - t') ?tcs) pad" using c t by (simp add: cached_def Let_def)
        then show ?thesis using valid True n t' by simp
      qed
      then show ?thesis using c True wf_pads [OF assms(2)] by (simp add: cached_def Let_def f)
    next
      case False
      then show ?thesis using c i valid upTo_le [of i ?tcs] by (auto simp: cached_def Let_def f)
    qed
  qed
  moreover have "sorted (map cleanupScope (?tcs @ [?tc]))" using assms(1) tcs by (simp add: padsOK_def sorted_append)
  moreover have "resumeOK ?st" using assms(1) by (simp add: padsOK_def resumeOK_def resumes_def f)
  ultimately show ?thesis using assms(1,3) unfolding padsOK_def bodiesOK_def f by auto
qed

lemma padsOK_popTryCatch:
  assumes "popTryCatch st = Some st'" "padsOK st" "wf st" "cleanupScope (last (tryCatchScopes st)) = length (cleanupScopes st)"
  shows "padsOK st'" "quiet st st'"
proof -
  let ?n = "length (cleanupScopes st)"
  obtain tcs tc where tcs: "tryCatchScopes st = tcs @ [tc]" "cleanupScope tc = ?n"
  proof -
    have "tryCatchScopes st \<noteq> []" using assms(1) by (auto simp: popTryCatch_def Let_def)
    then show thesis using that [of "butlast (tryCatchScopes st)" "last (tryCatchScopes st)"] assms(4) by simp
  qed
  have st': "st' = st\<lparr>tryCatchScopes := tcs, landingPadsPerCleanupScope :=
      (landingPadsPerCleanupScope st)[?n := butlast (landingPadsPerCleanupScope st ! ?n)]\<rparr>" "landingPadsPerCleanupScope st ! ?n \<noteq> []"
    using assms(1) by (auto simp: popTryCatch_def Let_def currentCleanupScope_def tcs split: if_splits)
  show q: "quiet st st'" using quiet_refl [OF wf_wfg [OF assms(3)]] by (simp add: quiet_def st'(1))
  have ev: "evolves st st'" by (rule quiet_evolves [OF q assms(3)])
  have p: "pairs st' = pairs st" by (simp add: st'(1) pairs_def)
  have le: "\<forall>tc\<in>set tcs. cleanupScope tc \<le> ?n" using assms(2) by (simp add: padsOK_def tcs)
  have valid: "validPad st' S tcs pad" if "validPad st S tcs pad" for S tcs pad
    by (rule evolves_validPad [OF ev that]) (simp add: st'(1))
  have "cached st' i" if i: "i \<le> ?n" for i
  proof -
    have c: "cached st i" using assms(2) i by (simp add: padsOK_def)
    show ?thesis
    proof (cases "i = ?n")
      case True
      obtain xs x where xs: "landingPadsPerCleanupScope st ! ?n = xs @ [x]" using st'(2) by (metis append_butlast_last_id)
      have n: "upTo ?n tcs = length tcs" by (rule upTo_all [OF le])
      have "validPad st' (take ?n (pairs st)) (take (upTo ?n tcs - t) tcs) pad" if t: "t < length xs" "rev xs ! t = Some pad" for t pad
      proof -
        have "validPad st (take ?n (pairs st)) (take (upTo ?n (tcs @ [tc]) - Suc t) (tcs @ [tc])) pad"
          using cachedD [OF c, of "Suc t" pad] t xs unfolding True tcs(1) by simp
        then show ?thesis using valid n tcs(2) by simp
      qed
      then show ?thesis using c wf_pads [OF assms(3)] xs tcs(2) unfolding True by (simp add: cached_def Let_def p tcs(1)) (simp add: st'(1))
    next
      case False
      have "take (upTo i tcs - t) (tcs @ [tc]) = take (upTo i tcs - t) tcs" for t using upTo_le [of i tcs] by simp
      then show ?thesis using c i False valid tcs(2) by (auto simp: cached_def Let_def p tcs(1)) (auto simp: st'(1))
    qed
  qed
  moreover have "sorted (map cleanupScope tcs)" using assms(2) by (simp add: padsOK_def tcs sorted_append)
  moreover have "resumeOK st'" using assms(2) by (simp add: padsOK_def resumeOK_def resumes_def st'(1))
  moreover have "bodiesOK st' tc'" if "tc' \<in> set tcs" for tc' using that assms(2) evolves_bodiesOK [OF ev] by (simp add: padsOK_def tcs)
  ultimately show "padsOK st'" using le unfolding padsOK_def by (simp add: st'(1))
qed

section \<open>Handing out a landing pad\<close>

lemma upTo_top: "padsOK st \<Longrightarrow> take (upTo (length (cleanupScopes st)) (tryCatchScopes st)) (tryCatchScopes st) = tryCatchScopes st"
  using upTo_all [of "tryCatchScopes st" "length (cleanupScopes st)"] by (simp add: padsOK_def)

lemma padsOK_getLandingPadRef:
  assumes "padsOK st" "wf st"
  defines "st' \<equiv> getLandingPadRef (length (cleanupScopes st)) st"
  shows "padsOK st'" "quiet st st'" "landingPadsPerCleanupScope st' ! length (cleanupScopes st) \<noteq> []"
    "sameScopes st (st'\<lparr>landingPadsPerCleanupScope := landingPadsPerCleanupScope st\<rparr>)" "scopebb st' = scopebb st" "nextBB st' = nextBB st"
proof -
  let ?n = "length (cleanupScopes st)"
  show q: "quiet st st'" using quiet_refl [OF wf_wfg [OF assms(2)]] by (simp add: st'_def getLandingPadRef_def quiet_def)
  show "landingPadsPerCleanupScope st' ! ?n \<noteq> []" using wf_pads [OF assms(2)] by (simp add: st'_def getLandingPadRef_def)
  have f: "tryCatchScopes st' = tryCatchScopes st" "cleanupScopes st' = cleanupScopes st" "pairs st' = pairs st"
      "resumeUnwindBlock st' = resumeUnwindBlock st" "bbs st' = bbs st"
    by (simp_all add: st'_def getLandingPadRef_def pairs_def)
  show "sameScopes st (st'\<lparr>landingPadsPerCleanupScope := landingPadsPerCleanupScope st\<rparr>)" "scopebb st' = scopebb st" "nextBB st' = nextBB st"
    by (simp_all add: st'_def getLandingPadRef_def sameScopes_def)
  have ev: "evolves st st'" by (rule quiet_evolves [OF q assms(2)])
  have "cached st' i" if i: "i \<le> ?n" for i
  proof -
    have c: "cached st i" using assms(1) i by (simp add: padsOK_def)
    show ?thesis
    proof (cases "landingPadsPerCleanupScope st' ! i = landingPadsPerCleanupScope st ! i")
      case True
      then show ?thesis using c evolves_validPad [OF ev] by (auto simp: cached_def Let_def f)
    next
      case False
      then have "landingPadsPerCleanupScope st ! i = []" "landingPadsPerCleanupScope st' ! i = [None]"
        using i wf_pads [OF assms(2)] by (auto simp: st'_def getLandingPadRef_def nth_list_update split: if_splits)
      then show ?thesis using c by (auto simp: cached_def Let_def f)
    qed
  qed
  then show "padsOK st'" using assms(1) evolves_bodiesOK [OF ev] unfolding padsOK_def resumeOK_def resumes_def f by simp
qed

lemma getLandingPad_step:
  assumes "getLandingPad st = Some (pad, st')" "wf st" "padsOK st" "nextBB st' < 2 ^ 32"
  shows "steady st st'" "padsOK st'" "scopebb st' = scopebb st" "tryCatchScopes st' = tryCatchScopes st"
    "TryCatchFinallyScopes.more st' = TryCatchFinallyScopes.more st" "validPad st' (pairs st') (tryCatchScopes st') pad"
proof -
  let ?n = "length (cleanupScopes st)"
  define st1 where "st1 = getLandingPadRef ?n st"
  note ref = padsOK_getLandingPadRef [OF assms(3,2), folded st1_def]
  have n1: "length (cleanupScopes st1) = ?n" "tryCatchScopes st1 = tryCatchScopes st" "TryCatchFinallyScopes.more st1 = TryCatchFinallyScopes.more st"
    using ref(4) by (simp_all add: sameScopes_def)
  have wf1: "wf st1" by (rule quiet_wf [OF ref(2) assms(2)])
  have s1: "steady st st1" by (rule quiet_steady [OF ref(2) assms(2)])
  have p1: "pairs st1 = pairs st" by (rule quiet_pairs [OF ref(2)])
  have "steady st st' \<and> padsOK st' \<and> scopebb st' = scopebb st \<and> tryCatchScopes st' = tryCatchScopes st \<and>
      TryCatchFinallyScopes.more st' = TryCatchFinallyScopes.more st \<and> validPad st' (pairs st') (tryCatchScopes st') pad"
  proof (cases "last (landingPadsPerCleanupScope st1 ! ?n)")
    case (Some p)
    then have st': "st' = st1" "pad = p" using assms(1) by (simp_all add: getLandingPad_def Let_def currentCleanupScope_def st1_def)
    have "cached st1 ?n" using ref(1) n1(1) by (simp add: padsOK_def)
    moreover have "rev (landingPadsPerCleanupScope st1 ! ?n) ! 0 = Some p" using Some ref(3) by (simp add: rev_nth last_conv_nth)
    ultimately have "validPad st1 (take ?n (pairs st1)) (take (upTo ?n (tryCatchScopes st1)) (tryCatchScopes st1)) p"
      using ref(3) unfolding cached_def Let_def by (metis diff_zero length_greater_0_conv rev_is_Nil_conv)
    then have "validPad st1 (pairs st1) (tryCatchScopes st1) p" using upTo_top [OF ref(1)] n1(1) p1 by simp
    then show ?thesis using st' s1 ref n1 by simp
  next
    case None
    then obtain st2 where st2: "emitLandingPad st1 = Some (pad, st2)"
        "st' = st2\<lparr>landingPadsPerCleanupScope := (landingPadsPerCleanupScope st2)[?n := butlast (landingPadsPerCleanupScope st2 ! ?n) @ [Some pad]]\<rparr>"
      using assms(1) by (auto simp: getLandingPad_def Let_def currentCleanupScope_def st1_def [symmetric] split: Option.bind_splits)
    have nb: "nextBB st2 < 2 ^ 32" using assms(4) st2(2) by simp
    have ok: "resumeOK st1" "\<forall>tc\<in>set (tryCatchScopes st1). bodiesOK st1 tc" using ref(1) by (simp_all add: padsOK_def)
    note emit = emitLandingPad_step [OF st2(1) wf1 ok(1) nb ok(2)]
    have s2: "steady st1 st2" by (rule emit(1))
    have q: "quiet st2 st'" using quiet_refl [OF wf_wfg [OF steady_same(4) [OF s2]]] by (simp add: quiet_def st2(2))
    have s': "steady st2 st'" by (rule quiet_steady [OF q steady_same(4) [OF s2]])
    have st: "steady st st'" by (rule steady_trans [OF steady_trans [OF s1 s2] s'])
    have f: "resumeUnwindBlock st' = resumeUnwindBlock st2" "tryCatchScopes st' = tryCatchScopes st" "pairs st' = pairs st"
        "length (cleanupScopes st') = ?n" "scopebb st' = scopebb st" "TryCatchFinallyScopes.more st' = TryCatchFinallyScopes.more st"
      using emit(2,3,7) n1 ref(5) st steady_same(5) [OF st] by (simp_all add: st2(2) steady_def)
    have v: "validPad st' (pairs st) (tryCatchScopes st) pad"
    proof -
      obtain r where r: "resumeUnwindBlock st2 = Some r" using emit(8) [OF surjective_pairing] by blast
      have "unwinds exn st' pad cs (case h of None \<Rightarrow> r | Some b \<Rightarrow> b)" if "handlerOf exn (pairs st) (rev (tryCatchScopes st)) = (cs, h)" for exn cs h
        using emit(8) [of exn cs h] that r unwinds_steady [OF _ s'] by (auto simp: p1 n1(2))
      then show ?thesis using r by (auto simp: validPad_def f(1))
    qed
    have ev: "evolves st1 st'" using steady_trans [OF s2 s'] by (simp add: steady_def)
    have keep: "validPad st' S tcs p" if "validPad st1 S tcs p" for S tcs p
      by (rule evolves_validPad [OF ev that]) (use emit(9) f(1) in simp)
    have "cached st' i" if i: "i \<le> ?n" for i
    proof (cases "i = ?n")
      case True
      have c: "cached st1 ?n" using ref(1) n1(1) by (simp add: padsOK_def)
      obtain xs where xs: "landingPadsPerCleanupScope st1 ! ?n = xs @ [None]" using ref(3) None by (metis append_butlast_last_id)
      have pads: "landingPadsPerCleanupScope st' ! ?n = xs @ [Some pad]"
        using xs wf_pads [OF wf1] n1(1) by (simp add: st2(2) emit(6))
      have "validPad st' (pairs st) (take (upTo ?n (tryCatchScopes st) - t) (tryCatchScopes st)) p"
        if t: "t < Suc (length xs)" "rev (xs @ [Some pad]) ! t = Some p" for t p
      proof (cases t)
        case 0
        then show ?thesis using v t(2) upTo_top [OF ref(1)] n1 by simp
      next
        case (Suc u)
        then have "validPad st1 (take ?n (pairs st1)) (take (upTo ?n (tryCatchScopes st1) - t) (tryCatchScopes st1)) p"
          using cachedD [OF c, of t p] t xs by simp
        then show ?thesis using keep p1 n1 by simp
      qed
      then show ?thesis using c xs pads f n1 unfolding True by (simp add: cached_def Let_def)
    next
      case False
      then have c: "cached st1 i" "landingPadsPerCleanupScope st' ! i = landingPadsPerCleanupScope st1 ! i"
        using ref(1) i n1(1) by (simp_all add: padsOK_def st2(2) emit(6))
      then show ?thesis using keep f(2,3) p1 n1(2) by (auto simp: cached_def Let_def)
    qed
    then have "padsOK st'" using ref(1) f(2,4) n1 emit(4) evolves_bodiesOK [OF ev] by (auto simp: padsOK_def resumeOK_def resumes_def st2(2))
    then show ?thesis using st f v by simp
  qed
  then show "steady st st'" "padsOK st'" "scopebb st' = scopebb st" "tryCatchScopes st' = tryCatchScopes st"
    "TryCatchFinallyScopes.more st' = TryCatchFinallyScopes.more st" "validPad st' (pairs st') (tryCatchScopes st') pad" by blast+
qed

end
