(* ===== verification/FuncGenState.thy ===== *)
theory FuncGenState
  imports TryCatchFinally
begin

text \<open>
  The state kept while the body of a function is emitted (gen/funcgenstate.h and .cpp): the
  targets of \<open>goto\<close>, \<open>break\<close> and \<open>continue\<close> (\<open>JumpTargets\<close>), the blocks of switch cases
  (\<open>SwitchCaseTargets\<close>) and the emission of calls (\<open>callOrInvoke\<close>).
\<close>

section \<open>Jump targets\<close>

record JumpTarget =
  targetBlock :: BB
  targetScope :: nat
  targetStatement :: ptr

record FuncGenState = TryCatchFinallyScopes +
  labelTargets :: "Identifier \<rightharpoonup> JumpTarget"
  breakTargets :: "JumpTarget list"
  continueTargets :: "JumpTarget list"
  targetBBs :: "ptr \<rightharpoonup> BB"

definition initialFuncGenState :: "IRState \<Rightarrow> FuncGenState" where
  "initialFuncGenState irs = TryCatchFinallyScopes.extend (initialScopes irs)
     \<lparr>labelTargets = Map.empty, breakTargets = [], continueTargets = [], targetBBs = Map.empty\<rparr>"

text \<open>A target in the current scope.\<close>

definition newJumpTarget :: "BB \<Rightarrow> ptr \<Rightarrow> 'a FuncGenState_scheme \<Rightarrow> JumpTarget" where
  "newJumpTarget block statement st =
     \<lparr>targetBlock = block, targetScope = currentCleanupScope st, targetStatement = statement\<rparr>"

definition pushLoopTarget :: "ptr \<Rightarrow> BB \<Rightarrow> BB \<Rightarrow> 'a FuncGenState_scheme \<Rightarrow> 'a FuncGenState_scheme" where
  "pushLoopTarget loopStatement continueTarget breakTarget st =
     st\<lparr>continueTargets := continueTargets st @ [newJumpTarget continueTarget loopStatement st],
        breakTargets := breakTargets st @ [newJumpTarget breakTarget loopStatement st]\<rparr>"

definition popLoopTarget :: "'a FuncGenState_scheme \<Rightarrow> 'a FuncGenState_scheme option" where
  "popLoopTarget st = do {
     ensure (continueTargets st \<noteq> [] \<and> breakTargets st \<noteq> []);
     Some (st\<lparr>continueTargets := butlast (continueTargets st), breakTargets := butlast (breakTargets st)\<rparr>) }"

definition pushBreakTarget :: "ptr \<Rightarrow> BB \<Rightarrow> 'a FuncGenState_scheme \<Rightarrow> 'a FuncGenState_scheme" where
  "pushBreakTarget switchStatement block st =
     st\<lparr>breakTargets := breakTargets st @ [newJumpTarget block switchStatement st]\<rparr>"

definition popBreakTarget :: "'a FuncGenState_scheme \<Rightarrow> 'a FuncGenState_scheme option" where
  "popBreakTarget st = do {
     ensure (breakTargets st \<noteq> []);
     Some (st\<lparr>breakTargets := butlast (breakTargets st)\<rparr>) }"

definition addLabelTarget :: "Identifier \<Rightarrow> BB \<Rightarrow> 'a FuncGenState_scheme \<Rightarrow> 'a FuncGenState_scheme" where
  "addLabelTarget labelName block st =
     tryResolveGotos labelName block (st\<lparr>labelTargets := (labelTargets st)(labelName \<mapsto> newJumpTarget block nullptr st)\<rparr>)"

definition jumpTo :: "JumpTarget \<Rightarrow> 'a FuncGenState_scheme \<Rightarrow> 'a FuncGenState_scheme option" where
  "jumpTo t st = runCleanups (targetScope t) (targetBlock t) st"

definition jumpToLabel :: "nat \<Rightarrow> Identifier \<Rightarrow> 'a FuncGenState_scheme \<Rightarrow> 'a FuncGenState_scheme option" where
  "jumpToLabel loc labelName st =
     (case labelTargets st labelName of
        Some t \<Rightarrow> jumpTo t st
      | None \<Rightarrow> registerUnresolvedGoto loc labelName st)"

text \<open>Both overloads take the list of break or of continue targets.\<close>

definition jumpToStatement :: "JumpTarget list \<Rightarrow> ptr \<Rightarrow> 'a FuncGenState_scheme \<Rightarrow> 'a FuncGenState_scheme option" where
  "jumpToStatement targets loopOrSwitchStatement st = do {
     t \<leftarrow> find (\<lambda>t. targetStatement t = loopOrSwitchStatement) (rev targets);
     jumpTo t st }"

definition jumpToClosest :: "JumpTarget list \<Rightarrow> 'a FuncGenState_scheme \<Rightarrow> 'a FuncGenState_scheme option" where
  "jumpToClosest targets st = do {
     ensure (targets \<noteq> []);
     jumpTo (last targets) st }"

definition continueWithLoop :: "ptr \<Rightarrow> 'a FuncGenState_scheme \<Rightarrow> 'a FuncGenState_scheme option" where
  "continueWithLoop loopStatement st = jumpToStatement (continueTargets st) loopStatement st"

definition continueWithClosest :: "'a FuncGenState_scheme \<Rightarrow> 'a FuncGenState_scheme option" where
  "continueWithClosest st = jumpToClosest (continueTargets st) st"

definition breakToStatement :: "ptr \<Rightarrow> 'a FuncGenState_scheme \<Rightarrow> 'a FuncGenState_scheme option" where
  "breakToStatement loopOrSwitchStatement st = jumpToStatement (breakTargets st) loopOrSwitchStatement st"

definition breakToClosest :: "'a FuncGenState_scheme \<Rightarrow> 'a FuncGenState_scheme option" where
  "breakToClosest st = jumpToClosest (breakTargets st) st"

section \<open>Switch cases\<close>

definition getCaseTarget :: "ptr \<Rightarrow> 'a FuncGenState_scheme \<Rightarrow> BB option" where
  "getCaseTarget stmt st = targetBBs st stmt"

definition getOrCreateCaseTarget :: "ptr \<Rightarrow> 'a FuncGenState_scheme \<Rightarrow> BB \<times> 'a FuncGenState_scheme" where
  "getOrCreateCaseTarget stmt st =
     (case targetBBs st stmt of
        Some b \<Rightarrow> (b, st)
      | None \<Rightarrow> (let (b, st1) = insertBB st in (b, st1\<lparr>targetBBs := (targetBBs st1)(stmt \<mapsto> b)\<rparr>)))"

section \<open>Calls\<close>

text \<open>What the code asks of a callee that is a function of the module.\<close>

record CalleeFn =
  isIntrinsic :: bool
  calleeDoesNotThrow :: bool

datatype CallBase = CallInst | InvokedWith BB

text \<open>
  \<open>callOrInvoke\<close>; \<open>useExceptions\<close> is the global parameter. An \<open>invoke\<close> ends the block, and the code
  that follows goes to a new one.
\<close>

definition doesNotThrow :: "bool \<Rightarrow> CalleeFn option \<Rightarrow> bool \<Rightarrow> 'a TryCatchFinallyScopes_scheme \<Rightarrow> bool" where
  "doesNotThrow useExceptions calleeFn isNothrow st =
     ((isNothrow \<and> \<not> isCatchingNonExceptions st) \<or> \<not> useExceptions \<or>
      (case calleeFn of None \<Rightarrow> False | Some f \<Rightarrow> isIntrinsic f \<or> calleeDoesNotThrow f))"

definition callOrInvoke :: "bool \<Rightarrow> CalleeFn option \<Rightarrow> bool \<Rightarrow> 'a TryCatchFinallyScopes_scheme \<Rightarrow> (CallBase \<times> 'a TryCatchFinallyScopes_scheme) option" where
  "callOrInvoke useExceptions calleeFn isNothrow st =
     (if doesNotThrow useExceptions calleeFn isNothrow st \<or> scopes_empty st then Some (CallInst, st)
      else do {
        (landingPad, st1) \<leftarrow> getLandingPad st;
        let (postinvoke, st2) = insertBB st1;
        st3 \<leftarrow> terminate (scopebb st2) (InvokeInst postinvoke landingPad) st2;
        Some (InvokedWith landingPad, st3\<lparr>scopebb := postinvoke\<rparr>) })"

end
