(* ===== verification/CodegenSteps.thy ===== *)
theory CodegenSteps
  imports PadCache FuncGenState
begin

text \<open>
  Everything that the code generator does to the blocks and scopes of a function, as a step
  relation, and what holds along its steps.
\<close>

section \<open>Steps\<close>

text \<open>
  The statement and expression visitors create blocks, move the insertion point, terminate
  blocks and call the operations of \<open>TryCatchFinallyScopes\<close>. They leave alone the ends of open
  cleanups and the tentative targets of gotos, which belong to the scopes. A cleanup is pushed
  right after its code was emitted, before the insertion point moves to the code it protects
  (\<open>TryFinallyStatement\<close>, \<open>pushVarDtorCleanup\<close>). Scopes are closed in the order in which they
  were opened, and the catch bodies exist before the try-catch scope is pushed.
\<close>

inductive step :: "'a TryCatchFinallyScopes_scheme \<Rightarrow> 'a TryCatchFinallyScopes_scheme \<Rightarrow> bool" where
  insert: "step st (snd (insertBB st))"
| move: "b < nextBB st \<Longrightarrow> b \<notin> ends st \<Longrightarrow> b \<notin> tents st \<Longrightarrow> step st (st\<lparr>scopebb := b\<rparr>)"
| finish: "terminate b T st = Some st' \<Longrightarrow> b \<notin> ends st \<Longrightarrow> b \<notin> tents st \<Longrightarrow> step st st'"
| push: "unterminated (bbs st) e \<Longrightarrow> e \<notin> ends st \<Longrightarrow> e \<notin> tents st \<Longrightarrow> b < nextBB st \<Longrightarrow> b \<notin> tents st \<Longrightarrow>
    n < nextBB st \<Longrightarrow> n \<notin> ends st \<Longrightarrow> n \<noteq> e \<Longrightarrow> n \<notin> tents st \<Longrightarrow> step st ((pushCleanup b e st)\<lparr>scopebb := n\<rparr>)"
| pop: "popCleanups z st = Some st' \<Longrightarrow> \<forall>tc\<in>set (tryCatchScopes st). cleanupScope tc \<le> z \<Longrightarrow> step st st'"
| runs: "runCleanups z u st = Some st' \<Longrightarrow> u < nextBB st \<Longrightarrow> u \<notin> tents st \<Longrightarrow> step st st'"
| goto: "registerUnresolvedGoto loc l st = Some st' \<Longrightarrow> step st st'"
| resolve: "b < nextBB st \<Longrightarrow> b \<notin> tents st \<Longrightarrow> step st (tryResolveGotos l b st)"
| pushTry: "\<forall>cb\<in>set blocks. bodyBB cb < nextBB st \<and> bodyBB cb \<notin> tents st \<Longrightarrow> step st (pushTryCatch blocks nx st)"
| popTry: "popTryCatch st = Some st' \<Longrightarrow> cleanupScope (last (tryCatchScopes st)) = currentCleanupScope st \<Longrightarrow> step st st'"
| pad: "getLandingPad st = Some (p, st') \<Longrightarrow> step st st'"
| other: "step st (st\<lparr>TryCatchFinallyScopes.more := x\<rparr>)"

inductive_cases step_cases: "step st st'"

definition good :: "'a TryCatchFinallyScopes_scheme \<Rightarrow> bool" where
  "good st \<longleftrightarrow> wf st \<and> padsOK st"

lemma padsOK_same:
  assumes "evolves st st'" "wf st" "padsOK st" "resumeUnwindBlock st' = resumeUnwindBlock st" "tryCatchScopes st' = tryCatchScopes st"
    "pairs st' = pairs st" "landingPadsPerCleanupScope st' = landingPadsPerCleanupScope st"
  shows "padsOK st'"
proof -
  have "length (cleanupScopes st') = length (cleanupScopes st)" using assms(6) by (metis pairs_length)
  then show ?thesis using assms(3,6,7) by (intro padsOK_step [OF assms(1-5)]) (simp_all add: padsOK_def)
qed

text \<open>What closing scopes does to the other fields.\<close>

lemma rerouteGoto_shape: "rerouteGoto i g st = Some st' \<Longrightarrow> sameScopes st st'"
  by (auto elim!: rerouteGoto_eq dest!: runScope_shape(3)
    simp: sameScopes_def eraseFromParent_def replaceAllUsesWith_def insertBB_def)

definition popped :: "nat \<Rightarrow> 'a TryCatchFinallyScopes_scheme \<Rightarrow> 'a TryCatchFinallyScopes_scheme \<Rightarrow> bool" where
  "popped k st st' \<longleftrightarrow> resumeUnwindBlock st' = resumeUnwindBlock st \<and> tryCatchScopes st' = tryCatchScopes st
     \<and> TryCatchFinallyScopes.more st' = TryCatchFinallyScopes.more st \<and> length (cleanupScopes st') = length (cleanupScopes st) - k
     \<and> landingPadsPerCleanupScope st' = take (length (landingPadsPerCleanupScope st) - k) (landingPadsPerCleanupScope st)"

lemma popScope_shape:
  assumes "popScope i st = Some st'"
  shows "popped 1 st st'"
proof -
  obtain st1 where st1: "iterM (rerouteGoto i) (currentUnresolvedGotos st) st = Some st1" "st' = dropScope i st1"
    using assms by (auto simp: popScope_drop)
  have "sameScopes st st1" using st1(1)
    by (rule iterM_invariant) (auto dest: rerouteGoto_shape intro: sameScopes_trans)
  then show ?thesis by (simp add: popped_def sameScopes_def st1(2) dropScope_def butlast_conv_take)
qed

lemma popCleanups_shape:
  assumes "popCleanups z st = Some st'"
  shows "popped (length (cleanupScopes st) - z) st st'" "z \<le> length (cleanupScopes st)"
proof -
  show z: "z \<le> length (cleanupScopes st)" using assms by (simp add: popCleanups_def currentCleanupScope_def split: if_splits)
  have "popped (length is) st st'" if "iterM popScope is st = Some st'" for "is" and st :: "'a TryCatchFinallyScopes_scheme"
    using that
  proof (induction "is" arbitrary: st)
    case Nil
    then show ?case by (simp add: popped_def)
  next
    case (Cons i "is")
    then obtain st1 where "popScope i st = Some st1" "popped (length is) st1 st'" by (auto split: Option.bind_splits)
    then show ?case using popScope_shape [of i st st1] by (simp add: popped_def min_def)
  qed
  moreover have "iterM popScope (rev [z..<length (cleanupScopes st)]) st = Some st'"
    using assms by (simp add: popCleanups_def currentCleanupScope_def split: if_splits)
  ultimately show "popped (length (cleanupScopes st) - z) st st'" by fastforce
qed

lemma padsOK_popCleanups:
  assumes "popCleanups z st = Some st'" "wf st" "padsOK st" "nextBB st' < 2 ^ 32" "\<forall>tc\<in>set (tryCatchScopes st). cleanupScope tc \<le> z"
  shows "padsOK st'"
proof -
  note shape = popCleanups_shape [OF assms(1)]
  have len: "length (cleanupScopes st') = z" using shape by (simp add: popped_def)
  have pads: "landingPadsPerCleanupScope st' = take (Suc z) (landingPadsPerCleanupScope st)"
    using shape wf_pads [OF assms(2)] by (simp add: popped_def Suc_diff_le)
  have same: "resumeUnwindBlock st' = resumeUnwindBlock st" "tryCatchScopes st' = tryCatchScopes st" using shape(1) by (simp_all add: popped_def)
  have "pairs st' = take z (pairs st)" by (rule popCleanups_step(2) [OF assms(1,2,4)])
  then show ?thesis
    using pads len assms(5) shape(2)
    by (intro padsOK_step [OF popCleanups_evolves [OF assms(1,2,4)] assms(2,3) same]) (simp_all add: min_def)
qed

lemma quiet_good:
  assumes "quiet st st'" "good st" "resumeUnwindBlock st' = resumeUnwindBlock st" "tryCatchScopes st' = tryCatchScopes st"
    "landingPadsPerCleanupScope st' = landingPadsPerCleanupScope st"
  shows "good st' \<and> evolves st st'"
proof -
  have ev: "evolves st st'" using quiet_evolves [OF assms(1)] assms(2) by (simp add: good_def)
  then show ?thesis
    using padsOK_same [OF ev _ _ assms(3,4) quiet_pairs [OF assms(1)] assms(5)] assms(2) by (simp add: good_def evolves_def)
qed

lemma tryResolveGotos_shape:
  "resumeUnwindBlock (tryResolveGotos l b st) = resumeUnwindBlock st" "tryCatchScopes (tryResolveGotos l b st) = tryCatchScopes st"
  "landingPadsPerCleanupScope (tryResolveGotos l b st) = landingPadsPerCleanupScope st"
  "TryCatchFinallyScopes.more (tryResolveGotos l b st) = TryCatchFinallyScopes.more st"
proof -
  have "resumeUnwindBlock (fold (resolveOne b) gs st) = resumeUnwindBlock st \<and> tryCatchScopes (fold (resolveOne b) gs st) = tryCatchScopes st \<and>
      landingPadsPerCleanupScope (fold (resolveOne b) gs st) = landingPadsPerCleanupScope st \<and>
      TryCatchFinallyScopes.more (fold (resolveOne b) gs st) = TryCatchFinallyScopes.more st" for gs and st :: "'a TryCatchFinallyScopes_scheme"
    by (induction gs arbitrary: st) (simp_all add: resolveOne_def eraseFromParent_def replaceAllUsesWith_def)
  then show "resumeUnwindBlock (tryResolveGotos l b st) = resumeUnwindBlock st" "tryCatchScopes (tryResolveGotos l b st) = tryCatchScopes st"
    "landingPadsPerCleanupScope (tryResolveGotos l b st) = landingPadsPerCleanupScope st"
    "TryCatchFinallyScopes.more (tryResolveGotos l b st) = TryCatchFinallyScopes.more st"
    by (simp_all add: tryResolveGotos_eq forgetGotos_def)
qed

lemma registerUnresolvedGoto_shape:
  "registerUnresolvedGoto loc l st = Some st' \<Longrightarrow> resumeUnwindBlock st' = resumeUnwindBlock st \<and> tryCatchScopes st' = tryCatchScopes st \<and>
    landingPadsPerCleanupScope st' = landingPadsPerCleanupScope st \<and> TryCatchFinallyScopes.more st' = TryCatchFinallyScopes.more st"
  by (auto simp: registerUnresolvedGoto_def insertBB_def CreateBr_def terminate_def Let_def split: Option.bind_splits if_splits)

lemma step_good:
  assumes "step st st'" "good st" "nextBB st' < 2 ^ 32"
  shows "good st' \<and> evolves st st'"
proof -
  have g: "wf st" "padsOK st" and wfg: "wfg st (set (gotos st))" using assms(2) wf_wfg by (auto simp: good_def)
  from assms(1,3) show ?thesis
  proof cases
    case insert
    then show ?thesis using quiet_good [OF quiet_insertBB [OF wfg] assms(2)] by (simp add: insertBB_def)
  next
    case (move b)
    then show ?thesis using quiet_good [OF quiet_setInsertPoint [OF wfg] assms(2)] by simp
  next
    case (finish b T)
    have "resumeUnwindBlock st' = resumeUnwindBlock st \<and> tryCatchScopes st' = tryCatchScopes st \<and>
        landingPadsPerCleanupScope st' = landingPadsPerCleanupScope st"
      using finish(1) by (auto simp: terminate_def split: Option.bind_splits if_splits)
    then show ?thesis using quiet_good [OF quiet_terminate [OF wfg finish] assms(2)] by simp
  next
    case (push e b n)
    note p = pushCleanup_step [OF g(1) push(2-10), folded push(1)]
    have ev: "evolves st st'" using pushCleanup_evolves [OF g(1) push(2-10)] push(1) by simp
    have "padsOK st'"
    proof (rule padsOK_step [OF ev g])
      show "i \<le> length (cleanupScopes st) \<and> landingPadsPerCleanupScope st' ! i = landingPadsPerCleanupScope st ! i \<and> take i (pairs st') = take i (pairs st)
        \<or> length (cleanupScopes st) < i \<and> landingPadsPerCleanupScope st' ! i = []" if "i \<le> length (cleanupScopes st')" for i
        using that wf_pads [OF g(1)] p(2) by (auto simp: push(1) pushCleanup_def nth_append le_Suc_eq)
    qed (use g(2) in \<open>auto simp: push(1) pushCleanup_def padsOK_def\<close>)
    then show ?thesis using ev by (simp add: good_def evolves_def)
  next
    case (pop z)
    then show ?thesis using padsOK_popCleanups [OF pop(1) g assms(3) pop(2)] popCleanups_evolves [OF pop(1) g(1) assms(3)]
      by (simp add: good_def evolves_def)
  next
    case (runs z u)
    then have r: "runCleanups_from (length (cleanupScopes st)) z u st = Some st'" by (simp add: runCleanups_def currentCleanupScope_def)
    have nb: "nextBB st < 2 ^ 32" using runCleanups_from_shape(1) [OF r] assms(3) by simp
    have ev: "evolves st st'" by (rule runCleanups_from_evolves [OF r g(1) nb runs(2,3) order_refl])
    then show ?thesis
      using padsOK_same [OF ev g] runCleanups_from_shape(2) [OF r] runCleanups_from_step(2) [OF r g(1) nb runs(2,3) order_refl]
      by (simp add: sameScopes_def good_def evolves_def)
  next
    case (goto loc l)
    have ev: "evolves st st'" by (rule registerUnresolvedGoto_evolves [OF goto g(1)])
    then show ?thesis
      using padsOK_same [OF ev g] registerUnresolvedGoto_shape [OF goto] registerUnresolvedGoto_step(2) [OF goto g(1)]
      by (simp add: good_def evolves_def)
  next
    case (resolve b l)
    have ev: "evolves st st'" unfolding resolve(1) by (rule tryResolveGotos_evolves [OF g(1) resolve(2,3)])
    then show ?thesis
      using padsOK_same [OF ev g] tryResolveGotos_step(2) [OF g(1) resolve(2,3)]
      by (simp add: good_def evolves_def resolve(1) tryResolveGotos_shape)
  next
    case (pushTry blocks nx)
    have q: "quiet st st'" unfolding pushTry(1) by (rule quiet_pushTryCatch [OF wfg])
    then show ?thesis using padsOK_pushTryCatch [OF g(2,1) pushTry(2)] quiet_evolves [OF q g(1)] quiet_wf [OF q g(1)]
      by (simp add: good_def pushTry(1))
  next
    case popTry
    have l: "cleanupScope (last (tryCatchScopes st)) = length (cleanupScopes st)" using popTry(2) by (simp add: currentCleanupScope_def)
    note p = padsOK_popTryCatch [OF popTry(1) g(2,1) l]
    show ?thesis using p(1) quiet_evolves [OF p(2) g(1)] quiet_wf [OF p(2) g(1)] by (simp add: good_def)
  next
    case (pad p)
    note p = getLandingPad_step [OF pad g assms(3)]
    then show ?thesis by (simp add: good_def steady_def evolves_def)
  next
    case (other x)
    have "quiet st st'" using quiet_refl [OF wfg] by (simp add: quiet_def other)
    then show ?thesis using quiet_good [OF _ assms(2)] by (simp add: other)
  qed
qed

section \<open>Runs of the code generator\<close>

text \<open>
  Any number of steps, while the function has fewer than \<open>2\<^sup>3\<^sup>2\<close> blocks, so that the values of
  branch selectors do not wrap around.
\<close>

inductive codegen :: "'a TryCatchFinallyScopes_scheme \<Rightarrow> 'a TryCatchFinallyScopes_scheme \<Rightarrow> bool" where
  refl: "codegen st st"
| step: "codegen st st1 \<Longrightarrow> step st1 st2 \<Longrightarrow> nextBB st2 < 2 ^ 32 \<Longrightarrow> codegen st st2"

lemma codegen_trans: "codegen st1 st2 \<Longrightarrow> codegen st st1 \<Longrightarrow> codegen st st2"
  by (induction rule: codegen.induct) (auto intro: codegen.step)

lemma codegen_one: "step st st' \<Longrightarrow> nextBB st' < 2 ^ 32 \<Longrightarrow> codegen st st'"
  by (rule codegen.step [OF codegen.refl])

lemma codegen_good:
  assumes "codegen st st'" "good st"
  shows "good st' \<and> evolves st st'"
  using assms
proof induction
  case (refl st)
  then show ?case by (simp add: good_def evolves_refl)
next
  case (step st st1 st2)
  then show ?case using step_good [OF step.hyps(2) _ step.hyps(3)] evolves_trans by blast
qed

text \<open>The state at the start of a function: one empty block.\<close>

definition entryIRState :: IRState where
  "entryIRState = \<lparr>bbs = [0 \<mapsto> emptyBB], nextBB = 1, nextAlloca = 0, scopebb = 0\<rparr>"

definition reachable :: "'a TryCatchFinallyScopes_scheme \<Rightarrow> bool" where
  "reachable st \<longleftrightarrow> (\<exists>st0. TryCatchFinallyScopes.truncate st0 = initialScopes entryIRState \<and> codegen st0 st)"

lemma start_good:
  assumes "TryCatchFinallyScopes.truncate st0 = initialScopes entryIRState"
  shows "good st0"
proof -
  have f: "bbs st0 = [0 \<mapsto> emptyBB]" "nextBB st0 = 1" "nextAlloca st0 = 0" "scopebb st0 = 0" "cleanupScopes st0 = []" "tryCatchScopes st0 = []"
      "unresolvedGotosPerCleanupScope st0 = [[]]" "landingPadsPerCleanupScope st0 = [[]]" "resumeUnwindBlock st0 = None"
    using assms by (cases st0, simp add: TryCatchFinallyScopes.truncate_def initialScopes_def entryIRState_def IRState.extend_def)+
  then have "wf st0" by (auto simp: wf_def wfg_def base_def tents_def gotos_def emptyBB_def)
  moreover have "padsOK st0" by (simp add: f padsOK_def resumeOK_def cached_def level_def)
  ultimately show ?thesis by (simp add: good_def)
qed

lemma reachable_good: "reachable st \<Longrightarrow> good st"
  using start_good codegen_good by (auto simp: reachable_def)

lemma reachable_codegen: "reachable st \<Longrightarrow> codegen st st' \<Longrightarrow> reachable st'"
  using codegen_trans by (auto simp: reachable_def)

section \<open>Control flow\<close>

text \<open>
  Execution of the emitted blocks, for an exception (if any) with selector value \<open>exn\<close>. The branch
  selectors are \<open>\<sigma>\<close>; a block first runs its stores and then its terminator.
\<close>

definition runStores :: "(Alloca \<times> u32) list \<Rightarrow> (Alloca \<rightharpoonup> u32) \<Rightarrow> (Alloca \<rightharpoonup> u32)" where
  "runStores ss \<sigma> = fold (\<lambda>(v, n) \<sigma>. \<sigma>(v \<mapsto> n)) ss \<sigma>"

fun nextBlock :: "ClassInfo option \<Rightarrow> (Alloca \<rightharpoonup> u32) \<Rightarrow> Terminator option \<Rightarrow> BB option" where
  "nextBlock exn \<sigma> (Some (BranchInst b)) = Some b"
| "nextBlock exn \<sigma> (Some (CondBranch ci b c)) = Some (if exn = Some ci then b else c)"
| "nextBlock exn \<sigma> (Some (SwitchInst v d cs)) = map_option (\<lambda>n. case map_of cs n of None \<Rightarrow> d | Some b \<Rightarrow> b) (\<sigma> v)"
| "nextBlock exn \<sigma> _ = None"

text \<open>
  Control leaves block \<open>b\<close> and passes through the cleanups \<open>cs\<close>, given by their begin and end blocks.
  The code of a cleanup, between the two, does not change branch selectors that are in use:
  only the blocks from which a cleanup is entered store to its selector.
\<close>

fun follow :: "ClassInfo option \<Rightarrow> (BB \<rightharpoonup> BasicBlock) \<Rightarrow> (Alloca \<rightharpoonup> u32) \<Rightarrow> BB \<Rightarrow> (BB \<times> BB) list \<Rightarrow> BB option" where
  "follow exn m \<sigma> b [] = do {
     blk \<leftarrow> m b;
     nextBlock exn (runStores (stores blk) \<sigma>) (terminator blk) }"
| "follow exn m \<sigma> b ((b1, e1) # cs) = do {
     blk \<leftarrow> m b;
     n \<leftarrow> nextBlock exn (runStores (stores blk) \<sigma>) (terminator blk);
     if n = b1 then follow exn m (runStores (stores blk) \<sigma>) e1 cs else None }"

text \<open>Several of these, one after the other.\<close>

inductive flows :: "ClassInfo option \<Rightarrow> (BB \<rightharpoonup> BasicBlock) \<Rightarrow> BB \<Rightarrow> (BB \<times> BB) list \<Rightarrow> BB \<Rightarrow> bool" for exn m where
  here: "flows exn m b [] b"
| onward: "(\<And>\<sigma>. follow exn m \<sigma> b cs = Some c) \<Longrightarrow> flows exn m c cs' t \<Longrightarrow> flows exn m b (cs @ cs') t"

lemma runStores_append: "runStores (xs @ ys) \<sigma> = runStores ys (runStores xs \<sigma>)"
  by (simp add: runStores_def)

lemma runStores_last: "lastStore ss v = Some n \<Longrightarrow> runStores ss \<sigma> v = Some n"
proof (induction ss rule: rev_induct)
  case (snoc x ss)
  then show ?case by (cases x) (auto simp: runStores_def lastStore_def split: if_splits)
qed (simp add: lastStore_def)

lemma hop_nextBlock: "hop ss t = Some b \<Longrightarrow> nextBlock exn (runStores ss \<sigma>) t = Some b"
  by (cases "(ss, t)" rule: hop.cases) (auto simp: runStores_last)

lemma settled_follow:
  assumes "wf st" "settled exn st src cs t"
  shows "follow exn (bbs st) \<sigma> src cs = Some t"
proof -
  obtain s b where s: "bbs st src = Some s" "Option.bind (terminator s) (jump exn) = Some b" "chained st src cs b t"
    using assms(2) by (auto simp: settled_def route_def)
  let ?\<sigma> = "runStores (stores s) \<sigma>"
  have through: "follow exn (bbs st) ?\<sigma> e cs = Some t" if "linked st src e b" "chained st src cs b t" for e b cs
    using that
  proof (induction cs arbitrary: e b)
    case Nil
    obtain blk where "bbs st e = Some blk" "stores blk = []" "hop (stores s) (terminator blk) = Some b"
      using linked_hop [OF wf_wfg [OF assms(1)] Nil(1) s(1)] by blast
    then show ?case using Nil(2) hop_nextBlock [of "stores s"] by (simp add: runStores_def)
  next
    case (Cons c cs)
    obtain blk where blk: "bbs st e = Some blk" "stores blk = []" "hop (stores s) (terminator blk) = Some b"
      using linked_hop [OF wf_wfg [OF assms(1)] Cons.prems(1) s(1)] by blast
    obtain b' where b': "b = fst c" "linked st src (snd c) b'" "chained st src cs b' t" using Cons.prems(2) by auto
    have "runStores (stores blk) ?\<sigma> = ?\<sigma>" by (simp add: blk(2) runStores_def)
    then show ?case using Cons.IH [OF b'(2,3)] blk b'(1) hop_nextBlock [OF blk(3), of exn \<sigma>] by (cases c) simp
  qed
  have n: "nextBlock exn ?\<sigma> (terminator s) = Some b" using s(2) by (cases "terminator s"; cases "the (terminator s)") auto
  show ?thesis
  proof (cases cs)
    case Nil
    then show ?thesis using s n by simp
  next
    case (Cons c cs')
    then obtain b' where "b = fst c" "linked st src (snd c) b'" "chained st src cs' b' t" using s(3) by auto
    then show ?thesis using through [of "snd c" b' cs'] s(1) n Cons by (cases c) simp
  qed
qed

lemma unwinds_flows: "unwinds exn st b cs t \<Longrightarrow> wf st \<Longrightarrow> flows exn (bbs st) b cs t"
  by (induction rule: unwinds.induct) (auto intro: flows.intros settled_follow)

section \<open>Gotos along the way\<close>

text \<open>A goto stays pending until its label is added in a scope that encloses it.\<close>

definition awaits :: "'a TryCatchFinallyScopes_scheme \<Rightarrow> GotoJump \<Rightarrow> (BB \<times> BB) list \<Rightarrow> nat \<Rightarrow> bool" where
  "awaits st g S k \<longleftrightarrow> (\<forall>exn. pending exn st g S k)"

lemma steady_pending: "steady st st' \<Longrightarrow> pending exn st g S k \<Longrightarrow> pending exn st' g S k"
  by (simp add: steady_def pending_def)

lemma step_awaits:
  assumes "step st st'" "good st" "nextBB st' < 2 ^ 32" "awaits st g S k"
  shows "(\<exists>k'. awaits st' g S k') \<or>
    (\<exists>b. k = currentCleanupScope st \<and> st' = tryResolveGotos (targetLabel g) b st \<and> b < nextBB st \<and> b \<notin> tents st)"
proof -
  have g: "wf st" "padsOK st" and wfg: "wfg st (set (gotos st))" using assms(2) wf_wfg by (auto simp: good_def)
  have quiet: "\<exists>k'. awaits st' g S k'" if "quiet st st'"
    using that assms(4) quiet_pending unfolding awaits_def by blast
  from assms(1,3,4) show ?thesis
  proof cases
    case insert
    then show ?thesis using quiet quiet_insertBB [OF wfg] by simp
  next
    case (move b)
    then show ?thesis using quiet quiet_setInsertPoint [OF wfg] by simp
  next
    case (finish b T)
    then show ?thesis using quiet quiet_terminate [OF wfg] by blast
  next
    case (push e b n)
    then show ?thesis using pushCleanup_step(4) [OF g(1) push(2-10)] assms(4) unfolding awaits_def by blast
  next
    case (pop z)
    then show ?thesis using popCleanups_step(5) [OF pop(1) g(1) assms(3)] assms(4) unfolding awaits_def by blast
  next
    case (runs z u)
    then have r: "runCleanups_from (length (cleanupScopes st)) z u st = Some st'" by (simp add: runCleanups_def currentCleanupScope_def)
    have "nextBB st < 2 ^ 32" using runCleanups_from_shape(1) [OF r] assms(3) by simp
    then have "steady st st'" using runCleanups_from_steady(1) [OF r g(1) _ runs(2,3)] by simp
    then show ?thesis using steady_pending assms(4) unfolding awaits_def by blast
  next
    case (goto loc l)
    then show ?thesis using registerUnresolvedGoto_step(6) [OF goto g(1)] assms(4) unfolding awaits_def by blast
  next
    case (resolve b l)
    show ?thesis
    proof (cases "k \<noteq> currentCleanupScope st \<or> targetLabel g \<noteq> l")
      case True
      then show ?thesis
        using tryResolveGotos_step(8) [OF g(1) resolve(2,3)] assms(4) resolve(1) unfolding awaits_def by blast
    qed (use resolve in auto)
  next
    case (pushTry blocks nx)
    then show ?thesis using quiet quiet_pushTryCatch [OF wfg] by simp
  next
    case popTry
    then show ?thesis using quiet padsOK_popTryCatch(2) [OF popTry(1) g(2,1)] by (simp add: currentCleanupScope_def)
  next
    case (pad p)
    then show ?thesis using steady_pending [OF getLandingPad_step(1) [OF pad g assms(3)]] assms(4) unfolding awaits_def by blast
  next
    case (other x)
    then show ?thesis using quiet quiet_refl [OF wfg] by (simp add: quiet_def)
  qed
qed

lemma codegen_awaits:
  assumes "codegen st st'" "good st" "awaits st g S k"
  shows "(\<exists>k'. awaits st' g S k') \<or>
    (\<exists>sa b. codegen st sa \<and> awaits sa g S (currentCleanupScope sa) \<and> b < nextBB sa \<and> b \<notin> tents sa
       \<and> codegen (tryResolveGotos (targetLabel g) b sa) st')"
  using assms
proof induction
  case (step st st1 st2)
  note g1 = codegen_good [OF step.hyps(1) step.prems(1)]
  from step.IH [OF step.prems] show ?case
  proof
    assume "\<exists>k'. awaits st1 g S k'"
    then obtain k' where k': "awaits st1 g S k'" by blast
    with step_awaits [OF step.hyps(2) _ step.hyps(3) k'] g1 step.hyps show ?case by (metis codegen.refl)
  next
    assume "\<exists>sa b. codegen st sa \<and> awaits sa g S (currentCleanupScope sa) \<and> b < nextBB sa \<and> b \<notin> tents sa
       \<and> codegen (tryResolveGotos (targetLabel g) b sa) st1"
    then show ?case using codegen.step [OF _ step.hyps(2,3)] by blast
  qed
qed blast

lemma codegen_settled:
  assumes "codegen st st'" "good st" "settled exn st src cs t" "t \<notin> tents st"
  shows "follow exn (bbs st') \<sigma> src cs = Some t"
proof -
  have "good st'" "keepsRoutes exn st st'" using codegen_good [OF assms(1,2)] by (auto simp: evolves_def)
  then have "wf st'" "settled exn st' src cs t" using assms(3,4) by (auto simp: keepsRoutes_def good_def)
  then show ?thesis by (rule settled_follow)
qed

lemma resolved_follow:
  assumes "awaits sa g S (currentCleanupScope sa)" "good sa" "b < nextBB sa" "b \<notin> tents sa"
    and "codegen (tryResolveGotos (targetLabel g) b sa) st'" "nextBB sa < 2 ^ 32"
  shows "follow exn (bbs st') \<sigma> (sourceBlock g) (rev (drop (currentCleanupScope sa) S)) = Some b"
    and "pairs sa = take (currentCleanupScope sa) S"
proof -
  let ?st = "tryResolveGotos (targetLabel g) b sa"
  have w: "wf sa" using assms(2) by (simp add: good_def)
  have p: "pending exn sa g S (currentCleanupScope sa)" for exn using assms(1) by (simp add: awaits_def)
  note r = tryResolveGotos_step [OF w assms(3,4)]
  have good: "good ?st" using step_good [OF step.resolve [OF assms(3,4)] assms(2)] r(4) assms(6) by simp
  have "settled exn ?st (sourceBlock g) (rev (drop (currentCleanupScope sa) S)) b"
    using r(7) p [of exn] by (simp add: pending_def currentUnresolvedGotos_def)
  moreover have "b \<notin> tents ?st" using r(6) assms(4) by blast
  ultimately show "follow exn (bbs st') \<sigma> (sourceBlock g) (rev (drop (currentCleanupScope sa) S)) = Some b"
    by (rule codegen_settled [OF assms(5) good])
  show "pairs sa = take (currentCleanupScope sa) S" using p [of None] by (simp add: pending_def currentCleanupScope_def)
qed

end
