(* ===== verification/CleanupProgress.thy ===== *)
theory CleanupProgress
  imports CodegenSteps
begin

text \<open>
  The assertions in the code of the scopes hold: leaving scopes does not fail.
\<close>

section \<open>A selector means a second target\<close>

definition selective :: "CleanupScope \<Rightarrow> bool" where
  "selective c \<longleftrightarrow> (branchSelector c \<noteq> None \<longrightarrow> 2 \<le> length (exitTargets c))"

lemma run_selective:
  assumes "run c s t st = Some (c', st')" "selective c"
  shows "selective c'"
proof (cases "exitTargets c = [] \<or> (length (exitTargets c) = 1 \<and> branchTarget (exitTargets c ! 0) = t)")
  case True
  then show ?thesis using assms(1)
    by (auto simp: run_def runDirect_def selective_def split: Option.bind_splits if_splits)
next
  case False
  then obtain c1 st1 where r: "runSelected c1 s t st1 = Some (c', st')"
      and one: "(if branchSelector c = None then createSelector c st else Some (c, st)) = Some (c1, st1)"
    using assms(1) by (auto simp: run_def split: Option.bind_splits if_splits)
  have c1: "exitTargets c1 = exitTargets c" using one
    by (auto simp: createSelector_def Let_def split: if_splits Option.bind_splits)
  show ?thesis
  proof (cases "findTarget t (exitTargets c)")
    case None
    have "exitTargets c \<noteq> []" using False by blast
    then show ?thesis using r None c1
      by (cases "exitTargets c") (auto simp: runSelected_def selective_def Let_def split: Option.bind_splits)
  next
    case (Some i)
    then have "length (exitTargets c) \<noteq> 1" using False by (cases "exitTargets c") (auto split: if_splits)
    then have "2 \<le> length (exitTargets c)" using False by (cases "exitTargets c"; cases "tl (exitTargets c)") auto
    then show ?thesis using r Some c1 by (auto simp: runSelected_def selective_def Let_def split: Option.bind_splits)
  qed
qed

definition selectiveAll :: "'a TryCatchFinallyScopes_scheme \<Rightarrow> bool" where
  "selectiveAll st \<longleftrightarrow> (\<forall>c\<in>set (cleanupScopes st). selective c)"

lemma runScope_selective:
  assumes "runScope i s t st = Some st'" "selectiveAll st"
  shows "selectiveAll st'"
proof -
  obtain c st1 where r: "i < length (cleanupScopes st)" "run (cleanupScopes st ! i) s t st = Some (c, st1)"
      "st' = st1\<lparr>cleanupScopes := (cleanupScopes st1)[i := c]\<rparr>"
    using assms(1) by (auto simp: runScope_def split: Option.bind_splits if_splits)
  have "cleanupScopes st1 = cleanupScopes st" using run_only(3) [OF r(2)] by (cases st; cases st1) simp
  moreover have "selective c" using run_selective [OF r(2)] assms(2) r(1) by (simp add: selectiveAll_def)
  ultimately show ?thesis using assms(2) r(3) set_update_subset_insert [of "cleanupScopes st" i c]
    by (auto simp: selectiveAll_def)
qed

lemma runCleanups_from_selective:
  assumes "runCleanups_from a z u st = Some st'" "selectiveAll st"
  shows "selectiveAll st'"
proof -
  have br: "selectiveAll st'" if "CreateBr t st = Some st'" for t st'
    using that assms(2) by (auto simp: CreateBr_def terminate_def selectiveAll_def split: Option.bind_splits if_splits)
  have loop: "selectiveAll st'"
    if "iterM (\<lambda>i st. runScope i (scopebb st) (if z < i then beginBlock (cleanupScopes st ! (i - 1)) else u) st) is st = Some st'" "selectiveAll st"
    for "is" and st st' :: "'a TryCatchFinallyScopes_scheme"
    using that by (rule iterM_invariant) (rule runScope_selective)
  from assms(1) show ?thesis by (auto simp: runCleanups_from_def split: Option.bind_splits if_splits intro: br loop)
qed

lemma popCleanups_selective:
  assumes "popCleanups z st = Some st'" "selectiveAll st"
  shows "selectiveAll st'"
proof -
  have reroute: "selectiveAll st'" if r: "rerouteGoto i g st = Some st'" "selectiveAll st" for i g and st st' :: "'a TryCatchFinallyScopes_scheme"
    using r(1)
  proof (rule rerouteGoto_eq)
    fix st1 st2 d
    assume eq: "st1 = replaceAllUsesWith (tentativeTarget g) d (snd (insertBB st))" "runScope i (sourceBlock g) (tentativeTarget g) st1 = Some st2"
      "st' = eraseFromParent d (replaceAllUsesWith d (beginBlock (cleanupScopes st2 ! i)) st2)"
    then show "selectiveAll st'" using runScope_selective [OF eq(2)] r(2) by (simp add: selectiveAll_def)
  qed
  have pop: "selectiveAll st'" if p: "popScope i st = Some st'" "selectiveAll st" for i and st st' :: "'a TryCatchFinallyScopes_scheme"
  proof -
    obtain st1 where st1: "iterM (rerouteGoto i) (currentUnresolvedGotos st) st = Some st1" "st' = dropScope i st1"
      using p(1) by (auto simp: popScope_drop)
    have "selectiveAll st1" using st1(1) p(2) by (rule iterM_invariant) (rule reroute)
    then show ?thesis by (auto simp: selectiveAll_def st1(2) dropScope_def dest: in_set_butlastD)
  qed
  have "iterM popScope (rev [z..<currentCleanupScope st]) st = Some st'"
    using assms(1) by (auto simp: popCleanups_def split: if_splits)
  then show ?thesis using assms(2) by (rule iterM_invariant) (rule pop)
qed

lemma emitLandingPad_selective:
  assumes "emitLandingPad st = Some (pad, st')" "selectiveAll st"
  shows "selectiveAll st'"
proof -
  have test: "cleanupScopes st' = cleanupScopes st" if "emitCatchTest p cb st = Some st'" for p cb and st st' :: "'a TryCatchFinallyScopes_scheme"
    using that by (auto simp: emitCatchTest_def insertBB_def addClause_def updateLandingPad_def terminate_def Let_def split: Option.bind_splits if_splits)
  have tests: "selectiveAll st'" if "iterM (emitCatchTest p) cbs st = Some st'" "selectiveAll st" for p cbs and st st' :: "'a TryCatchFinallyScopes_scheme"
    using that by (rule iterM_invariant) (simp add: selectiveAll_def test)
  have catches: "selectiveAll st'" if "emitCatches p tc (k, st) = Some (k', st')" "selectiveAll st" for p tc k k' and st st' :: "'a TryCatchFinallyScopes_scheme"
  proof -
    have "selectiveAll (snd (insertBB (setCleanup p st)))" using that(2) by (simp add: selectiveAll_def setCleanup_def updateLandingPad_def)
    moreover have "selectiveAll st2 \<Longrightarrow> selectiveAll (st2\<lparr>scopebb := b\<rparr>)" for st2 :: "'a TryCatchFinallyScopes_scheme" and b
      by (simp add: selectiveAll_def)
    ultimately show ?thesis using that
      by (auto simp: emitCatches_def Let_def case_prod_unfold split: Option.bind_splits if_splits dest: tests runCleanups_from_selective)
  qed
  have loop: "selectiveAll (snd x')" if "iterM (emitCatches p) tcs x = Some x'" "selectiveAll (snd x)"
    for p tcs and x x' :: "nat \<times> 'a TryCatchFinallyScopes_scheme"
    using that by (rule iterM_invariant [where I = "\<lambda>x. selectiveAll (snd x)"]) (auto dest: catches)
  have res: "selectiveAll st'" if "getOrCreateResumeUnwindBlock st = Some (r, st')" "selectiveAll st" for r and st st' :: "'a TryCatchFinallyScopes_scheme"
    using that by (auto simp: getOrCreateResumeUnwindBlock_def insertBB_def terminate_def selectiveAll_def split: option.splits Option.bind_splits if_splits)
  have fin: "selectiveAll st'" if "finishPad p s k r st = Some st'" "selectiveAll st" for p s k r and st st' :: "'a TryCatchFinallyScopes_scheme"
  proof -
    have "selectiveAll (setCleanup p st)" using that(2) by (simp add: selectiveAll_def setCleanup_def updateLandingPad_def)
    then show ?thesis using that
      by (auto simp: finishPad_def CreateBr_def terminate_def eraseFromParent_def replaceAllUsesWith_def split: Option.bind_splits if_splits
        dest!: runCleanups_from_selective) (auto simp: selectiveAll_def)
  qed
  obtain k st3 r st4 where eqs: "iterM (emitCatches (nextBB st)) (rev (tryCatchScopes st)) (currentCleanupScope st,
       (createLandingPadInst (nextBB st) (snd (insertBB st)))\<lparr>scopebb := nextBB st, ehPtrSlot := True, ehSelectorSlot := True\<rparr>) = Some (k, st3)"
      "getOrCreateResumeUnwindBlock st3 = Some (r, st4)" "finishPad pad (scopebb st) k r st4 = Some st'"
    using emitLandingPad_finish [OF assms(1)] by blast
  have "selectiveAll ((createLandingPadInst (nextBB st) (snd (insertBB st)))\<lparr>scopebb := nextBB st, ehPtrSlot := True, ehSelectorSlot := True\<rparr>)"
    using assms(2) by (simp add: selectiveAll_def createLandingPadInst_def)
  then show ?thesis using loop [OF eqs(1)] res [OF eqs(2)] fin [OF eqs(3)] by simp
qed

lemma step_selective:
  assumes "step st st'" "selectiveAll st"
  shows "selectiveAll st'"
  using assms
proof cases
  case (finish b T)
  then show ?thesis using assms(2) by (auto simp: terminate_def selectiveAll_def split: Option.bind_splits if_splits)
next
  case (pop z)
  then show ?thesis using popCleanups_selective assms(2) by blast
next
  case (runs z u)
  then show ?thesis using runCleanups_from_selective assms(2) by (auto simp: runCleanups_def)
next
  case (goto loc l)
  then show ?thesis using assms(2)
    by (auto simp: registerUnresolvedGoto_def insertBB_def CreateBr_def terminate_def Let_def selectiveAll_def split: Option.bind_splits if_splits)
next
  case (popTry)
  then show ?thesis using assms(2) by (auto simp: popTryCatch_def Let_def selectiveAll_def split: if_splits)
next
  case (pad p)
  have "selectiveAll (getLandingPadRef i st)" for i using assms(2) by (simp add: selectiveAll_def getLandingPadRef_def)
  then show ?thesis using pad emitLandingPad_selective
    by (fastforce simp: getLandingPad_def Let_def selectiveAll_def split: option.splits Option.bind_splits)
qed (auto simp: selectiveAll_def insertBB_def pushCleanup_def newCleanupScope_def selective_def pushTryCatch_def Let_def tryResolveGotos_eq
  forgetGotos_def resolveOne_cs)

lemma reachable_selective:
  assumes "reachable st"
  shows "selectiveAll st"
proof -
  obtain st0 where st0: "TryCatchFinallyScopes.truncate st0 = initialScopes entryIRState" "codegen st0 st"
    using assms by (auto simp: reachable_def)
  have "cleanupScopes st0 = []"
    using st0(1) by (cases st0) (simp add: TryCatchFinallyScopes.truncate_def initialScopes_def entryIRState_def IRState.extend_def)
  then have "selectiveAll st0" by (simp add: selectiveAll_def)
  with st0(2) show ?thesis by (induction rule: codegen.induct) (auto intro: step_selective)
qed

section \<open>Running a cleanup succeeds\<close>

lemma insertStores_progress:
  "\<forall>b\<in>set bs. terminated (bbs st) b \<Longrightarrow> \<exists>st'. iterM (insertStore v n) bs st = Some st'"
proof (induction bs arbitrary: st)
  case (Cons b bs)
  then obtain blk where blk: "bbs st b = Some blk" "terminator blk \<noteq> None" by (auto simp: terminated_def)
  let ?st = "st\<lparr>bbs := (bbs st)(b \<mapsto> blk\<lparr>stores := stores blk @ [(v, n)]\<rparr>)\<rparr>"
  have "\<forall>b\<in>set bs. terminated (bbs ?st) b" using Cons.prems blk by (auto simp: terminated_def)
  then have "\<exists>st'. iterM (insertStore v n) bs ?st = Some st'" by (rule Cons.IH)
  moreover have "insertStore v n b st = Some ?st" using blk by (simp add: insertStore_def)
  ultimately show ?case by simp
qed simp

lemma createSelector_progress:
  assumes "okScope (bbs st) na c" "exitTargets c \<noteq> []" "endBlock c \<notin> recorded c"
  shows "\<exists>c1 st1. createSelector c st = Some (c1, st1)"
proof -
  let ?x = "exitTargets c ! 0"
  have "?x \<in> set (exitTargets c)" using assms(2) by simp
  then have rec: "set (sourceBlocks ?x) \<subseteq> recorded c" by (auto simp: recorded_iff)
  have "\<forall>b\<in>set (sourceBlocks ?x). terminated (bbs (st\<lparr>nextAlloca := nextAlloca st + 1\<rparr>)) b"
    using assms(1,2) by (fastforce simp: okScope_def selectsOK_def terminated_def)
  then obtain st1 where st1: "iterM (insertStore (nextAlloca st) 0) (sourceBlocks ?x) (st\<lparr>nextAlloca := nextAlloca st + 1\<rparr>) = Some st1"
    using insertStores_progress by blast
  then have "bbs st1 (endBlock c) = bbs st (endBlock c)" using insertStores [OF st1 rec, of "endBlock c"] rec assms(3) by auto
  moreover obtain blk where "bbs st (endBlock c) = Some blk" "terminator blk = exitTerm c" using assms(1) by (rule okScope_block)
  moreover have "exitTerm c \<noteq> None" using assms(2) by (simp add: exitTerm_nth split: option.split)
  ultimately show ?thesis using st1 by (simp add: createSelector_def setTerminator_def Let_def)
qed

lemma selectorCases_fresh:
  assumes "length ts < 2 ^ 32"
  shows "of_nat (length ts) \<notin> fst ` set (selectorCases ts)"
proof
  assume "of_nat (length ts) \<in> fst ` set (selectorCases ts)"
  then obtain i where "i < length ts" "(of_nat (length ts) :: u32) = of_nat i" by (auto simp: selectorCases_def)
  then show False using of_nat_inj_small [where 'a = 32, of "length ts" i] assms by auto
qed

lemma runSelected_progress:
  assumes "okScope (bbs st) na c" "branchSelector c = Some v" "terminated (bbs st) s" "length (exitTargets c) < 2 ^ 32" "s \<noteq> endBlock c"
  shows "\<exists>r. runSelected c s t st = Some r"
proof -
  obtain blk where blk: "bbs st s = Some blk" "terminator blk \<noteq> None" using assms(3) by (auto simp: terminated_def)
  show ?thesis
  proof (cases "findTarget t (exitTargets c)")
    case (Some i)
    then show ?thesis using blk assms(2) by (simp add: runSelected_def insertStore_def)
  next
    case None
    have "exitTargets c \<noteq> []" using assms(1,2) by (auto simp: okScope_def)
    then have e: "exitTerm c = Some (SwitchInst v (branchTarget (exitTargets c ! 0)) (selectorCases (exitTargets c)))"
      using assms(2) by (simp add: exitTerm_nth)
    obtain eb where "bbs st (endBlock c) = Some eb" "terminator eb = exitTerm c" using assms(1) by (rule okScope_block)
    then show ?thesis using None blk assms(2,5) e selectorCases_fresh [OF assms(4)]
      by (simp add: runSelected_def insertStore_def addCase_def Let_def)
  qed
qed

lemma run_progress:
  assumes "okScope (bbs st) (nextAlloca st) c" "selective c" "terminated (bbs st) s" "length (exitTargets c) < 2 ^ 32"
    and "s \<noteq> endBlock c" "endBlock c \<notin> recorded c"
  shows "\<exists>r. run c s t st = Some r"
proof (cases "exitTargets c = [] \<or> (length (exitTargets c) = 1 \<and> branchTarget (exitTargets c ! 0) = t)")
  case True
  then have "branchSelector c = None" using assms(2) by (auto simp: selective_def)
  moreover obtain eb where "bbs st (endBlock c) = Some eb" "terminator eb = exitTerm c" using assms(1) by (rule okScope_block)
  ultimately show ?thesis using True by (auto simp: run_def runDirect_def terminate_def exitTerm_def)
next
  case False
  show ?thesis
  proof (cases "branchSelector c")
    case None
    obtain c1 st1 where c1: "createSelector c st = Some (c1, st1)"
      using createSelector_progress [OF assms(1) _ assms(6)] False by blast
    have ne: "exitTargets c \<noteq> []" using False by blast
    obtain m where m: "st1 = st\<lparr>bbs := m, nextAlloca := nextAlloca st + 1\<rparr>" "okScope m (nextAlloca st + 1) c1"
        "c1 = c\<lparr>branchSelector := Some (nextAlloca st)\<rparr>" "touched (bbs st) m (endBlock c) (recorded c) (branchSelector c1)"
      using createSelector_ok [OF c1 None ne assms(1,6)] by blast
    have "terminated m s" using touched_unterminated(2) [OF m(4) assms(5)] assms(3) .
    then have "\<exists>r. runSelected c1 s t st1 = Some r"
      using m assms(4,5) by (intro runSelected_progress [of _ "nextAlloca st + 1" _ "nextAlloca st"]) simp_all
    then show ?thesis using False None c1 by (auto simp: run_def)
  next
    case (Some v)
    then show ?thesis using runSelected_progress [OF assms(1) Some assms(3,4,5), of t] False by (auto simp: run_def)
  qed
qed

lemma runScope_progress:
  assumes "wfg st G" "selectiveAll st" "i < length (cleanupScopes st)" "terminated (bbs st) s" "s \<notin> ends st" "nextBB st < 2 ^ 32"
  shows "\<exists>st'. runScope i s t st = Some st'"
proof -
  let ?c = "cleanupScopes st ! i"
  have c: "?c \<in> set (cleanupScopes st)" using assms(3) by simp
  have e: "endBlock ?c \<in> ends st" using c by (simp add: ends_def)
  have "\<exists>r. run ?c s t st = Some r"
    by (rule run_progress) (use wfg_recorded [OF assms(1) c] assms few_targets [OF assms(1) c assms(6)] c e in \<open>auto simp: selectiveAll_def\<close>)
  then show ?thesis using assms(3) by (auto simp: runScope_def)
qed

lemma runLoop_progress:
  assumes "midRun i (scopebb st) u st" "selectiveAll st" "nextBB st < 2 ^ 32" "z \<le> i"
  shows "\<exists>st'. iterM (\<lambda>i st. runScope i (scopebb st) (if z < i then beginBlock (cleanupScopes st ! (i - 1)) else u) st)
      (rev [z..<i]) st = Some st'"
  using assms
proof (induction "i - z" arbitrary: i st)
  case (Suc n)
  let ?i = "i - 1" and ?s = "scopebb st"
  have i: "Suc ?i = i" "z \<le> ?i" "rev [z..<i] = ?i # rev [z..<?i]" "n = ?i - z"
    using Suc.hyps(2) upt_Suc_append [of z "i - 1"] by auto
  have m: "wfg st (set (gotos st))" "?i < length (cleanupScopes st)" "terminated (bbs st) ?s" "?s \<notin> ends st" "u < nextBB st" "u \<notin> tents st"
    using Suc.prems(1) i by (auto simp: midRun_def wf_def)
  let ?t = "if z < ?i then beginBlock (cleanupScopes st ! (?i - 1)) else u"
  obtain st1 where st1: "runScope ?i ?s ?t st = Some st1"
    using runScope_progress [OF m(1) Suc.prems(2) m(2-4) Suc.prems(3)] by blast
  have "cleanupScopes st ! (?i - 1) \<in> set (cleanupScopes st)" using m(2) by simp
  then have t: "?t < nextBB st" "?t \<notin> tents st" using wfg_private [OF m(1)] m(5,6) by auto
  have mid: "midRun (Suc ?i) ?s u st" using Suc.prems(1) i(1) by simp
  note one = runScope_step [OF st1 mid Suc.prems(3) t]
  have "\<exists>st'. iterM (\<lambda>i st. runScope i (scopebb st) (if z < i then beginBlock (cleanupScopes st ! (i - 1)) else u) st) (rev [z..<?i]) st1 = Some st'"
    by (rule Suc.hyps(1) [OF i(4)]) (use one(1,4,5) Suc.prems(3) runScope_selective [OF st1 Suc.prems(2)] i(2) in simp_all)
  then show ?case unfolding i(3) iterM.simps st1 bind.bind_lunit by simp
qed simp

lemma runCleanups_from_progress:
  assumes "wf st" "selectiveAll st" "nextBB st < 2 ^ 32" "u < nextBB st" "u \<notin> tents st" "a \<le> length (cleanupScopes st)" "z \<le> a"
    "unterminated (bbs st) (scopebb st)"
  shows "\<exists>st'. runCleanups_from a z u st = Some st'"
proof -
  have br: "\<exists>st1. CreateBr b st = Some st1 \<and> nextBB st1 = nextBB st \<and> cleanupScopes st1 = cleanupScopes st" for b
    using assms(8) by (auto simp: CreateBr_def terminate_def unterminated_def)
  obtain st1 where st1: "CreateBr (beginBlock (cleanupScopes st ! (a - 1))) st = Some st1" "nextBB st1 = nextBB st"
      "cleanupScopes st1 = cleanupScopes st" using br by blast
  have mid: "midRun a (scopebb st1) u st1" by (rule CreateBr_midRun [OF st1(1) assms(1,4,5,6)])
  have "selectiveAll st1" using assms(2) st1(3) by (simp add: selectiveAll_def)
  with runLoop_progress [OF mid _ _ assms(7)] show ?thesis
    using st1 assms(3,6,7) br by (auto simp: runCleanups_from_def)
qed

section \<open>Closing scopes succeeds\<close>

lemma rerouteGotos_progress:
  assumes "wfg st G" "selectiveAll st" "set gs \<subseteq> G" "distinct gs" "Suc i = length (cleanupScopes st)" "nextBB st + length gs < 2 ^ 32"
  shows "\<exists>st'. iterM (rerouteGoto i) gs st = Some st' \<and> nextBB st' = nextBB st + length gs \<and> selectiveAll st'"
  using assms
proof (induction gs arbitrary: st G)
  case (Cons g gs)
  let ?st1 = "replaceAllUsesWith (tentativeTarget g) (nextBB st) (snd (insertBB st))"
  have g: "g \<in> G" using Cons.prems(3) by simp
  note start = rerouteGoto_start [OF Cons.prems(1) g]
  have sel1: "selectiveAll ?st1" using Cons.prems(2) by (simp add: selectiveAll_def)
  obtain st2 where st2: "runScope i (sourceBlock g) (tentativeTarget g) ?st1 = Some st2"
    using runScope_progress [OF start(1) sel1 _ start(2,3), of i] Cons.prems(5,6) by auto
  define st' where "st' = eraseFromParent (nextBB st) (replaceAllUsesWith (nextBB st) (beginBlock (cleanupScopes st2 ! i)) st2)"
  have st': "rerouteGoto i g st = Some st'" using st2 by (simp add: rerouteGoto_def Let_def insertBB_def st'_def)
  have nb: "Suc (nextBB st) < 2 ^ 32" using Cons.prems(6) by simp
  note one = rerouteGoto_step [OF st' Cons.prems(1) g Cons.prems(5) nb]
  have sel: "selectiveAll st'" using runScope_selective [OF st2 sel1] by (simp add: selectiveAll_def st'_def)
  have "Suc i = length (cleanupScopes st')" using arg_cong [OF one(4), of length] Cons.prems(5) by simp
  then have "\<exists>st''. iterM (rerouteGoto i) gs st' = Some st'' \<and> nextBB st'' = nextBB st' + length gs \<and> selectiveAll st''"
    by (intro Cons.IH [OF one(1) sel]) (use Cons.prems one(5) in auto)
  then show ?case using st' one(5) by simp
qed simp

lemma popScope_progress:
  assumes "wf st" "selectiveAll st" "Suc i = length (cleanupScopes st)" "nextBB st + length (gotos st) < 2 ^ 32"
  shows "\<exists>st'. popScope i st = Some st' \<and> nextBB st' \<le> nextBB st + length (gotos st) \<and> selectiveAll st' \<and> gotos st' = gotos st"
proof -
  let ?gs = "currentUnresolvedGotos st"
  have l: "length (unresolvedGotosPerCleanupScope st) = Suc (Suc i)" using wf_lengths [OF assms(1)] assms(3) by simp
  have gs: "?gs = unresolvedGotosPerCleanupScope st ! Suc i" by (simp add: currentUnresolvedGotos_def currentCleanupScope_def assms(3))
  have m: "?gs \<in> set (unresolvedGotosPerCleanupScope st)" using l unfolding gs by simp
  have sub: "set ?gs \<subseteq> set (gotos st)" using m by (auto simp: gotos_def)
  have dist: "distinct ?gs" using distinct_gotos [OF assms(1)] m unfolding gotos_def by (metis distinct_concat_iff)
  have le: "length ?gs \<le> length (gotos st)" using card_mono [OF _ sub] distinct_card [OF dist] distinct_card [OF distinct_gotos [OF assms(1)]] by simp
  note wfg = wf_wfg [OF assms(1)]
  obtain st1 where st1: "iterM (rerouteGoto i) ?gs st = Some st1" "nextBB st1 = nextBB st + length ?gs" "selectiveAll st1"
    using rerouteGotos_progress [OF wfg assms(2) sub dist assms(3)] le assms(4) by auto
  have nb: "nextBB st1 < 2 ^ 32" using st1(2) le assms(4) by simp
  note rr = rerouteGotos [OF st1(1) wfg sub dist assms(3) nb]
  have wf1: "wfg st1 (set (gotos st) - set ?gs)" and g1: "gotos st1 = gotos st" and p: "map scopePair (cleanupScopes st1) = map scopePair (cleanupScopes st)"
    using rr by blast+
  have i1: "Suc i = length (cleanupScopes st1)" using arg_cong [OF p, of length] assms(3) by simp
  note same = dropScope_same [OF wf1 i1]
  have "selectiveAll (dropScope i st1)" using st1(3) same(7) by (auto simp: selectiveAll_def dest: in_set_butlastD)
  then show ?thesis using st1 same(1,4) g1 le by (simp add: popScope_drop)
qed

lemma popCleanups_progress:
  assumes "wf st" "selectiveAll st" "z \<le> length (cleanupScopes st)"
    and "nextBB st + length (cleanupScopes st) * length (gotos st) < 2 ^ 32"
  shows "\<exists>st'. popCleanups z st = Some st'"
proof -
  have "\<exists>st'. iterM popScope (rev [z..<i]) st = Some st'"
    if "wf st" "selectiveAll st" "i = length (cleanupScopes st)" "z \<le> i" "nextBB st + i * length (gotos st) < 2 ^ 32"
    for i and st :: "'a TryCatchFinallyScopes_scheme"
    using that
  proof (induction "i - z" arbitrary: i st)
    case (Suc n)
    let ?i = "i - 1"
    have i: "Suc ?i = i" "z \<le> ?i" "rev [z..<i] = ?i # rev [z..<?i]" "n = ?i - z"
      using Suc.hyps(2) upt_Suc_append [of z "i - 1"] by auto
    have len: "Suc ?i = length (cleanupScopes st)" using i(1) Suc.prems(3) by simp
    have mul: "i * length (gotos st) = length (gotos st) + ?i * length (gotos st)" using i(1) by (metis mult_Suc)
    have nb: "nextBB st + length (gotos st) < 2 ^ 32" using Suc.prems(5) mul by linarith
    obtain st1 where st1: "popScope ?i st = Some st1" "nextBB st1 \<le> nextBB st + length (gotos st)" "selectiveAll st1" "gotos st1 = gotos st"
      using popScope_progress [OF Suc.prems(1,2) len nb] by blast
    have nb1: "nextBB st1 < 2 ^ 32" using st1(2) nb by simp
    have "\<exists>st'. iterM popScope (rev [z..<?i]) st1 = Some st'"
    proof (rule Suc.hyps(1) [OF i(4) _ st1(3) _ i(2)])
      show "wf st1" by (rule popScope_step(1) [OF st1(1) Suc.prems(1) len nb1])
      show "?i = length (cleanupScopes st1)" using popScope_grows(2) [OF st1(1)] len by simp
      show "nextBB st1 + ?i * length (gotos st1) < 2 ^ 32" using Suc.prems(5) st1(2,4) mul by simp
    qed
    then show ?case unfolding i(3) iterM.simps st1(1) bind.bind_lunit by simp
  qed simp
  then show ?thesis using assms by (simp add: popCleanups_def currentCleanupScope_def)
qed

end
