(* ===== verification/JumpTargets.thy ===== *)
theory JumpTargets
  imports CleanupProgress
begin

text \<open>
  Jumps out of scopes, proved from what the scopes promise to the code that jumps.
\<close>

section \<open>What a stack of scopes promises\<close>

locale scope_stack =
  fixes ok :: "'st \<Rightarrow> bool"
    and later :: "'st \<Rightarrow> 'st \<Rightarrow> bool"
    and scopes :: "'st \<Rightarrow> 'c list"
    and here :: "'st \<Rightarrow> 'b"
    and valid :: "'st \<Rightarrow> 'b \<Rightarrow> bool"
    and leave :: "nat \<Rightarrow> 'b \<Rightarrow> 'st \<Rightarrow> 'st option"
    and reaches :: "'st \<Rightarrow> 'b \<Rightarrow> 'c list \<Rightarrow> 'b \<Rightarrow> bool"
  assumes leave_reaches: "ok st \<Longrightarrow> valid st u \<Longrightarrow> leave z u st = Some st' \<Longrightarrow> ok st' \<and> reaches st' (here st) (rev (drop z (scopes st))) u"
    and later_ok: "ok st \<Longrightarrow> later st st' \<Longrightarrow> ok st'"
    and later_reaches: "ok st \<Longrightarrow> later st st' \<Longrightarrow> reaches st b cs u \<Longrightarrow> reaches st' b cs u"
begin

text \<open>A jump recorded when the scopes were \<open>S\<close> leaves exactly the scopes opened since.\<close>

lemma leaves_new_scopes:
  assumes "ok st" "valid st u" "scopes st = S @ new" "leave (length S) u st = Some st1" "later st1 st2"
  shows "reaches st2 (here st) (rev new) u"
  using leave_reaches [OF assms(1,2,4)] later_reaches [OF _ assms(5)] assms(3) by auto

text \<open>Nothing else is left when no scope was opened since.\<close>

lemma leaves_nothing:
  assumes "ok st" "valid st u" "leave (length (scopes st)) u st = Some st1" "later st1 st2"
  shows "reaches st2 (here st) [] u"
  using leaves_new_scopes [OF assms(1,2) _ assms(3,4), of "[]"] by simp

end

section \<open>The scopes of the code generator\<close>

definition fits :: "'a TryCatchFinallyScopes_scheme \<Rightarrow> bool" where
  "fits st \<longleftrightarrow> good st \<and> nextBB st < 2 ^ 32"

definition reaches :: "'a TryCatchFinallyScopes_scheme \<Rightarrow> BB \<Rightarrow> (BB \<times> BB) list \<Rightarrow> BB \<Rightarrow> bool" where
  "reaches st b cs u \<longleftrightarrow> u \<notin> tents st \<and> (\<forall>exn. settled exn st b cs u)"

lemma reaches_follow: "fits st \<Longrightarrow> reaches st b cs u \<Longrightarrow> follow exn (bbs st) \<sigma> b cs = Some u"
  by (rule settled_follow) (auto simp: fits_def good_def reaches_def)

lemma codegen_bound: "codegen st st' \<Longrightarrow> nextBB st < 2 ^ 32 \<Longrightarrow> nextBB st' < 2 ^ 32"
  by (induction rule: codegen.induct) auto

lemma codegen_fits: "codegen st st' \<Longrightarrow> fits st \<Longrightarrow> fits st'"
  using codegen_good codegen_bound unfolding fits_def by blast

lemma reachable_fits: "reachable st \<Longrightarrow> fits st"
proof -
  assume r: "reachable st"
  then obtain st0 where st0: "TryCatchFinallyScopes.truncate st0 = initialScopes entryIRState" "codegen st0 st"
    by (auto simp: reachable_def)
  have "nextBB st0 = 1"
    using st0(1) by (cases st0) (simp add: TryCatchFinallyScopes.truncate_def initialScopes_def entryIRState_def IRState.extend_def)
  then show "fits st" using codegen_bound [OF st0(2)] reachable_good [OF r] by (simp add: fits_def)
qed

definition plainBlock :: "'a TryCatchFinallyScopes_scheme \<Rightarrow> BB \<Rightarrow> bool" where
  "plainBlock st b \<longleftrightarrow> b < nextBB st \<and> b \<notin> tents st"

interpretation scopes: scope_stack fits codegen pairs scopebb plainBlock runCleanups reaches
proof
  fix st st' :: "'a TryCatchFinallyScopes_scheme" and u z
  assume st: "fits st" "plainBlock st u" "runCleanups z u st = Some st'"
  have u: "u < nextBB st" "u \<notin> tents st" using st(2) by (auto simp: plainBlock_def)
  have r: "runCleanups_from (length (cleanupScopes st)) z u st = Some st'" using st(3) by (simp add: runCleanups_def currentCleanupScope_def)
  have g: "good st" "nextBB st < 2 ^ 32" "wf st" using st(1) by (auto simp: fits_def good_def)
  have nb: "nextBB st' < 2 ^ 32" using runCleanups_from_shape(1) [OF r] g(2) by simp
  have "fits st'" using step_good [OF step.runs [OF st(3) u] g(1) nb] nb by (simp add: fits_def)
  moreover note runCleanups_from_step [OF r g(3,2) u order_refl]
  ultimately show "fits st' \<and> reaches st' (scopebb st) (rev (drop z (pairs st))) u"
    using u by (simp add: reaches_def tents_def)
next
  fix st st' :: "'a TryCatchFinallyScopes_scheme" and b cs u
  assume st: "fits st" "codegen st st'"
  show "fits st'" by (rule codegen_fits [OF st(2,1)])
  assume "reaches st b cs u"
  then show "reaches st' b cs u"
    using codegen_good [OF st(2)] st(1) unfolding fits_def reaches_def evolves_def keepsRoutes_def by blast
qed

section \<open>Jump targets\<close>

lemma find_last_target:
  assumes "ts = earlier @ t # inner" "P t" "\<forall>x\<in>set inner. \<not> P x"
  shows "find P (rev ts) = Some t"
proof -
  have "find P (rev inner @ [t] @ rev earlier) = Some t"
    using assms(2,3) by (induction inner rule: rev_induct) (auto)
  then show ?thesis by (simp add: assms(1))
qed

lemma jumpToStatement_target:
  assumes "ts = earlier @ t # inner" "targetStatement t = s" "\<forall>x\<in>set inner. targetStatement x \<noteq> s"
  shows "jumpToStatement ts s st = jumpTo t st"
  using find_last_target [OF assms(1), of "\<lambda>x. targetStatement x = s"] assms(2,3) by (simp add: jumpToStatement_def)

lemma newJumpTarget_scope: "targetScope (newJumpTarget b s st) = length (pairs st)" "targetBlock (newJumpTarget b s st) = b"
    "targetStatement (newJumpTarget b s st) = s"
  by (simp_all add: newJumpTarget_def currentCleanupScope_def)

lemma pushLoopTarget_codegen:
  assumes "nextBB st < 2 ^ 32"
  shows "codegen st (pushLoopTarget s c b st)"
proof -
  let ?st = "pushLoopTarget s c b st"
  have "st\<lparr>TryCatchFinallyScopes.more := TryCatchFinallyScopes.more ?st\<rparr> = ?st"
    by (cases st) (simp add: pushLoopTarget_def)
  then have "step st ?st" using step.other [of st "TryCatchFinallyScopes.more ?st"] by simp
  then show ?thesis by (rule codegen_one) (use assms in \<open>simp add: pushLoopTarget_def\<close>)
qed

text \<open>A jump to a target that was recorded when the scopes were those of \<open>st0\<close>.\<close>

lemma jumpTo_follow:
  assumes "fits st" "plainBlock st b" "pairs st = pairs st0 @ new" "jumpTo (newJumpTarget b s st0) st = Some st1" "codegen st1 st2"
  shows "follow exn (bbs st2) \<sigma> (scopebb st) (rev new) = Some b"
proof -
  have l: "runCleanups (length (pairs st0)) b st = Some st1" using assms(4) by (simp add: jumpTo_def newJumpTarget_scope)
  have "reaches st2 (scopebb st) (rev new) b" by (rule scopes.leaves_new_scopes [OF assms(1-3) l assms(5)])
  moreover have "fits st1" using scopes.leave_reaches [OF assms(1,2) l] by blast
  ultimately show ?thesis using codegen_fits [OF assms(5)] by (intro reaches_follow)
qed

section \<open>Calls\<close>

lemma callOrInvoke_invoke:
  assumes "callOrInvoke ue fn nt st = Some (InvokedWith pad, st')" "fits st" "nextBB st' < 2 ^ 32"
  shows "fits st'" "codegen st st'" "validPad st' (pairs st) (tryCatchScopes st) pad" "pairs st' = pairs st"
    and "\<exists>blk post. bbs st' (scopebb st) = Some blk \<and> terminator blk = Some (InvokeInst post pad) \<and> scopebb st' = post \<and> post < nextBB st' \<and> post \<notin> tents st'"
    and "scopebb st \<notin> ends st'"
proof -
  obtain st1 st3 where st1: "getLandingPad st = Some (pad, st1)"
      and st3: "terminate (scopebb (snd (insertBB st1))) (InvokeInst (nextBB st1) pad) (snd (insertBB st1)) = Some st3"
      and st': "st' = st3\<lparr>scopebb := nextBB st1\<rparr>"
    using assms(1) by (auto simp: callOrInvoke_def insertBB_def Let_def split: if_splits Option.bind_splits)
  have g: "wf st" "padsOK st" using assms(2) by (auto simp: fits_def good_def)
  have nb3: "nextBB st3 = Suc (nextBB st1)" using st3 by (auto simp: terminate_def split: Option.bind_splits if_splits)
  have nb: "nextBB st1 < 2 ^ 32" using assms(3) nb3 st' by simp
  note pad = getLandingPad_step [OF st1 g nb]
  note same = steady_same [OF pad(1)]
  note wfg = wf_wfg [OF same(4)]
  have n: "nextBB st1 \<notin> ends st1" "nextBB st1 \<notin> tents st1" using wfg_end_block(2) [OF wfg] wfg_tent(2) [OF wfg] by auto
  let ?st2 = "snd (insertBB st1)"
  have q2: "quiet st1 ?st2" by (rule quiet_insertBB [OF wfg])
  have q3: "quiet ?st2 st3"
    by (rule quiet_terminate [OF quiet_wfg [OF q2 wfg] st3]) (use wfg_scopebb [OF wfg] in simp_all)
  have s3: "ends st3 = ends st1" "tents st3 = tents st1" using quiet_same [OF q3] by simp_all
  have c: "codegen st st1" by (rule codegen_one [OF step.pad [OF st1] nb])
  have "codegen st ?st2" by (rule codegen.step [OF c step.insert]) (use nb3 st' assms(3) in simp)
  then have "codegen st st3" by (rule codegen.step) (use st3 wfg_scopebb [OF wfg] nb3 st' assms(3) in \<open>auto intro: step.finish\<close>)
  then show cg: "codegen st st'"
    by (rule codegen.step) (use st' n s3 nb3 assms(3) step.move [of "nextBB st1" st3] in auto)
  show "fits st'" by (rule codegen_fits [OF cg assms(2)])
  have q: "quiet st1 st3" by (rule quiet_trans [OF q2 q3])
  have "quiet st3 st'" unfolding st' by (rule quiet_setInsertPoint [OF quiet_wfg [OF q wfg]]) (use n s3 nb3 in simp_all)
  with q have qq: "quiet st1 st'" by (rule quiet_trans)
  have "resumeUnwindBlock st' = resumeUnwindBlock st1" using st3 st' by (auto simp: terminate_def insertBB_def split: Option.bind_splits if_splits)
  then show "validPad st' (pairs st) (tryCatchScopes st) pad"
    using evolves_validPad [OF quiet_evolves [OF qq same(4)]] pad(1,4,6) by (simp add: steady_def)
  show "pairs st' = pairs st" using quiet_pairs [OF qq] pad(1) by (simp add: steady_def)
  have "bbs st1 (scopebb st1) \<noteq> None" if "scopebb st1 \<noteq> nextBB st1"
    using that st3 by (auto simp: terminate_def split: Option.bind_splits if_splits)
  have "scopebb st1 \<noteq> nextBB st1" using wfg_scopebb(3) [OF wfg] by simp
  then show "\<exists>blk post. bbs st' (scopebb st) = Some blk \<and> terminator blk = Some (InvokeInst post pad) \<and> scopebb st' = post \<and> post < nextBB st' \<and> post \<notin> tents st'"
    using st3 st' pad(3) n s3 nb3 quiet_same(3) [OF qq] by (auto simp: terminate_def split: Option.bind_splits if_splits)
  show "scopebb st \<notin> ends st'" using wfg_scopebb(1) [OF wfg] pad(3) quiet_same(2) [OF qq] by simp
qed

lemma unwinds_plain:
  assumes "unwinds exn st b cs t" "wf st" "plainBlock st t"
  shows "plainBlock st b"
  using assms
proof cases
  case (onward cs1 m cs2)
  then have "terminated (bbs st) b" by (auto simp: settled_def dest: route_terminated)
  then show ?thesis using wfg_less [OF wf_wfg [OF assms(2)]] wfg_tent(1) [OF wf_wfg [OF assms(2)], of b]
    by (auto simp: plainBlock_def terminated_def unterminated_def)
qed simp

lemma handlerOf_body:
  assumes "handlerOf exn S (rev tcs) = (cs, Some b)"
  shows "\<exists>tc\<in>set tcs. \<exists>cb\<in>set (catchBlocks tc). bodyBB cb = b \<and> exn = Some (classInfoPtr cb)"
  using assms seek_body [of exn S "rev tcs" "length S"] by (auto simp: handlerOf_def split: prod.splits option.splits)

text \<open>What becomes of an exception that arrives at a valid landing pad.\<close>

lemma validPad_flows:
  assumes "validPad st S tcs pad" "good st" "\<forall>tc\<in>set tcs. bodiesOK st tc" "handlerOf exn S (rev tcs) = (cs, h)"
  shows "plainBlock st pad" "\<exists>t. unwinds exn st pad cs t \<and> (case h of Some body \<Rightarrow> t = body | None \<Rightarrow> resumes st t)"
proof -
  have wf: "wf st" and ok: "resumeOK st" using assms(2) by (auto simp: good_def padsOK_def)
  obtain r where r: "resumeUnwindBlock st = Some r" "unwinds exn st pad cs (case h of None \<Rightarrow> r | Some b \<Rightarrow> b)"
    using assms(1,4) unfolding validPad_def by blast
  have res: "resumes st r" using ok r(1) by (simp add: resumeOK_def)
  show "\<exists>t. unwinds exn st pad cs t \<and> (case h of Some body \<Rightarrow> t = body | None \<Rightarrow> resumes st t)"
    using r(2) res by (cases h) auto
  have "plainBlock st (case h of None \<Rightarrow> r | Some b \<Rightarrow> b)"
  proof (cases h)
    case None
    then show ?thesis using resumes_block [OF wf res] by (simp add: plainBlock_def)
  next
    case (Some b)
    then obtain tc cb where "tc \<in> set tcs" "cb \<in> set (catchBlocks tc)" "bodyBB cb = b" using handlerOf_body assms(4) by blast
    then show ?thesis using assms(3) Some by (auto simp: bodiesOK_def plainBlock_def)
  qed
  then show "plainBlock st pad" by (rule unwinds_plain [OF r(2) wf])
qed

lemma evolves_terminator:
  assumes "evolves st st'" "bbs st b = Some blk" "terminator blk = Some (InvokeInst x y)" "b \<notin> ends st" "plainBlock st x" "plainBlock st y"
  shows "\<exists>blk'. bbs st' b = Some blk' \<and> terminator blk' = Some (InvokeInst x y)"
proof -
  obtain blk' f where f: "bbs st' b = Some blk'" "terminator blk' = Some (substTerminator f (InvokeInst x y))"
      "\<forall>z. z \<notin> tents st \<union> {nextBB st..} \<longrightarrow> f z = z"
    using assms(1-4) unfolding evolves_def renamed_def by blast
  have "f x = x" "f y = y" using f(3) assms(5,6) by (auto simp: plainBlock_def)
  then show ?thesis using f by simp
qed

end
