(* ===== verification/CleanupProperties.thy ===== *)
theory CleanupProperties
  imports JumpTargets
begin

text \<open>
  What the scopes of a function guarantee of the code that is emitted: the properties, and a
  small function on which their hypotheses are met.
\<close>

section \<open>A sample function\<close>

text \<open>
  A cleanup in block 1 around code that is left towards block 2 from block 0, and towards block
  4 from block 3.
\<close>

definition sample1 :: TryCatchFinallyScopes where
  "sample1 = (pushCleanup 1 1 (snd (insertBB (initialScopes entryIRState))))\<lparr>scopebb := 0\<rparr>"

definition sample2 :: TryCatchFinallyScopes where
  "sample2 = the (runCleanups 0 2 (snd (insertBB sample1)))"

definition sample3 :: TryCatchFinallyScopes where
  "sample3 = snd (insertBB ((snd (insertBB sample2))\<lparr>scopebb := 3\<rparr>))"

definition sample4 :: TryCatchFinallyScopes where
  "sample4 = the (runCleanups 0 4 sample3)"

definition sampleView :: "'a TryCatchFinallyScopes_scheme \<Rightarrow> nat \<times> nat \<times> nat list \<times> nat list \<times> (nat \<times> nat) list \<times> nat list" where
  "sampleView st = (nextBB st, scopebb st, map endBlock (cleanupScopes st), map tentativeTarget (concat (unresolvedGotosPerCleanupScope st)),
     map scopePair (cleanupScopes st), map cleanupScope (tryCatchScopes st))"

lemma sample1_view: "sampleView sample1 = (2, 0, [1], [], [(1, 1)], [])"
  by code_simp

lemma sample2_some: "runCleanups 0 2 (snd (insertBB sample1)) = Some sample2"
proof -
  have "\<not> Option.is_none (runCleanups 0 2 (snd (insertBB sample1)))" by code_simp
  then show ?thesis by (simp add: sample2_def Option.is_none_def)
qed

lemma sample4_some: "runCleanups 0 4 sample3 = Some sample4"
proof -
  have "\<not> Option.is_none (runCleanups 0 4 sample3)" by code_simp
  then show ?thesis by (simp add: sample4_def Option.is_none_def)
qed

lemma sample_views: "sampleView sample2 = (3, 0, [1], [], [(1, 1)], [])" "sampleView sample3 = (5, 3, [1], [], [(1, 1)], [])"
  "sampleView sample4 = (5, 3, [1], [], [(1, 1)], [])"
  by code_simp+

lemma sampleView_fields:
  assumes "sampleView st = (n, s, es, ts, ps, cs)"
  shows "nextBB st = n" "scopebb st = s" "ends st = set es" "tents st = set ts" "pairs st = ps" "map cleanupScope (tryCatchScopes st) = cs"
proof -
  note eqs = assms [unfolded sampleView_def prod.inject, THEN conjunct1] assms [unfolded sampleView_def prod.inject, THEN conjunct2]
  show "nextBB st = n" "scopebb st = s" "pairs st = ps" "map cleanupScope (tryCatchScopes st) = cs" using eqs by (simp_all add: pairs_def)
  have "es = map endBlock (cleanupScopes st)" "ts = map tentativeTarget (gotos st)" using eqs by (simp_all add: gotos_def)
  then show "ends st = set es" "tents st = set ts" by (simp_all add: ends_def tents_def)
qed

lemma start_reachable: "reachable (initialScopes entryIRState)" "reachable (initialFuncGenState entryIRState)"
proof -
  show "reachable (initialScopes entryIRState)"
    unfolding reachable_def by (rule exI [of _ "initialScopes entryIRState"]) (simp add: TryCatchFinallyScopes.truncate_def codegen.refl)
  show "reachable (initialFuncGenState entryIRState)"
    unfolding reachable_def by (rule exI [of _ "initialFuncGenState entryIRState"])
      (simp add: TryCatchFinallyScopes.truncate_def initialFuncGenState_def TryCatchFinallyScopes.extend_def codegen.refl)
qed

lemma reachable_step: "reachable st \<Longrightarrow> step st st' \<Longrightarrow> nextBB st' < 2 ^ 32 \<Longrightarrow> reachable st'"
  by (rule reachable_codegen [OF _ codegen_one])

lemma reachable_insert: "reachable st \<Longrightarrow> Suc (nextBB st) < 2 ^ 32 \<Longrightarrow> reachable (snd (insertBB st))"
  by (rule reachable_step [OF _ step.insert]) simp_all

lemma sample_reachable: "reachable sample1" "reachable sample2" "reachable sample3" "reachable sample4"
proof -
  let ?s = "initialScopes entryIRState :: TryCatchFinallyScopes"
  have v0: "sampleView (snd (insertBB ?s)) = (2, 0, [], [], [], [])" by code_simp
  have "map_option terminator (bbs (snd (insertBB ?s)) 1) = Some None" by code_simp
  then have u: "unterminated (bbs (snd (insertBB ?s))) 1" by (auto simp: unterminated_def)
  have "reachable (snd (insertBB ?s))" by (rule reachable_insert [OF start_reachable(1)]) (simp add: initialScopes_def entryIRState_def IRState.extend_def)
  then show r1: "reachable sample1" unfolding sample1_def
    by (rule reachable_step [OF _ step.push [OF u]]) (use sampleView_fields [OF v0] in \<open>simp_all add: pushCleanup_def\<close>)
  have v1: "sampleView (snd (insertBB sample1)) = (3, 0, [1], [], [(1, 1)], [])" by code_simp
  have "reachable (snd (insertBB sample1))" by (rule reachable_insert [OF r1]) (simp add: sampleView_fields [OF sample1_view])
  then show r2: "reachable sample2"
    by (rule reachable_step [OF _ step.runs [OF sample2_some]]) (use sampleView_fields [OF v1] sampleView_fields [OF sample_views(1)] in simp_all)
  have v2: "sampleView (snd (insertBB sample2)) = (4, 0, [1], [], [(1, 1)], [])" by code_simp
  have "reachable (snd (insertBB sample2))" by (rule reachable_insert [OF r2]) (simp add: sampleView_fields [OF sample_views(1)])
  then have "reachable ((snd (insertBB sample2))\<lparr>scopebb := 3\<rparr>)"
    by (rule reachable_step [OF _ step.move]) (use sampleView_fields [OF v2] in simp_all)
  then show r3: "reachable sample3" unfolding sample3_def
    by (rule reachable_insert) (use sampleView_fields [OF v2] in simp)
  then show "reachable sample4"
    by (rule reachable_step [OF _ step.runs [OF sample4_some]]) (use sampleView_fields [OF sample_views(2)] sampleView_fields [OF sample_views(3)] in simp_all)
qed

section \<open>Leaving scopes\<close>

text \<open>
  C26: Whatever else is emitted before or after, control that leaves the block where
  \<open>runCleanups\<close> was called runs exactly the cleanups of the scopes above the target scope,
  innermost first, and then continues with the given block: the branch selectors that all the
  other users of the shared cleanups have set up never mislead it.
\<close>

theorem cleanups_run_in_order:
  assumes "reachable st" "runCleanups z u st = Some st1" "plainBlock st u" "codegen st1 st2"
  shows "follow exn (bbs st2) \<sigma> (scopebb st) (rev (drop z (map scopePair (cleanupScopes st)))) = Some u"
proof -
  note fits = reachable_fits [OF assms(1)]
  have one: "fits st1 \<and> reaches st1 (scopebb st) (rev (drop z (pairs st))) u"
    by (rule scopes.leave_reaches [OF fits assms(3,2)])
  then have "reaches st2 (scopebb st) (rev (drop z (pairs st))) u" "fits st2"
    using scopes.later_reaches [OF _ assms(4)] codegen_fits [OF assms(4)] by blast+
  then show ?thesis unfolding pairs_def [symmetric] by (rule reaches_follow [rotated])
qed

theorem cleanups_run_in_order_witness:
  "reachable sample3 \<and> follow None (bbs sample4) Map.empty 3 [(1, 1)] = Some 4"
proof -
  have "plainBlock sample3 4" using sampleView_fields [OF sample_views(2)] by (simp add: plainBlock_def)
  from cleanups_run_in_order [OF sample_reachable(3) sample4_some this codegen.refl, of None Map.empty]
  show ?thesis using sampleView_fields [OF sample_views(2)] sample_reachable(3) by (simp add: pairs_def [symmetric])
qed

text \<open>
  C27: A forward \<open>goto\<close>: at the end of the function it has either been reported, or its label was
  added in a scope that encloses it, and then control runs exactly the cleanups of the scopes
  between the two, innermost first, and arrives at the block of the label.
\<close>

theorem goto_resolved_or_reported:
  assumes "reachable st" "registerUnresolvedGoto loc l st = Some st1" "nextBB st1 < 2 ^ 32" "codegen st1 st2" "finishScopes st2 = Some r"
  shows "(\<exists>locs. r = Inl locs \<and> loc \<in> set locs) \<or>
    (\<exists>sa b. codegen st1 sa \<and> codegen (tryResolveGotos l b sa) st2 \<and> pairs sa = take (currentCleanupScope sa) (pairs st)
       \<and> (\<forall>exn \<sigma>. follow exn (bbs st2) \<sigma> (scopebb st) (rev (drop (currentCleanupScope sa) (pairs st))) = Some b))"
proof -
  let ?g = "\<lparr>sourceLoc = loc, sourceBlock = scopebb st, tentativeTarget = nextBB st, targetLabel = l\<rparr>"
  have good: "good st" "wf st" using reachable_good [OF assms(1)] by (auto simp: good_def)
  have good1: "good st1" using step_good [OF step.goto [OF assms(2)] good(1) assms(3)] by simp
  have "awaits st1 ?g (pairs st) (length (pairs st))"
    using registerUnresolvedGoto_step(7) [OF assms(2) good(2)] by (simp add: awaits_def)
  from codegen_awaits [OF assms(4) good1 this] show ?thesis
  proof
    assume "\<exists>k. awaits st2 ?g (pairs st) k"
    then obtain k where k: "?g \<in> set (unresolvedGotosPerCleanupScope st2 ! k)" "k < length (unresolvedGotosPerCleanupScope st2)"
      by (auto simp: awaits_def pending_def)
    have "wf st2" using codegen_good [OF assms(4) good1] by (simp add: good_def)
    moreover have z: "length (cleanupScopes st2) = 0" using assms(5) by (simp add: finishScopes_def currentCleanupScope_def split: if_splits)
    ultimately have "k = 0" using k(2) wf_lengths by fastforce
    then have "?g \<in> set (currentUnresolvedGotos st2)" using k z by (simp add: currentUnresolvedGotos_def currentCleanupScope_def)
    then have "r = Inl (map sourceLoc (currentUnresolvedGotos st2))" "loc \<in> set (map sourceLoc (currentUnresolvedGotos st2))"
      using assms(5) by (auto simp: finishScopes_def image_iff split: if_splits intro!: bexI [of _ ?g])
    then show ?thesis by blast
  next
    assume "\<exists>sa b. codegen st1 sa \<and> awaits sa ?g (pairs st) (currentCleanupScope sa) \<and> b < nextBB sa \<and> b \<notin> tents sa
      \<and> codegen (tryResolveGotos (targetLabel ?g) b sa) st2"
    then obtain sa b where sa: "codegen st1 sa" "awaits sa ?g (pairs st) (currentCleanupScope sa)" "b < nextBB sa" "b \<notin> tents sa"
        "codegen (tryResolveGotos (targetLabel ?g) b sa) st2" by blast
    have "good sa" "nextBB sa < 2 ^ 32" using codegen_good [OF sa(1) good1] codegen_bound [OF sa(1) assms(3)] by auto
    from resolved_follow [OF sa(2) this(1) sa(3-5) this(2)] sa show ?thesis by (auto intro!: exI [of _ sa] exI [of _ b])
  qed
qed

definition sampleGoto1 :: TryCatchFinallyScopes where
  "sampleGoto1 = the (registerUnresolvedGoto 7 77 sample1)"

definition sampleGoto2 :: TryCatchFinallyScopes where
  "sampleGoto2 = snd (insertBB (the (popCleanups 0 sampleGoto1)))"

definition sampleGoto3 :: TryCatchFinallyScopes where
  "sampleGoto3 = tryResolveGotos 77 4 sampleGoto2"

lemma sampleGoto_some: "registerUnresolvedGoto 7 77 sample1 = Some sampleGoto1" "popCleanups 0 sampleGoto1 = Some (the (popCleanups 0 sampleGoto1))"
proof -
  have "\<not> Option.is_none (registerUnresolvedGoto 7 77 sample1)" "\<not> Option.is_none (popCleanups 0 sampleGoto1)" by code_simp+
  then show "registerUnresolvedGoto 7 77 sample1 = Some sampleGoto1" "popCleanups 0 sampleGoto1 = Some (the (popCleanups 0 sampleGoto1))"
    by (simp_all add: sampleGoto1_def Option.is_none_def)
qed

lemma sampleGoto_views: "sampleView sampleGoto1 = (3, 0, [1], [2], [(1, 1)], [])" "sampleView (the (popCleanups 0 sampleGoto1)) = (4, 0, [], [2], [], [])"
  "sampleView sampleGoto2 = (5, 0, [], [2], [], [])" "sampleView sampleGoto3 = (5, 0, [], [], [], [])"
  by code_simp+

lemma sampleGoto_codegen: "codegen sampleGoto1 sampleGoto3"
proof -
  have "codegen sampleGoto1 (the (popCleanups 0 sampleGoto1))"
    by (rule codegen_one [OF step.pop [OF sampleGoto_some(2)]])
      (use sampleView_fields [OF sampleGoto_views(1)] sampleView_fields [OF sampleGoto_views(2)] in simp_all)
  then have "codegen sampleGoto1 sampleGoto2" unfolding sampleGoto2_def
    by (rule codegen.step [OF _ step.insert]) (use sampleView_fields [OF sampleGoto_views(2)] in simp)
  then show ?thesis unfolding sampleGoto3_def
    by (rule codegen.step [OF _ step.resolve])
      (use sampleView_fields [OF sampleGoto_views(3)] sampleView_fields [OF sampleGoto_views(4)] in \<open>simp_all add: sampleGoto3_def\<close>)
qed

lemma sampleGoto_reachable: "reachable sampleGoto1" "reachable sampleGoto2"
proof -
  show r: "reachable sampleGoto1"
    by (rule reachable_step [OF sample_reachable(1) step.goto [OF sampleGoto_some(1)]]) (use sampleView_fields [OF sampleGoto_views(1)] in simp)
  have "reachable (the (popCleanups 0 sampleGoto1))"
    by (rule reachable_step [OF r step.pop [OF sampleGoto_some(2)]])
      (use sampleView_fields [OF sampleGoto_views(1)] sampleView_fields [OF sampleGoto_views(2)] in simp_all)
  then show "reachable sampleGoto2" unfolding sampleGoto2_def
    by (rule reachable_insert) (use sampleView_fields [OF sampleGoto_views(2)] in simp)
qed

theorem goto_resolved_or_reported_witness:
  "finishScopes sampleGoto3 = Some (Inr ()) \<and> (\<exists>k b. follow None (bbs sampleGoto3) Map.empty 0 (rev (drop k [(1, 1)])) = Some b)"
proof -
  have fin: "finishScopes sampleGoto3 = Some (Inr ())" by code_simp
  have "nextBB sampleGoto1 < 2 ^ 32" using sampleView_fields [OF sampleGoto_views(1)] by simp
  from goto_resolved_or_reported [OF sample_reachable(1) sampleGoto_some(1) this sampleGoto_codegen fin]
  have "\<exists>k b. \<forall>exn \<sigma>. follow exn (bbs sampleGoto3) \<sigma> 0 (rev (drop k [(1, 1)])) = Some b"
    using sampleView_fields(2,5) [OF sample1_view] by simp blast
  then show ?thesis using fin by blast
qed

section \<open>Exceptions\<close>

text \<open>
  C28: A call that is emitted as an \<open>invoke\<close> unwinds to a landing pad from which an exception, for
  every value of its selector, runs the cleanups between the call and the innermost matching
  catch in order, interleaved with the tests of the catches it passes, and enters the body of
  that catch; if none matches, it runs all cleanups and unwinding resumes. This holds for a
  landing pad that the cache hands out again as well as for a new one, and nothing that is
  emitted later changes it.
\<close>

theorem exception_reaches_handler:
  assumes "reachable st" "callOrInvoke ue fn nt st = Some (InvokedWith pad, st1)" "nextBB st1 < 2 ^ 32" "codegen st1 st2"
    and "handlerOf exn (pairs st) (rev (tryCatchScopes st)) = (cs, h)"
  shows "(\<exists>t. flows exn (bbs st2) pad cs t \<and> (case h of Some body \<Rightarrow> t = body | None \<Rightarrow> resumes st2 t))
    \<and> (\<exists>blk. bbs st2 (scopebb st) = Some blk \<and> terminator blk = Some (InvokeInst (scopebb st1) pad))"
proof -
  note fits = reachable_fits [OF assms(1)]
  note inv = callOrInvoke_invoke [OF assms(2) fits assms(3)]
  have g1: "good st1" "wf st1" using inv(1) by (auto simp: fits_def good_def)
  have ev: "evolves st1 st2" "wf st2" using codegen_good [OF assms(4) g1(1)] by (auto simp: good_def)
  have "\<forall>tc\<in>set (tryCatchScopes st). bodiesOK st tc" using fits by (simp add: fits_def good_def padsOK_def)
  then have bodies: "\<forall>tc\<in>set (tryCatchScopes st). bodiesOK st1 tc"
    using evolves_bodiesOK codegen_good [OF inv(2)] fits by (auto simp: fits_def)
  note pad = validPad_flows [OF inv(3) g1(1) bodies assms(5)]
  obtain t where t: "unwinds exn st1 pad cs t" "case h of Some body \<Rightarrow> t = body | None \<Rightarrow> resumes st1 t" using pad(2) by blast
  have "unwinds exn st2 pad cs t" using unwinds_keeps [OF t(1)] ev(1) by (simp add: evolves_def)
  then have "flows exn (bbs st2) pad cs t" using ev(2) by (rule unwinds_flows)
  moreover have "case h of Some body \<Rightarrow> t = body | None \<Rightarrow> resumes st2 t"
    using t(2) evolves_resumes [OF ev(1) g1(2)] by (cases h) auto
  moreover have "\<exists>blk. bbs st2 (scopebb st) = Some blk \<and> terminator blk = Some (InvokeInst (scopebb st1) pad)"
    using inv(5,6) pad(1) evolves_terminator [OF ev(1)] by (auto simp: plainBlock_def)
  ultimately show ?thesis by blast
qed

text \<open>A catch for class 9 with its body in block 1, and in it a cleanup in block 2.\<close>

definition sampleTry1 :: TryCatchFinallyScopes where
  "sampleTry1 = snd (insertBB (pushTryCatch [\<lparr>classInfoPtr = 9, bodyBB = 1\<rparr>] False (snd (insertBB (initialScopes entryIRState)))))"

definition sampleTry2 :: TryCatchFinallyScopes where
  "sampleTry2 = (pushCleanup 2 2 sampleTry1)\<lparr>scopebb := 0\<rparr>"

definition sampleTry3 :: TryCatchFinallyScopes where
  "sampleTry3 = snd (the (callOrInvoke True None False sampleTry2))"

lemma sampleTry_views: "sampleView sampleTry1 = (3, 0, [], [], [], [0])" "sampleView sampleTry2 = (3, 0, [2], [], [(2, 2)], [0])"
  "sampleView sampleTry3 = (8, 7, [2], [], [(2, 2)], [0])"
  by code_simp+

lemma sampleTry_some: "callOrInvoke True None False sampleTry2 = Some (InvokedWith 3, sampleTry3)"
proof -
  have "map_option fst (callOrInvoke True None False sampleTry2) = Some (InvokedWith 3)" by code_simp
  then show ?thesis by (auto simp: sampleTry3_def)
qed

lemma sampleTry_reachable: "reachable sampleTry2"
proof -
  let ?s = "snd (insertBB (initialScopes entryIRState)) :: TryCatchFinallyScopes"
  have v0: "sampleView ?s = (2, 0, [], [], [], [])" by code_simp
  have "reachable ?s" by (rule reachable_insert [OF start_reachable(1)]) (simp add: initialScopes_def entryIRState_def IRState.extend_def)
  then have r1: "reachable (pushTryCatch [\<lparr>classInfoPtr = 9, bodyBB = 1\<rparr>] False ?s)"
    by (rule reachable_step [OF _ step.pushTry]) (use sampleView_fields [OF v0] in \<open>simp_all add: pushTryCatch_def Let_def\<close>)
  have r: "reachable sampleTry1" unfolding sampleTry1_def
    by (rule reachable_insert [OF r1]) (use sampleView_fields [OF v0] in \<open>simp add: pushTryCatch_def Let_def\<close>)
  have "map_option terminator (bbs sampleTry1 2) = Some None" by code_simp
  then have u: "unterminated (bbs sampleTry1) 2" by (auto simp: unterminated_def)
  show ?thesis unfolding sampleTry2_def
    by (rule reachable_step [OF r step.push [OF u]]) (use sampleView_fields [OF sampleTry_views(1)] in \<open>simp_all add: pushCleanup_def\<close>)
qed

theorem exception_reaches_handler_witness:
  "flows (Some 9) (bbs sampleTry3) 3 [(2, 2)] 1"
proof -
  have h: "handlerOf (Some 9) (pairs sampleTry2) (rev (tryCatchScopes sampleTry2)) = ([(2, 2)], Some 1)" by code_simp
  have "nextBB sampleTry3 < 2 ^ 32" using sampleView_fields [OF sampleTry_views(3)] by simp
  from exception_reaches_handler [OF sampleTry_reachable sampleTry_some this codegen.refl h] show ?thesis by simp
qed

section \<open>Breaking out of loops\<close>

text \<open>
  C29: A \<open>break\<close> or \<open>continue\<close> of a given loop, from anywhere inside it and also from inner loops
  and switches, runs exactly the cleanups of the scopes that were opened since the loop was
  entered, innermost first, and continues at the block that the loop registered.
\<close>

theorem loop_jump_leaves_inner_scopes:
  assumes "reachable st0" "codegen (pushLoopTarget s cont brk st0) st" "pairs st = pairs st0 @ new" "plainBlock st brk" "plainBlock st cont"
    and "breakTargets st = breakTargets (pushLoopTarget s cont brk st0) @ inner" "continueTargets st = continueTargets (pushLoopTarget s cont brk st0) @ inner'"
    and "\<forall>x\<in>set (inner @ inner'). targetStatement x \<noteq> s" "codegen st1 st2"
  shows "(breakToStatement s st = Some st1 \<longrightarrow> follow exn (bbs st2) \<sigma> (scopebb st) (rev new) = Some brk)
    \<and> (continueWithLoop s st = Some st1 \<longrightarrow> follow exn (bbs st2) \<sigma> (scopebb st) (rev new) = Some cont)"
proof -
  note fits0 = reachable_fits [OF assms(1)]
  have "fits (pushLoopTarget s cont brk st0)" by (rule codegen_fits [OF pushLoopTarget_codegen fits0]) (use fits0 in \<open>simp add: fits_def\<close>)
  then have fits: "fits st" by (rule codegen_fits [OF assms(2)])
  have "breakToStatement s st = jumpTo (newJumpTarget brk s st0) st" unfolding breakToStatement_def
    by (rule jumpToStatement_target) (use assms(6,8) in \<open>auto simp: pushLoopTarget_def newJumpTarget_scope\<close>)
  moreover have "continueWithLoop s st = jumpTo (newJumpTarget cont s st0) st" unfolding continueWithLoop_def
    by (rule jumpToStatement_target) (use assms(7,8) in \<open>auto simp: pushLoopTarget_def newJumpTarget_scope\<close>)
  ultimately show ?thesis
    using jumpTo_follow [OF fits assms(4,3) _ assms(9)] jumpTo_follow [OF fits assms(5,3) _ assms(9)] by metis
qed

definition sampleLoop0 :: FuncGenState where
  "sampleLoop0 = snd (insertBB (snd (insertBB (snd (insertBB (initialFuncGenState entryIRState))))))"

definition sampleLoop1 :: FuncGenState where
  "sampleLoop1 = (pushCleanup 3 3 (pushLoopTarget 5 2 1 sampleLoop0))\<lparr>scopebb := 0\<rparr>"

definition sampleLoop2 :: FuncGenState where
  "sampleLoop2 = the (breakToStatement 5 sampleLoop1)"

lemma sampleLoop_views: "sampleView sampleLoop0 = (4, 0, [], [], [], [])" "sampleView (pushLoopTarget 5 2 1 sampleLoop0) = (4, 0, [], [], [], [])"
  "sampleView sampleLoop1 = (4, 0, [3], [], [(3, 3)], [])"
  by code_simp+

lemma sampleLoop_reachable: "reachable sampleLoop0"
proof -
  let ?s = "initialFuncGenState entryIRState"
  have n: "nextBB ?s = 1" by (simp add: initialFuncGenState_def initialScopes_def entryIRState_def IRState.extend_def TryCatchFinallyScopes.extend_def)
  show ?thesis unfolding sampleLoop0_def
    by (intro reachable_insert start_reachable(2)) (simp_all add: n)
qed

lemma sampleLoop_codegen: "codegen (pushLoopTarget 5 2 1 sampleLoop0) sampleLoop1"
proof -
  have "map_option terminator (bbs (pushLoopTarget 5 2 1 sampleLoop0) 3) = Some None" by code_simp
  then have u: "unterminated (bbs (pushLoopTarget 5 2 1 sampleLoop0)) 3" by (auto simp: unterminated_def)
  show ?thesis unfolding sampleLoop1_def
    by (rule codegen_one [OF step.push [OF u]]) (use sampleView_fields [OF sampleLoop_views(2)] in \<open>simp_all add: pushCleanup_def\<close>)
qed

lemma sampleLoop_some: "breakToStatement 5 sampleLoop1 = Some sampleLoop2"
proof -
  have "\<not> Option.is_none (breakToStatement 5 sampleLoop1)" by code_simp
  then show ?thesis by (simp add: sampleLoop2_def Option.is_none_def)
qed

theorem loop_jump_leaves_inner_scopes_witness:
  "follow None (bbs sampleLoop2) Map.empty 0 [(3, 3)] = Some 1"
proof -
  note v = sampleView_fields [OF sampleLoop_views(3)]
  have "breakTargets sampleLoop1 = breakTargets (pushLoopTarget 5 2 1 sampleLoop0) @ []"
      "continueTargets sampleLoop1 = continueTargets (pushLoopTarget 5 2 1 sampleLoop0) @ []"
    by (simp_all add: sampleLoop1_def pushCleanup_def)
  moreover have "pairs sampleLoop1 = pairs sampleLoop0 @ [(3, 3)]" using v(5) sampleView_fields(5) [OF sampleLoop_views(1)] by simp
  moreover have "plainBlock sampleLoop1 1" "plainBlock sampleLoop1 2" using v by (simp_all add: plainBlock_def)
  ultimately show ?thesis
    using loop_jump_leaves_inner_scopes [OF sampleLoop_reachable sampleLoop_codegen _ _ _ _ _ _ codegen.refl, of "[(3, 3)]" "[]" "[]" sampleLoop2 None Map.empty]
      sampleLoop_some v(2) by simp
qed

section \<open>No assertion fails\<close>

text \<open>
  C30: In every state that the code generator can reach, \<open>runCleanups\<close> succeeds if the current block
  has no terminator yet and the target scope is open: none of the assertions in \<open>CleanupScope::run\<close>
  fails, no end block gets a second terminator, and no case value is used twice.
\<close>

theorem runCleanups_succeeds:
  assumes "reachable st" "unterminated (bbs st) (scopebb st)" "z \<le> currentCleanupScope st" "plainBlock st u"
  shows "\<exists>st'. runCleanups z u st = Some st'"
proof -
  have "wf st" "nextBB st < 2 ^ 32" using reachable_fits [OF assms(1)] by (auto simp: fits_def good_def)
  then show ?thesis unfolding runCleanups_def currentCleanupScope_def
    by (rule runCleanups_from_progress [OF _ reachable_selective [OF assms(1)]])
      (use assms(2-4) in \<open>simp_all add: plainBlock_def currentCleanupScope_def\<close>)
qed

theorem runCleanups_succeeds_witness: "\<exists>st'. runCleanups 0 4 sample3 = Some st'"
proof (rule runCleanups_succeeds [OF sample_reachable(3)])
  note v = sampleView_fields [OF sample_views(2)]
  have "map_option terminator (bbs sample3 3) = Some None" by code_simp
  then show "unterminated (bbs sample3) (scopebb sample3)" using v(2) by (auto simp: unterminated_def)
  show "plainBlock sample3 4" using v by (simp add: plainBlock_def)
qed simp

text \<open>
  C31: Closing scopes succeeds too, however many gotos have to be redirected through the cleanups,
  as long as the function stays below \<open>2\<^sup>3\<^sup>2\<close> blocks.
\<close>

theorem popCleanups_succeeds:
  assumes "reachable st" "z \<le> currentCleanupScope st" "nextBB st + length (cleanupScopes st) * length (gotos st) < 2 ^ 32"
  shows "\<exists>st'. popCleanups z st = Some st'"
  by (rule popCleanups_progress) (use reachable_good [OF assms(1)] reachable_selective [OF assms(1)] assms(2,3) in
    \<open>auto simp: good_def currentCleanupScope_def\<close>)

theorem popCleanups_succeeds_witness: "\<exists>st'. popCleanups 0 sampleGoto1 = Some st'"
proof (rule popCleanups_succeeds)
  have "length (cleanupScopes sampleGoto1) = 1 \<and> length (concat (unresolvedGotosPerCleanupScope sampleGoto1)) = 1" by code_simp
  then show "nextBB sampleGoto1 + length (cleanupScopes sampleGoto1) * length (gotos sampleGoto1) < 2 ^ 32"
    using sampleView_fields(1) [OF sampleGoto_views(1)] by (simp add: gotos_def)
qed (simp_all add: sampleGoto_reachable)

section \<open>Branch selectors\<close>

text \<open>
  C32: The bookkeeping of an open cleanup agrees with the code. Control that comes from a recorded
  source block leaves the cleanup towards the exit target it is recorded for; the targets are
  pairwise distinct, and there is a branch selector only if there are at least two.
\<close>

theorem cleanup_bookkeeping:
  assumes "reachable st" "c \<in> set (cleanupScopes st)"
  shows "(\<forall>x\<in>set (exitTargets c). \<forall>s\<in>set (sourceBlocks x). \<exists>sblk eblk. bbs st s = Some sblk \<and> bbs st (endBlock c) = Some eblk
      \<and> nextBlock exn (runStores (stores sblk) \<sigma>) (terminator eblk) = Some (branchTarget x))
    \<and> distinct (map branchTarget (exitTargets c)) \<and> (branchSelector c \<noteq> None \<longleftrightarrow> 2 \<le> length (exitTargets c))"
proof -
  have wf: "wf st" using reachable_good [OF assms(1)] by (simp add: good_def)
  have ok: "okScope (bbs st) (nextAlloca st) c" using wfg_recorded(1) [OF wf_wfg [OF wf] assms(2)] .
  obtain eblk where e: "bbs st (endBlock c) = Some eblk" using ok by (rule okScope_block)
  have "\<exists>sblk eblk. bbs st s = Some sblk \<and> bbs st (endBlock c) = Some eblk \<and> nextBlock exn (runStores (stores sblk) \<sigma>) (terminator eblk) = Some (branchTarget x)"
    if xs: "x \<in> set (exitTargets c)" "s \<in> set (sourceBlocks x)" for x s
  proof -
    obtain i where i: "i < length (exitTargets c)" "s \<in> set (sourceBlocks (exitTargets c ! i))" using xs by (metis in_set_conv_nth)
    have "selectsOK (bbs st) c" using ok by (simp add: okScope_def)
    with i have "\<exists>sblk. bbs st s = Some sblk" unfolding selectsOK_def by blast
    then obtain sblk where s: "bbs st s = Some sblk" by blast
    have "recordedTo c s (branchTarget x)" using xs by (auto simp: recordedTo_def)
    from okScope_hop [OF ok this s e] show ?thesis using s e hop_nextBlock by blast
  qed
  moreover have "selective c" using reachable_selective [OF assms(1)] assms(2) by (simp add: selectiveAll_def)
  ultimately show ?thesis using ok by (auto simp: okScope_def selective_def)
qed

theorem cleanup_bookkeeping_witness:
  "map (\<lambda>x. (branchTarget x, sourceBlocks x)) (exitTargets (cleanupScopes sample4 ! 0)) = [(2, [0]), (4, [3])]
   \<and> (\<exists>sblk eblk. bbs sample4 3 = Some sblk \<and> bbs sample4 (endBlock (cleanupScopes sample4 ! 0)) = Some eblk
        \<and> nextBlock None (runStores (stores sblk) Map.empty) (terminator eblk) = Some 4)
   \<and> branchSelector (cleanupScopes sample4 ! 0) \<noteq> None"
proof -
  let ?c = "cleanupScopes sample4 ! 0"
  have "length (cleanupScopes sample4) = 1" by code_simp
  then have c: "?c \<in> set (cleanupScopes sample4)" by (simp add: in_set_conv_nth)
  have t: "map (\<lambda>x. (branchTarget x, sourceBlocks x)) (exitTargets ?c) = [(2, [0]), (4, [3])]" by code_simp
  then have x: "exitTargets ?c ! 1 \<in> set (exitTargets ?c)" "3 \<in> set (sourceBlocks (exitTargets ?c ! 1))"
      "branchTarget (exitTargets ?c ! 1) = 4" "length (exitTargets ?c) = 2"
    by (auto simp: map_eq_Cons_conv)
  note props = cleanup_bookkeeping [OF sample_reachable(4) c, of None Map.empty]
  show ?thesis using props t x by fastforce
qed

section \<open>Resolving gotos\<close>

text \<open>
  C33: The loop of \<open>tryResolveGotos\<close>, which erases from the vector it walks over, ends, and leaves
  exactly the gotos to other labels, in their order; the tentative targets of the gotos it
  resolved no longer exist.
\<close>

theorem tryResolveGotos_removes_label:
  assumes "reachable st"
  shows "currentUnresolvedGotos (tryResolveGotos l b st) = filter (\<lambda>g. targetLabel g \<noteq> l) (currentUnresolvedGotos st)
    \<and> (\<forall>g\<in>set (currentUnresolvedGotos st). targetLabel g = l \<longrightarrow> bbs (tryResolveGotos l b st) (tentativeTarget g) = None)"
proof -
  let ?st = "tryResolveGotos l b st" and ?gs = "filter (\<lambda>g. targetLabel g = l) (currentUnresolvedGotos st)"
  have wf: "wf st" using reachable_good [OF assms] by (simp add: good_def)
  have "currentUnresolvedGotos ?st = filter (\<lambda>g. targetLabel g \<noteq> l) (currentUnresolvedGotos st)"
    using wf_lengths [OF wf] by (simp add: tryResolveGotos_eq currentUnresolvedGotos_def currentCleanupScope_def resolveOne_cs forgetGotos_def)
  moreover have "bbs (fold (resolveOne b) gs s) x = None" if "x \<in> tentativeTarget ` set gs \<or> bbs s x = None" for gs x and s :: "'a TryCatchFinallyScopes_scheme"
    using that by (induction gs arbitrary: s) (auto simp: resolveOne_def eraseFromParent_def rauw_bbs)
  then have "bbs ?st (tentativeTarget g) = None" if "g \<in> set ?gs" for g
    using that by (simp add: tryResolveGotos_eq)
  ultimately show ?thesis by auto
qed

theorem tryResolveGotos_removes_label_witness:
  "map targetLabel (currentUnresolvedGotos sampleGoto2) = [77] \<and> bbs (tryResolveGotos 77 4 sampleGoto2) 2 = None
   \<and> currentUnresolvedGotos (tryResolveGotos 77 4 sampleGoto2) = []"
proof -
  have g: "map (\<lambda>g. (targetLabel g, tentativeTarget g)) (currentUnresolvedGotos sampleGoto2) = [(77, 2)]" by code_simp
  show ?thesis using tryResolveGotos_removes_label [OF sampleGoto_reachable(2), of 77 4] g by auto
qed

end
