(* ===== verification/BitFields.thy ===== *)
theory BitFields
  imports AggrLayout
begin

text \<open>
  Reads and writes of bit fields (\<open>DBitFieldLValue\<close> in gen/dvalue.cpp) and their initialisation in
  struct literals (gen/toir.cpp), down to the bytes in memory.

  A value of the LLVM type \<open>iN\<close> is an integer between \<open>0\<close> and \<open>2\<^sup>N - 1\<close>; the widths are not powers
  of two in general. Memory is a function from byte addresses to bytes; a load or store of \<open>n\<close>
  bytes takes them in the byte order of the target.
\<close>

unbundle bit_operations_syntax

section \<open>Memory\<close>

type_synonym memory = "nat \<Rightarrow> u8"

fun fromBytes :: "u8 list \<Rightarrow> int" where
  "fromBytes [] = 0"
| "fromBytes (b # bs) = uint b OR push_bit 8 (fromBytes bs)"

definition loadInt :: "bool \<Rightarrow> nat \<Rightarrow> nat \<Rightarrow> memory \<Rightarrow> int" where
  "loadInt bigEndian n ptr mem =
     (let bs = map (\<lambda>i. mem (ptr + i)) [0..<n] in fromBytes (if bigEndian then rev bs else bs))"

definition storeInt :: "bool \<Rightarrow> nat \<Rightarrow> nat \<Rightarrow> int \<Rightarrow> memory \<Rightarrow> memory" where
  "storeInt bigEndian n ptr v mem = (\<lambda>a.
     if ptr \<le> a \<and> a < ptr + n
     then word_of_int (drop_bit (8 * (if bigEndian then n - 1 - (a - ptr) else a - ptr)) v)
     else mem a)"

section \<open>Integers of LLVM\<close>

text \<open>The instructions on \<open>i\<close>\<open>w\<close> that the code emits.\<close>

definition CreateShl :: "nat \<Rightarrow> int \<Rightarrow> nat \<Rightarrow> int" where
  "CreateShl w v n = take_bit w (push_bit n v)"

definition CreateLShr :: "int \<Rightarrow> nat \<Rightarrow> int" where
  "CreateLShr v n = drop_bit n v"

definition CreateAShr :: "nat \<Rightarrow> int \<Rightarrow> nat \<Rightarrow> int" where
  "CreateAShr w v n = take_bit w (drop_bit n (signed_take_bit (w - 1) v))"

definition CreateZExtOrTrunc :: "nat \<Rightarrow> int \<Rightarrow> int" where
  "CreateZExtOrTrunc to v = take_bit to v"

definition CreateSExtOrTrunc :: "nat \<Rightarrow> nat \<Rightarrow> int \<Rightarrow> int" where
  "CreateSExtOrTrunc w to v = take_bit to (signed_take_bit (w - 1) v)"

section \<open>Bit fields\<close>

text \<open>
  \<open>ptr\<close> is the address of the byte at the offset of the field, \<open>typeBits\<close> the width of the declared
  type of the field.
\<close>

record DBitFieldLValue =
  bfPtr :: nat
  bitOffset :: nat
  fieldWidth :: nat
  isUnsigned :: bool
  typeBits :: nat

definition intTypeBytes :: "DBitFieldLValue \<Rightarrow> nat" where
  "intTypeBytes bf = (bitOffset bf + fieldWidth bf + 7) div 8"

definition getRVal :: "bool \<Rightarrow> DBitFieldLValue \<Rightarrow> memory \<Rightarrow> int" where
  "getRVal bigEndian bf mem =
     (let sizeInBits = intTypeBytes bf * 8;
          v = loadInt bigEndian (intTypeBytes bf) (bfPtr bf) mem
      in if isUnsigned bf then
           let v = (if bitOffset bf \<noteq> 0 then CreateLShr v (bitOffset bf) else v);
               v = v AND mask (fieldWidth bf)
           in CreateZExtOrTrunc (typeBits bf) v
         else
           let n = sizeInBits - (bitOffset bf + fieldWidth bf);
               v = (if n \<noteq> 0 then CreateShl sizeInBits v n else v);
               n = sizeInBits - fieldWidth bf;
               v = (if n \<noteq> 0 then CreateAShr sizeInBits v n else v)
           in CreateSExtOrTrunc sizeInBits (typeBits bf) v)"

definition bf_store :: "bool \<Rightarrow> DBitFieldLValue \<Rightarrow> int \<Rightarrow> memory \<Rightarrow> memory" where
  "bf_store bigEndian bf value mem =
     (let sizeInBits = intTypeBytes bf * 8;
          oldVal = loadInt bigEndian (intTypeBytes bf) (bfPtr bf) mem;
          maskedOldVal = oldVal AND take_bit sizeInBits (NOT (push_bit (bitOffset bf) (mask (fieldWidth bf))));
          bfVal = CreateZExtOrTrunc sizeInBits value AND mask (fieldWidth bf);
          bfVal = (if bitOffset bf \<noteq> 0 then CreateShl sizeInBits bfVal (bitOffset bf) else bfVal)
      in storeInt bigEndian (intTypeBytes bf) (bfPtr bf) (maskedOldVal OR bfVal) mem)"

section \<open>Initialisation in a struct literal\<close>

text \<open>
  The initialisers of a group, merged to one integer and stored at the address of the group. The
  list pairs the fields of the group with the values of their initialisers.
\<close>

fun mergeInits :: "BitFieldGroup \<Rightarrow> (AggrField \<times> int) list \<Rightarrow> int \<Rightarrow> int option" where
  "mergeInits g [] val = Some val"
| "mergeInits g ((bf, e) # inits) val =
     (case (getBitOffset g bf, bitField bf) of
        (Some bitOff, Some (_, width)) \<Rightarrow>
          let w = sizeInBytes g * 8;
              bfVal = CreateZExtOrTrunc w e AND mask width;
              bfVal = (if bitOff \<noteq> 0 then CreateShl w bfVal bitOff else bfVal)
          in mergeInits g inits (val OR bfVal)
      | _ \<Rightarrow> None)"

definition initBitFieldGroup :: "bool \<Rightarrow> nat \<Rightarrow> BitFieldGroup \<Rightarrow> int list \<Rightarrow> memory \<Rightarrow> memory option" where
  "initBitFieldGroup bigEndian aggr g exprs mem =
     map_option (\<lambda>val. storeInt bigEndian (sizeInBytes g) (aggr + byteOffset g) val mem)
       (mergeInits g (zip (bitFields g) exprs) 0)"

text \<open>\<open>DotVarExp\<close>: the lvalue of a bit field of the aggregate at address \<open>aggr\<close>.\<close>

definition bitFieldOf :: "nat \<Rightarrow> AggrField \<Rightarrow> bool \<Rightarrow> nat \<Rightarrow> DBitFieldLValue option" where
  "bitFieldOf aggr f uns bits =
     map_option (\<lambda>(off, w). \<lparr>bfPtr = aggr + offset f, bitOffset = off, fieldWidth = w, isUnsigned = uns, typeBits = bits\<rparr>) (bitField f)"

section \<open>Bits in memory\<close>

text \<open>Bit \<open>i\<close> from address \<open>ptr\<close>, in the order of a little-endian target.\<close>

definition memBit :: "memory \<Rightarrow> nat \<Rightarrow> nat \<Rightarrow> bool" where
  "memBit mem ptr i = bit (mem (ptr + i div 8)) (i mod 8)"

lemma memBit_shift: "memBit mem (ptr + k) i = memBit mem ptr (8 * k + i)"
  by (simp add: memBit_def add.assoc)

lemma bit_fromBytes: "bit (fromBytes bs) i \<longleftrightarrow> i < 8 * length bs \<and> bit (bs ! (i div 8)) (i mod 8)"
proof (induction bs arbitrary: i)
  case (Cons b bs)
  show ?case
  proof (cases "i < 8")
    case True
    then show ?thesis by (auto simp: bit_or_iff bit_push_bit_iff bit_uint_iff)
  next
    case False
    then obtain j where j: "i = j + 8" by (metis add.commute le_Suc_ex not_less)
    have "\<not> bit b (j + 8)" using bit_imp_le_length [of b "j + 8"] by auto
    moreover have "(j + 8) div 8 = Suc (j div 8)" by simp
    ultimately show ?thesis unfolding j by (simp add: bit_or_iff bit_push_bit_iff bit_uint_iff Cons)
  qed
qed simp

lemma bit_loadInt:
  "bit (loadInt be n ptr mem) i \<longleftrightarrow> i < 8 * n \<and> bit (mem (ptr + (if be then n - 1 - i div 8 else i div 8))) (i mod 8)"
proof (cases "i < 8 * n")
  case True
  then have "i div 8 < n" by (simp add: less_mult_imp_div_less)
  then show ?thesis using True by (auto simp: loadInt_def bit_fromBytes rev_nth Let_def)
qed (auto simp: loadInt_def bit_fromBytes Let_def)

lemma bit_loadInt_LE: "bit (loadInt False n ptr mem) i \<longleftrightarrow> i < 8 * n \<and> memBit mem ptr i"
  by (simp add: bit_loadInt memBit_def)

lemma load_store:
  assumes "\<And>i. 8 * n \<le> i \<Longrightarrow> \<not> bit v i"
  shows "loadInt be n ptr (storeInt be n ptr v mem) = v"
proof (rule bit_eqI)
  fix i
  show "bit (loadInt be n ptr (storeInt be n ptr v mem)) i = bit v i"
  proof (cases "i < 8 * n")
    case True
    then have "i div 8 < n" by (simp add: less_mult_imp_div_less)
    moreover have "n - Suc (n - Suc (i div 8)) = i div 8" using calculation by simp
    moreover have "8 * (i div 8) + i mod 8 = i" by simp
    ultimately show ?thesis using True by (auto simp: bit_loadInt storeInt_def bit_word_of_int_iff bit_drop_bit_eq)
  qed (use assms in \<open>auto simp: bit_loadInt\<close>)
qed

lemma memBit_store:
  "memBit (storeInt False n ptr v mem) ptr i = (if i < 8 * n then bit v i else memBit mem ptr i)"
proof -
  have "i div 8 < n \<longleftrightarrow> i < 8 * n" by auto
  moreover have "8 * (i div 8) + i mod 8 = i" by simp
  ultimately show ?thesis by (auto simp: memBit_def storeInt_def bit_word_of_int_iff bit_drop_bit_eq)
qed

text \<open>Addresses that a store does not reach; a bit below the address of the store is never reached.\<close>

lemma storeInt_outside: "a < ptr \<or> ptr + n \<le> a \<Longrightarrow> storeInt be n ptr v mem a = mem a"
  by (auto simp: storeInt_def)

section \<open>What a bit field reads and writes\<close>

definition fieldBits :: "DBitFieldLValue \<Rightarrow> int \<Rightarrow> int" where
  "fieldBits bf v =
     (if isUnsigned bf then take_bit (typeBits bf) (take_bit (fieldWidth bf) v)
      else take_bit (typeBits bf) (signed_take_bit (fieldWidth bf - 1) v))"

lemma intTypeBytes_covers: "bitOffset bf + fieldWidth bf \<le> 8 * intTypeBytes bf"
  by (simp add: intTypeBytes_def)

lemma bit_CreateAShr: "0 < w \<Longrightarrow> bit (CreateAShr w v n) i \<longleftrightarrow> i < w \<and> bit v (min (i + n) (w - 1))"
  by (simp add: CreateAShr_def bit_take_bit_iff bit_drop_bit_eq bit_signed_take_bit_iff add.commute min.commute)

lemma getRVal_eq:
  assumes "0 < fieldWidth bf"
  shows "getRVal be bf mem = fieldBits bf (drop_bit (bitOffset bf) (loadInt be (intTypeBytes bf) (bfPtr bf) mem))"
proof (cases "isUnsigned bf")
  case True
  then show ?thesis by (simp add: getRVal_def fieldBits_def CreateLShr_def CreateZExtOrTrunc_def Let_def take_bit_eq_mask)
next
  case False
  let ?S = "intTypeBytes bf * 8" and ?v = "loadInt be (intTypeBytes bf) (bfPtr bf) mem"
  let ?n = "?S - (bitOffset bf + fieldWidth bf)" and ?m = "?S - fieldWidth bf"
  have cover: "bitOffset bf + fieldWidth bf \<le> ?S" using intTypeBytes_covers [of bf] by simp
  have high: "?S \<le> i \<Longrightarrow> \<not> bit ?v i" for i by (simp add: bit_loadInt)
  define a where "a = (if ?n \<noteq> 0 then CreateShl ?S ?v ?n else ?v)"
  define b where "b = (if ?m \<noteq> 0 then CreateAShr ?S a ?m else a)"
  have a: "bit a i \<longleftrightarrow> i < ?S \<and> ?n \<le> i \<and> bit ?v (i - ?n)" for i
    using high [of i] by (cases "i < ?S") (auto simp: a_def CreateShl_def bit_take_bit_iff bit_push_bit_iff)
  have b: "bit b i \<longleftrightarrow> i < ?S \<and> bit a (min (i + ?m) (?S - 1))" for i
  proof (cases "?m = 0")
    case True
    have "i < ?S \<Longrightarrow> min (i + 0) (?S - 1) = i" by simp
    then show ?thesis using a [of i] True by (auto simp: b_def)
  next
    case False
    then have "0 < ?S" by simp
    then show ?thesis using False by (simp add: b_def bit_CreateAShr)
  qed
  have "getRVal be bf mem = take_bit (typeBits bf) (signed_take_bit (?S - 1) b)"
    using False by (simp add: a_def b_def getRVal_def CreateSExtOrTrunc_def Let_def)
  moreover have "signed_take_bit (?S - 1) b = signed_take_bit (fieldWidth bf - 1) (drop_bit (bitOffset bf) ?v)"
  proof (rule bit_eqI)
    fix i
    have idx: "min (min i (?S - 1) + ?m) (?S - 1) - ?n = bitOffset bf + min i (fieldWidth bf - 1)"
      using cover assms by (auto simp: min_def)
    have "?n \<le> min (min i (?S - 1) + ?m) (?S - 1)" "min i (?S - 1) < ?S" "min (min i (?S - 1) + ?m) (?S - 1) < ?S"
      using cover assms by auto
    then have "bit b (min i (?S - 1)) \<longleftrightarrow> bit ?v (bitOffset bf + min i (fieldWidth bf - 1))"
      unfolding b a idx by simp
    then show "bit (signed_take_bit (?S - 1) b) i = bit (signed_take_bit (fieldWidth bf - 1) (drop_bit (bitOffset bf) ?v)) i"
      by (simp add: bit_signed_take_bit_iff bit_drop_bit_eq min.commute)
  qed
  ultimately show ?thesis using False by (simp add: fieldBits_def)
qed

lemma fieldBits_cong:
  assumes "0 < fieldWidth bf" "\<And>i. i < fieldWidth bf \<Longrightarrow> bit v i = bit v' i"
  shows "fieldBits bf v = fieldBits bf v'"
proof -
  have "take_bit (fieldWidth bf) v = take_bit (fieldWidth bf) v'"
    by (rule bit_eqI) (use assms in \<open>auto simp: bit_take_bit_iff\<close>)
  moreover have "signed_take_bit (fieldWidth bf - 1) v = signed_take_bit (fieldWidth bf - 1) v'"
    by (rule bit_eqI) (use assms in \<open>auto simp: bit_signed_take_bit_iff\<close>)
  ultimately show ?thesis by (simp add: fieldBits_def)
qed

text \<open>The integer that \<open>store\<close> writes: the bits of the field are new, all others are kept.\<close>

lemma bf_store_bits:
  obtains v where "bf_store be bf value mem = storeInt be (intTypeBytes bf) (bfPtr bf) v mem"
    "\<forall>i. bit v i \<longleftrightarrow> i < 8 * intTypeBytes bf \<and>
       (if bitOffset bf \<le> i \<and> i < bitOffset bf + fieldWidth bf then bit value (i - bitOffset bf)
        else bit (loadInt be (intTypeBytes bf) (bfPtr bf) mem) i)"
proof -
  let ?S = "intTypeBytes bf * 8" and ?old = "loadInt be (intTypeBytes bf) (bfPtr bf) mem"
  let ?kept = "?old AND take_bit ?S (NOT (push_bit (bitOffset bf) (mask (fieldWidth bf))))"
  let ?new = "CreateZExtOrTrunc ?S value AND mask (fieldWidth bf)"
  let ?bf = "if bitOffset bf \<noteq> 0 then CreateShl ?S ?new (bitOffset bf) else ?new"
  have cover: "bitOffset bf + fieldWidth bf \<le> ?S" using intTypeBytes_covers [of bf] by simp
  have new: "bit ?bf i \<longleftrightarrow> bitOffset bf \<le> i \<and> i < bitOffset bf + fieldWidth bf \<and> bit value (i - bitOffset bf)" for i
    using cover by (auto simp: CreateShl_def CreateZExtOrTrunc_def bit_take_bit_iff bit_push_bit_iff bit_and_iff bit_mask_iff)
  have kept: "bit ?kept i \<longleftrightarrow> i < ?S \<and> bit ?old i \<and> \<not> (bitOffset bf \<le> i \<and> i < bitOffset bf + fieldWidth bf)" for i
    by (auto simp: bit_and_iff bit_take_bit_iff bit_not_iff bit_push_bit_iff bit_mask_iff)
  show thesis
  proof (rule that [of "?kept OR ?bf"])
    show "bf_store be bf value mem = storeInt be (intTypeBytes bf) (bfPtr bf) (?kept OR ?bf) mem"
      by (simp add: bf_store_def Let_def)
    show "\<forall>i. bit (?kept OR ?bf) i \<longleftrightarrow> i < 8 * intTypeBytes bf \<and>
       (if bitOffset bf \<le> i \<and> i < bitOffset bf + fieldWidth bf then bit value (i - bitOffset bf) else bit ?old i)"
      unfolding bit_or_iff kept new using cover by auto
  qed
qed

text \<open>
  The bits of memory that make up a field, counted from address 0, and that a read depends on no
  others. This is where the byte order matters.
\<close>

definition firstBit :: "DBitFieldLValue \<Rightarrow> nat" where
  "firstBit bf = 8 * bfPtr bf + bitOffset bf"

lemma memBit_abs: "memBit mem ptr i = memBit mem 0 (8 * ptr + i)"
  using memBit_shift [of mem 0 ptr i] by simp

lemma getRVal_bits:
  assumes "0 < fieldWidth bf" "\<And>i. i < fieldWidth bf \<Longrightarrow> bit v i = memBit mem 0 (firstBit bf + i)"
  shows "getRVal False bf mem = fieldBits bf v"
proof -
  have "bit (drop_bit (bitOffset bf) (loadInt False (intTypeBytes bf) (bfPtr bf) mem)) i = bit v i" if "i < fieldWidth bf" for i
    using assms(2) [OF that] that intTypeBytes_covers [of bf] memBit_abs [of mem "bfPtr bf" "bitOffset bf + i"]
    by (simp add: bit_drop_bit_eq bit_loadInt_LE firstBit_def add.assoc)
  then show ?thesis unfolding getRVal_eq [OF assms(1)] using fieldBits_cong [OF assms(1)] by blast
qed

lemma memBit_bf_store:
  "memBit (bf_store False bf value mem) 0 i =
     (if firstBit bf \<le> i \<and> i < firstBit bf + fieldWidth bf then bit value (i - firstBit bf) else memBit mem 0 i)"
proof -
  obtain v where v: "bf_store False bf value mem = storeInt False (intTypeBytes bf) (bfPtr bf) v mem"
    "\<forall>i. bit v i \<longleftrightarrow> i < 8 * intTypeBytes bf \<and>
       (if bitOffset bf \<le> i \<and> i < bitOffset bf + fieldWidth bf then bit value (i - bitOffset bf)
        else bit (loadInt False (intTypeBytes bf) (bfPtr bf) mem) i)"
    by (rule bf_store_bits [of False bf "value" mem])
  show ?thesis
  proof (cases "8 * bfPtr bf \<le> i")
    case True
    then obtain j where j: "i = 8 * bfPtr bf + j" by (metis le_Suc_ex)
    have "memBit (bf_store False bf value mem) (bfPtr bf) j =
        (if bitOffset bf \<le> j \<and> j < bitOffset bf + fieldWidth bf then bit value (j - bitOffset bf) else memBit mem (bfPtr bf) j)"
      using intTypeBytes_covers [of bf] by (auto simp: v memBit_store bit_loadInt_LE)
    then show ?thesis unfolding memBit_abs [of _ "bfPtr bf"] by (auto simp: j firstBit_def)
  next
    case False
    then have "i div 8 < bfPtr bf" by auto
    then show ?thesis using False by (simp add: memBit_def v(1) storeInt_outside firstBit_def)
  qed
qed

text \<open>
  The same for either byte order: the place in memory, a byte and a bit of it, of bit \<open>i\<close> of a field.
\<close>

definition cell :: "bool \<Rightarrow> DBitFieldLValue \<Rightarrow> nat \<Rightarrow> nat \<times> nat" where
  "cell bigEndian bf i =
     (let j = bitOffset bf + i
      in (bfPtr bf + (if bigEndian then intTypeBytes bf - 1 - j div 8 else j div 8), j mod 8))"

definition fieldCells :: "bool \<Rightarrow> DBitFieldLValue \<Rightarrow> (nat \<times> nat) set" where
  "fieldCells bigEndian bf = cell bigEndian bf ` {..<fieldWidth bf}"

lemma bit_fieldBits:
  "0 < fieldWidth bf \<Longrightarrow> fieldWidth bf \<le> typeBits bf \<Longrightarrow> i < fieldWidth bf \<Longrightarrow> bit (fieldBits bf v) i = bit v i"
proof -
  assume a: "0 < fieldWidth bf" "fieldWidth bf \<le> typeBits bf" "i < fieldWidth bf"
  then have "min (fieldWidth bf - 1) i = i" by linarith
  with a show ?thesis by (auto simp: fieldBits_def bit_take_bit_iff bit_signed_take_bit_iff)
qed

lemma bit_loaded_cell:
  assumes "i < fieldWidth bf"
  shows "bit (drop_bit (bitOffset bf) (loadInt be (intTypeBytes bf) (bfPtr bf) mem)) i
    = (case cell be bf i of (a, b) \<Rightarrow> bit (mem a) b)"
  using assms intTypeBytes_covers [of bf] by (simp add: bit_drop_bit_eq bit_loadInt cell_def Let_def)

lemma bit_storeInt:
  assumes "k < n" "b < 8"
  shows "bit (storeInt be n ptr v mem (ptr + (if be then n - 1 - k else k))) b = bit v (8 * k + b)"
  using assms by (auto simp: storeInt_def bit_word_of_int_iff bit_drop_bit_eq)

lemma bit_stored_cell:
  shows "i < fieldWidth bf \<Longrightarrow> cell be bf i = (a, b) \<Longrightarrow> bit (bf_store be bf value mem a) b = bit value i"
    and "(a, b) \<notin> fieldCells be bf \<Longrightarrow> b < 8 \<Longrightarrow> bit (bf_store be bf value mem a) b = bit (mem a) b"
proof -
  let ?n = "intTypeBytes bf" and ?p = "bfPtr bf"
  obtain v where v: "bf_store be bf value mem = storeInt be ?n ?p v mem"
    "\<forall>i. bit v i \<longleftrightarrow> i < 8 * ?n \<and>
       (if bitOffset bf \<le> i \<and> i < bitOffset bf + fieldWidth bf then bit value (i - bitOffset bf)
        else bit (loadInt be ?n ?p mem) i)"
    by (rule bf_store_bits [of be bf "value" mem])
  show "bit (bf_store be bf value mem a) b = bit value i" if "i < fieldWidth bf" "cell be bf i = (a, b)"
  proof -
    let ?j = "bitOffset bf + i"
    have j: "?j < 8 * ?n" using that(1) intTypeBytes_covers [of bf] by simp
    then have "?j div 8 < ?n" by (simp add: less_mult_imp_div_less)
    from bit_storeInt [OF this, of "?j mod 8" be ?p v mem] that j show ?thesis
      by (auto simp: v cell_def Let_def)
  qed
  assume ab: "(a, b) \<notin> fieldCells be bf" "b < 8"
  show "bit (bf_store be bf value mem a) b = bit (mem a) b"
  proof (cases "?p \<le> a \<and> a < ?p + ?n")
    case True
    define k where "k = (if be then ?n - 1 - (a - ?p) else a - ?p)"
    have k: "k < ?n" "?p + (if be then ?n - 1 - k else k) = a" using True by (auto simp: k_def)
    let ?j = "8 * k + b"
    have j: "?j div 8 = k" "?j mod 8 = b" "?j < 8 * ?n" using ab(2) k(1) by auto
    have "\<not> (bitOffset bf \<le> ?j \<and> ?j < bitOffset bf + fieldWidth bf)"
    proof
      assume o: "bitOffset bf \<le> ?j \<and> ?j < bitOffset bf + fieldWidth bf"
      then have "cell be bf (?j - bitOffset bf) = (a, b)" using k j by (auto simp: cell_def Let_def)
      moreover have "?j - bitOffset bf < fieldWidth bf" using o by auto
      ultimately show False using ab(1) unfolding fieldCells_def by (metis imageI lessThan_iff)
    qed
    then have "bit v ?j = bit (loadInt be ?n ?p mem) ?j" using v(2) j(3) by presburger
    also have "\<dots> = bit (mem a) b" unfolding bit_loadInt j(1,2) k(2) using j(3) by simp
    finally have "bit v ?j = bit (mem a) b" .
    then show ?thesis using bit_storeInt [OF k(1) ab(2), of be ?p v mem] k(2) v(1) by simp
  qed (auto simp: v storeInt_outside)
qed

section \<open>Merged initialisers\<close>

definition inBits :: "BitFieldGroup \<Rightarrow> AggrField \<times> int \<Rightarrow> nat \<Rightarrow> bool" where
  "inBits g = (\<lambda>(bf, e) i. \<exists>k off w. getBitOffset g bf = Some k \<and> bitField bf = Some (off, w) \<and> k \<le> i \<and> i < k + w \<and> bit e (i - k))"

lemma mergeInits_bits:
  assumes "\<forall>(bf, e)\<in>set inits. \<exists>k off w. getBitOffset g bf = Some k \<and> bitField bf = Some (off, w) \<and> k + w \<le> 8 * sizeInBytes g"
  shows "\<exists>v. mergeInits g inits val = Some v \<and> (\<forall>i. bit v i \<longleftrightarrow> bit val i \<or> (\<exists>x\<in>set inits. inBits g x i))"
  using assms
proof (induction inits arbitrary: val)
  case (Cons x inits)
  obtain bf e where x: "x = (bf, e)" by (cases x)
  with Cons.prems obtain k off w where k: "getBitOffset g bf = Some k" "bitField bf = Some (off, w)" "k + w \<le> 8 * sizeInBytes g" by auto
  let ?w = "sizeInBytes g * 8"
  let ?new = "CreateZExtOrTrunc ?w e AND mask w"
  define new where "new = (if k \<noteq> 0 then CreateShl ?w ?new k else ?new)"
  have "bit new i \<longleftrightarrow> inBits g x i" for i
    using k by (auto simp: new_def x inBits_def CreateShl_def CreateZExtOrTrunc_def bit_take_bit_iff bit_push_bit_iff bit_and_iff bit_mask_iff)
  moreover have "mergeInits g (x # inits) val = mergeInits g inits (val OR new)" by (simp add: x k new_def Let_def)
  ultimately show ?case using Cons.IH [of "val OR new"] Cons.prems by (auto simp: bit_or_iff)
qed simp

section \<open>Properties\<close>

definition disjointFields :: "DBitFieldLValue \<Rightarrow> DBitFieldLValue \<Rightarrow> bool" where
  "disjointFields bf bf' \<longleftrightarrow> firstBit bf + fieldWidth bf \<le> firstBit bf' \<or> firstBit bf' + fieldWidth bf' \<le> firstBit bf"

text \<open>
  C34: What was stored to a bit field is read back, cut to the width of the field and extended
  according to its signedness, in either byte order. On a little-endian target every other bit
  field that shares no bit with it, in the same bytes or elsewhere, keeps its value, and so does
  every byte outside.
\<close>

theorem bitfield_store_load:
  assumes "0 < fieldWidth bf"
  shows "getRVal be bf (bf_store be bf value mem) = fieldBits bf value
    \<and> (\<forall>bf'. 0 < fieldWidth bf' \<longrightarrow> disjointFields bf bf' \<longrightarrow> getRVal False bf' (bf_store False bf value mem) = getRVal False bf' mem)
    \<and> (\<forall>a. a < bfPtr bf \<or> bfPtr bf + intTypeBytes bf \<le> a \<longrightarrow> bf_store be bf value mem a = mem a)"
proof (intro conjI allI impI)
  obtain v where v: "bf_store be bf value mem = storeInt be (intTypeBytes bf) (bfPtr bf) v mem"
    "\<forall>i. bit v i \<longleftrightarrow> i < 8 * intTypeBytes bf \<and>
       (if bitOffset bf \<le> i \<and> i < bitOffset bf + fieldWidth bf then bit value (i - bitOffset bf)
        else bit (loadInt be (intTypeBytes bf) (bfPtr bf) mem) i)"
    by (rule bf_store_bits [of be bf "value" mem])
  have "loadInt be (intTypeBytes bf) (bfPtr bf) (bf_store be bf value mem) = v"
    unfolding v(1) by (rule load_store) (simp add: v(2))
  then show "getRVal be bf (bf_store be bf value mem) = fieldBits bf value"
    unfolding getRVal_eq [OF assms] using intTypeBytes_covers [of bf]
    by (intro fieldBits_cong [OF assms]) (simp add: bit_drop_bit_eq v(2))
  show "bf_store be bf value mem a = mem a" if "a < bfPtr bf \<or> bfPtr bf + intTypeBytes bf \<le> a" for a
    using that by (simp add: v(1) storeInt_outside)
  fix bf' assume bf': "0 < fieldWidth bf'" "disjointFields bf bf'"
  let ?v = "drop_bit (bitOffset bf') (loadInt False (intTypeBytes bf') (bfPtr bf') mem)"
  have "bit ?v i = memBit mem 0 (firstBit bf' + i)" if "i < fieldWidth bf'" for i
    using that intTypeBytes_covers [of bf'] memBit_abs [of mem "bfPtr bf'" "bitOffset bf' + i"]
    by (simp add: bit_drop_bit_eq bit_loadInt_LE firstBit_def add.assoc)
  then have "getRVal False bf' (bf_store False bf value mem) = fieldBits bf' ?v"
    using bf'(2) by (intro getRVal_bits [OF bf'(1)]) (auto simp: memBit_bf_store disjointFields_def)
  then show "getRVal False bf' (bf_store False bf value mem) = getRVal False bf' mem" by (simp add: getRVal_eq [OF bf'(1)])
qed

theorem bitfield_store_load_witness:
  "getRVal False \<lparr>bfPtr = 8, bitOffset = 6, fieldWidth = 5, isUnsigned = False, typeBits = 32\<rparr>
     (bf_store False \<lparr>bfPtr = 8, bitOffset = 6, fieldWidth = 5, isUnsigned = False, typeBits = 32\<rparr> 29 (\<lambda>_. 255)) = 2 ^ 32 - 3"
proof -
  let ?bf = "\<lparr>bfPtr = 8, bitOffset = 6, fieldWidth = 5, isUnsigned = False, typeBits = 32\<rparr>"
  have "fieldBits ?bf 29 = 2 ^ 32 - 3" by code_simp
  then show ?thesis using bitfield_store_load [of ?bf False 29 "\<lambda>_. 255"] by simp
qed

text \<open>Where a member of a group lies in the group.\<close>

lemma group_member:
  assumes "\<forall>f\<in>set fs. smallBits f" "g = startingFrom fs" "f \<in> set (bitFields g)" "bitFieldOf aggr f uns bits = Some lv"
  shows "\<exists>off. bitField f = Some (off, fieldWidth lv) \<and> 8 * (aggr + byteOffset g) \<le> firstBit lv
    \<and> getBitOffset g f = Some (firstBit lv - 8 * (aggr + byteOffset g))
    \<and> firstBit lv - 8 * (aggr + byteOffset g) + fieldWidth lv \<le> 8 * sizeInBytes g"
proof -
  obtain off w where bf: "bitField f = Some (off, w)" using assms(4) by (auto simp: bitFieldOf_def)
  note m = startingFrom_member [OF assms(1) _ bf, folded assms(2), OF assms(3)]
  show ?thesis using assms(4) m bf by (auto simp: bitFieldOf_def firstBit_def algebra_simps)
qed

text \<open>The merged initialisers hold, at the place of every field of the group, the value of its own.\<close>

lemma merged_field:
  assumes "\<forall>f\<in>set fs. smallBits f" "g = startingFrom fs" "length exprs = length (bitFields g)"
    and "j < length (bitFields g)" "bitFieldOf aggr (bitFields g ! j) uns bits = Some lv"
    and "\<forall>k<length (bitFields g). \<exists>lv'. bitFieldOf aggr (bitFields g ! k) uns bits = Some lv' \<and> (k \<noteq> j \<longrightarrow> disjointFields lv lv')"
  obtains v where "mergeInits g (zip (bitFields g) exprs) 0 = Some v"
    "\<And>i. i < fieldWidth lv \<Longrightarrow> bit v (firstBit lv - 8 * (aggr + byteOffset g) + i) = bit (exprs ! j) i"
proof -
  let ?start = "8 * (aggr + byteOffset g)" and ?inits = "zip (bitFields g) exprs"
  have member: "\<exists>lv' off. bitFieldOf aggr (bitFields g ! k) uns bits = Some lv' \<and> (k \<noteq> j \<longrightarrow> disjointFields lv lv')
      \<and> bitField (bitFields g ! k) = Some (off, fieldWidth lv') \<and> ?start \<le> firstBit lv'
      \<and> getBitOffset g (bitFields g ! k) = Some (firstBit lv' - ?start) \<and> firstBit lv' - ?start + fieldWidth lv' \<le> 8 * sizeInBytes g"
    if k: "k < length (bitFields g)" for k
    using assms(6) k group_member [OF assms(1,2) nth_mem [OF k], of aggr uns bits] by blast
  obtain off where lv: "bitField (bitFields g ! j) = Some (off, fieldWidth lv)" "?start \<le> firstBit lv"
      "getBitOffset g (bitFields g ! j) = Some (firstBit lv - ?start)"
    using member [OF assms(4)] assms(5) by auto
  have "\<forall>(bf, e)\<in>set ?inits. \<exists>k off w. getBitOffset g bf = Some k \<and> bitField bf = Some (off, w) \<and> k + w \<le> 8 * sizeInBytes g"
    using member by (fastforce simp: in_set_zip)
  from mergeInits_bits [OF this, of 0] obtain v
    where v: "mergeInits g ?inits 0 = Some v" "\<And>i. bit v i \<longleftrightarrow> (\<exists>x\<in>set ?inits. inBits g x i)" by auto
  show thesis
  proof (rule that [OF v(1)])
    fix i assume i: "i < fieldWidth lv"
    let ?i = "firstBit lv - ?start + i"
    have own: "inBits g (bitFields g ! j, exprs ! j) ?i \<longleftrightarrow> bit (exprs ! j) i" using lv i by (auto simp: inBits_def)
    have "x = (bitFields g ! j, exprs ! j)" if x: "x \<in> set ?inits" "inBits g x ?i" for x
    proof -
      obtain k where k: "k < length (bitFields g)" "x = (bitFields g ! k, exprs ! k)" using x(1) by (auto simp: in_set_zip)
      have "k = j"
      proof (rule ccontr)
        assume "k \<noteq> j"
        then obtain lv' off' where "disjointFields lv lv'" "bitField (bitFields g ! k) = Some (off', fieldWidth lv')" "?start \<le> firstBit lv'"
            "getBitOffset g (bitFields g ! k) = Some (firstBit lv' - ?start)"
          using member [OF k(1)] by blast
        then show False using x(2) k(2) lv(2) i by (auto simp: inBits_def disjointFields_def)
      qed
      then show ?thesis using k(2) by simp
    qed
    moreover have "(bitFields g ! j, exprs ! j) \<in> set ?inits" using assms(3,4) by (auto simp: in_set_zip)
    ultimately show "bit v ?i = bit (exprs ! j) i" unfolding v(2) using own by blast
  qed
qed

text \<open>
  C35: A struct literal initialises the bit fields of a group with one merged store; reading any of
  them afterwards through its own lvalue, which may load another number of bytes from another
  address, gives the value of its initialiser, on a little-endian target and for fields that share
  no bits with it.
\<close>

theorem bitfield_literal_read_back:
  assumes "\<forall>f\<in>set fs. smallBits f" "g = startingFrom fs" "length exprs = length (bitFields g)"
    and "j < length (bitFields g)" "bitFieldOf aggr (bitFields g ! j) uns bits = Some lv" "0 < fieldWidth lv"
    and "\<forall>k<length (bitFields g). \<exists>lv'. bitFieldOf aggr (bitFields g ! k) uns bits = Some lv' \<and> (k \<noteq> j \<longrightarrow> disjointFields lv lv')"
  shows "\<exists>mem'. initBitFieldGroup False aggr g exprs mem = Some mem' \<and> getRVal False lv mem' = fieldBits lv (exprs ! j)"
proof -
  let ?start = "8 * (aggr + byteOffset g)"
  obtain v where v: "mergeInits g (zip (bitFields g) exprs) 0 = Some v"
      "\<And>i. i < fieldWidth lv \<Longrightarrow> bit v (firstBit lv - ?start + i) = bit (exprs ! j) i"
    using merged_field [OF assms(1-5,7)] by blast
  have lv: "?start \<le> firstBit lv" "firstBit lv - ?start + fieldWidth lv \<le> 8 * sizeInBytes g"
    using group_member [OF assms(1,2) nth_mem [OF assms(4)] assms(5)] by auto
  let ?mem = "storeInt False (sizeInBytes g) (aggr + byteOffset g) v mem"
  have "bit (exprs ! j) i = memBit ?mem 0 (firstBit lv + i)" if i: "i < fieldWidth lv" for i
  proof -
    let ?i = "firstBit lv - ?start + i"
    have "?i < 8 * sizeInBytes g" "?start + ?i = firstBit lv + i" using lv i by simp_all
    then have "memBit ?mem 0 (firstBit lv + i) = bit v ?i"
      using memBit_abs [of ?mem "aggr + byteOffset g" ?i] memBit_store [of _ "aggr + byteOffset g" v mem ?i] by simp
    then show ?thesis using v(2) [OF i] by simp
  qed
  then have "getRVal False lv ?mem = fieldBits lv (exprs ! j)" by (rule getRVal_bits [OF assms(6)])
  then show ?thesis by (simp add: initBitFieldGroup_def v(1))
qed

text \<open>Two bit fields of widths 6 and 5 that share a byte, at offset 4 of a struct.\<close>

definition twoFields :: "AggrField list" where
  "twoFields = [\<lparr>vd = 1, offset = 4, overlapped = False, bitField = Some (0, 6), field_size = 4, field_memType = None\<rparr>,
     \<lparr>vd = 2, offset = 4, overlapped = False, bitField = Some (6, 5), field_size = 4, field_memType = None\<rparr>]"

theorem bitfield_literal_read_back_witness:
  "\<exists>mem'. initBitFieldGroup False 100 (startingFrom twoFields) [50, 29] (\<lambda>_. 0) = Some mem'
     \<and> getRVal False \<lparr>bfPtr = 104, bitOffset = 6, fieldWidth = 5, isUnsigned = True, typeBits = 32\<rparr> mem' = 29"
proof -
  let ?lv = "\<lparr>bfPtr = 104, bitOffset = 6, fieldWidth = 5, isUnsigned = True, typeBits = 32\<rparr>"
  have g: "bitFields (startingFrom twoFields) = twoFields" by (simp add: startingFrom_def twoFields_def extendGroup_def trunc32_def)
  have "\<exists>mem'. initBitFieldGroup False 100 (startingFrom twoFields) [50, 29] (\<lambda>_. 0) = Some mem' \<and> getRVal False ?lv mem' = fieldBits ?lv ([50, 29] ! 1)"
    by (rule bitfield_literal_read_back [of twoFields _ _ 1 100 True 32])
      (auto simp: g, auto simp: twoFields_def smallBits_def bitFieldOf_def disjointFields_def firstBit_def less_Suc_eq)
  moreover have "fieldBits ?lv 29 = 29" by code_simp
  ultimately show ?thesis by simp
qed

text \<open>
  C36: When two bit fields disturb each other, in either byte order: a store to \<open>f\<close> leaves what is
  read from \<open>g\<close> as it was, for every value and every content of the memory, if and only if no bit of
  memory belongs to both. On a big-endian target two fields at the same byte whose loads have
  different lengths have bits in common even if their bit offsets do not overlap: the longer load
  makes the byte they share its most significant one. The code has comments about a missing byte
  swap.
\<close>

theorem bitfield_interference:
  assumes "0 < fieldWidth f" "0 < fieldWidth g" "fieldWidth g \<le> typeBits g"
  shows "(\<forall>value mem. getRVal be g (bf_store be f value mem) = getRVal be g mem)
    \<longleftrightarrow> fieldCells be f \<inter> fieldCells be g = {}"
proof
  assume kept: "\<forall>value mem. getRVal be g (bf_store be f value mem) = getRVal be g mem"
  have False if i: "i < fieldWidth f" "i' < fieldWidth g" "cell be f i = cell be g i'" for i i'
  proof -
    let ?mem = "bf_store be f (push_bit i 1) (\<lambda>_. 0)"
    have "bit (drop_bit (bitOffset g) (loadInt be (intTypeBytes g) (bfPtr g) ?mem)) i'"
      using i by (simp add: bit_loaded_cell bit_stored_cell(1) bit_exp_iff flip: i(3) split: prod.split)
    then have "bit (getRVal be g ?mem) i'" using i(2) assms(2,3) by (simp add: getRVal_eq bit_fieldBits)
    moreover have "\<not> bit (getRVal be g (\<lambda>_. 0)) i'"
      using i(2) assms(2,3) by (simp add: getRVal_eq bit_fieldBits bit_loaded_cell split: prod.split)
    ultimately show False using kept by auto
  qed
  then show "fieldCells be f \<inter> fieldCells be g = {}" by (fastforce simp: fieldCells_def)
next
  assume d: "fieldCells be f \<inter> fieldCells be g = {}"
  have "bit (drop_bit (bitOffset g) (loadInt be (intTypeBytes g) (bfPtr g) (bf_store be f value mem))) i
      = bit (drop_bit (bitOffset g) (loadInt be (intTypeBytes g) (bfPtr g) mem)) i" if i: "i < fieldWidth g" for i "value" mem
  proof -
    obtain a b where ab: "cell be g i = (a, b)" by (cases "cell be g i")
    then have "(a, b) \<in> fieldCells be g" "b < 8"
      using i by (force simp: fieldCells_def, auto simp: cell_def Let_def)
    then have "(a, b) \<notin> fieldCells be f" "b < 8" using d by auto
    with bit_stored_cell(2) [OF this] i ab show ?thesis by (simp add: bit_loaded_cell)
  qed
  then show "\<forall>value mem. getRVal be g (bf_store be f value mem) = getRVal be g mem"
    unfolding getRVal_eq [OF assms(2)] by (intro allI fieldBits_cong [OF assms(2)])
qed

theorem bitfield_interference_witness:
  "\<exists>f g. bitFieldOf 0 (twoFields ! 0) True 32 = Some f \<and> bitFieldOf 0 (twoFields ! 1) True 32 = Some g
     \<and> disjointFields f g
     \<and> (\<forall>value mem. getRVal False f (bf_store False g value mem) = getRVal False f mem)
     \<and> (\<exists>value mem. getRVal True f (bf_store True g value mem) \<noteq> getRVal True f mem)"
proof -
  let ?f = "\<lparr>bfPtr = 4, bitOffset = 0, fieldWidth = 6, isUnsigned = True, typeBits = 32\<rparr>"
  let ?g = "\<lparr>bfPtr = 4, bitOffset = 6, fieldWidth = 5, isUnsigned = True, typeBits = 32\<rparr>"
  have "fieldCells False ?g \<inter> fieldCells False ?f = {}" by code_simp
  then have "\<forall>value mem. getRVal False ?f (bf_store False ?g value mem) = getRVal False ?f mem"
    using bitfield_interference [of ?g ?f False] by simp
  moreover have "fieldCells True ?g \<inter> fieldCells True ?f \<noteq> {}" by code_simp
  then have "\<exists>value mem. getRVal True ?f (bf_store True ?g value mem) \<noteq> getRVal True ?f mem"
    using bitfield_interference [of ?g ?f True] by simp
  moreover have "disjointFields ?f ?g" by (simp add: disjointFields_def firstBit_def)
  moreover have "bitFieldOf 0 (twoFields ! 0) True 32 = Some ?f" "bitFieldOf 0 (twoFields ! 1) True 32 = Some ?g"
    by (simp_all add: bitFieldOf_def twoFields_def)
  ultimately show ?thesis by blast
qed

end
