(* ===== verification/StatementIR.thy ===== *)
theory StatementIR
  imports CodeGenPGO FuncGenState
begin

text \<open>
  The control flow that is emitted for statements (\<open>ToIRVisitor\<close> in gen/statements.cpp), for the
  expressions that branch (\<open>ToElemVisitor\<close> in gen/toir.cpp), for catch bodies
  (gen/trycatchfinally.cpp), and around the body of a function (\<open>DtoDefineFunction\<close> in
  gen/functions.cpp).

  Every method is a function from the state of the code generator to a new state, parameterised
  by the emission of its child nodes. Of the instructions only those that matter for control
  flow, counters and lifetimes are kept. A parameter \<open>ToIREnv\<close> provides what the front end has
  resolved (labels, targets of jumps, cases of a switch) and the emission of the expression classes
  that have no method here, in terms of the emission of their operands. Debug information,
  coverage counters and branch weights are left out. Microsoft's exception handling is not
  modelled, and labels inside inline assembly are not.
\<close>

section \<open>State\<close>

text \<open>Instructions that are kept: calls of the profiling runtime, and lifetime markers.\<close>

datatype Instr = Profile runtime_call | LifetimeStart ptr | LifetimeEnd ptr

record ToIRState = FuncGenState +
  retBlock :: "BB option"
  lifetimeScopes :: "ptr list list"
  code :: "BB \<Rightarrow> Instr list"

type_synonym emit = "ToIRState \<Rightarrow> ToIRState option"

text \<open>
  What is known besides the tree. \<open>otherElem p ops\<close> is the method for an expression at address \<open>p\<close> that
  has none here, with the emission of its operands; it also stands for the code that a statement
  at \<open>p\<close> emits itself without branching to its own blocks (the result of a \<open>return\<close>, the copy of an
  element in a \<open>foreach\<close>, inline assembly). \<open>constCond\<close> is the value of a condition that is a constant,
  \<open>dcReflect\<close> the arguments of a condition that is a call of \<open>__dcompute_reflect\<close>. \<open>caseElem\<close> loads the
  value of a case that is not a constant. \<open>catchClass\<close> is the class of a catch and its base classes,
  \<open>cxaEndCatch\<close> the address of the statement that is created for a catch of a C++ exception.
\<close>

record ToIREnv =
  pgo :: CodeGenPGO
  isInstrumenting :: bool
  useExceptions :: bool
  fEmitLocalVarLifetime :: bool
  dcomputetarget :: "(nat \<times> nat) option"
  checkActionC :: bool
  checkActionHalt :: bool
  useAssert :: bool
  otherElem :: "ptr \<Rightarrow> emit list \<Rightarrow> emit"
  constCond :: "ptr \<Rightarrow> bool option"
  dcReflect :: "ptr \<Rightarrow> (nat \<times> nat) option"
  needsScopeDtor :: "ptr \<Rightarrow> bool"
  labelIdent :: "ptr \<Rightarrow> Identifier"
  labelStatement :: "ptr \<Rightarrow> ptr ast"
  gotoLabel :: "ptr \<Rightarrow> Identifier option"
  gotoLoc :: "ptr \<Rightarrow> nat"
  relatedLabeled :: "ptr \<Rightarrow> ptr ast"
  switchCases :: "ptr \<Rightarrow> ptr list"
  sdefault :: "ptr \<Rightarrow> ptr option"
  caseIsConst :: "ptr \<Rightarrow> bool"
  caseElem :: "ptr \<Rightarrow> emit"
  gotoDefaultTarget :: "ptr \<Rightarrow> ptr"
  gotoCaseTarget :: "ptr \<Rightarrow> ptr"
  catchClass :: "ptr \<Rightarrow> ClassInfo list"
  exceptionClass :: ClassInfo
  isCPPcatch :: "ptr \<Rightarrow> bool"
  cxaEndCatch :: "ptr \<Rightarrow> ptr"

section \<open>The builder\<close>

definition SetInsertPoint :: "BB \<Rightarrow> 'a IRState_scheme \<Rightarrow> 'a IRState_scheme" where
  "SetInsertPoint b st = st\<lparr>scopebb := b\<rparr>"

definition CreateCondBr :: "BB \<Rightarrow> BB \<Rightarrow> 'a IRState_scheme \<Rightarrow> 'a IRState_scheme option" where
  "CreateCondBr t f st = terminate (scopebb st) (OtherTerminator [t, f]) st"

definition CreateRet :: "'a IRState_scheme \<Rightarrow> 'a IRState_scheme option" where
  "CreateRet st = terminate (scopebb st) (OtherTerminator []) st"

definition CreateUnreachable :: "'a IRState_scheme \<Rightarrow> 'a IRState_scheme option" where
  "CreateUnreachable st = terminate (scopebb st) (OtherTerminator []) st"

text \<open>\<open>if (!irs->scopereturned()) llvm::BranchInst::Create(b, irs->scopebb())\<close>.\<close>

definition branchUnlessReturned :: "BB \<Rightarrow> 'a IRState_scheme \<Rightarrow> 'a IRState_scheme option" where
  "branchUnlessReturned b st = (if scopereturned st then Some st else CreateBr b st)"

definition appendInstrs :: "Instr list \<Rightarrow> ToIRState \<Rightarrow> ToIRState" where
  "appendInstrs is st = st\<lparr>code := (code st)(scopebb st := code st (scopebb st) @ is)\<rparr>"

text \<open>\<open>PGO.emitCounterIncrement\<close>; the counter map is that of the function.\<close>

definition emitIncrement :: "ToIREnv \<Rightarrow> ptr \<Rightarrow> emit" where
  "emitIncrement E S st = do {
     calls \<leftarrow> emitCounterIncrement (isInstrumenting E) S (pgo E);
     Some (appendInstrs (map Profile calls) st) }"

text \<open>A call through \<open>CreateCallOrInvoke\<close> of a run-time function that may throw.\<close>

definition callRuntime :: "ToIREnv \<Rightarrow> emit" where
  "callRuntime E st = map_option snd (callOrInvoke (useExceptions E) (Some \<lparr>isIntrinsic = False, calleeDoesNotThrow = False\<rparr>) False st)"

section \<open>Lifetimes of local variables\<close>

definition lifetime_pushScope :: "ToIRState \<Rightarrow> ToIRState" where
  "lifetime_pushScope st = st\<lparr>lifetimeScopes := lifetimeScopes st @ [[]]\<rparr>"

definition addLocalVariable :: "ToIREnv \<Rightarrow> ptr \<Rightarrow> ToIRState \<Rightarrow> ToIRState" where
  "addLocalVariable E address st =
     (if \<not> fEmitLocalVarLifetime E \<or> lifetimeScopes st = [] then st
      else appendInstrs [LifetimeStart address]
        (st\<lparr>lifetimeScopes := butlast (lifetimeScopes st) @ [last (lifetimeScopes st) @ [address]]\<rparr>))"

definition lifetime_popScope :: "ToIRState \<Rightarrow> ToIRState" where
  "lifetime_popScope st =
     (if lifetimeScopes st = [] then st
      else (appendInstrs (map LifetimeEnd (last (lifetimeScopes st))) st)\<lparr>lifetimeScopes := butlast (lifetimeScopes st)\<rparr>)"

section \<open>Expressions\<close>

text \<open>
  \<open>pushVarDtorCleanup\<close> with the emission of the destructor call, and the end of a full expression
  (\<open>getResult\<close>), which runs and closes the cleanups of its temporaries.
\<close>

definition pushVarDtorCleanup :: "emit \<Rightarrow> emit" where
  "pushVarDtorCleanup edtor st = do {
     let saved = scopebb st;
     let (beginBB, st1) = insertBB st;
     st2 \<leftarrow> edtor (SetInsertPoint beginBB st1);
     Some (SetInsertPoint saved (pushCleanup beginBB (scopebb st2) st2)) }"

definition destructTemporaries :: "nat \<Rightarrow> emit" where
  "destructTemporaries initialCleanupScope st =
     (if currentCleanupScope st = initialCleanupScope then Some st
      else do {
        let (endbb, st1) = insertBB st;
        st2 \<leftarrow> runCleanups initialCleanupScope endbb st1;
        st3 \<leftarrow> popCleanups initialCleanupScope st2;
        Some (SetInsertPoint endbb st3) })"

definition withDtors :: "emit \<Rightarrow> emit" where
  "withDtors f st = do { st1 \<leftarrow> f st; destructTemporaries (currentCleanupScope st) st1 }"

definition toElem_Declaration :: "ToIREnv \<Rightarrow> ptr \<Rightarrow> ptr \<Rightarrow> emit \<Rightarrow> emit \<Rightarrow> emit" where
  "toElem_Declaration E e vd init edtor st = do {
     st1 \<leftarrow> otherElem E e [init] st;
     if needsScopeDtor E vd then pushVarDtorCleanup (withDtors edtor) st1 else Some st1 }"

definition toElem_Cond :: "ToIREnv \<Rightarrow> ptr \<Rightarrow> emit \<Rightarrow> emit \<Rightarrow> emit \<Rightarrow> emit" where
  "toElem_Cond E e econd e1 e2 st = do {
     let (condtrue, st1) = insertBB st;
     let (condfalse, st2) = insertBB st1;
     let (condend, st3) = insertBB st2;
     st4 \<leftarrow> econd st3;
     st5 \<leftarrow> CreateCondBr condtrue condfalse st4;
     st6 \<leftarrow> emitIncrement E e (SetInsertPoint condtrue st5);
     st7 \<leftarrow> e1 st6;
     st8 \<leftarrow> CreateBr condend st7;
     st9 \<leftarrow> e2 (SetInsertPoint condfalse st8);
     st10 \<leftarrow> CreateBr condend st9;
     Some (SetInsertPoint condend st10) }"

definition toElem_Logical :: "ToIREnv \<Rightarrow> ptr \<Rightarrow> bool \<Rightarrow> emit \<Rightarrow> emit \<Rightarrow> emit" where
  "toElem_Logical E e isAndAnd e1 e2 st = do {
     st1 \<leftarrow> e1 st;
     let (rhsBB, st2) = insertBB st1;
     let (endBB, st3) = insertBB st2;
     st4 \<leftarrow> CreateCondBr (if isAndAnd then rhsBB else endBB) (if isAndAnd then endBB else rhsBB) st3;
     st5 \<leftarrow> emitIncrement E e (SetInsertPoint rhsBB st4);
     st6 \<leftarrow> withDtors e2 st5;
     st7 \<leftarrow> CreateBr endBB st6;
     Some (SetInsertPoint endBB st7) }"

text \<open>
  \<open>visit(AssertExp)\<close>; the call of a class or struct invariant that may follow is \<open>invariantCall\<close>.
\<close>

definition emitAssertFailure :: "ToIREnv \<Rightarrow> emit \<Rightarrow> emit" where
  "emitAssertFailure E msg st = (if checkActionHalt E then Some st else do { st1 \<leftarrow> withDtors msg st; callRuntime E st1 })"

definition toElem_Assert :: "ToIREnv \<Rightarrow> emit \<Rightarrow> emit \<Rightarrow> emit \<Rightarrow> emit" where
  "toElem_Assert E e1 msg invariantCall st =
     (if \<not> useAssert E then Some st
      else do {
        st1 \<leftarrow> e1 st;
        let (passedbb, st2) = insertBB st1;
        let (failedbb, st3) = insertBB st2;
        st4 \<leftarrow> CreateCondBr passedbb failedbb st3;
        st5 \<leftarrow> emitAssertFailure E msg (SetInsertPoint failedbb st4);
        st6 \<leftarrow> CreateUnreachable st5;
        invariantCall (SetInsertPoint passedbb st6) })"

text \<open>\<open>DtoThrow\<close>, after the evaluation of its operand.\<close>

definition DtoThrow :: "ToIREnv \<Rightarrow> emit" where
  "DtoThrow E st = do {
     st1 \<leftarrow> callRuntime E st;
     st2 \<leftarrow> CreateUnreachable st1;
     let (bb, st3) = insertBB st2;
     Some (SetInsertPoint bb st3) }"

text \<open>
  The visitor. The classes with a method of their own here are told apart first; a declaration of
  a variable comes with its initializer and the call of its destructor.
\<close>

datatype elem_class =
  NullElem
| CondElem ptr "ptr ast" "ptr ast" "ptr ast"
| LogicalElem ptr bool "ptr ast" "ptr ast"
| AssertElem ptr "ptr ast" "ptr ast"
| VarElem ptr ptr "ptr ast" "ptr ast"
| OtherElem ptr "ptr ast list"

fun classifyVar :: "ptr \<Rightarrow> ptr ast list \<Rightarrow> elem_class" where
  "classifyVar p [Seq k v [init, edtor]] = (if k = VarD then VarElem p v init edtor else OtherElem p [Seq k v [init, edtor]])"
| "classifyVar p xs = OtherElem p xs"

fun classifyAssert :: "ptr \<Rightarrow> ptr ast list \<Rightarrow> elem_class" where
  "classifyAssert p [e1, msg] = AssertElem p e1 msg"
| "classifyAssert p xs = OtherElem p xs"

definition elemClass :: "ptr ast \<Rightarrow> elem_class" where
  "elemClass a =
     (case a of
        Null \<Rightarrow> NullElem
      | CondExp p econd e1 e2 \<Rightarrow> CondElem p econd e1 e2
      | LogicalExp p isAndAnd e1 e2 \<Rightarrow> LogicalElem p isAndAnd e1 e2
      | Seq k p xs \<Rightarrow> if k = AssertE then classifyAssert p xs else if k = DeclarationE then classifyVar p xs else OtherElem p xs
      | _ \<Rightarrow> OtherElem (addr a) (children a))"

fun elemParts :: "elem_class \<Rightarrow> ptr ast list" where
  "elemParts NullElem = []"
| "elemParts (CondElem p econd e1 e2) = [econd, e1, e2]"
| "elemParts (LogicalElem p isAndAnd e1 e2) = [e1, e2]"
| "elemParts (AssertElem p e1 msg) = [e1, msg]"
| "elemParts (VarElem p v init edtor) = [init, edtor]"
| "elemParts (OtherElem p xs) = xs"

lemma size_classify:
  "x \<in> set (elemParts (classifyVar p xs)) \<Longrightarrow> size x < Suc (size_list size xs)"
  "x \<in> set (elemParts (classifyAssert p xs)) \<Longrightarrow> size x < Suc (size_list size xs)"
  by (induction p xs rule: classifyVar.induct; auto dest: size_list_member split: if_splits)
    (induction p xs rule: classifyAssert.induct; auto dest: size_list_member)

lemma size_elemParts: "x \<in> set (elemParts (elemClass a)) \<Longrightarrow> size x < size a"
  by (cases a) (auto simp: elemClass_def dest: size_classify size_list_member split: if_splits)

function toElem :: "ToIREnv \<Rightarrow> ptr ast \<Rightarrow> emit" where
  "toElem E a =
     (case elemClass a of
        NullElem \<Rightarrow> Some
      | CondElem p econd e1 e2 \<Rightarrow> toElem_Cond E p (toElem E econd) (toElem E e1) (toElem E e2)
      | LogicalElem p isAndAnd e1 e2 \<Rightarrow> toElem_Logical E p isAndAnd (toElem E e1) (toElem E e2)
      | AssertElem p e1 msg \<Rightarrow> toElem_Assert E (toElem E e1) (toElem E msg) (otherElem E p [])
      | VarElem p v init edtor \<Rightarrow> toElem_Declaration E p v (toElem E init) (toElem E edtor)
      | OtherElem p xs \<Rightarrow> otherElem E p (map (toElem E) xs))"
  by pat_completeness auto
termination
  by (relation "measure (\<lambda>(E, a). size a)") (auto intro!: size_elemParts)

declare toElem.simps [simp del]

definition toElemDtor :: "ToIREnv \<Rightarrow> ptr ast \<Rightarrow> emit" where
  "toElemDtor E a = withDtors (toElem E a)"

section \<open>Statements\<close>

text \<open>A new block to go on in, after a jump.\<close>

definition enterNewBB :: emit where
  "enterNewBB st = (let (bb, st1) = insertBB st in Some (SetInsertPoint bb st1))"

definition seqEmit :: "emit list \<Rightarrow> emit" where
  "seqEmit = iterM (\<lambda>f. f)"

text \<open>
  \<open>visit(ReturnStatement)\<close>. The block that is shared by the returns that have cleanups to run is
  created, and returns, with the first of them.
\<close>

definition getOrCreateRetBlock :: "ToIRState \<Rightarrow> BB \<times> ToIRState" where
  "getOrCreateRetBlock st =
     (case retBlock st of
        Some b \<Rightarrow> (b, st)
      | None \<Rightarrow> (let (b, st1) = insertBB st in (b, st1\<lparr>retBlock := Some b\<rparr>)))"

definition emitReturn :: "nat \<Rightarrow> emit" where
  "emitReturn cleanupScopeBeforeExpression st =
     (if currentCleanupScope st = 0 then CreateRet st
      else do {
        let sharedRetBlockExists = (retBlock st \<noteq> None);
        let (retbb, st1) = getOrCreateRetBlock st;
        st2 \<leftarrow> runCleanups 0 retbb st1;
        st3 \<leftarrow> popCleanups cleanupScopeBeforeExpression st2;
        if sharedRetBlockExists then Some (SetInsertPoint retbb st3) else CreateRet (SetInsertPoint retbb st3) })"

definition toIR_Return :: "ToIREnv \<Rightarrow> ptr \<Rightarrow> emit \<Rightarrow> emit" where
  "toIR_Return E p e st = do {
     st1 \<leftarrow> otherElem E p [e] st;
     st2 \<leftarrow> emitReturn (currentCleanupScope st) st1;
     enterNewBB st2 }"

text \<open>
  \<open>containsLabel\<close>: is there a label in a statement, or a case of a switch around it? The visitor is
  run by the recursive walker, whose \<open>visit(SwitchStatement)\<close> is overridden.
\<close>

record ContainsLabelVisitor = StoppableVisitor +
  insideSwitch :: "ptr option"

definition ContainsLabel_visit :: "ptr ast \<Rightarrow> ContainsLabelVisitor \<Rightarrow> ContainsLabelVisitor option" where
  "ContainsLabel_visit a v =
     (case a of
        LabelStatement p s \<Rightarrow> Some (v\<lparr>stop := True\<rparr>)
      | CaseStatement p g s \<Rightarrow> Some (if insideSwitch v = None then v\<lparr>stop := True\<rparr> else v)
      | DefaultStatement p g s \<Rightarrow> Some (if insideSwitch v = None then v\<lparr>stop := True\<rparr> else v)
      | _ \<Rightarrow> Some v)"

definition ContainsLabelWalker :: "(ptr, ContainsLabelVisitor) walker" where
  "ContainsLabelWalker =
     \<lparr>accept = ContainsLabel_visit, continueAfterStop = False,
      aroundSwitch = (\<lambda>s m v. map_option (\<lambda>v'. v'\<lparr>insideSwitch := insideSwitch v\<rparr>) (m (v\<lparr>insideSwitch := Some (addr s)\<rparr>))),
      visitsExpression = False\<rparr>"

definition containsLabel :: "ptr ast \<Rightarrow> bool" where
  "containsLabel a =
     (case walk ContainsLabelWalker a \<lparr>stop = False, insideSwitch = None\<rparr> of
        None \<Rightarrow> False
      | Some v \<Rightarrow> stop v)"

definition dcomputeReflectMatches :: "ToIREnv \<Rightarrow> nat \<times> nat \<Rightarrow> bool" where
  "dcomputeReflectMatches E = (\<lambda>(arg1, arg2).
     (case dcomputetarget E of
        None \<Rightarrow> arg1 = 0
      | Some (target, tversion) \<Rightarrow> arg1 = target \<and> (arg2 = 0 \<or> arg2 = tversion)))"

text \<open>
  \<open>visit(IfStatement)\<close>. When the condition is a constant and nothing can jump into the branch that is
  not taken, only the other one is emitted.
\<close>

definition elides :: "ToIREnv \<Rightarrow> ptr \<Rightarrow> ptr ast \<Rightarrow> ptr ast \<Rightarrow> bool option" where
  "elides E p ifbody elsebody =
     (case constCond E p of
        None \<Rightarrow> None
      | Some c \<Rightarrow> if containsLabel (if c then elsebody else ifbody) then None else Some c)"

definition emitIfBody :: "ToIREnv \<Rightarrow> ptr \<Rightarrow> bool \<Rightarrow> emit \<Rightarrow> emit" where
  "emitIfBody E p hasIf ifbody st = (if hasIf then do { st1 \<leftarrow> emitIncrement E p st; ifbody st1 } else Some st)"

definition emitElseBody :: "bool \<Rightarrow> BB \<Rightarrow> BB \<Rightarrow> emit \<Rightarrow> emit" where
  "emitElseBody hasElse elsebb endbb elsebody st =
     (if hasElse then do { st1 \<leftarrow> elsebody (SetInsertPoint elsebb st); branchUnlessReturned endbb st1 } else Some st)"

definition toIR_Branches :: "ToIREnv \<Rightarrow> ptr \<Rightarrow> bool \<Rightarrow> bool \<Rightarrow> emit \<Rightarrow> emit \<Rightarrow> emit" where
  "toIR_Branches E p hasIf hasElse ifbody elsebody st = do {
     let (ifbb, st1) = insertBB st;
     let (endbb, st2) = insertBB st1;
     let (elsebb, st3) = (if hasElse then insertBB st2 else (endbb, st2));
     st4 \<leftarrow> CreateCondBr ifbb elsebb st3;
     st5 \<leftarrow> emitIfBody E p hasIf ifbody (SetInsertPoint ifbb st4);
     st6 \<leftarrow> branchUnlessReturned endbb st5;
     st7 \<leftarrow> emitElseBody hasElse elsebb endbb elsebody st6;
     Some (lifetime_popScope (SetInsertPoint endbb st7)) }"

definition emitElided :: "ToIREnv \<Rightarrow> ptr \<Rightarrow> bool \<Rightarrow> emit \<Rightarrow> emit \<Rightarrow> emit" where
  "emitElided E p c eif eelse st = (if c then do { st1 \<leftarrow> emitIncrement E p st; eif st1 } else eelse st)"

definition toIR_If :: "ToIREnv \<Rightarrow> ptr \<Rightarrow> ptr ast \<Rightarrow> ptr ast \<Rightarrow> emit \<Rightarrow> emit \<Rightarrow> emit \<Rightarrow> emit" where
  "toIR_If E p ifbody elsebody econd eif eelse st =
     (case dcReflect E p of
        Some args \<Rightarrow> (if dcomputeReflectMatches E args then eif else eelse) (lifetime_pushScope st)
      | None \<Rightarrow> do {
          st1 \<leftarrow> withDtors econd (lifetime_pushScope st);
          (case elides E p ifbody elsebody of
             Some c \<Rightarrow> emitElided E p c eif eelse
           | None \<Rightarrow> toIR_Branches E p (ifbody \<noteq> Null) (elsebody \<noteq> Null) eif eelse) st1 })"

definition toIR_Scope :: "bool \<Rightarrow> emit \<Rightarrow> emit" where
  "toIR_Scope hasStatement s st =
     (if hasStatement then do { st1 \<leftarrow> s (lifetime_pushScope st); Some (lifetime_popScope st1) } else Some st)"

definition toIR_While :: "ToIREnv \<Rightarrow> ptr \<Rightarrow> emit \<Rightarrow> emit \<Rightarrow> emit" where
  "toIR_While E p econd ebody st = do {
     let (whilebb, st1) = insertBB st;
     let (whilebodybb, st2) = insertBB st1;
     let (endbb, st3) = insertBB st2;
     st4 \<leftarrow> CreateBr whilebb st3;
     st5 \<leftarrow> withDtors econd (SetInsertPoint whilebb st4);
     st6 \<leftarrow> CreateCondBr whilebodybb endbb st5;
     st7 \<leftarrow> emitIncrement E p (pushLoopTarget p whilebb endbb (SetInsertPoint whilebodybb st6));
     st8 \<leftarrow> ebody st7;
     st9 \<leftarrow> popLoopTarget st8;
     st10 \<leftarrow> branchUnlessReturned whilebb st9;
     Some (SetInsertPoint endbb st10) }"

definition toIR_Do :: "ToIREnv \<Rightarrow> ptr \<Rightarrow> emit \<Rightarrow> emit \<Rightarrow> emit" where
  "toIR_Do E p ebody econd st = do {
     let (dowhilebb, st1) = insertBB st;
     let (condbb, st2) = insertBB st1;
     let (endbb, st3) = insertBB st2;
     st4 \<leftarrow> CreateBr dowhilebb st3;
     st5 \<leftarrow> emitIncrement E p (pushLoopTarget p condbb endbb (SetInsertPoint dowhilebb st4));
     st6 \<leftarrow> ebody st5;
     st7 \<leftarrow> popLoopTarget st6;
     st8 \<leftarrow> CreateBr condbb st7;
     st9 \<leftarrow> withDtors econd (SetInsertPoint condbb st8);
     st10 \<leftarrow> CreateCondBr dowhilebb endbb st9;
     Some (SetInsertPoint endbb st10) }"

text \<open>The loop or switch that a labelled statement is, without the scopes around it.\<close>

function stripScopes :: "ptr ast \<Rightarrow> ptr ast" where
  "stripScopes a = (case a of Seq k p xs \<Rightarrow> if k = ScopeS \<and> xs \<noteq> [] then stripScopes (hd xs) else a | _ \<Rightarrow> a)"
  by pat_completeness auto
termination
proof (relation "measure size")
  fix a :: "ptr ast" and k p xs
  assume "a = Seq k p xs" "k = ScopeS \<and> xs \<noteq> []"
  then show "(hd xs, a) \<in> measure size" using size_list_member [OF hd_in_set, of xs] by simp
qed simp

declare stripScopes.simps [simp del]

definition toIR_For :: "ToIREnv \<Rightarrow> ptr \<Rightarrow> emit \<Rightarrow> emit \<Rightarrow> emit \<Rightarrow> emit \<Rightarrow> emit" where
  "toIR_For E p einit econd ebody einc st = do {
     let (forbb, st1) = insertBB (lifetime_pushScope st);
     let (forbodybb, st2) = insertBB st1;
     let (forincbb, st3) = insertBB st2;
     let (endbb, st4) = insertBB st3;
     st5 \<leftarrow> einit st4;
     st6 \<leftarrow> CreateBr forbb st5;
     let st7 = SetInsertPoint forbb (pushLoopTarget (addr (stripScopes (relatedLabeled E p))) forincbb endbb st6);
     st8 \<leftarrow> withDtors econd st7;
     st9 \<leftarrow> CreateCondBr forbodybb endbb st8;
     st10 \<leftarrow> emitIncrement E p (SetInsertPoint forbodybb st9);
     st11 \<leftarrow> ebody st10;
     st12 \<leftarrow> branchUnlessReturned forincbb st11;
     st13 \<leftarrow> withDtors einc (SetInsertPoint forincbb st12);
     st14 \<leftarrow> branchUnlessReturned forbb st13;
     st15 \<leftarrow> popLoopTarget st14;
     Some (lifetime_popScope (SetInsertPoint endbb st15)) }"

text \<open>
  \<open>foreach\<close> over an array or a range: \<open>evals\<close> evaluates what is iterated over, \<open>copy\<close> provides the element.
\<close>

definition toIR_Foreach :: "ToIREnv \<Rightarrow> ptr \<Rightarrow> emit \<Rightarrow> emit \<Rightarrow> emit \<Rightarrow> emit" where
  "toIR_Foreach E p evals copy ebody st = do {
     st1 \<leftarrow> evals st;
     let (condbb, st2) = insertBB st1;
     let (bodybb, st3) = insertBB st2;
     let (nextbb, st4) = insertBB st3;
     let (endbb, st5) = insertBB st4;
     st6 \<leftarrow> CreateBr condbb st5;
     st7 \<leftarrow> CreateCondBr bodybb endbb (SetInsertPoint condbb st6);
     st8 \<leftarrow> emitIncrement E p (SetInsertPoint bodybb st7);
     st9 \<leftarrow> copy st8;
     st10 \<leftarrow> ebody (pushLoopTarget p nextbb endbb st9);
     st11 \<leftarrow> popLoopTarget st10;
     st12 \<leftarrow> branchUnlessReturned nextbb st11;
     st13 \<leftarrow> CreateBr condbb (SetInsertPoint nextbb st12);
     Some (SetInsertPoint endbb st13) }"

text \<open>
  The statements of an unrolled loop: \<open>blocks\<close> are those of the statements that are left, followed by
  the end.
\<close>

fun insertBBs :: "nat \<Rightarrow> 'a IRState_scheme \<Rightarrow> BB list \<times> 'a IRState_scheme" where
  "insertBBs 0 st = ([], st)"
| "insertBBs (Suc n) st = (let (b, st1) = insertBB st; (bs, st2) = insertBBs n st1 in (b # bs, st2))"

fun unrolledStmts :: "ToIREnv \<Rightarrow> ptr \<Rightarrow> BB \<Rightarrow> (ptr \<times> emit) list \<Rightarrow> BB list \<Rightarrow> emit" where
  "unrolledStmts E p endbb ((q, s) # ss) (thisbb # blocks) st = (let nextbb = (case blocks of [] \<Rightarrow> endbb | b # _ \<Rightarrow> b) in do {
     st1 \<leftarrow> emitIncrement E q (pushLoopTarget p nextbb endbb (SetInsertPoint thisbb st));
     st2 \<leftarrow> s st1;
     st3 \<leftarrow> popLoopTarget st2;
     st4 \<leftarrow> branchUnlessReturned nextbb st3;
     unrolledStmts E p endbb ss blocks st4 })"
| "unrolledStmts E p endbb _ _ st = Some st"

definition toIR_Unrolled :: "ToIREnv \<Rightarrow> ptr \<Rightarrow> (ptr \<times> emit) list \<Rightarrow> emit" where
  "toIR_Unrolled E p stmts st =
     (if stmts = [] then Some st
      else do {
        let (endbb, st1) = insertBB st;
        let (blocks, st2) = insertBBs (length stmts) st1;
        st3 \<leftarrow> branchUnlessReturned (hd blocks) st2;
        st4 \<leftarrow> unrolledStmts E p endbb stmts blocks st3;
        emitIncrement E p (SetInsertPoint endbb st4) })"

definition toIR_Break :: "ToIREnv \<Rightarrow> ptr option \<Rightarrow> emit" where
  "toIR_Break E target st =
     (if scopereturned st then Some st
      else do {
        st1 \<leftarrow> (case target of
            Some t \<Rightarrow> breakToStatement (addr (stripScopes (labelStatement E t))) st
          | None \<Rightarrow> breakToClosest st);
        enterNewBB st1 })"

definition toIR_Continue :: "ToIREnv \<Rightarrow> ptr option \<Rightarrow> emit" where
  "toIR_Continue E target st = do {
     st1 \<leftarrow> (case target of
         Some t \<Rightarrow> continueWithLoop (addr (stripScopes (labelStatement E t))) st
       | None \<Rightarrow> continueWithClosest st);
     enterNewBB st1 }"

subsection \<open>Exceptions\<close>

text \<open>
  \<open>visit(TryFinallyStatement)\<close>, when there are a body and a finally block. \<open>successbb\<close> is a null
  pointer when the current block has a terminator already.
\<close>

definition leaveTry :: "ToIREnv \<Rightarrow> ptr \<Rightarrow> bool \<Rightarrow> nat \<Rightarrow> BB option \<Rightarrow> emit" where
  "leaveTry E p computeCode cleanupBefore successbb st =
     (case successbb of
        None \<Rightarrow> Some st
      | Some b \<Rightarrow> do {
          st1 \<leftarrow> (if computeCode then Some st else runCleanups cleanupBefore b st);
          emitIncrement E p (SetInsertPoint b st1) })"

definition insertSuccessBB :: "bool \<Rightarrow> 'a IRState_scheme \<Rightarrow> BB option \<times> 'a IRState_scheme" where
  "insertSuccessBB returned st = (if returned then (None, st) else map_prod Some id (insertBB st))"

definition toIR_TryFinally :: "ToIREnv \<Rightarrow> ptr \<Rightarrow> emit \<Rightarrow> emit \<Rightarrow> emit" where
  "toIR_TryFinally E p ebody efinal st = do {
     let (finallybb, st1) = insertBB st;
     let (successbb, st2) = insertSuccessBB (scopereturned st) st1;
     st3 \<leftarrow> efinal (SetInsertPoint finallybb st2);
     let computeCode = (dcomputetarget E \<noteq> None);
     let st4 = (if computeCode then st3 else pushCleanup finallybb (scopebb st3) st3);
     st5 \<leftarrow> ebody (SetInsertPoint (scopebb st) st4);
     st6 \<leftarrow> leaveTry E p computeCode (currentCleanupScope st3) successbb st5;
     if computeCode then Some st6 else popCleanups (currentCleanupScope st3) st6 }"

text \<open>
  \<open>TryCatchScope::emitCatchBodies\<close> for one catch. The handler of a C++ exception becomes the body of
  a try-finally statement that is created on the fly.
\<close>

record CatchClause =
  catchAddr :: ptr
  hasHandler :: bool
  emitHandler :: emit

definition catchesNonExceptionsOf :: "ToIREnv \<Rightarrow> ptr list \<Rightarrow> bool" where
  "catchesNonExceptionsOf E catches = list_ex (\<lambda>c. exceptionClass E \<notin> set (catchClass E c)) catches"

definition emitCatchHandler :: "ToIREnv \<Rightarrow> CatchClause \<Rightarrow> emit" where
  "emitCatchHandler E c =
     (let call = withDtors (otherElem E (cxaEndCatch E (catchAddr c)) [])
      in if isCPPcatch E (catchAddr c)
         then if hasHandler c then toIR_TryFinally E (cxaEndCatch E (catchAddr c)) (emitHandler c) call else call
         else if hasHandler c then emitHandler c else Some)"

definition emitCatchBody :: "ToIREnv \<Rightarrow> BB \<Rightarrow> CatchClause \<Rightarrow> CatchBlock list \<times> ToIRState \<Rightarrow> (CatchBlock list \<times> ToIRState) option" where
  "emitCatchBody E endbb c = (\<lambda>(blocks, st). do {
     let (catchBB, st1) = insertBB st;
     st2 \<leftarrow> emitIncrement E (catchAddr c) (SetInsertPoint catchBB st1);
     st3 \<leftarrow> otherElem E (catchAddr c) [] st2;
     st4 \<leftarrow> emitCatchHandler E c st3;
     st5 \<leftarrow> branchUnlessReturned endbb st4;
     Some (blocks @ [\<lparr>classInfoPtr = hd (catchClass E (catchAddr c)), bodyBB = catchBB\<rparr>], st5) })"

definition toIR_TryCatch :: "ToIREnv \<Rightarrow> ptr \<Rightarrow> emit \<Rightarrow> CatchClause list \<Rightarrow> emit" where
  "toIR_TryCatch E p ebody catches st = do {
     ensure (dcomputetarget E = None);
     let trybb = scopebb st;
     let (endbb, st1) = insertBB st;
     (blocks, st2) \<leftarrow> iterM (emitCatchBody E endbb) catches ([], st1);
     let st3 = pushTryCatch blocks (catchesNonExceptionsOf E (map catchAddr catches)) st2;
     st4 \<leftarrow> ebody (SetInsertPoint trybb st3);
     st5 \<leftarrow> branchUnlessReturned endbb st4;
     st6 \<leftarrow> popTryCatch st5;
     emitIncrement E p (SetInsertPoint endbb st6) }"

definition toIR_Throw :: "ToIREnv \<Rightarrow> emit \<Rightarrow> emit" where
  "toIR_Throw E e st = do {
     ensure (dcomputetarget E = None);
     st1 \<leftarrow> withDtors e st;
     DtoThrow E st1 }"

subsection \<open>Switches\<close>

text \<open>\<open>llvm::SwitchInst::Create\<close> with its cases.\<close>

definition CreateSwitch :: "BB \<Rightarrow> BB \<Rightarrow> BB list \<Rightarrow> 'a IRState_scheme \<Rightarrow> 'a IRState_scheme option" where
  "CreateSwitch switchbb defaultbb cases st = terminate switchbb (OtherTerminator (defaultbb # cases)) st"

text \<open>A block that counts a jump to \<open>target\<close> and goes there.\<close>

definition emitCounterBB :: "ToIREnv \<Rightarrow> ptr option \<Rightarrow> BB \<Rightarrow> ToIRState \<Rightarrow> (BB \<times> ToIRState) option" where
  "emitCounterBB E counter target st = do {
     let (cntr, st1) = insertBB st;
     st2 \<leftarrow> (case counter of None \<Rightarrow> Some (SetInsertPoint cntr st1) | Some q \<Rightarrow> emitIncrement E q (SetInsertPoint cntr st1));
     st3 \<leftarrow> CreateBr target st2;
     Some (cntr, st3) }"

fun emitCaseCounters :: "ToIREnv \<Rightarrow> ptr list \<Rightarrow> ToIRState \<Rightarrow> (BB list \<times> ToIRState) option" where
  "emitCaseCounters E [] st = Some ([], st)"
| "emitCaseCounters E (cs # css) st = do {
     body \<leftarrow> getCaseTarget cs st;
     (casecntr, st1) \<leftarrow> emitCounterBB E (Some cs) body st;
     (casecntrs, st2) \<leftarrow> emitCaseCounters E css st1;
     Some (casecntr # casecntrs, st2) }"

definition getCaseTargets :: "ptr list \<Rightarrow> ToIRState \<Rightarrow> BB list option" where
  "getCaseTargets cases st = those (map (\<lambda>cs. getCaseTarget cs st) cases)"

text \<open>The cases are added to the switch one by one in the code, here all at the end.\<close>

definition emitSwitchInst :: "ToIREnv \<Rightarrow> ptr \<Rightarrow> BB \<Rightarrow> emit" where
  "emitSwitchInst E p defaultTargetBB st =
     (if \<not> emitInstrumentation (pgo E)
      then do {
        cases \<leftarrow> getCaseTargets (switchCases E p) st;
        CreateSwitch (scopebb st) defaultTargetBB cases st }
      else do {
        let switchbb = scopebb st;
        (defaultcntr, st1) \<leftarrow> emitCounterBB E (sdefault E p) defaultTargetBB st;
        (casecntrs, st2) \<leftarrow> emitCaseCounters E (switchCases E p) st1;
        CreateSwitch switchbb defaultcntr casecntrs st2 })"

text \<open>The chain of comparisons for a switch whose cases are not constants.\<close>

definition emitCaseJump :: "ToIREnv \<Rightarrow> ptr \<Rightarrow> ToIRState \<Rightarrow> (BB \<times> ToIRState) option" where
  "emitCaseJump E cs st = do {
     target \<leftarrow> getCaseTarget cs st;
     if emitInstrumentation (pgo E)
     then do { (casecntr, st1) \<leftarrow> emitCounterBB E (Some cs) target st; Some (casecntr, SetInsertPoint (scopebb st) st1) }
     else Some (target, st) }"

definition emitCheckCase :: "ToIREnv \<Rightarrow> ptr \<Rightarrow> emit" where
  "emitCheckCase E cs st = do {
     let (nextbb, st1) = insertBB st;
     (casejumptargetbb, st2) \<leftarrow> emitCaseJump E cs st1;
     st3 \<leftarrow> CreateCondBr casejumptargetbb nextbb st2;
     Some (SetInsertPoint nextbb st3) }"

definition emitDefaultJump :: "ToIREnv \<Rightarrow> ptr \<Rightarrow> BB \<Rightarrow> ToIRState \<Rightarrow> (BB \<times> ToIRState) option" where
  "emitDefaultJump E p defaultTargetBB st =
     (if sdefault E p \<noteq> None \<and> emitInstrumentation (pgo E)
      then emitCounterBB E (sdefault E p) defaultTargetBB st else Some (defaultTargetBB, st))"

definition emitCaseChain :: "ToIREnv \<Rightarrow> ptr \<Rightarrow> BB \<Rightarrow> emit" where
  "emitCaseChain E p defaultTargetBB st = do {
     let (nextbb, st1) = insertBB st;
     st2 \<leftarrow> CreateBr nextbb st1;
     (defaultbb, st3) \<leftarrow> emitDefaultJump E p defaultTargetBB st2;
     st4 \<leftarrow> iterM (emitCheckCase E) (switchCases E p) (SetInsertPoint nextbb st3);
     CreateBr defaultbb st4 }"

definition evalCaseIndex :: "ToIREnv \<Rightarrow> ptr \<Rightarrow> emit" where
  "evalCaseIndex E cs = (if caseIsConst E cs then Some else withDtors (caseElem E cs))"

definition defaultTarget :: "ToIREnv \<Rightarrow> ptr \<Rightarrow> BB \<Rightarrow> ToIRState \<Rightarrow> BB \<times> ToIRState" where
  "defaultTarget E p endbb st = (case sdefault E p of None \<Rightarrow> (endbb, st) | Some d \<Rightarrow> getOrCreateCaseTarget d st)"

definition toIR_Switch :: "ToIREnv \<Rightarrow> ptr \<Rightarrow> emit \<Rightarrow> emit \<Rightarrow> emit" where
  "toIR_Switch E p econd ebody st = do {
     st1 \<leftarrow> iterM (evalCaseIndex E) (switchCases E p) st;
     let (bodybb, st2) = insertBB st1;
     let (endbb, st3) = insertBB st2;
     let (defaultTargetBB, st4) = defaultTarget E p endbb st3;
     st5 \<leftarrow> ebody (pushBreakTarget p endbb (SetInsertPoint bodybb st4));
     st6 \<leftarrow> popBreakTarget st5;
     st7 \<leftarrow> branchUnlessReturned endbb st6;
     st8 \<leftarrow> withDtors econd (SetInsertPoint (scopebb st) st7);
     st9 \<leftarrow> (if list_all (caseIsConst E) (switchCases E p) then emitSwitchInst else emitCaseChain) E p defaultTargetBB st8;
     emitIncrement E p (SetInsertPoint endbb st9) }"

text \<open>\<open>visit(CaseStatement)\<close> and \<open>visit(DefaultStatement)\<close>.\<close>

definition toIR_Case :: "ToIREnv \<Rightarrow> ptr \<Rightarrow> bool \<Rightarrow> emit \<Rightarrow> emit" where
  "toIR_Case E p gototarget s st = do {
     let (body, st1) = getOrCreateCaseTarget p st;
     st2 \<leftarrow> branchUnlessReturned body st1;
     st3 \<leftarrow> (if gototarget then emitIncrement E (getCounterPtr p 1) else Some) (SetInsertPoint body st2);
     s st3 }"

definition toIR_GotoDefault :: "ToIREnv \<Rightarrow> ptr \<Rightarrow> emit" where
  "toIR_GotoDefault E p st = do {
     ensure (\<not> scopereturned st);
     defaultBB \<leftarrow> getCaseTarget (gotoDefaultTarget E p) st;
     st1 \<leftarrow> CreateBr defaultBB st;
     enterNewBB st1 }"

definition toIR_GotoCase :: "ToIREnv \<Rightarrow> ptr \<Rightarrow> emit" where
  "toIR_GotoCase E p st = do {
     ensure (\<not> scopereturned st);
     let (caseBB, st1) = getOrCreateCaseTarget (gotoCaseTarget E p) st;
     st2 \<leftarrow> CreateBr caseBB st1;
     enterNewBB st2 }"

definition toIR_SwitchError :: "ToIREnv \<Rightarrow> ptr \<Rightarrow> emit" where
  "toIR_SwitchError E p st = do {
     ensure (dcomputetarget E = None);
     st1 \<leftarrow> (if checkActionC E then callRuntime E else withDtors (otherElem E p [])) st;
     CreateUnreachable st1 }"

subsection \<open>Labels\<close>

definition toIR_Label :: "ToIREnv \<Rightarrow> ptr \<Rightarrow> emit \<Rightarrow> emit" where
  "toIR_Label E p s st = do {
     let (labelBB, st1) = insertBB st;
     st2 \<leftarrow> branchUnlessReturned labelBB (addLabelTarget (labelIdent E p) labelBB st1);
     st3 \<leftarrow> emitIncrement E p (SetInsertPoint labelBB st2);
     s st3 }"

definition DtoGoto :: "nat \<Rightarrow> Identifier option \<Rightarrow> emit" where
  "DtoGoto loc target st = do {
     ensure (\<not> scopereturned st);
     ident \<leftarrow> target;
     jumpToLabel loc ident st }"

definition toIR_Goto :: "ToIREnv \<Rightarrow> ptr \<Rightarrow> emit" where
  "toIR_Goto E p st = do { st1 \<leftarrow> DtoGoto (gotoLoc E p) (gotoLabel E p) st; enterNewBB st1 }"

section \<open>The visitor\<close>

text \<open>Classes that the visitor does not know are reported as errors.\<close>

definition toIR_Leaf :: "ToIREnv \<Rightarrow> leaf_kind \<Rightarrow> ptr \<Rightarrow> emit" where
  "toIR_Leaf E k p =
     (case k of
        ImportStatement \<Rightarrow> Some
      | AsmStatement \<Rightarrow> (\<lambda>st. do { ensure (dcomputetarget E = None); otherElem E p [] st })
      | SwitchErrorStatement \<Rightarrow> toIR_SwitchError E p
      | GotoDefaultStatement \<Rightarrow> toIR_GotoDefault E p
      | GotoCaseStatement \<Rightarrow> toIR_GotoCase E p
      | GotoStatement \<Rightarrow> toIR_Goto E p
      | _ \<Rightarrow> (\<lambda>_. None))"

text \<open>The statement classes whose children are visited in order; \<open>vs\<close> are the emissions of the children.\<close>

definition toIR_With :: "bool \<Rightarrow> emit \<Rightarrow> emit \<Rightarrow> emit" where
  "toIR_With hasWthis e ebody st = do {
     st1 \<leftarrow> (if hasWthis then withDtors e else Some) st;
     ebody st1 }"

fun toIR_Seq :: "ToIREnv \<Rightarrow> seq_kind \<Rightarrow> ptr ast list \<Rightarrow> emit list \<Rightarrow> emit list \<Rightarrow> emit" where
  "toIR_Seq E k xs vs es =
     (case k of
        CompoundS \<Rightarrow> seqEmit vs
      | ExpS \<Rightarrow> (case es of [e] \<Rightarrow> withDtors e | _ \<Rightarrow> (\<lambda>_. None))
      | ScopeS \<Rightarrow> (case (xs, vs) of ([x], [v]) \<Rightarrow> toIR_Scope (x \<noteq> Null) v | _ \<Rightarrow> (\<lambda>_. None))
      | WithS \<Rightarrow> (case (xs, vs, es) of ([wthis, _, _], [_, _, v], [_, e, _]) \<Rightarrow> toIR_With (wthis \<noteq> Null) e v | _ \<Rightarrow> (\<lambda>_. None))
      | _ \<Rightarrow> (\<lambda>_. None))"

definition handlerOfCatch :: "ptr ast \<Rightarrow> ptr ast" where
  "handlerOfCatch c = (case c of Catch p h \<Rightarrow> h | _ \<Rightarrow> Null)"

function toIR :: "ToIREnv \<Rightarrow> ptr ast \<Rightarrow> emit" where
  "toIR E a =
     (case a of
        Null \<Rightarrow> Some
      | Leaf k p \<Rightarrow> toIR_Leaf E k p
      | Seq k p xs \<Rightarrow> toIR_Seq E k xs (map (toIR E) xs) (map (toElem E) xs)
      | ReturnStatement p e \<Rightarrow> toIR_Return E p (toElem E e)
      | ThrowStatement p e \<Rightarrow> toIR_Throw E (toElem E e)
      | BreakStatement p t \<Rightarrow> toIR_Break E t
      | ContinueStatement p t \<Rightarrow> toIR_Continue E t
      | IfStatement p c t e \<Rightarrow> toIR_If E p t e (toElem E c) (toIR E t) (toIR E e)
      | WhileStatement p c b \<Rightarrow> toIR_While E p (toElem E c) (toIR E b)
      | DoStatement p b c \<Rightarrow> toIR_Do E p (toIR E b) (toElem E c)
      | ForStatement p i c b inc \<Rightarrow> toIR_For E p (toIR E i) (toElem E c) (toIR E b) (toElem E inc)
      | ForeachStatement p aggr b \<Rightarrow> toIR_Foreach E p (toElemDtor E aggr) (otherElem E p []) (toIR E b)
      | ForeachRangeStatement p l u b \<Rightarrow> toIR_Foreach E p (seqEmit [toElemDtor E l, toElemDtor E u]) Some (toIR E b)
      | UnrolledLoopStatement p xs \<Rightarrow> toIR_Unrolled E p (map (\<lambda>x. (addr x, toIR E x)) xs)
      | LabelStatement p s \<Rightarrow> toIR_Label E p (toIR E s)
      | SwitchStatement p c b \<Rightarrow> toIR_Switch E p (toElem E c) (toIR E b)
      | CaseStatement p g s \<Rightarrow> toIR_Case E p g (toIR E s)
      | DefaultStatement p g s \<Rightarrow> toIR_Case E p g (toIR E s)
      | TryCatchStatement p b cs \<Rightarrow> toIR_TryCatch E p (toIR E b)
          (map (\<lambda>c. \<lparr>catchAddr = addr c, hasHandler = handlerOfCatch c \<noteq> Null, emitHandler = toIR E c\<rparr>) cs)
      | Catch p h \<Rightarrow> toIR E h
      | TryFinallyStatement p b f \<Rightarrow>
          (if b \<noteq> Null \<and> f \<noteq> Null then toIR_TryFinally E p (toIR E b) (toIR E f)
           else seqEmit [toIR E b, toIR E f])
      | _ \<Rightarrow> (\<lambda>_. None))"
  by pat_completeness auto
termination
  by (relation "measure (\<lambda>(E, a). size a)") (auto dest: size_list_member)

declare toIR.simps [simp del]

section \<open>The body of a function\<close>

fun succs :: "Terminator \<Rightarrow> BB list" where
  "succs (BranchInst b) = [b]"
| "succs (CondBranch ci b c) = [b, c]"
| "succs (SwitchInst v d cs) = d # map snd cs"
| "succs (InvokeInst b c) = [b, c]"
| "succs ResumeUnwind = []"
| "succs (OtherTerminator bs) = bs"

definition hasPredecessor :: "BB \<Rightarrow> 'a IRState_scheme \<Rightarrow> bool" where
  "hasPredecessor b st = list_ex (\<lambda>x. case bbs st x of
       None \<Rightarrow> False
     | Some blk \<Rightarrow> (case terminator blk of None \<Rightarrow> False | Some T \<Rightarrow> b \<in> set (succs T))) [0..<nextBB st]"

text \<open>The entry block is block 0.\<close>

definition eraseDummyAfterReturnBB :: "BB \<Rightarrow> 'a IRState_scheme \<Rightarrow> bool \<times> 'a IRState_scheme" where
  "eraseDummyAfterReturnBB bb st =
     (if \<not> hasPredecessor bb st \<and> bb \<noteq> 0 then (True, eraseFromParent bb st) else (False, st))"

text \<open>A block that is run when the function is left: the calls of \<open>_c_trace_epi\<close> and of \<open>va_end\<close>.\<close>

definition pushEpilog :: emit where
  "pushEpilog st = (let (bb, st1) = insertBB st in Some ((pushCleanup bb bb st1)\<lparr>scopebb := scopebb st\<rparr>))"

text \<open>The end of a function: its body may leave the current block without a terminator.\<close>

definition finishBody :: emit where
  "finishBody st =
     (let (wasDummy, st1) = eraseDummyAfterReturnBB (scopebb st) st
      in if \<not> wasDummy \<and> \<not> scopereturned st1 then terminate (scopebb st1) (OtherTerminator []) st1 else Some st1)"

definition enterRetBlock :: emit where
  "enterRetBlock st =
     (if scopereturned st then Some st
      else do {
        let (retbb, st1) = getOrCreateRetBlock st;
        st2 \<leftarrow> runCleanups 0 retbb st1;
        Some (SetInsertPoint retbb st2) })"

definition runEpilogs :: emit where
  "runEpilogs st = (if scopes_empty st then Some st else do { st1 \<leftarrow> enterRetBlock st; popCleanups 0 st1 })"

text \<open>
  The part of \<open>DtoDefineFunction\<close> that emits the body. \<open>isNaked\<close> is the attribute, \<open>trace\<close> and
  \<open>isDstyleVariadic\<close> tell whether there are epilogs. The code that sets up parameters, the nested
  context and \<open>_argptr\<close> is left out.
\<close>

definition emitFunctionBody :: "ToIREnv \<Rightarrow> bool \<Rightarrow> bool \<Rightarrow> bool \<Rightarrow> ptr ast \<Rightarrow> emit" where
  "emitFunctionBody E isNaked trace isDstyleVariadic fbody st =
     (if isNaked then do { st1 \<leftarrow> toIR E fbody st; finishBody st1 }
      else do {
        st1 \<leftarrow> (if trace then pushEpilog else Some) st;
        st2 \<leftarrow> (if isDstyleVariadic then pushEpilog else Some) st1;
        st3 \<leftarrow> emitIncrement E (addr fbody) st2;
        st4 \<leftarrow> toIR E fbody st3;
        st5 \<leftarrow> runEpilogs st4;
        finishBody st5 })"

definition initialToIRState :: "IRState \<Rightarrow> ToIRState" where
  "initialToIRState irs = FuncGenState.FuncGenState.extend (initialFuncGenState irs)
     \<lparr>retBlock = None, lifetimeScopes = [], code = (\<lambda>_. [])\<rparr>"

end
