(* ===== verification/EmittedBlocks.thy ===== *)
theory EmittedBlocks
  imports JumpTargets StatementIR
begin

text \<open>
  What a function has to satisfy for LLVM to accept its blocks: every block ends in a terminator,
  and branches lead to blocks of the function. This theory follows the two conditions through
  the operations on scopes and landing pads: which blocks they terminate, and that they never
  branch to a block that does not exist.
\<close>

section \<open>Branches and where they lead\<close>

lemma succs_subst: "succs (substTerminator f t) = map f (succs t)"
  by (cases t) auto

definition refs :: "(BB \<rightharpoonup> BasicBlock) \<Rightarrow> BB set" where
  "refs m = {x. \<exists>b blk T. m b = Some blk \<and> terminator blk = Some T \<and> x \<in> set (succs T)}"

lemma refs_upd: "refs (m(b \<mapsto> blk)) \<subseteq> refs m \<union> (case terminator blk of None \<Rightarrow> {} | Some T \<Rightarrow> set (succs T))"
  by (auto simp: refs_def split: if_splits)

lemma refs_erase: "refs (m(b := None)) \<subseteq> refs m"
  by (auto simp: refs_def split: if_splits)

lemma refs_rauw: "refs (bbs (replaceAllUsesWith x y st)) \<subseteq> substBB x y ` refs (bbs st)"
  by (auto simp: refs_def replaceAllUsesWith_def succs_subst image_iff) metis

text \<open>The blocks the scopes know of.\<close>

definition scopeBlocks :: "CleanupScope \<Rightarrow> BB set" where
  "scopeBlocks c = insert (beginBlock c) (insert (endBlock c) (targets c))"

definition known :: "'a TryCatchFinallyScopes_scheme \<Rightarrow> BB set" where
  "known st = (\<Union>c\<in>set (cleanupScopes st). scopeBlocks c)
     \<union> bodyBB ` (\<Union>tc\<in>set (tryCatchScopes st). set (catchBlocks tc)) \<union> set_option (resumeUnwindBlock st)"

lemma known_begin: "c \<in> set (cleanupScopes st) \<Longrightarrow> beginBlock c \<in> known st"
  by (auto simp: known_def scopeBlocks_def)

lemma known_ends: "ends st \<subseteq> known st"
  by (auto simp: known_def scopeBlocks_def ends_def)

definition pads :: "'a TryCatchFinallyScopes_scheme \<Rightarrow> BB set" where
  "pads st = {b. Some b \<in> set (concat (landingPadsPerCleanupScope st))}"

definition tidy :: "'a TryCatchFinallyScopes_scheme \<Rightarrow> bool" where
  "tidy st \<longleftrightarrow> refs (bbs st) \<union> known st \<union> tents st \<subseteq> dom (bbs st) \<and> (\<forall>b\<in>pads st. terminated (bbs st) b)
     \<and> dom (bbs st) \<subseteq> {..<nextBB st}"

text \<open>
  An operation may terminate the blocks in \<open>E\<close>; it keeps all blocks, and of the blocks it creates
  only those in \<open>U\<close> are not terminated.
\<close>

definition settles :: "BB set \<Rightarrow> BB set \<Rightarrow> 'a IRState_scheme \<Rightarrow> 'a IRState_scheme \<Rightarrow> bool" where
  "settles E U st st' \<longleftrightarrow> dom (bbs st) \<subseteq> dom (bbs st') \<and> (\<forall>b. terminated (bbs st) b \<longrightarrow> terminated (bbs st') b)
     \<and> (\<forall>b. unterminated (bbs st') b \<longrightarrow> unterminated (bbs st) b \<or> b \<in> U)
     \<and> (\<forall>b. unterminated (bbs st) b \<longrightarrow> b \<notin> E \<longrightarrow> unterminated (bbs st') b)"

lemma settles_refl: "settles E U st st"
  by (simp add: settles_def)

lemma settles_trans:
  "settles E U st st1 \<Longrightarrow> settles E' U' st1 st2 \<Longrightarrow> E \<union> E' \<subseteq> E'' \<Longrightarrow> U \<union> U' \<subseteq> U'' \<Longrightarrow> settles E'' U'' st st2"
  unfolding settles_def by blast

lemma settles_mono: "settles E U st st' \<Longrightarrow> E \<subseteq> E' \<Longrightarrow> U \<subseteq> U' \<Longrightarrow> settles E' U' st st'"
  by (erule settles_trans [OF _ settles_refl]) auto

lemma dom_cases: "b \<in> dom m \<longleftrightarrow> terminated m b \<or> unterminated m b"
  by (auto simp: terminated_def unterminated_def)

section \<open>Changes of single blocks\<close>

lemma settles_same:
  assumes "bbs st b = Some blk" "bbs st' = (bbs st)(b \<mapsto> blk')" "terminator blk' = None \<longleftrightarrow> terminator blk = None"
  shows "settles E U st st'"
  using assms by (auto simp: settles_def terminated_def unterminated_def)

lemma settles_rauw [simp]: "settles E U st (replaceAllUsesWith x y st)"
  by (auto simp: settles_def replaceAllUsesWith_def terminated_def unterminated_def)

definition onlyBlocks :: "'a IRState_scheme \<Rightarrow> 'a IRState_scheme \<Rightarrow> bool" where
  "onlyBlocks st st' \<longleftrightarrow> st' = st\<lparr>bbs := bbs st', nextAlloca := nextAlloca st'\<rparr>"

lemma onlyBlocks_refl [simp]: "onlyBlocks st st"
  by (simp add: onlyBlocks_def)

lemma onlyBlocks_trans: "onlyBlocks st st1 \<Longrightarrow> onlyBlocks st1 st2 \<Longrightarrow> onlyBlocks st st2"
  unfolding onlyBlocks_def by (cases st; cases st1; cases st2) simp

lemma terminate_effect:
  assumes "terminate b T st = Some st'"
  shows "settles {b} {} st st'" "refs (bbs st') \<subseteq> refs (bbs st) \<union> set (succs T)" "dom (bbs st') = dom (bbs st)"
    "terminated (bbs st') b" "unterminated (bbs st) b"
    "onlyBlocks st st'"
proof -
  obtain blk where blk: "bbs st b = Some blk" "terminator blk = None" "st' = st\<lparr>bbs := (bbs st)(b \<mapsto> blk\<lparr>terminator := Some T\<rparr>)\<rparr>"
    using assms by (auto simp: terminate_def split: Option.bind_splits if_splits)
  show "settles {b} {} st st'" "terminated (bbs st') b" "unterminated (bbs st) b"
    using blk by (auto simp: settles_def terminated_def unterminated_def)
  show "refs (bbs st') \<subseteq> refs (bbs st) \<union> set (succs T)" using refs_upd [of "bbs st" b] blk(3) by fastforce
  show "dom (bbs st') = dom (bbs st)" "onlyBlocks st st'" using blk by (auto simp: onlyBlocks_def)
qed

text \<open>Effect of an operation that changes blocks only: allowed terminations, and new branches.\<close>

definition blockwise :: "BB set \<Rightarrow> BB set \<Rightarrow> 'a IRState_scheme \<Rightarrow> 'a IRState_scheme \<Rightarrow> bool" where
  "blockwise E N st st' \<longleftrightarrow> settles E {} st st' \<and> refs (bbs st') \<subseteq> refs (bbs st) \<union> N \<and> dom (bbs st') = dom (bbs st)"

lemma blockwise_refl: "blockwise E N st st"
  by (simp add: blockwise_def settles_refl)

lemma blockwise_trans:
  "blockwise E N st st1 \<Longrightarrow> blockwise E N st1 st2 \<Longrightarrow> blockwise E N st st2"
  unfolding blockwise_def using settles_trans [of E "{}" st st1 E "{}" st2 E "{}"] by blast

lemma blockwise_mono: "blockwise E N st st' \<Longrightarrow> E \<subseteq> E' \<Longrightarrow> N \<subseteq> N' \<Longrightarrow> blockwise E' N' st st'"
  unfolding blockwise_def using settles_mono [of E "{}" st st' E' "{}"] by blast

lemma blockwise_terminate: "terminate b T st = Some st' \<Longrightarrow> b \<in> E \<Longrightarrow> set (succs T) \<subseteq> N \<Longrightarrow> blockwise E N st st'"
  unfolding blockwise_def using terminate_effect [of b T st st'] settles_mono [of "{b}" "{}" st st' E "{}"] by blast

lemma blockwise_block:
  assumes "bbs st b = Some blk" "bbs st' = (bbs st)(b \<mapsto> blk')" "terminator blk \<noteq> None" "terminator blk' = Some T"
    "set (succs T) \<subseteq> refs (bbs st) \<union> N"
  shows "blockwise E N st st'"
proof -
  have "refs (bbs st') \<subseteq> refs (bbs st) \<union> N" using refs_upd [of "bbs st" b blk'] assms(2,4,5) by auto
  moreover have "dom (bbs st') = dom (bbs st)" using assms(1,2) by auto
  moreover have "settles E {} st st'" by (rule settles_same [OF assms(1,2)]) (use assms(3,4) in simp)
  ultimately show ?thesis by (simp add: blockwise_def)
qed

lemma succs_refs: "bbs st b = Some blk \<Longrightarrow> terminator blk = Some T \<Longrightarrow> set (succs T) \<subseteq> refs (bbs st)"
  by (auto simp: refs_def)

lemma blockwise_insertStore:
  assumes "insertStore v n b st = Some st'"
  shows "blockwise E N st st'"
proof -
  obtain blk where blk: "bbs st b = Some blk" "terminator blk \<noteq> None" "st' = st\<lparr>bbs := (bbs st)(b \<mapsto> blk\<lparr>stores := stores blk @ [(v, n)]\<rparr>)\<rparr>"
    using assms by (rule insertStore_Some)
  then obtain T where "terminator blk = Some T" by auto
  with blk succs_refs [OF blk(1), of T] show ?thesis
    by (intro blockwise_block [OF blk(1), of _ "blk\<lparr>stores := stores blk @ [(v, n)]\<rparr>" T]) auto
qed

lemma blockwise_addCase:
  assumes "addCase b n t st = Some st'" "t \<in> N"
  shows "blockwise E N st st'"
proof -
  obtain blk v d cs where blk: "bbs st b = Some blk" "terminator blk = Some (SwitchInst v d cs)"
      "st' = st\<lparr>bbs := (bbs st)(b \<mapsto> blk\<lparr>terminator := Some (SwitchInst v d (cs @ [(n, t)]))\<rparr>)\<rparr>"
    using assms(1) by (auto simp: addCase_def split: Option.bind_splits option.splits Terminator.splits if_splits)
  then show ?thesis using succs_refs [OF blk(1,2)] assms(2)
    by (intro blockwise_block [OF blk(1), of _ "blk\<lparr>terminator := Some (SwitchInst v d (cs @ [(n, t)]))\<rparr>" "SwitchInst v d (cs @ [(n, t)])"]) auto
qed

lemma blockwise_setTerminator:
  assumes "setTerminator b T st = Some st'" "set (succs T) \<subseteq> N"
  shows "blockwise E N st st'"
  using assms by (auto simp: setTerminator_def split: Option.bind_splits if_splits intro: blockwise_block)

section \<open>Cleanups\<close>

lemma exitTargets_addSource [simp]: "targets (addSource i s c) = targets c" "beginBlock (addSource i s c) = beginBlock c"
    "endBlock (addSource i s c) = endBlock c"
proof -
  have "map branchTarget (exitTargets (addSource i s c)) = map branchTarget (exitTargets c)"
    by (cases "i < length (exitTargets c)") (auto simp: addSource_def map_update list_update_same_conv list_update_beyond)
  then show "targets (addSource i s c) = targets c" unfolding targets_def by (metis image_set)
qed (simp_all add: addSource_def)

definition ranBlocks :: "BB \<Rightarrow> CleanupScope \<Rightarrow> 'a IRState_scheme \<Rightarrow> CleanupScope \<Rightarrow> 'a IRState_scheme \<Rightarrow> bool" where
  "ranBlocks t c st c' st' \<longleftrightarrow> blockwise {endBlock c} (insert t (targets c)) st st' \<and> targets c' \<subseteq> insert t (targets c)
     \<and> beginBlock c' = beginBlock c \<and> endBlock c' = endBlock c \<and> onlyBlocks st st'"

lemma ranBlocks_runDirect:
  assumes "runDirect c s t st = Some (c', st')"
  shows "ranBlocks t c st c' st'"
proof (cases "exitTargets c = []")
  case True
  then obtain st1 where st1: "terminate (endBlock c) (BranchInst t) st = Some st'"
      "c' = addSource 0 s (c\<lparr>exitTargets := [\<lparr>branchTarget = t, sourceBlocks = []\<rparr>]\<rparr>)"
    using assms by (auto simp: runDirect_def split: Option.bind_splits if_splits)
  then show ?thesis using terminate_effect(6) [OF st1(1)] blockwise_terminate [OF st1(1)]
    by (simp add: ranBlocks_def targets_def [of "c\<lparr>exitTargets := _\<rparr>"])
next
  case False
  then show ?thesis using assms
    by (auto simp: runDirect_def ranBlocks_def blockwise_refl split: Option.bind_splits if_splits)
qed

lemma insertStore_only: "insertStore v n b st = Some st' \<Longrightarrow> onlyBlocks st st'"
  by (auto simp: onlyBlocks_def elim!: insertStore_Some)

lemma setTerminator_only: "setTerminator b T st = Some st' \<Longrightarrow> onlyBlocks st st'"
  by (auto simp: onlyBlocks_def setTerminator_def split: Option.bind_splits if_splits)

lemma addCase_only: "addCase b n t st = Some st' \<Longrightarrow> onlyBlocks st st'"
  by (auto simp: onlyBlocks_def addCase_def split: Option.bind_splits option.splits Terminator.splits if_splits)

lemma ranBlocks_createSelector:
  assumes "createSelector c st = Some (c', st')" "exitTargets c \<noteq> []"
  shows "ranBlocks t c st c' st'" "targets c' = targets c"
proof -
  let ?v = "nextAlloca st" and ?b = "branchTarget (exitTargets c ! 0)"
  let ?E = "{endBlock c}" and ?N = "targets c"
  obtain st1 where st1: "iterM (insertStore ?v 0) (sourceBlocks (exitTargets c ! 0)) (st\<lparr>nextAlloca := ?v + 1\<rparr>) = Some st1"
      "setTerminator (endBlock c) (SwitchInst ?v ?b []) st1 = Some st'" "c' = c\<lparr>branchSelector := Some ?v\<rparr>"
    using assms(1) by (auto simp: createSelector_def Let_def split: Option.bind_splits)
  have b: "?b \<in> ?N" using assms(2) by (auto simp: targets_def)
  have "blockwise ?E ?N st st1 \<and> onlyBlocks st st1"
    using st1(1)
  proof (rule iterM_invariant)
    show "blockwise ?E ?N st (st\<lparr>nextAlloca := ?v + 1\<rparr>) \<and> onlyBlocks st (st\<lparr>nextAlloca := ?v + 1\<rparr>)"
      by (simp add: blockwise_def settles_def onlyBlocks_def)
    fix x st2 st3
    assume "blockwise ?E ?N st st2 \<and> onlyBlocks st st2" "insertStore ?v 0 x st2 = Some st3"
    then show "blockwise ?E ?N st st3 \<and> onlyBlocks st st3"
      using blockwise_trans [OF _ blockwise_insertStore] onlyBlocks_trans [OF _ insertStore_only] by blast
  qed
  moreover have "blockwise ?E ?N st1 st'" by (rule blockwise_setTerminator [OF st1(2)]) (use b in simp)
  ultimately have "blockwise ?E ?N st st'" "onlyBlocks st st'"
    using blockwise_trans onlyBlocks_trans [OF _ setTerminator_only [OF st1(2)]] by blast+
  moreover have "blockwise ?E (insert t ?N) st st'" by (rule blockwise_mono [OF calculation(1)]) auto
  ultimately show "ranBlocks t c st c' st'" "targets c' = targets c" by (auto simp: ranBlocks_def st1(3) targets_def)
qed

lemma ranBlocks_runSelected:
  assumes "runSelected c s t st = Some (c', st')"
  shows "ranBlocks t c st c' st'"
proof (cases "findTarget t (exitTargets c)")
  case None
  then obtain v st1 where st1: "addCase (endBlock c) (of_nat (length (exitTargets c))) t st = Some st1"
      "insertStore v (of_nat (length (exitTargets c))) s st1 = Some st'"
      "c' = c\<lparr>exitTargets := exitTargets c @ [\<lparr>branchTarget = t, sourceBlocks = [s]\<rparr>]\<rparr>"
    using assms by (auto simp: runSelected_def Let_def split: Option.bind_splits)
  have "blockwise {endBlock c} (insert t (targets c)) st st'"
    using blockwise_trans [OF blockwise_addCase [OF st1(1)] blockwise_insertStore [OF st1(2)]] by blast
  then show ?thesis using onlyBlocks_trans [OF addCase_only [OF st1(1)] insertStore_only [OF st1(2)]]
    by (auto simp: ranBlocks_def st1(3) targets_def)
next
  case (Some i)
  then obtain v where st1: "insertStore v (of_nat i) s st = Some st'" "c' = addSource i s c"
    using assms by (auto simp: runSelected_def Let_def split: Option.bind_splits)
  then show ?thesis using blockwise_insertStore [OF st1(1)] insertStore_only [OF st1(1)] by (auto simp: ranBlocks_def)
qed

lemma ranBlocks_run:
  assumes "run c s t st = Some (c', st')"
  shows "ranBlocks t c st c' st'"
proof (cases "exitTargets c = [] \<or> length (exitTargets c) = 1 \<and> branchTarget (exitTargets c ! 0) = t")
  case True
  then show ?thesis using assms ranBlocks_runDirect by (simp add: run_def)
next
  case False
  then obtain c1 st1 where c1: "c1 = c \<and> st1 = st \<or> createSelector c st = Some (c1, st1)"
      "runSelected c1 s t st1 = Some (c', st')"
    using assms by (auto simp: run_def split: Option.bind_splits if_splits)
  note sel = ranBlocks_runSelected [OF c1(2)]
  from c1(1) show ?thesis
  proof
    assume c: "createSelector c st = Some (c1, st1)"
    have ne: "exitTargets c \<noteq> []" using False by simp
    note cs = ranBlocks_createSelector(1) [OF c ne, of t] ranBlocks_createSelector(2) [OF c ne]
    have "endBlock c1 = endBlock c" "targets c1 = targets c" using cs by (simp_all add: ranBlocks_def)
    then show ?thesis using cs(1) sel blockwise_trans onlyBlocks_trans unfolding ranBlocks_def by metis
  qed (use sel in simp)
qed

section \<open>Running and closing scopes\<close>

text \<open>A change of blocks that leads to known blocks only keeps everything tidy.\<close>

definition sameKnown :: "'a TryCatchFinallyScopes_scheme \<Rightarrow> 'a TryCatchFinallyScopes_scheme \<Rightarrow> bool" where
  "sameKnown st st' \<longleftrightarrow> tents st' = tents st \<and> landingPadsPerCleanupScope st' = landingPadsPerCleanupScope st
     \<and> resumeUnwindBlock st' = resumeUnwindBlock st \<and> tryCatchScopes st' = tryCatchScopes st"

lemma tidy_blockwise:
  assumes "tidy st" "blockwise E N st st'" "N \<subseteq> dom (bbs st)" "known st' \<subseteq> dom (bbs st)" "tents st' = tents st" "nextBB st' = nextBB st"
    and "landingPadsPerCleanupScope st' = landingPadsPerCleanupScope st"
  shows "tidy st'"
  using assms by (auto simp: tidy_def blockwise_def settles_def pads_def)

lemma runScope_tidy:
  assumes "runScope i s t st = Some st'" "tidy st" "t \<in> dom (bbs st)"
  shows "tidy st'" "blockwise (ends st) (insert t (known st)) st st'" "pairs st' = pairs st" "nextBB st' = nextBB st" "scopebb st' = scopebb st"
    "gotos st' = gotos st" "known st' \<subseteq> insert t (known st)"
proof -
  obtain c st1 where r: "i < length (cleanupScopes st)" "run (cleanupScopes st ! i) s t st = Some (c, st1)"
      "st' = st1\<lparr>cleanupScopes := (cleanupScopes st1)[i := c]\<rparr>"
    using assms(1) by (auto simp: runScope_def split: Option.bind_splits if_splits)
  let ?c = "cleanupScopes st ! i"
  note ran = ranBlocks_run [OF r(2), unfolded ranBlocks_def]
  have st1: "st1 = st\<lparr>bbs := bbs st1, nextAlloca := nextAlloca st1\<rparr>" using ran by (simp add: onlyBlocks_def)
  have same: "cleanupScopes st1 = cleanupScopes st" "nextBB st1 = nextBB st" "scopebb st1 = scopebb st" "tryCatchScopes st1 = tryCatchScopes st"
      "resumeUnwindBlock st1 = resumeUnwindBlock st" "unresolvedGotosPerCleanupScope st1 = unresolvedGotosPerCleanupScope st"
      "landingPadsPerCleanupScope st1 = landingPadsPerCleanupScope st"
    by (subst st1, simp)+
  have c: "?c \<in> set (cleanupScopes st)" using r(1) by simp
  show "pairs st' = pairs st" using ran r(1) by (auto simp: pairs_def r(3) same scopePair_def map_update list_update_same_conv)
  show "nextBB st' = nextBB st" "scopebb st' = scopebb st" "gotos st' = gotos st" by (simp_all add: r(3) same gotos_def)
  then have tents: "tents st' = tents st" by (simp add: tents_def)
  have k: "known st' \<subseteq> insert t (known st)"
  proof -
    have "set (cleanupScopes st') \<subseteq> insert c (set (cleanupScopes st))" by (simp add: r(3) same set_update_subset_insert)
    then have "known st' \<subseteq> scopeBlocks c \<union> known st" unfolding known_def by (auto simp: r(3) same)
    moreover have "scopeBlocks c \<subseteq> insert t (known st)" using ran c by (auto simp: known_def scopeBlocks_def)
    ultimately show ?thesis by blast
  qed
  then show "known st' \<subseteq> insert t (known st)" .
  have b: "blockwise (ends st) (insert t (known st)) st st1"
    by (rule blockwise_mono [OF ran [THEN conjunct1]]) (use c in \<open>auto simp: ends_def known_def scopeBlocks_def\<close>)
  have "bbs st' = bbs st1" by (simp add: r(3))
  with b show b': "blockwise (ends st) (insert t (known st)) st st'" unfolding blockwise_def settles_def by simp
  have in_dom: "insert t (known st) \<subseteq> dom (bbs st)" using assms(2,3) by (auto simp: tidy_def)
  show "tidy st'" by (rule tidy_blockwise [OF assms(2) b' in_dom order_trans [OF k in_dom] tents]) (simp_all add: r(3) same)
qed

lemma CreateBr_tidy:
  assumes "CreateBr t st = Some st'" "tidy st" "t \<in> dom (bbs st)"
  shows "tidy st'" "blockwise {scopebb st} {t} st st'" "terminated (bbs st') (scopebb st)" "unterminated (bbs st) (scopebb st)" "onlyBlocks st st'"
    "known st' = known st" "pairs st' = pairs st" "gotos st' = gotos st" "nextBB st' = nextBB st" "scopebb st' = scopebb st"
proof -
  have t: "terminate (scopebb st) (BranchInst t) st = Some st'" using assms(1) by (simp add: CreateBr_def)
  show "blockwise {scopebb st} {t} st st'" by (rule blockwise_terminate [OF t]) simp_all
  moreover show "terminated (bbs st') (scopebb st)" "unterminated (bbs st) (scopebb st)" "onlyBlocks st st'" using terminate_effect [OF t] by simp_all
  moreover have same: "st' = st\<lparr>bbs := bbs st', nextAlloca := nextAlloca st'\<rparr>" using calculation(4) by (simp add: onlyBlocks_def)
  show "known st' = known st" "pairs st' = pairs st" "gotos st' = gotos st" "nextBB st' = nextBB st" "scopebb st' = scopebb st"
    by (subst same, simp add: known_def pairs_def gotos_def)+
  then show "tidy st'" using assms(2,3) calculation(1)
    by (intro tidy_blockwise [OF assms(2) calculation(1)]) (auto simp: tents_def tidy_def, (subst same, simp)+)
qed

definition ranAll :: "BB \<Rightarrow> 'a TryCatchFinallyScopes_scheme \<Rightarrow> 'a TryCatchFinallyScopes_scheme \<Rightarrow> bool" where
  "ranAll u st st' \<longleftrightarrow> tidy st' \<and> blockwise (insert (scopebb st) (ends st)) (insert u (known st)) st st' \<and> pairs st' = pairs st
     \<and> nextBB st' = nextBB st \<and> scopebb st' = scopebb st \<and> gotos st' = gotos st \<and> known st' \<subseteq> insert u (known st)"

lemma ends_pairs: "ends st = snd ` set (pairs st)"
  by (auto simp: ends_def pairs_def scopePair_def image_image)

lemma ranAll_runScope:
  assumes "ranAll u st st1" "runScope i s t st1 = Some st2" "t \<in> insert u (known st1)" "u \<in> dom (bbs st)"
  shows "ranAll u st st2"
proof -
  note r = assms(1) [unfolded ranAll_def]
  have dom: "dom (bbs st1) = dom (bbs st)" using r by (simp add: blockwise_def)
  have t: "t \<in> dom (bbs st1)" "t \<in> insert u (known st)" using assms(3,4) r dom by (auto simp: tidy_def)
  note s = runScope_tidy [OF assms(2) _ t(1)]
  have b: "blockwise (ends st1) (insert t (known st1)) st1 st2" using s r by blast
  have "ends st1 = ends st" using r by (simp add: ends_pairs)
  then have "blockwise (insert (scopebb st) (ends st)) (insert u (known st)) st1 st2"
    using b t(2) r by (intro blockwise_mono [OF b]) auto
  then have "blockwise (insert (scopebb st) (ends st)) (insert u (known st)) st st2" using r blockwise_trans by blast
  then show ?thesis using r s t(2) unfolding ranAll_def by auto
qed

lemma runCleanups_from_tidy:
  assumes "runCleanups_from a z u st = Some st'" "tidy st" "u \<in> dom (bbs st)"
  shows "ranAll u st st'" "terminated (bbs st') (scopebb st)" "unterminated (bbs st) (scopebb st)"
proof -
  let ?loop = "\<lambda>i st. runScope i (scopebb st) (if z < i then beginBlock (cleanupScopes st ! (i - 1)) else u) st"
  have "\<exists>b st1. b \<in> insert u (known st) \<and> CreateBr b st = Some st1 \<and> iterM ?loop (rev [z..<a]) st1 = Some st'"
  proof (cases "z = a")
    case True
    then show ?thesis using assms(1) by (auto simp: runCleanups_from_def)
  next
    case False
    then have "a \<le> length (cleanupScopes st)" "z < a" using assms(1) by (auto simp: runCleanups_from_def split: Option.bind_splits if_splits)
    then have "beginBlock (cleanupScopes st ! (a - 1)) \<in> known st" by (auto intro: known_begin)
    then show ?thesis using assms(1) False by (auto simp: runCleanups_from_def split: Option.bind_splits if_splits)
  qed
  then obtain b st1 where b: "b \<in> insert u (known st)" "CreateBr b st = Some st1" "iterM ?loop (rev [z..<a]) st1 = Some st'" by blast
  have bd: "b \<in> dom (bbs st)" using b(1) assms(2,3) by (auto simp: tidy_def)
  note br = CreateBr_tidy [OF b(2) assms(2) bd]
  have bw: "blockwise (insert (scopebb st) (ends st)) (insert u (known st)) st st1" using b(1) by (intro blockwise_mono [OF br(2)]) auto
  have r1: "ranAll u st st1" unfolding ranAll_def using br bw by auto
  have "ranAll u st st' \<and> terminated (bbs st') (scopebb st)" using b(3)
  proof (rule iterM_invariant)
    show "ranAll u st st1 \<and> terminated (bbs st1) (scopebb st)" using r1 br(3) by simp
    fix i st2 st3
    assume I: "ranAll u st st2 \<and> terminated (bbs st2) (scopebb st)" and run: "?loop i st2 = Some st3"
    have "i < length (cleanupScopes st2)" using run by (auto simp: runScope_def split: if_splits)
    then have "(if z < i then beginBlock (cleanupScopes st2 ! (i - 1)) else u) \<in> insert u (known st2)" by (auto intro: known_begin)
    then have r3: "ranAll u st st3" using ranAll_runScope [OF _ run] I assms(3) by blast
    have "(if z < i then beginBlock (cleanupScopes st2 ! (i - 1)) else u) \<in> dom (bbs st2)"
      using \<open>_ \<in> insert u (known st2)\<close> I assms(3) by (auto simp: ranAll_def tidy_def blockwise_def)
    then have "blockwise (ends st2) (insert (if z < i then beginBlock (cleanupScopes st2 ! (i - 1)) else u) (known st2)) st2 st3"
      using runScope_tidy(2) [OF run] I by (auto simp: ranAll_def)
    then have "terminated (bbs st3) (scopebb st)" using I by (auto simp: blockwise_def settles_def)
    with r3 show "ranAll u st st3 \<and> terminated (bbs st3) (scopebb st)" by simp
  qed
  then show "ranAll u st st'" "terminated (bbs st') (scopebb st)" by simp_all
  show "unterminated (bbs st) (scopebb st)" by (rule br(4))
qed

lemma insertBB_tidy:
  assumes "tidy st"
  shows "tidy (snd (insertBB st))" "settles E {nextBB st} st (snd (insertBB st))" "dom (bbs (snd (insertBB st))) = insert (nextBB st) (dom (bbs st))"
    "known (snd (insertBB st)) = known st" "unterminated (bbs (snd (insertBB st))) (nextBB st)" "nextBB st \<notin> dom (bbs st)"
proof -
  have n: "bbs st (nextBB st) = None" using assms by (auto simp: tidy_def)
  then show "nextBB st \<notin> dom (bbs st)" by auto
  have k: "known (snd (insertBB st)) = known st" "tents (snd (insertBB st)) = tents st" "pads (snd (insertBB st)) = pads st"
    by (auto simp: insertBB_def known_def tents_def gotos_def pads_def)
  then show "known (snd (insertBB st)) = known st" by simp
  show "dom (bbs (snd (insertBB st))) = insert (nextBB st) (dom (bbs st))" "unterminated (bbs (snd (insertBB st))) (nextBB st)"
    by (auto simp: insertBB_def unterminated_def emptyBB_def)
  show set: "settles E {nextBB st} st (snd (insertBB st))" using n
    by (auto simp: settles_def insertBB_def terminated_def unterminated_def emptyBB_def)
  have "refs (bbs (snd (insertBB st))) \<subseteq> refs (bbs st)" using refs_upd [of "bbs st" "nextBB st" emptyBB]
    by (auto simp: insertBB_def emptyBB_def)
  then show "tidy (snd (insertBB st))" using assms set unfolding tidy_def k settles_def by (auto simp: insertBB_def less_Suc_eq)
qed

lemma known_rauw [simp]: "known (replaceAllUsesWith x y st) = known st" "pads (replaceAllUsesWith x y st) = pads st"
    "known (eraseFromParent x st) = known st" "pads (eraseFromParent x st) = pads st" "tents (eraseFromParent x st) = tents st"
    "dom (bbs (eraseFromParent x st)) = dom (bbs st) - {x}" "dom (bbs (replaceAllUsesWith x y st)) = dom (bbs st)"
    "nextBB (eraseFromParent x st) = nextBB st"
  by (auto simp: known_def pads_def replaceAllUsesWith_def eraseFromParent_def tents_def gotos_def dom_def)

lemma rauw_tidy:
  assumes "tidy st" "y \<in> dom (bbs st)"
  shows "tidy (replaceAllUsesWith x y st)" "y \<noteq> x \<Longrightarrow> x \<notin> refs (bbs (replaceAllUsesWith x y st))"
proof -
  have "\<forall>b\<in>pads st. terminated (bbs (replaceAllUsesWith x y st)) b" using assms(1)
    by (auto simp: tidy_def terminated_def replaceAllUsesWith_def)
  then show "tidy (replaceAllUsesWith x y st)" using assms refs_rauw [of x y st]
    by (auto simp: tidy_def substBB_def split: if_splits)
  show "y \<noteq> x \<Longrightarrow> x \<notin> refs (bbs (replaceAllUsesWith x y st))" using refs_rauw [of x y st] by (auto simp: substBB_def split: if_splits)
qed

lemma erase_tidy:
  assumes "tidy st" "x \<notin> refs (bbs st)" "x \<notin> known st" "x \<notin> tents st" "x \<notin> pads st"
  shows "tidy (eraseFromParent x st)"
proof -
  have "\<forall>b\<in>pads st. terminated (bbs (eraseFromParent x st)) b" using assms(1,5)
    by (auto simp: tidy_def terminated_def eraseFromParent_def)
  moreover have "refs (bbs (eraseFromParent x st)) \<subseteq> refs (bbs st)" by (simp add: eraseFromParent_def refs_erase)
  ultimately show ?thesis using assms unfolding tidy_def known_rauw by blast
qed

lemma settles_erase: "settles E U st st1 \<Longrightarrow> x \<notin> dom (bbs st) \<Longrightarrow> settles E (U - {x}) st (eraseFromParent x st1)"
  by (auto simp: settles_def eraseFromParent_def terminated_def unterminated_def dom_def)

lemma pads_dom: "tidy st \<Longrightarrow> pads st \<subseteq> dom (bbs st)"
  by (auto simp: tidy_def terminated_def)

lemma rerouteGoto_tidy:
  assumes "rerouteGoto i g st = Some st'" "tidy st" "tentativeTarget g \<in> dom (bbs st)"
  shows "tidy st'" "settles (ends st) {} st st'" "pairs st' = pairs st" "gotos st' = gotos st" "dom (bbs st') = dom (bbs st)"
proof -
  let ?t = "tentativeTarget g" and ?d = "nextBB st"
  define st1 where "st1 = snd (insertBB st)"
  define st2 where "st2 = replaceAllUsesWith ?t ?d st1"
  obtain st3 where st3: "runScope i (sourceBlock g) ?t st2 = Some st3"
      and st': "st' = eraseFromParent ?d (replaceAllUsesWith ?d (beginBlock (cleanupScopes st3 ! i)) st3)"
    using assms(1) by (auto simp: rerouteGoto_def insertBB_def Let_def st1_def st2_def split: Option.bind_splits)
  note one = insertBB_tidy [OF assms(2), folded st1_def]
  have t2: "tidy st2" unfolding st2_def by (rule rauw_tidy [OF one(1)]) (simp add: one(3))
  have dom2: "dom (bbs st2) = insert ?d (dom (bbs st))" by (simp add: st2_def one(3))
  have same: "known st2 = known st" "ends st2 = ends st" "pairs st2 = pairs st" "gotos st2 = gotos st" "pads st2 = pads st" "tents st2 = tents st"
    by (auto simp: st2_def one(4)) (auto simp: st1_def insertBB_def ends_def pairs_def gotos_def pads_def tents_def replaceAllUsesWith_def)
  note r = runScope_tidy [OF st3 t2, of, unfolded same] 
  have r': "tidy st3" "blockwise (ends st) (insert ?t (known st)) st2 st3" "known st3 \<subseteq> insert ?t (known st)" "pairs st3 = pairs st" "gotos st3 = gotos st"
    using r assms(3) dom2 by auto
  have dom3: "dom (bbs st3) = insert ?d (dom (bbs st))" using r'(2) dom2 by (simp add: blockwise_def)
  have i: "i < length (cleanupScopes st3)" using st3 runScope_shape(2) [OF st3] by (auto simp: runScope_def split: if_splits)
  let ?b = "beginBlock (cleanupScopes st3 ! i)"
  have b: "?b \<in> known st3" using i by (auto intro: known_begin)
  have kd: "known st3 \<subseteq> dom (bbs st)" using r'(3) assms(2,3) by (auto simp: tidy_def)
  have nd: "?d \<notin> dom (bbs st)" by (rule one(6))
  have bd: "?b \<noteq> ?d" "?b \<in> dom (bbs st3)" using b kd nd dom3 by auto
  have pads3: "pads st3 = pads st" using runScope_shape(3) [OF st3] same(5) by (simp add: pads_def sameScopes_def)
  have tents3: "tents st3 = tents st" using r'(5) by (simp add: tents_def)
  note ra = rauw_tidy [OF r'(1) bd(2), of ?d]
  show "tidy st'" unfolding st'
    by (rule erase_tidy [OF ra(1) ra(2) [OF bd(1)]]) (use kd nd pads_dom [OF assms(2)] pads3 tents3 assms(2) in \<open>auto simp: tidy_def\<close>)
  show "dom (bbs st') = dom (bbs st)" using dom3 nd by (auto simp: st')
  show "pairs st' = pairs st" "gotos st' = gotos st" using r'(4,5) by (simp_all add: st' pairs_def gotos_def eraseFromParent_def replaceAllUsesWith_def)
  have "settles (ends st) {?d} st st2"
    unfolding st2_def by (rule settles_trans [OF one(2) settles_rauw, of "{}" "{}"]) auto
  then have "settles (ends st) {?d} st st3" using r'(2) by (rule settles_trans [OF _ blockwise_def [THEN iffD1, THEN conjunct1]]) auto
  then have "settles (ends st) {?d} st (replaceAllUsesWith ?d ?b st3)" by (rule settles_trans [OF _ settles_rauw [of "{}" "{}" st3]]) auto
  from settles_erase [OF this nd] show "settles (ends st) {} st st'" by (simp add: st')
qed

end
