(* ===== verification/EmittedScopes.thy ===== *)
theory EmittedScopes
  imports EmittedBlocks
begin

text \<open>
  The operations on scopes and landing pads never leave a branch to a missing block behind, and
  the blocks they leave without a terminator are exactly those the code generator knows of: the
  blocks where it will go on, the ends of open cleanups and the tentative targets of gotos.
\<close>

lemma not_both: "terminated m b \<Longrightarrow> \<not> unterminated m b"
  by (auto simp: terminated_def unterminated_def)

lemma tidy_fields:
  assumes "tidy st" "bbs st' = bbs st" "nextBB st' = nextBB st" "tents st' \<subseteq> tents st" "known st' \<subseteq> dom (bbs st)" "pads st' \<subseteq> pads st"
  shows "tidy st'"
  using assms unfolding tidy_def by auto

section \<open>Closing scopes\<close>

lemma rerouteGotos_tidy:
  assumes "iterM (rerouteGoto i) gs st = Some st'" "tidy st" "tentativeTarget ` set gs \<subseteq> dom (bbs st)"
  shows "tidy st' \<and> settles (ends st) {} st st' \<and> pairs st' = pairs st \<and> dom (bbs st') = dom (bbs st)"
  using assms
proof (induction gs arbitrary: st)
  case (Cons g gs)
  then obtain st1 where st1: "rerouteGoto i g st = Some st1" "iterM (rerouteGoto i) gs st1 = Some st'" by (auto split: Option.bind_splits)
  note one = rerouteGoto_tidy [OF st1(1) Cons.prems(2)]
  have "tidy st' \<and> settles (ends st1) {} st1 st' \<and> pairs st' = pairs st1 \<and> dom (bbs st') = dom (bbs st1)"
    using Cons.IH [OF st1(2)] one Cons.prems(3) by simp
  moreover have "ends st1 = ends st" using one(3) Cons.prems(3) by (simp add: ends_pairs)
  ultimately show ?case using one Cons.prems(3) settles_trans [of "ends st" "{}" st st1 "ends st" "{}" st' "ends st" "{}"] by simp
qed (simp add: settles_refl)

lemma known_dropScope: "known (dropScope i st) \<subseteq> known st" "pads (dropScope i st) \<subseteq> pads st"
  by (auto simp: known_def dropScope_def pads_def dest: in_set_butlastD)

lemma current_tents: "wf st \<Longrightarrow> tentativeTarget ` set (currentUnresolvedGotos st) \<subseteq> tents st"
  using wf_lengths [of st] by (auto simp: tents_def gotos_def currentUnresolvedGotos_def currentCleanupScope_def intro!: imageI bexI [OF _ nth_mem])

lemma popScope_tidy:
  assumes "popScope i st = Some st'" "tidy st" "wf st" "Suc i = length (cleanupScopes st)" "nextBB st' < 2 ^ 32"
  shows "tidy st'" "settles (ends st) {} st st'"
proof -
  obtain st1 where st1: "iterM (rerouteGoto i) (currentUnresolvedGotos st) st = Some st1" "st' = dropScope i st1"
    using assms(1) by (auto simp: popScope_drop)
  have "tentativeTarget ` set (currentUnresolvedGotos st) \<subseteq> dom (bbs st)"
    using current_tents [OF assms(3)] assms(2) by (auto simp: tidy_def)
  note r = rerouteGotos_tidy [OF st1(1) assms(2) this]
  have bbs: "bbs st' = bbs st1" "nextBB st' = nextBB st1" by (simp_all add: st1(2) dropScope_def)
  show "settles (ends st) {} st st'" using r bbs(1) by (simp add: settles_def)
  have t: "tents st' \<subseteq> dom (bbs st')" using popScope_step(7) [OF assms(1,3-5)] r assms(2) bbs(1) by (simp add: tidy_def)
  have "tidy st1" using r by simp
  then show "tidy st'" using known_dropScope [of i st1] t unfolding tidy_def bbs st1(2) [symmetric] by blast
qed

lemma popCleanups_tidy:
  assumes "popCleanups z st = Some st'" "tidy st" "wf st" "nextBB st' < 2 ^ 32"
  shows "tidy st'" "settles (ends st) {} st st'"
proof -
  have "tidy st' \<and> settles (ends st) {} st st'"
    if "iterM popScope (rev [z..<i]) st = Some st'" "tidy st" "wf st" "i = length (cleanupScopes st)" "z \<le> i"
    for i and st :: "'a TryCatchFinallyScopes_scheme"
    using that
  proof (induction "i - z" arbitrary: i st)
    case 0
    then show ?case by (simp add: settles_refl)
  next
    case (Suc n)
    let ?i = "i - 1"
    have i: "Suc ?i = i" "z \<le> ?i" "rev [z..<i] = ?i # rev [z..<?i]"
      using Suc.hyps(2) upt_Suc_append [of z "i - 1"] by auto
    from Suc.prems(1) obtain st1 where st1: "popScope ?i st = Some st1" "iterM popScope (rev [z..<?i]) st1 = Some st'"
      unfolding i(3) by (auto split: Option.bind_splits)
    have "nextBB st1 \<le> nextBB st'" using st1(2) by (rule iterM_invariant) (auto dest: popScope_grows(1))
    then have nb: "nextBB st1 < 2 ^ 32" using assms(4) by simp
    have len: "Suc ?i = length (cleanupScopes st)" using Suc.prems(4) i(1) by simp
    note one = popScope_tidy [OF st1(1) Suc.prems(2,3) len nb] popScope_step [OF st1(1) Suc.prems(3) len nb]
    have len1: "?i = length (cleanupScopes st1)" using popScope_grows(2) [OF st1(1)] len by simp
    have IH: "tidy st' \<and> settles (ends st1) {} st1 st'"
      using Suc.hyps(1) [OF _ st1(2) one(1,3) len1 i(2)] Suc.hyps(2) by simp
    have "ends st1 \<subseteq> ends st" using one(4) by (auto simp: ends_pairs dest: in_set_takeD)
    then show ?case using IH settles_trans [OF one(2), of "ends st1" "{}" st' "ends st" "{}"] by simp
  qed
  then show "tidy st'" "settles (ends st) {} st st'"
    using assms(1-3) by (auto simp: popCleanups_def currentCleanupScope_def split: if_splits)
qed

text \<open>Every cleanup that control has been sent through ends in a terminator.\<close>

lemma linked_terminated:
  assumes "linked st src e b" "wf st"
  shows "terminated (bbs st) e"
proof (cases "e \<in> ends st")
  case True
  then obtain c where c: "c \<in> set (cleanupScopes st)" "endBlock c = e" "recordedTo c src b" using assms(1) by (auto simp: linked_def)
  then obtain k where "k < length (cleanupScopes st)" "c = cleanupScopes st ! k" by (auto simp: in_set_conv_nth)
  then have "okScope (bbs st) (nextAlloca st) c" using wf_wfg [OF assms(2)] by (auto simp: wfg_def fit_def)
  moreover have "exitTerm c \<noteq> None" using c(3) by (auto simp: recordedTo_def exitTerm_def split: list.splits option.splits)
  ultimately show ?thesis using c(2) by (auto simp: terminated_def elim: okScope_block)
next
  case False
  then obtain ss blk where blk: "bbs st e = Some blk" "hop ss (terminator blk) = Some b" using assms(1) by (auto simp: linked_def)
  then show ?thesis by (cases "terminator blk") (auto simp: terminated_def)
qed

lemma chained_terminated: "chained st src cs b t \<Longrightarrow> wf st \<Longrightarrow> e \<in> snd ` set cs \<Longrightarrow> terminated (bbs st) e"
proof (induction cs arbitrary: b)
  case (Cons c cs)
  then obtain b' where "linked st src (snd c) b'" "chained st src cs b' t" by auto
  then show ?case using Cons linked_terminated by auto
qed simp

lemma settled_terminated: "settled exn st src cs t \<Longrightarrow> wf st \<Longrightarrow> e \<in> snd ` set cs \<Longrightarrow> terminated (bbs st) e"
proof -
  assume s: "settled exn st src cs t" "wf st" "e \<in> snd ` set cs"
  then obtain b where "chained st src cs b t" by (auto simp: settled_def route_def)
  then show ?thesis using chained_terminated s(2,3) by simp
qed

section \<open>Gotos\<close>

lemma registerUnresolvedGoto_tidy:
  assumes "registerUnresolvedGoto loc l st = Some st'" "tidy st" "wf st"
  shows "tidy st'" "settles {scopebb st} {nextBB st} st st'" "terminated (bbs st') (scopebb st)" "unterminated (bbs st) (scopebb st)"
    "tents st' = insert (nextBB st) (tents st)"
proof -
  define st1 where "st1 = snd (insertBB st)"
  obtain st2 where st2: "CreateBr (nextBB st) st1 = Some st2" "bbs st' = bbs st2" "nextBB st' = nextBB st2" "known st' = known st2" "pads st' = pads st2"
    using assms(1)
    by (auto simp: registerUnresolvedGoto_def insertBB_def Let_def st1_def known_def pads_def split: Option.bind_splits)
  note one = insertBB_tidy [OF assms(2), folded st1_def]
  have nd: "nextBB st \<in> dom (bbs st1)" by (simp add: one(3))
  note br = CreateBr_tidy [OF st2(1) one(1) nd]
  have sb: "scopebb st1 = scopebb st" by (simp add: st1_def)
  show t: "tents st' = insert (nextBB st) (tents st)" using registerUnresolvedGoto_step(8) [OF assms(1,3)] by (simp add: tents_def)
  show "terminated (bbs st') (scopebb st)" using br(3) sb st2(2) by simp
  have "scopebb st < nextBB st" using assms(3) by (simp add: wf_def wfg_def base_def)
  then show "unterminated (bbs st) (scopebb st)" using br(4) sb by (simp add: st1_def insertBB_def unterminated_def)
  have "settles {scopebb st} {} st1 st2" using br(2) sb by (simp add: blockwise_def)
  then have "settles {scopebb st} {nextBB st} st st2" by (rule settles_trans [OF one(2) [of "{}"]]) auto
  then show "settles {scopebb st} {nextBB st} st st'" using st2(2) by (simp add: settles_def)
  have "dom (bbs st2) = insert (nextBB st) (dom (bbs st))" using br(2) one(3) by (simp add: blockwise_def)
  then show "tidy st'" using br(1) assms(2) unfolding tidy_def st2(2-5) t by auto
qed

text \<open>Resolving a goto: its tentative target is replaced by the label and erased.\<close>

lemma known_tents:
  assumes "good st"
  shows "known st \<inter> tents st = {}"
proof -
  have wf: "wf st" and p: "padsOK st" using assms by (simp_all add: good_def)
  have "scopeBlocks c \<inter> tents st = {}" if c: "c \<in> set (cleanupScopes st)" for c
  proof -
    obtain k where k: "k < length (cleanupScopes st)" "c = cleanupScopes st ! k" using c by (auto simp: in_set_conv_nth)
    then have "fit st (set (gotos st)) c" using wf by (auto simp: wf_def wfg_def split: if_splits)
    then show ?thesis by (auto simp: fit_def scopeBlocks_def tents_def)
  qed
  moreover have "bodyBB cb \<notin> tents st" if "tc \<in> set (tryCatchScopes st)" "cb \<in> set (catchBlocks tc)" for tc cb
    using p that by (auto simp: padsOK_def bodiesOK_def)
  moreover have "b \<notin> tents st" if "resumeUnwindBlock st = Some b" for b
    using p that resumes_block(2) [OF wf] by (auto simp: padsOK_def resumeOK_def)
  ultimately show ?thesis by (auto simp: known_def)
qed

lemma resolveAll_tidy:
  assumes "tidy st" "b \<in> dom (bbs st)" "b \<notin> tentativeTarget ` set gs"
    "tentativeTarget ` set gs \<inter> (known st \<union> pads st \<union> tents st) = {}"
  shows "tidy (fold (resolveOne b) gs st) \<and> known (fold (resolveOne b) gs st) = known st \<and> pads (fold (resolveOne b) gs st) = pads st
    \<and> (\<forall>x. terminated (bbs (fold (resolveOne b) gs st)) x \<longleftrightarrow> terminated (bbs st) x \<and> x \<notin> tentativeTarget ` set gs)
    \<and> (\<forall>x. unterminated (bbs (fold (resolveOne b) gs st)) x \<longleftrightarrow> unterminated (bbs st) x \<and> x \<notin> tentativeTarget ` set gs)"
  using assms
proof (induction gs arbitrary: st)
  case (Cons g gs)
  let ?t = "tentativeTarget g" and ?st1 = "resolveOne b g st"
  have bt: "b \<noteq> ?t" using Cons.prems(3) by auto
  note ra = rauw_tidy [OF Cons.prems(1,2), of ?t]
  have tn: "tents (replaceAllUsesWith ?t b st) = tents st" by (simp add: tents_def gotos_def replaceAllUsesWith_def)
  have t1: "tidy ?st1" unfolding resolveOne_def
    by (rule erase_tidy [OF ra(1) ra(2) [OF bt]]) (use Cons.prems(4) in \<open>auto simp: tn\<close>)
  have same: "known ?st1 = known st" "pads ?st1 = pads st" "tents ?st1 = tents st" "dom (bbs ?st1) = dom (bbs st) - {?t}"
    by (simp_all add: resolveOne_def tn)
  have blk: "terminated (bbs ?st1) x \<longleftrightarrow> terminated (bbs st) x \<and> x \<noteq> ?t" "unterminated (bbs ?st1) x \<longleftrightarrow> unterminated (bbs st) x \<and> x \<noteq> ?t" for x
    by (auto simp: resolveOne_def eraseFromParent_def terminated_def unterminated_def replaceAllUsesWith_def)
  show ?case using Cons.IH [OF t1] Cons.prems bt unfolding same blk by auto
qed simp

lemma image_filter_rest:
  assumes "distinct (map f (v @ w))"
  shows "f ` set (filter P w) = f ` set (v @ w) - f ` set (v @ filter (\<lambda>x. \<not> P x) w)"
proof -
  have "inj_on f (set (v @ w))" "set v \<inter> set w = {}"
    using assms distinct_map [of f "v @ w"] distinct_append [of v w] by blast+
  moreover have "set (v @ filter (\<lambda>x. \<not> P x) w) \<subseteq> set (v @ w)" by auto
  ultimately have "f ` (set (v @ w) - set (v @ filter (\<lambda>x. \<not> P x) w)) = f ` set (v @ w) - f ` set (v @ filter (\<lambda>x. \<not> P x) w)"
    by (intro inj_on_image_set_diff [of f "set (v @ w)"]) auto
  moreover have "set (v @ w) - set (v @ filter (\<lambda>x. \<not> P x) w) = set (filter P w)" using \<open>set v \<inter> set w = {}\<close> by auto
  ultimately show ?thesis by metis
qed

lemma tryResolveGotos_tidy:
  assumes "good st" "tidy st" "b \<in> dom (bbs st)" "b \<notin> tents st"
  shows "tidy (tryResolveGotos l b st)" "\<And>x. terminated (bbs (tryResolveGotos l b st)) x \<longleftrightarrow> terminated (bbs st) x"
    "\<And>x. unterminated (bbs (tryResolveGotos l b st)) x \<longleftrightarrow> unterminated (bbs st) x \<and> x \<notin> tents st - tents (tryResolveGotos l b st)"
    "tents (tryResolveGotos l b st) \<subseteq> tents st"
proof -
  have wf: "wf st" using assms(1) by (simp add: good_def)
  let ?f = "forgetGotos l st" and ?gs = "filter (\<lambda>g. targetLabel g = l) (currentUnresolvedGotos st)"
  note f = forgetGotos_same [OF wf, of l]
  obtain v where v: "gotos st = v @ currentUnresolvedGotos st" "gotos ?f = v @ filter (\<lambda>g. targetLabel g \<noteq> l) (currentUnresolvedGotos st)"
    using f(8) by blast
  have dist: "distinct (map tentativeTarget (gotos st))" using wf by (simp add: wf_def wfg_def base_def)
  have gs: "tentativeTarget ` set ?gs = tents st - tents ?f"
    using image_filter_rest [OF dist [unfolded v(1)], of "\<lambda>g. targetLabel g = l"] unfolding tents_def v .
  have sub: "tents ?f \<subseteq> tents st" by (auto simp: tents_def v)
  have kp: "known ?f = known st" "pads ?f = pads st" by (simp_all add: forgetGotos_def known_def pads_def)
  have t: "tidy ?f" using assms(2) sub unfolding tidy_def kp f(2,3) by auto
  have pt: "pads st \<inter> tents st = {}"
    using assms(2) wfg_tent(1) [OF wf_wfg [OF wf]] not_both unfolding tidy_def by blast
  have r: "tidy (fold (resolveOne b) ?gs ?f) \<and> known (fold (resolveOne b) ?gs ?f) = known ?f \<and> pads (fold (resolveOne b) ?gs ?f) = pads ?f
    \<and> (\<forall>x. terminated (bbs (fold (resolveOne b) ?gs ?f)) x \<longleftrightarrow> terminated (bbs ?f) x \<and> x \<notin> tentativeTarget ` set ?gs)
    \<and> (\<forall>x. unterminated (bbs (fold (resolveOne b) ?gs ?f)) x \<longleftrightarrow> unterminated (bbs ?f) x \<and> x \<notin> tentativeTarget ` set ?gs)"
    by (rule resolveAll_tidy [OF t], unfold f(2) gs kp) (use assms(3,4) known_tents [OF assms(1)] pt in blast)+
  have tt: "tents (tryResolveGotos l b st) = tents ?f" by (simp add: tryResolveGotos_eq tents_def gotos_def resolveOne_cs)
  show "tidy (tryResolveGotos l b st)" "tents (tryResolveGotos l b st) \<subseteq> tents st" using r sub tt by (simp_all add: tryResolveGotos_eq)
  fix x
  show "terminated (bbs (tryResolveGotos l b st)) x \<longleftrightarrow> terminated (bbs st) x"
    using r wfg_tent(1) [OF wf_wfg [OF wf], of x] not_both [of "bbs st" x] unfolding tryResolveGotos_eq gs f(2) by blast
  show "unterminated (bbs (tryResolveGotos l b st)) x \<longleftrightarrow> unterminated (bbs st) x \<and> x \<notin> tents st - tents (tryResolveGotos l b st)"
    using r unfolding tt gs f(2) by (simp add: tryResolveGotos_eq)
qed

section \<open>Opening scopes\<close>

lemma pushCleanup_tidy: "tidy st \<Longrightarrow> b \<in> dom (bbs st) \<Longrightarrow> e \<in> dom (bbs st) \<Longrightarrow> tidy ((pushCleanup b e st)\<lparr>scopebb := n\<rparr>)"
  by (auto simp: tidy_def pushCleanup_def known_def scopeBlocks_def newCleanupScope_def targets_def pads_def tents_def gotos_def)

lemma pads_update:
  assumes "set p \<subseteq> insert None (Some ` X \<union> set (landingPadsPerCleanupScope st ! i))"
  shows "{b. Some b \<in> set (concat ((landingPadsPerCleanupScope st)[i := p]))} \<subseteq> X \<union> pads st"
proof (cases "i < length (landingPadsPerCleanupScope st)")
  case True
  then have "landingPadsPerCleanupScope st ! i \<in> set (landingPadsPerCleanupScope st)" by simp
  then show ?thesis using assms set_update_subset_insert [of "landingPadsPerCleanupScope st" i p] by (fastforce simp: pads_def)
qed (auto simp: pads_def list_update_beyond)

lemma pushTryCatch_tidy:
  assumes "tidy st" "bodyBB ` set blocks \<subseteq> dom (bbs st)"
  shows "tidy (pushTryCatch blocks nx st)"
proof -
  have "pads (pushTryCatch blocks nx st) \<subseteq> pads st"
    using pads_update [of "landingPadsPerCleanupScope st ! currentCleanupScope st @ [None]" "{}" st "currentCleanupScope st"] by (simp add: pads_def pushTryCatch_def Let_def)
  moreover have "known (pushTryCatch blocks nx st) \<subseteq> known st \<union> bodyBB ` set blocks"
    by (auto simp: known_def pushTryCatch_def Let_def)
  then have "known (pushTryCatch blocks nx st) \<subseteq> dom (bbs st)" using assms unfolding tidy_def by blast
  ultimately show ?thesis by (intro tidy_fields [OF assms(1)]) (simp_all add: pushTryCatch_def Let_def tents_def gotos_def)
qed

lemma popTryCatch_tidy:
  assumes "popTryCatch st = Some st'" "tidy st"
  shows "tidy st'"
proof -
  let ?i = "currentCleanupScope st"
  have st': "st' = st\<lparr>tryCatchScopes := butlast (tryCatchScopes st),
      landingPadsPerCleanupScope := (landingPadsPerCleanupScope st)[?i := butlast (landingPadsPerCleanupScope st ! ?i)]\<rparr>"
    using assms(1) by (auto simp: popTryCatch_def Let_def split: if_splits)
  have "set (butlast (landingPadsPerCleanupScope st ! ?i)) \<subseteq> insert None (Some ` {} \<union> set (landingPadsPerCleanupScope st ! ?i))"
    by (auto dest: in_set_butlastD)
  from pads_update [OF this] have "pads st' \<subseteq> pads st" by (simp add: pads_def st')
  moreover have "known st' \<subseteq> known st" by (auto simp: known_def st' dest: in_set_butlastD)
  then have "known st' \<subseteq> dom (bbs st)" using assms(2) unfolding tidy_def by blast
  ultimately show ?thesis by (intro tidy_fields [OF assms(2)]) (simp_all add: st' tents_def gotos_def)
qed

end
