(* ===== verification/EmittedPads.thy ===== *)
theory EmittedPads
  imports EmittedScopes
begin

text \<open>
  The blocks of a landing pad: all of them end in a terminator once it has been emitted, and they
  lead to blocks that exist.
\<close>

section \<open>Changes that keep terminators\<close>

definition sameTerms :: "'a IRState_scheme \<Rightarrow> 'a IRState_scheme \<Rightarrow> bool" where
  "sameTerms st st' \<longleftrightarrow> (\<forall>b. map_option terminator (bbs st' b) = map_option terminator (bbs st b))"

lemma sameTerms_facts:
  assumes "sameTerms st st'"
  shows "terminated (bbs st') = terminated (bbs st)" "unterminated (bbs st') = unterminated (bbs st)"
    "dom (bbs st') = dom (bbs st)" "refs (bbs st') = refs (bbs st)"
proof -
  have *: "map_option terminator (bbs st' b) = map_option terminator (bbs st b)" for b using assms by (simp add: sameTerms_def)
  have t: "terminated m b \<longleftrightarrow> (\<exists>T. map_option terminator (m b) = Some (Some T))"
    "unterminated m b \<longleftrightarrow> map_option terminator (m b) = Some None" for m b
    by (auto simp: terminated_def unterminated_def)
  have r: "refs m = {x. \<exists>b T. map_option terminator (m b) = Some (Some T) \<and> x \<in> set (succs T)}" for m
    by (auto simp: refs_def)
  have d: "dom m = {b. map_option terminator (m b) \<noteq> None}" for m :: "BB \<rightharpoonup> BasicBlock" by (auto simp: dom_def)
  show "terminated (bbs st') = terminated (bbs st)" "unterminated (bbs st') = unterminated (bbs st)" by (intro ext; simp add: t *)+
  show "dom (bbs st') = dom (bbs st)" "refs (bbs st') = refs (bbs st)" by (simp_all add: d r *)
qed

lemma sameTerms_pad: "sameTerms st (addClause ci b st)" "sameTerms st (setCleanup b st)" "sameTerms st (createLandingPadInst b st)"
  by (auto simp: sameTerms_def addClause_def setCleanup_def updateLandingPad_def createLandingPadInst_def option.map_comp comp_def)

definition sameRest :: "'a TryCatchFinallyScopes_scheme \<Rightarrow> 'a TryCatchFinallyScopes_scheme \<Rightarrow> bool" where
  "sameRest st st' \<longleftrightarrow> cleanupScopes st' = cleanupScopes st \<and> tryCatchScopes st' = tryCatchScopes st \<and> resumeUnwindBlock st' = resumeUnwindBlock st
     \<and> landingPadsPerCleanupScope st' = landingPadsPerCleanupScope st \<and> unresolvedGotosPerCleanupScope st' = unresolvedGotosPerCleanupScope st
     \<and> nextBB st' = nextBB st"

lemma sameRest_pad: "sameRest st (addClause ci b st)" "sameRest st (setCleanup b st)" "sameRest st (createLandingPadInst b st)"
  by (simp_all add: sameRest_def addClause_def setCleanup_def updateLandingPad_def createLandingPadInst_def)

lemma sameRest_facts:
  assumes "sameRest st st'"
  shows "known st' = known st" "pads st' = pads st" "tents st' = tents st" "pairs st' = pairs st" "ends st' = ends st" "gotos st' = gotos st"
  using assms by (auto simp: sameRest_def known_def pads_def tents_def gotos_def pairs_def ends_def)

lemma sameTerms_tidy: "sameTerms st st' \<Longrightarrow> sameRest st st' \<Longrightarrow> tidy st \<Longrightarrow> tidy st'"
  unfolding tidy_def by (simp add: sameTerms_facts sameRest_facts) (simp add: sameRest_def)

section \<open>Emission of a landing pad\<close>

lemma settles_advance:
  assumes "settles E {x} st0 st" "settles (insert x E) {y} st st'" "x \<notin> dom (bbs st0)" "terminated (bbs st') x"
  shows "settles E {y} st0 st'"
  using assms not_both [OF assms(4)] dom_cases [of x "bbs st0"] unfolding settles_def by blast

text \<open>
  While the landing pad \<open>p\<close> is being emitted, only the block where the code goes on is not
  terminated, and it is new; after a test of a catch, nothing but that test leads there.
\<close>

definition padding :: "'a TryCatchFinallyScopes_scheme \<Rightarrow> BB \<Rightarrow> bool \<Rightarrow> 'a TryCatchFinallyScopes_scheme \<Rightarrow> bool" where
  "padding st0 p fresh st \<longleftrightarrow> tidy st \<and> settles (ends st0) {scopebb st} st0 st \<and> scopebb st \<in> dom (bbs st) - dom (bbs st0)
     \<and> pairs st = pairs st0 \<and> tents st = tents st0 \<and> landingPadsPerCleanupScope st = landingPadsPerCleanupScope st0
     \<and> tryCatchScopes st = tryCatchScopes st0 \<and> (p = scopebb st \<or> terminated (bbs st) p)
     \<and> (fresh \<longrightarrow> scopebb st \<notin> known st \<and> terminated (bbs st) p \<and> p \<noteq> scopebb st)"

lemma padding_start:
  assumes "tidy st"
  defines "st2 \<equiv> (createLandingPadInst (nextBB st) (snd (insertBB st)))\<lparr>scopebb := nextBB st, ehPtrSlot := True, ehSelectorSlot := True\<rparr>"
  shows "padding st (nextBB st) False st2"
proof -
  note one = insertBB_tidy [OF assms(1)]
  let ?st1 = "snd (insertBB st)"
  have t: "sameTerms ?st1 st2" using sameTerms_pad(3) [of ?st1 "nextBB st"] by (simp add: st2_def sameTerms_def)
  have r: "sameRest ?st1 st2" by (simp add: st2_def sameRest_def createLandingPadInst_def insertBB_def)
  have s1: "pairs ?st1 = pairs st" "tents ?st1 = tents st" by (auto simp: pairs_def tents_def gotos_def insertBB_def)
  have "settles (ends st) {nextBB st} st st2" using one(2) [of "ends st"] unfolding settles_def sameTerms_facts [OF t] .
  moreover have "scopebb st2 = nextBB st" "landingPadsPerCleanupScope st2 = landingPadsPerCleanupScope st" "tryCatchScopes st2 = tryCatchScopes st"
    by (simp_all add: st2_def createLandingPadInst_def insertBB_def)
  ultimately show ?thesis unfolding padding_def
    using sameTerms_tidy [OF t r one(1)] one(3,6) sameTerms_facts(3) [OF t] sameRest_facts(3,4) [OF r] s1 by auto
qed

lemma padding_extend:
  assumes "padding st0 p fresh st" "tidy st'" "settles (insert (scopebb st) (ends st0)) {scopebb st'} st st'" "terminated (bbs st') (scopebb st)"
    "scopebb st' = nextBB st" "scopebb st' \<in> dom (bbs st')" "pairs st' = pairs st" "tents st' = tents st"
    "landingPadsPerCleanupScope st' = landingPadsPerCleanupScope st" "tryCatchScopes st' = tryCatchScopes st"
  shows "padding st0 p False st'" "terminated (bbs st') p" "p \<noteq> scopebb st'"
proof -
  have p: "tidy st" "settles (ends st0) {scopebb st} st0 st" "scopebb st \<notin> dom (bbs st0)" "dom (bbs st0) \<subseteq> dom (bbs st)"
      "p = scopebb st \<or> terminated (bbs st) p"
    using assms(1) by (auto simp: padding_def settles_def)
  show tp: "terminated (bbs st') p" using p(5) assms(3,4) by (auto simp: settles_def)
  have new: "nextBB st \<notin> dom (bbs st)" using p(1) by (auto simp: tidy_def)
  then have "nextBB st \<notin> dom (bbs st0)" using p(4) by blast
  moreover have "scopebb st \<in> dom (bbs st)" using assms(1) by (simp add: padding_def)
  ultimately show "padding st0 p False st'" using settles_advance [OF p(2) assms(3) p(3) assms(4)] assms tp unfolding padding_def by simp
  show "p \<noteq> scopebb st'" using p(5) new \<open>scopebb st \<in> dom (bbs st)\<close> assms(5) dom_cases by metis
qed

lemma known_body: "cb \<in> set (catchBlocks tc) \<Longrightarrow> tc \<in> set (tryCatchScopes st) \<Longrightarrow> bodyBB cb \<in> known st"
  by (auto simp: known_def)

lemma padding_test:
  assumes "emitCatchTest q cb st = Some st'" "padding st0 p fresh st" "bodyBB cb \<in> known st"
  shows "padding st0 p True st'"
proof -
  let ?st0 = "addClause (classInfoPtr cb) q st" and ?n = "nextBB st"
  define st1 where "st1 = snd (insertBB ?st0)"
  have n0: "nextBB ?st0 = ?n" by (simp add: addClause_def updateLandingPad_def)
  obtain st2 where st2: "terminate (scopebb st1) (CondBranch (classInfoPtr cb) (bodyBB cb) ?n) st1 = Some st2" "st' = st2\<lparr>scopebb := ?n\<rparr>"
    using assms(1) n0 by (auto simp: emitCatchTest_def insertBB_def Let_def st1_def split: Option.bind_splits)
  have t0: "tidy st" using assms(2) by (simp add: padding_def)
  have t: "tidy ?st0" by (rule sameTerms_tidy [OF sameTerms_pad(1) sameRest_pad(1) t0])
  note one = insertBB_tidy [OF t, folded st1_def, unfolded n0] and st = sameTerms_facts [OF sameTerms_pad(1)] sameRest_facts [OF sameRest_pad(1)]
  have sb: "scopebb st1 = scopebb st" by (simp add: st1_def addClause_def updateLandingPad_def)
  note te = terminate_effect [OF st2(1), unfolded sb]
  have kd: "bodyBB cb \<in> dom (bbs st1)" using assms(3) t0 unfolding one(3) st(3) tidy_def by blast
  have eq: "st2 = st1\<lparr>bbs := bbs st2, nextAlloca := nextAlloca st2\<rparr>" using te(6) by (simp add: onlyBlocks_def)
  have bw: "blockwise {scopebb st} (insert ?n (known st1)) st1 st2"
    by (rule blockwise_terminate [OF st2(1)]) (use assms(3) in \<open>simp_all add: sb one(4) st(5)\<close>)
  have fs: "tents st2 = tents st1" "known st2 = known st1" "nextBB st2 = nextBB st1" "landingPadsPerCleanupScope st2 = landingPadsPerCleanupScope st1"
      "pairs st2 = pairs st1" "tryCatchScopes st2 = tryCatchScopes st1"
    by (subst eq, simp add: tents_def gotos_def known_def pairs_def)+
  have f1: "tents st1 = tents st" "known st1 = known st" "landingPadsPerCleanupScope st1 = landingPadsPerCleanupScope st"
      "pairs st1 = pairs st" "tryCatchScopes st1 = tryCatchScopes st"
    by (auto simp: st1_def insertBB_def addClause_def updateLandingPad_def known_def pairs_def tents_def gotos_def)
  have f': "tents st' = tents st2" "known st' = known st2" "landingPadsPerCleanupScope st' = landingPadsPerCleanupScope st2"
      "pairs st' = pairs st2" "tryCatchScopes st' = tryCatchScopes st2"
    by (simp_all add: st2(2) tents_def gotos_def known_def pairs_def)
  have same: "known st' = known st" "pairs st' = pairs st" "tents st' = tents st" "landingPadsPerCleanupScope st' = landingPadsPerCleanupScope st"
      "tryCatchScopes st' = tryCatchScopes st"
    using fs f1 f' by simp_all
  have k1: "insert ?n (known st1) \<subseteq> dom (bbs st1)" "known st2 \<subseteq> dom (bbs st1)" using one(1,3) fs(2) by (auto simp: tidy_def)
  have "tidy st2" by (rule tidy_blockwise [OF one(1) bw k1 fs(1,3,4)])
  then have tidy: "tidy st'" by (rule tidy_fields) (simp_all add: st2(2) tents_def gotos_def known_def pads_def tidy_def, use \<open>tidy st2\<close> in \<open>auto simp: tidy_def known_def\<close>)
  have "settles (insert (scopebb st) (ends st0)) {?n} st st1" using one(2) unfolding settles_def st(1-3) by blast
  then have "settles (insert (scopebb st) (ends st0)) {?n} st st2" using bw
    by (intro settles_trans [of _ "{?n}" st st1 "{scopebb st}" "{}" st2]) (auto simp: blockwise_def)
  then have se: "settles (insert (scopebb st) (ends st0)) {scopebb st'} st st'" by (simp add: st2(2) settles_def)
  have nd: "?n \<in> dom (bbs st')" using te(3) one(3) by (simp add: st2(2))
  note ext = padding_extend [OF assms(2) tidy se _ _ _ same(2-5)]
  have "known st \<subseteq> {..<?n}" using t0 unfolding tidy_def by blast
  then have "?n \<notin> known st" by auto
  then show ?thesis using ext te(4) nd same(1) unfolding padding_def by (simp add: st2(2))
qed

lemma padding_weaken: "padding st0 p fresh st \<Longrightarrow> padding st0 p False st"
  by (simp add: padding_def)

lemma padding_tests:
  assumes "iterM (emitCatchTest q) cbs st = Some st'" "padding st0 p fresh st" "cbs \<noteq> []" "tc \<in> set (tryCatchScopes st0)" "set cbs \<subseteq> set (catchBlocks tc)"
  shows "padding st0 p True st'"
proof -
  have body: "bodyBB cb \<in> known st1" if "padding st0 p b st1" "cb \<in> set cbs" for st1 b cb
    using known_body [of cb tc st1] that assms(4,5) by (auto simp: padding_def)
  obtain cb cbs' where cbs: "cbs = cb # cbs'" using assms(3) by (cases cbs) auto
  then obtain st1 where st1: "emitCatchTest q cb st = Some st1" "iterM (emitCatchTest q) cbs' st1 = Some st'"
    using assms(1) by (auto split: Option.bind_splits)
  have "padding st0 p True st1" using padding_test [OF st1(1) assms(2) body [OF assms(2)]] cbs by simp
  with st1(2) show ?thesis
  proof (rule iterM_invariant)
    fix cb s s'
    assume cb: "cb \<in> set cbs'" and s: "padding st0 p True s" "emitCatchTest q cb s = Some s'"
    show "padding st0 p True s'" by (rule padding_test [OF s(2,1) body [OF s(1)]]) (simp add: cbs cb)
  qed
qed

lemma padding_run:
  assumes "runCleanups_from a z (nextBB st) (snd (insertBB (setCleanup q st))) = Some st2" "padding st0 p fresh st"
  shows "padding st0 p False (st2\<lparr>scopebb := nextBB st\<rparr>)"
proof -
  let ?st0 = "setCleanup q st" and ?n = "nextBB st" and ?st' = "st2\<lparr>scopebb := nextBB st\<rparr>"
  define st1 where "st1 = snd (insertBB ?st0)"
  have n0: "nextBB ?st0 = ?n" by (simp add: setCleanup_def updateLandingPad_def)
  have t0: "tidy st" using assms(2) by (simp add: padding_def)
  have t: "tidy ?st0" by (rule sameTerms_tidy [OF sameTerms_pad(2) sameRest_pad(2) t0])
  note one = insertBB_tidy [OF t, folded st1_def, unfolded n0] and st = sameTerms_facts [OF sameTerms_pad(2)] sameRest_facts [OF sameRest_pad(2)]
  have sb: "scopebb st1 = scopebb st" by (simp add: st1_def setCleanup_def updateLandingPad_def)
  have r1: "pairs st1 = pairs st" "gotos st1 = gotos st" "landingPadsPerCleanupScope st1 = landingPadsPerCleanupScope st" "tryCatchScopes st1 = tryCatchScopes st"
    by (auto simp: st1_def insertBB_def setCleanup_def updateLandingPad_def pairs_def gotos_def)
  have nd: "?n \<in> dom (bbs st1)" by (simp add: one(3))
  note r = runCleanups_from_tidy [OF assms(1) [folded st1_def] one(1) nd]
  note ra = r(1) [unfolded ranAll_def]
  have sh: "sameScopes st1 st2" by (rule runCleanups_from_shape(2) [OF assms(1) [folded st1_def]])
  have e: "ends st1 = ends st0" using r1(1) assms(2) by (simp add: ends_pairs padding_def)
  have t2: "tidy st2" using ra by simp
  then have tidy: "tidy ?st'" by (rule tidy_fields) (use t2 in \<open>auto simp: tidy_def tents_def gotos_def known_def pads_def\<close>)
  have s1: "settles (insert (scopebb st) (ends st0)) {?n} st st1" using one(2) unfolding settles_def st(1-3) by blast
  have "settles (insert (scopebb st) (ends st0)) {} st1 st2" using ra e sb by (simp add: blockwise_def)
  then have "settles (insert (scopebb st) (ends st0)) {?n} st st2" by (rule settles_trans [OF s1]) auto
  then have se: "settles (insert (scopebb st) (ends st0)) {scopebb ?st'} st ?st'" by (simp add: settles_def)
  have "dom (bbs st2) = dom (bbs st1)" using ra by (simp add: blockwise_def)
  then have d: "scopebb ?st' \<in> dom (bbs ?st')" using nd by simp
  show ?thesis
    by (rule padding_extend(1) [OF assms(2) tidy se _ _ d])
      (use ra r(2) r1 sb sh in \<open>auto simp: pairs_def tents_def gotos_def sameScopes_def\<close>)
qed

lemma padding_catches:
  assumes "emitCatches q tc (k, st) = Some (k', st')" "padding st0 p fresh st" "tc \<in> set (tryCatchScopes st0)"
  shows "padding st0 p True st'"
proof -
  obtain st1 where st1: "padding st0 p False st1" "iterM (emitCatchTest q) (catchBlocks tc) st1 = Some st'" "catchBlocks tc \<noteq> []"
    using assms(1) padding_run padding_weaken [OF assms(2)] assms(2)
    by (fastforce simp: emitCatches_def insertBB_def Let_def setCleanup_def updateLandingPad_def split: Option.bind_splits if_splits)
  then show ?thesis using padding_tests assms(3) by blast
qed

lemma padding_allCatches:
  assumes "iterM (emitCatches q) tcs (k, st) = Some (k', st')" "padding st0 p False st" "set tcs \<subseteq> set (tryCatchScopes st0)"
  shows "padding st0 p (tcs \<noteq> []) st'"
proof (cases tcs)
  case Nil
  then show ?thesis using assms by simp
next
  case (Cons tc tcs')
  then obtain k1 st1 where st1: "emitCatches q tc (k, st) = Some (k1, st1)" "iterM (emitCatches q) tcs' (k1, st1) = Some (k', st')"
    using assms(1) by (auto split: Option.bind_splits)
  have "padding st0 p True st1" using padding_catches [OF st1(1) assms(2)] assms(3) Cons by simp
  then have "padding st0 p True (snd (k1, st1))" by simp
  with st1(2) have "padding st0 p True (snd (k', st'))"
    by (rule iterM_invariant) (use padding_catches assms(3) Cons in fastforce)
  then show ?thesis using Cons by simp
qed

lemma padding_resume:
  assumes "getOrCreateResumeUnwindBlock st = Some (r, st')" "padding st0 p fresh st"
  shows "padding st0 p fresh st' \<and> r \<in> known st'"
proof (cases "resumeUnwindBlock st")
  case (Some b)
  then show ?thesis using assms by (auto simp: getOrCreateResumeUnwindBlock_def known_def)
next
  case None
  let ?n = "nextBB st"
  define st1 where "st1 = snd (insertBB st)"
  define st2 where "st2 = st1\<lparr>resumeUnwindBlock := Some ?n, ehPtrSlot := True\<rparr>"
  have st': "terminate ?n ResumeUnwind st2 = Some st'" "r = ?n"
    using assms(1) None by (auto simp: getOrCreateResumeUnwindBlock_def insertBB_def Let_def st1_def st2_def split: Option.bind_splits)
  have t: "tidy st" using assms(2) by (simp add: padding_def)
  note one = insertBB_tidy [OF t, folded st1_def]
  have k2: "known st2 \<subseteq> insert ?n (known st1)" "?n \<in> known st2" by (auto simp: known_def st2_def)
  have t2: "tidy st2" using one(1,3) k2 by (intro tidy_fields [OF one(1)]) (auto simp: st2_def tidy_def tents_def gotos_def pads_def)
  note te = terminate_effect [OF st'(1)]
  have eq: "st' = st2\<lparr>bbs := bbs st', nextAlloca := nextAlloca st'\<rparr>" using te(6) by (simp add: onlyBlocks_def)
  have fs: "tents st' = tents st2" "known st' = known st2" "nextBB st' = nextBB st2" "landingPadsPerCleanupScope st' = landingPadsPerCleanupScope st2"
      "scopebb st' = scopebb st2" "pairs st' = pairs st2" "tryCatchScopes st' = tryCatchScopes st2"
    by (subst eq, simp add: tents_def gotos_def known_def pairs_def)+
  have f2: "tents st2 = tents st" "landingPadsPerCleanupScope st2 = landingPadsPerCleanupScope st" "scopebb st2 = scopebb st" "pairs st2 = pairs st"
      "tryCatchScopes st2 = tryCatchScopes st" "bbs st2 = bbs st1"
    by (simp_all add: st2_def st1_def insertBB_def tents_def gotos_def pairs_def)
  have bw: "blockwise {?n} {} st2 st'" by (rule blockwise_terminate [OF st'(1)]) simp_all
  have k: "known st' \<subseteq> dom (bbs st2)" using t2 fs(2) by (simp add: tidy_def)
  have tidy: "tidy st'" by (rule tidy_blockwise [OF t2 bw _ k fs(1,3,4)]) simp
  have s1: "settles {?n} {?n} st st2" using one(2) [of "{?n}"] f2(6) by (simp add: settles_def)
  have "settles {?n} {} st2 st'" using bw by (simp add: blockwise_def)
  then have s2: "settles {?n} {?n} st st'" by (rule settles_trans [OF s1]) auto
  have n: "?n \<notin> dom (bbs st)" "\<not> unterminated (bbs st') ?n" "\<not> unterminated (bbs st) ?n"
    using one(6) not_both [OF te(4)] by (auto simp: dom_def unterminated_def)
  have s0: "settles (ends st0) {scopebb st} st0 st" "dom (bbs st0) \<subseteq> dom (bbs st)" using assms(2) by (auto simp: padding_def settles_def)
  have se: "settles (ends st0) {scopebb st'} st0 st'"
    using s0 s2 n unfolding settles_def fs(5) f2(3) by blast
  have sb: "scopebb st \<in> dom (bbs st)" "scopebb st \<noteq> ?n" using assms(2) n(1) by (auto simp: padding_def)
  have "dom (bbs st) \<subseteq> dom (bbs st')" "\<forall>b. terminated (bbs st) b \<longrightarrow> terminated (bbs st') b" using s2 by (auto simp: settles_def)
  moreover have "scopebb st \<notin> known st \<Longrightarrow> scopebb st \<notin> known st'" using k2(1) fs(2) one(4) sb(2) by auto
  ultimately show ?thesis using assms(2) tidy se fs f2 k2(2) sb st'(2) unfolding padding_def by auto
qed

lemma padding_finish:
  assumes "finishPad p saved k r st = Some st'" "padding st0 p fresh st" "tryCatchScopes st \<noteq> [] \<longrightarrow> fresh" "r \<in> known st" "tidy st0"
  shows "tidy st'" "settles (ends st0) {} st0 st'" "terminated (bbs st') p"
proof -
  obtain st5 where st5: "st' = st5\<lparr>scopebb := saved\<rparr>"
      "(if 0 < k then runCleanups_from k 0 r (setCleanup p st)
        else if tryCatchScopes st \<noteq> [] then Some (eraseFromParent (scopebb st) (replaceAllUsesWith (scopebb st) r st))
        else CreateBr r st) = Some st5"
    using assms(1) by (auto simp: finishPad_def split: Option.bind_splits)
  have t: "tidy st" and rd: "r \<in> dom (bbs st)" using assms(2,4) by (auto simp: padding_def tidy_def)
  have s: "settles (ends st0) {scopebb st} st0 st" "scopebb st \<notin> dom (bbs st0)" "p = scopebb st \<or> terminated (bbs st) p"
    and e: "ends st = ends st0" using assms(2) by (auto simp: padding_def ends_pairs)
  have fin: "settles (ends st0) {} st0 st5" "terminated (bbs st5) p"
    if "settles (insert (scopebb st) (ends st0)) {} st st5" "terminated (bbs st5) (scopebb st)"
  proof -
    show "settles (ends st0) {} st0 st5" using that s(1,2) not_both [OF that(2)] dom_cases [of "scopebb st" "bbs st0"] unfolding settles_def by blast
    show "terminated (bbs st5) p" using that s(3) by (auto simp: settles_def)
  qed
  have all: "tidy st5 \<and> settles (ends st0) {} st0 st5 \<and> terminated (bbs st5) p"
  proof (cases "0 < k")
    case True
    let ?st0 = "setCleanup p st"
    have r: "runCleanups_from k 0 r ?st0 = Some st5" using st5(2) True by simp
    have t0: "tidy ?st0" by (rule sameTerms_tidy [OF sameTerms_pad(2) sameRest_pad(2) t])
    note st = sameTerms_facts [OF sameTerms_pad(2)] sameRest_facts [OF sameRest_pad(2)]
    have sb: "scopebb ?st0 = scopebb st" by (simp add: setCleanup_def updateLandingPad_def)
    have "r \<in> dom (bbs ?st0)" using rd unfolding st(3) .
    note r' = runCleanups_from_tidy [OF r t0 this]
    have "settles (insert (scopebb st) (ends st0)) {} ?st0 st5" using r'(1) by (simp add: ranAll_def blockwise_def st(9) e sb)
    then have "settles (insert (scopebb st) (ends st0)) {} st st5" unfolding settles_def st(1-3) .
    then show ?thesis using fin r' sb by (simp add: ranAll_def)
  next
    case k: False
    show ?thesis
    proof (cases "tryCatchScopes st = []")
      case True
      then have br: "CreateBr r st = Some st5" using st5(2) k by simp
      note b = CreateBr_tidy [OF br t rd]
      have "settles (insert (scopebb st) (ends st0)) {} st st5" using b(2) by (auto simp: blockwise_def intro: settles_mono)
      then show ?thesis using fin b by blast
    next
      case False
      let ?x = "scopebb st"
      have st5': "st5 = eraseFromParent ?x (replaceAllUsesWith ?x r st)" using st5(2) k False by simp
      have x: "?x \<notin> known st" "terminated (bbs st) p" "p \<noteq> ?x" "tents st = tents st0" "pads st = pads st0"
        using assms(2,3) False by (auto simp: padding_def pads_def)
      have rx: "r \<noteq> ?x" using x(1) assms(4) by auto
      note ra = rauw_tidy [OF t rd, of ?x]
      have tn: "tents (replaceAllUsesWith ?x r st) = tents st" by (simp add: tents_def gotos_def replaceAllUsesWith_def)
      have "?x \<notin> tents st" "?x \<notin> pads st" using s(2) assms(5) pads_dom [OF assms(5)] x(4,5) by (auto simp: tidy_def)
      then have "tidy st5" unfolding st5' by (intro erase_tidy [OF ra(1) ra(2) [OF rx]]) (simp_all add: x(1) tn)
      moreover have blk: "terminated (bbs st5) b \<longleftrightarrow> terminated (bbs st) b \<and> b \<noteq> ?x" "unterminated (bbs st5) b \<longleftrightarrow> unterminated (bbs st) b \<and> b \<noteq> ?x" for b
        by (auto simp: st5' eraseFromParent_def terminated_def unterminated_def replaceAllUsesWith_def)
      moreover have "dom (bbs st5) = dom (bbs st) - {?x}" by (simp add: st5')
      then have "settles (ends st0) {} st0 st5" using s(1,2) dom_cases [of ?x "bbs st0"] unfolding settles_def blk by blast
      ultimately show ?thesis using x(2,3) by simp
    qed
  qed
  have "tidy st5" using all by simp
  then show "tidy st'" by (rule tidy_fields) (use all in \<open>auto simp: st5(1) tents_def gotos_def known_def pads_def tidy_def\<close>)
  show "settles (ends st0) {} st0 st'" "terminated (bbs st') p" using all by (simp_all add: st5(1) settles_def)
qed

lemma emitLandingPad_tidy:
  assumes "emitLandingPad st = Some (pad, st')" "tidy st"
  shows "tidy st'" "settles (ends st) {} st st'" "terminated (bbs st') pad"
proof -
  let ?st2 = "(createLandingPadInst (nextBB st) (snd (insertBB st)))\<lparr>scopebb := nextBB st, ehPtrSlot := True, ehSelectorSlot := True\<rparr>"
  obtain k st3 r st4 where eqs: "iterM (emitCatches (nextBB st)) (rev (tryCatchScopes st)) (currentCleanupScope st, ?st2) = Some (k, st3)"
      "getOrCreateResumeUnwindBlock st3 = Some (r, st4)" "pad = nextBB st" "finishPad pad (scopebb st) k r st4 = Some st'"
    using emitLandingPad_finish [OF assms(1)] by blast
  have "padding st pad False ?st2" using padding_start [OF assms(2)] eqs(3) by simp
  then have "padding st pad (rev (tryCatchScopes st) \<noteq> []) st3" using padding_allCatches [OF eqs(1)] by simp
  from padding_resume [OF eqs(2) this] have p4: "padding st pad (rev (tryCatchScopes st) \<noteq> []) st4" "r \<in> known st4" by simp_all
  moreover have "tryCatchScopes st4 = tryCatchScopes st" using p4(1) by (simp add: padding_def)
  ultimately show "tidy st'" "settles (ends st) {} st st'" "terminated (bbs st') pad"
    using padding_finish [OF eqs(4) p4(1) _ p4(2) assms(2)] by simp_all
qed

lemma emitLandingPad_grows:
  assumes "emitLandingPad st = Some (pad, st')"
  shows "nextBB st \<le> nextBB st'"
proof -
  let ?st2 = "(createLandingPadInst (nextBB st) (snd (insertBB st)))\<lparr>scopebb := nextBB st, ehPtrSlot := True, ehSelectorSlot := True\<rparr>"
  obtain k st3 r st4 where eqs: "iterM (emitCatches (nextBB st)) (rev (tryCatchScopes st)) (currentCleanupScope st, ?st2) = Some (k, st3)"
      "getOrCreateResumeUnwindBlock st3 = Some (r, st4)" "finishPad pad (scopebb st) k r st4 = Some st'"
    using emitLandingPad_finish [OF assms(1)] by blast
  have "nextBB st \<le> nextBB (snd (k, st3))"
    using eqs(1) by (rule iterM_invariant) (auto simp: createLandingPadInst_def dest: emitCatches_grows)
  moreover have "nextBB st3 \<le> nextBB st4" using eqs(2)
    by (auto simp: getOrCreateResumeUnwindBlock_def insertBB_def terminate_def split: option.splits Option.bind_splits if_splits)
  ultimately show ?thesis using finishPad_nextBB [OF eqs(3)] by simp
qed

lemma getLandingPad_grows:
  assumes "getLandingPad st = Some (pad, st')"
  shows "nextBB st \<le> nextBB st'"
  using assms by (auto simp: getLandingPad_def Let_def getLandingPadRef_def split: option.splits Option.bind_splits if_splits dest!: emitLandingPad_grows)

lemma getLandingPad_tidy:
  assumes "getLandingPad st = Some (pad, st')" "tidy st" "wf st"
  shows "tidy st'" "settles (ends st) {} st st'" "terminated (bbs st') pad"
proof -
  let ?n = "length (cleanupScopes st)"
  define st1 where "st1 = getLandingPadRef ?n st"
  have same: "bbs st1 = bbs st" "nextBB st1 = nextBB st" "known st1 = known st" "tents st1 = tents st" "ends st1 = ends st"
    by (simp_all add: st1_def getLandingPadRef_def known_def tents_def gotos_def ends_def)
  have "pads st1 \<subseteq> pads st" using pads_update [of "[None]" "{}" st ?n] by (simp add: pads_def st1_def getLandingPadRef_def)
  then have t1: "tidy st1" using assms(2) by (intro tidy_fields [OF assms(2)]) (simp_all add: same tidy_def)
  have len: "?n < length (landingPadsPerCleanupScope st1)" "landingPadsPerCleanupScope st1 ! ?n \<noteq> []"
    using wf_pads [OF assms(3)] by (simp_all add: st1_def getLandingPadRef_def)
  have "tidy st' \<and> settles (ends st) {} st1 st' \<and> terminated (bbs st') pad"
  proof (cases "last (landingPadsPerCleanupScope st1 ! ?n)")
    case (Some p)
    then have st': "st' = st1" "pad = p" using assms(1) by (simp_all add: getLandingPad_def Let_def currentCleanupScope_def st1_def)
    have "Some p \<in> set (landingPadsPerCleanupScope st1 ! ?n)" using Some last_in_set [OF len(2)] by simp
    then have "p \<in> pads st1" using nth_mem [OF len(1)] by (auto simp: pads_def)
    then show ?thesis using t1 st' by (simp add: tidy_def settles_refl)
  next
    case None
    then obtain st2 where st2: "emitLandingPad st1 = Some (pad, st2)"
        "st' = st2\<lparr>landingPadsPerCleanupScope := (landingPadsPerCleanupScope st2)[?n := butlast (landingPadsPerCleanupScope st2 ! ?n) @ [Some pad]]\<rparr>"
      using assms(1) by (auto simp: getLandingPad_def Let_def currentCleanupScope_def st1_def [symmetric] split: Option.bind_splits)
    note e = emitLandingPad_tidy [OF st2(1) t1]
    have "set (butlast (landingPadsPerCleanupScope st2 ! ?n) @ [Some pad]) \<subseteq> insert None (Some ` {pad} \<union> set (landingPadsPerCleanupScope st2 ! ?n))"
      by (auto dest: in_set_butlastD)
    from pads_update [OF this] have p: "pads st' \<subseteq> insert pad (pads st2)" by (simp add: pads_def st2(2))
    have k: "known st' = known st2" "tents st' = tents st2" "bbs st' = bbs st2" "nextBB st' = nextBB st2"
      by (simp_all add: st2(2) known_def tents_def gotos_def)
    have "tidy st'" using e(1,3) p unfolding tidy_def k by blast
    then show ?thesis using e(2,3) k(3) same(5) by (simp add: settles_def)
  qed
  then show "tidy st'" "settles (ends st) {} st st'" "terminated (bbs st') pad" by (simp_all add: settles_def same(1))
qed

end
