(* ===== verification/OpenBlocks.thy ===== *)
theory OpenBlocks
  imports EmittedPads
begin

text \<open>
  Accounting for the blocks of a function while it is being emitted. At any time the blocks that
  have no terminator are: the block where code is being inserted (unless it has been closed), the
  blocks that the code generator has created and will go on in later, the ends of open cleanups
  and the tentative targets of gotos. Every operation of the code generator keeps the accounts,
  and is a step of the code generator.
\<close>

section \<open>The accounts\<close>

text \<open>
  \<open>W\<close> are the blocks that wait to be filled, \<open>K\<close> blocks that may be branched to, \<open>F\<close> blocks that are
  finished and no end of a cleanup.
\<close>

definition accounted :: "bool \<Rightarrow> BB set \<Rightarrow> BB set \<Rightarrow> BB set \<Rightarrow> 'a TryCatchFinallyScopes_scheme \<Rightarrow> bool" where
  "accounted isOpen W K F st \<longleftrightarrow> good st \<and> tidy st \<and> nextBB st < 2 ^ 32
     \<and> (if isOpen then unterminated (bbs st) (scopebb st) else terminated (bbs st) (scopebb st))
     \<and> (\<forall>b\<in>W. unterminated (bbs st) b) \<and> W \<inter> (ends st \<union> tents st) = {} \<and> scopebb st \<notin> W
     \<and> K \<subseteq> dom (bbs st) - tents st \<and> (\<forall>b\<in>F. terminated (bbs st) b) \<and> F \<inter> ends st = {}
     \<and> {b. unterminated (bbs st) b} \<subseteq> insert (scopebb st) (W \<union> tents st \<union> ends st)"

lemma accountedD:
  assumes "accounted isOpen W K F st"
  shows "good st" "wf st" "tidy st" "nextBB st < 2 ^ 32" "scopebb st \<notin> ends st" "scopebb st \<notin> tents st"
    "b \<in> K \<Longrightarrow> b \<in> dom (bbs st) \<and> b < nextBB st \<and> b \<notin> tents st"
    "b \<in> W \<Longrightarrow> unterminated (bbs st) b \<and> b < nextBB st \<and> b \<notin> tents st \<and> b \<notin> ends st \<and> b \<noteq> scopebb st"
    "b \<in> F \<Longrightarrow> terminated (bbs st) b \<and> b < nextBB st \<and> b \<notin> tents st \<and> b \<notin> ends st"
    "unterminated (bbs st) b \<Longrightarrow> b = scopebb st \<or> b \<in> W \<or> b \<in> tents st \<or> b \<in> ends st"
    "scopereturned st \<longleftrightarrow> \<not> isOpen" "scopebb st < nextBB st" "b \<in> dom (bbs st) \<Longrightarrow> b < nextBB st"
proof -
  note a = assms [unfolded accounted_def]
  show wf: "good st" "wf st" "tidy st" "nextBB st < 2 ^ 32" using a by (auto simp: good_def)
  note wfg = wf_wfg [OF wf(2)]
  show "scopebb st \<notin> ends st" "scopebb st \<notin> tents st" "scopebb st < nextBB st"
    using wfg_scopebb [OF wfg] by auto
  show d: "b \<in> dom (bbs st) \<Longrightarrow> b < nextBB st" for b using wf(3) by (auto simp: tidy_def)
  show "b \<in> K \<Longrightarrow> b \<in> dom (bbs st) \<and> b < nextBB st \<and> b \<notin> tents st" using a d by blast
  show "b \<in> W \<Longrightarrow> unterminated (bbs st) b \<and> b < nextBB st \<and> b \<notin> tents st \<and> b \<notin> ends st \<and> b \<noteq> scopebb st"
    using a d [of b] dom_cases [of b "bbs st"] by blast
  show "b \<in> F \<Longrightarrow> terminated (bbs st) b \<and> b < nextBB st \<and> b \<notin> tents st \<and> b \<notin> ends st"
    using a d [of b] dom_cases [of b "bbs st"] wfg_tent(1) [OF wfg, of b] not_both [of "bbs st" b] by blast
  show "unterminated (bbs st) b \<Longrightarrow> b = scopebb st \<or> b \<in> W \<or> b \<in> tents st \<or> b \<in> ends st" using a by blast
  show "scopereturned st \<longleftrightarrow> \<not> isOpen" using a
    by (cases isOpen) (auto simp: scopereturned_def terminated_def unterminated_def)
qed

lemma accounted_mono: "accounted isOpen W K F st \<Longrightarrow> K' \<subseteq> K \<Longrightarrow> F' \<subseteq> F \<Longrightarrow> accounted isOpen W K' F' st"
  unfolding accounted_def by (elim conjE, intro conjI) (assumption | blast)+

lemma accounted_keep:
  assumes "accounted isOpen W K F st"
  shows "accounted isOpen W (K \<union> W \<union> F \<union> {scopebb st}) F st"
proof -
  note a = accountedD [OF assms]
  have "scopebb st \<in> dom (bbs st)" using assms dom_cases [of "scopebb st" "bbs st"] unfolding accounted_def by (cases isOpen) auto
  moreover have "W \<subseteq> dom (bbs st) - tents st" "F \<subseteq> dom (bbs st) - tents st" using a(8,9) dom_cases [of _ "bbs st"] by blast+
  ultimately have "K \<union> W \<union> F \<union> {scopebb st} \<subseteq> dom (bbs st) - tents st" using a(6) assms unfolding accounted_def by blast
  then show ?thesis using assms unfolding accounted_def by simp
qed

text \<open>The accounts do not depend on what else the state holds.\<close>

lemma accounted_more:
  assumes "accounted isOpen W K F st" "TryCatchFinallyScopes.truncate st' = TryCatchFinallyScopes.truncate st"
  shows "accounted isOpen W K F st'" "codegen st st'"
proof -
  have eq: "st' = st\<lparr>TryCatchFinallyScopes.more := TryCatchFinallyScopes.more st'\<rparr>"
    using assms(2) by (cases st; cases st') (simp add: TryCatchFinallyScopes.truncate_def)
  note a = accountedD [OF assms(1)]
  have s: "step st st'" by (subst eq) (rule step.other)
  have n: "nextBB st' < 2 ^ 32" using a(4) by (subst eq) simp
  show "codegen st st'" by (rule codegen_one [OF s n])
  have g: "good st'" using step_good [OF s a(1) n] by simp
  have f: "bbs st' = bbs st" "scopebb st' = scopebb st" "ends st' = ends st" "tents st' = tents st" "nextBB st' = nextBB st" "known st' = known st" "pads st' = pads st"
    by (subst eq, simp add: ends_def tents_def gotos_def known_def pads_def)+
  have "tidy st'" using a(3) unfolding tidy_def f .
  then show "accounted isOpen W K F st'" using assms(1) g n unfolding accounted_def f by simp
qed

section \<open>The builder\<close>

lemma accounted_insert:
  assumes "accounted isOpen W K F st" "Suc (nextBB st) < 2 ^ 32"
  shows "accounted isOpen (insert (nextBB st) W) (insert (nextBB st) K) F (snd (insertBB st))" "codegen st (snd (insertBB st))"
proof -
  let ?st = "snd (insertBB st)" and ?n = "nextBB st"
  note a = accountedD [OF assms(1)] and one = insertBB_tidy [OF accountedD(3) [OF assms(1)]]
  have n: "nextBB ?st < 2 ^ 32" using assms(2) by (simp add: insertBB_def)
  show "codegen st ?st" by (rule codegen_one [OF step.insert n])
  have g: "good ?st" using step_good [OF step.insert a(1) n] by simp
  have f: "scopebb ?st = scopebb st" "ends ?st = ends st" "tents ?st = tents st" by (simp_all add: insertBB_def ends_def tents_def gotos_def)
  have blk: "unterminated (bbs ?st) b \<longleftrightarrow> unterminated (bbs st) b \<or> b = ?n" "terminated (bbs ?st) b \<longleftrightarrow> terminated (bbs st) b \<and> b \<noteq> ?n" for b
    using one(6) by (auto simp: insertBB_def unterminated_def terminated_def emptyBB_def dom_def)
  have new: "?n \<notin> ends st" "?n \<notin> tents st" "?n \<noteq> scopebb st" "\<not> terminated (bbs st) ?n"
    using one(6) a(12) wfg_end_block(2) [OF wf_wfg [OF a(2)]] wfg_tent(2) [OF wf_wfg [OF a(2)]] dom_cases [of ?n "bbs st"] by auto
  show "accounted isOpen (insert ?n W) (insert ?n K) F ?st"
    unfolding accounted_def f blk using g one(1,3) n new assms(1) unfolding accounted_def by auto
qed

lemma accounted_terminate:
  assumes "accounted isOpen W K F st" "terminate (scopebb st) T st = Some st'" "set (succs T) \<subseteq> K"
  shows "accounted False W K F st'" "codegen st st'" "nextBB st' = nextBB st" "scopebb st' = scopebb st"
    "TryCatchFinallyScopes.more st' = TryCatchFinallyScopes.more st" "pairs st' = pairs st" "tryCatchScopes st' = tryCatchScopes st" "isOpen"
proof -
  note a = accountedD [OF assms(1)] and te = terminate_effect [OF assms(2)]
  have eq: "st' = st\<lparr>bbs := bbs st', nextAlloca := nextAlloca st'\<rparr>" using te(6) by (simp add: onlyBlocks_def)
  have f: "nextBB st' = nextBB st" "scopebb st' = scopebb st" "TryCatchFinallyScopes.more st' = TryCatchFinallyScopes.more st" "pairs st' = pairs st"
      "tryCatchScopes st' = tryCatchScopes st" "ends st' = ends st" "tents st' = tents st" "known st' = known st"
      "landingPadsPerCleanupScope st' = landingPadsPerCleanupScope st"
    by (subst eq, simp add: pairs_def ends_def tents_def gotos_def known_def)+
  show "nextBB st' = nextBB st" "scopebb st' = scopebb st" "TryCatchFinallyScopes.more st' = TryCatchFinallyScopes.more st" "pairs st' = pairs st"
    "tryCatchScopes st' = tryCatchScopes st" by (fact f)+
  have s: "step st st'" by (rule step.finish [OF assms(2) a(5,6)])
  have n: "nextBB st' < 2 ^ 32" using a(4) f(1) by simp
  show "codegen st st'" by (rule codegen_one [OF s n])
  have g: "good st'" using step_good [OF s a(1) n] by simp
  have b: "blockwise {scopebb st} K st st'" by (rule blockwise_terminate [OF assms(2) _ assms(3)]) simp
  have kd: "K \<subseteq> dom (bbs st)" "known st' \<subseteq> dom (bbs st)" using a(3,7) f(8) by (auto simp: tidy_def)
  have t: "tidy st'" by (rule tidy_blockwise [OF a(3) b kd f(7,1,9)])
  show isOpen using te(5) assms(1) not_both by (auto simp: accounted_def split: if_splits)
  have U: "{b. unterminated (bbs st') b} \<subseteq> insert (scopebb st) (W \<union> tents st \<union> ends st)"
    using b a(10) unfolding blockwise_def settles_def by blast
  have "\<forall>b\<in>W. unterminated (bbs st') b" "\<forall>b\<in>F. terminated (bbs st') b" "dom (bbs st') = dom (bbs st)"
    using a(8,9) b unfolding blockwise_def settles_def by blast+
  then show "accounted False W K F st'" using assms(1) g t n te(4) U unfolding accounted_def f by simp
qed

lemma accounted_moved:
  assumes "good st" "tidy st" "nextBB st < 2 ^ 32" "b < nextBB st" "b \<notin> ends st" "b \<notin> tents st"
  shows "codegen st (st\<lparr>scopebb := b\<rparr>)" "good (st\<lparr>scopebb := b\<rparr>)" "tidy (st\<lparr>scopebb := b\<rparr>)" "ends (st\<lparr>scopebb := b\<rparr>) = ends st" "tents (st\<lparr>scopebb := b\<rparr>) = tents st"
proof -
  have s: "step st (st\<lparr>scopebb := b\<rparr>)" by (rule step.move [OF assms(4-6)])
  show "codegen st (st\<lparr>scopebb := b\<rparr>)" by (rule codegen_one [OF s]) (use assms(3) in simp)
  show "good (st\<lparr>scopebb := b\<rparr>)" using step_good [OF s assms(1)] assms(3) by simp
  show "ends (st\<lparr>scopebb := b\<rparr>) = ends st" "tents (st\<lparr>scopebb := b\<rparr>) = tents st" by (simp_all add: ends_def tents_def gotos_def)
  show "tidy (st\<lparr>scopebb := b\<rparr>)"
    by (rule tidy_fields [OF assms(2)]) (use assms(2) in \<open>auto simp: tidy_def tents_def gotos_def known_def pads_def\<close>)
qed

lemma accounted_move:
  assumes "accounted False (insert b W) K F st" "b \<notin> W"
  shows "accounted True W K F (st\<lparr>scopebb := b\<rparr>)" "codegen st (st\<lparr>scopebb := b\<rparr>)"
proof -
  note a = accountedD [OF assms(1)]
  have b: "unterminated (bbs st) b" "b < nextBB st" "b \<notin> tents st" "b \<notin> ends st" using a(8) [of b] by auto
  note m = accounted_moved [OF a(1,3,4) b(2,4,3)]
  show "codegen st (st\<lparr>scopebb := b\<rparr>)" by (rule m(1))
  have "\<not> unterminated (bbs st) (scopebb st)" using assms(1) not_both by (auto simp: accounted_def)
  then show "accounted True W K F (st\<lparr>scopebb := b\<rparr>)"
    using assms b m(2,3) unfolding accounted_def m(4,5) by auto
qed

lemma accounted_revisit:
  assumes "accounted False W K F st" "b \<in> F"
  shows "accounted False W K F (st\<lparr>scopebb := b\<rparr>)" "codegen st (st\<lparr>scopebb := b\<rparr>)"
proof -
  note a = accountedD [OF assms(1)]
  have b: "terminated (bbs st) b" "b < nextBB st" "b \<notin> tents st" "b \<notin> ends st" using a(9) [OF assms(2)] by auto
  note m = accounted_moved [OF a(1,3,4) b(2,4,3)]
  show "codegen st (st\<lparr>scopebb := b\<rparr>)" by (rule m(1))
  have "\<not> unterminated (bbs st) (scopebb st)" "\<not> unterminated (bbs st) b" using assms(1) b(1) not_both by (auto simp: accounted_def)
  then show "accounted False W K F (st\<lparr>scopebb := b\<rparr>)"
    using assms b m(2,3) unfolding accounted_def m(4,5) by auto
qed

lemma accounted_swap:
  assumes "accounted True (insert b W) K F st" "b \<notin> W"
  shows "accounted True (insert (scopebb st) W) K F (st\<lparr>scopebb := b\<rparr>)" "codegen st (st\<lparr>scopebb := b\<rparr>)"
proof -
  note a = accountedD [OF assms(1)]
  have b: "unterminated (bbs st) b" "b < nextBB st" "b \<notin> tents st" "b \<notin> ends st" "b \<noteq> scopebb st" using a(8) [of b] by auto
  note m = accounted_moved [OF a(1,3,4) b(2,4,3)]
  show "codegen st (st\<lparr>scopebb := b\<rparr>)" by (rule m(1))
  show "accounted True (insert (scopebb st) W) K F (st\<lparr>scopebb := b\<rparr>)"
    using assms b a(5,6) m(2,3) unfolding accounted_def m(4,5) by auto
qed

section \<open>Scopes\<close>

lemma accounted_settles:
  assumes "accounted isOpen W K F st" "good st'" "tidy st'" "nextBB st' < 2 ^ 32" "settles E U st st'" "E \<subseteq> insert (scopebb st) (ends st)" "U \<subseteq> tents st'"
    "tents st \<subseteq> tents st'" "tents st' \<subseteq> tents st \<union> {nextBB st..}" "ends st' \<subseteq> ends st" "\<forall>e\<in>ends st - ends st'. terminated (bbs st') e"
    "scopebb st' = scopebb st" "if isOpen' then unterminated (bbs st') (scopebb st) else terminated (bbs st') (scopebb st)"
  shows "accounted isOpen' W K F st'"
proof -
  note a = accountedD [OF assms(1)] and s = assms(5) [unfolded settles_def]
  have "\<forall>b\<in>W. unterminated (bbs st') b" using a(8) s assms(6) by blast
  moreover have "W \<inter> (ends st' \<union> tents st') = {}" using a(8) assms(9,10) by fastforce
  moreover have "K \<subseteq> dom (bbs st') - tents st'" using a(7) s assms(9) by fastforce
  moreover have "\<forall>b\<in>F. terminated (bbs st') b" "F \<inter> ends st' = {}" using a(9) s assms(10) by blast+
  moreover have "{b. unterminated (bbs st') b} \<subseteq> insert (scopebb st) (W \<union> tents st' \<union> ends st')"
    using s a(10) assms(7,8,11) not_both by blast
  ultimately show ?thesis using assms unfolding accounted_def by simp
qed

lemma popCleanups_scopebb:
  assumes "popCleanups z st = Some st'"
  shows "scopebb st' = scopebb st"
proof -
  have one: "scopebb st' = scopebb st" if r: "rerouteGoto i g st = Some st'" for i g and st st' :: "'a TryCatchFinallyScopes_scheme"
  proof -
    obtain st3 where st3: "runScope i (sourceBlock g) (tentativeTarget g) (replaceAllUsesWith (tentativeTarget g) (nextBB st) (snd (insertBB st))) = Some st3"
        "st' = eraseFromParent (nextBB st) (replaceAllUsesWith (nextBB st) (beginBlock (cleanupScopes st3 ! i)) st3)"
      using r by (auto simp: rerouteGoto_def insertBB_def Let_def split: Option.bind_splits)
    obtain c st4 where "run (cleanupScopes (replaceAllUsesWith (tentativeTarget g) (nextBB st) (snd (insertBB st))) ! i) (sourceBlock g) (tentativeTarget g)
        (replaceAllUsesWith (tentativeTarget g) (nextBB st) (snd (insertBB st))) = Some (c, st4)" "scopebb st3 = scopebb st4"
      using st3(1) by (auto simp: runScope_def split: Option.bind_splits if_splits)
    moreover from ranBlocks_run [OF this(1)] have "scopebb st4 = scopebb st"
      unfolding ranBlocks_def onlyBlocks_def by (elim conjE) (metis IRState.select_convs IRState.surjective IRState.update_convs insertBB_same rauw_same)
    ultimately show ?thesis by (simp add: st3(2))
  qed
  have "scopebb st' = scopebb st" if p: "popScope i st = Some st'" for i and st st' :: "'a TryCatchFinallyScopes_scheme"
  proof -
    obtain st1 where st1: "iterM (rerouteGoto i) (currentUnresolvedGotos st) st = Some st1" "st' = dropScope i st1"
      using p by (auto simp: popScope_drop)
    have "scopebb st1 = scopebb st" using st1(1) by (rule iterM_invariant) (auto dest: one)
    then show ?thesis by (simp add: st1(2) dropScope_def)
  qed
  then show ?thesis using assms unfolding popCleanups_def by (auto split: if_splits elim!: iterM_invariant)
qed

definition ranFrom :: "nat \<Rightarrow> 'a TryCatchFinallyScopes_scheme \<Rightarrow> bool" where
  "ranFrom z st \<longleftrightarrow> (\<forall>e\<in>snd ` set (drop z (pairs st)). terminated (bbs st) e)"

lemma popCleanups_grows: "popCleanups z st = Some st' \<Longrightarrow> nextBB st \<le> nextBB st'"
  by (auto simp: popCleanups_def split: if_splits elim!: iterM_invariant dest: popScope_grows(1))

lemma accounted_pop:
  assumes "accounted isOpen W K F st" "popCleanups z st = Some st'" "ranFrom z st" "\<forall>tc\<in>set (tryCatchScopes st). cleanupScope tc \<le> z" "nextBB st' < 2 ^ 32"
  shows "accounted isOpen W K F st'" "codegen st st'" "pairs st' = take z (pairs st)" "tryCatchScopes st' = tryCatchScopes st"
    "TryCatchFinallyScopes.more st' = TryCatchFinallyScopes.more st"
proof -
  note a = accountedD [OF assms(1)]
  note p = popCleanups_step [OF assms(2) a(2) assms(5)] and t = popCleanups_tidy [OF assms(2) a(3,2) assms(5)]
  show pr: "pairs st' = take z (pairs st)" by (rule p(2))
  show "tryCatchScopes st' = tryCatchScopes st" "TryCatchFinallyScopes.more st' = TryCatchFinallyScopes.more st"
    using popCleanups_shape(1) [OF assms(2)] by (simp_all add: popped_def)
  have s: "step st st'" by (rule step.pop [OF assms(2,4)])
  show "codegen st st'" by (rule codegen_one [OF s assms(5)])
  have g: "good st'" using step_good [OF s a(1) assms(5)] by simp
  have sb: "scopebb st' = scopebb st" by (rule popCleanups_scopebb [OF assms(2)])
  have e: "ends st' \<subseteq> ends st" unfolding ends_pairs pr by (auto dest: in_set_takeD)
  have "ends st = snd ` (set (take z (pairs st)) \<union> set (drop z (pairs st)))" unfolding ends_pairs by (simp add: set_append [symmetric] del: set_append)
  then have "ends st - ends st' \<subseteq> snd ` set (drop z (pairs st))" unfolding ends_pairs pr by auto
  then have gone: "\<forall>e\<in>ends st - ends st'. terminated (bbs st') e" using assms(3) t(2) unfolding ranFrom_def settles_def by blast
  have "if isOpen then unterminated (bbs st') (scopebb st) else terminated (bbs st') (scopebb st)"
    using assms(1) a(5) t(2) unfolding accounted_def settles_def by (cases isOpen) auto
  then show "accounted isOpen W K F st'"
    by (intro accounted_settles [OF assms(1) g t(1) assms(5) t(2) _ _ _ _ e gone sb]) (use p(7) in auto)
qed

lemma accounted_run:
  assumes "accounted isOpen W K F st" "runCleanups z u st = Some st'" "u \<in> K"
  shows "accounted False W K F st'" "codegen st st'" "pairs st' = pairs st" "tryCatchScopes st' = tryCatchScopes st"
    "TryCatchFinallyScopes.more st' = TryCatchFinallyScopes.more st" "nextBB st' = nextBB st" "ranFrom z st'" "scopebb st' = scopebb st" "isOpen"
proof -
  note a = accountedD [OF assms(1)]
  have r: "runCleanups_from (length (cleanupScopes st)) z u st = Some st'" using assms(2) by (simp add: runCleanups_def currentCleanupScope_def)
  have u: "u < nextBB st" "u \<notin> tents st" "u \<in> dom (bbs st)" using a(7) [OF assms(3)] by auto
  note p = runCleanups_from_step [OF r a(2,4) u(1,2) order_refl] and t = runCleanups_from_tidy [OF r a(3) u(3)]
  note sh = runCleanups_from_shape(2) [OF r]
  show "pairs st' = pairs st" "nextBB st' = nextBB st" "scopebb st' = scopebb st" by (fact p)+
  show "tryCatchScopes st' = tryCatchScopes st" "TryCatchFinallyScopes.more st' = TryCatchFinallyScopes.more st" using sh by (simp_all add: sameScopes_def)
  have n: "nextBB st' < 2 ^ 32" using a(4) p(4) by simp
  have s: "step st st'" by (rule step.runs [OF assms(2) u(1,2)])
  show "codegen st st'" by (rule codegen_one [OF s n])
  have g: "good st'" using step_good [OF s a(1) n] by simp
  have "drop z (take (length (cleanupScopes st)) (pairs st)) = drop z (pairs st')" using p(2) by simp
  then show "ranFrom z st'" using settled_terminated [OF p(7) p(1)] unfolding ranFrom_def by simp
  show isOpen using t(3) assms(1) not_both by (auto simp: accounted_def split: if_splits)
  have st: "settles (insert (scopebb st) (ends st)) {} st st'" using t(1) by (simp add: ranAll_def blockwise_def)
  have "ends st' = ends st" "tents st' = tents st" using p(2,3) by (simp_all add: ends_pairs tents_def)
  then show "accounted False W K F st'" using t(1,2)
    by (intro accounted_settles [OF assms(1) g _ n st _ _ _ _ _ _ p(5)]) (auto simp: ranAll_def)
qed

lemma accounted_push:
  assumes "accounted True (insert n W) K F st" "n \<notin> W" "b \<in> K" "e = scopebb st"
  shows "accounted True W K F ((pushCleanup b e st)\<lparr>scopebb := n\<rparr>)" "codegen st ((pushCleanup b e st)\<lparr>scopebb := n\<rparr>)"
proof -
  let ?st = "(pushCleanup b e st)\<lparr>scopebb := n\<rparr>"
  note a = accountedD [OF assms(1)]
  have e: "unterminated (bbs st) e" "e \<notin> ends st" "e \<notin> tents st" using assms(1,4) a(5,6) by (auto simp: accounted_def)
  have n: "unterminated (bbs st) n" "n < nextBB st" "n \<notin> tents st" "n \<notin> ends st" "n \<noteq> e" using a(8) [of n] assms(4) by auto
  have b: "b < nextBB st" "b \<notin> tents st" "b \<in> dom (bbs st)" using a(7) [OF assms(3)] by auto
  have s: "step st ?st" by (rule step.push [OF e b(1,2) n(2,4,5,3)])
  have nb: "nextBB ?st < 2 ^ 32" using a(4) by (simp add: pushCleanup_def)
  show "codegen st ?st" by (rule codegen_one [OF s nb])
  have g: "good ?st" using step_good [OF s a(1) nb] by simp
  have "e \<in> dom (bbs st)" using e(1) dom_cases by blast
  then have t: "tidy ?st" using pushCleanup_tidy [OF a(3) b(3)] by simp
  have f: "ends ?st = insert e (ends st)" "tents ?st = tents st" "bbs ?st = bbs st" "nextBB ?st = nextBB st" "scopebb ?st = n"
    by (auto simp: pushCleanup_def ends_def newCleanupScope_def tents_def gotos_def)
  have "e \<notin> F" "e \<notin> W" using a(9) not_both e(1) a(8) [of e] assms(4) by blast+
  then show "accounted True W K F ?st" using assms n e g t a(4) unfolding accounted_def f by auto
qed

lemma accounted_goto:
  assumes "accounted isOpen W K F st" "registerUnresolvedGoto loc l st = Some st'" "nextBB st' < 2 ^ 32"
  shows "accounted False W K F st'" "codegen st st'" "pairs st' = pairs st" "tryCatchScopes st' = tryCatchScopes st"
    "TryCatchFinallyScopes.more st' = TryCatchFinallyScopes.more st" "nextBB st' = Suc (nextBB st)" "isOpen"
proof -
  note a = accountedD [OF assms(1)]
  note p = registerUnresolvedGoto_step [OF assms(2) a(2)] and t = registerUnresolvedGoto_tidy [OF assms(2) a(3,2)]
  show "pairs st' = pairs st" "nextBB st' = Suc (nextBB st)" by (fact p)+
  show "tryCatchScopes st' = tryCatchScopes st" "TryCatchFinallyScopes.more st' = TryCatchFinallyScopes.more st"
    using registerUnresolvedGoto_shape [OF assms(2)] by simp_all
  have s: "step st st'" by (rule step.goto [OF assms(2)])
  show "codegen st st'" by (rule codegen_one [OF s assms(3)])
  have g: "good st'" using step_good [OF s a(1) assms(3)] by simp
  show isOpen using t(4) assms(1) not_both by (auto simp: accounted_def split: if_splits)
  have "ends st' = ends st" using p(2) by (simp add: ends_pairs)
  then show "accounted False W K F st'" using t(3,5)
    by (intro accounted_settles [OF assms(1) g t(1) assms(3) t(2) _ _ _ _ _ _ p(5)]) auto
qed

lemma accounted_resolve:
  assumes "accounted isOpen W K F st" "b \<in> K"
  shows "accounted isOpen W K F (tryResolveGotos l b st)" "codegen st (tryResolveGotos l b st)" "pairs (tryResolveGotos l b st) = pairs st"
    "nextBB (tryResolveGotos l b st) = nextBB st" "scopebb (tryResolveGotos l b st) = scopebb st"
proof -
  let ?st = "tryResolveGotos l b st"
  note a = accountedD [OF assms(1)]
  have b: "b < nextBB st" "b \<notin> tents st" "b \<in> dom (bbs st)" using a(7) [OF assms(2)] by auto
  note p = tryResolveGotos_step [OF a(2) b(1,2), where l = l] and t = tryResolveGotos_tidy [OF a(1,3) b(3,2), where l = l]
  show pr: "pairs ?st = pairs st" "nextBB ?st = nextBB st" "scopebb ?st = scopebb st" by (fact p)+
  have s: "step st ?st" by (rule step.resolve [OF b(1,2)])
  have n: "nextBB ?st < 2 ^ 32" using a(4) p(4) by simp
  show "codegen st ?st" by (rule codegen_one [OF s n])
  have g: "good ?st" using step_good [OF s a(1) n] by simp
  have e: "ends ?st = ends st" using pr(1) by (simp add: ends_pairs)
  have dom: "K \<subseteq> dom (bbs ?st) - tents ?st" using a(7) t(4) dom_cases [of _ "bbs st"] dom_cases [of _ "bbs ?st"] t(2,3) by blast
  have un: "unterminated (bbs ?st) b \<longleftrightarrow> unterminated (bbs st) b" if "b \<notin> tents st" for b using t(3) that by blast
  have "{b. unterminated (bbs ?st) b} \<subseteq> insert (scopebb st) (W \<union> tents ?st \<union> ends st)" using t(3) a(10) by blast
  then show "accounted isOpen W K F ?st"
    using assms(1) g t(1) n dom un [OF a(6)] un a(8) t(2,4) unfolding accounted_def e pr by auto
qed

lemma accounted_pushTry:
  assumes "accounted isOpen W K F st" "bodyBB ` set blocks \<subseteq> K"
  shows "accounted isOpen W K F (pushTryCatch blocks nx st)" "codegen st (pushTryCatch blocks nx st)"
proof -
  let ?st = "pushTryCatch blocks nx st"
  note a = accountedD [OF assms(1)]
  have b: "\<forall>cb\<in>set blocks. bodyBB cb < nextBB st \<and> bodyBB cb \<notin> tents st" "bodyBB ` set blocks \<subseteq> dom (bbs st)" using a(7) assms(2) by blast+
  have s: "step st ?st" by (rule step.pushTry [OF b(1)])
  have f: "nextBB ?st = nextBB st" "bbs ?st = bbs st" "scopebb ?st = scopebb st" "ends ?st = ends st" "tents ?st = tents st"
    by (simp_all add: pushTryCatch_def Let_def ends_def tents_def gotos_def)
  have n: "nextBB ?st < 2 ^ 32" using a(4) f(1) by simp
  show "codegen st ?st" by (rule codegen_one [OF s n])
  have g: "good ?st" using step_good [OF s a(1) n] by simp
  show "accounted isOpen W K F ?st" using assms(1) g pushTryCatch_tidy [OF a(3) b(2)] unfolding accounted_def f by simp
qed

lemma accounted_popTry:
  assumes "accounted isOpen W K F st" "popTryCatch st = Some st'" "cleanupScope (last (tryCatchScopes st)) = length (pairs st)"
  shows "accounted isOpen W K F st'" "codegen st st'" "pairs st' = pairs st" "tryCatchScopes st' = butlast (tryCatchScopes st)"
    "TryCatchFinallyScopes.more st' = TryCatchFinallyScopes.more st" "nextBB st' = nextBB st" "scopebb st' = scopebb st"
proof -
  note a = accountedD [OF assms(1)]
  have s: "step st st'" by (rule step.popTry [OF assms(2)]) (simp add: assms(3) currentCleanupScope_def)
  have f: "nextBB st' = nextBB st" "bbs st' = bbs st" "scopebb st' = scopebb st" "ends st' = ends st" "tents st' = tents st" "pairs st' = pairs st"
      "tryCatchScopes st' = butlast (tryCatchScopes st)" "TryCatchFinallyScopes.more st' = TryCatchFinallyScopes.more st"
    using assms(2) by (simp_all add: popTryCatch_def Let_def ends_def tents_def gotos_def pairs_def split: if_splits) (clarsimp simp: ends_def tents_def gotos_def pairs_def)+
  show "pairs st' = pairs st" "tryCatchScopes st' = butlast (tryCatchScopes st)" "TryCatchFinallyScopes.more st' = TryCatchFinallyScopes.more st"
    "nextBB st' = nextBB st" "scopebb st' = scopebb st" by (fact f)+
  have n: "nextBB st' < 2 ^ 32" using a(4) f(1) by simp
  show "codegen st st'" by (rule codegen_one [OF s n])
  have g: "good st'" using step_good [OF s a(1) n] by simp
  show "accounted isOpen W K F st'" using assms(1) g popTryCatch_tidy [OF assms(2) a(3)] unfolding accounted_def f by simp
qed

lemma accounted_pad:
  assumes "accounted isOpen W K F st" "getLandingPad st = Some (pad, st')" "nextBB st' < 2 ^ 32"
  shows "accounted isOpen W (insert pad K) F st'" "codegen st st'" "pairs st' = pairs st" "tryCatchScopes st' = tryCatchScopes st"
    "TryCatchFinallyScopes.more st' = TryCatchFinallyScopes.more st" "scopebb st' = scopebb st"
proof -
  note a = accountedD [OF assms(1)]
  have p0: "padsOK st" using a(1) by (simp add: good_def)
  note p = getLandingPad_step [OF assms(2) a(2) p0 assms(3)] and t = getLandingPad_tidy [OF assms(2) a(3,2)]
  show pr: "pairs st' = pairs st" using p(1) by (simp add: steady_def)
  show "tryCatchScopes st' = tryCatchScopes st" "TryCatchFinallyScopes.more st' = TryCatchFinallyScopes.more st" "scopebb st' = scopebb st" by (fact p)+
  have s: "step st st'" by (rule step.pad [OF assms(2)])
  show "codegen st st'" by (rule codegen_one [OF s assms(3)])
  have g: "good st'" using step_good [OF s a(1) assms(3)] by simp
  have e: "ends st' = ends st" "tents st' = tents st" using steady_same [OF p(1)] by simp_all
  have "if isOpen then unterminated (bbs st') (scopebb st) else terminated (bbs st') (scopebb st)"
    using assms(1) a(5) t(2) unfolding accounted_def settles_def by (cases isOpen) auto
  then have acc: "accounted isOpen W K F st'"
    by (intro accounted_settles [OF assms(1) g t(1) assms(3) t(2) _ _ _ _ _ _ p(3)]) (auto simp: e)
  have "pad \<in> dom (bbs st')" "pad \<notin> tents st'"
    using t(3) dom_cases not_both wfg_tent(1) [OF wf_wfg [OF accountedD(2) [OF acc]]] by blast+
  then show "accounted isOpen W (insert pad K) F st'" using acc unfolding accounted_def by simp
qed

lemma callOrInvoke_grows: "callOrInvoke x f nt st = Some (c, st') \<Longrightarrow> nextBB st \<le> nextBB st'"
  by (auto simp: callOrInvoke_def insertBB_def terminate_def Let_def split: Option.bind_splits if_splits dest!: getLandingPad_grows)

lemma accounted_call:
  assumes "accounted True W K F st" "callOrInvoke x f nt st = Some (c, st')" "nextBB st' < 2 ^ 32"
  shows "accounted True W K F st'" "codegen st st'" "pairs st' = pairs st" "tryCatchScopes st' = tryCatchScopes st"
    "TryCatchFinallyScopes.more st' = TryCatchFinallyScopes.more st"
proof -
  have "accounted True W K F st' \<and> codegen st st' \<and> pairs st' = pairs st \<and> tryCatchScopes st' = tryCatchScopes st
    \<and> TryCatchFinallyScopes.more st' = TryCatchFinallyScopes.more st"
  proof (cases "doesNotThrow x f nt st \<or> scopes_empty st")
    case True
    then show ?thesis using assms by (simp add: callOrInvoke_def codegen.refl)
  next
    case False
    then obtain pad st1 st3 where eqs: "getLandingPad st = Some (pad, st1)"
        "terminate (scopebb (snd (insertBB st1))) (InvokeInst (nextBB st1) pad) (snd (insertBB st1)) = Some st3" "st' = st3\<lparr>scopebb := nextBB st1\<rparr>"
      using assms(2) by (auto simp: callOrInvoke_def insertBB_def Let_def split: Option.bind_splits)
    let ?st2 = "snd (insertBB st1)" and ?n = "nextBB st1"
    have n3: "nextBB st3 = Suc ?n" using eqs(2) by (auto simp: terminate_def insertBB_def split: Option.bind_splits if_splits)
    have nb: "Suc ?n < 2 ^ 32" "nextBB st1 < 2 ^ 32" using assms(3) n3 by (simp_all add: eqs(3))
    note p = accounted_pad [OF assms(1) eqs(1) nb(2)]
    note i = accounted_insert [OF p(1) nb(1)]
    note t = accounted_terminate [OF i(1) eqs(2)]
    have t': "accounted False (insert ?n W) (insert ?n (insert pad K)) F st3" by (rule t(1)) simp
    have nW: "?n \<notin> W" using accountedD(8) [OF p(1)] by blast
    note m = accounted_move [OF t' nW]
    have "accounted True W K F st'" unfolding eqs(3) by (rule accounted_mono [OF m(1)]) auto
    moreover have "codegen st st'" unfolding eqs(3)
      using codegen_trans [OF m(2) codegen_trans [OF t(2) codegen_trans [OF i(2) p(2)]]] by simp
    moreover have "pairs st' = pairs st" "tryCatchScopes st' = tryCatchScopes st" "TryCatchFinallyScopes.more st' = TryCatchFinallyScopes.more st"
      using p(3-5) t(5-7) unfolding eqs(3) by (simp_all add: pairs_def insertBB_def)
    ultimately show ?thesis by simp
  qed
  then show "accounted True W K F st'" "codegen st st'" "pairs st' = pairs st" "tryCatchScopes st' = tryCatchScopes st"
    "TryCatchFinallyScopes.more st' = TryCatchFinallyScopes.more st" by simp_all
qed

text \<open>A waiting block can be closed while code is inserted elsewhere.\<close>

lemma accounted_terminateWaiting:
  assumes "accounted isOpen (insert b W) K F st" "b \<notin> W" "terminate b T st = Some st'" "set (succs T) \<subseteq> K"
  shows "accounted isOpen W K F st'" "codegen st st'" "nextBB st' = nextBB st" "scopebb st' = scopebb st"
    "TryCatchFinallyScopes.more st' = TryCatchFinallyScopes.more st" "pairs st' = pairs st" "tryCatchScopes st' = tryCatchScopes st"
proof -
  note a = accountedD [OF assms(1)] and te = terminate_effect [OF assms(3)]
  have b: "b \<notin> ends st" "b \<notin> tents st" "b \<noteq> scopebb st" using a(8) [of b] by auto
  have eq: "st' = st\<lparr>bbs := bbs st', nextAlloca := nextAlloca st'\<rparr>" using te(6) by (simp add: onlyBlocks_def)
  have f: "nextBB st' = nextBB st" "scopebb st' = scopebb st" "TryCatchFinallyScopes.more st' = TryCatchFinallyScopes.more st" "pairs st' = pairs st"
      "tryCatchScopes st' = tryCatchScopes st" "ends st' = ends st" "tents st' = tents st" "known st' = known st"
      "landingPadsPerCleanupScope st' = landingPadsPerCleanupScope st"
    by (subst eq, simp add: pairs_def ends_def tents_def gotos_def known_def)+
  show "nextBB st' = nextBB st" "scopebb st' = scopebb st" "TryCatchFinallyScopes.more st' = TryCatchFinallyScopes.more st" "pairs st' = pairs st"
    "tryCatchScopes st' = tryCatchScopes st" by (fact f)+
  have s: "step st st'" by (rule step.finish [OF assms(3) b(1,2)])
  have n: "nextBB st' < 2 ^ 32" using a(4) f(1) by simp
  show "codegen st st'" by (rule codegen_one [OF s n])
  have g: "good st'" using step_good [OF s a(1) n] by simp
  have bw: "blockwise {b} K st st'" by (rule blockwise_terminate [OF assms(3) _ assms(4)]) simp
  have kd: "K \<subseteq> dom (bbs st)" "known st' \<subseteq> dom (bbs st)" using a(3,7) f(8) by (auto simp: tidy_def)
  have t: "tidy st'" by (rule tidy_blockwise [OF a(3) bw kd f(7,1,9)])
  have U: "{x. unterminated (bbs st') x} \<subseteq> insert (scopebb st) (W \<union> tents st \<union> ends st)"
    using bw a(10) not_both [OF te(4)] unfolding blockwise_def settles_def by blast
  have "\<forall>x\<in>W. unterminated (bbs st') x" "\<forall>x\<in>F. terminated (bbs st') x" "dom (bbs st') = dom (bbs st)"
    using a(8,9) bw assms(2) unfolding blockwise_def settles_def by blast+
  moreover have "if isOpen then unterminated (bbs st') (scopebb st) else terminated (bbs st') (scopebb st)"
    using assms(1) bw b(3) unfolding accounted_def blockwise_def settles_def by (cases isOpen) auto
  ultimately show "accounted isOpen W K F st'" using assms(1) g t n U unfolding accounted_def f by simp
qed

end
