(* ===== verification/StatementRules.thy ===== *)
theory StatementRules
  imports OpenBlocks "HOL-Library.Multiset"
begin

text \<open>
  Rules for the emission of code, in the style of a Hoare logic: an assertion says which blocks
  are open, which wait, which case statements are still ahead, and what the stacks of scopes
  and jump targets are. Every method of the builder and of the scopes has a rule.
\<close>

section \<open>Assertions\<close>

text \<open>Can the current block take more code?\<close>

datatype flow = Opened | Closed | Either

fun flowing :: "flow \<Rightarrow> bool \<Rightarrow> bool" where
  "flowing Opened isOpen = isOpen"
| "flowing Closed isOpen = (\<not> isOpen)"
| "flowing Either isOpen = True"

text \<open>
  What stays fixed: the addresses of the case statements of the switch around the code
  (\<open>casesHere\<close>), and the addresses for which blocks may be created at all (\<open>mayCreate\<close>); for all others
  the table of case targets is \<open>tableBefore\<close>. The stacks of scopes and targets are \<open>stacks\<close>.
\<close>

record ghost =
  casesHere :: "ptr set"
  mayCreate :: "ptr set"
  tableBefore :: "ptr \<rightharpoonup> BB"

record stacks =
  cleanups :: "(BB \<times> BB) list"
  tries :: "TryCatchScope list"
  breaks :: "JumpTarget list"
  continues :: "JumpTarget list"

definition ahead :: "ptr set \<Rightarrow> ToIRState \<Rightarrow> BB set" where
  "ahead C st = {b. \<exists>p\<in>C. targetBBs st p = Some b}"

definition held :: "ToIRState \<Rightarrow> BB set" where
  "held st = targetBlock ` (Map.ran (labelTargets st) \<union> set (breakTargets st) \<union> set (continueTargets st)) \<union> Map.ran (targetBBs st)"

text \<open>
  \<open>C\<close> are the case statements that are still ahead, \<open>Z\<close> those of switches that have not begun; \<open>M\<close>
  the blocks that wait, \<open>K\<close> blocks that can be branched to.
\<close>

definition balanced :: "flow \<Rightarrow> BB multiset \<Rightarrow> BB set \<Rightarrow> ptr set \<Rightarrow> ToIRState \<Rightarrow> bool" where
  "balanced fl M K C st \<longleftrightarrow>
     (\<exists>isOpen. flowing fl isOpen \<and> accounted isOpen (set_mset M \<union> ahead C st) (K \<union> held st) (set_option (retBlock st)) st)
   \<and> (\<forall>b. count M b \<le> 1) \<and> set_mset M \<inter> ahead C st = {}"

definition tableOK :: "ghost \<Rightarrow> ptr set \<Rightarrow> ptr set \<Rightarrow> (ptr \<rightharpoonup> BB) \<Rightarrow> bool" where
  "tableOK \<Gamma> C Z table \<longleftrightarrow>
     C \<subseteq> casesHere \<Gamma> \<and> casesHere \<Gamma> - C \<subseteq> dom table \<and> casesHere \<Gamma> \<inter> Z = {} \<and> casesHere \<Gamma> \<union> Z \<subseteq> mayCreate \<Gamma>
   \<and> inj_on table (dom table) \<and> (\<forall>p\<in>Z. table p = None) \<and> (\<forall>p. p \<notin> mayCreate \<Gamma> \<longrightarrow> table p = tableBefore \<Gamma> p)"

definition stacksOK :: "stacks \<Rightarrow> ToIRState \<Rightarrow> bool" where
  "stacksOK X st \<longleftrightarrow> pairs st = cleanups X \<and> tryCatchScopes st = tries X \<and> breakTargets st = breaks X \<and> continueTargets st = continues X"

definition asrt :: "ghost \<Rightarrow> ptr set \<Rightarrow> ptr set \<Rightarrow> flow \<Rightarrow> BB multiset \<Rightarrow> BB set \<Rightarrow> stacks \<Rightarrow> ToIRState \<Rightarrow> bool" where
  "asrt \<Gamma> C Z fl M K X st \<longleftrightarrow> balanced fl M K C st \<and> tableOK \<Gamma> C Z (targetBBs st) \<and> stacksOK X st"

text \<open>
  The code generator got from \<open>st\<close> to \<open>st'\<close>; unless the function has become too large, \<open>Q\<close> holds there.
\<close>

definition emitted :: "ToIRState \<Rightarrow> (ToIRState \<Rightarrow> bool) \<Rightarrow> ToIRState \<Rightarrow> bool" where
  "emitted st Q st' \<longleftrightarrow> nextBB st \<le> nextBB st' \<and> (nextBB st' < 2 ^ 32 \<longrightarrow> Q st' \<and> codegen st st')"

lemma emitted_refl: "(nextBB st < 2 ^ 32 \<Longrightarrow> Q st) \<Longrightarrow> emitted st Q st"
  by (simp add: emitted_def codegen.refl)

lemma emitted_step:
  assumes "emitted st Q st1" "nextBB st1 \<le> nextBB st2" "Q st1 \<Longrightarrow> nextBB st1 < 2 ^ 32 \<Longrightarrow> nextBB st2 < 2 ^ 32 \<Longrightarrow> Q' st2 \<and> codegen st1 st2"
  shows "emitted st Q' st2"
  using assms codegen_trans [of st1 st2 st] unfolding emitted_def by auto

lemma emitted_trans: "emitted st Q st1 \<Longrightarrow> emitted st1 Q' st2 \<Longrightarrow> emitted st Q' st2"
  by (erule emitted_step) (auto simp: emitted_def)

lemma emitted_weaken: "emitted st Q st' \<Longrightarrow> (Q st' \<Longrightarrow> Q' st') \<Longrightarrow> emitted st Q' st'"
  by (auto simp: emitted_def)

lemma emitted_here: "emitted st Q st' \<Longrightarrow> emitted st' Q st'"
  by (rule emitted_refl) (simp add: emitted_def)

text \<open>The contracts of expressions, of code without cases, and of statements.\<close>

definition elemOK :: "emit \<Rightarrow> bool" where
  "elemOK f \<longleftrightarrow> (\<forall>\<Gamma> C Z M K X st st'. emitted st (asrt \<Gamma> C Z Opened M K X) st \<longrightarrow> f st = Some st' \<longrightarrow>
     (\<exists>new. emitted st (asrt \<Gamma> C Z Opened M K (X\<lparr>cleanups := cleanups X @ new\<rparr>)) st'))"

definition stmtOK :: "ptr set \<Rightarrow> ptr set \<Rightarrow> ptr set \<Rightarrow> bool \<Rightarrow> emit \<Rightarrow> bool" where
  "stmtOK A ks inn closes f \<longleftrightarrow> (\<forall>\<Gamma> C Z M K X st st'. casesHere \<Gamma> = A \<longrightarrow> ks \<subseteq> C \<longrightarrow> inn \<subseteq> Z \<longrightarrow>
     emitted st (asrt \<Gamma> C Z Opened M K X) st \<longrightarrow> f st = Some st' \<longrightarrow>
     emitted st (asrt \<Gamma> (C - ks) (Z - inn) (if closes then Either else Opened) M K X) st')"

definition plainOK :: "emit \<Rightarrow> bool" where
  "plainOK f \<longleftrightarrow> (\<forall>A. stmtOK A {} {} False f)"

lemma elemOKD:
  assumes "elemOK f" "emitted st0 (asrt \<Gamma> C Z Opened M K X) st" "f st = Some st'"
  obtains new where "emitted st0 (asrt \<Gamma> C Z Opened M K (X\<lparr>cleanups := cleanups X @ new\<rparr>)) st'"
proof -
  obtain new where "emitted st (asrt \<Gamma> C Z Opened M K (X\<lparr>cleanups := cleanups X @ new\<rparr>)) st'"
    using assms(1,3) emitted_here [OF assms(2)] unfolding elemOK_def by blast
  then show thesis using that emitted_trans [OF assms(2)] by blast
qed

lemma stmtOKD:
  assumes "stmtOK A ks inn closes f" "emitted st0 (asrt \<Gamma> C Z Opened M K X) st" "f st = Some st'" "casesHere \<Gamma> = A" "ks \<subseteq> C" "inn \<subseteq> Z"
  shows "emitted st0 (asrt \<Gamma> (C - ks) (Z - inn) (if closes then Either else Opened) M K X) st'"
  using assms(1,3-6) emitted_here [OF assms(2)] emitted_trans [OF assms(2)] unfolding stmtOK_def by blast

lemma plainOKD:
  assumes "plainOK f" "emitted st0 (asrt \<Gamma> C Z Opened M K X) st" "f st = Some st'"
  shows "emitted st0 (asrt \<Gamma> C Z Opened M K X) st'"
  using stmtOKD [OF assms(1) [unfolded plainOK_def, rule_format, of "casesHere \<Gamma>"] assms(2,3)] by simp

lemma plainOKI:
  assumes "\<And>\<Gamma> C Z M K X st st'. emitted st (asrt \<Gamma> C Z Opened M K X) st \<Longrightarrow> f st = Some st' \<Longrightarrow> emitted st (asrt \<Gamma> C Z Opened M K X) st'"
  shows "plainOK f"
  using assms unfolding plainOK_def stmtOK_def by simp

section \<open>Facts from assertions\<close>

lemma balancedE:
  assumes "balanced fl M K C st"
  obtains isOpen where "flowing fl isOpen" "accounted isOpen (set_mset M \<union> ahead C st) (K \<union> held st) (set_option (retBlock st)) st"
  using assms unfolding balanced_def by blast

lemma balanced_flow:
  assumes "balanced fl M K C st"
  shows "balanced (if scopereturned st then Closed else Opened) M K C st" "flowing fl (\<not> scopereturned st)"
proof -
  obtain isOpen where a: "flowing fl isOpen" "accounted isOpen (set_mset M \<union> ahead C st) (K \<union> held st) (set_option (retBlock st)) st"
    using assms by (rule balancedE)
  have r: "scopereturned st \<longleftrightarrow> \<not> isOpen" by (rule accountedD(11) [OF a(2)])
  then show "flowing fl (\<not> scopereturned st)" using a(1) by simp
  show "balanced (if scopereturned st then Closed else Opened) M K C st"
    using assms a(2) r unfolding balanced_def by (cases isOpen) auto
qed

lemma asrt_flow: "asrt \<Gamma> C Z fl M K X st \<Longrightarrow> asrt \<Gamma> C Z (if scopereturned st then Closed else Opened) M K X st"
  using balanced_flow(1) unfolding asrt_def by blast

lemma asrt_opened: "asrt \<Gamma> C Z Opened M K X st \<Longrightarrow> \<not> scopereturned st"
  using balanced_flow(2) [of Opened] by (auto simp: asrt_def)

lemma asrt_weaken: "asrt \<Gamma> C Z fl M K X st \<Longrightarrow> asrt \<Gamma> C Z Either M K X st"
  by (auto simp: asrt_def balanced_def)

lemma asrt_K:
  assumes "asrt \<Gamma> C Z fl M K X st" "K' \<subseteq> K"
  shows "asrt \<Gamma> C Z fl M K' X st"
proof -
  have "balanced fl M K C st" using assms(1) by (simp add: asrt_def)
  then obtain isOpen where a: "flowing fl isOpen" "accounted isOpen (set_mset M \<union> ahead C st) (K \<union> held st) (set_option (retBlock st)) st"
    by (rule balancedE)
  have "accounted isOpen (set_mset M \<union> ahead C st) (K' \<union> held st) (set_option (retBlock st)) st"
    by (rule accounted_mono [OF a(2)]) (use assms(2) in auto)
  then show ?thesis using assms(1) a(1) unfolding asrt_def balanced_def by auto
qed

section \<open>Rules for the builder\<close>

lemma unique_add: "(\<forall>x. count (add_mset b M) x \<le> 1) \<longleftrightarrow> (\<forall>x. count M x \<le> 1) \<and> b \<notin># M"
proof
  assume a: "\<forall>x. count (add_mset b M) x \<le> 1"
  have "count M x \<le> 1" for x using a [rule_format, of x] by (simp split: if_splits)
  moreover have "count M b = 0" using a [rule_format, of b] by simp
  ultimately show "(\<forall>x. count M x \<le> 1) \<and> b \<notin># M" by (simp add: not_in_iff)
qed (auto simp: not_in_iff)

lemma more_fields:
  fixes st st' :: ToIRState
  assumes "TryCatchFinallyScopes.more st' = TryCatchFinallyScopes.more st"
  shows "targetBBs st' = targetBBs st" "labelTargets st' = labelTargets st" "breakTargets st' = breakTargets st" "continueTargets st' = continueTargets st"
    "retBlock st' = retBlock st" "ahead C st' = ahead C st" "held st' = held st" "lifetimeScopes st' = lifetimeScopes st" "code st' = code st"
  using assms by (cases st; cases st'; simp add: ahead_def held_def)+

lemma asrt_change:
  assumes "asrt \<Gamma> C Z fl M K X st" "TryCatchFinallyScopes.more st' = TryCatchFinallyScopes.more st"
    "\<And>isOpen. flowing fl isOpen \<Longrightarrow> accounted isOpen (set_mset M \<union> ahead C st) (K \<union> held st) (set_option (retBlock st)) st \<Longrightarrow>
      \<exists>isOpen'. flowing fl' isOpen' \<and> accounted isOpen' (set_mset M' \<union> ahead C st) (K' \<union> held st) (set_option (retBlock st)) st'"
    "\<forall>b. count M' b \<le> 1" "set_mset M' \<inter> ahead C st = {}" "pairs st' = cleanups X'" "tryCatchScopes st' = tries X'" "breaks X' = breaks X" "continues X' = continues X"
  shows "asrt \<Gamma> C Z fl' M' K' X' st'"
proof -
  have b: "balanced fl M K C st" using assms(1) by (simp add: asrt_def)
  then obtain isOpen where "flowing fl isOpen" "accounted isOpen (set_mset M \<union> ahead C st) (K \<union> held st) (set_option (retBlock st)) st" by (rule balancedE)
  then obtain isOpen' where "flowing fl' isOpen' \<and> accounted isOpen' (set_mset M' \<union> ahead C st) (K' \<union> held st) (set_option (retBlock st)) st'"
    using assms(3) by blast
  then have "balanced fl' M' K' C st'" unfolding balanced_def more_fields [OF assms(2)] using assms(4,5) by auto
  moreover have "stacksOK X' st'" using assms(1,6-9) by (simp add: stacksOK_def more_fields [OF assms(2)] asrt_def)
  ultimately show ?thesis using assms(1) by (simp add: asrt_def more_fields [OF assms(2)])
qed

lemma asrtD:
  assumes "asrt \<Gamma> C Z fl M K X st"
  shows "nextBB st < 2 ^ 32" "b \<in># M \<Longrightarrow> b < nextBB st" "b \<in> ahead C st \<Longrightarrow> b < nextBB st" "pairs st = cleanups X" "tryCatchScopes st = tries X"
    "currentCleanupScope st = length (cleanups X)" "\<forall>tc\<in>set (tries X). cleanupScope tc \<le> length (cleanups X)" "breakTargets st = breaks X" "continueTargets st = continues X"
    "b \<in># M \<Longrightarrow> b \<noteq> scopebb st"
proof -
  have "balanced fl M K C st" using assms by (simp add: asrt_def)
  then obtain isOpen where a: "accounted isOpen (set_mset M \<union> ahead C st) (K \<union> held st) (set_option (retBlock st)) st" by (rule balancedE)
  note d = accountedD [OF a]
  show "nextBB st < 2 ^ 32" "b \<in># M \<Longrightarrow> b < nextBB st" "b \<in> ahead C st \<Longrightarrow> b < nextBB st" "b \<in># M \<Longrightarrow> b \<noteq> scopebb st" using d(4,8) by auto
  show p: "pairs st = cleanups X" "tryCatchScopes st = tries X" "breakTargets st = breaks X" "continueTargets st = continues X" using assms by (simp_all add: asrt_def stacksOK_def)
  show c: "currentCleanupScope st = length (cleanups X)" unfolding p(1) [symmetric] by (simp add: currentCleanupScope_def)
  show "\<forall>tc\<in>set (tries X). cleanupScope tc \<le> length (cleanups X)"
    using d(1) unfolding p(2) [symmetric] c [symmetric] by (simp add: good_def padsOK_def currentCleanupScope_def)
qed

lemma emitted_insert:
  assumes "emitted st0 (asrt \<Gamma> C Z fl M K X) st" "insertBB st = (b, st1)"
  shows "emitted st0 (asrt \<Gamma> C Z fl (add_mset b M) (insert b K) X) st1"
  using assms(1)
proof (rule emitted_step)
  have st1: "st1 = snd (insertBB st)" "b = nextBB st" using assms(2) by (auto simp: insertBB_def)
  show "nextBB st \<le> nextBB st1" by (simp add: st1 insertBB_def)
  assume a: "asrt \<Gamma> C Z fl M K X st" "nextBB st1 < 2 ^ 32"
  have n: "Suc (nextBB st) < 2 ^ 32" using a(2) by (simp add: st1 insertBB_def)
  have new: "b \<notin># M" "b \<notin> ahead C st" using asrtD(2,3) [OF a(1), of b] st1(2) by auto
  obtain isOpen where acc: "accounted isOpen (set_mset M \<union> ahead C st) (K \<union> held st) (set_option (retBlock st)) st" using a(1) by (auto simp: asrt_def elim: balancedE)
  have "asrt \<Gamma> C Z fl (add_mset b M) (insert b K) X st1"
  proof (rule asrt_change [OF a(1)])
    fix isOpen
    assume "flowing fl isOpen" "accounted isOpen (set_mset M \<union> ahead C st) (K \<union> held st) (set_option (retBlock st)) st"
    then show "\<exists>isOpen'. flowing fl isOpen' \<and> accounted isOpen' (set_mset (add_mset b M) \<union> ahead C st) (insert b K \<union> held st) (set_option (retBlock st)) st1"
      using accounted_insert(1) [OF _ n] st1 by auto
  qed (use a(1) new in \<open>auto simp: st1 insertBB_def asrt_def balanced_def stacksOK_def pairs_def not_in_iff\<close>)
  then show "asrt \<Gamma> C Z fl (add_mset b M) (insert b K) X st1 \<and> codegen st st1" using accounted_insert(2) [OF acc n] st1(1) by simp
qed

lemma emitted_terminate:
  assumes "emitted st0 (asrt \<Gamma> C Z fl M K X) st" "terminate (scopebb st) T st = Some st'" "set (succs T) \<subseteq> K \<union> held st"
  shows "emitted st0 (asrt \<Gamma> C Z Closed M K X) st'"
  using assms(1)
proof (rule emitted_step)
  show "nextBB st \<le> nextBB st'" using assms(2) by (auto simp: terminate_def split: Option.bind_splits if_splits)
  assume a: "asrt \<Gamma> C Z fl M K X st"
  obtain isOpen where acc: "accounted isOpen (set_mset M \<union> ahead C st) (K \<union> held st) (set_option (retBlock st)) st" using a by (auto simp: asrt_def elim: balancedE)
  note t = accounted_terminate [OF acc assms(2,3)]
  have "asrt \<Gamma> C Z Closed M K X st'"
    by (rule asrt_change [OF a t(5)]) (use t a in \<open>auto simp: asrt_def balanced_def stacksOK_def\<close>)
  then show "asrt \<Gamma> C Z Closed M K X st' \<and> codegen st st'" using t(2) by simp
qed

lemma emitted_CreateBr:
  "emitted st0 (asrt \<Gamma> C Z fl M K X) st \<Longrightarrow> CreateBr b st = Some st' \<Longrightarrow> b \<in> K \<union> held st \<Longrightarrow> emitted st0 (asrt \<Gamma> C Z Closed M K X) st'"
  unfolding CreateBr_def by (erule emitted_terminate) auto

lemma emitted_CreateCondBr:
  "emitted st0 (asrt \<Gamma> C Z fl M K X) st \<Longrightarrow> CreateCondBr b c st = Some st' \<Longrightarrow> {b, c} \<subseteq> K \<union> held st \<Longrightarrow> emitted st0 (asrt \<Gamma> C Z Closed M K X) st'"
  unfolding CreateCondBr_def by (erule emitted_terminate) auto

lemma emitted_CreateRet: "emitted st0 (asrt \<Gamma> C Z fl M K X) st \<Longrightarrow> CreateRet st = Some st' \<Longrightarrow> emitted st0 (asrt \<Gamma> C Z Closed M K X) st'"
    "emitted st0 (asrt \<Gamma> C Z fl M K X) st \<Longrightarrow> CreateUnreachable st = Some st' \<Longrightarrow> emitted st0 (asrt \<Gamma> C Z Closed M K X) st'"
  by (auto simp: CreateRet_def CreateUnreachable_def elim!: emitted_terminate)

lemma emitted_branchUnlessReturned:
  assumes "emitted st0 (asrt \<Gamma> C Z fl M K X) st" "branchUnlessReturned b st = Some st'" "b \<in> K \<union> held st"
  shows "emitted st0 (asrt \<Gamma> C Z Closed M K X) st'"
proof (cases "scopereturned st")
  case True
  then have "st' = st" using assms(2) by (simp add: branchUnlessReturned_def)
  moreover have "asrt \<Gamma> C Z Closed M K X st" if "asrt \<Gamma> C Z fl M K X st" using asrt_flow [OF that] True by simp
  ultimately show ?thesis using emitted_weaken [OF assms(1)] by simp
next
  case False
  then show ?thesis using assms emitted_CreateBr by (simp add: branchUnlessReturned_def)
qed

lemma emitted_move:
  assumes "emitted st0 (asrt \<Gamma> C Z Closed (add_mset b M) K X) st"
  shows "emitted st0 (asrt \<Gamma> C Z Opened M K X) (SetInsertPoint b st)"
  using assms
proof (rule emitted_step)
  show "nextBB st \<le> nextBB (SetInsertPoint b st)" by (simp add: SetInsertPoint_def)
  assume a: "asrt \<Gamma> C Z Closed (add_mset b M) K X st"
  have "\<forall>x. count (add_mset b M) x \<le> 1" using a unfolding asrt_def balanced_def by blast
  then have u: "\<forall>x. count M x \<le> 1" and b: "b \<notin># M" unfolding unique_add by blast+
  have acc: "accounted False (insert b (set_mset M \<union> ahead C st)) (K \<union> held st) (set_option (retBlock st)) st" and nb: "b \<notin> set_mset M \<union> ahead C st"
    using a b by (auto simp: asrt_def balanced_def)
  note m = accounted_move [OF acc nb]
  from u have "asrt \<Gamma> C Z Opened M K X (SetInsertPoint b st)"
    by (intro asrt_change [OF a]) (use m(1) a in \<open>auto simp: SetInsertPoint_def asrt_def balanced_def stacksOK_def pairs_def\<close>)
  then show "asrt \<Gamma> C Z Opened M K X (SetInsertPoint b st) \<and> codegen st (SetInsertPoint b st)" using m(2) by (simp add: SetInsertPoint_def)
qed

lemma emitted_swap:
  assumes "emitted st0 (asrt \<Gamma> C Z Opened (add_mset b M) K X) st" "a = scopebb st"
  shows "emitted st0 (asrt \<Gamma> C Z Opened (add_mset a M) (insert a K) X) (SetInsertPoint b st)"
  using assms(1)
proof (rule emitted_step)
  show "nextBB st \<le> nextBB (SetInsertPoint b st)" by (simp add: SetInsertPoint_def)
  assume as: "asrt \<Gamma> C Z Opened (add_mset b M) K X st"
  have "\<forall>x. count (add_mset b M) x \<le> 1" using as unfolding asrt_def balanced_def by blast
  then have u: "\<forall>x. count M x \<le> 1" and b: "b \<notin># M" unfolding unique_add by blast+
  have acc0: "accounted True (insert b (set_mset M \<union> ahead C st)) (K \<union> held st) (set_option (retBlock st)) st" and nb: "b \<notin> set_mset M \<union> ahead C st"
    using as b by (auto simp: asrt_def balanced_def)
  have acc: "accounted True (insert b (set_mset M \<union> ahead C st)) (insert a (K \<union> held st)) (set_option (retBlock st)) st"
    by (rule accounted_mono [OF accounted_keep [OF acc0]]) (auto simp: assms(2))
  note m = accounted_swap [OF acc nb]
  have an: "a \<notin># M" "a \<notin> ahead C st" using accountedD(8) [OF acc] assms(2) by auto
  have "asrt \<Gamma> C Z Opened (add_mset a M) (insert a K) X (SetInsertPoint b st)"
  proof (rule asrt_change [OF as])
    show "\<forall>x. count (add_mset a M) x \<le> 1" unfolding unique_add using u an(1) by blast
  qed (use m(1) as an assms(2) in \<open>auto simp: SetInsertPoint_def asrt_def balanced_def stacksOK_def pairs_def\<close>)
  then show "asrt \<Gamma> C Z Opened (add_mset a M) (insert a K) X (SetInsertPoint b st) \<and> codegen st (SetInsertPoint b st)"
    using m(2) by (simp add: SetInsertPoint_def)
qed

text \<open>Changes of the other fields of the state.\<close>

lemma emitted_fields:
  assumes "emitted st0 (asrt \<Gamma> C Z fl M K X) st" "TryCatchFinallyScopes.truncate st' = TryCatchFinallyScopes.truncate st"
    "targetBBs st' = targetBBs st" "retBlock st' = retBlock st" "held st' \<subseteq> K \<union> held st" "asrt \<Gamma> C Z fl M K X st \<Longrightarrow> breakTargets st' = B"
    "asrt \<Gamma> C Z fl M K X st \<Longrightarrow> continueTargets st' = N"
  shows "emitted st0 (asrt \<Gamma> C Z fl M K (X\<lparr>breaks := B, continues := N\<rparr>)) st'"
  using assms(1)
proof (rule emitted_step)
  have f: "nextBB st' = nextBB st" "pairs st' = pairs st" "tryCatchScopes st' = tryCatchScopes st"
    using assms(2) by (cases st; cases st'; simp add: TryCatchFinallyScopes.truncate_def pairs_def)+
  show "nextBB st \<le> nextBB st'" by (simp add: f)
  assume a: "asrt \<Gamma> C Z fl M K X st"
  then obtain isOpen where acc: "flowing fl isOpen" "accounted isOpen (set_mset M \<union> ahead C st) (K \<union> held st) (set_option (retBlock st)) st" by (auto simp: asrt_def elim: balancedE)
  note m = accounted_more [OF acc(2) assms(2)]
  have ah: "ahead C st' = ahead C st" by (simp add: ahead_def assms(3))
  have "accounted isOpen (set_mset M \<union> ahead C st') (K \<union> held st') (set_option (retBlock st')) st'"
    using accounted_mono [OF m(1), of "K \<union> held st'" "set_option (retBlock st')"] assms(4,5) by (simp add: ah)
  then have "balanced fl M K C st'" using a acc(1) ah unfolding asrt_def balanced_def by auto
  moreover have "stacksOK (X\<lparr>breaks := B, continues := N\<rparr>) st'" using a assms(6,7) [OF a] f(2,3) by (simp add: asrt_def stacksOK_def)
  ultimately have "asrt \<Gamma> C Z fl M K (X\<lparr>breaks := B, continues := N\<rparr>) st'" using a by (simp add: asrt_def assms(3))
  then show "asrt \<Gamma> C Z fl M K (X\<lparr>breaks := B, continues := N\<rparr>) st' \<and> codegen st st'" using m(2) by simp
qed

lemma emitted_code:
  assumes "emitted st0 (asrt \<Gamma> C Z fl M K X) st" "FuncGenState.FuncGenState.truncate st' = FuncGenState.FuncGenState.truncate st" "retBlock st' = retBlock st"
  shows "emitted st0 (asrt \<Gamma> C Z fl M K X) st'"
proof -
  have f: "TryCatchFinallyScopes.truncate st' = TryCatchFinallyScopes.truncate st" "targetBBs st' = targetBBs st" "held st' = held st"
      "breakTargets st' = breakTargets st" "continueTargets st' = continueTargets st"
    using assms(2) by (cases st; cases st'; simp add: FuncGenState.FuncGenState.truncate_def TryCatchFinallyScopes.truncate_def held_def)+
  show ?thesis using emitted_fields [OF assms(1) f(1,2) assms(3), of "breaks X" "continues X"] f asrtD(8,9) by simp
qed

lemma truncate_code [simp]:
  "FuncGenState.FuncGenState.truncate (appendInstrs is st) = FuncGenState.FuncGenState.truncate st" "retBlock (appendInstrs is st) = retBlock st"
  "FuncGenState.FuncGenState.truncate (lifetime_pushScope st) = FuncGenState.FuncGenState.truncate st" "retBlock (lifetime_pushScope st) = retBlock st"
  "FuncGenState.FuncGenState.truncate (lifetime_popScope st) = FuncGenState.FuncGenState.truncate st" "retBlock (lifetime_popScope st) = retBlock st"
  by (cases st; simp add: appendInstrs_def lifetime_pushScope_def lifetime_popScope_def FuncGenState.FuncGenState.truncate_def)+

lemma emitted_lifetime:
  "emitted st0 (asrt \<Gamma> C Z fl M K X) st \<Longrightarrow> emitted st0 (asrt \<Gamma> C Z fl M K X) (lifetime_pushScope st)"
  "emitted st0 (asrt \<Gamma> C Z fl M K X) st \<Longrightarrow> emitted st0 (asrt \<Gamma> C Z fl M K X) (lifetime_popScope st)"
  by (erule emitted_code; simp)+

lemma emitted_emitIncrement:
  "emitted st0 (asrt \<Gamma> C Z fl M K X) st \<Longrightarrow> emitIncrement E p st = Some st' \<Longrightarrow> emitted st0 (asrt \<Gamma> C Z fl M K X) st'"
  by (erule emitted_code) (auto simp: emitIncrement_def split: Option.bind_splits)

lemma emitted_pushLoopTarget:
  assumes "emitted st0 (asrt \<Gamma> C Z fl M K X) st" "{c, b} \<subseteq> K"
  shows "\<exists>tc tb. emitted st0 (asrt \<Gamma> C Z fl M K (X\<lparr>breaks := breaks X @ [tb], continues := continues X @ [tc]\<rparr>)) (pushLoopTarget p c b st)"
  by (intro exI, rule emitted_fields [OF assms(1)])
    (use assms(2) in \<open>auto simp: pushLoopTarget_def held_def newJumpTarget_def asrtD(8,9) TryCatchFinallyScopes.truncate_def\<close>)

lemma emitted_popLoopTarget:
  assumes "emitted st0 (asrt \<Gamma> C Z fl M K (X\<lparr>breaks := breaks X @ [tb], continues := continues X @ [tc]\<rparr>)) st" "popLoopTarget st = Some st'"
  shows "emitted st0 (asrt \<Gamma> C Z fl M K X) st'"
proof -
  have st': "st' = st\<lparr>continueTargets := butlast (continueTargets st), breakTargets := butlast (breakTargets st)\<rparr>"
    using assms(2) by (auto simp: popLoopTarget_def split: if_splits)
  have "held st' \<subseteq> held st" by (auto simp: st' held_def dest: in_set_butlastD)
  then show ?thesis using emitted_fields [OF assms(1), of st' "breaks X" "continues X"] asrtD(8,9)
    by (fastforce simp: st' TryCatchFinallyScopes.truncate_def)
qed

lemma emitted_pushBreakTarget:
  assumes "emitted st0 (asrt \<Gamma> C Z fl M K X) st" "b \<in> K"
  shows "\<exists>tb. emitted st0 (asrt \<Gamma> C Z fl M K (X\<lparr>breaks := breaks X @ [tb]\<rparr>)) (pushBreakTarget p b st)"
  using emitted_fields [OF assms(1), of "pushBreakTarget p b st" "breaks X @ [newJumpTarget b p st]" "continues X"] assms(2) asrtD(8,9)
  by (fastforce simp: pushBreakTarget_def held_def newJumpTarget_def TryCatchFinallyScopes.truncate_def)

lemma emitted_popBreakTarget:
  assumes "emitted st0 (asrt \<Gamma> C Z fl M K (X\<lparr>breaks := breaks X @ [tb]\<rparr>)) st" "popBreakTarget st = Some st'"
  shows "emitted st0 (asrt \<Gamma> C Z fl M K X) st'"
proof -
  have st': "st' = st\<lparr>breakTargets := butlast (breakTargets st)\<rparr>"
    using assms(2) by (auto simp: popBreakTarget_def split: if_splits)
  have "held st' \<subseteq> held st" by (auto simp: st' held_def dest: in_set_butlastD)
  then show ?thesis using emitted_fields [OF assms(1), of st' "breaks X" "continues X"] asrtD(8,9)
    by (fastforce simp: st' TryCatchFinallyScopes.truncate_def)
qed

section \<open>Rules for scopes\<close>

lemma emitted_run:
  assumes "emitted st0 (asrt \<Gamma> C Z fl M K X) st" "runCleanups z u st = Some st'" "u \<in> K \<union> held st \<union> set_option (retBlock st)"
  shows "emitted st0 (\<lambda>s. asrt \<Gamma> C Z Closed M K X s \<and> ranFrom z s) st'"
  using assms(1)
proof (rule emitted_step)
  have "runCleanups_from (currentCleanupScope st) z u st = Some st'" using assms(2) by (simp add: runCleanups_def)
  from runCleanups_from_shape(1) [OF this] show "nextBB st \<le> nextBB st'" by simp
  assume a: "asrt \<Gamma> C Z fl M K X st"
  then obtain isOpen where acc: "accounted isOpen (set_mset M \<union> ahead C st) (K \<union> held st) (set_option (retBlock st)) st" by (auto simp: asrt_def elim: balancedE)
  let ?K = "K \<union> held st \<union> (set_mset M \<union> ahead C st) \<union> set_option (retBlock st) \<union> {scopebb st}"
  have u: "u \<in> ?K" using assms(3) by auto
  note r = accounted_run [OF accounted_keep [OF acc] assms(2) u]
  have acc': "accounted False (set_mset M \<union> ahead C st) (K \<union> held st) (set_option (retBlock st)) st'" by (rule accounted_mono [OF r(1)]) auto
  have "asrt \<Gamma> C Z Closed M K X st'"
    by (rule asrt_change [OF a r(5)]) (use acc' r a in \<open>auto simp: asrt_def balanced_def stacksOK_def\<close>)
  then show "(asrt \<Gamma> C Z Closed M K X st' \<and> ranFrom z st') \<and> codegen st st'" using r(2,7) by simp
qed

definition enclosing :: "nat \<Rightarrow> stacks \<Rightarrow> bool" where
  "enclosing z X \<longleftrightarrow> z = length (cleanups X) \<and> (\<forall>tc\<in>set (tries X). cleanupScope tc \<le> z)"

lemma asrt_enclosing: "asrt \<Gamma> C Z fl M K X st \<Longrightarrow> enclosing (currentCleanupScope st) X"
  using asrtD(6,7) by (simp add: enclosing_def)

lemma emitted_pop:
  assumes "emitted st0 (\<lambda>s. asrt \<Gamma> C Z fl M K (X\<lparr>cleanups := cleanups X @ new\<rparr>) s \<and> ranFrom z s \<and> enclosing z X) st" "popCleanups z st = Some st'"
  shows "emitted st0 (asrt \<Gamma> C Z fl M K X) st'"
  using assms(1)
proof (rule emitted_step)
  show "nextBB st \<le> nextBB st'" by (rule popCleanups_grows [OF assms(2)])
  assume "asrt \<Gamma> C Z fl M K (X\<lparr>cleanups := cleanups X @ new\<rparr>) st \<and> ranFrom z st \<and> enclosing z X" and n: "nextBB st' < 2 ^ 32"
  then have a: "asrt \<Gamma> C Z fl M K (X\<lparr>cleanups := cleanups X @ new\<rparr>) st" "ranFrom z st" "enclosing z X" by simp_all
  obtain isOpen where acc: "flowing fl isOpen" "accounted isOpen (set_mset M \<union> ahead C st) (K \<union> held st) (set_option (retBlock st)) st"
    using a(1) by (auto simp: asrt_def elim: balancedE)
  have t: "\<forall>tc\<in>set (tryCatchScopes st). cleanupScope tc \<le> z" using a(3) asrtD(5) [OF a(1)] by (auto simp: enclosing_def)
  note p = accounted_pop [OF acc(2) assms(2) a(2) t n]
  have pr: "pairs st' = cleanups X" using p(3) asrtD(4) [OF a(1)] a(3) by (simp add: enclosing_def)
  have "\<exists>isOpen'. flowing fl isOpen' \<and> accounted isOpen' (set_mset M \<union> ahead C st) (K \<union> held st) (set_option (retBlock st)) st'"
    if "flowing fl isOpen'" "accounted isOpen' (set_mset M \<union> ahead C st) (K \<union> held st) (set_option (retBlock st)) st" for isOpen'
    using accounted_pop(1) [OF that(2) assms(2) a(2) t n] that(1) by blast
  then have "asrt \<Gamma> C Z fl M K X st'"
    by (rule asrt_change [OF a(1) p(5)]) (use pr p(4) a(1) asrtD(5) [OF a(1)] in \<open>auto simp: asrt_def balanced_def\<close>)
  then show "asrt \<Gamma> C Z fl M K X st' \<and> codegen st st'" using p(2) by simp
qed

lemma ranFrom_SetInsertPoint [simp]: "ranFrom z (SetInsertPoint b st) = ranFrom z st"
  by (simp add: ranFrom_def SetInsertPoint_def pairs_def)

lemma emitted_and: "emitted st0 Q st \<Longrightarrow> (nextBB st < 2 ^ 32 \<Longrightarrow> P) \<Longrightarrow> emitted st0 (\<lambda>s. Q s \<and> P) st"
  by (auto simp: emitted_def)

text \<open>What held at the start still holds later; \<open>P\<close> does not depend on the state.\<close>

lemma emitted_start:
  assumes "emitted st0 Q0 st0" "emitted st0 Q st" "Q0 st0 \<Longrightarrow> P"
  shows "emitted st0 (\<lambda>s. Q s \<and> P) st"
  by (rule emitted_and [OF assms(2)]) (use assms in \<open>auto simp: emitted_def\<close>)

lemma emitted_push:
  assumes "emitted st0 (asrt \<Gamma> C Z Opened (add_mset n M) K X) st" "b \<in> K" "e = scopebb st"
  shows "emitted st0 (asrt \<Gamma> C Z Opened M K (X\<lparr>cleanups := cleanups X @ [(b, e)]\<rparr>)) (SetInsertPoint n (pushCleanup b e st))"
  using assms(1)
proof (rule emitted_step)
  let ?st = "SetInsertPoint n (pushCleanup b e st)"
  show "nextBB st \<le> nextBB ?st" by (simp add: SetInsertPoint_def pushCleanup_def)
  assume a: "asrt \<Gamma> C Z Opened (add_mset n M) K X st"
  have "\<forall>x. count (add_mset n M) x \<le> 1" using a unfolding asrt_def balanced_def by blast
  then have u: "\<forall>x. count M x \<le> 1" and nM: "n \<notin># M" unfolding unique_add by blast+
  have acc: "accounted True (insert n (set_mset M \<union> ahead C st)) (K \<union> held st) (set_option (retBlock st)) st" and nb: "n \<notin> set_mset M \<union> ahead C st"
    using a nM by (auto simp: asrt_def balanced_def)
  have bK: "b \<in> K \<union> held st" using assms(2) by simp
  note p = accounted_push [OF acc nb bK assms(3)]
  have m: "TryCatchFinallyScopes.more ?st = TryCatchFinallyScopes.more st" by (simp add: SetInsertPoint_def pushCleanup_def)
  have "asrt \<Gamma> C Z Opened M K (X\<lparr>cleanups := cleanups X @ [(b, e)]\<rparr>) ?st"
    by (rule asrt_change [OF a m])
      (use p(1) a u in \<open>auto simp: SetInsertPoint_def asrt_def balanced_def stacksOK_def pairs_def pushCleanup_def newCleanupScope_def scopePair_def\<close>)
  then show "asrt \<Gamma> C Z Opened M K (X\<lparr>cleanups := cleanups X @ [(b, e)]\<rparr>) ?st \<and> codegen st ?st" using p(2) by (simp add: SetInsertPoint_def)
qed

lemma emitted_callOrInvoke:
  assumes "emitted st0 (asrt \<Gamma> C Z Opened M K X) st" "callOrInvoke x f nt st = Some (c, st')"
  shows "emitted st0 (asrt \<Gamma> C Z Opened M K X) st'"
  using assms(1)
proof (rule emitted_step)
  show "nextBB st \<le> nextBB st'" by (rule callOrInvoke_grows [OF assms(2)])
  assume a: "asrt \<Gamma> C Z Opened M K X st" and n: "nextBB st' < 2 ^ 32"
  have acc: "accounted True (set_mset M \<union> ahead C st) (K \<union> held st) (set_option (retBlock st)) st" using a by (auto simp: asrt_def balanced_def)
  note p = accounted_call [OF acc assms(2) n]
  have "asrt \<Gamma> C Z Opened M K X st'"
    by (rule asrt_change [OF a p(5)]) (use p a in \<open>auto simp: asrt_def balanced_def stacksOK_def\<close>)
  then show "asrt \<Gamma> C Z Opened M K X st' \<and> codegen st st'" using p(2) by simp
qed

lemma plainOK_callRuntime: "plainOK (callRuntime E)"
  by (rule plainOKI) (auto simp: callRuntime_def intro: emitted_callOrInvoke)

lemma plainOK_Some: "plainOK Some" "elemOK Some"
proof -
  show "plainOK Some" by (rule plainOKI) simp
  show "elemOK Some" unfolding elemOK_def
  proof (intro allI impI)
    fix \<Gamma> C Z M K X st st'
    assume "emitted st (asrt \<Gamma> C Z Opened M K X) st" "Some st = Some st'"
    then show "\<exists>new. emitted st (asrt \<Gamma> C Z Opened M K (X\<lparr>cleanups := cleanups X @ new\<rparr>)) st'" by (intro exI [of _ "[]"]) simp
  qed
qed

text \<open>Expressions as statements: the temporaries are destroyed.\<close>

lemma emitted_destructTemporaries:
  assumes "emitted st0 (asrt \<Gamma> C Z Opened M K X) st0" "emitted st0 (asrt \<Gamma> C Z Opened M K (X\<lparr>cleanups := cleanups X @ new\<rparr>)) st"
    "destructTemporaries (currentCleanupScope st0) st = Some st'"
  shows "emitted st0 (asrt \<Gamma> C Z Opened M K X) st'"
proof (cases "currentCleanupScope st = currentCleanupScope st0")
  case True
  then have st': "st' = st" using assms(3) by (simp add: destructTemporaries_def)
  have "asrt \<Gamma> C Z Opened M K X st"
    if "asrt \<Gamma> C Z Opened M K (X\<lparr>cleanups := cleanups X @ new\<rparr>) st" "currentCleanupScope st0 = length (cleanups X)"
    using that(1) asrtD(6) [OF that(1)] that(2) True by simp
  then show ?thesis unfolding st' using emitted_start [OF assms(1,2), of "currentCleanupScope st0 = length (cleanups X)"] asrtD(6)
    by (auto elim: emitted_weaken)
next
  case False
  let ?z = "currentCleanupScope st0"
  obtain endbb st1 st2 st3 where eqs: "insertBB st = (endbb, st1)" "runCleanups ?z endbb st1 = Some st2" "popCleanups ?z st2 = Some st3" "st' = SetInsertPoint endbb st3"
    using assms(3) False by (auto simp: destructTemporaries_def split: prod.splits Option.bind_splits)
  note s1 = emitted_insert [OF assms(2) eqs(1)]
  note s2 = emitted_run [OF s1 eqs(2)]
  have "emitted st0 (\<lambda>s. (asrt \<Gamma> C Z Closed (add_mset endbb M) (insert endbb K) (X\<lparr>cleanups := cleanups X @ new\<rparr>) s \<and> ranFrom ?z s) \<and> enclosing ?z X) st2"
    by (rule emitted_start [OF assms(1) s2 asrt_enclosing]) simp_all
  then have "emitted st0 (\<lambda>s. asrt \<Gamma> C Z Closed (add_mset endbb M) (insert endbb K) (X\<lparr>cleanups := cleanups X @ new\<rparr>) s \<and> ranFrom ?z s \<and> enclosing ?z X) st2"
    by (rule emitted_weaken) simp
  note s4 = emitted_move [OF emitted_pop [OF this eqs(3)]]
  show ?thesis unfolding eqs(4) by (rule emitted_weaken [OF s4 asrt_K]) auto
qed

lemma plainOK_withDtors:
  assumes "elemOK f"
  shows "plainOK (withDtors f)"
proof (rule plainOKI)
  fix \<Gamma> C Z M K X st st'
  assume a: "emitted st (asrt \<Gamma> C Z Opened M K X) st" "withDtors f st = Some st'"
  then obtain st1 where st1: "f st = Some st1" "destructTemporaries (currentCleanupScope st) st1 = Some st'"
    by (auto simp: withDtors_def split: Option.bind_splits)
  obtain new where "emitted st (asrt \<Gamma> C Z Opened M K (X\<lparr>cleanups := cleanups X @ new\<rparr>)) st1" using elemOKD [OF assms a(1) st1(1)] by blast
  then show "emitted st (asrt \<Gamma> C Z Opened M K X) st'" using emitted_destructTemporaries [OF a(1)] st1(2) by blast
qed

lemma elemOKI:
  assumes "\<And>\<Gamma> C Z M K X st st'. emitted st (asrt \<Gamma> C Z Opened M K X) st \<Longrightarrow> f st = Some st' \<Longrightarrow>
    \<exists>new. emitted st (asrt \<Gamma> C Z Opened M K (X\<lparr>cleanups := cleanups X @ new\<rparr>)) st'"
  shows "elemOK f"
  using assms unfolding elemOK_def by blast

lemma plain_elem: "plainOK f \<Longrightarrow> elemOK f"
  by (rule elemOKI, rule exI [of _ "[]"]) (simp add: plainOKD)

section \<open>Expressions\<close>

lemma emitted_dropK: "emitted st0 (asrt \<Gamma> C Z fl M K X) st \<Longrightarrow> K' \<subseteq> K \<Longrightarrow> emitted st0 (asrt \<Gamma> C Z fl M K' X) st"
  by (erule emitted_weaken) (rule asrt_K)

lemma elemOK_pushVarDtorCleanup:
  assumes "plainOK edtor"
  shows "elemOK (pushVarDtorCleanup edtor)"
proof (rule elemOKI)
  fix \<Gamma> C Z M K X st st'
  assume a: "emitted st (asrt \<Gamma> C Z Opened M K X) st" "pushVarDtorCleanup edtor st = Some st'"
  obtain beginBB st1 st2 where eqs: "insertBB st = (beginBB, st1)" "edtor (SetInsertPoint beginBB st1) = Some st2"
      "st' = SetInsertPoint (scopebb st) (pushCleanup beginBB (scopebb st2) st2)"
    using a(2) by (auto simp: pushVarDtorCleanup_def Let_def split: prod.splits Option.bind_splits)
  have sb: "scopebb st1 = scopebb st" using eqs(1) by (auto simp: insertBB_def)
  note s1 = emitted_swap [OF emitted_insert [OF a(1) eqs(1)] HOL.refl, unfolded sb]
  note s2 = emitted_push [OF plainOKD [OF assms s1 eqs(2)], of beginBB "scopebb st2"]
  have "emitted st (asrt \<Gamma> C Z Opened M K (X\<lparr>cleanups := cleanups X @ [(beginBB, scopebb st2)]\<rparr>)) st'"
    unfolding eqs(3) by (rule emitted_dropK [OF s2]) auto
  then show "\<exists>new. emitted st (asrt \<Gamma> C Z Opened M K (X\<lparr>cleanups := cleanups X @ new\<rparr>)) st'" by blast
qed

lemma elemOK_bind:
  assumes "elemOK f" "elemOK g"
  shows "elemOK (\<lambda>st. f st \<bind> g)"
proof (rule elemOKI)
  fix \<Gamma> C Z M K X st st'
  assume a: "emitted st (asrt \<Gamma> C Z Opened M K X) st" "f st \<bind> g = Some st'"
  then obtain st1 where st1: "f st = Some st1" "g st1 = Some st'" by (auto split: Option.bind_splits)
  obtain new where "emitted st (asrt \<Gamma> C Z Opened M K (X\<lparr>cleanups := cleanups X @ new\<rparr>)) st1" using elemOKD [OF assms(1) a(1) st1(1)] by blast
  from elemOKD [OF assms(2) this st1(2)] obtain new' where
    "emitted st (asrt \<Gamma> C Z Opened M K (X\<lparr>cleanups := cleanups X @ (new @ new')\<rparr>)) st'" by auto
  then show "\<exists>new. emitted st (asrt \<Gamma> C Z Opened M K (X\<lparr>cleanups := cleanups X @ new\<rparr>)) st'" by blast
qed

lemma elemOK_Declaration:
  assumes "elemOK (otherElem E e [init])" "elemOK edtor"
  shows "elemOK (toElem_Declaration E e vd init edtor)"
proof -
  have "elemOK (if needsScopeDtor E vd then pushVarDtorCleanup (withDtors edtor) else Some)"
    using elemOK_pushVarDtorCleanup [OF plainOK_withDtors [OF assms(2)]] plainOK_Some(2) by simp
  from elemOK_bind [OF assms(1) this] show ?thesis unfolding toElem_Declaration_def [abs_def] by (cases "needsScopeDtor E vd") simp_all
qed

lemma elemOK_Cond:
  assumes "elemOK econd" "elemOK e1" "elemOK e2"
  shows "elemOK (toElem_Cond E e econd e1 e2)"
proof (rule elemOKI)
  fix \<Gamma> C Z M K X st st'
  assume a: "emitted st (asrt \<Gamma> C Z Opened M K X) st" "toElem_Cond E e econd e1 e2 st = Some st'"
  obtain condtrue st1 condfalse st2 condend st3 st4 st5 st6 st7 st8 st9 st10 where eqs:
      "insertBB st = (condtrue, st1)" "insertBB st1 = (condfalse, st2)" "insertBB st2 = (condend, st3)" "econd st3 = Some st4"
      "CreateCondBr condtrue condfalse st4 = Some st5" "emitIncrement E e (SetInsertPoint condtrue st5) = Some st6" "e1 st6 = Some st7"
      "CreateBr condend st7 = Some st8" "e2 (SetInsertPoint condfalse st8) = Some st9" "CreateBr condend st9 = Some st10" "st' = SetInsertPoint condend st10"
    using a(2) by (auto simp: toElem_Cond_def split: prod.splits Option.bind_splits)
  let ?K = "insert condend (insert condfalse (insert condtrue K))" and ?X = "\<lambda>new. X\<lparr>cleanups := cleanups X @ new\<rparr>"
  have s3: "emitted st (asrt \<Gamma> C Z Opened ({#condtrue, condfalse, condend#} + M) ?K X) st3"
    using emitted_insert [OF emitted_insert [OF emitted_insert [OF a(1) eqs(1)] eqs(2)] eqs(3)] by (simp add: add_mset_commute)
  then obtain n1 where s4: "emitted st (asrt \<Gamma> C Z Opened ({#condtrue, condfalse, condend#} + M) ?K (?X n1)) st4" using elemOKD [OF assms(1) _ eqs(4)] by blast
  have s5: "emitted st (asrt \<Gamma> C Z Closed ({#condtrue, condfalse, condend#} + M) ?K (?X n1)) st5" by (rule emitted_CreateCondBr [OF s4 eqs(5)]) auto
  then have "emitted st (asrt \<Gamma> C Z Opened ({#condfalse, condend#} + M) ?K (?X n1)) st6"
    using emitted_emitIncrement [OF emitted_move eqs(6)] by simp
  from elemOKD [OF assms(2) this eqs(7)] obtain n2 where s7: "emitted st (asrt \<Gamma> C Z Opened ({#condfalse, condend#} + M) ?K (?X (n1 @ n2))) st7" by auto
  have "emitted st (asrt \<Gamma> C Z Closed ({#condfalse, condend#} + M) ?K (?X (n1 @ n2))) st8" by (rule emitted_CreateBr [OF s7 eqs(8)]) auto
  then have "emitted st (asrt \<Gamma> C Z Opened ({#condend#} + M) ?K (?X (n1 @ n2))) (SetInsertPoint condfalse st8)" using emitted_move by simp
  from elemOKD [OF assms(3) this eqs(9)] obtain n3 where s9: "emitted st (asrt \<Gamma> C Z Opened ({#condend#} + M) ?K (?X (n1 @ n2 @ n3))) st9" by auto
  have "emitted st (asrt \<Gamma> C Z Closed ({#condend#} + M) ?K (?X (n1 @ n2 @ n3))) st10" by (rule emitted_CreateBr [OF s9 eqs(10)]) auto
  then have "emitted st (asrt \<Gamma> C Z Opened M ?K (?X (n1 @ n2 @ n3))) st'" unfolding eqs(11) using emitted_move by simp
  then have "emitted st (asrt \<Gamma> C Z Opened M K (?X (n1 @ n2 @ n3))) st'" by (rule emitted_dropK) auto
  then show "\<exists>new. emitted st (asrt \<Gamma> C Z Opened M K (?X new)) st'" by blast
qed

end
