(* ===== verification/StatementBlocks.thy ===== *)
theory StatementBlocks
  imports StatementRules
begin

text \<open>
  Every method of the visitors for statements and expressions keeps the accounts of blocks,
  provided that the methods for its parts do.
\<close>

section \<open>Expressions\<close>

lemma elemOK_Logical:
  assumes "elemOK e1" "elemOK e2"
  shows "elemOK (toElem_Logical E e isAndAnd e1 e2)"
proof (rule elemOKI)
  fix \<Gamma> C Z M K X st st'
  assume a: "emitted st (asrt \<Gamma> C Z Opened M K X) st" "toElem_Logical E e isAndAnd e1 e2 st = Some st'"
  obtain st1 rhsBB st2 endBB st3 st4 st5 st6 st7 where eqs: "e1 st = Some st1" "insertBB st1 = (rhsBB, st2)" "insertBB st2 = (endBB, st3)"
      "CreateCondBr (if isAndAnd then rhsBB else endBB) (if isAndAnd then endBB else rhsBB) st3 = Some st4"
      "emitIncrement E e (SetInsertPoint rhsBB st4) = Some st5" "withDtors e2 st5 = Some st6" "CreateBr endBB st6 = Some st7" "st' = SetInsertPoint endBB st7"
    using a(2) unfolding toElem_Logical_def by (auto split: prod.splits Option.bind_splits simp del: if_split)
  let ?K = "insert endBB (insert rhsBB K)"
  obtain new where s1: "emitted st (asrt \<Gamma> C Z Opened M K (X\<lparr>cleanups := cleanups X @ new\<rparr>)) st1" using elemOKD [OF assms(1) a(1) eqs(1)] by blast
  let ?X = "X\<lparr>cleanups := cleanups X @ new\<rparr>"
  have s3: "emitted st (asrt \<Gamma> C Z Opened ({#rhsBB, endBB#} + M) ?K ?X) st3"
    using emitted_insert [OF emitted_insert [OF s1 eqs(2)] eqs(3)] by (simp add: add_mset_commute)
  have s4: "emitted st (asrt \<Gamma> C Z Closed ({#rhsBB, endBB#} + M) ?K ?X) st4" by (rule emitted_CreateCondBr [OF s3 eqs(4)]) auto
  have s5: "emitted st (asrt \<Gamma> C Z Opened ({#endBB#} + M) ?K ?X) st5" using emitted_emitIncrement [OF emitted_move eqs(5)] s4 by simp
  note s6 = plainOKD [OF plainOK_withDtors [OF assms(2)] s5 eqs(6)]
  have "emitted st (asrt \<Gamma> C Z Closed ({#endBB#} + M) ?K ?X) st7" by (rule emitted_CreateBr [OF s6 eqs(7)]) auto
  then have "emitted st (asrt \<Gamma> C Z Opened M ?K ?X) st'" unfolding eqs(8) using emitted_move by simp
  then have "emitted st (asrt \<Gamma> C Z Opened M K ?X) st'" by (rule emitted_dropK) auto
  then show "\<exists>new. emitted st (asrt \<Gamma> C Z Opened M K (X\<lparr>cleanups := cleanups X @ new\<rparr>)) st'" by blast
qed

lemma plainOK_bind:
  assumes "plainOK f" "plainOK g"
  shows "plainOK (\<lambda>st. f st \<bind> g)"
  by (rule plainOKI) (auto split: Option.bind_splits intro: plainOKD [OF assms(2) plainOKD [OF assms(1)]])

lemma plainOK_emitAssertFailure: "elemOK msg \<Longrightarrow> plainOK (emitAssertFailure E msg)"
  using plainOK_bind [OF plainOK_withDtors plainOK_callRuntime, of msg E] plainOK_Some(1)
  unfolding emitAssertFailure_def [abs_def] by (cases "checkActionHalt E") simp_all

lemma elemOK_Assert:
  assumes "elemOK e1" "elemOK msg" "elemOK invariantCall"
  shows "elemOK (toElem_Assert E e1 msg invariantCall)"
proof (rule elemOKI)
  fix \<Gamma> C Z M K X st st'
  assume a: "emitted st (asrt \<Gamma> C Z Opened M K X) st" "toElem_Assert E e1 msg invariantCall st = Some st'"
  show "\<exists>new. emitted st (asrt \<Gamma> C Z Opened M K (X\<lparr>cleanups := cleanups X @ new\<rparr>)) st'"
  proof (cases "useAssert E")
    case False
    then show ?thesis using a by (intro exI [of _ "[]"]) (simp add: toElem_Assert_def)
  next
    case True
    obtain st1 passedbb st2 failedbb st3 st4 st5 st6 where eqs: "e1 st = Some st1" "insertBB st1 = (passedbb, st2)" "insertBB st2 = (failedbb, st3)"
        "CreateCondBr passedbb failedbb st3 = Some st4" "emitAssertFailure E msg (SetInsertPoint failedbb st4) = Some st5"
        "CreateUnreachable st5 = Some st6" "invariantCall (SetInsertPoint passedbb st6) = Some st'"
      using a(2) True unfolding toElem_Assert_def by (auto split: prod.splits Option.bind_splits)
    obtain new where s1: "emitted st (asrt \<Gamma> C Z Opened M K (X\<lparr>cleanups := cleanups X @ new\<rparr>)) st1" using elemOKD [OF assms(1) a(1) eqs(1)] by blast
    let ?K = "insert failedbb (insert passedbb K)" and ?X = "X\<lparr>cleanups := cleanups X @ new\<rparr>"
    note s3 = emitted_insert [OF emitted_insert [OF s1 eqs(2)] eqs(3)]
    have s4: "emitted st (asrt \<Gamma> C Z Closed ({#failedbb, passedbb#} + M) ?K ?X) st4" using emitted_CreateCondBr [OF s3 eqs(4)] by simp
    have "emitted st (asrt \<Gamma> C Z Opened ({#passedbb#} + M) ?K ?X) (SetInsertPoint failedbb st4)" using emitted_move s4 by simp
    note s5 = plainOKD [OF plainOK_emitAssertFailure [OF assms(2)] this eqs(5)]
    have "emitted st (asrt \<Gamma> C Z Opened M ?K ?X) (SetInsertPoint passedbb st6)" using emitted_move emitted_CreateRet(2) [OF s5 eqs(6)] by simp
    from elemOKD [OF assms(3) this eqs(7)] obtain n2 where s7: "emitted st (asrt \<Gamma> C Z Opened M ?K (?X\<lparr>cleanups := cleanups ?X @ n2\<rparr>)) st'" by blast
    have "emitted st (asrt \<Gamma> C Z Opened M K (X\<lparr>cleanups := cleanups X @ (new @ n2)\<rparr>)) st'"
      using emitted_dropK [OF s7, of K] by (simp add: subset_insertI2 subset_insertI)
    then show ?thesis by blast
  qed
qed

text \<open>
  What the other expressions do is up to the environment: their methods keep the accounts if
  those of their operands do, and leave no cleanups behind if those of their operands do not. The value of a case that is not a constant is a variable, so its
  code stays in the current block.
\<close>

definition admissible :: "ToIREnv \<Rightarrow> bool" where
  "admissible E \<longleftrightarrow> (\<forall>p ops. (\<forall>f\<in>set ops. elemOK f) \<longrightarrow> elemOK (otherElem E p ops))
     \<and> (\<forall>p ops. (\<forall>f\<in>set ops. plainOK f) \<longrightarrow> plainOK (otherElem E p ops))
     \<and> (\<forall>p st st'. caseElem E p st = Some st' \<longrightarrow> FuncGenState.FuncGenState.truncate st' = FuncGenState.FuncGenState.truncate st \<and> retBlock st' = retBlock st)"

lemma elemOK_other: "admissible E \<Longrightarrow> (\<And>f. f \<in> set ops \<Longrightarrow> elemOK f) \<Longrightarrow> elemOK (otherElem E p ops)"
  by (simp add: admissible_def)

lemma plainOK_other: "admissible E \<Longrightarrow> plainOK (otherElem E p [])"
  by (simp add: admissible_def)

lemma elemOK_toElem:
  assumes "admissible E"
  shows "elemOK (toElem E a)"
proof (induction a rule: measure_induct_rule [of size])
  case (less a)
  have IH: "elemOK (toElem E x)" if "x \<in> set (elemParts (elemClass a))" for x by (rule less) (rule size_elemParts [OF that])
  show ?case
    by (cases "elemClass a"; subst toElem.simps)
      (use IH in \<open>auto intro!: plainOK_Some elemOK_Cond elemOK_Logical elemOK_Assert elemOK_Declaration elemOK_other [OF assms]\<close>)
qed

lemma plainOK_toElemDtor: "admissible E \<Longrightarrow> plainOK (toElemDtor E a)"
  unfolding toElemDtor_def [abs_def] by (simp add: plainOK_withDtors elemOK_toElem)

section \<open>Statements without cases of their own\<close>

lemma stmtOKI:
  assumes "\<And>\<Gamma> C Z M K X st st'. casesHere \<Gamma> = A \<Longrightarrow> ks \<subseteq> C \<Longrightarrow> inn \<subseteq> Z \<Longrightarrow> emitted st (asrt \<Gamma> C Z Opened M K X) st \<Longrightarrow> f st = Some st' \<Longrightarrow>
    emitted st (asrt \<Gamma> (C - ks) (Z - inn) (if closes then Either else Opened) M K X) st'"
  shows "stmtOK A ks inn closes f"
  using assms unfolding stmtOK_def by blast

lemma emitted_flow: "emitted st0 (asrt \<Gamma> C Z Opened M K X) st \<Longrightarrow> emitted st0 (asrt \<Gamma> C Z (if closes then Either else Opened) M K X) st"
  by (erule emitted_weaken) (auto intro: asrt_weaken)

lemma stmtOK_closes:
  assumes "stmtOK A ks inn False f"
  shows "stmtOK A ks inn closes f"
proof (rule stmtOKI)
  fix \<Gamma> C Z M K X st st'
  assume a: "casesHere \<Gamma> = A" "ks \<subseteq> C" "inn \<subseteq> Z" "emitted st (asrt \<Gamma> C Z Opened M K X) st" "f st = Some st'"
  show "emitted st (asrt \<Gamma> (C - ks) (Z - inn) (if closes then Either else Opened) M K X) st'"
    using emitted_flow stmtOKD [OF assms a(4,5,1-3)] by simp
qed

lemma stmtOK_plain: "plainOK f \<Longrightarrow> stmtOK A {} {} closes f"
  by (rule stmtOK_closes) (simp add: plainOK_def)

lemma emitted_enterNewBB:
  assumes "emitted st0 (asrt \<Gamma> C Z Closed M K X) st" "enterNewBB st = Some st'"
  shows "emitted st0 (asrt \<Gamma> C Z Opened M K X) st'"
proof -
  obtain bb st1 where eqs: "insertBB st = (bb, st1)" "st' = SetInsertPoint bb st1" using assms(2) by (auto simp: enterNewBB_def split: prod.splits)
  show ?thesis unfolding eqs(2) by (rule emitted_dropK [OF emitted_move [OF emitted_insert [OF assms(1) eqs(1)]]]) auto
qed

lemma plainOK_DtoThrow: "plainOK (DtoThrow E)"
proof (rule plainOKI)
  fix \<Gamma> C Z M K X st st'
  assume a: "emitted st (asrt \<Gamma> C Z Opened M K X) st" "DtoThrow E st = Some st'"
  obtain st1 st2 where eqs: "callRuntime E st = Some st1" "CreateUnreachable st1 = Some st2" "enterNewBB st2 = Some st'"
    using a(2) by (auto simp: DtoThrow_def enterNewBB_def split: prod.splits Option.bind_splits)
  show "emitted st (asrt \<Gamma> C Z Opened M K X) st'"
    by (rule emitted_enterNewBB [OF emitted_CreateRet(2) [OF plainOKD [OF plainOK_callRuntime a(1) eqs(1)] eqs(2)] eqs(3)])
qed

lemma plainOK_Throw: "elemOK e \<Longrightarrow> plainOK (toIR_Throw E e)"
  using plainOK_bind [OF plainOK_withDtors plainOK_DtoThrow, of e E]
  by (cases "dcomputetarget E") (auto simp: toIR_Throw_def [abs_def] plainOK_def stmtOK_def)

section \<open>Jumps\<close>

lemma emitted_jumpTo:
  assumes "emitted st0 (asrt \<Gamma> C Z fl M K X) st" "jumpTo t st = Some st'" "targetBlock t \<in> held st"
  shows "emitted st0 (asrt \<Gamma> C Z Closed M K X) st'"
  using emitted_run [OF assms(1) assms(2) [unfolded jumpTo_def]] assms(3) by (auto elim: emitted_weaken)

lemma emitted_jumpToStatement:
  assumes "emitted st0 (asrt \<Gamma> C Z fl M K X) st" "jumpToStatement ts s st = Some st'" "targetBlock ` set ts \<subseteq> held st"
  shows "emitted st0 (asrt \<Gamma> C Z Closed M K X) st'"
proof -
  obtain t where "find (\<lambda>t. targetStatement t = s) (rev ts) = Some t" "jumpTo t st = Some st'"
    using assms(2) by (auto simp: jumpToStatement_def split: Option.bind_splits)
  moreover from this(1) have "t \<in> set (rev ts)" unfolding find_Some_iff using nth_mem [of _ "rev ts"] by metis
  ultimately show ?thesis using emitted_jumpTo [OF assms(1)] assms(3) by (simp add: image_subset_iff)
qed

lemma emitted_jumpToClosest:
  assumes "emitted st0 (asrt \<Gamma> C Z fl M K X) st" "jumpToClosest ts st = Some st'" "targetBlock ` set ts \<subseteq> held st"
  shows "emitted st0 (asrt \<Gamma> C Z Closed M K X) st'"
proof -
  have "ts \<noteq> []" "jumpTo (last ts) st = Some st'" using assms(2) by (auto simp: jumpToClosest_def split: if_splits)
  then show ?thesis using emitted_jumpTo [OF assms(1)] assms(3) by (simp add: image_subset_iff)
qed

lemmas jump_defs = breakToStatement_def breakToClosest_def continueWithLoop_def continueWithClosest_def

lemma held_targets: "targetBlock ` set (breakTargets st) \<subseteq> held st" "targetBlock ` set (continueTargets st) \<subseteq> held st"
    "labelTargets st l = Some t \<Longrightarrow> targetBlock t \<in> held st" "targetBBs st p = Some b \<Longrightarrow> b \<in> held st"
  by (auto simp: held_def intro: ranI)

lemma plainOK_Break: "plainOK (toIR_Break E t)"
proof (rule plainOKI)
  fix \<Gamma> C Z M K X st st'
  assume a: "emitted st (asrt \<Gamma> C Z Opened M K X) st" "toIR_Break E t st = Some st'"
  show "emitted st (asrt \<Gamma> C Z Opened M K X) st'"
  proof (cases "scopereturned st")
    case True
    then show ?thesis using a by (simp add: toIR_Break_def)
  next
    case False
    then obtain st1 where "emitted st (asrt \<Gamma> C Z Closed M K X) st1" "enterNewBB st1 = Some st'"
      using a emitted_jumpToStatement [OF a(1) _ held_targets(1)] emitted_jumpToClosest [OF a(1) _ held_targets(1)]
      by (auto simp: toIR_Break_def jump_defs split: option.splits Option.bind_splits)
    then show ?thesis by (rule emitted_enterNewBB)
  qed
qed

lemma plainOK_Continue: "plainOK (toIR_Continue E t)"
proof (rule plainOKI)
  fix \<Gamma> C Z M K X st st'
  assume a: "emitted st (asrt \<Gamma> C Z Opened M K X) st" "toIR_Continue E t st = Some st'"
  then obtain st1 where "emitted st (asrt \<Gamma> C Z Closed M K X) st1" "enterNewBB st1 = Some st'"
    using emitted_jumpToStatement [OF a(1) _ held_targets(2)] emitted_jumpToClosest [OF a(1) _ held_targets(2)]
    by (auto simp: toIR_Continue_def jump_defs split: option.splits Option.bind_splits)
  then show "emitted st (asrt \<Gamma> C Z Opened M K X) st'" by (rule emitted_enterNewBB)
qed

text \<open>Gotos and labels.\<close>

lemma emitted_goto:
  assumes "emitted st0 (asrt \<Gamma> C Z fl M K X) st" "registerUnresolvedGoto loc l st = Some st'"
  shows "emitted st0 (asrt \<Gamma> C Z Closed M K X) st'"
  using assms(1)
proof (rule emitted_step)
  show "nextBB st \<le> nextBB st'" using assms(2)
    by (auto simp: registerUnresolvedGoto_def insertBB_def CreateBr_def terminate_def Let_def split: Option.bind_splits if_splits)
  assume a: "asrt \<Gamma> C Z fl M K X st" and n: "nextBB st' < 2 ^ 32"
  obtain isOpen where acc: "accounted isOpen (set_mset M \<union> ahead C st) (K \<union> held st) (set_option (retBlock st)) st"
    using a by (auto simp: asrt_def elim: balancedE)
  note p = accounted_goto [OF acc assms(2) n]
  have "asrt \<Gamma> C Z Closed M K X st'"
    by (rule asrt_change [OF a p(5)]) (use p a in \<open>auto simp: asrt_def balanced_def stacksOK_def\<close>)
  then show "asrt \<Gamma> C Z Closed M K X st' \<and> codegen st st'" using p(2) by simp
qed

lemma plainOK_Goto: "plainOK (toIR_Goto E p)"
proof (rule plainOKI)
  fix \<Gamma> C Z M K X st st'
  assume a: "emitted st (asrt \<Gamma> C Z Opened M K X) st" "toIR_Goto E p st = Some st'"
  then obtain l st1 where st1: "jumpToLabel (gotoLoc E p) l st = Some st1" "enterNewBB st1 = Some st'"
    by (auto simp: toIR_Goto_def DtoGoto_def split: Option.bind_splits if_splits)
  have "emitted st (asrt \<Gamma> C Z Closed M K X) st1"
    using st1(1) emitted_jumpTo [OF a(1)] held_targets(3) emitted_goto [OF a(1)] by (auto simp: jumpToLabel_def split: option.splits)
  then show "emitted st (asrt \<Gamma> C Z Opened M K X) st'" using st1(2) by (rule emitted_enterNewBB)
qed

lemma emitted_resolve:
  assumes "emitted st0 (asrt \<Gamma> C Z fl M K X) st" "b \<in> K"
  shows "emitted st0 (asrt \<Gamma> C Z fl M K X) (tryResolveGotos l b st)"
  using assms(1)
proof (rule emitted_step)
  show "nextBB st \<le> nextBB (tryResolveGotos l b st)" by (simp add: tryResolveGotos_eq resolveOne_cs forgetGotos_def)
  assume a: "asrt \<Gamma> C Z fl M K X st"
  obtain isOpen where acc: "accounted isOpen (set_mset M \<union> ahead C st) (K \<union> held st) (set_option (retBlock st)) st"
    using a by (auto simp: asrt_def elim: balancedE)
  have b: "b \<in> K \<union> held st" using assms(2) by simp
  note p = accounted_resolve [OF acc b, where l = l]
  have "asrt \<Gamma> C Z fl M K X (tryResolveGotos l b st)"
  proof (rule asrt_change [OF a])
    fix isOpen
    assume "flowing fl isOpen" "accounted isOpen (set_mset M \<union> ahead C st) (K \<union> held st) (set_option (retBlock st)) st"
    then show "\<exists>isOpen'. flowing fl isOpen' \<and> accounted isOpen' (set_mset M \<union> ahead C st) (K \<union> held st) (set_option (retBlock st)) (tryResolveGotos l b st)"
      using accounted_resolve(1) [OF _ b] by blast
  qed (use p a in \<open>auto simp: asrt_def balanced_def stacksOK_def tryResolveGotos_shape\<close>)
  then show "asrt \<Gamma> C Z fl M K X (tryResolveGotos l b st) \<and> codegen st (tryResolveGotos l b st)" using p(2) by simp
qed

lemma emitted_addLabelTarget:
  assumes "emitted st0 (asrt \<Gamma> C Z fl M K X) st" "b \<in> K"
  shows "emitted st0 (asrt \<Gamma> C Z fl M K X) (addLabelTarget l b st)"
proof -
  let ?st = "st\<lparr>labelTargets := (labelTargets st)(l \<mapsto> newJumpTarget b nullptr st)\<rparr>"
  have "Map.ran (labelTargets ?st) \<subseteq> insert (newJumpTarget b nullptr st) (Map.ran (labelTargets st))"
    by (auto simp: Map.ran_def)
  then have "targetBlock ` Map.ran (labelTargets ?st) \<subseteq> insert b (targetBlock ` Map.ran (labelTargets st))"
    by (auto simp: newJumpTarget_def)
  then have "held ?st \<subseteq> K \<union> held st" using assms(2) unfolding held_def image_Un by auto
  then have "emitted st0 (asrt \<Gamma> C Z fl M K (X\<lparr>breaks := breaks X, continues := continues X\<rparr>)) ?st"
    by (intro emitted_fields [OF assms(1)]) (auto simp: TryCatchFinallyScopes.truncate_def asrtD(8,9))
  then show ?thesis unfolding addLabelTarget_def using emitted_resolve [OF _ assms(2)] by simp
qed

lemma stmtOK_Label:
  assumes "stmtOK A ks inn closes s"
  shows "stmtOK A ks inn closes (toIR_Label E p s)"
proof (rule stmtOKI)
  fix \<Gamma> C Z M K X st st'
  assume a: "casesHere \<Gamma> = A" "ks \<subseteq> C" "inn \<subseteq> Z" "emitted st (asrt \<Gamma> C Z Opened M K X) st" "toIR_Label E p s st = Some st'"
  obtain labelBB st1 st2 st3 where eqs: "insertBB st = (labelBB, st1)"
      "branchUnlessReturned labelBB (addLabelTarget (labelIdent E p) labelBB st1) = Some st2"
      "emitIncrement E p (SetInsertPoint labelBB st2) = Some st3" "s st3 = Some st'"
    using a(5) by (auto simp: toIR_Label_def split: prod.splits Option.bind_splits)
  have s1: "emitted st (asrt \<Gamma> C Z Opened (add_mset labelBB M) (insert labelBB K) X) (addLabelTarget (labelIdent E p) labelBB st1)"
    by (rule emitted_addLabelTarget [OF emitted_insert [OF a(4) eqs(1)]]) simp
  note s2 = emitted_branchUnlessReturned [OF s1 eqs(2)]
  note s3 = emitted_emitIncrement [OF emitted_move [OF s2] eqs(3)]
  show "emitted st (asrt \<Gamma> (C - ks) (Z - inn) (if closes then Either else Opened) M K X) st'"
    by (rule emitted_dropK [OF stmtOKD [OF assms s3 eqs(4) a(1-3)]]) auto
qed

section \<open>Returns\<close>

lemma accounted_return:
  fixes st :: ToIRState
  assumes "accounted isOpen W K {} st" "insertBB st = (b, st1)" "runCleanups 0 b (st1\<lparr>retBlock := Some b\<rparr>) = Some st2" "popCleanups z st2 = Some st3"
    "CreateRet (SetInsertPoint b st3) = Some st4" "\<forall>tc\<in>set (tryCatchScopes st). cleanupScope tc \<le> z" "nextBB st4 < 2 ^ 32"
  shows "accounted False W K {b} st4" "codegen st st4" "pairs st4 = take z (pairs st)" "tryCatchScopes st4 = tryCatchScopes st"
    "TryCatchFinallyScopes.more st4 = TryCatchFinallyScopes.more (st\<lparr>retBlock := Some b\<rparr>)"
proof -
  have st1: "st1 = snd (insertBB st)" "b = nextBB st" using assms(2) by (auto simp: insertBB_def)
  have n4: "nextBB st4 = nextBB st3" using assms(5) by (auto simp: CreateRet_def SetInsertPoint_def terminate_def split: Option.bind_splits if_splits)
  let ?st1 = "st1\<lparr>retBlock := Some b\<rparr>"
  have r: "runCleanups_from (currentCleanupScope ?st1) 0 b ?st1 = Some st2" using assms(3) by (simp add: runCleanups_def)
  have n: "nextBB st3 < 2 ^ 32" "nextBB st2 \<le> nextBB st3" "nextBB st2 = Suc (nextBB st)"
    using assms(7) n4 popCleanups_grows [OF assms(4)] runCleanups_from_shape(1) [OF r] by (simp_all add: st1 insertBB_def)
  have "Suc (nextBB st) < 2 ^ 32" using n by simp
  note i = accounted_insert [OF assms(1) this, folded st1]
  have tr: "TryCatchFinallyScopes.truncate ?st1 = TryCatchFinallyScopes.truncate st1" by (simp add: TryCatchFinallyScopes.truncate_def)
  note m = accounted_more [OF i(1) tr]
  note ru = accounted_run [OF m(1) assms(3)]
  have bK: "b \<in> insert b K" by simp
  have p1: "pairs ?st1 = pairs st" "tryCatchScopes ?st1 = tryCatchScopes st" by (simp_all add: st1 insertBB_def pairs_def)
  have rf: "ranFrom z st2" using ru(7) [OF bK] by (auto simp: ranFrom_def dest: in_set_dropD)
  have t: "\<forall>tc\<in>set (tryCatchScopes st2). cleanupScope tc \<le> z" using assms(6) ru(4) [OF bK] p1 by simp
  note po = accounted_pop [OF ru(1) [OF bK] assms(4) rf t n(1)]
  have bW: "b \<notin> W" using accountedD(8) [OF assms(1)] st1(2) by blast
  note mo = accounted_move [OF po(1) bW]
  have mo': "accounted True W (insert b K) {} (SetInsertPoint b st3)" using mo(1) by (simp add: SetInsertPoint_def)
  note te = accounted_terminate [OF mo' assms(5) [unfolded CreateRet_def]]
  have te': "accounted False W (insert b K) {} st4" by (rule te(1)) simp
  have sb: "scopebb st4 = b" using te(4) by (simp add: SetInsertPoint_def)
  have "terminated (bbs st4) b" "b \<notin> ends st4" using te' accountedD(5) [OF te'] sb by (auto simp: accounted_def)
  then have "accounted False W (insert b K) {b} st4" using te' unfolding accounted_def by simp
  then show "accounted False W K {b} st4" by (rule accounted_mono) auto
  have "codegen st st3" using codegen_trans [OF po(2) codegen_trans [OF ru(2) [OF bK] codegen_trans [OF m(2) i(2)]]] by simp
  moreover have "codegen st3 st4" using codegen_trans [OF te(2) mo(2) [folded SetInsertPoint_def]] by simp
  ultimately show "codegen st st4" by (rule codegen_trans [rotated])
  show "pairs st4 = take z (pairs st)" "tryCatchScopes st4 = tryCatchScopes st"
    using te(6,7) po(3,4) ru(3,4) [OF bK] p1 by (simp_all add: SetInsertPoint_def pairs_def)
  show "TryCatchFinallyScopes.more st4 = TryCatchFinallyScopes.more (st\<lparr>retBlock := Some b\<rparr>)"
    using te(5) po(5) ru(5) [OF bK] by (cases st) (simp add: SetInsertPoint_def st1 insertBB_def)
qed

lemma emitted_revisit:
  assumes "emitted st0 (asrt \<Gamma> C Z Closed M K X) st" "retBlock st = Some b"
  shows "emitted st0 (asrt \<Gamma> C Z Closed M K X) (SetInsertPoint b st)"
  using assms(1)
proof (rule emitted_step)
  show "nextBB st \<le> nextBB (SetInsertPoint b st)" by (simp add: SetInsertPoint_def)
  assume a: "asrt \<Gamma> C Z Closed M K X st"
  have acc: "accounted False (set_mset M \<union> ahead C st) (K \<union> held st) (set_option (retBlock st)) st" using a by (auto simp: asrt_def balanced_def)
  have "b \<in> set_option (retBlock st)" by (simp add: assms(2))
  note m = accounted_revisit [OF acc this, folded SetInsertPoint_def]
  have "asrt \<Gamma> C Z Closed M K X (SetInsertPoint b st)"
    by (rule asrt_change [OF a]) (use m(1) a in \<open>auto simp: SetInsertPoint_def asrt_def balanced_def stacksOK_def pairs_def\<close>)
  then show "asrt \<Gamma> C Z Closed M K X (SetInsertPoint b st) \<and> codegen st (SetInsertPoint b st)" using m(2) by simp
qed

lemma emitted_emitReturn_shared:
  assumes "emitted st0 (\<lambda>s. asrt \<Gamma> C Z Opened M K (X\<lparr>cleanups := cleanups X @ new\<rparr>) s \<and> enclosing z X) st" "retBlock st = Some b"
    "runCleanups 0 b st = Some st2" "popCleanups z st2 = Some st3"
  shows "emitted st0 (asrt \<Gamma> C Z Closed M K X) (SetInsertPoint b st3)"
proof -
  have s0: "emitted st0 (asrt \<Gamma> C Z Opened M K (X\<lparr>cleanups := cleanups X @ new\<rparr>)) st" by (rule emitted_weaken [OF assms(1)]) simp
  note s2 = emitted_run [OF s0 assms(3)]
  have s2': "emitted st0 (\<lambda>s. asrt \<Gamma> C Z Closed M K (X\<lparr>cleanups := cleanups X @ new\<rparr>) s \<and> ranFrom z s \<and> enclosing z X) st2"
    using s2 assms(1,2) runCleanups_from_shape(1) [OF assms(3) [unfolded runCleanups_def]]
    by (auto simp: emitted_def ranFrom_def dest: in_set_dropD)
  have rb: "retBlock st3 = Some b" using assms(2) runCleanups_from_shape(2) [OF assms(3) [unfolded runCleanups_def]] popCleanups_shape(1) [OF assms(4)]
    more_fields(5) [of st2 st] more_fields(5) [of st3 st2] by (simp add: sameScopes_def popped_def)
  show ?thesis by (rule emitted_revisit [OF emitted_pop [OF s2' assms(4)] rb])
qed

lemma emitted_emitReturn_new:
  assumes "emitted st0 (\<lambda>s. asrt \<Gamma> C Z Opened M K (X\<lparr>cleanups := cleanups X @ new\<rparr>) s \<and> enclosing z X) st" "retBlock st = None"
    "insertBB st = (b, st1)" "runCleanups 0 b (st1\<lparr>retBlock := Some b\<rparr>) = Some st2" "popCleanups z st2 = Some st3" "CreateRet (SetInsertPoint b st3) = Some st4"
  shows "emitted st0 (asrt \<Gamma> C Z Closed M K X) st4"
  using assms(1)
proof (rule emitted_step)
  have "nextBB st4 = nextBB st3" using assms(6) by (auto simp: CreateRet_def SetInsertPoint_def terminate_def split: Option.bind_splits if_splits)
  moreover have "nextBB st2 = nextBB st1" using runCleanups_from_shape(1) [OF assms(4) [unfolded runCleanups_def]] by simp
  ultimately show "nextBB st \<le> nextBB st4" using popCleanups_grows [OF assms(5)] assms(3) by (auto simp: insertBB_def)
  assume "asrt \<Gamma> C Z Opened M K (X\<lparr>cleanups := cleanups X @ new\<rparr>) st \<and> enclosing z X" and n: "nextBB st4 < 2 ^ 32"
  then have a: "asrt \<Gamma> C Z Opened M K (X\<lparr>cleanups := cleanups X @ new\<rparr>) st" and z: "enclosing z X" by simp_all
  have acc: "accounted True (set_mset M \<union> ahead C st) (K \<union> held st) {} st" using a assms(2) by (auto simp: asrt_def balanced_def)
  have t: "\<forall>tc\<in>set (tryCatchScopes st). cleanupScope tc \<le> z" using z asrtD(5) [OF a] by (auto simp: enclosing_def)
  note r = accounted_return [OF acc assms(3-6) t n]
  have f: "targetBBs st4 = targetBBs st" "held st4 = held st" "ahead C st4 = ahead C st" "retBlock st4 = Some b" "breakTargets st4 = breakTargets st" "continueTargets st4 = continueTargets st"
    using r(5) by (cases st; cases st4; simp add: held_def ahead_def)+
  have "balanced Closed M K C st4" using r(1) a unfolding asrt_def balanced_def f by auto
  moreover have "stacksOK X st4" using a r(3,4) z unfolding asrt_def stacksOK_def f by (simp add: enclosing_def)
  ultimately show "asrt \<Gamma> C Z Closed M K X st4 \<and> codegen st st4" using a r(2) f(1) by (simp add: asrt_def)
qed

lemma plainOK_Return:
  assumes "elemOK (otherElem E p [e])"
  shows "plainOK (toIR_Return E p e)"
proof (rule plainOKI)
  fix \<Gamma> C Z M K X st st'
  assume a: "emitted st (asrt \<Gamma> C Z Opened M K X) st" "toIR_Return E p e st = Some st'"
  let ?z = "currentCleanupScope st"
  obtain st1 st2 where eqs: "otherElem E p [e] st = Some st1" "emitReturn ?z st1 = Some st2" "enterNewBB st2 = Some st'"
    using a(2) by (auto simp: toIR_Return_def split: Option.bind_splits)
  obtain new where s1: "emitted st (asrt \<Gamma> C Z Opened M K (X\<lparr>cleanups := cleanups X @ new\<rparr>)) st1" using elemOKD [OF assms a(1) eqs(1)] by blast
  have s1': "emitted st (\<lambda>s. asrt \<Gamma> C Z Opened M K (X\<lparr>cleanups := cleanups X @ new\<rparr>) s \<and> enclosing ?z X) st1"
    by (rule emitted_start [OF a(1) s1 asrt_enclosing])
  have "emitted st (asrt \<Gamma> C Z Closed M K X) st2"
  proof (cases "currentCleanupScope st1 = 0")
    case True
    then have r: "CreateRet st1 = Some st2" using eqs(2) by (simp add: emitReturn_def)
    have "asrt \<Gamma> C Z Opened M K X st1" if "asrt \<Gamma> C Z Opened M K (X\<lparr>cleanups := cleanups X @ new\<rparr>) st1"
      using that asrtD(6) [OF that] True by (cases X) simp
    then show ?thesis using emitted_CreateRet(1) [OF emitted_weaken [OF s1] r] by blast
  next
    case c: False
    show ?thesis
    proof (cases "retBlock st1")
      case None
      then show ?thesis using eqs(2) c emitted_emitReturn_new [OF s1' None]
        by (auto simp: emitReturn_def getOrCreateRetBlock_def split: prod.splits Option.bind_splits)
    next
      case (Some b)
      then show ?thesis using eqs(2) c emitted_emitReturn_shared [OF s1' Some]
        by (auto simp: emitReturn_def getOrCreateRetBlock_def split: prod.splits Option.bind_splits)
    qed
  qed
  then show "emitted st (asrt \<Gamma> C Z Opened M K X) st'" using eqs(3) by (rule emitted_enterNewBB)
qed

end
