(* ===== verification/StatementLoops.thy ===== *)
theory StatementLoops
  imports StatementBlocks
begin

text \<open>
  The contracts of sequences, branches and loops.
\<close>

section \<open>Sequences\<close>

lemma asrt_Z: "asrt \<Gamma> C Z fl M K X st \<Longrightarrow> Z' \<subseteq> Z \<Longrightarrow> asrt \<Gamma> C Z' fl M K X st"
  unfolding asrt_def tableOK_def by blast

lemma stmtOK_inn:
  assumes "stmtOK A ks inn closes f" "inn \<subseteq> inn'"
  shows "stmtOK A ks inn' closes f"
proof (rule stmtOKI)
  fix \<Gamma> C Z M K X st st'
  assume a: "casesHere \<Gamma> = A" "ks \<subseteq> C" "inn' \<subseteq> Z" "emitted st (asrt \<Gamma> C Z Opened M K X) st" "f st = Some st'"
  have "inn \<subseteq> Z" using assms(2) a(3) by simp
  from stmtOKD [OF assms(1) a(4,5,1,2) this]
  show "emitted st (asrt \<Gamma> (C - ks) (Z - inn') (if closes then Either else Opened) M K X) st'"
    by (rule emitted_weaken, elim asrt_Z) (use assms(2) in auto)
qed

lemma stmtOK_Some: "stmtOK A {} inn closes Some"
  by (rule stmtOK_inn [OF stmtOK_plain [OF plainOK_Some(1)]]) simp

lemma minus_Un: "A - (B \<union> C) = A - B - C"
  by blast

lemma stmtOK_bind:
  assumes "stmtOK A ks1 inn1 False f" "stmtOK A ks2 inn2 closes g" "ks1 \<inter> ks2 = {}" "inn1 \<inter> inn2 = {}"
  shows "stmtOK A (ks1 \<union> ks2) (inn1 \<union> inn2) closes (\<lambda>st. f st \<bind> g)"
proof (rule stmtOKI)
  fix \<Gamma> C Z M K X st st'
  assume a: "casesHere \<Gamma> = A" "ks1 \<union> ks2 \<subseteq> C" "inn1 \<union> inn2 \<subseteq> Z" "emitted st (asrt \<Gamma> C Z Opened M K X) st" "f st \<bind> g = Some st'"
  then obtain st1 where st1: "f st = Some st1" "g st1 = Some st'" by (auto split: Option.bind_splits)
  have "emitted st (asrt \<Gamma> (C - ks1) (Z - inn1) Opened M K X) st1" using stmtOKD [OF assms(1) a(4) st1(1) a(1)] a(2,3) by simp
  moreover have "ks2 \<subseteq> C - ks1" "inn2 \<subseteq> Z - inn1" using assms(3,4) a(2,3) by auto
  ultimately show "emitted st (asrt \<Gamma> (C - (ks1 \<union> ks2)) (Z - (inn1 \<union> inn2)) (if closes then Either else Opened) M K X) st'"
    using stmtOKD [OF assms(2) _ st1(2) a(1)] by (simp add: minus_Un)
qed

lemma seqEmit_simps: "seqEmit [] = Some" "seqEmit (f # fs) = (\<lambda>st. f st \<bind> seqEmit fs)"
  by (auto simp: seqEmit_def fun_eq_iff split: Option.bind_splits)

lemma stmtOK_seqEmit:
  assumes "\<forall>x\<in>set xs. stmtOK A (set (ks x)) (set (inn x)) (cl x) (f x)" "distinct (concat (map ks xs))" "distinct (concat (map inn xs))"
    "\<forall>x\<in>set (butlast xs). \<not> cl x"
  shows "stmtOK A (set (concat (map ks xs))) (set (concat (map inn xs))) (\<exists>x\<in>set xs. cl x) (seqEmit (map f xs))"
  using assms
proof (induction xs)
  case Nil
  then show ?case by (simp add: seqEmit_simps stmtOK_Some)
next
  case (Cons x xs)
  show ?case
  proof (cases "xs = []")
    case True
    have "f x = (\<lambda>st. f x st \<bind> Some)" by auto
    then show ?thesis using Cons.prems(1) True by (simp add: seqEmit_simps)
  next
    case False
    then have x: "stmtOK A (set (ks x)) (set (inn x)) False (f x)" "\<not> cl x" using Cons.prems(1,4) by auto
    have "stmtOK A (set (concat (map ks xs))) (set (concat (map inn xs))) (\<exists>x\<in>set xs. cl x) (seqEmit (map f xs))"
      by (rule Cons.IH) (use Cons.prems False in auto)
    from stmtOK_bind [OF x(1) this] show ?thesis using Cons.prems(2,3) x(2) by (simp add: seqEmit_simps)
  qed
qed

lemma stmtOK_Scope:
  assumes "stmtOK A ks inn closes s" "\<not> hasStatement \<Longrightarrow> ks = {}"
  shows "stmtOK A ks inn closes (toIR_Scope hasStatement s)"
proof (cases hasStatement)
  case True
  show ?thesis
  proof (rule stmtOKI)
    fix \<Gamma> C Z M K X st st'
    assume a: "casesHere \<Gamma> = A" "ks \<subseteq> C" "inn \<subseteq> Z" "emitted st (asrt \<Gamma> C Z Opened M K X) st" "toIR_Scope hasStatement s st = Some st'"
    obtain st1 where st1: "s (lifetime_pushScope st) = Some st1" "st' = lifetime_popScope st1"
      using a(5) True by (auto simp: toIR_Scope_def split: Option.bind_splits)
    show "emitted st (asrt \<Gamma> (C - ks) (Z - inn) (if closes then Either else Opened) M K X) st'"
      unfolding st1(2) by (rule emitted_lifetime(2) [OF stmtOKD [OF assms(1) emitted_lifetime(1) [OF a(4)] st1(1) a(1-3)]])
  qed
next
  case False
  then show ?thesis using assms(2) stmtOK_Some by (simp add: toIR_Scope_def [abs_def])
qed

lemma stmtOK_With:
  assumes "elemOK e" "stmtOK A ks inn closes s"
  shows "stmtOK A ks inn closes (toIR_With hasWthis e s)"
proof -
  have "stmtOK A {} {} False (if hasWthis then withDtors e else Some)"
    using stmtOK_plain [OF plainOK_withDtors [OF assms(1)]] stmtOK_Some by simp
  from stmtOK_bind [OF this assms(2)] show ?thesis by (simp add: toIR_With_def [abs_def])
qed

section \<open>Branches\<close>

lemma stmtOK_emitIncrement: "plainOK (emitIncrement E p)"
  by (rule plainOKI) (rule emitted_emitIncrement)

lemma stmtOK_increment:
  assumes "stmtOK A ks inn closes s"
  shows "stmtOK A ks inn closes (\<lambda>st. emitIncrement E p st \<bind> s)"
  using stmtOK_bind [OF stmtOK_plain [OF stmtOK_emitIncrement] assms] by simp

lemma stmtOK_IfBody:
  assumes "stmtOK A ks inn closes s" "\<not> hasIf \<Longrightarrow> ks = {}"
  shows "stmtOK A ks inn closes (emitIfBody E p hasIf s)"
  using stmtOK_increment [OF assms(1)] assms(2) stmtOK_Some by (cases hasIf) (simp_all add: emitIfBody_def [abs_def])

lemma emitted_Either: "emitted st0 (asrt \<Gamma> C Z fl M K X) st \<Longrightarrow> emitted st0 (asrt \<Gamma> C Z Either M K X) st"
  by (erule emitted_weaken) (rule asrt_weaken)

text \<open>A part of a statement: move to a block that waits, emit the part, branch to a block.\<close>

lemma emitted_part:
  assumes "stmtOK A ks inn closes s" "emitted st0 (asrt \<Gamma> C Z Closed (add_mset b M) K X) st" "s (SetInsertPoint b st) = Some st1"
    "branchUnlessReturned c st1 = Some st2" "c \<in> K" "casesHere \<Gamma> = A" "ks \<subseteq> C" "inn \<subseteq> Z"
  shows "emitted st0 (asrt \<Gamma> (C - ks) (Z - inn) Closed M K X) st2"
  by (rule emitted_branchUnlessReturned [OF stmtOKD [OF assms(1) emitted_move [OF assms(2)] assms(3,6-8)] assms(4)]) (use assms(5) in simp)

lemma stmtOK_Branches:
  assumes "stmtOK A ks1 inn1 cl1 s1" "stmtOK A ks2 inn2 cl2 s2" "ks1 \<inter> ks2 = {}" "inn1 \<inter> inn2 = {}" "\<not> hasIf \<Longrightarrow> ks1 = {}" "\<not> hasElse \<Longrightarrow> ks2 = {}"
  shows "stmtOK A (ks1 \<union> ks2) (inn1 \<union> inn2) closes (toIR_Branches E p hasIf hasElse s1 s2)"
proof (rule stmtOK_closes, rule stmtOKI)
  fix \<Gamma> C Z M K X st st'
  assume a: "casesHere \<Gamma> = A" "ks1 \<union> ks2 \<subseteq> C" "inn1 \<union> inn2 \<subseteq> Z" "emitted st (asrt \<Gamma> C Z Opened M K X) st" "toIR_Branches E p hasIf hasElse s1 s2 st = Some st'"
  obtain ifbb st1 endbb st2 elsebb st3 st4 st5 st6 st7 where eqs: "insertBB st = (ifbb, st1)" "insertBB st1 = (endbb, st2)"
      "(if hasElse then insertBB st2 else (endbb, st2)) = (elsebb, st3)" "CreateCondBr ifbb elsebb st3 = Some st4"
      "emitIfBody E p hasIf s1 (SetInsertPoint ifbb st4) = Some st5" "branchUnlessReturned endbb st5 = Some st6"
      "emitElseBody hasElse elsebb endbb s2 st6 = Some st7" "st' = lifetime_popScope (SetInsertPoint endbb st7)"
    using a(5) unfolding toIR_Branches_def by (auto split: prod.splits Option.bind_splits simp del: if_split)
  let ?M = "(if hasElse then {#elsebb#} else {#}) + add_mset endbb M" and ?K = "insert elsebb (insert endbb (insert ifbb K))"
  have "emitted st (asrt \<Gamma> C Z Opened (add_mset ifbb ?M) ?K X) st3"
    using emitted_insert [OF emitted_insert [OF a(4) eqs(1)] eqs(2)] emitted_insert [OF emitted_insert [OF emitted_insert [OF a(4) eqs(1)] eqs(2)]] eqs(3)
    by (cases hasElse) (auto simp: add_mset_commute insert_commute)
  from emitted_CreateCondBr [OF this eqs(4)] have s4: "emitted st (asrt \<Gamma> C Z Closed (add_mset ifbb ?M) ?K X) st4" by simp
  have s6: "emitted st (asrt \<Gamma> (C - ks1) (Z - inn1) Closed ?M ?K X) st6"
    by (rule emitted_part [OF stmtOK_IfBody [OF assms(1,5)] s4 eqs(5,6)]) (use a in auto)
  have "emitted st (asrt \<Gamma> (C - (ks1 \<union> ks2)) (Z - (inn1 \<union> inn2)) Closed (add_mset endbb M) ?K X) st7"
  proof (cases hasElse)
    case True
    then obtain st8 where st8: "s2 (SetInsertPoint elsebb st6) = Some st8" "branchUnlessReturned endbb st8 = Some st7"
      using eqs(7) by (auto simp: emitElseBody_def split: Option.bind_splits)
    have "emitted st (asrt \<Gamma> (C - ks1 - ks2) (Z - inn1 - inn2) Closed (add_mset endbb M) ?K X) st7"
      by (rule emitted_part [OF assms(2) _ st8]) (use s6 True a(1-3) assms(3,4) in \<open>auto simp: add_mset_commute\<close>)
    then show ?thesis by (simp add: minus_Un)
  next
    case False
    then show ?thesis using s6 eqs(7) assms(6) by (auto simp: emitElseBody_def elim!: emitted_weaken asrt_Z)
  qed
  note s8 = emitted_lifetime(2) [OF emitted_move [OF this]]
  show "emitted st (asrt \<Gamma> (C - (ks1 \<union> ks2)) (Z - (inn1 \<union> inn2)) (if False then Either else Opened) M K X) st'"
    using emitted_dropK [OF s8, of K] eqs(8) by auto
qed

lemma stmtOK_mono:
  assumes "stmtOK A ks inn closes f" "inn \<subseteq> inn'" "closes \<Longrightarrow> closes'"
  shows "stmtOK A ks inn' closes' f"
  using stmtOK_inn [OF assms(1,2)] stmtOK_closes [of A ks inn' f] assms(3) by (cases closes; cases closes') auto

lemma containsLabel_Null: "\<not> containsLabel Null"
  by (simp add: containsLabel_def ContainsLabelWalker_def walk.simps)

lemma stmtOK_If:
  assumes "elemOK econd" "stmtOK A ks1 inn1 cl1 eif" "stmtOK A ks2 inn2 cl2 eelse" "ks1 \<inter> ks2 = {}" "inn1 \<inter> inn2 = {}"
    "dcReflect E p \<noteq> None \<Longrightarrow> ks1 = {} \<and> ks2 = {}" "\<not> containsLabel ifbody \<Longrightarrow> ks1 = {}" "\<not> containsLabel elsebody \<Longrightarrow> ks2 = {}"
  shows "stmtOK A (ks1 \<union> ks2) (inn1 \<union> inn2) (cl1 \<or> cl2) (toIR_If E p ifbody elsebody econd eif eelse)"
proof -
  have one: "stmtOK A ks1 (inn1 \<union> inn2) (cl1 \<or> cl2) eif" "stmtOK A ks2 (inn1 \<union> inn2) (cl1 \<or> cl2) eelse"
    by (rule stmtOK_mono [OF assms(2)] stmtOK_mono [OF assms(3)]; simp)+
  have scoped: "stmtOK A ks inn cl (\<lambda>st. f (lifetime_pushScope st))" if "stmtOK A ks inn cl f" for ks inn cl f
    using stmtOKD [OF that emitted_lifetime(1)] by (intro stmtOKI) simp
  show ?thesis
  proof (cases "dcReflect E p")
    case (Some args)
    then have "stmtOK A (ks1 \<union> ks2) (inn1 \<union> inn2) (cl1 \<or> cl2) (if dcomputeReflectMatches E args then eif else eelse)"
      using one assms(6) by simp
    from scoped [OF this] show ?thesis unfolding toIR_If_def [abs_def] Some by simp
  next
    case None
    let ?rest = "case elides E p ifbody elsebody of Some c \<Rightarrow> emitElided E p c eif eelse
      | None \<Rightarrow> toIR_Branches E p (ifbody \<noteq> Null) (elsebody \<noteq> Null) eif eelse"
    have "stmtOK A (ks1 \<union> ks2) (inn1 \<union> inn2) (cl1 \<or> cl2) ?rest"
    proof (cases "elides E p ifbody elsebody")
      case None
      have "stmtOK A (ks1 \<union> ks2) (inn1 \<union> inn2) (cl1 \<or> cl2) (toIR_Branches E p (ifbody \<noteq> Null) (elsebody \<noteq> Null) eif eelse)"
        by (rule stmtOK_Branches [OF assms(2-5)]) (use assms(7,8) containsLabel_Null in auto)
      then show ?thesis by (simp add: None)
    next
      case (Some c)
      then have "if c then ks2 = {} else ks1 = {}" using assms(7,8) by (auto simp: elides_def split: option.splits if_splits)
      then show ?thesis using one stmtOK_increment [OF one(1)] by (cases c) (simp_all add: Some emitElided_def [abs_def])
    qed
    from scoped [OF stmtOK_bind [OF stmtOK_plain [OF plainOK_withDtors [OF assms(1)]] this]] show ?thesis
      unfolding toIR_If_def [abs_def] None by simp
  qed
qed

section \<open>Loops\<close>

lemma stmtOK_openI:
  assumes "\<And>\<Gamma> C Z M K X st st'. casesHere \<Gamma> = A \<Longrightarrow> ks \<subseteq> C \<Longrightarrow> inn \<subseteq> Z \<Longrightarrow> emitted st (asrt \<Gamma> C Z Opened M K X) st \<Longrightarrow> f st = Some st' \<Longrightarrow>
    \<exists>K'. K \<subseteq> K' \<and> emitted st (asrt \<Gamma> (C - ks) (Z - inn) Opened M K' X) st'"
  shows "stmtOK A ks inn closes f"
proof (rule stmtOK_closes, rule stmtOKI)
  fix \<Gamma> C Z M K X st st'
  assume a: "casesHere \<Gamma> = A" "ks \<subseteq> C" "inn \<subseteq> Z" "emitted st (asrt \<Gamma> C Z Opened M K X) st" "f st = Some st'"
  show "emitted st (asrt \<Gamma> (C - ks) (Z - inn) (if False then Either else Opened) M K X) st'"
    using assms [OF a] emitted_dropK by auto
qed

lemma emitted_loopBody:
  assumes "stmtOK A ks inn closes s" "emitted st0 (asrt \<Gamma> C Z Opened M K X) st" "s (pushLoopTarget p c b st) = Some st1"
    "popLoopTarget st1 = Some st2" "{c, b} \<subseteq> K" "casesHere \<Gamma> = A" "ks \<subseteq> C" "inn \<subseteq> Z"
  shows "emitted st0 (asrt \<Gamma> (C - ks) (Z - inn) (if closes then Either else Opened) M K X) st2"
proof -
  obtain tb tc where "emitted st0 (asrt \<Gamma> C Z Opened M K (X\<lparr>breaks := breaks X @ [tb], continues := continues X @ [tc]\<rparr>)) (pushLoopTarget p c b st)"
    using emitted_pushLoopTarget [OF assms(2,5)] by blast
  from emitted_popLoopTarget [OF stmtOKD [OF assms(1) this assms(3,6-8)] assms(4)] show ?thesis .
qed

lemma stmtOK_While:
  assumes "elemOK econd" "stmtOK A ks inn cl ebody"
  shows "stmtOK A ks inn closes (toIR_While E p econd ebody)"
proof (rule stmtOK_openI)
  fix \<Gamma> C Z M K X st st'
  assume a: "casesHere \<Gamma> = A" "ks \<subseteq> C" "inn \<subseteq> Z" "emitted st (asrt \<Gamma> C Z Opened M K X) st" "toIR_While E p econd ebody st = Some st'"
  obtain whilebb st1 whilebodybb st2 endbb st3 st4 st5 st6 st8 st9 st10 where eqs: "insertBB st = (whilebb, st1)" "insertBB st1 = (whilebodybb, st2)"
      "insertBB st2 = (endbb, st3)" "CreateBr whilebb st3 = Some st4" "withDtors econd (SetInsertPoint whilebb st4) = Some st5"
      "CreateCondBr whilebodybb endbb st5 = Some st6"
      "emitIncrement E p (pushLoopTarget p whilebb endbb (SetInsertPoint whilebodybb st6)) \<bind> ebody = Some st8"
      "popLoopTarget st8 = Some st9" "branchUnlessReturned whilebb st9 = Some st10" "st' = SetInsertPoint endbb st10"
    using a(5) by (auto simp: toIR_While_def split: prod.splits Option.bind_splits)
  let ?K = "insert endbb (insert whilebodybb (insert whilebb K))"
  have s3: "emitted st (asrt \<Gamma> C Z Opened ({#whilebb, whilebodybb, endbb#} + M) ?K X) st3"
    using emitted_insert [OF emitted_insert [OF emitted_insert [OF a(4) eqs(1)] eqs(2)] eqs(3)] by (simp add: add_mset_commute)
  have "emitted st (asrt \<Gamma> C Z Closed ({#whilebb, whilebodybb, endbb#} + M) ?K X) st4" by (rule emitted_CreateBr [OF s3 eqs(4)]) simp
  then have "emitted st (asrt \<Gamma> C Z Opened ({#whilebodybb, endbb#} + M) ?K X) (SetInsertPoint whilebb st4)" using emitted_move by simp
  note s5 = plainOKD [OF plainOK_withDtors [OF assms(1)] this eqs(5)]
  have "emitted st (asrt \<Gamma> C Z Closed ({#whilebodybb, endbb#} + M) ?K X) st6" by (rule emitted_CreateCondBr [OF s5 eqs(6)]) simp
  then have "emitted st (asrt \<Gamma> C Z Opened ({#endbb#} + M) ?K X) (SetInsertPoint whilebodybb st6)" using emitted_move by simp
  note s9 = emitted_loopBody [OF stmtOK_increment [OF assms(2)] this eqs(7,8) _ a(1-3)]
  have "emitted st (asrt \<Gamma> (C - ks) (Z - inn) Closed ({#endbb#} + M) ?K X) st10" by (rule emitted_branchUnlessReturned [OF s9 eqs(9)]) simp_all
  then have "emitted st (asrt \<Gamma> (C - ks) (Z - inn) Opened M ?K X) st'" unfolding eqs(10) using emitted_move by simp
  then show "\<exists>K'. K \<subseteq> K' \<and> emitted st (asrt \<Gamma> (C - ks) (Z - inn) Opened M K' X) st'" by (intro exI [of _ ?K] conjI) auto
qed

lemma stmtOK_Do:
  assumes "elemOK econd" "stmtOK A ks inn cl ebody"
  shows "stmtOK A ks inn closes (toIR_Do E p ebody econd)"
proof (rule stmtOK_openI)
  fix \<Gamma> C Z M K X st st'
  assume a: "casesHere \<Gamma> = A" "ks \<subseteq> C" "inn \<subseteq> Z" "emitted st (asrt \<Gamma> C Z Opened M K X) st" "toIR_Do E p ebody econd st = Some st'"
  obtain dowhilebb st1 condbb st2 endbb st3 st4 st6 st7 st8 st9 st10 where eqs: "insertBB st = (dowhilebb, st1)" "insertBB st1 = (condbb, st2)"
      "insertBB st2 = (endbb, st3)" "CreateBr dowhilebb st3 = Some st4"
      "emitIncrement E p (pushLoopTarget p condbb endbb (SetInsertPoint dowhilebb st4)) \<bind> ebody = Some st6"
      "popLoopTarget st6 = Some st7" "CreateBr condbb st7 = Some st8" "withDtors econd (SetInsertPoint condbb st8) = Some st9"
      "CreateCondBr dowhilebb endbb st9 = Some st10" "st' = SetInsertPoint endbb st10"
    using a(5) by (auto simp: toIR_Do_def split: prod.splits Option.bind_splits)
  let ?K = "insert endbb (insert condbb (insert dowhilebb K))"
  have s3: "emitted st (asrt \<Gamma> C Z Opened ({#dowhilebb, condbb, endbb#} + M) ?K X) st3"
    using emitted_insert [OF emitted_insert [OF emitted_insert [OF a(4) eqs(1)] eqs(2)] eqs(3)] by (simp add: add_mset_commute)
  have "emitted st (asrt \<Gamma> C Z Closed ({#dowhilebb, condbb, endbb#} + M) ?K X) st4" by (rule emitted_CreateBr [OF s3 eqs(4)]) simp
  then have "emitted st (asrt \<Gamma> C Z Opened ({#condbb, endbb#} + M) ?K X) (SetInsertPoint dowhilebb st4)" using emitted_move by simp
  note s7 = emitted_loopBody [OF stmtOK_increment [OF assms(2)] this eqs(5,6) _ a(1-3)]
  have "emitted st (asrt \<Gamma> (C - ks) (Z - inn) Closed ({#condbb, endbb#} + M) ?K X) st8" by (rule emitted_CreateBr [OF s7 eqs(7)]) simp_all
  then have "emitted st (asrt \<Gamma> (C - ks) (Z - inn) Opened ({#endbb#} + M) ?K X) (SetInsertPoint condbb st8)" using emitted_move by simp
  note s9 = plainOKD [OF plainOK_withDtors [OF assms(1)] this eqs(8)]
  have "emitted st (asrt \<Gamma> (C - ks) (Z - inn) Closed ({#endbb#} + M) ?K X) st10" by (rule emitted_CreateCondBr [OF s9 eqs(9)]) simp
  then have "emitted st (asrt \<Gamma> (C - ks) (Z - inn) Opened M ?K X) st'" unfolding eqs(10) using emitted_move by simp
  then show "\<exists>K'. K \<subseteq> K' \<and> emitted st (asrt \<Gamma> (C - ks) (Z - inn) Opened M K' X) st'" by (intro exI [of _ ?K] conjI) auto
qed

lemma stmtOK_For:
  assumes "stmtOK A ks1 inn1 False einit" "elemOK econd" "stmtOK A ks2 inn2 cl ebody" "elemOK einc" "ks1 \<inter> ks2 = {}" "inn1 \<inter> inn2 = {}"
  shows "stmtOK A (ks1 \<union> ks2) (inn1 \<union> inn2) closes (toIR_For E p einit econd ebody einc)"
proof (rule stmtOK_openI)
  fix \<Gamma> C Z M K X st st'
  assume a: "casesHere \<Gamma> = A" "ks1 \<union> ks2 \<subseteq> C" "inn1 \<union> inn2 \<subseteq> Z" "emitted st (asrt \<Gamma> C Z Opened M K X) st" "toIR_For E p einit econd ebody einc st = Some st'"
  let ?l = "addr (stripScopes (relatedLabeled E p))"
  obtain forbb st1 forbodybb st2 forincbb st3 endbb st4 st5 st6 st8 st9 st11 st12 st13 st14 st15 where eqs:
      "insertBB (lifetime_pushScope st) = (forbb, st1)" "insertBB st1 = (forbodybb, st2)" "insertBB st2 = (forincbb, st3)" "insertBB st3 = (endbb, st4)"
      "einit st4 = Some st5" "CreateBr forbb st5 = Some st6" "withDtors econd (SetInsertPoint forbb (pushLoopTarget ?l forincbb endbb st6)) = Some st8"
      "CreateCondBr forbodybb endbb st8 = Some st9" "emitIncrement E p (SetInsertPoint forbodybb st9) \<bind> ebody = Some st11"
      "branchUnlessReturned forincbb st11 = Some st12" "withDtors einc (SetInsertPoint forincbb st12) = Some st13"
      "branchUnlessReturned forbb st13 = Some st14" "popLoopTarget st14 = Some st15" "st' = lifetime_popScope (SetInsertPoint endbb st15)"
    using a(5) by (auto simp: toIR_For_def split: prod.splits Option.bind_splits)
  let ?M = "{#forbb, forbodybb, forincbb, endbb#} + M" and ?K = "insert endbb (insert forincbb (insert forbodybb (insert forbb K)))"
  have s4: "emitted st (asrt \<Gamma> C Z Opened ?M ?K X) st4"
    using emitted_insert [OF emitted_insert [OF emitted_insert [OF emitted_insert [OF emitted_lifetime(1) [OF a(4)] eqs(1)] eqs(2)] eqs(3)] eqs(4)]
    by (simp add: add_mset_commute)
  have s5: "emitted st (asrt \<Gamma> (C - ks1) (Z - inn1) Opened ?M ?K X) st5" using stmtOKD [OF assms(1) s4 eqs(5) a(1)] a(2,3) by simp
  have "emitted st (asrt \<Gamma> (C - ks1) (Z - inn1) Closed ?M ?K X) st6" by (rule emitted_CreateBr [OF s5 eqs(6)]) simp
  then obtain tb tc where s6: "emitted st (asrt \<Gamma> (C - ks1) (Z - inn1) Closed ?M ?K (X\<lparr>breaks := breaks X @ [tb], continues := continues X @ [tc]\<rparr>))
      (pushLoopTarget ?l forincbb endbb st6)" using emitted_pushLoopTarget [of st \<Gamma> "C - ks1" "Z - inn1" Closed ?M ?K X st6 forincbb endbb ?l] by auto
  let ?X = "X\<lparr>breaks := breaks X @ [tb], continues := continues X @ [tc]\<rparr>"
  have "emitted st (asrt \<Gamma> (C - ks1) (Z - inn1) Opened ({#forbodybb, forincbb, endbb#} + M) ?K ?X) (SetInsertPoint forbb (pushLoopTarget ?l forincbb endbb st6))"
    using emitted_move s6 by simp
  note s8 = plainOKD [OF plainOK_withDtors [OF assms(2)] this eqs(7)]
  have s9: "emitted st (asrt \<Gamma> (C - ks1) (Z - inn1) Closed (add_mset forbodybb ({#forincbb, endbb#} + M)) ?K ?X) st9"
    using emitted_CreateCondBr [OF s8 eqs(8)] by simp
  have "emitted st (asrt \<Gamma> (C - ks1 - ks2) (Z - inn1 - inn2) Closed ({#forincbb, endbb#} + M) ?K ?X) st12"
    by (rule emitted_part [OF stmtOK_increment [OF assms(3)] s9 eqs(9,10)]) (use a(1-3) assms(5,6) in auto)
  then have s12: "emitted st (asrt \<Gamma> (C - (ks1 \<union> ks2)) (Z - (inn1 \<union> inn2)) Opened ({#endbb#} + M) ?K ?X) (SetInsertPoint forincbb st12)"
    using emitted_move by (simp add: minus_Un)
  note s13 = plainOKD [OF plainOK_withDtors [OF assms(4)] s12 eqs(11)]
  have s14: "emitted st (asrt \<Gamma> (C - (ks1 \<union> ks2)) (Z - (inn1 \<union> inn2)) Closed ({#endbb#} + M) ?K ?X) st14"
    by (rule emitted_branchUnlessReturned [OF s13 eqs(12)]) simp
  have "emitted st (asrt \<Gamma> (C - (ks1 \<union> ks2)) (Z - (inn1 \<union> inn2)) Opened M ?K X) st'"
    unfolding eqs(14) using emitted_lifetime(2) [OF emitted_move] emitted_popLoopTarget [OF s14 eqs(13)] by simp
  then show "\<exists>K'. K \<subseteq> K' \<and> emitted st (asrt \<Gamma> (C - (ks1 \<union> ks2)) (Z - (inn1 \<union> inn2)) Opened M K' X) st'" by (intro exI [of _ ?K] conjI) auto
qed

lemma stmtOK_Foreach:
  assumes "plainOK evals" "plainOK copy" "stmtOK A ks inn cl ebody"
  shows "stmtOK A ks inn closes (toIR_Foreach E p evals copy ebody)"
proof (rule stmtOK_openI)
  fix \<Gamma> C Z M K X st st'
  assume a: "casesHere \<Gamma> = A" "ks \<subseteq> C" "inn \<subseteq> Z" "emitted st (asrt \<Gamma> C Z Opened M K X) st" "toIR_Foreach E p evals copy ebody st = Some st'"
  obtain st1 condbb st2 bodybb st3 nextbb st4 endbb st5 st6 st7 st8 st9 st10 st11 st12 st13 where eqs: "evals st = Some st1"
      "insertBB st1 = (condbb, st2)" "insertBB st2 = (bodybb, st3)" "insertBB st3 = (nextbb, st4)" "insertBB st4 = (endbb, st5)"
      "CreateBr condbb st5 = Some st6" "CreateCondBr bodybb endbb (SetInsertPoint condbb st6) = Some st7"
      "emitIncrement E p (SetInsertPoint bodybb st7) = Some st8" "copy st8 = Some st9" "ebody (pushLoopTarget p nextbb endbb st9) = Some st10"
      "popLoopTarget st10 = Some st11" "branchUnlessReturned nextbb st11 = Some st12" "CreateBr condbb (SetInsertPoint nextbb st12) = Some st13"
      "st' = SetInsertPoint endbb st13"
    using a(5) by (auto simp: toIR_Foreach_def split: prod.splits Option.bind_splits)
  let ?K = "insert endbb (insert nextbb (insert bodybb (insert condbb K)))"
  have s5: "emitted st (asrt \<Gamma> C Z Opened ({#condbb, bodybb, nextbb, endbb#} + M) ?K X) st5"
    using emitted_insert [OF emitted_insert [OF emitted_insert [OF emitted_insert [OF plainOKD [OF assms(1) a(4) eqs(1)] eqs(2)] eqs(3)] eqs(4)] eqs(5)]
    by (simp add: add_mset_commute)
  have "emitted st (asrt \<Gamma> C Z Closed ({#condbb, bodybb, nextbb, endbb#} + M) ?K X) st6" by (rule emitted_CreateBr [OF s5 eqs(6)]) simp
  then have s6: "emitted st (asrt \<Gamma> C Z Opened ({#bodybb, nextbb, endbb#} + M) ?K X) (SetInsertPoint condbb st6)" using emitted_move by simp
  have "emitted st (asrt \<Gamma> C Z Closed ({#bodybb, nextbb, endbb#} + M) ?K X) st7" by (rule emitted_CreateCondBr [OF s6 eqs(7)]) simp
  then have "emitted st (asrt \<Gamma> C Z Opened ({#nextbb, endbb#} + M) ?K X) st8" using emitted_emitIncrement [OF emitted_move eqs(8)] by simp
  note s11 = emitted_loopBody [OF assms(3) plainOKD [OF assms(2) this eqs(9)] eqs(10,11) _ a(1-3)]
  have "emitted st (asrt \<Gamma> (C - ks) (Z - inn) Closed ({#nextbb, endbb#} + M) ?K X) st12" by (rule emitted_branchUnlessReturned [OF s11 eqs(12)]) simp_all
  then have s12: "emitted st (asrt \<Gamma> (C - ks) (Z - inn) Opened ({#endbb#} + M) ?K X) (SetInsertPoint nextbb st12)" using emitted_move by simp
  have "emitted st (asrt \<Gamma> (C - ks) (Z - inn) Closed ({#endbb#} + M) ?K X) st13" by (rule emitted_CreateBr [OF s12 eqs(13)]) simp
  then have "emitted st (asrt \<Gamma> (C - ks) (Z - inn) Opened M ?K X) st'" unfolding eqs(14) using emitted_move by simp
  then show "\<exists>K'. K \<subseteq> K' \<and> emitted st (asrt \<Gamma> (C - ks) (Z - inn) Opened M K' X) st'" by (intro exI [of _ ?K] conjI) auto
qed

section \<open>Unrolled loops\<close>

lemma emitted_insertBBs:
  assumes "emitted st0 (asrt \<Gamma> C Z fl M K X) st" "insertBBs n st = (bs, st')"
  shows "emitted st0 (asrt \<Gamma> C Z fl (mset bs + M) (set bs \<union> K) X) st' \<and> length bs = n"
  using assms
proof (induction n arbitrary: M K st bs)
  case (Suc n)
  obtain b st1 bs' where eqs: "insertBB st = (b, st1)" "insertBBs n st1 = (bs', st')" "bs = b # bs'"
    using Suc.prems(2) by (auto split: prod.splits)
  show ?case using Suc.IH [OF emitted_insert [OF Suc.prems(1) eqs(1)] eqs(2)] by (simp add: eqs(3))
qed simp

lemma emitted_unrolledStmts:
  assumes "\<forall>x\<in>set xs. stmtOK A (set (ks x)) (set (inn x)) (cl x) (f x)" "distinct (concat (map ks xs))" "distinct (concat (map inn xs))"
    "emitted st0 (asrt \<Gamma> C Z Closed (mset bs + M) K X) st" "length bs = length xs" "insert endbb (set bs) \<subseteq> K" "casesHere \<Gamma> = A"
    "set (concat (map ks xs)) \<subseteq> C" "set (concat (map inn xs)) \<subseteq> Z" "unrolledStmts E p endbb (map (\<lambda>x. (q x, f x)) xs) bs st = Some st'"
  shows "emitted st0 (asrt \<Gamma> (C - set (concat (map ks xs))) (Z - set (concat (map inn xs))) Closed M K X) st'"
  using assms
proof (induction xs arbitrary: bs C Z st)
  case (Cons x xs)
  obtain b bs' where bs: "bs = b # bs'" using Cons.prems(5) by (cases bs) auto
  let ?next = "case bs' of [] \<Rightarrow> endbb | b # _ \<Rightarrow> b"
  obtain st2 st3 st4 where eqs: "emitIncrement E (q x) (pushLoopTarget p ?next endbb (SetInsertPoint b st)) \<bind> f x = Some st2" "popLoopTarget st2 = Some st3"
      "branchUnlessReturned ?next st3 = Some st4" "unrolledStmts E p endbb (map (\<lambda>x. (q x, f x)) xs) bs' st4 = Some st'"
    using Cons.prems(10) unfolding bs by (auto simp: Let_def split: Option.bind_splits)
  have n: "?next \<in> K" using Cons.prems(6) bs by (cases bs') auto
  have x: "stmtOK A (set (ks x)) (set (inn x)) (cl x) (f x)" using Cons.prems(1) by simp
  have s1: "emitted st0 (asrt \<Gamma> C Z Opened (mset bs' + M) K X) (SetInsertPoint b st)" using emitted_move Cons.prems(4) bs by simp
  have s3: "emitted st0 (asrt \<Gamma> (C - set (ks x)) (Z - set (inn x)) (if cl x then Either else Opened) (mset bs' + M) K X) st3"
    by (rule emitted_loopBody [OF stmtOK_increment [OF x] s1 eqs(1,2)]) (use n Cons.prems(6-9) in auto)
  have s4: "emitted st0 (asrt \<Gamma> (C - set (ks x)) (Z - set (inn x)) Closed (mset bs' + M) K X) st4"
    by (rule emitted_branchUnlessReturned [OF s3 eqs(3)]) (use n in simp)
  have "emitted st0 (asrt \<Gamma> (C - set (ks x) - set (concat (map ks xs))) (Z - set (inn x) - set (concat (map inn xs))) Closed M K X) st'"
    by (rule Cons.IH [OF _ _ _ s4 _ _ _ _ _ eqs(4)]) (use Cons.prems(1-9) bs in auto)
  then show ?case by (simp add: minus_Un)
qed simp

lemma stmtOK_Unrolled:
  assumes "\<forall>x\<in>set xs. stmtOK A (set (ks x)) (set (inn x)) (cl x) (f x)" "distinct (concat (map ks xs))" "distinct (concat (map inn xs))"
  shows "stmtOK A (set (concat (map ks xs))) (set (concat (map inn xs))) closes (toIR_Unrolled E p (map (\<lambda>x. (q x, f x)) xs))"
proof (rule stmtOK_openI)
  fix \<Gamma> C Z M K X st st'
  assume a: "casesHere \<Gamma> = A" "set (concat (map ks xs)) \<subseteq> C" "set (concat (map inn xs)) \<subseteq> Z" "emitted st (asrt \<Gamma> C Z Opened M K X) st"
    "toIR_Unrolled E p (map (\<lambda>x. (q x, f x)) xs) st = Some st'"
  show "\<exists>K'. K \<subseteq> K' \<and> emitted st (asrt \<Gamma> (C - set (concat (map ks xs))) (Z - set (concat (map inn xs))) Opened M K' X) st'"
  proof (cases "xs = []")
    case True
    then show ?thesis using a by (intro exI [of _ K]) (simp add: toIR_Unrolled_def)
  next
    case False
    obtain endbb st1 bs st2 st3 st4 where eqs: "insertBB st = (endbb, st1)" "insertBBs (length xs) st1 = (bs, st2)" "branchUnlessReturned (hd bs) st2 = Some st3"
        "unrolledStmts E p endbb (map (\<lambda>x. (q x, f x)) xs) bs st3 = Some st4" "emitIncrement E p (SetInsertPoint endbb st4) = Some st'"
      using a(5) False by (auto simp: toIR_Unrolled_def split: prod.splits Option.bind_splits)
    let ?K = "set bs \<union> insert endbb K"
    have s2: "emitted st (asrt \<Gamma> C Z Opened (mset bs + add_mset endbb M) ?K X) st2" and n: "length bs = length xs"
      using emitted_insertBBs [OF emitted_insert [OF a(4) eqs(1)] eqs(2)] by simp_all
    have s3: "emitted st (asrt \<Gamma> C Z Closed (mset bs + add_mset endbb M) ?K X) st3"
      by (rule emitted_branchUnlessReturned [OF s2 eqs(3)]) (use n False in \<open>cases bs; simp\<close>)
    have s4: "emitted st (asrt \<Gamma> (C - set (concat (map ks xs))) (Z - set (concat (map inn xs))) Closed (add_mset endbb M) ?K X) st4"
      by (rule emitted_unrolledStmts [OF assms s3 n _ a(1-3) eqs(4)]) auto
    show ?thesis using emitted_emitIncrement [OF emitted_move [OF s4] eqs(5)] by (intro exI [of _ ?K] conjI) auto
  qed
qed

end
