(* ===== verification/StatementTry.thy ===== *)
theory StatementTry
  imports StatementLoops
begin

text \<open>The contracts of statements that handle exceptions.\<close>

section \<open>Finally blocks\<close>

lemma emitted_False: "emitted st0 (\<lambda>s. False) st \<Longrightarrow> emitted st0 Q st"
  by (erule emitted_weaken) simp

lemma emitted_leave:
  assumes "emitted st3 (asrt \<Gamma>' C' Z' fl' M' K' X) st3"
    "emitted st3 (asrt \<Gamma> C Z fl (add_mset s M) K (X\<lparr>cleanups := cleanups X @ new\<rparr>)) st5" "s \<in> K"
    "runCleanups (currentCleanupScope st3) s st5 = Some st6" "emitIncrement E p (SetInsertPoint s st6) = Some st7"
    "popCleanups (currentCleanupScope st3) st7 = Some st'"
  shows "emitted st3 (asrt \<Gamma> C Z Opened M K X) st'"
proof -
  let ?z = "currentCleanupScope st3" and ?X = "X\<lparr>cleanups := cleanups X @ new\<rparr>"
  have s6: "emitted st3 (\<lambda>s'. asrt \<Gamma> C Z Closed (add_mset s M) K ?X s' \<and> ranFrom ?z s') st6" by (rule emitted_run [OF assms(2,4)]) (use assms(3) in simp)
  have "emitted st3 (asrt \<Gamma> C Z Closed (add_mset s M) K ?X) st6" by (rule emitted_weaken [OF s6]) simp
  note s7 = emitted_emitIncrement [OF emitted_move [OF this] assms(5)]
  have "nextBB st7 = nextBB st6" "bbs st7 = bbs st6" "pairs st7 = pairs st6"
    using assms(5) by (auto simp: emitIncrement_def appendInstrs_def SetInsertPoint_def pairs_def split: Option.bind_splits)
  then have same: "nextBB st7 = nextBB st6" "ranFrom ?z st7 = ranFrom ?z st6" by (simp_all add: ranFrom_def)
  have "emitted st3 (\<lambda>s'. asrt \<Gamma> C Z Opened M K ?X s' \<and> enclosing ?z X) st7"
    by (rule emitted_start [OF assms(1) s7 asrt_enclosing])
  then have "emitted st3 (\<lambda>s'. asrt \<Gamma> C Z Opened M K ?X s' \<and> ranFrom ?z s' \<and> enclosing ?z X) st7"
    using s6 same by (auto simp: emitted_def)
  then show ?thesis by (rule emitted_pop [OF _ assms(6)])
qed

lemma stmtOK_TryFinally:
  assumes "dcomputetarget E = None" "stmtOK A ks1 inn1 cl ebody" "stmtOK A ks2 inn2 False efinal" "ks1 \<inter> ks2 = {}" "inn1 \<inter> inn2 = {}"
  shows "stmtOK A (ks1 \<union> ks2) (inn1 \<union> inn2) closes (toIR_TryFinally E p ebody efinal)"
proof (rule stmtOK_openI)
  fix \<Gamma> C Z M K X st st'
  assume a: "casesHere \<Gamma> = A" "ks1 \<union> ks2 \<subseteq> C" "inn1 \<union> inn2 \<subseteq> Z" "emitted st (asrt \<Gamma> C Z Opened M K X) st" "toIR_TryFinally E p ebody efinal st = Some st'"
  obtain finallybb st1 successbb st2 st3 st5 st6 where eqs: "insertBB st = (finallybb, st1)" "insertSuccessBB (scopereturned st) st1 = (successbb, st2)"
      "efinal (SetInsertPoint finallybb st2) = Some st3" "ebody (SetInsertPoint (scopebb st) (pushCleanup finallybb (scopebb st3) st3)) = Some st5"
      "leaveTry E p False (currentCleanupScope st3) successbb st5 = Some st6" "popCleanups (currentCleanupScope st3) st6 = Some st'"
    using a(5) assms(1) by (auto simp: toIR_TryFinally_def split: prod.splits Option.bind_splits)
  let ?M = "(case successbb of None \<Rightarrow> {#} | Some s \<Rightarrow> {#s#}) + M" and ?K = "set_option successbb \<union> insert finallybb K"
  have s1: "emitted st (asrt \<Gamma> C Z Opened (add_mset finallybb M) (insert finallybb K) X) st1" by (rule emitted_insert [OF a(4) eqs(1)])
  have s2: "emitted st (asrt \<Gamma> C Z Opened (add_mset finallybb ?M) ?K X) st2"
    using s1 emitted_insert [OF s1] eqs(2) by (cases "insertBB st1") (auto simp: insertSuccessBB_def add_mset_commute insert_commute split: if_splits)
  have "scopebb st2 = scopebb st" using eqs(1,2) by (auto simp: insertSuccessBB_def insertBB_def split: if_splits)
  then have "emitted st (asrt \<Gamma> C Z Opened (add_mset (scopebb st) ?M) (insert (scopebb st) ?K) X) (SetInsertPoint finallybb st2)"
    using emitted_swap [OF s2 HOL.refl] by simp
  from stmtOKD [OF assms(3) this eqs(3) a(1)]
  have s3: "emitted st (asrt \<Gamma> (C - ks2) (Z - inn2) Opened (add_mset (scopebb st) ?M) (insert (scopebb st) ?K) X) st3" using a(2,3) by simp
  note h3 = emitted_here [OF s3]
  let ?X = "X\<lparr>cleanups := cleanups X @ [(finallybb, scopebb st3)]\<rparr>"
  have "emitted st3 (asrt \<Gamma> (C - ks2) (Z - inn2) Opened ?M (insert (scopebb st) ?K) ?X) (SetInsertPoint (scopebb st) (pushCleanup finallybb (scopebb st3) st3))"
    by (rule emitted_push [OF h3]) simp_all
  moreover have "ks1 \<subseteq> C - ks2" "inn1 \<subseteq> Z - inn2" using a(2,3) assms(4,5) by auto
  moreover have eq: "C - ks2 - ks1 = C - (ks1 \<union> ks2)" "Z - inn2 - inn1 = Z - (inn1 \<union> inn2)" by auto
  ultimately have s5: "emitted st3 (asrt \<Gamma> (C - (ks1 \<union> ks2)) (Z - (inn1 \<union> inn2)) (if cl then Either else Opened) ?M (insert (scopebb st) ?K) ?X) st5"
    using stmtOKD [OF assms(2) _ eqs(4) a(1)] unfolding eq [symmetric] by blast
  have "emitted st (asrt \<Gamma> (C - (ks1 \<union> ks2)) (Z - (inn1 \<union> inn2)) Opened M (insert (scopebb st) ?K) X) st'"
  proof (cases successbb)
    case None
    then have ret: "scopereturned st" using eqs(2) by (cases "insertBB st1") (auto simp: insertSuccessBB_def split: if_splits)
    have "emitted st (\<lambda>s. asrt \<Gamma> (C - (ks1 \<union> ks2)) (Z - (inn1 \<union> inn2)) (if cl then Either else Opened) ?M (insert (scopebb st) ?K) ?X s \<and> False) st5"
      by (rule emitted_start [OF a(4) emitted_trans [OF s3 s5]]) (use asrt_opened ret in blast)
    then have "emitted st (\<lambda>s. False) st6" using eqs(5) None by (simp add: leaveTry_def)
    then have "emitted st (\<lambda>s. False) st'" by (rule emitted_step) (use popCleanups_grows [OF eqs(6)] in auto)
    then show ?thesis by (rule emitted_False)
  next
    case (Some s)
    then obtain st7 where "runCleanups (currentCleanupScope st3) s st5 = Some st7" "emitIncrement E p (SetInsertPoint s st7) = Some st6"
      using eqs(5) by (auto simp: leaveTry_def split: Option.bind_splits)
    from emitted_leave [OF h3 _ _ this eqs(6)] s5 Some show ?thesis by (auto intro!: emitted_trans [OF s3])
  qed
  then show "\<exists>K'. K \<subseteq> K' \<and> emitted st (asrt \<Gamma> (C - (ks1 \<union> ks2)) (Z - (inn1 \<union> inn2)) Opened M K' X) st'"
    by (intro exI [of _ "insert (scopebb st) ?K"] conjI) auto
qed

section \<open>Catches\<close>

lemma stmtOK_CatchHandler:
  assumes "admissible E" "dcomputetarget E = None" "stmtOK A ks inn cl (emitHandler c)" "\<not> hasHandler c \<Longrightarrow> ks = {}"
  shows "stmtOK A ks inn cl (emitCatchHandler E c)"
proof -
  have call: "plainOK (withDtors (otherElem E q []))" for q by (rule plainOK_withDtors [OF plain_elem [OF plainOK_other [OF assms(1)]]])
  have "stmtOK A (ks \<union> {}) (inn \<union> {}) cl (toIR_TryFinally E q (emitHandler c) (withDtors (otherElem E q [])))" for q
    by (rule stmtOK_TryFinally [OF assms(2,3) stmtOK_plain [OF call]]) simp_all
  moreover have "stmtOK A {} inn cl (withDtors (otherElem E q []))" for q by (rule stmtOK_inn [OF stmtOK_plain [OF call]]) simp
  ultimately show ?thesis using assms(3,4) stmtOK_Some unfolding emitCatchHandler_def by (simp add: Let_def)
qed

lemma emitted_catch:
  assumes "admissible E" "dcomputetarget E = None" "stmtOK A ks inn cl (emitHandler c)" "\<not> hasHandler c \<Longrightarrow> ks = {}"
    "emitted st0 (asrt \<Gamma> C Z Opened M K X) (SetInsertPoint b st1)" "emitIncrement E (catchAddr c) (SetInsertPoint b st1) = Some st2"
    "otherElem E (catchAddr c) [] st2 = Some st3" "emitCatchHandler E c st3 = Some st4" "branchUnlessReturned endbb st4 = Some st5"
    "endbb \<in> K" "casesHere \<Gamma> = A" "ks \<subseteq> C" "inn \<subseteq> Z"
  shows "emitted st0 (asrt \<Gamma> (C - ks) (Z - inn) Closed M K X) st5"
proof -
  note s3 = plainOKD [OF plainOK_other [OF assms(1)] emitted_emitIncrement [OF assms(5,6)] assms(7)]
  note s4 = stmtOKD [OF stmtOK_CatchHandler [OF assms(1-4)] s3 assms(8,11-13)]
  show ?thesis by (rule emitted_branchUnlessReturned [OF s4 assms(9) UnI1 [OF assms(10)]])
qed

lemma emitted_catches:
  assumes "admissible E" "dcomputetarget E = None" "\<forall>c\<in>set cs. stmtOK A (set (ks c)) (set (inn c)) (cl c) (emitHandler (g c)) \<and> (\<not> hasHandler (g c) \<longrightarrow> ks c = [])"
    "distinct (concat (map ks cs))" "distinct (concat (map inn cs))" "emitted st0 (asrt \<Gamma> C Z Closed M K X) st" "endbb \<in> K" "casesHere \<Gamma> = A"
    "set (concat (map ks cs)) \<subseteq> C" "set (concat (map inn cs)) \<subseteq> Z" "iterM (emitCatchBody E endbb) (map g cs) (blocks, st) = Some (blocks', st')" "bodyBB ` set blocks \<subseteq> K"
  shows "\<exists>K'. K \<subseteq> K' \<and> bodyBB ` set blocks' \<subseteq> K' \<and>
    emitted st0 (asrt \<Gamma> (C - set (concat (map ks cs))) (Z - set (concat (map inn cs))) Closed M K' X) st'"
  using assms(3-)
proof (induction cs arbitrary: C Z K st blocks)
  case Nil
  then show ?case by auto
next
  case (Cons c cs)
  obtain r where r: "emitCatchBody E endbb (g c) (blocks, st) = Some r" "iterM (emitCatchBody E endbb) (map g cs) r = Some (blocks', st')"
    using Cons.prems(9) by (auto split: Option.bind_splits)
  obtain b st1 st2 st3 st4 st5 where eqs: "insertBB st = (b, st1)" "emitIncrement E (catchAddr (g c)) (SetInsertPoint b st1) = Some st2"
      "otherElem E (catchAddr (g c)) [] st2 = Some st3" "emitCatchHandler E (g c) st3 = Some st4" "branchUnlessReturned endbb st4 = Some st5"
      "iterM (emitCatchBody E endbb) (map g cs) (blocks @ [\<lparr>classInfoPtr = hd (catchClass E (catchAddr (g c))), bodyBB = b\<rparr>], st5) = Some (blocks', st')"
    using r(1) r(2) [symmetric] unfolding emitCatchBody_def [of E endbb "g c"] by (auto split: prod.splits Option.bind_splits)
  have c: "stmtOK A (set (ks c)) (set (inn c)) (cl c) (emitHandler (g c))" "\<not> hasHandler (g c) \<Longrightarrow> set (ks c) = {}" using Cons.prems(1) by auto
  have s5: "emitted st0 (asrt \<Gamma> (C - set (ks c)) (Z - set (inn c)) Closed M (insert b K) X) st5"
    by (rule emitted_catch [OF assms(1,2) c emitted_move [OF emitted_insert [OF Cons.prems(4) eqs(1)]] eqs(2-5)]) (use Cons.prems in auto)
  have "\<exists>K'. insert b K \<subseteq> K' \<and> bodyBB ` set blocks' \<subseteq> K' \<and>
    emitted st0 (asrt \<Gamma> (C - set (ks c) - set (concat (map ks cs))) (Z - set (inn c) - set (concat (map inn cs))) Closed M K' X) st'"
    by (rule Cons.IH [OF _ _ _ s5 _ _ _ _ eqs(6)]) (use Cons.prems in auto)
  then show ?case by (simp add: minus_Un) blast
qed

lemma emitted_pushTry:
  assumes "emitted st0 (asrt \<Gamma> C Z fl M K X) st" "bodyBB ` set blocks \<subseteq> K"
  shows "emitted st0 (asrt \<Gamma> C Z fl M K (X\<lparr>tries := tries X @ [\<lparr>cleanupScope = currentCleanupScope st, catchesNonExceptions = nx, catchBlocks = blocks\<rparr>]\<rparr>))
    (pushTryCatch blocks nx st)"
  using assms(1)
proof (rule emitted_step)
  let ?st = "pushTryCatch blocks nx st" and ?tc = "\<lparr>cleanupScope = currentCleanupScope st, catchesNonExceptions = nx, catchBlocks = blocks\<rparr>"
  show "nextBB st \<le> nextBB ?st" by (simp add: pushTryCatch_def Let_def)
  assume a: "asrt \<Gamma> C Z fl M K X st"
  obtain isOpen where acc: "accounted isOpen (set_mset M \<union> ahead C st) (K \<union> held st) (set_option (retBlock st)) st"
    using a by (auto simp: asrt_def elim: balancedE)
  have b: "bodyBB ` set blocks \<subseteq> K \<union> held st" using assms(2) by blast
  have "asrt \<Gamma> C Z fl M K (X\<lparr>tries := tries X @ [?tc]\<rparr>) ?st"
  proof (rule asrt_change [OF a])
    fix isOpen
    assume "flowing fl isOpen" "accounted isOpen (set_mset M \<union> ahead C st) (K \<union> held st) (set_option (retBlock st)) st"
    then show "\<exists>isOpen'. flowing fl isOpen' \<and> accounted isOpen' (set_mset M \<union> ahead C st) (K \<union> held st) (set_option (retBlock st)) ?st"
      using accounted_pushTry(1) [OF _ b] by blast
  qed (use a in \<open>auto simp: pushTryCatch_def Let_def pairs_def asrt_def balanced_def stacksOK_def\<close>)
  then show "asrt \<Gamma> C Z fl M K (X\<lparr>tries := tries X @ [?tc]\<rparr>) ?st \<and> codegen st ?st" using accounted_pushTry(2) [OF acc b] by simp
qed

lemma emitted_popTry:
  assumes "emitted st0 (\<lambda>s. asrt \<Gamma> C Z fl M K (X\<lparr>tries := tries X @ [tc]\<rparr>) s \<and> cleanupScope tc = length (cleanups X)) st" "popTryCatch st = Some st'"
  shows "emitted st0 (asrt \<Gamma> C Z fl M K X) st'"
  using assms(1)
proof (rule emitted_step)
  show "nextBB st \<le> nextBB st'" using assms(2) by (auto simp: popTryCatch_def Let_def split: if_splits)
  assume "asrt \<Gamma> C Z fl M K (X\<lparr>tries := tries X @ [tc]\<rparr>) st \<and> cleanupScope tc = length (cleanups X)"
  then have a: "asrt \<Gamma> C Z fl M K (X\<lparr>tries := tries X @ [tc]\<rparr>) st" and c: "cleanupScope tc = length (cleanups X)" by simp_all
  have l: "cleanupScope (last (tryCatchScopes st)) = length (pairs st)" using asrtD(4,5) [OF a] c by simp
  obtain isOpen where acc: "accounted isOpen (set_mset M \<union> ahead C st) (K \<union> held st) (set_option (retBlock st)) st"
    using a by (auto simp: asrt_def elim: balancedE)
  note p = accounted_popTry [OF acc assms(2) l]
  have "asrt \<Gamma> C Z fl M K X st'"
  proof (rule asrt_change [OF a p(5)])
    fix isOpen
    assume "flowing fl isOpen" "accounted isOpen (set_mset M \<union> ahead C st) (K \<union> held st) (set_option (retBlock st)) st"
    then show "\<exists>isOpen'. flowing fl isOpen' \<and> accounted isOpen' (set_mset M \<union> ahead C st) (K \<union> held st) (set_option (retBlock st)) st'"
      using accounted_popTry(1) [OF _ assms(2) l] by blast
  qed (use a p(3,4) asrtD(4,5) [OF a] in \<open>auto simp: asrt_def balanced_def\<close>)
  then show "asrt \<Gamma> C Z fl M K X st' \<and> codegen st st'" using p(2) by simp
qed

lemma emitted_tryBody:
  assumes "stmtOK A ks inn cl ebody" "emitted st2 (asrt \<Gamma> C Z Closed (add_mset trybb (add_mset endbb M)) K X) st2" "bodyBB ` set blocks \<subseteq> K" "endbb \<in> K"
    "ebody (SetInsertPoint trybb (pushTryCatch blocks nx st2)) = Some st4" "branchUnlessReturned endbb st4 = Some st5" "popTryCatch st5 = Some st6"
    "emitIncrement E p (SetInsertPoint endbb st6) = Some st'" "casesHere \<Gamma> = A" "ks \<subseteq> C" "inn \<subseteq> Z"
  shows "emitted st2 (asrt \<Gamma> (C - ks) (Z - inn) Opened M K X) st'"
proof -
  let ?tc = "\<lparr>cleanupScope = currentCleanupScope st2, catchesNonExceptions = nx, catchBlocks = blocks\<rparr>"
  note s4 = stmtOKD [OF assms(1) emitted_move [OF emitted_pushTry [OF assms(2,3)]] assms(5,9-11)]
  have s5: "emitted st2 (asrt \<Gamma> (C - ks) (Z - inn) Closed (add_mset endbb M) K (X\<lparr>tries := tries X @ [?tc]\<rparr>)) st5"
    by (rule emitted_branchUnlessReturned [OF s4 assms(6) UnI1 [OF assms(4)]])
  have "emitted st2 (\<lambda>s. asrt \<Gamma> (C - ks) (Z - inn) Closed (add_mset endbb M) K (X\<lparr>tries := tries X @ [?tc]\<rparr>) s \<and> cleanupScope ?tc = length (cleanups X)) st5"
    by (rule emitted_start [OF assms(2) s5]) (simp add: asrtD(6))
  from emitted_emitIncrement [OF emitted_move [OF emitted_popTry [OF this assms(7)]] assms(8)] show ?thesis .
qed

lemma stmtOK_TryCatch:
  assumes "admissible E" "stmtOK A ks1 inn1 cl1 ebody" "cs \<noteq> []"
    "\<forall>c\<in>set cs. stmtOK A (set (ks c)) (set (inn c)) (cl c) (emitHandler (g c)) \<and> (\<not> hasHandler (g c) \<longrightarrow> ks c = [])"
    "distinct (concat (map ks cs))" "distinct (concat (map inn cs))" "ks1 \<inter> set (concat (map ks cs)) = {}" "inn1 \<inter> set (concat (map inn cs)) = {}"
  shows "stmtOK A (ks1 \<union> set (concat (map ks cs))) (inn1 \<union> set (concat (map inn cs))) closes (toIR_TryCatch E p ebody (map g cs))"
proof (rule stmtOK_openI)
  fix \<Gamma> C Z M K X st st'
  let ?ks = "set (concat (map ks cs))" and ?inn = "set (concat (map inn cs))"
  assume a: "casesHere \<Gamma> = A" "ks1 \<union> ?ks \<subseteq> C" "inn1 \<union> ?inn \<subseteq> Z" "emitted st (asrt \<Gamma> C Z Opened M K X) st" "toIR_TryCatch E p ebody (map g cs) st = Some st'"
  obtain c cs' where cs: "cs = c # cs'" using assms(3) by (cases cs) auto
  obtain endbb st1 blocks st2 st4 st5 st6 where eqs: "dcomputetarget E = None" "insertBB st = (endbb, st1)"
      "iterM (emitCatchBody E endbb) (map g cs) ([], st1) = Some (blocks, st2)"
      "ebody (SetInsertPoint (scopebb st) (pushTryCatch blocks (catchesNonExceptionsOf E (map catchAddr (map g cs))) st2)) = Some st4"
      "branchUnlessReturned endbb st4 = Some st5" "popTryCatch st5 = Some st6" "emitIncrement E p (SetInsertPoint endbb st6) = Some st'"
    using a(5) unfolding toIR_TryCatch_def by (auto simp: Let_def split: prod.splits Option.bind_splits if_splits simp del: map_map)
  obtain r where r: "emitCatchBody E endbb (g c) ([], st1) = Some r" "iterM (emitCatchBody E endbb) (map g cs') r = Some (blocks, st2)"
    using eqs(3) unfolding cs by (auto split: Option.bind_splits)
  obtain b st11 st12 st13 st14 st15 where ces: "insertBB st1 = (b, st11)" "emitIncrement E (catchAddr (g c)) (SetInsertPoint b st11) = Some st12"
      "otherElem E (catchAddr (g c)) [] st12 = Some st13" "emitCatchHandler E (g c) st13 = Some st14" "branchUnlessReturned endbb st14 = Some st15"
      "r = ([\<lparr>classInfoPtr = hd (catchClass E (catchAddr (g c))), bodyBB = b\<rparr>], st15)"
    using r(1) unfolding emitCatchBody_def by (auto split: prod.splits Option.bind_splits)
  let ?M = "add_mset (scopebb st) (add_mset endbb M)" and ?K = "insert (scopebb st) (insert b (insert endbb K))"
  have sb: "scopebb st11 = scopebb st" using eqs(2) ces(1) by (auto simp: insertBB_def)
  have s11: "emitted st (asrt \<Gamma> C Z Opened ?M ?K X) (SetInsertPoint b st11)"
    using emitted_swap [OF emitted_insert [OF emitted_insert [OF a(4) eqs(2)] ces(1)] sb [symmetric]] .
  have c: "stmtOK A (set (ks c)) (set (inn c)) (cl c) (emitHandler (g c))" "\<not> hasHandler (g c) \<Longrightarrow> set (ks c) = {}" using assms(4) cs by auto
  have s15: "emitted st (asrt \<Gamma> (C - set (ks c)) (Z - set (inn c)) Closed ?M ?K X) st15"
    by (rule emitted_catch [OF assms(1) eqs(1) c s11 ces(2-5)]) (use a(1-3) cs in auto)
  have "\<exists>K'. ?K \<subseteq> K' \<and> bodyBB ` set blocks \<subseteq> K' \<and>
      emitted st (asrt \<Gamma> (C - set (ks c) - set (concat (map ks cs'))) (Z - set (inn c) - set (concat (map inn cs'))) Closed ?M K' X) st2"
    by (rule emitted_catches [OF assms(1) eqs(1) _ _ _ s15 _ a(1) _ _ r(2) [unfolded ces(6)]]) (use a(1-3) cs assms(4-6) in auto)
  moreover have eq: "C - ?ks = C - set (ks c) - set (concat (map ks cs'))" "Z - ?inn = Z - set (inn c) - set (concat (map inn cs'))" by (auto simp: cs)
  ultimately obtain K' where K': "?K \<subseteq> K'" "bodyBB ` set blocks \<subseteq> K'" and s2: "emitted st (asrt \<Gamma> (C - ?ks) (Z - ?inn) Closed ?M K' X) st2"
    unfolding eq by blast
  have sub: "ks1 \<subseteq> C - ?ks" "inn1 \<subseteq> Z - ?inn" "endbb \<in> K'" using a(2,3) assms(7,8) K'(1) by auto
  have eq': "C - ?ks - ks1 = C - (ks1 \<union> ?ks)" "Z - ?inn - inn1 = Z - (inn1 \<union> ?inn)" by auto
  note s6 = emitted_tryBody [OF assms(2) emitted_here [OF s2] K'(2) sub(3) eqs(4-7) a(1) sub(1,2), unfolded eq']
  show "\<exists>K'. K \<subseteq> K' \<and> emitted st (asrt \<Gamma> (C - (ks1 \<union> ?ks)) (Z - (inn1 \<union> ?inn)) Opened M K' X) st'"
    using emitted_trans [OF s2 s6] K'(1) by (intro exI [of _ K'] conjI) auto
qed

end
