(* ===== verification/StatementSwitch.thy ===== *)
theory StatementSwitch
  imports StatementTry
begin

text \<open>The contracts of switches and their cases.\<close>

section \<open>Case targets\<close>

lemma asrt_hold:
  assumes "asrt \<Gamma> C Z fl M K X st" "B \<subseteq> held st"
  shows "asrt \<Gamma> C Z fl M (B \<union> K) X st"
proof -
  have "B \<union> K \<union> held st = K \<union> held st" using assms(2) by blast
  then show ?thesis using assms(1) by (simp add: asrt_def balanced_def)
qed

lemma emitted_hold: "emitted st0 (asrt \<Gamma> C Z fl M K X) st \<Longrightarrow> b \<in> held st \<Longrightarrow> emitted st0 (asrt \<Gamma> C Z fl M (insert b K) X) st"
  using asrt_hold [of _ _ _ _ _ _ _ _ "{b}"] by (auto elim: emitted_weaken)

lemma caseTarget_table: "getOrCreateCaseTarget p st = (b, st1) \<Longrightarrow> targetBBs st1 p = Some b"
  by (auto simp: getOrCreateCaseTarget_def split: option.splits prod.splits)

lemma asrt_newCase:
  assumes "asrt \<Gamma> C Z fl M K X st" "p \<in> C" "targetBBs st p = None" "insertBB st = (b, st1)" "nextBB st1 < 2 ^ 32"
  shows "asrt \<Gamma> C Z fl M K X (st1\<lparr>targetBBs := (targetBBs st1)(p \<mapsto> b)\<rparr>) \<and> codegen st (st1\<lparr>targetBBs := (targetBBs st1)(p \<mapsto> b)\<rparr>)"
proof -
  let ?st = "st1\<lparr>targetBBs := (targetBBs st1)(p \<mapsto> b)\<rparr>"
  obtain isOpen where acc: "flowing fl isOpen" "accounted isOpen (set_mset M \<union> ahead C st) (K \<union> held st) (set_option (retBlock st)) st"
    using assms(1) by (auto simp: asrt_def elim: balancedE)
  have st1: "st1 = snd (insertBB st)" "b = nextBB st" using assms(4) by (auto simp: insertBB_def)
  have n: "Suc (nextBB st) < 2 ^ 32" using assms(5) by (simp add: st1 insertBB_def)
  note i = accounted_insert [OF acc(2) n, folded st1]
  have tr: "TryCatchFinallyScopes.truncate ?st = TryCatchFinallyScopes.truncate st1" by (simp add: TryCatchFinallyScopes.truncate_def)
  note m = accounted_more [OF i(1) tr]
  have f: "targetBBs st1 = targetBBs st" "labelTargets st1 = labelTargets st" "breakTargets st1 = breakTargets st" "continueTargets st1 = continueTargets st"
      "retBlock st1 = retBlock st" "pairs st1 = pairs st" "tryCatchScopes st1 = tryCatchScopes st" by (simp_all add: st1 insertBB_def pairs_def)
  have h: "held ?st = insert b (held st)" using assms(3) by (simp add: held_def f)
  have ah: "ahead C ?st = insert b (ahead C st)" using assms(2,3) by (auto simp: ahead_def f; metis option.distinct(1))
  have new: "b \<notin># M" "b \<notin> Map.ran (targetBBs st)"
    using accountedD(8) [OF acc(2), of b] accountedD(7) [OF acc(2), of b] st1(2) by (auto simp: held_def)
  have "accounted isOpen (set_mset M \<union> ahead C ?st) (K \<union> held ?st) (set_option (retBlock ?st)) ?st" using m(1) unfolding h ah by (simp add: f)
  then have "balanced fl M K C ?st" using assms(1) acc(1) new(1) unfolding asrt_def balanced_def ah by auto
  moreover have "inj_on ((targetBBs st)(p \<mapsto> b)) (insert p (dom (targetBBs st)))"
  proof -
    have "inj_on (targetBBs st) (dom (targetBBs st))" using assms(1) by (simp add: asrt_def tableOK_def)
    then show ?thesis using new(2) by (auto simp: inj_on_def Map.ran_def)
  qed
  then have "tableOK \<Gamma> C Z (targetBBs ?st)" using assms(1,2) unfolding asrt_def tableOK_def by (auto simp: f)
  moreover have "stacksOK X ?st" using assms(1) f by (simp add: asrt_def stacksOK_def pairs_def)
  ultimately show ?thesis using codegen_trans [OF m(2) i(2)] by (simp add: asrt_def)
qed

lemma emitted_caseTarget:
  assumes "emitted st0 (asrt \<Gamma> C Z fl M K X) st" "getOrCreateCaseTarget p st = (b, st1)" "p \<in> casesHere \<Gamma> \<union> C"
  shows "emitted st0 (asrt \<Gamma> C Z fl M (insert b K) X) st1"
proof (rule emitted_hold [OF _ held_targets(4) [OF caseTarget_table [OF assms(2)]]])
  show "emitted st0 (asrt \<Gamma> C Z fl M K X) st1"
  proof (cases "targetBBs st p")
    case None
    then obtain st2 where st2: "insertBB st = (b, st2)" "st1 = st2\<lparr>targetBBs := (targetBBs st2)(p \<mapsto> b)\<rparr>"
      using assms(2) by (auto simp: getOrCreateCaseTarget_def split: prod.splits)
    have nb: "nextBB st \<le> nextBB st1" "nextBB st1 = nextBB st2" using st2 by (auto simp: insertBB_def)
    show ?thesis using assms(1) nb(1)
    proof (rule emitted_step)
      assume a: "asrt \<Gamma> C Z fl M K X st" and n: "nextBB st1 < 2 ^ 32"
      have "p \<in> C" using a assms(3) None unfolding asrt_def tableOK_def by blast
      then show "asrt \<Gamma> C Z fl M K X st1 \<and> codegen st st1" using asrt_newCase [OF a _ None st2(1)] n nb(2) st2(2) by simp
    qed
  next
    case (Some b')
    then show ?thesis using assms(1,2) by (simp add: getOrCreateCaseTarget_def)
  qed
qed

lemma emitted_enterCase:
  assumes "emitted st0 (asrt \<Gamma> C Z Closed M K X) st" "targetBBs st p = Some b" "p \<in> C"
  shows "emitted st0 (asrt \<Gamma> (C - {p}) Z Opened M K X) (SetInsertPoint b st)"
  using assms(1)
proof (rule emitted_step)
  let ?st = "SetInsertPoint b st"
  show "nextBB st \<le> nextBB ?st" by (simp add: SetInsertPoint_def)
  assume a: "asrt \<Gamma> C Z Closed M K X st"
  have inj: "inj_on (targetBBs st) (dom (targetBBs st))" using a by (simp add: asrt_def tableOK_def)
  have ah: "ahead C st = insert b (ahead (C - {p}) st)" "b \<notin> ahead (C - {p}) st"
    using assms(2,3) inj by (auto simp: ahead_def inj_on_def dom_def)
  have acc: "accounted False (insert b (set_mset M \<union> ahead (C - {p}) st)) (K \<union> held st) (set_option (retBlock st)) st" and nb: "b \<notin> set_mset M \<union> ahead (C - {p}) st"
    using a ah by (auto simp: asrt_def balanced_def)
  note m = accounted_move [OF acc nb, folded SetInsertPoint_def]
  have f: "ahead (C - {p}) ?st = ahead (C - {p}) st" "held ?st = held st" "retBlock ?st = retBlock st" "targetBBs ?st = targetBBs st"
    by (simp_all add: SetInsertPoint_def ahead_def held_def)
  have "balanced Opened M K (C - {p}) ?st" using a m(1) ah unfolding asrt_def balanced_def f by auto
  moreover have "tableOK \<Gamma> (C - {p}) Z (targetBBs ?st)" using a assms(2) unfolding f asrt_def tableOK_def by auto
  moreover have "stacksOK X ?st" using a by (simp add: asrt_def stacksOK_def SetInsertPoint_def pairs_def)
  ultimately show "asrt \<Gamma> (C - {p}) Z Opened M K X ?st \<and> codegen st ?st" using m(2) by (simp add: asrt_def)
qed

lemma branchUnlessReturned_table: "branchUnlessReturned b st = Some st' \<Longrightarrow> targetBBs st' = targetBBs st"
  by (auto simp: branchUnlessReturned_def CreateBr_def terminate_def split: if_splits Option.bind_splits)

lemma stmtOK_Case:
  assumes "stmtOK A ks inn cl s" "p \<notin> ks"
  shows "stmtOK A (insert p ks) inn cl (toIR_Case E p g s)"
proof (rule stmtOKI)
  fix \<Gamma> C Z M K X st st'
  assume a: "casesHere \<Gamma> = A" "insert p ks \<subseteq> C" "inn \<subseteq> Z" "emitted st (asrt \<Gamma> C Z Opened M K X) st" "toIR_Case E p g s st = Some st'"
  obtain body st1 st2 st3 where eqs: "getOrCreateCaseTarget p st = (body, st1)" "branchUnlessReturned body st1 = Some st2"
      "(if g then emitIncrement E (getCounterPtr p 1) else Some) (SetInsertPoint body st2) = Some st3" "s st3 = Some st'"
    using a(5) unfolding toIR_Case_def by (auto split: prod.splits Option.bind_splits simp del: if_split)
  have s1: "emitted st (asrt \<Gamma> C Z Opened M (insert body K) X) st1" by (rule emitted_caseTarget [OF a(4) eqs(1)]) (use a(2) in simp)
  have s2: "emitted st (asrt \<Gamma> C Z Closed M (insert body K) X) st2" by (rule emitted_branchUnlessReturned [OF s1 eqs(2)]) simp
  have t: "targetBBs st2 p = Some body" using branchUnlessReturned_table [OF eqs(2)] caseTarget_table [OF eqs(1)] by simp
  have "emitted st (asrt \<Gamma> (C - {p}) Z Opened M (insert body K) X) (SetInsertPoint body st2)" by (rule emitted_enterCase [OF s2 t]) (use a(2) in simp)
  then have s3: "emitted st (asrt \<Gamma> (C - {p}) Z Opened M (insert body K) X) st3" using emitted_emitIncrement eqs(3) by (cases g) auto
  have ks: "ks \<subseteq> C - {p}" "C - insert p ks = C - {p} - ks" using a(2) assms(2) by auto
  show "emitted st (asrt \<Gamma> (C - insert p ks) (Z - inn) (if cl then Either else Opened) M K X) st'"
    unfolding ks(2) by (rule emitted_dropK [OF stmtOKD [OF assms(1) s3 eqs(4) a(1) ks(1) a(3)]]) blast
qed

lemma stmtOK_GotoCase:
  assumes "gotoCaseTarget E p \<in> A"
  shows "stmtOK A {} {} closes (toIR_GotoCase E p)"
proof (rule stmtOK_openI)
  fix \<Gamma> C Z M K X st st'
  assume a: "casesHere \<Gamma> = A" "{} \<subseteq> C" "{} \<subseteq> Z" "emitted st (asrt \<Gamma> C Z Opened M K X) st" "toIR_GotoCase E p st = Some st'"
  obtain b st1 st2 where eqs: "getOrCreateCaseTarget (gotoCaseTarget E p) st = (b, st1)" "CreateBr b st1 = Some st2" "enterNewBB st2 = Some st'"
    using a(5) by (auto simp: toIR_GotoCase_def split: prod.splits Option.bind_splits if_splits)
  have s1: "emitted st (asrt \<Gamma> C Z Opened M (insert b K) X) st1" by (rule emitted_caseTarget [OF a(4) eqs(1)]) (use a(1) assms in simp)
  have "emitted st (asrt \<Gamma> C Z Closed M (insert b K) X) st2" by (rule emitted_CreateBr [OF s1 eqs(2)]) simp
  from emitted_enterNewBB [OF this eqs(3)]
  show "\<exists>K'. K \<subseteq> K' \<and> emitted st (asrt \<Gamma> (C - {}) (Z - {}) Opened M K' X) st'" by (intro exI [of _ "insert b K"] conjI) auto
qed

lemma plainOK_GotoDefault: "plainOK (toIR_GotoDefault E p)"
proof (rule plainOKI)
  fix \<Gamma> C Z M K X st st'
  assume a: "emitted st (asrt \<Gamma> C Z Opened M K X) st" "toIR_GotoDefault E p st = Some st'"
  obtain b st1 where eqs: "targetBBs st (gotoDefaultTarget E p) = Some b" "CreateBr b st = Some st1" "enterNewBB st1 = Some st'"
    using a(2) by (auto simp: toIR_GotoDefault_def getCaseTarget_def split: Option.bind_splits if_splits)
  show "emitted st (asrt \<Gamma> C Z Opened M K X) st'"
    by (rule emitted_enterNewBB [OF emitted_CreateBr [OF a(1) eqs(2) UnI2 [OF held_targets(4) [OF eqs(1)]]] eqs(3)])
qed

lemma stmtOK_SwitchError:
  assumes "admissible E"
  shows "stmtOK A {} {} True (toIR_SwitchError E p)"
proof (rule stmtOKI)
  fix \<Gamma> C Z M K X st st'
  assume a: "casesHere \<Gamma> = A" "{} \<subseteq> C" "{} \<subseteq> Z" "emitted st (asrt \<Gamma> C Z Opened M K X) st" "toIR_SwitchError E p st = Some st'"
  have call: "plainOK (if checkActionC E then callRuntime E else withDtors (otherElem E p []))"
    using plainOK_callRuntime plainOK_withDtors [OF plain_elem [OF plainOK_other [OF assms]]] by simp
  obtain st1 where "(if checkActionC E then callRuntime E else withDtors (otherElem E p [])) st = Some st1" "CreateUnreachable st1 = Some st'"
    using a(5) unfolding toIR_SwitchError_def by (auto split: Option.bind_splits if_splits)
  from emitted_CreateRet(2) [OF plainOKD [OF call a(4) this(1)] this(2)]
  show "emitted st (asrt \<Gamma> (C - {}) (Z - {}) (if True then Either else Opened) M K X) st'" using emitted_Either by simp
qed

section \<open>Entering and leaving a switch\<close>

text \<open>Inside a switch the cases of the switch around it merely wait.\<close>

lemma asrt_enterSwitch:
  assumes "asrt \<Gamma> C Z fl M K X st" "ks \<union> inn \<subseteq> Z" "ks \<inter> inn = {}"
  shows "asrt \<lparr>casesHere = ks, mayCreate = ks \<union> inn, tableBefore = targetBBs st\<rparr> ks inn fl (M + mset_set (ahead C st)) K X st"
proof -
  have "ahead C st \<subseteq> {..<nextBB st}" using asrtD(3) [OF assms(1)] by blast
  then have fin: "finite (ahead C st)" by (rule finite_subset) simp
  have none: "ahead ks st = {}" using assms(1,2) by (auto simp: ahead_def asrt_def tableOK_def)
  have d: "set_mset M \<inter> ahead C st = {}" "\<forall>b. count M b \<le> 1" using assms(1) by (simp_all add: asrt_def balanced_def)
  have "count (M + mset_set (ahead C st)) b \<le> 1" for b using d fin by (cases "b \<in> ahead C st") (auto simp: not_in_iff disjoint_iff)
  then have "balanced fl (M + mset_set (ahead C st)) K ks st" using assms(1) fin none by (auto simp: asrt_def balanced_def)
  moreover have "tableOK \<lparr>casesHere = ks, mayCreate = ks \<union> inn, tableBefore = targetBBs st\<rparr> ks inn (targetBBs st)"
    using assms by (auto simp: asrt_def tableOK_def)
  ultimately show ?thesis using assms(1) by (simp add: asrt_def)
qed

lemma asrt_leaveSwitch:
  assumes "asrt \<lparr>casesHere = ks, mayCreate = ks \<union> inn, tableBefore = targetBBs st\<rparr> {} {} fl (M + mset_set (ahead C st)) K X st'"
    "tableOK \<Gamma> C Z (targetBBs st)" "finite (ahead C st)" "ks \<union> inn \<subseteq> Z"
  shows "asrt \<Gamma> C (Z - (ks \<union> inn)) fl M K X st'"
proof -
  have same: "targetBBs st' p = targetBBs st p" if "p \<notin> ks \<union> inn" for p using assms(1) that by (simp add: asrt_def tableOK_def)
  have C: "p \<notin> ks \<union> inn" if "p \<in> casesHere \<Gamma>" for p using assms(2,4) that by (auto simp: tableOK_def)
  then have ah: "ahead C st' = ahead C st" using same assms(2) unfolding ahead_def tableOK_def by (metis subsetD)
  have u: "\<forall>b. count (M + mset_set (ahead C st)) b \<le> 1" using assms(1) unfolding asrt_def balanced_def by blast
  have "count M b \<le> 1" "b \<in># M \<Longrightarrow> b \<notin> ahead C st" for b
    using u [rule_format, of b] assms(3) by (auto simp: not_in_iff split: if_splits simp flip: count_greater_zero_iff)
  then have "balanced fl M K C st'" using assms(1,3) by (auto simp: asrt_def balanced_def ah ahead_def [of "{}"])
  moreover have "tableOK \<Gamma> C (Z - (ks \<union> inn)) (targetBBs st')" unfolding tableOK_def
  proof (intro conjI ballI allI impI)
    have t: "C \<subseteq> casesHere \<Gamma>" "casesHere \<Gamma> - C \<subseteq> dom (targetBBs st)" "casesHere \<Gamma> \<inter> Z = {}" "casesHere \<Gamma> \<union> Z \<subseteq> mayCreate \<Gamma>"
        "\<forall>p\<in>Z. targetBBs st p = None" "\<forall>p. p \<notin> mayCreate \<Gamma> \<longrightarrow> targetBBs st p = tableBefore \<Gamma> p" using assms(2) by (simp_all add: tableOK_def)
    show "C \<subseteq> casesHere \<Gamma>" "casesHere \<Gamma> \<inter> (Z - (ks \<union> inn)) = {}" "casesHere \<Gamma> \<union> (Z - (ks \<union> inn)) \<subseteq> mayCreate \<Gamma>" using t by auto
    show "casesHere \<Gamma> - C \<subseteq> dom (targetBBs st')"
    proof
      fix p
      assume "p \<in> casesHere \<Gamma> - C"
      then show "p \<in> dom (targetBBs st')" using t(2) same [OF C, of p] by (auto simp: dom_def)
    qed
    show "inj_on (targetBBs st') (dom (targetBBs st'))" using assms(1) by (simp add: asrt_def tableOK_def)
    show "targetBBs st' p = None" if "p \<in> Z - (ks \<union> inn)" for p using that same t(5) by simp
    show "targetBBs st' p = tableBefore \<Gamma> p" if "p \<notin> mayCreate \<Gamma>" for p
    proof -
      have "p \<notin> ks \<union> inn" using that t(4) assms(4) by blast
      then show ?thesis using that same t(6) by simp
    qed
  qed
  ultimately show ?thesis using assms(1) by (simp add: asrt_def)
qed

section \<open>Dispatch\<close>

lemma emitted_terminateWaiting:
  assumes "emitted st0 (asrt \<Gamma> C Z fl (add_mset b M) K X) st" "terminate b T st = Some st'" "set (succs T) \<subseteq> K \<union> held st"
  shows "emitted st0 (asrt \<Gamma> C Z fl M K X) st'"
  using assms(1)
proof (rule emitted_step)
  show "nextBB st \<le> nextBB st'" using assms(2) by (auto simp: terminate_def split: Option.bind_splits if_splits)
  assume a: "asrt \<Gamma> C Z fl (add_mset b M) K X st"
  have "\<forall>x. count (add_mset b M) x \<le> 1" using a unfolding asrt_def balanced_def by blast
  then have u: "\<forall>x. count M x \<le> 1" and b: "b \<notin># M" unfolding unique_add by blast+
  obtain isOpen where acc0: "accounted isOpen (set_mset (add_mset b M) \<union> ahead C st) (K \<union> held st) (set_option (retBlock st)) st"
    using a by (auto simp: asrt_def elim: balancedE)
  have nb: "b \<notin> set_mset M \<union> ahead C st" using a b by (auto simp: asrt_def balanced_def)
  have acc: "accounted isOpen (insert b (set_mset M \<union> ahead C st)) (K \<union> held st) (set_option (retBlock st)) st" using acc0 by simp
  note t = accounted_terminateWaiting [OF acc nb assms(2,3)]
  have "asrt \<Gamma> C Z fl M K X st'"
  proof (rule asrt_change [OF a t(5)])
    fix isOpen
    assume "flowing fl isOpen" "accounted isOpen (set_mset (add_mset b M) \<union> ahead C st) (K \<union> held st) (set_option (retBlock st)) st"
    then show "\<exists>isOpen'. flowing fl isOpen' \<and> accounted isOpen' (set_mset M \<union> ahead C st) (K \<union> held st) (set_option (retBlock st)) st'"
      using accounted_terminateWaiting(1) [OF _ nb assms(2,3)] by auto
  qed (use u t(6,7) a in \<open>auto simp: asrt_def balanced_def stacksOK_def\<close>)
  then show "asrt \<Gamma> C Z fl M K X st' \<and> codegen st st'" using t(2) by simp
qed

lemma emitted_counter:
  assumes "emitted st0 (asrt \<Gamma> C Z Opened M K X) (SetInsertPoint b st)" "target \<in> K"
    "(case counter of None \<Rightarrow> Some (SetInsertPoint b st) | Some q \<Rightarrow> emitIncrement E q (SetInsertPoint b st)) = Some st2" "CreateBr target st2 = Some st3"
  shows "emitted st0 (asrt \<Gamma> C Z Closed M K X) st3"
proof -
  have "emitted st0 (asrt \<Gamma> C Z Opened M K X) st2" using assms(1,3) emitted_emitIncrement by (auto split: option.splits)
  then show ?thesis by (rule emitted_CreateBr [OF _ assms(4) UnI1 [OF assms(2)]])
qed

lemma emitted_CounterBB:
  assumes "emitCounterBB E counter target st = Some (b, st')" "target \<in> K"
  shows "emitted st0 (asrt \<Gamma> C Z Closed M K X) st \<Longrightarrow> emitted st0 (asrt \<Gamma> C Z Closed M (insert b K) X) st'"
    "emitted st0 (asrt \<Gamma> C Z Opened M K X) st \<Longrightarrow> emitted st0 (asrt \<Gamma> C Z Closed (add_mset (scopebb st) M) (insert (scopebb st) (insert b K)) X) st'"
proof -
  obtain st1 st2 where eqs: "insertBB st = (b, st1)"
      "(case counter of None \<Rightarrow> Some (SetInsertPoint b st1) | Some q \<Rightarrow> emitIncrement E q (SetInsertPoint b st1)) = Some st2" "CreateBr target st2 = Some st'"
    using assms(1) unfolding emitCounterBB_def by (auto split: prod.splits Option.bind_splits simp del: option.split)
  have sb: "scopebb st1 = scopebb st" using eqs(1) by (auto simp: insertBB_def)
  show "emitted st0 (asrt \<Gamma> C Z Closed M (insert b K) X) st'" if "emitted st0 (asrt \<Gamma> C Z Closed M K X) st"
    by (rule emitted_counter [OF emitted_move [OF emitted_insert [OF that eqs(1)]] _ eqs(2,3)]) (use assms(2) in simp)
  show "emitted st0 (asrt \<Gamma> C Z Closed (add_mset (scopebb st) M) (insert (scopebb st) (insert b K)) X) st'" if "emitted st0 (asrt \<Gamma> C Z Opened M K X) st"
    by (rule emitted_counter [OF emitted_swap [OF emitted_insert [OF that eqs(1)] sb [symmetric]] _ eqs(2,3)]) (use assms(2) in simp)
qed

lemma CounterBB_frame: "emitCounterBB E counter target st = Some (b, st') \<Longrightarrow> targetBBs st' = targetBBs st"
  by (auto simp: emitCounterBB_def insertBB_def emitIncrement_def appendInstrs_def SetInsertPoint_def CreateBr_def terminate_def split: option.splits Option.bind_splits if_splits)

lemma emitted_CaseCounters:
  assumes "emitCaseCounters E css st = Some (bs, st')" "emitted st0 (asrt \<Gamma> C Z Closed M K X) st"
  shows "\<exists>K'. K \<subseteq> K' \<and> set bs \<subseteq> K' \<and> emitted st0 (asrt \<Gamma> C Z Closed M K' X) st'"
  using assms
proof (induction css arbitrary: st bs K)
  case Nil
  then show ?case by auto
next
  case (Cons cs css)
  obtain body b st1 bs' where eqs: "targetBBs st cs = Some body" "emitCounterBB E (Some cs) body st = Some (b, st1)"
      "emitCaseCounters E css st1 = Some (bs', st')" "bs = b # bs'"
    using Cons.prems(1) by (auto simp: getCaseTarget_def split: prod.splits Option.bind_splits)
  have "emitted st0 (asrt \<Gamma> C Z Closed M (insert b (insert body K)) X) st1"
    by (rule emitted_CounterBB(1) [OF eqs(2) _ emitted_hold [OF Cons.prems(2) held_targets(4) [OF eqs(1)]]]) simp
  from Cons.IH [OF eqs(3) this] show ?case unfolding eqs(4) by auto
qed

lemma getCaseTargets_held: "getCaseTargets css st = Some bs \<Longrightarrow> set bs \<subseteq> held st"
  by (induction css arbitrary: bs) (auto simp: getCaseTargets_def getCaseTarget_def dest: held_targets(4) split: option.splits)

lemma emitted_SwitchInst:
  assumes "emitted st0 (asrt \<Gamma> C Z Opened M K X) st" "emitSwitchInst E p d st = Some st'" "d \<in> K"
  shows "emitted st0 (asrt \<Gamma> C Z Closed M K X) st'"
proof (cases "emitInstrumentation (pgo E)")
  case False
  then obtain bs where bs: "getCaseTargets (switchCases E p) st = Some bs" "terminate (scopebb st) (OtherTerminator (d # bs)) st = Some st'"
    using assms(2) by (auto simp: emitSwitchInst_def CreateSwitch_def split: Option.bind_splits)
  show ?thesis by (rule emitted_terminate [OF assms(1) bs(2)]) (use getCaseTargets_held [OF bs(1)] assms(3) in auto)
next
  case True
  obtain dc st1 bs st2 where eqs: "emitCounterBB E (sdefault E p) d st = Some (dc, st1)" "emitCaseCounters E (switchCases E p) st1 = Some (bs, st2)"
      "terminate (scopebb st) (OtherTerminator (dc # bs)) st2 = Some st'"
    using assms(2) True by (auto simp: emitSwitchInst_def CreateSwitch_def Let_def split: prod.splits Option.bind_splits)
  obtain K' where K': "insert (scopebb st) (insert dc K) \<subseteq> K'" "set bs \<subseteq> K'" "emitted st0 (asrt \<Gamma> C Z Closed (add_mset (scopebb st) M) K' X) st2"
    using emitted_CaseCounters [OF eqs(2) emitted_CounterBB(2) [OF eqs(1) assms(3,1)]] by blast
  have "emitted st0 (asrt \<Gamma> C Z Closed M K' X) st'" by (rule emitted_terminateWaiting [OF K'(3) eqs(3)]) (use K'(1,2) in auto)
  then show ?thesis by (rule emitted_dropK) (use K'(1) in blast)
qed

lemma emitted_CaseJump:
  assumes "emitted st0 (asrt \<Gamma> C Z Opened M K X) st" "emitCaseJump E cs st = Some (b, st')"
  shows "\<exists>K'. insert b K \<subseteq> K' \<and> emitted st0 (asrt \<Gamma> C Z Opened M K' X) st'"
proof (cases "emitInstrumentation (pgo E)")
  case False
  then have "targetBBs st cs = Some b" "st' = st" using assms(2) by (auto simp: emitCaseJump_def getCaseTarget_def split: Option.bind_splits)
  then show ?thesis using emitted_hold [OF assms(1) held_targets(4)] by (intro exI [of _ "insert b K"]) auto
next
  case True
  obtain t st1 where eqs: "targetBBs st cs = Some t" "emitCounterBB E (Some cs) t st = Some (b, st1)" "st' = SetInsertPoint (scopebb st) st1"
    using assms(2) True by (auto simp: emitCaseJump_def getCaseTarget_def split: prod.splits Option.bind_splits)
  have "emitted st0 (asrt \<Gamma> C Z Closed (add_mset (scopebb st) M) (insert (scopebb st) (insert b (insert t K))) X) st1"
    by (rule emitted_CounterBB(2) [OF eqs(2) _ emitted_hold [OF assms(1) held_targets(4) [OF eqs(1)]]]) simp
  from emitted_move [OF this] show ?thesis unfolding eqs(3) by (intro exI [of _ "insert (scopebb st) (insert b (insert t K))"] conjI) auto
qed

lemma emitted_CheckCase:
  assumes "emitted st0 (asrt \<Gamma> C Z Opened M K X) st" "emitCheckCase E cs st = Some st'"
  shows "emitted st0 (asrt \<Gamma> C Z Opened M K X) st'"
proof -
  obtain n st1 b st2 st3 where eqs: "insertBB st = (n, st1)" "emitCaseJump E cs st1 = Some (b, st2)" "CreateCondBr b n st2 = Some st3" "st' = SetInsertPoint n st3"
    using assms(2) by (auto simp: emitCheckCase_def split: prod.splits Option.bind_splits)
  obtain K' where K': "insert b (insert n K) \<subseteq> K'" "emitted st0 (asrt \<Gamma> C Z Opened (add_mset n M) K' X) st2"
    using emitted_CaseJump [OF emitted_insert [OF assms(1) eqs(1)] eqs(2)] by blast
  have "emitted st0 (asrt \<Gamma> C Z Closed (add_mset n M) K' X) st3" by (rule emitted_CreateCondBr [OF K'(2) eqs(3)]) (use K'(1) in auto)
  from emitted_dropK [OF emitted_move [OF this], of K] show ?thesis using K'(1) eqs(4) by auto
qed

lemma emitted_CaseChain:
  assumes "emitted st0 (asrt \<Gamma> C Z Opened M K X) st" "emitCaseChain E p d st = Some st'" "d \<in> K"
  shows "emitted st0 (asrt \<Gamma> C Z Closed M K X) st'"
proof -
  obtain n st1 st2 db st3 st4 where eqs: "insertBB st = (n, st1)" "CreateBr n st1 = Some st2" "emitDefaultJump E p d st2 = Some (db, st3)"
      "iterM (emitCheckCase E) (switchCases E p) (SetInsertPoint n st3) = Some st4" "CreateBr db st4 = Some st'"
    using assms(2) by (auto simp: emitCaseChain_def split: prod.splits Option.bind_splits)
  note s1 = emitted_insert [OF assms(1) eqs(1)]
  have s2: "emitted st0 (asrt \<Gamma> C Z Closed (add_mset n M) (insert n K) X) st2" by (rule emitted_CreateBr [OF s1 eqs(2)]) simp
  have "emitted st0 (asrt \<Gamma> C Z Closed (add_mset n M) (insert db (insert n K)) X) st3"
    using eqs(3) s2 emitted_CounterBB(1) [of E "sdefault E p" d st2 db st3] assms(3)
    by (auto simp: emitDefaultJump_def insert_absorb split: if_splits)
  from emitted_move [OF this] have "emitted st0 (asrt \<Gamma> C Z Opened M (insert db (insert n K)) X) (SetInsertPoint n st3)" .
  with eqs(4) have s4: "emitted st0 (asrt \<Gamma> C Z Opened M (insert db (insert n K)) X) st4" by (rule iterM_invariant) (rule emitted_CheckCase)
  have "emitted st0 (asrt \<Gamma> C Z Closed M (insert db (insert n K)) X) st'" by (rule emitted_CreateBr [OF s4 eqs(5)]) simp
  then show ?thesis by (rule emitted_dropK) blast
qed

section \<open>The switch\<close>

lemma caseIndices_frame:
  assumes "admissible E" "iterM (evalCaseIndex E) css st = Some st'"
  shows "FuncGenState.FuncGenState.truncate st' = FuncGenState.FuncGenState.truncate st \<and> retBlock st' = retBlock st"
  using assms(2)
proof (rule iterM_invariant)
  fix cs s s'
  assume s: "FuncGenState.FuncGenState.truncate s = FuncGenState.FuncGenState.truncate st \<and> retBlock s = retBlock st" "evalCaseIndex E cs s = Some s'"
  show "FuncGenState.FuncGenState.truncate s' = FuncGenState.FuncGenState.truncate st \<and> retBlock s' = retBlock st"
  proof (cases "caseIsConst E cs")
    case False
    then obtain s1 where s1: "caseElem E cs s = Some s1" "destructTemporaries (currentCleanupScope s) s1 = Some s'"
      using s(2) by (auto simp: evalCaseIndex_def withDtors_def split: Option.bind_splits)
    have t: "FuncGenState.FuncGenState.truncate s1 = FuncGenState.FuncGenState.truncate s" "retBlock s1 = retBlock s" using assms(1) s1(1) by (auto simp: admissible_def)
    have "currentCleanupScope s1 = currentCleanupScope s"
      using t(1) by (cases s; cases s1; simp add: FuncGenState.FuncGenState.truncate_def currentCleanupScope_def)
    then have "s' = s1" using s1(2) by (simp add: destructTemporaries_def)
    then show ?thesis using s(1) t by simp
  qed (use s in \<open>simp add: evalCaseIndex_def\<close>)
qed simp

lemma emitted_defaultTarget:
  assumes "emitted st0 (asrt \<Gamma> C Z fl M K X) st" "defaultTarget E p endbb st = (d, st')" "endbb \<in> K" "\<And>q. sdefault E p = Some q \<Longrightarrow> q \<in> casesHere \<Gamma>"
  shows "emitted st0 (asrt \<Gamma> C Z fl M (insert d K) X) st'"
  using assms emitted_caseTarget [OF assms(1)] by (auto simp: defaultTarget_def insert_absorb split: option.splits)

lemma emitted_switchBody:
  assumes "stmtOK ks ks inn cl ebody" "\<And>q. sdefault E p = Some q \<Longrightarrow> q \<in> ks" "ks \<union> inn \<subseteq> Z" "ks \<inter> inn = {}"
    "emitted st (asrt \<Gamma> C Z Opened (add_mset bodybb (add_mset endbb M)) K X) st" "endbb \<in> K" "defaultTarget E p endbb st = (d, st4)"
    "ebody (pushBreakTarget p endbb (SetInsertPoint bodybb st4)) = Some st5" "popBreakTarget st5 = Some st6" "branchUnlessReturned endbb st6 = Some st7"
  shows "emitted st (asrt \<Gamma> C (Z - (ks \<union> inn)) Opened (add_mset endbb M) (insert (scopebb st) (insert d K)) X) (SetInsertPoint (scopebb st) st7)"
proof -
  let ?\<Gamma> = "\<lparr>casesHere = ks, mayCreate = ks \<union> inn, tableBefore = targetBBs st\<rparr>" and ?A = "mset_set (ahead C st)"
  have "emitted st (asrt ?\<Gamma> ks inn Opened (add_mset bodybb (add_mset endbb M) + ?A) K X) st"
    by (rule emitted_weaken [OF assms(5)]) (rule asrt_enterSwitch [OF _ assms(3,4)])
  from emitted_defaultTarget [OF this assms(7,6)] assms(2)
  have s4: "emitted st (asrt ?\<Gamma> ks inn Opened (add_mset bodybb (add_mset endbb M + ?A)) (insert d K) X) st4" by simp
  have sb: "scopebb st4 = scopebb st" using assms(7)
    by (auto simp: defaultTarget_def getOrCreateCaseTarget_def insertBB_def split: option.splits)
  let ?K = "insert (scopebb st) (insert d K)"
  have e: "endbb \<in> ?K" using assms(6) by simp
  obtain tb where "emitted st (asrt ?\<Gamma> ks inn Opened (add_mset (scopebb st) (add_mset endbb M + ?A)) ?K (X\<lparr>breaks := breaks X @ [tb]\<rparr>))
      (pushBreakTarget p endbb (SetInsertPoint bodybb st4))"
    using emitted_pushBreakTarget [OF emitted_swap [OF s4 sb [symmetric]] e] by blast
  from emitted_popBreakTarget [OF stmtOKD [OF assms(1) this assms(8)] assms(9)]
  have s6: "emitted st (asrt ?\<Gamma> {} {} (if cl then Either else Opened) (add_mset (scopebb st) (add_mset endbb M + ?A)) ?K X) st6" by simp
  have s7: "emitted st (asrt ?\<Gamma> {} {} Opened (add_mset endbb M + ?A) ?K X) (SetInsertPoint (scopebb st) st7)"
    by (rule emitted_move [OF emitted_branchUnlessReturned [OF s6 assms(10) UnI1 [OF e]]])
  have "finite (ahead C st)" if "asrt \<Gamma> C Z Opened (add_mset bodybb (add_mset endbb M)) K X st"
  proof (rule finite_subset)
    show "ahead C st \<subseteq> {..<nextBB st}" using asrtD(3) [OF that] by blast
  qed simp
  then have "emitted st (\<lambda>s. asrt ?\<Gamma> {} {} Opened (add_mset endbb M + ?A) ?K X s \<and> tableOK \<Gamma> C Z (targetBBs st) \<and> finite (ahead C st)) (SetInsertPoint (scopebb st) st7)"
    by (intro emitted_start [OF assms(5) s7]) (simp add: asrt_def)
  then show ?thesis by (rule emitted_weaken) (use asrt_leaveSwitch [OF _ _ _ assms(3)] in blast)
qed

lemma stmtOK_Switch:
  assumes "admissible E" "elemOK econd" "stmtOK ks ks inn cl ebody" "\<And>q. sdefault E p = Some q \<Longrightarrow> q \<in> ks" "ks \<inter> inn = {}"
  shows "stmtOK A {} (ks \<union> inn) closes (toIR_Switch E p econd ebody)"
proof (rule stmtOK_openI)
  fix \<Gamma> C Z M K X st st'
  assume a: "casesHere \<Gamma> = A" "{} \<subseteq> C" "ks \<union> inn \<subseteq> Z" "emitted st (asrt \<Gamma> C Z Opened M K X) st" "toIR_Switch E p econd ebody st = Some st'"
  let ?dispatch = "if list_all (caseIsConst E) (switchCases E p) then emitSwitchInst else emitCaseChain"
  obtain st1 bodybb st2 endbb st3 d st4 st5 st6 st7 st8 st9 where eqs: "iterM (evalCaseIndex E) (switchCases E p) st = Some st1"
      "insertBB st1 = (bodybb, st2)" "insertBB st2 = (endbb, st3)" "defaultTarget E p endbb st3 = (d, st4)"
      "ebody (pushBreakTarget p endbb (SetInsertPoint bodybb st4)) = Some st5" "popBreakTarget st5 = Some st6" "branchUnlessReturned endbb st6 = Some st7"
      "withDtors econd (SetInsertPoint (scopebb st) st7) = Some st8" "?dispatch E p d st8 = Some st9" "emitIncrement E p (SetInsertPoint endbb st9) = Some st'"
    using a(5) unfolding toIR_Switch_def by (auto split: prod.splits Option.bind_splits simp del: if_split)
  note fr = caseIndices_frame [OF assms(1) eqs(1)]
  have "scopebb st1 = scopebb st" using fr by (cases st; cases st1; simp add: FuncGenState.FuncGenState.truncate_def)
  then have sb: "scopebb st3 = scopebb st" using eqs(2,3) by (auto simp: insertBB_def)
  have s1: "emitted st (asrt \<Gamma> C Z Opened M K X) st1" by (rule emitted_code [OF a(4)]) (use fr in simp_all)
  let ?K = "insert endbb (insert bodybb K)"
  have s3: "emitted st (asrt \<Gamma> C Z Opened (add_mset bodybb (add_mset endbb M)) ?K X) st3"
    using emitted_insert [OF emitted_insert [OF s1 eqs(2)] eqs(3)] by (simp add: add_mset_commute)
  have e: "endbb \<in> ?K" by simp
  note s7 = emitted_trans [OF s3 emitted_switchBody [OF assms(3,4) a(3) assms(5) emitted_here [OF s3] e eqs(4-7)], unfolded sb]
  note s8 = plainOKD [OF plainOK_withDtors [OF assms(2)] s7 eqs(8)]
  have d: "d \<in> insert (scopebb st) (insert d ?K)" by simp
  have s9: "emitted st (asrt \<Gamma> C (Z - (ks \<union> inn)) Closed (add_mset endbb M) (insert (scopebb st) (insert d ?K)) X) st9"
    using eqs(9) emitted_SwitchInst [OF s8 _ d] emitted_CaseChain [OF s8 _ d] by (auto split: if_splits)
  from emitted_emitIncrement [OF emitted_move [OF this] eqs(10)]
  show "\<exists>K'. K \<subseteq> K' \<and> emitted st (asrt \<Gamma> (C - {}) (Z - (ks \<union> inn)) Opened M K' X) st'"
    by (intro exI [of _ "insert (scopebb st) (insert d ?K)"] conjI) auto
qed

end
