(* ===== verification/StatementChecks.thy ===== *)
theory StatementChecks
  imports StatementIR
begin

text \<open>
  What the front end guarantees of statement trees: which case statements belong to which switch,
  and where the emission of a statement may end in a block that is closed.
\<close>

section \<open>Cases of a switch\<close>

text \<open>The children of a statement that are emitted as statements.\<close>

fun parts :: "ptr ast \<Rightarrow> ptr ast list" where
  "parts (Seq k p xs) = (if k = CompoundS \<or> k = ScopeS then xs else if k = WithS then drop 2 xs else [])"
| "parts (IfStatement p c t e) = [t, e]"
| "parts (WhileStatement p c b) = [b]"
| "parts (DoStatement p b c) = [b]"
| "parts (ForStatement p i c b inc) = [i, b]"
| "parts (ForeachStatement p aggr b) = [b]"
| "parts (ForeachRangeStatement p l u b) = [b]"
| "parts (UnrolledLoopStatement p xs) = xs"
| "parts (LabelStatement p s) = [s]"
| "parts (SwitchStatement p c b) = [b]"
| "parts (CaseStatement p g s) = [s]"
| "parts (DefaultStatement p g s) = [s]"
| "parts (TryCatchStatement p b cs) = b # cs"
| "parts (Catch p h) = [h]"
| "parts (TryFinallyStatement p b f) = [b, f]"
| "parts _ = []"

lemma parts_children: "x \<in> set (parts a) \<Longrightarrow> x \<in> set (children a)"
  by (cases a) (auto split: if_splits dest: in_set_dropD)

lemma size_parts: "x \<in> set (parts a) \<Longrightarrow> size x < size a"
  by (rule size_children) (rule parts_children)

text \<open>The cases in a statement that belong to a switch around it, and those of the switches in it.\<close>

definition caseOf :: "ptr ast \<Rightarrow> ptr list" where
  "caseOf a = (case a of CaseStatement p g s \<Rightarrow> [p] | DefaultStatement p g s \<Rightarrow> [p] | _ \<Rightarrow> [])"

function casesIn :: "ptr ast \<Rightarrow> ptr list" where
  "casesIn a = (if is_Switch a then [] else caseOf a @ concat (map casesIn (parts a)))"
  by pat_completeness auto
termination
  by (relation "measure size") (auto simp: size_parts)

function casesBelow :: "ptr ast \<Rightarrow> ptr list" where
  "casesBelow a = (if is_Switch a then concat (map casesIn (parts a)) else []) @ concat (map casesBelow (parts a))"
  by pat_completeness auto
termination
  by (relation "measure size") (auto simp: size_parts)

declare casesIn.simps [simp del] casesBelow.simps [simp del]

section \<open>Statements that close their block\<close>

text \<open>
  Only \<open>SwitchErrorStatement\<close> leaves the builder in a block with a terminator. It may be the last
  statement of a compound statement.
\<close>

definition passesOn :: "ptr ast \<Rightarrow> bool" where
  "passesOn a = (case a of Seq k p xs \<Rightarrow> True | IfStatement p c t e \<Rightarrow> True | LabelStatement p s \<Rightarrow> True | CaseStatement p g s \<Rightarrow> True
     | DefaultStatement p g s \<Rightarrow> True | Catch p h \<Rightarrow> True | _ \<Rightarrow> False)"

definition isSwitchError :: "ptr ast \<Rightarrow> bool" where
  "isSwitchError a = (case a of Leaf k p \<Rightarrow> k = SwitchErrorStatement | _ \<Rightarrow> False)"

function closes :: "ptr ast \<Rightarrow> bool" where
  "closes a = (isSwitchError a \<or> passesOn a \<and> list_ex closes (parts a))"
  by pat_completeness auto
termination
  by (relation "measure size") (auto simp: size_parts)

declare closes.simps [simp del]

text \<open>
  \<open>A\<close> are the cases of the switch around the statement. A \<open>goto case\<close> goes to one of them, the default
  of a switch is in its body, and a condition on the target of device code has no cases below it.
\<close>

definition okNode :: "ToIREnv \<Rightarrow> ptr set \<Rightarrow> ptr ast \<Rightarrow> bool" where
  "okNode E A a =
     (case a of
        Leaf k p \<Rightarrow> k = GotoCaseStatement \<longrightarrow> gotoCaseTarget E p \<in> A
      | Seq k p xs \<Rightarrow> k = CompoundS \<longrightarrow> list_all (\<lambda>x. \<not> closes x) (butlast xs)
      | IfStatement p c t e \<Rightarrow> dcReflect E p \<noteq> None \<longrightarrow> casesIn t = [] \<and> casesIn e = []
      | ForStatement p i c b inc \<Rightarrow> \<not> closes i
      | SwitchStatement p c b \<Rightarrow> list_all (\<lambda>d. d \<in> set (casesIn b)) (case sdefault E p of None \<Rightarrow> [] | Some d \<Rightarrow> [d])
      | TryCatchStatement p b cs \<Rightarrow> cs \<noteq> [] \<and> list_all is_Catch cs
      | TryFinallyStatement p b f \<Rightarrow> \<not> closes b \<and> \<not> closes f
      | _ \<Rightarrow> True)"

function okStmt :: "ToIREnv \<Rightarrow> ptr set \<Rightarrow> ptr ast \<Rightarrow> bool" where
  "okStmt E A a = (okNode E A a \<and> list_all (okStmt E (if is_Switch a then set (concat (map casesIn (parts a))) else A)) (parts a))"
  by pat_completeness auto
termination
  by (relation "measure (\<lambda>(E, A, a). size a)") (auto simp: size_parts)

declare okStmt.simps [simp del]

definition okBody :: "ToIREnv \<Rightarrow> ptr ast \<Rightarrow> bool" where
  "okBody E a \<longleftrightarrow> okStmt E {} a \<and> casesIn a = [] \<and> distinct (casesBelow a) \<and> \<not> closes a"

section \<open>The search for labels\<close>

lemma ContainsLabel_total: "\<exists>v'. walk ContainsLabelWalker a v = Some v'"
proof (induction a arbitrary: v rule: ast_children_induct)
  case (node a)
  have ws: "\<exists>v'. walks ContainsLabelWalker xs v = Some v'" if "set xs \<subseteq> set (children a)" for xs v
    using that
  proof (induction xs arbitrary: v)
    case (Cons x xs)
    obtain v1 where "walk ContainsLabelWalker x v = Some v1" using node [of x v] Cons.prems by auto
    then show ?case using Cons by auto
  qed simp
  have n: "\<exists>v'. void (orelse (call_visitor ContainsLabelWalker a) (recurse (walks ContainsLabelWalker (children a)))) v = Some v'" for v
  proof -
    have "\<exists>r. call_visitor ContainsLabelWalker a v = Some r"
      by (auto simp: call_visitor_def ContainsLabelWalker_def ContainsLabel_visit_def split: ast.split)
    then obtain b v1 where c: "call_visitor ContainsLabelWalker a v = Some (b, v1)" by auto
    obtain v2 where "walks ContainsLabelWalker (children a) v1 = Some v2" using ws [of "children a" v1] by auto
    then show ?thesis by (auto simp: void_def orelse_def recurse_def c)
  qed
  show ?case
  proof (cases "skipped (visitsExpression ContainsLabelWalker) a \<or> is_Catch a \<or> is_Switch a")
    case True
    then consider "skipped (visitsExpression ContainsLabelWalker) a" | "is_Catch a" | "is_Switch a" by blast
    then show ?thesis
    proof cases
      case 3
      from n [of "v\<lparr>insideSwitch := Some (addr a)\<rparr>"] show ?thesis by (auto simp: walk_Switch [OF 3]) (auto simp: ContainsLabelWalker_def)
    qed (use ws [of "children a"] in \<open>auto simp: walk_skipped walk_Catch\<close>)
  qed (use n [of v] walk_node [of ContainsLabelWalker a] in auto)
qed

lemma ContainsLabel_call:
  assumes "call_visitor ContainsLabelWalker a v = Some (b, v')" "insideSwitch v = None" "\<not> stop v'"
  shows "caseOf a = []" "v' = v" "\<not> b"
  using assms by (auto simp: call_visitor_def ContainsLabelWalker_def ContainsLabel_visit_def caseOf_def split: ast.splits if_splits)

lemma ContainsLabel_keys:
  assumes "walk ContainsLabelWalker a v = Some v'" "\<not> stop v" "insideSwitch v = None" "\<not> stop v'"
  shows "casesIn a = [] \<and> insideSwitch v' = None"
  using assms
proof (induction a arbitrary: v v' rule: ast_children_induct)
  case (node a)
  have ws: "(\<forall>x\<in>set xs. casesIn x = []) \<and> insideSwitch v' = None"
    if "set xs \<subseteq> set (children a)" "walks ContainsLabelWalker xs v = Some v'" "\<not> stop v" "insideSwitch v = None" "\<not> stop v'" for xs v v'
    using that
  proof (induction xs arbitrary: v)
    case (Cons x xs)
    obtain v1 where v1: "walk ContainsLabelWalker x v = Some v1" "\<not> stop v1" "walks ContainsLabelWalker xs v1 = Some v'"
      using Cons.prems(2,5) by (auto split: Option.bind_splits if_splits)
    have "casesIn x = [] \<and> insideSwitch v1 = None" using node.IH [OF _ v1(1) Cons.prems(3,4) v1(2)] Cons.prems(1) by simp
    then show ?case using Cons.IH [OF _ v1(3,2)] Cons.prems(1,5) by simp
  qed simp
  have casesIn: "casesIn a = []" if "caseOf a = []" "\<forall>x\<in>set (children a). casesIn x = []"
    using that by (subst casesIn.simps) (auto dest: parts_children)
  show ?case
  proof (cases "is_Switch a")
    case True
    then show ?thesis using node.prems(1,3) unfolding walk_Switch [OF True] by (subst casesIn.simps) (auto simp: ContainsLabelWalker_def)
  next
    case sw: False
    show ?thesis
    proof (cases "skipped (visitsExpression ContainsLabelWalker) a")
      case True
      then have "parts a = []" "caseOf a = []" by (cases a; simp add: caseOf_def)+
      then show ?thesis using node.prems(1,3) by (subst casesIn.simps) (simp add: walk_skipped [OF True])
    next
      case sk: False
      show ?thesis
      proof (cases "is_Catch a")
        case True
        have "caseOf a = []" using True by (cases a) (simp_all add: caseOf_def)
        then show ?thesis using ws [OF subset_refl] node.prems casesIn by (simp add: walk_Catch [OF True])
      next
        case False
        from node.prems(1,4) obtain b v1 where c: "call_visitor ContainsLabelWalker a v = Some (b, v1)"
            "b \<Longrightarrow> v' = v1" "\<not> b \<Longrightarrow> walks ContainsLabelWalker (children a) v1 = Some v'" "\<not> stop v1"
          unfolding walk_node [OF sk False sw] void_def orelse_def recurse_def
          by (auto simp: call_visitor_def ContainsLabelWalker_def split: Option.bind_splits if_splits)
        note cc = ContainsLabel_call [OF c(1) node.prems(3) c(4)]
        show ?thesis using ws [OF subset_refl c(3) [OF cc(3)]] node.prems(2-4) cc(1,2) casesIn by simp
      qed
    qed
  qed
qed

lemma casesIn_containsLabel: "\<not> containsLabel a \<Longrightarrow> casesIn a = []"
  using ContainsLabel_total [of a "\<lparr>stop = False, insideSwitch = None\<rparr>"] ContainsLabel_keys [of a "\<lparr>stop = False, insideSwitch = None\<rparr>"]
  by (auto simp: containsLabel_def)

end
