(* ===== verification/StatementContracts.thy ===== *)
theory StatementContracts
  imports StatementSwitch StatementChecks
begin

text \<open>Every statement keeps its contract: the accounts of blocks balance when it has been emitted.\<close>

lemma cases_parts:
  assumes "distinct (casesIn a @ casesBelow a)" "x \<in> set (parts a)"
  shows "distinct (casesIn x @ casesBelow x)"
proof -
  obtain ys zs where p: "parts a = ys @ x # zs" using assms(2) by (auto simp: in_set_conv_decomp)
  show ?thesis
  proof (cases "is_Switch a")
    case True
    then have "parts a = [x]" using assms(2) by (cases a) auto
    then show ?thesis using assms(1) True by (simp add: casesIn.simps [of a] casesBelow.simps [of a])
  next
    case False
    then show ?thesis using assms(1) by (auto simp: casesIn.simps [of a] casesBelow.simps [of a] p)
  qed
qed

lemma distinct_parts:
  assumes "distinct (casesIn a @ casesBelow a)" "\<not> is_Switch a"
  shows "distinct (concat (map casesIn (parts a)))" "distinct (concat (map casesBelow (parts a)))" "set (caseOf a) \<inter> set (concat (map casesIn (parts a))) = {}"
  using assms by (auto simp: casesIn.simps [of a] casesBelow.simps [of a])

lemma casesIn_other: "\<not> is_Switch a \<Longrightarrow> casesIn a = caseOf a @ concat (map casesIn (parts a))" "\<not> is_Switch a \<Longrightarrow> casesBelow a = concat (map casesBelow (parts a))"
  by (simp_all add: casesIn.simps [of a] casesBelow.simps [of a])

lemma stmtOK_none: "stmtOK A ks inn cl (\<lambda>_. None)"
  by (simp add: stmtOK_def)

definition keepsAccounts :: "ToIREnv \<Rightarrow> ptr set \<Rightarrow> ptr ast \<Rightarrow> bool" where
  "keepsAccounts E A a \<longleftrightarrow> stmtOK A (set (casesIn a)) (set (casesBelow a)) (closes a) (toIR E a)"

lemma kept_Null: "keepsAccounts E A Null"
  unfolding keepsAccounts_def by (subst toIR.simps) (simp add: casesIn.simps [of Null] casesBelow.simps [of Null] caseOf_def stmtOK_Some)

lemma kept_Leaf:
  assumes "admissible E" "okNode E A (Leaf k p)"
  shows "keepsAccounts E A (Leaf k p)"
proof -
  have n: "casesIn (Leaf k p) = []" "casesBelow (Leaf k p) = []" "closes (Leaf k p) \<longleftrightarrow> k = SwitchErrorStatement"
    by (simp_all add: casesIn.simps [of "Leaf k p"] casesBelow.simps [of "Leaf k p"] closes.simps [of "Leaf k p"] caseOf_def isSwitchError_def passesOn_def)
  have asm: "stmtOK A {} {} cl (\<lambda>st. do { _ \<leftarrow> ensure (dcomputetarget E = None); otherElem E p [] st })" for cl
    using stmtOK_plain [OF plainOK_other [OF assms(1)]] stmtOK_none by (cases "dcomputetarget E") simp_all
  have case_target: "gotoCaseTarget E p \<in> A" if "k = GotoCaseStatement" using assms(2) that by (simp add: okNode_def)
  show ?thesis unfolding keepsAccounts_def n toIR.simps [of E "Leaf k p"] ast.case toIR_Leaf_def
    by (cases k) (use asm case_target in \<open>auto intro: stmtOK_none stmtOK_Some stmtOK_SwitchError [OF assms(1)] stmtOK_GotoCase stmtOK_plain
        plainOK_GotoDefault plainOK_Goto\<close>)
qed

lemma casesIn_Null [simp]: "casesIn Null = []"
  by (simp add: casesIn.simps [of Null] caseOf_def)

lemma closes_Seq: "closes (Seq k p xs) \<longleftrightarrow> list_ex closes (parts (Seq k p xs))"
  by (simp add: closes.simps [of "Seq k p xs"] isSwitchError_def passesOn_def)

lemma kept_Seq:
  assumes "admissible E" "okNode E A (Seq k p xs)" "distinct (casesIn (Seq k p xs) @ casesBelow (Seq k p xs))" "\<And>x. x \<in> set (parts (Seq k p xs)) \<Longrightarrow> keepsAccounts E A x"
  shows "keepsAccounts E A (Seq k p xs)"
proof -
  let ?a = "Seq k p xs"
  have n: "\<not> is_Switch ?a" "caseOf ?a = []" by (simp_all add: caseOf_def)
  note d = distinct_parts [OF assms(3) n(1)] and ks = casesIn_other(1) [OF n(1)] casesIn_other(2) [OF n(1)]
  have IH: "stmtOK A (set (casesIn x)) (set (casesBelow x)) (closes x) (toIR E x)" if "x \<in> set (parts ?a)" for x using assms(4) [OF that] by (simp add: keepsAccounts_def)
  have goal: "toIR E ?a = toIR_Seq E k xs (map (toIR E) xs) (map (toElem E) xs)" by (subst toIR.simps) simp
  have compound: ?thesis if k: "k = CompoundS"
  proof -
    have "stmtOK A (set (concat (map casesIn xs))) (set (concat (map casesBelow xs))) (\<exists>x\<in>set xs. closes x) (seqEmit (map (toIR E) xs))"
      by (rule stmtOK_seqEmit) (use k IH d assms(2) in \<open>auto simp: okNode_def list_all_iff\<close>)
    then show ?thesis unfolding keepsAccounts_def goal ks n closes_Seq by (simp add: k list_ex_iff)
  qed
  have scope: ?thesis if k: "k = ScopeS" and xs: "xs = [x]" for x
    using stmtOK_Scope [OF IH [of x], where hasStatement = "x \<noteq> Null"] unfolding keepsAccounts_def goal ks n closes_Seq by (simp add: k xs)
  have wth: ?thesis if k: "k = WithS" and xs: "xs = [w, e, b]" for w e b
    using stmtOK_With [OF elemOK_toElem [OF assms(1), of e] IH [of b], where hasWthis = "w \<noteq> Null"] unfolding keepsAccounts_def goal ks n closes_Seq by (simp add: k xs)
  have expr: ?thesis if k: "k = ExpS" and xs: "xs = [e]" for e
    using stmtOK_plain [OF plainOK_withDtors [OF elemOK_toElem [OF assms(1), of e]]] unfolding keepsAccounts_def goal ks n closes_Seq by (simp add: k xs)
  have none: ?thesis if "toIR E ?a = (\<lambda>_. None)" unfolding keepsAccounts_def that by (rule stmtOK_none)
  show ?thesis by (rule seq_kind.exhaust [of k]; (erule compound)?)
    (use scope wth expr none goal in \<open>auto split: list.splits\<close>)
qed

lemma closes_loop: "\<not> passesOn a \<Longrightarrow> \<not> isSwitchError a \<Longrightarrow> closes a = False"
  by (simp add: closes.simps [of a])

lemma closes_pass: "passesOn a \<Longrightarrow> \<not> isSwitchError a \<Longrightarrow> closes a = list_ex closes (parts a)"
  by (simp add: closes.simps [of a])

lemma kept_If:
  assumes "admissible E" "okNode E A (IfStatement p c t e)" "distinct (casesIn (IfStatement p c t e) @ casesBelow (IfStatement p c t e))" "keepsAccounts E A t" "keepsAccounts E A e"
  shows "keepsAccounts E A (IfStatement p c t e)"
proof -
  let ?a = "IfStatement p c t e"
  have n: "\<not> is_Switch ?a" "caseOf ?a = []" by (simp_all add: caseOf_def)
  note d = distinct_parts [OF assms(3) n(1)]
  have "stmtOK A (set (casesIn t) \<union> set (casesIn e)) (set (casesBelow t) \<union> set (casesBelow e)) (closes t \<or> closes e) (toIR_If E p t e (toElem E c) (toIR E t) (toIR E e))"
    by (rule stmtOK_If [OF elemOK_toElem [OF assms(1)] assms(4,5) [unfolded keepsAccounts_def]])
      (use d assms(2) in \<open>auto simp: okNode_def casesIn_containsLabel\<close>)
  then show ?thesis unfolding keepsAccounts_def casesIn_other(1) [OF n(1)] casesIn_other(2) [OF n(1)]
    by (subst toIR.simps) (simp add: n closes_pass passesOn_def isSwitchError_def)
qed

lemma kept_Switch:
  assumes "admissible E" "okNode E A (SwitchStatement p c b)" "distinct (casesIn b @ casesBelow b)" "keepsAccounts E (set (casesIn b)) b"
  shows "keepsAccounts E A (SwitchStatement p c b)"
proof -
  have "stmtOK A {} (set (casesIn b) \<union> set (casesBelow b)) False (toIR_Switch E p (toElem E c) (toIR E b))"
    by (rule stmtOK_Switch [OF assms(1) elemOK_toElem [OF assms(1)] assms(4) [unfolded keepsAccounts_def]]) (use assms(2,3) in \<open>auto simp: okNode_def\<close>)
  then show ?thesis unfolding keepsAccounts_def casesIn.simps [of "SwitchStatement p c b"] casesBelow.simps [of "SwitchStatement p c b"]
    by (subst toIR.simps) (simp add: closes_loop passesOn_def isSwitchError_def)
qed

lemma casesIn_Catch: "is_Catch c \<Longrightarrow> handlerOfCatch c = Null \<Longrightarrow> casesIn c = []"
  by (cases c) (simp_all add: handlerOfCatch_def casesIn.simps [of "Catch _ _"] caseOf_def)

lemma kept_TryCatch:
  assumes "admissible E" "okNode E A (TryCatchStatement p b cs)" "distinct (casesIn (TryCatchStatement p b cs) @ casesBelow (TryCatchStatement p b cs))"
    "keepsAccounts E A b" "\<And>c. c \<in> set cs \<Longrightarrow> keepsAccounts E A c"
  shows "keepsAccounts E A (TryCatchStatement p b cs)"
proof -
  let ?a = "TryCatchStatement p b cs" and ?g = "\<lambda>c. \<lparr>catchAddr = addr c, hasHandler = handlerOfCatch c \<noteq> Null, emitHandler = toIR E c\<rparr>"
  have n: "\<not> is_Switch ?a" "caseOf ?a = []" by (simp_all add: caseOf_def)
  note d = distinct_parts [OF assms(3) n(1)]
  have cs: "cs \<noteq> []" "\<forall>c\<in>set cs. is_Catch c" using assms(2) by (auto simp: okNode_def list_all_iff)
  have "stmtOK A (set (casesIn b) \<union> set (concat (map casesIn cs))) (set (casesBelow b) \<union> set (concat (map casesBelow cs))) False (toIR_TryCatch E p (toIR E b) (map ?g cs))"
  proof (rule stmtOK_TryCatch [OF assms(1) assms(4) [unfolded keepsAccounts_def] cs(1)])
    show "\<forall>c\<in>set cs. stmtOK A (set (casesIn c)) (set (casesBelow c)) (closes c) (emitHandler (?g c)) \<and> (\<not> hasHandler (?g c) \<longrightarrow> casesIn c = [])"
      using assms(5) cs(2) casesIn_Catch by (auto simp: keepsAccounts_def)
  qed (use d in auto)
  then show ?thesis unfolding keepsAccounts_def casesIn_other(1) [OF n(1)] casesIn_other(2) [OF n(1)]
    by (subst toIR.simps) (simp add: n closes_loop passesOn_def isSwitchError_def)
qed

lemma kept_TryFinally:
  assumes "dcomputetarget E = None" "okNode E A (TryFinallyStatement p b f)" "distinct (casesIn (TryFinallyStatement p b f) @ casesBelow (TryFinallyStatement p b f))"
    "keepsAccounts E A b" "keepsAccounts E A f"
  shows "keepsAccounts E A (TryFinallyStatement p b f)"
proof -
  let ?a = "TryFinallyStatement p b f"
  have n: "\<not> is_Switch ?a" "caseOf ?a = []" by (simp_all add: caseOf_def)
  note d = distinct_parts [OF assms(3) n(1)]
  have cl: "\<not> closes b" "\<not> closes f" using assms(2) by (simp_all add: okNode_def)
  have ok: "stmtOK A (set (casesIn b)) (set (casesBelow b)) False (toIR E b)" "stmtOK A (set (casesIn f)) (set (casesBelow f)) False (toIR E f)"
    using assms(4,5) cl by (simp_all add: keepsAccounts_def)
  have "stmtOK A (set (casesIn b) \<union> set (casesIn f)) (set (casesBelow b) \<union> set (casesBelow f)) False (toIR_TryFinally E p (toIR E b) (toIR E f))"
    by (rule stmtOK_TryFinally [OF assms(1) ok]) (use d in auto)
  moreover have "stmtOK A (set (casesIn b) \<union> set (casesIn f)) (set (casesBelow b) \<union> set (casesBelow f)) False (seqEmit [toIR E b, toIR E f])"
    using stmtOK_bind [OF ok] d by (simp add: seqEmit_simps)
  ultimately show ?thesis unfolding keepsAccounts_def casesIn_other(1) [OF n(1)] casesIn_other(2) [OF n(1)]
    by (subst toIR.simps) (simp add: n closes_loop passesOn_def isSwitchError_def)
qed

lemma kept_For:
  assumes "admissible E" "okNode E A (ForStatement p i c b inc)" "distinct (casesIn (ForStatement p i c b inc) @ casesBelow (ForStatement p i c b inc))"
    "keepsAccounts E A i" "keepsAccounts E A b"
  shows "keepsAccounts E A (ForStatement p i c b inc)"
proof -
  let ?a = "ForStatement p i c b inc"
  have n: "\<not> is_Switch ?a" "caseOf ?a = []" by (simp_all add: caseOf_def)
  note d = distinct_parts [OF assms(3) n(1)]
  have i: "stmtOK A (set (casesIn i)) (set (casesBelow i)) False (toIR E i)" using assms(2,4) by (simp add: keepsAccounts_def okNode_def)
  have "stmtOK A (set (casesIn i) \<union> set (casesIn b)) (set (casesBelow i) \<union> set (casesBelow b)) False (toIR_For E p (toIR E i) (toElem E c) (toIR E b) (toElem E inc))"
    by (rule stmtOK_For [OF i elemOK_toElem [OF assms(1)] assms(5) [unfolded keepsAccounts_def] elemOK_toElem [OF assms(1)]]) (use d in auto)
  then show ?thesis unfolding keepsAccounts_def casesIn_other(1) [OF n(1)] casesIn_other(2) [OF n(1)]
    by (subst toIR.simps) (simp add: n closes_loop passesOn_def isSwitchError_def)
qed

lemma kept_Unrolled:
  assumes "distinct (casesIn (UnrolledLoopStatement p xs) @ casesBelow (UnrolledLoopStatement p xs))" "\<And>x. x \<in> set xs \<Longrightarrow> keepsAccounts E A x"
  shows "keepsAccounts E A (UnrolledLoopStatement p xs)"
proof -
  let ?a = "UnrolledLoopStatement p xs"
  have n: "\<not> is_Switch ?a" "caseOf ?a = []" by (simp_all add: caseOf_def)
  note d = distinct_parts [OF assms(1) n(1)]
  have "stmtOK A (set (concat (map casesIn xs))) (set (concat (map casesBelow xs))) False (toIR_Unrolled E p (map (\<lambda>x. (addr x, toIR E x)) xs))"
    by (rule stmtOK_Unrolled) (use d assms(2) in \<open>auto simp: keepsAccounts_def\<close>)
  then show ?thesis unfolding keepsAccounts_def casesIn_other(1) [OF n(1)] casesIn_other(2) [OF n(1)]
    by (subst toIR.simps) (simp add: n closes_loop passesOn_def isSwitchError_def)
qed

lemma kept_single:
  assumes "admissible E" "keepsAccounts E A b"
  shows "keepsAccounts E A (WhileStatement p c b)" "keepsAccounts E A (DoStatement p b c)" "keepsAccounts E A (ForeachStatement p c b)" "keepsAccounts E A (ForeachRangeStatement p l u b)"
    "keepsAccounts E A (LabelStatement p b)" "keepsAccounts E A (Catch p b)"
proof -
  note e = elemOK_toElem [OF assms(1)] and d = plainOK_toElemDtor [OF assms(1)] and b = assms(2) [unfolded keepsAccounts_def]
  have k: "casesIn a = casesIn b" "casesBelow a = casesBelow b" if "parts a = [b]" "\<not> is_Switch a" "caseOf a = []" for a
    using that casesIn_other by simp_all
  have one: "keepsAccounts E A a" if "stmtOK A (set (casesIn b)) (set (casesBelow b)) cl (toIR E a)" "parts a = [b]" "\<not> is_Switch a" "caseOf a = []" "cl \<longrightarrow> closes a" for a cl
    using that(1,5) stmtOK_mono unfolding keepsAccounts_def k [OF that(2-4)] by blast
  have ev: "plainOK (seqEmit [toElemDtor E l, toElemDtor E u])" using plainOK_bind [OF d [of l] d [of u]] by (simp add: seqEmit_simps)
  show "keepsAccounts E A (WhileStatement p c b)"
    by (rule one [where cl = False]; (subst toIR.simps)?) (simp_all add: caseOf_def stmtOK_While [OF e b])
  show "keepsAccounts E A (DoStatement p b c)"
    by (rule one [where cl = False]; (subst toIR.simps)?) (simp_all add: caseOf_def stmtOK_Do [OF e b])
  show "keepsAccounts E A (ForeachStatement p c b)"
    by (rule one [where cl = False]; (subst toIR.simps)?) (simp_all add: caseOf_def stmtOK_Foreach [OF d plainOK_other [OF assms(1)] b])
  show "keepsAccounts E A (ForeachRangeStatement p l u b)"
    by (rule one [where cl = False]; (subst toIR.simps)?) (simp_all add: caseOf_def stmtOK_Foreach [OF ev plainOK_Some(1) b])
  show "keepsAccounts E A (LabelStatement p b)"
    by (rule one [where cl = "closes b"]; (subst toIR.simps)?) (simp_all add: caseOf_def stmtOK_Label [OF b] closes_pass passesOn_def isSwitchError_def)
  show "keepsAccounts E A (Catch p b)"
    by (rule one [where cl = "closes b"]; (subst toIR.simps)?) (simp_all add: caseOf_def b closes_pass passesOn_def isSwitchError_def)
qed

lemma kept_Case:
  assumes "keepsAccounts E A s" "p \<notin> set (casesIn s)"
  shows "keepsAccounts E A (CaseStatement p g s)" "keepsAccounts E A (DefaultStatement p g s)"
proof -
  have k: "casesIn a = p # casesIn s" "casesBelow a = casesBelow s" "closes a = closes s" if "a \<in> {CaseStatement p g s, DefaultStatement p g s}" for a
    using that casesIn_other [of a] by (auto simp: caseOf_def closes_pass passesOn_def isSwitchError_def)
  note c = stmtOK_Case [OF assms(1) [unfolded keepsAccounts_def] assms(2)]
  show "keepsAccounts E A (CaseStatement p g s)" "keepsAccounts E A (DefaultStatement p g s)" unfolding keepsAccounts_def by (subst toIR.simps; simp add: k c)+
qed

lemma kept_jumps:
  assumes "admissible E"
  shows "keepsAccounts E A (ReturnStatement p e)" "keepsAccounts E A (ThrowStatement p e)" "keepsAccounts E A (BreakStatement p t)" "keepsAccounts E A (ContinueStatement p t)"
proof -
  have one: "keepsAccounts E A a" if "plainOK (toIR E a)" "parts a = []" "\<not> is_Switch a" "caseOf a = []" for a
    using stmtOK_plain [OF that(1)] casesIn_other [OF that(3)] that(2,4) by (simp add: keepsAccounts_def)
  have r: "elemOK (otherElem E p [toElem E e])" by (rule elemOK_other [OF assms]) (simp add: elemOK_toElem [OF assms])
  show "keepsAccounts E A (ReturnStatement p e)" by (rule one; (subst toIR.simps)?) (simp_all add: caseOf_def plainOK_Return [OF r])
  show "keepsAccounts E A (ThrowStatement p e)" by (rule one; (subst toIR.simps)?) (simp_all add: caseOf_def plainOK_Throw [OF elemOK_toElem [OF assms]])
  show "keepsAccounts E A (BreakStatement p t)" by (rule one; (subst toIR.simps)?) (simp_all add: caseOf_def plainOK_Break)
  show "keepsAccounts E A (ContinueStatement p t)" by (rule one; (subst toIR.simps)?) (simp_all add: caseOf_def plainOK_Continue)
qed

lemma kept_other:
  "keepsAccounts E A (Members mk p xs)" "keepsAccounts E A (StructLiteralExp p fl xs)" "keepsAccounts E A (ScopeGuardStatement p s)" "keepsAccounts E A (PragmaStatement p s)" "keepsAccounts E A (DebugStatement p s)"
  "keepsAccounts E A (CondExp p c e1 e2)" "keepsAccounts E A (LogicalExp p isAnd e1 e2)" "keepsAccounts E A (FuncDeclaration p s)"
  unfolding keepsAccounts_def by (subst toIR.simps; simp add: stmtOK_none)+

theorem toIR_kept:
  assumes "admissible E" "dcomputetarget E = None" "okStmt E A a" "distinct (casesIn a @ casesBelow a)"
  shows "keepsAccounts E A a"
  using assms(3,4)
proof (induction a arbitrary: A rule: measure_induct_rule [of size])
  case (less a)
  have ok: "okNode E A a" and parts: "x \<in> set (parts a) \<Longrightarrow> okStmt E (if is_Switch a then set (concat (map casesIn (parts a))) else A) x" for x
    using less.prems(1) by (auto simp: okStmt.simps [of E A a] list_all_iff)
  have IH: "x \<in> set (parts a) \<Longrightarrow> keepsAccounts E (if is_Switch a then set (concat (map casesIn (parts a))) else A) x" for x
    by (rule less.IH [OF size_parts parts cases_parts [OF less.prems(2)]])
  have case_new: "p \<notin> set (casesIn s)" if "a = CaseStatement p g s \<or> a = DefaultStatement p g s" for p g s
    using less.prems(2) that casesIn_other(1) [of a] by (auto simp: caseOf_def)
  have switch: "distinct (casesIn b @ casesBelow b)" if "a = SwitchStatement p c b" for p c b using cases_parts [OF less.prems(2), of b] that by simp
  show ?case
    by (cases a)
      (use IH ok less.prems(2) case_new switch in \<open>auto intro: kept_Null kept_Leaf [OF assms(1)] kept_Seq [OF assms(1)] kept_jumps [OF assms(1)] kept_single [OF assms(1)]
        kept_If [OF assms(1)] kept_For [OF assms(1)] kept_Unrolled kept_Switch [OF assms(1)] kept_Case kept_TryCatch [OF assms(1)] kept_TryFinally [OF assms(2)]
        kept_other\<close>)
qed

end
