(* ===== verification/EmittedFunction.thy ===== *)
theory EmittedFunction
  imports StatementContracts
begin

text \<open>
  The function as a whole: when its body has been emitted, all blocks are complete. The body runs
  the cleanups of its epilogs; the block in which it ends gets a terminator, or is removed when
  nothing leads to it.
\<close>

section \<open>Complete functions\<close>

text \<open>Every block has a terminator, and branches lead to blocks of the function.\<close>

definition validBlocks :: "(BB \<rightharpoonup> BasicBlock) \<Rightarrow> bool" where
  "validBlocks m \<longleftrightarrow> (\<forall>b\<in>dom m. terminated m b) \<and> refs m \<subseteq> dom m"

lemma validBlocksD:
  assumes "validBlocks m" "m b = Some blk"
  shows "\<exists>T. terminator blk = Some T \<and> set (succs T) \<subseteq> dom m"
proof -
  have "terminated m b" using assms domI [of m b] by (simp add: validBlocks_def)
  then obtain T where T: "terminator blk = Some T" using assms(2) by (auto simp: terminated_def)
  then have "set (succs T) \<subseteq> refs m" using assms(2) by (auto simp: refs_def)
  then show ?thesis using T assms(1) by (auto simp: validBlocks_def)
qed

lemma hasPredecessor_iff:
  assumes "tidy st"
  shows "hasPredecessor b st \<longleftrightarrow> b \<in> refs (bbs st)"
proof
  assume "hasPredecessor b st"
  then obtain x where "case bbs st x of None \<Rightarrow> False | Some blk \<Rightarrow> (case terminator blk of None \<Rightarrow> False | Some T \<Rightarrow> b \<in> set (succs T))"
    by (auto simp: hasPredecessor_def list_ex_iff)
  then show "b \<in> refs (bbs st)" unfolding refs_def by (cases "bbs st x"; cases "terminator (the (bbs st x))"; fastforce)
next
  assume "b \<in> refs (bbs st)"
  then obtain x blk T where x: "bbs st x = Some blk" "terminator blk = Some T" "b \<in> set (succs T)" by (auto simp: refs_def)
  then have "x \<in> set [0..<nextBB st]" using assms by (auto simp: tidy_def)
  then show "hasPredecessor b st" using x by (auto simp: hasPredecessor_def list_ex_iff intro!: bexI [of _ x])
qed

lemma finishBody_valid:
  assumes "accounted isOpen {} K {} st" "ends st = {}" "tents st = {}" "finishBody st = Some st'"
  shows "validBlocks (bbs st')"
proof -
  note a = accountedD [OF assms(1)]
  have un: "unterminated (bbs st) b \<Longrightarrow> b = scopebb st" for b using a(10) assms(2,3) by auto
  then have rest: "\<forall>b\<in>dom (bbs st) - {scopebb st}. terminated (bbs st) b" using dom_cases by (metis DiffE insertCI)
  have refs: "refs (bbs st) \<subseteq> dom (bbs st)" using a(3) by (simp add: tidy_def)
  consider (erased) "\<not> hasPredecessor (scopebb st) st" "st' = eraseFromParent (scopebb st) st"
    | (returned) "scopereturned st" "st' = st" | (ended) "terminate (scopebb st) (OtherTerminator []) st = Some st'"
  proof (cases "\<not> hasPredecessor (scopebb st) st \<and> scopebb st \<noteq> 0")
    case True
    then show thesis using erased assms(4) by (simp add: finishBody_def eraseDummyAfterReturnBB_def)
  next
    case False
    then show thesis using returned ended assms(4) unfolding finishBody_def eraseDummyAfterReturnBB_def if_not_P [OF False] by (cases "scopereturned st") simp_all
  qed
  then show ?thesis
  proof cases
    case erased
    have "scopebb st \<notin> refs (bbs st)" using erased(1) hasPredecessor_iff [OF a(3)] by simp
    then show ?thesis using rest refs refs_erase [of "bbs st" "scopebb st"] unfolding validBlocks_def erased(2)
      by (auto simp: eraseFromParent_def terminated_def split: if_splits)
  next
    case returned
    then have "\<not> isOpen" using a(11) by simp
    then have "terminated (bbs st) (scopebb st)" using assms(1) by (simp add: accounted_def)
    then show ?thesis using rest refs unfolding validBlocks_def returned(2) by auto
  next
    case ended
    note t = accounted_terminate [OF accounted_mono [OF assms(1), of "{}" "{}"] ended]
    have acc: "accounted False {} {} {} st'" by (rule t(1)) simp_all
    have same: "ends st' = {}" "tents st' = {}"
      using ended assms(2,3) by (auto simp: terminate_def ends_def tents_def gotos_def split: Option.bind_splits if_splits)
    have "terminated (bbs st') (scopebb st')" using acc by (simp add: accounted_def)
    then show ?thesis using accountedD(10) [OF acc] accountedD(3) [OF acc] same dom_cases [of _ "bbs st'"] not_both unfolding validBlocks_def tidy_def by blast
  qed
qed

section \<open>Start and end of a function\<close>

definition noStacks :: stacks where
  "noStacks = \<lparr>cleanups = [], tries = [], breaks = [], continues = []\<rparr>"

definition functionGhost :: "ptr set \<Rightarrow> ghost" where
  "functionGhost Z = \<lparr>casesHere = {}, mayCreate = Z, tableBefore = Map.empty\<rparr>"

abbreviation "emptyFunction \<equiv> initialToIRState entryIRState"

lemma start_fields:
  "TryCatchFinallyScopes.truncate emptyFunction = initialScopes entryIRState" "bbs emptyFunction = [0 \<mapsto> emptyBB]" "nextBB emptyFunction = 1" "scopebb emptyFunction = 0"
  "cleanupScopes emptyFunction = []" "tryCatchScopes emptyFunction = []" "unresolvedGotosPerCleanupScope emptyFunction = [[]]"
  "landingPadsPerCleanupScope emptyFunction = [[]]" "resumeUnwindBlock emptyFunction = None" "labelTargets emptyFunction = Map.empty"
  "breakTargets emptyFunction = []" "continueTargets emptyFunction = []" "targetBBs emptyFunction = Map.empty" "retBlock emptyFunction = None"
  by (simp_all add: initialToIRState_def initialFuncGenState_def initialScopes_def entryIRState_def FuncGenState.FuncGenState.extend_def
      TryCatchFinallyScopes.extend_def TryCatchFinallyScopes.truncate_def IRState.extend_def)

lemma start_asrt: "asrt (functionGhost Z) {} Z Opened {#} {} noStacks emptyFunction"
proof -
  have "refs [0 \<mapsto> emptyBB] = {}" by (auto simp: refs_def emptyBB_def)
  then have t: "tidy emptyFunction" by (auto simp: tidy_def start_fields known_def tents_def gotos_def pads_def)
  have "accounted True {} {} {} emptyFunction" unfolding accounted_def
    using start_good [OF start_fields(1)] t by (auto simp: start_fields unterminated_def emptyBB_def ends_def tents_def gotos_def split: if_splits)
  moreover have "held emptyFunction = {}" "ahead {} emptyFunction = {}" by (simp_all add: held_def ahead_def start_fields)
  ultimately have "balanced Opened {#} {} {} emptyFunction" by (auto simp: balanced_def start_fields)
  then show ?thesis by (simp add: asrt_def tableOK_def stacksOK_def functionGhost_def noStacks_def start_fields pairs_def)
qed

lemma start_emitted: "emitted emptyFunction (asrt (functionGhost Z) {} Z Opened {#} {} noStacks) emptyFunction"
  by (rule emitted_refl) (rule start_asrt)

lemma pushEpilog_eq: "pushEpilog = pushVarDtorCleanup Some"
  by (rule ext) (simp add: pushEpilog_def pushVarDtorCleanup_def insertBB_def SetInsertPoint_def pushCleanup_def newCleanupScope_def Let_def)

lemma elemOK_pushEpilog: "elemOK (if b then pushEpilog else Some)"
  using elemOK_pushVarDtorCleanup [OF plainOK_Some(1)] plainOK_Some(2) by (simp add: pushEpilog_eq)

text \<open>The last step before the end: no cleanup is left, and no block waits.\<close>

definition allClosed :: "ToIRState \<Rightarrow> bool" where
  "allClosed st \<longleftrightarrow> (\<exists>isOpen. accounted isOpen {} {} {} st) \<and> pairs st = []"

lemma asrt_allClosed:
  assumes "asrt \<Gamma> {} Z fl {#} K X st" "cleanups X = []"
  shows "allClosed st"
proof -
  obtain isOpen where "accounted isOpen {} (K \<union> held st) (set_option (retBlock st)) st" using assms(1) by (auto simp: asrt_def ahead_def elim: balancedE)
  then have "accounted isOpen {} {} {} st" by (rule accounted_mono) simp_all
  then show ?thesis using asrtD(4) [OF assms(1)] assms(2) by (auto simp: allClosed_def)
qed

lemma accounted_retBlock:
  fixes st :: ToIRState
  assumes "accounted isOpen {} K {} st" "insertBB st = (b, st1)" "runCleanups 0 b (st1\<lparr>retBlock := Some b\<rparr>) = Some st2"
    "popCleanups 0 (SetInsertPoint b st2) = Some st3" "tryCatchScopes st = []" "nextBB st3 < 2 ^ 32"
  shows "allClosed st3 \<and> codegen st st3"
proof -
  have st1: "st1 = snd (insertBB st)" "b = nextBB st" using assms(2) by (auto simp: insertBB_def)
  let ?st1 = "st1\<lparr>retBlock := Some b\<rparr>"
  have r: "runCleanups_from (currentCleanupScope ?st1) 0 b ?st1 = Some st2" using assms(3) by (simp add: runCleanups_def)
  have n: "nextBB st2 \<le> nextBB st3" "nextBB st2 = Suc (nextBB st)"
    using popCleanups_grows [OF assms(4)] runCleanups_from_shape(1) [OF r] by (simp_all add: st1 insertBB_def SetInsertPoint_def)
  then have "Suc (nextBB st) < 2 ^ 32" using assms(6) by simp
  note i = accounted_insert [OF assms(1) this, folded st1]
  have tr: "TryCatchFinallyScopes.truncate ?st1 = TryCatchFinallyScopes.truncate st1" by (simp add: TryCatchFinallyScopes.truncate_def)
  note m = accounted_more [OF i(1) tr]
  have bK: "b \<in> insert b K" by simp
  note ru = accounted_run [OF m(1) assms(3) bK]
  note mo = accounted_move [OF ru(1) empty_iff [THEN iffD1, THEN notI], folded SetInsertPoint_def]
  have t: "\<forall>tc\<in>set (tryCatchScopes (SetInsertPoint b st2)). cleanupScope tc \<le> 0"
    using assms(5) ru(4) by (simp add: SetInsertPoint_def st1 insertBB_def)
  have rf: "ranFrom 0 (SetInsertPoint b st2)" using ru(7) by simp
  note po = accounted_pop [OF mo(1) assms(4) rf t assms(6)]
  have "allClosed st3" unfolding allClosed_def using accounted_mono [OF po(1), of "{}" "{}"] po(3) by auto
  then show ?thesis using codegen_trans [OF po(2) codegen_trans [OF mo(2) codegen_trans [OF ru(2) codegen_trans [OF m(2) i(2)]]]] by simp
qed

lemma emitted_runEpilogs:
  assumes "emitted st0 (asrt \<Gamma> {} Z Opened {#} K X) st" "runEpilogs st = Some st'" "tries X = []"
  shows "emitted st0 allClosed st'"
proof (cases "scopes_empty st")
  case True
  then have st': "st' = st" using assms(2) by (simp add: runEpilogs_def)
  show ?thesis unfolding st' using assms(1)
  proof (rule emitted_weaken)
    assume a: "asrt \<Gamma> {} Z Opened {#} K X st"
    have "cleanups X = []" using asrtD(4) [OF a] True by (simp add: scopes_empty_def pairs_def)
    then show "allClosed st" by (rule asrt_allClosed [OF a])
  qed
next
  case False
  then obtain st1 where eqs: "enterRetBlock st = Some st1" "popCleanups 0 st1 = Some st'" using assms(2) by (auto simp: runEpilogs_def split: Option.bind_splits)
  show ?thesis
  proof (cases "scopereturned st")
    case True
    then have st1: "st1 = st" using eqs(1) by (simp add: enterRetBlock_def)
    from assms(1) have "emitted st0 (\<lambda>_. False) st" by (rule emitted_weaken) (use asrt_opened True in blast)
    then show ?thesis by (rule emitted_step) (use popCleanups_grows [OF eqs(2)] st1 in auto)
  next
    case op: False
    show ?thesis
    proof (cases "retBlock st")
      case None
      obtain b st2 st3 where st2: "insertBB st = (b, st2)" "runCleanups 0 b (st2\<lparr>retBlock := Some b\<rparr>) = Some st3" "st1 = SetInsertPoint b st3"
        using eqs(1) op None by (auto simp: enterRetBlock_def getOrCreateRetBlock_def split: prod.splits Option.bind_splits)
      have "nextBB st \<le> nextBB st'"
        using popCleanups_grows [OF eqs(2)] runCleanups_from_shape(1) [OF st2(2) [unfolded runCleanups_def]] st2(1,3) by (auto simp: insertBB_def SetInsertPoint_def)
      with assms(1) show ?thesis
      proof (rule emitted_step)
        assume a: "asrt \<Gamma> {} Z Opened {#} K X st" and n: "nextBB st' < 2 ^ 32"
        have acc: "accounted True {} (K \<union> held st) {} st" using a None by (auto simp: asrt_def balanced_def ahead_def)
        show "allClosed st' \<and> codegen st st'"
          by (rule accounted_retBlock [OF acc st2(1,2) eqs(2) [unfolded st2(3)] _ n]) (use asrtD(5) [OF a] assms(3) in simp)
      qed
    next
      case (Some b)
      obtain st2 where st2: "runCleanups 0 b st = Some st2" "st1 = SetInsertPoint b st2"
        using eqs(1) op Some by (auto simp: enterRetBlock_def getOrCreateRetBlock_def split: Option.bind_splits)
      have s2: "emitted st0 (\<lambda>s. asrt \<Gamma> {} Z Closed {#} K X s \<and> ranFrom 0 s) st2" by (rule emitted_run [OF assms(1) st2(1)]) (simp add: Some)
      have rb: "retBlock st2 = Some b" using Some more_fields(5) [of st2 st] runCleanups_from_shape(2) [OF st2(1) [unfolded runCleanups_def]] by (simp add: sameScopes_def)
      let ?X = "X\<lparr>cleanups := []\<rparr>"
      have "emitted st0 (asrt \<Gamma> {} Z Closed {#} K X) st2" by (rule emitted_weaken [OF s2]) simp
      from emitted_revisit [OF this rb] have "emitted st0 (asrt \<Gamma> {} Z Closed {#} K (?X\<lparr>cleanups := cleanups ?X @ cleanups X\<rparr>)) st1" by (simp add: st2(2))
      then have "emitted st0 (\<lambda>s. asrt \<Gamma> {} Z Closed {#} K (?X\<lparr>cleanups := cleanups ?X @ cleanups X\<rparr>) s \<and> ranFrom 0 s \<and> enclosing 0 ?X) st1"
        using s2 assms(3) unfolding emitted_def st2(2) by (auto simp: enclosing_def SetInsertPoint_def ranFrom_def pairs_def)
      from emitted_pop [OF this eqs(2)] show ?thesis by (rule emitted_weaken) (erule asrt_allClosed, simp)
    qed
  qed
qed

section \<open>The function\<close>

lemma emitted_toIR:
  assumes "admissible E" "dcomputetarget E = None" "okBody E fbody" "toIR E fbody st = Some st'"
    "emitted st0 (asrt (functionGhost (set (casesBelow fbody))) {} (set (casesBelow fbody)) Opened {#} K X) st"
  shows "emitted st0 (asrt (functionGhost (set (casesBelow fbody))) {} {} Opened {#} K X) st'"
proof -
  have b: "okStmt E {} fbody" "casesIn fbody = []" "distinct (casesIn fbody @ casesBelow fbody)" "\<not> closes fbody" using assms(3) by (simp_all add: okBody_def)
  have "stmtOK {} {} (set (casesBelow fbody)) False (toIR E fbody)" using toIR_kept [OF assms(1,2) b(1,3)] b(2,4) by (simp add: keepsAccounts_def)
  from stmtOKD [OF this assms(5,4)] show ?thesis by (simp add: functionGhost_def)
qed

lemma emitted_functionBody:
  assumes "admissible E" "dcomputetarget E = None" "okBody E fbody" "emitFunctionBody E isNaked trace variadic fbody emptyFunction = Some st"
  shows "\<exists>st1. emitted emptyFunction allClosed st1 \<and> finishBody st1 = Some st"
proof (cases isNaked)
  case True
  then obtain st1 where st1: "toIR E fbody emptyFunction = Some st1" "finishBody st1 = Some st"
    using assms(4) by (auto simp: emitFunctionBody_def split: Option.bind_splits)
  from emitted_toIR [OF assms(1-3) st1(1) start_emitted] have "emitted emptyFunction allClosed st1"
    by (rule emitted_weaken) (erule asrt_allClosed, simp add: noStacks_def)
  then show ?thesis using st1(2) by blast
next
  case False
  then obtain st1 st2 st3 st4 st5 where eqs: "(if trace then pushEpilog else Some) emptyFunction = Some st1" "(if variadic then pushEpilog else Some) st1 = Some st2"
      "emitIncrement E (addr fbody) st2 = Some st3" "toIR E fbody st3 = Some st4" "runEpilogs st4 = Some st5" "finishBody st5 = Some st"
    using assms(4) unfolding emitFunctionBody_def by (auto split: Option.bind_splits simp del: if_split)
  let ?Z = "set (casesBelow fbody)"
  obtain n1 where "emitted emptyFunction (asrt (functionGhost ?Z) {} ?Z Opened {#} {} (noStacks\<lparr>cleanups := cleanups noStacks @ n1\<rparr>)) st1"
    using elemOKD [OF elemOK_pushEpilog start_emitted eqs(1)] by blast
  from elemOKD [OF elemOK_pushEpilog this eqs(2)] obtain n2 where
    "emitted emptyFunction (asrt (functionGhost ?Z) {} ?Z Opened {#} {} (noStacks\<lparr>cleanups := cleanups noStacks @ n1 @ n2\<rparr>)) st2" by auto
  from emitted_runEpilogs [OF emitted_toIR [OF assms(1-3) eqs(4) emitted_emitIncrement [OF this eqs(3)]] eqs(5)]
  have "emitted emptyFunction allClosed st5" by (simp add: noStacks_def)
  then show ?thesis using eqs(6) by blast
qed

lemma finishBody_frame:
  assumes "finishBody st = Some st'"
  shows "nextBB st' = nextBB st" "finishScopes st' = finishScopes st"
proof -
  have "st' = st \<or> (\<exists>m. st' = st\<lparr>bbs := m\<rparr>)" using assms
    by (auto simp: finishBody_def eraseDummyAfterReturnBB_def eraseFromParent_def terminate_def Let_def split: if_splits Option.bind_splits)
  then show "nextBB st' = nextBB st" "finishScopes st' = finishScopes st"
    by (auto simp: finishScopes_def currentCleanupScope_def currentUnresolvedGotos_def)
qed

lemma allClosed_tents:
  assumes "allClosed st" "finishScopes st = Some (Inr ())"
  shows "ends st = {}" "tents st = {}"
proof -
  obtain isOpen where acc: "accounted isOpen {} {} {} st" using assms(1) by (auto simp: allClosed_def)
  show "ends st = {}" using assms(1) by (simp add: allClosed_def ends_pairs)
  have n: "cleanupScopes st = []" using assms(1) by (simp add: allClosed_def pairs_def)
  then have "length (unresolvedGotosPerCleanupScope st) = 1" using accountedD(2) [OF acc] by (simp add: wf_def wfg_def base_def)
  then obtain gs where gs: "unresolvedGotosPerCleanupScope st = [gs]" by (cases "unresolvedGotosPerCleanupScope st") auto
  have "gs = []" using assms(2) by (auto simp: finishScopes_def currentCleanupScope_def currentUnresolvedGotos_def n gs split: if_splits)
  then show "tents st = {}" by (simp add: tents_def gotos_def gs)
qed

lemma functionBody_valid:
  assumes "admissible E" "dcomputetarget E = None" "okBody E fbody" "emitFunctionBody E isNaked trace variadic fbody emptyFunction = Some st"
    "nextBB st < 2 ^ 32" "finishScopes st = Some (Inr ())"
  shows "validBlocks (bbs st)"
proof -
  obtain st1 where st1: "emitted emptyFunction allClosed st1" "finishBody st1 = Some st" using emitted_functionBody [OF assms(1-4)] by blast
  note f = finishBody_frame [OF st1(2)]
  have s: "allClosed st1" using st1(1) assms(5) f(1) by (simp add: emitted_def)
  note t = allClosed_tents [OF s assms(6) [unfolded f(2)]]
  obtain isOpen where "accounted isOpen {} {} {} st1" using s by (auto simp: allClosed_def)
  from finishBody_valid [OF this t st1(2)] show ?thesis .
qed

end
