(* ===== verification/StatementProperties.thy ===== *)
theory StatementProperties
  imports EmittedFunction
begin

text \<open>
  The theorems about emitted functions, with an instance: a loop around a \<open>try\<close>-\<open>finally\<close> statement
  whose body returns the result of a call that may throw.
\<close>

section \<open>An example\<close>

text \<open>Expressions evaluate their operands; the one at address 13 calls a function that may throw.\<close>

definition sampleElem :: "ptr \<Rightarrow> emit list \<Rightarrow> emit" where
  "sampleElem p ops st = do {
     st1 \<leftarrow> seqEmit ops st;
     if p = 13 then map_option snd (callOrInvoke True (Some \<lparr>isIntrinsic = False, calleeDoesNotThrow = False\<rparr>) False st1)
     else Some st1 }"

definition sampleEnv :: ToIREnv where
  "sampleEnv =
     \<lparr>pgo = CodeGenPGO_init, isInstrumenting = False, useExceptions = True, fEmitLocalVarLifetime = False, dcomputetarget = None,
      checkActionC = False, checkActionHalt = False, useAssert = True, otherElem = sampleElem, constCond = (\<lambda>_. None),
      dcReflect = (\<lambda>_. None), needsScopeDtor = (\<lambda>_. False), labelIdent = (\<lambda>_. 0), labelStatement = (\<lambda>_. Null),
      gotoLabel = (\<lambda>_. None), gotoLoc = (\<lambda>_. 0), relatedLabeled = (\<lambda>_. Null), switchCases = (\<lambda>_. []), sdefault = (\<lambda>_. None),
      caseIsConst = (\<lambda>_. True), caseElem = (\<lambda>_. Some), gotoDefaultTarget = (\<lambda>_. 0), gotoCaseTarget = (\<lambda>_. 0),
      catchClass = (\<lambda>_. []), exceptionClass = 0, isCPPcatch = (\<lambda>p. p = 30), cxaEndCatch = (\<lambda>_. 40)\<rparr>"

definition sampleBody :: "ptr ast" where
  "sampleBody = CompoundStatement 1
     [WhileStatement 2 (Leaf Expression 3)
        (TryFinallyStatement 4 (ReturnStatement 12 (Leaf Expression 13)) (ExpStatement 14 (Leaf Expression 15))),
      ReturnStatement 16 (Leaf Expression 17)]"

lemma seqEmit_OK: "(\<forall>f\<in>set ops. elemOK f) \<Longrightarrow> elemOK (seqEmit ops)" "(\<forall>f\<in>set ops. plainOK f) \<Longrightarrow> plainOK (seqEmit ops)"
  by (induction ops) (simp_all add: seqEmit_simps plainOK_Some elemOK_bind plainOK_bind)

lemma sampleElem_bind: "sampleElem p ops = (\<lambda>st. seqEmit ops st \<bind> (if p = 13 then callRuntime sampleEnv else Some))"
proof -
  have "useExceptions sampleEnv" by (simp add: sampleEnv_def)
  then show ?thesis by (cases "p = 13") (simp_all add: sampleElem_def [abs_def] callRuntime_def [abs_def])
qed

lemma sampleElem_OK:
  "(\<forall>f\<in>set ops. elemOK f) \<Longrightarrow> elemOK (sampleElem p ops)" "(\<forall>f\<in>set ops. plainOK f) \<Longrightarrow> plainOK (sampleElem p ops)"
  unfolding sampleElem_bind
  by (simp_all add: elemOK_bind seqEmit_OK(1) plain_elem [OF plainOK_callRuntime] plainOK_bind seqEmit_OK(2) plainOK_callRuntime plainOK_Some)

lemma sample_admissible: "admissible sampleEnv"
proof -
  have "otherElem sampleEnv = sampleElem" "caseElem sampleEnv = (\<lambda>_. Some)" by (simp_all add: sampleEnv_def)
  then show ?thesis by (simp add: admissible_def sampleElem_OK)
qed

definition sampleCheck :: "ToIRState option \<Rightarrow> bool" where
  "sampleCheck r = (case r of None \<Rightarrow> False | Some st \<Rightarrow> nextBB st < 99 \<and> finishScopes st = Some (Inr ()) \<and> \<not> Option.is_none (bbs st 3))"

lemma sampleBody_eval: "sampleCheck (emitFunctionBody sampleEnv False False False sampleBody emptyFunction)"
  by code_simp

lemma sampleBody_toIR: "case toIR sampleEnv sampleBody emptyFunction of None \<Rightarrow> False | Some st \<Rightarrow> nextBB st < 99"
  by code_simp

lemma sampleBody_ok: "okBody sampleEnv sampleBody"
  by code_simp

section \<open>Properties\<close>

text \<open>
  C37: The function that is emitted is well formed: every basic block ends in a terminator, and
  every branch, whichever statement, cleanup or landing pad it comes from, goes to a block that is in
  the function. Assumed are: no device code, fewer than \<open>2\<^sup>3\<^sup>2\<close> blocks, and no goto reported as unresolved;
  of the body (\<open>okBody\<close>), that cases and defaults belong to a switch around them and are distinct, that a
  \<open>goto case\<close> goes to a case of its switch, that a try has catches, that the statement for a missing case
  comes last in a compound statement and only inside a switch, and that no case stands below a
  \<open>__dcompute_reflect\<close> condition; and of the emission of expressions that are not modelled (\<open>admissible\<close>), that
  it goes through the steps of the relation \<open>codegen\<close>, terminates the blocks it leaves, ends in an open one,
  and leaves no scopes open except cleanups of temporaries, if that holds of the operands.
\<close>

theorem emitted_function_valid:
  assumes "admissible E" "dcomputetarget E = None" "okBody E fbody"
    and "emitFunctionBody E isNaked trace isDstyleVariadic fbody emptyFunction = Some st"
    and "nextBB st < 2 ^ 32" "finishScopes st = Some (Inr ())" "bbs st b = Some blk"
  shows "\<exists>T. terminator blk = Some T \<and> set (succs T) \<subseteq> dom (bbs st)"
  by (rule validBlocksD [OF functionBody_valid [OF assms(1-6)] assms(7)])

theorem emitted_function_valid_witness:
  "\<exists>st blk T. emitFunctionBody sampleEnv False False False sampleBody emptyFunction = Some st \<and> bbs st 3 = Some blk
     \<and> terminator blk = Some T \<and> set (succs T) \<subseteq> dom (bbs st)"
proof -
  from sampleBody_eval obtain st blk where st: "emitFunctionBody sampleEnv False False False sampleBody emptyFunction = Some st"
      "nextBB st < 99" "finishScopes st = Some (Inr ())" "bbs st 3 = Some blk"
    by (auto simp: sampleCheck_def Option.is_none_def split: option.splits)
  have d: "dcomputetarget sampleEnv = None" and n: "nextBB st < 2 ^ 32" using st(2) by (simp_all add: sampleEnv_def)
  from emitted_function_valid [OF sample_admissible d sampleBody_ok st(1) n st(3,4)] st(1,4) show ?thesis by blast
qed

text \<open>
  C38: Emitting the body of a function is one of the runs that the step relation describes, so that
  what is proved of cleanups, gotos, landing pads and jumps holds in it: the statements respect the
  premises of its rules. The assumptions on the body and on the other expressions are those of the
  previous theorem. Whatever the statement, all scopes and jump targets that were opened are
  closed again, the current block is open, and of the other blocks only those wait for a terminator
  that stand for labels of gotos not seen yet.
\<close>

theorem emitted_statement_balanced:
  assumes "admissible E" "dcomputetarget E = None" "okBody E fbody" "toIR E fbody emptyFunction = Some st" "nextBB st < 2 ^ 32"
  shows "reachable st \<and> \<not> scopereturned st
     \<and> cleanupScopes st = [] \<and> tryCatchScopes st = [] \<and> breakTargets st = [] \<and> continueTargets st = []
     \<and> (\<forall>b blk. bbs st b = Some blk \<longrightarrow> terminator blk = None \<longrightarrow> b = scopebb st \<or> b \<in> tents st)"
proof -
  let ?Z = "set (casesBelow fbody)"
  have "emitted emptyFunction (asrt (functionGhost ?Z) {} {} Opened {#} {} noStacks) st"
    by (rule emitted_toIR [OF assms(1-4) start_emitted])
  with assms(5) have a: "asrt (functionGhost ?Z) {} {} Opened {#} {} noStacks st" and c: "codegen emptyFunction st"
    by (auto simp: emitted_def)
  have r: "reachable st" unfolding reachable_def using start_fields(1) c by blast
  have p: "cleanupScopes st = []" "tryCatchScopes st = []" "breakTargets st = []" "continueTargets st = []"
    using asrtD(4,5,8,9) [OF a] by (simp_all add: noStacks_def pairs_def)
  have "balanced Opened {#} {} {} st" using a by (simp add: asrt_def)
  then obtain isOpen where "accounted isOpen (set_mset {#} \<union> ahead {} st) ({} \<union> held st) (set_option (retBlock st)) st"
    by (rule balancedE)
  then have acc: "accounted isOpen {} (held st) (set_option (retBlock st)) st" by (simp add: ahead_def)
  have o: "\<not> scopereturned st" using asrt_opened [OF a] .
  have "b = scopebb st \<or> b \<in> tents st" if "bbs st b = Some blk" "terminator blk = None" for b blk
  proof -
    have "unterminated (bbs st) b" using that by (simp add: unterminated_def)
    from accountedD(10) [OF acc this] p(1) show ?thesis by (simp add: ends_def)
  qed
  with r o p show ?thesis by blast
qed

theorem emitted_statement_balanced_witness:
  "\<exists>st. toIR sampleEnv sampleBody emptyFunction = Some st \<and> reachable st \<and> \<not> scopereturned st \<and> cleanupScopes st = []
     \<and> tryCatchScopes st = []"
proof -
  from sampleBody_toIR obtain st where st: "toIR sampleEnv sampleBody emptyFunction = Some st" "nextBB st < 99"
    by (auto split: option.splits)
  have d: "dcomputetarget sampleEnv = None" and n: "nextBB st < 2 ^ 32" using st(2) by (simp_all add: sampleEnv_def)
  from emitted_statement_balanced [OF sample_admissible d sampleBody_ok st(1) n] st(1) show ?thesis by blast
qed

text \<open>
  C39: A function with a handler for a C++ exception cannot be instrumented. The handler is wrapped
  in a \<open>try\<close>-\<open>finally\<close> statement that is created while it is emitted, so the walk that numbered the
  counters has not seen it, and the assertion that the statement has a counter fails.
\<close>

theorem cpp_catch_not_instrumentable:
  assumes "isInstrumenting E" "emitInstrumentation (pgo E)" "RegionCounterMap (pgo E) = Some m"
    and "isCPPcatch E (catchAddr c)" "hasHandler c" "map_of m (cxaEndCatch E (catchAddr c)) = None" "\<not> scopereturned st"
  shows "emitCatchHandler E c st = None"
proof -
  let ?p = "cxaEndCatch E (catchAddr c)"
  have none: "emitIncrement E ?p st' = None" for st'
    using assms(1-3,6) by (simp add: emitIncrement_def emitCounterIncrement_def)
  have "leaveTry E ?p d k (Some b) st' = None" for d k b st'
    using none by (auto simp: leaveTry_def split: Option.bind_splits)
  then show ?thesis
    using assms(4,5,7)
    by (auto simp: emitCatchHandler_def toIR_TryFinally_def insertSuccessBB_def insertBB_def Let_def split: Option.bind_splits)
qed

definition instrumentedEnv :: ToIREnv where
  "instrumentedEnv = sampleEnv\<lparr>isInstrumenting := True,
     pgo := CodeGenPGO_init\<lparr>emitInstrumentation := True, RegionCounterMap := Some [(1, 0), (20, 1), (30, 2)]\<rparr>\<rparr>"

theorem cpp_catch_not_instrumentable_witness:
  "emitCatchHandler instrumentedEnv \<lparr>catchAddr = 30, hasHandler = True, emitHandler = Some\<rparr> emptyFunction = None"
proof -
  have "isInstrumenting instrumentedEnv" "emitInstrumentation (pgo instrumentedEnv)"
    "RegionCounterMap (pgo instrumentedEnv) = Some [(1, 0), (20, 1), (30, 2)]"
    "isCPPcatch instrumentedEnv 30" "cxaEndCatch instrumentedEnv 30 = 40"
    by (simp_all add: instrumentedEnv_def sampleEnv_def)
  moreover have "\<not> scopereturned emptyFunction" by (simp add: scopereturned_def start_fields emptyBB_def)
  moreover have "map_of [(1, 0 :: nat), (20, 1), (30, 2)] (40 :: ptr) = None" by code_simp
  ultimately show ?thesis
    by (intro cpp_catch_not_instrumentable [of instrumentedEnv "[(1, 0), (20, 1), (30, 2)]"]) simp_all
qed

end
