(* ===== verification/Spec2Isabelle.thy ===== *)
theory Spec2Isabelle
  imports PGOProperties CallProperties CleanupProperties BitFields StatementProperties
begin

text \<open>
  A verification development for LDC, the LLVM-based compiler for the D language.

  LDC consists of the D front end (D code under dmd/, seen by the rest through C++ headers), the
  code generator in C++ (gen/ and ir/), which turns the analysed syntax tree into LLVM IR, the
  driver (driver/), and the run-time libraries. The development models parts of the code
  generator in which C++ code computes something on its own, rather than calling LLVM, and on
  which the meaning of the compiled program depends.

  \<^bold>\<open>Profile-guided optimisation\<close> (gen/pgo_ASTbased.cpp and .h, gen/recursivevisitor.h). An
  instrumented build numbers the control-flow regions of every function and increments a counter
  where each is entered; a later build reads the counters back and derives how often every
  statement ran.

  \<^item> \<open>AST\<close>: the syntax tree, one constructor per node class that the traversals tell apart, with
    the address of the node, so that maps keyed by node pointers can be modelled as they are.
  \<^item> \<open>RecursiveWalker\<close>: the depth-first walker with its stoppable visitors. Two locales state what
    a visitor has to promise for the walk to keep an invariant, or to visit in pre-order.
  \<^item> \<open>PGOHash\<close>: the control-flow hash; MD5 is a parameter.
  \<^item> \<open>MapRegionCounters\<close>: the numbering of regions; interprets both locales.
  \<^item> \<open>ComputeRegionCounts\<close>: the propagation of counts, every method of the visitor. A failed
    assertion or an access out of range is \<open>None\<close>.
  \<^item> \<open>PGOSemantics\<close>, \<open>PGORuns\<close>, \<open>PGOExactness\<close>, \<open>PGOLoops\<close>, \<open>PGORegions\<close>, \<open>PGOCorrect\<close>,
    \<open>PGOMain\<close>, \<open>PGOEndToEnd\<close>: the executions of the structured part of the language (no \<open>switch\<close>,
    no \<open>goto\<close>) with the counters they increment, and the proof that the propagated counts are the
    true ones, in the arithmetic of 64-bit words.
  \<^item> \<open>CodeGenPGO\<close>: the rest of the class: loading of profiles, branch weights, value profiling; and
    the weights that the five loop statements of gen/statements.cpp ask it for.
  \<^item> \<open>PGOProperties\<close>: the theorems, with instances.

  \<^bold>\<open>Types, layout and calling conventions\<close> (ir/, gen/tollvm.cpp, gen/abi/, gen/functions.cpp).

  \<^item> \<open>LLTypes\<close>: LLVM types. LLVM's \<open>DataLayout\<close> is a parameter; \<open>datalayout\<close> states what the LLVM
    language reference promises of it (alignments are powers of two, struct elements are laid out
    in order at the next aligned offset), \<open>foldableLayout\<close> what it promises of scalars.
  \<^item> \<open>AggrTypeBuilder\<close>: the builder of LLVM struct types (ir/irtypeaggr.cpp) with bit-field groups;
    \<open>AggrLayout\<close>: its invariant and that every operation preserves it.
  \<^item> \<open>DTypes\<close>: D types and their translation; \<open>AggregateTypes\<close>: class types, interface maps and
    member access. What the D front end has computed (sizes, offsets, alignments, argument types) is
    a parameter, the record \<open>FrontEnd\<close>; \<open>frontEndLayout\<close>, \<open>classLayout\<close>, \<open>looksThroughEnums\<close> and
    \<open>frontEndABI\<close> state what the code relies on.
  \<^item> \<open>IrFuncTypes\<close>: descriptions of functions and arguments with their attributes.
  \<^item> \<open>ABIRewrites\<close>: the rewrites of arguments and results: their types and attributes, and the
    equivalence test that makes a rewrite superfluous.
  \<^item> \<open>TargetABI\<close>: the virtual methods of the interface as a record, and the locale \<open>target_abi\<close>,
    the contract of \<open>rewriteFunctionType\<close>: it may change types, attributes and the order of
    arguments but neither invents nor retypes a D parameter. \<open>X86_64ABI\<close>, \<open>WindowsABI\<close>, \<open>ArmABI\<close>
    and \<open>OtherABIs\<close> define the sixteen ABIs and interpret the locale for each.
  \<^item> \<open>FunctionType\<close>: the choice of the ABI for a target, the translation of function types, and the
    description of the arguments of variadic calls (gen/tocall.cpp).
  \<^item> \<open>SampleTarget\<close>: a concrete data layout and front end, for the examples.
  \<^item> \<open>AggregateProperties\<close>, \<open>ABIProperties\<close>, \<open>CallProperties\<close>: the theorems, with instances. The
    locale \<open>returns_in_step\<close> is the agreement of \<open>returnInArg\<close> and \<open>rewriteFunctionType\<close> about
    values that have to be returned in memory, which only RISC-V breaks, for types of size 0.

  \<^bold>\<open>Bit fields\<close> (gen/dvalue.cpp, gen/toir.cpp). \<open>BitFields\<close>: loads and stores of bit fields and
  their initialisation in struct literals, down to the bytes of memory in either byte order, and the
  theorems: what is stored is read back, and when two fields disturb each other.

  \<^bold>\<open>Leaving scopes\<close> (gen/trycatchfinally.cpp and .h, gen/funcgenstate.cpp and .h). Cleanups
  (\<open>finally\<close> blocks, destructors) are emitted once and shared by every way of leaving their scope;
  branch selector variables tell the end of a cleanup where to continue. Gotos to labels that are
  not known yet are redirected through the cleanups of the scopes they turn out to leave.

  \<^item> \<open>TryCatchFinally\<close>: the stacks of scopes and their operations, over a map of basic blocks that
    keeps terminators, stores to branch selectors and landing pads.
  \<^item> \<open>FuncGenState\<close>: targets of \<open>break\<close>, \<open>continue\<close> and labels, and \<open>callOrInvoke\<close>.
  \<^item> \<open>CleanupRoutes\<close>, \<open>CleanupInvariant\<close>, \<open>CleanupSteps\<close>, \<open>CleanupOps\<close>: the routes of control through
    the blocks, the invariant of the scopes, and that every operation keeps it and every route.
  \<^item> \<open>LandingPads\<close>, \<open>PadCache\<close>: the specification \<open>handlerOf\<close> of where an exception goes, and that
    landing pads, new or cached, implement it.
  \<^item> \<open>CodegenSteps\<close>: the code generator as a step relation: any operation of the classes, any
    emission of other code. The premises of its rules are what its clients have to respect: blocks
    that belong to the scopes are left alone, cleanup code does not touch the branch selectors of
    its scope, and a function has fewer than \<open>2\<^sup>3\<^sup>2\<close> blocks, so that selector values do not wrap.
    \<open>CleanupProgress\<close>: that the operations succeed. \<open>JumpTargets\<close>: the locale \<open>scope_stack\<close>, what
    the emission of jumps relies on, and its interpretation.
  \<^item> \<open>CleanupProperties\<close>: the theorems, with instances.

  \<^bold>\<open>Statements\<close> (gen/statements.cpp, gen/toir.cpp, gen/functions.cpp, gen/variable_lifetime.cpp). The
  client of the previous group: which basic blocks every statement creates, how it connects them, and
  which scopes, jump targets and counters it uses.

  \<^item> \<open>StatementIR\<close>: the visitor of statements, the expressions that branch or create cleanups, catch
    bodies, and the part of \<open>DtoDefineFunction\<close> around the body. Each method is a function on the
    state, given the emission of its children; other expressions are a parameter.
  \<^item> \<open>StatementChecks\<close>: what the front end guarantees of statement trees, as an executable predicate.
  \<^item> \<open>EmittedBlocks\<close>, \<open>EmittedScopes\<close>, \<open>EmittedPads\<close>, \<open>OpenBlocks\<close>: an account of which blocks still wait
    for a terminator and who is going to provide it, and how each operation on blocks, scopes and
    landing pads changes it.
  \<^item> \<open>StatementRules\<close>: the contracts of statements and expressions, stated with this account as pre- and
    postcondition, and rules for composition. \<open>StatementBlocks\<close>, \<open>StatementLoops\<close>, \<open>StatementTry\<close>,
    \<open>StatementSwitch\<close>: that every method meets its contract if its children do.
    \<open>StatementContracts\<close>: that every statement does, by induction; \<open>EmittedFunction\<close>: the whole function.
  \<^item> \<open>StatementProperties\<close>: the theorems, with instances.

  \<^bold>\<open>Conventions\<close> (\<open>Prelude\<close>). Machine integers keep their width where the code depends on it; sizes
  and offsets that the code keeps in 32-bit variables are naturals truncated by \<open>trunc32\<close>.
  A failed assertion, a fatal error or undefined behaviour is the result \<open>None\<close> of an option.
  All functions are total and executable; no fuel is used: every recursion follows a tree or a
  list, or has a measure (the index loop of \<open>tryResolveGotos\<close>).

  \<^bold>\<open>Not modelled.\<close> The D front end and the run-time libraries are not C++ code of the compiler. Most
  expressions only emit instructions through LLVM's \<open>IRBuilder\<close>; of these, and of the other instructions,
  nothing is kept but control flow, counters, lifetime markers and branch selectors. On targets with Microsoft's exception
  handling cleanups are copied instead of shared; that variant is not modelled. Debug
  information, run-time type information, inline assembly, the driver and the run-time compiler
  produce data for consumers outside the program. The caches that make LLVM types unique are not
  modelled, except the one of function types.
\<close>

end
